(* ===== verification/Prelude.thy ===== *)
theory Prelude
  imports Main "HOL-Library.Word"
begin

text \<open>
  Shared vocabulary of the development: the C integer types, the truth values C stores in
  an \<open>int\<close>, lemma collections the component theories fill, and the few facts on lists
  that more than one component needs.
\<close>

unbundle bit_operations_syntax

section \<open>C types\<close>

text \<open>
  \<open>int\<close> and \<open>unsigned\<close> are 32 bits wide, \<open>long\<close>, \<open>size_t\<close> of a
  64-bit build and pointers are 64 bits wide. Signedness is a matter of the operation:
  \<open>sint\<close>, \<open>signed_drop_bit\<close> and \<open><s\<close> for signed operands, \<open>unat\<close>,
  \<open>drop_bit\<close> and \<open><\<close> for unsigned ones.
\<close>

type_synonym int32 = "32 word"
type_synonym uint32 = "32 word"
type_synonym uint64 = "64 word"

text \<open>The result of code that may be stopped by a trap: a bad pointer, a division by zero, a failed \<open>assert\<close>.\<close>

datatype 'a outcome = Done 'a | Fault

text \<open>The value of a C comparison or of the operator \<open>!\<close>.\<close>

definition c_bool :: "bool \<Rightarrow> int32" where
  "c_bool p = (if p then 1 else 0)"

definition c_not :: "int32 \<Rightarrow> int32" where
  "c_not x = c_bool (x = 0)"

lemma c_bool_simps [simp]: "c_bool True = 1" "c_bool False = 0"
  by (simp_all add: c_bool_def)

lemma c_bool_eq_0 [simp]: "c_bool p = 0 \<longleftrightarrow> \<not> p"
  by (simp add: c_bool_def)

lemma c_bool_eq_1 [simp]: "c_bool p = 1 \<longleftrightarrow> p"
  by (simp add: c_bool_def)

lemma c_bool_inject [simp]: "c_bool p = c_bool q \<longleftrightarrow> p = q"
  by (simp add: c_bool_def)

lemma c_not_c_bool [simp]: "c_not (c_bool p) = c_bool (\<not> p)"
  by (simp add: c_not_def)

lemma unat_below: "n < 2 ^ 32 \<Longrightarrow> unat (of_nat n :: int32) = n"
  by (simp only: unat_of_nat) (simp add: take_bit_nat_eq_self_iff)

lemma sint_small: "w < 2 ^ 31 \<Longrightarrow> sint (of_nat w :: int32) = int w" "w \<le> 2 ^ 31 \<Longrightarrow> sint (- of_nat w :: int32) = - int w"
proof -
  show "w < 2 ^ 31 \<Longrightarrow> sint (of_nat w :: int32) = int w"
    by (simp add: signed_of_nat signed_take_bit_int_eq_self)
  assume "w \<le> 2 ^ 31"
  then have "signed_take_bit 31 (- int w) = - int w" by (intro signed_take_bit_int_eq_self) simp_all
  moreover have "(- of_nat w :: int32) = of_int (- int w)" by simp
  ultimately show "sint (- of_nat w :: int32) = - int w" by (simp only: signed_of_int) simp
qed

section \<open>Lemma collections\<close>

text \<open>
  \<open>frame_simps\<close> collects, per component, what an operation leaves unchanged;
  \<open>inv_intros\<close> that an operation keeps its component's invariant.
\<close>

named_theorems frame_simps
named_theorems inv_intros

section \<open>Lists\<close>

text \<open>Updating one entry of an array changes no other entry and not its length.\<close>

lemma set_list_update_subset: "set (xs[i := x]) \<subseteq> insert x (set xs)"
  by (rule set_update_subset_insert)

lemma nth_list_update_if: "i < length xs \<Longrightarrow> xs[i := x] ! j = (if i = j then x else xs ! j)"
  by simp

lemma list_all_update:
  "list_all P xs \<Longrightarrow> P x \<Longrightarrow> list_all P (xs[i := x])"
  using set_update_subset_insert[of xs i x] by (auto simp: list_all_iff)

lemma map_update_same:
  "f x = f (xs ! i) \<Longrightarrow> map f (xs[i := x]) = map f xs"
  by (simp add: map_update) (metis list_update_id map_update)

text \<open>Counting and distinctness are about positions in an array, so they read by index.\<close>

lemma distinct_updateI:
  assumes "distinct xs" and "i < length xs" and "\<And>j. j < length xs \<Longrightarrow> j \<noteq> i \<Longrightarrow> xs ! j \<noteq> x"
  shows "distinct (xs[i := x])"
  using assms by (auto simp: distinct_conv_nth nth_list_update)

text \<open>The array loop \<open>for (i = lo; i < hi; i++)\<close> as a fold over its indices.\<close>

definition for_loop :: "nat \<Rightarrow> nat \<Rightarrow> (nat \<Rightarrow> 's \<Rightarrow> 's) \<Rightarrow> 's \<Rightarrow> 's" where
  "for_loop lo hi body s = fold body [lo..<hi] s"

lemma for_loop_empty [simp]: "hi \<le> lo \<Longrightarrow> for_loop lo hi body s = s"
  by (simp add: for_loop_def)

lemma for_loop_Suc: "lo \<le> hi \<Longrightarrow> for_loop lo (Suc hi) body s = body hi (for_loop lo hi body s)"
  by (simp add: for_loop_def)

lemma for_loop_step: "lo < hi \<Longrightarrow> for_loop lo hi body s = for_loop (Suc lo) hi body (body lo s)"
  by (simp add: for_loop_def upt_conv_Cons)

text \<open>The invariant rule of a counted loop.\<close>

lemma for_loop_invariant:
  assumes "lo \<le> hi" and "I lo s"
    and "\<And>i s. lo \<le> i \<Longrightarrow> i < hi \<Longrightarrow> I i s \<Longrightarrow> I (Suc i) (body i s)"
  shows "I hi (for_loop lo hi body s)"
  using assms
proof (induction hi)
  case 0
  then show ?case by simp
next
  case (Suc hi)
  show ?case
  proof (cases "lo = Suc hi")
    case True
    with Suc.prems show ?thesis by simp
  next
    case False
    with Suc.prems have "I hi (for_loop lo hi body s)"
      using Suc.IH by simp
    with False Suc.prems show ?thesis by (simp add: for_loop_Suc)
  qed
qed

end
