(* ===== verification/CString.thy ===== *)
theory CString
  imports Prelude
begin

text \<open>
  C strings as \<open>string\<close> (the characters before the terminating NUL) and the functions
  of the C library the programs call on them: decimal output (\<open>printf\<close> with
  \<open>%d\<close>), \<open>atoi\<close>, \<open>strchr\<close>, \<open>strstr\<close>, \<open>strcasecmp\<close>. A pointer into a
  string is the offset of the character it points to; NULL is \<open>None\<close>.
\<close>

section \<open>Characters\<close>

definition is_digit :: "char \<Rightarrow> bool" where
  "is_digit c \<longleftrightarrow> 48 \<le> (of_char c :: nat) \<and> (of_char c :: nat) \<le> 57"

definition digit_char :: "nat \<Rightarrow> char" where
  "digit_char d = char_of (48 + d)"

definition digit_val :: "char \<Rightarrow> nat" where
  "digit_val c = of_char c - 48"

definition is_space :: "char \<Rightarrow> bool" where
  "is_space c \<longleftrightarrow> c = CHR '' '' \<or> (9 \<le> (of_char c :: nat) \<and> (of_char c :: nat) \<le> 13)"

definition to_lower :: "char \<Rightarrow> char" where
  "to_lower c = (if 65 \<le> (of_char c :: nat) \<and> (of_char c :: nat) \<le> 90
                 then char_of (of_char c + (32::nat)) else c)"

lemma of_char_digit [simp]: "d < 10 \<Longrightarrow> (of_char (digit_char d) :: nat) = 48 + d"
  by (simp add: digit_char_def)

lemma digit_char_props [simp]:
  "d < 10 \<Longrightarrow> is_digit (digit_char d)"
  "d < 10 \<Longrightarrow> digit_val (digit_char d) = d"
  by (simp_all add: is_digit_def digit_val_def)

lemma digit_not_special:
  assumes "is_digit c"
  shows "c \<noteq> CHR ''-''" "c \<noteq> CHR ''+''" "\<not> is_space c"
  using assms by (auto simp: is_digit_def is_space_def)

section \<open>Decimal numbers\<close>

fun nat_to_dec :: "nat \<Rightarrow> string" where
  "nat_to_dec n = (if n < 10 then [digit_char n] else nat_to_dec (n div 10) @ [digit_char (n mod 10)])"

declare nat_to_dec.simps [simp del]

definition int_to_dec :: "int \<Rightarrow> string" where
  "int_to_dec i = (if i < 0 then CHR ''-'' # nat_to_dec (nat (- i)) else nat_to_dec (nat i))"

text \<open>The value of a run of digits, most significant first, continuing from \<open>acc\<close>.\<close>

fun read_digits :: "nat \<Rightarrow> string \<Rightarrow> nat" where
  "read_digits acc [] = acc"
| "read_digits acc (c # cs) = (if is_digit c then read_digits (10 * acc + digit_val c) cs else acc)"

fun skip_space :: "string \<Rightarrow> string" where
  "skip_space [] = []"
| "skip_space (c # cs) = (if is_space c then skip_space cs else c # cs)"

text \<open>\<open>sscanf\<close> with \<open>%s\<close>: the next word, if there is one, and what follows it.\<close>

definition scan_word :: "string \<Rightarrow> (string \<times> string) option" where
  "scan_word s = (case skip_space s of [] \<Rightarrow> None
     | c # cs \<Rightarrow> Some (takeWhile (\<lambda>c. \<not> is_space c) (c # cs), dropWhile (\<lambda>c. \<not> is_space c) (c # cs)))"

text \<open>
  \<open>atoi\<close>: leading white space, an optional sign, digits up to the first other character.
  (A value outside \<open>int\<close> is undefined in C; the model keeps the mathematical value.)
\<close>

definition atoi :: "string \<Rightarrow> int" where
  "atoi s = (case skip_space s of
       [] \<Rightarrow> 0
     | c # cs \<Rightarrow> if c = CHR ''-'' then - int (read_digits 0 cs)
                else if c = CHR ''+'' then int (read_digits 0 cs)
                else int (read_digits 0 (c # cs)))"

lemma nat_to_dec_digits: "\<forall>c \<in> set (nat_to_dec n). is_digit c"
proof (induction n rule: nat_to_dec.induct)
  case (1 n)
  then show ?case by (subst nat_to_dec.simps) auto
qed

lemma nat_to_dec_nonempty [simp]: "nat_to_dec n \<noteq> []"
  by (subst nat_to_dec.simps) simp

lemma read_digits_append:
  "\<forall>c \<in> set cs. is_digit c \<Longrightarrow> read_digits acc (cs @ ds) = read_digits (read_digits acc cs) ds"
  by (induction cs arbitrary: acc) auto

lemma read_digits_nat_to_dec: "read_digits 0 (nat_to_dec n) = n"
proof (induction n rule: nat_to_dec.induct)
  case (1 n)
  show ?case
  proof (cases "n < 10")
    case True
    then show ?thesis by (subst nat_to_dec.simps) simp
  next
    case False
    with 1 show ?thesis
      by (subst nat_to_dec.simps) (simp add: read_digits_append nat_to_dec_digits)
  qed
qed

lemma atoi_nat_to_dec: "atoi (nat_to_dec n) = int n"
proof -
  obtain c cs where n: "nat_to_dec n = c # cs"
    by (cases "nat_to_dec n") auto
  have "is_digit c"
    using nat_to_dec_digits[of n] by (simp add: n)
  then show ?thesis
    using read_digits_nat_to_dec[of n] by (simp add: atoi_def n digit_not_special)
qed

text \<open>Printing with \<open>%d\<close> and reading back with \<open>atoi\<close> is the identity.\<close>

lemma atoi_int_to_dec: "atoi (int_to_dec i) = i"
proof (cases "i < 0")
  case True
  then show ?thesis
    by (simp add: int_to_dec_def atoi_def is_space_def read_digits_nat_to_dec)
next
  case False
  then show ?thesis by (simp add: int_to_dec_def atoi_nat_to_dec)
qed

section \<open>Searching\<close>

text \<open>\<open>strchr\<close>: the offset of the first \<open>c\<close>.\<close>

fun strchr :: "string \<Rightarrow> char \<Rightarrow> nat option" where
  "strchr [] c = None"
| "strchr (x # xs) c = (if x = c then Some 0 else map_option Suc (strchr xs c))"

lemma strchr_None: "strchr s c = None \<longleftrightarrow> c \<notin> set s"
  by (induction s) auto

lemma strchr_Some:
  "strchr s c = Some i \<Longrightarrow> i < length s \<and> s ! i = c \<and> c \<notin> set (take i s)"
proof (induction s arbitrary: i)
  case Nil
  then show ?case by simp
next
  case (Cons x xs)
  then show ?case by (cases "x = c") auto
qed

lemma strchr_length: "strchr s c = Some i \<Longrightarrow> i < length s"
  by (simp add: strchr_Some)

lemma strchr_append_new: "c \<notin> set xs \<Longrightarrow> strchr (xs @ c # ys) c = Some (length xs)"
  by (induction xs) auto

text \<open>\<open>strstr\<close>: the offset of the first occurrence of \<open>p\<close>.\<close>

fun strstr :: "string \<Rightarrow> string \<Rightarrow> nat option" where
  "strstr [] p = (if p = [] then Some 0 else None)"
| "strstr (x # xs) p =
     (if take (length p) (x # xs) = p then Some 0 else map_option Suc (strstr xs p))"

lemma strstr_Some_split: "strstr s p = Some i \<Longrightarrow> \<exists>xs ys. s = xs @ p @ ys \<and> length xs = i"
proof (induction s arbitrary: i)
  case Nil
  then show ?case by (auto split: if_splits)
next
  case (Cons x s)
  show ?case
  proof (cases "take (length p) (x # s) = p")
    case True
    with Cons.prems have "i = 0" by simp
    moreover have "x # s = [] @ p @ drop (length p) (x # s)"
      using True append_take_drop_id[of "length p" "x # s"] by simp
    ultimately show ?thesis by (metis list.size(3))
  next
    case False
    with Cons.prems obtain j where j: "strstr s p = Some j" and "i = Suc j" by auto
    with Cons.IH obtain xs ys where "s = xs @ p @ ys" and "length xs = j" by blast
    then show ?thesis using \<open>i = Suc j\<close> by (metis append_Cons length_Cons)
  qed
qed

lemma strstr_append: "strstr (xs @ p @ ys) p \<noteq> None"
proof (induction xs)
  case Nil
  have "take (length p) (p @ ys) = p" by simp
  then show ?case by (cases "p @ ys") auto
next
  case (Cons x xs)
  then show ?case by simp
qed

lemma strstr_iff: "strstr s p \<noteq> None \<longleftrightarrow> (\<exists>xs ys. s = xs @ p @ ys)"
  using strstr_Some_split strstr_append by blast

text \<open>Equality as \<open>strcasecmp\<close> sees it.\<close>

definition strcasecmp_eq :: "string \<Rightarrow> string \<Rightarrow> bool" where
  "strcasecmp_eq s t \<longleftrightarrow> map to_lower s = map to_lower t"

section \<open>Line ends\<close>

definition LF :: char where "LF = char_of (10::nat)"
definition CR :: char where "CR = char_of (13::nat)"
definition CRLF :: string where "CRLF = [CR, LF]"

lemma LF_char: "LF = CHR 0x0A"
  unfolding LF_def by code_simp

lemma CR_LF_distinct [simp]: "CR \<noteq> LF" "LF \<noteq> CR"
  by (simp_all add: CR_def LF_def)

end
