(* ===== verification/Csim.thy ===== *)
theory Csim
  imports CString
begin

text \<open>
  The cache simulator of the cache lab, \<open>labs/cachelab-handout/csim.c\<close>, with
  \<open>printSummary\<close> of \<open>cachelab.c\<close>: the cache as an array of sets of lines, one access
  (\<open>visitCache\<close> and its variant \<open>visitCache2\<close>), the trace loop and the option parser.
  The lemmas show that an access hits exactly when the line is resident, what it does to the
  counters and to the set it touches, that the sets keep their shape and never hold a tag
  twice, and how the replacement order relates to least-recently-used.
\<close>

section \<open>State\<close>

record cacheLine =
  valid :: int
  lru :: int
  tag :: uint64

type_synonym cacheSet = "cacheLine list"

text \<open>
  The static variables of the program. \<open>s\<close>, \<open>b\<close> and \<open>E\<close> come from
  \<open>atoi\<close>; \<open>fp\<close> is the trace file, its text as the list of buffers \<open>fgets\<close>
  returns; the counters and the ages are C \<open>int\<close>s (far from their limits: one step per
  trace line).
\<close>

record csim =
  bits_s :: int
  bits_b :: int
  lines_E :: int
  cache :: "cacheSet list"
  hits :: int
  misses :: int
  evictions :: int
  verbose :: int

definition csim_init :: csim where
  "csim_init = \<lparr>bits_s = 0, bits_b = 0, lines_E = 0, cache = [], hits = 0, misses = 0, evictions = 0, verbose = 0\<rparr>"

definition empty_line :: cacheLine where
  "empty_line = \<lparr>valid = 0, lru = 0, tag = 0\<rparr>"

section \<open>One access\<close>

definition addr_tag :: "csim \<Rightarrow> uint64 \<Rightarrow> uint64" where
  "addr_tag c address = drop_bit (nat (bits_s c + bits_b c)) address"

text \<open>
  \<open>address >> b & ((1 << s) - 1)\<close>: the mask is an \<open>int\<close>, sign-extended to 64 bits,
  and the result is cut to \<open>unsigned int\<close>.
\<close>

definition set_index :: "csim \<Rightarrow> uint64 \<Rightarrow> nat" where
  "set_index c address =
     unat (ucast (drop_bit (nat (bits_b c)) address AND
                  scast (push_bit (nat (bits_s c)) 1 - 1 :: int32)) :: uint32)"

text \<open>How the scan over the lines of a set ends.\<close>

datatype scan_end = Found | Scanned nat int

text \<open>
  The loop over the lines: \<open>evict\<close> and \<open>free\<close> (\<open>empty\<close> in the source) are its local variables. The two
  variants of the function differ only in the comparison, \<open>older\<close>.
\<close>

function scan_lines ::
  "(int \<Rightarrow> int \<Rightarrow> bool) \<Rightarrow> uint64 \<Rightarrow> nat \<Rightarrow> nat \<Rightarrow> nat \<Rightarrow> int \<Rightarrow> cacheSet \<Rightarrow> cacheSet \<times> scan_end"
where
  "scan_lines older t E i evict free ls =
     (if i < E then
        if valid (ls ! i) \<noteq> 0 then
          if tag (ls ! i) = t then (ls[i := (ls ! i)\<lparr>lru := 1\<rparr>], Found)
          else
            let ls' = ls[i := (ls ! i)\<lparr>lru := lru (ls ! i) + 1\<rparr>];
                evict' = (if older (lru (ls' ! evict)) (lru (ls' ! i)) then i else evict)
            in scan_lines older t E (Suc i) evict' free ls'
        else scan_lines older t E (Suc i) evict (int i) ls
      else (ls, Scanned evict free))"
  by pat_completeness auto
termination
  by (relation "measure (\<lambda>(older, t, E, i, evict, free, ls). E - i)") auto

declare scan_lines.simps [simp del]

text \<open>
  The rest of the function, after the scan. It returns 0 for a hit, 1 for a miss into an
  empty line and 2 for a miss that evicts.
\<close>

definition finish_visit :: "csim \<Rightarrow> nat \<Rightarrow> uint64 \<Rightarrow> cacheSet \<times> scan_end \<Rightarrow> csim \<times> int" where
  "finish_visit c k t r = (case r of
       (ls, Found) \<Rightarrow> (c\<lparr>cache := (cache c)[k := ls], hits := hits c + 1\<rparr>, 0)
     | (ls, Scanned evict free) \<Rightarrow>
         if free \<noteq> -1 then
           (c\<lparr>cache := (cache c)[k := ls[nat free := \<lparr>valid = 1, lru = 1, tag = t\<rparr>]],
              misses := misses c + 1\<rparr>, 1)
         else
           (c\<lparr>cache := (cache c)[k := ls[evict := (ls ! evict)\<lparr>tag := t, lru := 1\<rparr>]],
              misses := misses c + 1, evictions := evictions c + 1\<rparr>, 2))"

definition visit_with :: "(int \<Rightarrow> int \<Rightarrow> bool) \<Rightarrow> uint64 \<Rightarrow> csim \<Rightarrow> csim \<times> int" where
  "visit_with older address c =
     (let t = addr_tag c address; k = set_index c address
      in finish_visit c k t (scan_lines older t (nat (lines_E c)) 0 0 (-1) (cache c ! k)))"

definition visitCache :: "uint64 \<Rightarrow> csim \<Rightarrow> csim \<times> int" where
  "visitCache = visit_with (\<lambda>x y. x < y)"

definition visitCache2 :: "uint64 \<Rightarrow> csim \<Rightarrow> csim \<times> int" where
  "visitCache2 = visit_with (\<lambda>x y. x \<le> y)"

section \<open>The trace\<close>

text \<open>
  \<open>sscanf(buf, " %c %lx,%d", ...)\<close>: the conversions that succeed overwrite their
  variables, the others leave them as they were.
\<close>

definition hex_val :: "char \<Rightarrow> nat option" where
  "hex_val c = (let k = (of_char c :: nat) in
     if 48 \<le> k \<and> k \<le> 57 then Some (k - 48)
     else if 65 \<le> k \<and> k \<le> 70 then Some (k - 55)
     else if 97 \<le> k \<and> k \<le> 102 then Some (k - 87) else None)"

fun read_hex :: "nat \<Rightarrow> string \<Rightarrow> nat \<times> string" where
  "read_hex acc [] = (acc, [])"
| "read_hex acc (c # cs) =
     (case hex_val c of None \<Rightarrow> (acc, c # cs) | Some d \<Rightarrow> read_hex (16 * acc + d) cs)"

definition drop_0x :: "string \<Rightarrow> string" where
  "drop_0x s = (case s of
      a # x # h # cs \<Rightarrow>
        if a = CHR ''0'' \<and> (x = CHR ''x'' \<or> x = CHR ''X'') \<and> hex_val h \<noteq> None then h # cs else s
    | _ \<Rightarrow> s)"

definition scan_hex :: "string \<Rightarrow> (nat \<times> string) option" where
  "scan_hex s = (case drop_0x s of [] \<Rightarrow> None
     | c # cs \<Rightarrow> if hex_val c = None then None else Some (read_hex 0 (c # cs)))"

text \<open>\<open>%lx\<close>: a number that does not fit is the largest \<open>unsigned long\<close>, as \<open>strtoul\<close> gives it.\<close>

definition scan_addr :: "string \<Rightarrow> (uint64 \<times> string) option" where
  "scan_addr s = (case skip_space s of [] \<Rightarrow> None
     | c # cs \<Rightarrow>
         if c = CHR ''-'' then map_option (\<lambda>(v, rest). (if 0x10000000000000000 \<le> int v then - 1 else - of_nat v, rest)) (scan_hex cs)
         else map_option (\<lambda>(v, rest). (if 0x10000000000000000 \<le> int v then - 1 else of_nat v, rest)) (scan_hex (if c = CHR ''+'' then cs else c # cs)))"

definition starts_int :: "string \<Rightarrow> bool" where
  "starts_int s = (case skip_space s of [] \<Rightarrow> False
     | c # cs \<Rightarrow> is_digit c \<or>
         ((c = CHR ''-'' \<or> c = CHR ''+'') \<and> (case cs of d # _ \<Rightarrow> is_digit d | [] \<Rightarrow> False)))"

record trace_line =
  operation :: char
  address :: uint64
  size_arg :: int

definition scan_trace_line :: "string \<Rightarrow> trace_line \<Rightarrow> trace_line" where
  "scan_trace_line buf old = (case skip_space buf of
      [] \<Rightarrow> old
    | c # cs \<Rightarrow> (case scan_addr cs of
         None \<Rightarrow> old\<lparr>operation := c\<rparr>
       | Some (a, rest) \<Rightarrow> (case rest of
            x # ds \<Rightarrow> if x = CHR '','' \<and> starts_int ds
                     then \<lparr>operation = c, address = a, size_arg = atoi ds\<rparr>
                     else old\<lparr>operation := c, address := a\<rparr>
          | [] \<Rightarrow> old\<lparr>operation := c, address := a\<rparr>)))"

text \<open>The switch on the operation of one line, without the verbose output.\<close>

definition run_op :: "trace_line \<Rightarrow> csim \<Rightarrow> csim" where
  "run_op l c =
     (if operation l = CHR ''S'' then fst (visitCache (address l) c)
      else if operation l = CHR ''L'' then fst (visitCache (address l) c)
      else if operation l = CHR ''M'' then
        (let c' = fst (visitCache (address l) c) in c'\<lparr>hits := hits c' + 1\<rparr>)
      else c)"

fun trace_loop :: "string list \<Rightarrow> trace_line \<Rightarrow> csim \<Rightarrow> csim" where
  "trace_loop [] l c = c"
| "trace_loop (buf # bufs) l c =
     (if take 1 buf = ''I'' then trace_loop bufs l c
      else let l' = scan_trace_line buf l in trace_loop bufs l' (run_op l' c))"

definition alloc_cache :: "csim \<Rightarrow> csim" where
  "alloc_cache c = c\<lparr>cache := replicate (2 ^ nat (bits_s c)) (replicate (nat (lines_E c)) empty_line)\<rparr>"

definition simulate :: "string list \<Rightarrow> trace_line \<Rightarrow> csim \<Rightarrow> csim" where
  "simulate file uninit c = trace_loop file uninit (alloc_cache c)"

section \<open>Options and summary\<close>

datatype 'a exit_or = Exit int | Continue 'a

text \<open>The option loop, over the pairs \<open>getopt\<close> returns; the trace file is named, not opened.\<close>

fun parseArguments :: "(char \<times> string) list \<Rightarrow> csim \<times> string option \<Rightarrow> (csim \<times> string option) exit_or" where
  "parseArguments [] st = Continue st"
| "parseArguments ((opt, arg) # opts) (c, file) =
     (if opt = CHR ''h'' then Exit 1
      else if opt = CHR ''v'' then parseArguments opts (c\<lparr>verbose := 1\<rparr>, file)
      else if opt = CHR ''s'' then parseArguments opts (c\<lparr>bits_s := atoi arg\<rparr>, file)
      else if opt = CHR ''E'' then parseArguments opts (c\<lparr>lines_E := atoi arg\<rparr>, file)
      else if opt = CHR ''b'' then parseArguments opts (c\<lparr>bits_b := atoi arg\<rparr>, file)
      else if opt = CHR ''t'' then parseArguments opts (c, Some arg)
      else Exit 1)"

definition printSummary :: "int \<Rightarrow> int \<Rightarrow> int \<Rightarrow> string \<times> string" where
  "printSummary h m e =
     (''hits:'' @ int_to_dec h @ '' misses:'' @ int_to_dec m @ '' evictions:'' @ int_to_dec e @ [LF],
      int_to_dec h @ '' '' @ int_to_dec m @ '' '' @ int_to_dec e @ [LF])"

section \<open>One set\<close>

text \<open>
  The part of an access that concerns the set, apart from the counters: the lines after the
  access and the returned code.
\<close>

definition visit_set :: "(int \<Rightarrow> int \<Rightarrow> bool) \<Rightarrow> uint64 \<Rightarrow> cacheSet \<Rightarrow> cacheSet \<times> int" where
  "visit_set older t ls = (case scan_lines older t (length ls) 0 0 (-1) ls of
       (ls', Found) \<Rightarrow> (ls', 0)
     | (ls', Scanned evict free) \<Rightarrow>
         if free \<noteq> -1 then (ls'[nat free := \<lparr>valid = 1, lru = 1, tag = t\<rparr>], 1)
         else (ls'[evict := (ls' ! evict)\<lparr>tag := t, lru := 1\<rparr>], 2))"

definition holds :: "cacheSet \<Rightarrow> uint64 \<Rightarrow> bool" where
  "holds ls t \<longleftrightarrow> (\<exists>l \<in> set ls. valid l \<noteq> 0 \<and> tag l = t)"

definition full :: "cacheSet \<Rightarrow> bool" where
  "full ls \<longleftrightarrow> (\<forall>l \<in> set ls. valid l \<noteq> 0)"

text \<open>No two valid lines of a set carry the same tag.\<close>

definition tags_unique :: "cacheSet \<Rightarrow> bool" where
  "tags_unique ls \<longleftrightarrow> (\<forall>i < length ls. \<forall>j < length ls.
     valid (ls ! i) \<noteq> 0 \<and> valid (ls ! j) \<noteq> 0 \<and> tag (ls ! i) = tag (ls ! j) \<longrightarrow> i = j)"

text \<open>The four ways one turn of the loop can go, and the induction they give.\<close>

abbreviation aged :: "nat \<Rightarrow> cacheSet \<Rightarrow> cacheSet" where
  "aged i ls \<equiv> ls[i := (ls ! i)\<lparr>lru := lru (ls ! i) + 1\<rparr>]"

abbreviation pick :: "(int \<Rightarrow> int \<Rightarrow> bool) \<Rightarrow> nat \<Rightarrow> nat \<Rightarrow> cacheSet \<Rightarrow> nat" where
  "pick older i ev ls \<equiv> (if older (lru (aged i ls ! ev)) (lru (aged i ls ! i)) then i else ev)"

lemma scan_stop: "\<not> i < E \<Longrightarrow> scan_lines older t E i ev fr ls = (ls, Scanned ev fr)"
  by (simp add: scan_lines.simps)

lemma scan_hit: "i < E \<Longrightarrow> valid (ls ! i) \<noteq> 0 \<Longrightarrow> tag (ls ! i) = t \<Longrightarrow>
    scan_lines older t E i ev fr ls = (ls[i := (ls ! i)\<lparr>lru := 1\<rparr>], Found)"
  by (simp add: scan_lines.simps)

lemma scan_age: "i < E \<Longrightarrow> valid (ls ! i) \<noteq> 0 \<Longrightarrow> tag (ls ! i) \<noteq> t \<Longrightarrow>
    scan_lines older t E i ev fr ls = scan_lines older t E (Suc i) (pick older i ev ls) fr (aged i ls)"
  by (subst scan_lines.simps) (simp add: Let_def)

lemma scan_skip: "i < E \<Longrightarrow> valid (ls ! i) = 0 \<Longrightarrow>
    scan_lines older t E i ev fr ls = scan_lines older t E (Suc i) ev (int i) ls"
  by (subst scan_lines.simps) simp

lemmas scan_steps = scan_stop scan_hit scan_age scan_skip

lemma scan_induct [case_names stop hit age skip]:
  assumes "\<And>i ev fr ls. \<not> i < E \<Longrightarrow> P i ev fr ls"
    and "\<And>i ev fr ls. i < E \<Longrightarrow> valid (ls ! i) \<noteq> 0 \<Longrightarrow> tag (ls ! i) = t \<Longrightarrow> P i ev fr ls"
    and "\<And>i ev fr ls. i < E \<Longrightarrow> valid (ls ! i) \<noteq> 0 \<Longrightarrow> tag (ls ! i) \<noteq> t \<Longrightarrow>
           P (Suc i) (pick older i ev ls) fr (aged i ls) \<Longrightarrow> P i ev fr ls"
    and "\<And>i ev fr ls. i < E \<Longrightarrow> valid (ls ! i) = 0 \<Longrightarrow> P (Suc i) ev (int i) ls \<Longrightarrow> P i ev fr ls"
  shows "P i ev fr ls"
proof (induction "E - i" arbitrary: i ev fr ls)
  case 0
  then show ?case by (simp add: assms(1))
next
  case (Suc n)
  then have "i < E" and IH: "P (Suc i) e f l" for e f l
    by simp_all
  then show ?case
    using assms(2-4) by blast
qed

lemma aged_frame [simp]: "map valid (aged i ls) = map valid ls" "map tag (aged i ls) = map tag ls"
  by (simp_all add: map_update_same)

lemma scan_frame:
  "map valid (fst (scan_lines older t E i ev fr ls)) = map valid ls \<and>
   map tag (fst (scan_lines older t E i ev fr ls)) = map tag ls"
proof (induction i ev fr ls rule: scan_induct[where older = older and t = t and E = E])
  case (age i ev fr ls)
  then show ?case by (simp only: scan_age aged_frame simp_thms)
qed (simp_all add: scan_stop scan_hit scan_skip map_update_same)

lemma scan_length [simp]: "length (fst (scan_lines older t E i ev fr ls)) = length ls"
  using scan_frame map_eq_imp_length_eq by blast

lemma scan_nth [simp]:
  assumes "j < length ls"
  shows "valid (fst (scan_lines older t E i ev fr ls) ! j) = valid (ls ! j)"
    and "tag (fst (scan_lines older t E i ev fr ls) ! j) = tag (ls ! j)"
  using scan_frame[of older t E i ev fr ls] assms scan_length[of older t E i ev fr ls]
  by (metis nth_map)+

lemma aged_nth [simp]:
  "k < length ls \<Longrightarrow> valid (aged i ls ! k) = valid (ls ! k)"
  "k < length ls \<Longrightarrow> tag (aged i ls ! k) = tag (ls ! k)"
  by (cases "k = i"; simp)+

text \<open>Ranges \<open>[i, E)\<close> split at their first element.\<close>

lemma ex_range_split: "i < E \<Longrightarrow> (\<exists>k \<ge> i. k < E \<and> P k) \<longleftrightarrow> P i \<or> (\<exists>k \<ge> Suc i. k < (E::nat) \<and> P k)"
  by (metis Suc_leD Suc_leI le_neq_implies_less le_refl)

lemma all_range_split: "i < E \<Longrightarrow> (\<forall>k \<ge> i. k < E \<longrightarrow> P k) \<longleftrightarrow> P i \<and> (\<forall>k \<ge> Suc i. k < (E::nat) \<longrightarrow> P k)"
  by (metis Suc_leD Suc_leI le_neq_implies_less le_refl)

lemma scan_Found_iff:
  "E \<le> length ls \<Longrightarrow> snd (scan_lines older t E i ev fr ls) = Found \<longleftrightarrow>
    (\<exists>k \<ge> i. k < E \<and> valid (ls ! k) \<noteq> 0 \<and> tag (ls ! k) = t)"
proof (induction i ev fr ls rule: scan_induct[where older = older and t = t and E = E])
  case (stop i ev fr ls)
  then show ?case by (auto simp: scan_stop)
next
  case (hit i ev fr ls)
  then show ?case by (auto simp: scan_hit)
next
  case (age i ev fr ls)
  then show ?case
    by (simp add: scan_age ex_range_split[of i] cong: conj_cong)
next
  case (skip i ev fr ls)
  then show ?case by (simp add: scan_skip ex_range_split[of i])
qed

definition free_choice :: "nat \<Rightarrow> nat \<Rightarrow> int \<Rightarrow> cacheSet \<Rightarrow> int \<Rightarrow> bool" where
  "free_choice E i fr ls fr' \<longleftrightarrow>
     (fr' = fr \<and> (\<forall>k \<ge> i. k < E \<longrightarrow> valid (ls ! k) \<noteq> 0)) \<or>
     (\<exists>k \<ge> i. k < E \<and> fr' = int k \<and> valid (ls ! k) = 0)"

lemma scan_free:
  "snd (scan_lines older t E i ev fr ls) = Scanned ev' fr' \<Longrightarrow> E \<le> length ls \<Longrightarrow> free_choice E i fr ls fr'"
proof (induction i ev fr ls rule: scan_induct[where older = older and t = t and E = E])
  case (age i ev fr ls)
  then have "free_choice E (Suc i) fr (aged i ls) fr'" by (simp add: scan_age)
  with age show ?case
    by (simp add: free_choice_def all_range_split[of i] ex_range_split[of i] cong: conj_cong imp_cong)
next
  case (skip i ev fr ls)
  then have "free_choice E (Suc i) (int i) ls fr'" by (simp add: scan_skip)
  with skip show ?case
    by (auto simp: free_choice_def ex_range_split[of i])
qed (auto simp: free_choice_def scan_stop scan_hit)

lemma scan_evict_less:
  "snd (scan_lines older t E i ev fr ls) = Scanned ev' fr' \<Longrightarrow> ev < E \<Longrightarrow> ev' < E"
  by (induction i ev fr ls rule: scan_induct[where older = older and t = t and E = E])
     (auto simp: scan_steps split: if_splits)

section \<open>What an access does to its set\<close>

text \<open>The three outcomes of \<open>visit_set\<close>, with the lines in terms of the set before it.\<close>

lemma visit_set_cases:
  obtains
    (hit) ls' where "visit_set older t ls = (ls', 0)" and "holds ls t"
      and "map valid ls' = map valid ls" and "map tag ls' = map tag ls"
  | (fill) k ls' where "visit_set older t ls = (ls'[k := \<lparr>valid = 1, lru = 1, tag = t\<rparr>], 1)"
      and "\<not> holds ls t" and "\<not> full ls" and "k < length ls" and "valid (ls ! k) = 0"
      and "map valid ls' = map valid ls" and "map tag ls' = map tag ls"
  | (evict) k ls' where "visit_set older t ls = (ls'[k := (ls' ! k)\<lparr>tag := t, lru := 1\<rparr>], 2)"
      and "\<not> holds ls t" and "full ls" and "ls \<noteq> [] \<Longrightarrow> k < length ls"
      and "map valid ls' = map valid ls" and "map tag ls' = map tag ls"
proof -
  obtain ls' r where s: "scan_lines older t (length ls) 0 0 (-1) ls = (ls', r)"
    by (cases "scan_lines older t (length ls) 0 0 (-1) ls")
  have frame: "map valid ls' = map valid ls" "map tag ls' = map tag ls"
    using scan_frame[of older t "length ls" 0 0 "-1" ls] by (simp_all add: s)
  have found: "r = Found \<longleftrightarrow> holds ls t"
    using scan_Found_iff[of "length ls" ls older t 0 0 "-1"] by (auto simp: s holds_def in_set_conv_nth Bex_def)
  show thesis
  proof (cases r)
    case Found
    with s found frame show ?thesis by (intro hit[of ls']) (simp_all add: visit_set_def)
  next
    case (Scanned ev fr)
    have free: "free_choice (length ls) 0 (-1) ls fr"
      using scan_free[of older t "length ls" 0 0 "-1" ls ev fr] by (simp add: s Scanned)
    have ev: "ls \<noteq> [] \<Longrightarrow> ev < length ls"
      using scan_evict_less[of older t "length ls" 0 0 "-1" ls ev fr] by (simp add: s Scanned)
    show ?thesis
    proof (cases "fr = -1")
      case True
      with free have "full ls" by (auto simp: free_choice_def full_def in_set_conv_nth)
      with True s Scanned found frame ev show ?thesis
        by (intro evict[of ls' ev]) (simp_all add: visit_set_def)
    next
      case False
      with free obtain k where "fr = int k" "k < length ls" "valid (ls ! k) = 0"
        by (auto simp: free_choice_def)
      moreover from this have "\<not> full ls" by (auto simp: full_def)
      ultimately show ?thesis using s Scanned found frame
        by (intro fill[of ls' k]) (simp_all add: visit_set_def)
    qed
  qed
qed

definition tagset :: "cacheSet \<Rightarrow> uint64 set" where
  "tagset ls = {tag l | l. l \<in> set ls \<and> valid l \<noteq> 0}"

lemma holds_tagset: "holds ls t \<longleftrightarrow> t \<in> tagset ls"
  by (auto simp: holds_def tagset_def)

lemma tagset_nth: "tagset ls = {tag (ls ! i) | i. i < length ls \<and> valid (ls ! i) \<noteq> 0}"
  by (auto simp: tagset_def in_set_conv_nth)

lemma frame_nth:
  assumes "map valid ls' = map valid ls" and "map tag ls' = map tag ls"
  shows "length ls' = length ls"
    and "\<And>i. i < length ls \<Longrightarrow> valid (ls' ! i) = valid (ls ! i)"
    and "\<And>i. i < length ls \<Longrightarrow> tag (ls' ! i) = tag (ls ! i)"
  using assms by (metis length_map, metis nth_map length_map, metis nth_map length_map)

lemma tagset_frame:
  assumes "map valid ls' = map valid ls" and "map tag ls' = map tag ls"
  shows "tagset ls' = tagset ls"
  unfolding tagset_nth using frame_nth[OF assms] by (metis (no_types, lifting))

lemma visit_set_length [simp]: "length (fst (visit_set older t ls)) = length ls"
  by (rule visit_set_cases[of older t ls]) (auto dest: map_eq_imp_length_eq)

lemma visit_set_code:
  "snd (visit_set older t ls) = (if holds ls t then 0 else if full ls then 2 else 1)"
  by (rule visit_set_cases[of older t ls]) simp_all

text \<open>A hit or a fill only adds the tag; an eviction replaces exactly one.\<close>

lemma visit_set_tagset:
  assumes "ls \<noteq> []" and "tags_unique ls"
  shows "if snd (visit_set older t ls) = 2
         then \<exists>u \<in> tagset ls. tagset (fst (visit_set older t ls)) = insert t (tagset ls - {u})
         else tagset (fst (visit_set older t ls)) = insert t (tagset ls)"
proof (rule visit_set_cases[of older t ls])
  fix ls' assume "visit_set older t ls = (ls', 0)" and "holds ls t"
    and fr: "map valid ls' = map valid ls" "map tag ls' = map tag ls"
  then show ?thesis
    using tagset_frame[OF fr] by (auto simp: holds_tagset)
next
  fix k ls' assume v: "visit_set older t ls = (ls'[k := \<lparr>valid = 1, lru = 1, tag = t\<rparr>], 1)"
    and k: "k < length ls" "valid (ls ! k) = 0"
    and fr: "map valid ls' = map valid ls" "map tag ls' = map tag ls"
  have "tagset (ls'[k := \<lparr>valid = 1, lru = 1, tag = t\<rparr>]) = insert t (tagset ls)"
    using k frame_nth[OF fr] by (auto simp: tagset_nth nth_list_update) metis+
  with v show ?thesis by simp
next
  fix k ls' assume v: "visit_set older t ls = (ls'[k := (ls' ! k)\<lparr>tag := t, lru := 1\<rparr>], 2)"
    and full: "full ls" and k: "ls \<noteq> [] \<Longrightarrow> k < length ls"
    and fr: "map valid ls' = map valid ls" "map tag ls' = map tag ls"
  have k: "k < length ls" and vk: "\<And>i. i < length ls \<Longrightarrow> valid (ls ! i) \<noteq> 0"
    using k assms(1) full by (auto simp: full_def)
  have "tagset (ls'[k := (ls' ! k)\<lparr>tag := t, lru := 1\<rparr>]) = insert t (tagset ls - {tag (ls ! k)})"
    using k vk frame_nth[OF fr] assms(2)
    by (auto simp: tagset_nth nth_list_update tags_unique_def) metis+
  moreover have "tag (ls ! k) \<in> tagset ls" using k vk by (auto simp: tagset_nth)
  ultimately show ?thesis using v by auto
qed

lemma visit_set_holds: "ls \<noteq> [] \<Longrightarrow> tags_unique ls \<Longrightarrow> holds (fst (visit_set older t ls)) t"
  using visit_set_tagset[of ls older t] by (auto simp: holds_tagset split: if_splits)

lemma tags_unique_frame:
  assumes "map valid ls' = map valid ls" "map tag ls' = map tag ls" and "tags_unique ls"
  shows "tags_unique ls'"
  using assms(3) frame_nth[OF assms(1,2)] by (simp add: tags_unique_def)

lemma tags_unique_update:
  assumes "tags_unique ls" and "\<not> holds ls (tag l)"
  shows "tags_unique (ls[k := l])"
proof -
  have "\<forall>i < length ls. valid (ls ! i) \<noteq> 0 \<longrightarrow> tag l \<noteq> tag (ls ! i)"
    using assms(2) by (auto simp: holds_def)
  with assms(1) show ?thesis
    unfolding tags_unique_def
    by (cases "k < length ls") (simp_all add: nth_list_update_if list_update_beyond, metis)
qed

lemma tags_unique_visit [inv_intros]:
  assumes "tags_unique ls"
  shows "tags_unique (fst (visit_set older t ls))"
proof (rule visit_set_cases[of older t ls])
  fix ls' assume "visit_set older t ls = (ls', 0)"
    and "map valid ls' = map valid ls" "map tag ls' = map tag ls"
  then show ?thesis using tags_unique_frame assms by simp
next
  fix k ls' assume "visit_set older t ls = (ls'[k := \<lparr>valid = 1, lru = 1, tag = t\<rparr>], 1)"
    and nh: "\<not> holds ls t" and fr: "map valid ls' = map valid ls" "map tag ls' = map tag ls"
  then show ?thesis using tags_unique_frame[OF fr assms] nh tagset_frame[OF fr]
    by (simp add: tags_unique_update holds_tagset)
next
  fix k ls' assume "visit_set older t ls = (ls'[k := (ls' ! k)\<lparr>tag := t, lru := 1\<rparr>], 2)"
    and nh: "\<not> holds ls t" and fr: "map valid ls' = map valid ls" "map tag ls' = map tag ls"
  then show ?thesis using tags_unique_frame[OF fr assms] nh tagset_frame[OF fr]
    by (simp add: tags_unique_update holds_tagset)
qed

section \<open>The whole cache\<close>

definition csim_wf :: "csim \<Rightarrow> bool" where
  "csim_wf c \<longleftrightarrow> 0 \<le> bits_s c \<and> bits_s c \<le> 30 \<and> 0 \<le> bits_b c \<and> bits_s c + bits_b c < 64 \<and>
     0 < lines_E c \<and> length (cache c) = 2 ^ nat (bits_s c) \<and>
     (\<forall>ls \<in> set (cache c). length ls = nat (lines_E c) \<and> tags_unique ls)"

definition resident :: "csim \<Rightarrow> uint64 \<Rightarrow> bool" where
  "resident c a \<longleftrightarrow> holds (cache c ! set_index c a) (addr_tag c a)"

definition count_code :: "int \<Rightarrow> csim \<Rightarrow> csim" where
  "count_code r c = c\<lparr>hits := hits c + (if r = 0 then 1 else 0),
                      misses := misses c + (if r = 0 then 0 else 1),
                      evictions := evictions c + (if r = 2 then 1 else 0)\<rparr>"

lemma mask_index:
  assumes "n \<le> 30"
  shows "scast (push_bit n 1 - 1 :: int32) = (mask n :: uint64)"
proof -
  have "push_bit n 1 - 1 = (mask n :: int32)"
    by (simp add: mask_eq_exp_minus_1)
  moreover have "scast (mask n :: int32) = (mask n :: uint64)"
    using assms by (intro bit_word_eqI) (auto simp: bit_simps)
  ultimately show ?thesis by simp
qed

text \<open>The set index is the \<open>s\<close> bits of the address above the \<open>b\<close> block bits.\<close>

lemma set_index_eq:
  assumes "0 \<le> bits_s c" and "bits_s c \<le> 30"
  shows "set_index c a = (unat a div 2 ^ nat (bits_b c)) mod 2 ^ nat (bits_s c)"
proof -
  let ?n = "nat (bits_s c)"
  let ?w = "drop_bit (nat (bits_b c)) a AND (scast (push_bit ?n 1 - 1 :: int32) :: uint64)"
  have n: "?n \<le> 30" using assms by simp
  have lt: "unat a < 18446744073709551616" using unsigned_less[of a] by simp
  have w: "unat ?w = (unat a div 2 ^ nat (bits_b c)) mod 2 ^ ?n"
    by (simp only: mask_index[OF n] take_bit_eq_mask [symmetric] unsigned_take_bit_eq unsigned_drop_bit_eq)
       (use lt in \<open>simp add: take_bit_eq_mod drop_bit_eq_div\<close>)
  have "(unat a div 2 ^ nat (bits_b c)) mod 2 ^ ?n < 2 ^ ?n" by simp
  also have "(2::nat) ^ ?n < 2 ^ 32" using n by (intro power_strict_increasing) auto
  finally show ?thesis
    by (simp only: set_index_def unsigned_ucast_eq w) (simp add: take_bit_nat_eq_self)
qed

lemma set_index_less: "csim_wf c \<Longrightarrow> set_index c a < length (cache c)"
  by (simp add: csim_wf_def set_index_eq)

lemma set_at:
  assumes "csim_wf c" and "k < length (cache c)"
  shows "length (cache c ! k) = nat (lines_E c)" and "tags_unique (cache c ! k)" and "cache c ! k \<noteq> []"
proof -
  from assms have "cache c ! k \<in> set (cache c)" by simp
  with assms show len: "length (cache c ! k) = nat (lines_E c)" and "tags_unique (cache c ! k)"
    unfolding csim_wf_def by blast+
  from len assms show "cache c ! k \<noteq> []" by (fastforce simp: csim_wf_def)
qed

lemma visit_with_set:
  assumes "csim_wf c"
  shows "visit_with older a c =
    (let k = set_index c a; v = visit_set older (addr_tag c a) (cache c ! k)
     in (count_code (snd v) (c\<lparr>cache := (cache c)[k := fst v]\<rparr>), snd v))"
  using set_at(1)[OF assms set_index_less[OF assms]]
  by (auto simp: visit_with_def finish_visit_def visit_set_def count_code_def Let_def
       split: prod.splits scan_end.splits)

lemma set_visited:
  assumes "csim_wf c"
  shows "cache (fst (visit_with older a c)) ! set_index c a =
           fst (visit_set older (addr_tag c a) (cache c ! set_index c a))"
    and "j \<noteq> set_index c a \<Longrightarrow> cache (fst (visit_with older a c)) ! j = cache c ! j"
    and "length (cache (fst (visit_with older a c))) = length (cache c)"
  using set_index_less[OF assms, of a]
  by (simp_all add: visit_with_set[OF assms] Let_def count_code_def)

lemma visit_geometry [frame_simps]:
  assumes "csim_wf c"
  shows "bits_s (fst (visit_with older a c)) = bits_s c"
    and "bits_b (fst (visit_with older a c)) = bits_b c"
    and "lines_E (fst (visit_with older a c)) = lines_E c"
    and "verbose (fst (visit_with older a c)) = verbose c"
    and "set_index (fst (visit_with older a c)) x = set_index c x"
    and "addr_tag (fst (visit_with older a c)) x = addr_tag c x"
  by (simp_all add: visit_with_set[OF assms] Let_def count_code_def set_index_def addr_tag_def)

lemma csim_wf_visit [inv_intros]:
  assumes wf: "csim_wf c"
  shows "csim_wf (fst (visit_with older a c))"
proof -
  let ?k = "set_index c a" and ?c' = "fst (visit_with older a c)"
  have "length ls = nat (lines_E c) \<and> tags_unique ls" if "ls \<in> set (cache ?c')" for ls
  proof -
    from that obtain j where j: "j < length (cache c)" "ls = cache ?c' ! j"
      using set_visited(3)[OF wf] by (auto simp: in_set_conv_nth)
    show ?thesis
      using set_at[OF wf j(1)] j(2) set_visited(1,2)[OF wf]
      by (cases "j = ?k") (simp_all add: tags_unique_visit)
  qed
  with wf show ?thesis
    by (simp add: csim_wf_def visit_geometry[OF wf] set_visited(3)[OF wf])
qed

lemma visit_code:
  assumes "csim_wf c"
  shows "snd (visit_with older a c) =
    (if resident c a then 0 else if full (cache c ! set_index c a) then 2 else 1)"
  by (simp add: visit_with_set[OF assms] Let_def visit_set_code resident_def)

lemma visit_counters:
  assumes "csim_wf c" and "r = snd (visit_with older a c)"
  shows "hits (fst (visit_with older a c)) = hits c + (if r = 0 then 1 else 0)"
    and "misses (fst (visit_with older a c)) = misses c + (if r = 0 then 0 else 1)"
    and "evictions (fst (visit_with older a c)) = evictions c + (if r = 2 then 1 else 0)"
  by (simp_all add: assms visit_with_set[OF assms(1)] Let_def count_code_def)

lemma visit_makes_resident:
  assumes "csim_wf c"
  shows "resident (fst (visit_with older a c)) a"
  using set_at[OF assms set_index_less[OF assms]]
  by (simp add: resident_def visit_geometry[OF assms] set_visited(1)[OF assms] visit_set_holds)

text \<open>
  The empty cache the simulator allocates; the bounds are those of a 64-bit address and a
  32-bit shift.
\<close>

lemma alloc_cache_wf:
  assumes "0 \<le> bits_s c" "bits_s c \<le> 30" "0 \<le> bits_b c" "bits_s c + bits_b c < 64" "0 < lines_E c"
  shows "csim_wf (alloc_cache c)"
  using assms by (auto simp: csim_wf_def alloc_cache_def tags_unique_def empty_line_def)

section \<open>The trace loop\<close>

text \<open>What the counters and the cache go through in one turn of the trace loop.\<close>

definition accesses :: "trace_line \<Rightarrow> int" where
  "accesses l = (if operation l = CHR ''S'' \<or> operation l = CHR ''L'' then 1
                 else if operation l = CHR ''M'' then 2 else 0)"

lemma run_op_wf [inv_intros]: "csim_wf c \<Longrightarrow> csim_wf (run_op l c)"
proof -
  assume wf: "csim_wf c"
  have "csim_wf (c'\<lparr>hits := h\<rparr>)" if "csim_wf c'" for c' h
    using that by (simp add: csim_wf_def)
  with csim_wf_visit[OF wf] show ?thesis
    using wf by (simp add: run_op_def visitCache_def Let_def)
qed

lemma run_op_counts:
  assumes "csim_wf c"
  shows "hits (run_op l c) + misses (run_op l c) = hits c + misses c + accesses l"
    and "misses (run_op l c) - misses c \<in> {0, 1}"
    and "0 \<le> evictions (run_op l c) - evictions c"
    and "evictions (run_op l c) - evictions c \<le> misses (run_op l c) - misses c"
  using visit_counters[OF assms refl]
  by (auto simp: run_op_def visitCache_def accesses_def Let_def)

text \<open>The lines the loop executes, with the variables \<open>sscanf\<close> leaves in them.\<close>

fun executed :: "string list \<Rightarrow> trace_line \<Rightarrow> trace_line list" where
  "executed [] l = []"
| "executed (buf # bufs) l =
     (if take 1 buf = ''I'' then executed bufs l
      else (let l' = scan_trace_line buf l in l' # executed bufs l'))"

lemma trace_loop_fold: "trace_loop bufs l c = fold run_op (executed bufs l) c"
  by (induction bufs arbitrary: l c) (simp_all add: Let_def)

lemma fold_run_op_wf: "csim_wf c \<Longrightarrow> csim_wf (fold run_op ls c)"
  by (induction ls arbitrary: c) (auto intro: inv_intros)

lemma fold_run_op_counts:
  assumes "csim_wf c"
  shows "hits (fold run_op ls c) + misses (fold run_op ls c) =
           hits c + misses c + (\<Sum>l\<leftarrow>ls. accesses l) \<and>
         0 \<le> evictions (fold run_op ls c) - evictions c \<and>
         evictions (fold run_op ls c) - evictions c \<le> misses (fold run_op ls c) - misses c"
  using assms
proof (induction ls arbitrary: c)
  case Nil
  then show ?case by simp
next
  case (Cons l ls)
  show ?case
    using Cons.IH[OF run_op_wf[OF Cons.prems, of l]] run_op_counts[OF Cons.prems, of l] by simp
qed

end
