(* ===== verification/CsimLRU.thy ===== *)
theory CsimLRU
  imports Csim
begin

text \<open>
  The replacement order of the cache simulator against least-recently-used, the policy the
  cache lab asks for. The specification keeps the tags of a set in order of their last use;
  the locale \<open>lru_set\<close> states what a set's lines promise to it, and lifts that promise to
  the whole cache and to traces. Direct-mapped caches keep it with either comparison, two-way
  caches with \<open>visitCache2\<close> only: an early return on a hit leaves the later lines of the
  set unaged.
\<close>

section \<open>Specification\<close>

text \<open>A set of capacity \<open>E\<close>, most recently used tag first; the same codes as the program's.\<close>

definition lru_access :: "nat \<Rightarrow> 'a \<Rightarrow> 'a list \<Rightarrow> int \<times> 'a list" where
  "lru_access E t q =
     (if t \<in> set q then (0, t # remove1 t q)
      else if length q < E then (1, t # q)
      else (2, t # butlast q))"

text \<open>A trace over all sets: \<open>loc\<close> gives the set index and the tag of an address.\<close>

fun lru_run :: "nat \<Rightarrow> ('a \<Rightarrow> nat \<times> uint64) \<Rightarrow> 'a list \<Rightarrow> (nat \<Rightarrow> uint64 list) \<Rightarrow> int list" where
  "lru_run E loc [] Q = []"
| "lru_run E loc (a # as) Q =
     (case loc a of (k, t) \<Rightarrow> case lru_access E t (Q k) of (r, q) \<Rightarrow> r # lru_run E loc as (Q(k := q)))"

text \<open>The codes a trace of accesses gets from the program.\<close>

fun visit_all :: "(uint64 \<Rightarrow> csim \<Rightarrow> csim \<times> int) \<Rightarrow> uint64 list \<Rightarrow> csim \<Rightarrow> int list" where
  "visit_all visit [] c = []"
| "visit_all visit (a # as) c = (case visit a c of (c', r) \<Rightarrow> r # visit_all visit as c')"

definition place_of :: "csim \<Rightarrow> uint64 \<Rightarrow> nat \<times> uint64" where
  "place_of c a = (set_index c a, addr_tag c a)"

lemma place_of_simps [simp]:
  "fst (place_of c a) = set_index c a" "snd (place_of c a) = addr_tag c a"
  by (simp_all add: place_of_def)

section \<open>The interface of a set\<close>

text \<open>
  \<open>recency ls q\<close>: the lines \<open>ls\<close> hold the tags \<open>q\<close>, and their ages order them as
  \<open>q\<close> does.
\<close>

locale lru_set =
  fixes older :: "int \<Rightarrow> int \<Rightarrow> bool"
    and E :: nat
    and recency :: "cacheSet \<Rightarrow> uint64 list \<Rightarrow> bool"
  assumes recency_empty: "recency (replicate E empty_line) []"
    and recency_code: "recency ls q \<Longrightarrow> snd (visit_set older t ls) = fst (lru_access E t q)"
    and recency_step: "recency ls q \<Longrightarrow> recency (fst (visit_set older t ls)) (snd (lru_access E t q))"
begin

definition tracks :: "csim \<Rightarrow> (nat \<Rightarrow> uint64 list) \<Rightarrow> bool" where
  "tracks c Q \<longleftrightarrow> (\<forall>k < length (cache c). recency (cache c ! k) (Q k))"

lemma tracks_visit:
  assumes wf: "csim_wf c" and tr: "tracks c Q"
  shows "snd (visit_with older a c) = fst (lru_access E (addr_tag c a) (Q (set_index c a)))"
    and "tracks (fst (visit_with older a c))
           (Q(set_index c a := snd (lru_access E (addr_tag c a) (Q (set_index c a)))))"
proof -
  have rec: "recency (cache c ! set_index c a) (Q (set_index c a))"
    using tr set_index_less[OF wf] by (simp add: tracks_def)
  show "snd (visit_with older a c) = fst (lru_access E (addr_tag c a) (Q (set_index c a)))"
    using recency_code[OF rec] by (simp add: visit_with_set[OF wf] Let_def)
  show "tracks (fst (visit_with older a c))
           (Q(set_index c a := snd (lru_access E (addr_tag c a) (Q (set_index c a)))))"
    using tr recency_step[OF rec] set_visited[OF wf] by (auto simp: tracks_def)
qed

lemma run_refines:
  assumes "csim_wf c" and "tracks c Q"
  shows "visit_all (visit_with older) as c = lru_run E (place_of c) as Q"
  using assms
proof (induction as arbitrary: c Q)
  case Nil
  then show ?case by simp
next
  case (Cons a as)
  let ?c = "fst (visit_with older a c)" and ?k = "set_index c a"
  let ?r = "lru_access E (addr_tag c a) (Q ?k)"
  have "place_of ?c = place_of c"
    by (simp add: place_of_def visit_geometry[OF Cons.prems(1)] fun_eq_iff)
  moreover have "visit_all (visit_with older) as ?c = lru_run E (place_of ?c) as (Q(?k := snd ?r))"
    by (rule Cons.IH[OF csim_wf_visit[OF Cons.prems(1)] tracks_visit(2)[OF Cons.prems]])
  ultimately show ?case
    using tracks_visit(1)[OF Cons.prems] by (simp only: visit_all.simps lru_run.simps split_def place_of_simps)
qed

lemma fresh_refines:
  assumes "csim_wf (alloc_cache c)" and "nat (lines_E c) = E"
  shows "visit_all (visit_with older) as (alloc_cache c) = lru_run E (place_of c) as (\<lambda>_. [])"
proof -
  have "tracks (alloc_cache c) (\<lambda>_. [])"
    using recency_empty assms(2) by (simp add: tracks_def alloc_cache_def)
  moreover have "place_of (alloc_cache c) = place_of c"
    by (simp add: place_of_def fun_eq_iff alloc_cache_def set_index_def addr_tag_def)
  ultimately show ?thesis using run_refines[OF assms(1)] by simp
qed

end

section \<open>Direct-mapped sets\<close>

fun recency1 :: "cacheSet \<Rightarrow> uint64 list \<Rightarrow> bool" where
  "recency1 [x] q = (q = (if valid x \<noteq> 0 then [tag x] else []))"
| "recency1 _ q = False"

lemma recency1_elim:
  assumes "recency1 ls q"
  obtains x where "ls = [x]" and "q = (if valid x \<noteq> 0 then [tag x] else [])"
  using assms by (cases "(ls, q)" rule: recency1.cases) auto

lemma visit_set_one:
  "visit_set older t [x] =
     (if valid x = 0 then ([\<lparr>valid = 1, lru = 1, tag = t\<rparr>], 1)
      else if tag x = t then ([x\<lparr>lru := 1\<rparr>], 0)
      else ([x\<lparr>lru := 1, tag := t\<rparr>], 2))"
  by (simp add: visit_set_def scan_steps)

lemma recency1_visit:
  "recency1 ls q \<Longrightarrow> snd (visit_set older t ls) = fst (lru_access (Suc 0) t q) \<and>
     recency1 (fst (visit_set older t ls)) (snd (lru_access (Suc 0) t q))"
  by (erule recency1_elim) (auto simp: visit_set_one lru_access_def)

interpretation direct: lru_set "\<lambda>x y. x < y" "Suc 0" recency1
  by unfold_locales (simp_all add: recency1_visit empty_line_def)

interpretation direct2: lru_set "\<lambda>x y. x \<le> y" "Suc 0" recency1
  by unfold_locales (simp_all add: recency1_visit empty_line_def)

section \<open>Two-way sets with \<open>visitCache2\<close>\<close>

text \<open>
  The first line is the older one exactly when its age is strictly larger: ages are equal
  only when the first line was touched last.
\<close>

fun recency2 :: "cacheSet \<Rightarrow> uint64 list \<Rightarrow> bool" where
  "recency2 [x, y] q =
     (if valid y = 0 then valid x = 0 \<and> q = []
      else if valid x = 0 then 1 \<le> lru y \<and> q = [tag y]
      else 1 \<le> lru x \<and> 1 \<le> lru y \<and> tag x \<noteq> tag y \<and>
           q = (if lru x \<le> lru y then [tag x, tag y] else [tag y, tag x]))"
| "recency2 _ q = False"

lemma recency2_elim:
  assumes "recency2 ls q"
  obtains x y where "ls = [x, y]"
  using assms by (cases "(ls, q)" rule: recency2.cases) auto

lemma recency2_visit:
  assumes "recency2 ls q"
  shows "snd (visit_set (\<lambda>x y. x \<le> y) t ls) = fst (lru_access 2 t q) \<and>
     recency2 (fst (visit_set (\<lambda>x y. x \<le> y) t ls)) (snd (lru_access 2 t q))"
proof -
  from assms obtain x y where ls: "ls = [x, y]" by (rule recency2_elim)
  with assms show ?thesis
    by (auto simp: visit_set_def scan_steps lru_access_def numeral_2_eq_2 split: if_splits)
qed

interpretation twoway: lru_set "\<lambda>x y. x \<le> y" 2 recency2
proof
  show "recency2 (replicate 2 empty_line) []" by (simp add: numeral_2_eq_2 empty_line_def)
qed (simp_all add: recency2_visit)

section \<open>Properties\<close>

text \<open>A small configuration for the witnesses: one set of two lines, blocks of one byte.\<close>

definition tiny_cfg :: csim where
  "tiny_cfg = csim_init\<lparr>bits_s := 0, bits_b := 0, lines_E := 2\<rparr>"

lemma tiny_wf: "csim_wf (alloc_cache tiny_cfg)"
  by (rule alloc_cache_wf) (simp_all add: tiny_cfg_def csim_init_def)

text \<open>
  The code an access returns: 0 exactly when a valid line of the addressed set carries
  the tag of the address, 2 when there is none and every line of the set is valid, 1
  otherwise; and the three counters move accordingly.
\<close>

theorem visitCache_outcome:
  assumes "csim_wf c"
  shows "snd (visitCache a c) =
        (if resident c a then 0 else if full (cache c ! set_index c a) then 2 else 1) \<and>
      hits (fst (visitCache a c)) = hits c + (if resident c a then 1 else 0) \<and>
      misses (fst (visitCache a c)) = misses c + (if resident c a then 0 else 1) \<and>
      evictions (fst (visitCache a c)) = evictions c +
        (if \<not> resident c a \<and> full (cache c ! set_index c a) then 1 else 0)"
  unfolding visitCache_def
  using visit_code[OF assms] visit_counters[OF assms refl] by simp

theorem visitCache_outcome_witness: "hits (fst (visitCache 5 (alloc_cache tiny_cfg))) = 0"
  using visitCache_outcome[OF tiny_wf, of 5]
  by (simp add: resident_def holds_def set_index_def alloc_cache_def tiny_cfg_def csim_init_def
      empty_line_def)

text \<open>
  An access leaves the cache well-formed (its shape, and no tag twice in a set), makes the
  address resident, touches no other set, and in its own set replaces exactly one tag when it
  returns 2 and loses none otherwise.
\<close>

theorem visitCache_effect:
  assumes "csim_wf c"
  shows "csim_wf (fst (visitCache a c)) \<and> resident (fst (visitCache a c)) a \<and>
    (\<forall>j. j \<noteq> set_index c a \<longrightarrow> cache (fst (visitCache a c)) ! j = cache c ! j) \<and>
    (let k = set_index c a; before = tagset (cache c ! k);
         after = tagset (cache (fst (visitCache a c)) ! k)
     in if snd (visitCache a c) = 2
        then \<exists>u \<in> before. after = insert (addr_tag c a) (before - {u})
        else after = insert (addr_tag c a) before)"
proof -
  let ?v = "visit_with (\<lambda>x y. x < y) a c" and ?k = "set_index c a"
  have "snd ?v = snd (visit_set (\<lambda>x y. x < y) (addr_tag c a) (cache c ! ?k))"
    by (simp add: visit_with_set[OF assms] Let_def)
  then have "if snd ?v = 2
      then \<exists>u \<in> tagset (cache c ! ?k).
             tagset (cache (fst ?v) ! ?k) = insert (addr_tag c a) (tagset (cache c ! ?k) - {u})
      else tagset (cache (fst ?v) ! ?k) = insert (addr_tag c a) (tagset (cache c ! ?k))"
    using visit_set_tagset[OF set_at(3,2)[OF assms set_index_less[OF assms]]]
    by (simp only: set_visited(1)[OF assms])
  then show ?thesis
    unfolding visitCache_def Let_def
    using csim_wf_visit[OF assms] visit_makes_resident[OF assms] set_visited(2)[OF assms] by blast
qed

theorem visitCache_effect_witness:
  "csim_wf (fst (visitCache 5 (alloc_cache tiny_cfg))) \<and> resident (fst (visitCache 5 (alloc_cache tiny_cfg))) 5"
  using visitCache_effect[OF tiny_wf] by blast

text \<open>
  C24: Simulating any trace: the cache stays well-formed, hits and misses together count one per
  load or store and two per modify, and evictions never exceed misses.
\<close>

theorem simulate_counts:
  assumes "0 \<le> bits_s c" "bits_s c \<le> 30" "0 \<le> bits_b c" "bits_s c + bits_b c < 64" "0 < lines_E c"
    and "hits c = 0" "misses c = 0" "evictions c = 0"
  shows "csim_wf (simulate bufs l c) \<and>
    hits (simulate bufs l c) + misses (simulate bufs l c) = (\<Sum>x\<leftarrow>executed bufs l. accesses x) \<and>
    0 \<le> evictions (simulate bufs l c) \<and>
    evictions (simulate bufs l c) \<le> misses (simulate bufs l c)"
proof -
  note wf = alloc_cache_wf[OF assms(1-5)]
  have "hits (alloc_cache c) = 0" "misses (alloc_cache c) = 0" "evictions (alloc_cache c) = 0"
    using assms(6-8) by (simp_all add: alloc_cache_def)
  with fold_run_op_counts[OF wf, of "executed bufs l"] fold_run_op_wf[OF wf] show ?thesis
    by (simp add: simulate_def trace_loop_fold)
qed

theorem simulate_counts_witness:
  "hits (simulate ['' L 1,1'', '' M 2,1''] \<lparr>operation = CHR ''x'', address = 0, size_arg = 0\<rparr> tiny_cfg) +
   misses (simulate ['' L 1,1'', '' M 2,1''] \<lparr>operation = CHR ''x'', address = 0, size_arg = 0\<rparr> tiny_cfg) = 3"
proof -
  have "(\<Sum>x\<leftarrow>executed ['' L 1,1'', '' M 2,1''] \<lparr>operation = CHR ''x'', address = 0, size_arg = 0\<rparr>. accesses x) = 3"
    by code_simp
  then show ?thesis
    using simulate_counts[of tiny_cfg "['' L 1,1'', '' M 2,1'']"] by (simp add: tiny_cfg_def csim_init_def)
qed

text \<open>
  With one line per set (a direct-mapped cache) \<open>visitCache\<close> gives every trace the
  codes of least-recently-used replacement.
\<close>

theorem direct_mapped_lru:
  assumes "csim_wf (alloc_cache c)" and "lines_E c = 1"
  shows "visit_all visitCache as (alloc_cache c) = lru_run 1 (place_of c) as (\<lambda>_. [])"
  using direct.fresh_refines[OF assms(1)] assms(2) by (simp add: visitCache_def)

theorem direct_mapped_lru_witness:
  "visit_all visitCache [1, 2, 2, 1] (alloc_cache (tiny_cfg\<lparr>lines_E := 1\<rparr>)) =
     lru_run 1 (place_of (tiny_cfg\<lparr>lines_E := 1\<rparr>)) [1, 2, 2, 1] (\<lambda>_. [])"
  by (rule direct_mapped_lru) (auto intro!: alloc_cache_wf simp: tiny_cfg_def csim_init_def)

text \<open>
  C25: With two lines per set, \<open>visitCache2\<close>, which compares ages with \<open><=\<close>, gives
  every trace the codes of least-recently-used replacement.
\<close>

theorem two_way_lru:
  assumes "csim_wf (alloc_cache c)" and "lines_E c = 2"
  shows "visit_all visitCache2 as (alloc_cache c) = lru_run 2 (place_of c) as (\<lambda>_. [])"
  using twoway.fresh_refines[OF assms(1)] assms(2) by (simp add: visitCache2_def)

theorem two_way_lru_witness:
  "visit_all visitCache2 [1, 2, 1, 2, 3, 2] (alloc_cache tiny_cfg) =
     lru_run 2 (place_of tiny_cfg) [1, 2, 1, 2, 3, 2] (\<lambda>_. [])"
  by (rule two_way_lru[OF tiny_wf]) (simp add: tiny_cfg_def csim_init_def)

text \<open>
  \<open>visitCache\<close>, the function the simulator calls, is not least-recently-used: with two
  lines per set the trace 1, 2, 1, 2, 3 makes it evict 2, the tag used last, so that the
  next access to 2 misses where it should hit. \<open>visitCache2\<close> fails in the same way with
  three lines per set.
\<close>

theorem visitCache_not_lru:
  "visit_all visitCache [1, 2, 1, 2, 3, 2] (alloc_cache tiny_cfg) = [1, 1, 0, 0, 2, 2] \<and>
   lru_run 2 (place_of tiny_cfg) [1, 2, 1, 2, 3, 2] (\<lambda>_. []) = [1, 1, 0, 0, 2, 0] \<and>
   visit_all visitCache2 [1, 2, 3, 1, 2, 3, 2, 4, 3] (alloc_cache (tiny_cfg\<lparr>lines_E := 3\<rparr>)) =
     [1, 1, 1, 0, 0, 0, 0, 2, 2] \<and>
   lru_run 3 (place_of tiny_cfg) [1, 2, 3, 1, 2, 3, 2, 4, 3] (\<lambda>_. []) = [1, 1, 1, 0, 0, 0, 0, 2, 0]"
proof (intro conjI)
  note cfg = tiny_cfg_def csim_init_def addr_tag_def set_index_def
  note prog = visit_with_def scan_steps finish_visit_def Let_def alloc_cache_def empty_line_def cfg
  show "visit_all visitCache [1, 2, 1, 2, 3, 2] (alloc_cache tiny_cfg) = [1, 1, 0, 0, 2, 2]"
    by (simp add: visitCache_def prog numeral_2_eq_2)
  show "visit_all visitCache2 [1, 2, 3, 1, 2, 3, 2, 4, 3] (alloc_cache (tiny_cfg\<lparr>lines_E := 3\<rparr>)) =
      [1, 1, 1, 0, 0, 0, 0, 2, 2]"
    by (simp add: visitCache2_def prog numeral_3_eq_3)
qed (simp_all add: tiny_cfg_def csim_init_def addr_tag_def set_index_def lru_access_def place_of_def)

end
