(* ===== verification/Memlib.thy ===== *)
theory Memlib
  imports Prelude
begin

text \<open>
  The simulated memory system of the malloc lab, \<open>csapp-master/vm/malloc/memlib.c\<close>, over
  a byte-addressed memory, and the 32-bit loads and stores the allocators make into it. An
  address is a natural number; NULL is 0 and \<open>(void *) -1\<close> is the largest 64-bit address.
\<close>

section \<open>Byte memory\<close>

type_synonym byte_mem = "nat \<Rightarrow> 8 word"

text \<open>\<open>*(unsigned int *)(p)\<close> on a little-endian machine.\<close>

definition GET :: "byte_mem \<Rightarrow> nat \<Rightarrow> uint32" where
  "GET m p = ucast (m p) OR push_bit 8 (ucast (m (p + 1))) OR
             push_bit 16 (ucast (m (p + 2))) OR push_bit 24 (ucast (m (p + 3)))"

definition PUT :: "nat \<Rightarrow> uint32 \<Rightarrow> byte_mem \<Rightarrow> byte_mem" where
  "PUT p v m = m(p := ucast v, p + 1 := ucast (drop_bit 8 v),
                 p + 2 := ucast (drop_bit 16 v), p + 3 := ucast (drop_bit 24 v))"

text \<open>\<open>memcpy\<close>: \<open>n\<close> bytes from \<open>src\<close> to \<open>dst\<close>, read before any is written.\<close>

definition memcpy :: "nat \<Rightarrow> nat \<Rightarrow> nat \<Rightarrow> byte_mem \<Rightarrow> byte_mem" where
  "memcpy dst src n m = (\<lambda>a. if dst \<le> a \<and> a < dst + n then m (src + (a - dst)) else m a)"

text \<open>What a word memory promises to its users.\<close>

locale word_memory =
  fixes get :: "'m \<Rightarrow> nat \<Rightarrow> 'w" and put :: "nat \<Rightarrow> 'w \<Rightarrow> 'm \<Rightarrow> 'm" and width :: nat
  assumes get_put_same: "get (put p v m) p = v"
    and get_put_other: "p + width \<le> q \<or> q + width \<le> p \<Longrightarrow> get (put p v m) q = get m q"
begin

text \<open>Writing both ends of a block: the later write does not disturb the earlier one.\<close>

lemma get_put_both:
  assumes "p + width \<le> q"
  shows "get (put q w (put p v m)) p = v" and "get (put q w (put p v m)) q = w"
  using assms by (simp_all add: get_put_same get_put_other)

lemma get_put_both_other:
  assumes "p + width \<le> r \<or> r + width \<le> p" and "q + width \<le> r \<or> r + width \<le> q"
  shows "get (put q w (put p v m)) r = get m r"
  using assms by (simp add: get_put_other)

end

lemma GET_PUT_same: "GET (PUT p v m) p = v"
proof -
  let ?w = "ucast (ucast v :: 8 word) OR push_bit 8 (ucast (ucast (drop_bit 8 v) :: 8 word)) OR
        push_bit 16 (ucast (ucast (drop_bit 16 v) :: 8 word)) OR
        push_bit 24 (ucast (ucast (drop_bit 24 v) :: 8 word)) :: uint32"
  have "?w = v"
  proof (rule bit_word_eqI)
    fix n assume "n < LENGTH(32)"
    then consider "n < 8" | "8 \<le> n" "n < 16" | "16 \<le> n" "n < 24" | "24 \<le> n" "n < 32"
      by fastforce
    then show "bit ?w n = bit v n"
      by cases (auto simp: bit_simps)
  qed
  then show ?thesis by (simp add: GET_def PUT_def)
qed

lemma GET_PUT_other: "p + 4 \<le> q \<or> q + 4 \<le> p \<Longrightarrow> GET (PUT p v m) q = GET m q"
  by (auto simp: GET_def PUT_def)

interpretation bytes: word_memory GET PUT 4
  by unfold_locales (simp_all add: GET_PUT_same GET_PUT_other)

lemma PUT_outside: "a < p \<or> p + 4 \<le> a \<Longrightarrow> PUT p v m a = m a"
  by (auto simp: PUT_def)

text \<open>Memories that agree on \<open>[lo, hi)\<close>.\<close>

definition agree :: "nat \<Rightarrow> nat \<Rightarrow> byte_mem \<Rightarrow> byte_mem \<Rightarrow> bool" where
  "agree lo hi m m' \<longleftrightarrow> (\<forall>a. lo \<le> a \<and> a < hi \<longrightarrow> m a = m' a)"

lemma agree_refl [simp]: "agree lo hi m m"
  by (simp add: agree_def)

lemma agree_sym: "agree lo hi m m' \<Longrightarrow> agree lo hi m' m"
  by (simp add: agree_def)

lemma agree_trans: "agree lo hi m m' \<Longrightarrow> agree lo hi m' m'' \<Longrightarrow> agree lo hi m m''"
  by (simp add: agree_def)

lemma agree_mono: "agree lo hi m m' \<Longrightarrow> lo \<le> lo' \<Longrightarrow> hi' \<le> hi \<Longrightarrow> agree lo' hi' m m'"
  by (auto simp: agree_def)

lemma agree_PUT: "hi \<le> p \<or> p + 4 \<le> lo \<Longrightarrow> agree lo hi m (PUT p v m') = agree lo hi m m'"
  unfolding agree_def using PUT_outside by (metis (mono_tags, opaque_lifting) le_trans linorder_not_le)

lemma agree_GET: "agree lo hi m m' \<Longrightarrow> lo \<le> p \<Longrightarrow> p + 4 \<le> hi \<Longrightarrow> GET m' p = GET m p"
  by (simp add: agree_def GET_def)

section \<open>The memory system\<close>

text \<open>
  The static variables of \<open>memlib.c\<close> with the memory they point into, and \<open>heap_listp\<close>,
  the one variable of the allocator in \<open>mm.c\<close>.
\<close>

record heap =
  mem :: byte_mem
  mem_heap :: nat
  mem_brk :: nat
  mem_max_addr :: nat
  heap_listp :: nat

definition MAX_HEAP :: nat where "MAX_HEAP = 20 * 2 ^ 20"

definition PTR_ERR :: nat where "PTR_ERR = 2 ^ 64 - 1"

text \<open>Conversion of a \<open>size_t\<close> argument to the \<open>int\<close> parameter of \<open>mem_sbrk\<close>.\<close>

definition int_of_size :: "nat \<Rightarrow> int" where
  "int_of_size n = sint (word_of_nat n :: int32)"

lemma int_of_size_small: "n < 2 ^ 31 \<Longrightarrow> int_of_size n = int n"
  by (simp add: int_of_size_def signed_of_nat signed_take_bit_int_eq_self)

text \<open>\<open>base\<close> is the address \<open>Malloc(MAX_HEAP)\<close> returns.\<close>

definition mem_init :: "nat \<Rightarrow> heap \<Rightarrow> heap" where
  "mem_init base h = h\<lparr>mem_heap := base, mem_brk := base, mem_max_addr := base + MAX_HEAP\<rparr>"

definition mem_sbrk :: "int \<Rightarrow> heap \<Rightarrow> heap \<times> nat" where
  "mem_sbrk incr h =
     (if incr < 0 \<or> int (mem_brk h) + incr > int (mem_max_addr h) then (h, PTR_ERR)
      else (h\<lparr>mem_brk := nat (int (mem_brk h) + incr)\<rparr>, mem_brk h))"

definition mem_deinit :: "heap \<Rightarrow> heap" where
  "mem_deinit h = h"

definition mem_reset_brk :: "heap \<Rightarrow> heap" where
  "mem_reset_brk h = h\<lparr>mem_brk := mem_heap h\<rparr>"

definition mem_heap_lo :: "heap \<Rightarrow> nat" where
  "mem_heap_lo h = mem_heap h"

definition mem_heap_hi :: "heap \<Rightarrow> nat" where
  "mem_heap_hi h = mem_brk h - 1"

definition mem_heapsize :: "heap \<Rightarrow> nat" where
  "mem_heapsize h = mem_brk h - mem_heap h"

text \<open>The bounds every state of the memory system keeps.\<close>

definition mem_ok :: "heap \<Rightarrow> bool" where
  "mem_ok h \<longleftrightarrow> mem_heap h \<le> mem_brk h \<and> mem_brk h \<le> mem_max_addr h \<and>
     mem_max_addr h = mem_heap h + MAX_HEAP \<and> mem_max_addr h < PTR_ERR \<and> 0 < mem_heap h"

lemma mem_init_ok: "0 < base \<Longrightarrow> base + MAX_HEAP < PTR_ERR \<Longrightarrow> mem_ok (mem_init base h)"
  by (simp add: mem_ok_def mem_init_def)

lemma mem_reset_ok [inv_intros]: "mem_ok h \<Longrightarrow> mem_ok (mem_reset_brk h)"
  by (simp add: mem_ok_def mem_reset_brk_def)

lemma mem_sbrk_ok [inv_intros]: "mem_ok h \<Longrightarrow> mem_ok (fst (mem_sbrk incr h))"
  by (auto simp: mem_ok_def mem_sbrk_def)

text \<open>A request that fits gets the old break; one that does not changes nothing.\<close>

lemma mem_sbrk_fits:
  "mem_brk h + n \<le> mem_max_addr h \<Longrightarrow> mem_sbrk (int n) h = (h\<lparr>mem_brk := mem_brk h + n\<rparr>, mem_brk h)"
  by (simp add: mem_sbrk_def nat_int_add)

lemma mem_sbrk_fails:
  "mem_max_addr h < mem_brk h + n \<Longrightarrow> mem_sbrk (int n) h = (h, PTR_ERR)"
  by (simp add: mem_sbrk_def)

lemma mem_sbrk_not_err: "mem_ok h \<Longrightarrow> mem_brk h \<noteq> PTR_ERR"
  by (simp add: mem_ok_def)

end
