(* ===== verification/Implicit.thy ===== *)
theory Implicit
  imports Memlib "HOL-Library.Monad_Syntax"
begin

text \<open>
  The allocator of the textbook, \<open>csapp-master/vm/malloc/mm.c\<close>: an implicit free list with
  boundary tags, first-fit placement (\<open>NEXT_FIT\<close> is not defined) and immediate coalescing,
  built for 64 bits as in its Makefile. This theory holds the model of every operation; the
  heap it maintains and its correctness are in \<open>ImplicitHeap\<close> and \<open>ImplicitCorrect\<close>.
  \<open>size_t\<close> values are natural numbers, reduced modulo \<open>2 ^ 64\<close> where the code can
  wrap; a search that does not return is \<open>None\<close>.
\<close>

section \<open>Macros\<close>

definition WSIZE :: nat where "WSIZE = 4"
definition DSIZE :: nat where "DSIZE = 8"
definition CHUNKSIZE :: nat where "CHUNKSIZE = 2 ^ 12"

definition size_wrap :: "nat \<Rightarrow> nat" where
  "size_wrap n = n mod 2 ^ 64"

definition size_sub :: "nat \<Rightarrow> nat \<Rightarrow> nat" where
  "size_sub a b = size_wrap (a + 2 ^ 64 - b)"

definition PACK :: "nat \<Rightarrow> nat \<Rightarrow> uint32" where
  "PACK sz alloc = word_of_nat sz OR word_of_nat alloc"

definition GET_SIZE :: "byte_mem \<Rightarrow> nat \<Rightarrow> nat" where
  "GET_SIZE m p = unat (GET m p AND NOT 7)"

definition GET_ALLOC :: "byte_mem \<Rightarrow> nat \<Rightarrow> bool" where
  "GET_ALLOC m p \<longleftrightarrow> GET m p AND 1 \<noteq> 0"

definition HDRP :: "nat \<Rightarrow> nat" where
  "HDRP bp = bp - WSIZE"

definition FTRP :: "byte_mem \<Rightarrow> nat \<Rightarrow> nat" where
  "FTRP m bp = bp + GET_SIZE m (HDRP bp) - DSIZE"

definition NEXT_BLKP :: "byte_mem \<Rightarrow> nat \<Rightarrow> nat" where
  "NEXT_BLKP m bp = bp + GET_SIZE m (bp - WSIZE)"

definition PREV_BLKP :: "byte_mem \<Rightarrow> nat \<Rightarrow> nat" where
  "PREV_BLKP m bp = bp - GET_SIZE m (bp - DSIZE)"

section \<open>Operations\<close>

definition coalesce :: "nat \<Rightarrow> byte_mem \<Rightarrow> byte_mem \<times> nat" where
  "coalesce bp m =
     (let prev_alloc = GET_ALLOC m (FTRP m (PREV_BLKP m bp));
          next_alloc = GET_ALLOC m (HDRP (NEXT_BLKP m bp));
          sz = GET_SIZE m (HDRP bp)
      in if prev_alloc \<and> next_alloc then (m, bp)
         else if prev_alloc \<and> \<not> next_alloc then
           let sz = sz + GET_SIZE m (HDRP (NEXT_BLKP m bp));
               m1 = PUT (HDRP bp) (PACK sz 0) m;
               m2 = PUT (FTRP m1 bp) (PACK sz 0) m1
           in (m2, bp)
         else if \<not> prev_alloc \<and> next_alloc then
           let sz = sz + GET_SIZE m (HDRP (PREV_BLKP m bp));
               m1 = PUT (FTRP m bp) (PACK sz 0) m;
               m2 = PUT (HDRP (PREV_BLKP m1 bp)) (PACK sz 0) m1
           in (m2, PREV_BLKP m2 bp)
         else
           let sz = sz + (GET_SIZE m (HDRP (PREV_BLKP m bp)) + GET_SIZE m (FTRP m (NEXT_BLKP m bp)));
               m1 = PUT (HDRP (PREV_BLKP m bp)) (PACK sz 0) m;
               m2 = PUT (FTRP m1 (NEXT_BLKP m1 bp)) (PACK sz 0) m1
           in (m2, PREV_BLKP m2 bp))"

definition extend_heap :: "nat \<Rightarrow> heap \<Rightarrow> heap \<times> nat" where
  "extend_heap words h =
     (let sz = (if words mod 2 \<noteq> 0 then size_wrap (size_wrap (words + 1) * WSIZE)
                  else size_wrap (words * WSIZE));
          (h1, bp) = mem_sbrk (int_of_size sz) h
      in if bp = PTR_ERR then (h1, 0)
         else
           let m1 = PUT (HDRP bp) (PACK sz 0) (mem h1);
               m2 = PUT (FTRP m1 bp) (PACK sz 0) m1;
               m3 = PUT (HDRP (NEXT_BLKP m2 bp)) (PACK 0 1) m2;
               (m4, q) = coalesce bp m3
           in (h1\<lparr>mem := m4\<rparr>, q))"

definition mm_init :: "heap \<Rightarrow> heap \<times> int" where
  "mm_init h =
     (let (h1, p) = mem_sbrk (int (4 * WSIZE)) h; h1 = h1\<lparr>heap_listp := p\<rparr>
      in if p = PTR_ERR then (h1, -1)
         else
           let m1 = PUT p 0 (mem h1);
               m2 = PUT (p + 1 * WSIZE) (PACK DSIZE 1) m1;
               m3 = PUT (p + 2 * WSIZE) (PACK DSIZE 1) m2;
               m4 = PUT (p + 3 * WSIZE) (PACK 0 1) m3;
               h2 = h1\<lparr>mem := m4, heap_listp := p + 2 * WSIZE\<rparr>;
               (h3, bp) = extend_heap (CHUNKSIZE div WSIZE) h2
           in if bp = 0 then (h3, -1) else (h3, 0))"

definition place :: "nat \<Rightarrow> nat \<Rightarrow> byte_mem \<Rightarrow> byte_mem" where
  "place bp asize m =
     (let csize = GET_SIZE m (HDRP bp)
      in if size_sub csize asize \<ge> 2 * DSIZE then
           let m1 = PUT (HDRP bp) (PACK asize 1) m;
               m2 = PUT (FTRP m1 bp) (PACK asize 1) m1;
               bp' = NEXT_BLKP m2 bp;
               m3 = PUT (HDRP bp') (PACK (size_sub csize asize) 0) m2
           in PUT (FTRP m3 bp') (PACK (size_sub csize asize) 0) m3
         else
           let m1 = PUT (HDRP bp) (PACK csize 1) m
           in PUT (FTRP m1 bp) (PACK csize 1) m1)"

partial_function (option) find_fit_from :: "nat \<Rightarrow> byte_mem \<Rightarrow> nat \<Rightarrow> nat option" where
  "find_fit_from asize m bp =
     (if GET_SIZE m (HDRP bp) > 0 then
        if \<not> GET_ALLOC m (HDRP bp) \<and> asize \<le> GET_SIZE m (HDRP bp) then Some bp
        else find_fit_from asize m (NEXT_BLKP m bp)
      else Some 0)"

definition find_fit :: "nat \<Rightarrow> heap \<Rightarrow> nat option" where
  "find_fit asize h = find_fit_from asize (mem h) (heap_listp h)"

definition adjust_size :: "nat \<Rightarrow> nat" where
  "adjust_size sz =
     (if sz \<le> DSIZE then 2 * DSIZE
      else size_wrap (DSIZE * (size_wrap (sz + DSIZE + (DSIZE - 1)) div DSIZE)))"

definition mm_malloc :: "nat \<Rightarrow> heap \<Rightarrow> (heap \<times> nat) option" where
  "mm_malloc sz h =
     (let h = (if heap_listp h = 0 then fst (mm_init h) else h)
      in if sz = 0 then Some (h, 0)
         else do {
           let asize = adjust_size sz;
           bp \<leftarrow> find_fit asize h;
           if bp \<noteq> 0 then Some (h\<lparr>mem := place bp asize (mem h)\<rparr>, bp)
           else do {
             let extendsize = max asize CHUNKSIZE;
             let (h1, bp) = extend_heap (extendsize div WSIZE) h;
             if bp = 0 then Some (h1, 0)
             else Some (h1\<lparr>mem := place bp asize (mem h1)\<rparr>, bp)
           }
         })"

definition mm_free :: "nat \<Rightarrow> heap \<Rightarrow> heap" where
  "mm_free bp h =
     (if bp = 0 then h
      else
        let sz = GET_SIZE (mem h) (HDRP bp);
            h = (if heap_listp h = 0 then fst (mm_init h) else h);
            m1 = PUT (HDRP bp) (PACK sz 0) (mem h);
            m2 = PUT (FTRP m1 bp) (PACK sz 0) m1
        in h\<lparr>mem := fst (coalesce bp m2)\<rparr>)"

definition mm_realloc :: "nat \<Rightarrow> nat \<Rightarrow> heap \<Rightarrow> (heap \<times> nat) option" where
  "mm_realloc ptr sz h =
     (if sz = 0 then Some (mm_free ptr h, 0)
      else if ptr = 0 then mm_malloc sz h
      else do {
        (h1, newptr) \<leftarrow> mm_malloc sz h;
        if newptr = 0 then Some (h1, 0)
        else
          let oldsize = GET_SIZE (mem h1) (HDRP ptr);
              oldsize = (if sz < oldsize then sz else oldsize);
              h2 = h1\<lparr>mem := memcpy newptr ptr oldsize (mem h1)\<rparr>
          in Some (mm_free ptr h2, newptr)
      })"

section \<open>The heap checker\<close>

text \<open>The messages \<open>checkheap\<close> prints, other than those \<open>verbose\<close> asks for.\<close>

datatype heap_error = BadPrologue | Misaligned nat | HeaderFooterMismatch nat | BadEpilogue

definition checkblock :: "nat \<Rightarrow> byte_mem \<Rightarrow> heap_error list" where
  "checkblock bp m =
     (if bp mod 8 \<noteq> 0 then [Misaligned bp] else []) @
     (if GET m (HDRP bp) \<noteq> GET m (FTRP m bp) then [HeaderFooterMismatch bp] else [])"

partial_function (option) checkblocks :: "byte_mem \<Rightarrow> nat \<Rightarrow> heap_error list \<Rightarrow> (heap_error list \<times> nat) option" where
  "checkblocks m bp errs =
     (if GET_SIZE m (HDRP bp) > 0 then checkblocks m (NEXT_BLKP m bp) (errs @ checkblock bp m)
      else Some (errs, bp))"

definition checkheap :: "heap \<Rightarrow> heap_error list option" where
  "checkheap h = do {
     let m = mem h;
     let lp = heap_listp h;
     let prologue = (if GET_SIZE m (HDRP lp) \<noteq> DSIZE \<or> \<not> GET_ALLOC m (HDRP lp) then [BadPrologue] else []);
     (errs, bp) \<leftarrow> checkblocks m lp (prologue @ checkblock lp m);
     Some (errs @ (if GET_SIZE m (HDRP bp) \<noteq> 0 \<or> \<not> GET_ALLOC m (HDRP bp) then [BadEpilogue] else []))
   }"

end
