(* ===== verification/Driver.thy ===== *)
theory Driver
  imports Implicit
begin

text \<open>
  The driver that tests the textbook allocator, \<open>csapp-master/vm/malloc/mdriver.c\<close>, linked
  with \<open>mm.c\<close> and \<open>memlib.c\<close> of the same directory: the range list, the random payloads, and
  the correctness and utilisation runs over a trace. An allocator call that does not return
  is \<open>None\<close>; a failed \<open>assert\<close>, an \<open>app_error\<close> or an array index out of bounds is \<open>Fault\<close>.
\<close>

section \<open>Traces\<close>

datatype op_type = ALLOC | FREE_OP | REALLOC

record traceop =
  op_type :: op_type
  op_index :: int
  op_size :: nat

record trace =
  ignore_ranges :: bool
  num_ids :: nat
  ops :: "traceop list"

section \<open>The state of a run\<close>

record range =
  lo :: nat
  hi :: nat
  r_index :: int

datatype debug_mode = DBG_NONE | DBG_CHEAP | DBG_EXPENSIVE

text \<open>What \<open>malloc_error\<close> prints, with the number of the operation.\<close>

datatype complaint = InitFailed | MallocFailed | ReallocFailed | ReallocNotNull | Unaligned | OutsideHeap | Overlaps range | Garbled int nat nat

text \<open>
  The memory system and allocator, the range list, the arrays \<open>blocks\<close>, \<open>block_sizes\<close> and
  \<open>block_rand_base\<close> of the trace, the complaints, what the heap checker printed, and how
  often \<open>random\<close> was called.
\<close>

record driver =
  d_heap :: heap
  d_ranges :: "range list"
  d_blocks :: "nat list"
  d_sizes :: "nat list"
  d_bases :: "nat list"
  d_errors :: "(nat \<times> complaint) list"
  d_checks :: "heap_error list"
  d_draws :: nat

text \<open>The debug mode, the results \<open>random\<close> has in store and the array \<open>random_data\<close>.\<close>

record driver_env =
  debug :: debug_mode
  random :: "nat \<Rightarrow> nat"
  random_data :: "nat \<Rightarrow> 8 word"

definition ALIGNMENT :: nat where "ALIGNMENT = 8"
definition RANDOM_DATA_LEN :: nat where "RANDOM_DATA_LEN = 2 ^ 16"

definition malloc_error :: "nat \<Rightarrow> complaint \<Rightarrow> driver \<Rightarrow> driver" where
  "malloc_error opnum c d = d\<lparr>d_errors := d_errors d @ [(opnum, c)]\<rparr>"

text \<open>Sequencing of steps that may not return or be stopped.\<close>

definition on_done :: "'a outcome option \<Rightarrow> ('a \<Rightarrow> 'b outcome option) \<Rightarrow> 'b outcome option" where
  "on_done r f = (case r of None \<Rightarrow> None | Some Fault \<Rightarrow> Some Fault | Some (Done x) \<Rightarrow> f x)"

lemma on_done_simps [simp]:
  "on_done None f = None" "on_done (Some Fault) f = Some Fault" "on_done (Some (Done x)) f = f x"
  by (simp_all add: on_done_def)

section \<open>The range list\<close>

text \<open>The loop of \<open>add_range\<close>: the first range an end of the new one lies in.\<close>

fun find_overlap :: "nat \<Rightarrow> nat \<Rightarrow> range list \<Rightarrow> range option" where
  "find_overlap l h [] = None"
| "find_overlap l h (p # ps) =
     (if (l \<ge> lo p \<and> l \<le> hi p) \<or> (h \<ge> lo p \<and> h \<le> hi p) then Some p else find_overlap l h ps)"

definition add_range :: "driver_env \<Rightarrow> trace \<Rightarrow> nat \<Rightarrow> int \<Rightarrow> nat \<Rightarrow> int \<Rightarrow> driver \<Rightarrow> (driver \<times> bool) outcome" where
  "add_range E T opnum index l sz d =
     (let h = nat (int l + sz - 1) in
      if \<not> 0 < sz then Fault
      else if l mod ALIGNMENT \<noteq> 0 then Done (malloc_error opnum Unaligned d, False)
      else if l < mem_heap_lo (d_heap d) \<or> l > mem_heap_hi (d_heap d) \<or> h < mem_heap_lo (d_heap d) \<or> h > mem_heap_hi (d_heap d)
        then Done (malloc_error opnum OutsideHeap d, False)
      else if ignore_ranges T \<or> debug E = DBG_NONE then Done (d, True)
      else case find_overlap l h (d_ranges d) of
          Some p \<Rightarrow> Done (malloc_error opnum (Overlaps p) d, False)
        | None \<Rightarrow> Done (d\<lparr>d_ranges := \<lparr>lo = l, hi = h, r_index = index\<rparr> # d_ranges d\<rparr>, True))"

fun remove_range :: "nat \<Rightarrow> range list \<Rightarrow> range list" where
  "remove_range l [] = []"
| "remove_range l (p # ps) = (if lo p = l then ps else p # remove_range l ps)"

definition clear_ranges :: "driver \<Rightarrow> driver" where
  "clear_ranges d = d\<lparr>d_ranges := []\<rparr>"

section \<open>Random payloads\<close>

text \<open>
  \<open>init_random_data\<close> fills \<open>random_data\<close> and returns it with the number of calls of \<open>random\<close>. An
  index into it is taken modulo \<open>RANDOM_DATA_LEN\<close>, so the conversions of \<open>base\<close> to \<open>int\<close> and
  \<open>size_t\<close> do not matter.
\<close>

definition init_random_data :: "debug_mode \<Rightarrow> (nat \<Rightarrow> nat) \<Rightarrow> (nat \<Rightarrow> 8 word) \<times> nat" where
  "init_random_data dbg rnd =
     (if dbg = DBG_NONE then (\<lambda>i. 0, 0)
      else (for_loop 0 RANDOM_DATA_LEN (\<lambda>len f. f(len := word_of_nat (rnd len))) (\<lambda>i. 0), RANDOM_DATA_LEN))"

definition set_mem :: "byte_mem \<Rightarrow> driver \<Rightarrow> driver" where
  "set_mem m d = d\<lparr>d_heap := (d_heap d)\<lparr>mem := m\<rparr>\<rparr>"

definition in_range :: "'a list \<Rightarrow> int \<Rightarrow> bool" where
  "in_range xs i \<longleftrightarrow> 0 \<le> i \<and> i < int (length xs)"

definition fill_random :: "driver_env \<Rightarrow> nat \<Rightarrow> nat \<Rightarrow> nat \<Rightarrow> byte_mem \<Rightarrow> byte_mem" where
  "fill_random E block base sz =
     for_loop 0 sz (\<lambda>i m. m(block + i := random_data E ((base + i) mod RANDOM_DATA_LEN)))"

definition randomize_block :: "driver_env \<Rightarrow> int \<Rightarrow> driver \<Rightarrow> driver outcome" where
  "randomize_block E index d =
     (if debug E = DBG_NONE then Done d
      else if \<not> in_range (d_blocks d) index then Fault
      else
        let i = nat index;
            base = random E (d_draws d);
            d = d\<lparr>d_bases := (d_bases d)[i := base], d_draws := d_draws d + 1\<rparr>
        in Done (set_mem (fill_random E (d_blocks d ! i) base (d_sizes d ! i) (mem (d_heap d))) d))"

text \<open>The loop of \<open>check_index\<close>: how many bytes are garbled, and the first of them.\<close>

definition count_garbled :: "driver_env \<Rightarrow> nat \<Rightarrow> nat \<Rightarrow> nat \<Rightarrow> byte_mem \<Rightarrow> nat \<times> int" where
  "count_garbled E block base sz m =
     for_loop 0 sz (\<lambda>i (ngarbled, firstgarbled).
       if m (block + i) \<noteq> random_data E ((base + i) mod RANDOM_DATA_LEN)
       then (ngarbled + 1, if firstgarbled = -1 then int i else firstgarbled)
       else (ngarbled, firstgarbled)) (0, -1)"

definition check_index :: "driver_env \<Rightarrow> nat \<Rightarrow> int \<Rightarrow> driver \<Rightarrow> driver outcome" where
  "check_index E opnum index d =
     (if index < 0 then Done d
      else if debug E = DBG_NONE then Done d
      else if \<not> in_range (d_blocks d) index then Fault
      else
        let i = nat index;
            (ngarbled, firstgarbled) = count_garbled E (d_blocks d ! i) (d_bases d ! i) (d_sizes d ! i) (mem (d_heap d))
        in if ngarbled \<noteq> 0 then Done (malloc_error opnum (Garbled index ngarbled (nat firstgarbled)) d) else Done d)"

fun check_ranges :: "driver_env \<Rightarrow> nat \<Rightarrow> range list \<Rightarrow> driver \<Rightarrow> driver outcome" where
  "check_ranges E opnum [] d = Done d"
| "check_ranges E opnum (r # rs) d =
     (case check_index E opnum (r_index r) d of Fault \<Rightarrow> Fault | Done d \<Rightarrow> check_ranges E opnum rs d)"

definition reinit_trace :: "trace \<Rightarrow> driver \<Rightarrow> driver" where
  "reinit_trace T d = d\<lparr>d_blocks := replicate (num_ids T) 0, d_sizes := replicate (num_ids T) 0\<rparr>"

section \<open>The correctness run\<close>

text \<open>
  One operation of \<open>eval_mm_valid\<close>; the truth value says whether the run goes on (\<open>return 0\<close>
  leaves it).
\<close>

definition expensive_checks :: "driver_env \<Rightarrow> nat \<Rightarrow> driver \<Rightarrow> driver outcome option" where
  "expensive_checks E opnum d =
     (if debug E = DBG_EXPENSIVE
      then case checkheap (d_heap d) of None \<Rightarrow> None
        | Some es \<Rightarrow> (let d = d\<lparr>d_checks := d_checks d @ es\<rparr> in Some (check_ranges E opnum (d_ranges d) d))
      else Some (Done d))"

definition valid_alloc :: "driver_env \<Rightarrow> trace \<Rightarrow> nat \<Rightarrow> int \<Rightarrow> nat \<Rightarrow> driver \<Rightarrow> (driver \<times> bool) outcome option" where
  "valid_alloc E T opnum index sz d =
     (case mm_malloc sz (d_heap d) of None \<Rightarrow> None
      | Some (h, p) \<Rightarrow>
          let d = d\<lparr>d_heap := h\<rparr> in
          if p = 0 then Some (Done (malloc_error opnum MallocFailed d, False))
          else on_done (Some (add_range E T opnum index p (int_of_size sz) d)) (\<lambda>(d, ok).
            if \<not> ok then Some (Done (d, False))
            else if \<not> in_range (d_blocks d) index then Some Fault
            else
              let d = d\<lparr>d_blocks := (d_blocks d)[nat index := p], d_sizes := (d_sizes d)[nat index := sz]\<rparr>
              in on_done (Some (randomize_block E index d)) (\<lambda>d. Some (Done (d, True)))))"

text \<open>The block size is lowered to that of the request before the copied bytes are checked.\<close>

definition lower_size :: "nat \<Rightarrow> nat \<Rightarrow> driver \<Rightarrow> driver" where
  "lower_size i sz d = (if sz < d_sizes d ! i then d\<lparr>d_sizes := (d_sizes d)[i := sz]\<rparr> else d)"

definition valid_realloc :: "driver_env \<Rightarrow> trace \<Rightarrow> nat \<Rightarrow> int \<Rightarrow> nat \<Rightarrow> driver \<Rightarrow> (driver \<times> bool) outcome option" where
  "valid_realloc E T opnum index sz d =
     on_done (Some (check_index E opnum index d)) (\<lambda>d.
       if \<not> in_range (d_blocks d) index then Some Fault
       else
         let i = nat index; oldp = d_blocks d ! i in
         case mm_realloc oldp sz (d_heap d) of None \<Rightarrow> None
         | Some (h, newp) \<Rightarrow>
             let d = d\<lparr>d_heap := h\<rparr> in
             if newp = 0 \<and> sz \<noteq> 0 then Some (Done (malloc_error opnum ReallocFailed d, False))
             else if newp \<noteq> 0 \<and> sz = 0 then Some (Done (malloc_error opnum ReallocNotNull d, False))
             else
               let d = d\<lparr>d_ranges := remove_range oldp (d_ranges d)\<rparr> in
               on_done (Some (if sz > 0 then add_range E T opnum index newp (int_of_size sz) d else Done (d, True))) (\<lambda>(d, ok).
                 if \<not> ok then Some (Done (d, False))
                 else
                   let d = lower_size i sz (d\<lparr>d_blocks := (d_blocks d)[i := newp]\<rparr>)
                   in on_done (Some (check_index E opnum index d)) (\<lambda>d.
                        let d = d\<lparr>d_sizes := (d_sizes d)[i := sz]\<rparr>
                        in on_done (Some (randomize_block E index d)) (\<lambda>d. Some (Done (d, True))))))"

definition valid_free :: "driver_env \<Rightarrow> nat \<Rightarrow> int \<Rightarrow> driver \<Rightarrow> (driver \<times> bool) outcome option" where
  "valid_free E opnum index d =
     on_done (Some (check_index E opnum index d)) (\<lambda>d.
       if index = -1 then Some (Done (d\<lparr>d_heap := mm_free 0 (d_heap d)\<rparr>, True))
       else if \<not> in_range (d_blocks d) index then Some Fault
       else
         let p = d_blocks d ! nat index;
             d = d\<lparr>d_ranges := remove_range p (d_ranges d)\<rparr>
         in Some (Done (d\<lparr>d_heap := mm_free p (d_heap d)\<rparr>, True)))"

definition valid_op :: "driver_env \<Rightarrow> trace \<Rightarrow> nat \<Rightarrow> traceop \<Rightarrow> driver \<Rightarrow> (driver \<times> bool) outcome option" where
  "valid_op E T opnum r d =
     on_done (expensive_checks E opnum d) (\<lambda>d.
       case op_type r of
         ALLOC \<Rightarrow> valid_alloc E T opnum (op_index r) (op_size r) d
       | REALLOC \<Rightarrow> valid_realloc E T opnum (op_index r) (op_size r) d
       | FREE_OP \<Rightarrow> valid_free E opnum (op_index r) d)"

fun valid_ops :: "driver_env \<Rightarrow> trace \<Rightarrow> nat \<Rightarrow> traceop list \<Rightarrow> driver \<Rightarrow> (driver \<times> int) outcome option" where
  "valid_ops E T opnum [] d = Some (Done (d, 1))"
| "valid_ops E T opnum (r # rs) d =
     on_done (valid_op E T opnum r d) (\<lambda>(d, go_on). if go_on then valid_ops E T (opnum + 1) rs d else Some (Done (d, 0)))"

definition eval_mm_valid :: "driver_env \<Rightarrow> trace \<Rightarrow> driver \<Rightarrow> (driver \<times> int) outcome option" where
  "eval_mm_valid E T d =
     (let d = d\<lparr>d_heap := mem_reset_brk (d_heap d)\<rparr>;
          d = reinit_trace T (clear_ranges d);
          (h, r) = mm_init (d_heap d);
          d = d\<lparr>d_heap := h\<rparr>
      in if r < 0 then Some (Done (malloc_error 0 InitFailed d, 0))
         else valid_ops E T 0 (ops T) d)"

section \<open>The utilisation run\<close>

text \<open>Conversion of an \<open>int\<close> to \<open>size_t\<close>.\<close>

definition size_of_int :: "int \<Rightarrow> nat" where
  "size_of_int n = nat (n mod 2 ^ 64)"

text \<open>
  One operation of \<open>eval_mm_util\<close> on the state and \<open>total_size\<close>; sizes are of type \<open>int\<close>, and a
  failing call is an \<open>app_error\<close>.
\<close>

definition util_op :: "traceop \<Rightarrow> driver \<times> int \<Rightarrow> (driver \<times> int) outcome option" where
  "util_op r dt =
     (let (d, total_size) = dt; index = op_index r; sz = op_size r in
      case op_type r of
        ALLOC \<Rightarrow>
          (case mm_malloc (size_of_int (int_of_size sz)) (d_heap d) of None \<Rightarrow> None
           | Some (h, p) \<Rightarrow>
               if p = 0 \<or> \<not> in_range (d_blocks d) index then Some Fault
               else Some (Done (d\<lparr>d_heap := h, d_blocks := (d_blocks d)[nat index := p], d_sizes := (d_sizes d)[nat index := size_of_int (int_of_size sz)]\<rparr>,
                 total_size + int_of_size sz)))
      | REALLOC \<Rightarrow>
          if \<not> in_range (d_blocks d) index then Some Fault
          else
            let i = nat index; newsize = int_of_size sz; oldsize = int_of_size (d_sizes d ! i); oldp = d_blocks d ! i in
            (case mm_realloc oldp (size_of_int newsize) (d_heap d) of None \<Rightarrow> None
             | Some (h, newp) \<Rightarrow>
                 if newp = 0 \<and> newsize \<noteq> 0 then Some Fault
                 else Some (Done (d\<lparr>d_heap := h, d_blocks := (d_blocks d)[i := newp], d_sizes := (d_sizes d)[i := size_of_int newsize]\<rparr>,
                   total_size + (newsize - oldsize))))
      | FREE_OP \<Rightarrow>
          if index < 0 then Some (Done (d\<lparr>d_heap := mm_free 0 (d_heap d)\<rparr>, total_size))
          else if \<not> in_range (d_blocks d) index then Some Fault
          else
            let sz = int_of_size (d_sizes d ! nat index); p = d_blocks d ! nat index in
            Some (Done (d\<lparr>d_heap := mm_free p (d_heap d)\<rparr>, total_size - sz)))"

text \<open>The loop, with the high-water mark \<open>max_total_size\<close>.\<close>

fun util_ops :: "traceop list \<Rightarrow> int \<Rightarrow> driver \<times> int \<Rightarrow> (driver \<times> int) outcome option" where
  "util_ops [] max_total_size (d, total_size) = Some (Done (d, max_total_size))"
| "util_ops (r # rs) max_total_size dt =
     on_done (util_op r dt) (\<lambda>(d, total_size).
       util_ops rs (if total_size > max_total_size then total_size else max_total_size) (d, total_size))"

text \<open>The value returned is the quotient of the two numbers.\<close>

definition eval_mm_util :: "trace \<Rightarrow> driver \<Rightarrow> (driver \<times> int \<times> nat) outcome option" where
  "eval_mm_util T d =
     (let d = reinit_trace T d;
          d = d\<lparr>d_heap := mem_reset_brk (d_heap d)\<rparr>;
          (h, r) = mm_init (d_heap d);
          d = d\<lparr>d_heap := h\<rparr>
      in if r < 0 then Some Fault
         else on_done (util_ops (ops T) 0 (d, 0)) (\<lambda>(d, max_total_size).
           Some (Done (d, max_total_size, mem_heapsize (d_heap d)))))"

end
