(* ===== verification/ImplicitHeap.thy ===== *)
theory ImplicitHeap
  imports Implicit
begin

text \<open>
  The heap the implicit-list allocator maintains, as a list of blocks (size, allocated): the
  predicate \<open>seg\<close> ties a list of blocks to the boundary tags in memory, \<open>heap_rep\<close> adds the
  prologue, the epilogue and the bounds of the memory system. The lemmas read headers and
  footers through \<open>seg\<close> and say how a rewritten stretch of the heap changes the list.
\<close>

type_synonym block = "nat \<times> bool"

definition tag_word :: "nat \<Rightarrow> bool \<Rightarrow> uint32" where
  "tag_word n a = PACK n (if a then 1 else 0)"

definition size_ok :: "nat \<Rightarrow> bool" where
  "size_ok n \<longleftrightarrow> 8 dvd n \<and> 8 \<le> n \<and> n < 2 ^ 31"

definition block :: "byte_mem \<Rightarrow> nat \<Rightarrow> nat \<Rightarrow> bool \<Rightarrow> bool" where
  "block m bp n a \<longleftrightarrow> size_ok n \<and> GET m (bp - 4) = tag_word n a \<and> GET m (bp + n - 8) = tag_word n a"

fun seg :: "byte_mem \<Rightarrow> nat \<Rightarrow> block list \<Rightarrow> bool" where
  "seg m bp [] = True"
| "seg m bp ((n, a) # bs) = (block m bp n a \<and> seg m (bp + n) bs)"

definition tot :: "block list \<Rightarrow> nat" where
  "tot bs = sum_list (map fst bs)"

lemma tot_simps [simp]: "tot [] = 0" "tot (b # bs) = fst b + tot bs" "tot (xs @ ys) = tot xs + tot ys"
  by (simp_all add: tot_def)

lemma seg_append [simp]: "seg m bp (xs @ ys) \<longleftrightarrow> seg m bp xs \<and> seg m (bp + tot xs) ys"
  by (induction xs arbitrary: bp) (auto simp: add.assoc)

lemma seg_sizes: "seg m bp bs \<Longrightarrow> (n, a) \<in> set bs \<Longrightarrow> size_ok n"
  by (induction m bp bs rule: seg.induct) (auto simp: block_def)

lemma seg_tot_dvd: "seg m bp bs \<Longrightarrow> 8 dvd tot bs"
  by (induction m bp bs rule: seg.induct) (auto simp: block_def size_ok_def)

section \<open>Reading tags\<close>

text \<open>A size that is a multiple of 8 leaves the low three bits of its word to the flags.\<close>

lemma tag_word_mask:
  assumes "8 dvd n"
  shows "tag_word n a AND - 8 = word_of_nat n"
proof -
  have eight: "(- 8 :: uint32) = NOT (mask 3)" by (simp add: mask_eq_exp_minus_1)
  from assms obtain k where n: "n = push_bit 3 k" by (auto simp: push_bit_eq_mult mult.commute)
  show ?thesis
    unfolding tag_word_def PACK_def n eight
    by (rule bit_word_eqI) (auto simp: bit_simps)
qed

lemma tag_word_alloc:
  assumes "8 dvd n"
  shows "(tag_word n a AND 1 \<noteq> 0) = a"
proof -
  from assms obtain k where n: "n = push_bit 3 k" by (auto simp: push_bit_eq_mult mult.commute)
  have "bit (tag_word n a) 0 = a"
    unfolding tag_word_def PACK_def n by (simp add: bit_simps)
  then show ?thesis by (simp add: and_one_eq mod_2_eq_odd bit_0)
qed

lemma tag_word_size: "size_ok n \<Longrightarrow> unat (tag_word n a AND - 8) = n"
  by (simp add: tag_word_mask size_ok_def unat_of_nat)

lemma GET_SIZE_tag: "GET m p = tag_word n a \<Longrightarrow> size_ok n \<Longrightarrow> GET_SIZE m p = n"
  by (simp add: GET_SIZE_def tag_word_size)

lemma GET_ALLOC_tag: "GET m p = tag_word n a \<Longrightarrow> size_ok n \<Longrightarrow> GET_ALLOC m p = a"
  by (simp add: GET_ALLOC_def tag_word_alloc size_ok_def)

lemma block_reads:
  assumes "block m bp n a"
  shows "GET_SIZE m (HDRP bp) = n" "GET_ALLOC m (HDRP bp) = a"
    and "FTRP m bp = bp + n - 8" "GET_SIZE m (FTRP m bp) = n" "GET_ALLOC m (FTRP m bp) = a"
    and "NEXT_BLKP m bp = bp + n"
  using assms
  by (simp_all add: block_def HDRP_def FTRP_def NEXT_BLKP_def WSIZE_def DSIZE_def GET_SIZE_tag GET_ALLOC_tag)

text \<open>From a block, the one before it is found through its footer.\<close>

lemma block_prev: "block m bp n a \<Longrightarrow> q = bp + n \<Longrightarrow> PREV_BLKP m q = bp"
  by (simp add: block_def PREV_BLKP_def DSIZE_def GET_SIZE_tag)

text \<open>The epilogue: a header of size 0 marked allocated.\<close>

definition epilogue :: "byte_mem \<Rightarrow> nat \<Rightarrow> bool" where
  "epilogue m bp \<longleftrightarrow> GET m (bp - 4) = PACK 0 1"

lemma epilogue_reads:
  assumes "epilogue m bp"
  shows "GET_SIZE m (HDRP bp) = 0" "GET_ALLOC m (HDRP bp)"
  using assms by (simp_all add: epilogue_def HDRP_def WSIZE_def GET_SIZE_def GET_ALLOC_def PACK_def)

section \<open>Rewriting a stretch of the heap\<close>

text \<open>Memories that agree outside \<open>[lo, hi)\<close>.\<close>

definition agree_outside :: "nat \<Rightarrow> nat \<Rightarrow> byte_mem \<Rightarrow> byte_mem \<Rightarrow> bool" where
  "agree_outside lo hi m m' \<longleftrightarrow> (\<forall>a. a < lo \<or> hi \<le> a \<longrightarrow> m' a = m a)"

lemma agree_outside_refl [simp]: "agree_outside lo hi m m"
  by (simp add: agree_outside_def)

lemma agree_outside_trans:
  "agree_outside lo hi m m' \<Longrightarrow> agree_outside lo hi m' m'' \<Longrightarrow> agree_outside lo hi m m''"
  by (simp add: agree_outside_def)

lemma agree_outside_mono:
  "agree_outside lo hi m m' \<Longrightarrow> lo' \<le> lo \<Longrightarrow> hi \<le> hi' \<Longrightarrow> agree_outside lo' hi' m m'"
  by (auto simp: agree_outside_def)

lemma agree_outside_GET:
  "agree_outside lo hi m m' \<Longrightarrow> p + 4 \<le> lo \<or> hi \<le> p \<Longrightarrow> GET m' p = GET m p"
  by (auto simp: agree_outside_def GET_def)

lemma agree_outside_PUT: "lo \<le> p \<Longrightarrow> p + 4 \<le> hi \<Longrightarrow> agree_outside lo hi m (PUT p v m)"
  by (auto simp: agree_outside_def PUT_def)

lemma memcpy_outside: "r \<le> k \<Longrightarrow> agree_outside q (q + k) m (memcpy q p r m)"
  by (auto simp: agree_outside_def memcpy_def)

lemma seg_outside:
  assumes "agree_outside lo hi m m'" and "4 \<le> bp" and "bp + tot bs \<le> lo + 4 \<or> hi + 4 \<le> bp"
  shows "seg m' bp bs = seg m bp bs"
  using assms
proof (induction m bp bs rule: seg.induct)
  case (1 m bp)
  then show ?case by simp
next
  case (2 m bp n a bs)
  have "block m' bp n a = block m bp n a"
  proof (cases "8 \<le> n")
    case True
    have "bp - 4 + 4 \<le> lo \<or> hi \<le> bp - 4" and "bp + n - 8 + 4 \<le> lo \<or> hi \<le> bp + n - 8"
      using "2.prems"(2,3) True by (simp_all, arith+)
    then show ?thesis
      using agree_outside_GET[OF "2.prems"(1)] by (simp add: block_def)
  qed (simp add: block_def size_ok_def)
  then show ?case using 2 by auto
qed

lemma epilogue_outside:
  assumes "agree_outside lo hi m m'" and "4 \<le> bp" and "bp \<le> lo \<or> hi + 4 \<le> bp"
  shows "epilogue m' bp = epilogue m bp"
proof -
  have "bp - 4 + 4 \<le> lo \<or> hi \<le> bp - 4" using assms(2,3) by arith
  then show ?thesis using agree_outside_GET[OF assms(1)] by (simp add: epilogue_def)
qed

text \<open>A stretch \<open>mid\<close> of the list is rewritten in place to \<open>mid'\<close> of the same total size.\<close>

lemma seg_rewrite:
  assumes "seg m base (xs @ mid @ ys)" and "8 \<le> base"
    and "agree_outside (base + tot xs - 4) (base + tot xs + tot mid - 4) m m'"
    and "seg m' (base + tot xs) mid'" and "tot mid' = tot mid"
  shows "seg m' base (xs @ mid' @ ys)"
  using assms seg_outside[OF assms(3), of base xs]
    seg_outside[OF assms(3), of "base + tot xs + tot mid" ys]
  by (simp add: add.assoc)

text \<open>Writing the two tags of a block.\<close>

definition set_block :: "nat \<Rightarrow> nat \<Rightarrow> bool \<Rightarrow> byte_mem \<Rightarrow> byte_mem" where
  "set_block bp n a m = PUT (bp + n - 8) (tag_word n a) (PUT (bp - 4) (tag_word n a) m)"

lemma set_block_block: "4 \<le> bp \<Longrightarrow> size_ok n \<Longrightarrow> block (set_block bp n a m) bp n a"
  unfolding block_def set_block_def size_ok_def
  using bytes.get_put_both[of "bp - 4" "bp + n - 8"] by auto

lemma set_block_outside: "4 \<le> bp \<Longrightarrow> 8 \<le> n \<Longrightarrow> agree_outside (bp - 4) (bp + n - 4) m (set_block bp n a m)"
  unfolding set_block_def
  by (rule agree_outside_trans; rule agree_outside_PUT) auto

lemma PUT_commute: "p + 4 \<le> q \<Longrightarrow> PUT p v (PUT q w m) = PUT q w (PUT p v m)"
  by (auto simp: PUT_def fun_eq_iff)

text \<open>The code writes a header, reads it back to find the footer, and writes that.\<close>

lemma header_then_footer:
  assumes "size_ok n" and "4 \<le> bp"
  shows "(let m1 = PUT (HDRP bp) (tag_word n a) m in PUT (FTRP m1 bp) (tag_word n a) m1) = set_block bp n a m"
proof -
  have "GET_SIZE (PUT (HDRP bp) (tag_word n a) m) (HDRP bp) = n"
    using assms(1) by (simp add: GET_SIZE_def bytes.get_put_same tag_word_size)
  then show ?thesis
    by (simp add: Let_def FTRP_def set_block_def HDRP_def WSIZE_def DSIZE_def)
qed

end
