(* ===== verification/ImplicitCorrect.thy ===== *)
theory ImplicitCorrect
  imports ImplicitHeap
begin

text \<open>
  Correctness of the implicit-list allocator: each operation of \<open>Implicit\<close> as an operation
  on the list of blocks of \<open>ImplicitHeap\<close>, the invariant they keep (tags, geometry, no two
  free neighbours) and what they leave alone (the payload of every allocated block).
\<close>

lemma PACK_tags: "PACK n 0 = tag_word n False" "PACK n 1 = tag_word n True" "PACK n (Suc 0) = tag_word n True"
  by (simp_all add: tag_word_def)

lemma GET_SIZE_PUT: "p + 4 \<le> q \<or> q + 4 \<le> p \<Longrightarrow> GET_SIZE (PUT p v m) q = GET_SIZE m q"
  by (simp add: GET_SIZE_def bytes.get_put_other)

lemma block_min: "block m bp n a \<Longrightarrow> 8 \<le> n"
  by (simp add: block_def size_ok_def)

section \<open>Coalescing\<close>

text \<open>
  The four cases of \<open>coalesce\<close>, with the block before at \<open>pp\<close> and, where it is free,
  the block after.
\<close>

lemma coalesce_none:
  assumes "block m pp pn True" "block m (pp + pn) n False" "GET_ALLOC m (HDRP (pp + pn + n))"
  shows "coalesce (pp + pn) m = (m, pp + pn)"
  using assms block_prev[OF assms(1) refl] block_reads[OF assms(1)] block_reads[OF assms(2)]
  by (simp add: coalesce_def Let_def)

lemma coalesce_next:
  assumes "block m pp pn True" "block m (pp + pn) n False" "block m (pp + pn + n) k False"
    and "size_ok (n + k)" "8 \<le> pp"
  shows "coalesce (pp + pn) m = (set_block (pp + pn) (n + k) False m, pp + pn)"
  using block_prev[OF assms(1) refl] block_reads[OF assms(1)] block_reads[OF assms(2)]
    block_reads[OF assms(3)] header_then_footer[OF assms(4), of "pp + pn" False m] assms(5)
  by (simp add: coalesce_def Let_def PACK_tags)

lemma coalesce_prev:
  assumes "block m pp pn False" "block m (pp + pn) n False" "GET_ALLOC m (HDRP (pp + pn + n))"
    and "size_ok (pn + n)" "8 \<le> pp"
  shows "coalesce (pp + pn) m = (set_block pp (pn + n) False m, pp)"
proof -
  let ?bp = "pp + pn" and ?w = "tag_word (pn + n) False"
  let ?m1 = "PUT (?bp + n - 8) ?w m"
  note min = block_min[OF assms(1)] block_min[OF assms(2)]
  have "GET_SIZE ?m1 (?bp - 8) = GET_SIZE m (?bp - 8)"
    by (rule GET_SIZE_PUT) (use min in arith)
  then have read1: "GET_SIZE ?m1 (?bp - 8) = pn"
    using block_reads(3,4)[OF assms(1)] by simp
  have "GET_SIZE (PUT (pp - 4) ?w ?m1) (?bp - 8) = GET_SIZE ?m1 (?bp - 8)"
    by (rule GET_SIZE_PUT) (use min assms(5) in arith)
  with read1 have read2: "GET_SIZE (PUT (pp - 4) ?w ?m1) (?bp - 8) = pn" by simp
  have "PUT (pp - 4) ?w ?m1 = set_block pp (pn + n) False m"
    unfolding set_block_def add.assoc [symmetric] by (rule PUT_commute) (use min assms(5) in arith)
  then show ?thesis
    using assms(3) block_prev[OF assms(1) refl] block_reads[OF assms(1)] block_reads[OF assms(2)] read1 read2
    by (simp add: coalesce_def Let_def PACK_tags add.commute PREV_BLKP_def HDRP_def DSIZE_def WSIZE_def)
qed

lemma coalesce_both:
  assumes "block m pp pn False" "block m (pp + pn) n False" "block m (pp + pn + n) k False"
    and "8 \<le> pp"
  shows "coalesce (pp + pn) m = (set_block pp (pn + n + k) False m, pp)"
proof -
  let ?bp = "pp + pn" and ?w = "tag_word (pn + n + k) False"
  let ?m1 = "PUT (pp - 4) ?w m"
  note min = block_min[OF assms(1)] block_min[OF assms(2)] block_min[OF assms(3)]
  have "GET_SIZE ?m1 (?bp - 4) = GET_SIZE m (?bp - 4)" "GET_SIZE ?m1 (?bp + n - 4) = GET_SIZE m (?bp + n - 4)"
    by (rule GET_SIZE_PUT, use min assms(4) in arith)+
  then have hdr: "GET_SIZE ?m1 (?bp - 4) = n" "GET_SIZE ?m1 (?bp + n - 4) = k"
    using block_reads(1)[OF assms(2)] block_reads(1)[OF assms(3)] by (simp_all add: HDRP_def WSIZE_def)
  have "GET_SIZE (PUT (?bp + n + k - 8) ?w ?m1) (?bp - 8) = GET_SIZE ?m1 (?bp - 8)"
    "GET_SIZE ?m1 (?bp - 8) = GET_SIZE m (?bp - 8)"
    by (rule GET_SIZE_PUT, use min assms(4) in arith)+
  then have read2: "GET_SIZE (PUT (?bp + n + k - 8) ?w ?m1) (?bp - 8) = pn"
    using block_reads(3,4)[OF assms(1)] by simp
  have "PUT (?bp + n + k - 8) ?w ?m1 = set_block pp (pn + n + k) False m"
    by (simp add: set_block_def add.assoc)
  then show ?thesis
    using block_prev[OF assms(1) refl] block_reads[OF assms(1)] block_reads[OF assms(2)]
      block_reads[OF assms(3)] hdr read2
    by (simp add: coalesce_def Let_def PACK_tags NEXT_BLKP_def FTRP_def PREV_BLKP_def HDRP_def DSIZE_def
        WSIZE_def ac_simps)
qed


section \<open>Allocated blocks and their payloads\<close>

text \<open>The allocated blocks of a list laid out from \<open>bp\<close>: address and size of each.\<close>

fun allocs :: "nat \<Rightarrow> block list \<Rightarrow> (nat \<times> nat) list" where
  "allocs bp [] = []"
| "allocs bp ((n, a) # bs) = (if a then [(bp, n)] else []) @ allocs (bp + n) bs"

lemma allocs_append [simp]: "allocs bp (xs @ ys) = allocs bp xs @ allocs (bp + tot xs) ys"
  by (induction xs arbitrary: bp) (auto simp: add.assoc)

lemma allocs_range: "(p, k) \<in> set (allocs bp bs) \<Longrightarrow> bp \<le> p \<and> p + k \<le> bp + tot bs"
  by (induction bp bs rule: allocs.induct) (auto split: if_splits)

lemma allocs_split:
  "(p, k) \<in> set (allocs bp bs) \<Longrightarrow> \<exists>xs ys. bs = xs @ (k, True) # ys \<and> p = bp + tot xs"
proof (induction bp bs rule: allocs.induct)
  case (1 bp)
  then show ?case by simp
next
  case (2 bp n a bs)
  show ?case
  proof (cases "a \<and> p = bp \<and> k = n")
    case True
    then show ?thesis by (intro exI[of _ "[]"] exI[of _ bs]) simp
  next
    case False
    with 2 obtain xs ys where "bs = xs @ (k, True) # ys" "p = bp + n + tot xs"
      by (auto split: if_splits)
    then show ?thesis by (intro exI[of _ "(n, a) # xs"] exI[of _ ys]) simp
  qed
qed

definition same_payload :: "byte_mem \<Rightarrow> byte_mem \<Rightarrow> (nat \<times> nat) set \<Rightarrow> bool" where
  "same_payload m m' A \<longleftrightarrow> (\<forall>p k i. (p, k) \<in> A \<and> i < k - 8 \<longrightarrow> m' (p + i) = m (p + i))"

lemma same_payload_refl [simp]: "same_payload m m A"
  by (simp add: same_payload_def)

lemma same_payload_trans: "same_payload m m' A \<Longrightarrow> same_payload m' m'' A \<Longrightarrow> same_payload m m'' A"
  by (simp add: same_payload_def)

lemma same_payload_mono: "same_payload m m' A \<Longrightarrow> B \<subseteq> A \<Longrightarrow> same_payload m m' B"
  by (auto simp: same_payload_def)

lemma same_payloadD: "same_payload m m' A \<Longrightarrow> (p, k) \<in> A \<Longrightarrow> i < k - 8 \<Longrightarrow> m' (p + i) = m (p + i)"
  by (simp add: same_payload_def)

lemma same_payload_outside:
  assumes "agree_outside (bp + tot xs - 4) (bp + tot xs + t - 4) m m'"
  shows "same_payload m m' (set (allocs bp xs) \<union> set (allocs (bp + tot xs + t) ys))"
proof -
  have "m' (p + i) = m (p + i)"
    if "(p, k) \<in> set (allocs bp xs) \<union> set (allocs (bp + tot xs + t) ys)" "i < k - 8" for p k i
  proof -
    from that(1) have "p + k \<le> bp + tot xs \<or> bp + tot xs + t \<le> p"
      using allocs_range[of p k bp xs] allocs_range[of p k "bp + tot xs + t" ys] by blast
    with that(2) have "p + i < bp + tot xs - 4 \<or> bp + tot xs + t - 4 \<le> p + i" by arith
    with assms show ?thesis unfolding agree_outside_def by blast
  qed
  then show ?thesis unfolding same_payload_def by blast
qed

lemma distinct_allocs: "seg m bp bs \<Longrightarrow> distinct (allocs bp bs)"
proof (induction m bp bs rule: seg.induct)
  case (2 m bp n a bs)
  then have "8 \<le> n" by (simp add: block_def size_ok_def)
  with 2 allocs_range[of bp n "bp + n" bs] show ?case by auto
qed simp

section \<open>Coalescing on the list of blocks\<close>

fun merge_right :: "nat \<Rightarrow> block list \<Rightarrow> nat \<times> block list" where
  "merge_right n ((k, False) # ys) = (n + k, ys)"
| "merge_right n ys = (n, ys)"

definition merge_blocks :: "nat \<Rightarrow> bool \<Rightarrow> nat \<Rightarrow> block list \<Rightarrow> block list" where
  "merge_blocks pn pa n ys =
     (let (n', ys') = merge_right n ys
      in if pa then (pn, True) # (n', False) # ys' else (pn + n', False) # ys')"

lemma merge_right_cases:
  obtains (free) k zs where "ys = (k, False) # zs" "merge_right n ys = (n + k, zs)"
  | (none) "merge_right n ys = (n, ys)" "ys = [] \<or> (\<exists>k zs. ys = (k, True) # zs)"
  by (cases "(n, ys)" rule: merge_right.cases) auto

lemma merge_right_tot: "merge_right n ys = (n', ys') \<Longrightarrow> n' + tot ys' = n + tot ys"
  by (cases "(n, ys)" rule: merge_right.cases) auto

lemma tot_merge [simp]: "tot (merge_blocks pn pa n ys) = pn + n + tot ys"
  using merge_right_tot[of n ys] by (auto simp: merge_blocks_def split: prod.splits)

lemma allocs_merge [simp]:
  "allocs bp (merge_blocks pn pa n ys) = allocs bp ((pn, pa) # (n, False) # ys)"
  by (cases "(n, ys)" rule: merge_right.cases) (auto simp: merge_blocks_def add.assoc)

text \<open>
  \<open>coalesce\<close> on a free block merges it with its free neighbours, writes only inside the
  merged block, and returns its address.
\<close>

lemma coalesce_seg:
  assumes "seg m lp (ws @ (pn, pa) # (n, False) # ys)" and "8 \<le> lp"
    and "tot (ws @ (pn, pa) # (n, False) # ys) < 2 ^ 31"
    and "epilogue m (lp + tot (ws @ (pn, pa) # (n, False) # ys))"
    and q: "q = lp + tot ws + (if pa then pn else 0)"
    and hi: "hi = lp + tot ws + pn + fst (merge_right n ys) - 4"
  shows "\<exists>m'. coalesce (lp + tot ws + pn) m = (m', q) \<and>
           seg m' lp (ws @ merge_blocks pn pa n ys) \<and> agree_outside (q - 4) hi m m'"
proof -
  let ?pp = "lp + tot ws"
  have P: "block m ?pp pn pa" and B: "block m (?pp + pn) n False" and Y: "seg m (?pp + pn + n) ys"
    using assms(1) by auto
  have pp: "8 \<le> ?pp" using assms(2) by simp
  have W: "seg m lp ws" using assms(1) by simp
  have keepW: "seg m' lp ws" if "agree_outside (?pp - 4) h m m'" for m' h
    using seg_outside[OF that, of lp ws] W assms(2) by simp
  show ?thesis
  proof (cases rule: merge_right_cases[of ys n])
    case (free k zs)
    note ys = free(1)
    have K: "block m (?pp + pn + n) k False" and Z: "seg m (?pp + pn + n + k) zs"
      using Y ys by auto
    have nk: "size_ok (n + k)" and pnk: "size_ok (pn + n + k)"
      using P B K assms(3) ys by (auto simp: block_def size_ok_def)
    show ?thesis
    proof (cases pa)
      case True
      let ?m' = "set_block (?pp + pn) (n + k) False m"
      have ao: "agree_outside (?pp + pn - 4) (?pp + pn + (n + k) - 4) m ?m'"
        using set_block_outside[of "?pp + pn" "n + k" m False] pp nk by (simp add: size_ok_def)
      have "seg ?m' lp ((ws @ [(pn, pa)]) @ [(n + k, False)] @ zs)"
        by (rule seg_rewrite[OF _ assms(2), where m = m and mid = "[(n, False), (k, False)]"])
          (use assms(1) ys ao pp nk in \<open>auto simp: add.assoc [symmetric] intro!: set_block_block\<close>)
      then show ?thesis
        using coalesce_next[OF P[simplified True] B K nk pp] ao True q hi free
        by (auto simp: merge_blocks_def add.assoc)
    next
      case False
      let ?m' = "set_block ?pp (pn + n + k) False m"
      have ao: "agree_outside (?pp - 4) (?pp + (pn + n + k) - 4) m ?m'"
        using set_block_outside[of ?pp "pn + n + k" m False] pp pnk by (simp add: size_ok_def)
      have "seg ?m' lp (ws @ [(pn + n + k, False)] @ zs)"
        by (rule seg_rewrite[OF _ assms(2), where m = m and mid = "[(pn, pa), (n, False), (k, False)]"])
          (use assms(1) ys ao pp pnk in \<open>auto simp: add.assoc [symmetric] intro!: set_block_block\<close>)
      then show ?thesis
        using coalesce_both[OF P[simplified False] B K pp] ao False q hi free
        by (auto simp: merge_blocks_def add.assoc)
    qed
  next
    case none
    have nxt: "GET_ALLOC m (HDRP (?pp + pn + n))"
      using none(2)
    proof
      assume "ys = []"
      then show ?thesis using assms(4) epilogue_reads(2) by (simp add: add.assoc)
    next
      assume "\<exists>k zs. ys = (k, True) # zs"
      then show ?thesis using Y block_reads(2) by auto
    qed
    show ?thesis
    proof (cases pa)
      case True
      then show ?thesis
        using coalesce_none[OF P[simplified True] B nxt] none q hi assms(1)
        by (auto simp: merge_blocks_def)
    next
      case False
      let ?m' = "set_block ?pp (pn + n) False m"
      have pnk: "size_ok (pn + n)" using P B assms(3) by (auto simp: block_def size_ok_def)
      have ao: "agree_outside (?pp - 4) (?pp + (pn + n) - 4) m ?m'"
        using set_block_outside[of ?pp "pn + n" m False] pp pnk by (simp add: size_ok_def)
      have "seg ?m' lp (ws @ [(pn + n, False)] @ ys)"
        by (rule seg_rewrite[OF _ assms(2), where m = m and mid = "[(pn, pa), (n, False)]"])
          (use assms(1) ao pp pnk in \<open>auto simp: add.assoc [symmetric] intro!: set_block_block\<close>)
      then show ?thesis
        using coalesce_prev[OF P[simplified False] B nxt pnk pp] ao False q hi none
        by (auto simp: merge_blocks_def add.assoc)
    qed
  qed
qed

end
