(* ===== verification/ImplicitMalloc.thy ===== *)
theory ImplicitMalloc
  imports ImplicitCorrect
begin

text \<open>
  The invariant of the implicit-list heap and the contract of its operations: \<open>heap_inv\<close> ties
  a heap to a list of blocks, and \<open>mm_init\<close>, \<open>mm_malloc\<close>, \<open>mm_free\<close> and \<open>mm_realloc\<close> keep it
  while changing the set of allocated blocks the way an allocator promises.
\<close>

section \<open>Merging a freed block\<close>

definition coalesced :: "block list \<Rightarrow> bool" where
  "coalesced bs \<longleftrightarrow> successively (\<lambda>x y. snd x \<or> snd y) bs"

lemma coalesced_parts:
  assumes "coalesced (xs @ b # ys)" shows "coalesced xs" and "coalesced ys"
  using assms by (cases ys; auto simp: coalesced_def successively_append_iff)+

definition join_free :: "block list \<Rightarrow> nat \<Rightarrow> block list \<Rightarrow> block list \<times> nat \<times> block list" where
  "join_free xs n ys =
     (let (n', ys') = merge_right n ys
      in if xs \<noteq> [] \<and> \<not> snd (last xs) then (butlast xs, fst (last xs) + n', ys') else (xs, n', ys'))"

lemma join_free_cases:
  assumes "join_free xs n ys = (xs', n', ys')"
  obtains (left) pn k where "xs = xs' @ [(pn, False)]" "n' = pn + k" "merge_right n ys = (k, ys')"
  | (stay) "xs' = xs" "xs = [] \<or> (\<exists>zs pn. xs = zs @ [(pn, True)])" "merge_right n ys = (n', ys')"
  using assms by (cases xs rule: rev_cases) (auto simp: join_free_def split: prod.splits if_splits)

lemma merge_right_facts:
  assumes "merge_right n ys = (k, ys')"
  shows "k + tot ys' = n + tot ys" and "n \<le> k" and "allocs (bp + k) ys' = allocs (bp + n) ys"
    and "list_all P ys \<Longrightarrow> list_all P ys'" and "coalesced ys \<Longrightarrow> coalesced ((k, False) # ys')"
  using assms by (cases rule: merge_right_cases[of ys n]; auto simp: coalesced_def successively_Cons add.assoc)+

lemma join_free_facts:
  assumes "join_free xs n ys = (xs', n', ys')"
  shows "tot xs' + n' + tot ys' = tot xs + n + tot ys" and "n \<le> n'"
    and "allocs bp (xs' @ (n', False) # ys') = allocs bp (xs @ (n, False) # ys)"
    and "list_all (\<lambda>b. 16 \<le> fst b) (xs @ (n, False) # ys) \<Longrightarrow> list_all (\<lambda>b. 16 \<le> fst b) (xs' @ (n', False) # ys')"
proof -
  show "tot xs' + n' + tot ys' = tot xs + n + tot ys" and "n \<le> n'"
    using assms by (cases rule: join_free_cases; force dest: merge_right_facts)+
  show "allocs bp (xs' @ (n', False) # ys') = allocs bp (xs @ (n, False) # ys)"
    using assms
    by (cases rule: join_free_cases) (simp_all add: merge_right_facts(3) add.assoc [symmetric])
  show "list_all (\<lambda>b. 16 \<le> fst b) (xs' @ (n', False) # ys')"
    if "list_all (\<lambda>b. 16 \<le> fst b) (xs @ (n, False) # ys)"
    using assms that
    by (cases rule: join_free_cases) (auto dest: merge_right_facts(2,4))
qed

lemma join_free_coalesced:
  assumes "join_free xs n ys = (xs', n', ys')" and "coalesced xs" and "coalesced ys"
  shows "coalesced (xs' @ (n', False) # ys')"
  using assms(1)
proof (cases rule: join_free_cases)
  case (left pn k)
  then have "coalesced ((k, False) # ys')" using merge_right_facts(5) assms(3) by blast
  then show ?thesis using assms(2) left
    by (auto simp: coalesced_def successively_append_iff successively_Cons)
next
  case stay
  then have "coalesced ((n', False) # ys')" using merge_right_facts(5) assms(3) by blast
  then show ?thesis using assms(2) stay
    by (auto simp: coalesced_def successively_append_iff successively_Cons)
qed

lemma coalesce_join:
  assumes "seg m lp ((8, True) # xs @ (n, False) # ys)" and "8 \<le> lp" and "8 + tot xs + n + tot ys < 2 ^ 31"
    and "epilogue m (lp + 8 + tot xs + n + tot ys)" and "join_free xs n ys = (xs', n', ys')"
  shows "\<exists>m'. coalesce (lp + 8 + tot xs) m = (m', lp + 8 + tot xs') \<and>
           seg m' lp ((8, True) # xs' @ (n', False) # ys') \<and>
           agree_outside (lp + 8 + tot xs' - 4) (lp + 8 + tot xs' + n' - 4) m m'"
  using assms(5)
proof (cases rule: join_free_cases)
  case (left pn k)
  have "\<exists>m'. coalesce (lp + tot ((8, True) # xs') + pn) m = (m', lp + 8 + tot xs') \<and>
          seg m' lp (((8, True) # xs') @ merge_blocks pn False n ys) \<and>
          agree_outside (lp + 8 + tot xs' - 4) (lp + 8 + tot xs' + n' - 4) m m'"
    by (rule coalesce_seg) (use assms(1-4) left in \<open>simp_all add: ac_simps\<close>)
  then show ?thesis using left by (simp add: merge_blocks_def ac_simps)
next
  case stay
  have first: "fst (merge_right n ys) = n'" using stay by simp
  have "snd (last ((8, True) # xs))" using stay(2) by auto
  then obtain ws pn where ws: "(8, True) # xs = ws @ [(pn, True)]"
    by (metis append_butlast_last_id list.distinct(1) prod.collapse)
  from arg_cong[OF this, of tot] have tot: "tot ws + pn = 8 + tot xs" by simp
  have "\<exists>m'. coalesce (lp + tot ws + pn) m = (m', lp + 8 + tot xs') \<and>
          seg m' lp (ws @ merge_blocks pn True n ys) \<and>
          agree_outside (lp + 8 + tot xs' - 4) (lp + 8 + tot xs' + n' - 4) m m'"
  proof (rule coalesce_seg)
    have "seg m lp (((8, True) # xs) @ (n, False) # ys)" using assms(1) by simp
    then show "seg m lp (ws @ (pn, True) # (n, False) # ys)" by (simp only: ws append.assoc append.simps)
    show "tot (ws @ (pn, True) # (n, False) # ys) < 2 ^ 31" using assms(3) tot by simp
    have len: "lp + tot (ws @ (pn, True) # (n, False) # ys) = lp + 8 + tot xs + n + tot ys" using tot by simp
    show "epilogue m (lp + tot (ws @ (pn, True) # (n, False) # ys))" unfolding len by (rule assms(4))
    show "lp + 8 + tot xs' = lp + tot ws + (if True then pn else 0)" using tot stay(1) by simp
    show "lp + 8 + tot xs' + n' - 4 = lp + tot ws + pn + fst (merge_right n ys) - 4"
      using tot stay(1) first by simp
  qed (rule assms(2))
  moreover have "ws @ merge_blocks pn True n ys = (ws @ [(pn, True)]) @ (n', False) # ys'"
    by (simp add: merge_blocks_def stay(3))
  ultimately show ?thesis using stay(1) tot by (simp add: ws [symmetric] add.assoc)
qed

section \<open>The invariant\<close>

definition heap_inv :: "heap \<Rightarrow> block list \<Rightarrow> bool" where
  "heap_inv h bs \<longleftrightarrow> mem_ok h \<and> 8 dvd mem_heap h \<and> heap_listp h = mem_heap h + 8 \<and>
     mem_brk h = heap_listp h + 8 + tot bs \<and> seg (mem h) (heap_listp h) ((8, True) # bs) \<and>
     epilogue (mem h) (mem_brk h) \<and> list_all (\<lambda>b. 16 \<le> fst b) bs \<and> coalesced bs"

text \<open>The blocks handed out to the client.\<close>

definition live :: "heap \<Rightarrow> block list \<Rightarrow> (nat \<times> nat) set" where
  "live h bs = set (allocs (heap_listp h + 8) bs)"

lemma heap_invD:
  assumes "heap_inv h bs"
  shows "mem_ok h" and "mem_brk h = heap_listp h + 8 + tot bs"
    and "seg (mem h) (heap_listp h) ((8, True) # bs)" and "epilogue (mem h) (mem_brk h)"
    and "list_all (\<lambda>b. 16 \<le> fst b) bs" and "coalesced bs"
    and "8 \<le> heap_listp h" and "8 + tot bs < 2 ^ 31" and "heap_listp h \<noteq> 0" and "8 dvd heap_listp h"
  using assms by (auto simp: heap_inv_def mem_ok_def MAX_HEAP_def)

lemma heap_inv_block:
  assumes "heap_inv h (xs @ (n, a) # ys)"
  shows "block (mem h) (heap_listp h + 8 + tot xs) n a"
  using heap_invD(3)[OF assms] by (simp add: add.assoc)

lemma heap_inv_mem:
  assumes "heap_inv h bs" and "tot bs' = tot bs" and "seg m' (heap_listp h) ((8, True) # bs')"
    and "agree_outside lo hi (mem h) m'" "hi + 4 \<le> mem_brk h"
    and "list_all (\<lambda>b. 16 \<le> fst b) bs'" "coalesced bs'"
  shows "heap_inv (h\<lparr>mem := m'\<rparr>) bs'"
proof -
  have "epilogue m' (mem_brk h)"
    using epilogue_outside[OF assms(4), of "mem_brk h"] heap_invD[OF assms(1)] assms(5) by simp
  with assms show ?thesis by (simp add: heap_inv_def mem_ok_def)
qed

section \<open>Freeing\<close>

lemma join_free_span:
  assumes "join_free xs n ys = (xs', n', ys')"
  shows "tot xs' \<le> tot xs" and "tot xs + n \<le> tot xs' + n'"
  using assms by (cases rule: join_free_cases; force dest: merge_right_facts)+

lemma mm_free_blocks:
  assumes inv: "heap_inv h (xs @ (n, True) # ys)" and j: "join_free xs n ys = (xs', n', ys')"
    and p: "p = heap_listp h + 8 + tot xs"
  shows "\<exists>m'. mm_free p h = h\<lparr>mem := m'\<rparr> \<and> heap_inv (h\<lparr>mem := m'\<rparr>) (xs' @ (n', False) # ys') \<and>
           same_payload (mem h) m' (live h (xs @ (n, False) # ys))"
proof -
  let ?lp = "heap_listp h" and ?m1 = "set_block p n False (mem h)"
  note I = heap_invD[OF inv]
  have B: "block (mem h) p n True" using heap_inv_block[OF inv] p by simp
  then have n: "size_ok n" by (simp add: block_def)
  have ao1: "agree_outside (p - 4) (p + n - 4) (mem h) ?m1"
    using n p by (intro set_block_outside) (simp_all add: size_ok_def)
  have "seg ?m1 ?lp (((8, True) # xs) @ [(n, False)] @ ys)"
  proof (rule seg_rewrite)
    show "seg (mem h) ?lp (((8, True) # xs) @ [(n, True)] @ ys)" using I(3) by simp
    show "agree_outside (?lp + tot ((8, True) # xs) - 4) (?lp + tot ((8, True) # xs) + tot [(n, True)] - 4) (mem h) ?m1"
      using ao1 p by (simp add: add.assoc)
    show "seg ?m1 (?lp + tot ((8, True) # xs)) [(n, False)]"
      using set_block_block[of p n False "mem h"] n p by (simp add: add.assoc)
  qed (use I(7) in simp_all)
  moreover have "epilogue ?m1 (?lp + 8 + tot xs + n + tot ys)"
    using epilogue_outside[OF ao1, of "mem_brk h"] I(2,4) p n by (simp add: size_ok_def add.assoc)
  moreover have "8 + tot xs + n + tot ys < 2 ^ 31" using I(8) by simp
  ultimately obtain m' where m': "coalesce p ?m1 = (m', ?lp + 8 + tot xs')"
    "seg m' ?lp ((8, True) # xs' @ (n', False) # ys')"
    and ao2: "agree_outside (?lp + 8 + tot xs' - 4) (?lp + 8 + tot xs' + n' - 4) ?m1 m'"
    using coalesce_join[of ?m1 ?lp xs n ys xs' n' ys'] I(7) j p by auto
  have ao: "agree_outside (?lp + 8 + tot xs' - 4) (?lp + 8 + tot xs' + n' - 4) (mem h) m'"
    by (rule agree_outside_trans[OF agree_outside_mono[OF ao1] ao2])
      (use join_free_span[OF j] p in arith)+
  have "mm_free p h = h\<lparr>mem := m'\<rparr>"
    using block_reads(1)[OF B] header_then_footer[OF n, of p False "mem h"] m'(1) I(9) p
    by (simp add: mm_free_def Let_def PACK_tags)
  moreover have "heap_inv (h\<lparr>mem := m'\<rparr>) (xs' @ (n', False) # ys')"
  proof (rule heap_inv_mem[OF inv _ m'(2) ao])
    show "list_all (\<lambda>b. 16 \<le> fst b) (xs' @ (n', False) # ys')"
      using join_free_facts(4)[OF j] I(5) by simp
    show "coalesced (xs' @ (n', False) # ys')"
      using join_free_coalesced[OF j coalesced_parts] I(6) by blast
  qed (use join_free_facts(1)[OF j] I(2) n in \<open>simp_all add: size_ok_def\<close>)
  moreover have "same_payload (mem h) m' (live h (xs @ (n, False) # ys))"
    using same_payload_outside[of "?lp + 8" xs' n' "mem h" m' ys'] ao
    by (simp add: live_def join_free_facts(3)[OF j, symmetric] del: allocs_append) simp
  ultimately show ?thesis by blast
qed

section \<open>Finding and taking a block\<close>

fun first_fit :: "nat \<Rightarrow> nat \<Rightarrow> block list \<Rightarrow> nat" where
  "first_fit asize bp [] = 0"
| "first_fit asize bp ((n, a) # bs) = (if \<not> a \<and> asize \<le> n then bp else first_fit asize (bp + n) bs)"

lemma find_fit_from_seg:
  "seg m bp bs \<Longrightarrow> epilogue m (bp + tot bs) \<Longrightarrow> find_fit_from asize m bp = Some (first_fit asize bp bs)"
proof (induction m bp bs rule: seg.induct)
  case (1 m bp)
  then show ?case by (simp add: find_fit_from.simps epilogue_reads)
next
  case (2 m bp n a bs)
  then show ?case
    using block_reads[of m bp n a] block_min[of m bp n a]
    by (simp add: find_fit_from.simps[of asize m bp] add.assoc)
qed

lemma find_fit_blocks:
  assumes "heap_inv h bs"
  shows "find_fit asize h = Some (first_fit asize (heap_listp h + 8) bs)"
  using find_fit_from_seg[of "mem h" "heap_listp h" "(8, True) # bs"] heap_invD[OF assms]
  by (simp add: find_fit_def add.assoc)

lemma first_fit_split:
  assumes "0 < bp"
  obtains (none) "first_fit asize bp bs = 0" "\<forall>(n, a)\<in>set bs. a \<or> n < asize"
  | (found) xs c ys where "bs = xs @ (c, False) # ys" "first_fit asize bp bs = bp + tot xs" "asize \<le> c"
      "\<forall>(n, a)\<in>set xs. a \<or> n < asize"
proof -
  have "(first_fit asize bp bs = 0 \<and> (\<forall>(n, a)\<in>set bs. a \<or> n < asize)) \<or>
    (\<exists>xs c ys. bs = xs @ (c, False) # ys \<and> first_fit asize bp bs = bp + tot xs \<and> asize \<le> c \<and>
      (\<forall>(n, a)\<in>set xs. a \<or> n < asize))"
    using assms
  proof (induction asize bp bs rule: first_fit.induct)
    case (1 asize bp)
    then show ?case by simp
  next
    case (2 asize bp n a bs)
    show ?case
    proof (cases "\<not> a \<and> asize \<le> n")
      case True
      then show ?thesis by (intro disjI2 exI[of _ "[]"] exI[of _ n] exI[of _ bs]) simp
    next
      case False
      with 2 consider "first_fit asize (bp + n) bs = 0 \<and> (\<forall>(n, a)\<in>set bs. a \<or> n < asize)"
        | xs c ys where "bs = xs @ (c, False) # ys" "first_fit asize (bp + n) bs = bp + n + tot xs" "asize \<le> c"
          "\<forall>(n, a)\<in>set xs. a \<or> n < asize"
        by auto
      then show ?thesis
      proof cases
        case 1
        with False show ?thesis by auto
      next
        case (2 xs c ys)
        with False show ?thesis
          by (intro disjI2 exI[of _ "(n, a) # xs"] exI[of _ c] exI[of _ ys]) auto
      qed
    qed
  qed
  then show ?thesis using none found by blast
qed

lemma size_sub_small:
  assumes "b \<le> a" and "a < 2 ^ 64"
  shows "size_sub a b = a - b"
proof -
  have "a + 2 ^ 64 - b = (a - b) + 2 ^ 64" using assms(1) by simp
  then have "(a + 2 ^ 64 - b) mod 2 ^ 64 = (a - b) mod 2 ^ 64" by (metis mod_add_self2)
  with assms(2) show ?thesis by (simp add: size_sub_def size_wrap_def)
qed

lemma size_ok_diff:
  assumes "size_ok c" and "8 dvd a" and "16 \<le> c - a"
  shows "size_ok (c - a)"
proof -
  have "8 dvd c - a" using assms by (intro dvd_diff_nat) (simp_all add: size_ok_def)
  moreover have "c - a < 2 ^ 31" using assms(1) less_imp_diff_less unfolding size_ok_def by blast
  ultimately show ?thesis using assms(3) by (simp add: size_ok_def)
qed

definition place_blocks :: "nat \<Rightarrow> nat \<Rightarrow> block list" where
  "place_blocks c asize = (if 16 \<le> c - asize then [(asize, True), (c - asize, False)] else [(c, True)])"

lemma place_block:
  assumes B: "block m bp c False" and asize: "8 dvd asize" "16 \<le> asize" "asize \<le> c" and bp: "4 \<le> bp"
  shows "seg (place bp asize m) bp (place_blocks c asize)" (is ?S)
    and "agree_outside (bp - 4) (bp + c - 4) m (place bp asize m)" (is ?A)
proof -
  have c: "size_ok c" using B by (simp add: block_def)
  have a: "size_ok asize" using c asize by (simp add: size_ok_def)
  have sub: "size_sub c asize = c - asize"
    using c asize by (intro size_sub_small) (simp_all add: size_ok_def)
  have place: "place bp asize m = (if 16 \<le> c - asize
      then set_block (bp + asize) (c - asize) False (set_block bp asize True m) else set_block bp c True m)"
  proof (cases "16 \<le> c - asize")
    case True
    have r: "size_ok (c - asize)" by (rule size_ok_diff[OF c asize(1) True])
    let ?m2 = "set_block bp asize True m"
    have "NEXT_BLKP ?m2 bp = bp + asize" using block_reads(6)[OF set_block_block[OF bp a]] .
    with True sub show ?thesis
      using header_then_footer[OF a bp, of True m] header_then_footer[OF r, of "bp + asize" False ?m2] bp
        block_reads(1)[OF B]
      by (simp add: place_def Let_def PACK_tags DSIZE_def)
  next
    case False
    with sub show ?thesis
      using header_then_footer[OF c bp, of True m] block_reads(1)[OF B]
      by (simp add: place_def Let_def PACK_tags DSIZE_def)
  qed
  have "?S \<and> ?A"
  proof (cases "16 \<le> c - asize")
    case True
    let ?m2 = "set_block bp asize True m" and ?m4 = "place bp asize m"
    have r: "size_ok (c - asize)" by (rule size_ok_diff[OF c asize(1) True])
    have m4: "?m4 = set_block (bp + asize) (c - asize) False ?m2" using place True by simp
    have ao2: "agree_outside (bp - 4) (bp + asize - 4) m ?m2"
      by (rule set_block_outside[OF bp]) (use asize in simp)
    have ao4: "agree_outside (bp + asize - 4) (bp + c - 4) ?m2 ?m4"
      using set_block_outside[of "bp + asize" "c - asize" ?m2 False] bp True asize unfolding m4 by simp
    have "seg ?m4 bp [(asize, True)]"
      using seg_outside[OF ao4, of bp "[(asize, True)]"] set_block_block[OF bp a, of True m] bp asize by simp
    moreover have "block ?m4 (bp + asize) (c - asize) False"
      unfolding m4 by (rule set_block_block[OF _ r]) (use bp in simp)
    ultimately have ?S using True by (simp add: place_blocks_def)
    moreover have ?A
      by (rule agree_outside_trans[OF agree_outside_mono[OF ao2] agree_outside_mono[OF ao4]]) (use asize in arith)+
    ultimately show ?thesis ..
  next
    case False
    then have m2: "place bp asize m = set_block bp c True m" using place by simp
    have ?S using set_block_block[OF bp c, of True m] False by (simp add: place_blocks_def m2)
    moreover have ?A using set_block_outside[OF bp, of c m True] c by (simp add: m2 size_ok_def)
    ultimately show ?thesis ..
  qed
  then show ?S and ?A by blast+
qed

end
