(* ===== verification/ImplicitContract.thy ===== *)
theory ImplicitContract
  imports ImplicitMalloc
begin

text \<open>
  The contract of the implicit-list allocator, from the lemmas of \<open>ImplicitMalloc\<close>: what
  \<open>mm_init\<close>, \<open>mm_malloc\<close>, \<open>mm_free\<close> and \<open>mm_realloc\<close> do to the set of allocated blocks, that the
  search terminates, and that the heap checker accepts every reachable heap.
\<close>

section \<open>Placing and extending keep the invariant\<close>

lemma coalesced_middle:
  assumes "coalesced (xs @ (c, False) # ys)" and "coalesced zs" "zs \<noteq> []" "snd (hd zs)"
  shows "coalesced (xs @ zs @ ys)"
  using assms by (cases ys) (auto simp: coalesced_def successively_append_iff)

lemma place_inv:
  assumes inv: "heap_inv h (xs @ (c, False) # ys)" and p: "p = heap_listp h + 8 + tot xs"
    and asize: "8 dvd asize" "16 \<le> asize" "asize \<le> c"
  shows "heap_inv (h\<lparr>mem := place p asize (mem h)\<rparr>) (xs @ place_blocks c asize @ ys)"
    and "same_payload (mem h) (place p asize (mem h)) (live h (xs @ (c, False) # ys))"
    and "\<exists>n\<ge>asize. live h (xs @ place_blocks c asize @ ys) = insert (p, n) (live h (xs @ (c, False) # ys))"
proof -
  let ?lp = "heap_listp h" and ?m' = "place p asize (mem h)"
  note I = heap_invD[OF inv]
  have B: "block (mem h) p c False" using heap_inv_block[OF inv] p by simp
  have p4: "4 \<le> p" using p I(7) by simp
  note pl = place_block[OF B asize p4]
  have tot: "tot (place_blocks c asize) = c" using asize(3) by (simp add: place_blocks_def)
  have "seg ?m' ?lp (((8, True) # xs) @ place_blocks c asize @ ys)"
  proof (rule seg_rewrite)
    show "seg (mem h) ?lp (((8, True) # xs) @ [(c, False)] @ ys)" using I(3) by simp
    show "agree_outside (?lp + tot ((8, True) # xs) - 4) (?lp + tot ((8, True) # xs) + tot [(c, False)] - 4) (mem h) ?m'"
      using pl(2) p by (simp add: add.assoc)
    show "seg ?m' (?lp + tot ((8, True) # xs)) (place_blocks c asize)" using pl(1) p by (simp add: add.assoc)
  qed (use I(7) tot in simp_all)
  moreover have "coalesced (xs @ place_blocks c asize @ ys)"
  proof (cases "16 \<le> c - asize")
    case True
    have "coalesced ((xs @ [(asize, True)]) @ [(c - asize, False)] @ ys)"
      using I(6) by (cases ys) (auto simp: coalesced_def successively_append_iff successively_Cons)
    with True show ?thesis by (simp add: place_blocks_def)
  next
    case False
    then show ?thesis using coalesced_middle[OF I(6), of "[(c, True)]"]
      by (simp add: place_blocks_def coalesced_def)
  qed
  ultimately show "heap_inv (h\<lparr>mem := ?m'\<rparr>) (xs @ place_blocks c asize @ ys)"
    using heap_inv_mem[OF inv _ _ pl(2)] I(2,5) p tot asize by (auto simp: place_blocks_def)
  show "same_payload (mem h) ?m' (live h (xs @ (c, False) # ys))"
    using same_payload_outside[of "?lp + 8" xs c "mem h" ?m' ys] pl(2) p by (simp add: live_def)
  show "\<exists>n\<ge>asize. live h (xs @ place_blocks c asize @ ys) = insert (p, n) (live h (xs @ (c, False) # ys))"
    using asize p by (intro exI[of _ "if 16 \<le> c - asize then asize else c"])
      (auto simp: place_blocks_def live_def)
qed

lemma extend_heap_full:
  assumes "mem_max_addr h < mem_brk h + n" and "8 dvd n" and "n < 2 ^ 31"
  shows "extend_heap (n div 4) h = (h, 0)"
proof -
  from assms(2) obtain k where k: "n = 8 * k" by blast
  then show ?thesis
    using assms mem_sbrk_fails[OF assms(1)]
    by (simp add: extend_heap_def size_wrap_def WSIZE_def int_of_size_small)
qed

lemma extend_heap_fits:
  assumes inv: "heap_inv h bs" and fits: "mem_brk h + n \<le> mem_max_addr h" and n: "8 dvd n" "16 \<le> n"
    and j: "join_free bs n [] = (xs', n', [])"
  shows "\<exists>m'. extend_heap (n div 4) h = (h\<lparr>mem_brk := mem_brk h + n, mem := m'\<rparr>, heap_listp h + 8 + tot xs') \<and>
     heap_inv (h\<lparr>mem_brk := mem_brk h + n, mem := m'\<rparr>) (xs' @ [(n', False)]) \<and> same_payload (mem h) m' (live h bs)"
proof -
  let ?lp = "heap_listp h" and ?bp = "mem_brk h"
  let ?m2 = "set_block ?bp n False (mem h)"
  let ?m3 = "PUT (?bp + n - 4) (PACK 0 1) ?m2"
  note I = heap_invD[OF inv]
  have bp: "16 \<le> ?bp" using I(2,7) by simp
  have n31: "n < 2 ^ 31" and sz: "8 + tot bs + n < 2 ^ 31"
    using fits I(1,2) inv by (auto simp: mem_ok_def MAX_HEAP_def heap_inv_def)
  have ok: "size_ok n" using n n31 by (simp add: size_ok_def)
  from n(1) obtain k where k: "n = 8 * k" by blast
  have ao2: "agree_outside (?bp - 4) (?bp + n - 4) (mem h) ?m2"
    using bp n by (intro set_block_outside) simp_all
  have ao23: "agree_outside (?bp + n - 4) (?bp + n) ?m2 ?m3"
    by (rule agree_outside_PUT) (use bp in simp_all)
  have ao3: "agree_outside (?bp - 4) (?bp + n) (mem h) ?m3"
    by (rule agree_outside_trans[OF agree_outside_mono[OF ao2] agree_outside_mono[OF ao23]]) (use n in arith)+
  have B2: "block ?m2 ?bp n False" using bp by (intro set_block_block[OF _ ok]) simp
  have B3: "block ?m3 ?bp n False"
    using seg_outside[OF ao23, of ?bp "[(n, False)]"] B2 bp by simp
  have "seg ?m3 ?lp ((8, True) # bs)"
    using seg_outside[OF ao3, of ?lp "(8, True) # bs"] I(2,3,7) bp by simp
  then have S3: "seg ?m3 ?lp ((8, True) # bs @ [(n, False)])" using B3 I(2) by (simp add: add.assoc)
  have E3: "epilogue ?m3 (?lp + 8 + tot bs + n + tot [])"
    using I(2) by (simp add: epilogue_def bytes.get_put_same)
  obtain m' where m': "coalesce ?bp ?m3 = (m', ?lp + 8 + tot xs')"
      "seg m' ?lp ((8, True) # xs' @ [(n', False)])"
    and ao': "agree_outside (?lp + 8 + tot xs' - 4) (?lp + 8 + tot xs' + n' - 4) ?m3 m'"
    using coalesce_join[OF S3 I(7) _ E3 j] sz I(2) by auto
  have tot: "tot xs' + n' = tot bs + n" using join_free_facts(1)[OF j] by simp
  have "extend_heap (n div 4) h =
      (h\<lparr>mem_brk := ?bp + n, mem := m'\<rparr>, ?lp + 8 + tot xs')"
    using header_then_footer[OF ok, of ?bp False "mem h"] bp mem_sbrk_fits[OF fits] mem_sbrk_not_err[OF I(1)]
      block_reads(6)[OF B2] m'(1) k n31
    by (simp add: extend_heap_def size_wrap_def WSIZE_def int_of_size_small Let_def PACK_tags HDRP_def)
  moreover have "epilogue m' (?bp + n)"
    using epilogue_outside[OF ao', of "?bp + n"] E3 tot I(2) by simp
  moreover have "coalesced (xs' @ [(n', False)])"
    using join_free_coalesced[OF j I(6)] by (simp add: coalesced_def)
  moreover have "list_all (\<lambda>b. 16 \<le> fst b) (xs' @ [(n', False)])"
    using join_free_facts(4)[OF j] I(5) n by simp
  moreover have "same_payload (mem h) m' (live h bs)"
  proof -
    have "same_payload (mem h) ?m3 (live h bs)"
      using same_payload_outside[of "?lp + 8" bs "n + 4" "mem h" ?m3 "[]"] ao3 I(2) by (simp add: live_def ac_simps)
    moreover have "same_payload ?m3 m' (live h bs)"
      using same_payload_outside[of "?lp + 8" xs' n' ?m3 m' "[]"] ao' join_free_facts(3)[OF j, of "?lp + 8"]
      by (simp add: live_def)
    ultimately show ?thesis by (rule same_payload_trans)
  qed
  ultimately show ?thesis
    using inv m'(2) fits tot by (intro exI[of _ m']) (simp add: heap_inv_def mem_ok_def)
qed

section \<open>The set of allocated blocks\<close>

lemma allocs_min: "list_all (\<lambda>b. 16 \<le> fst b) bs \<Longrightarrow> (p, k) \<in> set (allocs bp bs) \<Longrightarrow> 16 \<le> k"
  by (induction bp bs rule: allocs.induct) (auto split: if_splits)

lemma allocs_disjoint:
  "(p, k) \<in> set (allocs bp bs) \<Longrightarrow> (q, l) \<in> set (allocs bp bs) \<Longrightarrow> (p, k) \<noteq> (q, l) \<Longrightarrow>
   p + k \<le> q \<or> q + l \<le> p"
proof (induction bp bs rule: allocs.induct)
  case (2 bp n a bs)
  then show ?case
    using allocs_range[of p k "bp + n" bs] allocs_range[of q l "bp + n" bs] by (auto split: if_splits)
qed simp

lemma allocs_dvd:
  "8 dvd bp \<Longrightarrow> seg m bp bs \<Longrightarrow> (p, k) \<in> set (allocs bp bs) \<Longrightarrow> 8 dvd p"
proof (induction m bp bs rule: seg.induct)
  case (2 m bp n a bs)
  then have "8 dvd bp + n" by (simp add: block_def size_ok_def)
  with 2 show ?case by (auto split: if_splits)
qed simp

lemma live_split:
  assumes "(p, n) \<in> live h bs"
  obtains xs ys where "bs = xs @ (n, True) # ys" "p = heap_listp h + 8 + tot xs"
  using allocs_split[of p n "heap_listp h + 8" bs] assms unfolding live_def by blast

lemma live_facts:
  assumes "heap_inv h bs" and "(p, k) \<in> live h bs"
  shows "16 \<le> k" and "8 dvd p" and "heap_listp h + 8 \<le> p" and "p + k \<le> mem_brk h"
    and "block (mem h) p k True"
proof -
  note I = heap_invD[OF assms(1)]
  show "16 \<le> k" using allocs_min[OF I(5)] assms(2) by (simp add: live_def)
  show "8 dvd p" using allocs_dvd[of "heap_listp h + 8" "mem h" bs] I(3,10) assms(2) by (simp add: live_def)
  show "heap_listp h + 8 \<le> p" and "p + k \<le> mem_brk h"
    using allocs_range[of p k "heap_listp h + 8" bs] assms(2) I(2) by (simp_all add: live_def)
  obtain xs ys where "bs = xs @ (k, True) # ys" "p = heap_listp h + 8 + tot xs"
    using assms(2) by (rule live_split)
  then show "block (mem h) p k True" using heap_inv_block assms(1) by blast
qed

lemma live_disjoint:
  assumes "(p, k) \<in> live h bs" "(q, l) \<in> live h bs" "(p, k) \<noteq> (q, l)"
  shows "p + k \<le> q \<or> q + l \<le> p"
  using allocs_disjoint assms unfolding live_def by blast

lemma live_same_address:
  assumes "heap_inv h bs" "(p, k) \<in> live h bs" "(p, l) \<in> live h bs"
  shows "k = l"
  using live_disjoint[OF assms(2,3)] live_facts(1)[OF assms(1)] assms(2,3) by fastforce

lemma free_not_live:
  assumes "list_all (\<lambda>b. 16 \<le> fst b) (xs @ (c, a) # ys)"
  shows "(lp + tot xs, k) \<notin> set (allocs lp (xs @ (c, False) # ys))"
proof
  assume "(lp + tot xs, k) \<in> set (allocs lp (xs @ (c, False) # ys))"
  then consider "(lp + tot xs, k) \<in> set (allocs lp xs)" | "(lp + tot xs, k) \<in> set (allocs (lp + tot xs + c) ys)"
    by auto
  then show False
    using allocs_range allocs_min[of xs] assms by cases fastforce+
qed

section \<open>Freeing and client writes\<close>

lemma mm_free_live:
  assumes inv: "heap_inv h bs" and l: "(p, n) \<in> live h bs"
  shows "\<exists>bs'. heap_inv (mm_free p h) bs' \<and> live (mm_free p h) bs' = live h bs - {(p, n)} \<and>
           same_payload (mem h) (mem (mm_free p h)) (live h bs - {(p, n)})"
proof -
  obtain xs ys where bs: "bs = xs @ (n, True) # ys" and p: "p = heap_listp h + 8 + tot xs"
    using l by (rule live_split)
  obtain xs' n' ys' where j: "join_free xs n ys = (xs', n', ys')" by (cases "join_free xs n ys")
  obtain m' where m': "mm_free p h = h\<lparr>mem := m'\<rparr>" "heap_inv (h\<lparr>mem := m'\<rparr>) (xs' @ (n', False) # ys')"
      "same_payload (mem h) m' (live h (xs @ (n, False) # ys))"
    using mm_free_blocks[OF inv[unfolded bs] j p] by blast
  have "(p, n) \<notin> live h (xs @ (n, False) # ys)"
    using free_not_live[of xs n True ys "heap_listp h + 8" n] heap_invD(5)[OF inv] bs p by (simp add: live_def)
  then have rest: "live h (xs @ (n, False) # ys) = live h bs - {(p, n)}"
    using bs p by (auto simp: live_def)
  moreover have "live (mm_free p h) (xs' @ (n', False) # ys') = live h (xs @ (n, False) # ys)"
    unfolding live_def m'(1) using join_free_facts(3)[OF j, of "heap_listp h + 8"] by (simp del: allocs_append)
  ultimately show ?thesis using m' by (intro exI[of _ "xs' @ (n', False) # ys'"]) simp
qed

lemma payload_write:
  assumes inv: "heap_inv h bs" and l: "(p, n) \<in> live h bs" and w: "agree_outside p (p + n - 8) (mem h) m'"
  shows "heap_inv (h\<lparr>mem := m'\<rparr>) bs" and "same_payload (mem h) m' (live h bs - {(p, n)})"
proof -
  let ?lp = "heap_listp h"
  obtain xs ys where bs: "bs = xs @ (n, True) # ys" and p: "p = ?lp + 8 + tot xs"
    using l by (rule live_split)
  note I = heap_invD[OF inv] and L = live_facts[OF inv l]
  have "GET m' (p - 4) = GET (mem h) (p - 4)" "GET m' (p + n - 8) = GET (mem h) (p + n - 8)"
    by (rule agree_outside_GET[OF w], use L(1,3) I(7) in arith)+
  then have B: "block m' p n True" using L(5) by (simp add: block_def)
  have ao: "agree_outside (?lp + tot ((8, True) # xs) - 4) (?lp + tot ((8, True) # xs) + tot [(n, True)] - 4) (mem h) m'"
    by (rule agree_outside_mono[OF w]) (use p L(1) in simp_all)
  have "seg m' ?lp (((8, True) # xs) @ [(n, True)] @ ys)"
    by (rule seg_rewrite[OF _ I(7) ao]) (use I(3) bs B p in \<open>simp_all add: add.assoc\<close>)
  then show "heap_inv (h\<lparr>mem := m'\<rparr>) bs"
    using heap_inv_mem[OF inv _ _ w] I(2,5,6) bs p by simp
  have "m' (q + i) = mem h (q + i)" if "(q, k) \<in> live h bs - {(p, n)}" "i < k - 8" for q k i
  proof -
    have "q + k \<le> p \<or> p + n \<le> q" using live_disjoint[of q k h bs p n] that l by blast
    then have "q + i < p \<or> p + n - 8 \<le> q + i" using that(2) by arith
    then show ?thesis using w unfolding agree_outside_def by blast
  qed
  then show "same_payload (mem h) m' (live h bs - {(p, n)})" unfolding same_payload_def by blast
qed

end
