(* ===== verification/AllocSpec.thy ===== *)
theory AllocSpec
  imports ImplicitCorrect
begin

text \<open>
  What an allocator promises, whichever of the two of the repository it is, and what a client
  gets from it: \<open>allocator\<close> is the interface, \<open>client_step\<close> a client that requests, releases
  and writes blocks while recording the bytes it believes each block to hold. Inside the
  interface the record is shown to be right after every step of every client.
\<close>

section \<open>The interface\<close>

text \<open>
  \<open>fine s b\<close> is the allocator's invariant with its layout \<open>b\<close>, \<open>blocks s b\<close> the allocated
  blocks as (address, bytes with tags), \<open>limit\<close> the largest request the promise covers.
\<close>

locale allocator =
  fixes fine :: "'s \<Rightarrow> 'b \<Rightarrow> bool" and blocks :: "'s \<Rightarrow> 'b \<Rightarrow> (nat \<times> nat) set" and memory :: "'s \<Rightarrow> byte_mem"
    and store :: "byte_mem \<Rightarrow> 's \<Rightarrow> 's" and malloc :: "nat \<Rightarrow> 's \<Rightarrow> ('s \<times> nat) option" and release :: "nat \<Rightarrow> 's \<Rightarrow> 's option"
    and limit :: nat
  assumes malloc: "fine s b \<Longrightarrow> 0 < sz \<Longrightarrow> sz \<le> limit \<Longrightarrow>
      \<exists>s' p. malloc sz s = Some (s', p) \<and> (p = 0 \<and> s' = s \<or>
        p \<noteq> 0 \<and> (\<exists>b' n. fine s' b' \<and> sz + 8 \<le> n \<and> blocks s' b' = insert (p, n) (blocks s b) \<and> (\<forall>k. (p, k) \<notin> blocks s b) \<and>
          same_payload (memory s) (memory s') (blocks s b)))"
    and release: "fine s b \<Longrightarrow> (p, n) \<in> blocks s b \<Longrightarrow>
      \<exists>s' b'. release p s = Some s' \<and> fine s' b' \<and> blocks s' b' = blocks s b - {(p, n)} \<and>
        same_payload (memory s) (memory s') (blocks s b - {(p, n)})"
    and store: "fine s b \<Longrightarrow> (p, n) \<in> blocks s b \<Longrightarrow> agree_outside p (p + n - 8) (memory s) m \<Longrightarrow>
      fine (store m s) b \<and> blocks (store m s) b = blocks s b"
    and memory_store: "memory (store m s) = m"
    and disjoint: "fine s b \<Longrightarrow> (p, n) \<in> blocks s b \<Longrightarrow> (q, k) \<in> blocks s b \<Longrightarrow> (p, n) \<noteq> (q, k) \<Longrightarrow> p + n \<le> q \<or> q + k \<le> p"

section \<open>Clients\<close>

datatype client_op = Request nat | Release nat | Store nat nat "8 word"

type_synonym owned = "nat \<Rightarrow> 8 word list option"

text \<open>
  One step of a client of the given operations: a request is recorded with the bytes found
  in the block, operations on what the client does not own are left out.
\<close>

fun client_step :: "('s \<Rightarrow> byte_mem) \<Rightarrow> (byte_mem \<Rightarrow> 's \<Rightarrow> 's) \<Rightarrow> (nat \<Rightarrow> 's \<Rightarrow> ('s \<times> nat) option) \<Rightarrow> (nat \<Rightarrow> 's \<Rightarrow> 's option) \<Rightarrow>
    nat \<Rightarrow> client_op \<Rightarrow> 's \<times> owned \<Rightarrow> ('s \<times> owned) option" where
  "client_step memory store malloc release limit (Request sz) (s, own) =
     (if 0 < sz \<and> sz \<le> limit
      then map_option (\<lambda>(s', p). (s', if p = 0 then own else own(p \<mapsto> map (\<lambda>i. memory s' (p + i)) [0..<sz]))) (malloc sz s)
      else Some (s, own))"
| "client_step memory store malloc release limit (Release p) (s, own) =
     (if own p = None then Some (s, own) else map_option (\<lambda>s'. (s', own(p := None))) (release p s))"
| "client_step memory store malloc release limit (Store p i v) (s, own) =
     (case own p of None \<Rightarrow> Some (s, own)
      | Some xs \<Rightarrow> if i < length xs then Some (store ((memory s)(p + i := v)) s, own(p \<mapsto> xs[i := v])) else Some (s, own))"

fun client_run :: "('s \<Rightarrow> byte_mem) \<Rightarrow> (byte_mem \<Rightarrow> 's \<Rightarrow> 's) \<Rightarrow> (nat \<Rightarrow> 's \<Rightarrow> ('s \<times> nat) option) \<Rightarrow> (nat \<Rightarrow> 's \<Rightarrow> 's option) \<Rightarrow>
    nat \<Rightarrow> client_op list \<Rightarrow> 's \<times> owned \<Rightarrow> ('s \<times> owned) option" where
  "client_run memory store malloc release limit [] c = Some c"
| "client_run memory store malloc release limit (e # es) c =
     Option.bind (client_step memory store malloc release limit e c) (client_run memory store malloc release limit es)"

text \<open>The record of a client agrees with a memory.\<close>

definition holds_in :: "byte_mem \<Rightarrow> owned \<Rightarrow> bool" where
  "holds_in m own \<longleftrightarrow> (\<forall>p xs. own p = Some xs \<longrightarrow> p \<noteq> 0 \<and> xs = map (\<lambda>i. m (p + i)) [0..<length xs])"

text \<open>No two blocks of a client overlap.\<close>

definition owned_apart :: "owned \<Rightarrow> bool" where
  "owned_apart own \<longleftrightarrow>
     (\<forall>p q xs ys. own p = Some xs \<longrightarrow> own q = Some ys \<longrightarrow> p \<noteq> q \<longrightarrow> p + length xs \<le> q \<or> q + length ys \<le> p)"

context allocator begin

abbreviation step_of :: "client_op \<Rightarrow> 's \<times> owned \<Rightarrow> ('s \<times> owned) option" where
  "step_of \<equiv> client_step memory store malloc release limit"

definition client_ok :: "'s \<Rightarrow> 'b \<Rightarrow> owned \<Rightarrow> bool" where
  "client_ok s b own \<longleftrightarrow> fine s b \<and>
     (\<forall>p xs. own p = Some xs \<longrightarrow> p \<noteq> 0 \<and> (\<exists>n. (p, n) \<in> blocks s b \<and> length xs + 8 \<le> n) \<and> (\<forall>i<length xs. xs ! i = memory s (p + i)))"

lemma client_okD:
  assumes "client_ok s b own" "own p = Some xs"
  obtains n where "(p, n) \<in> blocks s b" "length xs + 8 \<le> n" "p \<noteq> 0" "\<forall>i<length xs. xs ! i = memory s (p + i)"
  using assms unfolding client_ok_def by blast

text \<open>The record survives whatever keeps the payloads of the owned blocks.\<close>

lemma client_ok_kept:
  assumes "client_ok s b own" and "fine s' b'" and "A \<subseteq> blocks s' b'" and "same_payload (memory s) (memory s') A"
    and "\<And>p xs n. own' p = Some xs \<Longrightarrow> own p = Some xs \<and> ((p, n) \<in> blocks s b \<longrightarrow> (p, n) \<in> A)"
  shows "client_ok s' b' own'"
  unfolding client_ok_def
proof (intro conjI allI impI)
  fix p xs assume o': "own' p = Some xs"
  then have o: "own p = Some xs" using assms(5) by blast
  obtain n where n: "(p, n) \<in> blocks s b" "length xs + 8 \<le> n" "p \<noteq> 0" "\<forall>i<length xs. xs ! i = memory s (p + i)"
    by (rule client_okD[OF assms(1) o])
  have A: "(p, n) \<in> A" using assms(5)[OF o'] n(1) by blast
  show "p \<noteq> 0" by (rule n(3))
  show "\<exists>n. (p, n) \<in> blocks s' b' \<and> length xs + 8 \<le> n" using A n(2) assms(3) by blast
  fix i assume i: "i < length xs"
  then have "memory s' (p + i) = memory s (p + i)" by (intro same_payloadD[OF assms(4) A]) (use n(2) in simp)
  then show "xs ! i = memory s' (p + i)" using n(4) i by simp
qed (rule assms(2))

lemma client_ok_insert:
  assumes "client_ok s b own" "(p, n) \<in> blocks s b" "p \<noteq> 0" "length xs + 8 \<le> n" "\<And>i. i < length xs \<Longrightarrow> xs ! i = memory s (p + i)"
  shows "client_ok s b (own(p \<mapsto> xs))"
  using assms unfolding client_ok_def by auto

lemma same_address: "fine s b \<Longrightarrow> (p, n) \<in> blocks s b \<Longrightarrow> (p, k) \<in> blocks s b \<Longrightarrow> 0 < n \<Longrightarrow> 0 < k \<Longrightarrow> n = k"
  using disjoint[of s b p n p k] by auto

lemma client_step_ok:
  assumes ok: "client_ok s b own"
  shows "\<exists>s' b' own'. step_of e (s, own) = Some (s', own') \<and> client_ok s' b' own'"
proof (cases e)
  case (Request sz)
  have f: "fine s b" using ok by (simp add: client_ok_def)
  show ?thesis
  proof (cases "0 < sz \<and> sz \<le> limit")
    case True
    then consider (null) "malloc sz s = Some (s, 0)"
      | (new) s' p b' n where "malloc sz s = Some (s', p)" "p \<noteq> 0" "fine s' b'" "sz + 8 \<le> n" "blocks s' b' = insert (p, n) (blocks s b)"
        "same_payload (memory s) (memory s') (blocks s b)"
      using malloc[OF f, of sz] by blast
    then show ?thesis
    proof cases
      case null
      then show ?thesis using ok True Request by auto
    next
      case new
      have "client_ok s' b' own" by (rule client_ok_kept[OF ok new(3) _ new(6)]) (use new(5) in auto)
      then have "client_ok s' b' (own(p \<mapsto> map (\<lambda>i. memory s' (p + i)) [0..<sz]))"
        by (rule client_ok_insert[where n = n]) (use new in simp_all)
      then show ?thesis using new(1,2) True Request by auto
    qed
  next
    case False
    then show ?thesis using ok Request by auto
  qed
next
  case (Release p)
  show ?thesis
  proof (cases "own p")
    case None
    then show ?thesis using ok Release by auto
  next
    case (Some xs)
    obtain n where n: "(p, n) \<in> blocks s b" "length xs + 8 \<le> n" by (rule client_okD[OF ok Some])
    have f: "fine s b" using ok by (simp add: client_ok_def)
    obtain s' b' where r: "release p s = Some s'" "fine s' b'" "blocks s' b' = blocks s b - {(p, n)}"
        "same_payload (memory s) (memory s') (blocks s b - {(p, n)})"
      using release[OF f n(1)] by blast
    have "client_ok s' b' (own(p := None))"
      by (rule client_ok_kept[OF ok r(2) _ r(4)]) (use r(3) in \<open>auto split: if_splits\<close>)
    then show ?thesis using r(1) Some Release by auto
  qed
next
  case (Store p i v)
  show ?thesis
  proof (cases "\<exists>xs. own p = Some xs \<and> i < length xs")
    case False
    then show ?thesis using ok Store by (auto split: option.splits)
  next
    case True
    then obtain xs where xs: "own p = Some xs" "i < length xs" by blast
    let ?m = "(memory s)(p + i := v)"
    obtain n where n: "(p, n) \<in> blocks s b" "length xs + 8 \<le> n" "p \<noteq> 0" "\<forall>i<length xs. xs ! i = memory s (p + i)"
      by (rule client_okD[OF ok xs(1)])
    have f: "fine s b" using ok by (simp add: client_ok_def)
    have "agree_outside p (p + n - 8) (memory s) ?m" using n(2) xs(2) unfolding agree_outside_def by auto
    from store[OF f n(1) this] have S: "fine (store ?m s) b" "blocks (store ?m s) b = blocks s b" by blast+
    have keep: "same_payload (memory s) (memory (store ?m s)) (blocks s b - {(p, n)})"
      unfolding memory_store same_payload_def
    proof (intro allI impI, elim conjE)
      fix q k j assume q: "(q, k) \<in> blocks s b - {(p, n)}" "j < k - 8"
      then have "p + n \<le> q \<or> q + k \<le> p" using disjoint[OF f n(1), of q k] by auto
      then show "?m (q + j) = memory s (q + j)" using q(2) n(2) xs(2) by auto
    qed
    have "client_ok (store ?m s) b (own(p := None))"
      by (rule client_ok_kept[OF ok S(1) _ keep]) (use S in \<open>auto split: if_splits\<close>)
    then have "client_ok (store ?m s) b ((own(p := None))(p \<mapsto> xs[i := v]))"
      by (rule client_ok_insert[where n = n]) (use n S(2) in \<open>auto simp: memory_store nth_list_update\<close>)
    then show ?thesis using xs Store by auto
  qed
qed

lemma client_run_ok:
  assumes "client_ok s b own"
  shows "\<exists>s' b' own'. client_run memory store malloc release limit es (s, own) = Some (s', own') \<and> client_ok s' b' own'"
  using assms
proof (induction es arbitrary: s b own)
  case (Cons e es)
  then show ?case using client_step_ok[OF Cons.prems, of e] by fastforce
qed auto

text \<open>From a state without owned blocks every client runs to its end, and its record is right.\<close>

lemma client_record:
  assumes "fine s b"
  shows "\<exists>s' own. client_run memory store malloc release limit es (s, \<lambda>_. None) = Some (s', own) \<and>
    holds_in (memory s') own \<and> owned_apart own"
proof -
  have "client_ok s b (\<lambda>_. None)" using assms by (simp add: client_ok_def)
  then obtain s' b' own where r: "client_run memory store malloc release limit es (s, \<lambda>_. None) = Some (s', own)" "client_ok s' b' own"
    using client_run_ok by blast
  have "holds_in (memory s') own"
    unfolding holds_in_def using r(2) by (auto simp: client_ok_def intro: nth_equalityI)
  moreover have "owned_apart own"
    unfolding owned_apart_def
  proof (intro allI impI)
    fix p q xs ys assume o: "own p = Some xs" "own q = Some ys" "p \<noteq> q"
    obtain n where n: "(p, n) \<in> blocks s' b'" "length xs + 8 \<le> n" by (rule client_okD[OF r(2) o(1)])
    obtain k where k: "(q, k) \<in> blocks s' b'" "length ys + 8 \<le> k" by (rule client_okD[OF r(2) o(2)])
    have "fine s' b'" using r(2) by (simp add: client_ok_def)
    from disjoint[OF this n(1) k(1)] show "p + length xs \<le> q \<or> q + length ys \<le> p" using n(2) k(2) o(3) by auto
  qed
  ultimately show ?thesis using r(1) by blast
qed

end

end
