(* ===== verification/ImplicitSpec.thy ===== *)
theory ImplicitSpec
  imports ImplicitContract AllocSpec
begin

text \<open>
  What the implicit-list allocator of \<open>csapp-master/vm/malloc/mm.c\<close> promises its clients:
  initialisation, \<open>mm_malloc\<close>, \<open>mm_free\<close> and \<open>mm_realloc\<close> against the set of allocated
  blocks, the behaviour of the search and of the heap checker, and the request size at
  which the promise breaks.
\<close>

section \<open>Initialisation\<close>

lemma mm_init_blocks:
  assumes "mem_ok h" and "mem_brk h = mem_heap h" and "8 dvd mem_heap h"
  shows "\<exists>h'. mm_init h = (h', 0) \<and> heap_inv h' [(4096, False)] \<and>
    heap_listp h' = mem_heap h + 8 \<and> mem_heap h' = mem_heap h \<and> mem_max_addr h' = mem_max_addr h"
proof -
  let ?p = "mem_heap h"
  let ?m4 = "PUT (?p + 12) (PACK 0 1) (PUT (?p + 8) (PACK 8 1) (PUT (?p + 4) (PACK 8 1) (PUT ?p 0 (mem h))))"
  let ?h2 = "h\<lparr>mem_brk := ?p + 16, mem := ?m4, heap_listp := ?p + 8\<rparr>"
  have fits: "mem_brk h + 16 \<le> mem_max_addr h" and notnull: "0 < ?p" "?p \<noteq> PTR_ERR"
    using assms by (auto simp: mem_ok_def MAX_HEAP_def)
  have "block ?m4 (?p + 8) 8 True" "epilogue ?m4 (?p + 16)"
    by (simp_all add: block_def epilogue_def size_ok_def bytes.get_put_same bytes.get_put_other PACK_tags
        add.commute[of _ "mem_heap h"])
  then have inv: "heap_inv ?h2 []"
    using assms by (simp add: heap_inv_def mem_ok_def coalesced_def MAX_HEAP_def)
  have "\<exists>m'. extend_heap (4096 div 4) ?h2 = (?h2\<lparr>mem_brk := mem_brk ?h2 + 4096, mem := m'\<rparr>, heap_listp ?h2 + 8 + tot []) \<and>
     heap_inv (?h2\<lparr>mem_brk := mem_brk ?h2 + 4096, mem := m'\<rparr>) ([] @ [(4096, False)]) \<and> same_payload (mem ?h2) m' (live ?h2 [])"
    by (rule extend_heap_fits[OF inv]) (use assms in \<open>simp_all add: mem_ok_def MAX_HEAP_def join_free_def\<close>)
  then obtain m' where ext: "extend_heap 1024 ?h2 = (?h2\<lparr>mem_brk := mem_brk ?h2 + 4096, mem := m'\<rparr>, heap_listp ?h2 + 8)"
     "heap_inv (?h2\<lparr>mem_brk := mem_brk ?h2 + 4096, mem := m'\<rparr>) [(4096, False)]" by auto
  have "mm_init h = (?h2\<lparr>mem_brk := mem_brk ?h2 + 4096, mem := m'\<rparr>, 0)"
    using ext(1) mem_sbrk_fits[OF fits] assms(2) notnull
    by (simp add: mm_init_def WSIZE_def DSIZE_def CHUNKSIZE_def Let_def)
  with ext(2) show ?thesis by auto
qed

text \<open>
  \<open>mm_init\<close> on a fresh memory system returns 0 and leaves a well-formed heap: padding,
  prologue, one free block of \<open>CHUNKSIZE\<close> bytes and the epilogue, with nothing allocated.
\<close>

theorem mm_init_ok:
  assumes "mem_ok h" and "mem_brk h = mem_heap h" and "8 dvd mem_heap h"
  shows "\<exists>h'. mm_init h = (h', 0) \<and> heap_inv h' [(CHUNKSIZE, False)] \<and> live h' [(CHUNKSIZE, False)] = {}"
  using mm_init_blocks[OF assms] by (auto simp: CHUNKSIZE_def live_def)

text \<open>A concrete start: 20 megabytes at address 4096.\<close>

definition fresh_heap :: heap where
  "fresh_heap = mem_init 4096 \<lparr>mem = (\<lambda>a. 0), mem_heap = 0, mem_brk = 0, mem_max_addr = 0, heap_listp = 0\<rparr>"

lemma fresh_heap_ok: "mem_ok fresh_heap" "mem_brk fresh_heap = mem_heap fresh_heap" "8 dvd mem_heap fresh_heap"
  by (simp_all add: fresh_heap_def mem_init_def mem_ok_def MAX_HEAP_def PTR_ERR_def)

theorem mm_init_ok_witness:
  "\<exists>h'. mm_init fresh_heap = (h', 0) \<and> heap_inv h' [(CHUNKSIZE, False)] \<and> live h' [(CHUNKSIZE, False)] = {}"
  using mm_init_ok[OF fresh_heap_ok] .

lemma some_heap: "\<exists>h. heap_inv h [(4096, False)] \<and> mem_max_addr h = 20975616"
  using mm_init_blocks[OF fresh_heap_ok] by (auto simp: fresh_heap_def mem_init_def MAX_HEAP_def)

section \<open>Allocation\<close>

lemma adjust_size_facts:
  assumes "0 < sz" and "sz \<le> 2 ^ 31 - 24"
  shows "8 dvd adjust_size sz" "16 \<le> adjust_size sz" "sz + 8 \<le> adjust_size sz" "adjust_size sz < 2 ^ 31"
proof -
  have s: "adjust_size sz = (if sz \<le> 8 then 16 else 8 * ((sz + 15) div 8))"
    using assms by (simp add: adjust_size_def size_wrap_def DSIZE_def add.commute[of _ sz])
  show "8 dvd adjust_size sz" "16 \<le> adjust_size sz" "sz + 8 \<le> adjust_size sz" "adjust_size sz < 2 ^ 31"
    using assms unfolding s by auto
qed

text \<open>A block of at least \<open>sz + 8\<close> bytes has been added to the allocated ones.\<close>

definition handed_out :: "heap \<Rightarrow> block list \<Rightarrow> nat \<Rightarrow> heap \<Rightarrow> nat \<Rightarrow> bool" where
  "handed_out h bs sz h' p \<longleftrightarrow>
     (\<exists>bs' n. heap_inv h' bs' \<and> p \<noteq> 0 \<and> 8 dvd p \<and> sz + 8 \<le> n \<and> (\<forall>k. (p, k) \<notin> live h bs) \<and>
        live h' bs' = insert (p, n) (live h bs) \<and> same_payload (mem h) (mem h') (live h bs))"

lemma live_mem [simp]: "live (h\<lparr>mem := m\<rparr>) bs = live h bs" "live (h\<lparr>mem_brk := b\<rparr>) bs = live h bs"
  by (simp_all add: live_def)

lemma place_handed_out:
  assumes inv: "heap_inv h (xs @ (c, False) # ys)" and p: "p = heap_listp h + 8 + tot xs"
    and a: "8 dvd asize" "16 \<le> asize" "asize \<le> c" "sz + 8 \<le> asize"
  shows "handed_out h (xs @ (c, False) # ys) sz (h\<lparr>mem := place p asize (mem h)\<rparr>) p"
proof -
  note P = place_inv[OF inv p a(1-3)]
  obtain n where n: "asize \<le> n" "live h (xs @ place_blocks c asize @ ys) = insert (p, n) (live h (xs @ (c, False) # ys))"
    using P(3) by blast
  have new: "\<forall>k. (p, k) \<notin> live h (xs @ (c, False) # ys)"
    using free_not_live[of xs c False ys "heap_listp h + 8"] heap_invD(5)[OF inv] p by (simp add: live_def)
  have "(p, n) \<in> live (h\<lparr>mem := place p asize (mem h)\<rparr>) (xs @ place_blocks c asize @ ys)" using n(2) by simp
  then have "8 dvd p" by (rule live_facts(2)[OF P(1)])
  moreover have "p \<noteq> 0" using p heap_invD(7)[OF inv] by simp
  ultimately show ?thesis
    using P(1,2) n a(4) new unfolding handed_out_def
    by (intro exI[of _ "xs @ place_blocks c asize @ ys"] exI[of _ n]) simp
qed

lemma handed_out_trans:
  assumes "live h' bs' = live h bs" "same_payload (mem h) (mem h') (live h bs)" "handed_out h' bs' sz h'' p"
  shows "handed_out h bs sz h'' p"
  using assms unfolding handed_out_def by (metis same_payload_trans)

text \<open>The memory system has no room for the extension the request needs.\<close>

definition no_room :: "heap \<Rightarrow> block list \<Rightarrow> nat \<Rightarrow> bool" where
  "no_room h bs sz \<longleftrightarrow> (\<forall>(n, a)\<in>set bs. a \<or> n < adjust_size sz) \<and>
     mem_max_addr h < mem_brk h + max (adjust_size sz) CHUNKSIZE"

lemma mm_malloc_blocks:
  assumes inv: "heap_inv h bs" and sz: "0 < sz" "sz \<le> 2 ^ 31 - 24"
  shows "\<exists>h' p. mm_malloc sz h = Some (h', p) \<and>
     (if no_room h bs sz then p = 0 \<and> h' = h else handed_out h bs sz h' p)"
proof -
  let ?a = "adjust_size sz" and ?lp = "heap_listp h"
  note A = adjust_size_facts[OF sz] and I = heap_invD[OF inv]
  note find = find_fit_blocks[OF inv, of ?a]
  have lp8: "0 < ?lp + 8" by simp
  then show ?thesis
  proof (cases rule: first_fit_split[of "?lp + 8" ?a bs])
    case (found xs c ys)
    have notfull: "\<not> no_room h bs sz" using found by (auto simp: no_room_def)
    have "handed_out h bs sz (h\<lparr>mem := place (?lp + 8 + tot xs) ?a (mem h)\<rparr>) (?lp + 8 + tot xs)"
      using place_handed_out[OF inv[unfolded found(1)] refl A(1,2) found(3) A(3)] found(1) by simp
    then show ?thesis
      using find found(2) I(7,9) sz(1) notfull by (simp add: mm_malloc_def Let_def)
  next
    case none
    let ?n = "max ?a CHUNKSIZE"
    have n: "8 dvd ?n" "16 \<le> ?n" "?n < 2 ^ 31" "?a \<le> ?n" using A by (auto simp: max_def CHUNKSIZE_def)
    show ?thesis
    proof (cases "mem_max_addr h < mem_brk h + ?n")
      case True
      then show ?thesis
        using find none I(9) sz(1) extend_heap_full[OF True n(1,3)] unfolding no_room_def
        by (simp add: mm_malloc_def Let_def WSIZE_def)
    next
      case False
      obtain xs' n' ys' where j: "join_free bs ?n [] = (xs', n', ys')" by (cases "join_free bs ?n []")
      have ys': "ys' = []" using j by (auto simp: join_free_def split: if_splits)
      note j = j[unfolded ys']
      let ?p = "?lp + 8 + tot xs'"
      obtain m' where ext: "extend_heap (?n div 4) h = (h\<lparr>mem_brk := mem_brk h + ?n, mem := m'\<rparr>, ?p)"
          "heap_inv (h\<lparr>mem_brk := mem_brk h + ?n, mem := m'\<rparr>) (xs' @ [(n', False)])" "same_payload (mem h) m' (live h bs)"
        using extend_heap_fits[OF inv _ n(1,2) j] False by auto
      let ?h1 = "h\<lparr>mem_brk := mem_brk h + ?n, mem := m'\<rparr>"
      have "?a \<le> n'" using join_free_facts(2)[OF j] n(4) by simp
      then have "handed_out ?h1 (xs' @ [(n', False)]) sz (?h1\<lparr>mem := place ?p ?a m'\<rparr>) ?p"
        using place_handed_out[OF ext(2) _ A(1,2) _ A(3), of ?p] by simp
      moreover have "live ?h1 (xs' @ [(n', False)]) = live h bs"
        using join_free_facts(3)[OF j, of "?lp + 8"] by (simp add: live_def)
      ultimately have "handed_out h bs sz (?h1\<lparr>mem := place ?p ?a m'\<rparr>) ?p"
        using handed_out_trans[of ?h1 "xs' @ [(n', False)]" h bs] ext(3) by simp
      then show ?thesis
        using find none I(7,9) sz(1) ext(1) False unfolding no_room_def
        by (simp add: mm_malloc_def Let_def WSIZE_def)
    qed
  qed
qed

text \<open>
  C1: for a request of up to \<open>2 ^ 31 - 24\<close> bytes on a well-formed heap \<open>mm_malloc\<close> returns:
  NULL with the heap unchanged exactly when no free block fits and the memory system cannot
  supply the extension, and otherwise an aligned, so far unallocated block with room for the
  request, which becomes the only new allocated block while every payload keeps its bytes.
\<close>

theorem mm_malloc_contract:
  assumes "heap_inv h bs" and "0 < sz" and "sz \<le> 2 ^ 31 - 24"
  shows "\<exists>h' p. mm_malloc sz h = Some (h', p) \<and>
     (if no_room h bs sz then p = 0 \<and> h' = h else handed_out h bs sz h' p)"
  using assms by (rule mm_malloc_blocks)

lemma room_for_100: "\<not> no_room h [(4096, False)] 100"
  by (simp add: no_room_def adjust_size_def size_wrap_def DSIZE_def)

theorem mm_malloc_contract_witness:
  "\<exists>h. heap_inv h [(4096, False)] \<and> (\<exists>h' p. mm_malloc 100 h = Some (h', p) \<and> handed_out h [(4096, False)] 100 h' p)"
proof -
  obtain h where h: "heap_inv h [(4096, False)]" using some_heap by blast
  show ?thesis using mm_malloc_contract[OF h, of 100] room_for_100 h by (intro exI[of _ h]) simp
qed

lemma some_live: "\<exists>h bs p n. heap_inv h bs \<and> (p, n) \<in> live h bs \<and> live h bs = {(p, n)} \<and> 108 \<le> n"
proof -
  obtain h where h: "heap_inv h [(4096, False)]" using some_heap by blast
  obtain h' p where "handed_out h [(4096, False)] 100 h' p"
    using mm_malloc_blocks[OF h, of 100] room_for_100 by auto
  then obtain bs' n where *: "heap_inv h' bs'" "108 \<le> n" "live h' bs' = insert (p, n) (live h [(4096, False)])"
    by (auto simp: handed_out_def)
  moreover have "live h [(4096, False)] = {}" by (simp add: live_def)
  ultimately show ?thesis by blast
qed

section \<open>Freeing\<close>

text \<open>
  C2: \<open>mm_free\<close> of an allocated block removes exactly that block, keeps the heap well formed
  (in particular merged: no two free neighbours) and every other payload intact.
\<close>

theorem mm_free_contract:
  assumes "heap_inv h bs" and "(p, n) \<in> live h bs"
  shows "\<exists>bs'. heap_inv (mm_free p h) bs' \<and> live (mm_free p h) bs' = live h bs - {(p, n)} \<and>
           same_payload (mem h) (mem (mm_free p h)) (live h bs - {(p, n)})"
  using assms by (rule mm_free_live)

theorem mm_free_contract_witness:
  "\<exists>h bs p n. heap_inv h bs \<and> live h bs = {(p, n)} \<and>
     (\<exists>bs'. heap_inv (mm_free p h) bs' \<and> live (mm_free p h) bs' = {})"
proof -
  obtain h bs p n where h: "heap_inv h bs" "(p, n) \<in> live h bs" "live h bs = {(p, n)}" using some_live by blast
  then obtain bs' where "heap_inv (mm_free p h) bs'" "live (mm_free p h) bs' = {}"
    using mm_free_contract[OF h(1,2)] by auto
  with h show ?thesis by blast
qed

section \<open>Reallocation\<close>

definition moved :: "heap \<Rightarrow> block list \<Rightarrow> nat \<Rightarrow> nat \<Rightarrow> nat \<Rightarrow> heap \<Rightarrow> nat \<Rightarrow> bool" where
  "moved h bs p n sz h' q \<longleftrightarrow>
     (\<exists>bs' k. heap_inv h' bs' \<and> q \<noteq> 0 \<and> 8 dvd q \<and> sz + 8 \<le> k \<and> (\<forall>k. (q, k) \<notin> live h bs) \<and>
        live h' bs' = insert (q, k) (live h bs - {(p, n)}) \<and>
        (\<forall>i<min sz (n - 8). mem h' (q + i) = mem h (p + i)) \<and>
        same_payload (mem h) (mem h') (live h bs - {(p, n)}))"

lemma mm_realloc_moved:
  assumes inv: "heap_inv h bs" and l: "(p, n) \<in> live h bs" and h1: "handed_out h bs sz h1 q"
  shows "moved h bs p n sz (mm_free p (h1\<lparr>mem := memcpy q p (min sz n) (mem h1)\<rparr>)) q"
proof -
  let ?m2 = "memcpy q p (min sz n) (mem h1)"
  let ?h2 = "h1\<lparr>mem := ?m2\<rparr>" and ?h3 = "mm_free p (h1\<lparr>mem := memcpy q p (min sz n) (mem h1)\<rparr>)"
  obtain bs1 k where k: "heap_inv h1 bs1" "q \<noteq> 0" "8 dvd q" "sz + 8 \<le> k" "\<forall>k. (q, k) \<notin> live h bs"
      "live h1 bs1 = insert (q, k) (live h bs)" and keep1: "same_payload (mem h) (mem h1) (live h bs)"
    using h1 unfolding handed_out_def by blast
  have qk: "(q, k) \<in> live h1 bs1" and pn: "(p, n) \<in> live h1 bs1" and neq: "q \<noteq> p" using k(5,6) l by auto
  have wr: "agree_outside q (q + k - 8) (mem h1) ?m2"
    using memcpy_outside[of "min sz n" "k - 8" q "mem h1" p] k(4) by simp
  have inv2: "heap_inv ?h2 bs1" and keep2: "same_payload (mem h1) ?m2 (live h1 bs1 - {(q, k)})"
    using payload_write[OF k(1) qk wr] by blast+
  have pn2: "(p, n) \<in> live ?h2 bs1" using pn by simp
  obtain bs3 where bs3: "heap_inv ?h3 bs3" "live ?h3 bs3 = live h1 bs1 - {(p, n)}"
      and keep3: "same_payload ?m2 (mem ?h3) (live h1 bs1 - {(p, n)})"
    using mm_free_live[OF inv2 pn2] by auto
  have rest: "live h bs - {(p, n)} \<subseteq> live h1 bs1 - {(q, k)}" "live h bs - {(p, n)} \<subseteq> live h1 bs1 - {(p, n)}"
    using k(5,6) by auto
  have "mem ?h3 (q + i) = mem h (p + i)" if "i < min sz (n - 8)" for i
  proof -
    have "mem ?h3 (q + i) = ?m2 (q + i)"
      by (rule same_payloadD[OF keep3]) (use qk neq that k(4) in auto)
    also have "\<dots> = mem h1 (p + i)" using that by (auto simp: memcpy_def)
    also have "\<dots> = mem h (p + i)" by (rule same_payloadD[OF keep1 l]) (use that in simp)
    finally show ?thesis .
  qed
  moreover have "same_payload (mem h) (mem ?h3) (live h bs - {(p, n)})"
    using same_payload_mono[OF keep1, of "live h bs - {(p, n)}"] same_payload_mono[OF keep2 rest(1)]
      same_payload_mono[OF keep3 rest(2)] by (blast intro: same_payload_trans)
  moreover have "live ?h3 bs3 = insert (q, k) (live h bs - {(p, n)})" using bs3(2) k(6) neq by auto
  ultimately show ?thesis using bs3(1) k(2-5) unfolding moved_def by blast
qed

lemma min_if: "(if a < b then a else b) = min a (b :: nat)"
  by simp

lemma mm_realloc_blocks:
  assumes "heap_inv h bs" and "(p, n) \<in> live h bs" and "0 < sz" and "sz \<le> 2 ^ 31 - 24"
  shows "\<exists>h' q. mm_realloc p sz h = Some (h', q) \<and>
     (if no_room h bs sz then q = 0 \<and> h' = h else moved h bs p n sz h' q)"
proof -
  have p: "p \<noteq> 0" using live_facts(3)[OF assms(1,2)] by simp
  obtain h1 q where m: "mm_malloc sz h = Some (h1, q)"
      "if no_room h bs sz then q = 0 \<and> h1 = h else handed_out h bs sz h1 q"
    using mm_malloc_blocks[OF assms(1,3,4)] by blast
  show ?thesis
  proof (cases "no_room h bs sz")
    case True
    then show ?thesis using m p assms(3) by (simp add: mm_realloc_def)
  next
    case False
    then have ho: "handed_out h bs sz h1 q" using m(2) by simp
    then obtain bs1 where "heap_inv h1 bs1" "(p, n) \<in> live h1 bs1" "q \<noteq> 0"
      using assms(2) unfolding handed_out_def by blast
    then have "GET_SIZE (mem h1) (HDRP p) = n" using live_facts(5) block_reads(1) by blast
    then show ?thesis
      using mm_realloc_moved[OF assms(1,2) ho] m(1) p assms(3) False \<open>q \<noteq> 0\<close>
      by (simp add: mm_realloc_def Let_def min_if)
  qed
qed

text \<open>
  C3: \<open>mm_realloc\<close> of an allocated block to a positive size returns NULL with the heap
  unchanged when there is no room for the new block, and otherwise moves the block: the old
  one is gone, the new one is aligned and large enough and starts with the old payload's
  bytes (as many as fit), and no other payload changes.
\<close>

theorem mm_realloc_contract:
  assumes "heap_inv h bs" and "(p, n) \<in> live h bs" and "0 < sz" and "sz \<le> 2 ^ 31 - 24"
  shows "\<exists>h' q. mm_realloc p sz h = Some (h', q) \<and>
     (if no_room h bs sz then q = 0 \<and> h' = h else moved h bs p n sz h' q)"
  using assms by (rule mm_realloc_blocks)

theorem mm_realloc_contract_witness:
  "\<exists>h bs p n. heap_inv h bs \<and> (p, n) \<in> live h bs \<and> (\<exists>h' q. mm_realloc p 5000 h = Some (h', q))"
proof -
  obtain h bs p n where h: "heap_inv h bs" "(p, n) \<in> live h bs" using some_live by blast
  then show ?thesis using mm_realloc_contract[OF h, of 5000] by fastforce
qed

section \<open>The allocated blocks, the search and the checker\<close>

text \<open>
  Two different allocated blocks of a well-formed heap do not overlap, and each is aligned
  to 8 bytes and lies between the prologue and the break.
\<close>

theorem live_blocks_disjoint:
  assumes "heap_inv h bs" and "(p, k) \<in> live h bs" and "(q, l) \<in> live h bs" and "(p, k) \<noteq> (q, l)"
  shows "(p + k \<le> q \<or> q + l \<le> p) \<and> 8 dvd p \<and> heap_listp h + 8 \<le> p \<and> p + k \<le> mem_brk h"
  using live_disjoint[OF assms(2-4)] live_facts[OF assms(1,2)] by simp

lemma two_live: "\<exists>h bs p q k l. heap_inv h bs \<and> (p, k) \<in> live h bs \<and> (q, l) \<in> live h bs \<and> p \<noteq> q"
proof -
  obtain h where h: "heap_inv h [(4096, False)]" "mem_max_addr h = 20975616" using some_heap by blast
  let ?h' = "h\<lparr>mem := place (heap_listp h + 8) 16 (mem h)\<rparr>"
  have first: "handed_out h [(4096, False)] 8 ?h' (heap_listp h + 8)"
    using place_handed_out[of h "[]" 4096 "[]" _ 16 8] h(1) by simp
  have inv1: "heap_inv ?h' [(16, True), (4080, False)]"
    using place_inv(1)[of h "[]" 4096 "[]" "heap_listp h + 8" 16] h(1) by (simp add: place_blocks_def)
  let ?h'' = "?h'\<lparr>mem := place (heap_listp ?h' + 8 + 16) 16 (mem ?h')\<rparr>"
  have "heap_inv ?h'' [(16, True), (16, True), (4064, False)]"
    using place_inv(1)[of ?h' "[(16, True)]" 4080 "[]" "heap_listp ?h' + 8 + 16" 16] inv1 by (simp add: place_blocks_def)
  then show ?thesis
    by (intro exI[of _ ?h''] exI[of _ "[(16, True), (16, True), (4064, False)]"]
        exI[of _ "heap_listp h + 8"] exI[of _ "heap_listp h + 24"] exI[of _ 16]) (simp add: live_def)
qed

theorem live_blocks_disjoint_witness:
  "\<exists>h bs p q k l. heap_inv h bs \<and> (p, k) \<in> live h bs \<and> (q, l) \<in> live h bs \<and> p \<noteq> q \<and>
     (p + k \<le> q \<or> q + l \<le> p)"
proof -
  obtain h bs p q k l where h: "heap_inv h bs" "(p, k) \<in> live h bs" "(q, l) \<in> live h bs" "p \<noteq> q"
    using two_live by blast
  with live_blocks_disjoint[OF h(1-3)] show ?thesis by blast
qed

text \<open>
  The first-fit search of \<open>find_fit\<close> terminates on every well-formed heap and returns the
  lowest free block that is large enough, or NULL when there is none.
\<close>

theorem find_fit_first:
  assumes "heap_inv h bs"
  shows "find_fit asize h = Some (first_fit asize (heap_listp h + 8) bs)"
  using assms by (rule find_fit_blocks)

theorem find_fit_first_witness:
  "\<exists>h. heap_inv h [(4096, False)] \<and> find_fit 4000 h = Some (heap_listp h + 8) \<and> find_fit 5000 h = Some 0"
proof -
  obtain h where h: "heap_inv h [(4096, False)]" using some_heap by blast
  then show ?thesis using find_fit_first[OF h] by (intro exI[of _ h]) simp
qed

lemma block_checks: "block m bp n a \<Longrightarrow> 8 dvd bp \<Longrightarrow> checkblock bp m = []"
  by (simp add: checkblock_def block_reads(3)) (simp add: block_def HDRP_def WSIZE_def)

lemma checkblocks_seg:
  "seg m bp bs \<Longrightarrow> 8 dvd bp \<Longrightarrow> epilogue m (bp + tot bs) \<Longrightarrow> checkblocks m bp errs = Some (errs, bp + tot bs)"
proof (induction m bp bs arbitrary: errs rule: seg.induct)
  case (1 m bp)
  then show ?case by (simp add: checkblocks.simps epilogue_reads)
next
  case (2 m bp n a bs)
  then have b: "block m bp n a" and "8 dvd bp + n" by (auto simp: block_def size_ok_def)
  with 2 show ?case
    using block_reads[OF b] block_min[OF b] block_checks[OF b]
    by (simp add: checkblocks.simps[of m bp] add.assoc)
qed

lemma checkheap_silent:
  assumes "heap_inv h bs"
  shows "checkheap h = Some []"
proof -
  note I = heap_invD[OF assms]
  have b: "block (mem h) (heap_listp h) 8 True" using I(3) by simp
  have e: "epilogue (mem h) (heap_listp h + tot ((8, True) # bs))" using I(2,4) by (simp add: add.assoc)
  show ?thesis
    using checkblocks_seg[OF I(3,10) e] block_reads[OF b] block_checks[OF b I(10)] epilogue_reads[OF e]
    by (simp add: checkheap_def DSIZE_def Let_def)
qed

text \<open>
  The heap checker terminates on every well-formed heap and reports nothing.
\<close>

theorem checkheap_accepts:
  assumes "heap_inv h bs"
  shows "checkheap h = Some []"
  using assms by (rule checkheap_silent)

theorem checkheap_accepts_witness: "\<exists>h. heap_inv h [(4096, False)] \<and> checkheap h = Some []"
  using some_heap checkheap_accepts by blast

text \<open>
  the size computation of \<open>mm_malloc\<close> wraps for requests near \<open>2 ^ 64\<close>: a request of
  \<open>2 ^ 64 - 8\<close> bytes is given a block size of 0, so on a freshly initialised heap it succeeds,
  and the footer it writes for that block overwrites the footer of the prologue.
\<close>

theorem mm_malloc_wraps:
  assumes "heap_inv h [(4096, False)]"
  shows "\<exists>h'. mm_malloc (2 ^ 64 - 8) h = Some (h', heap_listp h + 8) \<and> heap_listp h + 8 \<noteq> 0 \<and>
    GET (mem h) (heap_listp h) = PACK DSIZE 1 \<and> GET (mem h') (heap_listp h) = PACK 0 1"
proof -
  let ?bp = "heap_listp h + 8"
  note I = heap_invD[OF assms]
  have a: "adjust_size (2 ^ 64 - 8) = 0" by (simp add: adjust_size_def DSIZE_def size_wrap_def)
  have sub: "size_sub 4096 0 = 4096" by (simp add: size_sub_def size_wrap_def)
  have b: "block (mem h) ?bp 4096 False" and p: "block (mem h) (heap_listp h) 8 True" using I(3) by simp_all
  have sz0: "GET_SIZE (PUT q (PACK 0 1) m) q = 0" for q m
    by (simp add: GET_SIZE_def bytes.get_put_same PACK_def)
  let ?m2 = "PUT (?bp - 8) (PACK 0 1) (PUT (?bp - 4) (PACK 0 1) (mem h))"
  have hdr: "GET_SIZE ?m2 (?bp - 4) = 0"
    using sz0[of "?bp - 4" "mem h"] by (simp add: GET_SIZE_PUT)
  have s4096: "GET_SIZE (PUT q (PACK 4096 0) m) q = 4096" for q m
    by (simp add: GET_SIZE_def bytes.get_put_same PACK_def)
  have "place ?bp 0 (mem h) = PUT (?bp + 4096 - 8) (PACK 4096 0) (PUT (?bp - 4) (PACK 4096 0) ?m2)"
    using block_reads(1)[OF b] hdr sub sz0 s4096
    by (simp add: place_def Let_def HDRP_def FTRP_def NEXT_BLKP_def WSIZE_def DSIZE_def)
  then have "GET (place ?bp 0 (mem h)) (heap_listp h) = PACK 0 1"
    by (simp add: bytes.get_put_same bytes.get_put_other)
  moreover have "GET (mem h) (heap_listp h) = PACK DSIZE 1"
    using p by (simp add: block_def PACK_tags DSIZE_def)
  moreover have "find_fit 0 h = Some ?bp" using find_fit_blocks[OF assms, of 0] by simp
  ultimately show ?thesis using a I(9) by (simp add: mm_malloc_def Let_def)
qed

theorem mm_malloc_wraps_witness:
  "\<exists>h h' p. heap_inv h [(4096, False)] \<and> mm_malloc (2 ^ 64 - 8) h = Some (h', p) \<and> p \<noteq> 0 \<and>
     GET (mem h') (heap_listp h) = PACK 0 1"
  using some_heap mm_malloc_wraps by blast

section \<open>Clients\<close>

interpretation implicit: allocator heap_inv live mem "\<lambda>m h. h\<lparr>mem := m\<rparr>" mm_malloc "\<lambda>p h. Some (mm_free p h)" "2 ^ 31 - 24"
proof
  fix h bs sz assume inv: "heap_inv h bs" "0 < sz" "sz \<le> 2 ^ 31 - (24 :: nat)"
  show "\<exists>h' p. mm_malloc sz h = Some (h', p) \<and> (p = 0 \<and> h' = h \<or>
        p \<noteq> 0 \<and> (\<exists>bs' n. heap_inv h' bs' \<and> sz + 8 \<le> n \<and> live h' bs' = insert (p, n) (live h bs) \<and> (\<forall>k. (p, k) \<notin> live h bs) \<and>
          same_payload (mem h) (mem h') (live h bs)))"
    using mm_malloc_blocks[OF inv] unfolding handed_out_def by (metis (no_types, lifting))
next
  fix h bs p n assume "heap_inv h bs" "(p, n) \<in> live h bs"
  then show "\<exists>h' bs'. Some (mm_free p h) = Some h' \<and> heap_inv h' bs' \<and> live h' bs' = live h bs - {(p, n)} \<and>
      same_payload (mem h) (mem h') (live h bs - {(p, n)})"
    using mm_free_live by blast
next
  fix h bs p n m assume "heap_inv h bs" "(p, n) \<in> live h bs" "agree_outside p (p + n - 8) (mem h) m"
  then show "heap_inv (h\<lparr>mem := m\<rparr>) bs \<and> live (h\<lparr>mem := m\<rparr>) bs = live h bs"
    using payload_write(1) by simp
qed (simp_all add: live_disjoint)

text \<open>
  C4: whatever sequence of requests, releases and writes to its blocks a client makes after
  \<open>mm_init\<close>, every call returns, the client's blocks never overlap, and each still holds the
  bytes the client last wrote there.
\<close>

theorem mm_client_record:
  assumes "mem_ok h" and "mem_brk h = mem_heap h" and "8 dvd mem_heap h"
  shows "\<exists>h0. mm_init h = (h0, 0) \<and>
    (\<exists>h' own. client_run mem (\<lambda>m h. h\<lparr>mem := m\<rparr>) mm_malloc (\<lambda>p h. Some (mm_free p h)) (2 ^ 31 - 24) es (h0, \<lambda>_. None) = Some (h', own) \<and>
      holds_in (mem h') own \<and> owned_apart own)"
  using mm_init_blocks[OF assms] implicit.client_record by blast

theorem mm_client_record_witness:
  "\<exists>h0. mm_init fresh_heap = (h0, 0) \<and>
    (\<exists>h' own. client_run mem (\<lambda>m h. h\<lparr>mem := m\<rparr>) mm_malloc (\<lambda>p h. Some (mm_free p h)) (2 ^ 31 - 24)
      [Request 100, Request 20, Store 4112 3 7, Release 4112, Request 50] (h0, \<lambda>_. None) = Some (h', own) \<and>
      holds_in (mem h') own \<and> owned_apart own)"
  by (rule mm_client_record[OF fresh_heap_ok])

end
