(* ===== verification/DriverHeap.thy ===== *)
theory DriverHeap
  imports Driver ImplicitSpec
begin

text \<open>
  The parts of the driver of \<open>csapp-master/vm/malloc/mdriver.c\<close>: what the range list, the random
  payloads and their checks do, and how far an operation of the allocator can move the break.
\<close>

section \<open>Random payloads\<close>

lemma fill_random_reads:
  "fill_random E b base sz m a =
     (if b \<le> a \<and> a < b + sz then random_data E ((base + (a - b)) mod RANDOM_DATA_LEN) else m a)"
proof -
  have "\<forall>a. fill_random E b base sz m a =
     (if b \<le> a \<and> a < b + sz then random_data E ((base + (a - b)) mod RANDOM_DATA_LEN) else m a)"
    unfolding fill_random_def
    by (rule for_loop_invariant[where I = "\<lambda>n m'. \<forall>a. m' a =
       (if b \<le> a \<and> a < b + n then random_data E ((base + (a - b)) mod RANDOM_DATA_LEN) else m a)"])
      (auto simp: not_less le_less_Suc_eq)
  then show ?thesis by blast
qed

lemma fill_random_outside: "sz \<le> k \<Longrightarrow> agree_outside b (b + k) m (fill_random E b base sz m)"
  by (simp add: agree_outside_def fill_random_reads)

text \<open>The payload of a block is what \<open>randomize_block\<close> wrote, if it writes at all.\<close>

definition payload_ok :: "driver_env \<Rightarrow> nat \<Rightarrow> nat \<Rightarrow> nat \<Rightarrow> byte_mem \<Rightarrow> bool" where
  "payload_ok E b base sz m \<longleftrightarrow>
     (debug E \<noteq> DBG_NONE \<longrightarrow> (\<forall>j < sz. m (b + j) = random_data E ((base + j) mod RANDOM_DATA_LEN)))"

lemma payload_ok_fill: "payload_ok E b base sz (fill_random E b base sz m)"
  by (simp add: payload_ok_def fill_random_reads)

lemma payload_ok_le: "payload_ok E b base sz m \<Longrightarrow> n \<le> sz \<Longrightarrow> payload_ok E b base n m"
  by (simp add: payload_ok_def)

lemma payload_ok_moved: "payload_ok E b base sz m \<Longrightarrow> (\<And>j. j < sz \<Longrightarrow> m' (b' + j) = m (b + j)) \<Longrightarrow> payload_ok E b' base sz m'"
  by (simp add: payload_ok_def)

lemma payload_ok_none [simp]: "payload_ok E b base 0 m"
  by (simp add: payload_ok_def)

lemma count_garbled_none:
  assumes "payload_ok E b base sz m" and "debug E \<noteq> DBG_NONE"
  shows "count_garbled E b base sz m = (0, -1)"
  unfolding count_garbled_def
  by (rule for_loop_invariant[where I = "\<lambda>i r. r = (0, -1)"]) (use assms in \<open>auto simp: payload_ok_def\<close>)

lemma check_index_silent:
  assumes "i < length (d_blocks d)" and "payload_ok E (d_blocks d ! i) (d_bases d ! i) (d_sizes d ! i) (mem (d_heap d))"
  shows "check_index E opnum (int i) d = Done d"
  using count_garbled_none[OF assms(2)] assms(1) by (simp add: check_index_def in_range_def)

section \<open>Ranges\<close>

lemma find_overlap_none:
  assumes "\<And>p. p \<in> set ps \<Longrightarrow> lo p \<le> hi p \<and> (hi p < l \<or> h < lo p)" and "l \<le> h"
  shows "find_overlap l h ps = None"
  using assms(1)
proof (induction ps)
  case (Cons p ps)
  have "lo p \<le> hi p \<and> (hi p < l \<or> h < lo p)" by (rule Cons.prems) simp
  with assms(2) have "\<not> ((lo p \<le> l \<and> l \<le> hi p) \<or> (lo p \<le> h \<and> h \<le> hi p))" by auto
  moreover have "find_overlap l h ps = None" by (rule Cons.IH, rule Cons.prems) simp
  ultimately show ?case by simp
qed simp

lemma remove_range_set: "distinct (map lo ps) \<Longrightarrow> set (remove_range l ps) = {p \<in> set ps. lo p \<noteq> l}"
  by (induction ps) (auto simp: image_iff)

lemma remove_range_distinct: "distinct (map lo ps) \<Longrightarrow> distinct (map lo (remove_range l ps))"
  by (induction ps) (auto simp: remove_range_set)

lemma remove_range_absent: "\<forall>p\<in>set ps. lo p \<noteq> l \<Longrightarrow> remove_range l ps = ps"
  by (induction ps) auto

section \<open>The break\<close>

definition growth :: "nat \<Rightarrow> nat" where
  "growth sz = sz + 15 + CHUNKSIZE"

text \<open>The arena and \<open>heap_listp\<close> stay, the break only grows.\<close>

definition same_arena :: "heap \<Rightarrow> heap \<Rightarrow> bool" where
  "same_arena h h' \<longleftrightarrow> mem_heap h' = mem_heap h \<and> mem_max_addr h' = mem_max_addr h \<and> heap_listp h' = heap_listp h \<and>
     mem_brk h \<le> mem_brk h'"

lemma adjust_size_bound:
  assumes "0 < sz" and "sz \<le> 2 ^ 31 - 24"
  shows "adjust_size sz \<le> sz + 15"
proof (cases "sz \<le> 8")
  case False
  have "8 * ((sz + 15) div 8) \<le> sz + 15" by simp
  then show ?thesis using False assms by (simp add: adjust_size_def size_wrap_def DSIZE_def)
qed (use assms in \<open>simp add: adjust_size_def DSIZE_def\<close>)

lemma extend_heap_growth:
  assumes "n < 2 ^ 31" "8 dvd n" "extend_heap (n div 4) h = (h', bp)"
  shows "same_arena h h' \<and> mem_brk h' \<le> mem_brk h + n"
proof -
  obtain k where k: "n = 8 * k" using assms(2) by blast
  then have w: "size_wrap (n div 4 * WSIZE) = n" "n div 4 mod 2 = 0" using assms(1) by (simp_all add: size_wrap_def WSIZE_def)
  show ?thesis
    using assms(3) w assms(1)
    by (auto simp: extend_heap_def same_arena_def mem_sbrk_def int_of_size_small Let_def split: if_splits prod.splits)
qed

lemma mm_malloc_growth:
  assumes inv: "heap_inv h bs" and sz: "0 < sz" "sz \<le> 2 ^ 31 - 24" and m: "mm_malloc sz h = Some (h', p)"
  shows "same_arena h h' \<and> mem_brk h' \<le> mem_brk h + growth sz"
proof -
  note I = heap_invD[OF inv]
  have a: "adjust_size sz \<le> sz + 15" by (rule adjust_size_bound[OF sz])
  let ?n = "max (adjust_size sz) CHUNKSIZE"
  have n: "?n < 2 ^ 31" "8 dvd ?n" using adjust_size_facts[OF sz] by (auto simp: max_def CHUNKSIZE_def)
  have g: "?n \<le> growth sz" using a by (auto simp: growth_def)
  obtain h1 bp where e: "extend_heap (?n div WSIZE) h = (h1, bp)" by fastforce
  have "same_arena h h1 \<and> mem_brk h1 \<le> mem_brk h + ?n" using extend_heap_growth[OF n] e by (simp add: WSIZE_def)
  then show ?thesis
    using m I(9) sz(1) e g
    by (auto simp: mm_malloc_def Let_def same_arena_def split: if_splits prod.splits bind_splits)
qed

lemma no_room_growth: "0 < sz \<Longrightarrow> sz \<le> 2 ^ 31 - 24 \<Longrightarrow> no_room h bs sz \<Longrightarrow> mem_max_addr h < mem_brk h + growth sz"
  using adjust_size_bound[of sz] by (auto simp: no_room_def growth_def)

lemma mm_free_arena: "heap_listp h \<noteq> 0 \<Longrightarrow> same_arena h (mm_free p h) \<and> mem_brk (mm_free p h) = mem_brk h"
  by (simp add: mm_free_def same_arena_def Let_def)

lemma mm_realloc_growth:
  assumes inv: "heap_inv h bs" and sz: "0 < sz" "sz \<le> 2 ^ 31 - 24" and m: "mm_realloc p sz h = Some (h', q)"
  shows "same_arena h h' \<and> mem_brk h' \<le> mem_brk h + growth sz"
proof -
  obtain h1 q1 where m1: "mm_malloc sz h = Some (h1, q1)" using mm_malloc_blocks[OF inv sz] by blast
  have g: "same_arena h h1 \<and> mem_brk h1 \<le> mem_brk h + growth sz" by (rule mm_malloc_growth[OF inv sz m1])
  then have lp: "heap_listp h1 \<noteq> 0" using heap_invD(9)[OF inv] by (simp add: same_arena_def)
  have "same_arena h1 (mm_free p (h1\<lparr>mem := m'\<rparr>)) \<and> mem_brk (mm_free p (h1\<lparr>mem := m'\<rparr>)) = mem_brk h1" for m'
    using mm_free_arena[of "h1\<lparr>mem := m'\<rparr>" p] lp by (simp add: same_arena_def)
  then show ?thesis
    using m m1 sz(1) g by (auto simp: mm_realloc_def Let_def same_arena_def split: if_splits)
qed

end
