(* ===== verification/DriverSpec.thy ===== *)
theory DriverSpec
  imports DriverHeap
begin

text \<open>
  The driver of \<open>csapp-master/vm/malloc/mdriver.c\<close> and the allocator it tests: what the driver
  records of a run is true of the heap, so the correctness run complains about nothing but a
  heap that is full.
\<close>

section \<open>Legal traces\<close>

text \<open>An id has no block (\<open>NULL\<close>), has one, or still names one that was freed.\<close>

datatype id_state = Null | Live | Freed

fun next_ids :: "traceop \<Rightarrow> (nat \<Rightarrow> id_state) \<Rightarrow> nat \<Rightarrow> id_state" where
  "next_ids r st =
     (case op_type r of
        ALLOC \<Rightarrow> st(nat (op_index r) := Live)
      | REALLOC \<Rightarrow> st(nat (op_index r) := if op_size r = 0 then Null else Live)
      | FREE_OP \<Rightarrow> if op_index r < 0 then st else st(nat (op_index r) := Freed))"

definition legal_op :: "nat \<Rightarrow> (nat \<Rightarrow> id_state) \<Rightarrow> traceop \<Rightarrow> bool" where
  "legal_op n st r \<longleftrightarrow>
     (let i = op_index r; here = (0 \<le> i \<and> i < int n) in
      case op_type r of
        ALLOC \<Rightarrow> here \<and> st (nat i) \<noteq> Live \<and> 0 < op_size r \<and> op_size r \<le> 2 ^ 31 - 24
      | REALLOC \<Rightarrow> here \<and> st (nat i) \<noteq> Freed \<and> op_size r \<le> 2 ^ 31 - 24
      | FREE_OP \<Rightarrow> i = -1 \<or> here \<and> st (nat i) \<noteq> Freed)"

fun legal :: "nat \<Rightarrow> (nat \<Rightarrow> id_state) \<Rightarrow> traceop list \<Rightarrow> bool" where
  "legal n st [] = True"
| "legal n st (r # rs) = (legal_op n st r \<and> legal n (next_ids r st) rs)"

text \<open>What a trace can need of the heap beyond its first blocks.\<close>

fun demand :: "traceop list \<Rightarrow> nat" where
  "demand [] = 0"
| "demand (r # rs) = (if op_type r = FREE_OP \<or> op_size r = 0 then 0 else growth (op_size r)) + demand rs"

section \<open>The invariant of a run\<close>

definition tracked :: "driver_env \<Rightarrow> trace \<Rightarrow> bool" where
  "tracked E T \<longleftrightarrow> \<not> ignore_ranges T \<and> debug E \<noteq> DBG_NONE"

definition id_range :: "driver \<Rightarrow> nat \<Rightarrow> range" where
  "id_range d i = \<lparr>lo = d_blocks d ! i, hi = d_blocks d ! i + d_sizes d ! i - 1, r_index = int i\<rparr>"

definition id_ok :: "driver_env \<Rightarrow> driver \<Rightarrow> block list \<Rightarrow> nat \<Rightarrow> bool" where
  "id_ok E d bs i \<longleftrightarrow> 0 < d_sizes d ! i \<and> (\<exists>k. (d_blocks d ! i, k) \<in> live (d_heap d) bs \<and> d_sizes d ! i + 8 \<le> k) \<and>
     payload_ok E (d_blocks d ! i) (d_bases d ! i) (d_sizes d ! i) (mem (d_heap d))"

definition arrays_ok :: "trace \<Rightarrow> driver \<Rightarrow> bool" where
  "arrays_ok T d \<longleftrightarrow> length (d_blocks d) = num_ids T \<and> length (d_sizes d) = num_ids T \<and> length (d_bases d) = num_ids T"

definition ranges_ok :: "driver_env \<Rightarrow> trace \<Rightarrow> (nat \<Rightarrow> id_state) \<Rightarrow> driver \<Rightarrow> bool" where
  "ranges_ok E T st d \<longleftrightarrow> distinct (map lo (d_ranges d)) \<and>
     set (d_ranges d) = (if tracked E T then id_range d ` {i. i < num_ids T \<and> st i = Live} else {})"

definition driver_inv :: "driver_env \<Rightarrow> trace \<Rightarrow> (nat \<Rightarrow> id_state) \<Rightarrow> driver \<Rightarrow> block list \<Rightarrow> bool" where
  "driver_inv E T st d bs \<longleftrightarrow> heap_inv (d_heap d) bs \<and> arrays_ok T d \<and>
     (\<forall>i<num_ids T. st i = Live \<longrightarrow> id_ok E d bs i) \<and>
     (\<forall>i<num_ids T. st i = Null \<longrightarrow> d_blocks d ! i = 0 \<and> d_sizes d ! i = 0) \<and>
     (\<forall>i<num_ids T. \<forall>j<num_ids T. st i = Live \<longrightarrow> st j = Live \<longrightarrow> d_blocks d ! i = d_blocks d ! j \<longrightarrow> i = j) \<and>
     ranges_ok E T st d"

lemma driver_invD:
  assumes "driver_inv E T st d bs"
  shows "heap_inv (d_heap d) bs" "arrays_ok T d" "i < num_ids T \<Longrightarrow> st i = Live \<Longrightarrow> id_ok E d bs i"
    "i < num_ids T \<Longrightarrow> st i = Null \<Longrightarrow> d_blocks d ! i = 0 \<and> d_sizes d ! i = 0"
    "i < num_ids T \<Longrightarrow> j < num_ids T \<Longrightarrow> st i = Live \<Longrightarrow> st j = Live \<Longrightarrow> d_blocks d ! i = d_blocks d ! j \<Longrightarrow> i = j"
    "ranges_ok E T st d"
  using assms unfolding driver_inv_def by blast+

lemma driver_inv_block:
  assumes "driver_inv E T st d bs" "i < num_ids T" "st i = Live"
  obtains k where "(d_blocks d ! i, k) \<in> live (d_heap d) bs" "d_sizes d ! i + 8 \<le> k" "0 < d_sizes d ! i" "d_blocks d ! i \<noteq> 0"
    "payload_ok E (d_blocks d ! i) (d_bases d ! i) (d_sizes d ! i) (mem (d_heap d))"
proof -
  have "id_ok E d bs i" by (rule driver_invD(3)[OF assms])
  then obtain k where k: "(d_blocks d ! i, k) \<in> live (d_heap d) bs" "d_sizes d ! i + 8 \<le> k" "0 < d_sizes d ! i"
    "payload_ok E (d_blocks d ! i) (d_bases d ! i) (d_sizes d ! i) (mem (d_heap d))"
    unfolding id_ok_def by blast
  moreover have "d_blocks d ! i \<noteq> 0" using live_facts(3)[OF driver_invD(1)[OF assms(1)] k(1)] by simp
  ultimately show ?thesis using that by blast
qed

text \<open>A range of the list belongs to a live id.\<close>

lemma range_owner:
  assumes "driver_inv E T st d bs" "p \<in> set (d_ranges d)"
  obtains i where "i < num_ids T" "st i = Live" "p = id_range d i"
proof -
  have "set (d_ranges d) = (if tracked E T then id_range d ` {i. i < num_ids T \<and> st i = Live} else {})"
    using driver_invD(6)[OF assms(1)] unfolding ranges_ok_def by (rule conjunct2)
  then show ?thesis using assms(2) that by (auto split: if_splits)
qed

section \<open>Checks\<close>

lemma check_index_ok:
  assumes inv: "driver_inv E T st d bs" and i: "i < num_ids T" "st i \<noteq> Freed"
  shows "check_index E opnum (int i) d = Done d"
proof (rule check_index_silent)
  show "i < length (d_blocks d)" using driver_invD(2)[OF inv] i(1) by (simp add: arrays_ok_def)
  show "payload_ok E (d_blocks d ! i) (d_bases d ! i) (d_sizes d ! i) (mem (d_heap d))"
  proof (cases "st i")
    case Live
    then show ?thesis using driver_inv_block[OF inv i(1)] by blast
  qed (use driver_invD(4)[OF inv i(1)] i(2) in simp_all)
qed

lemma check_ranges_ok:
  assumes inv: "driver_inv E T st d bs"
  shows "set rs \<subseteq> set (d_ranges d) \<Longrightarrow> check_ranges E opnum rs d = Done d"
proof (induction rs)
  case (Cons r rs)
  then obtain i where "i < num_ids T" "st i = Live" "r = id_range d i"
    using range_owner[OF inv, of r] by auto
  then have "check_index E opnum (r_index r) d = Done d"
    using check_index_ok[OF inv, of i] by (simp add: id_range_def)
  with Cons show ?case by simp
qed simp

lemma expensive_checks_ok:
  assumes inv: "driver_inv E T st d bs"
  shows "expensive_checks E opnum d = Some (Done d)"
  using checkheap_silent[OF driver_invD(1)[OF inv]] check_ranges_ok[OF inv, of "d_ranges d"]
  by (simp add: expensive_checks_def)

section \<open>Operations of the allocator\<close>

text \<open>What the driver knows of the ids survives an operation that keeps the payloads of their blocks.\<close>

lemma keep_ids:
  assumes inv: "driver_inv E T st d bs"
    and h: "heap_inv h' bs'" "A \<subseteq> live h' bs'" "same_payload (mem (d_heap d)) (mem h') A"
    and live: "\<And>j k. j < num_ids T \<Longrightarrow> st' j = Live \<Longrightarrow> st j = Live \<and> ((d_blocks d ! j, k) \<in> live (d_heap d) bs \<longrightarrow> (d_blocks d ! j, k) \<in> A)"
    and null: "\<And>j. j < num_ids T \<Longrightarrow> st' j = Null \<Longrightarrow> st j = Null"
    and rs: "ranges_ok E T st' (d\<lparr>d_ranges := rs\<rparr>)"
  shows "driver_inv E T st' (d\<lparr>d_heap := h', d_ranges := rs\<rparr>) bs'"
    (is "driver_inv E T st' ?d bs'")
proof -
  have "id_ok E ?d bs' j" if j: "j < num_ids T" "st' j = Live" for j
  proof -
    obtain k where k: "(d_blocks d ! j, k) \<in> live (d_heap d) bs" "d_sizes d ! j + 8 \<le> k" "0 < d_sizes d ! j"
      "payload_ok E (d_blocks d ! j) (d_bases d ! j) (d_sizes d ! j) (mem (d_heap d))"
      by (rule driver_inv_block[OF inv]) (use live[OF j] j(1) in auto)
    have in': "(d_blocks d ! j, k) \<in> A" using k(1) live[OF j] by blast
    have "payload_ok E (d_blocks d ! j) (d_bases d ! j) (d_sizes d ! j) (mem h')"
      by (rule payload_ok_moved[OF k(4)], rule same_payloadD[OF h(3) in']) (use k(2) in simp)
    then show ?thesis using k(2,3) in' h(2) unfolding id_ok_def by auto
  qed
  moreover have "ranges_ok E T st' ?d" using rs by (simp add: ranges_ok_def id_range_def)
  ultimately show ?thesis
    using driver_invD(2,4,5)[OF inv] h(1) live null unfolding driver_inv_def arrays_ok_def by auto
qed

text \<open>The block of an id is taken away, and its range with it.\<close>

lemma drop_id:
  assumes inv: "driver_inv E T st d bs" and i: "i < num_ids T" "st i \<noteq> Freed"
    and h: "heap_inv h' bs'" "live (d_heap d) bs - {(d_blocks d ! i, n)} \<subseteq> live h' bs'"
      "same_payload (mem (d_heap d)) (mem h') (live (d_heap d) bs - {(d_blocks d ! i, n)})"
  shows "driver_inv E T (st(i := Freed)) (d\<lparr>d_heap := h', d_ranges := remove_range (d_blocks d ! i) (d_ranges d)\<rparr>) bs'"
    and "\<forall>j<num_ids T. (st(i := Freed)) j = Live \<longrightarrow> d_blocks d ! j \<noteq> d_blocks d ! i"
proof -
  let ?st = "st(i := Freed)"
  have other: "d_blocks d ! j \<noteq> d_blocks d ! i" if j: "j < num_ids T" "st j = Live" "j \<noteq> i" for j
  proof (cases "st i")
    case Live
    then show ?thesis using driver_invD(5)[OF inv i(1) j(1) _ j(2)] j(3) by auto
  next
    case Null
    then show ?thesis using driver_invD(4)[OF inv i(1)] driver_inv_block[OF inv j(1,2)] by metis
  qed (use i(2) in simp)
  then show "\<forall>j<num_ids T. ?st j = Live \<longrightarrow> d_blocks d ! j \<noteq> d_blocks d ! i" by auto
  have D: "distinct (map lo (d_ranges d))"
    and S: "set (d_ranges d) = (if tracked E T then id_range d ` {i. i < num_ids T \<and> st i = Live} else {})"
    using driver_invD(6)[OF inv] unfolding ranges_ok_def by blast+
  have eq: "{p \<in> id_range d ` {j. j < num_ids T \<and> st j = Live}. lo p \<noteq> d_blocks d ! i} =
      id_range d ` {j. j < num_ids T \<and> ?st j = Live}"
    using other by (auto simp: id_range_def)
  have "id_range (d\<lparr>d_ranges := rs\<rparr>) = id_range d" for rs by (rule ext) (simp add: id_range_def)
  then have rs: "ranges_ok E T ?st (d\<lparr>d_ranges := remove_range (d_blocks d ! i) (d_ranges d)\<rparr>)"
    using D S eq by (simp add: ranges_ok_def remove_range_distinct remove_range_set)
  show "driver_inv E T ?st (d\<lparr>d_heap := h', d_ranges := remove_range (d_blocks d ! i) (d_ranges d)\<rparr>) bs'"
    by (rule keep_ids[OF inv h _ _ rs]) (use other in \<open>auto split: if_splits\<close>)
qed

section \<open>Recording a new block\<close>

text \<open>The state after \<open>add_range\<close> and the assignments to \<open>blocks\<close> and \<open>block_sizes\<close>.\<close>

definition with_range :: "driver_env \<Rightarrow> trace \<Rightarrow> nat \<Rightarrow> nat \<Rightarrow> nat \<Rightarrow> driver \<Rightarrow> driver" where
  "with_range E T i q sz d =
     (if tracked E T then d\<lparr>d_ranges := \<lparr>lo = q, hi = q + sz - 1, r_index = int i\<rparr> # d_ranges d\<rparr> else d)"

lemma with_range_simps [simp]:
  "d_heap (with_range E T i q sz d) = d_heap d" "d_blocks (with_range E T i q sz d) = d_blocks d"
  "d_sizes (with_range E T i q sz d) = d_sizes d" "d_bases (with_range E T i q sz d) = d_bases d"
  "d_draws (with_range E T i q sz d) = d_draws d" "d_errors (with_range E T i q sz d) = d_errors d" "d_checks (with_range E T i q sz d) = d_checks d"
  by (simp_all add: with_range_def)

lemma add_range_ok:
  assumes inv: "driver_inv E T st d bs" and q: "(q, k) \<in> live (d_heap d) bs" "sz + 8 \<le> k"
    and sz: "0 < sz" "sz \<le> 2 ^ 31 - 24" and fresh: "\<forall>j<num_ids T. st j = Live \<longrightarrow> d_blocks d ! j \<noteq> q"
  shows "add_range E T opnum (int i) q (int_of_size sz) d = Done (with_range E T i q sz d, True)"
proof -
  note H = driver_invD(1)[OF inv]
  note L = live_facts[OF H q(1)]
  have int: "int_of_size sz = int sz" using sz(2) by (simp add: int_of_size_small)
  have h: "nat (int q + int sz - 1) = q + sz - 1" using sz(1) by simp
  have lo: "mem_heap (d_heap d) \<le> q" using H L(3) by (simp add: heap_inv_def)
  have hi: "\<not> mem_brk (d_heap d) - 1 < q + sz - 1" "\<not> mem_brk (d_heap d) - 1 < q" "\<not> q + sz - 1 < mem_heap (d_heap d)"
    using L(4) q(2) sz(1) lo by simp_all
  have "find_overlap q (q + sz - 1) (d_ranges d) = None"
  proof (rule find_overlap_none)
    fix p assume "p \<in> set (d_ranges d)"
    then obtain j where j: "j < num_ids T" "st j = Live" "p = id_range d j" by (rule range_owner[OF inv])
    obtain l where l: "(d_blocks d ! j, l) \<in> live (d_heap d) bs" "d_sizes d ! j + 8 \<le> l" "0 < d_sizes d ! j"
      by (rule driver_inv_block[OF inv j(1,2)])
    have "d_blocks d ! j \<noteq> q" using fresh j by blast
    then have "d_blocks d ! j + l \<le> q \<or> q + k \<le> d_blocks d ! j" using live_disjoint[OF l(1) q(1)] by blast
    then show "lo p \<le> hi p \<and> (hi p < q \<or> q + sz - 1 < lo p)" using l(2,3) q(2) sz(1) j(3) by (auto simp: id_range_def)
  qed (use sz(1) in simp)
  moreover have "q mod ALIGNMENT = 0" using L(2) by (simp add: ALIGNMENT_def)
  ultimately show ?thesis
    using lo hi sz(1) by (simp add: add_range_def int h mem_heap_lo_def mem_heap_hi_def with_range_def tracked_def Let_def)
qed

lemma randomize_block_done:
  assumes "i < length (d_blocks d)"
  shows "randomize_block E (int i) d = Done (if debug E = DBG_NONE then d
    else set_mem (fill_random E (d_blocks d ! i) (random E (d_draws d)) (d_sizes d ! i) (mem (d_heap d)))
      (d\<lparr>d_bases := (d_bases d)[i := random E (d_draws d)], d_draws := d_draws d + 1\<rparr>))"
  using assms by (simp add: randomize_block_def in_range_def Let_def)

lemma randomize_ok:
  assumes inv: "driver_inv E T st d bs" and i: "i < num_ids T" "st i \<noteq> Live"
    and q: "(q, k) \<in> live (d_heap d) bs" "sz + 8 \<le> k" "0 < sz"
    and fresh: "\<forall>j<num_ids T. st j = Live \<longrightarrow> d_blocks d ! j \<noteq> q"
  shows "\<exists>d'. randomize_block E (int i) ((with_range E T i q sz d)\<lparr>d_blocks := (d_blocks d)[i := q], d_sizes := (d_sizes d)[i := sz]\<rparr>) = Done d' \<and>
    driver_inv E T (st(i := Live)) d' bs \<and> d_errors d' = d_errors d \<and> d_checks d' = d_checks d \<and>
    same_arena (d_heap d) (d_heap d') \<and> mem_brk (d_heap d') = mem_brk (d_heap d)"
proof -
  let ?d = "(with_range E T i q sz d)\<lparr>d_blocks := (d_blocks d)[i := q], d_sizes := (d_sizes d)[i := sz]\<rparr>"
  let ?st = "st(i := Live)"
  define m' where "m' = (if debug E = DBG_NONE then mem (d_heap d) else fill_random E q (random E (d_draws d)) sz (mem (d_heap d)))"
  define bases' where "bases' = (if debug E = DBG_NONE then d_bases d else (d_bases d)[i := random E (d_draws d)])"
  note H = driver_invD(1)[OF inv]
  have A: "length (d_blocks d) = num_ids T" "length (d_sizes d) = num_ids T" "length (d_bases d) = num_ids T"
    using driver_invD(2)[OF inv] by (simp_all add: arrays_ok_def)
  define d' where "d' = (if debug E = DBG_NONE then ?d else set_mem (fill_random E q (random E (d_draws d)) sz (mem (d_heap d)))
    (?d\<lparr>d_bases := (d_bases d)[i := random E (d_draws d)], d_draws := d_draws d + 1\<rparr>))"
  have r: "randomize_block E (int i) ?d = Done d'"
    using randomize_block_done[of i ?d E] i(1) A by (simp add: d'_def)
  have d': "d_heap d' = (d_heap d)\<lparr>mem := m'\<rparr>"
      "d_blocks d' = (d_blocks d)[i := q]" "d_sizes d' = (d_sizes d)[i := sz]" "d_bases d' = bases'"
      "d_ranges d' = d_ranges (with_range E T i q sz d)" "d_errors d' = d_errors d" "d_checks d' = d_checks d"
    by (simp_all add: d'_def m'_def bases'_def set_mem_def)
  have out: "agree_outside q (q + k - 8) (mem (d_heap d)) m'"
    using fill_random_outside[of sz "k - 8" q] q(2) by (simp add: m'_def)
  have H': "heap_inv (d_heap d') bs" and keep: "same_payload (mem (d_heap d)) m' (live (d_heap d) bs - {(q, k)})"
    using payload_write[OF H q(1) out] by (simp_all add: d')
  have lv: "live (d_heap d') bs = live (d_heap d) bs" by (simp add: d')
  have here: "id_ok E d' bs i"
    using q payload_ok_fill[of E q _ sz] A i(1) by (auto simp: id_ok_def d' lv m'_def bases'_def payload_ok_def)
  have there: "id_ok E d' bs j \<and> d_blocks d' ! j = d_blocks d ! j \<and> d_sizes d' ! j = d_sizes d ! j \<and> d_blocks d ! j \<noteq> q"
    if j: "j < num_ids T" "st j = Live" "j \<noteq> i" for j
  proof -
    obtain l where l: "(d_blocks d ! j, l) \<in> live (d_heap d) bs" "d_sizes d ! j + 8 \<le> l" "0 < d_sizes d ! j"
      "payload_ok E (d_blocks d ! j) (d_bases d ! j) (d_sizes d ! j) (mem (d_heap d))"
      by (rule driver_inv_block[OF inv j(1,2)])
    have neq: "d_blocks d ! j \<noteq> q" using fresh j by blast
    then have in': "(d_blocks d ! j, l) \<in> live (d_heap d) bs - {(q, k)}" using l(1) by simp
    have "payload_ok E (d_blocks d ! j) (d_bases d ! j) (d_sizes d ! j) m'"
      by (rule payload_ok_moved[OF l(4)], rule same_payloadD[OF keep in']) (use l(2) in simp)
    moreover have "bases' ! j = d_bases d ! j" using j(3) by (simp add: bases'_def)
    ultimately show ?thesis using l(1-3) j(3) neq by (auto simp: id_ok_def d' lv)
  qed
  have "ranges_ok E T ?st d'"
  proof -
    have D: "distinct (map lo (d_ranges d))"
      and S: "set (d_ranges d) = (if tracked E T then id_range d ` {j. j < num_ids T \<and> st j = Live} else {})"
      using driver_invD(6)[OF inv] unfolding ranges_ok_def by blast+
    have "id_range d' i = \<lparr>lo = q, hi = q + sz - 1, r_index = int i\<rparr>" using i(1) A by (simp add: id_range_def d')
    moreover have "id_range d' ` {j. j < num_ids T \<and> st j = Live} = id_range d ` {j. j < num_ids T \<and> st j = Live}"
    proof (rule image_cong[OF refl], clarsimp)
      fix j assume j: "j < num_ids T" "st j = Live"
      then have "j \<noteq> i" using i(2) by blast
      then show "id_range d' j = id_range d j" using there[OF j] by (simp add: id_range_def)
    qed
    moreover have "{j. j < num_ids T \<and> ?st j = Live} = insert i {j. j < num_ids T \<and> st j = Live}" using i(1) by auto
    moreover have "\<forall>p\<in>set (d_ranges d). lo p \<noteq> q" using fresh S by (auto simp: id_range_def split: if_splits)
    ultimately show ?thesis using D S by (auto simp: ranges_ok_def d' with_range_def)
  qed
  moreover have "d_blocks d' ! i = q" using i(1) A by (simp add: d')
  ultimately have "driver_inv E T ?st d' bs"
    using H' here there driver_invD(4,5)[OF inv] A d'
    unfolding driver_inv_def arrays_ok_def bases'_def by auto
  then show ?thesis using r d' by (auto simp: same_arena_def)
qed

section \<open>One operation of the trace\<close>

text \<open>
  An operation goes on with what it promises of the state, for at most \<open>cost\<close> bytes of heap, or
  stops the run with one complaint because the heap is too small for it.
\<close>

definition step_fine :: "driver_env \<Rightarrow> trace \<Rightarrow> nat \<Rightarrow> (nat \<Rightarrow> id_state) \<Rightarrow> nat \<Rightarrow> driver \<Rightarrow> (driver \<times> bool) outcome option \<Rightarrow> bool" where
  "step_fine E T opnum st' cost d r \<longleftrightarrow>
     (\<exists>d' ok. r = Some (Done (d', ok)) \<and> d_checks d' = d_checks d \<and>
       (if ok then d_errors d' = d_errors d \<and> (\<exists>bs'. driver_inv E T st' d' bs') \<and> same_arena (d_heap d) (d_heap d') \<and>
            mem_brk (d_heap d') \<le> mem_brk (d_heap d) + cost
        else (\<exists>c\<in>{MallocFailed, ReallocFailed}. d_errors d' = d_errors d @ [(opnum, c)]) \<and>
            mem_max_addr (d_heap d) < mem_brk (d_heap d) + cost))"

lemma step_stop:
  assumes "r = Some (Done (malloc_error opnum c d', False))" "d_checks d' = d_checks d" "d_errors d' = d_errors d"
    "c \<in> {MallocFailed, ReallocFailed}" "mem_max_addr (d_heap d) < mem_brk (d_heap d) + cost"
  shows "step_fine E T opnum st' cost d r"
  unfolding step_fine_def
  by (rule exI[of _ "malloc_error opnum c d'"], rule exI[of _ False]) (use assms in \<open>auto simp: malloc_error_def\<close>)

lemma step_go:
  assumes "r = Some (Done (d', True))" "d_checks d' = d_checks d" "d_errors d' = d_errors d" "driver_inv E T st' d' bs'"
    "same_arena (d_heap d) (d_heap d')" "mem_brk (d_heap d') \<le> mem_brk (d_heap d) + cost"
  shows "step_fine E T opnum st' cost d r"
  unfolding step_fine_def by (rule exI[of _ d'], rule exI[of _ True]) (use assms in auto)

lemma valid_alloc_fine:
  assumes inv: "driver_inv E T st d bs" and i: "i < num_ids T" "st i \<noteq> Live" and sz: "0 < sz" "sz \<le> 2 ^ 31 - 24"
  shows "step_fine E T opnum (st(i := Live)) (growth sz) d (valid_alloc E T opnum (int i) sz d)"
proof -
  note H = driver_invD(1)[OF inv]
  have len: "length (d_blocks d) = num_ids T" using driver_invD(2)[OF inv] by (simp add: arrays_ok_def)
  obtain h' p where m: "mm_malloc sz (d_heap d) = Some (h', p)"
      "if no_room (d_heap d) bs sz then p = 0 \<and> h' = d_heap d else handed_out (d_heap d) bs sz h' p"
    using mm_malloc_blocks[OF H sz] by blast
  show ?thesis
  proof (cases "no_room (d_heap d) bs sz")
    case True
    then have "valid_alloc E T opnum (int i) sz d = Some (Done (malloc_error opnum MallocFailed d, False))"
      using m by (simp add: valid_alloc_def Let_def)
    then show ?thesis by (rule step_stop) (use no_room_growth[OF sz True] in simp_all)
  next
    case False
    with m obtain bs' k where k: "heap_inv h' bs'" "p \<noteq> 0" "sz + 8 \<le> k" "\<forall>k. (p, k) \<notin> live (d_heap d) bs"
        "live h' bs' = insert (p, k) (live (d_heap d) bs)" "same_payload (mem (d_heap d)) (mem h') (live (d_heap d) bs)"
      unfolding handed_out_def by auto
    let ?d = "d\<lparr>d_heap := h', d_ranges := d_ranges d\<rparr>"
    have inv': "driver_inv E T st ?d bs'"
      by (rule keep_ids[OF inv k(1) _ k(6)]) (use k(5) driver_invD(6)[OF inv] in auto)
    have fresh: "\<forall>j<num_ids T. st j = Live \<longrightarrow> d_blocks d ! j \<noteq> p"
      using k(4) driver_inv_block[OF inv] by metis
    have q: "(p, k) \<in> live (d_heap ?d) bs'" using k(5) by simp
    have add: "add_range E T opnum (int i) p (int_of_size sz) ?d = Done (with_range E T i p sz ?d, True)"
      by (rule add_range_ok[OF inv' q k(3) sz]) (use fresh in simp)
    obtain d' where d': "randomize_block E (int i) ((with_range E T i p sz ?d)\<lparr>d_blocks := (d_blocks ?d)[i := p], d_sizes := (d_sizes ?d)[i := sz]\<rparr>) = Done d'"
        "driver_inv E T (st(i := Live)) d' bs'" "d_errors d' = d_errors ?d" "d_checks d' = d_checks ?d"
        "same_arena (d_heap ?d) (d_heap d')" "mem_brk (d_heap d') = mem_brk (d_heap ?d)"
      using randomize_ok[OF inv' i q k(3) sz(1)] fresh by auto
    have "valid_alloc E T opnum (int i) sz d = Some (Done (d', True))"
      using m(1) k(2) add d'(1) i(1) len by (simp add: valid_alloc_def Let_def in_range_def)
    then show ?thesis
      by (rule step_go) (use d' mm_malloc_growth[OF H sz m(1)] in \<open>auto simp: same_arena_def\<close>)
  qed
qed

text \<open>What \<open>mm_realloc\<close> does for an id that has a block or none.\<close>

lemma realloc_view:
  assumes inv: "driver_inv E T st d bs" and i: "i < num_ids T" "st i \<noteq> Freed" and sz: "sz \<le> 2 ^ 31 - 24"
  shows "\<exists>h' q n. mm_realloc (d_blocks d ! i) sz (d_heap d) = Some (h', q) \<and>
    (q = 0 \<and> sz \<noteq> 0 \<and> h' = d_heap d \<and> no_room (d_heap d) bs sz \<or>
     (\<exists>bs'. heap_inv h' bs' \<and> same_payload (mem (d_heap d)) (mem h') (live (d_heap d) bs - {(d_blocks d ! i, n)}) \<and>
        (q = 0 \<and> sz = 0 \<and> live h' bs' = live (d_heap d) bs - {(d_blocks d ! i, n)} \<or>
         q \<noteq> 0 \<and> 0 < sz \<and> (\<exists>k. sz + 8 \<le> k \<and> (\<forall>k. (q, k) \<notin> live (d_heap d) bs) \<and>
            live h' bs' = insert (q, k) (live (d_heap d) bs - {(d_blocks d ! i, n)}) \<and>
            (\<forall>j<min sz (d_sizes d ! i). mem h' (q + j) = mem (d_heap d) (d_blocks d ! i + j))))))"
proof -
  let ?p = "d_blocks d ! i"
  note H = driver_invD(1)[OF inv]
  show ?thesis
  proof (cases "st i")
    case Live
    obtain n where n: "(?p, n) \<in> live (d_heap d) bs" "d_sizes d ! i + 8 \<le> n" "?p \<noteq> 0"
      by (rule driver_inv_block[OF inv i(1) Live])
    show ?thesis
    proof (cases "sz = 0")
      case True
      then have "mm_realloc ?p sz (d_heap d) = Some (mm_free ?p (d_heap d), 0)" by (simp add: mm_realloc_def)
      with mm_free_live[OF H n(1)] True show ?thesis by blast
    next
      case False
      then have "0 < sz" by simp
      from mm_realloc_blocks[OF H n(1) this sz] obtain h' q where
        r: "mm_realloc ?p sz (d_heap d) = Some (h', q)" "if no_room (d_heap d) bs sz then q = 0 \<and> h' = d_heap d else moved (d_heap d) bs ?p n sz h' q"
        by blast
      show ?thesis
      proof (cases "no_room (d_heap d) bs sz")
        case True
        with r False show ?thesis by auto
      next
        case nr: False
        with r(2) obtain bs' k where "heap_inv h' bs'" "q \<noteq> 0" "sz + 8 \<le> k" "\<forall>k. (q, k) \<notin> live (d_heap d) bs"
          "live h' bs' = insert (q, k) (live (d_heap d) bs - {(?p, n)})" "\<forall>j<min sz (n - 8). mem h' (q + j) = mem (d_heap d) (?p + j)"
          "same_payload (mem (d_heap d)) (mem h') (live (d_heap d) bs - {(?p, n)})"
          unfolding moved_def by auto
        moreover have "\<forall>j<min sz (d_sizes d ! i). j < min sz (n - 8)" using n(2) by auto
        ultimately show ?thesis using r(1) \<open>0 < sz\<close> by blast
      qed
    qed
  next
    case Null
    have p: "?p = 0" "d_sizes d ! i = 0" using driver_invD(4)[OF inv i(1) Null] by simp_all
    have none: "(0, n) \<notin> live (d_heap d) bs" for n using live_facts(3)[OF H] by fastforce
    then have rest: "live (d_heap d) bs - {(0, 0)} = live (d_heap d) bs" by blast
    show ?thesis
    proof (cases "sz = 0")
      case True
      then have "mm_realloc ?p sz (d_heap d) = Some (d_heap d, 0)" by (simp add: mm_realloc_def mm_free_def p)
      with H True rest p(1) show ?thesis by (auto intro!: exI[of _ "0 :: nat"])
    next
      case False
      then have sz': "0 < sz" by simp
      obtain h' q where r: "mm_malloc sz (d_heap d) = Some (h', q)"
        "if no_room (d_heap d) bs sz then q = 0 \<and> h' = d_heap d else handed_out (d_heap d) bs sz h' q"
        using mm_malloc_blocks[OF H sz' sz] by blast
      have e: "mm_realloc ?p sz (d_heap d) = Some (h', q)" using r(1) False by (simp add: mm_realloc_def p)
      show ?thesis
      proof (cases "no_room (d_heap d) bs sz")
        case True
        with r(2) e False show ?thesis by auto
      next
        case nr: False
        with r(2) obtain bs' k where "heap_inv h' bs'" "q \<noteq> 0" "sz + 8 \<le> k" "\<forall>k. (q, k) \<notin> live (d_heap d) bs"
          "live h' bs' = insert (q, k) (live (d_heap d) bs - {(?p, 0)})" "same_payload (mem (d_heap d)) (mem h') (live (d_heap d) bs - {(?p, 0)})"
          unfolding handed_out_def p(1) rest by auto
        with e sz' show ?thesis unfolding p(2) by (intro exI[of _ h'] exI[of _ q] exI[of _ 0]) auto
      qed
    qed
  qed (use i(2) in simp)
qed

lemma realloc_arena:
  assumes "heap_inv h bs" "sz \<le> 2 ^ 31 - 24" "mm_realloc p sz h = Some (h', q)"
  shows "same_arena h h' \<and> mem_brk h' \<le> mem_brk h + (if sz = 0 then 0 else growth sz)"
proof (cases "sz = 0")
  case True
  then have "h' = mm_free p h" using assms(3) by (simp add: mm_realloc_def)
  then show ?thesis using mm_free_arena heap_invD(9)[OF assms(1)] True by simp
qed (use mm_realloc_growth[OF assms(1) _ assms(2,3)] in simp)

lemma randomize_null:
  assumes "driver_inv E T st d bs" "i < num_ids T" "st i = Null"
  shows "\<exists>d'. randomize_block E (int i) d = Done d' \<and> driver_inv E T st d' bs \<and>
    d_heap d' = d_heap d \<and> d_errors d' = d_errors d \<and> d_checks d' = d_checks d"
proof -
  note A = driver_invD(2)[OF assms(1), unfolded arrays_ok_def]
  have z: "d_sizes d ! i = 0" using driver_invD(4)[OF assms] by blast
  let ?d = "d\<lparr>d_bases := (d_bases d)[i := random E (d_draws d)], d_draws := d_draws d + 1\<rparr>"
  have e: "randomize_block E (int i) d = Done (if debug E = DBG_NONE then d else ?d)"
    using randomize_block_done[of i d E] assms(2) A by (simp add: z fill_random_def set_mem_def)
  have "id_ok E ?d bs j = id_ok E d bs j" if "st j = Live" for j
    using that assms(3) by (cases "j = i") (auto simp: id_ok_def)
  moreover have "id_range ?d = id_range d" by (rule ext) (simp add: id_range_def)
  ultimately have "driver_inv E T st ?d bs"
    using assms(1) unfolding driver_inv_def arrays_ok_def ranges_ok_def by auto
  then show ?thesis using e assms(1) by (cases "debug E = DBG_NONE") auto
qed

lemma id_payload:
  assumes inv: "driver_inv E T st d bs" and i: "i < num_ids T" "st i \<noteq> Freed"
  shows "payload_ok E (d_blocks d ! i) (d_bases d ! i) (d_sizes d ! i) (mem (d_heap d))"
proof (cases "st i")
  case Live
  then show ?thesis using driver_inv_block[OF inv i(1)] by blast
qed (use driver_invD(4)[OF inv i(1)] i(2) in simp_all)

lemma set_null:
  assumes inv: "driver_inv E T (st(i := Freed)) d bs" and i: "i < num_ids T"
  shows "driver_inv E T (st(i := Null)) (d\<lparr>d_blocks := (d_blocks d)[i := 0], d_sizes := (d_sizes d)[i := 0]\<rparr>) bs"
    (is "driver_inv E T ?st ?d bs")
proof -
  note D = driver_invD[OF inv]
  have A: "length (d_blocks d) = num_ids T" "length (d_sizes d) = num_ids T" "length (d_bases d) = num_ids T"
    using D(2) by (simp_all add: arrays_ok_def)
  have "id_ok E ?d bs j" if "j < num_ids T" "?st j = Live" for j
    using D(3)[of j] that by (auto simp: id_ok_def split: if_splits)
  moreover have "ranges_ok E T ?st ?d"
  proof -
    have "{j. j < num_ids T \<and> (st(i := Freed)) j = Live} = {j. j < num_ids T \<and> ?st j = Live}" by auto
    moreover have "id_range ?d ` {j. j < num_ids T \<and> ?st j = Live} = id_range d ` {j. j < num_ids T \<and> ?st j = Live}"
      by (rule image_cong) (auto simp: id_range_def split: if_splits)
    ultimately show ?thesis using D(6) by (simp add: ranges_ok_def)
  qed
  moreover have "d_blocks ?d ! j = 0 \<and> d_sizes ?d ! j = 0" if "j < num_ids T" "?st j = Null" for j
    using D(4)[of j] that A by (cases "j = i") auto
  moreover have "j = k" if "j < num_ids T" "k < num_ids T" "?st j = Live" "?st k = Live" "d_blocks ?d ! j = d_blocks ?d ! k" for j k
    using D(5)[of j k] that by (cases "j = i"; cases "k = i") simp_all
  ultimately show ?thesis
    using D(1) A unfolding driver_inv_def arrays_ok_def by simp
qed

lemma lower_size_simps [simp]:
  "d_heap (lower_size i sz d) = d_heap d" "d_blocks (lower_size i sz d) = d_blocks d" "d_bases (lower_size i sz d) = d_bases d"
  "(lower_size i sz d)\<lparr>d_sizes := (d_sizes (lower_size i sz d))[i := n]\<rparr> = d\<lparr>d_sizes := (d_sizes d)[i := n]\<rparr>"
  by (simp_all add: lower_size_def)

lemma lower_size_size: "i < length (d_sizes d) \<Longrightarrow> d_sizes (lower_size i sz d) ! i = min sz (d_sizes d ! i)"
  by (simp add: lower_size_def)

lemma valid_realloc_steps:
  assumes "check_index E opnum (int i) d = Done d" and "in_range (d_blocks d) (int i)"
    and "mm_realloc (d_blocks d ! i) sz (d_heap d) = Some (h', q)" and "q = 0 \<longleftrightarrow> sz = 0"
    and "(if sz > 0 then add_range E T opnum (int i) q (int_of_size sz) (d\<lparr>d_heap := h', d_ranges := remove_range (d_blocks d ! i) (d_ranges d)\<rparr>)
      else Done (d\<lparr>d_heap := h', d_ranges := remove_range (d_blocks d ! i) (d_ranges d)\<rparr>, True)) = Done (d1, True)"
    and "check_index E opnum (int i) (lower_size i sz (d1\<lparr>d_blocks := (d_blocks d1)[i := q]\<rparr>)) = Done (lower_size i sz (d1\<lparr>d_blocks := (d_blocks d1)[i := q]\<rparr>))"
    and "randomize_block E (int i) (d1\<lparr>d_blocks := (d_blocks d1)[i := q], d_sizes := (d_sizes d1)[i := sz]\<rparr>) = Done d'"
  shows "valid_realloc E T opnum (int i) sz d = Some (Done (d', True))"
  using assms by (cases "sz = 0") (simp_all add: valid_realloc_def Let_def)

lemma valid_realloc_fine:
  assumes inv: "driver_inv E T st d bs" and i: "i < num_ids T" "st i \<noteq> Freed" and sz: "sz \<le> 2 ^ 31 - 24"
  shows "step_fine E T opnum (st(i := if sz = 0 then Null else Live)) (if sz = 0 then 0 else growth sz) d (valid_realloc E T opnum (int i) sz d)"
proof -
  let ?p = "d_blocks d ! i"
  note H = driver_invD(1)[OF inv]
  have A: "length (d_blocks d) = num_ids T" "length (d_sizes d) = num_ids T" "length (d_bases d) = num_ids T"
    using driver_invD(2)[OF inv] by (simp_all add: arrays_ok_def)
  have chk: "check_index E opnum (int i) d = Done d" by (rule check_index_ok[OF inv i])
  have here: "in_range (d_blocks d) (int i)" using i(1) A by (simp add: in_range_def)
  obtain h' q n where r: "mm_realloc ?p sz (d_heap d) = Some (h', q)"
    and c: "q = 0 \<and> sz \<noteq> 0 \<and> h' = d_heap d \<and> no_room (d_heap d) bs sz \<or>
     (\<exists>bs'. heap_inv h' bs' \<and> same_payload (mem (d_heap d)) (mem h') (live (d_heap d) bs - {(?p, n)}) \<and>
        (q = 0 \<and> sz = 0 \<and> live h' bs' = live (d_heap d) bs - {(?p, n)} \<or>
         q \<noteq> 0 \<and> 0 < sz \<and> (\<exists>k. sz + 8 \<le> k \<and> (\<forall>k. (q, k) \<notin> live (d_heap d) bs) \<and>
            live h' bs' = insert (q, k) (live (d_heap d) bs - {(?p, n)}) \<and>
            (\<forall>j<min sz (d_sizes d ! i). mem h' (q + j) = mem (d_heap d) (?p + j)))))"
    using realloc_view[OF inv i sz] by blast
  note arena = realloc_arena[OF H sz r]
  let ?d = "d\<lparr>d_heap := h', d_ranges := remove_range ?p (d_ranges d)\<rparr>"
  from c consider (full) "q = 0" "sz \<noteq> 0" "h' = d_heap d" "no_room (d_heap d) bs sz"
    | (gone) bs' where "heap_inv h' bs'" "same_payload (mem (d_heap d)) (mem h') (live (d_heap d) bs - {(?p, n)})"
        "q = 0" "sz = 0" "live h' bs' = live (d_heap d) bs - {(?p, n)}"
    | (fresh) bs' k where "heap_inv h' bs'" "same_payload (mem (d_heap d)) (mem h') (live (d_heap d) bs - {(?p, n)})"
        "q \<noteq> 0" "0 < sz" "sz + 8 \<le> k" "\<forall>k. (q, k) \<notin> live (d_heap d) bs" "live h' bs' = insert (q, k) (live (d_heap d) bs - {(?p, n)})"
        "\<forall>j<min sz (d_sizes d ! i). mem h' (q + j) = mem (d_heap d) (?p + j)"
    by blast
  then show ?thesis
  proof cases
    case full
    then have "valid_realloc E T opnum (int i) sz d = Some (Done (malloc_error opnum ReallocFailed d, False))"
      using r chk here by (simp add: valid_realloc_def Let_def)
    then show ?thesis by (rule step_stop) (use full(2) no_room_growth[OF _ sz full(4)] in simp_all)
  next
    case gone
    have inv1: "driver_inv E T (st(i := Freed)) ?d bs'" by (rule drop_id(1)[OF inv i gone(1) _ gone(2)]) (simp add: gone(5))
    let ?d2 = "?d\<lparr>d_blocks := (d_blocks ?d)[i := 0], d_sizes := (d_sizes ?d)[i := 0]\<rparr>"
    have inv2: "driver_inv E T (st(i := Null)) ?d2 bs'" by (rule set_null[OF inv1 i(1)])
    obtain d' where d': "randomize_block E (int i) ?d2 = Done d'" "driver_inv E T (st(i := Null)) d' bs'"
        "d_heap d' = d_heap ?d2" "d_errors d' = d_errors ?d2" "d_checks d' = d_checks ?d2"
      using randomize_null[OF inv2 i(1)] by auto
    let ?d1 = "lower_size i sz (?d\<lparr>d_blocks := (d_blocks ?d)[i := q]\<rparr>)"
    have chk1: "check_index E opnum (int i) ?d1 = Done ?d1"
      by (rule check_index_silent) (use A i(1) gone(4) in \<open>simp_all add: lower_size_size\<close>)
    have "valid_realloc E T opnum (int i) sz d = Some (Done (d', True))"
      by (rule valid_realloc_steps[OF chk here r _ _ chk1]) (use d'(1) gone(3,4) in simp_all)
    then show ?thesis by (rule step_go) (use d' arena gone(4) in simp_all)
  next
    case fresh
    have sub: "live (d_heap d) bs - {(?p, n)} \<subseteq> live h' bs'" using fresh(7) by blast
    have inv1: "driver_inv E T (st(i := Freed)) ?d bs'" by (rule drop_id(1)[OF inv i fresh(1) sub fresh(2)])
    have qk: "(q, k) \<in> live (d_heap ?d) bs'" using fresh(7) by simp
    have new: "\<forall>j<num_ids T. (st(i := Freed)) j = Live \<longrightarrow> d_blocks ?d ! j \<noteq> q"
      using fresh(6) driver_inv_block[OF inv] by (auto split: if_splits)
    have add: "add_range E T opnum (int i) q (int_of_size sz) ?d = Done (with_range E T i q sz ?d, True)"
      by (rule add_range_ok[OF inv1 qk fresh(5,4) sz new])
    let ?d2 = "(with_range E T i q sz ?d)\<lparr>d_blocks := (d_blocks ?d)[i := q], d_sizes := (d_sizes ?d)[i := sz]\<rparr>"
    obtain d' where d': "randomize_block E (int i) ?d2 = Done d'" "driver_inv E T (st(i := Live)) d' bs'"
        "d_errors d' = d_errors ?d" "d_checks d' = d_checks ?d" "same_arena (d_heap ?d) (d_heap d')" "mem_brk (d_heap d') = mem_brk (d_heap ?d)"
      using randomize_ok[OF inv1 i(1) _ qk fresh(5,4) new, unfolded fun_upd_upd] by auto
    let ?d1 = "lower_size i sz ((with_range E T i q sz ?d)\<lparr>d_blocks := (d_blocks (with_range E T i q sz ?d))[i := q]\<rparr>)"
    have "payload_ok E q (d_bases d ! i) (min sz (d_sizes d ! i)) (mem h')"
      by (rule payload_ok_moved[OF payload_ok_le[OF id_payload[OF inv i]]]) (use fresh(8) in auto)
    then have chk1: "check_index E opnum (int i) ?d1 = Done ?d1"
      by (intro check_index_silent) (use A i(1) in \<open>simp_all add: lower_size_size\<close>)
    have "valid_realloc E T opnum (int i) sz d = Some (Done (d', True))"
      by (rule valid_realloc_steps[OF chk here r _ _ chk1]) (use add d'(1) fresh(3,4) in simp_all)
    then show ?thesis by (rule step_go) (use d' arena fresh(4) in \<open>auto simp: same_arena_def\<close>)
  qed
qed

lemma valid_free_fine:
  assumes inv: "driver_inv E T st d bs" and i: "index = -1 \<or> (\<exists>i. index = int i \<and> i < num_ids T \<and> st i \<noteq> Freed)"
  shows "step_fine E T opnum (if index < 0 then st else st(nat index := Freed)) 0 d (valid_free E opnum index d)"
proof -
  note H = driver_invD(1)[OF inv]
  show ?thesis
  proof (cases "index = -1")
    case True
    have "valid_free E opnum index d = Some (Done (d, True))" using True by (simp add: valid_free_def check_index_def mm_free_def)
    then show ?thesis by (rule step_go) (use True inv in \<open>simp_all add: same_arena_def\<close>)
  next
    case False
    then obtain i where i: "index = int i" "i < num_ids T" "st i \<noteq> Freed" using i by blast
    let ?p = "d_blocks d ! i" and ?h = "mm_free (d_blocks d ! i) (d_heap d)"
    let ?d = "d\<lparr>d_heap := ?h, d_ranges := remove_range ?p (d_ranges d)\<rparr>"
    have "\<exists>n bs'. heap_inv ?h bs' \<and> live (d_heap d) bs - {(?p, n)} \<subseteq> live ?h bs' \<and>
        same_payload (mem (d_heap d)) (mem ?h) (live (d_heap d) bs - {(?p, n)})"
    proof (cases "st i")
      case Live
      obtain n where "(?p, n) \<in> live (d_heap d) bs" by (rule driver_inv_block[OF inv i(2) Live])
      then show ?thesis using mm_free_live[OF H] by blast
    next
      case Null
      then have "?h = d_heap d" using driver_invD(4)[OF inv i(2)] by (simp add: mm_free_def)
      then show ?thesis using H by auto
    qed (use i(3) in simp)
    then obtain n bs' where "heap_inv ?h bs'" "live (d_heap d) bs - {(?p, n)} \<subseteq> live ?h bs'"
        "same_payload (mem (d_heap d)) (mem ?h) (live (d_heap d) bs - {(?p, n)})" by blast
    then have inv': "driver_inv E T (st(i := Freed)) ?d bs'" by (rule drop_id(1)[OF inv i(2,3)])
    have run: "valid_free E opnum index d = Some (Done (?d, True))"
      using check_index_ok[OF inv i(2,3)] driver_invD(2)[OF inv] i(1,2) by (simp add: valid_free_def in_range_def arrays_ok_def Let_def)
    have "step_fine E T opnum (st(i := Freed)) 0 d (valid_free E opnum index d)"
      by (rule step_go[OF run _ _ inv']) (use mm_free_arena[OF heap_invD(9)[OF H], of ?p] in simp_all)
    then show ?thesis using i(1) by simp
  qed
qed

lemma valid_op_fine:
  assumes inv: "driver_inv E T st d bs" and "legal_op (num_ids T) st r"
  shows "step_fine E T opnum (next_ids r st) (demand [r]) d (valid_op E T opnum r d)"
proof -
  have e: "valid_op E T opnum r d = (case op_type r of
         ALLOC \<Rightarrow> valid_alloc E T opnum (op_index r) (op_size r) d
       | REALLOC \<Rightarrow> valid_realloc E T opnum (op_index r) (op_size r) d
       | FREE_OP \<Rightarrow> valid_free E opnum (op_index r) d)"
    using expensive_checks_ok[OF inv] by (simp add: valid_op_def)
  have i: "int (nat (op_index r)) = op_index r" if "0 \<le> op_index r" using that by simp
  show ?thesis
  proof (cases "op_type r")
    case ALLOC
    then show ?thesis
      using valid_alloc_fine[OF inv, of "nat (op_index r)" "op_size r" opnum] assms(2) by (auto simp: e legal_op_def Let_def nat_less_iff)
  next
    case REALLOC
    then show ?thesis
      using valid_realloc_fine[OF inv, of "nat (op_index r)" "op_size r" opnum] assms(2) by (auto simp: e legal_op_def Let_def nat_less_iff)
  next
    case FREE_OP
    have "op_index r = -1 \<or> (\<exists>i. op_index r = int i \<and> i < num_ids T \<and> st i \<noteq> Freed)"
      using assms(2) FREE_OP by (auto simp: legal_op_def Let_def intro!: exI[of _ "nat (op_index r)"])
    from valid_free_fine[OF inv this, of opnum] FREE_OP show ?thesis by (simp add: e)
  qed
qed

section \<open>The run\<close>

lemma valid_ops_fine:
  assumes "driver_inv E T st d bs" and "legal (num_ids T) st rs"
  shows "\<exists>d' res. valid_ops E T opnum rs d = Some (Done (d', res)) \<and> d_checks d' = d_checks d \<and>
    (res = 1 \<and> d_errors d' = d_errors d \<or>
     res = 0 \<and> (\<exists>k c. c \<in> {MallocFailed, ReallocFailed} \<and> d_errors d' = d_errors d @ [(k, c)]) \<and>
       mem_max_addr (d_heap d) < mem_brk (d_heap d) + demand rs)"
  using assms
proof (induction rs arbitrary: st d bs opnum)
  case (Cons r rs)
  have "step_fine E T opnum (next_ids r st) (demand [r]) d (valid_op E T opnum r d)"
    by (rule valid_op_fine[OF Cons.prems(1)]) (use Cons.prems(2) in simp)
  then obtain d1 ok where s: "valid_op E T opnum r d = Some (Done (d1, ok))" "d_checks d1 = d_checks d"
      "if ok then d_errors d1 = d_errors d \<and> (\<exists>bs'. driver_inv E T (next_ids r st) d1 bs') \<and> same_arena (d_heap d) (d_heap d1) \<and>
            mem_brk (d_heap d1) \<le> mem_brk (d_heap d) + demand [r]
        else (\<exists>c\<in>{MallocFailed, ReallocFailed}. d_errors d1 = d_errors d @ [(opnum, c)]) \<and>
            mem_max_addr (d_heap d) < mem_brk (d_heap d) + demand [r]"
    unfolding step_fine_def by blast
  have sum: "demand (r # rs) = demand [r] + demand rs" by simp
  show ?case
  proof (cases ok)
    case False
    then show ?thesis using s sum by auto
  next
    case True
    then obtain bs' where s': "driver_inv E T (next_ids r st) d1 bs'" "d_errors d1 = d_errors d" "same_arena (d_heap d) (d_heap d1)"
        "mem_brk (d_heap d1) \<le> mem_brk (d_heap d) + demand [r]" using s(3) by auto
    from Cons.IH[OF s'(1), of "opnum + 1"] Cons.prems(2) obtain d' res where
      "valid_ops E T (opnum + 1) rs d1 = Some (Done (d', res))" "d_checks d' = d_checks d1"
      "res = 1 \<and> d_errors d' = d_errors d1 \<or>
       res = 0 \<and> (\<exists>k c. c \<in> {MallocFailed, ReallocFailed} \<and> d_errors d' = d_errors d1 @ [(k, c)]) \<and>
         mem_max_addr (d_heap d1) < mem_brk (d_heap d1) + demand rs"
      by auto
    moreover have "mem_max_addr (d_heap d1) = mem_max_addr (d_heap d)" using s'(3) by (simp add: same_arena_def)
    ultimately show ?thesis using s(1,2) True s'(2,4) unfolding sum by auto
  qed
qed simp

text \<open>
  C5: the correctness run of the driver over the textbook allocator. On every trace that
  allocates, reallocates and frees its ids in a legal order, in every debug mode, the run ends;
  no payload is misplaced, overlaps another or is garbled and the heap checker is silent. The
  result is 1 unless the trace demands more than the arena, when a failed request may end it.
\<close>

theorem eval_mm_valid_accepts:
  assumes "mem_ok (d_heap d)" and "8 dvd mem_heap (d_heap d)" and "length (d_bases d) = num_ids T"
    and "legal (num_ids T) (\<lambda>i. Null) (ops T)"
  shows "\<exists>d' res. eval_mm_valid E T d = Some (Done (d', res)) \<and> d_checks d' = d_checks d \<and>
    (res = 1 \<and> d_errors d' = d_errors d \<or>
     res = 0 \<and> (\<exists>k c. c \<in> {MallocFailed, ReallocFailed} \<and> d_errors d' = d_errors d @ [(k, c)]) \<and>
       MAX_HEAP < 16 + CHUNKSIZE + demand (ops T))"
proof -
  let ?d0 = "reinit_trace T (clear_ranges (d\<lparr>d_heap := mem_reset_brk (d_heap d)\<rparr>))"
  have "mem_ok (mem_reset_brk (d_heap d))" "mem_brk (mem_reset_brk (d_heap d)) = mem_heap (mem_reset_brk (d_heap d))"
    "8 dvd mem_heap (mem_reset_brk (d_heap d))"
    using mem_reset_ok[OF assms(1)] assms(2) by (simp_all add: mem_reset_brk_def)
  from mm_init_blocks[OF this] obtain h where h: "mm_init (mem_reset_brk (d_heap d)) = (h, 0)" "heap_inv h [(4096, False)]"
    "mem_heap h = mem_heap (d_heap d)" "mem_max_addr h = mem_max_addr (d_heap d)"
    by (auto simp: mem_reset_brk_def)
  let ?d = "?d0\<lparr>d_heap := h\<rparr>"
  have inv: "driver_inv E T (\<lambda>i. Null) ?d [(4096, False)]"
    using h(2) assms(3) by (simp add: driver_inv_def arrays_ok_def ranges_ok_def reinit_trace_def clear_ranges_def)
  have "eval_mm_valid E T d = valid_ops E T 0 (ops T) ?d"
    using h(1) by (simp add: eval_mm_valid_def Let_def reinit_trace_def clear_ranges_def)
  moreover have "mem_max_addr h = mem_heap h + MAX_HEAP" "mem_brk h = mem_heap h + 16 + CHUNKSIZE"
    using h(2) by (simp_all add: heap_inv_def mem_ok_def CHUNKSIZE_def)
  ultimately show ?thesis
    using valid_ops_fine[OF inv assms(4), of 0] by (auto simp: reinit_trace_def clear_ranges_def)
qed

text \<open>A trace with every kind of request, the reallocation of an id without a block and the free of \<open>NULL\<close>.\<close>

definition sample_trace :: trace where
  "sample_trace = \<lparr>ignore_ranges = False, num_ids = 2,
     ops = [\<lparr>op_type = ALLOC, op_index = 0, op_size = 100\<rparr>, \<lparr>op_type = REALLOC, op_index = 1, op_size = 50\<rparr>,
       \<lparr>op_type = REALLOC, op_index = 0, op_size = 300\<rparr>, \<lparr>op_type = FREE_OP, op_index = 0, op_size = 0\<rparr>,
       \<lparr>op_type = ALLOC, op_index = 0, op_size = 5000\<rparr>, \<lparr>op_type = REALLOC, op_index = 1, op_size = 0\<rparr>,
       \<lparr>op_type = FREE_OP, op_index = -1, op_size = 0\<rparr>]\<rparr>"

definition sample_driver :: driver where
  "sample_driver = \<lparr>d_heap = fresh_heap, d_ranges = [], d_blocks = [0, 0], d_sizes = [0, 0], d_bases = [0, 0],
     d_errors = [], d_checks = [], d_draws = 0\<rparr>"

lemma sample_legal: "legal 2 (\<lambda>i. Null) (ops sample_trace)" "num_ids sample_trace = 2"
  by (simp_all add: sample_trace_def legal_op_def)

lemma sample_demand: "16 + CHUNKSIZE + demand (ops sample_trace) \<le> MAX_HEAP"
  by (simp add: sample_trace_def growth_def CHUNKSIZE_def MAX_HEAP_def)

theorem eval_mm_valid_accepts_witness:
  "\<exists>d'. eval_mm_valid \<lparr>debug = DBG_EXPENSIVE, random = (\<lambda>i. 12345), random_data = (\<lambda>i. word_of_nat i)\<rparr> sample_trace sample_driver =
    Some (Done (d', 1)) \<and> d_errors d' = []"
  using eval_mm_valid_accepts[of sample_driver sample_trace "\<lparr>debug = DBG_EXPENSIVE, random = (\<lambda>i. 12345), random_data = (\<lambda>i. word_of_nat i)\<rparr>"]
    fresh_heap_ok sample_legal sample_demand
  by (auto simp: sample_driver_def)

section \<open>What the range list does not see\<close>

text \<open>
  A payload is compared with a range by its two ends, so one that encloses every recorded
  payload is accepted as disjoint from them.
\<close>

theorem add_range_accepts_enclosing:
  assumes "\<forall>p\<in>set (d_ranges d). l < lo p \<and> lo p \<le> hi p \<and> hi p < l + sz - 1" and "tracked E T" and "0 < sz" and "8 dvd l"
    and "mem_heap (d_heap d) \<le> l" and "l + sz \<le> mem_brk (d_heap d)"
  shows "add_range E T opnum index l (int sz) d =
    Done (d\<lparr>d_ranges := \<lparr>lo = l, hi = l + sz - 1, r_index = index\<rparr> # d_ranges d\<rparr>, True)"
proof -
  have h: "nat (int l + int sz - 1) = l + sz - 1" using assms(3) by simp
  have f: "find_overlap l (l + sz - 1) ps = None" if "\<forall>p\<in>set ps. l < lo p \<and> lo p \<le> hi p \<and> hi p < l + sz - 1" for ps
    using that by (induction ps) auto
  show ?thesis
    using f[OF assms(1)] assms(2-6)
    by (auto simp: add_range_def h tracked_def ALIGNMENT_def mem_heap_lo_def mem_heap_hi_def Let_def dvd_eq_mod_eq_0)
qed

theorem add_range_accepts_enclosing_witness:
  "\<exists>d'. add_range \<lparr>debug = DBG_CHEAP, random = (\<lambda>i. 0), random_data = (\<lambda>i. 0)\<rparr> sample_trace 3 1 4096 64
     (sample_driver\<lparr>d_heap := fresh_heap\<lparr>mem_brk := 8192\<rparr>, d_ranges := [\<lparr>lo = 4112, hi = 4127, r_index = 0\<rparr>]\<rparr>) = Done (d', True)"
  using add_range_accepts_enclosing[of "sample_driver\<lparr>d_heap := fresh_heap\<lparr>mem_brk := 8192\<rparr>, d_ranges := [\<lparr>lo = 4112, hi = 4127, r_index = 0\<rparr>]\<rparr>"
      4096 64 "\<lparr>debug = DBG_CHEAP, random = (\<lambda>i. 0), random_data = (\<lambda>i. 0)\<rparr>" sample_trace 3 1]
  by (simp add: tracked_def sample_trace_def fresh_heap_def mem_init_def)

end
