(* ===== verification/DriverUtil.thy ===== *)
theory DriverUtil
  imports DriverSpec
begin

text \<open>
  The utilisation run of \<open>csapp-master/vm/malloc/mdriver.c\<close>: it drives the allocator as the
  correctness run without debugging does, its high-water mark is the peak of the live payload
  bytes of the trace, and the utilisation it reports is at most 1.
\<close>

section \<open>The payload bytes of a trace\<close>

fun next_sizes :: "traceop \<Rightarrow> (nat \<Rightarrow> nat) \<Rightarrow> nat \<Rightarrow> nat" where
  "next_sizes r f = (if op_index r < 0 then f else f(nat (op_index r) := if op_type r = FREE_OP then 0 else op_size r))"

definition payload_total :: "nat \<Rightarrow> (nat \<Rightarrow> nat) \<Rightarrow> nat" where
  "payload_total n f = sum f {..<n}"

fun peak :: "nat \<Rightarrow> (nat \<Rightarrow> nat) \<Rightarrow> traceop list \<Rightarrow> nat" where
  "peak n f [] = payload_total n f"
| "peak n f (r # rs) = max (payload_total n f) (peak n (next_sizes r f) rs)"

lemma payload_update: "i < n \<Longrightarrow> payload_total n (f(i := v)) + f i = payload_total n f + v"
  unfolding payload_total_def by (subst (1 2) sum.remove[of _ i]) (auto intro!: sum.cong)

section \<open>Live payloads fit into the heap\<close>

lemma allocs_total: "distinct (allocs bp bs) \<Longrightarrow> sum snd (set (allocs bp bs)) \<le> tot bs"
proof (induction bp bs rule: allocs.induct)
  case (2 bp n a bs)
  then show ?case by (auto simp: sum.insert_if split: if_splits)
qed simp

lemma live_total:
  assumes "heap_inv h bs" and "finite I" and "\<And>i. i \<in> I \<Longrightarrow> \<exists>k. (b i, k) \<in> live h bs \<and> f i \<le> k" and "inj_on b I"
  shows "sum f I \<le> tot bs"
proof -
  obtain K where K: "\<And>i. i \<in> I \<Longrightarrow> (b i, K i) \<in> live h bs \<and> f i \<le> K i" using assms(3) by metis
  have "seg (mem h) (heap_listp h + 8) bs" using heap_invD(3)[OF assms(1)] by simp
  then have D: "distinct (allocs (heap_listp h + 8) bs)" by (rule distinct_allocs)
  have "sum f I \<le> sum K I" by (rule sum_mono) (use K in blast)
  also have "\<dots> = sum snd ((\<lambda>i. (b i, K i)) ` I)"
    using assms(4) by (subst sum.reindex) (auto simp: inj_on_def)
  also have "\<dots> \<le> sum snd (live h bs)" by (rule sum_mono2) (use K in \<open>auto simp: live_def\<close>)
  also have "\<dots> \<le> tot bs" using allocs_total[OF D] by (simp add: live_def)
  finally show ?thesis .
qed

section \<open>One operation\<close>

text \<open>The environment of a run without checks, and the record of the utilisation run in its terms.\<close>

abbreviation quiet :: driver_env where
  "quiet \<equiv> \<lparr>debug = DBG_NONE, random = (\<lambda>i. 0), random_data = (\<lambda>i. 0)\<rparr>"

definition util_inv :: "trace \<Rightarrow> (nat \<Rightarrow> id_state) \<Rightarrow> (nat \<Rightarrow> nat) \<Rightarrow> driver \<Rightarrow> block list \<Rightarrow> bool" where
  "util_inv T st f d bs \<longleftrightarrow> driver_inv quiet T st (d\<lparr>d_ranges := []\<rparr>) bs \<and>
     (\<forall>i<num_ids T. f i = (if st i = Freed then 0 else d_sizes d ! i))"

lemma util_total:
  assumes "util_inv T st f d bs"
  shows "payload_total (num_ids T) f \<le> mem_heapsize (d_heap d)"
proof -
  let ?I = "{i. i < num_ids T \<and> st i = Live}"
  have inv: "driver_inv quiet T st (d\<lparr>d_ranges := []\<rparr>) bs" and f: "\<forall>i<num_ids T. f i = (if st i = Freed then 0 else d_sizes d ! i)"
    using assms by (simp_all add: util_inv_def)
  have H: "heap_inv (d_heap d) bs" using driver_invD(1)[OF inv] by simp
  have "f i = 0" if "i < num_ids T" "st i \<noteq> Live" for i
    using f driver_invD(4)[OF inv, of i] that by (cases "st i") auto
  then have "payload_total (num_ids T) f = sum f ?I" unfolding payload_total_def by (intro sum.mono_neutral_right) auto
  also have "\<dots> \<le> tot bs"
  proof (rule live_total[OF H, where b = "\<lambda>i. d_blocks d ! i"])
    fix i assume i: "i \<in> ?I"
    then obtain k where "(d_blocks (d\<lparr>d_ranges := []\<rparr>) ! i, k) \<in> live (d_heap (d\<lparr>d_ranges := []\<rparr>)) bs" "d_sizes (d\<lparr>d_ranges := []\<rparr>) ! i + 8 \<le> k"
      using driver_inv_block[OF inv, of i] by auto
    then show "\<exists>k. (d_blocks d ! i, k) \<in> live (d_heap d) bs \<and> f i \<le> k" using f i by (intro exI[of _ k]) auto
  next
    show "inj_on (\<lambda>i. d_blocks d ! i) ?I" using driver_invD(5)[OF inv] by (auto simp: inj_on_def)
  qed simp
  also have "\<dots> \<le> mem_heapsize (d_heap d)" using H by (auto simp: mem_heapsize_def heap_inv_def)
  finally show ?thesis .
qed

lemma quiet_steps [simp]:
  "check_index quiet k i d = Done d" "randomize_block quiet i d = Done d" "expensive_checks quiet k d = Some (Done d)"
  by (simp_all add: check_index_def randomize_block_def expensive_checks_def)

lemma quiet_add_range:
  "add_range quiet T k i l s d = Done (d', ok) \<Longrightarrow> if ok then d' = d else (\<exists>c. c \<notin> {MallocFailed, ReallocFailed} \<and> d_errors d' = d_errors d @ [(k, c)])"
  by (auto simp: add_range_def malloc_error_def Let_def split: if_splits)

text \<open>The size of the trace's request is within \<open>int\<close>, so no conversion changes it.\<close>

lemma int_sizes: "sz \<le> 2 ^ 31 - 24 \<Longrightarrow> int_of_size sz = int sz" "sz \<le> 2 ^ 31 - 24 \<Longrightarrow> size_of_int (int sz) = sz"
  by (simp_all add: int_of_size_small size_of_int_def)

lemma util_alloc:
  assumes v: "valid_alloc quiet T k (int i) sz (d\<lparr>d_ranges := []\<rparr>) = Some (Done (d1, ok))" and sz: "sz \<le> 2 ^ 31 - 24"
    and i: "i < length (d_blocks d)" and c: "\<not> ok \<longrightarrow> (\<exists>c\<in>{MallocFailed, ReallocFailed}. d_errors d1 = d_errors d @ [(k, c)])"
  shows "util_op \<lparr>op_type = ALLOC, op_index = int i, op_size = sz\<rparr> (d, t) =
    (if ok then Some (Done (d1\<lparr>d_ranges := d_ranges d\<rparr>, t + int sz)) else Some Fault) \<and>
    (ok \<longrightarrow> d_sizes d1 = (d_sizes d)[i := sz])"
proof -
  obtain h p where m: "mm_malloc sz (d_heap d) = Some (h, p)" using v by (cases "mm_malloc sz (d_heap d)") (auto simp: valid_alloc_def)
  show ?thesis
  proof (cases "p = 0")
    case True
    then show ?thesis using v m int_sizes[OF sz] by (auto simp: valid_alloc_def util_op_def Let_def)
  next
    case False
    let ?d = "d\<lparr>d_ranges := [], d_heap := h\<rparr>"
    obtain d2 b where a: "add_range quiet T k (int i) p (int_of_size sz) ?d = Done (d2, b)"
      using v m False by (cases "add_range quiet T k (int i) p (int_of_size sz) ?d") (auto simp: valid_alloc_def)
    have b: b
    proof (rule ccontr)
      assume nb: "\<not> b"
      then have "d1 = d2" "\<not> ok" using v m False a by (auto simp: valid_alloc_def)
      with c quiet_add_range[OF a] nb show False by auto
    qed
    then have "d2 = ?d" using quiet_add_range[OF a] by simp
    then show ?thesis using v m False a b i int_sizes[OF sz] by (auto simp: valid_alloc_def util_op_def Let_def in_range_def)
  qed
qed

lemma util_realloc:
  assumes v: "valid_realloc quiet T k (int i) sz (d\<lparr>d_ranges := []\<rparr>) = Some (Done (d1, ok))" and sz: "sz \<le> 2 ^ 31 - 24"
    and i: "i < length (d_blocks d)" and old: "d_sizes d ! i \<le> 2 ^ 31 - 24"
    and c: "\<not> ok \<longrightarrow> (\<exists>c\<in>{MallocFailed, ReallocFailed}. d_errors d1 = d_errors d @ [(k, c)])"
  shows "util_op \<lparr>op_type = REALLOC, op_index = int i, op_size = sz\<rparr> (d, t) =
    (if ok then Some (Done (d1\<lparr>d_ranges := d_ranges d\<rparr>, t + (int sz - int (d_sizes d ! i)))) else Some Fault) \<and>
    (ok \<longrightarrow> d_sizes d1 = (d_sizes d)[i := sz])"
proof -
  have here: "in_range (d_blocks d) (int i)" using i by (simp add: in_range_def)
  obtain h p where m: "mm_realloc (d_blocks d ! i) sz (d_heap d) = Some (h, p)"
    using v here by (cases "mm_realloc (d_blocks d ! i) sz (d_heap d)") (auto simp: valid_realloc_def Let_def)
  let ?d = "d\<lparr>d_heap := h, d_ranges := []\<rparr>"
  show ?thesis
  proof (cases "p = 0 \<and> sz \<noteq> 0")
    case True
    then show ?thesis using v m here int_sizes[OF sz] by (auto simp: valid_realloc_def util_op_def Let_def)
  next
    case False
    have iff: "p = 0 \<longleftrightarrow> sz = 0"
      using v m here False c by (auto simp: valid_realloc_def Let_def malloc_error_def split: if_splits)
    obtain d2 b where a: "(if sz > 0 then add_range quiet T k (int i) p (int_of_size sz) ?d else Done (?d, True)) = Done (d2, b)"
      using v m here iff
      by (cases "if sz > 0 then add_range quiet T k (int i) p (int_of_size sz) ?d else Done (?d, True)")
        (auto simp: valid_realloc_def Let_def split: if_splits)
    have res: "if b then d2 = ?d else (\<exists>c. c \<notin> {MallocFailed, ReallocFailed} \<and> d_errors d2 = d_errors d @ [(k, c)])"
      using a quiet_add_range[of T k "int i" p "int_of_size sz" ?d d2 b] by (auto split: if_splits)
    have b: b
    proof (rule ccontr)
      assume nb: "\<not> b"
      then have "d1 = d2" "\<not> ok" using v m here iff a by (cases "sz = 0"; auto simp: valid_realloc_def Let_def)+
      with c res nb show False by auto
    qed
    then have d2: "d2 = ?d" using res by simp
    show ?thesis
      using v m here iff a b d2 int_sizes[OF sz] int_sizes[OF old]
      by (cases "sz = 0") (auto simp: valid_realloc_def util_op_def Let_def)
  qed
qed

lemma util_free:
  assumes v: "valid_free quiet k index (d\<lparr>d_ranges := []\<rparr>) = Some (Done (d1, ok))"
    and old: "0 \<le> index \<Longrightarrow> d_sizes d ! nat index \<le> 2 ^ 31 - 24"
  shows "ok \<and> util_op \<lparr>op_type = FREE_OP, op_index = index, op_size = sz\<rparr> (d, t) =
      Some (Done (d1\<lparr>d_ranges := d_ranges d\<rparr>, t - (if index < 0 then 0 else int (d_sizes d ! nat index)))) \<and>
    d_sizes d1 = d_sizes d"
  using v int_sizes(1)[OF old] by (auto simp: valid_free_def util_op_def Let_def in_range_def split: if_splits)

text \<open>One operation of the utilisation run keeps its record and its total.\<close>

lemma util_op_fine:
  assumes inv: "util_inv T st f d bs" and l: "legal_op (num_ids T) st r" and small: "\<forall>i<num_ids T. d_sizes d ! i \<le> 2 ^ 31 - 24"
  shows "util_op r (d, int (payload_total (num_ids T) f)) = Some Fault \<and> mem_max_addr (d_heap d) < mem_brk (d_heap d) + demand [r] \<or>
    (\<exists>d' bs'. util_op r (d, int (payload_total (num_ids T) f)) = Some (Done (d', int (payload_total (num_ids T) (next_sizes r f)))) \<and>
       util_inv T (next_ids r st) (next_sizes r f) d' bs' \<and> (\<forall>i<num_ids T. d_sizes d' ! i \<le> 2 ^ 31 - 24) \<and>
       same_arena (d_heap d) (d_heap d') \<and> mem_brk (d_heap d') \<le> mem_brk (d_heap d) + demand [r])"
proof -
  let ?n = "num_ids T" and ?d = "d\<lparr>d_ranges := []\<rparr>"
  have inv0: "driver_inv quiet T st ?d bs" and f: "\<forall>i<?n. f i = (if st i = Freed then 0 else d_sizes d ! i)"
    using inv by (simp_all add: util_inv_def)
  have A: "length (d_blocks d) = ?n" "length (d_sizes d) = ?n" using driver_invD(2)[OF inv0] by (simp_all add: arrays_ok_def)
  have op: "r = \<lparr>op_type = op_type r, op_index = op_index r, op_size = op_size r\<rparr>" by simp
  obtain d1 ok where v: "valid_op quiet T 0 r ?d = Some (Done (d1, ok))"
    and c: "\<not> ok \<longrightarrow> (\<exists>c\<in>{MallocFailed, ReallocFailed}. d_errors d1 = d_errors d @ [(0, c)])"
      "\<not> ok \<longrightarrow> mem_max_addr (d_heap d) < mem_brk (d_heap d) + demand [r]"
    and g: "ok \<longrightarrow> (\<exists>bs'. driver_inv quiet T (next_ids r st) d1 bs') \<and> same_arena (d_heap d) (d_heap d1) \<and>
            mem_brk (d_heap d1) \<le> mem_brk (d_heap d) + demand [r]"
    using valid_op_fine[OF inv0 l, of 0] unfolding step_fine_def by fastforce
  have run: "util_op r (d, int (payload_total ?n f)) =
      (if ok then Some (Done (d1\<lparr>d_ranges := d_ranges d\<rparr>, int (payload_total ?n (next_sizes r f)))) else Some Fault) \<and>
      (ok \<longrightarrow> (\<forall>j<?n. d_sizes d1 ! j \<le> 2 ^ 31 - 24 \<and> next_sizes r f j = (if next_ids r st j = Freed then 0 else d_sizes d1 ! j)))"
  proof (cases "op_type r")
    case ALLOC
    then obtain i where i: "op_index r = int i" "i < ?n" "st i \<noteq> Live" "0 < op_size r" "op_size r \<le> 2 ^ 31 - 24"
      using l by (intro that[of "nat (op_index r)"]) (auto simp: legal_op_def Let_def nat_less_iff)
    have "f i = 0" using f i(2,3) driver_invD(4)[OF inv0 i(2)] by (cases "st i") auto
    then have t: "payload_total ?n (f(i := op_size r)) = payload_total ?n f + op_size r" using payload_update[OF i(2), of f "op_size r"] by simp
    have va: "valid_alloc quiet T 0 (int i) (op_size r) ?d = Some (Done (d1, ok))" using v ALLOC i(1) by (simp add: valid_op_def)
    show ?thesis
      using util_alloc[OF va i(5) _ c(1), of "int (payload_total ?n f)"] i ALLOC A small f t
      by (subst op) (auto simp: nth_list_update)
  next
    case REALLOC
    then obtain i where i: "op_index r = int i" "i < ?n" "st i \<noteq> Freed" "op_size r \<le> 2 ^ 31 - 24"
      using l by (intro that[of "nat (op_index r)"]) (auto simp: legal_op_def Let_def nat_less_iff)
    have "f i = d_sizes d ! i" using f i(2,3) by auto
    then have t: "int (payload_total ?n (f(i := op_size r))) = int (payload_total ?n f) + (int (op_size r) - int (d_sizes d ! i))"
      using payload_update[OF i(2), of f "op_size r"] by simp
    have va: "valid_realloc quiet T 0 (int i) (op_size r) ?d = Some (Done (d1, ok))" using v REALLOC i(1) by (simp add: valid_op_def)
    show ?thesis
      using util_realloc[OF va i(4) _ _ c(1), of "int (payload_total ?n f)"] i REALLOC A small f t
      by (subst op) (auto simp: nth_list_update)
  next
    case FREE_OP
    have va: "valid_free quiet 0 (op_index r) ?d = Some (Done (d1, ok))" using v FREE_OP by (simp add: valid_op_def)
    show ?thesis
    proof (cases "op_index r < 0")
      case True
      then show ?thesis using util_free[OF va, of "op_size r" "int (payload_total ?n f)"] FREE_OP small f by (subst op) auto
    next
      case False
      then obtain i where i: "op_index r = int i" "i < ?n" "st i \<noteq> Freed"
        using l FREE_OP by (intro that[of "nat (op_index r)"]) (auto simp: legal_op_def Let_def nat_less_iff)
      have "f i = d_sizes d ! i" using f i(2,3) by auto
      then have t: "int (payload_total ?n (f(i := 0))) = int (payload_total ?n f) - int (d_sizes d ! i)"
        using payload_update[OF i(2), of f 0] by simp
      have "d_sizes d ! nat (op_index r) \<le> 2 ^ 31 - 24" using small i by simp
      with util_free[OF va, of "op_size r" "int (payload_total ?n f)"] i FREE_OP small f t show ?thesis by (subst op) auto
    qed
  qed
  show ?thesis
  proof (cases ok)
    case False
    then show ?thesis using run c(2) by simp
  next
    case True
    then obtain bs' where bs': "driver_inv quiet T (next_ids r st) d1 bs'" using g by blast
    have "d_ranges d1 = []" using driver_invD(6)[OF bs'] by (simp add: ranges_ok_def tracked_def)
    then have "driver_inv quiet T (next_ids r st) (d1\<lparr>d_ranges := d_ranges d, d_ranges := []\<rparr>) bs'" using bs' by (cases d1) simp
    then have "util_inv T (next_ids r st) (next_sizes r f) (d1\<lparr>d_ranges := d_ranges d\<rparr>) bs'"
      using run True by (simp add: util_inv_def)
    then show ?thesis
      using run True g by (intro disjI2 exI[of _ "d1\<lparr>d_ranges := d_ranges d\<rparr>"] exI[of _ bs']) (simp del: next_ids.simps next_sizes.simps demand.simps)
  qed
qed

section \<open>The run\<close>

lemma peak_ge: "payload_total n f \<le> peak n f rs"
  by (cases rs) simp_all

lemma util_ops_fine:
  assumes "util_inv T st f d bs" and "legal (num_ids T) st rs" and "\<forall>i<num_ids T. d_sizes d ! i \<le> 2 ^ 31 - 24"
    and "int (payload_total (num_ids T) f) \<le> hwm"
  shows "util_ops rs hwm (d, int (payload_total (num_ids T) f)) = Some Fault \<and> mem_max_addr (d_heap d) < mem_brk (d_heap d) + demand rs \<or>
    (\<exists>d'. util_ops rs hwm (d, int (payload_total (num_ids T) f)) = Some (Done (d', max hwm (int (peak (num_ids T) f rs)))) \<and>
       same_arena (d_heap d) (d_heap d') \<and> peak (num_ids T) f rs \<le> mem_heapsize (d_heap d'))"
  using assms
proof (induction rs arbitrary: st f d bs hwm)
  case Nil
  then show ?case using util_total[OF Nil.prems(1)] by (simp add: same_arena_def)
next
  case (Cons r rs)
  let ?n = "num_ids T" and ?f = "next_sizes r f"
  have sum: "demand (r # rs) = demand [r] + demand rs" by simp
  from util_op_fine[OF Cons.prems(1) _ Cons.prems(3), of r] Cons.prems(2)
  consider (full) "util_op r (d, int (payload_total ?n f)) = Some Fault" "mem_max_addr (d_heap d) < mem_brk (d_heap d) + demand [r]"
    | (go) d1 bs1 where "util_op r (d, int (payload_total ?n f)) = Some (Done (d1, int (payload_total ?n ?f)))"
       "util_inv T (next_ids r st) ?f d1 bs1" "\<forall>i<num_ids T. d_sizes d1 ! i \<le> 2 ^ 31 - 24"
       "same_arena (d_heap d) (d_heap d1)" "mem_brk (d_heap d1) \<le> mem_brk (d_heap d) + demand [r]"
    by (auto simp del: demand.simps next_ids.simps next_sizes.simps)
  then show ?case
  proof cases
    case full
    then show ?thesis unfolding sum by simp
  next
    case go
    let ?hwm = "max hwm (int (payload_total ?n ?f))"
    have step: "util_ops (r # rs) hwm (d, int (payload_total ?n f)) = util_ops rs ?hwm (d1, int (payload_total ?n ?f))"
      using go(1) by (simp del: next_sizes.simps add: max_def)
    have top: "max ?hwm (int (peak ?n ?f rs)) = max hwm (int (peak ?n f (r # rs)))"
      using peak_ge[of ?n ?f rs] Cons.prems(4) by (simp del: next_sizes.simps)
    have here: "payload_total ?n f \<le> mem_heapsize (d_heap d)" by (rule util_total[OF Cons.prems(1)])
    have l: "legal ?n (next_ids r st) rs" using Cons.prems(2) by simp
    have arena: "mem_max_addr (d_heap d1) = mem_max_addr (d_heap d)" using go(4) by (simp add: same_arena_def)
    from Cons.IH[OF go(2) l go(3), of ?hwm]
    consider (stop) "util_ops rs ?hwm (d1, int (payload_total ?n ?f)) = Some Fault" "mem_max_addr (d_heap d1) < mem_brk (d_heap d1) + demand rs"
      | (fin) d' where "util_ops rs ?hwm (d1, int (payload_total ?n ?f)) = Some (Done (d', max ?hwm (int (peak ?n ?f rs))))"
         "same_arena (d_heap d1) (d_heap d')" "peak ?n ?f rs \<le> mem_heapsize (d_heap d')"
      by (auto simp del: next_sizes.simps next_ids.simps)
    then show ?thesis
    proof cases
      case stop
      then show ?thesis unfolding step sum using arena go(5) by simp
    next
      case fin
      have trans: "same_arena (d_heap d) (d_heap d')" using go(4) fin(2) by (simp add: same_arena_def)
      have "payload_total ?n f \<le> mem_heapsize (d_heap d')" using here trans by (auto simp: same_arena_def mem_heapsize_def)
      then have "peak ?n f (r # rs) \<le> mem_heapsize (d_heap d')" using fin(3) by simp
      then show ?thesis unfolding step fin(1) top using trans by blast
    qed
  qed
qed

text \<open>
  C11: the utilisation run over a legal trace returns two numbers, the peak of the trace's live
  payload bytes and the heap size \<open>mem_heapsize\<close> of the state it leaves, and the peak is at most
  that size, which is not 0, so the utilisation reported is defined and at most 1. It fails
  only when the trace demands more than the arena.
\<close>

theorem eval_mm_util_peak:
  assumes "mem_ok (d_heap d)" and "8 dvd mem_heap (d_heap d)" and "length (d_bases d) = num_ids T"
    and "legal (num_ids T) (\<lambda>i. Null) (ops T)"
  shows "eval_mm_util T d = Some Fault \<and> MAX_HEAP < 16 + CHUNKSIZE + demand (ops T) \<or>
    (\<exists>d'. eval_mm_util T d = Some (Done (d', int (peak (num_ids T) (\<lambda>i. 0) (ops T)), mem_heapsize (d_heap d'))) \<and>
       peak (num_ids T) (\<lambda>i. 0) (ops T) \<le> mem_heapsize (d_heap d') \<and> 0 < mem_heapsize (d_heap d'))"
proof -
  have "mem_ok (mem_reset_brk (d_heap d))" "mem_brk (mem_reset_brk (d_heap d)) = mem_heap (mem_reset_brk (d_heap d))"
    "8 dvd mem_heap (mem_reset_brk (d_heap d))"
    using mem_reset_ok[OF assms(1)] assms(2) by (simp_all add: mem_reset_brk_def)
  from mm_init_blocks[OF this] obtain h where h: "mm_init (mem_reset_brk (d_heap d)) = (h, 0)" "heap_inv h [(4096, False)]"
    by (auto simp: mem_reset_brk_def)
  let ?d = "(reinit_trace T d)\<lparr>d_heap := h\<rparr>" and ?n = "num_ids T"
  have "driver_inv quiet T (\<lambda>i. Null) (?d\<lparr>d_ranges := []\<rparr>) [(4096, False)]"
    using h(2) assms(3) by (simp add: driver_inv_def arrays_ok_def ranges_ok_def reinit_trace_def tracked_def)
  then have inv: "util_inv T (\<lambda>i. Null) (\<lambda>i. 0) ?d [(4096, False)]" by (simp add: util_inv_def reinit_trace_def)
  have t0: "payload_total ?n (\<lambda>i. 0) = 0" by (simp add: payload_total_def)
  have run: "eval_mm_util T d = on_done (util_ops (ops T) 0 (?d, 0)) (\<lambda>(d, m). Some (Done (d, m, mem_heapsize (d_heap d))))"
    using h(1) by (simp add: eval_mm_util_def Let_def reinit_trace_def)
  have sizes: "mem_max_addr h = mem_heap h + MAX_HEAP" "mem_brk h = mem_heap h + 16 + CHUNKSIZE"
    using h(2) by (simp_all add: heap_inv_def mem_ok_def CHUNKSIZE_def)
  have ops: "util_ops (ops T) 0 (?d, 0) = Some Fault \<and> mem_max_addr (d_heap ?d) < mem_brk (d_heap ?d) + demand (ops T) \<or>
    (\<exists>d'. util_ops (ops T) 0 (?d, 0) = Some (Done (d', max 0 (int (peak ?n (\<lambda>i. 0) (ops T))))) \<and>
       same_arena (d_heap ?d) (d_heap d') \<and> peak ?n (\<lambda>i. 0) (ops T) \<le> mem_heapsize (d_heap d'))"
    using util_ops_fine[OF inv assms(4), of 0] by (simp add: t0 reinit_trace_def)
  show ?thesis
  proof (cases "util_ops (ops T) 0 (?d, 0) = Some Fault")
    case True
    then show ?thesis using ops run sizes by auto
  next
    case False
    then obtain d' where d': "util_ops (ops T) 0 (?d, 0) = Some (Done (d', int (peak ?n (\<lambda>i. 0) (ops T))))"
        "same_arena h (d_heap d')" "peak ?n (\<lambda>i. 0) (ops T) \<le> mem_heapsize (d_heap d')"
      using ops by auto
    moreover have "0 < mem_heapsize (d_heap d')" using d'(2) sizes(2) by (simp add: same_arena_def mem_heapsize_def)
    ultimately show ?thesis using run by simp
  qed
qed

theorem eval_mm_util_peak_witness:
  "\<exists>d'. eval_mm_util sample_trace sample_driver = Some (Done (d', 5050, mem_heapsize (d_heap d'))) \<and> 5050 \<le> mem_heapsize (d_heap d')"
proof -
  have "peak 2 (\<lambda>i. 0) (ops sample_trace) = 5050"
    by (simp add: sample_trace_def payload_total_def lessThan_nat_numeral lessThan_Suc)
  then show ?thesis
    using eval_mm_util_peak[of sample_driver sample_trace] fresh_heap_ok sample_legal sample_demand
    by (auto simp: sample_driver_def)
qed

end
