(* ===== verification/TraceFile.thy ===== *)
theory TraceFile
  imports Driver CString
begin

text \<open>
  How the driver \<open>csapp-master/vm/malloc/mdriver.c\<close> reads a trace file: \<open>read_trace\<close> with the
  conversions of \<open>fscanf\<close> it uses, over the characters of the file. A value that does not fit
  into an \<open>int\<close> is taken modulo \<open>2 ^ 32\<close>; memory for the arrays of a trace whose sizes are not
  negative can always be had. A failed \<open>assert\<close>, an exit and a bad access are \<open>Fault\<close>.
\<close>

section \<open>Reading\<close>

definition to_int32 :: "int \<Rightarrow> int" where
  "to_int32 k = sint (of_int k :: int32)"

text \<open>\<open>%d\<close> and \<open>%u\<close>: the number, unless there is none, and the rest of the file.\<close>

definition scan_num :: "string \<Rightarrow> int option \<times> string" where
  "scan_num s =
     (let s = skip_space s;
          (neg, s) = (case s of [] \<Rightarrow> (False, [])
             | c # r \<Rightarrow> if c = CHR ''-'' then (True, r) else if c = CHR ''+'' then (False, r) else (False, c # r))
      in if s = [] \<or> \<not> is_digit (hd s) then (None, s)
         else let v = int (read_digits 0 s) in (Some (to_int32 (if neg then - v else v)), dropWhile is_digit s))"

text \<open>A conversion that fails leaves the variable as it was; \<open>%u %u\<close> does not go on after a failure.\<close>

definition scan_var :: "int \<Rightarrow> string \<Rightarrow> int \<times> string" where
  "scan_var x s = (case scan_num s of (v, s) \<Rightarrow> (case v of None \<Rightarrow> x | Some v \<Rightarrow> v, s))"

definition scan_two :: "int \<Rightarrow> int \<Rightarrow> string \<Rightarrow> int \<times> int \<times> string" where
  "scan_two x y s =
     (case scan_num s of
        (None, s) \<Rightarrow> (x, y, s)
      | (Some x, s) \<Rightarrow> (case scan_var y s of (y, s) \<Rightarrow> (x, y, s)))"

text \<open>\<open>%ud\<close>: a number and, after it, a letter \<open>d\<close> if there is one.\<close>

definition scan_ud :: "int \<Rightarrow> string \<Rightarrow> int \<times> string" where
  "scan_ud x s =
     (case scan_num s of
        (None, s) \<Rightarrow> (x, s)
      | (Some x, s) \<Rightarrow> (x, if s \<noteq> [] \<and> hd s = CHR ''d'' then tl s else s))"

text \<open>The fields of \<open>trace_t\<close> that \<open>read_trace\<close> fills; before, they hold what \<open>malloc\<close> returned.\<close>

record raw_trace =
  rt_weight :: int
  rt_num_ids :: int
  rt_num_ops :: int
  rt_ignore :: int
  rt_ops :: "traceop list"

text \<open>The local variables of the loop.\<close>

record read_vars =
  v_index :: int
  v_size :: int
  v_max :: int
  v_op :: nat

definition set_op :: "op_type \<Rightarrow> read_vars \<Rightarrow> traceop \<Rightarrow> traceop" where
  "set_op ty v r =
     (if ty = FREE_OP then r\<lparr>op_type := ty, op_index := v_index v\<rparr>
      else r\<lparr>op_type := ty, op_index := v_index v, op_size := nat (v_size v mod 2 ^ 32)\<rparr>)"

definition new_max :: "read_vars \<Rightarrow> read_vars" where
  "new_max v = v\<lparr>v_max := if v_index v > v_max v then v_index v else v_max v\<rparr>"

text \<open>One turn of the loop after the word \<open>ty\<close> was read.\<close>

definition read_request :: "string \<Rightarrow> string \<Rightarrow> read_vars \<Rightarrow> (op_type \<times> read_vars \<times> string) option" where
  "read_request ty s v =
     (if hd ty = CHR ''a'' then
        (case scan_two (v_index v) (v_size v) s of (i, z, s) \<Rightarrow> Some (ALLOC, new_max (v\<lparr>v_index := i, v_size := z\<rparr>), s))
      else if hd ty = CHR ''r'' then
        (case scan_two (v_index v) (v_size v) s of (i, z, s) \<Rightarrow> Some (REALLOC, new_max (v\<lparr>v_index := i, v_size := z\<rparr>), s))
      else if hd ty = CHR ''f'' then
        (case scan_ud (v_index v) s of (i, s) \<Rightarrow> Some (FREE_OP, v\<lparr>v_index := i\<rparr>, s))
      else None)"

definition TYPE_SIZE :: nat where "TYPE_SIZE = 1024"

lemma skip_space_length: "length (skip_space s) \<le> length s"
  by (induction s) auto

lemma scan_num_length: "scan_num s = (v, r) \<Longrightarrow> length r \<le> length s"
proof -
  assume r: "scan_num s = (v, r)"
  obtain u where u: "skip_space s = u" by simp
  have "length r \<le> length u"
    using r unfolding scan_num_def u by (cases u) (auto simp: Let_def le_SucI split: if_splits intro: le_trans[OF length_dropWhile_le])
  then show ?thesis using skip_space_length[of s] u by simp
qed

lemma read_request_length: "read_request ty s v = Some (t, v', r) \<Longrightarrow> length r \<le> length s"
  by (auto simp: read_request_def scan_two_def scan_var_def scan_ud_def split: if_splits prod.splits option.splits dest!: scan_num_length)

lemma scan_word_length: "scan_word s = Some (w, r) \<Longrightarrow> length r < length s"
proof -
  assume w: "scan_word s = Some (w, r)"
  then obtain c cs where c: "skip_space s = c # cs" by (cases "skip_space s") (auto simp: scan_word_def)
  have "\<not> is_space c" using c by (induction s) (auto split: if_splits)
  then have "r = dropWhile (\<lambda>c. \<not> is_space c) cs" using w c by (simp add: scan_word_def)
  then show ?thesis using skip_space_length[of s] c length_dropWhile_le[of "\<lambda>c. \<not> is_space c" cs] by simp
qed

function read_loop :: "string \<Rightarrow> read_vars \<Rightarrow> raw_trace \<Rightarrow> (read_vars \<times> raw_trace) outcome" where
  "read_loop s v t =
     (case scan_word s of
        None \<Rightarrow> Done (v, t)
      | Some (ty, s) \<Rightarrow>
          if TYPE_SIZE \<le> length ty then Fault
          else (case read_request ty s v of
                  None \<Rightarrow> Fault
                | Some (k, v, s) \<Rightarrow>
                    if length (rt_ops t) \<le> v_op v then Fault
                    else let t = t\<lparr>rt_ops := (rt_ops t)[v_op v := set_op k v (rt_ops t ! v_op v)]\<rparr>;
                             v = v\<lparr>v_op := v_op v + 1\<rparr>
                         in if int (v_op v) = rt_num_ops t then Done (v, t) else read_loop s v t))"
  by pat_completeness auto
termination
  by (relation "measure (\<lambda>(s, v, t). length s)") (auto dest!: scan_word_length read_request_length)

declare read_loop.simps [simp del]

text \<open>
  \<open>read_trace\<close>; \<open>t\<close> and \<open>v\<close> hold what is in the trace record and in \<open>index\<close> and \<open>size\<close> before they are
  set, \<open>junk\<close> what is in the array of operations. The result is the weight and the trace.
\<close>

definition read_trace :: "raw_trace \<Rightarrow> (nat \<Rightarrow> traceop) \<Rightarrow> int \<Rightarrow> string \<Rightarrow> (int \<times> trace) outcome" where
  "read_trace t junk size0 s =
     (let (w, s) = scan_var (rt_weight t) s; (ids, s) = scan_var (rt_num_ids t) s;
          (nops, s) = scan_var (rt_num_ops t) s; (ign, s) = scan_var (rt_ignore t) s
      in if w \<noteq> 0 \<and> w \<noteq> 1 then Fault
         else if ign \<noteq> 0 \<and> ign \<noteq> 1 then Fault
         else if nops < 0 \<or> ids < 0 then Fault
         else case read_loop s \<lparr>v_index = 0, v_size = size0, v_max = 0, v_op = 0\<rparr>
                     \<lparr>rt_weight = w, rt_num_ids = ids, rt_num_ops = nops, rt_ignore = ign, rt_ops = map junk [0..<nat nops]\<rparr> of
                Fault \<Rightarrow> Fault
              | Done (v, t) \<Rightarrow>
                  if v_max v \<noteq> rt_num_ids t - 1 \<or> rt_num_ops t \<noteq> int (v_op v) then Fault
                  else Done (w, \<lparr>ignore_ranges = (ign = 1), num_ids = nat ids, ops = rt_ops t\<rparr>))"

section \<open>Writing\<close>

text \<open>The lines of a trace file.\<close>

definition op_line :: "traceop \<Rightarrow> string" where
  "op_line r =
     (case op_type r of
        ALLOC \<Rightarrow> ''a '' @ nat_to_dec (nat (op_index r)) @ '' '' @ nat_to_dec (op_size r) @ [LF]
      | REALLOC \<Rightarrow> ''r '' @ nat_to_dec (nat (op_index r)) @ '' '' @ nat_to_dec (op_size r) @ [LF]
      | FREE_OP \<Rightarrow> ''f '' @ nat_to_dec (nat (op_index r)) @ [LF])"

definition trace_text :: "nat \<Rightarrow> trace \<Rightarrow> string" where
  "trace_text w T =
     nat_to_dec w @ LF # nat_to_dec (num_ids T) @ LF # nat_to_dec (length (ops T)) @ LF #
     nat_to_dec (if ignore_ranges T then 1 else 0) @ LF # concat (map op_line (ops T))"

text \<open>A trace that a file can hold: every number fits, and the greatest index that is allocated is the last
  one; an index that is only freed is not looked at.\<close>

definition storable :: "trace \<Rightarrow> bool" where
  "storable T \<longleftrightarrow> ops T \<noteq> [] \<and> length (ops T) < 2 ^ 31 \<and> num_ids T < 2 ^ 31 \<and>
     (\<forall>r\<in>set (ops T). 0 \<le> op_index r \<and> op_index r < 2 ^ 31 \<and> op_size r < 2 ^ 31 \<and> (op_type r \<noteq> FREE_OP \<longrightarrow> op_index r < int (num_ids T))) \<and>
     (\<exists>r\<in>set (ops T). op_type r \<noteq> FREE_OP \<and> op_index r = int (num_ids T) - 1)"

lemma separators: "is_space LF" "is_space CHR '' ''" "\<not> is_digit LF" "\<not> is_digit CHR '' ''"
  by (simp_all add: LF_char is_space_def is_digit_def)

lemma sep_d: "LF \<noteq> CHR ''d''"
  by (simp add: LF_char)

lemma to_int32_small: "n < 2 ^ 31 \<Longrightarrow> to_int32 (int n) = int n"
  using sint_small(1)[of n] by (simp add: to_int32_def)

lemma scan_num_space: "is_space c \<Longrightarrow> scan_num (c # s) = scan_num s"
  by (simp add: scan_num_def)

lemma scan_num_dec:
  assumes "n < 2 ^ 31" and "\<not> is_digit c"
  shows "scan_num (nat_to_dec n @ c # s) = (Some (int n), c # s)"
proof -
  obtain d ds where d: "nat_to_dec n = d # ds" by (cases "nat_to_dec n") auto
  have dig: "is_digit d" "\<forall>c\<in>set (nat_to_dec n). is_digit c" using nat_to_dec_digits[of n] d by auto
  have "skip_space (nat_to_dec n @ c # s) = nat_to_dec n @ c # s" using digit_not_special(3)[OF dig(1)] by (simp add: d)
  moreover have "read_digits 0 (nat_to_dec n @ c # s) = n"
    using read_digits_append[OF dig(2), of 0 "c # s"] assms(2) by (simp add: read_digits_nat_to_dec)
  moreover have "dropWhile is_digit (nat_to_dec n @ c # s) = c # s" using dig(2) assms(2) by (simp add: dropWhile_append2)
  ultimately show ?thesis using digit_not_special(1,2)[OF dig(1)] dig(1) d assms(1)
    by (simp add: scan_num_def Let_def to_int32_small)
qed

lemma scan_word_letter:
  assumes "\<not> is_space c"
  shows "scan_word (LF # c # CHR '' '' # s) = Some ([c], CHR '' '' # s)" "scan_word (c # CHR '' '' # s) = Some ([c], CHR '' '' # s)"
  using assms by (simp_all add: scan_word_def separators)

text \<open>The greatest index that is allocated, and one line.\<close>

definition index_max :: "traceop \<Rightarrow> int \<Rightarrow> int" where
  "index_max r m = (if op_type r = FREE_OP then m else max m (op_index r))"

lemma scan_line:
  assumes ix: "op_index r = int n" and "n < 2 ^ 31" and "op_size r < 2 ^ 31"
  obtains ty u v' where "scan_word (op_line r @ s) = Some (ty, u)" "scan_word (LF # op_line r @ s) = Some (ty, u)" "length ty = 1"
    "read_request ty u v = Some (op_type r, v', LF # s)" "v_max v' = index_max r (v_max v)" "v_op v' = v_op v" "v_index v' = op_index r"
    "op_type r \<noteq> FREE_OP \<longrightarrow> v_size v' = int (op_size r)"
proof -
  note line = ix op_line_def scan_word_letter separators scan_num_space scan_num_dec[OF assms(2)] scan_num_dec[OF assms(3)] scan_two_def scan_var_def scan_ud_def
    read_request_def new_max_def index_max_def is_space_def
  show thesis
  proof (cases "op_type r")
    case ALLOC
    show thesis
      by (rule that[of "''a''" "CHR '' '' # nat_to_dec n @ '' '' @ nat_to_dec (op_size r) @ LF # s"
            "new_max (v\<lparr>v_index := int n, v_size := int (op_size r)\<rparr>)"])
        (simp_all add: ALLOC line)
  next
    case REALLOC
    show thesis
      by (rule that[of "''r''" "CHR '' '' # nat_to_dec n @ '' '' @ nat_to_dec (op_size r) @ LF # s"
            "new_max (v\<lparr>v_index := int n, v_size := int (op_size r)\<rparr>)"])
        (simp_all add: REALLOC line)
  next
    case FREE_OP
    show thesis
      by (rule that[of "''f''" "CHR '' '' # nat_to_dec n @ LF # s" "v\<lparr>v_index := int n\<rparr>"])
        (simp_all add: FREE_OP line sep_d)
  qed
qed

lemma read_loop_lines:
  assumes "rs \<noteq> []" and "\<forall>r\<in>set rs. 0 \<le> op_index r \<and> op_index r < 2 ^ 31 \<and> op_size r < 2 ^ 31"
    and "length (rt_ops t) = v_op v + length rs" and "rt_num_ops t = int (v_op v + length rs)"
    and "\<forall>j<length rs. op_type (rs ! j) = FREE_OP \<longrightarrow> op_size (rs ! j) = op_size (rt_ops t ! (v_op v + j))"
  shows "\<exists>v'. read_loop (LF # concat (map op_line rs)) v t = Done (v', t\<lparr>rt_ops := take (v_op v) (rt_ops t) @ rs\<rparr>) \<and>
    v_op v' = v_op v + length rs \<and> v_max v' = fold index_max rs (v_max v)"
  using assms
proof (induction rs arbitrary: v t)
  case (Cons r rs)
  obtain n where n: "op_index r = int n" "n < 2 ^ 31" using Cons(3) by (metis int_nat_eq list.set_intros(1) nat_less_iff of_nat_numeral of_nat_power zle_int)
  have sz: "op_size r < 2 ^ 31" using Cons(3) by simp
  obtain ty u v1 where l0: "scan_word (op_line r @ concat (map op_line rs)) = Some (ty, u)" and l: "scan_word (LF # op_line r @ concat (map op_line rs)) = Some (ty, u)" "length ty = 1"
    "read_request ty u v = Some (op_type r, v1, LF # concat (map op_line rs))" "v_max v1 = index_max r (v_max v)" "v_op v1 = v_op v"
    "v_index v1 = op_index r" "op_type r \<noteq> FREE_OP \<longrightarrow> v_size v1 = int (op_size r)"
    using scan_line[OF n sz, of "concat (map op_line rs)" v] by metis
  let ?k = "v_op v"
  have k: "?k < length (rt_ops t)" using Cons(4) by simp
  have z: "op_type r = FREE_OP \<longrightarrow> op_size r = op_size (rt_ops t ! ?k)" using Cons(6) by fastforce
  have "nat (int (op_size r) mod 2 ^ 32) = op_size r" using Cons(3) by (simp add: nat_mod_distrib)
  then have op: "set_op (op_type r) v1 (rt_ops t ! ?k) = r"
    using l(6,7) z by (intro traceop.equality) (auto simp: set_op_def)
  let ?t = "t\<lparr>rt_ops := (rt_ops t)[?k := r]\<rparr>" and ?v = "v1\<lparr>v_op := Suc ?k\<rparr>"
  have step: "read_loop (LF # concat (map op_line (r # rs))) v t =
      (if int (Suc ?k) = rt_num_ops t then Done (?v, ?t) else read_loop (LF # concat (map op_line rs)) ?v ?t)"
    using k l(1-3,5) op by (subst read_loop.simps) (simp add: TYPE_SIZE_def Let_def)
  have tk: "take (Suc ?k) ((rt_ops t)[?k := r]) = take ?k (rt_ops t) @ [r]" using k by (simp add: take_Suc_conv_app_nth)
  show ?case
  proof (cases "rs = []")
    case True
    then have "(rt_ops t)[?k := r] = take ?k (rt_ops t) @ [r]" using tk Cons(4) by simp
    then show ?thesis using step True Cons(5) l(4) by simp
  next
    case False
    have "\<exists>v'. read_loop (LF # concat (map op_line rs)) ?v ?t = Done (v', ?t\<lparr>rt_ops := take (v_op ?v) (rt_ops ?t) @ rs\<rparr>) \<and>
        v_op v' = v_op ?v + length rs \<and> v_max v' = fold index_max rs (v_max ?v)"
    proof (rule Cons(1)[OF False])
      show "\<forall>j<length rs. op_type (rs ! j) = FREE_OP \<longrightarrow> op_size (rs ! j) = op_size (rt_ops ?t ! (v_op ?v + j))"
      proof (intro allI impI)
        fix j assume j: "j < length rs" "op_type (rs ! j) = FREE_OP"
        then have "op_size ((r # rs) ! Suc j) = op_size (rt_ops t ! (?k + Suc j))" using Cons(6)[rule_format, of "Suc j"] by simp
        then show "op_size (rs ! j) = op_size (rt_ops ?t ! (v_op ?v + j))" by simp
      qed
    qed (use Cons(3-5) in simp_all)
    then obtain v' where v': "read_loop (LF # concat (map op_line rs)) ?v ?t = Done (v', ?t\<lparr>rt_ops := take (v_op ?v) (rt_ops ?t) @ rs\<rparr>)"
        "v_op v' = v_op ?v + length rs" "v_max v' = fold index_max rs (v_max ?v)" by blast
    have "int (Suc ?k) \<noteq> rt_num_ops t" using Cons(5) False by simp
    then show ?thesis unfolding step using v' tk l(4) by simp
  qed
qed simp

lemma index_max_all:
  "fold index_max rs m = Max (insert m {op_index r | r. r \<in> set rs \<and> op_type r \<noteq> FREE_OP})"
proof (induction rs arbitrary: m)
  case (Cons r rs)
  let ?S = "\<lambda>rs. {op_index r | r. r \<in> set rs \<and> op_type r \<noteq> FREE_OP}"
  have f: "finite (?S rs)" for rs :: "traceop list" by (rule finite_subset[of _ "op_index ` set rs"]) auto
  show ?case
  proof (cases "op_type r = FREE_OP")
    case True
    then have "?S (r # rs) = ?S rs" by auto
    then show ?thesis using Cons True by (simp add: index_max_def)
  next
    case False
    then have "?S (r # rs) = insert (op_index r) (?S rs)" by auto
    then show ?thesis using Cons[of "max m (op_index r)"] False f[of rs]
      by (cases "?S rs = {}") (simp_all add: index_max_def max.assoc Max.insert_not_elem ac_simps)
  qed
qed simp

lemma storable_max: "storable T \<Longrightarrow> fold index_max (ops T) 0 = int (num_ids T) - 1"
proof -
  assume s: "storable T"
  let ?S = "{op_index r | r. r \<in> set (ops T) \<and> op_type r \<noteq> FREE_OP}"
  have "finite ?S" by (rule finite_subset[of _ "op_index ` set (ops T)"]) auto
  moreover have "int (num_ids T) - 1 \<in> ?S" "\<forall>i\<in>?S. i \<le> int (num_ids T) - 1" using s by (force simp: storable_def)+
  moreover have "0 \<le> int (num_ids T) - 1" using s by (force simp: storable_def)
  ultimately show ?thesis unfolding index_max_all by (intro Max_eqI) auto
qed

lemma scan_var_dec: "n < 2 ^ 31 \<Longrightarrow> scan_var x (nat_to_dec n @ LF # s) = (int n, LF # s)" "scan_var x (LF # s) = scan_var x s"
  by (simp_all add: scan_var_def scan_num_dec scan_num_space separators)

text \<open>
  C20: \<open>read_trace\<close> reads what was written to a trace file: the weight and the trace, whatever was
  in memory before, except that the size of a \<open>FREE\<close>, which is not in the file, is what \<open>malloc\<close>
  left in the array.
\<close>

theorem read_trace_roundtrip:
  assumes "storable T" and "w \<le> 1"
    and "\<forall>j<length (ops T). op_type (ops T ! j) = FREE_OP \<longrightarrow> op_size (ops T ! j) = op_size (junk j)"
  shows "read_trace t junk size0 (trace_text w T) = Done (int w, T)"
proof -
  let ?ig = "if ignore_ranges T then 1 else 0 :: nat" and ?n = "length (ops T)"
  let ?t = "\<lparr>rt_weight = int w, rt_num_ids = int (num_ids T), rt_num_ops = int ?n, rt_ignore = int ?ig, rt_ops = map junk [0..<?n]\<rparr>"
  let ?v = "\<lparr>v_index = 0, v_size = size0, v_max = 0, v_op = 0\<rparr>"
  have b: "w < 2 ^ 31" "num_ids T < 2 ^ 31" "?n < 2 ^ 31" "?ig < 2 ^ 31" using assms(1,2) by (auto simp: storable_def)
  have "\<exists>v'. read_loop (LF # concat (map op_line (ops T))) ?v ?t = Done (v', ?t\<lparr>rt_ops := take (v_op ?v) (rt_ops ?t) @ ops T\<rparr>) \<and>
      v_op v' = v_op ?v + ?n \<and> v_max v' = fold index_max (ops T) (v_max ?v)"
    by (rule read_loop_lines) (use assms(1,3) in \<open>auto simp: storable_def\<close>)
  then obtain v' where l: "read_loop (LF # concat (map op_line (ops T))) ?v ?t = Done (v', ?t\<lparr>rt_ops := ops T\<rparr>)" "v_op v' = ?n"
      "v_max v' = int (num_ids T) - 1"
    using storable_max[OF assms(1)] by auto
  have e: "\<lparr>ignore_ranges = (int ?ig = 1), num_ids = nat (int (num_ids T)), ops = ops T\<rparr> = T" by (intro trace.equality) simp_all
  have "w = 0 \<or> w = 1" using assms(2) by linarith
  then show ?thesis using l e unfolding read_trace_def trace_text_def
    by (auto simp: scan_var_dec(2) scan_var_dec(1)[OF b(1)] scan_var_dec(1)[OF b(2)] scan_var_dec(1)[OF b(3)] scan_var_dec(1)[OF b(4)] Let_def)
qed

text \<open>The file may free a block that no request can have allocated.\<close>

definition odd_trace :: trace where
  "odd_trace = \<lparr>ignore_ranges = False, num_ids = 1, ops = [\<lparr>op_type = ALLOC, op_index = 0, op_size = 8\<rparr>, \<lparr>op_type = FREE_OP, op_index = 7, op_size = 0\<rparr>]\<rparr>"

theorem read_trace_roundtrip_witness:
  "read_trace \<lparr>rt_weight = 5, rt_num_ids = 5, rt_num_ops = 5, rt_ignore = 5, rt_ops = []\<rparr> (\<lambda>_. \<lparr>op_type = ALLOC, op_index = 3, op_size = 0\<rparr>) 9
     (trace_text 1 odd_trace) = Done (1, odd_trace)"
proof -
  have "storable odd_trace" by (simp add: storable_def odd_trace_def)
  moreover have "\<forall>j<length (ops odd_trace). op_type (ops odd_trace ! j) = FREE_OP \<longrightarrow>
      op_size (ops odd_trace ! j) = op_size \<lparr>op_type = ALLOC, op_index = 3, op_size = 0\<rparr>"
    by (auto simp: odd_trace_def less_Suc_eq numeral_eq_Suc)
  ultimately show ?thesis using read_trace_roundtrip[of odd_trace 1] by simp
qed

text \<open>A header that announces no requests, before a request.\<close>

lemma read_loop_overruns:
  "rt_ops t = [] \<Longrightarrow> scan_word s = Some (ty, u) \<Longrightarrow> read_loop s v t = Fault"
  by (subst read_loop.simps) (auto split: option.split)

end
