(* ===== verification/Bits.thy ===== *)
theory Bits
  imports Prelude
begin

text \<open>
  The puzzles of the data lab, \<open>labs/data/bits.c\<close>, over 32-bit words, each against what its
  comment and the test function of \<open>labs/data/tests.c\<close> ask for. As the lab stipulates,
  \<open>int\<close> is two's complement, its arithmetic wraps and \<open>>>\<close> on it is arithmetic.
\<close>

section \<open>The puzzles\<close>

definition bitXor :: "int32 \<Rightarrow> int32 \<Rightarrow> int32" where
  "bitXor x y = NOT (NOT x AND NOT y) AND NOT (x AND y)"

definition tmin :: int32 where
  "tmin = push_bit 31 1"

definition isTmax :: "int32 \<Rightarrow> int32" where
  "isTmax x =
     (let i = x + 1;
          x = x + i;
          x = NOT x;
          i = c_not i;
          x = x + i
      in c_not x)"

definition allOddBits :: "int32 \<Rightarrow> int32" where
  "allOddBits x =
     (let mask = 0xAA + push_bit 8 0xAA;
          mask = mask + push_bit 16 mask
      in c_not ((mask AND x) XOR mask))"

definition negate :: "int32 \<Rightarrow> int32" where
  "negate x = NOT x + 1"

definition isAsciiDigit :: "int32 \<Rightarrow> int32" where
  "isAsciiDigit x =
     (let sign = push_bit 31 1;
          upper = NOT (sign OR 0x39);
          lower = NOT 0x30;
          upper = sign AND signed_drop_bit 31 (upper + x);
          lower = sign AND signed_drop_bit 31 (lower + x + 1)
      in c_not (upper OR lower))"

definition conditional :: "int32 \<Rightarrow> int32 \<Rightarrow> int32 \<Rightarrow> int32" where
  "conditional x y z =
     (let x = c_not (c_not x);
          x = NOT x + 1
      in (x AND y) OR (NOT x AND z))"

definition isLessOrEqual :: "int32 \<Rightarrow> int32 \<Rightarrow> int32" where
  "isLessOrEqual x y =
     (let negX = NOT x + 1;
          addX = negX + y;
          checkSign = signed_drop_bit 31 addX AND 1;
          leftBit = push_bit 31 1;
          xLeft = x AND leftBit;
          yLeft = y AND leftBit;
          bitXor = xLeft XOR yLeft;
          bitXor = signed_drop_bit 31 bitXor AND 1
      in (c_not bitXor AND c_not checkSign) OR (bitXor AND signed_drop_bit 31 xLeft))"

definition logicalNeg :: "int32 \<Rightarrow> int32" where
  "logicalNeg x = signed_drop_bit 31 (x OR (NOT x + 1)) + 1"

definition howManyBits :: "int32 \<Rightarrow> int32" where
  "howManyBits x =
     (let sign = signed_drop_bit 31 x;
          x = (sign AND NOT x) OR (NOT sign AND x);
          b16 = push_bit 4 (c_not (c_not (signed_drop_bit 16 x)));
          x = signed_drop_bit (unat b16) x;
          b8 = push_bit 3 (c_not (c_not (signed_drop_bit 8 x)));
          x = signed_drop_bit (unat b8) x;
          b4 = push_bit 2 (c_not (c_not (signed_drop_bit 4 x)));
          x = signed_drop_bit (unat b4) x;
          b2 = push_bit 1 (c_not (c_not (signed_drop_bit 2 x)));
          x = signed_drop_bit (unat b2) x;
          b1 = c_not (c_not (signed_drop_bit 1 x));
          x = signed_drop_bit (unat b1) x;
          b0 = x
      in b16 + b8 + b4 + b2 + b1 + b0 + 1)"

definition floatScale2 :: "uint32 \<Rightarrow> uint32" where
  "floatScale2 uf =
     (let exp = drop_bit 23 (uf AND 0x7f800000);
          sign = uf AND push_bit 31 1
      in if exp = 0 then push_bit 1 uf OR sign
         else if exp = 255 then uf
         else let exp = exp + 1
              in if exp = 255 then 0x7f800000 OR sign
                 else push_bit 23 exp OR (uf AND 0x807fffff))"

definition floatFloat2Int :: "uint32 \<Rightarrow> int32" where
  "floatFloat2Int uf =
     (let sgn' = drop_bit 31 uf;
          exp = drop_bit 23 (uf AND 0x7f800000) - 127;
          frac = (uf AND 0x007fffff) OR 0x00800000
      in if uf AND 0x7fffffff = 0 then 0
         else if 31 <s exp then 0x80000000
         else if exp <s 0 then 0
         else let frac = (if 23 <s exp then push_bit (unat (exp - 23)) frac
                           else signed_drop_bit (unat (23 - exp)) frac)
              in if signed_drop_bit 31 frac XOR sgn' = 0 then frac
                 else if signed_drop_bit 31 frac \<noteq> 0 then 0x80000000
                 else NOT frac + 1)"

definition floatPower2 :: "int32 \<Rightarrow> uint32" where
  "floatPower2 x =
     (let INF' = push_bit 23 0xff;
          exp = x + 127
      in if exp \<le>s 0 then 0
         else if 255 \<le>s exp then INF'
         else push_bit 23 exp)"

section \<open>The test functions\<close>

definition test_bitXor :: "int32 \<Rightarrow> int32 \<Rightarrow> int32" where
  "test_bitXor x y = x XOR y"

definition test_tmin :: int32 where
  "test_tmin = 0x80000000"

definition test_isTmax :: "int32 \<Rightarrow> int32" where
  "test_isTmax x = c_bool (x = 0x7FFFFFFF)"

text \<open>The loop over \<open>i = 1, 3, ..., 31\<close> with its early return.\<close>

definition test_allOddBits :: "int32 \<Rightarrow> int32" where
  "test_allOddBits x = c_bool (list_all (\<lambda>k. x AND push_bit (2 * k + 1) 1 \<noteq> 0) [0..<16])"

definition test_negate :: "int32 \<Rightarrow> int32" where
  "test_negate x = - x"

definition test_isAsciiDigit :: "int32 \<Rightarrow> int32" where
  "test_isAsciiDigit x = c_bool (0x30 \<le>s x \<and> x \<le>s 0x39)"

definition test_conditional :: "int32 \<Rightarrow> int32 \<Rightarrow> int32 \<Rightarrow> int32" where
  "test_conditional x y z = (if x \<noteq> 0 then y else z)"

definition test_isLessOrEqual :: "int32 \<Rightarrow> int32 \<Rightarrow> int32" where
  "test_isLessOrEqual x y = c_bool (x \<le>s y)"

definition test_logicalNeg :: "int32 \<Rightarrow> int32" where
  "test_logicalNeg x = c_not x"

text \<open>The loop that shifts \<open>a\<close> right until it is 0, counting in \<open>cnt\<close>.\<close>

function count_shifts :: "uint32 \<Rightarrow> uint32 \<Rightarrow> uint32" where
  "count_shifts a cnt = (if a = 0 then cnt else count_shifts (drop_bit 1 a) (cnt + 1))"
  by pat_completeness auto
termination
proof (relation "measure (\<lambda>(a, cnt). unat a)")
  fix a cnt :: uint32
  assume "a \<noteq> 0"
  then have "unat a \<noteq> 0" by (simp add: unat_eq_zero)
  then show "((drop_bit 1 a, cnt + 1), a, cnt) \<in> measure (\<lambda>(a, cnt). unat a)"
    by (simp add: drop_bit_eq_div unat_div)
qed simp

declare count_shifts.simps [simp del]

definition test_howManyBits :: "int32 \<Rightarrow> int32" where
  "test_howManyBits x = (let x = (if x <s 0 then - x - 1 else x) in count_shifts x 0 + 1)"

section \<open>Integer puzzles\<close>

lemma bitXor_test: "bitXor x y = test_bitXor x y"
  unfolding bitXor_def test_bitXor_def by (rule bit_word_eqI) (auto simp: bit_simps)

lemma tmin_test: "tmin = test_tmin"
  by (simp add: tmin_def test_tmin_def)

lemma negate_test: "negate x = test_negate x"
  by (simp add: negate_def test_negate_def not_eq_complement)

lemma not_plus_1: "NOT x + 1 = - (x :: int32)"
  by (simp add: not_eq_complement)

lemma conditional_test: "conditional x y z = test_conditional x y z"
  by (auto simp: conditional_def test_conditional_def c_not_def not_plus_1)

lemma half_of_zero:
  fixes u :: int
  assumes "(u + u) mod 2 ^ 32 = 0" and "0 < u" and "u < 2 ^ 32"
  shows "u = 2 ^ 31"
proof -
  from assms(1) obtain k where "2 * u = 2 ^ 32 * k" by (auto simp: mod_eq_0_iff_dvd)
  then have k: "u = 2 ^ 31 * k" by simp
  with assms(2,3) have "0 < k" "k < 2" by simp_all
  with k show ?thesis by simp
qed

lemma isTmax_test: "isTmax x = test_isTmax x"
proof (cases "x + 1 = 0")
  case True
  then have "x = - 1" by (simp add: eq_neg_iff_add_eq_0)
  then show ?thesis by (simp add: isTmax_def test_isTmax_def c_not_def)
next
  case False
  have not0: "(NOT z = 0) = (z = - 1)" for z :: int32
    by (metis bit.compl_one bit.double_compl)
  have "isTmax x = c_bool (x + (x + 1) = - 1)"
    using False by (simp add: isTmax_def c_not_def not0)
  also have "(x + (x + 1) = - 1) = (x = 0x7FFFFFFF)"
  proof
    assume "x + (x + 1) = - 1"
    then have "(x + 1) + (x + 1) = 0" by (simp add: algebra_simps)
    then have m: "(uint (x + 1) + uint (x + 1)) mod 2 ^ 32 = 0"
      using uint_word_ariths(1)[of "x + 1" "x + 1"] by simp
    have "0 < uint (x + 1)" "uint (x + 1) < 2 ^ 32"
      using uint_lt2p[of "x + 1"] uint_ge_0[of "x + 1"] False by (simp_all add: uint_0_iff less_le)
    with m have "uint (x + 1) = 2 ^ 31" by (rule half_of_zero)
    then have "uint (x + 1) = uint (0x80000000 :: int32)" by simp
    then have "x + 1 = 0x80000000" by (rule word_uint_eqI)
    then have "(x + 1) - 1 = 0x80000000 - 1" by (simp only:)
    then show "x = 0x7FFFFFFF" by simp
  qed simp
  finally show ?thesis by (simp add: test_isTmax_def)
qed

text \<open>An arithmetic shift by 31 spreads the sign.\<close>

lemma sign_spread: "signed_drop_bit 31 (x :: int32) = (if x <s 0 then - 1 else 0)"
proof -
  have "bit (signed_drop_bit 31 x) n = bit x 31" if "n < 32" for n
    using that by (cases n) (auto simp: bit_simps)
  moreover have "x <s 0 \<longleftrightarrow> bit x 31"
    by (simp add: word_sless_alt sint_uint bit_uint_iff signed_take_bit_negative_iff)
  ultimately show ?thesis
    by (intro bit_word_eqI) (simp add: bit_simps)
qed

lemma sless_0_iff: "(x :: int32) <s 0 \<longleftrightarrow> bit x 31"
  by (simp add: word_sless_alt sint_uint bit_uint_iff signed_take_bit_negative_iff)

lemma sless_0_uint: "(x :: int32) <s 0 \<longleftrightarrow> 2 ^ 31 \<le> uint x"
proof -
  have "bit (uint x) 31 \<longleftrightarrow> odd (uint x div 2 ^ 31)" by (rule bit_iff_odd)
  then have b: "bit x 31 \<longleftrightarrow> odd (uint x div 2 ^ 31)" by (simp add: bit_uint_iff)
  have u: "0 \<le> uint x" "uint x < 2 ^ 32" using uint_lt2p[of x] by simp_all
  show ?thesis
  proof (cases "uint x < 2 ^ 31")
    case True
    with u b show ?thesis unfolding sless_0_iff by simp
  next
    case False
    then have "uint x div 2 ^ 31 = 1" using u by simp
    with b False show ?thesis unfolding sless_0_iff by simp
  qed
qed

lemma sint_by_sign: "sint (x :: int32) = (if x <s 0 then uint x - 2 ^ 32 else uint x)"
proof -
  have "sint x = take_bit (Suc 31) (uint x) - 2 ^ Suc 31 * of_bool (bit (uint x) 31)"
    by (simp add: sint_uint signed_take_bit_eq_take_bit_minus)
  also have "take_bit (Suc 31) (uint x) = uint x" using uint_lt2p[of x] by (simp add: take_bit_int_eq_self_iff)
  finally show ?thesis unfolding sless_0_iff by (simp add: bit_uint_iff)
qed

lemma shift_c_bool: "signed_drop_bit 31 (x :: int32) AND 1 = c_bool (x <s 0)"
  by (simp add: sign_spread)

lemma sign_mask_and: "(push_bit 31 1 AND signed_drop_bit 31 (x :: int32) = 0) = (\<not> x <s 0)"
  by (simp add: sign_spread)

lemma one_and_c_bool: "1 AND c_bool p = c_bool p"
  by (simp add: c_bool_def)

lemma xor_eq_0: "(a XOR b = 0) = (a = (b :: int32))"
  by (auto simp: bit_eq_iff bit_xor_iff)

lemma signed_le_by_sign:
  fixes a b :: int
  assumes "0 \<le> a" "a < 2 ^ 32" "0 \<le> b" "b < 2 ^ 32"
  shows "(if 2 ^ 31 \<le> a then a - 2 ^ 32 else a) \<le> (if 2 ^ 31 \<le> b then b - 2 ^ 32 else b) \<longleftrightarrow>
    (if (2 ^ 31 \<le> a) = (2 ^ 31 \<le> b) then \<not> 2 ^ 31 \<le> (if a \<le> b then b - a else b - a + 2 ^ 32) else 2 ^ 31 \<le> a)"
  using assms by auto

lemma logicalNeg_test: "logicalNeg x = test_logicalNeg x"
proof -
  have "(x OR - x) <s 0 \<longleftrightarrow> x \<noteq> 0"
  proof (cases "x = 0")
    case False
    then have "uint (- x) = 2 ^ 32 - uint x"
      using uint_lt2p[of x] by (simp add: uint_word_ariths uint_0_iff zmod_zminus1_eq_if)
    then have "x <s 0 \<or> - x <s 0" by (auto simp: sless_0_uint)
    with False show ?thesis by (auto simp: sless_0_iff bit_or_iff)
  qed simp
  then show ?thesis
    by (simp add: logicalNeg_def test_logicalNeg_def not_plus_1 sign_spread c_not_def)
qed

lemma isLessOrEqual_test: "isLessOrEqual x y = test_isLessOrEqual x y"
proof -
  let ?x = "x <s 0" and ?y = "y <s 0" and ?d = "y - x <s 0"
  have high: "(z AND push_bit 31 1) <s 0 \<longleftrightarrow> z <s 0" for z :: int32
    unfolding sless_0_iff by (simp add: bit_simps)
  have xor: "((x AND push_bit 31 1) XOR (y AND push_bit 31 1)) <s 0 \<longleftrightarrow> ?x \<noteq> ?y"
    unfolding sless_0_iff by (simp add: bit_simps)
  have "isLessOrEqual x y = c_bool (if ?x = ?y then \<not> ?d else ?x)"
    unfolding isLessOrEqual_def Let_def not_plus_1 shift_c_bool xor
    by (simp add: sign_spread high[simplified] one_and_c_bool)
  moreover have "x \<le>s y \<longleftrightarrow> (if ?x = ?y then \<not> ?d else ?x)"
    using signed_le_by_sign[of "uint x" "uint y"] uint_lt2p[of x] uint_lt2p[of y]
    by (simp only: word_sle_eq sint_by_sign sless_0_uint uint_sub_if') simp
  ultimately show ?thesis by (simp add: test_isLessOrEqual_def)
qed

lemma isAsciiDigit_test: "isAsciiDigit x = test_isAsciiDigit x"
proof -
  have "isAsciiDigit x = c_bool (\<not> x + 0x7FFFFFC6 <s 0 \<and> \<not> x - 0x30 <s 0)"
  proof -
    have "NOT (push_bit 31 1 OR 0x39) = (0x7FFFFFC6 :: int32)" "NOT 0x30 = (- 0x31 :: int32)" by simp_all
    then have const: "NOT (push_bit 31 1 OR 0x39) + x = x + 0x7FFFFFC6" "NOT 0x30 + x + 1 = x - 0x30"
      by (simp_all only: add.commute) simp_all
    show ?thesis
      unfolding isAsciiDigit_def Let_def const by (auto simp: c_not_def sign_spread)
  qed
  also have "(\<not> x + 0x7FFFFFC6 <s 0 \<and> \<not> x - 0x30 <s 0) = (0x30 \<le>s x \<and> x \<le>s 0x39)"
    using uint_lt2p[of x]
    by (simp add: word_sle_eq sint_by_sign[of x] sless_0_uint uint_sub_if' uint_plus_if') arith
  finally show ?thesis by (simp add: test_isAsciiDigit_def)
qed

lemma and_push_1: "n < 32 \<Longrightarrow> (x AND push_bit n 1 = 0) = (\<not> bit (x :: int32) n)"
proof -
  have conj: "x AND push_bit n 1 = (if bit x n then push_bit n 1 else 0)"
    by (rule bit_word_eqI) (auto simp: bit_simps)
  assume "n < 32"
  then have "bit (push_bit n 1 :: int32) n" by (simp add: bit_simps)
  then have "push_bit n 1 \<noteq> (0 :: int32)" by (metis bit_0_eq bot_apply bot_bool_def)
  with conj show ?thesis by simp
qed

lemma allOddBits_test: "allOddBits x = test_allOddBits x"
proof -
  have "allOddBits x = c_bool (0xAAAAAAAA AND x = 0xAAAAAAAA)"
    by (simp add: allOddBits_def c_not_def xor_eq_0)
  also have "(0xAAAAAAAA AND x = 0xAAAAAAAA) = list_all (\<lambda>n. bit (0xAAAAAAAA :: int32) n \<longrightarrow> bit x n) [0..<32]"
    by (auto simp: bit_eq_iff bit_and_iff list_all_iff)
  also have "\<dots> = list_all (\<lambda>k. x AND push_bit (2 * k + 1) 1 \<noteq> 0) [0..<16]"
  proof -
    have "list_all (\<lambda>k. x AND push_bit (2 * k + 1) 1 \<noteq> 0) [0..<16] = list_all (\<lambda>k. bit x (2 * k + 1)) [0..<16]"
    proof (rule list.pred_cong[OF refl])
      fix k :: nat assume "k \<in> set [0..<16]"
      then have "2 * k + 1 < 32" by simp
      then show "(x AND push_bit (2 * k + 1) 1 \<noteq> 0) = bit x (2 * k + 1)" by (simp only: and_push_1 not_not)
    qed
    then show ?thesis by (simp only:) (simp add: upt_rec, simp add: numeral_eq_Suc)
  qed
  finally show ?thesis by (simp add: test_allOddBits_def)
qed

section \<open>howManyBits\<close>

fun bitlen :: "nat \<Rightarrow> nat" where
  "bitlen v = (if v = 0 then 0 else Suc (bitlen (v div 2)))"

declare bitlen.simps [simp del]

lemma bitlen_0 [simp]: "bitlen 0 = 0" and bitlen_1 [simp]: "bitlen (Suc 0) = 1"
  by (simp_all add: bitlen.simps)

lemma bitlen_range: "v < 2 ^ bitlen v" "v \<noteq> 0 \<Longrightarrow> 2 ^ (bitlen v - 1) \<le> v"
proof (induction v rule: bitlen.induct)
  case (1 v)
  show "v < 2 ^ bitlen v"
    using 1(1) by (cases "v = 0") (simp_all add: bitlen.simps[of v] div_less_iff_less_mult)
  show "2 ^ (bitlen v - 1) \<le> v" if "v \<noteq> 0"
  proof (cases "v div 2 = 0")
    case True
    with that show ?thesis by (simp add: bitlen.simps[of v])
  next
    case False
    with 1(2) that have "2 ^ (bitlen (v div 2) - 1) \<le> v div 2" by simp
    moreover have "bitlen (v div 2) \<noteq> 0" using False by (simp add: bitlen.simps[of "v div 2"])
    ultimately show ?thesis using that
      by (cases "bitlen (v div 2)") (simp_all add: bitlen.simps[of v])
  qed
qed

lemma bitlen_shift: "v div 2 ^ k \<noteq> 0 \<Longrightarrow> bitlen v = k + bitlen (v div 2 ^ k)"
proof (induction k arbitrary: v)
  case (Suc k)
  have "v div 2 div 2 ^ k = v div 2 ^ Suc k" by (simp add: div_mult2_eq)
  with Suc have "bitlen (v div 2) = k + bitlen (v div 2 ^ Suc k)" by simp
  moreover have "v \<noteq> 0" using Suc.prems by (intro notI) simp
  ultimately show ?case by (simp add: bitlen.simps[of v])
qed simp

lemma count_shifts_bitlen: "count_shifts a cnt = cnt + of_nat (bitlen (unat a))"
proof (induction a cnt rule: count_shifts.induct)
  case (1 a cnt)
  show ?case
  proof (cases "a = 0")
    case True
    then show ?thesis by (simp add: count_shifts.simps)
  next
    case False
    then have "unat a \<noteq> 0" by (simp add: unat_eq_zero)
    with False 1 show ?thesis
      by (simp add: count_shifts.simps[of a] bitlen.simps[of "unat a"] drop_bit_eq_div unat_div)
  qed
qed

text \<open>On a non-negative word the arithmetic shift divides.\<close>

lemma shift_nonneg:
  assumes "\<not> (x :: int32) <s 0"
  shows "signed_drop_bit n x = drop_bit n x"
proof (rule bit_word_eqI)
  fix i assume "i < LENGTH(32)"
  then show "bit (signed_drop_bit n x) i = bit (drop_bit n x) i"
    using assms unfolding sless_0_iff by (auto simp: bit_simps not_less dest: bit_imp_le_length)
qed

lemma sless_0_unat: "(x :: int32) <s 0 \<longleftrightarrow> 2 ^ 31 \<le> unat x"
  unfolding sless_0_uint uint_nat by (metis of_nat_le_iff of_nat_numeral of_nat_power)

text \<open>One halving step: the shift amount is \<open>2 ^ j\<close> when a bit above it is set.\<close>

lemma halving_step:
  fixes x :: int32
  assumes "unat x < 2 ^ (2 * k)" and "unat x < 2 ^ 31" and "k = 2 ^ j" and "j \<le> 4"
  shows "\<exists>c. push_bit j (c_not (c_not (signed_drop_bit k x))) = of_nat c \<and> c \<le> k \<and>
    unat (signed_drop_bit (unat (of_nat c :: int32)) x) < 2 ^ k \<and>
    unat (signed_drop_bit (unat (of_nat c :: int32)) x) < 2 ^ 31 \<and>
    bitlen (unat x) = c + bitlen (unat (signed_drop_bit (unat (of_nat c :: int32)) x))"
proof -
  have nonneg: "\<not> x <s 0" using assms(2) by (simp only: sless_0_unat not_le)
  have sh: "unat (signed_drop_bit n x) = unat x div 2 ^ n" for n
    by (simp add: shift_nonneg[OF nonneg] unat_drop_bit_eq flip: drop_bit_eq_div)
  have zero: "signed_drop_bit k x = 0 \<longleftrightarrow> unat x div 2 ^ k = 0" by (simp only: sh[symmetric] unat_eq_zero)
  have k16: "k \<le> 16" using assms(3,4) power_increasing[of j 4 "2::nat"] by simp
  show ?thesis
  proof (cases "unat x div 2 ^ k = 0")
    case True
    then have "unat x < 2 ^ k" by (simp add: div_eq_0_iff)
    then show ?thesis using True zero sh[of 0] assms(2) by (intro exI[of _ 0]) (simp add: c_not_def)
  next
    case False
    have "unat x div 2 ^ k < 2 ^ k" using assms(1) by (simp add: div_less_iff_less_mult mult_2 power_add)
    moreover have "unat x div 2 ^ k < 2 ^ 31" using assms(2) div_le_dividend le_less_trans by blast
    moreover have "unat (of_nat k :: int32) = k" using k16 by (simp add: unat_of_nat)
    moreover have "push_bit j (c_not (c_not (signed_drop_bit k x))) = of_nat k"
      using assms(3) zero False by (simp add: c_not_def push_bit_eq_mult)
    ultimately show ?thesis
      using sh[of k] bitlen_shift[OF False] by (intro exI[of _ k]) (simp only: le_refl simp_thms)
  qed
qed

lemma halving:
  fixes x :: int32
  assumes "unat x < 2 ^ (2 * k)" and "unat x < 2 ^ 31" and "k = 2 ^ j" and "j \<le> 4"
  obtains c y where "push_bit j (c_not (c_not (signed_drop_bit k x))) = of_nat c"
    "y = signed_drop_bit (unat (of_nat c :: int32)) x" "unat y < 2 ^ k" "unat y < 2 ^ 31"
    "bitlen (unat x) = c + bitlen (unat y)"
  using halving_step[OF assms] by blast

text \<open>The magnitude whose bits are counted: \<open>x\<close> or its complement.\<close>

definition magnitude :: "int32 \<Rightarrow> nat" where
  "magnitude x = unat (if x <s 0 then NOT x else x)"

lemma magnitude_bound: "magnitude x < 2 ^ 31"
proof -
  have "\<not> (if x <s 0 then NOT x else x) <s 0" by (simp add: sless_0_iff bit_not_iff)
  then show ?thesis unfolding magnitude_def sless_0_unat by simp
qed

lemma howManyBits_bitlen: "howManyBits x = of_nat (bitlen (magnitude x) + 1)"
proof -
  define x0 where "x0 = (signed_drop_bit 31 x AND NOT x) OR (NOT (signed_drop_bit 31 x) AND x)"
  have x0: "unat x0 = magnitude x" by (simp add: x0_def sign_spread magnitude_def)
  obtain c16 x1 where s16: "push_bit 4 (c_not (c_not (signed_drop_bit 16 x0))) = of_nat c16"
      "x1 = signed_drop_bit (unat (of_nat c16 :: int32)) x0" "unat x1 < 2 ^ 16" "unat x1 < 2 ^ 31"
      "bitlen (unat x0) = c16 + bitlen (unat x1)"
    by (rule halving[of x0 16 4]) (use magnitude_bound[of x] x0 in simp_all)
  obtain c8 x2 where s8: "push_bit 3 (c_not (c_not (signed_drop_bit 8 x1))) = of_nat c8"
      "x2 = signed_drop_bit (unat (of_nat c8 :: int32)) x1" "unat x2 < 2 ^ 8" "unat x2 < 2 ^ 31"
      "bitlen (unat x1) = c8 + bitlen (unat x2)"
    by (rule halving[of x1 8 3]) (use s16(3,4) in simp_all)
  obtain c4 x3 where s4: "push_bit 2 (c_not (c_not (signed_drop_bit 4 x2))) = of_nat c4"
      "x3 = signed_drop_bit (unat (of_nat c4 :: int32)) x2" "unat x3 < 2 ^ 4" "unat x3 < 2 ^ 31"
      "bitlen (unat x2) = c4 + bitlen (unat x3)"
    by (rule halving[of x2 4 2]) (use s8(3,4) in simp_all)
  obtain c2 x4 where s2: "push_bit 1 (c_not (c_not (signed_drop_bit 2 x3))) = of_nat c2"
      "x4 = signed_drop_bit (unat (of_nat c2 :: int32)) x3" "unat x4 < 2 ^ 2" "unat x4 < 2 ^ 31"
      "bitlen (unat x3) = c2 + bitlen (unat x4)"
    by (rule halving[of x3 2 1]) (use s4(3,4) in simp_all)
  obtain c1 x5 where s1: "push_bit 0 (c_not (c_not (signed_drop_bit 1 x4))) = of_nat c1"
      "x5 = signed_drop_bit (unat (of_nat c1 :: int32)) x4" "unat x5 < 2 ^ 1" "unat x5 < 2 ^ 31"
      "bitlen (unat x4) = c1 + bitlen (unat x5)"
    by (rule halving[of x4 1 0]) (use s2(3,4) in simp_all)
  have b1: "c_not (c_not (signed_drop_bit 1 x4)) = of_nat c1" using s1(1) by simp
  have "unat x5 = 0 \<or> unat x5 = Suc 0" using s1(3) by auto
  then have "bitlen (unat x5) = unat x5" by auto
  then have x5: "x5 = of_nat (bitlen (unat x5))" by simp
  have "howManyBits x = of_nat c16 + of_nat c8 + of_nat c4 + of_nat c2 + of_nat c1 + x5 + 1"
    unfolding howManyBits_def Let_def x0_def[symmetric] s16(1) s16(2)[symmetric] s8(1) s8(2)[symmetric]
      s4(1) s4(2)[symmetric] s2(1) s2(2)[symmetric] b1 s1(2)[symmetric] ..
  also have "\<dots> = of_nat (bitlen (unat x0) + 1)"
    unfolding s16(5) s8(5) s4(5) s2(5) s1(5) by (subst x5) simp
  finally show ?thesis by (simp only: x0)
qed

lemma howManyBits_test: "howManyBits x = test_howManyBits x"
proof -
  have "- x - 1 = NOT x" by (simp add: not_eq_complement)
  then show ?thesis
    by (simp add: howManyBits_bitlen test_howManyBits_def count_shifts_bitlen magnitude_def)
qed

lemma bitlen_le: "v < 2 ^ n \<Longrightarrow> bitlen v \<le> n"
proof (rule ccontr)
  assume v: "v < 2 ^ n" and n: "\<not> bitlen v \<le> n"
  then have "v \<noteq> 0" by (intro notI) simp
  then have "2 ^ (bitlen v - 1) \<le> v" by (rule bitlen_range)
  moreover have "(2::nat) ^ n \<le> 2 ^ (bitlen v - 1)" using n by (intro power_increasing) auto
  ultimately show False using v by linarith
qed

lemma magnitude_sint: "int (magnitude x) = (if x <s 0 then - sint x - 1 else sint x)"
proof -
  have "uint (NOT x) = 2 ^ 32 - 1 - uint x"
  proof -
    have "NOT x = - 1 - x" by (simp add: not_eq_complement)
    then show ?thesis using uint_lt2p[of x] by (simp add: uint_sub_if' unsigned_minus_1_eq_mask mask_eq_exp_minus_1)
  qed
  then show ?thesis by (simp add: magnitude_def sint_by_sign)
qed

lemma fits_magnitude: "- (2 ^ n) \<le> sint x \<and> sint x < 2 ^ n \<longleftrightarrow> magnitude x < 2 ^ n"
proof -
  have "magnitude x < 2 ^ n \<longleftrightarrow> int (magnitude x) < 2 ^ n" by (metis of_nat_less_iff of_nat_numeral of_nat_power)
  also have "\<dots> \<longleftrightarrow> - (2 ^ n) \<le> sint x \<and> sint x < 2 ^ n"
  proof (cases "x <s 0")
    case True
    then have "sint x < 0" by (simp add: word_sless_alt)
    with True show ?thesis unfolding magnitude_sint by auto
  next
    case False
    then have "0 \<le> sint x" by (simp add: word_sless_alt)
    with False show ?thesis unfolding magnitude_sint
      by (auto intro: order_trans[of _ 0])
  qed
  finally show ?thesis ..
qed

end
