(* ===== verification/BitsFloat.thy ===== *)
theory BitsFloat
  imports Bits
begin

text \<open>
  The floating-point puzzles of \<open>labs/data/bits.c\<close> against the value a single-precision word
  stands for, and the properties of all puzzles of the lab. The value of a finite word is
  an integer number of units of \<open>2 ^ -149\<close>, the smallest denormal.
\<close>

section \<open>Single-precision words\<close>

definition fexp :: "uint32 \<Rightarrow> nat" where
  "fexp u = unat (take_bit 8 (drop_bit 23 u))"

definition ffrac :: "uint32 \<Rightarrow> nat" where
  "ffrac u = unat (take_bit 23 u)"

definition fmag :: "uint32 \<Rightarrow> nat" where
  "fmag u = (if fexp u = 0 then ffrac u else (2 ^ 23 + ffrac u) * 2 ^ (fexp u - 1))"

definition fval :: "uint32 \<Rightarrow> int" where
  "fval u = (if bit u 31 then - int (fmag u) else int (fmag u))"

lemma fexp_bound: "fexp u < 256" and ffrac_bound: "ffrac u < 2 ^ 23"
  using take_bit_nat_less_exp[of 8 "unat (drop_bit 23 u)"] take_bit_nat_less_exp[of 23 "unat u"]
  by (simp_all only: fexp_def ffrac_def unsigned_take_bit_eq) simp_all

lemma masks: "(0x7f800000 :: uint32) = push_bit 23 (mask 8)" "(0x807fffff :: uint32) = NOT (push_bit 23 (mask 8))"
  "(0x007fffff :: uint32) = mask 23" "(0x7fffffff :: uint32) = mask 31"
  by (simp_all add: mask_eq_exp_minus_1)

lemma exp_field: "drop_bit 23 (u AND 0x7f800000) = take_bit 8 (drop_bit 23 (u :: uint32))"
  unfolding masks by (rule bit_word_eqI) (auto simp: bit_simps)

lemma exp_word: "drop_bit 23 (u AND 0x7f800000) = (of_nat (fexp u) :: uint32)"
  by (simp only: exp_field fexp_def) simp

lemma bit_powers: "bit (push_bit 31 1 :: uint32) n \<longleftrightarrow> n = 31" "bit (2147483648 :: uint32) n \<longleftrightarrow> n = 31"
  "bit (8388608 :: uint32) n \<longleftrightarrow> n = 23"
proof -
  show b: "bit (push_bit 31 1 :: uint32) n \<longleftrightarrow> n = 31" by (simp only: bit_simps) auto
  have "(2147483648 :: uint32) = push_bit 31 1" by simp
  with b show "bit (2147483648 :: uint32) n \<longleftrightarrow> n = 31" by (simp only:)
  have "(8388608 :: uint32) = push_bit 23 1" by simp
  moreover have "bit (push_bit 23 1 :: uint32) n \<longleftrightarrow> n = 23" by (simp only: bit_simps) auto
  ultimately show "bit (8388608 :: uint32) n \<longleftrightarrow> n = 23" by (simp only:)
qed

text \<open>The word assembled from an exponent field and the other bits of \<open>u\<close>.\<close>

lemma assembled:
  fixes u :: uint32
  assumes "e < 256"
  defines "r \<equiv> push_bit 23 (of_nat e) OR (u AND 0x807fffff)"
  shows "fexp r = e" and "ffrac r = ffrac u" and "bit r 31 = bit u 31"
proof -
  have e: "take_bit 8 (of_nat e :: uint32) = of_nat e"
    using assms(1) by (simp add: take_bit_eq_mod word_arith_nat_mod unat_of_nat)
  have e8: "bit (of_nat e :: uint32) n \<Longrightarrow> n < 8" for n
    using e by (metis bit_take_bit_iff)
  have "take_bit 8 (drop_bit 23 r) = take_bit 8 (of_nat e)"
    unfolding r_def masks by (rule bit_word_eqI) (auto simp: bit_simps)
  then show "fexp r = e" using assms(1) e by (simp add: fexp_def unat_of_nat)
  have "take_bit 23 r = take_bit 23 u"
    unfolding r_def masks by (rule bit_word_eqI) (auto simp: bit_simps)
  then show "ffrac r = ffrac u" by (simp add: ffrac_def)
  show "bit r 31 = bit u 31"
    unfolding r_def masks using e8[of 8] by (auto simp: bit_simps)
qed

section \<open>floatScale2\<close>

lemma scale_denormal:
  fixes u :: uint32
  assumes "fexp u = 0"
  defines "r \<equiv> push_bit 1 u OR (u AND push_bit 31 1)"
  shows "fexp r = ffrac u div 2 ^ 22" and "ffrac r = 2 * ffrac u mod 2 ^ 23" and "bit r 31 = bit u 31"
proof -
  have z: "take_bit 8 (drop_bit 23 u) = 0" using assms(1) by (simp add: fexp_def unat_eq_zero)
  have hi: "\<not> bit u n" if "23 \<le> n" "n < 31" for n
  proof -
    have "bit (take_bit 8 (drop_bit 23 u)) (n - 23) = bit u n" using that by (auto simp: bit_simps)
    with z show ?thesis by simp
  qed
  have "take_bit 23 r = take_bit 23 (push_bit 1 u)"
    unfolding r_def by (rule bit_word_eqI) (auto simp: bit_simps)
  moreover have "unat (take_bit 23 (push_bit 1 u)) = 2 * unat u mod 2 ^ 23"
    by (simp only: unsigned_take_bit_eq unsigned_push_bit_eq take_bit_take_bit)
      (simp add: take_bit_eq_mod push_bit_eq_mult mult.commute)
  moreover have "2 * unat u mod 2 ^ 23 = 2 * ffrac u mod 2 ^ 23"
    by (simp only: ffrac_def unsigned_take_bit_eq) (simp add: take_bit_eq_mod mod_mult_right_eq)
  ultimately show "ffrac r = 2 * ffrac u mod 2 ^ 23" by (simp add: ffrac_def)
  have "take_bit 8 (drop_bit 23 r) = drop_bit 22 (take_bit 23 u)"
  proof (rule bit_word_eqI)
    fix n assume "n < LENGTH(32)"
    then show "bit (take_bit 8 (drop_bit 23 r)) n = bit (drop_bit 22 (take_bit 23 u)) n"
      using hi[of "22 + n"] unfolding r_def
      by (simp only: bit_take_bit_iff bit_drop_bit_eq o_def bit_or_iff bit_and_iff bit_push_bit_iff bit_powers(1))
        (cases "n = 0"; auto)
  qed
  then show "fexp r = ffrac u div 2 ^ 22"
    by (simp only: fexp_def ffrac_def unat_drop_bit_eq) (simp only: drop_bit_eq_div)
  show "bit r 31 = bit u 31"
    unfolding r_def using hi[of 30]
    by (simp only: bit_or_iff bit_and_iff bit_push_bit_iff bit_powers(1)) simp
qed

lemma scale_denormal_value:
  assumes "fexp u = 0"
  shows "fval (push_bit 1 u OR (u AND push_bit 31 1)) = 2 * fval u"
proof -
  let ?r = "push_bit 1 u OR (u AND push_bit 31 1)" and ?f = "ffrac u"
  note R = scale_denormal[OF assms]
  have f: "?f < 2 ^ 23" by (rule ffrac_bound)
  have "fmag ?r = 2 * ?f"
  proof (cases "?f < 2 ^ 22")
    case True
    then show ?thesis by (simp only: fmag_def R) simp
  next
    case False
    then have "?f div 2 ^ 22 = 1" "2 * ?f mod 2 ^ 23 = 2 * ?f - 2 ^ 23"
      using f by (simp_all add: mod_if div_if le_div_geq)
    with False show ?thesis by (simp only: fmag_def R) simp
  qed
  then have "fmag ?r = 2 * fmag u" using assms by (simp add: fmag_def)
  then show ?thesis unfolding fval_def R(3) by simp
qed

lemma floatScale2_cases:
  "floatScale2 u = (if fexp u = 0 then push_bit 1 u OR (u AND push_bit 31 1)
     else if fexp u = 255 then u
     else if fexp u = 254 then push_bit 23 (of_nat 255) OR (u AND push_bit 31 1)
     else push_bit 23 (of_nat (fexp u + 1)) OR (u AND 0x807fffff))"
proof -
  have eq: "(of_nat (fexp u) = (of_nat k :: uint32)) = (fexp u = k)" if "k < 256" for k
    using that fexp_bound[of u] by (simp add: of_nat_eq_iff unat_of_nat word_unat_eq_iff take_bit_nat_eq_self_iff)
  have eq': "(of_nat (fexp u) + 1 = (255 :: uint32)) = (fexp u = 254)"
    using eq[of 254] by (auto simp: eq_diff_eq [symmetric])
  show ?thesis
    unfolding floatScale2_def exp_word Let_def
    using eq[of 0] eq[of 255] eq' by (simp add: add.commute)
qed

text \<open>\<open>floatScale2\<close> doubles every finite value, with overflow to infinity, and keeps NaNs.\<close>

lemma floatScale2_value:
  "(if fexp u = 255 then floatScale2 u = u
    else if fexp u = 254 then fexp (floatScale2 u) = 255 \<and> ffrac (floatScale2 u) = 0 \<and> bit (floatScale2 u) 31 = bit u 31
    else fexp (floatScale2 u) \<noteq> 255 \<and> fval (floatScale2 u) = 2 * fval u)"
proof -
  consider "fexp u = 0" | "fexp u = 255" | "fexp u = 254" | "fexp u \<noteq> 0" "fexp u < 254"
    using fexp_bound[of u] by linarith
  then show ?thesis
  proof cases
    case 1
    have "fexp (floatScale2 u) = ffrac u div 2 ^ 22" unfolding floatScale2_cases using 1 scale_denormal(1) by simp
    moreover have "ffrac u div 2 ^ 22 < 2" using ffrac_bound[of u] by (simp add: div_less_iff_less_mult)
    ultimately show ?thesis unfolding floatScale2_cases using 1 scale_denormal_value by simp
  next
    case 2
    then show ?thesis by (simp add: floatScale2_cases)
  next
    case 3
    let ?v = "u AND push_bit 31 1"
    have v: "?v AND 0x807fffff = ?v" unfolding masks by (rule bit_word_eqI) (auto simp: bit_simps bit_powers simp del: bit_numeral_word_iff)
    have "ffrac ?v = 0"
    proof -
      have "take_bit 23 ?v = 0" by (rule bit_word_eqI) (auto simp: bit_simps)
      then show ?thesis by (simp add: ffrac_def)
    qed
    moreover have "bit ?v 31 = bit u 31" by (simp add: bit_simps)
    ultimately show ?thesis
      using assembled[of 255 ?v] 3 unfolding v by (simp add: floatScale2_cases)
  next
    case 4
    let ?e = "fexp u + 1"
    have r: "floatScale2 u = push_bit 23 (of_nat ?e) OR (u AND 0x807fffff)"
      using 4 by (simp add: floatScale2_cases)
    have "?e < 256" using 4 by simp
    note A = assembled[OF this, of u]
    have "fmag (floatScale2 u) = 2 * fmag u"
    proof -
      obtain k where "fexp u = Suc k" using 4(1) by (cases "fexp u") simp
      then show ?thesis unfolding fmag_def r A by simp
    qed
    then show ?thesis using 4 A r unfolding fval_def by simp
  qed
qed

section \<open>floatFloat2Int\<close>

text \<open>The value rounded towards zero to an integer.\<close>

definition ftrunc :: "uint32 \<Rightarrow> int" where
  "ftrunc u = (if bit u 31 then - int (fmag u div 2 ^ 149) else int (fmag u div 2 ^ 149))"

definition int_range :: "int \<Rightarrow> bool" where
  "int_range v \<longleftrightarrow> - (2 ^ 31) \<le> v \<and> v < 2 ^ 31"

lemma exp_signed: "sint (of_nat (fexp u) - 127 :: int32) = int (fexp u) - 127"
proof -
  have w: "(of_nat (fexp u) - 127 :: int32) = of_int (int (fexp u) - 127)" by simp
  have "signed_take_bit 31 (int (fexp u) - 127) = int (fexp u) - 127"
    using fexp_bound[of u] by (intro signed_take_bit_int_eq_self) simp_all
  then show ?thesis unfolding w signed_of_int by simp
qed

lemma frac_word: "(u AND 0x007fffff) OR 0x00800000 = (of_nat (2 ^ 23 + ffrac u) :: int32)"
proof -
  have d: "(u AND 0x007fffff) AND 0x00800000 = (0 :: int32)"
    unfolding masks by (rule bit_word_eqI) (auto simp: bit_simps bit_powers simp del: bit_numeral_word_iff)
  have disj: "(u AND 0x007fffff) OR 0x00800000 = (u AND 0x007fffff) + 0x00800000"
    using disjunctive_add[of "u AND 0x007fffff" "0x00800000 :: int32"] d by (metis bit_0_eq bit_and_iff bot_apply bot_bool_def)
  have "u AND 0x007fffff = of_nat (ffrac u)"
    unfolding masks ffrac_def by (simp flip: take_bit_eq_mask)
  then show ?thesis unfolding disj by (simp only:) simp
qed

lemma nonzero_word: "u AND 0x7fffffff = 0 \<longleftrightarrow> fexp u = 0 \<and> ffrac (u :: uint32) = 0"
proof -
  have "u AND 0x7fffffff = 0 \<longleftrightarrow> take_bit 31 u = 0" unfolding masks by (simp add: take_bit_eq_mask)
  also have "\<dots> \<longleftrightarrow> take_bit 8 (drop_bit 23 u) = 0 \<and> take_bit 23 u = 0"
  proof
    assume a: "take_bit 31 u = 0"
    have "take_bit 8 (drop_bit 23 u) = drop_bit 23 (take_bit 31 u)" "take_bit 23 u = take_bit 23 (take_bit 31 u)"
      by (rule bit_word_eqI, auto simp: bit_simps)+
    with a show "take_bit 8 (drop_bit 23 u) = 0 \<and> take_bit 23 u = 0" by simp
  next
    assume a: "take_bit 8 (drop_bit 23 u) = 0 \<and> take_bit 23 u = 0"
    have "take_bit 31 u = push_bit 23 (take_bit 8 (drop_bit 23 u)) OR take_bit 23 u"
      by (rule bit_word_eqI) (auto simp: bit_simps)
    with a show "take_bit 31 u = 0" by simp
  qed
  finally show ?thesis by (simp add: fexp_def ffrac_def unat_eq_zero)
qed

lemma sign_word: "drop_bit 31 u = (if bit u 31 then 1 else 0 :: uint32)"
proof (rule bit_word_eqI)
  fix n assume "n < LENGTH(32)"
  then show "bit (drop_bit 31 u) n = bit (if bit u 31 then 1 else 0 :: uint32) n"
    by (cases "n = 0") (auto simp: bit_simps dest: bit_imp_le_length)
qed

text \<open>The last part of the function, on the magnitude that has been shifted into place.\<close>

lemma convert_magnitude:
  fixes w :: nat and s :: bool
  assumes "w < 2 ^ 32"
  defines "v \<equiv> if s then - int w else int w"
  defines "r \<equiv> if signed_drop_bit 31 (of_nat w :: int32) XOR (if s then 1 else 0) = 0 then of_nat w
    else if signed_drop_bit 31 (of_nat w :: int32) \<noteq> 0 then 0x80000000 else NOT (of_nat w) + 1 :: int32"
  shows "if int_range v then sint r = v else r = 0x80000000"
proof (cases "w < 2 ^ 31")
  case True
  then have "\<not> (of_nat w :: int32) <s 0" by (simp add: sless_0_unat unat_of_nat)
  then show ?thesis using True sint_small
    by (simp add: r_def v_def int_range_def sign_spread not_plus_1)
next
  case False
  then have "(of_nat w :: int32) <s 0" using assms(1) by (simp add: sless_0_unat unat_of_nat)
  then have "r = 0x80000000" by (simp add: r_def sign_spread)
  moreover have "sint (0x80000000 :: int32) = - (2 ^ 31)" by simp
  ultimately show ?thesis using False by (auto simp: int_range_def v_def)
qed

lemma pow_split: "150 \<le> e \<Longrightarrow> (2::nat) ^ (e - 1) = 2 ^ (e - 150) * 2 ^ 149"
proof -
  assume "150 \<le> e"
  then have "e - 1 = (e - 150) + 149" by simp
  then show ?thesis by (simp only: power_add)
qed

lemma floatFloat2Int_cases:
  "floatFloat2Int u =
    (if fexp u = 0 \<and> ffrac u = 0 then 0
     else if 158 < fexp u then 0x80000000
     else if fexp u < 127 then 0
     else let frac = (if 150 < fexp u then push_bit (fexp u - 150) (of_nat (2 ^ 23 + ffrac u))
                      else signed_drop_bit (150 - fexp u) (of_nat (2 ^ 23 + ffrac u)))
          in if signed_drop_bit 31 frac XOR (if bit u 31 then 1 else 0) = 0 then frac
             else if signed_drop_bit 31 frac \<noteq> 0 then 0x80000000 else NOT frac + 1)"
proof -
  let ?e = "of_nat (fexp u) - 127 :: int32"
  have c: "31 <s ?e \<longleftrightarrow> 158 < fexp u" "?e <s 0 \<longleftrightarrow> fexp u < 127" "23 <s ?e \<longleftrightarrow> 150 < fexp u"
    by (auto simp: word_sless_alt exp_signed)
  have "unat (?e - 23) = fexp u - 150" if "150 < fexp u"
  proof -
    have e: "?e - 23 = of_nat (fexp u - 150)" using that by (simp add: of_nat_diff)
    show ?thesis unfolding e by (rule unat_below) (use fexp_bound[of u] in simp)
  qed
  moreover have "unat (23 - ?e) = 150 - fexp u" if "fexp u \<le> 150"
  proof -
    have e: "23 - ?e = of_nat (150 - fexp u)" using that by (simp add: of_nat_diff)
    show ?thesis unfolding e by (rule unat_below) simp
  qed
  ultimately show ?thesis
    unfolding floatFloat2Int_def exp_word frac_word nonzero_word sign_word Let_def c
    by (auto simp: not_less)
qed

lemma floatFloat2Int_value:
  "if fexp u = 255 \<or> \<not> int_range (ftrunc u) then floatFloat2Int u = 0x80000000
   else sint (floatFloat2Int u) = ftrunc u"
proof -
  let ?e = "fexp u" and ?m = "2 ^ 23 + ffrac u"
  have f: "ffrac u < 2 ^ 23" by (rule ffrac_bound)
  have mag: "fmag u = ?m * 2 ^ (?e - 1)" if "?e \<noteq> 0" using that by (simp add: fmag_def)
  consider "?e < 127" | "158 < ?e" | "127 \<le> ?e" "?e \<le> 158" by linarith
  then show ?thesis
  proof cases
    case 1
    have "fmag u < 2 ^ 149"
    proof (cases "?e = 0")
      case True
      then show ?thesis using f by (simp add: fmag_def)
    next
      case False
      have "?m * 2 ^ (?e - 1) < 2 ^ 24 * 2 ^ (?e - 1)" using f by simp
      also have "\<dots> \<le> 2 ^ 24 * 2 ^ 125" using 1 by (intro mult_left_mono power_increasing) auto
      finally show ?thesis using mag[OF False] by simp
    qed
    then have "ftrunc u = 0" by (simp add: ftrunc_def)
    then show ?thesis using 1 by (simp add: floatFloat2Int_cases int_range_def)
  next
    case 2
    then have "fmag u = (?m * 2 ^ (?e - 150)) * 2 ^ 149"
      using mag pow_split[of ?e] by simp
    then have q: "fmag u div 2 ^ 149 = ?m * 2 ^ (?e - 150)" by simp
    have "2 ^ 23 * 2 ^ 9 \<le> ?m * 2 ^ (?e - 150)"
      by (intro mult_mono power_increasing) (use 2 in auto)
    with q have "2 ^ 32 \<le> fmag u div 2 ^ 149" by simp
    then have "2 ^ 32 \<le> int (fmag u div 2 ^ 149)" by (metis of_nat_le_iff of_nat_numeral of_nat_power)
    then have "\<not> int_range (ftrunc u)" by (auto simp: int_range_def ftrunc_def)
    then show ?thesis using 2 by (simp add: floatFloat2Int_cases)
  next
    case 3
    let ?w = "fmag u div 2 ^ 149"
    let ?frac = "if 150 < ?e then push_bit (?e - 150) (of_nat ?m) else signed_drop_bit (150 - ?e) (of_nat ?m) :: int32"
    have "?frac = of_nat ?w \<and> ?w < 2 ^ 32"
    proof (cases "150 < ?e")
      case True
      then have "fmag u = (?m * 2 ^ (?e - 150)) * 2 ^ 149"
        using mag pow_split[of ?e] by simp
      then have q: "?w = ?m * 2 ^ (?e - 150)" by simp
      have "?m * 2 ^ (?e - 150) < 2 ^ 24 * 2 ^ (?e - 150)" using f by simp
      also have "\<dots> \<le> 2 ^ 24 * 2 ^ 8" using 3 by (intro mult_left_mono power_increasing) auto
      finally show ?thesis using True q by (simp add: push_bit_eq_mult)
    next
      case False
      then have "149 = (?e - 1) + (150 - ?e)" using 3 by simp
      then have p149: "2 ^ 149 = 2 ^ (?e - 1) * (2 ^ (150 - ?e) :: nat)" by (metis power_add)
      have "fmag u = 2 ^ (?e - 1) * ?m" using mag 3 by (simp add: mult.commute)
      then have q: "?w = ?m div 2 ^ (150 - ?e)" unfolding p149 by (simp only: div_mult_mult1) simp
      have m: "?m < 2 ^ 24" using f by simp
      then have "\<not> (of_nat ?m :: int32) <s 0" by (simp only: sless_0_unat unat_of_nat) simp
      then have "signed_drop_bit (150 - ?e) (of_nat ?m :: int32) = drop_bit (150 - ?e) (of_nat ?m)"
        by (rule shift_nonneg)
      also have "\<dots> = of_nat (?m div 2 ^ (150 - ?e))"
      proof -
        have "?m < 2 ^ 32" using m by simp
        then have u: "unat (of_nat ?m :: int32) = ?m" by (simp only: unat_of_nat) (simp add: take_bit_nat_eq_self_iff)
        have "unat (drop_bit (150 - ?e) (of_nat ?m :: int32)) = ?m div 2 ^ (150 - ?e)"
          unfolding unat_drop_bit_eq u by (simp only: drop_bit_eq_div)
        then show ?thesis by (metis of_nat_unat ucast_id)
      qed
      finally have "?frac = of_nat ?w" using False q by simp
      moreover have "?w < 2 ^ 32"
        unfolding q by (rule le_less_trans[OF div_le_dividend]) (use m in simp)
      ultimately show ?thesis ..
    qed
    then have fr: "?frac = of_nat ?w" and w: "?w < 2 ^ 32" by blast+
    have eq: "floatFloat2Int u =
        (if signed_drop_bit 31 (of_nat ?w :: int32) XOR (if bit u 31 then 1 else 0) = 0 then of_nat ?w
         else if signed_drop_bit 31 (of_nat ?w :: int32) \<noteq> 0 then 0x80000000 else NOT (of_nat ?w) + 1)"
      unfolding floatFloat2Int_cases fr Let_def using 3 by simp
    have "if int_range (ftrunc u) then sint (floatFloat2Int u) = ftrunc u else floatFloat2Int u = 0x80000000"
      unfolding eq ftrunc_def by (rule convert_magnitude[OF w])
    then show ?thesis using 3 by (auto split: if_splits)
  qed
qed

section \<open>floatPower2\<close>

lemma floatPower2_normal:
  assumes "- 126 \<le> sint x" and "sint x \<le> 127"
  shows "fexp (floatPower2 x) = nat (sint x + 127)" "ffrac (floatPower2 x) = 0" "\<not> bit (floatPower2 x) 31"
proof -
  define e where "e = nat (sint x + 127)"
  have e: "1 \<le> e" "e < 255" using assms by (auto simp: e_def)
  have "x + 127 = of_int (sint x) + 127" by simp
  also have "\<dots> = of_int (sint x + 127)" by (simp only: of_int_add of_int_numeral)
  also have "sint x + 127 = int e" using assms by (simp add: e_def)
  finally have x: "x + 127 = of_nat e" by simp
  have "sint (of_nat e :: int32) = int e" using e by (intro sint_small) simp
  then have c: "\<not> x + 127 \<le>s 0" "\<not> 255 \<le>s x + 127"
    unfolding x word_sle_eq using e by simp_all
  have "floatPower2 x = push_bit 23 (of_nat e)"
    using c x by (simp add: floatPower2_def)
  then show "fexp (floatPower2 x) = nat (sint x + 127)" "ffrac (floatPower2 x) = 0" "\<not> bit (floatPower2 x) 31"
    using assembled[of e 0] e by (simp_all add: e_def ffrac_def)
qed

section \<open>Properties\<close>

text \<open>
  C34: every integer puzzle of the data lab computes, for all arguments, what its test function
  computes: xor, the least integer, the test for the greatest one, the odd-bits test,
  negation, the digit test, the conditional, signed comparison, logical negation and the
  number of bits.
\<close>

theorem bits_integer_puzzles:
  "bitXor x y = test_bitXor x y \<and> tmin = test_tmin \<and> isTmax x = test_isTmax x \<and>
   allOddBits x = test_allOddBits x \<and> negate x = test_negate x \<and> isAsciiDigit x = test_isAsciiDigit x \<and>
   conditional x y z = test_conditional x y z \<and> isLessOrEqual x y = test_isLessOrEqual x y \<and>
   logicalNeg x = test_logicalNeg x \<and> howManyBits x = test_howManyBits x"
  by (simp only: bitXor_test tmin_test isTmax_test allOddBits_test negate_test isAsciiDigit_test
      conditional_test isLessOrEqual_test logicalNeg_test howManyBits_test simp_thms)

text \<open>
  \<open>howManyBits\<close> returns the least width, between 1 and 32, whose two's complement range
  contains its argument.
\<close>

theorem howManyBits_least:
  "\<exists>n. unat (howManyBits x) = Suc n \<and> n < 32 \<and> - (2 ^ n) \<le> sint x \<and> sint x < 2 ^ n \<and>
     (n = 0 \<or> sint x < - (2 ^ (n - 1)) \<or> 2 ^ (n - 1) \<le> sint x)"
proof -
  let ?n = "bitlen (magnitude x)"
  have n: "?n \<le> 31" using bitlen_le[OF magnitude_bound] .
  have "unat (howManyBits x) = Suc ?n"
    unfolding howManyBits_bitlen using n by (subst unat_below) simp_all
  moreover have "- (2 ^ ?n) \<le> sint x \<and> sint x < 2 ^ ?n"
    unfolding fits_magnitude by (rule bitlen_range)
  moreover have "sint x < - (2 ^ (?n - 1)) \<or> 2 ^ (?n - 1) \<le> sint x" if "?n \<noteq> 0"
  proof -
    have "magnitude x \<noteq> 0" using that by (intro notI) simp
    then have "\<not> magnitude x < 2 ^ (?n - 1)" using bitlen_range(2) by (simp add: not_less)
    then show ?thesis unfolding fits_magnitude [symmetric] by linarith
  qed
  ultimately show ?thesis using n by (intro exI[of _ ?n]) auto
qed

text \<open>
  \<open>floatScale2\<close> returns infinities and NaNs unchanged, doubles the value of every other
  word exactly (denormals included), and overflows to the infinity of the same sign.
\<close>

theorem floatScale2_spec:
  "(if fexp u = 255 then floatScale2 u = u
    else if fexp u = 254 then fexp (floatScale2 u) = 255 \<and> ffrac (floatScale2 u) = 0 \<and> bit (floatScale2 u) 31 = bit u 31
    else fexp (floatScale2 u) \<noteq> 255 \<and> fval (floatScale2 u) = 2 * fval u)"
  by (rule floatScale2_value)

text \<open>
  \<open>floatFloat2Int\<close> returns the value of its argument rounded towards zero when that is in
  the range of \<open>int\<close>, and \<open>0x80000000\<close> for every other argument, NaNs and infinities
  included.
\<close>

theorem floatFloat2Int_spec:
  "if fexp u \<noteq> 255 \<and> int_range (ftrunc u) then sint (floatFloat2Int u) = ftrunc u
   else floatFloat2Int u = 0x80000000"
  using floatFloat2Int_value[of u] by auto

text \<open>
  for exponents from -126 to 127 \<open>floatPower2\<close> returns the word of value \<open>2 ^ x\<close>, that is
  \<open>2 ^ (x + 149)\<close> units.
\<close>

theorem floatPower2_spec:
  assumes "- 126 \<le> sint x" and "sint x \<le> 127"
  shows "fexp (floatPower2 x) \<noteq> 255 \<and> fval (floatPower2 x) = 2 ^ nat (sint x + 149)"
proof -
  note P = floatPower2_normal[OF assms]
  have "23 + (nat (sint x + 127) - 1) = nat (sint x + 149)" "nat (sint x + 127) \<noteq> 0" using assms by auto
  then have "fmag (floatPower2 x) = 2 ^ nat (sint x + 149)"
    unfolding fmag_def P using power_add[of "2::nat" 23 "nat (sint x + 127) - 1"] by simp
  then show ?thesis using P assms by (simp add: fval_def)
qed

theorem floatPower2_spec_witness:
  "fexp (floatPower2 3) \<noteq> 255 \<and> fval (floatPower2 3) = 2 ^ 152"
  using floatPower2_spec[of 3] by simp

text \<open>
  outside that range \<open>floatPower2\<close> does not do what its comment asks for: \<open>2 ^ -149\<close> and
  \<open>2 ^ -127\<close> are denormals (1 and \<open>2 ^ 22\<close> units) but it returns 0 for them, and for the
  largest \<open>int\<close> the addition of the bias overflows and it returns 0, not infinity.
\<close>

theorem floatPower2_defects:
  "floatPower2 (- 149) = 0 \<and> fval 1 = 1 \<and> floatPower2 (- 127) = 0 \<and> fval 0x00400000 = 2 ^ 22 \<and>
   floatPower2 0x7fffffff = 0"
  by (simp add: floatPower2_def fval_def fmag_def fexp_def ffrac_def word_sle_eq)

end
