(* ===== verification/Trans.thy ===== *)
theory Trans
  imports Prelude
begin

text \<open>
  The matrix transposes of the cache lab: \<open>labs/cachelab-handout/trans.c\<close>, and
  \<open>correctTrans\<close> and the table of registered functions of \<open>cachelab.c\<close>. A matrix
  \<open>int A[N][M]\<close> is the memory it occupies, row by row, so that an index that leaves its row
  reaches the next one as in C; \<open>A\<close> and \<open>B\<close> are different arrays.
\<close>

type_synonym matrix = "nat \<Rightarrow> int32"

section \<open>Loops with a step\<close>

function for_step :: "nat \<Rightarrow> nat \<Rightarrow> nat \<Rightarrow> (nat \<Rightarrow> 's \<Rightarrow> 's) \<Rightarrow> 's \<Rightarrow> 's" where
  "for_step step lo hi body s =
     (if lo < hi \<and> 0 < step then for_step step (lo + step) hi body (body lo s) else s)"
  by pat_completeness auto
termination by (relation "measure (\<lambda>(step, lo, hi, body, s). hi - lo)") auto

declare for_step.simps [simp del]

lemma for_step_blocks:
  "0 < w \<Longrightarrow> for_step w (w * m) (w * (m + n)) body s = fold (\<lambda>q. body (w * q)) [m..<m + n] s"
proof (induction n arbitrary: m s)
  case 0
  then show ?case by (simp add: for_step.simps)
next
  case (Suc n)
  have "for_step w (w * m) (w * (m + Suc n)) body s = for_step w (w * Suc m) (w * (Suc m + n)) body (body (w * m) s)"
    using Suc.prems by (subst for_step.simps) (simp add: algebra_simps)
  also have "\<dots> = fold (\<lambda>q. body (w * q)) [Suc m..<Suc m + n] (body (w * m) s)" by (rule Suc.IH[OF Suc.prems])
  finally have step: "for_step w (w * m) (w * (m + Suc n)) body s = fold (\<lambda>q. body (w * q)) [Suc m..<Suc m + n] (body (w * m) s)" .
  have "[m..<m + Suc n] = m # [Suc m..<Suc m + n]" by (simp add: upt_conv_Cons del: upt_Suc)
  then show ?case by (simp only: step fold_simps)
qed

section \<open>The functions\<close>

definition row8 :: "nat \<Rightarrow> nat \<Rightarrow> matrix \<Rightarrow> nat \<Rightarrow> nat \<Rightarrow> matrix \<Rightarrow> matrix" where
  "row8 M N A j k B =
     (let t0 = A (k * M + j); t1 = A (k * M + (j + 1)); t2 = A (k * M + (j + 2)); t3 = A (k * M + (j + 3));
          t4 = A (k * M + (j + 4)); t5 = A (k * M + (j + 5)); t6 = A (k * M + (j + 6)); t7 = A (k * M + (j + 7))
      in B(j * N + k := t0, (j + 1) * N + k := t1, (j + 2) * N + k := t2, (j + 3) * N + k := t3,
           (j + 4) * N + k := t4, (j + 5) * N + k := t5, (j + 6) * N + k := t6, (j + 7) * N + k := t7))"

definition row4 :: "nat \<Rightarrow> nat \<Rightarrow> matrix \<Rightarrow> nat \<Rightarrow> nat \<Rightarrow> matrix \<Rightarrow> matrix" where
  "row4 M N A j k B =
     (let v0 = A (k * M + j); v1 = A (k * M + (j + 1)); v2 = A (k * M + (j + 2)); v3 = A (k * M + (j + 3))
      in B(j * N + k := v0, (j + 1) * N + k := v1, (j + 2) * N + k := v2, (j + 3) * N + k := v3))"

definition transpose_submit :: "nat \<Rightarrow> nat \<Rightarrow> matrix \<Rightarrow> matrix \<Rightarrow> matrix" where
  "transpose_submit M N A B =
     (if M = 32 then
        for_step 8 0 N (\<lambda>i. for_step 8 0 M (\<lambda>j. for_loop i (i + 8) (\<lambda>k. row8 M N A j k))) B
      else if M = 64 then
        for_step 4 0 N (\<lambda>i. for_step 4 0 M (\<lambda>j. for_loop i (i + 4) (\<lambda>k. row4 M N A j k))) B
      else B)"

definition trans_simple :: "nat \<Rightarrow> nat \<Rightarrow> matrix \<Rightarrow> matrix \<Rightarrow> matrix" where
  "trans_simple M N A B =
     for_loop 0 N (\<lambda>i. for_loop 0 M (\<lambda>j B. let tmp = A (i * M + j) in B(j * N + i := tmp))) B"

definition correctTrans :: "nat \<Rightarrow> nat \<Rightarrow> matrix \<Rightarrow> matrix \<Rightarrow> matrix" where
  "correctTrans M N A B =
     for_loop 0 N (\<lambda>i. for_loop 0 M (\<lambda>j B. let tmp = A (i * M + j) in B(j * N + i := tmp))) B"

fun is_transpose_row :: "nat \<Rightarrow> nat \<Rightarrow> matrix \<Rightarrow> matrix \<Rightarrow> nat \<Rightarrow> nat list \<Rightarrow> bool" where
  "is_transpose_row M N A B i [] = True"
| "is_transpose_row M N A B i (j # js) =
     (if A (i * M + j) \<noteq> B (j * N + i) then False else is_transpose_row M N A B i js)"

fun is_transpose_rows :: "nat \<Rightarrow> nat \<Rightarrow> matrix \<Rightarrow> matrix \<Rightarrow> nat list \<Rightarrow> int" where
  "is_transpose_rows M N A B [] = 1"
| "is_transpose_rows M N A B (i # is) =
     (if is_transpose_row M N A B i [0..<M] then is_transpose_rows M N A B is else 0)"

definition is_transpose :: "nat \<Rightarrow> nat \<Rightarrow> matrix \<Rightarrow> matrix \<Rightarrow> int" where
  "is_transpose M N A B = is_transpose_rows M N A B [0..<N]"

section \<open>The table of functions\<close>

record trans_func =
  func_ptr :: "nat \<Rightarrow> nat \<Rightarrow> matrix \<Rightarrow> matrix \<Rightarrow> matrix"
  description :: string
  correct :: int
  num_hits :: nat
  num_misses :: nat
  num_evictions :: nat

definition registerTransFunction ::
  "(nat \<Rightarrow> nat \<Rightarrow> matrix \<Rightarrow> matrix \<Rightarrow> matrix) \<Rightarrow> string \<Rightarrow> trans_func list \<times> nat \<Rightarrow> trans_func list \<times> nat" where
  "registerTransFunction f desc = (\<lambda>(func_list, func_counter).
     (func_list[func_counter := \<lparr>func_ptr = f, description = desc, correct = 0, num_hits = 0,
        num_misses = 0, num_evictions = 0\<rparr>], func_counter + 1))"

definition registerFunctions :: "trans_func list \<times> nat \<Rightarrow> trans_func list \<times> nat" where
  "registerFunctions st =
     registerTransFunction trans_simple ''Simple row-wise scan transpose''
       (registerTransFunction transpose_submit ''Transpose submission'' st)"

section \<open>Every loop as a sequence of element copies\<close>

definition copy1 :: "nat \<Rightarrow> nat \<Rightarrow> matrix \<Rightarrow> nat \<times> nat \<Rightarrow> matrix \<Rightarrow> matrix" where
  "copy1 M N A = (\<lambda>(k, j) B. B(j * N + k := A (k * M + j)))"

lemma same_cell:
  fixes j k :: nat
  assumes "j * N + k = j' * N + k'" and "k < N" and "k' < N"
  shows "j = j' \<and> k = k'"
proof -
  have "(j * N + k) div N = j" "(j * N + k) mod N = k" using assms(2) by simp_all
  moreover have "(j' * N + k') div N = j'" "(j' * N + k') mod N = k'" using assms(3) by simp_all
  ultimately show ?thesis using assms(1) by metis
qed

lemma fold_copy1:
  assumes "\<forall>(k, j)\<in>set ps. k < N"
  shows "fold (copy1 M N A) ps B a =
    (if \<exists>(k, j)\<in>set ps. a = j * N + k then A (a mod N * M + a div N) else B a)"
  using assms
proof (induction ps rule: rev_induct)
  case Nil
  then show ?case by simp
next
  case (snoc p ps)
  obtain k j where p: "p = (k, j)" by (cases p)
  with snoc.prems have k: "k < N" by simp
  show ?case
  proof (cases "a = j * N + k")
    case True
    with k show ?thesis by (auto simp: p copy1_def)
  next
    case False
    with snoc show ?thesis by (auto simp: p copy1_def)
  qed
qed

text \<open>Copies of the same cells in any order give the same matrix.\<close>

lemma fold_copy1_cong:
  assumes "set ps = set qs" and "\<forall>(k, j)\<in>set ps. k < N"
  shows "fold (copy1 M N A) ps B = fold (copy1 M N A) qs B"
  using fold_copy1[of ps N M A B] fold_copy1[of qs N M A B] assms by (intro ext) simp

lemma fold_concat_map: "fold (\<lambda>x. fold f (g x)) xs s = fold f (concat (map g xs)) s"
  by (induction xs arbitrary: s) simp_all

lemma upt4: "[0..<4] = [0, 1, 2, 3]" and upt8: "[0..<8] = [0, 1, 2, 3, 4, 5, 6, 7]"
  by (simp_all add: upt_rec)

lemma row8_copies: "row8 M N A j k = fold (copy1 M N A) (map (\<lambda>d. (k, j + d)) [0..<8])"
  by (rule ext) (simp only: row8_def copy1_def upt8 Let_def list.map fold_simps case_prod_conv add_0_right)

lemma row4_copies: "row4 M N A j k = fold (copy1 M N A) (map (\<lambda>d. (k, j + d)) [0..<4])"
  by (rule ext) (simp only: row4_def copy1_def upt4 Let_def list.map fold_simps case_prod_conv add_0_right)

lemma trans_copies:
  "trans_simple M N A = fold (copy1 M N A) (concat (map (\<lambda>i. map (\<lambda>j. (i, j)) [0..<M]) [0..<N]))"
proof -
  have row: "for_loop 0 M (\<lambda>j B. let tmp = A (i * M + j) in B(j * N + i := tmp)) =
      fold (copy1 M N A) (map (\<lambda>j. (i, j)) [0..<M])" for i
    by (rule ext) (simp add: for_loop_def fold_map comp_def copy1_def)
  show ?thesis
    unfolding trans_simple_def row by (rule ext) (simp only: for_loop_def fold_concat_map)
qed

definition block_cells :: "nat \<Rightarrow> nat \<Rightarrow> nat \<Rightarrow> (nat \<times> nat) list" where
  "block_cells w m n =
     concat (map (\<lambda>q. concat (map (\<lambda>r. concat (map (\<lambda>k. map (\<lambda>d. (k, w * r + d)) [0..<w])
       [w * q..<w * q + w])) [0..<m])) [0..<n])"

lemma block_cells_mem:
  "x \<in> set (block_cells w m n) \<longleftrightarrow>
     (\<exists>q r k d. x = (k, w * r + d) \<and> q < n \<and> r < m \<and> w * q \<le> k \<and> k < w * q + w \<and> d < w)"
  unfolding block_cells_def
  by (simp only: set_concat set_map image_image set_upt UN_iff image_iff Bex_def atLeastLessThan_iff
      le0 simp_thms) blast

lemma block_cells_set:
  assumes w: "0 < w"
  shows "set (block_cells w m n) = {..<w * n} \<times> {..<w * m}"
proof (intro set_eqI iffI)
  fix x assume "x \<in> set (block_cells w m n)"
  then obtain q r k d where *: "x = (k, w * r + d)" "q < n" "r < m" "w * q \<le> k" "k < w * q + w" "d < w"
    unfolding block_cells_mem by blast
  have "w * Suc q \<le> w * n" "w * Suc r \<le> w * m" using *(2,3) by (intro mult_le_mono2, simp)+
  then have "k < w * n" "w * r + d < w * m" using *(5,6) by simp_all
  with *(1) show "x \<in> {..<w * n} \<times> {..<w * m}" by simp
next
  fix x assume "x \<in> {..<w * n} \<times> {..<w * m}"
  then obtain k j where kj: "x = (k, j)" "k < w * n" "j < w * m" by auto
  have "k div w < n" "j div w < m" using kj w by (simp_all add: less_mult_imp_div_less mult.commute)
  moreover have "w * (k div w) \<le> k" "k < w * (k div w) + w" "j = w * (j div w) + j mod w" "j mod w < w"
    using w dividend_less_times_div[OF w, of k] by (simp_all add: add.commute)
  ultimately show "x \<in> set (block_cells w m n)"
    unfolding block_cells_mem kj(1)
    by (intro exI[of _ "k div w"] exI[of _ "j div w"] exI[of _ k] exI[of _ "j mod w"] conjI) simp_all
qed

lemma blocked_copies:
  assumes "0 < w" and row: "\<And>j k. row j k = fold (copy1 M N A) (map (\<lambda>d. (k, j + d)) [0..<w])"
    and M: "M = w * m" and N: "N = w * n"
  shows "for_step w 0 N (\<lambda>i. for_step w 0 M (\<lambda>j. for_loop i (i + w) (\<lambda>k. row j k))) =
     fold (copy1 M N A) (block_cells w m n)"
proof (rule ext)
  fix B
  have loop: "for_loop lo hi body = fold body [lo..<hi]" for lo hi and body :: "nat \<Rightarrow> matrix \<Rightarrow> matrix"
    by (rule ext) (simp add: for_loop_def)
  have step: "for_step w 0 (w * l) body = fold (\<lambda>q. body (w * q)) [0..<l]" for l and body :: "nat \<Rightarrow> matrix \<Rightarrow> matrix"
    using for_step_blocks[OF assms(1), of 0 l body] by (intro ext) simp
  have flat: "fold (\<lambda>x. fold (copy1 M N A) (g x)) xs = fold (copy1 M N A) (concat (map g xs))"
    for g and xs :: "nat list"
    by (rule ext) (rule fold_concat_map)
  show "for_step w 0 N (\<lambda>i. for_step w 0 M (\<lambda>j. for_loop i (i + w) (\<lambda>k. row j k))) B =
      fold (copy1 M N A) (block_cells w m n) B"
    unfolding block_cells_def by (simp only: row loop flat) (simp only: M N step flat[unfolded M N])
qed

lemma blocked_is_trans:
  assumes "0 < w" and "\<And>j k. row j k = fold (copy1 M N A) (map (\<lambda>d. (k, j + d)) [0..<w])"
    and "w dvd M" and "w dvd N"
  shows "for_step w 0 N (\<lambda>i. for_step w 0 M (\<lambda>j. for_loop i (i + w) (\<lambda>k. row j k))) B = trans_simple M N A B"
proof -
  obtain m n where mn: "M = w * m" "N = w * n" using assms(3,4) by (auto simp: dvd_def)
  let ?all = "concat (map (\<lambda>i. map (\<lambda>j. (i, j)) [0..<M]) [0..<N])"
  have cells: "set (block_cells w m n) = {..<N} \<times> {..<M}" using block_cells_set[OF assms(1), of m n] mn by simp
  have all: "set ?all = {..<N} \<times> {..<M}" by auto
  have "fold (copy1 M N A) (block_cells w m n) B = fold (copy1 M N A) ?all B"
    by (rule fold_copy1_cong) (simp_all only: cells all, auto)
  then show ?thesis using blocked_copies[OF assms(1,2) mn] by (simp add: trans_copies)
qed

lemma trans_cell:
  assumes "i < N" and "j < M"
  shows "trans_simple M N A B (j * N + i) = A (i * M + j)"
proof -
  have "\<exists>(k, j')\<in>set (concat (map (\<lambda>i. map (\<lambda>j. (i, j)) [0..<M]) [0..<N])). j * N + i = j' * N + k"
    using assms by (intro bexI[of _ "(i, j)"]) (simp, force)
  then show ?thesis
    unfolding trans_copies by (subst fold_copy1) (use assms in auto)
qed

lemma is_transpose_iff:
  "is_transpose M N A B = (if \<forall>i<N. \<forall>j<M. A (i * M + j) = B (j * N + i) then 1 else 0)"
proof -
  have row: "is_transpose_row M N A B i js = (\<forall>j\<in>set js. A (i * M + j) = B (j * N + i))" for i js
    by (induction js) auto
  have "is_transpose_rows M N A B is =
      (if \<forall>i\<in>set is. \<forall>j<M. A (i * M + j) = B (j * N + i) then 1 else 0)" for "is"
    by (induction "is") (auto simp: row)
  then show ?thesis by (simp add: is_transpose_def)
qed

section \<open>Properties\<close>

text \<open>
  C27: for the sizes it is written for, \<open>M = 32\<close> with \<open>N\<close> a multiple of 8 and \<open>M = 64\<close> with
  \<open>N\<close> a multiple of 4, the blocked \<open>transpose_submit\<close> leaves exactly the memory the
  row-by-row reference \<open>correctTrans\<close> leaves, and \<open>is_transpose\<close> accepts it.
\<close>

theorem transpose_submit_correct:
  assumes "(M = 32 \<and> 8 dvd N) \<or> (M = 64 \<and> 4 dvd N)"
  shows "transpose_submit M N A B = correctTrans M N A B \<and> is_transpose M N A (transpose_submit M N A B) = 1"
proof -
  have "transpose_submit M N A B = trans_simple M N A B"
    using assms
  proof
    assume "M = 32 \<and> 8 dvd N"
    then show ?thesis using blocked_is_trans[OF _ row8_copies, of M N] by (simp add: transpose_submit_def)
  next
    assume "M = 64 \<and> 4 dvd N"
    then show ?thesis using blocked_is_trans[OF _ row4_copies, of M N] by (simp add: transpose_submit_def)
  qed
  then show ?thesis
    using trans_cell by (simp add: trans_simple_def correctTrans_def is_transpose_iff)
qed

theorem transpose_submit_correct_witness:
  "is_transpose 32 32 (\<lambda>a. word_of_nat a) (transpose_submit 32 32 (\<lambda>a. word_of_nat a) (\<lambda>a. 0)) = 1 \<and>
   is_transpose 64 64 (\<lambda>a. word_of_nat a) (transpose_submit 64 64 (\<lambda>a. word_of_nat a) (\<lambda>a. 0)) = 1"
proof
  show "is_transpose 32 32 (\<lambda>a. word_of_nat a) (transpose_submit 32 32 (\<lambda>a. word_of_nat a) (\<lambda>a. 0)) = 1"
    by (rule conjunct2[OF transpose_submit_correct]) simp
  show "is_transpose 64 64 (\<lambda>a. word_of_nat a) (transpose_submit 64 64 (\<lambda>a. word_of_nat a) (\<lambda>a. 0)) = 1"
    by (rule conjunct2[OF transpose_submit_correct]) simp
qed

text \<open>
  for every other width \<open>transpose_submit\<close> does nothing, so that it is no transpose of a
  matrix of the size 61 by 67 that the lab also grades.
\<close>

theorem transpose_submit_other:
  "(if M = 32 \<or> M = 64 then True else transpose_submit M N A B = B) \<and>
   is_transpose 61 67 (\<lambda>a. 1) (transpose_submit 61 67 (\<lambda>a. 1) (\<lambda>a. 0)) = 0"
proof
  have "\<exists>i :: nat. i < 67" "\<exists>j :: nat. j < 61" by (intro exI[of _ 0], simp)+
  then show "is_transpose 61 67 (\<lambda>a. 1) (transpose_submit 61 67 (\<lambda>a. 1) (\<lambda>a. 0)) = 0"
    by (auto simp: transpose_submit_def is_transpose_iff)
qed (simp add: transpose_submit_def)

end
