(* ===== verification/Seglist.thy ===== *)
theory Seglist
  imports Memlib "HOL-Library.Monad_Syntax"
begin

text \<open>
  The allocator of the malloc lab, \<open>labs/malloclab-handout/mm.c\<close>: segregated free lists,
  one per power of two, each a doubly linked list sorted by descending size, built with
  \<open>-m32\<close>. Sizes are counted in words of 4 bytes; a block of size \<open>n\<close> occupies \<open>n + 2\<close>
  words. A pointer \<open>char **\<close> is a byte address, so that \<open>p + k\<close> of the code is
  \<open>p + 4 * k\<close> here. A loop that does not return is \<open>None\<close>; a trap of the processor or a
  failed \<open>assert\<close> is \<open>Fault\<close>.
\<close>

section \<open>Macros\<close>

definition MAX_POWER :: nat where "MAX_POWER = 50"
definition TAKEN :: nat where "TAKEN = 1"
definition FREE :: nat where "FREE = 0"
definition WORD_SIZE :: nat where "WORD_SIZE = 4"
definition CHUNK :: nat where "CHUNK = 2 ^ 12 div WORD_SIZE"

definition size32 :: "nat \<Rightarrow> nat" where
  "size32 n = n mod 2 ^ 32"

definition ALIGN :: "nat \<Rightarrow> nat" where
  "ALIGN sz = unat ((word_of_nat sz + 7 :: uint32) AND NOT 7)"

definition EVENIZE :: "nat \<Rightarrow> nat" where
  "EVENIZE x = unat ((word_of_nat x + 1 :: uint32) AND NOT 1)"

definition PACK_sl :: "nat \<Rightarrow> nat \<Rightarrow> uint32" where
  "PACK_sl sz status = push_bit 3 (word_of_nat sz) OR word_of_nat status"

definition GET_SIZE_sl :: "byte_mem \<Rightarrow> nat \<Rightarrow> nat" where
  "GET_SIZE_sl m p = unat (drop_bit 3 (GET m p AND NOT 7))"

definition GET_STATUS :: "byte_mem \<Rightarrow> nat \<Rightarrow> nat" where
  "GET_STATUS m p = unat (GET m p AND 1)"

definition FTRP_sl :: "byte_mem \<Rightarrow> nat \<Rightarrow> nat" where
  "FTRP_sl m p = p + 4 * (GET_SIZE_sl m p + 1)"

definition GET_TOTAL_SIZE :: "byte_mem \<Rightarrow> nat \<Rightarrow> nat" where
  "GET_TOTAL_SIZE m p = GET_SIZE_sl m p + 2"

definition GET_FREE_LIST_PTR :: "nat \<Rightarrow> byte_mem \<Rightarrow> nat \<Rightarrow> nat" where
  "GET_FREE_LIST_PTR fl m i = unat (GET m (fl + 4 * i))"

definition SET_FREE_LIST_PTR :: "nat \<Rightarrow> nat \<Rightarrow> nat \<Rightarrow> byte_mem \<Rightarrow> byte_mem" where
  "SET_FREE_LIST_PTR fl i ptr m = PUT (fl + 4 * i) (word_of_nat ptr) m"

definition GET_PRED :: "byte_mem \<Rightarrow> nat \<Rightarrow> nat" where
  "GET_PRED m bp = unat (GET m (bp + 4))"

definition GET_SUCC :: "byte_mem \<Rightarrow> nat \<Rightarrow> nat" where
  "GET_SUCC m bp = unat (GET m (bp + 8))"

definition SET_PRED :: "nat \<Rightarrow> nat \<Rightarrow> byte_mem \<Rightarrow> byte_mem" where
  "SET_PRED bp ptr m = PUT (bp + 4) (word_of_nat ptr) m"

definition SET_SUCC :: "nat \<Rightarrow> nat \<Rightarrow> byte_mem \<Rightarrow> byte_mem" where
  "SET_SUCC bp ptr m = PUT (bp + 8) (word_of_nat ptr) m"

definition PREV_BLOCK_IN_HEAP :: "byte_mem \<Rightarrow> nat \<Rightarrow> nat" where
  "PREV_BLOCK_IN_HEAP m p = p - 4 * GET_TOTAL_SIZE m (p - 4)"

definition NEXT_BLOCK_IN_HEAP :: "byte_mem \<Rightarrow> nat \<Rightarrow> nat" where
  "NEXT_BLOCK_IN_HEAP m p = FTRP_sl m p + 4"

section \<open>Size classes\<close>

definition round_up_power_2 :: "int32 \<Rightarrow> int32" where
  "round_up_power_2 x =
     (if x <s 0 then 0
      else let x = x - 1;
               x = x OR signed_drop_bit 1 x;
               x = x OR signed_drop_bit 2 x;
               x = x OR signed_drop_bit 4 x;
               x = x OR signed_drop_bit 8 x;
               x = x OR signed_drop_bit 16 x
           in x + 1)"

function class_loop :: "nat \<Rightarrow> nat \<Rightarrow> nat" where
  "class_loop index words =
     (if index \<le> MAX_POWER \<and> 1 < words then class_loop (index + 1) (words div 2) else index)"
  by pat_completeness auto
termination by (relation "measure (\<lambda>(index, words). words)") auto

declare class_loop.simps [simp del]

definition find_free_list_index :: "nat \<Rightarrow> nat" where
  "find_free_list_index words = class_loop 0 words"

section \<open>Free lists\<close>

definition remove_block_from_free_list :: "nat \<Rightarrow> nat \<Rightarrow> byte_mem \<Rightarrow> byte_mem" where
  "remove_block_from_free_list fl bp m =
     (let prev_block = GET_PRED m bp;
          next_block = GET_SUCC m bp
      in if GET_SIZE_sl m bp = 0 then m
         else
           let m1 = (if prev_block = 0
                       then SET_FREE_LIST_PTR fl (find_free_list_index (GET_SIZE_sl m bp)) next_block m
                       else SET_SUCC prev_block next_block m);
               m2 = (if next_block \<noteq> 0 then SET_PRED next_block prev_block m1 else m1)
           in SET_SUCC bp 0 (SET_PRED bp 0 m2))"

text \<open>The loop that looks for the place of a block of size \<open>sz\<close>, with its two pointers.\<close>

partial_function (option) find_slot :: "byte_mem \<Rightarrow> nat \<Rightarrow> nat \<Rightarrow> nat \<Rightarrow> (nat \<times> nat) option" where
  "find_slot m sz back_ptr front_ptr =
     (if front_ptr \<noteq> 0 \<and> GET_SIZE_sl m front_ptr > sz
      then find_slot m sz front_ptr (GET_SUCC m front_ptr)
      else Some (back_ptr, front_ptr))"

definition place_block_into_free_list :: "nat \<Rightarrow> nat \<Rightarrow> byte_mem \<Rightarrow> byte_mem option" where
  "place_block_into_free_list fl bp m =
     (let sz = GET_SIZE_sl m bp;
          index = find_free_list_index sz;
          front_ptr = GET_FREE_LIST_PTR fl m index
      in if sz = 0 then Some m
         else if front_ptr = 0 then
           Some (SET_FREE_LIST_PTR fl index bp (SET_PRED bp 0 (SET_SUCC bp 0 m)))
         else if sz \<ge> GET_SIZE_sl m front_ptr then
           Some (SET_PRED bp 0 (SET_PRED front_ptr bp (SET_SUCC bp front_ptr (SET_FREE_LIST_PTR fl index bp m))))
         else do {
           (back_ptr, front_ptr) \<leftarrow> find_slot m sz 0 front_ptr;
           if front_ptr = 0 then
             Some (SET_SUCC bp 0 (SET_PRED bp back_ptr (SET_SUCC back_ptr bp m)))
           else
             Some (SET_PRED front_ptr bp (SET_SUCC bp front_ptr (SET_PRED bp back_ptr (SET_SUCC back_ptr bp m))))
         })"

partial_function (option) scan_class :: "byte_mem \<Rightarrow> nat \<Rightarrow> nat \<Rightarrow> nat option" where
  "scan_class m words bp =
     (if GET_SIZE_sl m bp = words then Some bp
      else if GET_SUCC m bp = 0 \<or> GET_SIZE_sl m (GET_SUCC m bp) < words then Some bp
      else scan_class m words (GET_SUCC m bp))"

function next_class :: "nat \<Rightarrow> byte_mem \<Rightarrow> nat \<Rightarrow> nat" where
  "next_class fl m index =
     (if GET_FREE_LIST_PTR fl m index = 0 \<and> index < MAX_POWER then next_class fl m (index + 1) else index)"
  by pat_completeness auto
termination by (relation "measure (\<lambda>(fl, m, index). MAX_POWER - index)") auto

declare next_class.simps [simp del]

partial_function (option) last_in_list :: "byte_mem \<Rightarrow> nat \<Rightarrow> nat option" where
  "last_in_list m bp = (if GET_SUCC m bp \<noteq> 0 then last_in_list m (GET_SUCC m bp) else Some bp)"

definition find_free_block :: "nat \<Rightarrow> nat \<Rightarrow> byte_mem \<Rightarrow> nat option" where
  "find_free_block fl words m =
     (let index = find_free_list_index words;
          bp = GET_FREE_LIST_PTR fl m index
      in if bp \<noteq> 0 \<and> GET_SIZE_sl m bp \<ge> words then scan_class m words bp
         else let index = next_class fl m (index + 1);
                  bp = GET_FREE_LIST_PTR fl m index
              in if bp \<noteq> 0 then last_in_list m bp else Some 0)"

section \<open>Blocks\<close>

definition coalesce_sl :: "nat \<Rightarrow> nat \<Rightarrow> byte_mem \<Rightarrow> byte_mem \<times> nat" where
  "coalesce_sl fl bp m =
     (let prev_block = PREV_BLOCK_IN_HEAP m bp;
          next_block = NEXT_BLOCK_IN_HEAP m bp;
          prev_status = GET_STATUS m prev_block;
          next_status = GET_STATUS m next_block;
          new_size = GET_SIZE_sl m bp
      in if prev_status = TAKEN \<and> next_status = TAKEN then (m, bp)
         else if prev_status = TAKEN \<and> next_status = FREE then
           let m1 = remove_block_from_free_list fl next_block m;
               new_size = new_size + GET_TOTAL_SIZE m1 next_block;
               m2 = PUT bp (PACK_sl new_size FREE) m1
           in (PUT (FTRP_sl m2 next_block) (PACK_sl new_size FREE) m2, bp)
         else if prev_status = FREE \<and> next_status = TAKEN then
           let m1 = remove_block_from_free_list fl prev_block m;
               new_size = new_size + GET_TOTAL_SIZE m1 prev_block;
               m2 = PUT prev_block (PACK_sl new_size FREE) m1
           in (PUT (FTRP_sl m2 bp) (PACK_sl new_size FREE) m2, prev_block)
         else if prev_status = FREE \<and> next_status = FREE then
           let m1 = remove_block_from_free_list fl prev_block m;
               m1 = remove_block_from_free_list fl next_block m1;
               new_size = new_size + (GET_TOTAL_SIZE m1 prev_block + GET_TOTAL_SIZE m1 next_block);
               m2 = PUT prev_block (PACK_sl new_size FREE) m1
           in (PUT (FTRP_sl m2 next_block) (PACK_sl new_size FREE) m2, prev_block)
         else (m, bp))"

definition extend_heap_sl :: "nat \<Rightarrow> heap \<Rightarrow> heap \<times> nat" where
  "extend_heap_sl words h =
     (let words_extend = EVENIZE words;
          words_extend_tot = size32 (words_extend + 2);
          (h1, bp) = mem_sbrk (int_of_size (size32 (words_extend_tot * WORD_SIZE))) h
      in if bp = PTR_ERR then (h1, 0)
         else
           let bp = bp - 4 * 2;
               m1 = PUT bp (PACK_sl words_extend FREE) (mem h1);
               m2 = PUT (FTRP_sl m1 bp) (PACK_sl words_extend FREE) m1;
               end_pointer = bp + 4 * words_extend_tot;
               m3 = PUT end_pointer (PACK_sl 0 TAKEN) m2;
               m4 = PUT (FTRP_sl m3 end_pointer) (PACK_sl 0 TAKEN) m3
           in (h1\<lparr>mem := m4\<rparr>, bp))"

definition alloc_free_block :: "nat \<Rightarrow> nat \<Rightarrow> nat \<Rightarrow> byte_mem \<Rightarrow> byte_mem option" where
  "alloc_free_block fl bp words m =
     (let bp_tot_size = GET_SIZE_sl m bp + 2;
          needed_size = words;
          needed_tot_size = size32 (words + 2);
          new_block_tot_size = int_of_size bp_tot_size - int_of_size needed_tot_size;
          new_block_size = new_block_tot_size - 2
      in if new_block_size > 0 then
           let new_block = bp + 4 * needed_tot_size;
               m1 = PUT new_block (PACK_sl (nat new_block_size) FREE) m;
               m2 = PUT (FTRP_sl m1 new_block) (PACK_sl (nat new_block_size) FREE) m1;
               m3 = PUT bp (PACK_sl needed_size TAKEN) m2;
               m4 = PUT (FTRP_sl m3 bp) (PACK_sl needed_size TAKEN) m3;
               (m5, new_block) = coalesce_sl fl new_block m4
           in place_block_into_free_list fl new_block m5
         else if new_block_size = 0 then
           let needed_size = needed_size + 2;
               m1 = PUT bp (PACK_sl needed_size TAKEN) m
           in Some (PUT (FTRP_sl m1 bp) (PACK_sl needed_size TAKEN) m1)
         else
           let m1 = PUT bp (PACK_sl needed_size TAKEN) m
           in Some (PUT (FTRP_sl m1 bp) (PACK_sl needed_size TAKEN) m1))"

section \<open>The allocator\<close>

text \<open>The memory system, the two pointers of the allocator and the static of \<open>mm_realloc\<close>.\<close>

record seglist =
  sys :: heap
  free_lists :: nat
  heap_ptr :: nat
  previous_size :: int32

abbreviation smem :: "seglist \<Rightarrow> byte_mem" where
  "smem s \<equiv> mem (sys s)"

definition with_mem :: "byte_mem \<Rightarrow> seglist \<Rightarrow> seglist" where
  "with_mem m s = s\<lparr>sys := (sys s)\<lparr>mem := m\<rparr>\<rparr>"

definition mm_init_sl :: "seglist \<Rightarrow> (seglist \<times> int) option" where
  "mm_init_sl s =
     (let even_max_power = EVENIZE MAX_POWER;
          (h1, fl) = mem_sbrk (int (even_max_power * 4)) (sys s);
          s = s\<lparr>sys := h1, free_lists := fl\<rparr>
      in if fl = PTR_ERR then Some (s, -1)
         else
           let m1 = for_loop 0 (MAX_POWER + 1) (\<lambda>i. SET_FREE_LIST_PTR fl i 0) (mem h1);
               h2 = fst (mem_sbrk (int WORD_SIZE) (h1\<lparr>mem := m1\<rparr>));
               (h3, hp) = mem_sbrk (int (4 * WORD_SIZE)) h2;
               s = s\<lparr>sys := h3, heap_ptr := hp\<rparr>
           in if hp = PTR_ERR then Some (s, -1)
              else
                let m2 = PUT hp (PACK_sl 0 TAKEN) (mem h3);
                    m3 = PUT (FTRP_sl m2 hp) (PACK_sl 0 TAKEN) m2;
                    epilog = NEXT_BLOCK_IN_HEAP m3 hp;
                    m4 = PUT epilog (PACK_sl 0 TAKEN) m3;
                    m5 = PUT (FTRP_sl m4 epilog) (PACK_sl 0 TAKEN) m4;
                    (h4, new_block) = extend_heap_sl CHUNK (h3\<lparr>mem := m5\<rparr>);
                    s = s\<lparr>sys := h4, heap_ptr := hp + 4 * 2\<rparr>
                in if new_block = 0 then Some (s, -1)
                   else do {
                     m6 \<leftarrow> place_block_into_free_list fl new_block (mem h4);
                     Some (with_mem m6 s, 0)
                   })"

definition mm_malloc_sl :: "nat \<Rightarrow> seglist \<Rightarrow> (seglist \<times> nat) option" where
  "mm_malloc_sl sz s =
     (let sz = (if sz \<le> 2 ^ 12 then unat (round_up_power_2 (word_of_nat sz)) else sz);
          words = ALIGN sz div WORD_SIZE
      in if sz = 0 then Some (s, 0)
         else do {
           bp \<leftarrow> find_free_block (free_lists s) words (smem s);
           if bp = 0 then
             let extend_size = (if words > CHUNK then words else CHUNK);
                 (h1, bp) = extend_heap_sl extend_size (sys s);
                 s = s\<lparr>sys := h1\<rparr>
             in if bp = 0 then Some (s, 0)
                else do {
                  m \<leftarrow> alloc_free_block (free_lists s) bp words (mem h1);
                  Some (with_mem m s, bp + 4)
                }
           else do {
             m \<leftarrow> alloc_free_block (free_lists s) bp words (remove_block_from_free_list (free_lists s) bp (smem s));
             Some (with_mem m s, bp + 4)
           }
         })"

definition mm_free_sl :: "nat \<Rightarrow> seglist \<Rightarrow> seglist option" where
  "mm_free_sl ptr s =
     (let ptr = ptr - WORD_SIZE;
          sz = GET_SIZE_sl (smem s) ptr;
          m1 = PUT ptr (PACK_sl sz FREE) (smem s);
          m2 = PUT (FTRP_sl m1 ptr) (PACK_sl sz FREE) m1;
          (m3, ptr) = coalesce_sl (free_lists s) ptr m2
      in do {
        m4 \<leftarrow> place_block_into_free_list (free_lists s) ptr m3;
        Some (with_mem m4 s)
      })"

definition round_to_thousand :: "nat \<Rightarrow> int32" where
  "round_to_thousand x =
     word_of_nat (if x mod 1000 \<ge> 500 then x + 1000 - x mod 1000 else x - x mod 1000)"

text \<open>The part the three merging cases of \<open>mm_realloc_wrapped\<close> share: free and coalesce.\<close>

definition free_and_coalesce :: "nat \<Rightarrow> nat \<Rightarrow> nat \<Rightarrow> byte_mem \<Rightarrow> byte_mem \<times> nat" where
  "free_and_coalesce fl bp old_size m =
     (let m1 = PUT bp (PACK_sl old_size FREE) m;
          m2 = PUT (FTRP_sl m1 bp) (PACK_sl old_size FREE) m1
      in coalesce_sl fl bp m2)"

definition mm_realloc_wrapped :: "nat \<Rightarrow> nat \<Rightarrow> int32 \<Rightarrow> seglist \<Rightarrow> (seglist \<times> nat) outcome option" where
  "mm_realloc_wrapped ptr sz buffer_size s =
     (if ptr = 0 then map_option Done (mm_malloc_sl ptr s)
      else
        let fl = free_lists s;
            m = smem s;
            old = ptr - 4;
            bp = ptr - 4;
            new_size = ALIGN sz div WORD_SIZE;
            size_with_buffer = unat (word_of_nat new_size + buffer_size);
            old_size = GET_SIZE_sl m bp;
            prev_block = PREV_BLOCK_IN_HEAP m bp;
            next_block = NEXT_BLOCK_IN_HEAP m bp
        in if size_with_buffer = old_size \<and> new_size \<le> size_with_buffer then Some (Done (s, bp + 4))
           else if new_size = 0 then do { s1 \<leftarrow> mm_free_sl ptr s; Some (Done (s1, 0)) }
           else if new_size > old_size then
             if GET_SIZE_sl m next_block + old_size + 2 \<ge> size_with_buffer \<and>
                GET_STATUS m prev_block = TAKEN \<and> GET_STATUS m next_block = FREE then
               let (m1, bp) = free_and_coalesce fl bp old_size m
               in do {
                 m2 \<leftarrow> alloc_free_block fl bp size_with_buffer m1;
                 Some (Done (with_mem m2 s, bp + 4))
               }
             else if GET_SIZE_sl m prev_block + old_size + 2 \<ge> size_with_buffer \<and>
                GET_STATUS m prev_block = FREE \<and> GET_STATUS m next_block = TAKEN \<or>
                GET_SIZE_sl m prev_block + GET_SIZE_sl m next_block + old_size + 4 \<ge> size_with_buffer \<and>
                GET_STATUS m prev_block = FREE \<and> GET_STATUS m next_block = FREE then
               let (m1, bp) = free_and_coalesce fl bp old_size m;
                   m2 = memcpy (bp + 4) (old + 4) (old_size * WORD_SIZE) m1
               in do {
                 m3 \<leftarrow> alloc_free_block fl bp size_with_buffer m2;
                 Some (Done (with_mem m3 s, bp + 4))
               }
             else do {
               (s1, p) \<leftarrow> mm_malloc_sl (size32 (size_with_buffer * WORD_SIZE + WORD_SIZE)) s;
               let bp = size32 (p + 2 ^ 32 - 4);
               if bp = 0 then Some (Done (s1, 0))
               else if size32 (bp + 4) = 0 then Some Fault
               else do {
                 s2 \<leftarrow> mm_free_sl (old + 4)
                   (with_mem (memcpy (bp + 4) (old + 4) (old_size * WORD_SIZE) (smem s1)) s1);
                 Some (Done (s2, bp + 4))
               }
             }
           else Some (Done (s, bp + 4)))"

definition mm_realloc_sl :: "nat \<Rightarrow> nat \<Rightarrow> seglist \<Rightarrow> (seglist \<times> nat) outcome option" where
  "mm_realloc_sl ptr sz s =
     (let d = word_of_nat sz - previous_size s;
          diff = (if d <s 0 then - d else d)
      in if diff <s push_bit 12 1 \<and> round_up_power_2 diff = 0 then Some Fault
         else
           let buffer_size = (if diff <s push_bit 12 1 \<and> unat diff mod unat (round_up_power_2 diff) \<noteq> 0
                              then round_up_power_2 diff else round_to_thousand sz)
           in do {
             r \<leftarrow> mm_realloc_wrapped ptr sz buffer_size s;
             case r of Fault \<Rightarrow> Some Fault
             | Done (s1, p) \<Rightarrow> Some (Done (s1\<lparr>previous_size := word_of_nat sz\<rparr>, p))
           })"

section \<open>The checker\<close>

text \<open>The checks of \<open>mm_check\<close>, in its order; a failed \<open>assert\<close> is \<open>Fault\<close>.\<close>

partial_function (option) check_free_blocks_in_one_free_list_marked_free :: "byte_mem \<Rightarrow> nat \<Rightarrow> unit outcome option" where
  "check_free_blocks_in_one_free_list_marked_free m bp =
     (if bp \<noteq> 0 then
        if GET_STATUS m bp = TAKEN then Some Fault
        else check_free_blocks_in_one_free_list_marked_free m (GET_SUCC m bp)
      else Some (Done ()))"

text \<open>One check after another.\<close>

definition and_then :: "unit outcome option \<Rightarrow> unit outcome option \<Rightarrow> unit outcome option" where
  "and_then c d = (case c of Some (Done _) \<Rightarrow> d | _ \<Rightarrow> c)"

fun check_classes :: "nat \<Rightarrow> byte_mem \<Rightarrow> nat list \<Rightarrow> unit outcome option" where
  "check_classes fl m [] = Some (Done ())"
| "check_classes fl m (i # is) =
     (let bp = GET_FREE_LIST_PTR fl m i
      in if bp \<noteq> 0 then and_then (check_free_blocks_in_one_free_list_marked_free m bp) (check_classes fl m is)
         else check_classes fl m is)"

definition check_free_blocks_marked_free :: "nat \<Rightarrow> byte_mem \<Rightarrow> unit outcome option" where
  "check_free_blocks_marked_free fl m = check_classes fl m [0..<MAX_POWER + 1]"

text \<open>The loop \<open>while (GET_STATUS(bp) != TAKEN && GET_SIZE(bp) != 0)\<close> of three of the checks.\<close>

partial_function (option) walk :: "byte_mem \<Rightarrow> (nat \<Rightarrow> bool) \<Rightarrow> nat \<Rightarrow> unit outcome option" where
  "walk m ok bp =
     (if GET_STATUS m bp \<noteq> TAKEN \<and> GET_SIZE_sl m bp \<noteq> 0 then
        if ok bp then walk m ok (NEXT_BLOCK_IN_HEAP m bp) else Some Fault
      else Some (Done ()))"

definition should_coalesce_with_next_block :: "byte_mem \<Rightarrow> nat \<Rightarrow> bool" where
  "should_coalesce_with_next_block m bp =
     (\<not> (GET_STATUS m bp = FREE \<and> GET_STATUS m (NEXT_BLOCK_IN_HEAP m bp) = FREE))"

definition check_contiguous_free_block_coalesced :: "nat \<Rightarrow> byte_mem \<Rightarrow> unit outcome option" where
  "check_contiguous_free_block_coalesced hp m = walk m (should_coalesce_with_next_block m) hp"

definition is_valid_free_block :: "byte_mem \<Rightarrow> nat \<Rightarrow> bool" where
  "is_valid_free_block m bp \<longleftrightarrow>
     GET_SIZE_sl m bp = GET_SIZE_sl m (FTRP_sl m bp) \<and> GET_STATUS m bp \<noteq> TAKEN \<and> GET_STATUS m (FTRP_sl m bp) \<noteq> TAKEN"

definition should_be_in_free_list :: "nat \<Rightarrow> byte_mem \<Rightarrow> nat \<Rightarrow> bool" where
  "should_be_in_free_list fl m bp \<longleftrightarrow>
     GET_FREE_LIST_PTR fl m (find_free_list_index (GET_SIZE_sl m bp)) = bp \<or>
     GET_PRED m bp \<noteq> 0 \<or> GET_SUCC m bp \<noteq> 0"

definition check_all_free_blocks_in_free_list :: "nat \<Rightarrow> nat \<Rightarrow> byte_mem \<Rightarrow> unit outcome option" where
  "check_all_free_blocks_in_free_list fl hp m =
     walk m (\<lambda>bp. if GET_STATUS m bp = FREE then should_be_in_free_list fl m bp else True) hp"

definition check_all_free_blocks_valid_ftr_hdr :: "nat \<Rightarrow> byte_mem \<Rightarrow> unit outcome option" where
  "check_all_free_blocks_valid_ftr_hdr hp m =
     walk m (\<lambda>bp. if GET_STATUS m bp = FREE then is_valid_free_block m bp else True) hp"

text \<open>\<open>heap_lo <= bp <= heap_hi\<close>: the truth value of the first comparison is compared with \<open>heap_hi\<close>.\<close>

definition is_valid_heap_address :: "nat \<Rightarrow> nat \<Rightarrow> nat \<Rightarrow> bool" where
  "is_valid_heap_address bp heap_lo heap_hi \<longleftrightarrow> (if heap_lo \<le> bp then 1 else 0) \<le> heap_hi"

text \<open>The loop tests its condition after the first block.\<close>

definition check_ptrs_valid_heap_address :: "nat \<Rightarrow> heap \<Rightarrow> unit outcome option" where
  "check_ptrs_valid_heap_address hp h =
     (let ok = (\<lambda>bp. is_valid_heap_address bp (mem_heap_lo h) (mem_heap_hi h))
      in if ok hp then walk (mem h) ok (NEXT_BLOCK_IN_HEAP (mem h) hp) else Some Fault)"

definition mm_check :: "seglist \<Rightarrow> unit outcome option" where
  "mm_check s =
     (let fl = free_lists s; hp = heap_ptr s; m = smem s
      in and_then (check_free_blocks_marked_free fl m)
        (and_then (check_contiguous_free_block_coalesced hp m)
          (and_then (check_all_free_blocks_in_free_list fl hp m)
            (and_then (check_all_free_blocks_valid_ftr_hdr hp m)
              (check_ptrs_valid_heap_address hp (sys s))))))"

end
