(* ===== verification/SeglistLists.thy ===== *)
theory SeglistLists
  imports Seglist Bits "HOL-Library.Multiset"
begin

text \<open>
  Correctness of the parts the segregated-list allocator is made of: the size classes, the
  rounding of small requests, and the free lists, whose insertion and removal are shown to be
  insertion into and removal from a list sorted by descending size. The last section states
  how \<open>mm_realloc\<close> and \<open>mm_check\<close> depart from what their comments say.
\<close>

section \<open>Size classes\<close>

lemma class_loop_log:
  assumes "words < 2 ^ 32" and "index + bitlen words \<le> 33"
  shows "class_loop index words = index + (bitlen words - 1)"
  using assms
proof (induction index words rule: class_loop.induct)
  case (1 index words)
  show ?case
  proof (cases "1 < words")
    case True
    have len: "bitlen words = Suc (bitlen (words div 2))" using True by (simp add: bitlen.simps[of words])
    have pos: "bitlen (words div 2) \<noteq> 0" using True by (simp add: bitlen.simps[of "words div 2"])
    have "index \<le> MAX_POWER" using "1.prems"(2) by (simp add: MAX_POWER_def)
    with 1 True len pos show ?thesis by (subst class_loop.simps) (simp add: MAX_POWER_def)
  next
    case False
    then have "words = 0 \<or> words = Suc 0" by auto
    with False show ?thesis by (subst class_loop.simps) auto
  qed
qed

lemma find_free_list_index_log:
  assumes "words < 2 ^ 32"
  shows "find_free_list_index words = bitlen words - 1"
proof -
  have "bitlen words \<le> 32" by (rule bitlen_le[OF assms])
  then show ?thesis using class_loop_log[OF assms, of 0] by (simp add: find_free_list_index_def)
qed

section \<open>Rounding up to a power of two\<close>

lemma smear_step:
  fixes y z :: int32
  assumes "\<And>n. bit z n = (\<exists>k<w. bit y (n + k))" and "\<not> z <s 0"
  shows "bit (z OR signed_drop_bit w z) n = (\<exists>k<2 * w. bit y (n + k))"
proof -
  have "bit (z OR signed_drop_bit w z) n = (bit z n \<or> bit z (w + n))"
    unfolding shift_nonneg[OF assms(2)] by (simp add: bit_simps)
  also have "\<dots> = ((\<exists>k<w. bit y (n + k)) \<or> (\<exists>k<w. bit y (n + (w + k))))"
    by (simp add: assms(1) ac_simps)
  also have "\<dots> = (\<exists>k<2 * w. bit y (n + k))"
  proof
    assume "\<exists>k<2 * w. bit y (n + k)"
    then obtain k where k: "k < 2 * w" "bit y (n + k)" by blast
    show "(\<exists>k<w. bit y (n + k)) \<or> (\<exists>k<w. bit y (n + (w + k)))"
    proof (cases "k < w")
      case False
      with k have "k - w < w" "bit y (n + (w + (k - w)))" by auto
      then show ?thesis by blast
    qed (use k in blast)
  next
    assume "(\<exists>k<w. bit y (n + k)) \<or> (\<exists>k<w. bit y (n + (w + k)))"
    then show "\<exists>k<2 * w. bit y (n + k)"
    proof
      assume "\<exists>k<w. bit y (n + (w + k))"
      then obtain k where "k < w" "bit y (n + (w + k))" by blast
      then show ?thesis by (intro exI[of _ "w + k"]) simp
    qed (metis less_le_trans mult_2 le_add1)
  qed
  finally show ?thesis .
qed

lemma smear_nonneg:
  fixes y z :: int32
  assumes "\<And>n. bit z n = (\<exists>k<w. bit y (n + k))" and "\<not> y <s 0"
  shows "\<not> z <s 0"
proof
  assume "z <s 0"
  then obtain k where "bit y (31 + k)" using assms(1) by (auto simp: sless_0_iff)
  then show False using assms(2) bit_imp_le_length[of y "31 + k"]
    by (cases k) (auto simp: sless_0_iff)
qed

lemma bitlen_gt: "n < bitlen v \<longleftrightarrow> 2 ^ n \<le> v"
proof
  assume n: "n < bitlen v"
  then have "v \<noteq> 0" by (intro notI) simp
  then have "2 ^ (bitlen v - 1) \<le> v" by (rule bitlen_range)
  moreover have "(2::nat) ^ n \<le> 2 ^ (bitlen v - 1)" using n by (intro power_increasing) auto
  ultimately show "2 ^ n \<le> v" by linarith
next
  assume "2 ^ n \<le> v"
  then show "n < bitlen v" using bitlen_le[of v n] by (metis not_le bitlen_range(1) power_less_imp_less_exp le_less_trans one_less_numeral_iff semiring_norm(76))
qed

lemma bits_above: "(\<exists>k<32. bit (y :: int32) (n + k)) \<longleftrightarrow> n < bitlen (unat y)"
proof -
  have "(\<exists>k<32. bit y (n + k)) \<longleftrightarrow> drop_bit n y \<noteq> 0"
  proof
    assume "\<exists>k<32. bit y (n + k)"
    then obtain k where "bit (drop_bit n y) k" by (auto simp: bit_simps)
    then show "drop_bit n y \<noteq> 0" by auto
  next
    assume "drop_bit n y \<noteq> 0"
    then obtain k where "bit (drop_bit n y) k" by (metis bit_eqI bit_0_eq bot_apply bot_bool_def)
    then have "bit y (n + k)" by (simp add: bit_simps)
    moreover from this have "k < 32" using bit_imp_le_length[of y "n + k"] by simp
    ultimately show "\<exists>k<32. bit y (n + k)" by blast
  qed
  also have "\<dots> \<longleftrightarrow> unat y div 2 ^ n \<noteq> 0"
    by (metis unat_eq_zero unat_drop_bit_eq drop_bit_eq_div)
  also have "\<dots> \<longleftrightarrow> 2 ^ n \<le> unat y" by (simp add: div_eq_0_iff not_less)
  finally show ?thesis by (simp add: bitlen_gt)
qed

lemma round_up_power_2_bitlen:
  assumes "0 < sint x" and "sint x \<le> 2 ^ 30"
  shows "round_up_power_2 x = 2 ^ bitlen (nat (sint x) - 1)"
proof -
  let ?y = "x - 1"
  have xnn: "\<not> x <s 0" using assms(1) by (simp add: word_sless_alt)
  then have ux: "sint x = int (unat x)" by (simp only: sint_by_sign uint_nat if_False)
  have "int (unat x) \<le> int (2 ^ 30)" using assms(2) ux by (simp only: of_nat_power of_nat_numeral)
  then have un: "unat x \<le> 2 ^ 30" by (simp only: of_nat_le_iff)
  have "x \<noteq> 0" using assms(1) by auto
  then have uy: "unat ?y = nat (sint x) - 1" unfolding ux nat_int by (rule unat_minus_one)
  have ynn: "\<not> ?y <s 0" using un unfolding sless_0_unat uy ux nat_int by simp
  define z1 where "z1 = ?y OR signed_drop_bit 1 ?y"
  define z2 where "z2 = z1 OR signed_drop_bit 2 z1"
  define z4 where "z4 = z2 OR signed_drop_bit 4 z2"
  define z8 where "z8 = z4 OR signed_drop_bit 8 z4"
  define z16 where "z16 = z8 OR signed_drop_bit 16 z8"
  have b0: "bit ?y n = (\<exists>k<1. bit ?y (n + k))" for n by simp
  have b1: "bit z1 n = (\<exists>k<2. bit ?y (n + k))" for n
    using smear_step[OF b0 ynn] by (simp add: z1_def)
  have b2: "bit z2 n = (\<exists>k<4. bit ?y (n + k))" for n
    using smear_step[OF b1 smear_nonneg[OF b1 ynn]] by (simp add: z2_def)
  have b4: "bit z4 n = (\<exists>k<8. bit ?y (n + k))" for n
    using smear_step[OF b2 smear_nonneg[OF b2 ynn]] by (simp add: z4_def)
  have b8: "bit z8 n = (\<exists>k<16. bit ?y (n + k))" for n
    using smear_step[OF b4 smear_nonneg[OF b4 ynn]] by (simp add: z8_def)
  have b16: "bit z16 n = (\<exists>k<32. bit ?y (n + k))" for n
    using smear_step[OF b8 smear_nonneg[OF b8 ynn]] by (simp add: z16_def)
  have "z16 = mask (bitlen (unat ?y))"
    by (rule bit_word_eqI) (simp add: b16 bits_above bit_mask_iff)
  moreover have "round_up_power_2 x = z16 + 1"
    unfolding round_up_power_2_def Let_def z1_def[symmetric] z2_def[symmetric] z4_def[symmetric]
      z8_def[symmetric] z16_def[symmetric] using xnn by simp
  ultimately show ?thesis by (simp add: mask_eq_exp_minus_1 uy)
qed

section \<open>Doubly linked lists\<close>

text \<open>
  \<open>dseg m prev p xs nxt\<close>: from \<open>p\<close> the nodes \<open>xs\<close> are linked both ways, the first one back to
  \<open>prev\<close>, the last one on to \<open>nxt\<close>.
\<close>

fun dseg :: "byte_mem \<Rightarrow> nat \<Rightarrow> nat \<Rightarrow> nat list \<Rightarrow> nat \<Rightarrow> bool" where
  "dseg m prev p [] nxt \<longleftrightarrow> p = nxt"
| "dseg m prev p (b # bs) nxt \<longleftrightarrow> p = b \<and> 0 < b \<and> b < 2 ^ 32 \<and> GET_PRED m b = prev \<and> dseg m b (GET_SUCC m b) bs nxt"

definition lastp :: "nat \<Rightarrow> nat list \<Rightarrow> nat" where
  "lastp prev xs = (if xs = [] then prev else last xs)"

definition firstp :: "nat list \<Rightarrow> nat \<Rightarrow> nat" where
  "firstp xs nxt = (if xs = [] then nxt else hd xs)"

lemma lastp_simps [simp]: "lastp prev [] = prev" "lastp prev (b # bs) = lastp b bs" "lastp prev (xs @ [b]) = b"
  by (simp_all add: lastp_def)

lemma firstp_simps [simp]: "firstp [] nxt = nxt" "firstp (b # bs) nxt = b"
  by (simp_all add: firstp_def)

lemma dseg_first: "dseg m prev p xs nxt \<Longrightarrow> p = firstp xs nxt"
  by (cases xs) simp_all

lemma dseg_append:
  "dseg m prev p (xs @ ys) nxt \<longleftrightarrow> dseg m prev p xs (firstp ys nxt) \<and> dseg m (lastp prev xs) (firstp ys nxt) ys nxt"
proof (induction xs arbitrary: prev p)
  case Nil
  then show ?case by (cases ys) auto
qed auto

lemma dseg_valid: "dseg m prev p xs nxt \<Longrightarrow> b \<in> set xs \<Longrightarrow> 0 < b \<and> b < 2 ^ 32"
  by (induction m prev p xs nxt rule: dseg.induct) auto

lemma dseg_frame:
  "\<forall>b\<in>set xs. GET_PRED m' b = GET_PRED m b \<and> GET_SUCC m' b = GET_SUCC m b \<Longrightarrow>
   dseg m' prev p xs nxt = dseg m prev p xs nxt"
  by (induction m' prev p xs nxt rule: dseg.induct) auto

text \<open>Redirecting the link out of the last node, and the link back from the first one.\<close>

lemma dseg_relink_last:
  assumes "dseg m prev p xs nxt" and "\<forall>b\<in>set xs. GET_PRED m' b = GET_PRED m b"
    and "\<forall>b\<in>set xs. GET_SUCC m' b = (if b = lastp prev xs then nxt' else GET_SUCC m b)" and "distinct xs"
  shows "dseg m' prev (firstp xs nxt') xs nxt'"
  using assms
proof (induction m prev p xs nxt rule: dseg.induct)
  case (2 m prev p b bs nxt)
  show ?case
  proof (cases "bs = []")
    case True
    with 2 show ?thesis by simp
  next
    case False
    then have "lastp b bs \<in> set bs" by (simp add: lastp_def)
    with 2 have "b \<noteq> lastp b bs" by auto
    moreover have "GET_SUCC m b = firstp bs nxt'" using "2.prems"(1) False dseg_first[of m b _ bs nxt] by (simp add: firstp_def)
    moreover have "dseg m' b (firstp bs nxt') bs nxt'"
      using 2 False by (intro "2.IH") (auto simp: lastp_def)
    ultimately show ?thesis using 2 by auto
  qed
qed simp

lemma dseg_relink_first:
  assumes "dseg m prev p xs nxt" and "\<forall>b\<in>set xs. GET_SUCC m' b = GET_SUCC m b"
    and "\<forall>b\<in>set xs. GET_PRED m' b = (if b = firstp xs nxt then prev' else GET_PRED m b)" and "distinct xs"
  shows "dseg m' prev' p xs nxt"
proof (cases xs)
  case (Cons b bs)
  then have "dseg m' b (GET_SUCC m b) bs nxt = dseg m b (GET_SUCC m b) bs nxt"
    using assms by (intro dseg_frame) auto
  with assms Cons show ?thesis by simp
qed (use assms in simp)

section \<open>Reading links through writes\<close>

definition apart :: "nat \<Rightarrow> nat \<Rightarrow> bool" where
  "apart b c \<longleftrightarrow> b + 12 \<le> c \<or> c + 12 \<le> b"

text \<open>
  \<open>S\<close> are nodes whose headers and links do not overlap each other nor the list head at \<open>h\<close>.
\<close>

definition pool :: "nat set \<Rightarrow> nat \<Rightarrow> bool" where
  "pool S h \<longleftrightarrow> (\<forall>x\<in>S. \<forall>y\<in>S. x = y \<or> apart x y) \<and> (\<forall>x\<in>S. h + 4 \<le> x \<or> x + 12 \<le> h)"

lemma unat_ptr: "v < 2 ^ 32 \<Longrightarrow> unat (word_of_nat v :: uint32) = v"
  by (rule unat_below)

lemma link_reads:
  assumes "pool S (fl + 4 * i)" and "x \<in> S" "y \<in> S" "v < 2 ^ 32"
  shows "GET_PRED (SET_PRED x v m) y = (if y = x then v else GET_PRED m y)"
    and "GET_SUCC (SET_SUCC x v m) y = (if y = x then v else GET_SUCC m y)"
    and "GET_PRED (SET_SUCC x v m) y = GET_PRED m y" and "GET_SUCC (SET_PRED x v m) y = GET_SUCC m y"
    and "GET_SIZE_sl (SET_PRED x v m) y = GET_SIZE_sl m y" and "GET_SIZE_sl (SET_SUCC x v m) y = GET_SIZE_sl m y"
    and "GET_FREE_LIST_PTR fl (SET_PRED x v m) i = GET_FREE_LIST_PTR fl m i"
    and "GET_FREE_LIST_PTR fl (SET_SUCC x v m) i = GET_FREE_LIST_PTR fl m i"
proof -
  have sep: "x = y \<or> x + 12 \<le> y \<or> y + 12 \<le> x" "fl + 4 * i + 4 \<le> x \<or> x + 12 \<le> fl + 4 * i"
    using assms by (auto simp: pool_def apart_def)
  show "GET_PRED (SET_PRED x v m) y = (if y = x then v else GET_PRED m y)"
    and "GET_SUCC (SET_SUCC x v m) y = (if y = x then v else GET_SUCC m y)"
    using sep(1) assms(4)
    by (auto simp: GET_PRED_def GET_SUCC_def SET_PRED_def SET_SUCC_def bytes.get_put_same unat_ptr bytes.get_put_other)
  show "GET_PRED (SET_SUCC x v m) y = GET_PRED m y" and "GET_SUCC (SET_PRED x v m) y = GET_SUCC m y"
    and "GET_SIZE_sl (SET_PRED x v m) y = GET_SIZE_sl m y" and "GET_SIZE_sl (SET_SUCC x v m) y = GET_SIZE_sl m y"
    using sep(1)
    by (auto simp: GET_PRED_def GET_SUCC_def SET_PRED_def SET_SUCC_def GET_SIZE_sl_def bytes.get_put_other)
  show "GET_FREE_LIST_PTR fl (SET_PRED x v m) i = GET_FREE_LIST_PTR fl m i"
    and "GET_FREE_LIST_PTR fl (SET_SUCC x v m) i = GET_FREE_LIST_PTR fl m i"
    using sep(2) by (auto simp: GET_FREE_LIST_PTR_def SET_PRED_def SET_SUCC_def bytes.get_put_other)
qed

lemma head_reads:
  assumes "pool S (fl + 4 * i)" and "y \<in> S" "v < 2 ^ 32"
  shows "GET_FREE_LIST_PTR fl (SET_FREE_LIST_PTR fl i v m) i = v"
    and "GET_PRED (SET_FREE_LIST_PTR fl i v m) y = GET_PRED m y"
    and "GET_SUCC (SET_FREE_LIST_PTR fl i v m) y = GET_SUCC m y"
    and "GET_SIZE_sl (SET_FREE_LIST_PTR fl i v m) y = GET_SIZE_sl m y"
proof -
  have sep: "fl + 4 * i + 4 \<le> y \<or> y + 12 \<le> fl + 4 * i" using assms by (auto simp: pool_def)
  show "GET_FREE_LIST_PTR fl (SET_FREE_LIST_PTR fl i v m) i = v"
    using assms(3) by (simp add: GET_FREE_LIST_PTR_def SET_FREE_LIST_PTR_def bytes.get_put_same unat_ptr)
  show "GET_PRED (SET_FREE_LIST_PTR fl i v m) y = GET_PRED m y"
    and "GET_SUCC (SET_FREE_LIST_PTR fl i v m) y = GET_SUCC m y"
    and "GET_SIZE_sl (SET_FREE_LIST_PTR fl i v m) y = GET_SIZE_sl m y"
    using sep by (auto simp: GET_PRED_def GET_SUCC_def GET_SIZE_sl_def SET_FREE_LIST_PTR_def bytes.get_put_other)
qed

text \<open>Bytes outside the links of the nodes and the head keep their value.\<close>

definition elsewhere :: "nat set \<Rightarrow> nat \<Rightarrow> byte_mem \<Rightarrow> byte_mem \<Rightarrow> bool" where
  "elsewhere S h m m' \<longleftrightarrow>
     (\<forall>a. (a < h \<or> h + 4 \<le> a) \<and> (\<forall>x\<in>S. a < x + 4 \<or> x + 12 \<le> a) \<longrightarrow> m' a = m a)"

lemma elsewhere_refl [simp]: "elsewhere S h m m"
  by (simp add: elsewhere_def)

lemma elsewhere_step:
  assumes "elsewhere S (fl + 4 * i) m m'"
  shows "x \<in> S \<Longrightarrow> elsewhere S (fl + 4 * i) m (SET_PRED x v m')"
    and "x \<in> S \<Longrightarrow> elsewhere S (fl + 4 * i) m (SET_SUCC x v m')"
    and "elsewhere S (fl + 4 * i) m (SET_FREE_LIST_PTR fl i v m')"
  using assms
  by (force simp: elsewhere_def SET_PRED_def SET_SUCC_def SET_FREE_LIST_PTR_def intro!: trans[OF PUT_outside])+

section \<open>Insertion and removal\<close>

lemma dseg_insert:
  assumes "dseg m 0 p (us @ vs) 0" and "distinct (us @ b # vs)" and "0 < b" "b < 2 ^ 32"
    and pred: "\<forall>x\<in>set us \<union> set vs. GET_PRED m' x = (if vs \<noteq> [] \<and> x = hd vs then b else GET_PRED m x)"
    and succ: "\<forall>x\<in>set us \<union> set vs. GET_SUCC m' x = (if us \<noteq> [] \<and> x = last us then b else GET_SUCC m x)"
    and b: "GET_PRED m' b = lastp 0 us" "GET_SUCC m' b = firstp vs 0"
  shows "dseg m' 0 (firstp us b) (us @ b # vs) 0"
proof -
  have us: "dseg m 0 p us (firstp vs 0)" and vs: "dseg m (lastp 0 us) (firstp vs 0) vs 0"
    using assms(1) unfolding dseg_append by blast+
  have dj: "set us \<inter> set vs = {}" using assms(2) by auto
  have hd: "x \<in> set us \<Longrightarrow> vs \<noteq> [] \<Longrightarrow> x \<noteq> hd vs" and last: "x \<in> set vs \<Longrightarrow> us \<noteq> [] \<Longrightarrow> x \<noteq> last us" for x
    using dj hd_in_set[of vs] last_in_set[of us] by blast+
  have "dseg m' 0 (firstp us b) us b"
    by (rule dseg_relink_last[OF us]) (use assms(2) pred succ hd in \<open>auto simp: lastp_def\<close>)
  moreover have "dseg m' b (firstp vs 0) vs 0"
    by (rule dseg_relink_first[OF vs]) (use assms(2) pred succ last in \<open>auto simp: firstp_def\<close>)
  ultimately show ?thesis using assms(3,4) b by (simp add: dseg_append)
qed

definition class_list :: "nat \<Rightarrow> byte_mem \<Rightarrow> nat \<Rightarrow> nat list \<Rightarrow> bool" where
  "class_list fl m i xs \<longleftrightarrow> dseg m 0 (GET_FREE_LIST_PTR fl m i) xs 0 \<and> distinct xs"

lemma find_slot_list:
  "dseg m prev p xs 0 \<Longrightarrow>
   find_slot m sz prev p =
     Some (lastp prev (takeWhile (\<lambda>x. sz < GET_SIZE_sl m x) xs), firstp (dropWhile (\<lambda>x. sz < GET_SIZE_sl m x) xs) 0)"
proof (induction xs arbitrary: prev p)
  case Nil
  then show ?case by (simp add: find_slot.simps)
next
  case (Cons b bs)
  then have "dseg m b (GET_SUCC m b) bs 0" "p = b" "0 < b" by auto
  with Cons.IH show ?case by (simp add: find_slot.simps[of m sz prev b])
qed

lemma place_block_list:
  fixes b :: nat and m :: byte_mem
  defines "big \<equiv> \<lambda>x. GET_SIZE_sl m b < GET_SIZE_sl m x"
  assumes P: "pool S (fl + 4 * i)" and S: "b \<in> S" "set xs \<subseteq> S" and b: "b \<notin> set xs" "0 < b" "b < 2 ^ 32"
    and l: "class_list fl m i xs" and sz: "GET_SIZE_sl m b \<noteq> 0" "i = find_free_list_index (GET_SIZE_sl m b)"
  shows "\<exists>m'. place_block_into_free_list fl b m = Some m' \<and> class_list fl m' i (takeWhile big xs @ b # dropWhile big xs) \<and>
    (\<forall>x\<in>S. GET_SIZE_sl m' x = GET_SIZE_sl m x) \<and> elsewhere S (fl + 4 * i) m m'"
proof -
  let ?front = "GET_FREE_LIST_PTR fl m i"
  have d: "dseg m 0 ?front xs 0" and dist: "distinct xs" using l by (simp_all add: class_list_def)
  have front: "?front = firstp xs 0" using dseg_first[OF d] .
  note sz = sz(1) sz(2)[symmetric]
  define us where "us = takeWhile big xs"
  define vs where "vs = dropWhile big xs"
  have xs: "xs = us @ vs" by (simp add: us_def vs_def)
  have valid: "0 < x \<and> x < 2 ^ 32" if "x \<in> set xs" for x using dseg_valid[OF d that] .
  have dist': "distinct (us @ b # vs)" using dist b(1) xs by simp
  have finish: "place_block_into_free_list fl b m = Some m' \<Longrightarrow>
      (\<forall>x\<in>set us \<union> set vs. GET_PRED m' x = (if vs \<noteq> [] \<and> x = hd vs then b else GET_PRED m x)) \<Longrightarrow>
      (\<forall>x\<in>set us \<union> set vs. GET_SUCC m' x = (if us \<noteq> [] \<and> x = last us then b else GET_SUCC m x)) \<Longrightarrow>
      GET_PRED m' b = lastp 0 us \<Longrightarrow> GET_SUCC m' b = firstp vs 0 \<Longrightarrow>
      GET_FREE_LIST_PTR fl m' i = firstp us b \<Longrightarrow>
      (\<forall>x\<in>S. GET_SIZE_sl m' x = GET_SIZE_sl m x) \<Longrightarrow> elsewhere S (fl + 4 * i) m m' \<Longrightarrow> ?thesis" for m'
    using dseg_insert[OF d[unfolded xs] dist' b(2,3), of m'] dist'
    by (simp add: class_list_def us_def[symmetric] vs_def[symmetric])
  have b_neq: "x \<noteq> b" if "x \<in> set us \<union> set vs" for x using that b(1) xs by auto
  have in_S: "x \<in> S" if "x \<in> set us \<union> set vs" for x using that S xs by auto
  consider (nil) "xs = []" | (first) v vs' where "xs = v # vs'" "us = []" "vs = v # vs'"
    | (later) "us \<noteq> []" "xs \<noteq> []"
    by (cases xs; cases us) (auto simp: xs)
  then show ?thesis
  proof cases
    case nil
    then have "us = []" "vs = []" by (simp_all add: us_def vs_def)
    then show ?thesis
      using nil front sz b(3) S(1)
      by (intro finish[of "SET_FREE_LIST_PTR fl i b (SET_PRED b 0 (SET_SUCC b 0 m))"])
        (simp_all add: place_block_into_free_list_def Let_def link_reads[OF P] head_reads[OF P] elsewhere_step)
  next
    case first
    have v: "v \<in> S" "v \<noteq> b" "v < 2 ^ 32" using first(1) S b(1) valid[of v] by auto
    have le: "GET_SIZE_sl m v \<le> GET_SIZE_sl m b"
      using first by (auto simp: us_def big_def split: if_splits)
    show ?thesis
      using first front sz b(2,3) S(1) v le b_neq in_S valid[of v]
      by (intro finish[of "SET_PRED b 0 (SET_PRED v b (SET_SUCC b v (SET_FREE_LIST_PTR fl i b m)))"])
        (auto simp: place_block_into_free_list_def Let_def link_reads[OF P] head_reads[OF P] elsewhere_step)
  next
    case later
    have f: "?front \<noteq> 0" "GET_SIZE_sl m b < GET_SIZE_sl m ?front"
      using later valid front by (auto simp: us_def big_def firstp_def takeWhile_eq_Nil_iff)
    have slot: "find_slot m (GET_SIZE_sl m b) 0 ?front = Some (last us, firstp vs 0)"
      using find_slot_list[OF d, of "GET_SIZE_sl m b"] later by (simp add: us_def vs_def big_def lastp_def)
    have lu: "last us \<in> S" "last us \<noteq> b" "last us < 2 ^ 32"
      using later in_S[of "last us"] b_neq[of "last us"] valid[of "last us"] by (auto simp: xs)
    show ?thesis
    proof (cases vs)
      case Nil
      then show ?thesis
        using later front sz b(3) S(1) lu f slot b_neq in_S
        by (intro finish[of "SET_SUCC b 0 (SET_PRED b (last us) (SET_SUCC (last us) b m))"])
          (auto simp: place_block_into_free_list_def Let_def link_reads[OF P] elsewhere_step lastp_def xs firstp_def)
    next
      case (Cons v vs')
      have v: "v \<in> S" "v \<noteq> b" "v < 2 ^ 32" "v \<noteq> 0" using Cons in_S[of v] b_neq[of v] valid[of v] by (auto simp: xs)
      have "v \<noteq> last us" using dist' Cons later by auto
      then show ?thesis
        using later front sz b(3) S(1) lu v f slot b_neq in_S Cons
        by (intro finish[of "SET_PRED v b (SET_SUCC b v (SET_PRED b (last us) (SET_SUCC (last us) b m)))"])
          (auto simp: place_block_into_free_list_def Let_def link_reads[OF P] elsewhere_step lastp_def xs firstp_def)
    qed
  qed
qed

lemma dseg_remove:
  assumes "dseg m 0 p (us @ b # vs) 0" and "distinct (us @ b # vs)"
    and pred: "\<forall>x\<in>set us \<union> set vs. GET_PRED m' x = (if vs \<noteq> [] \<and> x = hd vs then lastp 0 us else GET_PRED m x)"
    and succ: "\<forall>x\<in>set us \<union> set vs. GET_SUCC m' x = (if us \<noteq> [] \<and> x = last us then firstp vs 0 else GET_SUCC m x)"
  shows "dseg m' 0 (firstp us (firstp vs 0)) (us @ vs) 0"
proof -
  have us: "dseg m 0 p us b" and vs: "dseg m b (GET_SUCC m b) vs 0"
    using assms(1) unfolding dseg_append by auto
  have vs': "dseg m b (firstp vs 0) vs 0" using vs dseg_first[OF vs] by simp
  have dj: "set us \<inter> set vs = {}" using assms(2) by auto
  have hd: "x \<in> set us \<Longrightarrow> vs \<noteq> [] \<Longrightarrow> x \<noteq> hd vs" and last: "x \<in> set vs \<Longrightarrow> us \<noteq> [] \<Longrightarrow> x \<noteq> last us" for x
    using dj hd_in_set[of vs] last_in_set[of us] by blast+
  have "dseg m' 0 (firstp us (firstp vs 0)) us (firstp vs 0)"
    by (rule dseg_relink_last[OF us]) (use assms(2) pred succ hd in \<open>auto simp: lastp_def\<close>)
  moreover have "dseg m' (lastp 0 us) (firstp vs 0) vs 0"
    by (rule dseg_relink_first[OF vs']) (use assms(2) pred succ last in \<open>auto simp: firstp_def\<close>)
  ultimately show ?thesis by (simp add: dseg_append)
qed

lemma remove_block_list:
  assumes P: "pool S (fl + 4 * i)" and S: "set (us @ b # vs) \<subseteq> S" and l: "class_list fl m i (us @ b # vs)"
    and sz: "GET_SIZE_sl m b \<noteq> 0" "i = find_free_list_index (GET_SIZE_sl m b)"
  defines "m' \<equiv> remove_block_from_free_list fl b m"
  shows "class_list fl m' i (us @ vs) \<and> (\<forall>x\<in>S. GET_SIZE_sl m' x = GET_SIZE_sl m x) \<and> elsewhere S (fl + 4 * i) m m'"
proof -
  let ?front = "GET_FREE_LIST_PTR fl m i"
  have d: "dseg m 0 ?front (us @ b # vs) 0" and dist: "distinct (us @ b # vs)" using l by (simp_all add: class_list_def)
  note sz = sz(1) sz(2)[symmetric]
  have dd: "dseg m 0 ?front us b" "GET_PRED m b = lastp 0 us" "dseg m b (GET_SUCC m b) vs 0"
    using d unfolding dseg_append by auto
  have succ_b: "GET_SUCC m b = firstp vs 0" using dseg_first[OF dd(3)] .
  have front: "?front = firstp us b" using dseg_first[OF dd(1)] .
  have valid: "0 < x \<and> x < 2 ^ 32" if "x \<in> set (us @ b # vs)" for x using dseg_valid[OF d that] .
  have in_S: "x \<in> S" if "x \<in> set us \<union> set vs" for x using that S by auto
  have b_neq: "x \<noteq> b" if "x \<in> set us \<union> set vs" for x using that dist by auto
  have bS: "b \<in> S" using S by simp
  have finish: ?thesis
    if "\<forall>x\<in>set us \<union> set vs. GET_PRED m' x = (if vs \<noteq> [] \<and> x = hd vs then lastp 0 us else GET_PRED m x)"
      "\<forall>x\<in>set us \<union> set vs. GET_SUCC m' x = (if us \<noteq> [] \<and> x = last us then firstp vs 0 else GET_SUCC m x)"
      "GET_FREE_LIST_PTR fl m' i = firstp us (firstp vs 0)"
      "\<forall>x\<in>S. GET_SIZE_sl m' x = GET_SIZE_sl m x" "elsewhere S (fl + 4 * i) m m'"
    using dseg_remove[OF d dist that(1,2)] that(3-5) dist by (simp add: class_list_def)
  have hv: "hd vs \<in> S \<and> hd vs < 2 ^ 32 \<and> hd vs \<noteq> 0" if "vs \<noteq> []"
    using that in_S[of "hd vs"] valid[of "hd vs"] by auto
  have lu: "last us \<in> S \<and> last us < 2 ^ 32 \<and> last us \<noteq> 0" if "us \<noteq> []"
    using that in_S[of "last us"] valid[of "last us"] by auto
  have m': "m' = SET_SUCC b 0 (SET_PRED b 0
      (if vs \<noteq> [] then SET_PRED (hd vs) (lastp 0 us)
         (if us = [] then SET_FREE_LIST_PTR fl i (firstp vs 0) m else SET_SUCC (last us) (firstp vs 0) m)
       else (if us = [] then SET_FREE_LIST_PTR fl i (firstp vs 0) m else SET_SUCC (last us) (firstp vs 0) m)))"
    using sz lu hv by (auto simp: m'_def remove_block_from_free_list_def Let_def dd(2) succ_b lastp_def firstp_def)
  have vals: "lastp 0 us < 2 ^ 32" "firstp vs 0 < 2 ^ 32" using lu hv by (auto simp: lastp_def firstp_def)
  have disj: "us \<noteq> [] \<Longrightarrow> vs \<noteq> [] \<Longrightarrow> last us \<noteq> hd vs" using dist hd_in_set[of vs] last_in_set[of us] by fastforce
  show ?thesis
  proof (cases "us = []"; cases "vs = []")
    assume "us = []" "vs = []"
    then show ?thesis using bS
      by (intro finish) (simp_all add: m' link_reads[OF P] head_reads[OF P] elsewhere_step)
  next
    assume "us = []" "vs \<noteq> []"
    then show ?thesis using bS hv vals b_neq in_S
      by (intro finish) (auto simp: m' link_reads[OF P] head_reads[OF P] elsewhere_step lastp_def firstp_def)
  next
    assume "us \<noteq> []" "vs = []"
    then show ?thesis using bS lu vals b_neq in_S front
      by (intro finish) (auto simp: m' link_reads[OF P] head_reads[OF P] elsewhere_step lastp_def firstp_def)
  next
    assume "us \<noteq> []" "vs \<noteq> []"
    then show ?thesis using bS lu hv vals b_neq in_S front disj
      by (intro finish) (auto simp: m' link_reads[OF P] head_reads[OF P] elsewhere_step lastp_def firstp_def)
  qed
qed

lemma sorted_insert:
  assumes "sorted_wrt (\<lambda>x y. f y \<le> f x) xs"
  shows "sorted_wrt (\<lambda>x y. f y \<le> f x) (takeWhile (\<lambda>x. k < f x) xs @ b # dropWhile (\<lambda>x. k < f x) xs) \<longleftrightarrow>
    (\<forall>x\<in>set (takeWhile (\<lambda>x. k < f x) xs). f b \<le> f x) \<and> (\<forall>x\<in>set (dropWhile (\<lambda>x. k < f x) xs). f x \<le> (f b :: nat))"
proof -
  have "sorted_wrt (\<lambda>x y. f y \<le> f x) (takeWhile (\<lambda>x. k < f x) xs @ dropWhile (\<lambda>x. k < f x) xs)"
    using assms by simp
  then show ?thesis by (auto simp: sorted_wrt_append simp del: takeWhile_dropWhile_id)
qed

lemma dropWhile_small:
  fixes f :: "nat \<Rightarrow> nat"
  assumes "sorted_wrt (\<lambda>x y. f y \<le> f x) xs" and "x \<in> set (dropWhile (\<lambda>x. k < f x) xs)"
  shows "f x \<le> k"
  using assms
proof (induction xs)
  case (Cons a xs)
  then show ?case by (cases "k < f a") (auto intro: order_trans[of _ "f a"])
qed simp

lemma sorted_same_sizes:
  fixes f g :: "nat \<Rightarrow> nat"
  assumes "sorted_wrt (\<lambda>x y. f y \<le> f x) xs" and "\<forall>x\<in>set xs. g x = f x"
  shows "sorted_wrt (\<lambda>x y. g y \<le> g x) xs"
  by (rule sorted_wrt_mono_rel[OF _ assms(1)]) (use assms(2) in simp)

section \<open>Properties\<close>

text \<open>
  \<open>place_block_into_free_list\<close> puts a free block into the list of its size class: the
  loop terminates, the list gains exactly that block, stays doubly linked and sorted by
  descending size, and no byte outside the list's head and its nodes' links changes.
\<close>

theorem place_block_sorted:
  assumes "pool S (fl + 4 * i)" and "b \<in> S" and "set xs \<subseteq> S" and "b \<notin> set xs" and "0 < b" and "b < 2 ^ 32"
    and "class_list fl m i xs" and "sorted_wrt (\<lambda>x y. GET_SIZE_sl m y \<le> GET_SIZE_sl m x) xs"
    and "GET_SIZE_sl m b \<noteq> 0" and "i = find_free_list_index (GET_SIZE_sl m b)"
  shows "\<exists>m' ys. place_block_into_free_list fl b m = Some m' \<and> class_list fl m' i ys \<and>
    mset ys = add_mset b (mset xs) \<and> sorted_wrt (\<lambda>x y. GET_SIZE_sl m' y \<le> GET_SIZE_sl m' x) ys \<and>
    elsewhere S (fl + 4 * i) m m'"
proof -
  let ?big = "\<lambda>x. GET_SIZE_sl m b < GET_SIZE_sl m x"
  let ?ys = "takeWhile ?big xs @ b # dropWhile ?big xs"
  obtain m' where m': "place_block_into_free_list fl b m = Some m'" "class_list fl m' i ?ys"
      "\<forall>x\<in>S. GET_SIZE_sl m' x = GET_SIZE_sl m x" "elsewhere S (fl + 4 * i) m m'"
    using place_block_list[OF assms(1-7,9,10)] by blast
  have "sorted_wrt (\<lambda>x y. GET_SIZE_sl m y \<le> GET_SIZE_sl m x) ?ys"
    unfolding sorted_insert[OF assms(8)]
  proof (intro conjI ballI)
    fix x assume "x \<in> set (takeWhile ?big xs)"
    then have "?big x" by (rule set_takeWhileD [THEN conjunct2])
    then show "GET_SIZE_sl m b \<le> GET_SIZE_sl m x" by simp
  next
    fix x assume "x \<in> set (dropWhile ?big xs)"
    then show "GET_SIZE_sl m x \<le> GET_SIZE_sl m b" by (rule dropWhile_small[OF assms(8)])
  qed
  moreover have "set ?ys \<subseteq> S" using assms(2,3) by (auto dest: set_takeWhileD set_dropWhileD)
  ultimately have "sorted_wrt (\<lambda>x y. GET_SIZE_sl m' y \<le> GET_SIZE_sl m' x) ?ys"
    using sorted_same_sizes[of "GET_SIZE_sl m" ?ys "GET_SIZE_sl m'"] m'(3) by blast
  moreover have "mset ?ys = add_mset b (mset xs)"
    by (metis (no_types) mset_append mset.simps(2) takeWhile_dropWhile_id union_mset_add_mset_right)
  ultimately show ?thesis using m'(1,2,4) by (intro exI[of _ m'] exI[of _ ?ys]) simp
qed

text \<open>A list with one block of size 3, and a block of size 2 to be added.\<close>

definition sample_mem :: byte_mem where
  "sample_mem = PUT 8192 (PACK_sl 2 FREE) (PUT 12288 (PACK_sl 3 FREE) (PUT 4100 12288 (\<lambda>_. 0)))"

lemma sample_reads:
  "GET_SIZE_sl sample_mem 8192 = 2" "GET_SIZE_sl sample_mem 12288 = 3" "GET_FREE_LIST_PTR 4096 sample_mem 1 = 12288"
  "GET_PRED sample_mem 12288 = 0" "GET_SUCC sample_mem 12288 = 0" "find_free_list_index 2 = 1"
proof -
  have zero: "GET (\<lambda>_. 0) q = 0" for q by (simp add: GET_def)
  note r = sample_mem_def bytes.get_put_same bytes.get_put_other zero
  show "GET_SIZE_sl sample_mem 8192 = 2" "GET_SIZE_sl sample_mem 12288 = 3"
    by (simp_all add: GET_SIZE_sl_def r PACK_sl_def FREE_def)
  show "GET_FREE_LIST_PTR 4096 sample_mem 1 = 12288" by (simp add: GET_FREE_LIST_PTR_def r)
  show "GET_PRED sample_mem 12288 = 0" "GET_SUCC sample_mem 12288 = 0"
    by (simp_all add: GET_PRED_def GET_SUCC_def r)
  show "find_free_list_index 2 = 1"
    by (simp add: find_free_list_index_def class_loop.simps MAX_POWER_def)
qed

theorem place_block_sorted_witness:
  "\<exists>m' ys. place_block_into_free_list 4096 8192 sample_mem = Some m' \<and> class_list 4096 m' 1 ys \<and>
    mset ys = {#8192, 12288#} \<and> sorted_wrt (\<lambda>x y. GET_SIZE_sl m' y \<le> GET_SIZE_sl m' x) ys"
  using place_block_sorted[of "{8192, 12288}" 4096 1 8192 "[12288]" sample_mem] sample_reads
  by (auto simp: pool_def apart_def class_list_def)

text \<open>
  \<open>remove_block_from_free_list\<close> takes a block out of the list of its size class: exactly
  that block leaves, the list stays doubly linked and sorted, and no byte outside the list's
  head and its nodes' links changes.
\<close>

theorem remove_block_sorted:
  assumes "pool S (fl + 4 * i)" and "set xs \<subseteq> S" and "b \<in> set xs" and "class_list fl m i xs"
    and "sorted_wrt (\<lambda>x y. GET_SIZE_sl m y \<le> GET_SIZE_sl m x) xs"
    and "GET_SIZE_sl m b \<noteq> 0" and "i = find_free_list_index (GET_SIZE_sl m b)"
  shows "class_list fl (remove_block_from_free_list fl b m) i (remove1 b xs) \<and>
    sorted_wrt (\<lambda>x y. GET_SIZE_sl (remove_block_from_free_list fl b m) y \<le>
      GET_SIZE_sl (remove_block_from_free_list fl b m) x) (remove1 b xs) \<and>
    elsewhere S (fl + 4 * i) m (remove_block_from_free_list fl b m)"
proof -
  obtain us vs where xs: "xs = us @ b # vs" "b \<notin> set us" using split_list_first[OF assms(3)] by blast
  then have rm: "remove1 b xs = us @ vs" by (simp add: remove1_append)
  let ?m' = "remove_block_from_free_list fl b m"
  have R: "class_list fl ?m' i (us @ vs)" "\<forall>x\<in>S. GET_SIZE_sl ?m' x = GET_SIZE_sl m x" "elsewhere S (fl + 4 * i) m ?m'"
    using remove_block_list[OF assms(1) _ _ assms(6,7)] assms(2,4) xs by blast+
  have "sorted_wrt (\<lambda>x y. GET_SIZE_sl m y \<le> GET_SIZE_sl m x) (us @ vs)"
    using assms(5) by (auto simp: xs sorted_wrt_append)
  moreover have "set (us @ vs) \<subseteq> S" using assms(2) xs by auto
  ultimately have "sorted_wrt (\<lambda>x y. GET_SIZE_sl ?m' y \<le> GET_SIZE_sl ?m' x) (us @ vs)"
    using sorted_same_sizes[of "GET_SIZE_sl m" "us @ vs" "GET_SIZE_sl ?m'"] R(2) by blast
  with R rm show ?thesis by simp
qed

theorem remove_block_sorted_witness:
  "class_list 4096 (remove_block_from_free_list 4096 12288 sample_mem) 1 []"
proof -
  have "find_free_list_index 3 = 1" by (simp add: find_free_list_index_def class_loop.simps MAX_POWER_def)
  then show ?thesis
    using remove_block_sorted[of "{12288}" 4096 1 "[12288]" 12288 sample_mem] sample_reads
    by (auto simp: pool_def class_list_def)
qed

text \<open>
  \<open>round_up_power_2\<close> returns the least power of two that is not below its argument, for
  arguments from 1 to \<open>2 ^ 30\<close>.
\<close>

theorem round_up_power_2_least:
  assumes "0 < sint x" and "sint x \<le> 2 ^ 30"
  shows "\<exists>k. sint (round_up_power_2 x) = 2 ^ k \<and> sint x \<le> 2 ^ k \<and> (k = 0 \<or> 2 ^ (k - 1) < sint x)"
proof -
  define v where "v = nat (sint x) - 1"
  have v: "sint x = int v + 1" "v < 2 ^ 30" using assms by (auto simp: v_def)
  let ?k = "bitlen v"
  have "?k \<le> 30" by (rule bitlen_le[OF v(2)])
  then have "(2::nat) ^ ?k \<le> 2 ^ 30" by (intro power_increasing) simp_all
  then have "(2::nat) ^ ?k < 2 ^ 31" by simp
  then have "sint (of_nat (2 ^ ?k) :: int32) = int (2 ^ ?k)" by (rule sint_small)
  then have s: "sint (round_up_power_2 x) = 2 ^ ?k"
    using round_up_power_2_bitlen[OF assms] by (simp add: v_def)
  have "int v < int (2 ^ ?k)" using bitlen_range(1)[of v] by (simp only: of_nat_less_iff)
  then have le: "int v + 1 \<le> 2 ^ ?k" unfolding of_nat_power of_nat_numeral by linarith
  have "2 ^ (?k - 1) < int v + 1" if "?k \<noteq> 0"
  proof -
    have "v \<noteq> 0" using that by (intro notI) simp
    then have "2 ^ (?k - 1) \<le> v" by (rule bitlen_range)
    then have "int (2 ^ (?k - 1)) \<le> int v" by (simp only: of_nat_le_iff)
    then show ?thesis unfolding of_nat_power of_nat_numeral by linarith
  qed
  with s le v(1) show ?thesis by (intro exI[of _ ?k]) auto
qed

theorem round_up_power_2_least_witness: "\<exists>k. sint (round_up_power_2 100) = 2 ^ k \<and> 100 \<le> (2::int) ^ k"
  using round_up_power_2_least[of 100] by auto

text \<open>\<open>mm_realloc\<close> divides by zero for exactly two differences from the size of the previous request.\<close>

lemma abs_positive:
  fixes d :: int32
  assumes "d \<noteq> 0" and "d \<noteq> 2 ^ 31"
  shows "0 < sint (if d <s 0 then - d else d)"
proof (cases "d <s 0")
  case True
  have range: "- (2 ^ 31) \<le> sint d" "sint d < 0"
    using True sint_greater_eq[of d] by (simp_all add: word_sless_alt)
  have "sint d \<noteq> - (2 ^ 31)"
  proof
    assume "sint d = - (2 ^ 31)"
    then have "word_of_int (sint d) = (word_of_int (- (2 ^ 31)) :: int32)" by simp
    with assms(2) show False by simp
  qed
  with range have small: "0 < - sint d" "- sint d < 2 ^ 31" by simp_all
  have "- d = word_of_int (- sint d)" by simp
  then have "sint (- d) = - sint d"
    using small by (simp only: sint_sbintrunc') (simp add: signed_take_bit_int_eq_self)
  with True small show ?thesis by simp
next
  case False
  have "sint d \<noteq> 0" using assms(1) by (metis signed_0 signed_word_eqI)
  with False show ?thesis by (simp add: word_sless_alt)
qed

lemma zero_divisor:
  fixes d :: int32
  defines "diff \<equiv> (if d <s 0 then - d else d)"
  shows "diff <s push_bit 12 1 \<and> round_up_power_2 diff = 0 \<longleftrightarrow> d \<in> {0, 2 ^ 31}"
proof (cases "d \<in> {0, 2 ^ 31}")
  case True
  then show ?thesis by (auto simp: diff_def round_up_power_2_def word_sless_alt)
next
  case False
  then have pos: "0 < sint diff" unfolding diff_def by (intro abs_positive) auto
  have "round_up_power_2 diff \<noteq> 0" if "diff <s push_bit 12 1"
  proof -
    have "sint diff \<le> 2 ^ 30" using that by (simp add: word_sless_alt)
    from round_up_power_2_least[OF pos this] obtain k where "sint (round_up_power_2 diff) = 2 ^ k" by blast
    then show ?thesis by (metis sint_0 power_not_zero zero_neq_numeral)
  qed
  with False show ?thesis by blast
qed

text \<open>
  C36: What \<open>mm_realloc\<close> does with a NULL pointer, for every size and state, and when it traps.
  Let \<open>d\<close> be the size less that of the previous request, at 32 bits. If \<open>d\<close> is 0 (the same size
  again, or size 0 in the first request), or the value whose \<open>abs\<close> is negative, then
  \<open>round_up_power_2\<close> gives 0 and \<open>mm_realloc\<close> of any pointer traps at the division by it. Otherwise \<open>mm_realloc\<close> of NULL, which
  by its comment should behave as \<open>mm_malloc\<close>, returns NULL and changes nothing but the
  remembered size, since it passes the NULL pointer as the size. So it never allocates.
\<close>

theorem mm_realloc_defects:
  "(if word_of_nat sz - previous_size s \<in> {0, 2 ^ 31} then \<forall>ptr. mm_realloc_sl ptr sz s = Some Fault
    else mm_realloc_sl 0 sz s = Some (Done (s\<lparr>previous_size := word_of_nat sz\<rparr>, 0)))"
proof -
  have null: "mm_realloc_wrapped 0 sz buffer_size s = Some (Done (s, 0))" for buffer_size
    by (simp add: mm_realloc_wrapped_def mm_malloc_sl_def round_up_power_2_def)
  show ?thesis
    unfolding mm_realloc_sl_def Let_def zero_divisor by (simp add: null)
qed

text \<open>
  the three heap walks of \<open>mm_check\<close>, meant to run up to the epilog, stop at the first
  allocated block: when the heap starts with one they accept any heap. The address check
  accepts every pointer.
\<close>

theorem mm_check_stops:
  assumes "GET_STATUS m hp = TAKEN" and "1 \<le> heap_hi"
  shows "check_contiguous_free_block_coalesced hp m = Some (Done ()) \<and>
    check_all_free_blocks_in_free_list fl hp m = Some (Done ()) \<and>
    check_all_free_blocks_valid_ftr_hdr hp m = Some (Done ()) \<and> is_valid_heap_address p heap_lo heap_hi"
  using assms
  by (simp add: check_contiguous_free_block_coalesced_def check_all_free_blocks_in_free_list_def
      check_all_free_blocks_valid_ftr_hdr_def walk.simps is_valid_heap_address_def)

theorem mm_check_stops_witness:
  "GET_STATUS (PUT 16 1 (\<lambda>_. 0)) 16 = TAKEN \<and> check_contiguous_free_block_coalesced 16 (PUT 16 1 (\<lambda>_. 0)) = Some (Done ()) \<and>
   is_valid_heap_address 0 4096 8192"
  using mm_check_stops[of "PUT 16 1 (\<lambda>_. 0)" 16 8192]
  by (simp add: GET_STATUS_def bytes.get_put_same TAKEN_def)

end
