(* ===== verification/SeglistHeap.thy ===== *)
theory SeglistHeap
  imports SeglistLists ImplicitContract
begin

text \<open>
  The heap the segregated-list allocator of \<open>labs/malloclab-handout/mm.c\<close> maintains. As in
  \<open>ImplicitHeap\<close> it is a list of blocks (bytes, allocated), each named by the address of its
  payload; the prologue and the epilogue are allocated blocks without payload. \<open>sane\<close> ties a
  set of blocks to their boundary tags and, per size class, to the doubly linked list that
  holds exactly the free blocks of the class, largest first. The lemmas say which writes keep
  it, and that insertion and removal move one block in or out.
\<close>

section \<open>Tags\<close>

definition words_of :: "nat \<Rightarrow> nat" where
  "words_of t = t div 4 - 2"

definition stag :: "nat \<Rightarrow> bool \<Rightarrow> uint32" where
  "stag t a = PACK_sl (words_of t) (if a then TAKEN else FREE)"

lemma size_ok_words:
  assumes "size_ok t" obtains n where "t = 4 * (n + 2)" "words_of t = n" "n < 2 ^ 29" "even n"
proof -
  from assms obtain k where "t = 8 * k" "1 \<le> k" "k < 2 ^ 28" by (auto simp: size_ok_def)
  then show thesis by (intro that[of "2 * k - 2"]) (auto simp: words_of_def)
qed

lemma size_ok_of_words: "even n \<Longrightarrow> n < 2 ^ 29 - 2 \<Longrightarrow> size_ok (4 * (n + 2))"
  by (auto simp: size_ok_def elim!: evenE)

lemma words_of_add: "size_ok t \<Longrightarrow> size_ok u \<Longrightarrow> words_of (t + u) = words_of t + (words_of u + 2)"
  by (erule size_ok_words, erule size_ok_words) (simp add: words_of_def)

lemma tag_reads:
  assumes "size_ok t" and "GET m q = stag t a"
  shows "GET_SIZE_sl m q = words_of t" and "GET_STATUS m q = (if a then TAKEN else FREE)"
proof -
  obtain n where n: "words_of t = n" "n < 2 ^ 29" using assms(1) by (rule size_ok_words)
  let ?w = "push_bit 3 (word_of_nat n) OR (if a then 1 else 0) :: uint32"
  have g: "GET m q = ?w" using assms(2) n(1) by (simp add: stag_def PACK_sl_def TAKEN_def FREE_def)
  have "drop_bit 3 (?w AND NOT 7) = word_of_nat n"
  proof (rule bit_word_eqI)
    fix i assume i: "i < LENGTH(32)"
    have "\<not> bit n i" if "29 \<le> i"
    proof -
      have "(2::nat) ^ 29 \<le> 2 ^ i" using that by (intro power_increasing) simp_all
      then show ?thesis using n(2) by (simp add: bit_iff_odd)
    qed
    moreover have seven: "(7 :: uint32) = mask 3" by (simp add: mask_eq_exp_minus_1)
    ultimately show "bit (drop_bit 3 (?w AND NOT 7)) i = bit (word_of_nat n :: uint32) i"
      using i unfolding seven by (cases "29 \<le> i") (auto simp: bit_simps)
  qed
  then show "GET_SIZE_sl m q = words_of t" using n by (simp add: GET_SIZE_sl_def g unat_of_nat)
  have "?w AND 1 = (if a then 1 else 0)"
    by (rule bit_word_eqI) (auto simp: bit_simps bit_1_iff)
  then show "GET_STATUS m q = (if a then TAKEN else FREE)" by (simp add: GET_STATUS_def g TAKEN_def FREE_def)
qed

text \<open>A block with payload address \<open>p\<close> and \<open>t\<close> bytes, both tags included.\<close>

definition sblock :: "byte_mem \<Rightarrow> nat \<Rightarrow> nat \<Rightarrow> bool \<Rightarrow> bool" where
  "sblock m p t a \<longleftrightarrow> size_ok t \<and> GET m (p - 4) = stag t a \<and> GET m (p + t - 8) = stag t a"

lemma sblock_reads:
  assumes "sblock m p t a"
  shows "GET_SIZE_sl m (p - 4) = words_of t" and "GET_STATUS m (p - 4) = (if a then TAKEN else FREE)"
    and "GET_SIZE_sl m (p + t - 8) = words_of t"
  using assms unfolding sblock_def by (blast intro: tag_reads)+

lemma size_ok_span: "size_ok t \<Longrightarrow> 4 * (words_of t + 2) = t"
  by (erule size_ok_words) simp

lemma sblock_ends:
  assumes "sblock m p t a" "4 \<le> p"
  shows "FTRP_sl m (p - 4) = p + t - 8" and "NEXT_BLOCK_IN_HEAP m (p - 4) = p + t - 4"
    and "PREV_BLOCK_IN_HEAP m (p + t - 4) = p - 4" and "GET_TOTAL_SIZE m (p - 4) = words_of t + 2"
proof -
  have s: "4 * (words_of t + 2) = t" "8 \<le> t" using assms(1) size_ok_span by (simp_all add: sblock_def size_ok_def)
  note r = sblock_reads[OF assms(1)]
  show "FTRP_sl m (p - 4) = p + t - 8" using r(1) s assms(2) by (simp add: FTRP_sl_def)
  then show "NEXT_BLOCK_IN_HEAP m (p - 4) = p + t - 4" using s assms(2) by (simp add: NEXT_BLOCK_IN_HEAP_def)
  have "p + t - 4 - 4 = p + t - 8" using s(2) by simp
  then show "PREV_BLOCK_IN_HEAP m (p + t - 4) = p - 4"
    using r(3) s by (simp add: PREV_BLOCK_IN_HEAP_def GET_TOTAL_SIZE_def)
  show "GET_TOTAL_SIZE m (p - 4) = words_of t + 2" using r(1) by (simp add: GET_TOTAL_SIZE_def)
qed

text \<open>Writing the two tags of a block.\<close>

definition set_tags :: "nat \<Rightarrow> nat \<Rightarrow> bool \<Rightarrow> byte_mem \<Rightarrow> byte_mem" where
  "set_tags p t a m = PUT (p + t - 8) (stag t a) (PUT (p - 4) (stag t a) m)"

lemma set_tags_block: "4 \<le> p \<Longrightarrow> size_ok t \<Longrightarrow> sblock (set_tags p t a m) p t a"
  unfolding sblock_def set_tags_def size_ok_def
  using bytes.get_put_both[of "p - 4" "p + t - 8"] by auto

lemma set_tags_outside:
  "4 \<le> p \<Longrightarrow> 8 \<le> t \<Longrightarrow> a < p - 4 \<or> p \<le> a \<and> a < p + t - 8 \<or> p + t - 4 \<le> a \<Longrightarrow> set_tags p t b m a = m a"
  unfolding set_tags_def by (rule trans[OF PUT_outside PUT_outside]) auto

lemma tags_written:
  assumes "size_ok t" and "4 \<le> p" and "n = words_of t" "st = (if a then TAKEN else FREE)"
  shows "PUT (FTRP_sl (PUT (p - 4) (PACK_sl n st) m) (p - 4)) (PACK_sl n st) (PUT (p - 4) (PACK_sl n st) m) =
    set_tags p t a m"
proof -
  have w: "PACK_sl n st = stag t a" using assms(3,4) by (simp add: stag_def)
  have "FTRP_sl (PUT (p - 4) (stag t a) m) (p - 4) = p + t - 8"
    using tag_reads(1)[OF assms(1) bytes.get_put_same, of "p - 4" a m] size_ok_span[OF assms(1)] assms(2)
    by (simp add: FTRP_sl_def)
  then show ?thesis by (simp add: w set_tags_def)
qed

section \<open>Sets of blocks\<close>

type_synonym placed = "nat \<times> nat \<times> bool"

fun blocks_at :: "nat \<Rightarrow> block list \<Rightarrow> placed set" where
  "blocks_at p [] = {}"
| "blocks_at p ((t, a) # bs) = insert (p, t, a) (blocks_at (p + t) bs)"

lemma blocks_at_append [simp]: "blocks_at p (xs @ ys) = blocks_at p xs \<union> blocks_at (p + tot xs) ys"
  by (induction xs arbitrary: p) (auto simp: add.assoc)

lemma blocks_at_range: "(q, t, a) \<in> blocks_at p bs \<Longrightarrow> p \<le> q \<and> q + t \<le> p + tot bs"
  by (induction p bs rule: blocks_at.induct) auto

lemma blocks_at_mem: "(q, t, a) \<in> blocks_at p bs \<Longrightarrow> (t, a) \<in> set bs"
  by (induction p bs rule: blocks_at.induct) auto

lemma allocs_blocks_at: "(q, t) \<in> set (allocs p bs) \<longleftrightarrow> (q, t, True) \<in> blocks_at p bs"
  by (induction p bs rule: blocks_at.induct) auto

lemma blocks_at_split:
  "(q, t, a) \<in> blocks_at p bs \<Longrightarrow> \<exists>xs ys. bs = xs @ (t, a) # ys \<and> q = p + tot xs"
proof (induction p bs rule: blocks_at.induct)
  case (2 p u b bs)
  show ?case
  proof (cases "q = p \<and> t = u \<and> a = b")
    case True
    then show ?thesis by (intro exI[of _ "[]"] exI[of _ bs]) simp
  next
    case False
    with 2 obtain xs ys where "bs = xs @ (t, a) # ys" "q = p + u + tot xs" by auto
    then show ?thesis by (intro exI[of _ "(u, b) # xs"] exI[of _ ys]) simp
  qed
qed simp

text \<open>Blocks above the table of list heads at \<open>fl\<close> that do not overlap.\<close>

definition fitting :: "nat \<Rightarrow> placed set \<Rightarrow> bool" where
  "fitting fl B \<longleftrightarrow> (\<forall>q t a. (q, t, a) \<in> B \<longrightarrow>
     fl + 208 \<le> q \<and> q + t \<le> 2 ^ 32 \<and> q + t \<le> fl + 2 ^ 31 \<and> 8 \<le> t \<and> (a \<or> 16 \<le> t))"

definition disjoint_blocks :: "placed set \<Rightarrow> bool" where
  "disjoint_blocks B \<longleftrightarrow>
     (\<forall>q t a r u b. (q, t, a) \<in> B \<longrightarrow> (r, u, b) \<in> B \<longrightarrow> (q, t, a) \<noteq> (r, u, b) \<longrightarrow> q + t \<le> r \<or> r + u \<le> q)"

definition spaced :: "nat \<Rightarrow> placed set \<Rightarrow> bool" where
  "spaced fl B \<longleftrightarrow> fitting fl B \<and> disjoint_blocks B"

lemma spacedD:
  assumes "spaced fl B" "(q, t, a) \<in> B"
  shows "fl + 208 \<le> q" "q + t \<le> 2 ^ 32" "8 \<le> t" "\<not> a \<Longrightarrow> 16 \<le> t" "q + t \<le> fl + 2 ^ 31"
proof -
  have "\<forall>q t a. (q, t, a) \<in> B \<longrightarrow>
      fl + 208 \<le> q \<and> q + t \<le> 2 ^ 32 \<and> q + t \<le> fl + 2 ^ 31 \<and> 8 \<le> t \<and> (a \<or> 16 \<le> t)"
    using assms(1) unfolding spaced_def fitting_def by (rule conjunct1)
  from this[rule_format, OF assms(2)]
  show "fl + 208 \<le> q" "q + t \<le> 2 ^ 32" "8 \<le> t" "\<not> a \<Longrightarrow> 16 \<le> t" "q + t \<le> fl + 2 ^ 31"
    by blast+
qed

lemma spaced_free:
  assumes "spaced fl B" "(q, t, False) \<in> B"
  shows "fl + 208 \<le> q" "q + t \<le> 2 ^ 32" "16 \<le> t"
  using spacedD[OF assms] by simp_all

lemma spaced_apart:
  assumes "spaced fl B" "(q, t, a) \<in> B" "(r, u, b) \<in> B" "(q, t, a) \<noteq> (r, u, b)"
  shows "q + t \<le> r \<or> r + u \<le> q"
proof -
  have "disjoint_blocks B" using assms(1) unfolding spaced_def by (rule conjunct2)
  then show ?thesis using assms(2-4) unfolding disjoint_blocks_def by meson
qed

lemma spaced_mono: "spaced fl B \<Longrightarrow> C \<subseteq> B \<Longrightarrow> spaced fl C"
  unfolding spaced_def fitting_def disjoint_blocks_def by (meson subsetD)

definition sizes_ok :: "block list \<Rightarrow> bool" where
  "sizes_ok bs \<longleftrightarrow> list_all (\<lambda>(t, a). size_ok t \<and> (a \<or> 16 \<le> t)) bs"

lemma spaced_blocks_at:
  assumes "sizes_ok bs" and "fl + 208 \<le> p" and "p + tot bs \<le> 2 ^ 32" and "p + tot bs \<le> fl + 2 ^ 31"
  shows "spaced fl (blocks_at p bs)"
proof -
  have "(q, t, a) \<in> blocks_at p bs \<Longrightarrow> (r, u, b) \<in> blocks_at p bs \<Longrightarrow> (q, t, a) \<noteq> (r, u, b) \<Longrightarrow> q + t \<le> r \<or> r + u \<le> q"
    for q t a r u b
  proof (induction p bs rule: blocks_at.induct)
    case (2 p t' a' bs)
    then consider "q = p" "t = t'" "(r, u, b) \<in> blocks_at (p + t') bs"
      | "(q, t, a) \<in> blocks_at (p + t') bs" "r = p" "u = t'"
      | "(q, t, a) \<in> blocks_at (p + t') bs" "(r, u, b) \<in> blocks_at (p + t') bs"
      by auto
    then show ?case
    proof cases
      case 1
      then show ?thesis using blocks_at_range[OF 1(3)] by simp
    next
      case 2
      then show ?thesis using blocks_at_range[OF 2(1)] by simp
    next
      case 3
      then show ?thesis using "2.IH" "2.prems"(3) by blast
    qed
  qed simp
  moreover have "fl + 208 \<le> q \<and> q + t \<le> 2 ^ 32 \<and> q + t \<le> fl + 2 ^ 31 \<and> 8 \<le> t \<and> (a \<or> 16 \<le> t)" if "(q, t, a) \<in> blocks_at p bs" for q t a
  proof -
    have "size_ok t \<and> (a \<or> 16 \<le> t)" using blocks_at_mem[OF that] assms(1) by (auto simp: sizes_ok_def list_all_iff dest!: bspec)
    moreover have "fl + 208 \<le> q" "q + t \<le> 2 ^ 32" "q + t \<le> fl + 2 ^ 31"
      using blocks_at_range[OF that] assms(2-4) by linarith+
    ultimately show ?thesis by (simp add: size_ok_def)
  qed
  ultimately show ?thesis unfolding spaced_def fitting_def disjoint_blocks_def by meson
qed

section \<open>Free lists\<close>

definition class_of :: "nat \<Rightarrow> nat" where
  "class_of t = find_free_list_index (words_of t)"

lemma class_of_le: "size_ok t \<Longrightarrow> class_of t \<le> MAX_POWER"
proof (erule size_ok_words)
  fix n assume "words_of t = n" "n < 2 ^ 29"
  then have "bitlen n \<le> 29" "class_of t = bitlen n - 1"
    using bitlen_le[of n 29] find_free_list_index_log[of n] by (simp_all add: class_of_def)
  then show "class_of t \<le> MAX_POWER" by (simp add: MAX_POWER_def)
qed

text \<open>The nodes of a class: the headers of its free blocks.\<close>

definition members :: "placed set \<Rightarrow> nat \<Rightarrow> nat set" where
  "members B i = {q - 4 | q t. (q, t, False) \<in> B \<and> class_of t = i}"

definition ordered :: "byte_mem \<Rightarrow> nat list \<Rightarrow> bool" where
  "ordered m xs \<longleftrightarrow> sorted_wrt (\<lambda>x y. GET_SIZE_sl m y \<le> GET_SIZE_sl m x) xs"

definition lists_ok :: "nat \<Rightarrow> byte_mem \<Rightarrow> placed set \<Rightarrow> bool" where
  "lists_ok fl m B \<longleftrightarrow>
     (\<forall>i\<le>MAX_POWER. \<exists>xs. class_list fl m i xs \<and> ordered m xs \<and> set xs = members B i)"

definition tagged :: "byte_mem \<Rightarrow> placed set \<Rightarrow> bool" where
  "tagged m B \<longleftrightarrow> (\<forall>q t a. (q, t, a) \<in> B \<longrightarrow> sblock m q t a)"

definition sane :: "nat \<Rightarrow> byte_mem \<Rightarrow> placed set \<Rightarrow> bool" where
  "sane fl m B \<longleftrightarrow> spaced fl B \<and> tagged m B \<and> lists_ok fl m B"

lemma saneD:
  assumes "sane fl m B"
  shows "spaced fl B" and "tagged m B" and "lists_ok fl m B" and "(q, t, a) \<in> B \<Longrightarrow> sblock m q t a"
  using assms by (auto simp: sane_def tagged_def)

lemma members_cases:
  assumes "x \<in> members B i"
  obtains q t where "x = q - 4" "(q, t, False) \<in> B" "class_of t = i"
  using assms unfolding members_def by blast

lemma in_members: "(q, t, False) \<in> B \<Longrightarrow> class_of t = i \<Longrightarrow> q - 4 \<in> members B i"
  unfolding members_def by blast

lemma members_mono: "C \<subseteq> B \<Longrightarrow> members C i \<subseteq> members B i"
  unfolding members_def by blast

lemma members_Un [simp]: "members (B \<union> C) i = members B i \<union> members C i"
  unfolding members_def by blast

lemma members_insert:
  "members (insert (q, t, a) B) i = (if \<not> a \<and> class_of t = i then insert (q - 4) (members B i) else members B i)"
  unfolding members_def by auto

lemma spaced_same:
  assumes "spaced fl B" "(q, t, a) \<in> B" "(r, u, b) \<in> B" "q - 4 = r - 4"
  shows "(q, t, a) = (r, u, b)"
proof (rule ccontr)
  assume "(q, t, a) \<noteq> (r, u, b)"
  with assms have "q + t \<le> r \<or> r + u \<le> q" by (intro spaced_apart)
  then show False using spacedD[OF assms(1,2)] spacedD[OF assms(1,3)] assms(4) by linarith
qed

lemma members_Diff:
  assumes "spaced fl B" "(q, t, False) \<in> B"
  shows "members (B - {(q, t, False)}) i = members B i - (if class_of t = i then {q - 4} else {})"
proof -
  have "x \<in> members (B - {(q, t, False)}) i" if x: "x \<in> members B i" "class_of t = i \<longrightarrow> x \<noteq> q - 4" for x
    using x by (elim members_cases) (auto intro!: in_members)
  moreover have "x \<noteq> q - 4" if x: "x \<in> members (B - {(q, t, False)}) i" for x
    using x
  proof (elim members_cases)
    fix r u assume r: "x = r - 4" "(r, u, False) \<in> B - {(q, t, False)}"
    then show "x \<noteq> q - 4" using spaced_same[OF assms(1), of r u False q t False] assms(2) by auto
  qed
  ultimately show ?thesis using members_mono[of "B - {(q, t, False)}" B i] by (auto split: if_splits)
qed

lemma members_pool:
  assumes "spaced fl B" "i \<le> MAX_POWER"
  shows "pool (members B j) (fl + 4 * i)"
proof -
  have "apart x y" if xy: "x \<in> members B j" "y \<in> members B j" "x \<noteq> y" for x y
  proof -
    obtain q t where q: "x = q - 4" "(q, t, False) \<in> B" using xy(1) by (rule members_cases)
    obtain r u where r: "y = r - 4" "(r, u, False) \<in> B" using xy(2) by (rule members_cases)
    have "(q, t, False) \<noteq> (r, u, False)" using q r xy(3) by auto
    then have "q + t \<le> r \<or> r + u \<le> q" using q r by (intro spaced_apart[OF assms(1)])
    then show ?thesis
      using spaced_free[OF assms(1) q(2)] spaced_free[OF assms(1) r(2)] q(1) r(1) unfolding apart_def by linarith
  qed
  moreover have "fl + 4 * i + 4 \<le> x" if x: "x \<in> members B j" for x
  proof -
    obtain q t where q: "x = q - 4" "(q, t, False) \<in> B" using x by (rule members_cases)
    then show ?thesis using spacedD(1)[OF assms(1) q(2)] assms(2) unfolding MAX_POWER_def by linarith
  qed
  ultimately show ?thesis unfolding pool_def by blast
qed

section \<open>What writes leave alone\<close>

text \<open>Only list heads and the links of free blocks of \<open>B\<close> are written.\<close>

definition links_only :: "nat \<Rightarrow> placed set \<Rightarrow> byte_mem \<Rightarrow> byte_mem \<Rightarrow> bool" where
  "links_only fl B m m' \<longleftrightarrow>
     (\<forall>a. (a < fl \<or> fl + 204 \<le> a) \<and> (\<forall>q t. (q, t, False) \<in> B \<longrightarrow> a < q \<or> q + 8 \<le> a) \<longrightarrow> m' a = m a)"

lemma links_only_refl [simp]: "links_only fl B m m"
  by (simp add: links_only_def)

lemma links_only_trans: "links_only fl B m m' \<Longrightarrow> links_only fl B m' m'' \<Longrightarrow> links_only fl B m m''"
  by (simp add: links_only_def)

lemma links_only_mono: "links_only fl C m m' \<Longrightarrow> C \<subseteq> B \<Longrightarrow> links_only fl B m m'"
  unfolding links_only_def by blast

lemma links_onlyD:
  "links_only fl B m m' \<Longrightarrow> a < fl \<or> fl + 204 \<le> a \<Longrightarrow> (\<And>q t. (q, t, False) \<in> B \<Longrightarrow> a < q \<or> q + 8 \<le> a) \<Longrightarrow> m' a = m a"
  unfolding links_only_def by blast

lemma GET_bytes: "(\<And>a. p \<le> a \<Longrightarrow> a < p + 4 \<Longrightarrow> m' a = m a) \<Longrightarrow> GET m' p = GET m p"
  by (simp add: GET_def)

lemma links_only_GET:
  assumes "links_only fl B m m'" and "p + 4 \<le> fl \<or> fl + 204 \<le> p"
    and "\<And>q t. (q, t, False) \<in> B \<Longrightarrow> p + 4 \<le> q \<or> q + 8 \<le> p"
  shows "GET m' p = GET m p"
proof (rule GET_bytes)
  fix a assume a: "p \<le> a" "a < p + 4"
  show "m' a = m a"
  proof (rule links_onlyD[OF assms(1)])
    show "a < fl \<or> fl + 204 \<le> a" using a assms(2) by linarith
    show "a < q \<or> q + 8 \<le> a" if "(q, t, False) \<in> B" for q t using a assms(3)[OF that] by linarith
  qed
qed

lemma elsewhere_links_only:
  assumes "elsewhere (members B i) (fl + 4 * i) m m'" "i \<le> MAX_POWER" "spaced fl B"
  shows "links_only fl B m m'"
  unfolding links_only_def
proof (intro allI impI, elim conjE)
  fix a assume a: "a < fl \<or> fl + 204 \<le> a" "\<forall>q t. (q, t, False) \<in> B \<longrightarrow> a < q \<or> q + 8 \<le> a"
  have "a < x + 4 \<or> x + 12 \<le> a" if "x \<in> members B i" for x
    using that
  proof (elim members_cases)
    fix q t assume q: "x = q - 4" "(q, t, False) \<in> B"
    then have "a < q \<or> q + 8 \<le> a" using a(2) by blast
    then show ?thesis using q(1) spacedD(1)[OF assms(3) q(2)] by linarith
  qed
  moreover have "a < fl + 4 * i \<or> fl + 4 * i + 4 \<le> a" using a(1) assms(2) unfolding MAX_POWER_def by linarith
  ultimately show "m' a = m a" using assms(1) unfolding elsewhere_def by blast
qed

text \<open>A tag of one block does not lie in the links of another, nor in its own.\<close>

lemma links_only_tags:
  assumes "links_only fl B m m'" "spaced fl (insert (q, t, a) B)"
  shows "GET m' (q - 4) = GET m (q - 4)" and "GET m' (q + t - 8) = GET m (q + t - 8)"
proof -
  note s = spacedD[OF assms(2) insertI1]
  have apart: "(r, u) = (q, t) \<and> 16 \<le> u \<or> r + u \<le> q \<or> q + t \<le> r" "16 \<le> u" if r: "(r, u, False) \<in> B" for r u
  proof -
    have rI: "(r, u, False) \<in> insert (q, t, a) B" using r by simp
    show "16 \<le> u" using spacedD(4)[OF assms(2) rI] by simp
    then show "(r, u) = (q, t) \<and> 16 \<le> u \<or> r + u \<le> q \<or> q + t \<le> r"
      using spaced_apart[OF assms(2) rI insertI1] by auto
  qed
  show "GET m' (q - 4) = GET m (q - 4)" 
  proof (rule links_only_GET[OF assms(1)])
    show "q - 4 + 4 \<le> r \<or> r + 8 \<le> q - 4" if "(r, u, False) \<in> B" for r u using apart[OF that] s by auto
  qed (use s in simp)
  show "GET m' (q + t - 8) = GET m (q + t - 8)" 
  proof (rule links_only_GET[OF assms(1)])
    show "q + t - 8 + 4 \<le> r \<or> r + 8 \<le> q + t - 8" if "(r, u, False) \<in> B" for r u using apart[OF that] s by auto
    show "q + t - 8 + 4 \<le> fl \<or> fl + 204 \<le> q + t - 8" using s(1,3) by linarith
  qed
qed

lemma links_only_sblock:
  assumes "links_only fl B m m'" "spaced fl (insert (q, t, a) B)"
  shows "sblock m' q t b = sblock m q t b"
  unfolding sblock_def links_only_tags[OF assms] ..

end
