(* ===== verification/SeglistFree.thy ===== *)
theory SeglistFree
  imports SeglistHeap
begin

text \<open>
  Moving a block in and out of the free lists of a sane set of blocks, rewriting memory
  around it, and searching it: \<open>remove_block_from_free_list\<close>, \<open>place_block_into_free_list\<close>
  and \<open>find_free_block\<close> on the invariant \<open>sane\<close>.
\<close>

section \<open>Rewriting what no list uses\<close>

lemma class_list_frame:
  assumes "class_list fl m i xs" and "GET_FREE_LIST_PTR fl m' i = GET_FREE_LIST_PTR fl m i"
    and "\<And>x. x \<in> set xs \<Longrightarrow> GET_PRED m' x = GET_PRED m x \<and> GET_SUCC m' x = GET_SUCC m x"
  shows "class_list fl m' i xs"
  using assms dseg_frame[of xs m' m] by (simp add: class_list_def)

lemma ordered_frame:
  assumes "ordered m xs" and "\<And>x. x \<in> set xs \<Longrightarrow> GET_SIZE_sl m' x = GET_SIZE_sl m x"
  shows "ordered m' xs"
  using assms sorted_same_sizes[of "GET_SIZE_sl m" xs "GET_SIZE_sl m'"] by (simp add: ordered_def)

text \<open>The words a block needs for itself: its tags and, when free, its links.\<close>

definition same_words :: "byte_mem \<Rightarrow> byte_mem \<Rightarrow> placed set \<Rightarrow> bool" where
  "same_words m m' B \<longleftrightarrow> (\<forall>q t a. (q, t, a) \<in> B \<longrightarrow>
     GET m' (q - 4) = GET m (q - 4) \<and> GET m' (q + t - 8) = GET m (q + t - 8) \<and>
     (\<not> a \<longrightarrow> GET m' q = GET m q \<and> GET m' (q + 4) = GET m (q + 4)))"

definition same_heads :: "nat \<Rightarrow> byte_mem \<Rightarrow> byte_mem \<Rightarrow> bool" where
  "same_heads fl m m' \<longleftrightarrow> (\<forall>i\<le>MAX_POWER. GET_FREE_LIST_PTR fl m' i = GET_FREE_LIST_PTR fl m i)"

lemma member_reads:
  assumes "same_words m m' B" "spaced fl B" "x \<in> members B i"
  shows "GET_PRED m' x = GET_PRED m x" "GET_SUCC m' x = GET_SUCC m x" "GET_SIZE_sl m' x = GET_SIZE_sl m x"
proof -
  obtain q t where q: "x = q - 4" "(q, t, False) \<in> B" using assms(3) by (rule members_cases)
  have w: "GET m' (q - 4) = GET m (q - 4)" "GET m' q = GET m q" "GET m' (q + 4) = GET m (q + 4)"
    using assms(1) q(2) unfolding same_words_def by blast+
  have "x + 4 = q" "x + 8 = q + 4" using q(1) spacedD(1)[OF assms(2) q(2)] by simp_all
  then show "GET_PRED m' x = GET_PRED m x" "GET_SUCC m' x = GET_SUCC m x" "GET_SIZE_sl m' x = GET_SIZE_sl m x"
    using w q(1) unfolding GET_PRED_def GET_SUCC_def GET_SIZE_sl_def by metis+
qed

lemma sane_frame:
  assumes "sane fl m B" and "same_words m m' B" and "same_heads fl m m'"
  shows "sane fl m' B"
proof -
  note S = saneD[OF assms(1)]
  have "tagged m' B" using S(4) assms(2) unfolding tagged_def sblock_def same_words_def by metis
  moreover have "\<exists>xs. class_list fl m' i xs \<and> ordered m' xs \<and> set xs = members B i" if i: "i \<le> MAX_POWER" for i
  proof -
    obtain xs where xs: "class_list fl m i xs" "ordered m xs" "set xs = members B i"
      using S(3) i unfolding lists_ok_def by blast
    have "class_list fl m' i xs"
      by (rule class_list_frame[OF xs(1)])
        (use assms(3) i xs(3) member_reads[OF assms(2) S(1)] in \<open>simp_all add: same_heads_def\<close>)
    moreover have "ordered m' xs"
      by (rule ordered_frame[OF xs(2)]) (use xs(3) member_reads[OF assms(2) S(1)] in simp)
    ultimately show ?thesis using xs(3) by blast
  qed
  ultimately show ?thesis using S(1) by (simp add: sane_def lists_ok_def)
qed

text \<open>Writes inside \<open>[lo, hi)\<close> that stay clear of the table and of the blocks of \<open>B\<close>.\<close>

lemma sane_outside:
  assumes "sane fl m B" and "agree_outside lo hi m m'" and "fl + 204 \<le> lo"
    and "\<And>q t a. (q, t, a) \<in> B \<Longrightarrow> q + t - 4 \<le> lo \<or> hi \<le> q - 4"
  shows "sane fl m' B"
proof (rule sane_frame[OF assms(1)])
  note g = agree_outside_GET[OF assms(2)]
  show "same_heads fl m m'" unfolding same_heads_def
  proof (intro allI impI)
    fix i assume "i \<le> MAX_POWER"
    then have "fl + 4 * i + 4 \<le> lo" using assms(3) unfolding MAX_POWER_def by linarith
    then show "GET_FREE_LIST_PTR fl m' i = GET_FREE_LIST_PTR fl m i" using g by (simp add: GET_FREE_LIST_PTR_def)
  qed
  show "same_words m m' B" unfolding same_words_def
  proof (intro allI impI conjI)
    fix q t a assume q: "(q, t, a) \<in> B"
    note s = spacedD[OF saneD(1)[OF assms(1)] q] and out = assms(4)[OF q]
    show "GET m' (q - 4) = GET m (q - 4)" "GET m' (q + t - 8) = GET m (q + t - 8)"
      using out s(1,3) by (intro g; linarith)+
    assume "\<not> a"
    then have "16 \<le> t" by (rule s(4))
    then show "GET m' q = GET m q" "GET m' (q + 4) = GET m (q + 4)" using out s(1) by (intro g; linarith)+
  qed
qed

lemma sane_drop_taken:
  assumes "sane fl m B" "C \<subseteq> B" "\<And>q t. (q, t, False) \<in> B \<Longrightarrow> (q, t, False) \<in> C"
  shows "sane fl m C"
proof -
  have "members C i = members B i" for i using assms(2,3) unfolding members_def by blast
  then show ?thesis
    using assms(1,2) spaced_mono[of fl B C] by (auto simp: sane_def lists_ok_def tagged_def)
qed

lemma sane_add_taken:
  assumes "sane fl m B" "sblock m p t True" "spaced fl (insert (p, t, True) B)"
  shows "sane fl m (insert (p, t, True) B)"
  using assms by (auto simp: sane_def lists_ok_def tagged_def members_insert)

section \<open>Removal and insertion\<close>

lemma elsewhere_same:
  assumes sp: "spaced fl B" and e: "elsewhere (members B i) (fl + 4 * i) m m'" and "i \<le> MAX_POWER"
    and r: "(r, u, a) \<in> B" "a \<or> class_of u \<noteq> i"
  shows "GET m' r = GET m r \<or> u < 12" and "GET m' (r + 4) = GET m (r + 4) \<or> u < 16"
proof -
  have out: "m' b = m b" if b: "r \<le> b" "b < r + u - 8" for b
  proof -
    have "b < x + 4 \<or> x + 12 \<le> b" if x: "x \<in> members B i" for x
    proof -
      obtain q t where q: "x = q - 4" "(q, t, False) \<in> B" "class_of t = i" using x by (rule members_cases)
      then have "(q, t, False) \<noteq> (r, u, a)" using r(2) by auto
      then have "q + t \<le> r \<or> r + u \<le> q" using q(2) r(1) by (intro spaced_apart[OF sp])
      then show ?thesis using q(1) b spaced_free[OF sp q(2)] by linarith
    qed
    moreover have "fl + 4 * i + 4 \<le> b" using b(1) spacedD(1)[OF sp r(1)] assms(3) unfolding MAX_POWER_def by linarith
    ultimately show ?thesis using e unfolding elsewhere_def by blast
  qed
  show "GET m' r = GET m r \<or> u < 12"
    by (cases "u < 12") (auto intro!: GET_bytes out)
  show "GET m' (r + 4) = GET m (r + 4) \<or> u < 16"
    by (cases "u < 16") (auto intro!: GET_bytes out)
qed

text \<open>The lists of the other classes survive an operation on class \<open>i\<close>.\<close>

lemma other_class:
  assumes sp: "spaced fl B" and e: "elsewhere (members B i) (fl + 4 * i) m m'" and i: "i \<le> MAX_POWER" "j \<le> MAX_POWER" "j \<noteq> i"
    and l: "class_list fl m j xs" "ordered m xs" "set xs \<subseteq> members B j"
  shows "class_list fl m' j xs \<and> ordered m' xs"
proof -
  have reads: "GET_PRED m' x = GET_PRED m x \<and> GET_SUCC m' x = GET_SUCC m x \<and> GET_SIZE_sl m' x = GET_SIZE_sl m x"
    if x: "x \<in> set xs" for x
  proof -
    obtain q t where q: "x = q - 4" "(q, t, False) \<in> B" "class_of t = j" using l(3) x by (blast elim: members_cases)
    note s = spaced_free[OF sp q(2)]
    have "GET m' q = GET m q" "GET m' (q + 4) = GET m (q + 4)"
      using elsewhere_same[OF sp e i(1) q(2)] q(3) i(3) s(3) by auto
    moreover have "GET m' (q - 4) = GET m (q - 4)"
      using links_only_tags(1)[OF elsewhere_links_only[OF e i(1) sp], of q t False] sp q(2) by (simp add: insert_absorb)
    moreover have "x + 4 = q" "x + 8 = q + 4" using q(1) s(1) by simp_all
    ultimately show ?thesis using q(1) unfolding GET_PRED_def GET_SUCC_def GET_SIZE_sl_def by metis
  qed
  have "GET m' (fl + 4 * j) = GET m (fl + 4 * j)"
  proof (rule GET_bytes)
    fix a assume a: "fl + 4 * j \<le> a" "a < fl + 4 * j + 4"
    have "a < x + 4" if "x \<in> members B i" for x
    proof -
      obtain q t where q: "x = q - 4" "(q, t, False) \<in> B" using \<open>x \<in> members B i\<close> by (rule members_cases)
      then show ?thesis using a(2) i(2) spaced_free[OF sp q(2)] unfolding MAX_POWER_def by linarith
    qed
    moreover have "a < fl + 4 * i \<or> fl + 4 * i + 4 \<le> a" using a i(3) by linarith
    ultimately show "m' a = m a" using e unfolding elsewhere_def by blast
  qed
  then show ?thesis
    using class_list_frame[OF l(1), of m'] ordered_frame[OF l(2), of m'] reads by (simp add: GET_FREE_LIST_PTR_def)
qed

lemma tagged_links:
  assumes "tagged m B" "links_only fl B m m'" "spaced fl B"
  shows "tagged m' B"
  unfolding tagged_def
proof (intro allI impI)
  fix q t a assume q: "(q, t, a) \<in> B"
  then have "sblock m q t a" using assms(1) by (simp add: tagged_def)
  then show "sblock m' q t a" using links_only_sblock[OF assms(2), of q t a a] assms(3) q by (simp add: insert_absorb)
qed

lemma remove_sane:
  assumes ok: "sane fl m B" and q: "(q, t, False) \<in> B"
  defines "m' \<equiv> remove_block_from_free_list fl (q - 4) m"
  shows "sane fl m' (B - {(q, t, False)})" and "links_only fl B m m'"
proof -
  let ?i = "class_of t"
  note S = saneD[OF ok] and s = spaced_free[OF S(1) q]
  have b: "sblock m q t False" by (rule S(4)[OF q])
  then have t: "size_ok t" by (simp add: sblock_def)
  then have i: "?i \<le> MAX_POWER" by (rule class_of_le)
  obtain xs where xs: "class_list fl m ?i xs" "ordered m xs" "set xs = members B ?i"
    using S(3) i unfolding lists_ok_def by blast
  have "q - 4 \<in> set xs" using xs(3) in_members[OF q] by simp
  then obtain us vs where us: "xs = us @ (q - 4) # vs" using split_list by metis
  have size: "GET_SIZE_sl m (q - 4) \<noteq> 0" "?i = find_free_list_index (GET_SIZE_sl m (q - 4))"
    using sblock_reads(1)[OF b] s(3) t by (simp_all add: words_of_def class_of_def size_ok_def) 
  have R: "class_list fl m' ?i (us @ vs)" "\<forall>x\<in>members B ?i. GET_SIZE_sl m' x = GET_SIZE_sl m x"
      "elsewhere (members B ?i) (fl + 4 * ?i) m m'"
    using remove_block_list[OF members_pool[OF S(1) i, of ?i] equalityD1[OF xs(3)[unfolded us]] xs(1)[unfolded us] size]
    unfolding m'_def by blast+
  show lo: "links_only fl B m m'" by (rule elsewhere_links_only[OF R(3) i S(1)])
  have dist: "distinct (us @ (q - 4) # vs)" using xs(1) us by (simp add: class_list_def)
  have "\<exists>ys. class_list fl m' j ys \<and> ordered m' ys \<and> set ys = members (B - {(q, t, False)}) j"
    if j: "j \<le> MAX_POWER" for j
  proof (cases "j = ?i")
    case True
    have "ordered m (us @ vs)" using xs(2) us by (auto simp: ordered_def sorted_wrt_append)
    then have "ordered m' (us @ vs)" by (rule ordered_frame) (use R(2) xs(3) us in auto)
    moreover have "set (us @ vs) = members (B - {(q, t, False)}) j"
      using xs(3) us dist True unfolding members_Diff[OF S(1) q] by auto
    ultimately show ?thesis using R(1) True by blast
  next
    case False
    obtain ys where ys: "class_list fl m j ys" "ordered m ys" "set ys = members B j"
      using S(3) j unfolding lists_ok_def by blast
    with other_class[OF S(1) R(3) i j False, of ys] False show ?thesis
      unfolding members_Diff[OF S(1) q] by auto
  qed
  moreover have "tagged m' (B - {(q, t, False)})"
    using tagged_links[OF S(2) lo S(1)] by (simp add: tagged_def)
  moreover have "spaced fl (B - {(q, t, False)})" by (rule spaced_mono[OF S(1)]) auto
  ultimately show "sane fl m' (B - {(q, t, False)})" by (simp add: sane_def lists_ok_def)
qed

lemma place_sane:
  assumes ok: "sane fl m B" and b: "sblock m p t False" and sp: "spaced fl (insert (p, t, False) B)"
    and new: "(p, t, False) \<notin> B"
  shows "\<exists>m'. place_block_into_free_list fl (p - 4) m = Some m' \<and> sane fl m' (insert (p, t, False) B) \<and>
    links_only fl (insert (p, t, False) B) m m'"
proof -
  let ?i = "class_of t" and ?B = "insert (p, t, False) B"
  note S = saneD[OF ok] and s = spaced_free[OF sp insertI1]
  have t: "size_ok t" using b by (simp add: sblock_def)
  then have i: "?i \<le> MAX_POWER" by (rule class_of_le)
  obtain xs where xs: "class_list fl m ?i xs" "ordered m xs" "set xs = members B ?i"
    using S(3) i unfolding lists_ok_def by blast
  let ?big = "\<lambda>x. GET_SIZE_sl m (p - 4) < GET_SIZE_sl m x"
  let ?ys = "takeWhile ?big xs @ (p - 4) # dropWhile ?big xs"
  have mem: "p - 4 \<in> members ?B ?i" "set xs \<subseteq> members ?B ?i" using xs(3) by (auto simp: members_insert)
  have notin: "p - 4 \<notin> set xs"
  proof
    assume "p - 4 \<in> set xs"
    then obtain r u where r: "p - 4 = r - 4" "(r, u, False) \<in> B" using xs(3) by (blast elim: members_cases)
    then have "(p, t, False) = (r, u, False)" by (intro spaced_same[OF sp]) auto
    with r(2) new show False by simp
  qed
  have size: "GET_SIZE_sl m (p - 4) \<noteq> 0" "?i = find_free_list_index (GET_SIZE_sl m (p - 4))" "0 < p - 4" "p - 4 < 2 ^ 32"
    using sblock_reads(1)[OF b] s t by (simp_all add: words_of_def class_of_def size_ok_def)
  obtain m' where R: "place_block_into_free_list fl (p - 4) m = Some m'" "class_list fl m' ?i ?ys"
      "\<forall>x\<in>members ?B ?i. GET_SIZE_sl m' x = GET_SIZE_sl m x" "elsewhere (members ?B ?i) (fl + 4 * ?i) m m'"
    using place_block_list[OF members_pool[OF sp i] mem notin size(3,4) xs(1) size(1,2)] by blast
  have lo: "links_only fl ?B m m'" by (rule elsewhere_links_only[OF R(4) i sp])
  have set_ys: "set ?ys = insert (p - 4) (set xs)"
    by (metis (no_types) Un_insert_right list.simps(15) set_append takeWhile_dropWhile_id)
  have "\<exists>ys. class_list fl m' j ys \<and> ordered m' ys \<and> set ys = members ?B j" if j: "j \<le> MAX_POWER" for j
  proof (cases "j = ?i")
    case True
    have "ordered m ?ys"
      unfolding ordered_def sorted_insert[OF xs(2)[unfolded ordered_def]]
    proof (intro conjI ballI)
      fix x assume "x \<in> set (takeWhile ?big xs)"
      then have "?big x" by (rule set_takeWhileD [THEN conjunct2])
      then show "GET_SIZE_sl m (p - 4) \<le> GET_SIZE_sl m x" by simp
    next
      fix x assume "x \<in> set (dropWhile ?big xs)"
      then show "GET_SIZE_sl m x \<le> GET_SIZE_sl m (p - 4)" by (rule dropWhile_small[OF xs(2)[unfolded ordered_def]])
    qed
    moreover have "set ?ys \<subseteq> members ?B ?i" using set_ys mem by simp
    ultimately have "ordered m' ?ys" using R(3) by (blast intro: ordered_frame)
    moreover have "set ?ys = members ?B j" using set_ys xs(3) True by (simp add: members_insert)
    ultimately show ?thesis using R(2) True by blast
  next
    case False
    obtain ys where ys: "class_list fl m j ys" "ordered m ys" "set ys = members B j"
      using S(3) j unfolding lists_ok_def by blast
    with other_class[OF sp R(4) i j False, of ys] False show ?thesis by (auto simp: members_insert)
  qed
  moreover have "tagged m' ?B"
    using tagged_links[OF _ lo sp] S(2) b by (simp add: tagged_def)
  ultimately have "sane fl m' ?B" using sp by (simp add: sane_def lists_ok_def)
  with R(1) lo show ?thesis by blast
qed

section \<open>Searching\<close>

lemma scan_class_list:
  "dseg m prev p xs 0 \<Longrightarrow> ordered m xs \<Longrightarrow> xs \<noteq> [] \<Longrightarrow> words \<le> GET_SIZE_sl m p \<Longrightarrow>
   \<exists>r\<in>set xs. scan_class m words p = Some r \<and> words \<le> GET_SIZE_sl m r \<and>
     (\<forall>x\<in>set xs. words \<le> GET_SIZE_sl m x \<longrightarrow> GET_SIZE_sl m r \<le> GET_SIZE_sl m x)"
proof (induction xs arbitrary: prev p)
  case (Cons b bs)
  let ?s = "GET_SIZE_sl m"
  have d: "p = b" "dseg m b (GET_SUCC m b) bs 0" using Cons.prems(1) by auto
  have o: "\<forall>x\<in>set bs. ?s x \<le> ?s b" "ordered m bs" using Cons.prems(2) by (auto simp: ordered_def)
  have succ: "GET_SUCC m b = firstp bs 0" using dseg_first[OF d(2)] .
  show ?case
  proof (cases "?s b = words")
    case True
    then show ?thesis using d(1) by (intro bexI[of _ b]) (simp_all add: scan_class.simps)
  next
    case False
    show ?thesis
    proof (cases bs)
      case Nil
      then show ?thesis using d(1) succ Cons.prems(4) by (simp add: scan_class.simps[of m words b])
    next
      case (Cons c cs)
      then have c: "GET_SUCC m b = c" "c \<noteq> 0" using succ d(2) by auto
      show ?thesis
      proof (cases "?s c < words")
        case True
        have "?s x < words" if "x \<in> set bs" for x
          using that o(2) True Cons by (fastforce simp: ordered_def)
        then have "\<forall>x\<in>set (b # bs). words \<le> ?s x \<longrightarrow> ?s b \<le> ?s x" using not_le by auto
        then show ?thesis using d(1) Cons.prems(4) c True False by (intro bexI[of _ b]) (simp_all add: scan_class.simps[of m words b])
      next
        case ge: False
        have "\<exists>r\<in>set bs. scan_class m words c = Some r \<and> words \<le> ?s r \<and> (\<forall>x\<in>set bs. words \<le> ?s x \<longrightarrow> ?s r \<le> ?s x)"
          by (rule Cons.IH) (use d(2) o(2) Cons ge c in auto)
        then obtain r where r: "r \<in> set bs" "scan_class m words c = Some r" "words \<le> ?s r"
            "\<forall>x\<in>set bs. words \<le> ?s x \<longrightarrow> ?s r \<le> ?s x" by blast
        then show ?thesis using d(1) c False ge o(1) by (intro bexI[of _ r]) (simp_all add: scan_class.simps[of m words b])
      qed
    qed
  qed
qed simp

lemma last_in_list_last: "dseg m prev p xs 0 \<Longrightarrow> xs \<noteq> [] \<Longrightarrow> last_in_list m p = Some (last xs)"
proof (induction xs arbitrary: prev p)
  case (Cons b bs)
  then have d: "p = b" "dseg m b (GET_SUCC m b) bs 0" by auto
  show ?case
  proof (cases bs)
    case Nil
    with d show ?thesis by (simp add: last_in_list.simps[of m b])
  next
    case (Cons c cs)
    with d have "GET_SUCC m b \<noteq> 0" by auto
    with d Cons.IH[OF d(2)] Cons show ?thesis by (simp add: last_in_list.simps[of m b])
  qed
qed simp

lemma ordered_last: "ordered m xs \<Longrightarrow> x \<in> set xs \<Longrightarrow> GET_SIZE_sl m (last xs) \<le> GET_SIZE_sl m x"
  by (induction xs) (auto simp: ordered_def)

lemma ordered_first: "ordered m xs \<Longrightarrow> x \<in> set xs \<Longrightarrow> GET_SIZE_sl m x \<le> GET_SIZE_sl m (firstp xs 0)"
  by (cases xs) (auto simp: ordered_def)

lemma next_class_spec:
  assumes "i \<le> MAX_POWER"
  shows "i \<le> next_class fl m i \<and> next_class fl m i \<le> MAX_POWER \<and>
    (\<forall>k. i \<le> k \<and> k < next_class fl m i \<longrightarrow> GET_FREE_LIST_PTR fl m k = 0) \<and>
    (GET_FREE_LIST_PTR fl m (next_class fl m i) = 0 \<longrightarrow> next_class fl m i = MAX_POWER)"
  using assms
proof (induction fl m i rule: next_class.induct)
  case (1 fl m i)
  show ?case
  proof (cases "GET_FREE_LIST_PTR fl m i = 0 \<and> i < MAX_POWER")
    case True
    then have eq: "next_class fl m i = next_class fl m (i + 1)" by (simp add: next_class.simps[of fl m i])
    have IH: "i + 1 \<le> next_class fl m (i + 1) \<and> next_class fl m (i + 1) \<le> MAX_POWER \<and>
      (\<forall>k. i + 1 \<le> k \<and> k < next_class fl m (i + 1) \<longrightarrow> GET_FREE_LIST_PTR fl m k = 0) \<and>
      (GET_FREE_LIST_PTR fl m (next_class fl m (i + 1)) = 0 \<longrightarrow> next_class fl m (i + 1) = MAX_POWER)"
      by (rule "1.IH") (use True in simp_all)
    have "GET_FREE_LIST_PTR fl m k = 0" if "i \<le> k" "k < next_class fl m (i + 1)" for k
      using IH True that by (cases "k = i") auto
    then show ?thesis unfolding eq using IH by auto
  next
    case False
    then have "next_class fl m i = i" by (subst next_class.simps) (rule if_not_P)
    with False "1.prems" show ?thesis by auto
  qed
qed

text \<open>The free blocks that have room for a request.\<close>

definition fitting_free :: "placed set \<Rightarrow> nat \<Rightarrow> (nat \<times> nat) set" where
  "fitting_free B words = {(q, t). (q, t, False) \<in> B \<and> words \<le> words_of t}"

lemma class_bounds:
  assumes "0 < n" "n < 2 ^ 32"
  shows "2 ^ find_free_list_index n \<le> n" and "n < 2 ^ (find_free_list_index n + 1)"
proof -
  have "bitlen n \<noteq> 0" using assms(1) by (simp add: bitlen.simps)
  then show "2 ^ find_free_list_index n \<le> n" "n < 2 ^ (find_free_list_index n + 1)"
    using bitlen_range[of n] assms by (simp_all add: find_free_list_index_log)
qed

lemma class_mono:
  assumes "0 < n" "n < 2 ^ 32" "0 < k" "k < 2 ^ 32" "find_free_list_index n < find_free_list_index k"
  shows "n < k"
proof -
  have "n < 2 ^ (find_free_list_index n + 1)" by (rule class_bounds[OF assms(1,2)])
  also have "\<dots> \<le> 2 ^ find_free_list_index k" using assms(5) by (intro power_increasing) simp_all
  also have "\<dots> \<le> k" by (rule class_bounds[OF assms(3,4)])
  finally show ?thesis .
qed

lemma free_words:
  assumes "sane fl m B" "(q, t, False) \<in> B"
  shows "size_ok t" "0 < words_of t" "words_of t < 2 ^ 29" "GET_SIZE_sl m (q - 4) = words_of t"
proof -
  have b: "sblock m q t False" by (rule saneD(4)[OF assms])
  then show t: "size_ok t" by (simp add: sblock_def)
  show "GET_SIZE_sl m (q - 4) = words_of t" by (rule sblock_reads(1)[OF b])
  show "0 < words_of t" using spaced_free(3)[OF saneD(1)[OF assms(1)] assms(2)] t by (auto simp: words_of_def size_ok_def)
  show "words_of t < 2 ^ 29" using t by (auto elim: size_ok_words)
qed

lemma words_of_le: "size_ok t \<Longrightarrow> size_ok u \<Longrightarrow> words_of t \<le> words_of u \<longleftrightarrow> t \<le> u"
  by (erule size_ok_words, erule size_ok_words) simp

text \<open>One list for every class.\<close>

definition lists_at :: "nat \<Rightarrow> byte_mem \<Rightarrow> placed set \<Rightarrow> (nat \<Rightarrow> nat list) \<Rightarrow> bool" where
  "lists_at fl m B L \<longleftrightarrow>
     (\<forall>j\<le>MAX_POWER. class_list fl m j (L j) \<and> ordered m (L j) \<and> set (L j) = members B j)"

lemma lists_atI: "lists_ok fl m B \<Longrightarrow> \<exists>L. lists_at fl m B L"
  unfolding lists_ok_def lists_at_def by metis

lemma lists_atD:
  assumes "lists_at fl m B L" and "j \<le> MAX_POWER"
  shows "dseg m 0 (GET_FREE_LIST_PTR fl m j) (L j) 0" "ordered m (L j)" "set (L j) = members B j"
    and "GET_FREE_LIST_PTR fl m j = firstp (L j) 0" "GET_FREE_LIST_PTR fl m j = 0 \<longleftrightarrow> L j = []"
proof -
  show d: "dseg m 0 (GET_FREE_LIST_PTR fl m j) (L j) 0" and "ordered m (L j)" "set (L j) = members B j"
    using assms by (auto simp: lists_at_def class_list_def)
  show h: "GET_FREE_LIST_PTR fl m j = firstp (L j) 0" using dseg_first[OF d] .
  show "GET_FREE_LIST_PTR fl m j = 0 \<longleftrightarrow> L j = []"
  proof (cases "L j")
    case (Cons a as)
    then have "GET_FREE_LIST_PTR fl m j = a" "0 < a" using d by simp_all
    with Cons show ?thesis by simp
  qed (use h in simp)
qed

lemma listed_block:
  assumes "sane fl m B" "lists_at fl m B L" "j \<le> MAX_POWER" "x \<in> set (L j)"
  obtains q t where "x = q - 4" "(q, t, False) \<in> B" "class_of t = j" "GET_SIZE_sl m x = words_of t"
  using assms(4) lists_atD(3)[OF assms(2,3)] free_words(4)[OF assms(1)] by (auto elim!: members_cases)

lemma block_listed:
  assumes "sane fl m B" "lists_at fl m B L" "(q, t, False) \<in> B"
  shows "class_of t \<le> MAX_POWER" "q - 4 \<in> set (L (class_of t))"
  using lists_atD(3)[OF assms(2)] class_of_le[OF free_words(1)[OF assms(1,3)]] in_members[OF assms(3)] by auto

lemma class_of_mono:
  assumes "sane fl m B" "(q, t, False) \<in> B" "(r, u, False) \<in> B" "class_of t < class_of u"
  shows "t \<le> u"
proof -
  note ft = free_words[OF assms(1,2)] and fu = free_words[OF assms(1,3)]
  have "words_of t < words_of u"
    using assms(4) ft fu unfolding class_of_def by - (rule class_mono; simp)
  then show ?thesis using words_of_le[OF ft(1) fu(1)] by simp
qed

text \<open>
  A node that is smallest among those of its class is smallest among all free blocks that
  fit, when the classes below hold none of these.
\<close>

lemma smallest_fit:
  assumes ok: "sane fl m B" and L: "lists_at fl m B L" and j: "j \<le> MAX_POWER" and x: "x \<in> set (L j)" "words \<le> GET_SIZE_sl m x"
    and least: "\<forall>y\<in>set (L j). words \<le> GET_SIZE_sl m y \<longrightarrow> GET_SIZE_sl m x \<le> GET_SIZE_sl m y"
    and below: "\<forall>(r, u)\<in>fitting_free B words. j \<le> class_of u"
  shows "\<exists>q t. x = q - 4 \<and> (q, t) \<in> fitting_free B words \<and> (\<forall>(r, u)\<in>fitting_free B words. t \<le> u)"
proof -
  obtain q t where q: "x = q - 4" "(q, t, False) \<in> B" "class_of t = j" "GET_SIZE_sl m x = words_of t"
    using listed_block[OF ok L j x(1)] .
  have "t \<le> u" if f: "(r, u) \<in> fitting_free B words" for r u
  proof (cases "class_of u = j")
    case True
    have r: "(r, u, False) \<in> B" "words \<le> words_of u" using f by (auto simp: fitting_free_def)
    note fr = free_words[OF ok r(1)]
    have "r - 4 \<in> set (L j)" using block_listed(2)[OF ok L r(1)] True by simp
    moreover have "words \<le> GET_SIZE_sl m (r - 4)" using r(2) fr(4) by simp
    ultimately have "GET_SIZE_sl m x \<le> GET_SIZE_sl m (r - 4)" using least by blast
    then show ?thesis using q(4) fr(1,4) free_words(1)[OF ok q(2)] by (simp add: words_of_le)
  next
    case False
    then have "class_of t < class_of u" using below f q(3) by fastforce
    moreover have "(r, u, False) \<in> B" using f by (simp add: fitting_free_def)
    ultimately show ?thesis by (intro class_of_mono[OF ok q(2)])
  qed
  moreover have "(q, t) \<in> fitting_free B words" using q x(2) by (simp add: fitting_free_def)
  ultimately show ?thesis using q(1) by auto
qed

lemma class_of_fitting:
  assumes ok: "sane fl m B" and w: "0 < words" "words < 2 ^ 30" and f: "(r, u) \<in> fitting_free B words"
  shows "find_free_list_index words \<le> class_of u"
proof (rule ccontr)
  have r: "(r, u, False) \<in> B" "words \<le> words_of u" using f by (auto simp: fitting_free_def)
  assume "\<not> find_free_list_index words \<le> class_of u"
  then have "words_of u < words"
    using free_words[OF ok r(1)] w by - (rule class_mono; simp add: class_of_def)
  with r(2) show False by simp
qed

lemma find_free_block_best:
  assumes ok: "sane fl m B" and w: "0 < words" "words < 2 ^ 30"
  shows "(find_free_block fl words m = Some 0 \<and> fitting_free B words = {}) \<or>
    (\<exists>q t. find_free_block fl words m = Some (q - 4) \<and> (q, t) \<in> fitting_free B words \<and>
       (\<forall>(r, u)\<in>fitting_free B words. t \<le> u))"
proof -
  let ?i = "find_free_list_index words" and ?h = "GET_FREE_LIST_PTR fl m"
  obtain L where L: "lists_at fl m B L" using lists_atI[OF saneD(3)[OF ok]] by blast
  have i: "?i + 1 \<le> MAX_POWER" "?i \<le> MAX_POWER"
    using bitlen_le[OF w(2)] find_free_list_index_log[of words] w(2) by (simp_all add: MAX_POWER_def)
  note at = lists_atD[OF L i(2)]
  show ?thesis
  proof (cases "?h ?i \<noteq> 0 \<and> words \<le> GET_SIZE_sl m (?h ?i)")
    case True
    then obtain x where x: "x \<in> set (L ?i)" "scan_class m words (?h ?i) = Some x" "words \<le> GET_SIZE_sl m x"
        "\<forall>y\<in>set (L ?i). words \<le> GET_SIZE_sl m y \<longrightarrow> GET_SIZE_sl m x \<le> GET_SIZE_sl m y"
      using scan_class_list[OF at(1,2), of words] at(5) by auto
    have "find_free_block fl words m = Some x" using True x(2) by (simp add: find_free_block_def Let_def)
    then show ?thesis using smallest_fit[OF ok L i(2) x(1,3,4)] class_of_fitting[OF ok w] by auto
  next
    case False
    let ?j = "next_class fl m (?i + 1)"
    note N = next_class_spec[OF i(1), of fl m]
    then have j: "?j \<le> MAX_POWER" by blast
    have next_up: "?j \<le> class_of u" if f: "(r, u) \<in> fitting_free B words" for r u
    proof (rule ccontr)
      assume below: "\<not> ?j \<le> class_of u"
      have r: "(r, u, False) \<in> B" "words \<le> words_of u" using f by (auto simp: fitting_free_def)
      note c = block_listed[OF ok L r(1)]
      have ne: "?h (class_of u) \<noteq> 0" using lists_atD(5)[OF L c(1)] c(2) by auto
      have "class_of u = ?i"
      proof (rule ccontr)
        assume "class_of u \<noteq> ?i"
        then have "?i + 1 \<le> class_of u" using class_of_fitting[OF ok w f] by simp
        then show False using N below ne by simp
      qed
      moreover have "GET_SIZE_sl m (r - 4) \<le> GET_SIZE_sl m (?h (class_of u))"
        using ordered_first[OF lists_atD(2)[OF L c(1)] c(2)] lists_atD(4)[OF L c(1)] by simp
      ultimately show False using False ne r(2) free_words(4)[OF ok r(1)] by simp
    qed
    have find: "find_free_block fl words m = (if ?h ?j \<noteq> 0 then last_in_list m (?h ?j) else Some 0)"
      using False unfolding find_free_block_def Let_def by (simp only: if_False)
    show ?thesis
    proof (cases "?h ?j = 0")
      case True
      have "(r, u) \<notin> fitting_free B words" for r u
      proof
        assume f: "(r, u) \<in> fitting_free B words"
        then have "(r, u, False) \<in> B" by (simp add: fitting_free_def)
        note c = block_listed[OF ok L this]
        have "class_of u = ?j" using next_up[OF f] c(1) N True by simp
        then show False using c(2) True lists_atD(5)[OF L j] by simp
      qed
      then show ?thesis using find True by auto
    next
      case False
      then have ne: "L ?j \<noteq> []" using lists_atD(5)[OF L j] by simp
      let ?x = "last (L ?j)"
      obtain q t where q: "(q, t, False) \<in> B" "class_of t = ?j" "GET_SIZE_sl m ?x = words_of t"
        using listed_block[OF ok L j last_in_set[OF ne]] by metis
      have lt: "words < words_of t"
        using free_words[OF ok q(1)] w N q(2) by - (rule class_mono; simp add: class_of_def)
      have "\<exists>q t. ?x = q - 4 \<and> (q, t) \<in> fitting_free B words \<and> (\<forall>(r, u)\<in>fitting_free B words. t \<le> u)"
      proof (rule smallest_fit[OF ok L j last_in_set[OF ne]])
        show "\<forall>y\<in>set (L ?j). words \<le> GET_SIZE_sl m y \<longrightarrow> GET_SIZE_sl m ?x \<le> GET_SIZE_sl m y"
          using ordered_last[OF lists_atD(2)[OF L j]] by blast
      qed (use q(3) next_up lt in auto)
      moreover have "find_free_block fl words m = Some ?x"
        using find False last_in_list_last[OF lists_atD(1)[OF L j] ne] by simp
      ultimately show ?thesis by metis
    qed
  qed
qed

end
