(* ===== verification/SeglistCorrect.thy ===== *)
theory SeglistCorrect
  imports SeglistFree
begin

text \<open>
  Coalescing and splitting. A \<open>hole\<close> is a stretch of the heap that is in no free list and not
  allocated: the block an operation holds in its hands. \<open>coalesce\<close> grows the hole over its
  free neighbours, \<open>alloc_free_block\<close> turns it into an allocated block and a free rest.
\<close>

section \<open>Holes\<close>

definition hole :: "nat \<Rightarrow> placed set \<Rightarrow> nat \<Rightarrow> nat \<Rightarrow> bool" where
  "hole fl B p t \<longleftrightarrow> spaced fl B \<and> size_ok t \<and> 16 \<le> t \<and> fl + 208 \<le> p \<and> p + t \<le> 2 ^ 32 \<and> p + t \<le> fl + 2 ^ 31 \<and>
     (\<forall>r u c. (r, u, c) \<in> B \<longrightarrow> r + u \<le> p \<or> p + t \<le> r)"

lemma holeD:
  assumes "hole fl B p t"
  shows "spaced fl B" "size_ok t" "16 \<le> t" "fl + 208 \<le> p" "p + t \<le> 2 ^ 32" "p + t \<le> fl + 2 ^ 31" "4 \<le> p"
    and "(r, u, c) \<in> B \<Longrightarrow> r + u \<le> p \<or> p + t \<le> r"
  using assms unfolding hole_def by (blast, blast, blast, blast, blast, blast, linarith, blast)

lemma hole_new: "hole fl B p t \<Longrightarrow> (p, t, a) \<notin> B"
  using holeD(3)[of fl B p t] holeD(8)[of fl B p t p t a] by auto

lemma hole_spaced:
  assumes "hole fl B p t" shows "spaced fl (insert (p, t, a) B)"
proof -
  note H = holeD[OF assms]
  have "fitting fl (insert (p, t, a) B)"
    using H(1-6) unfolding spaced_def fitting_def by (metis (no_types, lifting) insert_iff prod.inject size_ok_def)
  moreover have "disjoint_blocks (insert (p, t, a) B)"
    using spaced_apart[OF H(1)] H(8) unfolding disjoint_blocks_def by (metis (no_types, lifting) insert_iff prod.inject)
  ultimately show ?thesis by (simp add: spaced_def)
qed

lemma hole_mono: "hole fl B p t \<Longrightarrow> C \<subseteq> B \<Longrightarrow> hole fl C p t"
  unfolding hole_def using spaced_mono by blast

definition takens :: "placed set \<Rightarrow> (nat \<times> nat) set" where
  "takens B = {(q, k). (q, k, True) \<in> B}"

lemma takens_Un [simp]: "takens (B \<union> C) = takens B \<union> takens C"
  by (auto simp: takens_def)

lemma takens_insert [simp]: "takens (insert (q, k, a) B) = (if a then insert (q, k) (takens B) else takens B)"
  by (auto simp: takens_def)

lemma takens_Diff_free [simp]: "takens (B - {(q, k, False)}) = takens B"
  by (auto simp: takens_def)

lemma takens_blocks_at: "takens (blocks_at p bs) = set (allocs p bs)"
  using allocs_blocks_at by (auto simp: takens_def)

lemma hole_sane:
  assumes "sane fl m B" "hole fl B p t" "agree_outside (p - 4) (p + t - 4) m m'"
  shows "sane fl m' B" and "same_payload m m' (takens B)"
proof -
  note H = holeD[OF assms(2)]
  have apart: "q + k - 4 \<le> p - 4 \<or> p + t - 4 \<le> q - 4" if "(q, k, a) \<in> B" for q k a
    using H(8)[OF that] by linarith
  show "sane fl m' B"
    by (rule sane_outside[OF assms(1,3)]) (use H(4) apart in auto)
  show "same_payload m m' (takens B)"
    unfolding same_payload_def
  proof (intro allI impI, elim conjE)
    fix q k i assume q: "(q, k) \<in> takens B" "i < k - 8"
    then have "(q, k, True) \<in> B" by (simp add: takens_def)
    then have "q + i < p - 4 \<or> p + t - 4 \<le> q + i" using H(8)[of q k True] q(2) by linarith
    then show "m' (q + i) = m (q + i)" using assms(3) unfolding agree_outside_def by blast
  qed
qed

lemma set_tags_agree: "4 \<le> p \<Longrightarrow> 8 \<le> t \<Longrightarrow> agree_outside (p - 4) (p + t - 4) m (set_tags p t a m)"
  unfolding agree_outside_def
  by (intro allI impI set_tags_outside) linarith+

lemma links_payload:
  assumes "links_only fl B m m'" "spaced fl B"
  shows "same_payload m m' (takens B)"
  unfolding same_payload_def
proof (intro allI impI, elim conjE)
  fix q k i assume q: "(q, k) \<in> takens B" "i < k - 8"
  then have qB: "(q, k, True) \<in> B" by (simp add: takens_def)
  show "m' (q + i) = m (q + i)"
  proof (rule links_onlyD[OF assms(1)])
    show "q + i < fl \<or> fl + 204 \<le> q + i" using spacedD(1)[OF assms(2) qB] by simp
    show "q + i < r \<or> r + 8 \<le> q + i" if r: "(r, u, False) \<in> B" for r u
      using spaced_apart[OF assms(2) qB r] spaced_free[OF assms(2) r] q(2) by auto
  qed
qed

text \<open>List operations do not touch a hole.\<close>

lemma hole_links:
  assumes "links_only fl B m m'" "hole fl B p t" "p - 4 \<le> a" "a < p + t - 4"
  shows "m' a = m a"
proof (rule links_onlyD[OF assms(1)])
  note H = holeD[OF assms(2)]
  show "a < fl \<or> fl + 204 \<le> a" using H(4) assms(3) by linarith
  show "a < r \<or> r + 8 \<le> a" if r: "(r, u, False) \<in> B" for r u
    using H(8)[OF r] spaced_free[OF H(1) r] assms(3,4) by linarith
qed

lemma hole_links_block:
  assumes "links_only fl B m m'" "hole fl B p t"
  shows "sblock m' p t a = sblock m p t a"
  by (rule links_only_sblock[OF assms(1) hole_spaced[OF assms(2)]])

section \<open>Growing a hole\<close>

lemma grow_right:
  assumes "hole fl B p t" "(p + t, k, False) \<in> B" "size_ok k"
  shows "hole fl (B - {(p + t, k, False)}) p (t + k)"
proof -
  note H = holeD[OF assms(1)] and s = spacedD[OF holeD(1)[OF assms(1)] assms(2)]
  have "size_ok (t + k)" using H(2,4) s(5) assms(3) unfolding size_ok_def by (intro conjI dvd_add; linarith)
  moreover have "r + u \<le> p \<or> p + (t + k) \<le> r" if r: "(r, u, c) \<in> B - {(p + t, k, False)}" for r u c
  proof -
    have "(r, u, c) \<in> B" "(r, u, c) \<noteq> (p + t, k, False)" using r by auto
    then have "r + u \<le> p + t \<or> p + t + k \<le> r" "r + u \<le> p \<or> p + t \<le> r" "8 \<le> u"
      using spaced_apart[OF H(1) _ assms(2)] H(8) spacedD(3)[OF H(1)] by blast+
    then show ?thesis by linarith
  qed
  moreover have "spaced fl (B - {(p + t, k, False)})" by (rule spaced_mono[OF H(1)]) auto
  ultimately show ?thesis using H(3,4) s(2,5) unfolding hole_def by (intro conjI; (blast | linarith))
qed

lemma grow_left:
  assumes "hole fl B p t" "(r, u, False) \<in> B" "size_ok u" "r + u = p"
  shows "hole fl (B - {(r, u, False)}) r (u + t)"
proof -
  note H = holeD[OF assms(1)] and s = spacedD[OF holeD(1)[OF assms(1)] assms(2)]
  have "size_ok (u + t)" using H(2,6) s(1) assms(3,4) unfolding size_ok_def by (intro conjI dvd_add; linarith)
  moreover have "q + k \<le> r \<or> r + (u + t) \<le> q" if q: "(q, k, c) \<in> B - {(r, u, False)}" for q k c
  proof -
    have "(q, k, c) \<in> B" "(q, k, c) \<noteq> (r, u, False)" using q by auto
    then have "q + k \<le> r \<or> r + u \<le> q" "q + k \<le> p \<or> p + t \<le> q" "8 \<le> k"
      using spaced_apart[OF H(1) _ assms(2)] H(8) spacedD(3)[OF H(1)] by blast+
    then show ?thesis using assms(4) by linarith
  qed
  moreover have "spaced fl (B - {(r, u, False)})" by (rule spaced_mono[OF H(1)]) auto
  ultimately show ?thesis using H(3,5,6) s(1) assms(4) unfolding hole_def by (intro conjI; (blast | linarith))
qed

text \<open>A free block taken out of a set of blocks leaves a hole.\<close>

lemma hole_of_free:
  assumes "spaced fl B" "(q, t, False) \<in> B" "size_ok t"
  shows "hole fl (B - {(q, t, False)}) q t"
proof -
  have "spaced fl (B - {(q, t, False)})" by (rule spaced_mono[OF assms(1)]) auto
  moreover have "r + u \<le> q \<or> q + t \<le> r" if "(r, u, c) \<in> B - {(q, t, False)}" for r u c
    using spaced_apart[OF assms(1) _ assms(2)] that by blast
  ultimately show ?thesis
    using spaced_free[OF assms(1,2)] spacedD(5)[OF assms(1,2)] assms(3) unfolding hole_def by blast
qed

text \<open>Removing a free block next to the hole from its list adds it to the hole.\<close>

lemma remove_beside_hole:
  assumes ok: "sane fl m B" and h: "hole fl B p t" and q: "(q, k, False) \<in> B"
  defines "m1 \<equiv> remove_block_from_free_list fl (q - 4) m" and "B1 \<equiv> B - {(q, k, False)}"
  shows "sane fl m1 B1" and "sblock m1 p t a = sblock m p t a" and "sblock m1 q k False"
    and "same_payload m m1 (insert (p, t) (takens B))" and "(r, u, c) \<in> B \<Longrightarrow> sblock m1 r u c"
proof -
  note R = remove_sane[OF ok q, folded m1_def B1_def] and S = saneD[OF ok]
  show "sane fl m1 B1" by (rule R(1))
  show "sblock m1 p t a = sblock m p t a" by (rule hole_links_block[OF R(2) h])
  show all: "sblock m1 r u c" if "(r, u, c) \<in> B" for r u c
    using tagged_links[OF S(2) R(2) S(1)] that by (simp add: tagged_def)
  show "sblock m1 q k False" by (rule all[OF q])
  have "m1 (p + i) = m (p + i)" if "i < t - 8" for i
    by (rule hole_links[OF R(2) h]) (use that in linarith)+
  then have "same_payload m m1 {(p, t)}" by (simp add: same_payload_def)
  moreover have "same_payload m m1 (takens B)" by (rule links_payload[OF R(2) S(1)])
  ultimately show "same_payload m m1 (insert (p, t) (takens B))" by (auto simp: same_payload_def)
qed

text \<open>Writing the tags of the grown hole.\<close>

lemma tag_hole:
  assumes "sane fl m B" "hole fl B q t'" and "q \<le> p" "p + t \<le> q + t'"
  shows "sane fl (set_tags q t' a m) B" "sblock (set_tags q t' a m) q t' a"
    and "same_payload m (set_tags q t' a m) (insert (p, t) (takens B))"
proof -
  note H = holeD[OF assms(2)]
  have t8: "8 \<le> t'" using H(3) by simp
  note A = hole_sane[OF assms(1,2) set_tags_agree[OF H(7) t8]]
  show "sane fl (set_tags q t' a m) B" by (rule A(1))
  show "sblock (set_tags q t' a m) q t' a" by (rule set_tags_block[OF H(7,2)])
  have "set_tags q t' a m (p + i) = m (p + i)" if "i < t - 8" for i
    by (rule set_tags_outside[OF H(7) t8]) (use that assms(3,4) in linarith)
  then show "same_payload m (set_tags q t' a m) (insert (p, t) (takens B))"
    using A(2) by (auto simp: same_payload_def)
qed

section \<open>Coalescing\<close>

text \<open>The code writes the header of the merged block, then finds the footer from the last part.\<close>

lemma merged_tags:
  assumes "sblock m x k a" "size_ok T" "4 \<le> q" "q + 4 \<le> x" "x + k = q + T" "n = words_of T"
  shows "PUT (FTRP_sl (PUT (q - 4) (PACK_sl n FREE) m) (x - 4)) (PACK_sl n FREE) (PUT (q - 4) (PACK_sl n FREE) m) =
    set_tags q T False m"
proof -
  have "GET_SIZE_sl (PUT (q - 4) (PACK_sl n FREE) m) (x - 4) = GET_SIZE_sl m (x - 4)"
    unfolding GET_SIZE_sl_def by (subst bytes.get_put_other) (use assms(3,4) in auto)
  then have "FTRP_sl (PUT (q - 4) (PACK_sl n FREE) m) (x - 4) = q + T - 8"
    using sblock_ends(1)[OF assms(1)] assms(4,5) by (simp add: FTRP_sl_def)
  then show ?thesis using assms(6) by (simp add: set_tags_def stag_def)
qed

lemma coalesce_sl_cases:
  assumes ok: "sane fl m B" and h: "hole fl B p t" and b: "sblock m p t False"
    and l: "(r, u, c) \<in> B" "r + u = p" and n: "(p + t, k, d) \<in> B"
  defines "q \<equiv> if c then p else r" and "t' \<equiv> (if c then 0 else u) + t + (if d then 0 else k)"
    and "B' \<equiv> B - (if c then {} else {(r, u, False)}) - (if d then {} else {(p + t, k, False)})"
  shows "\<exists>m'. coalesce_sl fl (p - 4) m = (m', q - 4) \<and> sane fl m' B' \<and> hole fl B' q t' \<and> sblock m' q t' False \<and>
    same_payload m m' (insert (p, t) (takens B))"
proof -
  note H = holeD[OF h] and S = saneD[OF ok]
  have L: "sblock m r u c" and N: "sblock m (p + t) k d" using S(4) l n by blast+
  have r4: "4 \<le> r" using spacedD(1)[OF S(1) l(1)] by linarith
  have pt4: "4 \<le> p + t" using H(7) by simp
  have sizes: "size_ok u" "size_ok k" using L N by (simp_all add: sblock_def)
  have prev: "PREV_BLOCK_IN_HEAP m (p - 4) = r - 4" using sblock_ends(3)[OF L r4] l(2) by simp
  have nxt: "NEXT_BLOCK_IN_HEAP m (p - 4) = p + t - 4" by (rule sblock_ends(2)[OF b H(7)])
  note reads = prev nxt sblock_reads(2)[OF L] sblock_reads(2)[OF N] sblock_reads(1)[OF b]
  have neq: "FREE \<noteq> TAKEN" by (simp add: FREE_def TAKEN_def)
  have finish: ?thesis if "coalesce_sl fl (p - 4) m = (set_tags q t' False m1, q - 4)" "sane fl m1 B'"
    "hole fl B' q t'" "same_payload m m1 (insert (p, t) (takens B))" for m1
  proof -
    have "q \<le> p" "p + t \<le> q + t'" using l(2) by (auto simp: q_def t'_def)
    note T = tag_hole[OF that(2,3) this, of False]
    have "takens B' = takens B" by (simp add: B'_def)
    then show ?thesis using that T(1,2) same_payload_trans[OF that(4)] T(3) by auto
  qed
  consider (none) c d | (right) c "\<not> d" | (left) "\<not> c" d | (both) "\<not> c" "\<not> d" by blast
  then show ?thesis
  proof cases
    case none
    then show ?thesis using ok h b neq reads by (simp add: coalesce_sl_def Let_def q_def t'_def B'_def)
  next
    case right
    then have nB: "(p + t, k, False) \<in> B" using n by simp
    let ?m1 = "remove_block_from_free_list fl (p + t - 4) m"
    note R = remove_beside_hole[OF ok h nB] and G = grow_right[OF h nB sizes(2)]
    have w: "words_of t + GET_TOTAL_SIZE ?m1 (p + t - 4) = words_of (t + k)"
      using sblock_ends(4)[OF R(3) pt4] words_of_add[OF H(2) sizes(2)] by simp
    have "coalesce_sl fl (p - 4) m = (set_tags p (t + k) False ?m1, p - 4)"
      using merged_tags[OF R(3) holeD(2)[OF G] H(7) _ _ w] H(3) right
      unfolding coalesce_sl_def Let_def reads by (simp add: neq add.assoc)
    then show ?thesis
      by (intro finish[of ?m1]) (use R(1,4) G right in \<open>simp_all add: q_def t'_def B'_def\<close>)
  next
    case left
    then have lB: "(r, u, False) \<in> B" using l by simp
    let ?m1 = "remove_block_from_free_list fl (r - 4) m"
    note R = remove_beside_hole[OF ok h lB] and G = grow_left[OF h lB sizes(1) l(2)]
    have w: "words_of t + GET_TOTAL_SIZE ?m1 (r - 4) = words_of (u + t)"
      using sblock_ends(4)[OF R(3) r4] words_of_add[OF sizes(1) H(2)] sizes(1) H(2)
      by (auto elim!: size_ok_words simp: words_of_def)
    have b1: "sblock ?m1 p t False" using R(2) b by blast
    have "coalesce_sl fl (p - 4) m = (set_tags r (u + t) False ?m1, r - 4)"
      using merged_tags[OF b1 holeD(2)[OF G] r4 _ _ w] sizes(1) l(2) left
      unfolding coalesce_sl_def Let_def reads by (simp add: neq size_ok_def add.assoc)
    then show ?thesis
      by (intro finish[of ?m1]) (use R(1,4) G left in \<open>simp_all add: q_def t'_def B'_def\<close>)
  next
    case both
    then have lB: "(r, u, False) \<in> B" and nB: "(p + t, k, False) \<in> B" using l n by simp_all
    let ?m1 = "remove_block_from_free_list fl (r - 4) m"
    let ?m2 = "remove_block_from_free_list fl (p + t - 4) ?m1" and ?B1 = "B - {(r, u, False)}"
    note R = remove_beside_hole[OF ok h lB] and G = grow_left[OF h lB sizes(1) l(2)]
    have nB1: "(p + t, k, False) \<in> ?B1" using nB l(2) H(3) spacedD(3)[OF S(1) lB] by auto
    have ru: "r + (u + t) = p + t" using l(2) by simp
    have h1: "hole fl ?B1 p t" by (rule hole_mono[OF h]) auto
    note R2 = remove_beside_hole[OF R(1) h1 nB1]
    have G2: "hole fl (?B1 - {(p + t, k, False)}) r (u + t + k)"
      using grow_right[OF G _ sizes(2)] nB1 ru by simp
    have b2: "sblock ?m2 r u False"
      using remove_beside_hole(2)[OF R(1) hole_of_free[OF S(1) lB sizes(1)] nB1] R(3) by blast
    have w: "words_of t + (GET_TOTAL_SIZE ?m2 (r - 4) + GET_TOTAL_SIZE ?m2 (p + t - 4)) = words_of (u + t + k)"
      using sblock_ends(4)[OF b2 r4] sblock_ends(4)[OF R2(3) pt4] words_of_add[OF holeD(2)[OF G] sizes(2)]
        words_of_add[OF sizes(1) H(2)] by simp
    have "coalesce_sl fl (p - 4) m = (set_tags r (u + t + k) False ?m2, r - 4)"
      using merged_tags[OF R2(3) holeD(2)[OF G2] r4 _ _ w] sizes(1) l(2) both
      unfolding coalesce_sl_def Let_def reads by (simp add: neq size_ok_def add.assoc)
    moreover have "same_payload m ?m2 (insert (p, t) (takens B))"
      using same_payload_trans[OF R(4)] R2(4) by simp
    ultimately show ?thesis
      by (intro finish[of ?m2]) (use R2(1) G2 both in \<open>simp_all add: q_def t'_def B'_def\<close>)
  qed
qed

section \<open>Splitting\<close>

lemma same_payload_shrink:
  assumes "same_payload m m' (insert (p, t) A)" "a \<le> t"
  shows "same_payload m m' (insert (p, a) A)"
proof -
  have "m' (p + i) = m (p + i)" if "i < a - 8" for i
    using assms same_payloadD[OF assms(1), of p t i] that by simp
  then show ?thesis using assms(1) by (auto simp: same_payload_def)
qed

lemma split_hole:
  assumes "hole fl B p t" "8 dvd a" "16 \<le> a" "16 \<le> t - a"
  shows "hole fl B p a" and "hole fl (insert (p, a, True) B) (p + a) (t - a)"
proof -
  note H = holeD[OF assms(1)]
  have "t < 2 ^ 31" using H(2) by (simp add: size_ok_def)
  then have a: "size_ok a" using assms(2-4) unfolding size_ok_def by (intro conjI; linarith)
  have r: "size_ok (t - a)" by (rule size_ok_diff[OF H(2) assms(2,4)])
  have le: "a \<le> t" using assms(4) by simp
  have out: "q + k \<le> p \<or> p + t \<le> q" if "(q, k, c) \<in> B" for q k c using H(8)[OF that] .
  show ha: "hole fl B p a"
    unfolding hole_def
  proof (intro conjI allI impI)
    show "q + k \<le> p \<or> p + a \<le> q" if "(q, k, c) \<in> B" for q k c using out[OF that] le by linarith
  qed (use H(1,4-6) a assms(3) le in auto)
  show "hole fl (insert (p, a, True) B) (p + a) (t - a)"
    unfolding hole_def
  proof (intro conjI allI impI)
    show "q + k \<le> p + a \<or> p + a + (t - a) \<le> q" if "(q, k, c) \<in> insert (p, a, True) B" for q k c
      using that out[of q k c] le by auto
    show "spaced fl (insert (p, a, True) B)" by (rule hole_spaced[OF ha])
  qed (use H(4-6) r assms(4) le in auto)
qed

lemma take_hole:
  assumes "sane fl m B" "hole fl B p t"
  shows "sane fl (set_tags p t True m) (insert (p, t, True) B)"
    and "same_payload m (set_tags p t True m) (insert (p, t) (takens B))"
proof -
  note T = tag_hole[OF assms order_refl order_refl, of True]
  show "sane fl (set_tags p t True m) (insert (p, t, True) B)"
    by (rule sane_add_taken[OF T(1,2) hole_spaced[OF assms(2)]])
  show "same_payload m (set_tags p t True m) (insert (p, t) (takens B))" by (rule T(3))
qed

lemma split_sizes:
  assumes "sblock m p t False" "a = 4 * (words + 2)" "a \<le> t" "8 dvd a" "16 \<le> a"
  shows "size32 (words + 2) = words + 2"
    and "int_of_size (GET_SIZE_sl m (p - 4) + 2) - int_of_size (size32 (words + 2)) - 2 = int ((t - a) div 4) - 2"
    and "words = words_of a" and "t - a = 0 \<or> t - a = 8 \<or> 16 \<le> t - a"
proof -
  have t: "size_ok t" using assms(1) by (simp add: sblock_def)
  obtain n where n: "t = 4 * (n + 2)" "words_of t = n" "n < 2 ^ 29" using t by (rule size_ok_words)
  have w: "words \<le> n" using assms(2,3) n(1) by simp
  show "size32 (words + 2) = words + 2" using w n(3) by (simp add: size32_def)
  then show "int_of_size (GET_SIZE_sl m (p - 4) + 2) - int_of_size (size32 (words + 2)) - 2 = int ((t - a) div 4) - 2"
    using sblock_reads(1)[OF assms(1)] n w assms(2) by (simp add: int_of_size_small)
  show "words = words_of a" using assms(2) by (simp add: words_of_def)
  have "8 dvd t - a" using assms(4) t by (intro dvd_diff_nat) (simp_all add: size_ok_def)
  then show "t - a = 0 \<or> t - a = 8 \<or> 16 \<le> t - a" by (auto elim!: dvdE)
qed

text \<open>The tags \<open>alloc_free_block\<close> writes when it splits, before it files the rest.\<close>

lemma split_tags:
  assumes ok: "sane fl m B" and h: "hole fl B p t" and a: "8 dvd a" "16 \<le> a" "16 \<le> t - a"
  defines "m4 \<equiv> set_tags p a True (set_tags (p + a) (t - a) False m)"
  shows "sane fl m4 (insert (p, a, True) B)" and "sblock m4 (p + a) (t - a) False"
    and "same_payload m m4 (insert (p, a) (takens B))"
proof -
  note H = holeD[OF h] and S = split_hole[OF h a]
  let ?m2 = "set_tags (p + a) (t - a) False m"
  have four: "4 \<le> p + a" using H(7) by simp
  have "agree_outside (p + a - 4) (p + a + (t - a) - 4) m ?m2" "agree_outside (p - 4) (p + a - 4) ?m2 m4"
    unfolding m4_def using H(7) a by (intro set_tags_agree; simp)+
  then have in_hole: "agree_outside (p - 4) (p + t - 4) m ?m2" "agree_outside (p - 4) (p + t - 4) ?m2 m4"
    using a(3) H(7) by (auto elim!: agree_outside_mono)
  note A = hole_sane[OF ok h agree_outside_trans[OF in_hole]]
  have "sblock ?m2 (p + a) (t - a) False" by (rule set_tags_block[OF four holeD(2)[OF S(2)]])
  moreover have "GET m4 q = GET ?m2 q" if "q = p + a - 4 \<or> q = p + a + (t - a) - 8" for q
    unfolding m4_def set_tags_def
    by (subst bytes.get_put_other, use that a H(7) in linarith, subst bytes.get_put_other, use that a H(7) in linarith) simp
  ultimately show "sblock m4 (p + a) (t - a) False" by (simp add: sblock_def)
  have "sblock m4 p a True" unfolding m4_def by (rule set_tags_block[OF H(7) holeD(2)[OF S(1)]])
  then show "sane fl m4 (insert (p, a, True) B)" by (rule sane_add_taken[OF A(1) _ hole_spaced[OF S(1)]])
  have "m4 (p + i) = m (p + i)" if "i < a - 8" for i
    unfolding m4_def using that a H(7)
    by (intro trans[OF set_tags_outside set_tags_outside]; linarith)
  then show "same_payload m m4 (insert (p, a) (takens B))" using A(2) by (auto simp: same_payload_def)
qed

lemma alloc_hole_split:
  assumes ok: "sane fl m B" and h: "hole fl B p t" and b: "sblock m p t False" and n: "(p + t, k, True) \<in> B"
    and a: "a = 4 * (words + 2)" "8 dvd a" "16 \<le> a" "16 \<le> t - a"
  shows "\<exists>m'. alloc_free_block fl (p - 4) words m = Some m' \<and>
    sane fl m' (insert (p + a, t - a, False) (insert (p, a, True) B)) \<and> same_payload m m' (insert (p, a) (takens B))"
proof -
  have le: "a \<le> t" using a(4) by simp
  note H = holeD[OF h] and Z = split_sizes[OF b a(1) le a(2,3)] and S = split_hole[OF h a(2-4)]
    and T = split_tags[OF ok h a(2-4)]
  let ?B1 = "insert (p, a, True) B" and ?m4 = "set_tags p a True (set_tags (p + a) (t - a) False m)"
  let ?B2 = "insert (p + a, t - a, False) (insert (p, a, True) B)"
  have nx: "(p + a + (t - a), k, True) \<in> ?B1" using n le by simp
  obtain m5 where C: "coalesce_sl fl (p + a - 4) ?m4 = (m5, p + a - 4)" "sane fl m5 ?B1"
      "sblock m5 (p + a) (t - a) False" "same_payload ?m4 m5 (insert (p + a, t - a) (takens ?B1))"
    using coalesce_sl_cases[OF T(1) S(2) T(2) insertI1 refl nx] by auto
  obtain m6 where P: "place_block_into_free_list fl (p + a - 4) m5 = Some m6" "sane fl m6 ?B2" "links_only fl ?B2 m5 m6"
    using place_sane[OF C(2,3) hole_spaced[OF S(2)] hole_new[OF S(2)]] by blast
  have four: "4 \<le> p + a" "p - 4 + 4 * (words + 2) = p + a - 4" using H(7) a(1) by simp_all
  have r: "nat (int ((t - a) div 4) - 2) = words_of (t - a)" "0 < int ((t - a) div 4) - 2"
    using a(4) by (simp_all add: words_of_def)
  note W = tags_written[OF holeD(2)[OF S(2)] four(1), of "words_of (t - a)" FREE False]
    tags_written[OF holeD(2)[OF S(1)] H(7), of words TAKEN True]
  have "alloc_free_block fl (p - 4) words m = Some m6"
    unfolding alloc_free_block_def Let_def Z(2) unfolding Z(1) four(2) r(1)
    using W Z(3) r(2) C(1) P(1) by simp
  moreover have "same_payload m m6 (insert (p, a) (takens B))"
  proof -
    have "same_payload m5 m6 (takens ?B2)" by (rule links_payload[OF P(3) hole_spaced[OF S(2)]])
    then have "same_payload m5 m6 (insert (p, a) (takens B))" by simp
    moreover have "same_payload ?m4 m5 (insert (p, a) (takens B))"
      by (rule same_payload_mono[OF C(4)]) auto
    ultimately show ?thesis using T(3) same_payload_trans by blast
  qed
  ultimately show ?thesis using P(2) by blast
qed

lemma alloc_hole:
  assumes ok: "sane fl m B" and h: "hole fl B p t" and b: "sblock m p t False" and n: "(p + t, k, True) \<in> B"
    and a: "a = 4 * (words + 2)" "8 dvd a" "16 \<le> a" "a \<le> t"
  shows "\<exists>m'. alloc_free_block fl (p - 4) words m = Some m' \<and> sane fl m' (B \<union> blocks_at p (place_blocks t a)) \<and>
    same_payload m m' (insert (p, a) (takens B))"
proof (cases "16 \<le> t - a")
  case True
  then show ?thesis
    using alloc_hole_split[OF ok h b n a(1-3)] by (simp add: place_blocks_def insert_commute)
next
  case False
  note H = holeD[OF h] and Z = split_sizes[OF b a(1,4,2,3)] and T = take_hole[OF ok h]
  have small: "t - a = 0 \<or> t - a = 8" using Z(4) False by simp
  have "alloc_free_block fl (p - 4) words m = Some (set_tags p t True m)"
    using small
  proof
    assume e: "t - a = 0"
    then have "words = words_of t" using Z(3) a(4) by simp
    then show ?thesis
      using tags_written[OF H(2,7), of words TAKEN True m] unfolding alloc_free_block_def Let_def Z(2) e by simp
  next
    assume e: "t - a = 8"
    then have "words + 2 = words_of t" using a(1) by (simp add: words_of_def)
    then show ?thesis
      using tags_written[OF H(2,7), of "words + 2" TAKEN True m] unfolding alloc_free_block_def Let_def Z(2) e by simp
  qed
  moreover have "same_payload m (set_tags p t True m) (insert (p, a) (takens B))"
    by (rule same_payload_shrink[OF T(2) a(4)])
  ultimately show ?thesis using T(1) False by (simp add: place_blocks_def)
qed

end
