(* ===== verification/SeglistContract.thy ===== *)
theory SeglistContract
  imports SeglistCorrect
begin

text \<open>
  The invariant \<open>sl_inv\<close> of the segregated-list allocator over the list of its blocks, and its
  operations on that list: freeing with coalescing, taking the best fit, extending the heap.
\<close>

section \<open>Holes in a list of blocks\<close>

text \<open>The blocks of \<open>xs @ (t, _) # ys\<close> but for the one in the middle.\<close>

definition rest :: "nat \<Rightarrow> block list \<Rightarrow> nat \<Rightarrow> block list \<Rightarrow> placed set" where
  "rest lo xs t ys = blocks_at lo xs \<union> blocks_at (lo + tot xs + t) ys"

lemma blocks_at_rest: "blocks_at lo (xs @ (t, a) # ys) = insert (lo + tot xs, t, a) (rest lo xs t ys)"
  by (simp add: rest_def)

lemma not_before: "q < p \<Longrightarrow> (q, t, a) \<notin> blocks_at p bs"
  using blocks_at_range by force

lemma not_after: "0 < t \<Longrightarrow> p + tot bs \<le> q \<Longrightarrow> (q, t, a) \<notin> blocks_at p bs"
  using blocks_at_range[of q t a p bs] by auto

lemma rest_notin: "0 < t \<Longrightarrow> (lo + tot xs, t, a) \<notin> rest lo xs t ys"
  by (simp add: rest_def not_before not_after)

lemma rest_Diff: "0 < t \<Longrightarrow> blocks_at lo (xs @ (t, a) # ys) - {(lo + tot xs, t, a)} = rest lo xs t ys"
  unfolding blocks_at_rest using rest_notin by simp

lemma takens_rest: "takens (rest lo xs t ys) = set (allocs lo (xs @ (t, False) # ys))"
  by (simp add: rest_def takens_blocks_at)

lemma hole_rest:
  assumes "sizes_ok (xs @ (t, False) # ys)" and "fl + 208 \<le> lo"
    and "lo + tot xs + t + tot ys \<le> 2 ^ 32" "lo + tot xs + t + tot ys \<le> fl + 2 ^ 31"
  shows "hole fl (rest lo xs t ys) (lo + tot xs) t"
proof -
  have t: "size_ok t" "16 \<le> t" using assms(1) by (auto simp: sizes_ok_def)
  have "spaced fl (blocks_at lo (xs @ (t, False) # ys))"
    by (rule spaced_blocks_at[OF assms(1,2)]) (use assms(3,4) in \<open>simp_all add: add.assoc\<close>)
  from hole_of_free[OF this _ t(1), of "lo + tot xs"] show ?thesis
    using t(2) rest_Diff[of t lo xs False ys] by (simp add: blocks_at_rest)
qed

text \<open>\<open>coalesce\<close> on the list: \<open>join_free\<close>.\<close>

lemma coalesce_sl_join:
  assumes ok: "sane fl m (rest lo xs t ys)" and h: "hole fl (rest lo xs t ys) (lo + tot xs) t"
    and b: "sblock m (lo + tot xs) t False" and ne: "xs \<noteq> []" "ys \<noteq> []" and j: "join_free xs t ys = (xs', t', ys')"
  shows "\<exists>m'. coalesce_sl fl (lo + tot xs - 4) m = (m', lo + tot xs' - 4) \<and> sane fl m' (rest lo xs' t' ys') \<and>
    hole fl (rest lo xs' t' ys') (lo + tot xs') t' \<and> sblock m' (lo + tot xs') t' False \<and>
    same_payload m m' (insert (lo + tot xs, t) (takens (rest lo xs t ys)))"
proof -
  obtain xs0 u c where xs: "xs = xs0 @ [(u, c)]" using ne(1) by (metis append_butlast_last_id surj_pair)
  obtain k d ys0 where ys: "ys = (k, d) # ys0" using ne(2) by (cases ys) auto
  let ?p = "lo + tot xs" and ?r = "lo + tot xs0"
  have l: "(?r, u, c) \<in> rest lo xs t ys" "?r + u = ?p" and n: "(?p + t, k, d) \<in> rest lo xs t ys"
    by (simp_all add: rest_def xs ys)
  have pos: "0 < u" "0 < k" "0 < t"
    using spacedD(3)[OF holeD(1)[OF h] l(1)] spacedD(3)[OF holeD(1)[OF h] n] holeD(3)[OF h] by simp_all
  let ?B = "rest lo xs t ys - (if c then {} else {(?r, u, False)}) - (if d then {} else {(?p + t, k, False)})"
  have "merge_right t ys = (if d then (t, ys) else (t + k, ys0))" by (cases d) (simp_all add: ys)
  then have q: "(if c then ?p else ?r) = lo + tot xs'" and t': "(if c then 0 else u) + t + (if d then 0 else k) = t'"
    and xs': "xs' = (if c then xs else xs0)" and ys': "ys' = (if d then ys else ys0)"
    using j by (auto simp: join_free_def xs split: if_splits)
  have B: "?B = rest lo xs' t' ys'"
    using pos unfolding xs' ys' t'[symmetric]
    by (auto simp: rest_def xs ys not_before not_after add.assoc)
  show ?thesis using coalesce_sl_cases[OF ok h b l n] unfolding q t' B by simp
qed

section \<open>The invariant\<close>

text \<open>The blocks between the prologue and the epilogue are \<open>bs\<close>.\<close>

definition fenced :: "block list \<Rightarrow> block list" where
  "fenced bs = (8, True) # bs @ [(8, True)]"

definition sl_inv :: "seglist \<Rightarrow> block list \<Rightarrow> bool" where
  "sl_inv s bs \<longleftrightarrow> mem_ok (sys s) \<and> mem_max_addr (sys s) + 4 \<le> 2 ^ 32 \<and> mem_heap (sys s) \<le> free_lists s \<and>
     free_lists s + 212 \<le> heap_ptr s \<and> 8 dvd heap_ptr s + 4 \<and> mem_brk (sys s) = heap_ptr s + 8 + tot bs \<and>
     sane (free_lists s) (smem s) (blocks_at (heap_ptr s - 4) (fenced bs)) \<and>
     list_all (\<lambda>b. 16 \<le> fst b) bs \<and> coalesced bs"

text \<open>The blocks handed out to the client, with their sizes in bytes, tags included.\<close>

definition sl_live :: "seglist \<Rightarrow> block list \<Rightarrow> (nat \<times> nat) set" where
  "sl_live s bs = set (allocs (heap_ptr s + 4) bs)"

lemma sl_invD:
  assumes "sl_inv s bs"
  shows "mem_ok (sys s)" "mem_max_addr (sys s) + 4 \<le> 2 ^ 32" "free_lists s + 208 \<le> heap_ptr s - 4" "8 dvd heap_ptr s + 4"
    and "mem_brk (sys s) = heap_ptr s + 8 + tot bs" "sane (free_lists s) (smem s) (blocks_at (heap_ptr s - 4) (fenced bs))"
    and "list_all (\<lambda>b. 16 \<le> fst b) bs" "coalesced bs" "heap_ptr s - 4 + 8 = heap_ptr s + 4"
    and "heap_ptr s - 4 + tot (fenced bs) = mem_brk (sys s) + 4"
    and "mem_brk (sys s) + 4 \<le> 2 ^ 32" "mem_brk (sys s) + 4 \<le> free_lists s + 2 ^ 31"
  using assms by (auto simp: sl_inv_def mem_ok_def MAX_HEAP_def fenced_def)

lemma size_ok_8: "size_ok 8" by (simp add: size_ok_def)

lemma blocks_at_I: "(t, a) \<in> set bs \<Longrightarrow> \<exists>q. (q, t, a) \<in> blocks_at p bs"
  by (induction p bs rule: blocks_at.induct) auto

lemma sizes_fenced:
  assumes "tagged m (blocks_at p (fenced bs))" "list_all (\<lambda>b. 16 \<le> fst b) bs"
  shows "sizes_ok (fenced bs)"
  unfolding sizes_ok_def list_all_iff
proof
  fix b assume b: "b \<in> set (fenced bs)"
  obtain t a where ta: "b = (t, a)" by (cases b)
  obtain q where "(q, t, a) \<in> blocks_at p (fenced bs)" using blocks_at_I b ta by blast
  then have "size_ok t" using assms(1) unfolding tagged_def sblock_def by blast
  moreover have "a \<or> 16 \<le> t" using b ta assms(2) by (auto simp: fenced_def list_all_iff)
  ultimately show "case b of (t, a) \<Rightarrow> size_ok t \<and> (a \<or> 16 \<le> t)" using ta by simp
qed

lemma sizes_ok_middle:
  assumes "sizes_ok (xs @ (t, a) # ys)" "16 \<le> t"
  shows "sizes_ok (xs @ (t, b) # ys)"
  using assms by (simp add: sizes_ok_def)

lemma fenced_middle: "fenced (xs @ b # ys) = ((8, True) # xs) @ b # (ys @ [(8, True)])"
  by (simp add: fenced_def)

lemma allocs_fenced: "set (allocs p (fenced bs)) = {(p, 8), (p + 8 + tot bs, 8)} \<union> set (allocs (p + 8) bs)"
  by (auto simp: fenced_def)

lemma sl_inv_sizes: "sl_inv s bs \<Longrightarrow> sizes_ok (fenced bs)"
  using sl_invD(6,7) saneD(2) sizes_fenced by blast

text \<open>A block in the middle seen as a hole.\<close>

lemma sl_inv_hole:
  assumes inv: "sl_inv s (xs @ (t, a) # ys)"
  shows "hole (free_lists s) (rest (heap_ptr s - 4) ((8, True) # xs) t (ys @ [(8, True)])) (heap_ptr s + 4 + tot xs) t"
    and "sblock (smem s) (heap_ptr s + 4 + tot xs) t a" and "16 \<le> t" and "size_ok t"
    and "(heap_ptr s + 4 + tot xs, t, a) \<in> blocks_at (heap_ptr s - 4) (fenced (xs @ (t, a) # ys))"
proof -
  note I = sl_invD[OF inv]
  have eq: "heap_ptr s - 4 + tot ((8, True) # xs) = heap_ptr s + 4 + tot xs" using I(9) by simp
  show t: "16 \<le> t" using I(7) by simp
  have sz: "sizes_ok (((8, True) # xs) @ (t, False) # (ys @ [(8, True)]))"
    using sizes_ok_middle[OF sl_inv_sizes[OF inv, unfolded fenced_middle] t] .
  then show "size_ok t" by (simp add: sizes_ok_def)
  show "hole (free_lists s) (rest (heap_ptr s - 4) ((8, True) # xs) t (ys @ [(8, True)])) (heap_ptr s + 4 + tot xs) t"
    unfolding eq[symmetric] by (rule hole_rest[OF sz I(3)]) (use I(9-12) in \<open>simp_all add: fenced_def\<close>)
  show mem: "(heap_ptr s + 4 + tot xs, t, a) \<in> blocks_at (heap_ptr s - 4) (fenced (xs @ (t, a) # ys))"
    unfolding fenced_middle blocks_at_rest eq by simp
  show "sblock (smem s) (heap_ptr s + 4 + tot xs) t a" by (rule saneD(4)[OF I(6) mem])
qed

lemma with_mem_simps [simp]:
  "smem (with_mem m s) = m" "free_lists (with_mem m s) = free_lists s" "heap_ptr (with_mem m s) = heap_ptr s"
  "mem_brk (sys (with_mem m s)) = mem_brk (sys s)" "mem_max_addr (sys (with_mem m s)) = mem_max_addr (sys s)"
  "mem_heap (sys (with_mem m s)) = mem_heap (sys s)" "sl_live (with_mem m s) bs = sl_live s bs"
  by (simp_all add: with_mem_def sl_live_def)

lemma sl_inv_mem:
  assumes "sl_inv s bs" "tot bs' = tot bs" "sane (free_lists s) m' (blocks_at (heap_ptr s - 4) (fenced bs'))"
    and "list_all (\<lambda>b. 16 \<le> fst b) bs'" "coalesced bs'"
  shows "sl_inv (with_mem m' s) bs'"
  using assms by (simp add: sl_inv_def mem_ok_def)

text \<open>Nothing outside the hole is allocated but the fence and the client's blocks.\<close>

lemma takens_hole:
  assumes "sl_inv s (xs @ (t, a) # ys)"
  shows "takens (rest (heap_ptr s - 4) ((8, True) # xs) t (ys @ [(8, True)])) \<supseteq> sl_live s (xs @ (t, False) # ys)"
    and "a \<Longrightarrow> sl_live s (xs @ (t, a) # ys) = insert (heap_ptr s + 4 + tot xs, t) (sl_live s (xs @ (t, False) # ys))"
    and "(heap_ptr s + 4 + tot xs, k) \<notin> sl_live s (xs @ (t, False) # ys)"
proof -
  have eq: "heap_ptr s - 4 + 8 = heap_ptr s + 4" by (rule sl_invD(9)[OF assms])
  show "takens (rest (heap_ptr s - 4) ((8, True) # xs) t (ys @ [(8, True)])) \<supseteq> sl_live s (xs @ (t, False) # ys)"
    unfolding takens_rest sl_live_def by (auto simp: eq)
  show "a \<Longrightarrow> sl_live s (xs @ (t, a) # ys) = insert (heap_ptr s + 4 + tot xs, t) (sl_live s (xs @ (t, False) # ys))"
    by (auto simp: sl_live_def)
  show "(heap_ptr s + 4 + tot xs, k) \<notin> sl_live s (xs @ (t, False) # ys)"
    using free_not_live[of xs t a ys "heap_ptr s + 4" k] sl_invD(7)[OF assms] by (simp add: sl_live_def)
qed

section \<open>Freeing\<close>

lemma join_free_fenced:
  assumes "join_free xs n ys = (xs', n', ys')"
  shows "join_free ((8, True) # xs) n (ys @ [(8, True)]) = ((8, True) # xs', n', ys' @ [(8, True)])"
proof -
  obtain k zs where m: "merge_right n ys = (k, zs)" by (cases "merge_right n ys")
  then have "merge_right n (ys @ [(8, True)]) = (k, zs @ [(8, True)])"
    by (cases rule: merge_right_cases[of ys n]) auto
  with m assms show ?thesis by (auto simp: join_free_def split: if_splits)
qed

text \<open>Turning a block of the list into a free one: tags, coalescing, filing.\<close>

lemma free_hole:
  assumes inv: "sl_inv s (xs @ (n, True) # ys)" and p: "p = heap_ptr s + 4 + tot xs" and j: "join_free xs n ys = (xs', n', ys')"
  shows "\<exists>m'. coalesce_sl (free_lists s) (p - 4) (set_tags p n False (smem s)) = (m', heap_ptr s + 4 + tot xs' - 4) \<and>
    sane (free_lists s) m' (rest (heap_ptr s - 4) ((8, True) # xs') n' (ys' @ [(8, True)])) \<and>
    hole (free_lists s) (rest (heap_ptr s - 4) ((8, True) # xs') n' (ys' @ [(8, True)])) (heap_ptr s + 4 + tot xs') n' \<and>
    sblock m' (heap_ptr s + 4 + tot xs') n' False \<and> same_payload (smem s) m' (sl_live s (xs @ (n, True) # ys))"
proof -
  let ?X = "(8, True) # xs" and ?Y = "ys @ [(8, True)]" and ?lo = "heap_ptr s - 4" and ?fl = "free_lists s"
  let ?m2 = "set_tags p n False (smem s)"
  note I = sl_invD[OF inv] and H = sl_inv_hole[OF inv, folded p]
  have at: "?lo + tot ?X = p" "?lo + tot ((8, True) # xs') = heap_ptr s + 4 + tot xs'" using I(9) p by simp_all
  have "sane ?fl (smem s) (rest ?lo ?X n ?Y)"
  proof (rule sane_drop_taken[OF I(6)])
    show "rest ?lo ?X n ?Y \<subseteq> blocks_at ?lo (fenced (xs @ (n, True) # ys))"
      unfolding fenced_middle blocks_at_rest by blast
    show "(q, t, False) \<in> rest ?lo ?X n ?Y" if "(q, t, False) \<in> blocks_at ?lo (fenced (xs @ (n, True) # ys))" for q t
      using that unfolding fenced_middle blocks_at_rest by simp
  qed
  note T = tag_hole[OF this H(1) order_refl order_refl, of False]
  obtain m' where C: "coalesce_sl ?fl (p - 4) ?m2 = (m', heap_ptr s + 4 + tot xs' - 4)"
      "sane ?fl m' (rest ?lo ((8, True) # xs') n' (ys' @ [(8, True)]))"
      "hole ?fl (rest ?lo ((8, True) # xs') n' (ys' @ [(8, True)])) (heap_ptr s + 4 + tot xs') n'"
      "sblock m' (heap_ptr s + 4 + tot xs') n' False"
      "same_payload ?m2 m' (insert (p, n) (takens (rest ?lo ?X n ?Y)))"
    using coalesce_sl_join[of ?fl ?m2 ?lo ?X n ?Y, unfolded at, OF T(1) H(1) T(2) _ _ join_free_fenced[OF j]]
    unfolding at by auto
  have "sl_live s (xs @ (n, True) # ys) \<subseteq> insert (p, n) (takens (rest ?lo ?X n ?Y))"
    using takens_hole(1)[OF inv] takens_hole(2)[OF inv TrueI] p by auto
  then have "same_payload (smem s) m' (sl_live s (xs @ (n, True) # ys))"
    using same_payload_trans[OF T(3) C(5)] same_payload_mono by blast
  with C show ?thesis by blast
qed

lemma mm_free_sl_blocks:
  assumes inv: "sl_inv s (xs @ (n, True) # ys)" and p: "p = heap_ptr s + 4 + tot xs" and j: "join_free xs n ys = (xs', n', ys')"
  shows "\<exists>m'. mm_free_sl p s = Some (with_mem m' s) \<and> sl_inv (with_mem m' s) (xs' @ (n', False) # ys') \<and>
    same_payload (smem s) m' (sl_live s (xs @ (n, False) # ys))"
proof -
  let ?lo = "heap_ptr s - 4" and ?fl = "free_lists s" and ?q = "heap_ptr s + 4 + tot xs'"
  let ?B = "rest ?lo ((8, True) # xs') n' (ys' @ [(8, True)])"
  note I = sl_invD[OF inv] and H = sl_inv_hole[OF inv, folded p]
  have p4: "4 \<le> p" by (rule holeD(7)[OF H(1)])
  have at: "?lo + tot ((8, True) # xs') = ?q" using I(9) by simp
  obtain m3 where C: "coalesce_sl ?fl (p - 4) (set_tags p n False (smem s)) = (m3, ?q - 4)" "sane ?fl m3 ?B" "hole ?fl ?B ?q n'"
      "sblock m3 ?q n' False" "same_payload (smem s) m3 (sl_live s (xs @ (n, True) # ys))"
    using free_hole[OF inv p j] by blast
  obtain m4 where P: "place_block_into_free_list ?fl (?q - 4) m3 = Some m4" "sane ?fl m4 (insert (?q, n', False) ?B)"
      "links_only ?fl (insert (?q, n', False) ?B) m3 m4"
    using place_sane[OF C(2,4) hole_spaced[OF C(3)] hole_new[OF C(3)]] by blast
  have "mm_free_sl p s = Some (with_mem m4 s)"
    using tags_written[OF H(4) p4, of "words_of n" FREE False "smem s"] sblock_reads(1)[OF H(2)] C(1) P(1)
    by (simp add: mm_free_sl_def WORD_SIZE_def Let_def)
  moreover have "insert (?q, n', False) ?B = blocks_at ?lo (fenced (xs' @ (n', False) # ys'))"
    unfolding fenced_middle blocks_at_rest at ..
  then have inv': "sl_inv (with_mem m4 s) (xs' @ (n', False) # ys')"
    using sl_inv_mem[OF inv] P(2) join_free_facts(1)[OF j] join_free_facts(4)[OF j] I(7)
      join_free_coalesced[OF j coalesced_parts[OF I(8)]] by simp
  moreover have "same_payload (smem s) m4 (sl_live s (xs @ (n, False) # ys))"
  proof -
    have "same_payload m3 m4 (takens ?B)" using links_payload[OF P(3) hole_spaced[OF C(3)]] by simp
    moreover have "sl_live s (xs @ (n, False) # ys) \<subseteq> takens ?B"
      using takens_hole(1)[OF inv'] join_free_facts(3)[OF j, of "heap_ptr s + 4"]
      by (simp add: sl_live_def del: allocs_append)
    moreover have "sl_live s (xs @ (n, False) # ys) \<subseteq> sl_live s (xs @ (n, True) # ys)"
      using takens_hole(2)[OF inv TrueI] by auto
    ultimately show ?thesis using same_payload_trans[OF same_payload_mono[OF C(5)] same_payload_mono] by blast
  qed
  ultimately show ?thesis using inv' by blast
qed

end
