(* ===== verification/SeglistMalloc.thy ===== *)
theory SeglistMalloc
  imports SeglistContract
begin

text \<open>
  \<open>mm_malloc\<close> and \<open>mm_init\<close> of the segregated-list allocator on the list of blocks: the size
  of the block a request gets, the best fit taken from the lists, the extension of the heap
  when nothing fits, and the heap \<open>mm_init\<close> builds.
\<close>

section \<open>Request sizes\<close>

definition rounded :: "nat \<Rightarrow> nat" where
  "rounded sz = (if sz \<le> 2 ^ 12 then unat (round_up_power_2 (word_of_nat sz)) else sz)"

text \<open>The bytes of the block for a request, tags included.\<close>

definition block_bytes :: "nat \<Rightarrow> nat" where
  "block_bytes sz = ALIGN (rounded sz) + 8"

lemma clear_low_bits:
  fixes N k :: nat
  assumes "N < 2 ^ 32"
  shows "unat (word_of_nat N AND NOT (mask k) :: uint32) = 2 ^ k * (N div 2 ^ k)"
proof -
  have "2 ^ k * (N div 2 ^ k) = push_bit k (drop_bit k N)" by (simp add: push_bit_eq_mult drop_bit_eq_div)
  moreover have "word_of_nat N AND NOT (mask k) = (word_of_nat (push_bit k (drop_bit k N)) :: uint32)"
    by (rule bit_word_eqI) (auto simp: bit_simps)
  moreover have "2 ^ k * (N div 2 ^ k) \<le> N" by simp
  ultimately show ?thesis using assms by (simp add: unat_of_nat)
qed

lemma ALIGN_div:
  assumes "n + 7 < 2 ^ 32" shows "ALIGN n = 8 * ((n + 7) div 8)"
  using clear_low_bits[OF assms, of 3] by (simp add: ALIGN_def mask_eq_exp_minus_1 ac_simps)

lemma EVENIZE_even:
  assumes "even n" "n + 1 < 2 ^ 32" shows "EVENIZE n = n"
proof -
  have "2 ^ 1 * ((n + 1) div 2 ^ 1) = n" using assms(1) by simp
  moreover have "EVENIZE n = unat (word_of_nat (n + 1) AND NOT (mask 1) :: uint32)"
    by (simp add: EVENIZE_def mask_eq_exp_minus_1 add.commute)
  ultimately show ?thesis unfolding clear_low_bits[OF assms(2)] by simp
qed

lemma rounded_bounds:
  assumes "0 < sz" shows "sz \<le> rounded sz" "rounded sz \<le> max 4096 sz"
proof -
  have "sz \<le> rounded sz \<and> rounded sz \<le> 4096" if small: "sz \<le> 2 ^ 12"
  proof -
    have "sint (word_of_nat sz :: int32) = int sz" by (rule sint_small) (use small in simp)
    then have "round_up_power_2 (word_of_nat sz) = 2 ^ bitlen (sz - 1)"
      using round_up_power_2_bitlen[of "word_of_nat sz"] assms small by simp
    moreover have len: "bitlen (sz - 1) \<le> 12" by (rule bitlen_le) (use small assms in simp)
    then have "(2::nat) ^ bitlen (sz - 1) \<le> 2 ^ 12" by (intro power_increasing) simp_all
    moreover from this have "unat (2 ^ bitlen (sz - 1) :: int32) = 2 ^ bitlen (sz - 1)"
      using unat_below[of "2 ^ bitlen (sz - 1)"] by simp
    moreover have "sz - 1 < 2 ^ bitlen (sz - 1)" by (rule bitlen_range(1))
    ultimately show ?thesis using small by (simp add: rounded_def)
  qed
  then show "sz \<le> rounded sz" "rounded sz \<le> max 4096 sz" by (cases "sz \<le> 2 ^ 12"; simp add: rounded_def)+
qed

lemma block_bytes_facts:
  assumes "0 < sz" "sz \<le> 2 ^ 32 - 16"
  shows "8 dvd block_bytes sz" "16 \<le> block_bytes sz" "sz + 8 \<le> block_bytes sz" "block_bytes sz \<le> 2 ^ 32 - 8"
    and "even (ALIGN (rounded sz) div WORD_SIZE)" "block_bytes sz = 4 * (ALIGN (rounded sz) div WORD_SIZE + 2)"
proof -
  note R = rounded_bounds[OF assms(1)]
  have A: "ALIGN (rounded sz) = 8 * ((rounded sz + 7) div 8)" by (rule ALIGN_div) (use R(2) assms(2) in simp)
  show "8 dvd block_bytes sz" "16 \<le> block_bytes sz" "sz + 8 \<le> block_bytes sz" "block_bytes sz \<le> 2 ^ 32 - 8"
    using R assms by (auto simp: block_bytes_def A)
  show "even (ALIGN (rounded sz) div WORD_SIZE)" "block_bytes sz = 4 * (ALIGN (rounded sz) div WORD_SIZE + 2)"
    by (simp_all add: block_bytes_def A WORD_SIZE_def)
qed

section \<open>Allocating a block of the list\<close>

lemma tot_place_blocks [simp]: "a \<le> t \<Longrightarrow> tot (place_blocks t a) = t"
  by (simp add: place_blocks_def)

lemma alloc_rest:
  assumes ok: "sane fl m (rest lo xs t ((k, True) # ys))" and h: "hole fl (rest lo xs t ((k, True) # ys)) (lo + tot xs) t"
    and b: "sblock m (lo + tot xs) t False" and a: "a = 4 * (words + 2)" "8 dvd a" "16 \<le> a" "a \<le> t"
  shows "\<exists>m'. alloc_free_block fl (lo + tot xs - 4) words m = Some m' \<and>
    sane fl m' (blocks_at lo (xs @ place_blocks t a @ (k, True) # ys)) \<and>
    same_payload m m' (insert (lo + tot xs, a) (takens (rest lo xs t ((k, True) # ys))))"
proof -
  have n: "(lo + tot xs + t, k, True) \<in> rest lo xs t ((k, True) # ys)" by (simp add: rest_def)
  obtain m' where m': "alloc_free_block fl (lo + tot xs - 4) words m = Some m'"
      "sane fl m' (rest lo xs t ((k, True) # ys) \<union> blocks_at (lo + tot xs) (place_blocks t a))"
      "same_payload m m' (insert (lo + tot xs, a) (takens (rest lo xs t ((k, True) # ys))))"
    using alloc_hole[OF ok h b n a] by blast
  have "rest lo xs t ((k, True) # ys) \<union> blocks_at (lo + tot xs) (place_blocks t a) =
      blocks_at lo (xs @ place_blocks t a @ (k, True) # ys)"
    using a(4) by (auto simp: rest_def add.assoc)
  with m' show ?thesis by simp
qed

definition handed_out_sl :: "seglist \<Rightarrow> block list \<Rightarrow> nat \<Rightarrow> seglist \<Rightarrow> nat \<Rightarrow> bool" where
  "handed_out_sl s bs sz s' p \<longleftrightarrow>
     (\<exists>bs' n. sl_inv s' bs' \<and> p \<noteq> 0 \<and> 8 dvd p \<and> sz + 8 \<le> n \<and> (\<forall>k. (p, k) \<notin> sl_live s bs) \<and>
        sl_live s' bs' = insert (p, n) (sl_live s bs) \<and> same_payload (smem s) (smem s') (sl_live s bs))"

lemma sizes_dvd: "sizes_ok bs \<Longrightarrow> 8 dvd tot bs"
  by (induction bs) (auto simp: sizes_ok_def size_ok_def)

lemma place_blocks_shape:
  "coalesced (place_blocks t a)" "place_blocks t a \<noteq> []" "snd (hd (place_blocks t a))"
  "16 \<le> a \<Longrightarrow> a \<le> t \<Longrightarrow> list_all (\<lambda>b. 16 \<le> fst b) (place_blocks t a)"
  by (auto simp: place_blocks_def coalesced_def)

text \<open>Common to the two ways of getting a block: from a hole of the list to the new heap.\<close>

lemma handed_outI:
  assumes m': "sane (free_lists s') m' (blocks_at (heap_ptr s' - 4) (fenced (xs @ place_blocks t a @ ys)))"
    and inv: "sl_inv s bs" and s': "free_lists s' = free_lists s" "heap_ptr s' = heap_ptr s" "mem_ok (sys s')"
      "mem_max_addr (sys s') = mem_max_addr (sys s)" "mem_heap (sys s') = mem_heap (sys s)"
      "mem_brk (sys s') = heap_ptr s + 8 + tot xs + t + tot ys"
    and c: "coalesced (xs @ place_blocks t a @ ys)" "list_all (\<lambda>b. 16 \<le> fst b) (xs @ ys)"
    and a: "16 \<le> a" "a \<le> t" "sz + 8 \<le> a" and p: "p = heap_ptr s + 4 + tot xs"
    and live: "sl_live s bs = sl_live s (xs @ (t, False) # ys)" "\<forall>k. (p, k) \<notin> sl_live s bs"
    and keep: "same_payload (smem s) m' (sl_live s bs)"
  shows "handed_out_sl s bs sz (with_mem m' s') p"
proof -
  let ?bs' = "xs @ place_blocks t a @ ys"
  note I = sl_invD[OF inv]
  have "list_all (\<lambda>b. 16 \<le> fst b) ?bs'" using c(2) place_blocks_shape(4)[OF a(1,2)] by simp
  then have inv': "sl_inv (with_mem m' s') ?bs'"
    using inv m' s' c(1) a(2) unfolding sl_inv_def by (simp add: add.assoc mem_ok_def)
  have n: "sl_live (with_mem m' s') ?bs' = insert (p, if 16 \<le> t - a then a else t) (sl_live s bs)"
    using p live(1) s'(2) a(2) by (auto simp: sl_live_def place_blocks_def)
  have "8 dvd tot (fenced ?bs')" by (rule sizes_dvd[OF sl_inv_sizes[OF inv']])
  have "8 dvd tot xs"
    using sizes_dvd[of xs] sl_inv_sizes[OF inv'] by (simp add: fenced_def sizes_ok_def)
  then have "8 dvd p" "p \<noteq> 0" using I(3,4) p by (auto intro: dvd_add)
  then show ?thesis
    using inv' n live(2) keep a unfolding handed_out_sl_def
    by (intro exI[of _ ?bs'] exI[of _ "if 16 \<le> t - a then a else t"]) simp
qed

section \<open>The best fit\<close>

lemma fitting_words:
  assumes "a = 4 * (words + 2)" "size_ok t" shows "words \<le> words_of t \<longleftrightarrow> a \<le> t"
  using assms by (auto elim!: size_ok_words)

lemma sl_fits:
  assumes inv: "sl_inv s bs" and a: "a = 4 * (words + 2)"
  shows "(q, t) \<in> fitting_free (blocks_at (heap_ptr s - 4) (fenced bs)) words \<longleftrightarrow>
    (q, t, False) \<in> blocks_at (heap_ptr s + 4) bs \<and> a \<le> t"
proof -
  have "(q, t, False) \<in> blocks_at (heap_ptr s - 4) (fenced bs) \<longleftrightarrow> (q, t, False) \<in> blocks_at (heap_ptr s + 4) bs"
    by (simp add: fenced_def sl_invD(9)[OF inv])
  moreover have "size_ok t" if "(q, t, False) \<in> blocks_at (heap_ptr s - 4) (fenced bs)"
    using saneD(4)[OF sl_invD(6)[OF inv] that] by (simp add: sblock_def)
  ultimately show ?thesis using fitting_words[OF a, of t] by (auto simp: fitting_free_def)
qed

lemma find_free_block_blocks:
  assumes inv: "sl_inv s bs" and a: "a = 4 * (words + 2)" "0 < words" "words < 2 ^ 30"
  shows "(find_free_block (free_lists s) words (smem s) = Some 0 \<and> (\<forall>(t, c)\<in>set bs. c \<or> t < a)) \<or>
    (\<exists>xs t ys. bs = xs @ (t, False) # ys \<and> a \<le> t \<and>
       find_free_block (free_lists s) words (smem s) = Some (heap_ptr s + 4 + tot xs - 4))"
proof -
  let ?F = "fitting_free (blocks_at (heap_ptr s - 4) (fenced bs)) words"
  note best = find_free_block_best[OF sl_invD(6)[OF inv] a(2,3)]
  show ?thesis
  proof (cases "?F = {}")
    case True
    then have none: "find_free_block (free_lists s) words (smem s) = Some 0" using best by auto
    have "c \<or> t < a" if "(t, c) \<in> set bs" for t c
    proof (rule ccontr)
      assume no: "\<not> (c \<or> t < a)"
      from blocks_at_I[OF that] obtain q where "(q, t, c) \<in> blocks_at (heap_ptr s + 4) bs" by blast
      then have "(q, t) \<in> ?F" unfolding sl_fits[OF inv a(1)] using no by simp
      with True show False by simp
    qed
    with none show ?thesis by blast
  next
    case False
    then obtain q t where q: "find_free_block (free_lists s) words (smem s) = Some (q - 4)" "(q, t) \<in> ?F"
      using best by blast
    then have "(q, t, False) \<in> blocks_at (heap_ptr s + 4) bs" "a \<le> t" unfolding sl_fits[OF inv a(1)] by blast+
    with q(1) blocks_at_split[OF this(1)] show ?thesis by blast
  qed
qed

lemma take_best:
  assumes inv: "sl_inv s (xs @ (t, False) # ys)" and p: "p = heap_ptr s + 4 + tot xs"
    and a: "a = 4 * (words + 2)" "8 dvd a" "16 \<le> a" "a \<le> t" "sz + 8 \<le> a"
  shows "\<exists>m'. alloc_free_block (free_lists s) (p - 4) words (remove_block_from_free_list (free_lists s) (p - 4) (smem s)) = Some m' \<and>
    handed_out_sl s (xs @ (t, False) # ys) sz (with_mem m' s) p"
proof -
  let ?X = "(8, True) # xs" and ?Y = "ys @ [(8, True)]" and ?lo = "heap_ptr s - 4" and ?fl = "free_lists s"
  let ?m1 = "remove_block_from_free_list ?fl (p - 4) (smem s)"
  note I = sl_invD[OF inv] and H = sl_inv_hole[OF inv, folded p]
  have at: "?lo + tot ?X = p" using I(9) p by simp
  note R = remove_beside_hole[OF I(6) _ H(5)] remove_sane[OF I(6) H(5)]
  have mem1: "sane ?fl ?m1 (rest ?lo ?X t ?Y)"
    using R(6) rest_Diff[of t ?lo ?X False ?Y] H(3) unfolding fenced_middle at by simp
  have B: "sblock ?m1 p t False"
    using tagged_links[OF saneD(2)[OF I(6)] R(7) saneD(1)[OF I(6)]] H(5) by (simp add: tagged_def)
  obtain k Y where Y: "?Y = (k, True) # Y"
    using I(8) by (cases ys) (auto simp: coalesced_def successively_append_iff)
  obtain m' where m': "alloc_free_block ?fl (p - 4) words ?m1 = Some m'"
      "sane ?fl m' (blocks_at ?lo (?X @ place_blocks t a @ ?Y))" "same_payload ?m1 m' (insert (p, a) (takens (rest ?lo ?X t ?Y)))"
    using alloc_rest[of ?fl ?m1 ?lo ?X t k Y a words, folded Y, unfolded at, OF mem1 H(1) B a(1-4)] by blast
  have "same_payload (smem s) ?m1 (takens (blocks_at ?lo (fenced (xs @ (t, False) # ys))))"
    by (rule links_payload[OF R(7) saneD(1)[OF I(6)]])
  then have keep: "same_payload (smem s) m' (sl_live s (xs @ (t, False) # ys))"
    using takens_hole(1)[OF inv] same_payload_trans[OF same_payload_mono same_payload_mono[OF m'(3)]]
    by (metis (no_types, lifting) fenced_middle blocks_at_rest takens_insert subset_insertI2)
  have "handed_out_sl s (xs @ (t, False) # ys) sz (with_mem m' s) p"
  proof (rule handed_outI[OF _ inv refl refl])
    show "sane ?fl m' (blocks_at ?lo (fenced (xs @ place_blocks t a @ ys)))"
      using m'(2) by (simp add: fenced_def)
    show "coalesced (xs @ place_blocks t a @ ys)"
      by (rule coalesced_middle[OF I(8) place_blocks_shape(1-3)])
    show "\<forall>k. (p, k) \<notin> sl_live s (xs @ (t, False) # ys)" using takens_hole(3)[OF inv] p by blast
  qed (use I p a keep in simp_all)
  with m'(1) show ?thesis by blast
qed

section \<open>Extending the heap\<close>

lemma extend_heap_sl_full:
  assumes "mem_max_addr h < mem_brk h + e" and e: "e = 4 * (words + 2)" "e \<le> 2 ^ 32 - 8" and "even words"
  shows "extend_heap_sl words h = (h, 0)"
proof -
  have w: "EVENIZE words = words" by (rule EVENIZE_even[OF assms(4)]) (use e in simp)
  have s: "size32 (words + 2) = words + 2" "size32 ((words + 2) * WORD_SIZE) = e"
    using e by (simp_all add: size32_def WORD_SIZE_def)
  have "mem_sbrk (int_of_size e) h = (h, PTR_ERR)"
  proof (cases "e < 2 ^ 31")
    case True
    then show ?thesis using mem_sbrk_fails[OF assms(1)] by (simp add: int_of_size_small)
  next
    case False
    have "(word_of_nat e :: int32) <s 0" unfolding sless_0_unat using False e(2) by (simp add: unat_of_nat)
    then have "int_of_size e < 0" by (simp add: int_of_size_def word_sless_alt)
    then show ?thesis by (simp add: mem_sbrk_def)
  qed
  then show ?thesis unfolding extend_heap_sl_def Let_def w s(1) s(2) by simp
qed

text \<open>The memory after an extension at payload address \<open>p\<close>.\<close>

definition extended :: "nat \<Rightarrow> nat \<Rightarrow> byte_mem \<Rightarrow> byte_mem" where
  "extended p e m = set_tags (p + e) 8 True (set_tags p e False m)"

lemma extend_heap_sl_fits:
  assumes inv: "sl_inv s bs" and e: "e = 4 * (words + 2)" "even words" "16 \<le> e" and fits: "mem_brk (sys s) + e \<le> mem_max_addr (sys s)"
    and p: "p = heap_ptr s + 4 + tot bs"
  shows "extend_heap_sl words (sys s) = ((sys s)\<lparr>mem_brk := mem_brk (sys s) + e, mem := extended p e (smem s)\<rparr>, p - 4)"
proof -
  note I = sl_invD[OF inv]
  have e31: "e < 2 ^ 31" using fits I(1,5) by (simp add: mem_ok_def MAX_HEAP_def)
  have w: "EVENIZE words = words" by (rule EVENIZE_even[OF e(2)]) (use e31 e(1) in simp)
  have s: "size32 (words + 2) = words + 2" "size32 ((words + 2) * WORD_SIZE) = e"
    using e e31 by (simp_all add: size32_def WORD_SIZE_def)
  have ok: "size_ok e" using size_ok_of_words[OF e(2)] e31 e(1) by simp
  have brk: "mem_sbrk (int_of_size e) (sys s) = ((sys s)\<lparr>mem_brk := mem_brk (sys s) + e\<rparr>, p + 4)"
    using mem_sbrk_fits[OF fits] I(5) p e31 by (simp add: int_of_size_small)
  have p4: "4 \<le> p" "4 \<le> p + e" "p + 4 - 8 = p - 4" "p - 4 + 4 * (words + 2) = p + e - 4" using p e(1) by simp_all
  have we: "words = words_of e" "0 = words_of 8" using e(1) by (simp_all add: words_of_def)
  note W = tags_written[OF ok p4(1) we(1), of FREE False "smem s"]
    tags_written[OF size_ok_8 p4(2) we(2), of TAKEN True "set_tags p e False (smem s)"]
  have "mem_brk (sys s) \<noteq> PTR_ERR" by (rule mem_sbrk_not_err[OF I(1)])
  then have "p + 4 \<noteq> PTR_ERR" using I(5) p by simp
  then show ?thesis
    unfolding extend_heap_sl_def Let_def w s(1) s(2) brk prod.case
    using W p4 by (simp add: extended_def)
qed

lemma extended_blocks:
  assumes inv: "sl_inv s bs" and e: "size_ok e" "16 \<le> e" and fits: "mem_brk (sys s) + e \<le> mem_max_addr (sys s)"
    and p: "p = heap_ptr s + 4 + tot bs"
  defines "B \<equiv> rest (heap_ptr s - 4) ((8, True) # bs) e [(8, True)]"
  shows "hole (free_lists s) B p e" and "sane (free_lists s) (extended p e (smem s)) B"
    and "sblock (extended p e (smem s)) p e False" and "same_payload (smem s) (extended p e (smem s)) (sl_live s bs)"
proof -
  let ?lo = "heap_ptr s - 4" and ?fl = "free_lists s" and ?B0 = "blocks_at (heap_ptr s - 4) ((8, True) # bs)"
  let ?m4 = "extended p e (smem s)"
  note I = sl_invD[OF inv]
  have at: "?lo + tot ((8, True) # bs) = p" using I(9) p by simp
  have p4: "4 \<le> p" "4 \<le> p + e" using p by simp_all
  have bounds: "p + e + 8 \<le> 2 ^ 32" "p + e + 8 \<le> ?fl + 2 ^ 31"
    using I(1,2,3,5) fits p inv by (simp_all add: sl_inv_def mem_ok_def MAX_HEAP_def)
  have sz: "sizes_ok (((8, True) # bs) @ (e, False) # [(8, True)])"
    using sl_inv_sizes[OF inv] e by (simp add: sizes_ok_def fenced_def)
  show h: "hole ?fl B p e"
    using hole_rest[OF sz I(3)] bounds at unfolding B_def by simp
  have B: "B = insert (p + e, 8, True) ?B0" using at by (simp add: B_def rest_def)
  have sub: "?B0 \<subseteq> blocks_at ?lo (fenced bs)" by (auto simp: fenced_def)
  have ok0: "sane ?fl (smem s) ?B0"
    by (rule sane_drop_taken[OF I(6) sub]) (simp add: fenced_def)
  have "hole ?fl ?B0 p (e + 8)"
    unfolding hole_def
  proof (intro conjI allI impI)
    show "spaced ?fl ?B0" by (rule spaced_mono[OF saneD(1)[OF I(6)] sub])
    show "size_ok (e + 8)" using e(1) bounds(2) I(3) p unfolding size_ok_def by (intro conjI dvd_add; linarith?) simp_all
    show "r + u \<le> p \<or> p + (e + 8) \<le> r" if "(r, u, c) \<in> ?B0" for r u c
      using blocks_at_range[OF that] at by simp
  qed (use bounds I(3) p e in \<open>simp_all\<close>)
  moreover have "agree_outside (p - 4) (p + e - 4) (smem s) (set_tags p e False (smem s))"
    "agree_outside (p + e - 4) (p + e + 8 - 4) (set_tags p e False (smem s)) ?m4"
    unfolding extended_def by (rule set_tags_agree; use p4 e in simp)+
  then have "agree_outside (p - 4) (p + (e + 8) - 4) (smem s) (set_tags p e False (smem s))"
    "agree_outside (p - 4) (p + (e + 8) - 4) (set_tags p e False (smem s)) ?m4"
    by (auto elim!: agree_outside_mono)
  ultimately have A: "sane ?fl ?m4 ?B0" "same_payload (smem s) ?m4 (takens ?B0)"
    using hole_sane[OF ok0] agree_outside_trans by blast+
  have epi: "sblock ?m4 (p + e) 8 True" unfolding extended_def by (rule set_tags_block[OF p4(2) size_ok_8])
  show "sane ?fl ?m4 B"
    using sane_add_taken[OF A(1) epi] holeD(1)[OF h] B by simp
  have "GET ?m4 q = GET (set_tags p e False (smem s)) q" if "q + 4 \<le> p + e - 4" for q
  proof -
    have "q + 4 \<le> p + e - 4 \<or> p + e - 4 + 4 \<le> q" "q + 4 \<le> p + e + 8 - 8 \<or> p + e + 8 - 8 + 4 \<le> q" using that by linarith+
    then show ?thesis unfolding extended_def set_tags_def[of "p + e"] by (metis bytes.get_put_other)
  qed
  then show "sblock ?m4 p e False"
    using set_tags_block[OF p4(1) e(1), of False "smem s"] e(2) p4 by (simp add: sblock_def)
  show "same_payload (smem s) ?m4 (sl_live s bs)"
    by (rule same_payload_mono[OF A(2)]) (simp add: takens_blocks_at sl_live_def I(9) subset_insertI)
qed

section \<open>\<open>mm_malloc\<close>\<close>

lemma take_extended:
  assumes inv: "sl_inv s bs" and e: "e = 4 * (ext + 2)" "even ext" "16 \<le> e" and fits: "mem_brk (sys s) + e \<le> mem_max_addr (sys s)"
    and p: "p = heap_ptr s + 4 + tot bs" and a: "a = 4 * (words + 2)" "8 dvd a" "16 \<le> a" "a \<le> e" "sz + 8 \<le> a"
  shows "\<exists>m'. alloc_free_block (free_lists s) (p - 4) words (extended p e (smem s)) = Some m' \<and>
    handed_out_sl s bs sz (with_mem m' (s\<lparr>sys := (sys s)\<lparr>mem_brk := mem_brk (sys s) + e, mem := extended p e (smem s)\<rparr>\<rparr>)) p"
proof -
  let ?m1 = "extended p e (smem s)" and ?X = "(8, True) # bs" and ?lo = "heap_ptr s - 4"
  let ?s1 = "s\<lparr>sys := (sys s)\<lparr>mem_brk := mem_brk (sys s) + e, mem := ?m1\<rparr>\<rparr>"
  note I = sl_invD[OF inv]
  have at: "?lo + tot ?X = p" using I(9) p by simp
  have ok: "size_ok e" using size_ok_of_words[OF e(2)] fits I(1,5) e(1) by (simp add: mem_ok_def MAX_HEAP_def)
  note X = extended_blocks[OF inv ok e(3) fits p]
  obtain m' where m': "alloc_free_block (free_lists s) (p - 4) words ?m1 = Some m'"
      "sane (free_lists s) m' (blocks_at ?lo (?X @ place_blocks e a @ [(8, True)]))"
      "same_payload ?m1 m' (insert (p, a) (takens (rest ?lo ?X e [(8, True)])))"
    using alloc_rest[of "free_lists s" ?m1 ?lo ?X e 8 "[]" a words, unfolded at, OF X(2,1,3) a(1-4)] by blast
  have "sl_live s bs \<subseteq> takens (rest ?lo ?X e [(8, True)])"
    unfolding takens_rest sl_live_def by (auto simp: I(9))
  then have keep: "same_payload (smem s) m' (sl_live s bs)"
    using same_payload_trans[OF X(4) same_payload_mono[OF m'(3)]] by blast
  have "handed_out_sl s bs sz (with_mem m' ?s1) p"
  proof (rule handed_outI[where xs = bs and ys = "[]", OF _ inv])
    show "coalesced (bs @ place_blocks e a @ [])"
      using I(8) place_blocks_shape(1,3)[of e a] by (simp add: coalesced_def successively_append_iff)
    show "sane (free_lists ?s1) m' (blocks_at (heap_ptr ?s1 - 4) (fenced (bs @ place_blocks e a @ [])))"
      using m'(2) by (simp add: fenced_def)
    have "(p, k) \<notin> sl_live s bs" for k
      using allocs_range[of p k "heap_ptr s + 4" bs] allocs_min[OF I(7), of p k "heap_ptr s + 4"] p by (auto simp: sl_live_def)
    then show "\<forall>k. (p, k) \<notin> sl_live s bs" by blast
    show "sl_live s bs = sl_live s (bs @ (e, False) # [])" by (simp add: sl_live_def)
  qed (use I p a keep fits in \<open>simp_all add: mem_ok_def\<close>)
  with m'(1) show ?thesis by blast
qed

text \<open>Neither the lists nor the memory system can supply the block.\<close>

definition no_room_sl :: "seglist \<Rightarrow> block list \<Rightarrow> nat \<Rightarrow> bool" where
  "no_room_sl s bs sz \<longleftrightarrow> (\<forall>(t, a)\<in>set bs. a \<or> t < block_bytes sz) \<and>
     mem_max_addr (sys s) < mem_brk (sys s) + max (block_bytes sz) (4 * (CHUNK + 2))"

lemma mm_malloc_sl_steps:
  assumes "rounded sz \<noteq> 0" and "w = ALIGN (rounded sz) div WORD_SIZE"
  shows "find_free_block (free_lists s) w (smem s) = Some bp \<Longrightarrow> bp \<noteq> 0 \<Longrightarrow>
      alloc_free_block (free_lists s) bp w (remove_block_from_free_list (free_lists s) bp (smem s)) = Some m \<Longrightarrow>
      mm_malloc_sl sz s = Some (with_mem m s, bp + 4)"
    and "find_free_block (free_lists s) w (smem s) = Some 0 \<Longrightarrow> extend_heap_sl (max w CHUNK) (sys s) = (sys s, 0) \<Longrightarrow>
      mm_malloc_sl sz s = Some (s, 0)"
    and "find_free_block (free_lists s) w (smem s) = Some 0 \<Longrightarrow> extend_heap_sl (max w CHUNK) (sys s) = (h1, bp) \<Longrightarrow> bp \<noteq> 0 \<Longrightarrow>
      alloc_free_block (free_lists s) bp w (mem h1) = Some m \<Longrightarrow>
      mm_malloc_sl sz s = Some (with_mem m (s\<lparr>sys := h1\<rparr>), bp + 4)"
proof -
  have mx: "(if w > CHUNK then w else CHUNK) = max w CHUNK" by (simp add: max_def)
  note unfold = mm_malloc_sl_def rounded_def[symmetric] Let_def assms(2)[symmetric] mx
  show "find_free_block (free_lists s) w (smem s) = Some bp \<Longrightarrow> bp \<noteq> 0 \<Longrightarrow>
      alloc_free_block (free_lists s) bp w (remove_block_from_free_list (free_lists s) bp (smem s)) = Some m \<Longrightarrow>
      mm_malloc_sl sz s = Some (with_mem m s, bp + 4)"
    unfolding unfold using assms(1) by simp
  show "find_free_block (free_lists s) w (smem s) = Some 0 \<Longrightarrow> extend_heap_sl (max w CHUNK) (sys s) = (sys s, 0) \<Longrightarrow>
      mm_malloc_sl sz s = Some (s, 0)"
    unfolding unfold using assms(1) by simp
  show "find_free_block (free_lists s) w (smem s) = Some 0 \<Longrightarrow> extend_heap_sl (max w CHUNK) (sys s) = (h1, bp) \<Longrightarrow> bp \<noteq> 0 \<Longrightarrow>
      alloc_free_block (free_lists s) bp w (mem h1) = Some m \<Longrightarrow>
      mm_malloc_sl sz s = Some (with_mem m (s\<lparr>sys := h1\<rparr>), bp + 4)"
    unfolding unfold using assms(1) by simp
qed

lemma mm_malloc_sl_blocks:
  assumes inv: "sl_inv s bs" and sz: "0 < sz" "sz \<le> 2 ^ 32 - 16"
  shows "\<exists>s' p. mm_malloc_sl sz s = Some (s', p) \<and>
     (if no_room_sl s bs sz then p = 0 \<and> s' = s else handed_out_sl s bs sz s' p)"
proof -
  let ?w = "ALIGN (rounded sz) div WORD_SIZE" and ?a = "block_bytes sz" and ?fl = "free_lists s"
  note A = block_bytes_facts[OF sz] and I = sl_invD[OF inv]
  have w: "0 < ?w" using A(2) unfolding A(6) by simp
  have w30: "?w < 2 ^ 30" using A(4) unfolding A(6) by simp
  have nz: "rounded sz \<noteq> 0" using rounded_bounds(1)[OF sz(1)] sz(1) by simp
  note step = mm_malloc_sl_steps[OF nz refl, of s]
  show ?thesis
    using find_free_block_blocks[OF inv A(6) w w30]
  proof (elim disjE exE conjE)
    fix xs t ys assume f: "bs = xs @ (t, False) # ys" "?a \<le> t" "find_free_block ?fl ?w (smem s) = Some (heap_ptr s + 4 + tot xs - 4)"
    let ?p = "heap_ptr s + 4 + tot xs"
    obtain m' where m': "alloc_free_block ?fl (?p - 4) ?w (remove_block_from_free_list ?fl (?p - 4) (smem s)) = Some m'"
        "handed_out_sl s bs sz (with_mem m' s) ?p"
      using take_best[OF inv[unfolded f(1)] refl A(6,1,2) f(2) A(3)] f(1) by blast
    have "\<not> no_room_sl s bs sz" using f(1,2) by (auto simp: no_room_sl_def)
    moreover have nz: "?p - 4 \<noteq> 0" and pp: "?p - 4 + 4 = ?p" using I(3) by arith+
    have "mm_malloc_sl sz s = Some (with_mem m' s, ?p)" using step(1)[OF f(3) nz m'(1)] unfolding pp .
    ultimately show ?thesis using m'(2) by simp
  next
    assume f: "find_free_block ?fl ?w (smem s) = Some 0" "\<forall>(t, c)\<in>set bs. c \<or> t < ?a"
    let ?ext = "max ?w CHUNK" and ?e = "max ?a (4 * (CHUNK + 2))" and ?p = "heap_ptr s + 4 + tot bs"
    have e: "?e = 4 * (?ext + 2)" "even ?ext" "16 \<le> ?e" "?e \<le> 2 ^ 32 - 8" "?a \<le> ?e"
      using A(2,4,5,6) by (auto simp: max_def CHUNK_def WORD_SIZE_def)
    show ?thesis
    proof (cases "mem_max_addr (sys s) < mem_brk (sys s) + ?e")
      case True
      then have "no_room_sl s bs sz" using f(2) by (simp add: no_room_sl_def)
      then show ?thesis using step(2)[OF f(1) extend_heap_sl_full[OF True e(1,4,2)]] by simp
    next
      case False
      then have fits: "mem_brk (sys s) + ?e \<le> mem_max_addr (sys s)" by simp
      let ?h1 = "(sys s)\<lparr>mem_brk := mem_brk (sys s) + ?e, mem := extended ?p ?e (smem s)\<rparr>"
      obtain m' where m': "alloc_free_block ?fl (?p - 4) ?w (extended ?p ?e (smem s)) = Some m'"
          "handed_out_sl s bs sz (with_mem m' (s\<lparr>sys := ?h1\<rparr>)) ?p"
        using take_extended[OF inv e(1,2,3) fits refl A(6,1,2) e(5) A(3)] by blast
      have nz: "?p - 4 \<noteq> 0" and pp: "?p - 4 + 4 = ?p" using I(3) by arith+
      have "mm_malloc_sl sz s = Some (with_mem m' (s\<lparr>sys := ?h1\<rparr>), ?p)"
        using step(3)[OF f(1) extend_heap_sl_fits[OF inv e(1,2,3) fits refl] nz] m'(1) unfolding pp by simp
      moreover have "\<not> no_room_sl s bs sz" using False by (simp add: no_room_sl_def)
      ultimately show ?thesis using m'(2) by simp
    qed
  qed
qed

section \<open>\<open>mm_init\<close>\<close>

lemma cleared_heads:
  "\<forall>i\<le>MAX_POWER. GET_FREE_LIST_PTR fl (for_loop 0 (MAX_POWER + 1) (\<lambda>i. SET_FREE_LIST_PTR fl i 0) m) i = 0"
proof -
  let ?I = "\<lambda>n m. \<forall>i<n. GET_FREE_LIST_PTR fl m i = 0"
  have "?I (MAX_POWER + 1) (for_loop 0 (MAX_POWER + 1) (\<lambda>i. SET_FREE_LIST_PTR fl i 0) m)"
  proof (rule for_loop_invariant[where I = ?I])
    fix n :: nat and m :: byte_mem assume I: "?I n m"
    show "?I (Suc n) (SET_FREE_LIST_PTR fl n 0 m)"
    proof (intro allI impI)
      fix i assume "i < Suc n"
      then show "GET_FREE_LIST_PTR fl (SET_FREE_LIST_PTR fl n 0 m) i = 0"
        using I by (cases "i = n") (simp_all add: GET_FREE_LIST_PTR_def SET_FREE_LIST_PTR_def bytes.get_put_same bytes.get_put_other)
    qed
  qed simp_all
  then show ?thesis by (simp add: less_Suc_eq_le)
qed

text \<open>The empty heap: prologue and epilogue above cleared list heads.\<close>

definition fences :: "nat \<Rightarrow> byte_mem \<Rightarrow> byte_mem" where
  "fences lo m = set_tags (lo + 8) 8 True (set_tags lo 8 True m)"

lemma sane_fences:
  assumes "\<forall>i\<le>MAX_POWER. GET_FREE_LIST_PTR fl m i = 0" and "fl + 208 \<le> lo" "lo + 16 \<le> 2 ^ 32" "lo + 16 \<le> fl + 2 ^ 31"
  shows "sane fl (fences lo m) (blocks_at lo (fenced []))"
proof -
  have four: "4 \<le> lo" "4 \<le> lo + 8" using assms(2) by simp_all
  have B: "blocks_at lo (fenced []) = {(lo, 8, True), (lo + 8, 8, True)}" by (auto simp: fenced_def)
  have "GET_FREE_LIST_PTR fl (fences lo m) i = 0" if "i \<le> MAX_POWER" for i
  proof -
    have "fl + 4 * i + 4 \<le> lo - 4" using that assms(2) unfolding MAX_POWER_def by linarith
    moreover have "agree_outside (lo - 4) (lo + 8 - 4) m (set_tags lo 8 True m)"
      "agree_outside (lo + 8 - 4) (lo + 8 + 8 - 4) (set_tags lo 8 True m) (fences lo m)"
      unfolding fences_def by (rule set_tags_agree; use four in simp)+
    ultimately have "GET (fences lo m) (fl + 4 * i) = GET m (fl + 4 * i)"
      using agree_outside_GET[of "lo - 4" "lo + 8 - 4"] agree_outside_GET[of "lo + 8 - 4" "lo + 8 + 8 - 4"] by force
    then show ?thesis using assms(1) that by (simp add: GET_FREE_LIST_PTR_def)
  qed
  then have "lists_ok fl (fences lo m) {(lo, 8, True), (lo + 8, 8, True)}"
    unfolding lists_ok_def by (auto intro!: exI[of _ "[]"] simp: class_list_def ordered_def members_def)
  moreover have "sblock (fences lo m) (lo + 8) 8 True" unfolding fences_def by (rule set_tags_block[OF four(2) size_ok_8])
  moreover have "sblock (fences lo m) lo 8 True"
    using set_tags_block[OF four(1) size_ok_8, of True m] four(1)
    by (simp add: fences_def sblock_def set_tags_def[of "lo + 8"] bytes.get_put_other)
  moreover have "spaced fl (blocks_at lo (fenced []))"
    by (rule spaced_blocks_at) (use assms in \<open>simp_all add: fenced_def sizes_ok_def size_ok_8\<close>)
  ultimately show ?thesis by (simp add: sane_def tagged_def B)
qed

lemma fences_written:
  assumes "4 \<le> lo"
  shows "(let m2 = PUT (lo - 4) (PACK_sl 0 TAKEN) m;
              m3 = PUT (FTRP_sl m2 (lo - 4)) (PACK_sl 0 TAKEN) m2;
              epilog = NEXT_BLOCK_IN_HEAP m3 (lo - 4);
              m4 = PUT epilog (PACK_sl 0 TAKEN) m3
          in PUT (FTRP_sl m4 epilog) (PACK_sl 0 TAKEN) m4) = fences lo m"
proof -
  have z: "0 = words_of 8" by (simp add: words_of_def)
  have four: "4 \<le> lo + 8" by simp
  have "NEXT_BLOCK_IN_HEAP (set_tags lo 8 True m) (lo - 4) = lo + 8 - 4"
    by (rule sblock_ends(2)[OF set_tags_block[OF assms size_ok_8] assms])
  then show ?thesis
    using tags_written[OF size_ok_8 assms z, of TAKEN True m]
      tags_written[OF size_ok_8 four z, of TAKEN True "set_tags lo 8 True m"]
    by (simp add: Let_def fences_def)
qed

lemma mm_init_sl_steps:
  assumes "mem_sbrk (int (EVENIZE MAX_POWER * 4)) (sys s) = (h1, fl)" "fl \<noteq> PTR_ERR"
    and "mem_sbrk (int WORD_SIZE) (h1\<lparr>mem := for_loop 0 (MAX_POWER + 1) (\<lambda>i. SET_FREE_LIST_PTR fl i 0) (mem h1)\<rparr>) = (h2, x)"
    and "mem_sbrk (int (4 * WORD_SIZE)) h2 = (h3, hp)" "hp \<noteq> PTR_ERR" "lo = hp + 4"
    and "extend_heap_sl CHUNK (h3\<lparr>mem := fences lo (mem h3)\<rparr>) = (h4, q)" "q \<noteq> 0"
    and "place_block_into_free_list fl q (mem h4) = Some m"
  shows "mm_init_sl s = Some (with_mem m (s\<lparr>free_lists := fl, sys := h4, heap_ptr := hp + 8\<rparr>), 0)"
proof -
  have "hp + 4 - 4 = hp" by simp
  note F = fences_written[of "hp + 4" "mem h3", unfolded this Let_def]
  show ?thesis
    unfolding mm_init_sl_def Let_def assms(1) prod.case assms(3) fst_conv assms(4) using assms(2,5-) F by simp
qed

lemma mm_init_sl_blocks:
  assumes "mem_ok (sys s)" and "mem_brk (sys s) = mem_heap (sys s)" and "8 dvd mem_heap (sys s)"
    and "mem_max_addr (sys s) + 4 \<le> 2 ^ 32"
  shows "\<exists>s'. mm_init_sl s = Some (s', 0) \<and> sl_inv s' [(4 * (CHUNK + 2), False)] \<and>
    mem_max_addr (sys s') = mem_max_addr (sys s) \<and> mem_brk (sys s') = mem_brk (sys s) + 4324 \<and>
    previous_size s' = previous_size s"
proof -
  let ?b = "mem_heap (sys s)" and ?h = "sys s"
  let ?m1 = "for_loop 0 (MAX_POWER + 1) (\<lambda>i. SET_FREE_LIST_PTR ?b i 0) (mem ?h)"
  let ?m5 = "fences (?b + 208) ?m1"
  let ?s5 = "s\<lparr>sys := ?h\<lparr>mem_brk := ?b + 220, mem := ?m5\<rparr>, free_lists := ?b, heap_ptr := ?b + 212\<rparr>"
  have room: "?b + 4324 \<le> mem_max_addr ?h" "0 < ?b" "mem_max_addr ?h = ?b + MAX_HEAP"
    using assms(1) by (simp_all add: mem_ok_def MAX_HEAP_def)
  have "sane ?b ?m5 (blocks_at (?b + 208) (fenced []))"
    by (rule sane_fences[OF cleared_heads]) (use room assms(4) in \<open>simp_all add: MAX_HEAP_def\<close>)
  then have inv5: "sl_inv ?s5 []"
    using assms room by (simp add: sl_inv_def mem_ok_def coalesced_def dvd_add add.commute)
  let ?e = "4 * (CHUNK + 2)" and ?p = "?b + 216"
  have e: "?e = 4 * (CHUNK + 2)" "even CHUNK" "16 \<le> ?e" "size_ok ?e" by (simp_all add: CHUNK_def WORD_SIZE_def size_ok_def)
  have fits: "mem_brk (sys ?s5) + ?e \<le> mem_max_addr (sys ?s5)" using room(1) by (simp add: CHUNK_def WORD_SIZE_def)
  have p: "?p = heap_ptr ?s5 + 4 + tot []" by simp
  note E = extend_heap_sl_fits[OF inv5 e(1-3) fits p] and X = extended_blocks[OF inv5 e(4,3) fits p]
  let ?m6 = "extended ?p ?e ?m5" and ?B = "rest (?b + 208) [(8, True)] ?e [(8, True)]"
  have at: "heap_ptr ?s5 - 4 = ?b + 208" "free_lists ?s5 = ?b" "smem ?s5 = ?m5" by simp_all
  note X' = X(1-3)[unfolded at]
  obtain m7 where P: "place_block_into_free_list ?b (?p - 4) ?m6 = Some m7" "sane ?b m7 (insert (?p, ?e, False) ?B)"
    using place_sane[OF X'(2,3) hole_spaced[OF X'(1)] hole_new[OF X'(1)]] by blast
  let ?s' = "with_mem m7 (s\<lparr>free_lists := ?b, sys := (sys ?s5)\<lparr>mem_brk := ?b + 220 + ?e\<rparr>, heap_ptr := ?b + 212\<rparr>)"
  have "insert (?p, ?e, False) ?B = blocks_at (?b + 208) (fenced [(?e, False)])"
    by (auto simp: rest_def fenced_def)
  then have "sl_inv ?s' [(?e, False)]"
    using P(2) inv5 fits e(3) by (simp add: sl_inv_def mem_ok_def coalesced_def add.commute)
  moreover have "mm_init_sl s = Some (?s', 0)"
  proof -
    have even: "EVENIZE MAX_POWER = 50" using EVENIZE_even[of 50] by (simp add: MAX_POWER_def)
    have sb1: "mem_sbrk (int (EVENIZE MAX_POWER * 4)) ?h = (?h\<lparr>mem_brk := ?b + 200\<rparr>, ?b)"
      using mem_sbrk_fits[of ?h 200] assms(2) room(1) by (simp add: even)
    have sb2: "mem_sbrk (int WORD_SIZE) (?h\<lparr>mem_brk := ?b + 200, mem := m\<rparr>) = (?h\<lparr>mem_brk := ?b + 204, mem := m\<rparr>, ?b + 200)" for m
      using mem_sbrk_fits[of "?h\<lparr>mem_brk := ?b + 200, mem := m\<rparr>" 4] room(1) by (simp add: WORD_SIZE_def)
    have sb3: "mem_sbrk (int (4 * WORD_SIZE)) (?h\<lparr>mem_brk := ?b + 204, mem := m\<rparr>) = (?h\<lparr>mem_brk := ?b + 220, mem := m\<rparr>, ?b + 204)" for m
      using mem_sbrk_fits[of "?h\<lparr>mem_brk := ?b + 204, mem := m\<rparr>" 16] room(1) by (simp add: WORD_SIZE_def)
    have err: "?b \<noteq> PTR_ERR" "?b + 204 \<noteq> PTR_ERR" using assms(1) room by (auto simp: mem_ok_def)
    let ?h4 = "?h\<lparr>mem_brk := ?b + 220 + ?e, mem := ?m6\<rparr>"
    have "extend_heap_sl CHUNK (?h\<lparr>mem_brk := ?b + 220, mem := ?m5\<rparr>) = (?h4, ?p - 4)"
      using E by (simp add: add.commute)
    then have "mm_init_sl s = Some (with_mem m7 (s\<lparr>free_lists := ?b, sys := ?h4, heap_ptr := ?b + 204 + 8\<rparr>), 0)"
      using err P(1) by (intro mm_init_sl_steps[OF sb1 _ sb2 sb3, where lo = "?b + 208" and q = "?p - 4"]) simp_all
    then show ?thesis by (simp add: with_mem_def)
  qed
  ultimately show ?thesis by (intro exI[of _ ?s']) (simp add: assms(2) CHUNK_def WORD_SIZE_def with_mem_def)
qed

end
