(* ===== verification/SeglistRealloc.thy ===== *)
theory SeglistRealloc
  imports SeglistMalloc
begin

text \<open>
  \<open>mm_realloc\<close> of the segregated-list allocator: the block stays, grows over its free
  neighbours, or moves to a fresh block, in each case with its bytes. \<open>moved_sl\<close> is what the
  caller may rely on.
\<close>

section \<open>Live blocks\<close>

lemma sl_live_split:
  assumes "(p, n) \<in> sl_live s bs"
  obtains xs ys where "bs = xs @ (n, True) # ys" "p = heap_ptr s + 4 + tot xs"
  using allocs_split[of p n "heap_ptr s + 4" bs] assms unfolding sl_live_def by blast

lemma sl_live_facts:
  assumes "sl_inv s bs" and "(p, n) \<in> sl_live s bs"
  shows "16 \<le> n" "8 dvd p" "heap_ptr s + 4 \<le> p" "p + n \<le> mem_brk (sys s)" "sblock (smem s) p n True" "size_ok n" "p \<noteq> 0"
    and "p < 2 ^ 32"
proof -
  obtain xs ys where bs: "bs = xs @ (n, True) # ys" and p: "p = heap_ptr s + 4 + tot xs" using assms(2) by (rule sl_live_split)
  note I = sl_invD[OF assms(1)] and H = sl_inv_hole[OF assms(1)[unfolded bs], folded p]
  show "16 \<le> n" "size_ok n" "sblock (smem s) p n True" using H(2-4) by blast+
  have "8 dvd tot xs" using sizes_dvd[of xs] sl_inv_sizes[OF assms(1)] bs by (simp add: fenced_def sizes_ok_def)
  then show "8 dvd p" using I(4) p by (simp add: dvd_add)
  show "heap_ptr s + 4 \<le> p" "p \<noteq> 0" using p by simp_all
  show "p + n \<le> mem_brk (sys s)" using I(5) p bs by simp
  then show "p < 2 ^ 32" using I(11) by linarith
qed

lemma sl_live_disjoint:
  assumes "(p, k) \<in> sl_live s bs" "(q, l) \<in> sl_live s bs" "(p, k) \<noteq> (q, l)"
  shows "p + k \<le> q \<or> q + l \<le> p"
  using allocs_disjoint assms unfolding sl_live_def by blast

text \<open>The client may write the payload of its own blocks.\<close>

lemma payload_write_sl:
  assumes inv: "sl_inv s bs" and l: "(p, n) \<in> sl_live s bs" and w: "agree_outside p (p + n - 8) (smem s) m'"
  shows "sl_inv (with_mem m' s) bs" and "same_payload (smem s) m' (sl_live s bs - {(p, n)})"
proof -
  obtain xs ys where bs: "bs = xs @ (n, True) # ys" and p: "p = heap_ptr s + 4 + tot xs" using l by (rule sl_live_split)
  let ?lo = "heap_ptr s - 4" and ?X = "(8, True) # xs" and ?Y = "ys @ [(8, True)]" and ?fl = "free_lists s"
  note I = sl_invD[OF inv] and H = sl_inv_hole[OF inv[unfolded bs], folded p] and L = sl_live_facts[OF inv l]
  have at: "?lo + tot ?X = p" using I(9) p by simp
  have B: "blocks_at ?lo (fenced bs) = insert (p, n, True) (rest ?lo ?X n ?Y)"
    unfolding bs fenced_middle blocks_at_rest at ..
  have "sane ?fl (smem s) (rest ?lo ?X n ?Y)" by (rule sane_drop_taken[OF I(6)]) (auto simp: B)
  then have "sane ?fl m' (rest ?lo ?X n ?Y)"
    by (rule hole_sane(1)[OF _ H(1) agree_outside_mono[OF w]]) simp_all
  moreover have "GET m' (p - 4) = GET (smem s) (p - 4)" "GET m' (p + n - 8) = GET (smem s) (p + n - 8)"
    using L(1,3) by (intro agree_outside_GET[OF w]; linarith)+
  then have "sblock m' p n True" using L(5) by (simp add: sblock_def)
  ultimately have "sane ?fl m' (blocks_at ?lo (fenced bs))"
    unfolding B by (rule sane_add_taken[OF _ _ hole_spaced[OF H(1)]])
  then show "sl_inv (with_mem m' s) bs" by (rule sl_inv_mem[OF inv refl _ I(7,8)])
  have "m' (q + i) = smem s (q + i)" if "(q, k) \<in> sl_live s bs - {(p, n)}" "i < k - 8" for q k i
  proof -
    have "q + k \<le> p \<or> p + n \<le> q" using sl_live_disjoint[of q k s bs p n] that l by blast
    then have "q + i < p \<or> p + n - 8 \<le> q + i" using that(2) by arith
    then show ?thesis using w unfolding agree_outside_def by blast
  qed
  then show "same_payload (smem s) m' (sl_live s bs - {(p, n)})" unfolding same_payload_def by blast
qed

lemma live_joined:
  assumes inv: "sl_inv s (xs @ (n, True) # ys)" and p: "p = heap_ptr s + 4 + tot xs" and j: "join_free xs n ys = (xs', n', ys')"
  shows "sl_live s (xs' @ (n', False) # ys') = sl_live s (xs @ (n, True) # ys) - {(p, n)}"
proof -
  have "sl_live s (xs' @ (n', False) # ys') = sl_live s (xs @ (n, False) # ys)"
    using join_free_facts(3)[OF j, of "heap_ptr s + 4"] by (simp add: sl_live_def del: allocs_append)
  then show ?thesis using takens_hole(2,3)[OF inv] p by auto
qed

lemma mm_free_sl_live:
  assumes inv: "sl_inv s bs" and l: "(p, n) \<in> sl_live s bs"
  shows "\<exists>m' bs'. mm_free_sl p s = Some (with_mem m' s) \<and> sl_inv (with_mem m' s) bs' \<and>
     sl_live (with_mem m' s) bs' = sl_live s bs - {(p, n)} \<and> same_payload (smem s) m' (sl_live s bs - {(p, n)})"
proof -
  obtain xs ys where bs: "bs = xs @ (n, True) # ys" and p: "p = heap_ptr s + 4 + tot xs" using l by (rule sl_live_split)
  obtain xs' n' ys' where j: "join_free xs n ys = (xs', n', ys')" by (cases "join_free xs n ys")
  note inv' = inv[unfolded bs]
  obtain m' where m': "mm_free_sl p s = Some (with_mem m' s)" "sl_inv (with_mem m' s) (xs' @ (n', False) # ys')"
      "same_payload (smem s) m' (sl_live s (xs @ (n, False) # ys))"
    using mm_free_sl_blocks[OF inv' p j] by blast
  have rest: "sl_live s (xs' @ (n', False) # ys') = sl_live s bs - {(p, n)}"
    using live_joined[OF inv' p j] bs by simp
  moreover have "sl_live s (xs @ (n, False) # ys) = sl_live s bs - {(p, n)}"
    using takens_hole(2,3)[OF inv'] bs p by auto
  ultimately show ?thesis using m' by (intro exI[of _ m'] exI[of _ "xs' @ (n', False) # ys'"]) simp
qed

section \<open>What \<open>mm_realloc\<close> promises\<close>

definition moved_sl :: "seglist \<Rightarrow> block list \<Rightarrow> nat \<Rightarrow> nat \<Rightarrow> nat \<Rightarrow> seglist \<Rightarrow> nat \<Rightarrow> bool" where
  "moved_sl s bs p n sz s' q \<longleftrightarrow>
     (\<exists>bs' k. sl_inv s' bs' \<and> q \<noteq> 0 \<and> 8 dvd q \<and> sz + 8 \<le> k \<and> (\<forall>k. (q, k) \<notin> sl_live s bs - {(p, n)}) \<and>
        sl_live s' bs' = insert (q, k) (sl_live s bs - {(p, n)}) \<and>
        (\<forall>i<min sz (n - 8). smem s' (q + i) = smem s (p + i)) \<and>
        same_payload (smem s) (smem s') (sl_live s bs - {(p, n)}))"

lemma moved_stays:
  assumes "sl_inv s bs" "(p, n) \<in> sl_live s bs" "sz + 8 \<le> n"
  shows "moved_sl s bs p n sz s p"
proof -
  have single: "k = n" if "(p, k) \<in> sl_live s bs" for k
  proof (rule ccontr)
    assume "k \<noteq> n"
    then have "p + n \<le> p \<or> p + k \<le> p" using sl_live_disjoint[OF assms(2) that] by blast
    then show False using sl_live_facts(1)[OF assms(1,2)] sl_live_facts(1)[OF assms(1) that] by linarith
  qed
  have "sl_live s bs = insert (p, n) (sl_live s bs - {(p, n)})" using assms(2) by blast
  then show ?thesis
    unfolding moved_sl_def using sl_live_facts(2,7)[OF assms(1,2)] assms single same_payload_refl by blast
qed

text \<open>A fresh block, the copy, and the old block freed.\<close>

lemma moved_copies:
  assumes inv: "sl_inv s bs" and l: "(p, n) \<in> sl_live s bs" and h1: "handed_out_sl s bs big s1 q" and big: "n - 8 \<le> big" "sz \<le> big"
  shows "\<exists>s2. mm_free_sl p (with_mem (memcpy q p (n - 8) (smem s1)) s1) = Some s2 \<and> moved_sl s bs p n sz s2 q"
proof -
  let ?m2 = "memcpy q p (n - 8) (smem s1)"
  obtain bs1 k where k: "sl_inv s1 bs1" "q \<noteq> 0" "8 dvd q" "big + 8 \<le> k" "\<forall>k. (q, k) \<notin> sl_live s bs"
      "sl_live s1 bs1 = insert (q, k) (sl_live s bs)" and keep1: "same_payload (smem s) (smem s1) (sl_live s bs)"
    using h1 unfolding handed_out_sl_def by blast
  have qk: "(q, k) \<in> sl_live s1 bs1" and pn: "(p, n) \<in> sl_live s1 bs1" and neq: "q \<noteq> p" using k(5,6) l by auto
  have wr: "agree_outside q (q + k - 8) (smem s1) ?m2"
    using memcpy_outside[of "n - 8" "k - 8" q "smem s1" p] k(4) big(1) by simp
  have inv2: "sl_inv (with_mem ?m2 s1) bs1" and keep2: "same_payload (smem s1) ?m2 (sl_live s1 bs1 - {(q, k)})"
    using payload_write_sl[OF k(1) qk wr] by blast+
  have pn2: "(p, n) \<in> sl_live (with_mem ?m2 s1) bs1" using pn by simp
  obtain m3 bs3 where F: "mm_free_sl p (with_mem ?m2 s1) = Some (with_mem m3 (with_mem ?m2 s1))"
      "sl_inv (with_mem m3 (with_mem ?m2 s1)) bs3"
      "sl_live (with_mem m3 (with_mem ?m2 s1)) bs3 = sl_live s1 bs1 - {(p, n)}"
      and keep3: "same_payload ?m2 m3 (sl_live s1 bs1 - {(p, n)})"
    using mm_free_sl_live[OF inv2 pn2] by auto
  have sub: "sl_live s bs - {(p, n)} \<subseteq> sl_live s1 bs1 - {(q, k)}" "sl_live s bs - {(p, n)} \<subseteq> sl_live s1 bs1 - {(p, n)}"
    using k(5,6) by auto
  have "m3 (q + i) = smem s (p + i)" if "i < min sz (n - 8)" for i
  proof -
    have "m3 (q + i) = ?m2 (q + i)"
      by (rule same_payloadD[OF keep3]) (use qk neq that k(4) big in auto)
    also have "\<dots> = smem s1 (p + i)" using that by (auto simp: memcpy_def)
    also have "\<dots> = smem s (p + i)" by (rule same_payloadD[OF keep1 l]) (use that in simp)
    finally show ?thesis .
  qed
  moreover have "same_payload (smem s) m3 (sl_live s bs - {(p, n)})"
    using same_payload_trans[OF same_payload_mono[OF keep1 Diff_subset]
      same_payload_trans[OF same_payload_mono[OF keep2 sub(1)] same_payload_mono[OF keep3 sub(2)]]] .
  moreover have "sl_live s1 bs1 - {(p, n)} = insert (q, k) (sl_live s bs - {(p, n)})" using k(6) neq by auto
  ultimately show ?thesis
    using F k(2-5) big(2) unfolding moved_sl_def
    by (intro exI[of _ "with_mem m3 (with_mem ?m2 s1)"] conjI exI[of _ bs3] exI[of _ k]) simp_all
qed

section \<open>Growing in place\<close>

lemma free_and_coalesce_hole:
  assumes inv: "sl_inv s (xs @ (n, True) # ys)" and p: "p = heap_ptr s + 4 + tot xs"
    and j: "join_free xs n ys = (xs', n', ys')" and q: "q = heap_ptr s + 4 + tot xs'"
  defines "B \<equiv> rest (heap_ptr s - 4) ((8, True) # xs') n' (ys' @ [(8, True)])"
  shows "\<exists>m1. free_and_coalesce (free_lists s) (p - 4) (words_of n) (smem s) = (m1, q - 4) \<and>
    sane (free_lists s) m1 B \<and> hole (free_lists s) B q n' \<and> sblock m1 q n' False \<and>
    same_payload (smem s) m1 (sl_live s (xs @ (n, True) # ys))"
proof -
  note H = sl_inv_hole[OF inv, folded p]
  have "free_and_coalesce (free_lists s) (p - 4) (words_of n) (smem s) =
      coalesce_sl (free_lists s) (p - 4) (set_tags p n False (smem s))"
    using tags_written[OF H(4) holeD(7)[OF H(1)], of "words_of n" FREE False "smem s"]
    by (simp add: free_and_coalesce_def)
  then show ?thesis using free_hole[OF inv p j] by (simp add: q B_def)
qed

text \<open>The data, wherever it is copied to inside the grown hole, ends up in the new block.\<close>

lemma grow_in_place:
  assumes inv: "sl_inv s (xs @ (n, True) # ys)" and p: "p = heap_ptr s + 4 + tot xs"
    and j: "join_free xs n ys = (xs', n', ys')" and q: "q = heap_ptr s + 4 + tot xs'"
    and m1: "sane (free_lists s) m1 (rest (heap_ptr s - 4) ((8, True) # xs') n' (ys' @ [(8, True)]))"
      "hole (free_lists s) (rest (heap_ptr s - 4) ((8, True) # xs') n' (ys' @ [(8, True)])) q n'" "sblock m1 q n' False"
      "same_payload (smem s) m1 (sl_live s (xs @ (n, True) # ys))"
    and m2: "agree_outside q (q + n - 8) m1 m2" "\<forall>i<n - 8. m2 (q + i) = smem s (p + i)"
    and a: "a = 4 * (words + 2)" "8 dvd a" "n \<le> a" "a \<le> n'" "sz + 8 \<le> a"
  shows "\<exists>m'. alloc_free_block (free_lists s) (q - 4) words m2 = Some m' \<and>
    moved_sl s (xs @ (n, True) # ys) p n sz (with_mem m' s) q"
proof -
  let ?lo = "heap_ptr s - 4" and ?fl = "free_lists s" and ?X = "(8, True) # xs'" and ?Y = "ys' @ [(8, True)]"
  let ?B = "rest ?lo ?X n' ?Y" and ?bs = "xs @ (n, True) # ys" and ?bs' = "xs' @ place_blocks n' a @ ys'"
  note I = sl_invD[OF inv] and F = join_free_facts[OF j]
  have at: "?lo + tot ?X = q" using I(9) q by simp
  have a16: "16 \<le> a" using I(7) a(3) by simp
  have q4: "4 \<le> q" by (rule holeD(7)[OF m1(2)])
  have B2: "sane ?fl m2 ?B" "same_payload m1 m2 (takens ?B)"
    using hole_sane[OF m1(1,2) agree_outside_mono[OF m2(1)]] F(2) by simp_all
  have "GET m2 (q - 4) = GET m1 (q - 4)" "GET m2 (q + n' - 8) = GET m1 (q + n' - 8)"
    using q4 F(2) holeD(3)[OF m1(2)] by (intro agree_outside_GET[OF m2(1)]; linarith)+
  then have tag2: "sblock m2 q n' False" using m1(3) by (simp add: sblock_def)
  have co: "coalesced (xs' @ (n', False) # ys')" by (rule join_free_coalesced[OF j coalesced_parts[OF I(8)]])
  obtain k Y where Y: "?Y = (k, True) # Y"
    using co by (cases ys') (auto simp: coalesced_def successively_append_iff)
  obtain m' where m': "alloc_free_block ?fl (q - 4) words m2 = Some m'"
      "sane ?fl m' (blocks_at ?lo (?X @ place_blocks n' a @ ?Y))" "same_payload m2 m' (insert (q, a) (takens ?B))"
    using alloc_rest[of ?fl m2 ?lo ?X n' k Y a words, folded Y, unfolded at, OF B2(1) m1(2) tag2 a(1,2) a16 a(4)] by blast
  have inv': "sl_inv (with_mem m' s) ?bs'"
  proof (rule sl_inv_mem[OF inv])
    show "sane ?fl m' (blocks_at ?lo (fenced ?bs'))" using m'(2) by (simp add: fenced_def)
    show "coalesced ?bs'" by (rule coalesced_middle[OF co place_blocks_shape(1-3)])
    show "list_all (\<lambda>b. 16 \<le> fst b) ?bs'" using F(4) I(7) place_blocks_shape(4)[OF a16 a(4)] by simp
  qed (use F(1) a(4) in simp)
  let ?k = "if 16 \<le> n' - a then a else n'"
  have rest: "sl_live s (xs' @ (n', False) # ys') = sl_live s ?bs - {(p, n)}" by (rule live_joined[OF inv p j])
  have live: "sl_live (with_mem m' s) ?bs' = insert (q, ?k) (sl_live s ?bs - {(p, n)})"
    unfolding rest[symmetric] using q a(4) by (auto simp: sl_live_def place_blocks_def)
  have "sl_live s (xs' @ (n', False) # ys') \<subseteq> takens ?B"
    unfolding takens_rest sl_live_def by (auto simp: I(9))
  then have sub: "sl_live s ?bs - {(p, n)} \<subseteq> takens ?B" unfolding rest .
  have "same_payload (smem s) m' (sl_live s ?bs - {(p, n)})"
    using same_payload_trans[OF same_payload_mono[OF m1(4)] same_payload_trans[OF same_payload_mono[OF B2(2) sub]
      same_payload_mono[OF m'(3)]]] sub by blast
  moreover have "m' (q + i) = smem s (p + i)" if "i < min sz (n - 8)" for i
  proof -
    have "i < a - 8" "i < n - 8" using that a(3) by linarith+
    then show ?thesis using same_payloadD[OF m'(3), of q a i] m2(2) by simp
  qed
  moreover have "(q, ?k) \<in> sl_live (with_mem m' s) ?bs'" using live by simp
  then have "8 dvd q" "q \<noteq> 0" by (rule sl_live_facts(2,7)[OF inv'])+
  moreover have "\<forall>k. (q, k) \<notin> sl_live s ?bs - {(p, n)}"
  proof -
    have "list_all (\<lambda>b. 16 \<le> fst b) (xs' @ (n', False) # ys')" using F(4) I(7) by simp
    then have "(q, k) \<notin> sl_live s (xs' @ (n', False) # ys')" for k unfolding sl_live_def q by (rule free_not_live)
    then show ?thesis unfolding rest by blast
  qed
  ultimately have "moved_sl s ?bs p n sz (with_mem m' s) q"
    unfolding moved_sl_def using inv' live a(4,5)
    by (intro exI[of _ ?bs'] exI[of _ ?k]) simp
  with m'(1) show ?thesis by blast
qed

section \<open>The neighbours of a block\<close>

lemma neighbours:
  assumes inv: "sl_inv s (xs @ (n, a) # ys)" and p: "p = heap_ptr s + 4 + tot xs" and j: "join_free xs n ys = (xs', n', ys')"
  obtains u c k d where
    "PREV_BLOCK_IN_HEAP (smem s) (p - 4) = p - u - 4" "GET_SIZE_sl (smem s) (p - u - 4) = words_of u"
    "GET_STATUS (smem s) (p - u - 4) = (if c then TAKEN else FREE)"
    "NEXT_BLOCK_IN_HEAP (smem s) (p - 4) = p + n - 4" "GET_SIZE_sl (smem s) (p + n - 4) = words_of k"
    "GET_STATUS (smem s) (p + n - 4) = (if d then TAKEN else FREE)"
    "size_ok u" "size_ok k" "n' = (if c then 0 else u) + n + (if d then 0 else k)"
    "c \<longrightarrow> xs' = xs"
proof -
  let ?lo = "heap_ptr s - 4" and ?m = "smem s"
  note I = sl_invD[OF inv] and H = sl_inv_hole[OF inv, folded p] and j' = join_free_fenced[OF j]
  obtain xs0 u c where X: "(8, True) # xs = xs0 @ [(u, c)]" by (metis append_butlast_last_id list.distinct(1) surj_pair)
  obtain k d ys0 where Y: "ys @ [(8, True)] = (k, d) # ys0" by (cases "ys @ [(8, True)]") auto
  have lo: "?lo + tot ((8, True) # xs) = p" using I(9) p by simp
  have r: "?lo + tot xs0 + u = p" unfolding lo[symmetric] X by simp
  then have r': "p - u = ?lo + tot xs0" by simp
  have "fenced (xs @ (n, a) # ys) = (xs0 @ [(u, c)]) @ (n, a) # (k, d) # ys0"
    unfolding fenced_middle X Y ..
  then have "(p - u, u, c) \<in> blocks_at ?lo (fenced (xs @ (n, a) # ys))" "(p + n, k, d) \<in> blocks_at ?lo (fenced (xs @ (n, a) # ys))"
    using r r' by (simp_all add: add.assoc)
  then have L: "sblock ?m (p - u) u c" and N: "sblock ?m (p + n) k d" using saneD(4)[OF I(6)] by blast+
  have u4: "4 \<le> p - u" using I(3) r' by linarith
  have "p - u + u = p" using r by simp
  then have prev: "PREV_BLOCK_IN_HEAP ?m (p - 4) = p - u - 4" using sblock_ends(3)[OF L u4] by simp
  have nxt: "NEXT_BLOCK_IN_HEAP ?m (p - 4) = p + n - 4" by (rule sblock_ends(2)[OF H(2) holeD(7)[OF H(1)]])
  have "merge_right n ((k, d) # ys0) = (if d then (n, (k, d) # ys0) else (n + k, ys0))" by (cases d) simp_all
  then have nx: "n' = (if c then 0 else u) + n + (if d then 0 else k)" "c \<longrightarrow> (8, True) # xs' = xs0 @ [(u, c)]"
    using j' unfolding X Y by (auto simp: join_free_def split: if_splits)
  have "c \<longrightarrow> xs' = xs" using nx(2) unfolding X[symmetric] by simp
  then show ?thesis
    using that[of u c k d] prev nxt sblock_reads(1,2)[OF L] sblock_reads(1,2)[OF N] L N nx(1) by (simp add: sblock_def)
qed

section \<open>\<open>mm_realloc\<close>\<close>

lemma request_words:
  assumes "0 < sz" "sz \<le> 2 ^ 28"
  shows "even (ALIGN sz div WORD_SIZE)" "2 \<le> ALIGN sz div WORD_SIZE" "sz + 8 \<le> 4 * (ALIGN sz div WORD_SIZE + 2)"
    and "ALIGN sz div WORD_SIZE \<le> 2 ^ 26"
proof -
  have A: "ALIGN sz = 8 * ((sz + 7) div 8)" by (rule ALIGN_div) (use assms in simp)
  show "even (ALIGN sz div WORD_SIZE)" "2 \<le> ALIGN sz div WORD_SIZE" "sz + 8 \<le> 4 * (ALIGN sz div WORD_SIZE + 2)"
    and "ALIGN sz div WORD_SIZE \<le> 2 ^ 26"
    using assms by (auto simp: A WORD_SIZE_def)
qed

text \<open>The branches of \<open>mm_realloc_wrapped\<close> for a block of \<open>old\<close> words.\<close>

lemma mm_realloc_wrapped_steps:
  fixes s :: seglist and p sz w old :: nat and buffer :: int32
  assumes m: "smem s = m" "free_lists s = fl" "PREV_BLOCK_IN_HEAP m (p - 4) = pre" "NEXT_BLOCK_IN_HEAP m (p - 4) = nxt"
  defines "right \<equiv> GET_SIZE_sl m nxt + old + 2 \<ge> w \<and> GET_STATUS m pre = TAKEN \<and> GET_STATUS m nxt = FREE"
    and "left \<equiv> GET_SIZE_sl m pre + old + 2 \<ge> w \<and> GET_STATUS m pre = FREE \<and> GET_STATUS m nxt = TAKEN \<or>
      GET_SIZE_sl m pre + GET_SIZE_sl m nxt + old + 4 \<ge> w \<and> GET_STATUS m pre = FREE \<and> GET_STATUS m nxt = FREE"
  assumes p: "4 \<le> p" and old: "GET_SIZE_sl m (p - 4) = old" and new: "ALIGN sz div WORD_SIZE \<noteq> 0" "ALIGN sz div WORD_SIZE \<le> w"
    and w: "unat (word_of_nat (ALIGN sz div WORD_SIZE) + buffer) = w"
  shows "ALIGN sz div WORD_SIZE \<le> old \<Longrightarrow> mm_realloc_wrapped p sz buffer s = Some (Done (s, p))"
    and "old < ALIGN sz div WORD_SIZE \<Longrightarrow> right \<Longrightarrow> free_and_coalesce fl (p - 4) old m = (m1, bp) \<Longrightarrow>
      alloc_free_block fl bp w m1 = Some m2 \<Longrightarrow> mm_realloc_wrapped p sz buffer s = Some (Done (with_mem m2 s, bp + 4))"
    and "old < ALIGN sz div WORD_SIZE \<Longrightarrow> left \<Longrightarrow> free_and_coalesce fl (p - 4) old m = (m1, bp) \<Longrightarrow>
      alloc_free_block fl bp w (memcpy (bp + 4) p (old * 4) m1) = Some m2 \<Longrightarrow>
      mm_realloc_wrapped p sz buffer s = Some (Done (with_mem m2 s, bp + 4))"
    and "old < ALIGN sz div WORD_SIZE \<Longrightarrow> \<not> right \<Longrightarrow> \<not> left \<Longrightarrow> mm_malloc_sl (size32 (w * 4 + 4)) s = Some (s1, 0) \<Longrightarrow>
      mm_realloc_wrapped p sz buffer s = Some Fault"
    and "old < ALIGN sz div WORD_SIZE \<Longrightarrow> \<not> right \<Longrightarrow> \<not> left \<Longrightarrow> mm_malloc_sl (size32 (w * 4 + 4)) s = Some (s1, q) \<Longrightarrow>
      4 < q \<Longrightarrow> q < 2 ^ 32 \<Longrightarrow> mm_free_sl p (with_mem (memcpy q p (old * 4) (smem s1)) s1) = Some s2 \<Longrightarrow>
      mm_realloc_wrapped p sz buffer s = Some (Done (s2, q))"
proof -
  have p4: "p - 4 + 4 = p" "(p = 0) = False" using p by simp_all
  have taken: "TAKEN \<noteq> FREE" by (simp add: TAKEN_def FREE_def)
  note unfold = mm_realloc_wrapped_def Let_def m w p4
  note conds = right_def[symmetric] left_def[symmetric]
  show "ALIGN sz div WORD_SIZE \<le> old \<Longrightarrow> mm_realloc_wrapped p sz buffer s = Some (Done (s, p))"
    unfolding unfold old using new by auto
  assume grow: "old < ALIGN sz div WORD_SIZE"
  then have g: "(w = old \<and> ALIGN sz div WORD_SIZE \<le> w) = False" "(ALIGN sz div WORD_SIZE = 0) = False"
    "(ALIGN sz div WORD_SIZE > old) = True" using new by auto
  note go = unfold old g if_False if_True
  show "right \<Longrightarrow> free_and_coalesce fl (p - 4) old m = (m1, bp) \<Longrightarrow>
      alloc_free_block fl bp w m1 = Some m2 \<Longrightarrow> mm_realloc_wrapped p sz buffer s = Some (Done (with_mem m2 s, bp + 4))"
    unfolding go unfolding conds by simp
  show "left \<Longrightarrow> free_and_coalesce fl (p - 4) old m = (m1, bp) \<Longrightarrow>
      alloc_free_block fl bp w (memcpy (bp + 4) p (old * 4) m1) = Some m2 \<Longrightarrow>
      mm_realloc_wrapped p sz buffer s = Some (Done (with_mem m2 s, bp + 4))"
    unfolding go unfolding conds using taken by (auto simp: WORD_SIZE_def right_def left_def)
  show "\<not> right \<Longrightarrow> \<not> left \<Longrightarrow> mm_malloc_sl (size32 (w * 4 + 4)) s = Some (s1, 0) \<Longrightarrow>
      mm_realloc_wrapped p sz buffer s = Some Fault"
    unfolding go unfolding conds by (simp add: WORD_SIZE_def size32_def)
  show "mm_realloc_wrapped p sz buffer s = Some (Done (s2, q))"
    if "\<not> right" "\<not> left" "mm_malloc_sl (size32 (w * 4 + 4)) s = Some (s1, q)" "4 < q" "q < 2 ^ 32"
      "mm_free_sl p (with_mem (memcpy q p (old * 4) (smem s1)) s1) = Some s2"
  proof -
    have q: "size32 (q + 2 ^ 32 - 4) = q - 4" "size32 (q - 4 + 4) = q" "q - 4 + 4 = q"
      using that(4,5) by (simp_all add: size32_def mod_if)
    show ?thesis
      unfolding go unfolding conds using that q by (simp add: WORD_SIZE_def)
  qed
qed

lemma mm_realloc_wrapped_moved:
  assumes inv: "sl_inv s bs" and l: "(p, n) \<in> sl_live s bs" and sz: "0 < sz" "sz \<le> 2 ^ 28"
    and w: "w = unat (word_of_nat (ALIGN sz div WORD_SIZE) + buffer)" "even w" "ALIGN sz div WORD_SIZE \<le> w" "w \<le> 2 ^ 30 - 5"
  shows "\<exists>r. mm_realloc_wrapped p sz buffer s = Some r \<and>
    (r = Fault \<and> no_room_sl s bs (4 * w + 4) \<or> (\<exists>s' q. r = Done (s', q) \<and> moved_sl s bs p n sz s' q))"
proof -
  obtain xs ys where bs: "bs = xs @ (n, True) # ys" and p: "p = heap_ptr s + 4 + tot xs" using l by (rule sl_live_split)
  obtain xs' n' ys' where j: "join_free xs n ys = (xs', n', ys')" by (cases "join_free xs n ys")
  let ?new = "ALIGN sz div WORD_SIZE" and ?m = "smem s" and ?fl = "free_lists s"
  note inv' = inv[unfolded bs] and L = sl_live_facts[OF inv l] and R = request_words[OF sz]
  obtain u c k d where
    N: "PREV_BLOCK_IN_HEAP ?m (p - 4) = p - u - 4" "GET_SIZE_sl ?m (p - u - 4) = words_of u"
      "GET_STATUS ?m (p - u - 4) = (if c then TAKEN else FREE)"
      "NEXT_BLOCK_IN_HEAP ?m (p - 4) = p + n - 4" "GET_SIZE_sl ?m (p + n - 4) = words_of k"
      "GET_STATUS ?m (p + n - 4) = (if d then TAKEN else FREE)"
    and ok: "size_ok u" "size_ok k" and n': "n' = (if c then 0 else u) + n + (if d then 0 else k)"
    and cx: "c \<longrightarrow> xs' = xs"
    using neighbours[OF inv' p j] by blast
  let ?a = "4 * (w + 2)"
  define ow where "ow = words_of n"
  have old: "GET_SIZE_sl ?m (p - 4) = ow" unfolding ow_def by (rule sblock_reads(1)[OF L(5)])
  have n4: "4 * (ow + 2) = n" unfolding ow_def by (rule size_ok_span[OF L(6)])
  then have "ow * 4 = n - 8" by simp
  note span = this n4
  have p4: "4 \<le> p" "p - 4 + 4 = p" using L(3) by simp_all
  have nz: "?new \<noteq> 0" using R(2) by linarith
  note step = mm_realloc_wrapped_steps[OF refl refl N(1,4) p4(1) old nz w(3) w(1)[symmetric]]
  let ?right = "GET_SIZE_sl ?m (p + n - 4) + ow + 2 \<ge> w \<and> GET_STATUS ?m (p - u - 4) = TAKEN \<and> GET_STATUS ?m (p + n - 4) = FREE"
  let ?left = "GET_SIZE_sl ?m (p - u - 4) + ow + 2 \<ge> w \<and> GET_STATUS ?m (p - u - 4) = FREE \<and> GET_STATUS ?m (p + n - 4) = TAKEN \<or>
      GET_SIZE_sl ?m (p - u - 4) + GET_SIZE_sl ?m (p + n - 4) + ow + 4 \<ge> w \<and> GET_STATUS ?m (p - u - 4) = FREE \<and>
      GET_STATUS ?m (p + n - 4) = FREE"
  have taken: "TAKEN \<noteq> FREE" by (simp add: TAKEN_def FREE_def)
  have a: "8 dvd ?a" "sz + 8 \<le> ?a" using w(2,3) R(3) by (auto elim!: evenE)
  show ?thesis
  proof (cases "?new \<le> ow")
    case True
    then have "4 * (?new + 2) \<le> 4 * (ow + 2)" by simp
    then have "sz + 8 \<le> n" using R(3) unfolding span(2) by (rule order_trans[rotated])
    then show ?thesis using step(1)[OF True] moved_stays[OF inv l] by blast
  next
    case False
    then have g: "ow < ?new" by simp
    then have "4 * (ow + 2) \<le> ?a" using w(3) by simp
    then have na: "n \<le> ?a" unfolding span(2) .
    define q where "q = heap_ptr s + 4 + tot xs'"
    obtain m1 where m1: "free_and_coalesce ?fl (p - 4) ow ?m = (m1, q - 4)"
        "sane ?fl m1 (rest (heap_ptr s - 4) ((8, True) # xs') n' (ys' @ [(8, True)]))"
        "hole ?fl (rest (heap_ptr s - 4) ((8, True) # xs') n' (ys' @ [(8, True)])) q n'" "sblock m1 q n' False"
        "same_payload ?m m1 (sl_live s bs)"
      unfolding ow_def using free_and_coalesce_hole[OF inv' p j q_def] bs by blast
    have q4: "q - 4 + 4 = q" using holeD(7)[OF m1(3)] by simp
    have keep: "\<forall>i<n - 8. m1 (p + i) = ?m (p + i)" using same_payloadD[OF m1(5) l] by blast
    have wn: "w \<le> words_of n' \<longleftrightarrow> ?a \<le> n'" by (rule fitting_words[OF refl holeD(2)[OF m1(3)]])
    note grow = grow_in_place[OF inv' p j q_def m1(2-4) m1(5)[unfolded bs] _ _ refl a(1) na _ a(2)]
    have sum: "words_of n' = (if c then 0 else words_of u + 2) + ow + (if d then 0 else words_of k + 2)"
      unfolding ow_def using n' ok L(6) by (auto elim!: size_ok_words simp: words_of_def)
    consider (right) "?right" | (left) "?left" | (move) "\<not> ?right" "\<not> ?left" by blast
    then show ?thesis
    proof cases
      case right
      then have "c" "\<not> d" "w \<le> words_of n'" using N taken sum by (auto split: if_splits)
      moreover from this have "q = p" using cx p by (simp add: q_def)
      ultimately obtain m' where "alloc_free_block ?fl (q - 4) w m1 = Some m'" "moved_sl s bs p n sz (with_mem m' s) q"
        using grow[of m1] keep wn bs by auto
      then show ?thesis using step(2)[OF g right m1(1)] q4 by auto
    next
      case left
      let ?m2 = "memcpy q p (ow * 4) m1"
      have "w \<le> words_of n'" using left N taken sum by (auto split: if_splits)
      moreover have "agree_outside q (q + n - 8) m1 ?m2"
        using memcpy_outside[of "n - 8" "n - 8" q m1 p] L(1) span(1) by simp
      moreover have "\<forall>i<n - 8. ?m2 (q + i) = ?m (p + i)" using keep span(1) L(1) by (auto simp: memcpy_def)
      ultimately obtain m' where "alloc_free_block ?fl (q - 4) w ?m2 = Some m'" "moved_sl s bs p n sz (with_mem m' s) q"
        using grow[of ?m2] wn bs by auto
      then show ?thesis using step(3)[OF g left m1(1), unfolded q4] by auto
    next
      case move
      have big: "size32 (w * 4 + 4) = 4 * w + 4" "0 < 4 * w + 4" "4 * w + 4 \<le> 2 ^ 32 - 16" "n - 8 \<le> 4 * w + 4" "sz \<le> 4 * w + 4"
        using w(4) na a(2) by (simp_all add: size32_def)
      obtain s1 q1 where M: "mm_malloc_sl (4 * w + 4) s = Some (s1, q1)"
          "if no_room_sl s bs (4 * w + 4) then q1 = 0 \<and> s1 = s else handed_out_sl s bs (4 * w + 4) s1 q1"
        using mm_malloc_sl_blocks[OF inv big(2,3)] by blast
      show ?thesis
      proof (cases "no_room_sl s bs (4 * w + 4)")
        case True
        then show ?thesis using step(4)[OF g move] M big(1) by simp
      next
        case False
        then have h: "handed_out_sl s bs (4 * w + 4) s1 q1" using M(2) by simp
        then obtain bs1 k1 where "sl_inv s1 bs1" "(q1, k1) \<in> sl_live s1 bs1" by (auto simp: handed_out_sl_def)
        then have q1: "4 < q1" "q1 < 2 ^ 32" using sl_live_facts(3,8) sl_invD(3) by fastforce+
        obtain s2 where "mm_free_sl p (with_mem (memcpy q1 p (n - 8) (smem s1)) s1) = Some s2" "moved_sl s bs p n sz s2 q1"
          using moved_copies[OF inv l h big(4,5)] by blast
        then show ?thesis using step(5)[OF g move _ q1] M(1) big(1) span(1) by auto
      qed
    qed
  qed
qed

section \<open>The buffer\<close>

lemma round_to_thousand_even: "\<exists>b. round_to_thousand sz = word_of_nat b \<and> even b \<and> b \<le> sz + 500"
proof (intro exI conjI)
  let ?b = "if sz mod 1000 \<ge> 500 then sz + 1000 - sz mod 1000 else sz - sz mod 1000"
  show "round_to_thousand sz = word_of_nat ?b" by (simp add: round_to_thousand_def)
  have "?b = 1000 * (sz div 1000 + 1) \<or> ?b = 1000 * (sz div 1000)"
    by (simp add: minus_mod_eq_mult_div) (metis Nat.add_diff_assoc2 minus_mod_eq_mult_div mod_less_eq_dividend add.commute)
  then show "even ?b" by (elim disjE) simp_all
  show "?b \<le> sz + 500" by auto
qed

text \<open>The distance to the previous request, as the code computes it.\<close>

definition request_diff :: "int32 \<Rightarrow> nat \<Rightarrow> int32" where
  "request_diff prev sz = (let d = word_of_nat sz - prev in if d <s 0 then - d else d)"

lemma request_diff_pos:
  assumes "sz < 2 ^ 31" "0 \<le> sint prev" "word_of_nat sz \<noteq> prev"
  shows "0 < sint (request_diff prev sz)"
proof -
  let ?d = "word_of_nat sz - prev :: int32"
  have p: "sint prev < 2 ^ 31" using sint_lt[of prev] by simp
  have s: "sint (word_of_nat sz :: int32) = int sz" by (rule sint_small(1)[OF assms(1)])
  have d: "sint ?d = int sz - sint prev"
    using assms(1,2) p unfolding sint_word_diff s by (intro signed_take_bit_int_eq_self) simp_all
  have "?d \<noteq> 0" using assms(3) by simp
  then have "sint ?d \<noteq> 0" unfolding signed_eq_0_iff .
  moreover have "sint (- ?d) = - sint ?d" if "sint ?d < 0"
    unfolding sint_word_minus using d p assms(2) that by (intro signed_take_bit_int_eq_self) simp_all
  ultimately show ?thesis by (auto simp: request_diff_def Let_def word_sless_alt)
qed

text \<open>The buffer \<open>mm_realloc\<close> adds, in words, is even and moderate.\<close>

lemma realloc_buffer:
  assumes "0 < sz" "sz \<le> 2 ^ 28" and d: "0 < sint d"
  defines "buffer \<equiv> if d <s push_bit 12 1 \<and> unat d mod unat (round_up_power_2 d) \<noteq> 0 then round_up_power_2 d else round_to_thousand sz"
  shows "\<exists>b. buffer = word_of_nat b \<and> even b \<and> b \<le> max 4096 (sz + 500)"
    and "d <s push_bit 12 1 \<Longrightarrow> round_up_power_2 d \<noteq> 0"
proof -
  let ?k = "bitlen (nat (sint d) - 1)"
  have small: "round_up_power_2 d = 2 ^ ?k \<and> ?k \<le> 12 \<and> unat (round_up_power_2 d) = 2 ^ ?k" if "d <s push_bit 12 1"
  proof -
    have le: "sint d < 4096" using that by (simp add: word_sless_alt)
    then have r: "round_up_power_2 d = 2 ^ ?k" using d by (intro round_up_power_2_bitlen) simp_all
    have k: "?k \<le> 12" by (rule bitlen_le) (use le d in simp)
    then have "(2::nat) ^ ?k \<le> 2 ^ 12" by (intro power_increasing) simp_all
    then have "unat (2 ^ ?k :: int32) = 2 ^ ?k" using unat_below[of "2 ^ ?k"] by simp
    with r k show ?thesis by simp
  qed
  show "round_up_power_2 d \<noteq> 0" if "d <s push_bit 12 1"
    using small[OF that] by (metis unat_0 power_eq_0_iff zero_neq_numeral)
  show "\<exists>b. buffer = word_of_nat b \<and> even b \<and> b \<le> max 4096 (sz + 500)"
  proof (cases "d <s push_bit 12 1 \<and> unat d mod unat (round_up_power_2 d) \<noteq> 0")
    case True
    then have s: "round_up_power_2 d = 2 ^ ?k" "?k \<le> 12" "unat d mod 2 ^ ?k \<noteq> 0" using small by auto
    then have "?k \<noteq> 0" by (intro notI) simp
    then have "even ((2::nat) ^ ?k)" by simp
    moreover have "(2::nat) ^ ?k \<le> 2 ^ 12" using s(2) by (intro power_increasing) simp_all
    moreover have "buffer = word_of_nat (2 ^ ?k)" using True s(1) by (simp add: buffer_def)
    ultimately show ?thesis by (intro exI[of _ "2 ^ ?k"]) simp
  next
    case False
    then have "buffer = round_to_thousand sz" by (simp only: buffer_def if_False)
    with round_to_thousand_even[of sz] show ?thesis by (auto simp: le_max_iff_disj)
  qed
qed

lemma sl_inv_previous [simp]:
  "sl_inv (s\<lparr>previous_size := v\<rparr>) bs = sl_inv s bs" "sl_live (s\<lparr>previous_size := v\<rparr>) bs = sl_live s bs"
  "moved_sl s bs p n sz (s'\<lparr>previous_size := v\<rparr>) q = moved_sl s bs p n sz s' q"
  by (simp_all add: sl_inv_def sl_live_def moved_sl_def)

text \<open>
  \<open>mm_realloc\<close> of a live block for a size other than the previous request's: the block with
  its bytes, or, where \<open>mm_malloc\<close> finds no room, a trap.
\<close>

lemma mm_realloc_sl_moved:
  assumes inv: "sl_inv s bs" and l: "(p, n) \<in> sl_live s bs" and sz: "0 < sz" "sz \<le> 2 ^ 28"
    and prev: "0 \<le> sint (previous_size s)" "word_of_nat sz \<noteq> previous_size s"
  shows "\<exists>r. mm_realloc_sl p sz s = Some r \<and>
    (r = Fault \<and> (\<exists>big\<ge>sz. big \<le> 5 * sz + 2 ^ 15 \<and> no_room_sl s bs big) \<or>
     (\<exists>s' q. r = Done (s', q) \<and> moved_sl s bs p n sz s' q \<and> previous_size s' = word_of_nat sz))"
proof -
  let ?d = "request_diff (previous_size s) sz" and ?new = "ALIGN sz div WORD_SIZE"
  have d: "0 < sint ?d" by (rule request_diff_pos) (use sz prev in simp_all)
  obtain b where b: "(if ?d <s push_bit 12 1 \<and> unat ?d mod unat (round_up_power_2 ?d) \<noteq> 0 then round_up_power_2 ?d
      else round_to_thousand sz) = word_of_nat b" "even b" "b \<le> max 4096 (sz + 500)"
    using realloc_buffer(1)[OF sz d] by blast
  note R = request_words[OF sz]
  have fits: "?new + b < 2 ^ 32" using R(4) b(3) sz(2) by simp
  have w: "?new + b = unat (word_of_nat ?new + word_of_nat b :: uint32)"
    using unat_below[OF fits] by simp
  have w2: "even (?new + b)" "?new \<le> ?new + b" "?new + b \<le> 2 ^ 30 - 5" using R(1,4) b(2,3) sz(2) by simp_all
  have A: "4 * ?new \<le> sz + 7" using ALIGN_div[of sz] sz(2) by (simp add: WORD_SIZE_def)
  have fault: "(?d <s push_bit 12 1 \<and> round_up_power_2 ?d = 0) = False" using realloc_buffer(2)[OF sz d] by blast
  obtain r where r: "mm_realloc_wrapped p sz (word_of_nat b) s = Some r"
      "r = Fault \<and> no_room_sl s bs (4 * (?new + b) + 4) \<or> (\<exists>s' q. r = Done (s', q) \<and> moved_sl s bs p n sz s' q)"
    using mm_realloc_wrapped_moved[OF inv l sz w w2] by blast
  have "mm_realloc_sl p sz s = Some (case r of Fault \<Rightarrow> Fault | Done (s1, p) \<Rightarrow> Done (s1\<lparr>previous_size := word_of_nat sz\<rparr>, p))"
    unfolding mm_realloc_sl_def Let_def request_diff_def[unfolded Let_def, symmetric] fault if_False b(1) r(1)
    by (simp split: outcome.split prod.split)
  moreover have "sz \<le> 4 * (?new + b) + 4" "4 * (?new + b) + 4 \<le> 5 * sz + 2 ^ 15" using R(3) A b(3) by (simp_all add: max_def split: if_splits)
  ultimately show ?thesis using r(2) by (auto split: outcome.splits)
qed

end
