(* ===== verification/SeglistSpec.thy ===== *)
theory SeglistSpec
  imports SeglistRealloc AllocSpec
begin

text \<open>
  What the segregated-list allocator of \<open>labs/malloclab-handout/mm.c\<close> promises its clients:
  initialisation, the best-fit search, \<open>mm_malloc\<close>, \<open>mm_free\<close> and \<open>mm_realloc\<close> against the set
  of allocated blocks, and the record of any client.
\<close>

section \<open>Initialisation\<close>

text \<open>
  \<open>mm_init\<close> on a fresh memory system returns 0 and leaves a well-formed heap: empty free
  lists but for one block of \<open>CHUNK\<close> words between prologue and epilogue, nothing allocated.
\<close>

theorem mm_init_sl_ok:
  assumes "mem_ok (sys s)" and "mem_brk (sys s) = mem_heap (sys s)" and "8 dvd mem_heap (sys s)"
    and "mem_max_addr (sys s) + 4 \<le> 2 ^ 32"
  shows "\<exists>s'. mm_init_sl s = Some (s', 0) \<and> sl_inv s' [(4 * (CHUNK + 2), False)] \<and> sl_live s' [(4 * (CHUNK + 2), False)] = {}"
  using mm_init_sl_blocks[OF assms] by (auto simp: sl_live_def)

text \<open>A concrete start: 20 megabytes at address 4096.\<close>

definition fresh_seglist :: seglist where
  "fresh_seglist = \<lparr>sys = mem_init 4096 \<lparr>mem = (\<lambda>a. 0), mem_heap = 0, mem_brk = 0, mem_max_addr = 0, heap_listp = 0\<rparr>,
     free_lists = 0, heap_ptr = 0, previous_size = 0\<rparr>"

lemma fresh_seglist_ok:
  "mem_ok (sys fresh_seglist)" "mem_brk (sys fresh_seglist) = mem_heap (sys fresh_seglist)"
  "8 dvd mem_heap (sys fresh_seglist)" "mem_max_addr (sys fresh_seglist) + 4 \<le> 2 ^ 32"
  by (simp_all add: fresh_seglist_def mem_init_def mem_ok_def MAX_HEAP_def PTR_ERR_def)

theorem mm_init_sl_ok_witness:
  "\<exists>s'. mm_init_sl fresh_seglist = Some (s', 0) \<and> sl_inv s' [(4 * (CHUNK + 2), False)] \<and> sl_live s' [(4 * (CHUNK + 2), False)] = {}"
  using mm_init_sl_ok[OF fresh_seglist_ok] .

lemma some_seglist: "\<exists>s. sl_inv s [(4104, False)] \<and> previous_size s = 0"
  using mm_init_sl_blocks[OF fresh_seglist_ok] by (auto simp: CHUNK_def WORD_SIZE_def fresh_seglist_def)

section \<open>Allocation\<close>

text \<open>
  C9: on a well-formed heap the search of \<open>find_free_block\<close> terminates and is a best fit: it
  returns a smallest free block that has room, or NULL when no free block has.
\<close>

theorem find_free_block_best_fit:
  assumes "sane fl m B" and "0 < words" and "words < 2 ^ 30"
  shows "(find_free_block fl words m = Some 0 \<and> fitting_free B words = {}) \<or>
    (\<exists>q t. find_free_block fl words m = Some (q - 4) \<and> (q, t) \<in> fitting_free B words \<and>
       (\<forall>(r, u)\<in>fitting_free B words. t \<le> u))"
  using assms by (rule find_free_block_best)

theorem find_free_block_best_fit_witness:
  "\<exists>s. sl_inv s [(4104, False)] \<and> find_free_block (free_lists s) 100 (smem s) = Some (heap_ptr s) \<and>
     find_free_block (free_lists s) 2000 (smem s) = Some 0"
proof -
  obtain s where s: "sl_inv s [(4104, False)]" using some_seglist by blast
  let ?B = "blocks_at (heap_ptr s - 4) (fenced [(4104, False)])"
  have ok: "sane (free_lists s) (smem s) ?B" and h: "heap_ptr s - 4 + 8 = heap_ptr s + 4" using sl_invD(6,9)[OF s] by blast+
  have fit: "fitting_free ?B 100 = {(heap_ptr s + 4, 4104)}" "fitting_free ?B 2000 = {}"
    by (auto simp: fitting_free_def fenced_def h words_of_def)
  show ?thesis
    using find_free_block_best_fit[OF ok, of 100] find_free_block_best_fit[OF ok, of 2000] fit s by (intro exI[of _ s]) auto
qed

text \<open>
  C6: for a request of 1 to \<open>2 ^ 32 - 16\<close> bytes on a well-formed heap \<open>mm_malloc\<close> returns: NULL
  with the heap unchanged exactly when no free block fits and the memory system cannot supply
  the extension, and otherwise an aligned, so far unallocated block with room for the request,
  the only new allocated block, while every payload keeps its bytes and the free lists again
  hold exactly the free blocks, by class and largest first.
\<close>

theorem mm_malloc_sl_contract:
  assumes "sl_inv s bs" and "0 < sz" and "sz \<le> 2 ^ 32 - 16"
  shows "\<exists>s' p. mm_malloc_sl sz s = Some (s', p) \<and>
     (if no_room_sl s bs sz then p = 0 \<and> s' = s else handed_out_sl s bs sz s' p)"
  using assms by (rule mm_malloc_sl_blocks)

lemma seglist_room: "\<not> no_room_sl s [(4104, False)] 100"
proof -
  have "block_bytes 100 \<le> 4104"
    using rounded_bounds[of 100] ALIGN_div[of "rounded 100"] by (simp add: block_bytes_def)
  then show ?thesis by (simp add: no_room_sl_def)
qed

theorem mm_malloc_sl_contract_witness:
  "\<exists>s. sl_inv s [(4104, False)] \<and> (\<exists>s' p. mm_malloc_sl 100 s = Some (s', p) \<and> handed_out_sl s [(4104, False)] 100 s' p)"
proof -
  obtain s where s: "sl_inv s [(4104, False)]" using some_seglist by blast
  show ?thesis using mm_malloc_sl_contract[OF s, of 100] seglist_room s by (intro exI[of _ s]) simp
qed

text \<open>The size of a request of \<open>2 ^ 32 - 7\<close> bytes or more wraps to a block of no words.\<close>

theorem huge_request_wraps:
  assumes "2 ^ 32 - 8 < sz" and "sz < 2 ^ 32"
  shows "ALIGN sz div WORD_SIZE = 0"
proof -
  obtain k where k: "sz = 2 ^ 32 - 8 + k" "0 < k" "k < 8" using assms by (intro that[of "sz - (2 ^ 32 - 8)"]) auto
  have k7: "sz + 7 = (k - 1) + 2 ^ 32" using k by simp
  have "word_of_nat sz + 7 = (word_of_nat (sz + 7) :: uint32)" by simp
  also have "\<dots> = word_of_nat (k - 1)" unfolding k7 of_nat_add by simp
  finally have "ALIGN sz = unat (word_of_nat (k - 1) AND NOT (mask 3) :: uint32)" by (simp add: ALIGN_def mask_eq_exp_minus_1)
  also have "\<dots> = 0" using clear_low_bits[of "k - 1" 3] k by simp
  finally show ?thesis by simp
qed

theorem huge_request_wraps_witness: "ALIGN (2 ^ 32 - 1) div WORD_SIZE = 0"
  using huge_request_wraps[of "2 ^ 32 - 1"] by simp

lemma some_sl_live: "\<exists>s bs p n. sl_inv s bs \<and> (p, n) \<in> sl_live s bs \<and> sl_live s bs = {(p, n)} \<and> 108 \<le> n \<and> previous_size s = 0"
proof -
  obtain s where s: "sl_inv s [(4104, False)]" "previous_size s = 0" using some_seglist by blast
  obtain s' p where "handed_out_sl s [(4104, False)] 100 s' p"
    using mm_malloc_sl_blocks[OF s(1), of 100] seglist_room by auto
  then obtain bs' n where *: "sl_inv s' bs'" "108 \<le> n" "sl_live s' bs' = insert (p, n) (sl_live s [(4104, False)])"
    by (auto simp: handed_out_sl_def)
  moreover have "sl_live s [(4104, False)] = {}" by (simp add: sl_live_def)
  ultimately show ?thesis
    by (intro exI[of _ "s'\<lparr>previous_size := 0\<rparr>"] exI[of _ bs'] exI[of _ p] exI[of _ n]) simp
qed

section \<open>Freeing\<close>

text \<open>
  C7: \<open>mm_free\<close> of an allocated block returns, removes exactly that block, keeps the heap and
  its free lists well formed (merged: no two free neighbours) and every other payload intact.
\<close>

theorem mm_free_sl_contract:
  assumes "sl_inv s bs" and "(p, n) \<in> sl_live s bs"
  shows "\<exists>s' bs'. mm_free_sl p s = Some s' \<and> sl_inv s' bs' \<and> sl_live s' bs' = sl_live s bs - {(p, n)} \<and>
     same_payload (smem s) (smem s') (sl_live s bs - {(p, n)})"
  using mm_free_sl_live[OF assms] by (metis with_mem_simps(1))

theorem mm_free_sl_contract_witness:
  "\<exists>s bs p n. sl_inv s bs \<and> sl_live s bs = {(p, n)} \<and> (\<exists>s' bs'. mm_free_sl p s = Some s' \<and> sl_inv s' bs' \<and> sl_live s' bs' = {})"
proof -
  obtain s bs p n where s: "sl_inv s bs" "(p, n) \<in> sl_live s bs" "sl_live s bs = {(p, n)}" using some_sl_live by blast
  then obtain s' bs' where "mm_free_sl p s = Some s'" "sl_inv s' bs'" "sl_live s' bs' = {}"
    using mm_free_sl_contract[OF s(1,2)] by auto
  with s show ?thesis by blast
qed

section \<open>Reallocation\<close>

text \<open>
  C8: \<open>mm_realloc\<close> of an allocated block, for a size other than the previous request's, returns
  a block with room for the size that starts with the old bytes, whether it stays, grows over
  free neighbours or moves, and leaves every other payload alone; it never returns NULL: when
  \<open>mm_malloc\<close> finds no room it traps.
\<close>

theorem mm_realloc_sl_contract:
  assumes "sl_inv s bs" and "(p, n) \<in> sl_live s bs" and "0 < sz" and "sz \<le> 2 ^ 28"
    and "0 \<le> sint (previous_size s)" and "word_of_nat sz \<noteq> previous_size s"
  shows "\<exists>r. mm_realloc_sl p sz s = Some r \<and>
    (r = Fault \<and> (\<exists>big\<ge>sz. big \<le> 5 * sz + 2 ^ 15 \<and> no_room_sl s bs big) \<or>
     (\<exists>s' q. r = Done (s', q) \<and> moved_sl s bs p n sz s' q \<and> previous_size s' = word_of_nat sz))"
  using assms by (rule mm_realloc_sl_moved)

theorem mm_realloc_sl_contract_witness:
  "\<exists>s bs p n r. sl_inv s bs \<and> (p, n) \<in> sl_live s bs \<and> mm_realloc_sl p 200 s = Some r \<and>
    (r = Fault \<or> (\<exists>s' q. r = Done (s', q) \<and> moved_sl s bs p n 200 s' q))"
proof -
  obtain s bs p n where s: "sl_inv s bs" "(p, n) \<in> sl_live s bs" "previous_size s = 0" using some_sl_live by blast
  have "\<exists>r. mm_realloc_sl p 200 s = Some r \<and>
    (r = Fault \<and> (\<exists>big\<ge>200. big \<le> 5 * 200 + 2 ^ 15 \<and> no_room_sl s bs big) \<or>
     (\<exists>s' q. r = Done (s', q) \<and> moved_sl s bs p n 200 s' q \<and> previous_size s' = word_of_nat 200))"
    by (rule mm_realloc_sl_contract[OF s(1,2)]) (simp_all add: s(3))
  with s(1,2) show ?thesis by blast
qed

section \<open>Clients\<close>

interpretation segregated: allocator sl_inv sl_live smem with_mem mm_malloc_sl mm_free_sl "2 ^ 32 - 16"
proof
  fix s bs sz assume inv: "sl_inv s bs" "0 < sz" "sz \<le> 2 ^ 32 - (16 :: nat)"
  show "\<exists>s' p. mm_malloc_sl sz s = Some (s', p) \<and> (p = 0 \<and> s' = s \<or>
        p \<noteq> 0 \<and> (\<exists>bs' n. sl_inv s' bs' \<and> sz + 8 \<le> n \<and> sl_live s' bs' = insert (p, n) (sl_live s bs) \<and> (\<forall>k. (p, k) \<notin> sl_live s bs) \<and>
          same_payload (smem s) (smem s') (sl_live s bs)))"
    using mm_malloc_sl_blocks[OF inv] unfolding handed_out_sl_def by (metis (no_types, lifting))
next
  fix s bs p n assume "sl_inv s bs" "(p, n) \<in> sl_live s bs"
  then show "\<exists>s' bs'. mm_free_sl p s = Some s' \<and> sl_inv s' bs' \<and> sl_live s' bs' = sl_live s bs - {(p, n)} \<and>
      same_payload (smem s) (smem s') (sl_live s bs - {(p, n)})"
    using mm_free_sl_live by (metis with_mem_simps(1))
next
  fix s bs p n m assume "sl_inv s bs" "(p, n) \<in> sl_live s bs" "agree_outside p (p + n - 8) (smem s) m"
  then show "sl_inv (with_mem m s) bs \<and> sl_live (with_mem m s) bs = sl_live s bs"
    using payload_write_sl(1) by simp
qed (simp_all add: sl_live_disjoint)

text \<open>
  C10: whatever sequence of requests, releases and writes to its blocks a client makes after
  \<open>mm_init\<close>, every call returns, the client's blocks never overlap, and each still holds the
  bytes the client last wrote there.
\<close>

theorem mm_client_record_sl:
  assumes "mem_ok (sys s)" and "mem_brk (sys s) = mem_heap (sys s)" and "8 dvd mem_heap (sys s)"
    and "mem_max_addr (sys s) + 4 \<le> 2 ^ 32"
  shows "\<exists>s0. mm_init_sl s = Some (s0, 0) \<and>
    (\<exists>s' own. client_run smem with_mem mm_malloc_sl mm_free_sl (2 ^ 32 - 16) es (s0, \<lambda>_. None) = Some (s', own) \<and>
      holds_in (smem s') own \<and> owned_apart own)"
  using mm_init_sl_blocks[OF assms] segregated.client_record by blast

theorem mm_client_record_sl_witness:
  "\<exists>s0. mm_init_sl fresh_seglist = Some (s0, 0) \<and>
    (\<exists>s' own. client_run smem with_mem mm_malloc_sl mm_free_sl (2 ^ 32 - 16)
      [Request 100, Request 20, Store 4312 3 7, Release 4312, Request 50] (s0, \<lambda>_. None) = Some (s', own) \<and>
      holds_in (smem s') own \<and> owned_apart own)"
  by (rule mm_client_record_sl[OF fresh_seglist_ok])

end
