(* ===== verification/Tsh.thy ===== *)
theory Tsh
  imports CString
begin

text \<open>
  The shell lab, \<open>labs/shlab-handout/tsh.c\<close>: the job list and its operations, the command
  parser, the built-in commands, \<open>eval\<close> and the signal handlers. What the shell prints and
  the signals it sends are collected in the order they happen; the results of \<open>waitpid\<close>,
  \<open>fork\<close> and \<open>access\<close> are arguments.
\<close>

section \<open>The job list\<close>

definition MAXJOBS :: nat where "MAXJOBS = 16"

datatype job_state = UNDEF | FG | BG | ST

record job =
  pid :: int
  jid :: int
  state :: job_state
  cmdline :: string

datatype event = Print string | Kill int int

text \<open>The global variables of the shell, and what it has done to the outside.\<close>

record shell =
  jobs :: "job list"
  nextjid :: int
  verbose_sh :: bool
  sigchld_blocked :: bool
  events :: "event list"

definition emit :: "event \<Rightarrow> shell \<Rightarrow> shell" where
  "emit e sh = sh\<lparr>events := events sh @ [e]\<rparr>"

definition clearjob :: "job \<Rightarrow> job" where
  "clearjob j = j\<lparr>pid := 0, jid := 0, state := UNDEF, cmdline := []\<rparr>"

definition initjobs :: "job list \<Rightarrow> job list" where
  "initjobs js = map clearjob js"

definition maxjid :: "job list \<Rightarrow> int" where
  "maxjid js = fold (\<lambda>j m. if jid j > m then jid j else m) js 0"

text \<open>The loops that stop at the first entry with a property.\<close>

fun first_idx :: "('a \<Rightarrow> bool) \<Rightarrow> 'a list \<Rightarrow> nat option" where
  "first_idx P [] = None"
| "first_idx P (x # xs) = (if P x then Some 0 else map_option Suc (first_idx P xs))"

text \<open>
  \<open>addjob\<close> copies the command line with \<open>strcpy\<close> into the \<open>MAXLINE\<close> bytes of the entry. Its only
  caller is \<open>eval\<close>, whose command line \<open>main\<close> has read with \<open>fgets\<close> into a buffer of that size,
  so it fits; a longer one is not in the domain of the definition.
\<close>

definition addjob :: "int \<Rightarrow> job_state \<Rightarrow> string \<Rightarrow> shell \<Rightarrow> shell \<times> int" where
  "addjob p st cmd sh =
     (if p < 1 then (sh, 0)
      else case first_idx (\<lambda>j. pid j = 0) (jobs sh) of
        Some i \<Rightarrow>
          (let nj = nextjid sh;
               j = (jobs sh ! i)\<lparr>pid := p, state := st, jid := nj, cmdline := cmd\<rparr>;
               nj' = (if nj + 1 > int MAXJOBS then 1 else nj + 1);
               sh' = sh\<lparr>jobs := (jobs sh)[i := j], nextjid := nj'\<rparr>
           in (if verbose_sh sh
               then emit (Print (''Added job ['' @ int_to_dec nj @ ''] '' @ int_to_dec p @ '' '' @ cmd @ [LF])) sh'
               else sh', 1))
      | None \<Rightarrow> (emit (Print (''Tried to create too many jobs'' @ [LF])) sh, 0))"

definition deletejob :: "int \<Rightarrow> shell \<Rightarrow> shell \<times> int" where
  "deletejob p sh =
     (if p < 1 then (sh, 0)
      else case first_idx (\<lambda>j. pid j = p) (jobs sh) of
        Some i \<Rightarrow>
          (let js = (jobs sh)[i := clearjob (jobs sh ! i)]
           in (sh\<lparr>jobs := js, nextjid := maxjid js + 1\<rparr>, 1))
      | None \<Rightarrow> (sh, 0))"

definition fgpid :: "job list \<Rightarrow> int" where
  "fgpid js = (case first_idx (\<lambda>j. state j = FG) js of Some i \<Rightarrow> pid (js ! i) | None \<Rightarrow> 0)"

text \<open>A pointer into the job list is the index of the entry.\<close>

definition getjobpid :: "job list \<Rightarrow> int \<Rightarrow> nat option" where
  "getjobpid js p = (if p < 1 then None else first_idx (\<lambda>j. pid j = p) js)"

definition getjobjid :: "job list \<Rightarrow> int \<Rightarrow> nat option" where
  "getjobjid js i = (if i < 1 then None else first_idx (\<lambda>j. jid j = i) js)"

definition pid2jid :: "job list \<Rightarrow> int \<Rightarrow> int" where
  "pid2jid js p =
     (if p < 1 then 0 else case first_idx (\<lambda>j. pid j = p) js of Some i \<Rightarrow> jid (js ! i) | None \<Rightarrow> 0)"

fun state_code :: "job_state \<Rightarrow> int" where
  "state_code UNDEF = 0" | "state_code FG = 1" | "state_code BG = 2" | "state_code ST = 3"

definition list_entry :: "nat \<Rightarrow> job \<Rightarrow> string" where
  "list_entry i j = ''['' @ int_to_dec (jid j) @ ''] ('' @ int_to_dec (pid j) @ '') '' @
     (case state j of BG \<Rightarrow> ''Running '' | FG \<Rightarrow> ''Foreground '' | ST \<Rightarrow> ''Stopped ''
      | UNDEF \<Rightarrow> ''listjobs: Internal error: job['' @ int_to_dec (int i) @ ''].state='' @ int_to_dec (state_code (state j)) @ '' '')
     @ cmdline j"

definition listjobs :: "shell \<Rightarrow> shell" where
  "listjobs sh = for_loop 0 (length (jobs sh))
     (\<lambda>i sh. if pid (jobs sh ! i) \<noteq> 0 then emit (Print (list_entry i (jobs sh ! i))) sh else sh) sh"

definition init_shell :: shell where
  "init_shell = \<lparr>jobs = initjobs (replicate MAXJOBS \<lparr>pid = 0, jid = 0, state = UNDEF, cmdline = []\<rparr>),
     nextjid = 1, verbose_sh = False, sigchld_blocked = False, events = []\<rparr>"

section \<open>The command line\<close>

definition QUOTE :: char where "QUOTE = char_of (39::nat)"
definition SPACE :: char where "SPACE = CHR '' ''"

text \<open>
  The loop over the buffer: the next argument starts after spaces, or after a quote, and ends
  at the next space, or quote; where there is no such delimiter the loop ends.
\<close>

function parse_args :: "string \<Rightarrow> string list" where
  "parse_args buf =
     (let buf = dropWhile (\<lambda>c. c = SPACE) buf;
          (buf, delim) = (case buf of [] \<Rightarrow> (buf, SPACE) | c # cs \<Rightarrow> if c = QUOTE then (cs, QUOTE) else (buf, SPACE))
      in case strchr buf delim of None \<Rightarrow> []
         | Some i \<Rightarrow> take i buf # parse_args (drop (Suc i) buf))"
  by pat_completeness auto

termination
proof (relation "measure length")
  fix buf x y :: string and z delim :: char and xa :: "string \<times> char" and i
  assume x: "x = dropWhile (\<lambda>c. c = SPACE) buf"
    and xa: "xa = (case x of [] \<Rightarrow> (x, SPACE) | c # cs \<Rightarrow> if c = QUOTE then (cs, QUOTE) else (x, SPACE))"
    and y: "(y, delim) = xa" and i: "strchr y delim = Some i"
  have "length x \<le> length buf" unfolding x by (rule length_dropWhile_le)
  moreover have "length y \<le> length x" using xa y by (auto split: list.splits if_splits)
  ultimately show "(drop (Suc i) y, buf) \<in> measure length" using strchr_length[OF i] by simp
qed simp

declare parse_args.simps [simp del]

text \<open>
  \<open>parseline\<close> with its two arrays: the copy of the line in \<open>array[MAXLINE]\<close>, with its NUL, and
  \<open>argv[MAXARGS]\<close>, with the closing NULL. A longer line or more arguments are written past the end,
  and of an empty line the byte in front of \<open>array\<close>: \<open>Fault\<close>. Otherwise it is the returned flag and the arguments up to the NULL.
\<close>

definition MAXLINE_tsh :: nat where "MAXLINE_tsh = 1024"
definition MAXARGS :: nat where "MAXARGS = 128"

definition parseline :: "string \<Rightarrow> (bool \<times> string list) outcome" where
  "parseline line =
     (let array = takeWhile (\<lambda>c. c \<noteq> CHR 0x00) line
      in if MAXLINE_tsh \<le> length array \<or> array = [] then Fault
         else let argv = parse_args (butlast array @ [SPACE])
              in if MAXARGS \<le> length argv then Fault
                 else if argv = [] then Done (True, [])
                 else let bg = (case last argv of [] \<Rightarrow> False | c # _ \<Rightarrow> c = CHR ''&'')
                      in Done (bg, if bg then butlast argv else argv))"

section \<open>Built-in commands\<close>

text \<open>
  \<open>strtok(s, "%")\<close>: the text between leading percent signs and the next one, or NULL; the
  string itself is cut after the token.
\<close>

definition strtok_percent :: "string \<Rightarrow> (string \<times> string) option" where
  "strtok_percent s =
     (let lead = takeWhile (\<lambda>c. c = CHR ''%'') s;
          tok = takeWhile (\<lambda>c. c \<noteq> CHR ''%'') (dropWhile (\<lambda>c. c = CHR ''%'') s)
      in if dropWhile (\<lambda>c. c = CHR ''%'') s = [] then None else Some (tok, lead @ tok))"

text \<open>
  The end of \<open>do_bgfg\<close>, with the job found: \<open>Some p\<close> means that the shell goes on to wait
  for \<open>p\<close> in \<open>waitfg\<close>.
\<close>

definition SIGCONT :: int where "SIGCONT = 18"
definition SIGINT :: int where "SIGINT = 2"
definition SIGTSTP :: int where "SIGTSTP = 20"

definition resume_job :: "string \<Rightarrow> int \<Rightarrow> int \<Rightarrow> nat \<Rightarrow> shell \<Rightarrow> shell \<times> int option" where
  "resume_job first_cmd ji p i sh =
     (let sh = emit (Kill (- p) SIGCONT) sh
      in if first_cmd = ''bg'' then
           let sh = sh\<lparr>jobs := (jobs sh)[i := (jobs sh ! i)\<lparr>state := BG\<rparr>]\<rparr>
           in (emit (Print (''['' @ int_to_dec ji @ ''] ('' @ int_to_dec p @ '') '' @ cmdline (jobs sh ! i))) sh, None)
         else
           (sh\<lparr>jobs := (jobs sh)[i := (jobs sh ! i)\<lparr>state := FG\<rparr>]\<rparr>, Some (pid (jobs sh ! i))))"

definition do_bgfg :: "string list \<Rightarrow> shell \<Rightarrow> (shell \<times> int option) outcome" where
  "do_bgfg argv sh =
     (case argv of [] \<Rightarrow> Fault
      | [first_cmd] \<Rightarrow> Done (emit (Print (first_cmd @ '' command requires PID or %jobid argument'' @ [LF])) sh, None)
      | first_cmd # second_cmd # _ \<Rightarrow>
          if take 1 second_cmd = ''%'' then
            (case strtok_percent second_cmd of None \<Rightarrow> Fault
             | Some (str_number, second_cmd) \<Rightarrow>
                 if \<not> list_all is_digit str_number then
                   Done (emit (Print (first_cmd @ '' argument must be a PID or %jobid'' @ [LF])) sh, None)
                 else let ji = atoi str_number
                      in case getjobjid (jobs sh) ji of
                           None \<Rightarrow> Done (emit (Print (second_cmd @ '': No such job'' @ [LF])) sh, None)
                         | Some i \<Rightarrow> Done (resume_job first_cmd ji (pid (jobs sh ! i)) i sh))
          else if \<not> list_all is_digit second_cmd then
            Done (emit (Print (first_cmd @ '' argument must be a PID or %jobid'' @ [LF])) sh, None)
          else let p = atoi second_cmd
               in case getjobpid (jobs sh) p of
                    None \<Rightarrow> Done (emit (Print (''('' @ int_to_dec p @ ''): No such process'' @ [LF])) sh, None)
                  | Some i \<Rightarrow> Done (resume_job first_cmd 0 p i sh))"

datatype builtin = Quit int | Ran "shell \<times> int option" | NotBuiltin | BadPointer

definition builtin_cmd :: "string list \<Rightarrow> shell \<Rightarrow> builtin" where
  "builtin_cmd argv sh =
     (case argv of [] \<Rightarrow> BadPointer
      | first_cmd # _ \<Rightarrow>
          if first_cmd = ''quit'' then Quit 0
          else if first_cmd = ''jobs'' then Ran (listjobs sh, None)
          else if first_cmd = ''bg'' \<or> first_cmd = ''fg'' then
            (case do_bgfg argv sh of Fault \<Rightarrow> BadPointer | Done r \<Rightarrow> Ran r)
          else NotBuiltin)"

section \<open>Evaluation\<close>

text \<open>
  What \<open>eval\<close> finds in its uninitialised variables \<open>args\<close> (up to a NULL) and \<open>first_cmd\<close>,
  what the pointer \<open>args[0]\<close> is as an \<open>int\<close>, and what the system calls return.
\<close>

record eval_env =
  uninit_args :: "string list"
  args0_as_int :: int32
  uninit_first_cmd :: string
  access_result :: int
  fork_result :: int

datatype eval_result = Exited int | Crashed | InParent shell "int option" | InChild "string list"

text \<open>
  \<open>bg_or_not = args[0]\<close> is a pointer cut to the 32 bits of an \<open>int\<close>, which can be 0 for a pointer
  that is not NULL.
\<close>

definition eval_cmd :: "eval_env \<Rightarrow> string \<Rightarrow> shell \<Rightarrow> eval_result" where
  "eval_cmd env cmd sh =
     (let bg_or_not = args0_as_int env
      in case builtin_cmd (uninit_args env) sh of
           Quit n \<Rightarrow> Exited n
         | BadPointer \<Rightarrow> Crashed
         | Ran (sh, w) \<Rightarrow> InParent sh w
         | NotBuiltin \<Rightarrow>
             if access_result env = - 1 then
               InParent (emit (Print (uninit_first_cmd env @ '': Command not found'' @ [LF])) sh) None
             else
               let sh = sh\<lparr>sigchld_blocked := True\<rparr>; p = fork_result env
               in if p > 0 then
                    let st = (if bg_or_not \<noteq> 0 then BG else FG);
                        sh = fst (addjob p st cmd sh);
                        sh = sh\<lparr>sigchld_blocked := False\<rparr>
                    in if st = FG then InParent sh (Some p)
                       else InParent (emit (Print (''['' @ int_to_dec (maxjid (jobs sh)) @ ''] ('' @ int_to_dec p @ '') '' @ cmd)) sh) None
                  else if p = 0 then InChild (uninit_args env)
                  else InParent sh None)"

text \<open>\<open>waitfg\<close> sleeps while \<open>p\<close> is the foreground job; \<open>sigma n\<close> is the shell after \<open>n\<close> seconds.\<close>

partial_function (option) waitfg :: "int \<Rightarrow> (nat \<Rightarrow> shell) \<Rightarrow> nat \<Rightarrow> nat option" where
  "waitfg p sigma n = (if p = fgpid (jobs (sigma n)) then waitfg p sigma (Suc n) else Some n)"

section \<open>Signal handlers\<close>

datatype wstatus = WExited | WSignaled int | WStopped int

definition handle_child :: "int \<times> wstatus \<Rightarrow> shell \<Rightarrow> shell" where
  "handle_child r sh =
     (case r of (p, st) \<Rightarrow>
        (case st of
           WExited \<Rightarrow> fst (deletejob p sh)
         | WSignaled sig \<Rightarrow>
             fst (deletejob p (emit (Print (''Job ['' @ int_to_dec (pid2jid (jobs sh) p) @ ''] ('' @ int_to_dec p @
               '') terminated by signal '' @ int_to_dec sig @ [LF])) sh))
         | WStopped sig \<Rightarrow>
             (let sh = emit (Print (''Job ['' @ int_to_dec (pid2jid (jobs sh) p) @ ''] ('' @ int_to_dec p @
                '') stopped by signal '' @ int_to_dec sig @ [LF])) sh
              in case getjobpid (jobs sh) p of None \<Rightarrow> sh
                 | Some i \<Rightarrow> sh\<lparr>jobs := (jobs sh)[i := (jobs sh ! i)\<lparr>state := ST\<rparr>]\<rparr>)))"

text \<open>
  \<open>waitpid\<close> returns a child's pid and status, or a value that is not positive (\<open>None\<close>). The
  list holds the results of successive calls; after its end \<open>waitpid\<close> has nothing to report.
\<close>

type_synonym wait_result = "(int \<times> wstatus) option"

fun reap_loop :: "wait_result list \<Rightarrow> shell \<Rightarrow> wait_result list \<times> shell" where
  "reap_loop [] sh = ([], sh)"
| "reap_loop (None # ws) sh = (ws, sh)"
| "reap_loop (Some r # ws) sh = reap_loop ws (handle_child r sh)"

lemma reap_loop_length: "length (fst (reap_loop ws sh)) \<le> length ws"
  by (induction ws sh rule: reap_loop.induct) auto

function sigchld_handler :: "wait_result list \<Rightarrow> shell \<Rightarrow> shell" where
  "sigchld_handler [] sh = sh"
| "sigchld_handler (None # ws) sh = sh"
| "sigchld_handler (Some r # ws) sh = (case reap_loop ws sh of (ws', sh') \<Rightarrow> sigchld_handler ws' sh')"
  by pat_completeness auto
termination
  by (relation "measure (length \<circ> fst)") (auto simp: less_Suc_eq_le reap_loop_length)

definition sigint_handler :: "int \<Rightarrow> shell \<Rightarrow> shell" where
  "sigint_handler sig sh = (let fpid = fgpid (jobs sh) in if fpid \<noteq> 0 then emit (Kill (- fpid) sig) sh else sh)"

definition sigtstp_handler :: "int \<Rightarrow> shell \<Rightarrow> shell outcome" where
  "sigtstp_handler sig sh =
     (let fpid = fgpid (jobs sh)
      in if fpid \<noteq> 0 then
           (case getjobpid (jobs sh) fpid of None \<Rightarrow> Fault
            | Some i \<Rightarrow> if state (jobs sh ! i) = ST then Done sh else Done (emit (Kill (- fpid) sig) sh))
         else Done sh)"

end
