(* ===== verification/TshJobs.thy ===== *)
theory TshJobs
  imports Tsh
begin

text \<open>
  Properties of the shell: the job list as a table indexed by process id with the invariant
  its operations keep, the command parser as the inverse of joining words, and the places
  where the shell departs from its comments (the handler that forgets the first child, the
  job ids that are given out twice, the \<open>eval\<close> that never looks at the command line).
\<close>

section \<open>Tables indexed by process id\<close>

text \<open>
  What the handlers rely on: deleting a key keeps the table well formed, removes that key and
  nothing else.
\<close>

locale keyed_table =
  fixes inv :: "'s \<Rightarrow> bool" and look :: "'s \<Rightarrow> int \<Rightarrow> 'v option" and del :: "int \<Rightarrow> 's \<Rightarrow> 's"
  assumes inv_del: "inv s \<Longrightarrow> inv (del k s)"
    and look_del: "inv s \<Longrightarrow> look (del k s) q = (if q = k then None else look s q)"
begin

lemma del_all:
  assumes "inv s"
  shows "inv (fold del ks s) \<and> look (fold del ks s) q = (if q \<in> set ks then None else look s q)"
  using assms
proof (induction ks arbitrary: s)
  case (Cons k ks)
  then show ?case using inv_del[OF Cons.prems, of k] look_del[OF Cons.prems, of k q] by auto
qed simp

end

section \<open>The job list as a table\<close>

lemma first_idx_Some: "first_idx P xs = Some i \<Longrightarrow> i < length xs \<and> P (xs ! i) \<and> (\<forall>k<i. \<not> P (xs ! k))"
proof (induction xs arbitrary: i)
  case (Cons x xs)
  then show ?case by (auto split: if_splits simp: nth_Cons' gr0_conv_Suc less_Suc_eq_0_disj)
qed simp

lemma first_idx_None: "first_idx P xs = None \<longleftrightarrow> (\<forall>x\<in>set xs. \<not> P x)"
  by (induction xs) auto

definition slot_ok :: "job \<Rightarrow> bool" where
  "slot_ok j \<longleftrightarrow> (pid j = 0 \<and> jid j = 0 \<and> state j = UNDEF \<and> cmdline j = []) \<or> (0 < pid j \<and> 0 < jid j \<and> state j \<noteq> UNDEF)"

definition jobs_wf :: "job list \<Rightarrow> bool" where
  "jobs_wf js \<longleftrightarrow> length js = MAXJOBS \<and> list_all slot_ok js \<and>
     (\<forall>i<length js. \<forall>k<length js. pid (js ! i) \<noteq> 0 \<and> pid (js ! i) = pid (js ! k) \<longrightarrow> i = k)"

definition shell_wf :: "shell \<Rightarrow> bool" where
  "shell_wf sh \<longleftrightarrow> jobs_wf (jobs sh) \<and> 1 \<le> nextjid sh"

definition lookup :: "shell \<Rightarrow> int \<Rightarrow> job option" where
  "lookup sh p = map_option (\<lambda>i. jobs sh ! i) (getjobpid (jobs sh) p)"

lemma lookup_iff:
  assumes "jobs_wf (jobs sh)"
  shows "lookup sh p = Some j \<longleftrightarrow> 0 < p \<and> (\<exists>i<length (jobs sh). jobs sh ! i = j \<and> pid j = p)"
proof
  assume "lookup sh p = Some j"
  then show "0 < p \<and> (\<exists>i<length (jobs sh). jobs sh ! i = j \<and> pid j = p)"
    by (auto simp: lookup_def getjobpid_def split: if_splits dest: first_idx_Some)
next
  assume "0 < p \<and> (\<exists>i<length (jobs sh). jobs sh ! i = j \<and> pid j = p)"
  then obtain i where i: "0 < p" "i < length (jobs sh)" "jobs sh ! i = j" "pid j = p" by blast
  then have "first_idx (\<lambda>j. pid j = p) (jobs sh) \<noteq> None" unfolding first_idx_None using nth_mem by blast
  then obtain k where k: "first_idx (\<lambda>j. pid j = p) (jobs sh) = Some k" by blast
  from first_idx_Some[OF k] have "k < length (jobs sh)" "pid (jobs sh ! k) = p" by auto
  with i assms have "i = k" unfolding jobs_wf_def by (metis less_irrefl)
  with k i show "lookup sh p = Some j" by (simp add: lookup_def getjobpid_def)
qed

lemma lookup_update:
  assumes wf: "jobs_wf (jobs sh)" "jobs_wf ((jobs sh)[i := j])" and i: "i < length (jobs sh)"
    and js: "jobs sh' = (jobs sh)[i := j]" and old: "pid (jobs sh ! i) = p \<or> pid (jobs sh ! i) = 0 \<and> 0 < pid j"
    and new: "pid j = 0 \<or> pid j = p"
  shows "lookup sh' q = (if q = p then (if 0 < pid j then Some j else None) else lookup sh q)"
proof (cases "q = p")
  case True
  show ?thesis
  proof (cases "0 < pid j")
    case pos: True
    have "lookup sh' p = Some j"
      by (subst lookup_iff) (use wf js i new pos in \<open>auto intro!: exI[of _ i]\<close>)
    with True pos show ?thesis by simp
  next
    case False
    have "lookup sh' p \<noteq> Some j'" for j'
    proof
      assume "lookup sh' p = Some j'"
      then obtain k where k: "0 < p" "k < length (jobs sh)" "(jobs sh)[i := j] ! k = j'" "pid j' = p"
        using lookup_iff[of sh' p j'] wf(2) js by auto
      show False
      proof (cases "k = i")
        case True
        then show False using k i False new by simp
      next
        case neq: False
        then have "pid (jobs sh ! k) = p" using k by simp
        moreover have "pid (jobs sh ! i) = p" using old False by blast
        ultimately show False using wf(1) k(1,2) i neq unfolding jobs_wf_def by (metis less_irrefl)
      qed
    qed
    with True False show ?thesis by auto
  qed
next
  case False
  have same: "(\<exists>k<length (jobs sh). (jobs sh)[i := j] ! k = j' \<and> pid j' = q) \<longleftrightarrow>
      (\<exists>k<length (jobs sh). jobs sh ! k = j' \<and> pid j' = q)" if "0 < q" for j'
  proof -
    have "pid j \<noteq> q" "pid (jobs sh ! i) \<noteq> q" using new old False that by auto
    then have "((jobs sh)[i := j] ! k = j' \<and> pid j' = q) = (jobs sh ! k = j' \<and> pid j' = q)"
      if "k < length (jobs sh)" for k
      using that by (cases "k = i") auto
    then show ?thesis by blast
  qed
  have "lookup sh' q = Some j' \<longleftrightarrow> lookup sh q = Some j'" for j'
    unfolding lookup_iff[OF wf(1)] using lookup_iff[of sh' q j'] wf(2) js same by auto
  then show ?thesis using False by (metis option.exhaust)
qed

text \<open>Replacing an entry keeps the list well formed when no other entry has its process id.\<close>

lemma jobs_wf_update:
  assumes "jobs_wf js" and "slot_ok j" and "\<forall>k<length js. k \<noteq> i \<longrightarrow> pid j \<noteq> 0 \<longrightarrow> pid (js ! k) \<noteq> pid j"
  shows "jobs_wf (js[i := j])"
proof (cases "i < length js")
  case True
  have "\<forall>a<length js. \<forall>b<length js. pid (js[i := j] ! a) \<noteq> 0 \<and> pid (js[i := j] ! a) = pid (js[i := j] ! b) \<longrightarrow> a = b"
  proof (intro allI impI)
    fix a b assume ab: "a < length js" "b < length js"
      "pid (js[i := j] ! a) \<noteq> 0 \<and> pid (js[i := j] ! a) = pid (js[i := j] ! b)"
    consider "a = i" "b = i" | "a = i" "b \<noteq> i" | "a \<noteq> i" "b = i" | "a \<noteq> i" "b \<noteq> i" by blast
    then show "a = b"
    proof cases
      case 2
      with ab True have "pid j \<noteq> 0" "pid j = pid (js ! b)" by simp_all
      with assms(3) ab(2) 2(2) show ?thesis by force
    next
      case 3
      with ab True have "pid j \<noteq> 0" "pid (js ! a) = pid j" by simp_all
      with assms(3) ab(1) 3(1) show ?thesis by force
    next
      case 4
      with ab have "pid (js ! a) \<noteq> 0 \<and> pid (js ! a) = pid (js ! b)" by simp
      with assms(1) ab(1,2) show ?thesis unfolding jobs_wf_def by blast
    qed simp
  qed
  moreover have "list_all slot_ok (js[i := j])"
    by (rule list_all_update) (use assms(1,2) in \<open>simp_all add: jobs_wf_def\<close>)
  moreover have "length js = MAXJOBS" using assms(1) unfolding jobs_wf_def by blast
  ultimately show ?thesis unfolding jobs_wf_def length_list_update by blast
qed (simp add: assms(1) list_update_beyond)

lemma maxjid_ge: "j \<in> set js \<Longrightarrow> jid j \<le> maxjid js" and maxjid_nonneg: "0 \<le> maxjid js"
proof -
  let ?F = "fold (\<lambda>j m. if jid j > m then jid j else m)"
  have fold: "m \<le> ?F js m \<and> (\<forall>j\<in>set js. jid j \<le> ?F js m)" for m
  proof (induction js arbitrary: m)
    case (Cons a js)
    define k where "k = (if jid a > m then jid a else m)"
    have eq: "?F (a # js) m = ?F js k" and k: "m \<le> k" "jid a \<le> k" by (simp_all add: k_def)
    have "k \<le> ?F js k" "\<forall>j\<in>set js. jid j \<le> ?F js k" using Cons.IH[of k] by blast+
    with k show ?case unfolding eq list.set by (blast intro: order_trans)
  qed simp
  show "j \<in> set js \<Longrightarrow> jid j \<le> maxjid js" and "0 \<le> maxjid js"
    using fold[of 0] by (auto simp: maxjid_def)
qed


lemma slot_okD: "slot_ok j \<Longrightarrow> 0 < pid j \<or> pid j = 0" "slot_ok j \<Longrightarrow> 0 \<le> jid j"
  by (auto simp: slot_ok_def)

lemma jobs_wfD:
  assumes "jobs_wf js"
  shows "length js = MAXJOBS" and "i < length js \<Longrightarrow> slot_ok (js ! i)"
    and "i < length js \<Longrightarrow> k < length js \<Longrightarrow> pid (js ! i) \<noteq> 0 \<Longrightarrow> pid (js ! i) = pid (js ! k) \<Longrightarrow> i = k"
  using assms unfolding jobs_wf_def list_all_length by blast+

lemma lookup_None_pid:
  assumes "jobs_wf (jobs sh)" and "lookup sh p = None" and "0 < p" and "k < length (jobs sh)"
  shows "pid (jobs sh ! k) \<noteq> p"
  using lookup_iff[OF assms(1), of p "jobs sh ! k"] assms(2-4) by auto

section \<open>Adding and deleting\<close>

definition new_job :: "int \<Rightarrow> job_state \<Rightarrow> string \<Rightarrow> shell \<Rightarrow> job" where
  "new_job p st cmd sh = \<lparr>pid = p, jid = nextjid sh, state = st, cmdline = cmd\<rparr>"

lemma job_fields: "(j::job)\<lparr>pid := p, state := st, jid := n, cmdline := cmd\<rparr> = \<lparr>pid = p, jid = n, state = st, cmdline = cmd\<rparr>"
  by (cases j) simp

lemma addjob_free:
  assumes "0 < p" and "first_idx (\<lambda>j. pid j = 0) (jobs sh) = Some i"
  shows "jobs (fst (addjob p st cmd sh)) = (jobs sh)[i := new_job p st cmd sh]"
    and "nextjid (fst (addjob p st cmd sh)) = (if nextjid sh + 1 > int MAXJOBS then 1 else nextjid sh + 1)"
    and "snd (addjob p st cmd sh) = 1"
  using assms by (simp_all add: addjob_def Let_def emit_def new_job_def job_fields)

lemma addjob_full:
  assumes "first_idx (\<lambda>j. pid j = 0) (jobs sh) = None"
  shows "jobs (fst (addjob p st cmd sh)) = jobs sh" "nextjid (fst (addjob p st cmd sh)) = nextjid sh"
    and "snd (addjob p st cmd sh) = 0"
  using assms by (simp_all add: addjob_def emit_def)

lemma lookup_cong: "jobs sh' = jobs sh \<Longrightarrow> lookup sh' q = lookup sh q"
  by (simp add: lookup_def)

lemma addjob_wf:
  assumes wf: "shell_wf sh" and p: "0 < p" "lookup sh p = None" and st: "st \<noteq> UNDEF"
  shows "shell_wf (fst (addjob p st cmd sh))"
proof (cases "first_idx (\<lambda>j. pid j = 0) (jobs sh)")
  case None
  with wf show ?thesis by (simp add: shell_wf_def addjob_full)
next
  case (Some i)
  have "jobs_wf ((jobs sh)[i := new_job p st cmd sh])"
  proof (rule jobs_wf_update)
    show "jobs_wf (jobs sh)" using wf by (simp add: shell_wf_def)
    show "slot_ok (new_job p st cmd sh)" using p(1) st wf by (simp add: slot_ok_def new_job_def shell_wf_def)
    show "\<forall>k<length (jobs sh). k \<noteq> i \<longrightarrow> pid (new_job p st cmd sh) \<noteq> 0 \<longrightarrow> pid (jobs sh ! k) \<noteq> pid (new_job p st cmd sh)"
      using lookup_None_pid p wf by (simp add: new_job_def shell_wf_def)
  qed
  with wf addjob_free(1,2)[OF p(1) Some] show ?thesis by (simp add: shell_wf_def)
qed

lemma addjob_lookup:
  assumes wf: "shell_wf sh" and p: "0 < p" "lookup sh p = None" and st: "st \<noteq> UNDEF"
    and free: "first_idx (\<lambda>j. pid j = 0) (jobs sh) = Some i"
  shows "lookup (fst (addjob p st cmd sh)) q = (if q = p then Some (new_job p st cmd sh) else lookup sh q)"
proof -
  have i: "i < length (jobs sh)" "pid (jobs sh ! i) = 0" using first_idx_Some[OF free] by auto
  note eq = addjob_free(1)[OF p(1) free, of st cmd]
  have "jobs_wf ((jobs sh)[i := new_job p st cmd sh])"
    using addjob_wf[OF wf p st, of cmd] unfolding shell_wf_def eq by blast
  from lookup_update[OF _ this i(1) eq, of p q] wf i p(1) show ?thesis
    by (simp add: shell_wf_def new_job_def)
qed

text \<open>
  C19: \<open>addjob\<close> of a process id that is not in the list keeps the job list well formed (at
  most one entry per process id, job ids of live entries positive, cleared entries blank). It
  reports success exactly when some entry is free, and then the list maps the new process id
  to a job with the current \<open>nextjid\<close> and every other process id as before; on a full list
  nothing changes.
\<close>

theorem addjob_spec:
  assumes "shell_wf sh" and "0 < p" and "lookup sh p = None" and "st \<noteq> UNDEF"
  shows "shell_wf (fst (addjob p st cmd sh)) \<and>
    snd (addjob p st cmd sh) = (if \<exists>j\<in>set (jobs sh). pid j = 0 then 1 else 0) \<and>
    lookup (fst (addjob p st cmd sh)) q =
      (if q = p \<and> (\<exists>j\<in>set (jobs sh). pid j = 0)
       then Some \<lparr>pid = p, jid = nextjid sh, state = st, cmdline = cmd\<rparr> else lookup sh q)"
proof (cases "first_idx (\<lambda>j. pid j = 0) (jobs sh)")
  case None
  then have full: "\<not> (\<exists>j\<in>set (jobs sh). pid j = 0)" by (simp add: first_idx_None)
  show ?thesis
    using addjob_wf[OF assms] lookup_cong[OF addjob_full(1)[OF None]] full by (simp add: addjob_full(3)[OF None])
next
  case (Some i)
  then have free: "\<exists>j\<in>set (jobs sh). pid j = 0" using first_idx_Some[OF Some] nth_mem by blast
  show ?thesis
    using addjob_wf[OF assms] addjob_lookup[OF assms Some] addjob_free(3)[OF assms(2) Some] free
    by (simp add: new_job_def)
qed

lemma init_shell_wf: "shell_wf init_shell"
  by (simp add: shell_wf_def jobs_wf_def init_shell_def initjobs_def clearjob_def slot_ok_def MAXJOBS_def list_all_iff)

theorem addjob_spec_witness:
  "shell_wf (fst (addjob 7 BG ''ls'' init_shell)) \<and> snd (addjob 7 BG ''ls'' init_shell) = 1 \<and>
   lookup (fst (addjob 7 BG ''ls'' init_shell)) 7 = Some \<lparr>pid = 7, jid = 1, state = BG, cmdline = ''ls''\<rparr>"
proof -
  have "lookup init_shell 7 = None" "\<exists>j\<in>set (jobs init_shell). pid j = 0" "nextjid init_shell = 1"
    by code_simp+
  with addjob_spec[OF init_shell_wf, of 7 BG "''ls''" 7] show ?thesis by simp
qed


lemma deletejob_found:
  assumes "0 < p" and "first_idx (\<lambda>j. pid j = p) (jobs sh) = Some i"
  shows "jobs (fst (deletejob p sh)) = (jobs sh)[i := clearjob (jobs sh ! i)]"
    and "nextjid (fst (deletejob p sh)) = maxjid (jobs (fst (deletejob p sh))) + 1"
    and "snd (deletejob p sh) = 1"
  using assms by (simp_all add: deletejob_def Let_def)

lemma deletejob_missing:
  assumes "lookup sh p = None"
  shows "deletejob p sh = (sh, 0)"
  using assms by (auto simp: lookup_def deletejob_def getjobpid_def split: if_splits option.splits)

lemma lookup_Some_idx:
  assumes "lookup sh p = Some j"
  obtains i where "0 < p" "first_idx (\<lambda>j. pid j = p) (jobs sh) = Some i" "i < length (jobs sh)" "jobs sh ! i = j" "pid j = p"
proof -
  from assms obtain i where i: "0 < p" "first_idx (\<lambda>j. pid j = p) (jobs sh) = Some i" "jobs sh ! i = j"
    by (auto simp: lookup_def getjobpid_def split: if_splits)
  with first_idx_Some[OF i(2)] show thesis by (intro that) auto
qed

lemma slot_ok_clearjob: "slot_ok (clearjob j)"
  by (simp add: slot_ok_def clearjob_def)

lemma deletejob_wf:
  assumes wf: "shell_wf sh"
  shows "shell_wf (fst (deletejob p sh))"
proof (cases "lookup sh p")
  case None
  with wf show ?thesis by (simp add: deletejob_missing)
next
  case (Some j)
  from lookup_Some_idx[OF this] obtain i where i: "0 < p" "first_idx (\<lambda>j. pid j = p) (jobs sh) = Some i" by metis
  have "jobs_wf ((jobs sh)[i := clearjob (jobs sh ! i)])"
    by (rule jobs_wf_update[OF _ slot_ok_clearjob]) (use wf in \<open>simp_all add: shell_wf_def clearjob_def\<close>)
  then show ?thesis
    using deletejob_found(1,2)[OF i] maxjid_nonneg by (simp add: shell_wf_def)
qed

lemma deletejob_lookup:
  assumes wf: "shell_wf sh"
  shows "lookup (fst (deletejob p sh)) q = (if q = p then None else lookup sh q)"
proof (cases "lookup sh p")
  case None
  then show ?thesis by (auto simp: deletejob_missing)
next
  case (Some j)
  from lookup_Some_idx[OF this] obtain i where i: "0 < p" "first_idx (\<lambda>j. pid j = p) (jobs sh) = Some i"
    "i < length (jobs sh)" "jobs sh ! i = j" "pid j = p" by metis
  note eq = deletejob_found(1)[OF i(1,2)]
  have "jobs_wf ((jobs sh)[i := clearjob (jobs sh ! i)])"
    using deletejob_wf[OF wf, of p] unfolding shell_wf_def eq by blast
  from lookup_update[OF _ this i(3) eq, of p q] wf i show ?thesis
    by (simp add: shell_wf_def clearjob_def)
qed

interpretation job_table: keyed_table shell_wf lookup "\<lambda>p sh. fst (deletejob p sh)"
  by unfold_locales (simp_all add: deletejob_wf deletejob_lookup)

text \<open>
  \<open>deletejob\<close> for each of the reaped process ids, in any order and with repetitions, keeps
  the job list well formed and removes exactly those process ids; a single call reports
  whether the process id was known, and after a successful one the next job id is above every
  job id in the list.
\<close>

theorem deletejob_spec:
  assumes "shell_wf sh"
  shows "shell_wf (fold (\<lambda>p sh. fst (deletejob p sh)) ps sh) \<and>
    lookup (fold (\<lambda>p sh. fst (deletejob p sh)) ps sh) q = (if q \<in> set ps then None else lookup sh q) \<and>
    snd (deletejob p sh) = (if lookup sh p = None then 0 else 1) \<and>
    (lookup sh p = None \<or> nextjid (fst (deletejob p sh)) = maxjid (jobs (fst (deletejob p sh))) + 1)"
proof (cases "lookup sh p")
  case None
  with job_table.del_all[OF assms, of ps q] show ?thesis by (simp add: deletejob_missing)
next
  case (Some j)
  from lookup_Some_idx[OF this] obtain i where i: "0 < p" "first_idx (\<lambda>j. pid j = p) (jobs sh) = Some i" by metis
  from job_table.del_all[OF assms, of ps q] Some show ?thesis
    using deletejob_found(2,3)[OF i] by simp
qed

theorem deletejob_spec_witness:
  "lookup (fold (\<lambda>p sh. fst (deletejob p sh)) [9, 7] (fst (addjob 7 BG ''ls'' init_shell))) 7 = None"
proof -
  have "lookup init_shell 7 = None" by code_simp
  then have "shell_wf (fst (addjob 7 BG ''ls'' init_shell))"
    by (intro addjob_wf init_shell_wf) simp_all
  from deletejob_spec[OF this, of "[9, 7]" 7] show ?thesis by simp
qed

section \<open>The handlers keep the list well formed\<close>

lemma wf_state_update:
  assumes "shell_wf sh" and "first_idx (\<lambda>j. pid j = p) (jobs sh) = Some i" and "0 < p" and "st \<noteq> UNDEF"
  shows "shell_wf (sh\<lparr>jobs := (jobs sh)[i := (jobs sh ! i)\<lparr>state := st\<rparr>]\<rparr>)"
proof -
  have i: "i < length (jobs sh)" "pid (jobs sh ! i) = p" using first_idx_Some[OF assms(2)] by auto
  have wf: "jobs_wf (jobs sh)" using assms(1) by (simp add: shell_wf_def)
  have "jobs_wf ((jobs sh)[i := (jobs sh ! i)\<lparr>state := st\<rparr>])"
  proof (rule jobs_wf_update[OF wf])
    show "slot_ok ((jobs sh ! i)\<lparr>state := st\<rparr>)"
      using jobs_wfD(2)[OF wf i(1)] i(2) assms(3,4) by (auto simp: slot_ok_def)
    show "\<forall>k<length (jobs sh). k \<noteq> i \<longrightarrow> pid ((jobs sh ! i)\<lparr>state := st\<rparr>) \<noteq> 0 \<longrightarrow>
        pid (jobs sh ! k) \<noteq> pid ((jobs sh ! i)\<lparr>state := st\<rparr>)"
      using jobs_wfD(3)[OF wf _ i(1)] i(2) assms(3) by auto
  qed
  then show ?thesis using assms(1) by (simp add: shell_wf_def)
qed

lemma shell_wf_emit [simp]: "shell_wf (emit e sh) = shell_wf sh"
  by (simp add: shell_wf_def emit_def)

lemma jobs_emit [simp]: "jobs (emit e sh) = jobs sh"
  by (simp add: emit_def)

definition stop_job :: "int \<Rightarrow> shell \<Rightarrow> shell" where
  "stop_job p sh = (case getjobpid (jobs sh) p of None \<Rightarrow> sh
     | Some i \<Rightarrow> sh\<lparr>jobs := (jobs sh)[i := (jobs sh ! i)\<lparr>state := ST\<rparr>]\<rparr>)"

lemma stop_job_wf: "shell_wf sh \<Longrightarrow> shell_wf (stop_job p sh)"
  using wf_state_update[of sh p _ ST] by (auto simp: stop_job_def getjobpid_def split: option.splits)

lemma handle_child_cases:
  obtains "handle_child (p, st) sh = fst (deletejob p sh)"
  | s where "handle_child (p, st) sh = fst (deletejob p (emit (Print s) sh))"
  | s where "handle_child (p, st) sh = stop_job p (emit (Print s) sh)"
proof (cases st)
  case WExited
  then show ?thesis using that(1) by (simp add: handle_child_def)
next
  case (WSignaled sig)
  then show ?thesis using that(2) by (simp add: handle_child_def)
next
  case (WStopped sig)
  show ?thesis by (rule that(3)) (simp only: WStopped handle_child_def stop_job_def Let_def prod.case wstatus.case)
qed

lemma handle_child_wf: "shell_wf sh \<Longrightarrow> shell_wf (handle_child r sh)"
  by (cases r, simp, rule handle_child_cases[of "fst r" "snd r" sh]) (simp_all add: deletejob_wf stop_job_wf)

lemma reap_loop_wf: "shell_wf sh \<Longrightarrow> shell_wf (snd (reap_loop ws sh))"
  by (induction ws sh rule: reap_loop.induct) (simp_all add: handle_child_wf)

lemma sigchld_handler_wf: "shell_wf sh \<Longrightarrow> shell_wf (sigchld_handler ws sh)"
proof (induction ws sh rule: sigchld_handler.induct)
  case (3 r ws sh)
  then show ?case using reap_loop_wf[of sh ws] by (auto split: prod.splits)
qed simp_all

lemma fgpid_found:
  assumes "shell_wf sh" and "fgpid (jobs sh) \<noteq> 0"
  obtains i where "getjobpid (jobs sh) (fgpid (jobs sh)) = Some i"
proof -
  from assms(2) obtain k where k: "first_idx (\<lambda>j. state j = FG) (jobs sh) = Some k" "fgpid (jobs sh) = pid (jobs sh ! k)"
    by (auto simp: fgpid_def split: option.splits)
  have "k < length (jobs sh)" using first_idx_Some[OF k(1)] by blast
  then have "0 < fgpid (jobs sh)"
    using jobs_wfD(2)[of "jobs sh" k] slot_okD(1) assms k(2) unfolding shell_wf_def by force
  moreover have "first_idx (\<lambda>j. pid j = fgpid (jobs sh)) (jobs sh) \<noteq> None"
    unfolding first_idx_None using k(2) nth_mem[OF \<open>k < length (jobs sh)\<close>] by auto
  ultimately show thesis using that by (auto simp: getjobpid_def)
qed

lemma sigtstp_handler_wf:
  assumes "shell_wf sh"
  obtains sh' where "sigtstp_handler sig sh = Done sh'" "shell_wf sh'"
proof (cases "fgpid (jobs sh) = 0")
  case True
  with assms that show thesis by (simp add: sigtstp_handler_def)
next
  case False
  from fgpid_found[OF assms this] obtain i where "getjobpid (jobs sh) (fgpid (jobs sh)) = Some i" by blast
  with False assms that show thesis by (cases "state (jobs sh ! i) = ST") (simp_all add: sigtstp_handler_def Let_def)
qed

lemma sigint_handler_wf: "shell_wf sh \<Longrightarrow> shell_wf (sigint_handler sig sh)"
  by (simp add: sigint_handler_def Let_def)

lemma resume_job_wf:
  assumes "shell_wf sh" and "first_idx (\<lambda>j. pid j = q) (jobs sh) = Some i" and "0 < q"
  shows "shell_wf (fst (resume_job first_cmd ji p i sh))"
  using wf_state_update[of "emit (Kill (- p) SIGCONT) sh" q i] assms by (simp add: resume_job_def Let_def)

lemma getjobjid_live:
  assumes "shell_wf sh" and "getjobjid (jobs sh) n = Some i"
  shows "0 < pid (jobs sh ! i) \<and> first_idx (\<lambda>j. pid j = pid (jobs sh ! i)) (jobs sh) = Some i"
proof -
  have n: "0 < n" and idx: "first_idx (\<lambda>j. jid j = n) (jobs sh) = Some i"
    using assms(2) by (auto simp: getjobjid_def split: if_splits)
  have i: "i < length (jobs sh)" "jid (jobs sh ! i) = n" using first_idx_Some[OF idx] by blast+
  have wf: "jobs_wf (jobs sh)" using assms(1) by (simp add: shell_wf_def)
  have pos: "0 < pid (jobs sh ! i)" using jobs_wfD(2)[OF wf i(1)] i(2) n by (auto simp: slot_ok_def)
  have "first_idx (\<lambda>j. pid j = pid (jobs sh ! i)) (jobs sh) \<noteq> None"
    unfolding first_idx_None using nth_mem[OF i(1)] by blast
  then obtain k where k: "first_idx (\<lambda>j. pid j = pid (jobs sh ! i)) (jobs sh) = Some k" by blast
  have "k < length (jobs sh)" "pid (jobs sh ! k) = pid (jobs sh ! i)" using first_idx_Some[OF k] by blast+
  with jobs_wfD(3)[OF wf i(1), of k] pos have "k = i" by (metis less_irrefl)
  with k pos show ?thesis by blast
qed

lemma do_bgfg_cases:
  assumes "do_bgfg argv sh = Done r"
  obtains s where "r = (emit (Print s) sh, None)"
    | a n i where "getjobjid (jobs sh) n = Some i" "r = resume_job a n (pid (jobs sh ! i)) i sh"
    | a p i where "getjobpid (jobs sh) p = Some i" "r = resume_job a 0 p i sh"
proof -
  consider "argv = []" | a where "argv = [a]" | a b rest where "argv = a # b # rest"
    by (metis list.exhaust)
  then show thesis
  proof cases
    case 1
    from assms[unfolded 1 do_bgfg_def list.case] show thesis by (simp only: outcome.distinct)
  next
    case 2
    from assms[unfolded 2 do_bgfg_def list.case outcome.inject, symmetric] show thesis by (rule that(1))
  next
    case 3
    note step = assms[unfolded 3 do_bgfg_def list.case Let_def]
    show thesis
    proof (cases "take 1 b = ''%''")
      case True
      note step = step[unfolded if_P[OF True]]
      obtain num b' where tok: "strtok_percent b = Some (num, b')"
      proof (cases "strtok_percent b")
        case None
        from step[unfolded None option.case] show thesis by (simp only: outcome.distinct)
      qed auto
      note step = step[unfolded tok option.case prod.case]
      show thesis
      proof (cases "list_all is_digit num")
        case False
        from step[unfolded not_not if_P[OF False] outcome.inject, symmetric] show thesis by (rule that(1))
      next
        case num: True
        then have "\<not> \<not> list_all is_digit num" by simp
        note step = step[unfolded if_not_P[OF this]]
        show thesis
        proof (cases "getjobjid (jobs sh) (atoi num)")
          case None
          from step[unfolded None option.case outcome.inject, symmetric] show thesis by (rule that(1))
        next
          case (Some i)
          from Some step[unfolded Some option.case outcome.inject, symmetric] show thesis by (rule that(2))
        qed
      qed
    next
      case False
      note step = step[unfolded if_not_P[OF False]]
      show thesis
      proof (cases "list_all is_digit b")
        case False
        from step[unfolded if_P[OF False] outcome.inject, symmetric] show thesis by (rule that(1))
      next
        case True
        then have "\<not> \<not> list_all is_digit b" by simp
        note step = step[unfolded if_not_P[OF this]]
        show thesis
        proof (cases "getjobpid (jobs sh) (atoi b)")
          case None
          from step[unfolded None option.case outcome.inject, symmetric] show thesis by (rule that(1))
        next
          case (Some i)
          from Some step[unfolded Some option.case outcome.inject, symmetric] show thesis by (rule that(3))
        qed
      qed
    qed
  qed
qed

lemma do_bgfg_wf:
  assumes "shell_wf sh" and "do_bgfg argv sh = Done r"
  shows "shell_wf (fst r)"
  using assms(2)
proof (cases rule: do_bgfg_cases)
  case 1
  with assms(1) show ?thesis by simp
next
  case (2 a n i)
  with getjobjid_live[OF assms(1) 2(1)] resume_job_wf[OF assms(1)] show ?thesis by blast
next
  case (3 a p i)
  then have "0 < p" "first_idx (\<lambda>j. pid j = p) (jobs sh) = Some i" by (simp_all add: getjobpid_def split: if_splits)
  with resume_job_wf[OF assms(1)] 3(2) show ?thesis by blast
qed

lemma listjobs_jobs: "jobs (listjobs sh) = jobs sh \<and> nextjid (listjobs sh) = nextjid sh"
proof -
  have "jobs (fold (\<lambda>i s. if pid (jobs s ! i) \<noteq> 0 then emit (Print (list_entry i (jobs s ! i))) s else s) ks s) = jobs s \<and>
      nextjid (fold (\<lambda>i s. if pid (jobs s ! i) \<noteq> 0 then emit (Print (list_entry i (jobs s ! i))) s else s) ks s) = nextjid s" for ks s
    by (induction ks arbitrary: s) (simp_all add: emit_def)
  then show ?thesis unfolding listjobs_def for_loop_def by blast
qed

text \<open>A built-in command follows a bad pointer only in its arguments.\<close>

lemma strtok_percent_None: "strtok_percent a = None \<longleftrightarrow> set a \<subseteq> {CHR ''%''}"
  by (auto simp: strtok_percent_def Let_def dropWhile_eq_Nil_conv)

lemma do_bgfg_Fault:
  "do_bgfg argv sh = Fault \<longleftrightarrow> argv = [] \<or> (\<exists>c a as. argv = c # a # as \<and> a \<noteq> [] \<and> set a \<subseteq> {CHR ''%''})"
proof -
  consider "argv = []" | c where "argv = [c]" | c a as where "argv = c # a # as"
    by (metis list.exhaust)
  then show ?thesis
  proof cases
    case 3
    have "do_bgfg (c # a # as) sh = Fault \<longleftrightarrow> a \<noteq> [] \<and> set a \<subseteq> {CHR ''%''}"
    proof (cases "take 1 a = ''%''")
      case True
      then have "a \<noteq> []" by auto
      show ?thesis
      proof (cases "strtok_percent a")
        case None
        have "do_bgfg (c # a # as) sh = Fault"
          unfolding do_bgfg_def list.case if_P[OF True] None option.case ..
        with None \<open>a \<noteq> []\<close> show ?thesis by (simp add: strtok_percent_None)
      next
        case (Some r)
        obtain n t where tok: "strtok_percent a = Some (n, t)" using Some by (cases r) simp
        then have "\<not> set a \<subseteq> {CHR ''%''}" using strtok_percent_None[of a] by simp
        moreover have "do_bgfg (c # a # as) sh \<noteq> Fault"
          unfolding do_bgfg_def list.case if_P[OF True] tok option.case prod.case Let_def
          by (cases "list_all is_digit n"; cases "getjobjid (jobs sh) (atoi n)")
            (simp_all only: not_True_eq_False not_False_eq_True if_True if_False option.case outcome.distinct)
        ultimately show ?thesis by blast
      qed
    next
      case False
      then have "\<not> (a \<noteq> [] \<and> set a \<subseteq> {CHR ''%''})" by (cases a) auto
      moreover have "do_bgfg (c # a # as) sh \<noteq> Fault"
        unfolding do_bgfg_def list.case if_not_P[OF False] Let_def
        by (cases "list_all is_digit a"; cases "getjobpid (jobs sh) (atoi a)")
          (simp_all only: not_True_eq_False not_False_eq_True if_True if_False option.case outcome.distinct)
      ultimately show ?thesis by blast
    qed
    with 3 show ?thesis by auto
  qed (simp_all add: do_bgfg_def)
qed

lemma command_in: "x # xs = [] \<or> (\<exists>c a as. c \<in> S \<and> x # xs = c # a # as \<and> P a) \<longleftrightarrow> x \<in> S \<and> (\<exists>a as. xs = a # as \<and> P a)"
  by auto

lemma builtin_cmd_BadPointer:
  "builtin_cmd argv sh = BadPointer \<longleftrightarrow>
    argv = [] \<or> (\<exists>c a as. c \<in> {''bg'', ''fg''} \<and> argv = c # a # as \<and> a \<noteq> [] \<and> set a \<subseteq> {CHR ''%''})"
proof (cases argv)
  case (Cons c bs)
  have ne: "''quit'' \<notin> {''bg'', ''fg''}" "''jobs'' \<notin> {''bg'', ''fg''}" by simp_all
  note args = command_in[where P = "\<lambda>a. a \<noteq> [] \<and> set a \<subseteq> {CHR ''%''}"]
  consider "c = ''quit''" | "c = ''jobs''" | "c \<noteq> ''quit''" "c \<noteq> ''jobs''" "c \<in> {''bg'', ''fg''}"
    | "c \<noteq> ''quit''" "c \<noteq> ''jobs''" "c \<notin> {''bg'', ''fg''}" by blast
  then show ?thesis
  proof cases
    case 1
    have "builtin_cmd argv sh = Quit 0" unfolding builtin_cmd_def Cons list.case by (rule if_P[OF 1])
    then have "builtin_cmd argv sh \<noteq> BadPointer" by (simp only: builtin.distinct not_False_eq_True)
    moreover have "c \<notin> {''bg'', ''fg''}" unfolding 1 by (rule ne(1))
    ultimately show ?thesis unfolding Cons args by blast
  next
    case 2
    then have "c \<noteq> ''quit''" by simp
    from 2 have "builtin_cmd argv sh = Ran (listjobs sh, None)"
      unfolding builtin_cmd_def Cons list.case if_not_P[OF \<open>c \<noteq> ''quit''\<close>] by (rule if_P)
    then have "builtin_cmd argv sh \<noteq> BadPointer" by (simp only: builtin.distinct not_False_eq_True)
    moreover have "c \<notin> {''bg'', ''fg''}" unfolding 2 by (rule ne(2))
    ultimately show ?thesis unfolding Cons args by blast
  next
    case 3
    have "c = ''bg'' \<or> c = ''fg''" using 3(3) by blast
    then have "builtin_cmd argv sh = (case do_bgfg argv sh of Fault \<Rightarrow> BadPointer | Done r \<Rightarrow> Ran r)"
      unfolding builtin_cmd_def Cons list.case if_not_P[OF 3(1)] if_not_P[OF 3(2)] by (rule if_P)
    moreover have "(case x of Fault \<Rightarrow> BadPointer | Done r \<Rightarrow> Ran r) = BadPointer \<longleftrightarrow> x = Fault" for x
      by (cases x) simp_all
    ultimately have b: "builtin_cmd argv sh = BadPointer \<longleftrightarrow> do_bgfg argv sh = Fault" by (simp only:)
    have d: "do_bgfg argv sh = Fault \<longleftrightarrow> (\<exists>a as. bs = a # as \<and> a \<noteq> [] \<and> set a \<subseteq> {CHR ''%''})"
      using do_bgfg_Fault[of argv sh] unfolding Cons by auto
    show ?thesis unfolding b d unfolding Cons args using 3(3) by blast
  next
    case 4
    have "\<not> (c = ''bg'' \<or> c = ''fg'')" using 4(3) by blast
    then have "builtin_cmd argv sh = NotBuiltin"
      unfolding builtin_cmd_def Cons list.case if_not_P[OF 4(1)] if_not_P[OF 4(2)] by (rule if_not_P)
    then have "builtin_cmd argv sh \<noteq> BadPointer" by (simp only: builtin.distinct not_False_eq_True)
    with 4(3) show ?thesis unfolding Cons args by blast
  qed
next
  case Nil
  have "builtin_cmd argv sh = BadPointer" unfolding builtin_cmd_def Nil list.case ..
  with Nil show ?thesis by blast
qed

lemma listjobs_wf: "shell_wf sh \<Longrightarrow> shell_wf (listjobs sh)"
  using listjobs_jobs[of sh] by (simp add: shell_wf_def)

lemma builtin_cmd_shape:
  "case builtin_cmd argv sh of
     Ran r \<Rightarrow> r = (listjobs sh, None) \<or> do_bgfg argv sh = Done r
   | BadPointer \<Rightarrow> True
   | Quit n \<Rightarrow> n = 0 \<and> (\<exists>as. argv = ''quit'' # as)
   | NotBuiltin \<Rightarrow> (\<exists>c as. argv = c # as \<and> c \<notin> {''quit'', ''jobs'', ''bg'', ''fg''})"
proof (cases argv)
  case (Cons c bs)
  consider "c = ''quit''" | "c \<noteq> ''quit''" "c = ''jobs''" | "c \<noteq> ''quit''" "c \<noteq> ''jobs''" "c = ''bg'' \<or> c = ''fg''"
    | "c \<noteq> ''quit''" "c \<noteq> ''jobs''" "\<not> (c = ''bg'' \<or> c = ''fg'')" by blast
  then show ?thesis
  proof cases
    case 1
    have b: "builtin_cmd argv sh = Quit 0" unfolding builtin_cmd_def Cons list.case by (rule if_P[OF 1])
    show ?thesis unfolding b builtin.case unfolding Cons 1 by blast
  next
    case 2
    have b: "builtin_cmd argv sh = Ran (listjobs sh, None)"
      unfolding builtin_cmd_def Cons list.case if_not_P[OF 2(1)] by (rule if_P[OF 2(2)])
    show ?thesis unfolding b builtin.case by blast
  next
    case 3
    have b: "builtin_cmd argv sh = (case do_bgfg argv sh of Fault \<Rightarrow> BadPointer | Done r \<Rightarrow> Ran r)"
      unfolding builtin_cmd_def Cons list.case if_not_P[OF 3(1)] if_not_P[OF 3(2)] by (rule if_P[OF 3(3)])
    show ?thesis unfolding b by (cases "do_bgfg argv sh") (simp_all only: outcome.case builtin.case simp_thms)
  next
    case 4
    have b: "builtin_cmd argv sh = NotBuiltin"
      unfolding builtin_cmd_def Cons list.case if_not_P[OF 4(1)] if_not_P[OF 4(2)] by (rule if_not_P[OF 4(3)])
    show ?thesis unfolding b builtin.case using Cons 4 by blast
  qed
next
  case Nil
  have b: "builtin_cmd argv sh = BadPointer" unfolding builtin_cmd_def Nil list.case ..
  show ?thesis unfolding b builtin.case ..
qed

text \<open>
  C39: Whatever \<open>waitpid\<close> reports and whatever the built-in commands are given, the signal
  handlers and the built-in commands leave a well-formed job list behind. On a well-formed
  list \<open>sigtstp_handler\<close>, which does not test it, never follows a NULL job. A built-in command
  follows a NULL pointer exactly when its own arguments are one: when there is no command, or after \<open>bg\<close> or \<open>fg\<close> when
  the argument is made of percent signs only, so that \<open>strtok\<close> finds no number; never because the job it names is not in the list.
\<close>

theorem handlers_keep_jobs:
  assumes "shell_wf sh"
  shows "shell_wf (sigchld_handler ws sh) \<and> shell_wf (sigint_handler sig sh) \<and>
    (case sigtstp_handler sig sh of Done sh' \<Rightarrow> shell_wf sh' | Fault \<Rightarrow> False) \<and>
    (case builtin_cmd argv sh of
       Ran (sh', w) \<Rightarrow> shell_wf sh'
     | BadPointer \<Rightarrow> argv = [] \<or> (\<exists>c a as. c \<in> {''bg'', ''fg''} \<and> argv = c # a # as \<and> a \<noteq> [] \<and> set a \<subseteq> {CHR ''%''})
     | Quit n \<Rightarrow> n = 0 \<and> (\<exists>as. argv = ''quit'' # as)
     | NotBuiltin \<Rightarrow> (\<exists>c as. argv = c # as \<and> c \<notin> {''quit'', ''jobs'', ''bg'', ''fg''}))"
proof -
  have tstp: "case sigtstp_handler sig sh of Done sh' \<Rightarrow> shell_wf sh' | Fault \<Rightarrow> False"
    by (rule sigtstp_handler_wf[OF assms, of sig]) simp
  have builtin: "case builtin_cmd argv sh of
       Ran (sh', w) \<Rightarrow> shell_wf sh'
     | BadPointer \<Rightarrow> argv = [] \<or> (\<exists>c a as. c \<in> {''bg'', ''fg''} \<and> argv = c # a # as \<and> a \<noteq> [] \<and> set a \<subseteq> {CHR ''%''})
     | Quit n \<Rightarrow> n = 0 \<and> (\<exists>as. argv = ''quit'' # as)
     | NotBuiltin \<Rightarrow> (\<exists>c as. argv = c # as \<and> c \<notin> {''quit'', ''jobs'', ''bg'', ''fg''})"
  proof (cases "builtin_cmd argv sh")
    case BadPointer
    show ?thesis unfolding BadPointer builtin.case by (rule builtin_cmd_BadPointer[THEN iffD1, OF BadPointer])
  next
    case (Quit n)
    show ?thesis using builtin_cmd_shape[of argv sh] unfolding Quit builtin.case .
  next
    case (Ran r)
    have "shell_wf (fst r)"
      using builtin_cmd_shape[of argv sh] listjobs_wf[OF assms] do_bgfg_wf[OF assms, of argv r]
      unfolding Ran builtin.case by auto
    then show ?thesis unfolding Ran builtin.case by (cases r) simp
  next
    case NotBuiltin
    show ?thesis using builtin_cmd_shape[of argv sh] unfolding NotBuiltin builtin.case .
  qed
  show ?thesis by (intro conjI sigchld_handler_wf[OF assms] sigint_handler_wf[OF assms] tstp builtin)
qed

theorem handlers_keep_jobs_witness:
  "shell_wf (sigchld_handler [Some (5, WExited), Some (7, WStopped 20)] (fst (addjob 7 FG ''ls'' init_shell))) \<and>
   builtin_cmd [''fg'', ''%3''] (fst (addjob 7 FG ''ls'' init_shell)) \<noteq> BadPointer"
proof -
  have "lookup init_shell 7 = None" by code_simp
  then have wf: "shell_wf (fst (addjob 7 FG ''ls'' init_shell))"
    by (intro addjob_wf init_shell_wf) simp_all
  from handlers_keep_jobs[OF wf] have "shell_wf (sigchld_handler [Some (5, WExited), Some (7, WStopped 20)] (fst (addjob 7 FG ''ls'' init_shell)))"
    by blast
  moreover have "builtin_cmd [''fg'', ''%3''] (fst (addjob 7 FG ''ls'' init_shell)) \<noteq> BadPointer"
  proof
    assume "builtin_cmd [''fg'', ''%3''] (fst (addjob 7 FG ''ls'' init_shell)) = BadPointer"
    with handlers_keep_jobs[OF wf, of _ _ "[''fg'', ''%3'']"] show False by simp
  qed
  ultimately show ?thesis ..
qed

end
