(* ===== verification/TshShell.thy ===== *)
theory TshShell
  imports TshJobs
begin

text \<open>
  Properties of the shell's control flow: when \<open>waitfg\<close> returns and what \<open>sigchld_handler\<close>
  handles, the command parser as the inverse of writing words on a line within the bounds of its
  arrays, the \<open>eval\<close> whose outcome is the same for every command line, and the job ids that
  are given out twice.
\<close>

section \<open>Waiting and reaping\<close>

lemma reap_loop_all: "reap_loop (map Some rs @ None # ws) sh = (ws, fold handle_child rs sh)"
  by (induction rs arbitrary: sh) simp_all

lemma waitfg_unfold: "waitfg p sigma n = (if p = fgpid (jobs (sigma n)) then waitfg p sigma (Suc n) else Some n)"
  by (rule waitfg.simps)

lemma waitfg_Some: "waitfg p sigma n = Some m \<Longrightarrow> n \<le> m \<and> fgpid (jobs (sigma m)) \<noteq> p"
proof (rule waitfg.raw_induct[of "\<lambda>p sigma n m. n \<le> m \<and> fgpid (jobs (sigma m)) \<noteq> p"])
  fix wait p n m and sigma :: "nat \<Rightarrow> shell"
  assume IH: "\<And>p sigma n m. wait p sigma n = Some m \<Longrightarrow> n \<le> m \<and> fgpid (jobs (sigma m)) \<noteq> p"
    and eq: "(if p = fgpid (jobs (sigma n)) then wait p sigma (Suc n) else Some n) = Some m"
  show "n \<le> m \<and> fgpid (jobs (sigma m)) \<noteq> p"
    using eq IH[of p sigma "Suc n" m] by (auto split: if_splits)
qed

lemma waitfg_reaches:
  assumes "fgpid (jobs (sigma (n + d))) \<noteq> p"
  shows "\<exists>m. waitfg p sigma n = Some m"
  using assms
proof (induction d arbitrary: n)
  case 0
  then show ?case by (subst waitfg_unfold) auto
next
  case (Suc d)
  then have "\<exists>m. waitfg p sigma (Suc n) = Some m" using Suc.IH[of "Suc n"] by simp
  then show ?case by (subst waitfg_unfold) auto
qed

lemma waitfg_returns_iff: "(\<exists>m. waitfg p sigma n = Some m) \<longleftrightarrow> (\<exists>m\<ge>n. fgpid (jobs (sigma m)) \<noteq> p)"
proof
  assume "\<exists>m\<ge>n. fgpid (jobs (sigma m)) \<noteq> p"
  then obtain m where "n \<le> m" "fgpid (jobs (sigma m)) \<noteq> p" by blast
  with waitfg_reaches[of sigma n "m - n" p] show "\<exists>m. waitfg p sigma n = Some m" by simp
qed (use waitfg_Some in blast)

lemma waitfg_first: "waitfg p sigma n = Some m \<Longrightarrow> n \<le> k \<Longrightarrow> k < m \<Longrightarrow> fgpid (jobs (sigma k)) = p"
proof (induction "m - n" arbitrary: n)
  case (Suc d)
  show ?case
  proof (cases "fgpid (jobs (sigma n)) = p")
    case True
    with Suc.prems(1) have "waitfg p sigma (Suc n) = Some m" by (simp add: waitfg_unfold[of p sigma n])
    then have "fgpid (jobs (sigma k)) = p" if "k \<noteq> n"
      using Suc.hyps(1)[of "Suc n"] Suc.hyps(2) Suc.prems(2,3) that by simp
    with True show ?thesis by blast
  next
    case False
    with Suc.prems Suc.hyps(2) show ?thesis by (simp add: waitfg_unfold[of p sigma n])
  qed
qed simp

text \<open>
  C22: The child that the outer \<open>waitpid\<close> of \<open>sigchld_handler\<close> reports is never handled: the
  handler does what handling the others would do. When a single child is reported, which is
  the foreground job's when it ends, nothing changes, and \<open>waitfg\<close> never returns.
\<close>

theorem sigchld_loses_first:
  "sigchld_handler (Some r # map Some rs @ [None]) sh = fold handle_child rs sh \<and>
   sigchld_handler [Some r, None] sh = sh \<and>
   waitfg (fgpid (jobs sh)) (\<lambda>n. ((\<lambda>s. sigchld_handler [Some r, None] s) ^^ n) sh) 0 = None"
proof -
  have one: "sigchld_handler (Some r # map Some rs @ [None]) sh = fold handle_child rs sh" for rs
    by (simp add: reap_loop_all)
  from one[of "[]"] have two: "sigchld_handler [Some r, None] s = s" for s by simp
  then have "((\<lambda>s. sigchld_handler [Some r, None] s) ^^ n) sh = sh" for n
    by (induction n) (simp_all only: funpow.simps o_apply id_apply)
  note iter = this
  have "\<not> (\<exists>m. waitfg (fgpid (jobs sh)) (\<lambda>n. ((\<lambda>s. sigchld_handler [Some r, None] s) ^^ n) sh) 0 = Some m)"
    unfolding waitfg_returns_iff iter by simp
  with one two show ?thesis by simp
qed

section \<open>The command line\<close>

definition needs_quote :: "string \<Rightarrow> bool" where
  "needs_quote w \<longleftrightarrow> w = [] \<or> SPACE \<in> set w \<or> hd w = QUOTE"

definition word_ok :: "string \<Rightarrow> bool" where
  "word_ok w \<longleftrightarrow> needs_quote w \<longrightarrow> QUOTE \<notin> set w"

definition show_word :: "string \<Rightarrow> string" where
  "show_word w = (if needs_quote w then QUOTE # w @ [QUOTE] else w)"

fun show_words :: "string list \<Rightarrow> string" where
  "show_words [] = []"
| "show_words [w] = show_word w"
| "show_words (w # ws) = show_word w @ SPACE # show_words ws"

lemma show_words_space: "ws \<noteq> [] \<Longrightarrow> show_words ws @ [SPACE] = concat (map (\<lambda>w. show_word w @ [SPACE]) ws)"
  by (induction ws rule: show_words.induct) simp_all

lemma SPACE_QUOTE [simp]: "SPACE \<noteq> QUOTE" "QUOTE \<noteq> SPACE"
  by (code_simp, code_simp)

lemma parse_args_space: "parse_args (SPACE # s) = parse_args s"
  by (subst (1 2) parse_args.simps) simp

lemma parse_args_Nil [simp]: "parse_args [] = []"
  by (subst parse_args.simps) simp

lemma parse_args_word:
  assumes "word_ok w"
  shows "parse_args (show_word w @ SPACE # s) = w # parse_args s"
proof (cases "needs_quote w")
  case True
  with assms have "QUOTE \<notin> set w" by (simp add: word_ok_def)
  with True have "parse_args (show_word w @ SPACE # s) = w # parse_args (SPACE # s)"
    by (subst parse_args.simps) (simp add: show_word_def strchr_append_new Let_def)
  then show ?thesis by (simp only: parse_args_space)
next
  case False
  then obtain c cs where w: "w = c # cs" "c \<noteq> SPACE" "c \<noteq> QUOTE" "SPACE \<notin> set w"
    by (cases w) (auto simp: needs_quote_def)
  then have d: "dropWhile (\<lambda>c. c = SPACE) (show_word w @ SPACE # s) = w @ SPACE # s"
    using False by (simp add: show_word_def)
  have c: "(case w @ SPACE # s of [] \<Rightarrow> (w @ SPACE # s, SPACE) | c # cs \<Rightarrow> if c = QUOTE then (cs, QUOTE) else (w @ SPACE # s, SPACE)) = (w @ SPACE # s, SPACE)"
    using w by simp
  show ?thesis
    by (subst parse_args.simps) (simp only: d c Let_def prod.case strchr_append_new[OF w(4)] option.case, simp)
qed

lemma parse_args_words:
  assumes "list_all word_ok ws"
  shows "parse_args (concat (map (\<lambda>w. show_word w @ [SPACE]) ws)) = ws"
  using assms by (induction ws) (simp_all add: parse_args_word)

lemma show_words_set: "set (show_words ws) \<subseteq> insert SPACE (insert QUOTE (\<Union>(set ` set ws)))"
  by (induction ws rule: show_words.induct) (auto simp: show_word_def split: if_splits)

lemma no_NUL_line:
  assumes "list_all (\<lambda>w. CHR 0x00 \<notin> set w) ws"
  shows "takeWhile (\<lambda>c. c \<noteq> CHR 0x00) (show_words ws @ [LF]) = show_words ws @ [LF]"
proof -
  have "SPACE \<noteq> CHR 0x00" "QUOTE \<noteq> CHR 0x00" "LF \<noteq> CHR 0x00" by (code_simp, code_simp, code_simp)
  then have "CHR 0x00 \<notin> set (show_words ws @ [LF])"
    using show_words_set[of ws] assms by (auto simp: list_all_iff)
  then show ?thesis by (simp add: takeWhile_eq_all_conv) (metis)
qed

text \<open>
  C23: \<open>parseline\<close> inverts the writing of an argument list as a command line, with words in
  single quotes where they are empty, contain a space or begin with a quote (such a word has no other
  quote, and no word has a NUL, as C strings): it returns the arguments, without a last argument that
  begins with an ampersand, and whether there was one (and true for a blank line). This holds
  exactly within its arrays: a line of \<open>MAXLINE\<close> (1024) characters or more is written past the end
  of the copy, and \<open>MAXARGS\<close> (128) words or more past the end of \<open>argv\<close>.
\<close>

theorem parseline_roundtrip:
  assumes "list_all word_ok ws" and "list_all (\<lambda>w. CHR 0x00 \<notin> set w) ws"
  shows "parseline (show_words ws @ [LF]) =
    (if MAXLINE_tsh \<le> length (show_words ws @ [LF]) \<or> MAXARGS \<le> length ws then Fault
     else if ws = [] then Done (True, [])
     else Done (take 1 (last ws) = ''&'', if take 1 (last ws) = ''&'' then butlast ws else ws))"
proof -
  have args: "parse_args (butlast (show_words ws @ [LF]) @ [SPACE]) = ws"
  proof (cases "ws = []")
    case True
    then show ?thesis using parse_args_space[of "[]"] by simp
  next
    case False
    then show ?thesis using parse_args_words[OF assms(1)] show_words_space[OF False] by simp
  qed
  have amp: "(case last ws of [] \<Rightarrow> False | c # _ \<Rightarrow> c = CHR ''&'') = (take 1 (last ws) = ''&'')"
    by (cases "last ws") simp_all
  have line: "(show_words ws @ [LF] = []) = False" by simp
  show ?thesis
    unfolding parseline_def no_NUL_line[OF assms(2)] Let_def args amp line
    by (simp only: simp_thms if_True if_False) (auto simp only: split: if_splits)
qed

theorem parseline_roundtrip_witness:
  "parseline (show_words [''ls'', ''-l'', ''a b'', ''&''] @ [LF]) = Done (True, [''ls'', ''-l'', ''a b'']) \<and>
   parseline (show_words (replicate 128 ''a'') @ [LF]) = Fault"
proof
  have "list_all word_ok [''ls'', ''-l'', ''a b'', ''&'']" by code_simp
  moreover have "list_all (\<lambda>w. CHR 0x00 \<notin> set w) [''ls'', ''-l'', ''a b'', ''&'']" by code_simp
  moreover have "\<not> MAXLINE_tsh \<le> length (show_words [''ls'', ''-l'', ''a b'', ''&''] @ [LF])" by code_simp
  ultimately show "parseline (show_words [''ls'', ''-l'', ''a b'', ''&''] @ [LF]) = Done (True, [''ls'', ''-l'', ''a b''])"
    using parseline_roundtrip[of "[''ls'', ''-l'', ''a b'', ''&'']"] by (simp add: MAXARGS_def)
  have "word_ok ''a''" by code_simp
  then have "list_all word_ok (replicate 128 ''a'')" "list_all (\<lambda>w. CHR 0x00 \<notin> set w) (replicate 128 ''a'')"
    by (simp_all add: list_all_iff)
  from parseline_roundtrip[OF this] show "parseline (show_words (replicate 128 ''a'') @ [LF]) = Fault"
    by (simp only: length_replicate MAXARGS_def) simp
qed

section \<open>Evaluation\<close>

text \<open>
  Two outcomes that differ in nothing but the text of the command line, where that text is stored
  as the \<open>cmdline\<close> of a job and where it is printed.
\<close>

definition same_job :: "string \<Rightarrow> string \<Rightarrow> job \<Rightarrow> job \<Rightarrow> bool" where
  "same_job cmd cmd' j j' \<longleftrightarrow> j' = j \<or> cmdline j = cmd \<and> j' = j\<lparr>cmdline := cmd'\<rparr>"

definition same_event :: "string \<Rightarrow> string \<Rightarrow> event \<Rightarrow> event \<Rightarrow> bool" where
  "same_event cmd cmd' e e' \<longleftrightarrow> e' = e \<or> (\<exists>a b. e = Print (a @ cmd @ b) \<and> e' = Print (a @ cmd' @ b))"

definition same_shell :: "string \<Rightarrow> string \<Rightarrow> shell \<Rightarrow> shell \<Rightarrow> bool" where
  "same_shell cmd cmd' s s' \<longleftrightarrow> s' = s\<lparr>jobs := jobs s', events := events s'\<rparr> \<and>
     list_all2 (same_job cmd cmd') (jobs s) (jobs s') \<and> list_all2 (same_event cmd cmd') (events s) (events s')"

fun same_result :: "string \<Rightarrow> string \<Rightarrow> eval_result \<Rightarrow> eval_result \<Rightarrow> bool" where
  "same_result cmd cmd' (Exited n) r = (r = Exited n)"
| "same_result cmd cmd' Crashed r = (r = Crashed)"
| "same_result cmd cmd' (InParent s w) r = (\<exists>s'. r = InParent s' w \<and> same_shell cmd cmd' s s')"
| "same_result cmd cmd' (InChild argv) r = (r = InChild argv)"

lemma same_shell_refl: "same_shell cmd cmd' s s"
  by (simp add: same_shell_def list.rel_refl same_job_def same_event_def)

lemma same_shell_emit: "same_shell cmd cmd' s s' \<Longrightarrow> same_event cmd cmd' e e' \<Longrightarrow> same_shell cmd cmd' (emit e s) (emit e' s')"
  by (cases s; cases s') (simp add: same_shell_def emit_def list_all2_appendI)

lemma same_shell_blocked: "same_shell cmd cmd' s s' \<Longrightarrow>
    same_shell cmd cmd' (s\<lparr>sigchld_blocked := b\<rparr>) (s'\<lparr>sigchld_blocked := b\<rparr>)"
  by (cases s; cases s') (simp add: same_shell_def)

lemma same_shell_maxjid:
  assumes "same_shell cmd cmd' s s'"
  shows "maxjid (jobs s') = maxjid (jobs s)"
proof -
  have "list_all2 (same_job cmd cmd') js js' \<Longrightarrow>
      fold (\<lambda>j m. if jid j > m then jid j else m) js' m = fold (\<lambda>j m. if jid j > m then jid j else m) js m" for js js' and m :: int
    by (induction arbitrary: m rule: list_all2_induct) (auto simp: same_job_def)
  with assms show ?thesis by (simp add: same_shell_def maxjid_def)
qed

lemma same_event_text: "same_event cmd cmd' (Print (a @ cmd @ b)) (Print (a @ cmd' @ b))"
  by (auto simp: same_event_def)

lemma same_shell_addjob: "same_shell cmd cmd' (fst (addjob p st cmd sh)) (fst (addjob p st cmd' sh))"
proof (cases "first_idx (\<lambda>j. pid j = 0) (jobs sh)")
  case None
  then show ?thesis by (simp add: addjob_def same_shell_refl)
next
  case (Some i)
  let ?sh = "\<lambda>c. sh\<lparr>jobs := (jobs sh)[i := (jobs sh ! i)\<lparr>pid := p, state := st, jid := nextjid sh, cmdline := c\<rparr>],
    nextjid := (if nextjid sh + 1 > int MAXJOBS then 1 else nextjid sh + 1)\<rparr>"
  have "list_all2 (same_job cmd cmd') (jobs (?sh cmd)) (jobs (?sh cmd'))"
    by (simp del: list_update_beyond) (rule list_all2_update_cong, simp_all add: list.rel_refl same_job_def)
  then have stored: "same_shell cmd cmd' (?sh cmd) (?sh cmd')"
    by (simp add: same_shell_def list.rel_refl same_event_def)
  have printed: "same_shell cmd cmd' (emit (Print (a @ cmd @ [LF])) (?sh cmd)) (emit (Print (a @ cmd' @ [LF])) (?sh cmd'))" for a
    by (rule same_shell_emit[OF stored same_event_text])
  show ?thesis
    using Some stored printed[of "''Added job ['' @ int_to_dec (nextjid sh) @ ''] '' @ int_to_dec p @ '' ''"]
    by (simp add: addjob_def Let_def same_shell_refl del: append.simps)
qed

text \<open>
  C40: What \<open>eval\<close> does is decided by what its uninitialised variables happen to hold and not by
  the command line. For any two command lines it comes to the same outcome: the exit or crash, the argument
  vector of the child, the process waited for, every job with its state, and every output are the
  same, but for the text of the command line where it is stored in the new job or printed. With
  NULL in \<open>args\<close> it crashes for every command, and it leaves the shell, on
  \<open>quit\<close> as on any other line, exactly when the uninitialised array begins with the word \<open>quit\<close>.
\<close>

theorem eval_ignores_command:
  "same_result cmd cmd' (eval_cmd env cmd sh) (eval_cmd env cmd' sh) \<and>
   eval_cmd (env\<lparr>uninit_args := []\<rparr>) cmd sh = Crashed \<and>
   (eval_cmd env cmd sh = Exited 0) = (\<exists>as. uninit_args env = ''quit'' # as)"
proof -
  have crash: "eval_cmd (env\<lparr>uninit_args := []\<rparr>) cmd sh = Crashed"
    by (simp add: eval_cmd_def builtin_cmd_def)
  have quit: "(builtin_cmd argv sh = Quit n) = ((\<exists>as. argv = ''quit'' # as) \<and> n = 0)" for argv n
  proof (cases argv)
    case (Cons a as)
    obtain c2 c3 where c: "builtin_cmd argv sh = (if a = ''quit'' then Quit 0 else if c2 then Ran (listjobs sh, None)
        else if c3 then (case do_bgfg argv sh of Fault \<Rightarrow> BadPointer | Done r \<Rightarrow> Ran r) else NotBuiltin)"
      by (rule that) (unfold builtin_cmd_def Cons list.case, rule refl)
    show ?thesis
    proof (cases "a = ''quit''")
      case True
      with c Cons show ?thesis by auto
    next
      case False
      with c have "builtin_cmd argv sh \<noteq> Quit n"
        by (cases c2; cases c3; cases "do_bgfg argv sh") (simp_all only: if_True if_False builtin.distinct outcome.case not_False_eq_True)
      with False Cons show ?thesis by blast
    qed
  qed (simp add: builtin_cmd_def)
  have exits: "(eval_cmd env cmd sh = Exited 0) = (builtin_cmd (uninit_args env) sh = Quit 0)"
    by (cases "builtin_cmd (uninit_args env) sh")
      (auto simp add: eval_cmd_def Let_def split: prod.splits)
  have same: "same_result cmd cmd' (eval_cmd env cmd sh) (eval_cmd env cmd' sh)"
  proof (cases "builtin_cmd (uninit_args env) sh")
    case NotBuiltin
    define started where "started c st = (fst (addjob (fork_result env) st c (sh\<lparr>sigchld_blocked := True\<rparr>)))\<lparr>sigchld_blocked := False\<rparr>" for c st
    have s: "same_shell cmd cmd' (started cmd st) (started cmd' st)" for st
      unfolding started_def by (intro same_shell_blocked same_shell_addjob)
    have p: "same_shell cmd cmd' (emit (Print (a @ cmd)) (started cmd st)) (emit (Print (a @ cmd')) (started cmd' st))" for a st
      using same_event_text[of cmd cmd' a "[]"] by (intro same_shell_emit s) simp
    show ?thesis
      using s p[of "''['' @ int_to_dec (maxjid (jobs (started cmd BG))) @ ''] ('' @ int_to_dec (fork_result env) @ '') ''" BG]
      by (simp add: eval_cmd_def NotBuiltin Let_def started_def[symmetric] same_shell_maxjid[OF s[of BG]] same_shell_refl
          del: append.simps)
  qed (auto simp: eval_cmd_def same_shell_refl split: prod.splits)
  from same crash exits quit show ?thesis by blast
qed

section \<open>Job ids\<close>

text \<open>
  Sixteen jobs are added, the second and third end, and two more are added: the first gets
  job id 17, above the maximum, and the second gets job id 1, which the first job still has.
\<close>

theorem jid_duplicate:
  "let full = fold (\<lambda>p sh. fst (addjob p BG [] sh)) [101, 102, 103, 104, 105, 106, 107, 108, 109, 110, 111, 112, 113, 114, 115, 116] init_shell;
       sh = fold (\<lambda>p sh. fst (deletejob p sh)) [102, 103] full;
       sh = fst (addjob 118 BG [] (fst (addjob 117 BG [] sh)))
   in pid2jid (jobs sh) 117 = 17 \<and> pid2jid (jobs sh) 118 = 1 \<and> pid2jid (jobs sh) 101 = 1 \<and>
      getjobjid (jobs sh) 1 = Some 0"
  by code_simp

end
