(* ===== verification/CombineLoops.thy ===== *)
theory CombineLoops
  imports Prelude "HOL-Library.Signed_Division"
begin

text \<open>
  The vectors of \<open>csapp-master/opt/vec.c\<close> and the loops of the combining functions of
  \<open>csapp-master/opt/combine.c\<close>. Memory is a function from element addresses to values of the
  type \<open>data_t\<close> (a byte address divided by the element size), so a pointer into an array is an
  integer, pointer arithmetic is integer arithmetic, and an access outside of an array reads
  whatever is there. The destination pointer of a combining function is an address too and may
  lie inside the vector.
\<close>

section \<open>Vectors\<close>

record vec_rec =
  len :: int
  data :: int
  allocated_len :: int

type_synonym 'a mem = "int \<Rightarrow> 'a"

text \<open>
  \<open>malloc\<close> of the header succeeds or not, \<open>calloc\<close> returns an address or NULL and clears the
  elements; the address of an absent array is not used.
\<close>

definition calloc_elems :: "'a \<Rightarrow> int \<Rightarrow> int \<Rightarrow> 'a mem \<Rightarrow> 'a mem" where
  "calloc_elems zero a n m = (\<lambda>x. if a \<le> x \<and> x < a + n then zero else m x)"

definition new_vec :: "'a \<Rightarrow> bool \<Rightarrow> int option \<Rightarrow> int \<Rightarrow> 'a mem \<Rightarrow> (vec_rec \<times> 'a mem) option" where
  "new_vec zero hdr arr n m =
     (if \<not> hdr then None
      else if n > 0 then
        (case arr of None \<Rightarrow> None
         | Some a \<Rightarrow> Some (\<lparr>len = n, data = a, allocated_len = n\<rparr>, calloc_elems zero a n m))
      else Some (\<lparr>len = n, data = 0, allocated_len = n\<rparr>, m))"

text \<open>The value stored in \<open>*dest\<close> by a call that returns 1; \<open>None\<close> is the return value 0.\<close>

definition get_vec_element :: "vec_rec \<Rightarrow> int \<Rightarrow> 'a mem \<Rightarrow> 'a option" where
  "get_vec_element v index m = (if index < 0 \<or> index \<ge> len v then None else Some (m (data v + index)))"

definition vec_length :: "vec_rec \<Rightarrow> int" where
  "vec_length v = len v"

definition get_vec_start :: "vec_rec \<Rightarrow> int" where
  "get_vec_start v = data v"

definition set_vec_element :: "vec_rec \<Rightarrow> int \<Rightarrow> 'a \<Rightarrow> 'a mem \<Rightarrow> 'a mem \<times> int" where
  "set_vec_element v index val m =
     (if index < 0 \<or> index \<ge> len v then (m, 0) else (m(data v + index := val), 1))"

text \<open>The result of \<open>calloc\<close> is stored without a check; \<open>a\<close> is the address it returns.\<close>

definition set_vec_length :: "'a \<Rightarrow> int \<Rightarrow> int \<Rightarrow> vec_rec \<times> 'a mem \<Rightarrow> vec_rec \<times> 'a mem" where
  "set_vec_length zero a newlen vm =
     (case vm of (v, m) \<Rightarrow>
        (let (v, m) = (if newlen > allocated_len v
               then (v\<lparr>data := a, allocated_len := newlen\<rparr>, calloc_elems zero a newlen m) else (v, m))
         in (v\<lparr>len := newlen\<rparr>, m)))"

text \<open>A combining function reads the vector and stores its result at \<open>dest\<close>; \<open>OP\<close> and \<open>IDENT\<close> are macros.\<close>

type_synonym 'a combiner = "('a \<Rightarrow> 'a \<Rightarrow> 'a) \<Rightarrow> 'a \<Rightarrow> vec_rec \<Rightarrow> int \<Rightarrow> 'a mem \<Rightarrow> 'a mem"

section \<open>Counted loops\<close>

text \<open>
  \<open>for (; i < limit; i += k) s = body(i, s)\<close>, for an index or a pointer \<open>i\<close>; the final index
  and state are returned. The increments \<open>k\<close> of the source are positive literals.
\<close>

function for_by :: "nat \<Rightarrow> int \<Rightarrow> int \<Rightarrow> (int \<Rightarrow> 's \<Rightarrow> 's) \<Rightarrow> 's \<Rightarrow> int \<times> 's" where
  "for_by k i limit body s = (if 0 < k \<and> i < limit then for_by k (i + int k) limit body (body i s) else (i, s))"
  by pat_completeness auto
termination
  by (relation "measure (\<lambda>(k, i, limit, body, s). nat (limit - i))") auto
declare for_by.simps [simp del]

text \<open>The \<open>n\<close> elements from address \<open>a\<close> on.\<close>

definition elems :: "'a mem \<Rightarrow> int \<Rightarrow> nat \<Rightarrow> 'a list" where
  "elems m a n = map (\<lambda>j. m (a + int j)) [0..<n]"

lemma elems_0 [simp]: "elems m a 0 = []" by (simp add: elems_def)
lemma elems_Suc: "elems m a (Suc n) = elems m a n @ [m (a + int n)]" by (simp add: elems_def)
lemma elems_add: "elems m a (n + k) = elems m a n @ elems m (a + int n) k"
  by (induction k) (simp_all add: elems_Suc add.assoc)

lemma length_elems [simp]: "length (elems m a n) = n"
  by (simp add: elems_def)

lemma elems_Cons: "elems m a (Suc n) = m a # elems m (a + 1) n"
  using elems_add[of m a 1 n] by (simp add: elems_def)

lemma elems_numeral: "elems m a (numeral k) = m a # elems m (a + 1) (pred_numeral k)"
  by (simp only: numeral_eq_Suc elems_Cons)

lemmas elems_eval = elems_numeral elems_Cons pred_numeral_simps elems_0

text \<open>
  A loop that takes \<open>k\<close> elements at a time and stays within \<open>hi\<close> has consumed a prefix when it
  ends: a relation between the elements consumed and the loop's state is carried along.
\<close>

lemma for_by_consumes:
  assumes k: "0 < k" and lim: "\<And>i. lo \<le> i \<Longrightarrow> i < limit \<Longrightarrow> int k dvd i - lo \<Longrightarrow> i + int k \<le> hi"
    and body: "\<And>i xs s. lo \<le> i \<Longrightarrow> i + int k \<le> hi \<Longrightarrow> int (length xs) = i - lo \<Longrightarrow> R xs s \<Longrightarrow>
      R (xs @ elems m (b + i) k) (body i s)"
    and "R (elems m (b + lo) (nat (i - lo))) s" and "lo \<le> i" and "i \<le> hi" and "int k dvd i - lo"
  obtains j s' where "for_by k i limit body s = (j, s')" "R (elems m (b + lo) (nat (j - lo))) s'"
    "lo \<le> j" "j \<le> hi" "limit \<le> j"
proof -
  have "\<exists>j s'. for_by k i limit body s = (j, s') \<and> R (elems m (b + lo) (nat (j - lo))) s' \<and> lo \<le> j \<and> j \<le> hi \<and> limit \<le> j"
    using assms(4-7)
  proof (induction "nat (limit - i)" arbitrary: i s rule: less_induct)
    case less
    show ?case
    proof (cases "i < limit")
      case False
      with k less.prems show ?thesis by (simp add: for_by.simps[of k i])
    next
      case True
      then have step: "i + int k \<le> hi" using lim less.prems by blast
      have "nat (i + int k - lo) = nat (i - lo) + k" using less.prems by simp
      moreover have "b + lo + int (nat (i - lo)) = b + i" using less.prems by simp
      ultimately have "R (elems m (b + lo) (nat (i + int k - lo))) (body i s)"
        using body[OF less.prems(2) step _ less.prems(1)] less.prems(2) by (simp only: elems_add length_elems)
      moreover have "i + int k - lo = (i - lo) + int k" by simp
      then have "int k dvd i + int k - lo" using less.prems(4) by (simp only: dvd_add dvd_refl)
      ultimately have "\<exists>j s'. for_by k (i + int k) limit body (body i s) = (j, s') \<and>
          R (elems m (b + lo) (nat (j - lo))) s' \<and> lo \<le> j \<and> j \<le> hi \<and> limit \<le> j"
        using less.hyps[of "i + int k" "body i s"] True k step less.prems by simp
      then show ?thesis using True k by (simp add: for_by.simps[of k i])
    qed
  qed
  then show thesis using that by blast
qed

lemma two_loops:
  assumes k: "0 < k" and lim: "\<And>i. lo \<le> i \<Longrightarrow> i < limit \<Longrightarrow> int k dvd i - lo \<Longrightarrow> i + int k \<le> hi"
    and body: "\<And>i xs s. R xs s \<Longrightarrow> R (xs @ elems m (b + i) k) (body i s)"
    and tail: "\<And>i xs s. R xs s \<Longrightarrow> R (xs @ [m (b + i)]) (tail i s)"
    and "R [] s" and "lo \<le> hi"
  shows "R (elems m (b + lo) (nat (hi - lo))) (case for_by k lo limit body s of (i, s) \<Rightarrow> snd (for_by 1 i hi tail s))"
proof -
  obtain j s' where 1: "for_by k lo limit body s = (j, s')" "R (elems m (b + lo) (nat (j - lo))) s'" "lo \<le> j" "j \<le> hi"
    by (rule for_by_consumes[of k lo limit hi R m b body lo s]) (use assms in simp_all)
  have tail': "R (xs @ elems m (b + i) 1) (tail i s)" if "R xs s" for i xs s
    using tail[OF that, of i] by (simp add: elems_def)
  obtain j' s'' where 2: "for_by 1 j hi tail s' = (j', s'')" "R (elems m (b + lo) (nat (j' - lo))) s''" "j' \<le> hi" "hi \<le> j'"
    by (rule for_by_consumes[of 1 lo hi hi R m b tail j s']) (use 1 tail' in simp_all)
  with 1 show ?thesis by simp
qed

section \<open>Loops that keep the order\<close>

text \<open>When each round folds its elements in order, the two loops together fold the whole array.\<close>

lemma in_order:
  assumes "0 < k" and "\<And>i. lo \<le> i \<Longrightarrow> i < limit \<Longrightarrow> int k dvd i - lo \<Longrightarrow> i + int k \<le> hi"
    and "\<And>i s. body i s = foldl opr s (elems m (b + i) k)" and "\<And>i s. tail i s = opr s (m (b + i))"
    and "lo \<le> hi"
  shows "(case for_by k lo limit body s of (i, s) \<Rightarrow> case for_by 1 i hi tail s of (i, s) \<Rightarrow> F s) =
    F (foldl opr s (elems m (b + lo) (nat (hi - lo))))"
  using two_loops[of k lo limit hi "\<lambda>xs t. t = foldl opr s xs" m b body tail s] assms
  by (simp add: case_prod_beta)

lemmas in_order_ptr = in_order[where b = 0, unfolded add_0]

lemma one_loop:
  assumes "\<And>i s. body i s = opr s (m (b + i))" and "lo \<le> hi"
  shows "(case for_by 1 lo hi body s of (i, s) \<Rightarrow> F s) = F (foldl opr s (elems m (b + lo) (nat (hi - lo))))"
  using in_order[of 1 lo lo hi body opr m b body F s] assms by (simp add: for_by.simps[of "Suc 0" lo lo] elems_def)

lemma over_limit:
  assumes "int k dvd i - lo" and "i < lo + n - n mod int k" and "0 < k"
  shows "i + int k \<le> lo + n"
proof -
  obtain q where q: "i - lo = int k * q" using assms(1) by (elim dvdE)
  have "int k * q < int k * (n div int k)" using assms(2) q by (simp add: minus_mod_eq_mult_div[symmetric])
  then have "q + 1 \<le> n div int k" by (simp add: mult_less_cancel_left)
  then have "int k * (q + 1) \<le> int k * (n div int k)" by (intro mult_left_mono) simp_all
  also have "int k * (n div int k) \<le> n" 
    using pos_mod_sign[of "int k" n] assms(3) by (simp add: minus_mod_eq_mult_div[symmetric])
  finally show ?thesis using q by (simp add: algebra_simps)
qed
section \<open>Loops that reorder\<close>

text \<open>
  An operator whose operands may be regrouped and reordered: what the functions with several
  accumulators and those with a different association rely on.
\<close>

locale comm_ops =
  fixes opr :: "'a \<Rightarrow> 'a \<Rightarrow> 'a" and ident :: 'a
  assumes assoc: "opr (opr a b) c = opr a (opr b c)" and comm: "opr a b = opr b a" and left_ident: "opr ident a = a"
begin

lemma left_comm: "opr b (opr a c) = opr a (opr b c)"
  by (metis assoc comm)

lemma right_ident: "opr a ident = a"
  using left_ident comm by metis

lemmas ac = assoc comm left_comm left_ident right_ident

lemma foldl_start: "foldl opr a xs = opr a (foldl opr ident xs)"
proof (induction xs arbitrary: a)
  case (Cons x xs)
  show ?case using Cons[of "opr a x"] Cons[of "opr ident x"] by (simp add: ac)
qed (simp add: right_ident)

lemma reassociated:
  assumes "0 < k" and "\<And>i. lo \<le> i \<Longrightarrow> i < limit \<Longrightarrow> int k dvd i - lo \<Longrightarrow> i + int k \<le> hi"
    and body: "\<And>i s. fin (body i s) = opr (fin s) (foldl opr ident (elems m (b + i) k))"
    and tail: "\<And>i s. fin (tail i s) = opr (fin s) (m (b + i))"
    and s: "fin s = ident" and "lo \<le> hi"
  shows "(case for_by k lo limit body s of (i, s) \<Rightarrow> case for_by 1 i hi tail s of (i, s) \<Rightarrow> dst (fin s)) =
    dst (foldl opr ident (elems m (b + lo) (nat (hi - lo))))"
proof -
  have "fin (body i s) = foldl opr ident (xs @ elems m (b + i) k)" if "fin s = foldl opr ident xs" for xs i s
    using body that foldl_start[of "foldl opr ident xs"] by simp
  moreover have "fin (tail i s) = foldl opr ident (xs @ [m (b + i)])" if "fin s = foldl opr ident xs" for xs i s
    using tail that by simp
  ultimately show ?thesis
    using two_loops[of k lo limit hi "\<lambda>xs t. fin t = foldl opr ident xs" m b body tail s] assms(1,2,5,6)
    by (simp add: case_prod_beta)
qed
end

end
