(* ===== verification/Combine.thy ===== *)
theory Combine
  imports CombineLoops
begin

text \<open>
  The functions of \<open>csapp-master/opt/combine.c\<close> that apply the operator in the order of the
  vector: through the vector interface and through pointers, with the result in memory or in
  a local variable, unrolled by 2 to 16. They agree for every operator, associative or not.
\<close>

section \<open>One element at a time\<close>

text \<open>
  The local \<open>val\<close> is uninitialised when \<open>get_vec_element\<close> returns 0. The length of the vector is
  not in the memory the loop writes, so calling \<open>vec_length\<close> in every round gives one value.
\<close>

definition combine1 :: "'a combiner" where
  "combine1 opr ident v dest m =
     (let m = m(dest := ident);
          (i, m) = for_by 1 0 (vec_length v) (\<lambda>i m.
            let val = the (get_vec_element v i m) in m(dest := opr (m dest) val)) m
      in m)"

definition combine2 :: "'a combiner" where
  "combine2 opr ident v dest m =
     (let len = vec_length v;
          m = m(dest := ident);
          (i, m) = for_by 1 0 len (\<lambda>i m.
            let val = the (get_vec_element v i m) in m(dest := opr (m dest) val)) m
      in m)"

definition combine3 :: "'a combiner" where
  "combine3 opr ident v dest m =
     (let len = vec_length v;
          data = get_vec_start v;
          m = m(dest := ident);
          (i, m) = for_by 1 0 len (\<lambda>i m. m(dest := opr (m dest) (m (data + i)))) m
      in m)"

definition combine3w :: "'a combiner" where
  "combine3w opr ident v dest m =
     (let len = vec_length v;
          data = get_vec_start v;
          acc = ident;
          m = m(dest := acc);
          (i, acc, m) = for_by 1 0 len (\<lambda>i (acc, m).
            let acc = opr acc (m (data + i)) in (acc, m(dest := acc))) (acc, m)
      in m)"

definition combine4 :: "'a combiner" where
  "combine4 opr ident v dest m =
     (let len = vec_length v;
          data = get_vec_start v;
          (i, acc) = for_by 1 0 len (\<lambda>i acc. opr acc (m (data + i))) ident
      in m(dest := acc))"

definition combine4b :: "'a combiner" where
  "combine4b opr ident v dest m =
     (let length = vec_length v;
          (i, acc) = for_by 1 0 length (\<lambda>i acc.
            if i \<ge> 0 \<and> i < len v then opr acc (m (data v + i)) else acc) ident
      in m(dest := acc))"

definition combine4p :: "'a combiner" where
  "combine4p opr ident v dest m =
     (let len = vec_length v;
          data = get_vec_start v;
          dend = data + len;
          (data, acc) = for_by 1 data dend (\<lambda>data acc. opr acc (m data)) ident
      in m(dest := acc))"

section \<open>Several elements at a time, indexed\<close>

definition combine5 :: "'a combiner" where
  "combine5 opr ident v dest m =
     (let len = vec_length v;
          limit = len - 1;
          data = get_vec_start v;
          (i, acc) = for_by 2 0 limit (\<lambda>i acc. opr (opr acc (m (data + i))) (m (data + i + 1))) ident;
          (i, acc) = for_by 1 i len (\<lambda>i acc. opr acc (m (data + i))) acc
      in m(dest := acc))"

definition unroll3a_combine :: "'a combiner" where
  "unroll3a_combine opr ident v dest m =
     (let len = vec_length v;
          limit = len - 2;
          data = get_vec_start v;
          (i, acc) = for_by 3 0 limit (\<lambda>i acc.
            let acc = opr acc (m (data + i)); acc = opr acc (m (data + i + 1))
            in opr acc (m (data + i + 2))) ident;
          (i, acc) = for_by 1 i len (\<lambda>i acc. opr acc (m (data + i))) acc
      in m(dest := acc))"

definition unroll4a_combine :: "'a combiner" where
  "unroll4a_combine opr ident v dest m =
     (let len = vec_length v;
          limit = len - 3;
          data = get_vec_start v;
          (i, acc) = for_by 4 0 limit (\<lambda>i acc.
            let acc = opr (opr acc (m (data + i))) (m (data + i + 1))
            in opr (opr acc (m (data + i + 2))) (m (data + i + 3))) ident;
          (i, acc) = for_by 1 i len (\<lambda>i acc. opr acc (m (data + i))) acc
      in m(dest := acc))"

definition unroll5a_combine :: "'a combiner" where
  "unroll5a_combine opr ident v dest m =
     (let len = vec_length v;
          limit = len - 4;
          data = get_vec_start v;
          (i, acc) = for_by 5 0 limit (\<lambda>i acc.
            let acc = opr (opr acc (m (data + i))) (m (data + i + 1));
                acc = opr (opr acc (m (data + i + 2))) (m (data + i + 3))
            in opr acc (m (data + i + 4))) ident;
          (i, acc) = for_by 1 i len (\<lambda>i acc. opr acc (m (data + i))) acc
      in m(dest := acc))"

definition unroll6a_combine :: "'a combiner" where
  "unroll6a_combine opr ident v dest m =
     (let len = vec_length v;
          limit = len - 5;
          data = get_vec_start v;
          (i, acc) = for_by 6 0 limit (\<lambda>i acc.
            let acc = opr (opr acc (m (data + i))) (m (data + i + 1));
                acc = opr (opr acc (m (data + i + 2))) (m (data + i + 3))
            in opr (opr acc (m (data + i + 4))) (m (data + i + 5))) ident;
          (i, acc) = for_by 1 i len (\<lambda>i acc. opr acc (m (data + i))) acc
      in m(dest := acc))"

definition unroll7a_combine :: "'a combiner" where
  "unroll7a_combine opr ident v dest m =
     (let len = vec_length v;
          limit = len - 6;
          data = get_vec_start v;
          (i, acc) = for_by 7 0 limit (\<lambda>i acc.
            let acc = opr (opr acc (m (data + i))) (m (data + i + 1));
                acc = opr (opr acc (m (data + i + 2))) (m (data + i + 3));
                acc = opr (opr acc (m (data + i + 4))) (m (data + i + 5))
            in opr acc (m (data + i + 6))) ident;
          (i, acc) = for_by 1 i len (\<lambda>i acc. opr acc (m (data + i))) acc
      in m(dest := acc))"

definition unroll8a_combine :: "'a combiner" where
  "unroll8a_combine opr ident v dest m =
     (let len = vec_length v;
          limit = len - 7;
          data = get_vec_start v;
          (i, acc) = for_by 8 0 limit (\<lambda>i acc.
            let acc = opr (opr acc (m (data + i))) (m (data + i + 1));
                acc = opr (opr acc (m (data + i + 2))) (m (data + i + 3));
                acc = opr (opr acc (m (data + i + 4))) (m (data + i + 5))
            in opr (opr acc (m (data + i + 6))) (m (data + i + 7))) ident;
          (i, acc) = for_by 1 i len (\<lambda>i acc. opr acc (m (data + i))) acc
      in m(dest := acc))"

definition unroll9a_combine :: "'a combiner" where
  "unroll9a_combine opr ident v dest m =
     (let len = vec_length v;
          limit = len - 8;
          data = get_vec_start v;
          (i, acc) = for_by 9 0 limit (\<lambda>i acc.
            let acc = opr (opr acc (m (data + i))) (m (data + i + 1));
                acc = opr (opr acc (m (data + i + 2))) (m (data + i + 3));
                acc = opr (opr acc (m (data + i + 4))) (m (data + i + 5));
                acc = opr (opr acc (m (data + i + 6))) (m (data + i + 7))
            in opr acc (m (data + i + 8))) ident;
          (i, acc) = for_by 1 i len (\<lambda>i acc. opr acc (m (data + i))) acc
      in m(dest := acc))"

definition unroll10a_combine :: "'a combiner" where
  "unroll10a_combine opr ident v dest m =
     (let len = vec_length v;
          limit = len - 9;
          data = get_vec_start v;
          (i, acc) = for_by 10 0 limit (\<lambda>i acc.
            let acc = opr (opr acc (m (data + i))) (m (data + i + 1));
                acc = opr (opr acc (m (data + i + 2))) (m (data + i + 3));
                acc = opr (opr acc (m (data + i + 4))) (m (data + i + 5));
                acc = opr (opr acc (m (data + i + 6))) (m (data + i + 7))
            in opr (opr acc (m (data + i + 8))) (m (data + i + 9))) ident;
          (i, acc) = for_by 1 i len (\<lambda>i acc. opr acc (m (data + i))) acc
      in m(dest := acc))"

definition unroll16a_combine :: "'a combiner" where
  "unroll16a_combine opr ident v dest m =
     (let len = vec_length v;
          limit = len - 15;
          data = get_vec_start v;
          (i, acc) = for_by 16 0 limit (\<lambda>i acc.
            let acc = opr (opr acc (m (data + i))) (m (data + i + 1));
                acc = opr (opr acc (m (data + i + 2))) (m (data + i + 3));
                acc = opr (opr acc (m (data + i + 4))) (m (data + i + 5));
                acc = opr (opr acc (m (data + i + 6))) (m (data + i + 7));
                acc = opr (opr acc (m (data + i + 8))) (m (data + i + 9));
                acc = opr (opr acc (m (data + i + 10))) (m (data + i + 11));
                acc = opr (opr acc (m (data + i + 12))) (m (data + i + 13))
            in opr (opr acc (m (data + i + 14))) (m (data + i + 15))) ident;
          (i, acc) = for_by 1 i len (\<lambda>i acc. opr acc (m (data + i))) acc
      in m(dest := acc))"

definition unroll2aw_combine :: "'a combiner" where
  "unroll2aw_combine opr ident v dest m =
     (let len = vec_length v;
          limit = len - 1;
          data = get_vec_start v;
          (i, acc) = for_by 2 0 limit (\<lambda>i acc.
            let acc = opr acc (m (data + i)); j = i + 2
            in opr acc (m (data + (j - 1)))) ident;
          (i, acc) = for_by 1 i len (\<lambda>i acc. opr acc (m (data + i))) acc
      in m(dest := acc))"

section \<open>Several elements at a time, with pointers\<close>

definition combine5p :: "'a combiner" where
  "combine5p opr ident v dest m =
     (let data = get_vec_start v;
          dend = data + vec_length v;
          dlimit = dend - 1;
          (data, acc) = for_by 2 data dlimit (\<lambda>data acc. opr (opr acc (m data)) (m (data + 1))) ident;
          (data, acc) = for_by 1 data dend (\<lambda>data acc. opr acc (m data)) acc
      in m(dest := acc))"

definition unroll2_combine :: "'a combiner" where
  "unroll2_combine opr ident v dest m =
     (let len = vec_length v;
          data = get_vec_start v;
          over = len smod 2;
          dend = data + len - over;
          (data, acc) = for_by 2 data dend (\<lambda>data acc.
            let acc = opr acc (m data)
            in opr acc (m (data + 1))) ident;
          dend = dend + over;
          (data, acc) = for_by 1 data dend (\<lambda>data acc. opr acc (m data)) acc
      in m(dest := acc))"

definition unroll3_combine :: "'a combiner" where
  "unroll3_combine opr ident v dest m =
     (let len = vec_length v;
          data = get_vec_start v;
          dend = data + len - 2;
          (data, acc) = for_by 3 data dend (\<lambda>data acc.
            let acc = opr acc (m data); acc = opr acc (m (data + 1))
            in opr acc (m (data + 2))) ident;
          dend = dend + 2;
          (data, acc) = for_by 1 data dend (\<lambda>data acc. opr acc (m data)) acc
      in m(dest := acc))"

definition unroll4_combine :: "'a combiner" where
  "unroll4_combine opr ident v dest m =
     (let len = vec_length v;
          data = get_vec_start v;
          dend = data + len - 3;
          (data, acc) = for_by 4 data dend (\<lambda>data acc.
            let acc = opr acc (m data); acc = opr acc (m (data + 1)); acc = opr acc (m (data + 2))
            in opr acc (m (data + 3))) ident;
          dend = dend + 3;
          (data, acc) = for_by 1 data dend (\<lambda>data acc. opr acc (m data)) acc
      in m(dest := acc))"

definition unroll8_combine :: "'a combiner" where
  "unroll8_combine opr ident v dest m =
     (let len = vec_length v;
          data = get_vec_start v;
          over = len smod 8;
          dend = data + len - over;
          (data, acc) = for_by 8 data dend (\<lambda>data acc.
            let acc = opr acc (m data); acc = opr acc (m (data + 1)); acc = opr acc (m (data + 2));
                acc = opr acc (m (data + 3)); acc = opr acc (m (data + 4)); acc = opr acc (m (data + 5));
                acc = opr acc (m (data + 6))
            in opr acc (m (data + 7))) ident;
          dend = dend + over;
          (data, acc) = for_by 1 data dend (\<lambda>data acc. opr acc (m data)) acc
      in m(dest := acc))"

definition unroll16_combine :: "'a combiner" where
  "unroll16_combine opr ident v dest m =
     (let len = vec_length v;
          data = get_vec_start v;
          over = len smod 16;
          dend = data + len - over;
          (data, acc) = for_by 16 data dend (\<lambda>data acc.
            let acc = opr acc (m data); acc = opr acc (m (data + 1)); acc = opr acc (m (data + 2));
                acc = opr acc (m (data + 3)); acc = opr acc (m (data + 4)); acc = opr acc (m (data + 5));
                acc = opr acc (m (data + 6)); acc = opr acc (m (data + 7)); acc = opr acc (m (data + 8));
                acc = opr acc (m (data + 9)); acc = opr acc (m (data + 10)); acc = opr acc (m (data + 11));
                acc = opr acc (m (data + 12)); acc = opr acc (m (data + 13)); acc = opr acc (m (data + 14))
            in opr acc (m (data + 15))) ident;
          dend = dend + over;
          (data, acc) = for_by 1 data dend (\<lambda>data acc. opr acc (m data)) acc
      in m(dest := acc))"

section \<open>Agreement\<close>

definition in_vec :: "vec_rec \<Rightarrow> int \<Rightarrow> bool" where
  "in_vec v a \<longleftrightarrow> data v \<le> a \<and> a < data v + len v"

text \<open>The specification: the fold of the operator over the elements, stored at the destination.\<close>

definition combined :: "'a combiner" where
  "combined opr ident v dest m = m(dest := foldl opr ident (elems m (data v) (nat (len v))))"

text \<open>With the result in memory, what the loop reads is what was there only when it is elsewhere.\<close>

lemma in_memory:
  assumes "\<not> in_vec v dest" and "0 \<le> len v"
    and body: "\<And>i m'. 0 \<le> i \<Longrightarrow> i < len v \<Longrightarrow> m' (data v + i) = m (data v + i) \<Longrightarrow>
      body i m' = m'(dest := opr (m' dest) (m (data v + i)))"
  shows "(case for_by 1 0 (len v) body (m(dest := ident)) of (i, m) \<Rightarrow> m) = combined opr ident v dest m"
proof -
  let ?R = "\<lambda>xs m'. m' = m(dest := foldl opr ident xs)"
  have step: "?R (xs @ elems m (data v + i) 1) (body i m')" if "0 \<le> i" "i + int 1 \<le> len v" "?R xs m'" for i xs m'
  proof -
    have "data v + i \<noteq> dest" using that(1,2) assms(1) by (auto simp: in_vec_def)
    with that body[of i m'] show ?thesis by (simp add: elems_eval)
  qed
  obtain j m' where "for_by 1 0 (len v) body (m(dest := ident)) = (j, m')"
    "?R (elems m (data v + 0) (nat (j - 0))) m'" "j \<le> len v" "len v \<le> j"
    by (rule for_by_consumes[where k = 1 and lo = 0 and limit = "len v" and hi = "len v" and R = ?R and b = "data v"
        and i = 0 and body = body and m = m and s = "m(dest := ident)"]) (use step assms(2) in simp_all)
  then show ?thesis by (simp add: combined_def)
qed

lemma combine_in_memory:
  assumes "0 \<le> len v" and "\<not> in_vec v dest"
  shows "combine1 opr ident v dest m = combined opr ident v dest m"
    "combine2 opr ident v dest m = combined opr ident v dest m"
    "combine3 opr ident v dest m = combined opr ident v dest m"
  unfolding combine1_def combine2_def combine3_def Let_def vec_length_def get_vec_start_def
  by - ((rule in_memory[OF assms(2,1)]; simp add: get_vec_element_def)+)

lemma combine3w_ok:
  assumes "0 \<le> len v" and "\<not> in_vec v dest"
  shows "combine3w opr ident v dest m = combined opr ident v dest m"
proof -
  let ?R = "\<lambda>xs (acc, m'). acc = foldl opr ident xs \<and> m' = m(dest := acc)"
  let ?body = "\<lambda>i (acc, m'). (opr acc (m' (data v + i)), m'(dest := opr acc (m' (data v + i))))"
  have step: "?R (xs @ elems m (data v + i) 1) (?body i s)" if "0 \<le> i" "i + int 1 \<le> len v" "?R xs s" for i xs s
  proof -
    have "data v + i \<noteq> dest" using that(1,2) assms(2) by (auto simp: in_vec_def)
    with that(3) show ?thesis by (cases s) (simp add: elems_eval)
  qed
  obtain j s where "for_by 1 0 (len v) ?body (ident, m(dest := ident)) = (j, s)"
    "?R (elems m (data v + 0) (nat (j - 0))) s" "j \<le> len v" "len v \<le> j"
    by (rule for_by_consumes[where k = 1 and lo = 0 and limit = "len v" and hi = "len v" and R = ?R and b = "data v"
        and i = 0 and body = ?body and m = m and s = "(ident, m(dest := ident))"]) (use step assms(1) in simp_all)
  then show ?thesis
    by (cases s) (simp add: combine3w_def combined_def Let_def vec_length_def get_vec_start_def)
qed

lemma combine4b_ok:
  assumes "0 \<le> len v"
  shows "combine4b opr ident v dest m = combined opr ident v dest m"
proof -
  let ?R = "\<lambda>xs acc. acc = foldl opr ident xs"
  let ?body = "\<lambda>i acc. if i \<ge> 0 \<and> i < len v then opr acc (m (data v + i)) else acc"
  obtain j acc where "for_by 1 0 (len v) ?body ident = (j, acc)"
    "?R (elems m (data v + 0) (nat (j - 0))) acc" "j \<le> len v" "len v \<le> j"
    by (rule for_by_consumes[where k = 1 and lo = 0 and limit = "len v" and hi = "len v" and R = ?R and b = "data v"
        and i = 0 and body = ?body and m = m and s = ident]) (use assms in \<open>simp_all add: elems_eval\<close>)
  then show ?thesis by (simp add: combine4b_def combined_def Let_def vec_length_def)
qed

lemma combine_one:
  assumes "0 \<le> len v"
  shows "combine4 opr ident v dest m = combined opr ident v dest m"
    "combine4p opr ident v dest m = combined opr ident v dest m"
  unfolding combine4_def combine4p_def combined_def Let_def vec_length_def get_vec_start_def
  by - ((subst one_loop[where b = "data v" and m = m and opr = opr]; (use assms in simp)),
    (subst one_loop[where b = 0 and m = m and opr = opr]; (use assms in simp)))

lemmas combine_array_defs = combine5_def unroll3a_combine_def unroll2aw_combine_def unroll4a_combine_def
  unroll5a_combine_def unroll6a_combine_def unroll7a_combine_def unroll8a_combine_def unroll9a_combine_def
  unroll10a_combine_def unroll16a_combine_def

lemma combine_array:
  assumes "0 \<le> len v"
  shows "combine5 opr ident v dest m = combined opr ident v dest m"
    "unroll3a_combine opr ident v dest m = combined opr ident v dest m"
    "unroll2aw_combine opr ident v dest m = combined opr ident v dest m"
    "unroll4a_combine opr ident v dest m = combined opr ident v dest m"
    "unroll5a_combine opr ident v dest m = combined opr ident v dest m"
    "unroll6a_combine opr ident v dest m = combined opr ident v dest m"
    "unroll7a_combine opr ident v dest m = combined opr ident v dest m"
    "unroll8a_combine opr ident v dest m = combined opr ident v dest m"
    "unroll9a_combine opr ident v dest m = combined opr ident v dest m"
    "unroll10a_combine opr ident v dest m = combined opr ident v dest m"
    "unroll16a_combine opr ident v dest m = combined opr ident v dest m"
  unfolding combine_array_defs combined_def Let_def vec_length_def get_vec_start_def
  by - ((subst in_order[where b = "data v" and m = m and opr = opr];
      (use assms in \<open>simp add: elems_eval ac_simps\<close>))+)

lemmas combine_pointer_defs = combine5p_def unroll2_combine_def unroll3_combine_def unroll4_combine_def
  unroll8_combine_def unroll16_combine_def

text \<open>The remainder of the length: where the unrolled pointer loops stop.\<close>

lemma smod_nonneg: "0 \<le> n \<Longrightarrow> 0 < k \<Longrightarrow> n smod k = n mod (k::int)"
  by (cases "n = 0") (simp_all add: signed_modulo_int_def)

lemma combine_pointer:
  assumes "0 \<le> len v"
  shows "combine5p opr ident v dest m = combined opr ident v dest m"
    "unroll2_combine opr ident v dest m = combined opr ident v dest m"
    "unroll3_combine opr ident v dest m = combined opr ident v dest m"
    "unroll4_combine opr ident v dest m = combined opr ident v dest m"
    "unroll8_combine opr ident v dest m = combined opr ident v dest m"
    "unroll16_combine opr ident v dest m = combined opr ident v dest m"
  unfolding combine_pointer_defs combined_def Let_def vec_length_def get_vec_start_def diff_add_cancel
  by - ((subst in_order_ptr[where m = m and opr = opr];
      (use assms over_limit[of 2 _ "data v" "len v"] over_limit[of 8 _ "data v" "len v"] over_limit[of 16 _ "data v" "len v"]
        in \<open>simp add: elems_eval ac_simps smod_nonneg\<close>))+)

end
