(* ===== verification/CombineAcc.thy ===== *)
theory CombineAcc
  imports Combine
begin

text \<open>
  The functions of \<open>csapp-master/opt/combine.c\<close> with several accumulators: element \<open>i\<close> goes to
  one of 2 to 20 local variables, which are combined at the end. They compute the fold of the
  vector for every operator that may be regrouped and reordered.
\<close>

section \<open>Indexed\<close>

definition combine6 :: "'a combiner" where
  "combine6 opr ident v dest m =
     (let len = vec_length v;
          limit = len - 1;
          data = get_vec_start v;
          (i, accs) = for_by 2 0 limit (\<lambda>i (acc0, acc1).
            let acc0 = opr acc0 (m (data + i)); acc1 = opr acc1 (m (data + i + 1))
            in (acc0, acc1)) (ident, ident);
          (i, accs) = for_by 1 i len (\<lambda>i (acc0, acc1).
            let acc0 = opr acc0 (m (data + i))
            in (acc0, acc1)) accs
      in m(dest := (case accs of (acc0, acc1) \<Rightarrow> opr acc0 acc1)))"

definition unroll4x2a_combine :: "'a combiner" where
  "unroll4x2a_combine opr ident v dest m =
     (let len = vec_length v;
          limit = len - 3;
          data = get_vec_start v;
          (i, accs) = for_by 4 0 limit (\<lambda>i (acc0, acc1).
            let acc0 = opr acc0 (m (data + i)); acc1 = opr acc1 (m (data + i + 1));
                acc0 = opr acc0 (m (data + i + 2)); acc1 = opr acc1 (m (data + i + 3))
            in (acc0, acc1)) (ident, ident);
          (i, accs) = for_by 1 i len (\<lambda>i (acc0, acc1).
            let acc0 = opr acc0 (m (data + i))
            in (acc0, acc1)) accs
      in m(dest := (case accs of (acc0, acc1) \<Rightarrow> opr acc0 acc1)))"

definition unroll8x2a_combine :: "'a combiner" where
  "unroll8x2a_combine opr ident v dest m =
     (let len = vec_length v;
          limit = len - 7;
          data = get_vec_start v;
          (i, accs) = for_by 8 0 limit (\<lambda>i (acc0, acc1).
            let acc0 = opr acc0 (m (data + i)); acc1 = opr acc1 (m (data + i + 1));
                acc0 = opr acc0 (m (data + i + 2)); acc1 = opr acc1 (m (data + i + 3));
                acc0 = opr acc0 (m (data + i + 4)); acc1 = opr acc1 (m (data + i + 5));
                acc0 = opr acc0 (m (data + i + 6)); acc1 = opr acc1 (m (data + i + 7))
            in (acc0, acc1)) (ident, ident);
          (i, accs) = for_by 1 i len (\<lambda>i (acc0, acc1).
            let acc0 = opr acc0 (m (data + i))
            in (acc0, acc1)) accs
      in m(dest := (case accs of (acc0, acc1) \<Rightarrow> opr acc0 acc1)))"

definition unroll3x3a_combine :: "'a combiner" where
  "unroll3x3a_combine opr ident v dest m =
     (let len = vec_length v;
          limit = len - 2;
          data = get_vec_start v;
          (i, accs) = for_by 3 0 limit (\<lambda>i (acc0, acc1, acc2).
            let acc0 = opr acc0 (m (data + i)); acc1 = opr acc1 (m (data + i + 1));
                acc2 = opr acc2 (m (data + i + 2))
            in (acc0, acc1, acc2)) (ident, ident, ident);
          (i, accs) = for_by 1 i len (\<lambda>i (acc0, acc1, acc2).
            let acc0 = opr acc0 (m (data + i))
            in (acc0, acc1, acc2)) accs
      in m(dest := (case accs of (acc0, acc1, acc2) \<Rightarrow> opr (opr acc0 acc1) acc2)))"

definition unroll4x4a_combine :: "'a combiner" where
  "unroll4x4a_combine opr ident v dest m =
     (let len = vec_length v;
          limit = len - 3;
          data = get_vec_start v;
          (i, accs) = for_by 4 0 limit (\<lambda>i (acc0, acc1, acc2, acc3).
            let acc0 = opr acc0 (m (data + i)); acc1 = opr acc1 (m (data + i + 1));
                acc2 = opr acc2 (m (data + i + 2)); acc3 = opr acc3 (m (data + i + 3))
            in (acc0, acc1, acc2, acc3)) (ident, ident, ident, ident);
          (i, accs) = for_by 1 i len (\<lambda>i (acc0, acc1, acc2, acc3).
            let acc0 = opr acc0 (m (data + i))
            in (acc0, acc1, acc2, acc3)) accs
      in m(dest := (case accs of (acc0, acc1, acc2, acc3) \<Rightarrow> opr (opr acc0 acc1) (opr acc2 acc3))))"

definition unroll8x4a_combine :: "'a combiner" where
  "unroll8x4a_combine opr ident v dest m =
     (let len = vec_length v;
          limit = len - 7;
          data = get_vec_start v;
          (i, accs) = for_by 8 0 limit (\<lambda>i (acc0, acc1, acc2, acc3).
            let acc0 = opr acc0 (m (data + i)); acc1 = opr acc1 (m (data + i + 1));
                acc2 = opr acc2 (m (data + i + 2)); acc3 = opr acc3 (m (data + i + 3));
                acc0 = opr acc0 (m (data + i + 4)); acc1 = opr acc1 (m (data + i + 5));
                acc2 = opr acc2 (m (data + i + 6)); acc3 = opr acc3 (m (data + i + 7))
            in (acc0, acc1, acc2, acc3)) (ident, ident, ident, ident);
          (i, accs) = for_by 1 i len (\<lambda>i (acc0, acc1, acc2, acc3).
            let acc0 = opr acc0 (m (data + i))
            in (acc0, acc1, acc2, acc3)) accs
      in m(dest := (case accs of (acc0, acc1, acc2, acc3) \<Rightarrow> opr (opr (opr acc0 acc1) acc2) acc3)))"

definition unroll12x6a_combine :: "'a combiner" where
  "unroll12x6a_combine opr ident v dest m =
     (let len = vec_length v;
          limit = len - 11;
          data = get_vec_start v;
          (i, accs) = for_by 12 0 limit (\<lambda>i (acc0, acc1, acc2, acc3, acc4, acc5).
            let acc0 = opr acc0 (m (data + i)); acc0 = opr acc0 (m (data + i + 6));
                acc1 = opr acc1 (m (data + i + 1)); acc1 = opr acc1 (m (data + i + 7));
                acc2 = opr acc2 (m (data + i + 2)); acc2 = opr acc2 (m (data + i + 8));
                acc3 = opr acc3 (m (data + i + 3)); acc3 = opr acc3 (m (data + i + 9));
                acc4 = opr acc4 (m (data + i + 4)); acc4 = opr acc4 (m (data + i + 10));
                acc5 = opr acc5 (m (data + i + 5)); acc5 = opr acc5 (m (data + i + 11))
            in (acc0, acc1, acc2, acc3, acc4, acc5)) (ident, ident, ident, ident, ident, ident);
          (i, accs) = for_by 1 i len (\<lambda>i (acc0, acc1, acc2, acc3, acc4, acc5).
            let acc0 = opr acc0 (m (data + i))
            in (acc0, acc1, acc2, acc3, acc4, acc5)) accs
      in m(dest := (case accs of (acc0, acc1, acc2, acc3, acc4, acc5) \<Rightarrow>
            opr (opr (opr acc0 acc1) (opr acc2 acc3)) (opr acc4 acc5))))"

definition unroll12x12a_combine :: "'a combiner" where
  "unroll12x12a_combine opr ident v dest m =
     (let len = vec_length v;
          limit = len - 11;
          data = get_vec_start v;
          (i, accs) = for_by 12 0 limit (\<lambda>i (acc0, acc1, acc2, acc3, acc4, acc5, acc6, acc7, acc8, acc9,
            acc10, acc11).
            let acc0 = opr acc0 (m (data + i)); acc6 = opr acc6 (m (data + i + 6));
                acc1 = opr acc1 (m (data + i + 1)); acc7 = opr acc7 (m (data + i + 7));
                acc2 = opr acc2 (m (data + i + 2)); acc8 = opr acc8 (m (data + i + 8));
                acc3 = opr acc3 (m (data + i + 3)); acc9 = opr acc9 (m (data + i + 9));
                acc4 = opr acc4 (m (data + i + 4)); acc10 = opr acc10 (m (data + i + 10));
                acc5 = opr acc5 (m (data + i + 5)); acc11 = opr acc11 (m (data + i + 11))
            in (acc0, acc1, acc2, acc3, acc4, acc5, acc6, acc7, acc8, acc9,
              acc10, acc11)) (ident, ident, ident, ident, ident, ident, ident, ident, ident, ident,
              ident, ident);
          (i, accs) = for_by 1 i len (\<lambda>i (acc0, acc1, acc2, acc3, acc4, acc5, acc6, acc7, acc8, acc9,
            acc10, acc11).
            let acc0 = opr acc0 (m (data + i))
            in (acc0, acc1, acc2, acc3, acc4, acc5, acc6, acc7, acc8, acc9, acc10, acc11)) accs
      in m(dest := (case accs of (acc0, acc1, acc2, acc3, acc4, acc5, acc6, acc7, acc8, acc9,
        acc10, acc11) \<Rightarrow>
            opr (opr (opr (opr (opr (opr acc0 acc1) (opr acc2 acc3)) (opr acc4 acc5)) (opr acc6 acc7)) (opr acc8 acc9)) (opr acc10 acc11))))"

definition unroll16x16a_combine :: "'a combiner" where
  "unroll16x16a_combine opr ident v dest m =
     (let len = vec_length v;
          limit = len - 15;
          data = get_vec_start v;
          (i, accs) = for_by 16 0 limit (\<lambda>i (acc0, acc1, acc2, acc3, acc4, acc5, acc6, acc7, acc8, acc9,
            acc10, acc11, acc12, acc13, acc14, acc15).
            let acc0 = opr acc0 (m (data + i)); acc6 = opr acc6 (m (data + i + 6));
                acc1 = opr acc1 (m (data + i + 1)); acc7 = opr acc7 (m (data + i + 7));
                acc2 = opr acc2 (m (data + i + 2)); acc8 = opr acc8 (m (data + i + 8));
                acc3 = opr acc3 (m (data + i + 3)); acc9 = opr acc9 (m (data + i + 9));
                acc4 = opr acc4 (m (data + i + 4)); acc10 = opr acc10 (m (data + i + 10));
                acc5 = opr acc5 (m (data + i + 5)); acc11 = opr acc11 (m (data + i + 11));
                acc12 = opr acc12 (m (data + i + 12)); acc13 = opr acc13 (m (data + i + 13));
                acc14 = opr acc14 (m (data + i + 14)); acc15 = opr acc15 (m (data + i + 15))
            in (acc0, acc1, acc2, acc3, acc4, acc5, acc6, acc7, acc8, acc9,
              acc10, acc11, acc12, acc13, acc14, acc15)) (ident, ident, ident, ident, ident, ident, ident, ident, ident, ident,
              ident, ident, ident, ident, ident, ident);
          (i, accs) = for_by 1 i len (\<lambda>i (acc0, acc1, acc2, acc3, acc4, acc5, acc6, acc7, acc8, acc9,
            acc10, acc11, acc12, acc13, acc14, acc15).
            let acc0 = opr acc0 (m (data + i))
            in (acc0, acc1, acc2, acc3, acc4, acc5, acc6, acc7, acc8, acc9,
              acc10, acc11, acc12, acc13, acc14, acc15)) accs
      in m(dest := (case accs of (acc0, acc1, acc2, acc3, acc4, acc5, acc6, acc7, acc8, acc9,
        acc10, acc11, acc12, acc13, acc14, acc15) \<Rightarrow>
            opr (opr (opr (opr (opr acc0 acc1) (opr acc2 acc3)) (opr acc4 acc5))
              (opr (opr (opr acc6 acc7) (opr acc8 acc9)) (opr acc10 acc11)))
              (opr (opr acc12 acc13) (opr acc14 acc15)))))"

definition unroll20x20a_combine :: "'a combiner" where
  "unroll20x20a_combine opr ident v dest m =
     (let len = vec_length v;
          limit = len - 19;
          data = get_vec_start v;
          (i, accs) = for_by 20 0 limit (\<lambda>i (acc0, acc1, acc2, acc3, acc4, acc5, acc6, acc7, acc8, acc9,
            acc10, acc11, acc12, acc13, acc14, acc15, acc16, acc17, acc18, acc19).
            let acc0 = opr acc0 (m (data + i)); acc6 = opr acc6 (m (data + i + 6));
                acc1 = opr acc1 (m (data + i + 1)); acc7 = opr acc7 (m (data + i + 7));
                acc2 = opr acc2 (m (data + i + 2)); acc8 = opr acc8 (m (data + i + 8));
                acc3 = opr acc3 (m (data + i + 3)); acc9 = opr acc9 (m (data + i + 9));
                acc4 = opr acc4 (m (data + i + 4)); acc10 = opr acc10 (m (data + i + 10));
                acc5 = opr acc5 (m (data + i + 5)); acc11 = opr acc11 (m (data + i + 11));
                acc12 = opr acc12 (m (data + i + 12)); acc13 = opr acc13 (m (data + i + 13));
                acc14 = opr acc14 (m (data + i + 14)); acc15 = opr acc15 (m (data + i + 15));
                acc16 = opr acc16 (m (data + i + 16)); acc17 = opr acc17 (m (data + i + 17));
                acc18 = opr acc18 (m (data + i + 18)); acc19 = opr acc19 (m (data + i + 19))
            in (acc0, acc1, acc2, acc3, acc4, acc5, acc6, acc7, acc8, acc9,
              acc10, acc11, acc12, acc13, acc14, acc15, acc16, acc17, acc18, acc19)) (ident, ident, ident, ident, ident, ident, ident, ident, ident, ident,
              ident, ident, ident, ident, ident, ident, ident, ident, ident, ident);
          (i, accs) = for_by 1 i len (\<lambda>i (acc0, acc1, acc2, acc3, acc4, acc5, acc6, acc7, acc8, acc9,
            acc10, acc11, acc12, acc13, acc14, acc15, acc16, acc17, acc18, acc19).
            let acc0 = opr acc0 (m (data + i))
            in (acc0, acc1, acc2, acc3, acc4, acc5, acc6, acc7, acc8, acc9,
              acc10, acc11, acc12, acc13, acc14, acc15, acc16, acc17, acc18, acc19)) accs
      in m(dest := (case accs of (acc0, acc1, acc2, acc3, acc4, acc5, acc6, acc7, acc8, acc9,
        acc10, acc11, acc12, acc13, acc14, acc15, acc16, acc17, acc18, acc19) \<Rightarrow>
            opr (opr (opr (opr (opr acc0 acc1) (opr acc2 acc3)) (opr acc4 acc5))
              (opr (opr (opr acc6 acc7) (opr acc8 acc9)) (opr acc10 acc11)))
              (opr (opr (opr acc12 acc13) (opr acc14 acc15)) (opr (opr acc16 acc17) (opr acc18 acc19))))))"

definition unroll5x5a_combine :: "'a combiner" where
  "unroll5x5a_combine opr ident v dest m =
     (let len = vec_length v;
          limit = len - 4;
          data = get_vec_start v;
          (i, accs) = for_by 5 0 limit (\<lambda>i (acc0, acc1, acc2, acc3, acc4).
            let acc0 = opr acc0 (m (data + i)); acc1 = opr acc1 (m (data + i + 1));
                acc2 = opr acc2 (m (data + i + 2)); acc3 = opr acc3 (m (data + i + 3));
                acc4 = opr acc4 (m (data + i + 4))
            in (acc0, acc1, acc2, acc3, acc4)) (ident, ident, ident, ident, ident);
          (i, accs) = for_by 1 i len (\<lambda>i (acc0, acc1, acc2, acc3, acc4).
            let acc0 = opr acc0 (m (data + i))
            in (acc0, acc1, acc2, acc3, acc4)) accs
      in m(dest := (case accs of (acc0, acc1, acc2, acc3, acc4) \<Rightarrow>
            opr (opr acc0 acc1) (opr (opr acc2 acc3) acc4))))"

definition unroll6x6a_combine :: "'a combiner" where
  "unroll6x6a_combine opr ident v dest m =
     (let len = vec_length v;
          limit = len - 5;
          data = get_vec_start v;
          (i, accs) = for_by 6 0 limit (\<lambda>i (acc0, acc1, acc2, acc3, acc4, acc5).
            let acc0 = opr acc0 (m (data + i)); acc1 = opr acc1 (m (data + i + 1));
                acc2 = opr acc2 (m (data + i + 2)); acc3 = opr acc3 (m (data + i + 3));
                acc4 = opr acc4 (m (data + i + 4)); acc5 = opr acc5 (m (data + i + 5))
            in (acc0, acc1, acc2, acc3, acc4, acc5)) (ident, ident, ident, ident, ident, ident);
          (i, accs) = for_by 1 i len (\<lambda>i (acc0, acc1, acc2, acc3, acc4, acc5).
            let acc0 = opr acc0 (m (data + i))
            in (acc0, acc1, acc2, acc3, acc4, acc5)) accs
      in m(dest := (case accs of (acc0, acc1, acc2, acc3, acc4, acc5) \<Rightarrow>
            opr (opr (opr acc0 acc1) (opr acc2 acc3)) (opr acc4 acc5))))"

definition unroll7x7a_combine :: "'a combiner" where
  "unroll7x7a_combine opr ident v dest m =
     (let len = vec_length v;
          limit = len - 6;
          data = get_vec_start v;
          (i, accs) = for_by 7 0 limit (\<lambda>i (acc0, acc1, acc2, acc3, acc4, acc5, acc6).
            let acc0 = opr acc0 (m (data + i)); acc1 = opr acc1 (m (data + i + 1));
                acc2 = opr acc2 (m (data + i + 2)); acc3 = opr acc3 (m (data + i + 3));
                acc4 = opr acc4 (m (data + i + 4)); acc5 = opr acc5 (m (data + i + 5));
                acc6 = opr acc6 (m (data + i + 6))
            in (acc0, acc1, acc2, acc3, acc4, acc5, acc6)) (ident, ident, ident, ident, ident, ident, ident);
          (i, accs) = for_by 1 i len (\<lambda>i (acc0, acc1, acc2, acc3, acc4, acc5, acc6).
            let acc0 = opr acc0 (m (data + i))
            in (acc0, acc1, acc2, acc3, acc4, acc5, acc6)) accs
      in m(dest := (case accs of (acc0, acc1, acc2, acc3, acc4, acc5, acc6) \<Rightarrow>
            opr (opr (opr acc0 acc1) (opr acc2 acc3)) (opr (opr acc4 acc5) acc6))))"

definition unroll8x8a_combine :: "'a combiner" where
  "unroll8x8a_combine opr ident v dest m =
     (let len = vec_length v;
          limit = len - 7;
          data = get_vec_start v;
          (i, accs) = for_by 8 0 limit (\<lambda>i (acc0, acc1, acc2, acc3, acc4, acc5, acc6, acc7).
            let acc0 = opr acc0 (m (data + i)); acc1 = opr acc1 (m (data + i + 1));
                acc2 = opr acc2 (m (data + i + 2)); acc3 = opr acc3 (m (data + i + 3));
                acc4 = opr acc4 (m (data + i + 4)); acc5 = opr acc5 (m (data + i + 5));
                acc6 = opr acc6 (m (data + i + 6)); acc7 = opr acc7 (m (data + i + 7))
            in (acc0, acc1, acc2, acc3, acc4, acc5, acc6, acc7)) (ident, ident, ident, ident, ident, ident, ident, ident);
          (i, accs) = for_by 1 i len (\<lambda>i (acc0, acc1, acc2, acc3, acc4, acc5, acc6, acc7).
            let acc0 = opr acc0 (m (data + i))
            in (acc0, acc1, acc2, acc3, acc4, acc5, acc6, acc7)) accs
      in m(dest := (case accs of (acc0, acc1, acc2, acc3, acc4, acc5, acc6, acc7) \<Rightarrow>
            opr (opr (opr acc0 acc1) (opr acc2 acc3)) (opr (opr acc4 acc5) (opr acc6 acc7)))))"

definition unroll9x9a_combine :: "'a combiner" where
  "unroll9x9a_combine opr ident v dest m =
     (let len = vec_length v;
          limit = len - 8;
          data = get_vec_start v;
          (i, accs) = for_by 9 0 limit (\<lambda>i (acc0, acc1, acc2, acc3, acc4, acc5, acc6, acc7, acc8).
            let acc0 = opr acc0 (m (data + i)); acc1 = opr acc1 (m (data + i + 1));
                acc2 = opr acc2 (m (data + i + 2)); acc3 = opr acc3 (m (data + i + 3));
                acc4 = opr acc4 (m (data + i + 4)); acc5 = opr acc5 (m (data + i + 5));
                acc6 = opr acc6 (m (data + i + 6)); acc7 = opr acc7 (m (data + i + 7));
                acc8 = opr acc8 (m (data + i + 8))
            in (acc0, acc1, acc2, acc3, acc4, acc5, acc6, acc7, acc8)) (ident, ident, ident, ident, ident, ident, ident, ident, ident);
          (i, accs) = for_by 1 i len (\<lambda>i (acc0, acc1, acc2, acc3, acc4, acc5, acc6, acc7, acc8).
            let acc0 = opr acc0 (m (data + i))
            in (acc0, acc1, acc2, acc3, acc4, acc5, acc6, acc7, acc8)) accs
      in m(dest := (case accs of (acc0, acc1, acc2, acc3, acc4, acc5, acc6, acc7, acc8) \<Rightarrow>
            opr (opr (opr acc0 acc1) (opr acc2 acc3)) (opr (opr (opr acc4 acc5) (opr acc6 acc7)) acc8))))"

definition unroll10x10a_combine :: "'a combiner" where
  "unroll10x10a_combine opr ident v dest m =
     (let len = vec_length v;
          limit = len - 9;
          data = get_vec_start v;
          (i, accs) = for_by 10 0 limit (\<lambda>i (acc0, acc1, acc2, acc3, acc4, acc5, acc6, acc7, acc8, acc9).
            let acc0 = opr acc0 (m (data + i)); acc1 = opr acc1 (m (data + i + 1));
                acc2 = opr acc2 (m (data + i + 2)); acc3 = opr acc3 (m (data + i + 3));
                acc4 = opr acc4 (m (data + i + 4)); acc5 = opr acc5 (m (data + i + 5));
                acc6 = opr acc6 (m (data + i + 6)); acc7 = opr acc7 (m (data + i + 7));
                acc8 = opr acc8 (m (data + i + 8)); acc9 = opr acc9 (m (data + i + 9))
            in (acc0, acc1, acc2, acc3, acc4, acc5, acc6, acc7, acc8, acc9)) (ident, ident, ident, ident, ident, ident, ident, ident, ident, ident);
          (i, accs) = for_by 1 i len (\<lambda>i (acc0, acc1, acc2, acc3, acc4, acc5, acc6, acc7, acc8, acc9).
            let acc0 = opr acc0 (m (data + i))
            in (acc0, acc1, acc2, acc3, acc4, acc5, acc6, acc7, acc8, acc9)) accs
      in m(dest := (case accs of (acc0, acc1, acc2, acc3, acc4, acc5, acc6, acc7, acc8, acc9) \<Rightarrow>
            opr (opr (opr (opr acc0 acc1) (opr acc2 acc3)) (opr (opr acc4 acc5) (opr acc6 acc7))) (opr acc8 acc9))))"

section \<open>Two halves\<close>

definition unrollx2as_combine :: "'a combiner" where
  "unrollx2as_combine opr ident v dest m =
     (let len = vec_length v;
          limit = len sdiv 2;
          data = get_vec_start v;
          data2 = data + limit;
          (i, accs) = for_by 1 0 limit (\<lambda>i (acc0, acc1).
            let acc0 = opr acc0 (m (data + i)); acc1 = opr acc1 (m (data2 + i))
            in (acc0, acc1)) (ident, ident);
          (i, accs) = for_by 1 (limit * 2) len (\<lambda>i (acc0, acc1).
            let acc1 = opr acc1 (m (data + i))
            in (acc0, acc1)) accs
      in m(dest := (case accs of (acc0, acc1) \<Rightarrow> opr acc0 acc1)))"

definition unroll4x2as_combine :: "'a combiner" where
  "unroll4x2as_combine opr ident v dest m =
     (let len = vec_length v;
          limit = len sdiv 2;
          data = get_vec_start v;
          data2 = data + limit;
          (i, accs) = for_by 1 0 limit (\<lambda>i (acc0, acc1).
            let acc0 = opr acc0 (m (data + i)); acc1 = opr acc1 (m (data2 + i))
            in (acc0, acc1)) (ident, ident);
          (i, accs) = for_by 1 (limit * 2) len (\<lambda>i (acc0, acc1).
            let acc1 = opr acc1 (m (data + i))
            in (acc0, acc1)) accs
      in m(dest := (case accs of (acc0, acc1) \<Rightarrow> opr acc0 acc1)))"

section \<open>With pointers\<close>

definition unroll8x2_combine :: "'a combiner" where
  "unroll8x2_combine opr ident v dest m =
     (let len = vec_length v;
          data = get_vec_start v;
          dend = data + len - 7;
          (data, accs) = for_by 8 data dend (\<lambda>data (acc0, acc1).
            let acc0 = opr acc0 (m data); acc1 = opr acc1 (m (data + 1)); acc0 = opr acc0 (m (data + 2));
                acc1 = opr acc1 (m (data + 3)); acc0 = opr acc0 (m (data + 4)); acc1 = opr acc1 (m (data + 5));
                acc0 = opr acc0 (m (data + 6)); acc1 = opr acc1 (m (data + 7))
            in (acc0, acc1)) (ident, ident);
          dend = dend + 7;
          (data, accs) = for_by 1 data dend (\<lambda>data (acc0, acc1).
            let acc0 = opr acc0 (m data)
            in (acc0, acc1)) accs
      in m(dest := (case accs of (acc0, acc1) \<Rightarrow> opr acc0 acc1)))"

definition unroll9x3_combine :: "'a combiner" where
  "unroll9x3_combine opr ident v dest m =
     (let len = vec_length v;
          data = get_vec_start v;
          dend = data + len - 8;
          (data, accs) = for_by 9 data dend (\<lambda>data (acc0, acc1, acc2).
            let acc0 = opr acc0 (m data); acc1 = opr acc1 (m (data + 1)); acc2 = opr acc2 (m (data + 2));
                acc0 = opr acc0 (m (data + 3)); acc1 = opr acc1 (m (data + 4)); acc2 = opr acc2 (m (data + 5));
                acc0 = opr acc0 (m (data + 6)); acc1 = opr acc1 (m (data + 7)); acc2 = opr acc2 (m (data + 8))
            in (acc0, acc1, acc2)) (ident, ident, ident);
          dend = dend + 8;
          (data, accs) = for_by 1 data dend (\<lambda>data (acc0, acc1, acc2).
            let acc0 = opr acc0 (m data)
            in (acc0, acc1, acc2)) accs
      in m(dest := (case accs of (acc0, acc1, acc2) \<Rightarrow> opr (opr acc0 acc1) acc2)))"

definition unroll8x4_combine :: "'a combiner" where
  "unroll8x4_combine opr ident v dest m =
     (let len = vec_length v;
          data = get_vec_start v;
          dend = data + len - 7;
          (data, accs) = for_by 8 data dend (\<lambda>data (acc0, acc1, acc2, acc3).
            let acc0 = opr acc0 (m data); acc1 = opr acc1 (m (data + 1)); acc2 = opr acc2 (m (data + 2));
                acc3 = opr acc3 (m (data + 3)); acc0 = opr acc0 (m (data + 4)); acc1 = opr acc1 (m (data + 5));
                acc2 = opr acc2 (m (data + 6)); acc3 = opr acc3 (m (data + 7))
            in (acc0, acc1, acc2, acc3)) (ident, ident, ident, ident);
          dend = dend + 7;
          (data, accs) = for_by 1 data dend (\<lambda>data (acc0, acc1, acc2, acc3).
            let acc3 = opr acc3 (m data)
            in (acc0, acc1, acc2, acc3)) accs
      in m(dest := (case accs of (acc0, acc1, acc2, acc3) \<Rightarrow> opr (opr (opr acc3 acc0) acc1) acc2)))"

definition unroll8x8_combine :: "'a combiner" where
  "unroll8x8_combine opr ident v dest m =
     (let len = vec_length v;
          data = get_vec_start v;
          dend = data + len - 7;
          (data, accs) = for_by 8 data dend (\<lambda>data (acc0, acc1, acc2, acc3, acc4, acc5, acc6, acc7).
            let acc0 = opr acc0 (m data); acc1 = opr acc1 (m (data + 1)); acc2 = opr acc2 (m (data + 2));
                acc3 = opr acc3 (m (data + 3)); acc4 = opr acc4 (m (data + 4)); acc5 = opr acc5 (m (data + 5));
                acc6 = opr acc6 (m (data + 6)); acc7 = opr acc7 (m (data + 7))
            in (acc0, acc1, acc2, acc3, acc4, acc5, acc6, acc7)) (ident, ident, ident, ident, ident, ident, ident, ident);
          dend = dend + 7;
          (data, accs) = for_by 1 data dend (\<lambda>data (acc0, acc1, acc2, acc3, acc4, acc5, acc6, acc7).
            let acc0 = opr acc0 (m data)
            in (acc0, acc1, acc2, acc3, acc4, acc5, acc6, acc7)) accs
      in m(dest := (case accs of (acc0, acc1, acc2, acc3, acc4, acc5, acc6, acc7) \<Rightarrow>
            opr (opr (opr (opr (opr (opr (opr acc0 acc1) acc2) acc3) acc4) acc5) acc6) acc7)))"

section \<open>Agreement\<close>

lemmas combine_acc_defs = combine6_def unroll4x2a_combine_def unroll8x2a_combine_def unroll3x3a_combine_def
  unroll4x4a_combine_def unroll8x4a_combine_def unroll12x6a_combine_def unroll12x12a_combine_def
  unroll16x16a_combine_def unroll20x20a_combine_def unroll5x5a_combine_def unroll6x6a_combine_def
  unroll7x7a_combine_def unroll8x8a_combine_def unroll9x9a_combine_def unroll10x10a_combine_def

lemmas combine_acc_pointer_defs = unroll8x2_combine_def unroll9x3_combine_def unroll8x4_combine_def
  unroll8x8_combine_def

context comm_ops
begin

lemma combine_acc:
  assumes "0 \<le> len v"
  shows "combine6 opr ident v dest m = combined opr ident v dest m"
    "unroll4x2a_combine opr ident v dest m = combined opr ident v dest m"
    "unroll8x2a_combine opr ident v dest m = combined opr ident v dest m"
    "unroll3x3a_combine opr ident v dest m = combined opr ident v dest m"
    "unroll4x4a_combine opr ident v dest m = combined opr ident v dest m"
    "unroll8x4a_combine opr ident v dest m = combined opr ident v dest m"
    "unroll12x6a_combine opr ident v dest m = combined opr ident v dest m"
    "unroll12x12a_combine opr ident v dest m = combined opr ident v dest m"
    "unroll16x16a_combine opr ident v dest m = combined opr ident v dest m"
    "unroll20x20a_combine opr ident v dest m = combined opr ident v dest m"
    "unroll5x5a_combine opr ident v dest m = combined opr ident v dest m"
    "unroll6x6a_combine opr ident v dest m = combined opr ident v dest m"
    "unroll7x7a_combine opr ident v dest m = combined opr ident v dest m"
    "unroll8x8a_combine opr ident v dest m = combined opr ident v dest m"
    "unroll9x9a_combine opr ident v dest m = combined opr ident v dest m"
    "unroll10x10a_combine opr ident v dest m = combined opr ident v dest m"
  unfolding combine_acc_defs combined_def Let_def vec_length_def get_vec_start_def
  by - ((subst reassociated[where b = "data v" and m = m];
      (use assms in \<open>simp add: split_paired_all ac elems_eval ac_simps\<close>))+)

lemma combine_acc_pointer:
  assumes "0 \<le> len v"
  shows "unroll8x2_combine opr ident v dest m = combined opr ident v dest m"
    "unroll9x3_combine opr ident v dest m = combined opr ident v dest m"
    "unroll8x4_combine opr ident v dest m = combined opr ident v dest m"
    "unroll8x8_combine opr ident v dest m = combined opr ident v dest m"
  unfolding combine_acc_pointer_defs combined_def Let_def vec_length_def get_vec_start_def diff_add_cancel
  by - ((subst reassociated[where b = 0 and m = m, unfolded add_0];
      (use assms in \<open>simp add: split_paired_all ac elems_eval ac_simps\<close>))+)

text \<open>The two halves are consumed in parallel; an odd last element goes to the second accumulator.\<close>

lemma two_halves:
  assumes "0 \<le> len v"
  shows "unrollx2as_combine opr ident v dest m = combined opr ident v dest m"
proof -
  define h where "h = len v sdiv 2"
  have h: "h = len v div 2" "0 \<le> h" "h * 2 \<le> len v" "len v \<le> h * 2 + 1"
    using assms by (auto simp: h_def signed_divide_int_def sgn_if)
  let ?total = "foldl opr ident (elems m (data v) (nat (len v)))"
  let ?body = "\<lambda>i (acc0, acc1). (opr acc0 (m (data v + i)), opr acc1 (m (data v + h + i)))"
  let ?tail = "\<lambda>i (acc0, acc1). (acc0, opr acc1 (m (data v + i)))"
  let ?R = "\<lambda>xs (acc0, acc1). acc0 = foldl opr ident xs \<and>
    acc1 = foldl opr ident (elems m (data v + h) (length xs))"
  obtain j s where j: "for_by 1 0 h ?body (ident, ident) = (j, s)" "?R (elems m (data v + 0) (nat (j - 0))) s" "j \<le> h" "h \<le> j"
    by (rule for_by_consumes[where k = 1 and lo = 0 and limit = h and hi = h and R = ?R and b = "data v"
        and i = 0 and body = ?body and m = m and s = "(ident, ident)"]) (use h in \<open>auto simp: elems_Suc add.assoc\<close>)
  let ?S = "\<lambda>xs (acc0, acc1). opr acc0 acc1 = foldl opr (foldl opr ident (elems m (data v) (nat (h * 2)))) xs"
  have twice: "nat (h * 2) = nat h + nat h" using h(2) by arith
  have "elems m (data v) (nat (h * 2)) = elems m (data v) (nat h) @ elems m (data v + h) (nat h)"
    using h(2) by (simp add: twice elems_add)
  then have s: "?S [] s"
    using j h(2) foldl_start[of "foldl opr ident (elems m (data v) (nat h))"] by (cases s) (simp add: ac)
  obtain j' s' where j': "for_by 1 (h * 2) (len v) ?tail s = (j', s')"
    "?S (elems m (data v + h * 2) (nat (j' - h * 2))) s'" "j' \<le> len v" "len v \<le> j'"
    by (rule for_by_consumes[where k = 1 and lo = "h * 2" and limit = "len v" and hi = "len v" and R = ?S and b = "data v"
        and i = "h * 2" and body = ?tail and m = m and s = s]) (use h s in \<open>auto simp: elems_eval simp flip: assoc\<close>)
  have "elems m (data v) (nat (len v)) = elems m (data v) (nat (h * 2)) @ elems m (data v + h * 2) (nat (len v - h * 2))"
    using elems_add[of m "data v" "nat (h * 2)" "nat (len v - h * 2)"] h by (simp add: nat_add_distrib[symmetric])
  then have "(case s' of (acc0, acc1) \<Rightarrow> opr acc0 acc1) = ?total"
    using j' by (cases s') simp
  with j j' show ?thesis
    by (simp add: unrollx2as_combine_def combined_def vec_length_def get_vec_start_def Let_def h_def case_prod_beta)
qed

lemma two_halves_named_unrolled: "unroll4x2as_combine opr ident v dest m = unrollx2as_combine opr ident v dest m"
  by (simp add: unroll4x2as_combine_def unrollx2as_combine_def)

end

end
