(* ===== verification/CombineAssoc.thy ===== *)
theory CombineAssoc
  imports Combine
begin

text \<open>
  The functions of \<open>csapp-master/opt/combine.c\<close> with one accumulator and a different
  association: each round combines its elements among themselves first. They compute the fold
  of the vector for every operator that may be regrouped.
\<close>

definition combine7 :: "'a combiner" where
  "combine7 opr ident v dest m =
     (let len = vec_length v;
          limit = len - 1;
          data = get_vec_start v;
          (i, acc) = for_by 2 0 limit (\<lambda>i acc. opr acc (opr (m (data + i)) (m (data + i + 1)))) ident;
          (i, acc) = for_by 1 i len (\<lambda>i acc. opr acc (m (data + i))) acc
      in m(dest := acc))"

definition unroll3aa_combine :: "'a combiner" where
  "unroll3aa_combine opr ident v dest m =
     (let len = vec_length v;
          limit = len - 2;
          data = get_vec_start v;
          (i, acc) = for_by 3 0 limit (\<lambda>i acc. opr acc (opr (opr (m (data + i)) (m (data + i + 1))) (m (data + i + 2)))) ident;
          (i, acc) = for_by 1 i len (\<lambda>i acc. opr acc (m (data + i))) acc
      in m(dest := acc))"

definition unroll4aa_combine :: "'a combiner" where
  "unroll4aa_combine opr ident v dest m =
     (let len = vec_length v;
          limit = len - 3;
          data = get_vec_start v;
          (i, acc) = for_by 4 0 limit (\<lambda>i acc.
            let t1 = opr (m (data + i)) (m (data + i + 1)); t2 = opr (m (data + i + 2)) (m (data + i + 3))
            in opr acc (opr t1 t2)) ident;
          (i, acc) = for_by 1 i len (\<lambda>i acc. opr acc (m (data + i))) acc
      in m(dest := acc))"

definition unroll5aa_combine :: "'a combiner" where
  "unroll5aa_combine opr ident v dest m =
     (let len = vec_length v;
          limit = len - 4;
          data = get_vec_start v;
          (i, acc) = for_by 5 0 limit (\<lambda>i acc.
            let t1 = opr (m (data + i)) (m (data + i + 1)); t2 = opr (m (data + i + 2)) (m (data + i + 3));
                t3 = m (data + i + 4)
            in opr acc (opr (opr t1 t2) t3)) ident;
          (i, acc) = for_by 1 i len (\<lambda>i acc. opr acc (m (data + i))) acc
      in m(dest := acc))"

definition unroll6aa_combine :: "'a combiner" where
  "unroll6aa_combine opr ident v dest m =
     (let len = vec_length v;
          limit = len - 5;
          data = get_vec_start v;
          (i, acc) = for_by 6 0 limit (\<lambda>i acc.
            let t1 = opr (m (data + i)) (m (data + i + 1)); t2 = opr (m (data + i + 2)) (m (data + i + 3));
                t3 = opr (m (data + i + 4)) (m (data + i + 5))
            in opr acc (opr (opr t1 t2) t3)) ident;
          (i, acc) = for_by 1 i len (\<lambda>i acc. opr acc (m (data + i))) acc
      in m(dest := acc))"

definition unroll7aa_combine :: "'a combiner" where
  "unroll7aa_combine opr ident v dest m =
     (let len = vec_length v;
          limit = len - 6;
          data = get_vec_start v;
          (i, acc) = for_by 7 0 limit (\<lambda>i acc.
            let t1 = opr (m (data + i)) (m (data + i + 1)); t2 = opr (m (data + i + 2)) (m (data + i + 3));
                u1 = opr t1 t2; t3 = opr (m (data + i + 4)) (m (data + i + 5)); t4 = m (data + i + 6);
                u2 = opr t3 t4
            in opr acc (opr u1 u2)) ident;
          (i, acc) = for_by 1 i len (\<lambda>i acc. opr acc (m (data + i))) acc
      in m(dest := acc))"

definition unroll8aa_combine :: "'a combiner" where
  "unroll8aa_combine opr ident v dest m =
     (let len = vec_length v;
          limit = len - 7;
          data = get_vec_start v;
          (i, acc) = for_by 8 0 limit (\<lambda>i acc.
            let t1 = opr (m (data + i)) (m (data + i + 1)); t2 = opr (m (data + i + 2)) (m (data + i + 3));
                u1 = opr t1 t2; t3 = opr (m (data + i + 4)) (m (data + i + 5));
                t4 = opr (m (data + i + 6)) (m (data + i + 7)); u2 = opr t3 t4
            in opr acc (opr u1 u2)) ident;
          (i, acc) = for_by 1 i len (\<lambda>i acc. opr acc (m (data + i))) acc
      in m(dest := acc))"

definition unroll9aa_combine :: "'a combiner" where
  "unroll9aa_combine opr ident v dest m =
     (let len = vec_length v;
          limit = len - 8;
          data = get_vec_start v;
          (i, acc) = for_by 9 0 limit (\<lambda>i acc.
            let t1 = opr (m (data + i)) (m (data + i + 1)); t2 = opr (m (data + i + 2)) (m (data + i + 3));
                u1 = opr t1 t2; t3 = opr (m (data + i + 4)) (m (data + i + 5));
                t4 = opr (m (data + i + 6)) (m (data + i + 7)); t5 = m (data + i + 8); u2 = opr (opr t3 t4) t5
            in opr acc (opr u1 u2)) ident;
          (i, acc) = for_by 1 i len (\<lambda>i acc. opr acc (m (data + i))) acc
      in m(dest := acc))"

definition unroll10aa_combine :: "'a combiner" where
  "unroll10aa_combine opr ident v dest m =
     (let len = vec_length v;
          limit = len - 9;
          data = get_vec_start v;
          (i, acc) = for_by 10 0 limit (\<lambda>i acc.
            let t1 = opr (m (data + i)) (m (data + i + 1)); t2 = opr (m (data + i + 2)) (m (data + i + 3));
                u1 = opr t1 t2; t3 = opr (m (data + i + 4)) (m (data + i + 5));
                t4 = opr (m (data + i + 6)) (m (data + i + 7)); t5 = opr (m (data + i + 8)) (m (data + i + 9));
                u2 = opr (opr t3 t4) t5
            in opr acc (opr u1 u2)) ident;
          (i, acc) = for_by 1 i len (\<lambda>i acc. opr acc (m (data + i))) acc
      in m(dest := acc))"

definition unroll12aa_combine :: "'a combiner" where
  "unroll12aa_combine opr ident v dest m =
     (let len = vec_length v;
          limit = len - 11;
          data = get_vec_start v;
          (i, acc) = for_by 12 0 limit (\<lambda>i acc.
            let t1 = opr (m (data + i)) (m (data + i + 1)); t2 = opr (m (data + i + 2)) (m (data + i + 3));
                u1 = opr t1 t2; t3 = opr (m (data + i + 4)) (m (data + i + 5));
                t4 = opr (m (data + i + 6)) (m (data + i + 7)); u2 = opr t3 t4;
                t5 = opr (m (data + i + 8)) (m (data + i + 9));
                t6 = opr (m (data + i + 10)) (m (data + i + 11)); u3 = opr t5 t6
            in opr acc (opr (opr u1 u2) u3)) ident;
          (i, acc) = for_by 1 i len (\<lambda>i acc. opr acc (m (data + i))) acc
      in m(dest := acc))"

lemmas combine_assoc_defs = combine7_def unroll3aa_combine_def unroll4aa_combine_def unroll5aa_combine_def
  unroll6aa_combine_def unroll7aa_combine_def unroll8aa_combine_def unroll9aa_combine_def
  unroll10aa_combine_def unroll12aa_combine_def

context comm_ops
begin

lemma combine_assoc:
  assumes "0 \<le> len v"
  shows "combine7 opr ident v dest m = combined opr ident v dest m"
    "unroll3aa_combine opr ident v dest m = combined opr ident v dest m"
    "unroll4aa_combine opr ident v dest m = combined opr ident v dest m"
    "unroll5aa_combine opr ident v dest m = combined opr ident v dest m"
    "unroll6aa_combine opr ident v dest m = combined opr ident v dest m"
    "unroll7aa_combine opr ident v dest m = combined opr ident v dest m"
    "unroll8aa_combine opr ident v dest m = combined opr ident v dest m"
    "unroll9aa_combine opr ident v dest m = combined opr ident v dest m"
    "unroll10aa_combine opr ident v dest m = combined opr ident v dest m"
    "unroll12aa_combine opr ident v dest m = combined opr ident v dest m"
  unfolding combine_assoc_defs combined_def Let_def vec_length_def get_vec_start_def
  by - ((subst reassociated[where b = "data v" and m = m and fin = "\<lambda>acc. acc"];
      (use assms in \<open>simp add: ac elems_eval ac_simps\<close>))+)

end

end
