(* ===== verification/CombineSimd.thy ===== *)
theory CombineSimd
  imports CombineAcc CombineAssoc
begin

text \<open>
  The vector-instruction versions of \<open>csapp-master/opt/combine.c\<close>. A vector register of
  \<open>VBYTES\<close> bytes is a list of \<open>VSIZE\<close> elements and an operator on registers works elementwise.
  The number of elements left is kept in an \<open>int\<close>: the length is truncated to 32 bits, and it is
  converted to \<open>size_t\<close> where it is compared with \<open>VSIZE\<close>. The parameter \<open>esize\<close> is
  \<open>sizeof(data_t)\<close>; an address is a byte address divided by it.
\<close>

section \<open>Registers and loops\<close>

definition VSIZE :: "nat \<Rightarrow> nat" where
  "VSIZE esize = 32 div esize"

definition load_vec :: "nat \<Rightarrow> 'a mem \<Rightarrow> int \<Rightarrow> 'a list" where
  "load_vec esize m a = elems m a (VSIZE esize)"

definition vop :: "('a \<Rightarrow> 'a \<Rightarrow> 'a) \<Rightarrow> 'a list \<Rightarrow> 'a list \<Rightarrow> 'a list" where
  "vop opr xs ys = map2 opr xs ys"

text \<open>\<open>for (i = 0; i < VSIZE; i++) result = result OP accum[i]\<close>\<close>

definition sum_vec :: "('a \<Rightarrow> 'a \<Rightarrow> 'a) \<Rightarrow> nat \<Rightarrow> 'a \<Rightarrow> 'a list \<Rightarrow> 'a" where
  "sum_vec opr esize result accum = for_loop 0 (VSIZE esize) (\<lambda>i result. opr result (accum ! i)) result"

text \<open>Single steps until the address is a multiple of the register size.\<close>

lemma unat_dec_less: "w \<noteq> (0::int32) \<Longrightarrow> unat (w - 1) < unat w"
  by (simp add: unat_minus_one unat_gt_0 diff_less)

lemma int_size_t: "n < 2 ^ 31 \<Longrightarrow> int n mod 2 ^ 64 = int n"
  by simp

function align_loop :: "('a \<Rightarrow> 'a \<Rightarrow> 'a) \<Rightarrow> nat \<Rightarrow> 'a mem \<Rightarrow> int \<Rightarrow> int32 \<Rightarrow> 'a \<Rightarrow> int \<times> int32 \<times> 'a" where
  "align_loop opr esize m p cnt result =
     (if (int esize * p) mod 32 \<noteq> 0 \<and> cnt \<noteq> 0
      then align_loop opr esize m (p + 1) (cnt - 1) (opr result (m p)) else (p, cnt, result))"
  by pat_completeness auto
termination
  by (relation "measure (\<lambda>(opr, esize, m, p, cnt, result). unat cnt)") (simp_all add: unat_dec_less)

text \<open>The single steps at the end.\<close>

function rest_loop :: "('a \<Rightarrow> 'a \<Rightarrow> 'a) \<Rightarrow> 'a mem \<Rightarrow> int \<Rightarrow> int32 \<Rightarrow> 'a \<Rightarrow> int \<times> int32 \<times> 'a" where
  "rest_loop opr m p cnt result =
     (if cnt \<noteq> 0 then rest_loop opr m (p + 1) (cnt - 1) (opr result (m p)) else (p, cnt, result))"
  by pat_completeness auto
termination
  by (relation "measure (\<lambda>(opr, m, p, cnt, result). unat cnt)") (simp_all add: unat_dec_less)

text \<open>
  A stride of several registers per round. Strides are at most 384 elements; the bounds on the
  stride hold for all of them and make the loop end for every count, also a negative one.
\<close>

lemma unat_sub_less:
  assumes "s \<le> unat (scast (w::int32) :: uint64)" and "0 < s" and "s < 2 ^ 31"
  shows "unat (w - of_nat s) < unat w"
proof -
  have "s \<le> unat w"
  proof (cases "unat w < 2 ^ 31")
    case True
    then have "sint w = int (unat w)" using sint_small(1)[OF True] by simp
    then have "uint (scast w :: uint64) = int (unat w) mod 2 ^ 64"
      by (simp only: scast_eq uint_word_of_int) simp
    also have "\<dots> = int (unat w)" by (rule int_size_t[OF True])
    finally show ?thesis using assms(1) by (simp only: unat_eq_nat_uint nat_int)
  qed (use assms(3) in simp)
  moreover have "unat w < 2 ^ LENGTH(32)" by (rule unsigned_less)
  with calculation have "unat (of_nat s :: int32) = s" by (intro unat_below) simp
  ultimately show ?thesis using assms(2) by (subst unat_sub) (simp_all add: word_le_nat_alt)
qed

function chunk_loop :: "nat \<Rightarrow> (int \<Rightarrow> 's \<Rightarrow> 's) \<Rightarrow> int \<Rightarrow> int32 \<Rightarrow> 's \<Rightarrow> int \<times> int32 \<times> 's" where
  "chunk_loop stride body p cnt s =
     (if stride \<le> unat (scast cnt :: uint64) \<and> 0 < stride \<and> stride < 2 ^ 31
      then chunk_loop stride body (p + int stride) (cnt - of_nat stride) (body p s) else (p, cnt, s))"
  by pat_completeness auto
termination
  by (relation "measure (\<lambda>(stride, body, p, cnt, s). unat cnt)") (auto intro: unat_sub_less)

declare align_loop.simps [simp del] rest_loop.simps [simp del] chunk_loop.simps [simp del]

section \<open>One to twelve registers\<close>

definition simd_v1_combine :: "nat \<Rightarrow> 'a combiner" where
  "simd_v1_combine esize opr ident v dest m =
     (let data = get_vec_start v;
          cnt = word_of_int (vec_length v);
          result = ident;
          accum = replicate (VSIZE esize) ident;
          (data, cnt, result) = align_loop opr esize m data cnt result;
          (data, cnt, accum) = chunk_loop (VSIZE esize) (\<lambda>data accum.
            let chunk = load_vec esize m data
            in vop opr accum chunk) data cnt accum;
          (data, cnt, result) = rest_loop opr m data cnt result
      in m(dest := sum_vec opr esize result accum))"

definition simd_v2_combine :: "nat \<Rightarrow> 'a combiner" where
  "simd_v2_combine esize opr ident v dest m =
     (let data = get_vec_start v;
          cnt = word_of_int (vec_length v);
          result = ident;
          accum0 = replicate (VSIZE esize) ident;
          accum1 = accum0;
          (data, cnt, result) = align_loop opr esize m data cnt result;
          (data, cnt, accums) = chunk_loop (2 * 32 div esize) (\<lambda>data (accum0, accum1).
            let chunk0 = load_vec esize m data; chunk1 = load_vec esize m (data + int (VSIZE esize));
                accum0 = vop opr accum0 chunk0; accum1 = vop opr accum1 chunk1
            in (accum0, accum1)) data cnt (accum0, accum1);
          (data, cnt, result) = rest_loop opr m data cnt result;
          accum0 = (case accums of (accum0, accum1) \<Rightarrow>
            let accum0 = vop opr accum0 accum1
            in accum0)
      in m(dest := sum_vec opr esize result accum0))"

definition simd_v4_combine :: "nat \<Rightarrow> 'a combiner" where
  "simd_v4_combine esize opr ident v dest m =
     (let data = get_vec_start v;
          cnt = word_of_int (vec_length v);
          result = ident;
          accum0 = replicate (VSIZE esize) ident;
          accum1 = accum0; accum2 = accum0; accum3 = accum0;
          (data, cnt, result) = align_loop opr esize m data cnt result;
          (data, cnt, accums) = chunk_loop (4 * 32 div esize) (\<lambda>data (accum0, accum1, accum2, accum3).
            let chunk0 = load_vec esize m data; chunk1 = load_vec esize m (data + int (VSIZE esize));
                chunk2 = load_vec esize m (data + int (2 * 32 div esize));
                chunk3 = load_vec esize m (data + int (3 * 32 div esize)); accum0 = vop opr accum0 chunk0;
                accum1 = vop opr accum1 chunk1; accum2 = vop opr accum2 chunk2; accum3 = vop opr accum3 chunk3
            in (accum0, accum1, accum2, accum3)) data cnt (accum0, accum1, accum2, accum3);
          (data, cnt, result) = rest_loop opr m data cnt result;
          accum0 = (case accums of (accum0, accum1, accum2, accum3) \<Rightarrow>
            let accum0 = vop opr (vop opr accum0 accum1) (vop opr accum2 accum3)
            in accum0)
      in m(dest := sum_vec opr esize result accum0))"

definition simd_v8_combine :: "nat \<Rightarrow> 'a combiner" where
  "simd_v8_combine esize opr ident v dest m =
     (let data = get_vec_start v;
          cnt = word_of_int (vec_length v);
          result = ident;
          accum0 = replicate (VSIZE esize) ident;
          accum1 = accum0; accum2 = accum0; accum3 = accum0; accum4 = accum0; accum5 = accum0; accum6 = accum0;
          accum7 = accum0;
          (data, cnt, result) = align_loop opr esize m data cnt result;
          (data, cnt, accums) = chunk_loop (8 * 32 div esize) (\<lambda>data
              (accum0, accum1, accum2, accum3, accum4, accum5, accum6, accum7).
            let chunk0 = load_vec esize m data; chunk1 = load_vec esize m (data + int (VSIZE esize));
                chunk2 = load_vec esize m (data + int (2 * 32 div esize));
                chunk3 = load_vec esize m (data + int (3 * 32 div esize));
                chunk4 = load_vec esize m (data + int (4 * 32 div esize));
                chunk5 = load_vec esize m (data + int (5 * 32 div esize));
                chunk6 = load_vec esize m (data + int (6 * 32 div esize));
                chunk7 = load_vec esize m (data + int (7 * 32 div esize)); accum0 = vop opr accum0 chunk0;
                accum1 = vop opr accum1 chunk1; accum2 = vop opr accum2 chunk2; accum3 = vop opr accum3 chunk3;
                accum4 = vop opr accum4 chunk4; accum5 = vop opr accum5 chunk5; accum6 = vop opr accum6 chunk6;
                accum7 = vop opr accum7 chunk7
            in (accum0, accum1, accum2, accum3, accum4, accum5, accum6, accum7)) data cnt
            (accum0, accum1, accum2, accum3, accum4, accum5, accum6, accum7);
          (data, cnt, result) = rest_loop opr m data cnt result;
          accum0 = (case accums of (accum0, accum1, accum2, accum3, accum4, accum5, accum6, accum7) \<Rightarrow>
            let accum0 = vop opr (vop opr accum0 accum1) (vop opr accum2 accum3);
                accum0 = vop opr (vop opr accum0 (vop opr accum4 accum5)) (vop opr accum6 accum7)
            in accum0)
      in m(dest := sum_vec opr esize result accum0))"

definition simd_v10_combine :: "nat \<Rightarrow> 'a combiner" where
  "simd_v10_combine esize opr ident v dest m =
     (let data = get_vec_start v;
          cnt = word_of_int (vec_length v);
          result = ident;
          accum0 = replicate (VSIZE esize) ident;
          accum1 = accum0; accum2 = accum0; accum3 = accum0; accum4 = accum0; accum5 = accum0; accum6 = accum0;
          accum7 = accum0; accum8 = accum0; accum9 = accum0;
          (data, cnt, result) = align_loop opr esize m data cnt result;
          (data, cnt, accums) = chunk_loop (10 * 32 div esize) (\<lambda>data
              (accum0, accum1, accum2, accum3, accum4, accum5,
              accum6, accum7, accum8, accum9).
            let chunk0 = load_vec esize m data; chunk1 = load_vec esize m (data + int (VSIZE esize));
                chunk2 = load_vec esize m (data + int (2 * 32 div esize));
                chunk3 = load_vec esize m (data + int (3 * 32 div esize));
                chunk4 = load_vec esize m (data + int (4 * 32 div esize));
                chunk5 = load_vec esize m (data + int (5 * 32 div esize));
                chunk6 = load_vec esize m (data + int (6 * 32 div esize));
                chunk7 = load_vec esize m (data + int (7 * 32 div esize));
                chunk8 = load_vec esize m (data + int (8 * 32 div esize));
                chunk9 = load_vec esize m (data + int (9 * 32 div esize)); accum0 = vop opr accum0 chunk0;
                accum1 = vop opr accum1 chunk1; accum2 = vop opr accum2 chunk2; accum3 = vop opr accum3 chunk3;
                accum4 = vop opr accum4 chunk4; accum5 = vop opr accum5 chunk5; accum6 = vop opr accum6 chunk6;
                accum7 = vop opr accum7 chunk7; accum8 = vop opr accum8 chunk8; accum9 = vop opr accum9 chunk9
            in (accum0, accum1, accum2, accum3, accum4, accum5,
              accum6, accum7, accum8, accum9)) data cnt (accum0, accum1, accum2, accum3, accum4, accum5,
              accum6, accum7, accum8, accum9);
          (data, cnt, result) = rest_loop opr m data cnt result;
          accum0 = (case accums of (accum0, accum1, accum2, accum3, accum4, accum5,
              accum6, accum7, accum8, accum9) \<Rightarrow>
            let accum0 = vop opr (vop opr accum0 accum1) (vop opr accum2 accum3);
                accum0 = vop opr (vop opr accum0 (vop opr accum4 accum5)) (vop opr accum6 accum7);
                accum0 = vop opr accum0 (vop opr accum8 accum9)
            in accum0)
      in m(dest := sum_vec opr esize result accum0))"

definition simd_v12_combine :: "nat \<Rightarrow> 'a combiner" where
  "simd_v12_combine esize opr ident v dest m =
     (let data = get_vec_start v;
          cnt = word_of_int (vec_length v);
          result = ident;
          accum0 = replicate (VSIZE esize) ident;
          accum1 = accum0; accum2 = accum0; accum3 = accum0; accum4 = accum0; accum5 = accum0; accum6 = accum0;
          accum7 = accum0; accum8 = accum0; accum9 = accum0; accum10 = accum0; accum11 = accum0;
          (data, cnt, result) = align_loop opr esize m data cnt result;
          (data, cnt, accums) = chunk_loop (12 * 32 div esize) (\<lambda>data
              (accum0, accum1, accum2, accum3, accum4, accum5,
              accum6, accum7, accum8, accum9, accum10, accum11).
            let chunk0 = load_vec esize m data; chunk1 = load_vec esize m (data + int (VSIZE esize));
                chunk2 = load_vec esize m (data + int (2 * 32 div esize));
                chunk3 = load_vec esize m (data + int (3 * 32 div esize));
                chunk4 = load_vec esize m (data + int (4 * 32 div esize));
                chunk5 = load_vec esize m (data + int (5 * 32 div esize));
                chunk6 = load_vec esize m (data + int (6 * 32 div esize));
                chunk7 = load_vec esize m (data + int (7 * 32 div esize));
                chunk8 = load_vec esize m (data + int (8 * 32 div esize));
                chunk9 = load_vec esize m (data + int (9 * 32 div esize));
                chunk10 = load_vec esize m (data + int (10 * 32 div esize));
                chunk11 = load_vec esize m (data + int (11 * 32 div esize)); accum0 = vop opr accum0 chunk0;
                accum1 = vop opr accum1 chunk1; accum2 = vop opr accum2 chunk2; accum3 = vop opr accum3 chunk3;
                accum4 = vop opr accum4 chunk4; accum5 = vop opr accum5 chunk5; accum6 = vop opr accum6 chunk6;
                accum7 = vop opr accum7 chunk7; accum8 = vop opr accum8 chunk8; accum9 = vop opr accum9 chunk9;
                accum10 = vop opr accum10 chunk10; accum11 = vop opr accum11 chunk11
            in (accum0, accum1, accum2, accum3, accum4, accum5,
              accum6, accum7, accum8, accum9, accum10, accum11)) data cnt
            (accum0, accum1, accum2, accum3, accum4, accum5,
              accum6, accum7, accum8, accum9, accum10, accum11);
          (data, cnt, result) = rest_loop opr m data cnt result;
          accum0 = (case accums of (accum0, accum1, accum2, accum3, accum4, accum5,
              accum6, accum7, accum8, accum9, accum10, accum11) \<Rightarrow>
            let accum0 = vop opr (vop opr accum0 accum1) (vop opr accum2 accum3);
                accum0 = vop opr (vop opr accum0 (vop opr accum4 accum5)) (vop opr accum6 accum7);
                accum0 = vop opr (vop opr accum0 (vop opr accum8 accum9)) (vop opr accum10 accum11)
            in accum0)
      in m(dest := sum_vec opr esize result accum0))"

section \<open>One register, different association\<close>

definition simd_v2a_combine :: "nat \<Rightarrow> 'a combiner" where
  "simd_v2a_combine esize opr ident v dest m =
     (let data = get_vec_start v;
          cnt = word_of_int (vec_length v);
          result = ident;
          accum = replicate (VSIZE esize) ident;
          (data, cnt, result) = align_loop opr esize m data cnt result;
          (data, cnt, accum) = chunk_loop (2 * 32 div esize) (\<lambda>data accum.
            let chunk0 = load_vec esize m data; chunk1 = load_vec esize m (data + int (VSIZE esize))
            in vop opr accum (vop opr chunk0 chunk1)) data cnt accum;
          (data, cnt, result) = rest_loop opr m data cnt result
      in m(dest := sum_vec opr esize result accum))"

definition simd_v4a_combine :: "nat \<Rightarrow> 'a combiner" where
  "simd_v4a_combine esize opr ident v dest m =
     (let data = get_vec_start v;
          cnt = word_of_int (vec_length v);
          result = ident;
          accum = replicate (VSIZE esize) ident;
          (data, cnt, result) = align_loop opr esize m data cnt result;
          (data, cnt, accum) = chunk_loop (4 * 32 div esize) (\<lambda>data accum.
            let chunk0 = load_vec esize m data; chunk1 = load_vec esize m (data + int (VSIZE esize));
                chunk2 = load_vec esize m (data + int (2 * 32 div esize));
                chunk3 = load_vec esize m (data + int (3 * 32 div esize))
            in vop opr accum (vop opr (vop opr chunk0 chunk1) (vop opr chunk2 chunk3))) data cnt accum;
          (data, cnt, result) = rest_loop opr m data cnt result
      in m(dest := sum_vec opr esize result accum))"

definition simd_v8a_combine :: "nat \<Rightarrow> 'a combiner" where
  "simd_v8a_combine esize opr ident v dest m =
     (let data = get_vec_start v;
          cnt = word_of_int (vec_length v);
          result = ident;
          accum = replicate (VSIZE esize) ident;
          (data, cnt, result) = align_loop opr esize m data cnt result;
          (data, cnt, accum) = chunk_loop (8 * 32 div esize) (\<lambda>data accum.
            let chunk0 = load_vec esize m data; chunk1 = load_vec esize m (data + int (VSIZE esize));
                chunk2 = load_vec esize m (data + int (2 * 32 div esize));
                chunk3 = load_vec esize m (data + int (3 * 32 div esize));
                chunk4 = load_vec esize m (data + int (4 * 32 div esize));
                chunk5 = load_vec esize m (data + int (5 * 32 div esize));
                chunk6 = load_vec esize m (data + int (6 * 32 div esize));
                chunk7 = load_vec esize m (data + int (7 * 32 div esize))
            in vop opr accum (vop opr (vop opr (vop opr chunk0 chunk1) (vop opr chunk2 chunk3))
              (vop opr (vop opr chunk4 chunk5) (vop opr chunk6 chunk7)))) data cnt accum;
          (data, cnt, result) = rest_loop opr m data cnt result
      in m(dest := sum_vec opr esize result accum))"

section \<open>What the loops compute\<close>

lemma cnt_pred: "cnt = of_nat c \<Longrightarrow> 0 < c \<Longrightarrow> (cnt::int32) - 1 = of_nat (c - 1)"
  by (simp add: of_nat_diff)

lemma cnt_zero: "c < 2 ^ 31 \<Longrightarrow> (of_nat c :: int32) = 0 \<longleftrightarrow> c = 0"
  using unat_below[of c] by auto

lemma align_loop_ok:
  assumes "c < 2 ^ 31"
  obtains n where "n \<le> c" "align_loop opr esize m p (of_nat c) result =
    (p + int n, of_nat (c - n), foldl opr result (elems m p n))"
  using assms
proof (induction c arbitrary: p result thesis)
  case 0
  then show ?case by (simp add: align_loop.simps[of _ _ _ _ 0])
next
  case (Suc c)
  let ?w = "of_nat (Suc c) :: int32"
  have nz: "?w \<noteq> 0" using Suc.prems(2) cnt_zero by blast
  have dec: "?w - 1 = of_nat c" by simp
  show ?case
  proof (cases "(int esize * p) mod 32 = 0")
    case True
    then have "align_loop opr esize m p ?w result = (p, ?w, result)" by (subst align_loop.simps) (simp del: of_nat_Suc)
    with Suc.prems(1)[of 0] show ?thesis by (simp del: of_nat_Suc)
  next
    case False
    obtain n where n: "n \<le> c" "align_loop opr esize m (p + 1) (of_nat c) (opr result (m p)) =
        (p + 1 + int n, of_nat (c - n), foldl opr (opr result (m p)) (elems m (p + 1) n))"
      using Suc.IH Suc.prems(2) by (metis Suc_lessD)
    have "align_loop opr esize m p ?w result = align_loop opr esize m (p + 1) (of_nat c) (opr result (m p))"
      using False nz dec by (subst align_loop.simps) (simp del: of_nat_Suc)
    with n Suc.prems(1)[of "Suc n"] show ?thesis by (simp add: elems_Cons add.assoc del: of_nat_Suc)
  qed
qed

lemma rest_loop_ok:
  assumes "c < 2 ^ 31"
  shows "rest_loop opr m p (of_nat c) result = (p + int c, 0, foldl opr result (elems m p c))"
  using assms
proof (induction c arbitrary: p result)
  case 0
  then show ?case by (simp add: rest_loop.simps[of _ _ _ 0])
next
  case (Suc c)
  let ?w = "of_nat (Suc c) :: int32"
  have nz: "?w \<noteq> 0" using Suc.prems cnt_zero by blast
  have dec: "?w - 1 = of_nat c" by simp
  have "rest_loop opr m p ?w result = rest_loop opr m (p + 1) (of_nat c) (opr result (m p))"
    using nz dec by (subst rest_loop.simps) (simp del: of_nat_Suc)
  with Suc show ?case by (simp add: elems_Cons add.assoc)
qed

lemma unat_size_t: "c < 2 ^ 31 \<Longrightarrow> unat (scast (of_nat c :: int32) :: uint64) = c"
proof -
  assume c: "c < 2 ^ 31"
  have "uint (scast (of_nat c :: int32) :: uint64) = int c mod 2 ^ 64"
    using sint_small(1)[OF c] by (simp only: scast_eq uint_word_of_int) simp
  also have "\<dots> = int c" by (rule int_size_t[OF c])
  finally show ?thesis by (simp only: unat_eq_nat_uint nat_int)
qed

lemma chunk_loop_ok:
  assumes "c < 2 ^ 31" and "0 < stride" and body: "\<And>d xs s. R xs s \<Longrightarrow> R (xs @ elems m d stride) (body d s)"
    and "R (elems m lo k) s" and "p = lo + int k"
  shows "\<exists>n s'. n \<le> c \<and> chunk_loop stride body p (of_nat c) s = (p + int n, of_nat (c - n), s') \<and>
    R (elems m lo (k + n)) s'"
  using assms(1,4,5)
proof (induction c arbitrary: p k s rule: less_induct)
  case (less c)
  let ?w = "of_nat c :: int32"
  show ?case
  proof (cases "stride \<le> c")
    case False
    then have "chunk_loop stride body p ?w s = (p, ?w, s)"
      using unat_size_t[OF less.prems(1)] by (subst chunk_loop.simps) simp
    with less.prems(2) show ?thesis by (intro exI[of _ 0]) simp
  next
    case True
    then have step: "chunk_loop stride body p ?w s =
        chunk_loop stride body (p + int stride) (of_nat (c - stride)) (body p s)"
      using unat_size_t[OF less.prems(1)] less.prems(1) assms(2)
      by (subst chunk_loop.simps) (simp add: of_nat_diff)
    have R': "R (elems m lo (k + stride)) (body p s)"
      using body[OF less.prems(2), of p] less.prems(3) by (simp add: elems_add)
    have "c - stride < c" "c - stride < 2 ^ 31" "p + int stride = lo + int (k + stride)"
      using True assms(2) less.prems(1,3) by simp_all
    from less.IH[OF this(1,2) R' this(3)] obtain n s' where n: "n \<le> c - stride"
      "chunk_loop stride body (p + int stride) (of_nat (c - stride)) (body p s) =
        (p + int stride + int n, of_nat (c - stride - n), s')" "R (elems m lo (k + stride + n)) s'" by blast
    then show ?thesis
      unfolding step using True by (intro exI[of _ "stride + n"] exI[of _ s']) (simp add: add.assoc)
  qed
qed

lemma stride_eq: "esize dvd 32 \<Longrightarrow> k * 32 div esize = k * VSIZE esize"
  by (simp add: VSIZE_def div_mult_swap)

lemma VSIZE_pos: "esize dvd 32 \<Longrightarrow> 0 < VSIZE esize"
  by (cases "esize = 0") (simp_all add: VSIZE_def div_greater_zero_iff dvd_imp_le)

text \<open>The count is the length modulo \<open>2 ^ 32\<close> when that is a non-negative \<open>int\<close>.\<close>

definition int_length :: "vec_rec \<Rightarrow> nat" where
  "int_length v = nat (len v mod 2 ^ 32)"

lemma word_of_length: "(word_of_int (len v) :: int32) = of_nat (int_length v)"
proof -
  have "(of_nat (int_length v) :: int32) = word_of_int (len v mod 2 ^ 32)"
    unfolding int_length_def by (metis of_int_of_nat_eq pos_mod_sign zero_less_numeral zero_less_power nat_0_le)
  also have "\<dots> = word_of_int (len v)" by (simp add: word_of_int_eq_iff take_bit_eq_mod)
  finally show ?thesis ..
qed

context comm_ops
begin

definition fold_all :: "'a list \<Rightarrow> 'a" where
  "fold_all xs = foldl opr ident xs"

lemma fold_all_append [simp]: "fold_all (xs @ ys) = opr (fold_all xs) (fold_all ys)"
  using foldl_start[of "foldl opr ident xs" ys] by (simp add: fold_all_def)

lemma fold_all_Nil [simp]: "fold_all [] = ident"
  by (simp add: fold_all_def)

lemma fold_all_Cons [simp]: "fold_all (x # xs) = opr x (fold_all xs)"
  using foldl_start[of x xs] by (simp add: fold_all_def left_ident)

lemma fold_all_replicate [simp]: "fold_all (replicate n ident) = ident"
  by (induction n) (simp_all add: left_ident)

lemma fold_all_vop: "length xs = length ys \<Longrightarrow> fold_all (vop opr xs ys) = opr (fold_all xs) (fold_all ys)"
  by (induction xs ys rule: list_induct2) (simp_all add: vop_def ac)

lemma length_vop [simp]: "length (vop opr xs ys) = min (length xs) (length ys)"
  by (simp add: vop_def)

lemma sum_vec_ok:
  assumes "length accum = VSIZE esize"
  shows "sum_vec opr esize result accum = opr result (fold_all accum)"
proof -
  have "fold (\<lambda>i result. opr result (accum ! i)) [0..<n] result = opr result (fold_all (take n accum))" if "n \<le> length accum" for n
    using that by (induction n) (simp_all add: ac take_Suc_conv_app_nth)
  from this[of "VSIZE esize"] assms show ?thesis by (simp add: sum_vec_def for_loop_def)
qed

lemma fold_all_strides:
  "fold_all (elems m d (numeral k * n)) =
    opr (fold_all (elems m d (pred_numeral k * n))) (fold_all (elems m (d + int (pred_numeral k * n)) n))"
  using elems_add[of m d "pred_numeral k * n" n] by (simp add: numeral_eq_Suc add.commute)

text \<open>
  The three loops in a row, for a count \<open>c\<close> that is a non-negative \<open>int\<close>: the state of the
  middle loop holds what has been loaded, and the result is the fold of all elements.
\<close>

lemma simd_total:
  assumes "0 < stride" and c: "cnt = of_nat c" "c < 2 ^ 31"
    and body: "\<And>d xs s. R xs s \<Longrightarrow> R (xs @ elems m d stride) (body d s)" and R0: "R [] s"
    and out: "\<And>r xs s. R xs s \<Longrightarrow> out r s = opr r (fold_all xs)"
  shows "(case align_loop opr esize m p cnt ident of (p, cnt, result) \<Rightarrow>
      case chunk_loop stride body p cnt s of (p, cnt, accs) \<Rightarrow>
      case rest_loop opr m p cnt result of (p, cnt, result) \<Rightarrow> dst (out result accs)) =
    dst (fold_all (elems m p c))"
proof -
  obtain n where n: "n \<le> c" "align_loop opr esize m p cnt ident =
      (p + int n, of_nat (c - n), foldl opr ident (elems m p n))"
    using align_loop_ok[OF c(2)] c(1) by metis
  have "c - n < 2 ^ 31" using c(2) by simp
  from chunk_loop_ok[of "c - n" stride R m body "p + int n" 0 s "p + int n", OF this assms(1) body]
  obtain k s' where k: "k \<le> c - n" "chunk_loop stride body (p + int n) (of_nat (c - n)) s =
      (p + int n + int k, of_nat (c - n - k), s')" "R (elems m (p + int n) (0 + k)) s'"
    using R0 by auto
  have rest: "rest_loop opr m (p + int n + int k) (of_nat (c - n - k)) (foldl opr ident (elems m p n)) =
      (p + int c, 0, foldl opr (foldl opr ident (elems m p n)) (elems m (p + int n + int k) (c - n - k)))"
    by (subst rest_loop_ok) (use c(2) n(1) k(1) in simp_all)
  have "elems m p c = elems m p n @ elems m (p + int n) k @ elems m (p + int n + int k) (c - n - k)"
    using n(1) k(1) elems_add[of m p n "c - n"] elems_add[of m "p + int n" k "c - n - k"] by simp
  then show ?thesis
    using n(2) k(2) rest out[OF k(3)] foldl_start[of "foldl opr ident (elems m p n)"]
    by (simp add: ac fold_all_def[symmetric])
qed

text \<open>What the registers hold together is the fold of what has been loaded into them.\<close>

definition holds :: "nat \<Rightarrow> 'a list \<Rightarrow> 'a list list \<Rightarrow> bool" where
  "holds esize xs regs \<longleftrightarrow> list_all (\<lambda>a. length a = VSIZE esize) regs \<and> fold_all xs = fold_all (map fold_all regs)"

lemmas simd_simps = holds_def fold_all_vop fold_all_strides sum_vec_ok ac
lemmas simd_unfold = Let_def get_vec_start_def vec_length_def word_of_length load_vec_def

lemma simd_one_register:
  assumes "esize dvd 32" and "int_length v < 2 ^ 31"
  shows "simd_v1_combine esize opr ident v dest m = m(dest := fold_all (elems m (data v) (int_length v)))"
    "simd_v2a_combine esize opr ident v dest m = m(dest := fold_all (elems m (data v) (int_length v)))"
    "simd_v4a_combine esize opr ident v dest m = m(dest := fold_all (elems m (data v) (int_length v)))"
    "simd_v8a_combine esize opr ident v dest m = m(dest := fold_all (elems m (data v) (int_length v)))"
  unfolding simd_v1_combine_def simd_v2a_combine_def simd_v4a_combine_def simd_v8a_combine_def simd_unfold stride_eq[OF assms(1)]
  by - ((subst simd_total[where m = m and c = "int_length v" and R = "\<lambda>xs a. holds esize xs [a]"];
    (use assms VSIZE_pos in \<open>auto simp: simd_simps\<close>))+)

lemma simd_few_registers:
  assumes "esize dvd 32" and "int_length v < 2 ^ 31"
  shows "simd_v2_combine esize opr ident v dest m = m(dest := fold_all (elems m (data v) (int_length v)))"
    "simd_v4_combine esize opr ident v dest m = m(dest := fold_all (elems m (data v) (int_length v)))"
    "simd_v8_combine esize opr ident v dest m = m(dest := fold_all (elems m (data v) (int_length v)))"
  unfolding simd_v2_combine_def simd_v4_combine_def simd_v8_combine_def simd_unfold stride_eq[OF assms(1)]
  by - (((subst simd_total[where m = m and c = "int_length v" and R = "\<lambda>xs (a0, a1).
        holds esize xs [a0, a1]"];
      (use assms VSIZE_pos in \<open>auto simp: simd_simps\<close>))),
    ((subst simd_total[where m = m and c = "int_length v" and R = "\<lambda>xs (a0, a1, a2, a3).
        holds esize xs [a0, a1, a2, a3]"];
      (use assms VSIZE_pos in \<open>auto simp: simd_simps\<close>))),
    ((subst simd_total[where m = m and c = "int_length v" and R = "\<lambda>xs (a0, a1, a2, a3, a4, a5, a6, a7).
        holds esize xs [a0, a1, a2, a3, a4, a5, a6, a7]"];
      (use assms VSIZE_pos in \<open>auto simp: simd_simps\<close>))))

lemma simd_many_registers:
  assumes "esize dvd 32" and "int_length v < 2 ^ 31"
  shows "simd_v10_combine esize opr ident v dest m = m(dest := fold_all (elems m (data v) (int_length v)))"
    "simd_v12_combine esize opr ident v dest m = m(dest := fold_all (elems m (data v) (int_length v)))"
  unfolding simd_v10_combine_def simd_v12_combine_def simd_unfold stride_eq[OF assms(1)]
  by - (((subst simd_total[where m = m and c = "int_length v" and R = "\<lambda>xs (a0, a1, a2, a3, a4, a5, a6, a7, a8, a9).
        holds esize xs [a0, a1, a2, a3, a4, a5, a6, a7, a8, a9]"];
      (use assms VSIZE_pos in \<open>auto simp: simd_simps\<close>))),
    ((subst simd_total[where m = m and c = "int_length v" and R = "\<lambda>xs (a0, a1, a2, a3, a4, a5, a6, a7, a8, a9, a10, a11).
        holds esize xs [a0, a1, a2, a3, a4, a5, a6, a7, a8, a9, a10, a11]"];
      (use assms VSIZE_pos in \<open>auto simp: simd_simps\<close>))))

end

end
