(* ===== verification/CombineSpec.thy ===== *)
theory CombineSpec
  imports CombineSimd
begin

text \<open>
  The registered combining functions against their specification, the fold of the vector: which
  agree for every operator, which need an operator that may be regrouped and reordered, what
  the vector-instruction versions do with vectors of \<open>2 ^ 31\<close> elements and more, and where the
  versions differ.
\<close>

text \<open>
  The list that \<open>register_combiners\<close> builds: every function with the one it is checked against.
  The descriptions are left out.
\<close>

definition register_combiners :: "nat \<Rightarrow> ('a combiner \<times> 'a combiner) list" where
  "register_combiners esize =
     [(combine1, combine1), (combine2, combine1), (combine3, combine1), (combine3w, combine1),
      (combine4, combine1), (combine4b, combine1), (combine4p, combine1), (combine5, combine1),
      (combine5p, combine1), (unroll2aw_combine, combine1), (unroll3a_combine, combine1),
      (unroll4a_combine, combine1), (unroll5a_combine, combine1), (unroll6a_combine, combine1),
      (unroll7a_combine, combine1), (unroll8a_combine, combine1), (unroll9a_combine, combine1),
      (unroll10a_combine, combine1), (unroll16a_combine, combine1), (unroll2_combine, combine1),
      (unroll3_combine, combine1), (unroll4_combine, combine1), (unroll8_combine, combine1),
      (unroll16_combine, combine1), (combine6, combine1), (unroll4x2a_combine, combine1),
      (unroll8x2a_combine, combine1), (unroll3x3a_combine, combine1), (unroll4x4a_combine, combine1),
      (unroll5x5a_combine, combine1), (unroll6x6a_combine, combine1), (unroll7x7a_combine, combine1),
      (unroll8x4a_combine, combine1), (unroll8x8a_combine, combine1), (unroll9x9a_combine, combine1),
      (unroll10x10a_combine, combine1), (unroll12x6a_combine, combine1), (unroll12x12a_combine, combine1),
      (unroll16x16a_combine, combine1), (unroll20x20a_combine, combine1), (unroll8x2_combine, combine1),
      (unroll8x4_combine, combine1), (unroll8x8_combine, combine1), (unroll9x3_combine, combine1),
      (unrollx2as_combine, combine1), (combine7, combine1), (unroll3aa_combine, combine1),
      (unroll4aa_combine, combine1), (unroll5aa_combine, combine1), (unroll6aa_combine, combine1),
      (unroll7aa_combine, combine1), (unroll8aa_combine, combine1), (unroll9aa_combine, combine1),
      (unroll10aa_combine, combine1), (unroll12aa_combine, combine1), (simd_v1_combine esize, combine1),
      (simd_v2_combine esize, combine1), (simd_v4_combine esize, combine1), (simd_v8_combine esize, combine1),
      (simd_v10_combine esize, combine1), (simd_v12_combine esize, combine1),
      (simd_v2a_combine esize, combine1), (simd_v4a_combine esize, combine1), (simd_v8a_combine esize, combine1)]"

section \<open>The operators of the integer builds\<close>

text \<open>\<open>data_t\<close> is \<open>long\<close>: sums and products wrap around, and so may be regrouped.\<close>

interpretation long_sum: comm_ops "(+)" "0 :: 64 word"
  by unfold_locales (simp_all add: ac_simps)

interpretation long_prod: comm_ops "(*)" "1 :: 64 word"
  by unfold_locales (simp_all add: ac_simps)

section \<open>Agreement\<close>

lemmas in_order_ok = combine_in_memory combine3w_ok combine4b_ok combine_one combine_array combine_pointer

text \<open>
  C28: The functions that keep the order of the vector store the fold of the operator over its
  elements at a destination outside of the vector, for every operator, also one that is not
  associative.
\<close>

theorem in_order_combiners_agree:
  assumes "0 \<le> len v" and "\<not> in_vec v dest"
  shows "list_all (\<lambda>f. f opr ident v dest m = combined opr ident v dest m)
    [combine1, combine2, combine3, combine3w, combine4, combine4b, combine4p, combine5, combine5p,
     unroll2aw_combine, unroll3a_combine, unroll4a_combine, unroll5a_combine, unroll6a_combine,
     unroll7a_combine, unroll8a_combine, unroll9a_combine, unroll10a_combine, unroll16a_combine,
     unroll2_combine, unroll3_combine, unroll4_combine, unroll8_combine, unroll16_combine]"
  by (simp add: in_order_ok assms)

theorem in_order_combiners_agree_witness:
  "unroll5a_combine (sdiv) 1 \<lparr>len = 7, data = 0, allocated_len = 7\<rparr> 9 (\<lambda>i. i + 1) =
   combine1 (sdiv) 1 \<lparr>len = 7, data = 0, allocated_len = 7\<rparr> 9 (\<lambda>i. i + 1)"
  using in_order_combiners_agree[of "\<lparr>len = 7, data = 0, allocated_len = 7\<rparr>" 9 "(sdiv)" 1 "\<lambda>i. i + 1"]
  by (simp add: in_vec_def)

lemma simd_combined:
  assumes "comm_ops opr ident" and "esize dvd 32" and "len v mod 2 ^ 32 < 2 ^ 31"
  shows "list_all (\<lambda>f. f esize opr ident v dest m =
      m(dest := foldl opr ident (elems m (data v) (nat (len v mod 2 ^ 32)))))
    [simd_v1_combine, simd_v2_combine, simd_v4_combine, simd_v8_combine, simd_v10_combine, simd_v12_combine,
     simd_v2a_combine, simd_v4a_combine, simd_v8a_combine]"
proof -
  have "int_length v < 2 ^ 31" using assms(3) by (simp add: int_length_def nat_less_iff)
  note ok = comm_ops.simd_one_register[OF assms(1,2) this] comm_ops.simd_few_registers[OF assms(1,2) this]
    comm_ops.simd_many_registers[OF assms(1,2) this]
  show ?thesis by (simp add: ok comm_ops.fold_all_def[OF assms(1)] int_length_def)
qed

text \<open>
  C29: Every registered function agrees with the function it is checked against, and both with
  the fold of the vector, when the operator may be regrouped and reordered, the destination is
  outside of the vector and the vector has fewer than \<open>2 ^ 31\<close> elements.
\<close>

theorem registered_combiners_agree:
  assumes "comm_ops opr ident" and "esize dvd 32" and "0 \<le> len v" and "len v < 2 ^ 31" and "\<not> in_vec v dest"
  shows "list_all (\<lambda>(f, fc). f opr ident v dest m = fc opr ident v dest m \<and>
    f opr ident v dest m = combined opr ident v dest m) (register_combiners esize)"
proof -
  have len: "len v mod 2 ^ 32 = len v" using assms(3,4) by simp
  note in_order = in_order_ok[OF assms(3)] combine_in_memory[OF assms(3,5)] combine3w_ok[OF assms(3,5)]
  note regrouped = comm_ops.combine_acc[OF assms(1,3)] comm_ops.combine_acc_pointer[OF assms(1,3)]
    comm_ops.two_halves[OF assms(1,3)] comm_ops.combine_assoc[OF assms(1,3)]
  note simd = simd_combined[OF assms(1,2), of v dest m, unfolded len combined_def[symmetric], simplified]
  show ?thesis using simd assms(4) by (simp add: register_combiners_def in_order regrouped)
qed

theorem registered_combiners_agree_witness:
  "list_all (\<lambda>(f, fc). f (+) 0 \<lparr>len = 7, data = 3, allocated_len = 7\<rparr> 11 of_int = fc (+) 0 \<lparr>len = 7, data = 3, allocated_len = 7\<rparr> 11 of_int \<and>
    f (+) 0 \<lparr>len = 7, data = 3, allocated_len = 7\<rparr> 11 of_int =
      combined (+) (0 :: 64 word) \<lparr>len = 7, data = 3, allocated_len = 7\<rparr> 11 of_int) (register_combiners 8)"
  by (rule registered_combiners_agree[OF long_sum.comm_ops_axioms]) (simp_all add: in_vec_def)

section \<open>Differences\<close>

text \<open>
  The vector-instruction versions keep the length in an \<open>int\<close>: they combine the first
  \<open>len mod 2 ^ 32\<close> elements only (when that is a non-negative \<open>int\<close>), while the function they
  are checked against combines all.
\<close>

theorem simd_truncates_length:
  assumes "comm_ops opr ident" and "esize dvd 32" and "len v mod 2 ^ 32 < 2 ^ 31" and "0 \<le> len v" and "\<not> in_vec v dest"
  shows "list_all (\<lambda>f. f esize opr ident v dest m =
      m(dest := foldl opr ident (elems m (data v) (nat (len v mod 2 ^ 32)))))
    [simd_v1_combine, simd_v2_combine, simd_v4_combine, simd_v8_combine, simd_v10_combine, simd_v12_combine,
     simd_v2a_combine, simd_v4a_combine, simd_v8a_combine] \<and>
    combine1 opr ident v dest m = m(dest := foldl opr ident (elems m (data v) (nat (len v))))"
  using simd_combined[OF assms(1-3), of dest m] combine_in_memory(1)[OF assms(4,5), of opr ident m]
  unfolding combined_def by blast

theorem simd_truncates_length_witness:
  "simd_v8_combine 8 (+) (0 :: 64 word) \<lparr>len = 2 ^ 32, data = 0, allocated_len = 2 ^ 32\<rparr> (- 1) (\<lambda>i. 1) (- 1) = 0 \<and>
   combine1 (+) (0 :: 64 word) \<lparr>len = 2 ^ 32, data = 0, allocated_len = 2 ^ 32\<rparr> (- 1) (\<lambda>i. 1) (- 1) = 2 ^ 32"
proof -
  let ?v = "\<lparr>len = 2 ^ 32, data = 0, allocated_len = 2 ^ 32\<rparr>"
  have ones: "foldl (+) a (elems (\<lambda>i. 1) p n) = a + of_nat n" for a :: "64 word" and p n
    by (induction n arbitrary: a) (simp_all add: elems_Suc)
  have "nat (2 ^ 32) = 2 ^ 32" by (simp add: nat_power_eq)
  then have "(of_nat (nat (2 ^ 32)) :: 64 word) = 2 ^ 32" by simp
  with simd_truncates_length[OF long_sum.comm_ops_axioms, of 8 ?v "- 1" "\<lambda>i. 1"] show ?thesis
    by (simp add: in_vec_def ones)
qed

text \<open>
  The versions differ where they may. With the destination at the last element of the vector
  2, 3, 5, the product with the result in memory is 36 and with the result in a local variable
  30; and with division, which may not be regrouped, the function with a different association
  computes 1 from 3, 2 where the others compute 0.
\<close>

theorem combine_differences:
  "combine3 (*) 1 \<lparr>len = 3, data = 0, allocated_len = 3\<rparr> 2 (\<lambda>i. if i = 0 then 2 else if i = 1 then 3 else 5) 2 = (36 :: int) \<and>
   combine4 (*) 1 \<lparr>len = 3, data = 0, allocated_len = 3\<rparr> 2 (\<lambda>i. if i = 0 then 2 else if i = 1 then 3 else 5) 2 = (30 :: int) \<and>
   combine7 (sdiv) 1 \<lparr>len = 2, data = 0, allocated_len = 2\<rparr> 9 (\<lambda>i. if i = 0 then 3 else 2) 9 = (1 :: int) \<and>
   combine5 (sdiv) 1 \<lparr>len = 2, data = 0, allocated_len = 2\<rparr> 9 (\<lambda>i. if i = 0 then 3 else 2) 9 = (0 :: int)"
  by code_simp

end
