(* ===== verification/Steps.thy ===== *)
theory Steps
  imports Prelude
begin

text \<open>
  Programs with threads: a system takes one atomic action at a time, chosen by a label, and a
  label that names a blocked thread has no action. Invariants of the reachable states, counting
  the threads at a point of their code, and semaphores.
\<close>

section \<open>Reachable states\<close>

inductive reachable :: "('s \<Rightarrow> bool) \<Rightarrow> ('l \<Rightarrow> 's \<Rightarrow> 's option) \<Rightarrow> 's \<Rightarrow> bool" for init step where
  reach_init: "init s \<Longrightarrow> reachable init step s"
| reach_step: "reachable init step s \<Longrightarrow> step l s = Some s' \<Longrightarrow> reachable init step s'"

inductive_cases reachableE: "reachable init step s"

text \<open>What a system promises: an invariant that holds initially and is kept by every action.\<close>

locale transition_system =
  fixes init :: "'s \<Rightarrow> bool" and step :: "'l \<Rightarrow> 's \<Rightarrow> 's option" and inv :: "'s \<Rightarrow> bool"
  assumes init_inv: "init s \<Longrightarrow> inv s" and step_inv: "inv s \<Longrightarrow> step l s = Some s' \<Longrightarrow> inv s'"
begin

lemma reachable_inv: "reachable init step s \<Longrightarrow> inv s"
  by (induction rule: reachable.induct) (auto intro: init_inv step_inv)

text \<open>A run given by its labels stays within the reachable states.\<close>

definition run :: "'l list \<Rightarrow> 's \<Rightarrow> 's option" where
  "run ls s = fold (\<lambda>l r. case r of None \<Rightarrow> None | Some s \<Rightarrow> step l s) ls (Some s)"

lemma run_reachable:
  assumes "reachable init step s" and "run ls s = Some s'"
  shows "reachable init step s'"
proof -
  have "fold (\<lambda>l r. case r of None \<Rightarrow> None | Some s \<Rightarrow> step l s) ls r = Some s' \<Longrightarrow>
      (\<forall>s. r = Some s \<longrightarrow> reachable init step s) \<Longrightarrow> reachable init step s'" for r
  proof (induction ls arbitrary: r)
    case (Cons l ls)
    show ?case
    proof (rule Cons.IH)
      show "fold (\<lambda>l r. case r of None \<Rightarrow> None | Some s \<Rightarrow> step l s) ls
          (case r of None \<Rightarrow> None | Some s \<Rightarrow> step l s) = Some s'"
        using Cons.prems(1) by simp
      show "\<forall>s. (case r of None \<Rightarrow> None | Some s \<Rightarrow> step l s) = Some s \<longrightarrow> reachable init step s"
        using Cons.prems(2) reach_step by (auto split: option.splits)
    qed
  qed simp
  with assms show ?thesis by (simp add: run_def)
qed

end

section \<open>Semaphores\<close>

text \<open>\<open>P\<close> waits while the value is 0; \<open>V\<close> adds 1.\<close>

definition sem_P :: "nat \<Rightarrow> nat option" where
  "sem_P v = (if v = 0 then None else Some (v - 1))"

definition sem_V :: "nat \<Rightarrow> nat" where
  "sem_V v = v + 1"

lemma sem_P_Some [simp]: "sem_P v = Some w \<longleftrightarrow> v = Suc w"
  by (auto simp: sem_P_def)

lemma sem_P_None [simp]: "sem_P v = None \<longleftrightarrow> v = 0"
  by (simp add: sem_P_def)

section \<open>Counting threads\<close>

definition cnt :: "('t \<Rightarrow> bool) \<Rightarrow> 't list \<Rightarrow> int" where
  "cnt P ts = int (length (filter P ts))"

lemma cnt_Nil [simp]: "cnt P [] = 0"
  and cnt_Cons [simp]: "cnt P (t # ts) = of_bool (P t) + cnt P ts"
  and cnt_nonneg: "0 \<le> cnt P ts"
  by (simp_all add: cnt_def)

lemma cnt_update: "i < length ts \<Longrightarrow> cnt P (ts[i := t]) = cnt P ts - of_bool (P (ts ! i)) + of_bool (P t)"
  by (induction ts arbitrary: i) (auto split: nat.split)

lemma cnt_pos: "i < length ts \<Longrightarrow> P (ts ! i) \<Longrightarrow> 1 \<le> cnt P ts"
  using length_filter_conv_card[of P ts] card_gt_0_iff[of "{i. i < length ts \<and> P (ts ! i)}"] by (auto simp: cnt_def)

lemma cnt_0: "cnt P ts = 0 \<longleftrightarrow> (\<forall>t\<in>set ts. \<not> P t)"
  by (auto simp: cnt_def filter_empty_conv)

lemma cnt_replicate: "\<not> P t \<Longrightarrow> cnt P (replicate k t) = 0"
  by (simp add: cnt_0)

lemma cnt_mono: "(\<And>t. P t \<Longrightarrow> Q t) \<Longrightarrow> cnt P ts \<le> cnt Q ts"
  by (induction ts) (auto simp: of_bool_def)

end
