(* ===== verification/Sbuf.thy ===== *)
theory Sbuf
  imports Steps "HOL-Library.Signed_Division"
begin

text \<open>
  The bounded buffer of \<open>csapp-master/conc/sbuf.c\<close>, used by any number of threads that insert
  and remove. Each line of \<open>sbuf_insert\<close> and \<open>sbuf_remove\<close> is an atomic action (the ones
  that touch the array are between \<open>P(&mutex)\<close> and \<open>V(&mutex)\<close>). The indices are kept at
  their width of 32 bits.
\<close>

section \<open>The buffer\<close>

record sbuf =
  buf :: "int list"
  nslots :: int
  front :: int32
  rear :: int32
  mutex :: nat
  slots :: nat
  items :: nat

definition sbuf_init :: "int \<Rightarrow> sbuf" where
  "sbuf_init n = \<lparr>buf = replicate (nat n) 0, nslots = n, front = 0, rear = 0, mutex = 1, slots = nat n, items = 0\<rparr>"

text \<open>Where a thread is: outside, or about to take the named action.\<close>

datatype sbuf_pc =
    Idle
  | InsSlots int | InsMutex int | InsStore int | InsUnlock int | InsPost int
  | RemItems | RemMutex | RemLoad | RemUnlock int | RemPost int

datatype sbuf_event = Silent | Stored int | Loaded int | Returned int

text \<open>\<open>buf[r % n]\<close> with C's remainder; an index outside of the array is a fault.\<close>

definition slot_index :: "int32 \<Rightarrow> sbuf \<Rightarrow> nat outcome" where
  "slot_index r b = (let j = sint r smod nslots b in if 0 \<le> j \<and> j < int (length (buf b)) then Done (nat j) else Fault)"

fun sbuf_insert :: "sbuf_pc \<Rightarrow> sbuf \<Rightarrow> (sbuf_pc \<times> sbuf \<times> sbuf_event) outcome option" where
  "sbuf_insert (InsSlots item) b = map_option (\<lambda>k. Done (InsMutex item, b\<lparr>slots := k\<rparr>, Silent)) (sem_P (slots b))"
| "sbuf_insert (InsMutex item) b = map_option (\<lambda>k. Done (InsStore item, b\<lparr>mutex := k\<rparr>, Silent)) (sem_P (mutex b))"
| "sbuf_insert (InsStore item) b =
     (let r = rear b + 1
      in case slot_index r b of Fault \<Rightarrow> Some Fault
         | Done j \<Rightarrow> Some (Done (InsUnlock item, b\<lparr>rear := r, buf := (buf b)[j := item]\<rparr>, Stored item)))"
| "sbuf_insert (InsUnlock item) b = Some (Done (InsPost item, b\<lparr>mutex := sem_V (mutex b)\<rparr>, Silent))"
| "sbuf_insert (InsPost item) b = Some (Done (Idle, b\<lparr>items := sem_V (items b)\<rparr>, Silent))"
| "sbuf_insert _ b = None"

fun sbuf_remove :: "sbuf_pc \<Rightarrow> sbuf \<Rightarrow> (sbuf_pc \<times> sbuf \<times> sbuf_event) outcome option" where
  "sbuf_remove RemItems b = map_option (\<lambda>k. Done (RemMutex, b\<lparr>items := k\<rparr>, Silent)) (sem_P (items b))"
| "sbuf_remove RemMutex b = map_option (\<lambda>k. Done (RemLoad, b\<lparr>mutex := k\<rparr>, Silent)) (sem_P (mutex b))"
| "sbuf_remove RemLoad b =
     (let f = front b + 1
      in case slot_index f b of Fault \<Rightarrow> Some Fault
         | Done j \<Rightarrow> Some (Done (RemUnlock (buf b ! j), b\<lparr>front := f\<rparr>, Loaded (buf b ! j))))"
| "sbuf_remove (RemUnlock item) b = Some (Done (RemPost item, b\<lparr>mutex := sem_V (mutex b)\<rparr>, Silent))"
| "sbuf_remove (RemPost item) b = Some (Done (Idle, b\<lparr>slots := sem_V (slots b)\<rparr>, Returned item))"
| "sbuf_remove _ b = None"

section \<open>The threads\<close>

text \<open>The buffer, the threads, and the items stored and loaded so far, in that order.\<close>

record sbuf_sys =
  shared :: sbuf
  threads :: "sbuf_pc list"
  stored :: "int list"
  loaded :: "int list"
  faulted :: bool

datatype sbuf_choice = CallInsert int | CallRemove | Run

fun is_insert :: "sbuf_pc \<Rightarrow> bool" where
  "is_insert (InsSlots _) = True" | "is_insert (InsMutex _) = True" | "is_insert (InsStore _) = True"
| "is_insert (InsUnlock _) = True" | "is_insert (InsPost _) = True" | "is_insert _ = False"

definition record_event :: "sbuf_event \<Rightarrow> sbuf_sys \<Rightarrow> sbuf_sys" where
  "record_event e s = (case e of Stored x \<Rightarrow> s\<lparr>stored := stored s @ [x]\<rparr>
     | Loaded x \<Rightarrow> s\<lparr>loaded := loaded s @ [x]\<rparr> | _ \<Rightarrow> s)"

definition sbuf_step :: "nat \<times> sbuf_choice \<Rightarrow> sbuf_sys \<Rightarrow> sbuf_sys option" where
  "sbuf_step l s =
     (case l of (i, c) \<Rightarrow>
        if i < length (threads s) then
          (case c of
             CallInsert x \<Rightarrow> if threads s ! i = Idle then Some (s\<lparr>threads := (threads s)[i := InsSlots x]\<rparr>) else None
           | CallRemove \<Rightarrow> if threads s ! i = Idle then Some (s\<lparr>threads := (threads s)[i := RemItems]\<rparr>) else None
           | Run \<Rightarrow>
               (case (if is_insert (threads s ! i) then sbuf_insert (threads s ! i) (shared s)
                      else sbuf_remove (threads s ! i) (shared s)) of
                  None \<Rightarrow> None
                | Some Fault \<Rightarrow> Some (s\<lparr>faulted := True\<rparr>)
                | Some (Done (t, b, e)) \<Rightarrow>
                    Some (record_event e (s\<lparr>shared := b, threads := (threads s)[i := t]\<rparr>))))
        else None)"

definition sbuf_start :: "nat \<Rightarrow> nat \<Rightarrow> sbuf_sys \<Rightarrow> bool" where
  "sbuf_start n k s \<longleftrightarrow> 0 < n \<and> s = \<lparr>shared = sbuf_init (int n), threads = replicate k Idle, stored = [], loaded = [], faulted = False\<rparr>"

section \<open>The invariant\<close>

fun locked :: "sbuf_pc \<Rightarrow> bool" where
  "locked (InsStore _) = True" | "locked (InsUnlock _) = True" | "locked RemLoad = True"
| "locked (RemUnlock _) = True" | "locked _ = False"

text \<open>Has taken a slot and not stored, has stored and not announced; the same for removing.\<close>

fun slot_taken :: "sbuf_pc \<Rightarrow> bool" where
  "slot_taken (InsMutex _) = True" | "slot_taken (InsStore _) = True" | "slot_taken _ = False"

fun item_unannounced :: "sbuf_pc \<Rightarrow> bool" where
  "item_unannounced (InsUnlock _) = True" | "item_unannounced (InsPost _) = True" | "item_unannounced _ = False"

fun item_taken :: "sbuf_pc \<Rightarrow> bool" where
  "item_taken RemMutex = True" | "item_taken RemLoad = True" | "item_taken _ = False"

fun slot_unannounced :: "sbuf_pc \<Rightarrow> bool" where
  "slot_unannounced (RemUnlock _) = True" | "slot_unannounced (RemPost _) = True" | "slot_unannounced _ = False"

definition pending :: "sbuf_sys \<Rightarrow> int" where
  "pending s = int (length (stored s)) - int (length (loaded s))"

text \<open>
  The semaphores count the threads between their actions; the ring holds the items stored and
  not loaded, at the positions their numbers have modulo the number of slots.
\<close>

definition ring_ok :: "nat \<Rightarrow> sbuf_sys \<Rightarrow> bool" where
  "ring_ok n s \<longleftrightarrow> length (buf (shared s)) = n \<and> nslots (shared s) = int n \<and>
     rear (shared s) = of_nat (length (stored s)) \<and> front (shared s) = of_nat (length (loaded s)) \<and>
     length (loaded s) \<le> length (stored s) \<and> take (length (loaded s)) (stored s) = loaded s \<and>
     (\<forall>k. length (loaded s) \<le> k \<and> k < length (stored s) \<longrightarrow> buf (shared s) ! (Suc k mod n) = stored s ! k)"

definition counts_ok :: "nat \<Rightarrow> sbuf_sys \<Rightarrow> bool" where
  "counts_ok n s \<longleftrightarrow> int (mutex (shared s)) + cnt locked (threads s) = 1 \<and>
     int (slots (shared s)) + cnt slot_taken (threads s) + cnt slot_unannounced (threads s) + pending s = int n \<and>
     int (items (shared s)) + cnt item_unannounced (threads s) + cnt item_taken (threads s) = pending s"

definition sbuf_inv :: "nat \<Rightarrow> sbuf_sys \<Rightarrow> bool" where
  "sbuf_inv n s \<longleftrightarrow> 0 < n \<and> (Suc (length (stored s)) < 2 ^ 31 \<longrightarrow> \<not> faulted s \<and> ring_ok n s \<and> counts_ok n s)"

section \<open>Every action keeps the invariant\<close>

lemma slot_index_ok:
  assumes "k < 2 ^ 31" and "0 < n" and "nslots b = int n" and "length (buf b) = n"
  shows "slot_index (of_nat k) b = Done (k mod n)"
proof -
  have "sint (of_nat k :: int32) = int k" by (rule sint_small(1)[OF assms(1)])
  moreover have "int k smod int n = int (k mod n)"
    using assms(2) by (cases "k = 0") (simp_all add: signed_modulo_int_def zmod_int)
  ultimately show ?thesis using assms by (simp add: slot_index_def)
qed

lemma mod_neq:
  assumes "a < b" and "b - a < (n::nat)"
  shows "a mod n \<noteq> b mod n"
proof
  assume "a mod n = b mod n"
  then have "n dvd b - a" using assms(1) by (metis mod_eq_dvd_iff_nat less_imp_le)
  with assms show False by (simp add: nat_dvd_not_less)
qed

text \<open>The actions of a running thread, by where it is.\<close>

lemma run_step:
  assumes "sbuf_step (i, Run) s = Some s'"
  shows "i < length (threads s) \<and>
    (case threads s ! i of Idle \<Rightarrow> False
     | InsStore x \<Rightarrow> (case slot_index (rear (shared s) + 1) (shared s) of Fault \<Rightarrow> s' = s\<lparr>faulted := True\<rparr>
         | Done j \<Rightarrow> s' = s\<lparr>shared := (shared s)\<lparr>rear := rear (shared s) + 1, buf := (buf (shared s))[j := x]\<rparr>,
             threads := (threads s)[i := InsUnlock x], stored := stored s @ [x]\<rparr>)
     | RemLoad \<Rightarrow> (case slot_index (front (shared s) + 1) (shared s) of Fault \<Rightarrow> s' = s\<lparr>faulted := True\<rparr>
         | Done j \<Rightarrow> s' = s\<lparr>shared := (shared s)\<lparr>front := front (shared s) + 1\<rparr>,
             threads := (threads s)[i := RemUnlock (buf (shared s) ! j)], loaded := loaded s @ [buf (shared s) ! j]\<rparr>)
     | InsSlots x \<Rightarrow> 0 < slots (shared s) \<and> s' = s\<lparr>shared := (shared s)\<lparr>slots := slots (shared s) - 1\<rparr>, threads := (threads s)[i := InsMutex x]\<rparr>
     | InsMutex x \<Rightarrow> 0 < mutex (shared s) \<and> s' = s\<lparr>shared := (shared s)\<lparr>mutex := mutex (shared s) - 1\<rparr>, threads := (threads s)[i := InsStore x]\<rparr>
     | InsUnlock x \<Rightarrow> s' = s\<lparr>shared := (shared s)\<lparr>mutex := mutex (shared s) + 1\<rparr>, threads := (threads s)[i := InsPost x]\<rparr>
     | InsPost x \<Rightarrow> s' = s\<lparr>shared := (shared s)\<lparr>items := items (shared s) + 1\<rparr>, threads := (threads s)[i := Idle]\<rparr>
     | RemItems \<Rightarrow> 0 < items (shared s) \<and> s' = s\<lparr>shared := (shared s)\<lparr>items := items (shared s) - 1\<rparr>, threads := (threads s)[i := RemMutex]\<rparr>
     | RemMutex \<Rightarrow> 0 < mutex (shared s) \<and> s' = s\<lparr>shared := (shared s)\<lparr>mutex := mutex (shared s) - 1\<rparr>, threads := (threads s)[i := RemLoad]\<rparr>
     | RemUnlock x \<Rightarrow> s' = s\<lparr>shared := (shared s)\<lparr>mutex := mutex (shared s) + 1\<rparr>, threads := (threads s)[i := RemPost x]\<rparr>
     | RemPost x \<Rightarrow> s' = s\<lparr>shared := (shared s)\<lparr>slots := slots (shared s) + 1\<rparr>, threads := (threads s)[i := Idle]\<rparr>)"
  using assms
  by (cases "threads s ! i")
    (auto simp: sbuf_step_def record_event_def sem_P_def sem_V_def Let_def split: if_splits outcome.splits)

lemma counts_step:
  assumes "sbuf_step (i, c) s = Some s'" and "counts_ok n s" and "\<not> faulted s'"
  shows "counts_ok n s'"
proof (cases c)
  case (CallInsert x)
  with assms show ?thesis
    by (auto simp: sbuf_step_def counts_ok_def pending_def cnt_update split: if_splits)
next
  case CallRemove
  with assms show ?thesis
    by (auto simp: sbuf_step_def counts_ok_def pending_def cnt_update split: if_splits)
next
  case Run
  from run_step[OF assms(1)[unfolded Run]] assms(2,3) show ?thesis
    by (cases "threads s ! i") (auto simp: counts_ok_def pending_def cnt_update split: outcome.splits)
qed

lemma ring_step:
  assumes step: "sbuf_step (i, c) s = Some s'" and ring: "ring_ok n s" and counts: "counts_ok n s" and nf: "\<not> faulted s"
    and n: "0 < n" and small: "Suc (length (stored s')) < 2 ^ 31"
  shows "ring_ok n s' \<and> \<not> faulted s'"
proof (cases c)
  case (CallInsert x)
  with step ring nf show ?thesis by (auto simp: sbuf_step_def ring_ok_def split: if_splits)
next
  case CallRemove
  with step ring nf show ?thesis by (auto simp: sbuf_step_def ring_ok_def split: if_splits)
next
  case Run
  note run = run_step[OF step[unfolded Run]]
  then have i: "i < length (threads s)" by blast
  have nonneg: "0 \<le> cnt slot_taken (threads s)" "0 \<le> cnt slot_unannounced (threads s)"
    "0 \<le> cnt item_unannounced (threads s)" "0 \<le> cnt item_taken (threads s)" by (rule cnt_nonneg)+
  let ?r = "length (stored s)" and ?f = "length (loaded s)"
  note R = ring[unfolded ring_ok_def]
  show ?thesis
  proof (cases "threads s ! i")
    case (InsStore x)
    then have "1 \<le> cnt slot_taken (threads s)" using cnt_pos[OF i, of slot_taken] by simp
    then have room: "?r - ?f < n" using counts nonneg unfolding counts_ok_def pending_def by linarith
    have e: "rear (shared s) + 1 = of_nat (Suc ?r)" using R by simp
    have "Suc ?r < 2 ^ 31" using run InsStore small by (auto split: outcome.splits)
    then have idx: "slot_index (rear (shared s) + 1) (shared s) = Done (Suc ?r mod n)"
      unfolding e by (rule slot_index_ok) (use R n in simp_all)
    have s': "s' = s\<lparr>shared := (shared s)\<lparr>rear := rear (shared s) + 1, buf := (buf (shared s))[Suc ?r mod n := x]\<rparr>,
        threads := (threads s)[i := InsUnlock x], stored := stored s @ [x]\<rparr>"
      using run InsStore idx by simp
    have "buf (shared s') ! (Suc k mod n) = stored s' ! k" if "?f \<le> k" "k < Suc ?r" for k
    proof (cases "k = ?r")
      case True
      then show ?thesis using R n by (simp add: s')
    next
      case False
      with that have "k < ?r" by simp
      then have "Suc k mod n \<noteq> Suc ?r mod n" using mod_neq[of "Suc k" "Suc ?r" n] room that(1) by simp
      with \<open>k < ?r\<close> that R show ?thesis by (simp add: s' nth_append)
    qed
    with R nf show ?thesis by (simp add: s' ring_ok_def)
  next
    case RemLoad
    then have "1 \<le> cnt item_taken (threads s)" using cnt_pos[OF i, of item_taken] by simp
    then have q: "?f < ?r" using counts nonneg unfolding counts_ok_def pending_def by linarith
    have e: "front (shared s) + 1 = of_nat (Suc ?f)" using R by simp
    have "?r < 2 ^ 31" using small run RemLoad by (auto split: outcome.splits)
    then have idx: "slot_index (front (shared s) + 1) (shared s) = Done (Suc ?f mod n)"
      unfolding e by (intro slot_index_ok) (use R n q in simp_all)
    have x: "buf (shared s) ! (Suc ?f mod n) = stored s ! ?f" using R q by simp
    have s': "s' = s\<lparr>shared := (shared s)\<lparr>front := front (shared s) + 1\<rparr>,
        threads := (threads s)[i := RemUnlock (stored s ! ?f)], loaded := loaded s @ [stored s ! ?f]\<rparr>"
      using run RemLoad idx x by simp
    show ?thesis using R nf q by (simp add: s' ring_ok_def take_Suc_conv_app_nth)
  qed (use run ring nf in \<open>simp_all add: ring_ok_def\<close>)
qed

lemma stored_grows: "sbuf_step (i, c) s = Some s' \<Longrightarrow> length (stored s) \<le> length (stored s')"
proof (cases c)
  case Run
  assume "sbuf_step (i, c) s = Some s'"
  from run_step[OF this[unfolded Run]] show ?thesis
    by (cases "threads s ! i") (auto split: outcome.splits)
qed (auto simp: sbuf_step_def split: if_splits)

lemma sbuf_inv_step:
  assumes "sbuf_inv n s" and "sbuf_step l s = Some s'"
  shows "sbuf_inv n s'"
proof -
  obtain i c where l: "l = (i, c)" by (cases l)
  note step = assms(2)[unfolded l]
  have "\<not> faulted s' \<and> ring_ok n s' \<and> counts_ok n s'" if small: "Suc (length (stored s')) < 2 ^ 31"
  proof -
    have "Suc (length (stored s)) < 2 ^ 31" using stored_grows[OF step] small by simp
    with assms(1) have "0 < n" "\<not> faulted s" "ring_ok n s" "counts_ok n s" by (simp_all add: sbuf_inv_def)
    with ring_step[OF step] counts_step[OF step] small show ?thesis by blast
  qed
  with assms(1) show ?thesis by (simp add: sbuf_inv_def)
qed

interpretation bounded_buffer: transition_system "sbuf_start n k" sbuf_step "sbuf_inv n"
proof
  show "sbuf_inv n s" if "sbuf_start n k s" for s
    using that by (simp add: sbuf_start_def sbuf_inv_def ring_ok_def counts_ok_def sbuf_init_def pending_def cnt_replicate)
  show "sbuf_inv n s'" if "sbuf_inv n s" "sbuf_step l s = Some s'" for s l s'
    using sbuf_inv_step that .
qed

end
