(* ===== verification/SbufSpec.thy ===== *)
theory SbufSpec
  imports Sbuf
begin

text \<open>
  The bounded buffer under every interleaving: it is a FIFO queue of bounded size that at most
  one thread touches at a time, and threads block only when it is empty or full.
\<close>

lemma sbuf_reachable:
  assumes "reachable (sbuf_start n k) sbuf_step s" and "Suc (length (stored s)) < 2 ^ 31"
  shows "0 < n \<and> \<not> faulted s \<and> ring_ok n s \<and> counts_ok n s"
  using bounded_buffer.reachable_inv[OF assms(1)] assms(2) by (simp add: sbuf_inv_def)

text \<open>
  C14: Whatever \<open>k\<close> threads do with a buffer of \<open>n\<close> slots, as long as fewer than
  \<open>2 ^ 31 - 1\<close> items have been stored: no access is outside of the array, the items come out
  in the order in which they went in, never more than \<open>n\<close> are inside, and at most one thread is
  between locking and unlocking.
\<close>

theorem sbuf_fifo:
  assumes "reachable (sbuf_start n k) sbuf_step s" and "Suc (length (stored s)) < 2 ^ 31"
  shows "\<not> faulted s \<and> loaded s = take (length (loaded s)) (stored s) \<and>
    length (loaded s) \<le> length (stored s) \<and> length (stored s) \<le> length (loaded s) + n \<and> cnt locked (threads s) \<le> 1"
proof -
  note inv = sbuf_reachable[OF assms]
  have "0 \<le> cnt slot_taken (threads s)" "0 \<le> cnt slot_unannounced (threads s)" by (rule cnt_nonneg)+
  then have "length (stored s) \<le> length (loaded s) + n" "cnt locked (threads s) \<le> 1"
    using inv unfolding counts_ok_def pending_def by linarith+
  with inv show ?thesis by (simp add: ring_ok_def)
qed

definition sample_run :: "(nat \<times> sbuf_choice) list" where
  "sample_run = [(0, CallInsert 7), (1, CallInsert 8), (0, Run), (1, Run), (1, Run), (1, Run), (1, Run), (0, Run), (0, Run),
     (0, Run), (1, Run), (1, CallRemove), (1, Run), (1, Run), (1, Run), (1, Run)]"

lemma sample_reachable:
  assumes "bounded_buffer.run sample_run (\<lparr>shared = sbuf_init 2, threads = [Idle, Idle], stored = [], loaded = [], faulted = False\<rparr>) = Some s"
  shows "reachable (sbuf_start 2 2) sbuf_step s"
  by (rule bounded_buffer.run_reachable[OF _ assms])
    (simp add: reach_init sbuf_start_def numeral_2_eq_2)

theorem sbuf_fifo_witness:
  "case bounded_buffer.run sample_run (\<lparr>shared = sbuf_init 2, threads = [Idle, Idle], stored = [], loaded = [], faulted = False\<rparr>) of
     None \<Rightarrow> False | Some s \<Rightarrow> stored s = [8, 7] \<and> loaded s = take 1 (stored s) \<and> cnt locked (threads s) \<le> 1"
proof -
  let ?start = "\<lparr>shared = sbuf_init 2, threads = [Idle, Idle], stored = [], loaded = [], faulted = False\<rparr>"
  have run: "case bounded_buffer.run sample_run ?start of None \<Rightarrow> False | Some s \<Rightarrow> stored s = [8, 7] \<and> length (loaded s) = 1"
    unfolding bounded_buffer.run_def sample_run_def by code_simp
  then obtain s where s: "bounded_buffer.run sample_run ?start = Some s" by (auto split: option.splits)
  with run have st: "stored s = [8, 7]" "length (loaded s) = 1" by simp_all
  from sbuf_fifo[OF sample_reachable[OF s]] st have "loaded s = take 1 (stored s) \<and> cnt locked (threads s) \<le> 1" by simp
  with s st show ?thesis by simp
qed

section \<open>Progress\<close>

text \<open>Where a running thread is blocked, by the semaphores.\<close>

lemma blocked_iff:
  assumes "i < length (threads s)" and "threads s ! i \<noteq> Idle"
  shows "sbuf_step (i, Run) s = None \<longleftrightarrow>
    ((\<exists>x. threads s ! i = InsSlots x) \<and> slots (shared s) = 0 \<or> threads s ! i = RemItems \<and> items (shared s) = 0 \<or>
     ((\<exists>x. threads s ! i = InsMutex x) \<or> threads s ! i = RemMutex) \<and> mutex (shared s) = 0)"
  using assms
  by (cases "threads s ! i") (auto simp: sbuf_step_def sem_P_def Let_def split: outcome.splits)

text \<open>
  The buffer does not deadlock: when every thread that is in an operation is blocked, either
  all of them wait for an item and the buffer is empty, or all of them wait for a slot and the
  buffer is full.
\<close>

theorem sbuf_progress:
  assumes "reachable (sbuf_start n k) sbuf_step s" and "Suc (length (stored s)) < 2 ^ 31"
    and "\<forall>j<length (threads s). threads s ! j \<noteq> Idle \<longrightarrow> sbuf_step (j, Run) s = None"
    and "i < length (threads s)" and "threads s ! i \<noteq> Idle"
  shows "(loaded s = stored s \<and> threads s ! i = RemItems) \<or>
    (length (stored s) = length (loaded s) + n \<and> (\<exists>x. threads s ! i = InsSlots x))"
proof -
  note inv = sbuf_reachable[OF assms(1,2)]
  have none: "\<not> locked t" if "t \<in> set (threads s)" for t
  proof -
    from that obtain j where j: "j < length (threads s)" "threads s ! j = t" by (auto simp: in_set_conv_nth)
    with assms(3) blocked_iff[of j s] show ?thesis by (cases t) auto
  qed
  then have "cnt locked (threads s) = 0" by (simp add: cnt_0)
  then have mutex: "mutex (shared s) = 1" using inv unfolding counts_ok_def by linarith
  have waiting: "(\<exists>x. t = InsSlots x) \<and> slots (shared s) = 0 \<or> t = RemItems \<and> items (shared s) = 0 \<or> t = Idle"
    if "t \<in> set (threads s)" for t
  proof -
    from that obtain j where j: "j < length (threads s)" "threads s ! j = t" by (auto simp: in_set_conv_nth)
    with assms(3) blocked_iff[of j s] mutex show ?thesis by auto
  qed
  then have "cnt slot_taken (threads s) = 0" "cnt slot_unannounced (threads s) = 0"
    "cnt item_unannounced (threads s) = 0" "cnt item_taken (threads s) = 0"
    unfolding cnt_0 by fastforce+
  then have counts: "int (slots (shared s)) + pending s = int n" "int (items (shared s)) = pending s"
    using inv unfolding counts_ok_def by linarith+
  from waiting[of "threads s ! i"] assms(4,5) consider
      "\<exists>x. threads s ! i = InsSlots x" "slots (shared s) = 0" | "threads s ! i = RemItems" "items (shared s) = 0"
    by fastforce
  then show ?thesis
  proof cases
    case 1
    with counts show ?thesis by (simp add: pending_def)
  next
    case 2
    with counts inv show ?thesis by (auto simp: pending_def ring_ok_def)
  qed
qed

theorem sbuf_progress_witness:
  "let s = \<lparr>shared = sbuf_init 2, threads = [RemItems], stored = [], loaded = [], faulted = False\<rparr>
   in sbuf_step (0, Run) s = None \<and> threads s ! 0 = RemItems \<and> loaded s = stored s"
proof -
  let ?start = "\<lparr>shared = sbuf_init 2, threads = [Idle], stored = [], loaded = [], faulted = False\<rparr>"
  let ?s = "\<lparr>shared = sbuf_init 2, threads = [RemItems], stored = [], loaded = [], faulted = False\<rparr>"
  have "sbuf_start 2 1 ?start"
    by (simp only: sbuf_start_def of_nat_numeral One_nat_def replicate.simps zero_less_numeral simp_thms)
  then have "reachable (sbuf_start 2 1) sbuf_step ?start" by (rule reach_init)
  moreover have "sbuf_step (0, CallRemove) ?start = Some ?s" by (simp add: sbuf_step_def)
  ultimately have "reachable (sbuf_start 2 1) sbuf_step ?s" by (rule reach_step)
  moreover have "sbuf_step (0, Run) ?s = None" by (simp add: sbuf_step_def sbuf_init_def sem_P_def)
  ultimately show ?thesis using sbuf_progress[of 2 1 ?s 0] by simp
qed

text \<open>
  The index of the \<open>2 ^ 31\<close>th item is computed from a wrapped-around \<open>rear\<close>: it is negative,
  and outside of the array, unless the number of slots is a power of two.
\<close>

lemma sbuf_insert_overflow:
  "sbuf_insert (InsStore x) ((sbuf_init 10)\<lparr>rear := 2147483647\<rparr>) = Some Fault"
proof -
  have "sint (2147483647 + 1 :: int32) smod 10 = - 8" by code_simp
  then have "slot_index (2147483647 + 1) ((sbuf_init 10)\<lparr>rear := 2147483647\<rparr>) = Fault"
    unfolding slot_index_def by (simp only: sbuf.select_convs sbuf.update_convs sbuf_init_def Let_def) simp
  then show ?thesis by (simp only: sbuf_insert.simps Let_def sbuf.select_convs sbuf.update_convs sbuf_init_def) simp
qed

end
