(* ===== verification/Rw.thy ===== *)
theory Rw
  imports Steps
begin

text \<open>
  The readers-writers programs \<open>csapp-master/conc/rw1.c\<close> and \<open>rw2.c\<close>: any
  number of readers and writers in endless loops, each action of a loop an atomic step. The
  constructors name what a thread does next; \<open>Reading\<close> and the \<open>Writing\<close> ones are the critical
  sections, which end with the action that follows them.
\<close>

section \<open>First and second solution\<close>

datatype rw_pc =
    REnter | RInc | RFirst | RUnlockIn | Reading | RDec | RLast | RUnlockOut
  | WEnter | Writing
  | W2Outer | W2Enter | Writing2 | W2Leave

record rw =
  readcnt :: int
  rmutex :: nat
  wsem :: nat
  wgsem :: nat
  rwthreads :: "rw_pc list"

fun reader :: "rw_pc \<Rightarrow> rw \<Rightarrow> (rw_pc \<times> rw) option" where
  "reader REnter s = map_option (\<lambda>k. (RInc, s\<lparr>rmutex := k\<rparr>)) (sem_P (rmutex s))"
| "reader RInc s = Some (RFirst, s\<lparr>readcnt := readcnt s + 1\<rparr>)"
| "reader RFirst s =
     (if readcnt s = 1 then map_option (\<lambda>k. (RUnlockIn, s\<lparr>wsem := k\<rparr>)) (sem_P (wsem s)) else Some (RUnlockIn, s))"
| "reader RUnlockIn s = Some (Reading, s\<lparr>rmutex := sem_V (rmutex s)\<rparr>)"
| "reader Reading s = map_option (\<lambda>k. (RDec, s\<lparr>rmutex := k\<rparr>)) (sem_P (rmutex s))"
| "reader RDec s = Some (RLast, s\<lparr>readcnt := readcnt s - 1\<rparr>)"
| "reader RLast s = Some (RUnlockOut, if readcnt s = 0 then s\<lparr>wsem := sem_V (wsem s)\<rparr> else s)"
| "reader RUnlockOut s = Some (REnter, s\<lparr>rmutex := sem_V (rmutex s)\<rparr>)"
| "reader _ s = None"

fun writer :: "rw_pc \<Rightarrow> rw \<Rightarrow> (rw_pc \<times> rw) option" where
  "writer WEnter s = map_option (\<lambda>k. (Writing, s\<lparr>wsem := k\<rparr>)) (sem_P (wsem s))"
| "writer Writing s = Some (WEnter, s\<lparr>wsem := sem_V (wsem s)\<rparr>)"
| "writer _ s = None"

fun writer2 :: "rw_pc \<Rightarrow> rw \<Rightarrow> (rw_pc \<times> rw) option" where
  "writer2 W2Outer s = map_option (\<lambda>k. (W2Enter, s\<lparr>wgsem := k\<rparr>)) (sem_P (wgsem s))"
| "writer2 W2Enter s = map_option (\<lambda>k. (Writing2, s\<lparr>wsem := k\<rparr>)) (sem_P (wsem s))"
| "writer2 Writing2 s = Some (W2Leave, s\<lparr>wsem := sem_V (wsem s)\<rparr>)"
| "writer2 W2Leave s = Some (W2Outer, s\<lparr>wgsem := sem_V (wgsem s)\<rparr>)"
| "writer2 _ s = None"

definition rw_step :: "nat \<Rightarrow> rw \<Rightarrow> rw option" where
  "rw_step i s =
     (if i < length (rwthreads s) then
        (let t = rwthreads s ! i
         in map_option (\<lambda>(t', s'). s'\<lparr>rwthreads := (rwthreads s)[i := t']\<rparr>)
              (if t \<in> {WEnter, Writing} then writer t s
               else if t \<in> {W2Outer, W2Enter, Writing2, W2Leave} then writer2 t s else reader t s))
      else None)"

definition rw_start :: "rw \<Rightarrow> bool" where
  "rw_start s \<longleftrightarrow> readcnt s = 0 \<and> rmutex s = 1 \<and> wsem s = 1 \<and> wgsem s = 1 \<and>
     (\<forall>t\<in>set (rwthreads s). t \<in> {REnter, WEnter, W2Outer})"

fun is_reading :: "rw_pc \<Rightarrow> bool" where
  "is_reading Reading = True"
| "is_reading _ = False"

fun is_writing :: "rw_pc \<Rightarrow> bool" where
  "is_writing Writing = True"
| "is_writing Writing2 = True"
| "is_writing _ = False"

section \<open>Its invariant\<close>

text \<open>Inside \<open>mutex\<close>, counted by \<open>readcnt\<close>, and the places where \<open>w\<close> changes hands.\<close>

fun at_first :: "rw_pc \<Rightarrow> bool" where
  "at_first RFirst = True"
| "at_first _ = False"

fun at_last :: "rw_pc \<Rightarrow> bool" where
  "at_last RLast = True"
| "at_last _ = False"

fun in_mutex_else :: "rw_pc \<Rightarrow> bool" where
  "in_mutex_else RInc = True"
| "in_mutex_else RUnlockIn = True"
| "in_mutex_else RDec = True"
| "in_mutex_else RUnlockOut = True"
| "in_mutex_else _ = False"

fun past_first :: "rw_pc \<Rightarrow> bool" where
  "past_first RUnlockIn = True"
| "past_first Reading = True"
| "past_first RDec = True"
| "past_first _ = False"

fun in_wg :: "rw_pc \<Rightarrow> bool" where
  "in_wg W2Enter = True"
| "in_wg Writing2 = True"
| "in_wg W2Leave = True"
| "in_wg _ = False"

definition in_mutex :: "rw_pc \<Rightarrow> bool" where
  "in_mutex t \<longleftrightarrow> at_first t \<or> at_last t \<or> in_mutex_else t"

definition counted :: "rw_pc \<Rightarrow> bool" where
  "counted t \<longleftrightarrow> at_first t \<or> past_first t"

text \<open>The readers together hold \<open>w\<close> from the first one's \<open>P\<close> to the last one's \<open>V\<close>.\<close>

definition readers_hold :: "rw \<Rightarrow> bool" where
  "readers_hold s \<longleftrightarrow> 0 < cnt past_first (rwthreads s) \<or> readcnt s = 0 \<and> 0 < cnt at_last (rwthreads s)"

definition rw_inv :: "rw \<Rightarrow> bool" where
  "rw_inv s \<longleftrightarrow> int (rmutex s) + cnt in_mutex (rwthreads s) = 1 \<and> readcnt s = cnt counted (rwthreads s) \<and>
     int (wsem s) + cnt is_writing (rwthreads s) + of_bool (readers_hold s) = 1 \<and>
     int (wgsem s) + cnt in_wg (rwthreads s) = 1"

lemma counted_split: "cnt counted ts = cnt past_first ts + cnt at_first ts"
proof (induction ts)
  case (Cons t ts)
  then show ?case by (cases t) (simp_all add: counted_def)
qed simp

lemma in_mutex_split: "cnt in_mutex ts = cnt at_first ts + cnt at_last ts + cnt in_mutex_else ts"
proof (induction ts)
  case (Cons t ts)
  then show ?case by (cases t) (simp_all add: in_mutex_def)
qed simp

text \<open>The action of a thread, by where it is.\<close>

lemma rw_run:
  assumes "rw_step i s = Some s'"
  shows "i < length (rwthreads s) \<and>
    (case rwthreads s ! i of
       REnter \<Rightarrow> 0 < rmutex s \<and> s' = s\<lparr>rmutex := rmutex s - 1, rwthreads := (rwthreads s)[i := RInc]\<rparr>
     | RInc \<Rightarrow> s' = s\<lparr>readcnt := readcnt s + 1, rwthreads := (rwthreads s)[i := RFirst]\<rparr>
     | RFirst \<Rightarrow> if readcnt s = 1 then 0 < wsem s \<and> s' = s\<lparr>wsem := wsem s - 1, rwthreads := (rwthreads s)[i := RUnlockIn]\<rparr>
         else s' = s\<lparr>rwthreads := (rwthreads s)[i := RUnlockIn]\<rparr>
     | RUnlockIn \<Rightarrow> s' = s\<lparr>rmutex := rmutex s + 1, rwthreads := (rwthreads s)[i := Reading]\<rparr>
     | Reading \<Rightarrow> 0 < rmutex s \<and> s' = s\<lparr>rmutex := rmutex s - 1, rwthreads := (rwthreads s)[i := RDec]\<rparr>
     | RDec \<Rightarrow> s' = s\<lparr>readcnt := readcnt s - 1, rwthreads := (rwthreads s)[i := RLast]\<rparr>
     | RLast \<Rightarrow> if readcnt s = 0 then s' = s\<lparr>wsem := wsem s + 1, rwthreads := (rwthreads s)[i := RUnlockOut]\<rparr>
         else s' = s\<lparr>rwthreads := (rwthreads s)[i := RUnlockOut]\<rparr>
     | RUnlockOut \<Rightarrow> s' = s\<lparr>rmutex := rmutex s + 1, rwthreads := (rwthreads s)[i := REnter]\<rparr>
     | WEnter \<Rightarrow> 0 < wsem s \<and> s' = s\<lparr>wsem := wsem s - 1, rwthreads := (rwthreads s)[i := Writing]\<rparr>
     | Writing \<Rightarrow> s' = s\<lparr>wsem := wsem s + 1, rwthreads := (rwthreads s)[i := WEnter]\<rparr>
     | W2Outer \<Rightarrow> 0 < wgsem s \<and> s' = s\<lparr>wgsem := wgsem s - 1, rwthreads := (rwthreads s)[i := W2Enter]\<rparr>
     | W2Enter \<Rightarrow> 0 < wsem s \<and> s' = s\<lparr>wsem := wsem s - 1, rwthreads := (rwthreads s)[i := Writing2]\<rparr>
     | Writing2 \<Rightarrow> s' = s\<lparr>wsem := wsem s + 1, rwthreads := (rwthreads s)[i := W2Leave]\<rparr>
     | W2Leave \<Rightarrow> s' = s\<lparr>wgsem := wgsem s + 1, rwthreads := (rwthreads s)[i := W2Outer]\<rparr>)"
  using assms
  by (cases "rwthreads s ! i") (auto simp: rw_step_def sem_P_def sem_V_def Let_def split: if_splits)

lemma rw_inv_step:
  assumes "rw_inv s" and "rw_step i s = Some s'"
  shows "rw_inv s'"
proof -
  let ?ts = "rwthreads s"
  note run = rw_run[OF assms(2)]
  then have i: "i < length ?ts" by blast
  have nn: "0 \<le> cnt past_first ?ts" "0 \<le> cnt at_first ?ts" "0 \<le> cnt at_last ?ts" "0 \<le> cnt in_mutex_else ?ts" by (rule cnt_nonneg)+
  note inv = assms(1)[unfolded rw_inv_def readers_hold_def counted_split in_mutex_split]
  note goal = rw_inv_def readers_hold_def cnt_update[OF i] counted_split in_mutex_split counted_def in_mutex_def
  show ?thesis
  proof (cases "?ts ! i")
    case REnter
    with run inv nn show ?thesis by (auto simp: goal of_bool_def split: if_splits)
  next
    case RInc
    with run inv nn cnt_pos[OF i, of in_mutex_else] show ?thesis by (auto simp: goal of_bool_def split: if_splits)
  next
    case RFirst
    with run inv nn cnt_pos[OF i, of at_first] show ?thesis by (auto simp: goal of_bool_def split: if_splits)
  next
    case RUnlockIn
    with run inv nn cnt_pos[OF i, of past_first] show ?thesis by (auto simp: goal of_bool_def split: if_splits)
  next
    case Reading
    with run inv nn cnt_pos[OF i, of past_first] show ?thesis by (auto simp: goal of_bool_def split: if_splits)
  next
    case RDec
    with run inv nn cnt_pos[OF i, of past_first] cnt_pos[OF i, of in_mutex_else] show ?thesis by (auto simp: goal of_bool_def split: if_splits)
  next
    case RLast
    with run inv nn cnt_pos[OF i, of at_last] show ?thesis by (auto simp: goal of_bool_def split: if_splits)
  next
    case RUnlockOut
    with run inv nn cnt_pos[OF i, of in_mutex_else] show ?thesis by (auto simp: goal of_bool_def split: if_splits)
  next
    case WEnter
    with run inv nn show ?thesis by (auto simp: goal of_bool_def split: if_splits)
  next
    case Writing
    with run inv nn show ?thesis by (auto simp: goal of_bool_def split: if_splits)
  next
    case W2Outer
    with run inv nn show ?thesis by (auto simp: goal of_bool_def split: if_splits)
  next
    case W2Enter
    with run inv nn show ?thesis by (auto simp: goal of_bool_def split: if_splits)
  next
    case Writing2
    with run inv nn show ?thesis by (auto simp: goal of_bool_def split: if_splits)
  next
    case W2Leave
    with run inv nn show ?thesis by (auto simp: goal of_bool_def split: if_splits)
  qed
qed

interpretation readers_writers: transition_system rw_start rw_step rw_inv
proof
  show "rw_inv s" if "rw_start s" for s
  proof -
    have "cnt P (rwthreads s) = 0" if "\<not> P REnter" "\<not> P WEnter" "\<not> P W2Outer" for P
      using \<open>rw_start s\<close> that unfolding rw_start_def cnt_0 by auto
    with that show ?thesis
      by (simp add: rw_inv_def rw_start_def readers_hold_def counted_split in_mutex_split)
  qed
  show "rw_inv s'" if "rw_inv s" "rw_step l s = Some s'" for s l s'
    using rw_inv_step that .
qed

text \<open>
  C15: In every reachable state of any number of readers with writers of the first and of the
  second solution, a writer in its critical section is alone there, and at most one writer of
  the second solution is past its outer lock, so that at most one waits behind the readers.
\<close>

theorem rw_exclusion:
  assumes "reachable rw_start rw_step s"
  shows "cnt is_writing (rwthreads s) + of_bool (0 < cnt is_reading (rwthreads s)) \<le> 1 \<and> cnt in_wg (rwthreads s) \<le> 1"
proof -
  have inv: "rw_inv s" by (rule readers_writers.reachable_inv[OF assms])
  have "cnt is_reading (rwthreads s) \<le> cnt past_first (rwthreads s)"
    by (rule cnt_mono) (case_tac t; simp)
  then have "0 < cnt is_reading (rwthreads s) \<longrightarrow> readers_hold s" by (auto simp: readers_hold_def)
  with inv show ?thesis by (auto simp: rw_inv_def of_bool_def split: if_splits)
qed

theorem rw_exclusion_witness:
  "\<exists>s. reachable rw_start rw_step s \<and> rwthreads s = [Reading, WEnter] \<and> wsem s = 0 \<and>
    cnt is_writing (rwthreads s) + of_bool (0 < cnt is_reading (rwthreads s)) \<le> 1 \<and> cnt in_wg (rwthreads s) \<le> 1"
proof -
  let ?s = "\<lambda>t c m w. \<lparr>readcnt = c, rmutex = m, wsem = w, wgsem = 1, rwthreads = [t, WEnter]\<rparr>"
  have "reachable rw_start rw_step (?s REnter 0 1 1)" by (rule reach_init) (simp add: rw_start_def)
  then have "reachable rw_start rw_step (?s RInc 0 0 1)" by (rule reach_step[where l = 0]) (simp add: rw_step_def sem_P_def)
  then have "reachable rw_start rw_step (?s RFirst 1 0 1)" by (rule reach_step[where l = 0]) (simp add: rw_step_def)
  then have "reachable rw_start rw_step (?s RUnlockIn 1 0 0)" by (rule reach_step[where l = 0]) (simp add: rw_step_def sem_P_def)
  then have r: "reachable rw_start rw_step (?s Reading 1 1 0)" by (rule reach_step[where l = 0]) (simp add: rw_step_def sem_V_def)
  show ?thesis using rw_exclusion[OF r] r by (intro exI[of _ "?s Reading 1 1 0"]) simp
qed

end
