(* ===== verification/Rw3.thy ===== *)
theory Rw3
  imports Steps
begin

text \<open>
  Two further solutions of the readers-writers problem in \<open>csapp-master/conc\<close>: \<open>rw3.c\<close>, a semaphore
  of \<open>N\<close> permits of which a reader takes one and a writer all, and the naive \<open>rw0.c\<close>, where every
  thread takes the one semaphore.
\<close>

section \<open>The program\<close>

definition N_readers :: nat where "N_readers = 10"

text \<open>The points of the two threads; \<open>Collect i\<close> and \<open>Release i\<close> are the loops of the writer.\<close>

datatype rw3_pc = R3Enter | R3Reading | W3Enter | Collect nat | W3Leave | W3Writing | Release3 nat

record rw3 =
  sem3 :: nat
  wmutex3 :: nat
  threads3 :: "rw3_pc list"

fun reader3 :: "rw3_pc \<Rightarrow> rw3 \<Rightarrow> (rw3_pc \<times> rw3) option" where
  "reader3 R3Enter s = map_option (\<lambda>k. (R3Reading, s\<lparr>sem3 := k\<rparr>)) (sem_P (sem3 s))"
| "reader3 R3Reading s = Some (R3Enter, s\<lparr>sem3 := sem_V (sem3 s)\<rparr>)"
| "reader3 _ s = None"

fun writer3 :: "rw3_pc \<Rightarrow> rw3 \<Rightarrow> (rw3_pc \<times> rw3) option" where
  "writer3 W3Enter s = map_option (\<lambda>k. (Collect 0, s\<lparr>wmutex3 := k\<rparr>)) (sem_P (wmutex3 s))"
| "writer3 (Collect i) s =
     (if i < N_readers then map_option (\<lambda>k. (Collect (i + 1), s\<lparr>sem3 := k\<rparr>)) (sem_P (sem3 s)) else Some (W3Leave, s))"
| "writer3 W3Leave s = Some (W3Writing, s\<lparr>wmutex3 := sem_V (wmutex3 s)\<rparr>)"
| "writer3 W3Writing s = Some (Release3 0, s)"
| "writer3 (Release3 i) s =
     (if i < N_readers then Some (Release3 (i + 1), s\<lparr>sem3 := sem_V (sem3 s)\<rparr>) else Some (W3Enter, s))"
| "writer3 _ s = None"

definition rw3_step :: "nat \<Rightarrow> rw3 \<Rightarrow> rw3 option" where
  "rw3_step i s =
     (if i < length (threads3 s) then
        (let t = threads3 s ! i
         in map_option (\<lambda>(t', s'). s'\<lparr>threads3 := (threads3 s)[i := t']\<rparr>)
              (if t \<in> {R3Enter, R3Reading} then reader3 t s else writer3 t s))
      else None)"

definition rw3_start :: "rw3 \<Rightarrow> bool" where
  "rw3_start s \<longleftrightarrow> sem3 s = N_readers \<and> wmutex3 s = 1 \<and> (\<forall>t\<in>set (threads3 s). t \<in> {R3Enter, W3Enter})"

section \<open>Its invariant\<close>

text \<open>The permits a thread holds, and whether it holds \<open>wmutex\<close>.\<close>

fun permits :: "rw3_pc \<Rightarrow> nat" where
  "permits R3Reading = 1"
| "permits (Collect i) = i"
| "permits W3Leave = N_readers"
| "permits W3Writing = N_readers"
| "permits (Release3 i) = N_readers - i"
| "permits _ = 0"

fun collecting :: "rw3_pc \<Rightarrow> bool" where
  "collecting (Collect i) = True"
| "collecting W3Leave = True"
| "collecting _ = False"

fun reading3 :: "rw3_pc \<Rightarrow> bool" where
  "reading3 R3Reading = True"
| "reading3 _ = False"

fun writing3 :: "rw3_pc \<Rightarrow> bool" where
  "writing3 W3Writing = True"
| "writing3 _ = False"

fun within :: "rw3_pc \<Rightarrow> bool" where
  "within (Collect i) = (i \<le> N_readers)"
| "within (Release3 i) = (i \<le> N_readers)"
| "within _ = True"

definition held :: "rw3_pc list \<Rightarrow> nat" where
  "held ts = sum_list (map permits ts)"

definition rw3_inv :: "rw3 \<Rightarrow> bool" where
  "rw3_inv s \<longleftrightarrow> sem3 s + held (threads3 s) = N_readers \<and> int (wmutex3 s) + cnt collecting (threads3 s) = 1 \<and>
     (\<forall>t\<in>set (threads3 s). within t)"

lemma held_update: "i < length ts \<Longrightarrow> held (ts[i := t]) + permits (ts ! i) = held ts + permits t"
  unfolding held_def by (induction ts arbitrary: i) (auto split: nat.split)

lemma held_ge: "i < length ts \<Longrightarrow> permits (ts ! i) \<le> held ts"
  unfolding held_def by (simp add: member_le_sum_list)

lemma rw3_inv_step:
  assumes inv: "rw3_inv s" and step: "rw3_step i s = Some s'"
  shows "rw3_inv s'"
proof -
  let ?ts = "threads3 s" and ?t = "threads3 s ! i"
  have i: "i < length ?ts" using step by (simp add: rw3_step_def split: if_splits)
  have I: "sem3 s + held ?ts = N_readers" "int (wmutex3 s) + cnt collecting ?ts = 1" "\<And>t. t \<in> set ?ts \<Longrightarrow> within t"
    using inv by (auto simp: rw3_inv_def)
  have w: "within ?t" using I(3) i by simp
  define t' where "t' = threads3 s' ! i"
  have "threads3 s' = ?ts[i := t'] \<and> sem3 s' + permits t' = sem3 s + permits ?t \<and>
      int (wmutex3 s') + of_bool (collecting t') = int (wmutex3 s) + of_bool (collecting ?t) \<and> within t'"
    using step w i by (cases ?t) (auto simp: t'_def rw3_step_def sem_P_def sem_V_def Let_def split: if_splits)
  then have t': "threads3 s' = ?ts[i := t']" "sem3 s' + permits t' = sem3 s + permits ?t"
      "int (wmutex3 s') + of_bool (collecting t') = int (wmutex3 s) + of_bool (collecting ?t)" "within t'" by blast+
  have "held (?ts[i := t']) + permits ?t = held ?ts + permits t'" by (rule held_update[OF i])
  moreover have "cnt collecting (?ts[i := t']) = cnt collecting ?ts - of_bool (collecting ?t) + of_bool (collecting t')" by (rule cnt_update[OF i])
  moreover have "\<forall>t\<in>set (?ts[i := t']). within t" using I(3) t'(4) set_update_subset_insert[of ?ts i t'] by blast
  ultimately show ?thesis using I(1,2) t'(2,3) unfolding rw3_inv_def t'(1) by simp
qed

interpretation rw_third: transition_system rw3_start rw3_step rw3_inv
proof
  show "rw3_inv s" if "rw3_start s" for s
  proof -
    have "held (threads3 s) = 0" "cnt collecting (threads3 s) = 0"
      using that by (auto simp: held_def rw3_start_def cnt_0)
    then show ?thesis using that by (auto simp: rw3_inv_def rw3_start_def)
  qed
  show "rw3_inv s'" if "rw3_inv s" "rw3_step l s = Some s'" for s l s'
    using rw3_inv_step that .
qed

section \<open>Exclusion and progress\<close>

lemma held_two: "i < length ts \<Longrightarrow> j < length ts \<Longrightarrow> i \<noteq> j \<Longrightarrow> permits (ts ! i) + permits (ts ! j) \<le> held ts"
  using held_update[of i ts R3Enter] held_ge[of j "ts[i := R3Enter]"] by simp

lemma reading_held: "cnt reading3 ts \<le> int (held ts)"
proof (induction ts)
  case (Cons t ts)
  then show ?case by (cases t) (simp_all add: held_def)
qed (simp add: held_def)

lemma progress3:
  assumes inv: "rw3_inv s" and stuck: "\<forall>i. rw3_step i s = None"
  shows "threads3 s = []"
proof (rule ccontr)
  let ?ts = "threads3 s"
  have I: "sem3 s + held ?ts = N_readers" "int (wmutex3 s) + cnt collecting ?ts = 1" "\<And>t. t \<in> set ?ts \<Longrightarrow> within t"
    using inv by (auto simp: rw3_inv_def)
  have at: "?ts ! i = R3Enter \<and> sem3 s = 0 \<or> ?ts ! i = W3Enter \<and> wmutex3 s = 0 \<or> (\<exists>k<N_readers. ?ts ! i = Collect k \<and> sem3 s = 0)"
    if "i < length ?ts" for i
  proof -
    have "rw3_step i s = None" using stuck by blast
    then show ?thesis using that by (cases "?ts ! i") (auto simp: rw3_step_def Let_def split: if_splits)
  qed
  assume "?ts \<noteq> []"
  then have zero: "0 < length ?ts" by simp
  have "\<exists>i<length ?ts. \<exists>k<N_readers. ?ts ! i = Collect k \<and> sem3 s = 0"
  proof (rule ccontr)
    assume no: "\<not> ?thesis"
    then have rest: "?ts ! i = R3Enter \<and> sem3 s = 0 \<or> ?ts ! i = W3Enter \<and> wmutex3 s = 0" if "i < length ?ts" for i using at[OF that] that by blast
    have "permits (?ts ! i) = 0 \<and> \<not> collecting (?ts ! i)" if "i < length ?ts" for i using rest[OF that] by auto
    then have "\<forall>t\<in>set ?ts. permits t = 0 \<and> \<not> collecting t" unfolding all_set_conv_all_nth by blast
    then have "held ?ts = 0" "cnt collecting ?ts = 0" by (auto simp: held_def cnt_0)
    then show False using I(1,2) rest[OF zero] by (auto simp: N_readers_def)
  qed
  then obtain i k where k: "i < length ?ts" "k < N_readers" "?ts ! i = Collect k" "sem3 s = 0" by blast
  have "permits t = 0" if t: "t \<in> set (?ts[i := R3Enter])" for t
  proof -
    obtain j where j: "j < length ?ts" "t = ?ts[i := R3Enter] ! j" using t by (auto simp: in_set_conv_nth)
    have "\<not> collecting (?ts ! j)" if "j \<noteq> i"
    proof
      assume "collecting (?ts ! j)"
      then have "1 \<le> cnt collecting (?ts[i := R3Enter])" using cnt_pos[of j "?ts[i := R3Enter]" collecting] j(1) that by simp
      then show False using cnt_update[OF k(1), of collecting R3Enter] I(2) k(3) by simp
    qed
    then show ?thesis using at[OF j(1)] j k(1) by (cases "j = i") auto
  qed
  then have "held (?ts[i := R3Enter]) = 0" by (simp add: held_def)
  then show False using held_update[OF k(1), of R3Enter] k(2-4) I(1) by simp
qed

text \<open>
  C16: in every reachable state of any number of readers and writers of the third solution, a
  writer in its critical section is alone there, at most \<open>N\<close> readers read at the same time, and
  some thread can go on.
\<close>

theorem rw3_exclusion:
  assumes "reachable rw3_start rw3_step s"
  shows "cnt writing3 (threads3 s) + of_bool (0 < cnt reading3 (threads3 s)) \<le> 1 \<and> cnt reading3 (threads3 s) \<le> int N_readers \<and>
    (threads3 s = [] \<or> (\<exists>i s'. rw3_step i s = Some s'))"
proof -
  let ?ts = "threads3 s"
  have inv: "rw3_inv s" by (rule rw_third.reachable_inv[OF assms])
  then have h: "held ?ts \<le> N_readers" by (simp add: rw3_inv_def)
  have r: "cnt reading3 ?ts \<le> int (held ?ts)" by (rule reading_held)
  have excl: "cnt writing3 ?ts + of_bool (0 < cnt reading3 ?ts) \<le> 1"
  proof (cases "\<exists>i<length ?ts. ?ts ! i = W3Writing")
    case True
    then obtain i where i: "i < length ?ts" "?ts ! i = W3Writing" by blast
    let ?us = "?ts[i := R3Enter]"
    have z: "held ?us = 0" using held_update[OF i(1), of R3Enter] i(2) h by simp
    then have "cnt reading3 ?us \<le> 0" using reading_held[of ?us] by simp
    moreover have "cnt writing3 ?us = 0" using z unfolding cnt_0 held_def by (auto simp: N_readers_def) (metis N_readers_def permits.simps(4) writing3.elims(2) zero_neq_numeral)
    ultimately show ?thesis using cnt_update[OF i(1), of writing3 R3Enter] cnt_update[OF i(1), of reading3 R3Enter] i(2) by simp
  next
    case False
    then have "cnt writing3 ?ts = 0" unfolding cnt_0 by (auto simp: in_set_conv_nth elim!: writing3.elims)
    then show ?thesis by (simp add: of_bool_def)
  qed
  then show ?thesis using r h progress3[OF inv] by fastforce
qed

theorem rw3_exclusion_witness:
  "\<exists>s. reachable rw3_start rw3_step s \<and> threads3 s = [R3Reading, R3Reading, Collect 1] \<and> (\<exists>i s'. rw3_step i s = Some s')"
proof -
  let ?s = "\<lambda>n m ts. \<lparr>sem3 = n, wmutex3 = m, threads3 = ts\<rparr>"
  have "reachable rw3_start rw3_step (?s 10 1 [R3Enter, R3Enter, W3Enter])" by (rule reach_init) (simp add: rw3_start_def N_readers_def)
  then have "reachable rw3_start rw3_step (?s 9 1 [R3Reading, R3Enter, W3Enter])" by (rule reach_step[where l = 0]) (simp add: rw3_step_def sem_P_def)
  then have "reachable rw3_start rw3_step (?s 8 1 [R3Reading, R3Reading, W3Enter])" by (rule reach_step[where l = 1]) (simp add: rw3_step_def sem_P_def)
  then have "reachable rw3_start rw3_step (?s 8 0 [R3Reading, R3Reading, Collect 0])" by (rule reach_step[where l = 2]) (simp add: rw3_step_def sem_P_def)
  then have r: "reachable rw3_start rw3_step (?s 7 0 [R3Reading, R3Reading, Collect 1])" by (rule reach_step[where l = 2]) (simp add: rw3_step_def sem_P_def N_readers_def)
  show ?thesis using rw3_exclusion[OF r] r by (intro exI[of _ "?s 7 0 [R3Reading, R3Reading, Collect 1]"]) simp
qed

section \<open>The naive solution\<close>

datatype rw0_pc = R0Enter | R0Reading | W0Enter | W0Writing

record rw0 =
  w0 :: nat
  threads0 :: "rw0_pc list"

fun reader0 :: "rw0_pc \<Rightarrow> nat \<Rightarrow> (rw0_pc \<times> nat) option" where
  "reader0 R0Enter w = map_option (\<lambda>k. (R0Reading, k)) (sem_P w)"
| "reader0 R0Reading w = Some (R0Enter, sem_V w)"
| "reader0 _ w = None"

fun writer0 :: "rw0_pc \<Rightarrow> nat \<Rightarrow> (rw0_pc \<times> nat) option" where
  "writer0 W0Enter w = map_option (\<lambda>k. (W0Writing, k)) (sem_P w)"
| "writer0 W0Writing w = Some (W0Enter, sem_V w)"
| "writer0 _ w = None"

definition rw0_step :: "nat \<Rightarrow> rw0 \<Rightarrow> rw0 option" where
  "rw0_step i s =
     (if i < length (threads0 s) then
        (let t = threads0 s ! i
         in map_option (\<lambda>(t', w). \<lparr>w0 = w, threads0 = (threads0 s)[i := t']\<rparr>)
              (if t \<in> {R0Enter, R0Reading} then reader0 t (w0 s) else writer0 t (w0 s)))
      else None)"

definition rw0_start :: "rw0 \<Rightarrow> bool" where
  "rw0_start s \<longleftrightarrow> w0 s = 1 \<and> (\<forall>t\<in>set (threads0 s). t \<in> {R0Enter, W0Enter})"

definition inside0 :: "rw0_pc \<Rightarrow> bool" where
  "inside0 t \<longleftrightarrow> t \<in> {R0Reading, W0Writing}"

definition rw0_inv :: "rw0 \<Rightarrow> bool" where
  "rw0_inv s \<longleftrightarrow> int (w0 s) + cnt inside0 (threads0 s) = 1"

interpretation rw_naive: transition_system rw0_start rw0_step rw0_inv
proof
  show "rw0_inv s" if "rw0_start s" for s
  proof -
    have "cnt inside0 (threads0 s) = 0" using that by (auto simp: rw0_start_def cnt_0 inside0_def)
    then show ?thesis using that by (simp add: rw0_inv_def rw0_start_def)
  qed
  show "rw0_inv s'" if "rw0_inv s" "rw0_step l s = Some s'" for s l s'
    using that by (cases "threads0 s ! l") (auto simp: rw0_step_def rw0_inv_def inside0_def cnt_update sem_V_def split: if_splits)
qed

text \<open>The naive solution lets at most one thread in, even when all of them only read.\<close>

lemma rw0_exclusion: "reachable rw0_start rw0_step s \<Longrightarrow> cnt inside0 (threads0 s) \<le> 1"
  using rw_naive.reachable_inv[of s] by (simp add: rw0_inv_def)

end
