(* ===== verification/Counters.thy ===== *)
theory Counters
  imports Steps
begin

text \<open>
  Threads that add to a shared variable: \<open>goodcnt.c\<close>, \<open>badcnt.c\<close> and \<open>psum-mutex.c\<close> of
  \<open>csapp-master/conc\<close>. An addition to the variable is a load into a register, an addition and a
  store, as in the machine code the book shows; any thread may run between two of them.
\<close>

section \<open>Threads\<close>

text \<open>
  A thread is at a point of its loop \<open>for (i = start; i < end; i++)\<close>; \<open>reg\<close> is the register of the
  addition. The shared variable is called \<open>shared\<close> (\<open>cnt\<close> or \<open>gsum\<close>).
\<close>

datatype adder_pc = AHead | ALock | ALoad | AAdd | AStore | AUnlock | AEnd

record adder =
  a_pc :: adder_pc
  a_start :: nat
  a_i :: nat
  a_end :: nat
  a_reg :: int

record adders =
  shared :: int
  a_mutex :: nat
  a_threads :: "adder list"

text \<open>The body of the loop between \<open>P(&mutex)\<close> and \<open>V(&mutex)\<close>, for the value \<open>f i\<close> added in turn \<open>i\<close>.\<close>

fun locked_thread :: "(nat \<Rightarrow> int) \<Rightarrow> adder \<Rightarrow> int \<times> nat \<Rightarrow> (adder \<times> int \<times> nat) option" where
  "locked_thread f t (g, m) =
     (case a_pc t of
        AHead \<Rightarrow> Some (if a_i t < a_end t then t\<lparr>a_pc := ALock\<rparr> else t\<lparr>a_pc := AEnd\<rparr>, g, m)
      | ALock \<Rightarrow> map_option (\<lambda>k. (t\<lparr>a_pc := ALoad\<rparr>, g, k)) (sem_P m)
      | ALoad \<Rightarrow> Some (t\<lparr>a_reg := g, a_pc := AAdd\<rparr>, g, m)
      | AAdd \<Rightarrow> Some (t\<lparr>a_reg := a_reg t + f (a_i t), a_pc := AStore\<rparr>, g, m)
      | AStore \<Rightarrow> Some (t\<lparr>a_pc := AUnlock\<rparr>, a_reg t, m)
      | AUnlock \<Rightarrow> Some (t\<lparr>a_i := a_i t + 1, a_pc := AHead\<rparr>, g, sem_V m)
      | AEnd \<Rightarrow> None)"

definition goodcnt_thread :: "adder \<Rightarrow> int \<times> nat \<Rightarrow> (adder \<times> int \<times> nat) option" where
  "goodcnt_thread = locked_thread (\<lambda>i. 1)"

definition sum_mutex :: "adder \<Rightarrow> int \<times> nat \<Rightarrow> (adder \<times> int \<times> nat) option" where
  "sum_mutex = locked_thread int"

fun badcnt_thread :: "adder \<Rightarrow> int \<times> nat \<Rightarrow> (adder \<times> int \<times> nat) option" where
  "badcnt_thread t (g, m) =
     (case a_pc t of
        AHead \<Rightarrow> Some (if a_i t < a_end t then t\<lparr>a_pc := ALoad\<rparr> else t\<lparr>a_pc := AEnd\<rparr>, g, m)
      | ALoad \<Rightarrow> Some (t\<lparr>a_reg := g, a_pc := AAdd\<rparr>, g, m)
      | AAdd \<Rightarrow> Some (t\<lparr>a_reg := a_reg t + 1, a_pc := AStore\<rparr>, g, m)
      | AStore \<Rightarrow> Some (t\<lparr>a_i := a_i t + 1, a_pc := AHead\<rparr>, a_reg t, m)
      | _ \<Rightarrow> None)"

section \<open>Programs\<close>

text \<open>One action of thread \<open>k\<close> of a program.\<close>

definition adders_step :: "(adder \<Rightarrow> int \<times> nat \<Rightarrow> (adder \<times> int \<times> nat) option) \<Rightarrow> nat \<Rightarrow> adders \<Rightarrow> adders option" where
  "adders_step thread k s =
     (if k < length (a_threads s)
      then map_option (\<lambda>(t, g, m). \<lparr>shared = g, a_mutex = m, a_threads = (a_threads s)[k := t]\<rparr>)
             (thread (a_threads s ! k) (shared s, a_mutex s))
      else None)"

text \<open>\<open>main\<close> of the counters after creating its two threads.\<close>

definition cnt_main :: "nat \<Rightarrow> adders \<Rightarrow> bool" where
  "cnt_main niters s \<longleftrightarrow> shared s = 0 \<and> a_mutex s = 1 \<and>
     (\<exists>r1 r2. a_threads s = [\<lparr>a_pc = AHead, a_start = 0, a_i = 0, a_end = niters, a_reg = r1\<rparr>, \<lparr>a_pc = AHead, a_start = 0, a_i = 0, a_end = niters, a_reg = r2\<rparr>])"

text \<open>\<open>main\<close> of \<open>psum-mutex.c\<close>: thread \<open>i\<close> sums the elements from \<open>i * nelems_per_thread\<close> on.
  The arrays of \<open>main\<close> have room for \<open>MAXTHREADS = 32\<close> threads.\<close>

definition psum_main :: "nat \<Rightarrow> nat \<Rightarrow> adders \<Rightarrow> bool" where
  "psum_main nthreads log_nelems s \<longleftrightarrow>
     (let nelems = 2 ^ log_nelems; nelems_per_thread = nelems div nthreads in
      nelems mod nthreads = 0 \<and> log_nelems \<le> 31 \<and> nthreads \<le> 32 \<and> shared s = 0 \<and> a_mutex s = 1 \<and> length (a_threads s) = nthreads \<and>
      (\<forall>i<nthreads. \<exists>r. a_threads s ! i =
         \<lparr>a_pc = AHead, a_start = i * nelems_per_thread, a_i = i * nelems_per_thread, a_end = i * nelems_per_thread + nelems_per_thread, a_reg = r\<rparr>))"

section \<open>The invariant of the locked programs\<close>

fun in_section :: "adder \<Rightarrow> bool" where
  "in_section t = (a_pc t \<in> {ALoad, AAdd, AStore, AUnlock})"

definition added :: "(nat \<Rightarrow> int) \<Rightarrow> adder \<Rightarrow> int" where
  "added f t = sum f {a_start t..<a_i t} + (if a_pc t = AUnlock then f (a_i t) else 0)"

definition thread_ok :: "(nat \<Rightarrow> int) \<Rightarrow> int \<Rightarrow> adder \<Rightarrow> bool" where
  "thread_ok f g t \<longleftrightarrow> a_start t \<le> a_i t \<and> a_i t \<le> a_end t \<and>
     (a_pc t \<in> {ALock, ALoad, AAdd, AStore, AUnlock} \<longrightarrow> a_i t < a_end t) \<and> (a_pc t = AEnd \<longrightarrow> a_i t = a_end t) \<and>
     (a_pc t = AAdd \<longrightarrow> a_reg t = g) \<and> (a_pc t = AStore \<longrightarrow> a_reg t = g + f (a_i t))"

definition adders_inv :: "(nat \<Rightarrow> int) \<Rightarrow> (nat \<times> nat) list \<Rightarrow> adders \<Rightarrow> bool" where
  "adders_inv f bounds s \<longleftrightarrow> int (a_mutex s) + cnt in_section (a_threads s) = 1 \<and>
     shared s = sum_list (map (added f) (a_threads s)) \<and> (\<forall>t\<in>set (a_threads s). thread_ok f (shared s) t) \<and>
     map (\<lambda>t. (a_start t, a_end t)) (a_threads s) = bounds"

lemma sum_list_map_update:
  fixes g :: "'a \<Rightarrow> int"
  shows "k < length ts \<Longrightarrow> sum_list (map g (ts[k := t])) = sum_list (map g ts) - g (ts ! k) + g t"
  by (induction ts arbitrary: k) (auto split: nat.split)

lemma cnt_unique:
  assumes "j < length ts" "k < length ts" "j \<noteq> k" "P (ts ! j)" "P (ts ! k)"
  shows "2 \<le> cnt P ts"
proof -
  have "card {j, k} \<le> card {i. i < length ts \<and> P (ts ! i)}" by (rule card_mono) (use assms in auto)
  then show ?thesis using assms(3) by (simp add: cnt_def length_filter_conv_card)
qed

lemma locked_thread_effect:
  assumes "locked_thread f t (g, m) = Some (t', g', m')" and "thread_ok f g t"
  shows "thread_ok f g' t' \<and> g' - g = added f t' - added f t \<and> int m' - int m = of_bool (in_section t) - of_bool (in_section t') \<and>
    (g' \<noteq> g \<longrightarrow> in_section t) \<and>
    a_start t' = a_start t \<and> a_end t' = a_end t"
proof (cases "a_pc t")
  case AHead
  with assms show ?thesis by (cases "a_i t < a_end t") (clarsimp simp: thread_ok_def added_def)+
next
  case ALock
  with assms show ?thesis by (clarsimp simp: thread_ok_def added_def)
next
  case ALoad
  with assms show ?thesis by (clarsimp simp: thread_ok_def added_def)
next
  case AAdd
  with assms show ?thesis by (clarsimp simp: thread_ok_def added_def)
next
  case AStore
  with assms show ?thesis by (clarsimp simp: thread_ok_def added_def)
next
  case AUnlock
  with assms show ?thesis by (clarsimp simp: thread_ok_def added_def sem_V_def)
qed (use assms in simp)

lemma adders_inv_step:
  assumes inv: "adders_inv f bounds s" and step: "adders_step (locked_thread f) k s = Some s'"
  shows "adders_inv f bounds s'"
proof -
  let ?ts = "a_threads s" and ?t = "a_threads s ! k"
  obtain t' g' m' where k: "k < length ?ts" and th: "locked_thread f ?t (shared s, a_mutex s) = Some (t', g', m')"
      and s': "s' = \<lparr>shared = g', a_mutex = m', a_threads = ?ts[k := t']\<rparr>"
    using step by (auto simp: adders_step_def simp del: locked_thread.simps split: if_splits)
  have I: "int (a_mutex s) + cnt in_section ?ts = 1" "shared s = sum_list (map (added f) ?ts)" "\<And>t. t \<in> set ?ts \<Longrightarrow> thread_ok f (shared s) t"
      "map (\<lambda>t. (a_start t, a_end t)) ?ts = bounds"
    using inv unfolding adders_inv_def by blast+
  have ok: "thread_ok f (shared s) ?t" using I(3) k by simp
  have frame: "a_start t' = a_start ?t" "a_end t' = a_end ?t"
    using locked_thread_effect[OF th ok] by blast+
  have here: "thread_ok f g' t'" "g' - shared s = added f t' - added f ?t"
      "int m' - int (a_mutex s) = of_bool (in_section ?t) - of_bool (in_section t')"
      "g' \<noteq> shared s \<longrightarrow> in_section ?t"
    using locked_thread_effect[OF th ok] by blast+
  have "thread_ok f g' t" if t: "t \<in> set (?ts[k := t'])" for t
  proof (cases "t = t'")
    case False
    obtain j where j': "j < length ?ts" "t = ?ts[k := t'] ! j" using t by (auto simp: in_set_conv_nth)
    have "j \<noteq> k" using j' False k by auto
    with j' have j: "j < length ?ts" "j \<noteq> k" "t = ?ts ! j" by simp_all
    have old: "thread_ok f (shared s) t" using I(3) j(1,3) by simp
    show ?thesis
    proof (cases "g' = shared s")
      case False
      have "in_section ?t" using here(4) False by blast
      have "\<not> in_section t"
      proof
        assume "in_section t"
        with \<open>in_section ?t\<close> have "2 \<le> cnt in_section ?ts" unfolding j(3) by (intro cnt_unique[OF j(1) k j(2)])
        with I(1) show False by linarith
      qed
      then show ?thesis using old by (auto simp: thread_ok_def)
    qed (use old in simp)
  qed (use here(1) in simp)
  moreover have "map (\<lambda>t. (a_start t, a_end t)) (?ts[k := t']) = bounds"
    using I(4) frame map_update_same[of "\<lambda>t. (a_start t, a_end t)" t' ?ts k] by simp
  moreover have "int m' + cnt in_section (?ts[k := t']) = 1"
    using here(3) I(1) unfolding cnt_update[OF k] by linarith
  moreover have "g' = sum_list (map (added f) (?ts[k := t']))"
    using here(2) I(2) unfolding sum_list_map_update[OF k] by linarith
  ultimately show ?thesis unfolding adders_inv_def s' by simp
qed

lemma adders_inv_start:
  assumes "shared s = 0" "a_mutex s = 1" "\<forall>t\<in>set (a_threads s). a_pc t = AHead \<and> a_i t = a_start t \<and> a_start t \<le> a_end t"
  shows "adders_inv f (map (\<lambda>t. (a_start t, a_end t)) (a_threads s)) s"
proof -
  have "cnt in_section (a_threads s) = 0" unfolding cnt_0 using assms(3) by auto
  moreover have "map (added f) (a_threads s) = map (\<lambda>t. 0) (a_threads s)"
    by (rule map_cong[OF refl]) (use assms(3) in \<open>auto simp: added_def\<close>)
  then have "sum_list (map (added f) (a_threads s)) = 0" by (simp only: sum_list_0)
  ultimately show ?thesis using assms by (simp add: adders_inv_def thread_ok_def)
qed

text \<open>When no thread can act, all have ended and the variable holds the sum of all additions.\<close>

lemma adders_stuck:
  assumes inv: "adders_inv f bounds s" and stuck: "\<forall>k. adders_step (locked_thread f) k s = None"
  shows "\<forall>t\<in>set (a_threads s). a_pc t = AEnd" and "shared s = sum_list (map (\<lambda>(lo, hi). sum f {lo..<hi}) bounds)"
proof -
  let ?ts = "a_threads s"
  have I: "int (a_mutex s) + cnt in_section ?ts = 1" "shared s = sum_list (map (added f) ?ts)" "\<And>t. t \<in> set ?ts \<Longrightarrow> thread_ok f (shared s) t"
      "map (\<lambda>t. (a_start t, a_end t)) ?ts = bounds"
    using inv unfolding adders_inv_def by blast+
  have no: "a_pc t \<in> {ALock, AEnd}" "a_pc t = ALock \<Longrightarrow> a_mutex s = 0" if t: "t \<in> set ?ts" for t
  proof -
    obtain k where k: "k < length ?ts" "t = ?ts ! k" using t by (auto simp: in_set_conv_nth)
    have "adders_step (locked_thread f) k s = None" using stuck by blast
    then have "locked_thread f t (shared s, a_mutex s) = None" using k by (simp add: adders_step_def del: locked_thread.simps)
    then show "a_pc t \<in> {ALock, AEnd}" "a_pc t = ALock \<Longrightarrow> a_mutex s = 0" by (auto split: adder_pc.splits)
  qed
  have "cnt in_section ?ts = 0" unfolding cnt_0 using no(1) by fastforce
  then have "a_mutex s = 1" using I(1) by simp
  then show ended: "\<forall>t\<in>set ?ts. a_pc t = AEnd" using no by auto
  have "added f t = (\<lambda>(lo, hi). sum f {lo..<hi}) (a_start t, a_end t)" if t: "t \<in> set ?ts" for t
    using I(3)[OF t] ended t by (auto simp: added_def thread_ok_def)
  then have "map (added f) ?ts = map (\<lambda>(lo, hi). sum f {lo..<hi}) bounds"
    unfolding I(4)[symmetric] by simp
  then show "shared s = sum_list (map (\<lambda>(lo, hi). sum f {lo..<hi}) bounds)" using I(2) by simp
qed

section \<open>The counter with a mutex\<close>

interpretation goodcnt: transition_system "cnt_main niters" "adders_step goodcnt_thread" "adders_inv (\<lambda>i. 1) [(0, niters), (0, niters)]" for niters
proof
  show "adders_inv (\<lambda>i. 1) [(0, niters), (0, niters)] s" if "cnt_main niters s" for s
    using adders_inv_start[of s "\<lambda>i. 1"] that by (auto simp: cnt_main_def)
  show "adders_inv (\<lambda>i. 1) [(0, niters), (0, niters)] s'"
    if "adders_inv (\<lambda>i. 1) [(0, niters), (0, niters)] s" "adders_step goodcnt_thread k s = Some s'" for s k s'
    using adders_inv_step that unfolding goodcnt_thread_def by blast
qed

text \<open>
  C37: the two threads of \<open>goodcnt.c\<close> never block each other for good, and when both have ended the
  counter is twice the number of iterations, in whatever order they ran.
\<close>

theorem goodcnt_counts:
  assumes "reachable (cnt_main niters) (adders_step goodcnt_thread) s"
  shows "(\<exists>k s'. adders_step goodcnt_thread k s = Some s') \<or>
    (\<forall>t\<in>set (a_threads s). a_pc t = AEnd) \<and> shared s = 2 * int niters"
proof (cases "\<exists>k s'. adders_step goodcnt_thread k s = Some s'")
  case False
  then have "\<forall>k. adders_step (locked_thread (\<lambda>i. 1)) k s = None" by (auto simp: goodcnt_thread_def)
  from adders_stuck[OF goodcnt.reachable_inv[OF assms] this] show ?thesis by simp
qed simp

text \<open>A run given by the threads that act.\<close>

fun run_labels :: "('l \<Rightarrow> 's \<Rightarrow> 's option) \<Rightarrow> 'l list \<Rightarrow> 's \<Rightarrow> 's option" where
  "run_labels step [] s = Some s"
| "run_labels step (l # ls) s = Option.bind (step l s) (run_labels step ls)"

lemma run_labels_reachable: "reachable init step s \<Longrightarrow> run_labels step ls s = Some s' \<Longrightarrow> reachable init step s'"
proof (induction ls arbitrary: s)
  case (Cons l ls)
  then obtain s1 where "step l s = Some s1" "run_labels step ls s1 = Some s'" by (cases "step l s") auto
  then show ?case using Cons.IH reach_step[OF Cons.prems(1)] by blast
qed simp

definition two_counters :: "nat \<Rightarrow> nat \<Rightarrow> adders" where
  "two_counters niters i = \<lparr>shared = int i, a_mutex = 1,
     a_threads = replicate 2 \<lparr>a_pc = AHead, a_start = 0, a_i = i, a_end = niters, a_reg = int i\<rparr>\<rparr>"

lemma two_counters_start: "cnt_main niters (two_counters niters 0)"
  by (simp add: cnt_main_def two_counters_def numeral_2_eq_2)

theorem goodcnt_counts_witness:
  "\<exists>s. reachable (cnt_main 1) (adders_step goodcnt_thread) s \<and> shared s = 2 \<and> (\<forall>k. adders_step goodcnt_thread k s = None)"
proof -
  let ?e = "\<lparr>a_pc = AEnd, a_start = 0, a_i = 1, a_end = 1, a_reg = 1\<rparr>"
  let ?s = "\<lparr>shared = 2, a_mutex = 1, a_threads = [?e, ?e\<lparr>a_reg := 2\<rparr>]\<rparr>"
  have "reachable (cnt_main 1) (adders_step goodcnt_thread) (two_counters 1 0)" by (rule reach_init) (rule two_counters_start)
  moreover have "run_labels (adders_step goodcnt_thread) [0, 1, 0, 0, 0, 0, 0, 1, 1, 1, 1, 0, 1, 1] (two_counters 1 0) = Some ?s"
    by (simp add: adders_step_def goodcnt_thread_def two_counters_def sem_P_def sem_V_def numeral_2_eq_2)
  ultimately have r: "reachable (cnt_main 1) (adders_step goodcnt_thread) ?s" by (rule run_labels_reachable)
  have stuck: "adders_step goodcnt_thread k ?s = None" for k
    by (cases k; cases "k - 1") (auto simp: adders_step_def goodcnt_thread_def)
  show ?thesis using goodcnt_counts[OF r] stuck r by (intro exI[of _ ?s]) simp
qed

section \<open>The counter without a mutex\<close>

lemma badcnt_round:
  assumes r: "reachable (cnt_main niters) (adders_step badcnt_thread) (two_counters niters i)" and i: "i < niters"
  shows "reachable (cnt_main niters) (adders_step badcnt_thread) (two_counters niters (Suc i))"
proof (rule run_labels_reachable[OF r])
  show "run_labels (adders_step badcnt_thread) [0, 1, 0, 1, 0, 1, 0, 1] (two_counters niters i) = Some (two_counters niters (Suc i))"
    using i by (simp add: adders_step_def two_counters_def numeral_2_eq_2)
qed

text \<open>
  The threads of \<open>badcnt.c\<close> can lose an update in every iteration: for every number of
  iterations there is a run after which the counter has half its value.
\<close>

theorem badcnt_loses_updates:
  "\<exists>s. reachable (cnt_main niters) (adders_step badcnt_thread) s \<and> map a_pc (a_threads s) = [AEnd, AEnd] \<and> shared s = int niters"
proof -
  have "i \<le> niters \<Longrightarrow> reachable (cnt_main niters) (adders_step badcnt_thread) (two_counters niters i)" for i
  proof (induction i)
    case 0
    show ?case by (rule reach_init) (rule two_counters_start)
  qed (use badcnt_round in simp)
  then have r: "reachable (cnt_main niters) (adders_step badcnt_thread) (two_counters niters niters)" by simp
  let ?t = "\<lparr>a_pc = AHead, a_start = 0, a_i = niters, a_end = niters, a_reg = int niters\<rparr>"
  have "reachable (cnt_main niters) (adders_step badcnt_thread) \<lparr>shared = int niters, a_mutex = 1, a_threads = [?t\<lparr>a_pc := AEnd\<rparr>, ?t]\<rparr>"
    by (rule reach_step[OF r, where l = 0]) (simp add: adders_step_def two_counters_def numeral_2_eq_2)
  then have "reachable (cnt_main niters) (adders_step badcnt_thread) \<lparr>shared = int niters, a_mutex = 1, a_threads = [?t\<lparr>a_pc := AEnd\<rparr>, ?t\<lparr>a_pc := AEnd\<rparr>]\<rparr>"
    by (rule reach_step[where l = 1]) (simp add: adders_step_def)
  then show ?thesis by (rule exI[of _ "\<lparr>shared = int niters, a_mutex = 1, a_threads = [?t\<lparr>a_pc := AEnd\<rparr>, ?t\<lparr>a_pc := AEnd\<rparr>]\<rparr>", OF conjI]) simp
qed

section \<open>The parallel sum with a mutex\<close>

interpretation psum: transition_system "psum_main nthreads log_nelems" "adders_step sum_mutex"
  "adders_inv int (map (\<lambda>i. (i * (2 ^ log_nelems div nthreads), i * (2 ^ log_nelems div nthreads) + 2 ^ log_nelems div nthreads)) [0..<nthreads])"
  for nthreads log_nelems
proof
  fix s assume m: "psum_main nthreads log_nelems s"
  let ?n = "2 ^ log_nelems div nthreads"
  have t: "a_pc (a_threads s ! i) = AHead \<and> a_i (a_threads s ! i) = i * ?n \<and> a_start (a_threads s ! i) = i * ?n \<and> a_end (a_threads s ! i) = i * ?n + ?n"
    if i: "i < nthreads" for i
  proof -
    obtain r where "a_threads s ! i = \<lparr>a_pc = AHead, a_start = i * ?n, a_i = i * ?n, a_end = i * ?n + ?n, a_reg = r\<rparr>"
      using m i unfolding psum_main_def Let_def by blast
    then show ?thesis by simp
  qed
  have l: "length (a_threads s) = nthreads" "shared s = 0" "a_mutex s = 1" using m by (simp_all add: psum_main_def Let_def)
  have "map (\<lambda>t. (a_start t, a_end t)) (a_threads s) = map (\<lambda>i. (i * ?n, i * ?n + ?n)) [0..<nthreads]"
    by (rule nth_equalityI) (use l t in simp_all)
  moreover have "\<forall>t\<in>set (a_threads s). a_pc t = AHead \<and> a_i t = a_start t \<and> a_start t \<le> a_end t"
    using l t by (auto simp: all_set_conv_all_nth)
  ultimately show "adders_inv int (map (\<lambda>i. (i * ?n, i * ?n + ?n)) [0..<nthreads]) s"
    using adders_inv_start[OF l(2,3), of int] by simp
next
  fix s k s'
  assume "adders_inv int (map (\<lambda>i. (i * (2 ^ log_nelems div nthreads), i * (2 ^ log_nelems div nthreads) + 2 ^ log_nelems div nthreads)) [0..<nthreads]) s"
    "adders_step sum_mutex k s = Some s'"
  then show "adders_inv int (map (\<lambda>i. (i * (2 ^ log_nelems div nthreads), i * (2 ^ log_nelems div nthreads) + 2 ^ log_nelems div nthreads)) [0..<nthreads]) s'"
    using adders_inv_step unfolding sum_mutex_def by blast
qed

lemma blocks_sum: "sum_list (map (\<lambda>i. sum int {i * n..<i * n + n}) [0..<k]) = sum int {0..<k * n}"
proof (induction k)
  case (Suc k)
  have "{0..<Suc k * n} = {0..<k * n} \<union> {k * n..<k * n + n}" by auto
  then have "sum int {0..<Suc k * n} = sum int {0..<k * n} + sum int {k * n..<k * n + n}" by (simp only: sum.union_disjoint) (subst sum.union_disjoint, auto)
  with Suc show ?case by simp
qed simp

text \<open>
  The threads of \<open>psum-mutex.c\<close>, however many, never block each other for good, and when all
  have ended \<open>gsum\<close> is the value \<open>main\<close> checks it against.
\<close>

theorem psum_mutex_sums:
  assumes "reachable (psum_main nthreads log_nelems) (adders_step sum_mutex) s"
  shows "(\<exists>k s'. adders_step sum_mutex k s = Some s') \<or>
    (\<forall>t\<in>set (a_threads s). a_pc t = AEnd) \<and> shared s = (2 ^ log_nelems * (2 ^ log_nelems - 1)) div 2"
proof (cases "\<exists>k s'. adders_step sum_mutex k s = Some s'")
  case False
  then have "\<forall>k. adders_step (locked_thread int) k s = None" by (auto simp: sum_mutex_def)
  note st = adders_stuck[OF psum.reachable_inv[OF assms] this]
  obtain s0 where "psum_main nthreads log_nelems s0" using assms by (induction rule: reachable.induct) auto
  then have div: "nthreads dvd 2 ^ log_nelems" by (simp add: psum_main_def Let_def dvd_eq_mod_eq_0)
  have "2 * sum int {0..<n} = int n * (int n - 1)" for n by (induction n) (simp_all add: algebra_simps)
  from this[of "2 ^ log_nelems"] have "sum int {0..<2 ^ log_nelems} = 2 ^ log_nelems * (2 ^ log_nelems - 1) div 2" by simp
  then show ?thesis using st blocks_sum[of "2 ^ log_nelems div nthreads" nthreads] div by (simp add: o_def)
qed simp

theorem psum_mutex_sums_witness:
  "\<exists>s. reachable (psum_main 1 1) (adders_step sum_mutex) s \<and> shared s = 1 \<and> (\<forall>k. adders_step sum_mutex k s = None)"
proof -
  let ?t = "\<lparr>a_pc = AHead, a_start = 0, a_i = 0, a_end = 2, a_reg = 0\<rparr>"
  let ?start = "\<lparr>shared = 0, a_mutex = 1, a_threads = [?t]\<rparr>" and ?s = "\<lparr>shared = 1, a_mutex = 1, a_threads = [?t\<lparr>a_pc := AEnd, a_i := 2, a_reg := 1\<rparr>]\<rparr>"
  have "reachable (psum_main 1 1) (adders_step sum_mutex) ?start" by (rule reach_init) (simp add: psum_main_def)
  moreover have "run_labels (adders_step sum_mutex) (replicate 13 0) ?start = Some ?s"
    by code_simp
  ultimately have r: "reachable (psum_main 1 1) (adders_step sum_mutex) ?s" by (rule run_labels_reachable)
  have stuck: "adders_step sum_mutex k ?s = None" for k by (simp add: adders_step_def sum_mutex_def)
  show ?thesis using psum_mutex_sums[OF r] stuck r by (intro exI[of _ ?s]) simp
qed

end
