(* ===== verification/Rio.thy ===== *)
theory Rio
  imports CString
begin

text \<open>
  The robust I/O package of \<open>labs/proxylab-handout/csapp.c\<close>: reads and writes that survive
  short counts and interrupted calls, and the buffered reader \<open>rio_t\<close>. A descriptor is the
  list of results the kernel has in store for it.
\<close>

section \<open>Descriptors\<close>

text \<open>
  What \<open>read\<close> finds: bytes (none of them means end of file), an interrupted call, or another
  error. A call with a buffer smaller than what is there leaves the rest; past the end of the
  list every call reports end of file.
\<close>

datatype read_result = Got string | Interrupted | Failed

type_synonym descriptor = "read_result list"

fun read_fd :: "nat \<Rightarrow> descriptor \<Rightarrow> read_result \<times> descriptor" where
  "read_fd n [] = (Got [], [])"
| "read_fd n (Got bs # rs) = (Got (take n bs), if length bs \<le> n then rs else Got (drop n bs) # rs)"
| "read_fd n (r # rs) = (r, rs)"

lemma read_fd_Interrupted: "read_fd n fd = (Interrupted, fd') \<Longrightarrow> length fd' < length fd"
  by (cases "(n, fd)" rule: read_fd.cases) auto

text \<open>What \<open>write\<close> does: it takes some of the bytes, is interrupted, or fails.\<close>

datatype write_result = Wrote nat | WInterrupted | WFailed

fun write_fd :: "nat \<Rightarrow> write_result list \<Rightarrow> write_result \<times> write_result list" where
  "write_fd n [] = (Wrote n, [])"
| "write_fd n (Wrote k # rs) = (Wrote (min k n), rs)"
| "write_fd n (r # rs) = (r, rs)"

lemma write_fd_shorter:
  "write_fd n fd = (WInterrupted, fd') \<Longrightarrow> length fd' < length fd"
  "write_fd n fd = (Wrote 0, fd') \<Longrightarrow> n \<noteq> 0 \<Longrightarrow> length fd' < length fd"
  by (cases "(n, fd)" rule: write_fd.cases; auto)+

section \<open>Unbuffered reads and writes\<close>

text \<open>
  \<open>rio_readn\<close>: the value returned, the bytes stored at \<open>usrbuf\<close> and the descriptor afterwards.
\<close>

function readn_loop :: "nat \<Rightarrow> nat \<Rightarrow> string \<Rightarrow> descriptor \<Rightarrow> int \<times> string \<times> descriptor" where
  "readn_loop n nleft stored fd =
     (if 0 < nleft then
        (case read_fd nleft fd of
           (Failed, fd') \<Rightarrow> (- 1, stored, fd')
         | (Interrupted, fd') \<Rightarrow> readn_loop n nleft stored fd'
         | (Got bs, fd') \<Rightarrow>
             if bs = [] then (int n - int nleft, stored, fd')
             else readn_loop n (nleft - length bs) (stored @ bs) fd')
      else (int n - int nleft, stored, fd))"
  by pat_completeness auto
termination
  by (relation "measures [\<lambda>(n, nleft, stored, fd). nleft, \<lambda>(n, nleft, stored, fd). length fd]")
    (auto simp: read_fd_Interrupted)

definition rio_readn :: "descriptor \<Rightarrow> nat \<Rightarrow> int \<times> string \<times> descriptor" where
  "rio_readn fd n = readn_loop n n [] fd"

text \<open>
  \<open>rio_writen\<close>: the value returned, the bytes taken by the kernel, and the state of the
  descriptor. \<open>eintr\<close> says whether \<open>errno\<close> is \<open>EINTR\<close>; a count of 0 leaves it
  as it was.
\<close>

function writen_loop ::
    "nat \<Rightarrow> string \<Rightarrow> string \<Rightarrow> bool \<Rightarrow> write_result list \<Rightarrow> int \<times> string \<times> write_result list" where
  "writen_loop n left sent eintr fd =
     (if 0 < length left then
        (case write_fd (length left) fd of
           (WFailed, fd') \<Rightarrow> (- 1, sent, fd')
         | (WInterrupted, fd') \<Rightarrow> writen_loop n left sent True fd'
         | (Wrote k, fd') \<Rightarrow>
             if k = 0 then (if eintr then writen_loop n left sent eintr fd' else (- 1, sent, fd'))
             else writen_loop n (drop k left) (sent @ take k left) eintr fd')
      else (int n, sent, fd))"
  by pat_completeness auto
termination
  by (relation "measures [\<lambda>(n, left, sent, eintr, fd). length left, \<lambda>(n, left, sent, eintr, fd). length fd]")
    (auto dest: write_fd_shorter[OF sym])

definition rio_writen :: "bool \<Rightarrow> write_result list \<Rightarrow> string \<Rightarrow> int \<times> string \<times> write_result list" where
  "rio_writen eintr fd usrbuf = writen_loop (length usrbuf) usrbuf [] eintr fd"

declare readn_loop.simps [simp del] writen_loop.simps [simp del]

section \<open>The buffered reader\<close>

definition RIO_BUFSIZE :: nat where "RIO_BUFSIZE = 8192"

record rio_t =
  rio_fd :: descriptor
  rio_cnt :: int
  rio_bufptr :: nat
  rio_buf :: string

definition rio_readinitb :: "rio_t \<Rightarrow> descriptor \<Rightarrow> rio_t" where
  "rio_readinitb rp fd = rp\<lparr>rio_fd := fd, rio_cnt := 0, rio_bufptr := 0\<rparr>"

text \<open>The loop that refills the buffer; \<open>Some\<close> value is an early return.\<close>

function rio_refill :: "rio_t \<Rightarrow> int option \<times> rio_t" where
  "rio_refill rp =
     (if rio_cnt rp \<le> 0 then
        (case read_fd RIO_BUFSIZE (rio_fd rp) of
           (Failed, fd) \<Rightarrow> (Some (- 1), rp\<lparr>rio_fd := fd, rio_cnt := - 1\<rparr>)
         | (Interrupted, fd) \<Rightarrow> rio_refill (rp\<lparr>rio_fd := fd, rio_cnt := - 1\<rparr>)
         | (Got bs, fd) \<Rightarrow>
             if bs = [] then (Some 0, rp\<lparr>rio_fd := fd, rio_cnt := 0\<rparr>)
             else rio_refill (rp\<lparr>rio_fd := fd, rio_cnt := int (length bs), rio_bufptr := 0,
                                 rio_buf := bs @ drop (length bs) (rio_buf rp)\<rparr>))
      else (None, rp))"
  by pat_completeness auto
termination
  by (relation "measures [\<lambda>rp. if rio_cnt rp \<le> 0 then 1 else 0, \<lambda>rp. length (rio_fd rp)]")
    (auto simp: read_fd_Interrupted)

declare rio_refill.simps [simp del]

text \<open>\<open>rio_read\<close>: the value returned and the bytes copied to the caller.\<close>

definition rio_read :: "rio_t \<Rightarrow> nat \<Rightarrow> int \<times> string \<times> rio_t" where
  "rio_read rp n =
     (case rio_refill rp of
        (Some rc, rp') \<Rightarrow> (rc, [], rp')
      | (None, rp') \<Rightarrow>
          (let k = (if rio_cnt rp' < int n then nat (rio_cnt rp') else n)
           in (int k, take k (drop (rio_bufptr rp') (rio_buf rp')),
               rp'\<lparr>rio_bufptr := rio_bufptr rp' + k, rio_cnt := rio_cnt rp' - int k\<rparr>)))"

function readnb_loop :: "nat \<Rightarrow> nat \<Rightarrow> string \<Rightarrow> rio_t \<Rightarrow> int \<times> string \<times> rio_t" where
  "readnb_loop n nleft stored rp =
     (if 0 < nleft then
        (case rio_read rp nleft of (nread, bs, rp') \<Rightarrow>
           if nread < 0 then (- 1, stored, rp')
           else if nread = 0 then (int n - int nleft, stored, rp')
           else readnb_loop n (nleft - nat nread) (stored @ bs) rp')
      else (int n - int nleft, stored, rp))"
  by pat_completeness auto
termination by (relation "measure (\<lambda>(n, nleft, stored, rp). nleft)") auto

definition rio_readnb :: "rio_t \<Rightarrow> nat \<Rightarrow> int \<times> string \<times> rio_t" where
  "rio_readnb rp n = readnb_loop n n [] rp"

text \<open>
  \<open>rio_readlineb\<close>: \<open>usrbuf\<close> is the caller's array, which keeps its old contents where the code
  does not write; \<open>p\<close> is \<open>bufp - usrbuf\<close>. At end of file with nothing read not even the
  terminating NUL is stored.
\<close>

definition NUL :: char where "NUL = char_of (0::nat)"

function readlineb_loop :: "nat \<Rightarrow> nat \<Rightarrow> nat \<Rightarrow> string \<Rightarrow> rio_t \<Rightarrow> int \<times> string \<times> rio_t" where
  "readlineb_loop maxlen n p usrbuf rp =
     (if n < maxlen then
        (case rio_read rp 1 of (rc, bs, rp') \<Rightarrow>
           if rc = 1 then
             (let c = hd bs; usrbuf' = usrbuf[p := c] in
                if c = LF then (int (n + 1) - 1, usrbuf'[p + 1 := NUL], rp')
                else readlineb_loop maxlen (n + 1) (p + 1) usrbuf' rp')
           else if rc = 0 then
             (if n = 1 then (0, usrbuf, rp') else (int n - 1, usrbuf[p := NUL], rp'))
           else (- 1, usrbuf, rp'))
      else (int n - 1, usrbuf[p := NUL], rp))"
  by pat_completeness auto
termination by (relation "measure (\<lambda>(maxlen, n, p, usrbuf, rp). maxlen - n)") auto

definition rio_readlineb :: "rio_t \<Rightarrow> string \<Rightarrow> nat \<Rightarrow> int \<times> string \<times> rio_t" where
  "rio_readlineb rp usrbuf maxlen = readlineb_loop maxlen 1 0 usrbuf rp"

declare readnb_loop.simps [simp del] readlineb_loop.simps [simp del]

end
