(* ===== verification/RioSpec.thy ===== *)
theory RioSpec
  imports Rio
begin

text \<open>
  What the robust I/O functions promise: for the caller a descriptor or a buffered reader is
  the bytes it still has to deliver, however the kernel cuts them and however often a call is
  interrupted.
\<close>

section \<open>Byte sources\<close>

text \<open>A function that delivers at most \<open>n\<close> of the next bytes, and none only at the end.\<close>

locale byte_source =
  fixes get :: "'s \<Rightarrow> nat \<Rightarrow> int \<times> string \<times> 's" and bytes :: "'s \<Rightarrow> string" and ok :: "'s \<Rightarrow> bool"
  assumes get_ok: "ok s \<Longrightarrow> 0 < n \<Longrightarrow> get s n = (rc, bs, s') \<Longrightarrow> ok s'"
    and get_rc: "ok s \<Longrightarrow> 0 < n \<Longrightarrow> get s n = (rc, bs, s') \<Longrightarrow> rc = int (length bs)"
    and get_bytes: "ok s \<Longrightarrow> 0 < n \<Longrightarrow> get s n = (rc, bs, s') \<Longrightarrow> bytes s = bs @ bytes s'"
    and get_length: "ok s \<Longrightarrow> 0 < n \<Longrightarrow> get s n = (rc, bs, s') \<Longrightarrow> length bs \<le> n"
    and get_end: "ok s \<Longrightarrow> 0 < n \<Longrightarrow> get s n = (rc, [], s') \<Longrightarrow> bytes s = []"
begin

lemma get_cases:
  assumes "ok s" and "0 < n" and "get s n = (rc, bs, s')"
  obtains (at_end) "bs = []" "rc = 0" "bytes s = []" "bytes s' = []" "ok s'"
    | (some) c cs where "bs = c # cs" "rc = int (length bs)" "length bs \<le> n" "bytes s = bs @ bytes s'" "ok s'"
proof (cases bs)
  case Nil
  then show ?thesis using get_rc[OF assms] get_bytes[OF assms] get_end get_ok[OF assms] assms by (intro at_end) auto
next
  case (Cons c cs)
  then show ?thesis using get_rc[OF assms] get_bytes[OF assms] get_length[OF assms] get_ok[OF assms] by (intro some) auto
qed

text \<open>Calls until one delivers nothing, as a program that copies its input makes them.\<close>

fun drain :: "nat \<Rightarrow> nat \<Rightarrow> 's \<Rightarrow> string" where
  "drain 0 n s = []"
| "drain (Suc k) n s = (case get s n of (rc, bs, s') \<Rightarrow> if rc = 0 then [] else bs @ drain k n s')"

lemma drain_all:
  assumes "ok s" and "0 < n" and "length (bytes s) \<le> k"
  shows "drain k n s = bytes s"
  using assms
proof (induction k arbitrary: s)
  case (Suc k)
  obtain rc bs s' where g: "get s n = (rc, bs, s')" by (cases "get s n")
  from Suc.prems(1,2) g show ?case
  proof (cases rule: get_cases)
    case (some c cs)
    then have "drain k n s' = bytes s'" using Suc.prems Suc.IH[of s'] by simp
    with g some show ?thesis by simp
  qed (simp add: g)
qed simp

end

text \<open>A source that delivers less than it was asked for only at the end.\<close>

locale full_source = byte_source +
  assumes get_full: "ok s \<Longrightarrow> 0 < n \<Longrightarrow> get s n = (rc, bs, s') \<Longrightarrow> length bs < n \<Longrightarrow> bytes s' = []"
begin

lemma get_take:
  assumes "ok s" and "0 < n" and "get s n = (rc, bs, s')"
  shows "bs = take n (bytes s)" and "bytes s' = drop n (bytes s)"
  using get_bytes[OF assms] get_length[OF assms] get_full[OF assms] by (cases "length bs < n"; simp)+

end

section \<open>Descriptors\<close>

text \<open>End of file comes once, at the end, and there are no errors but interruptions.\<close>

definition clean :: "descriptor \<Rightarrow> bool" where
  "clean fd \<longleftrightarrow> (\<forall>r\<in>set fd. r \<noteq> Failed \<and> r \<noteq> Got [])"

fun result_bytes :: "read_result \<Rightarrow> string" where
  "result_bytes (Got bs) = bs"
| "result_bytes _ = []"

definition fd_bytes :: "descriptor \<Rightarrow> string" where
  "fd_bytes fd = concat (map result_bytes fd)"

lemma clean_simps [simp]: "clean []" "clean (r # rs) \<longleftrightarrow> r \<noteq> Failed \<and> r \<noteq> Got [] \<and> clean rs"
  by (auto simp: clean_def)

lemma fd_bytes_simps [simp]: "fd_bytes [] = []" "fd_bytes (r # rs) = result_bytes r @ fd_bytes rs"
  by (simp_all add: fd_bytes_def)

lemma read_fd_clean:
  assumes "clean fd" and "0 < n" and "read_fd n fd = (r, fd')"
  shows "clean fd' \<and> (case r of Failed \<Rightarrow> False | Interrupted \<Rightarrow> fd_bytes fd' = fd_bytes fd
    | Got bs \<Rightarrow> fd_bytes fd = bs @ fd_bytes fd' \<and> length bs \<le> n \<and> (bs = [] \<longrightarrow> fd_bytes fd = []))"
  using assms by (cases "(n, fd)" rule: read_fd.cases) (auto split: if_splits)

lemma readn_loop_spec:
  assumes "clean fd" and "nleft \<le> n"
  shows "\<exists>fd'. readn_loop n nleft stored fd =
      (int (n - nleft + length (take nleft (fd_bytes fd))), stored @ take nleft (fd_bytes fd), fd') \<and>
    clean fd' \<and> fd_bytes fd' = drop nleft (fd_bytes fd)"
  using assms
proof (induction n nleft stored fd rule: readn_loop.induct)
  case (1 n nleft stored fd)
  show ?case
  proof (cases "nleft = 0")
    case True
    with 1 show ?thesis by (subst readn_loop.simps) simp
  next
    case False
    obtain r fd' where r: "read_fd nleft fd = (r, fd')" by (cases "read_fd nleft fd")
    note rd = read_fd_clean[OF 1(3) _ r]
    show ?thesis
    proof (cases r)
      case (Got bs)
      show ?thesis
      proof (cases "bs = []")
        case True
        with Got r rd False 1(4) show ?thesis by (subst readn_loop.simps) auto
      next
        case nonempty: False
        have "\<exists>fd''. readn_loop n (nleft - length bs) (stored @ bs) fd' =
            (int (n - (nleft - length bs) + length (take (nleft - length bs) (fd_bytes fd'))),
             (stored @ bs) @ take (nleft - length bs) (fd_bytes fd'), fd'') \<and>
            clean fd'' \<and> fd_bytes fd'' = drop (nleft - length bs) (fd_bytes fd')"
          by (rule 1(1)[OF _ r[symmetric] Got nonempty]) (use Got False rd 1(4) in auto)
        with r Got False nonempty rd 1(4) show ?thesis
          by (subst readn_loop.simps) (auto simp: of_nat_diff)
      qed
    next
      case Interrupted
      then have "\<exists>fd''. readn_loop n nleft stored fd' =
            (int (n - nleft + length (take nleft (fd_bytes fd'))), stored @ take nleft (fd_bytes fd'), fd'') \<and>
            clean fd'' \<and> fd_bytes fd'' = drop nleft (fd_bytes fd')"
        by (intro 1(2)[OF _ r[symmetric]]) (use False rd 1(4) in auto)
      with r Interrupted False rd show ?thesis by (subst readn_loop.simps) auto
    qed (use rd False in auto)
  qed
qed

lemma rio_readn_spec:
  assumes "clean fd" and "rio_readn fd n = (rc, bs, fd')"
  shows "rc = int (length bs) \<and> bs = take n (fd_bytes fd) \<and> clean fd' \<and> fd_bytes fd' = drop n (fd_bytes fd)"
  using readn_loop_spec[of fd n n "[]"] assms by (auto simp: rio_readn_def)

interpretation readn: full_source rio_readn fd_bytes clean
  by unfold_locales (drule rio_readn_spec, assumption, force)+


section \<open>The buffered reader\<close>

definition rio_ok :: "rio_t \<Rightarrow> bool" where
  "rio_ok rp \<longleftrightarrow> clean (rio_fd rp) \<and> (0 < rio_cnt rp \<longrightarrow> rio_bufptr rp + nat (rio_cnt rp) \<le> length (rio_buf rp))"

text \<open>The bytes in the buffer that were not delivered, and those still in the kernel.\<close>

definition unread :: "rio_t \<Rightarrow> string" where
  "unread rp = take (nat (rio_cnt rp)) (drop (rio_bufptr rp) (rio_buf rp)) @ fd_bytes (rio_fd rp)"

lemma rio_readinitb_ok: "clean fd \<Longrightarrow> rio_ok (rio_readinitb rp fd) \<and> unread (rio_readinitb rp fd) = fd_bytes fd"
  by (simp add: rio_ok_def unread_def rio_readinitb_def)

lemma rio_refill_spec:
  assumes "rio_ok rp" and "rio_refill rp = (r, rp')"
  shows "rio_ok rp' \<and> unread rp' = unread rp \<and>
    (r = None \<and> 0 < rio_cnt rp' \<or> r = Some 0 \<and> unread rp = [])"
  using assms
proof (induction rp rule: rio_refill.induct)
  case (1 rp)
  show ?case
  proof (cases "0 < rio_cnt rp")
    case True
    with 1 show ?thesis by (subst (asm) (3) rio_refill.simps) simp
  next
    case False
    obtain x fd where r: "read_fd RIO_BUFSIZE (rio_fd rp) = (x, fd)" by (cases "read_fd RIO_BUFSIZE (rio_fd rp)")
    from 1(3) have c: "clean (rio_fd rp)" by (simp add: rio_ok_def)
    have rd: "clean fd \<and> (case x of Failed \<Rightarrow> False | Interrupted \<Rightarrow> fd_bytes fd = fd_bytes (rio_fd rp)
        | Got bs \<Rightarrow> fd_bytes (rio_fd rp) = bs @ fd_bytes fd \<and> length bs \<le> RIO_BUFSIZE \<and> (bs = [] \<longrightarrow> fd_bytes (rio_fd rp) = []))"
      by (rule read_fd_clean[OF c _ r]) (simp add: RIO_BUFSIZE_def)
    have eq: "rio_refill rp = (case (x, fd) of (Failed, fd) \<Rightarrow> (Some (- 1), rp\<lparr>rio_fd := fd, rio_cnt := - 1\<rparr>)
         | (Interrupted, fd) \<Rightarrow> rio_refill (rp\<lparr>rio_fd := fd, rio_cnt := - 1\<rparr>)
         | (Got bs, fd) \<Rightarrow>
             if bs = [] then (Some 0, rp\<lparr>rio_fd := fd, rio_cnt := 0\<rparr>)
             else rio_refill (rp\<lparr>rio_fd := fd, rio_cnt := int (length bs), rio_bufptr := 0,
                                 rio_buf := bs @ drop (length bs) (rio_buf rp)\<rparr>))"
      using False r by (subst rio_refill.simps) simp
    show ?thesis
    proof (cases x)
      case (Got bs)
      show ?thesis
      proof (cases "bs = []")
        case True
        with Got eq rd False 1(4) show ?thesis by (auto simp: rio_ok_def unread_def)
      next
        case nonempty: False
        let ?q = "rp\<lparr>rio_fd := fd, rio_cnt := int (length bs), rio_bufptr := 0,
                      rio_buf := bs @ drop (length bs) (rio_buf rp)\<rparr>"
        have "unread ?q = unread rp" using False Got rd by (simp add: unread_def)
        moreover have "rio_ok ?q" using rd by (simp add: rio_ok_def)
        moreover have "rio_refill ?q = (r, rp')" using eq Got nonempty 1(4) by simp
        ultimately show ?thesis using 1(1)[OF _ r[symmetric] Got nonempty] False by simp
      qed
    next
      case Interrupted
      let ?q = "rp\<lparr>rio_fd := fd, rio_cnt := - 1\<rparr>"
      have "unread ?q = unread rp" using False Interrupted rd by (simp add: unread_def)
      moreover have "rio_ok ?q" using rd by (simp add: rio_ok_def)
      moreover have "rio_refill ?q = (r, rp')" using eq Interrupted 1(4) by simp
      ultimately show ?thesis using 1(2)[OF _ r[symmetric] Interrupted] False by simp
    qed (use rd in auto)
  qed
qed

lemma rio_read_spec:
  assumes "rio_ok rp" and "0 < n" and "rio_read rp n = (rc, bs, rp')"
  shows "rio_ok rp' \<and> rc = int (length bs) \<and> unread rp = bs @ unread rp' \<and> length bs \<le> n \<and> (bs = [] \<longrightarrow> unread rp = [])"
proof -
  obtain r q where q: "rio_refill rp = (r, q)" by (cases "rio_refill rp")
  note q_spec = rio_refill_spec[OF assms(1) q]
  show ?thesis
  proof (cases r)
    case None
    define k where "k = (if rio_cnt q < int n then nat (rio_cnt q) else n)"
    have q': "0 < rio_cnt q" "rio_ok q" "unread q = unread rp" using q_spec None by auto
    then have len: "rio_bufptr q + nat (rio_cnt q) \<le> length (rio_buf q)" by (simp add: rio_ok_def)
    have k: "k \<le> nat (rio_cnt q)" "k \<le> n" "0 < k" using q'(1) assms(2) by (auto simp: k_def)
    have r: "rc = int k" "bs = take k (drop (rio_bufptr q) (rio_buf q))"
        "rp' = q\<lparr>rio_bufptr := rio_bufptr q + k, rio_cnt := rio_cnt q - int k\<rparr>"
      using assms(3) q None by (auto simp add: rio_read_def k_def[symmetric] Let_def)
    have "take (nat (rio_cnt q)) (drop (rio_bufptr q) (rio_buf q)) =
        bs @ take (nat (rio_cnt q - int k)) (drop (rio_bufptr q + k) (rio_buf q))"
      using k take_add[of k "nat (rio_cnt q) - k" "drop (rio_bufptr q) (rio_buf q)"]
      by (simp add: r(2) nat_diff_distrib add.commute)
    then have "unread q = bs @ unread rp'" by (simp add: unread_def r(3))
    moreover have "length bs = k" using k len by (simp add: r(2))
    moreover have "rio_ok rp'" using q'(2) k len by (auto simp: rio_ok_def r(3))
    ultimately show ?thesis using q' k r(1) by auto
  next
    case (Some c)
    then show ?thesis using q_spec assms(3) q by (auto simp: rio_read_def)
  qed
qed

interpretation rio_read: byte_source rio_read unread rio_ok
  by unfold_locales (drule (1) rio_read_spec, assumption, force)+

lemma readnb_loop_spec:
  assumes "rio_ok rp" and "nleft \<le> n"
  shows "\<exists>rp'. readnb_loop n nleft stored rp =
      (int (n - nleft + length (take nleft (unread rp))), stored @ take nleft (unread rp), rp') \<and>
    rio_ok rp' \<and> unread rp' = drop nleft (unread rp)"
  using assms
proof (induction n nleft stored rp rule: readnb_loop.induct)
  case (1 n nleft stored rp)
  show ?case
  proof (cases "nleft = 0")
    case True
    with 1 show ?thesis by (subst readnb_loop.simps) simp
  next
    case False
    obtain rc bs rp' where g: "rio_read rp nleft = (rc, bs, rp')" by (cases "rio_read rp nleft")
    from False have "0 < nleft" by simp
    from 1(2) this g show ?thesis
    proof (cases rule: rio_read.get_cases)
      case at_end
      with g False 1(3) show ?thesis by (subst readnb_loop.simps) auto
    next
      case (some c cs)
      have "\<exists>rp''. readnb_loop n (nleft - nat rc) (stored @ bs) rp' =
          (int (n - (nleft - nat rc) + length (take (nleft - nat rc) (unread rp'))),
           (stored @ bs) @ take (nleft - nat rc) (unread rp'), rp'') \<and>
          rio_ok rp'' \<and> unread rp'' = drop (nleft - nat rc) (unread rp')"
        by (rule 1(1)[OF _ g[symmetric] refl]) (use some False 1(3) in auto)
      moreover have "nat rc = length bs" "bs \<noteq> []" "0 < rc" using some by auto
      ultimately show ?thesis using g some(2-4) False 1(3)
        by (subst readnb_loop.simps) (auto simp: of_nat_diff)
    qed
  qed
qed

lemma rio_readnb_spec:
  assumes "rio_ok rp" and "rio_readnb rp n = (rc, bs, rp')"
  shows "rc = int (length bs) \<and> bs = take n (unread rp) \<and> rio_ok rp' \<and> unread rp' = drop n (unread rp)"
  using readnb_loop_spec[of rp n n "[]"] assms by (auto simp: rio_readnb_def)

interpretation readnb: full_source rio_readnb unread rio_ok
  by unfold_locales (drule rio_readnb_spec, assumption, force)+


section \<open>Lines\<close>

text \<open>The first line of \<open>s\<close> with its end, cut after \<open>m\<close> characters.\<close>

fun first_line :: "nat \<Rightarrow> string \<Rightarrow> string" where
  "first_line 0 s = []"
| "first_line (Suc m) [] = []"
| "first_line (Suc m) (c # s) = (if c = LF then [c] else c # first_line m s)"

lemma first_line_take: "first_line m s = take (length (first_line m s)) s"
  by (induction m s rule: first_line.induct) auto

lemma first_line_length: "length (first_line m s) \<le> m"
  by (induction m s rule: first_line.induct) auto

lemma first_line_Nil [simp]: "first_line m s = [] \<longleftrightarrow> m = 0 \<or> s = []"
  by (cases "(m, s)" rule: first_line.cases) auto

lemma update_next: "i < length xs \<Longrightarrow> take (Suc i) (xs[i := x]) = take i xs @ [x]"
  by (simp add: take_Suc_conv_app_nth)

lemma update_as_append: "i < length xs \<Longrightarrow> xs[i := x] = take i xs @ x # drop (Suc i) xs"
  by (rule upd_conv_take_nth_drop)

lemma readlineb_loop_spec:
  assumes "rio_ok rp" and "n \<le> maxlen" and "maxlen \<le> length ub" and "0 < n"
  shows "\<exists>rp'. readlineb_loop maxlen n (n - 1) ub rp =
      (int (n - 1) + int (length (first_line (maxlen - n) (unread rp))),
       if n = 1 \<and> n < maxlen \<and> unread rp = [] then ub
       else take (n - 1) ub @ first_line (maxlen - n) (unread rp) @ NUL # drop (n + length (first_line (maxlen - n) (unread rp))) ub,
       rp') \<and>
    rio_ok rp' \<and> unread rp' = drop (length (first_line (maxlen - n) (unread rp))) (unread rp)"
  using assms
proof (induction "maxlen - n" arbitrary: n ub rp)
  case 0
  then show ?case by (subst readlineb_loop.simps) (simp add: update_as_append)
next
  case (Suc m)
  obtain rc bs rp' where g: "rio_read rp 1 = (rc, bs, rp')" by (cases "rio_read rp 1")
  have n: "n < maxlen" "maxlen - n = Suc m" using Suc.hyps(2) by auto
  from Suc.prems(1) zero_less_one g show ?case
  proof (cases rule: rio_read.get_cases)
    case at_end
    with g n Suc.prems show ?thesis by (subst readlineb_loop.simps) (auto simp: update_as_append)
  next
    case (some c cs)
    then have s: "bs = [c]" "rc = 1" "unread rp = c # unread rp'" by auto
    show ?thesis
    proof (cases "c = LF")
      case True
      have "ub[n - 1 := LF, n := NUL] = take (n - 1) ub @ LF # NUL # drop (Suc n) ub"
        using n Suc.prems by (simp add: update_as_append drop_update_swap nth_append list_update_append)
      with True s g n Suc.prems some(5) show ?thesis by (subst readlineb_loop.simps) auto
    next
      case False
      let ?ub = "ub[n - 1 := c]"
      have "\<exists>rp''. readlineb_loop maxlen (n + 1) (n + 1 - 1) ?ub rp' =
          (int (n + 1 - 1) + int (length (first_line (maxlen - (n + 1)) (unread rp'))),
           if n + 1 = 1 \<and> n + 1 < maxlen \<and> unread rp' = [] then ?ub
           else take (n + 1 - 1) ?ub @ first_line (maxlen - (n + 1)) (unread rp') @ NUL #
             drop (n + 1 + length (first_line (maxlen - (n + 1)) (unread rp'))) ?ub, rp'') \<and>
          rio_ok rp'' \<and> unread rp'' = drop (length (first_line (maxlen - (n + 1)) (unread rp'))) (unread rp')"
        by (rule Suc.hyps(1)) (use n some Suc.prems in auto)
      moreover have "maxlen - (n + 1) = m" using n by simp
      moreover have "take n ?ub = take (n - 1) ub @ [c]"
        using update_next[of "n - 1" ub c] n Suc.prems by simp
      moreover have "n - 1 + 1 = n" using Suc.prems by simp
      ultimately show ?thesis using False s g n Suc.prems
        by (subst readlineb_loop.simps) (auto simp: of_nat_diff)
    qed
  qed
qed

lemma rio_readlineb_line:
  assumes "rio_ok rp" and "2 \<le> maxlen" and "maxlen \<le> length usrbuf"
    and "rio_readlineb rp usrbuf maxlen = (rc, usrbuf', rp')"
  shows "let line = first_line (maxlen - 1) (unread rp) in
    rc = int (length line) \<and> unread rp = line @ unread rp' \<and> rio_ok rp' \<and>
    usrbuf' = (if unread rp = [] then usrbuf else line @ NUL # drop (Suc (length line)) usrbuf)"
proof -
  have "unread rp = first_line (maxlen - 1) (unread rp) @ drop (length (first_line (maxlen - 1) (unread rp))) (unread rp)"
    using first_line_take[of "maxlen - 1" "unread rp"] by (metis append_take_drop_id)
  with readlineb_loop_spec[OF assms(1) _ assms(3), of 1] assms(2,4) show ?thesis
    by (auto simp: rio_readlineb_def Let_def)
qed

text \<open>
  C26: \<open>rio_readlineb\<close> delivers the next line of the bytes that are left, cut to
  \<open>maxlen - 1\<close> characters, whatever pieces \<open>read\<close> returns them in: it returns the
  length of the line, stores the line and a NUL at \<open>usrbuf\<close> and leaves the rest of the array
  and of the input alone. At the end of the input it returns 0 and stores nothing at all.
\<close>

theorem rio_readlineb_spec:
  assumes "rio_ok rp" and "2 \<le> maxlen" and "maxlen \<le> length usrbuf"
    and "rio_readlineb rp usrbuf maxlen = (rc, usrbuf', rp')"
  shows "let line = first_line (maxlen - 1) (unread rp) in
    rc = int (length line) \<and> unread rp = line @ unread rp' \<and> rio_ok rp' \<and>
    usrbuf' = (if unread rp = [] then usrbuf else line @ NUL # drop (Suc (length line)) usrbuf)"
  using assms by (rule rio_readlineb_line)

text \<open>A request line that arrives in three pieces, with an interruption.\<close>

definition sample_rio :: rio_t where
  "sample_rio = \<lparr>rio_fd = [Got ''GET'', Interrupted, Got (''/ '' @ [LF] @ ''Ho'')], rio_cnt = 1, rio_bufptr = 2, rio_buf = ''12> ''\<rparr>"

theorem rio_readlineb_spec_witness:
  "case rio_readlineb sample_rio (replicate 12 CHR ''x'') 10 of (rc, usrbuf', rp') \<Rightarrow>
     rc = 7 \<and> usrbuf' = ''>GET/ '' @ [LF, NUL] @ ''xxxx'' \<and> unread rp' = ''Ho''"
proof -
  obtain rc usrbuf' rp' where r: "rio_readlineb sample_rio (replicate 12 CHR ''x'') 10 = (rc, usrbuf', rp')"
    by (cases "rio_readlineb sample_rio (replicate 12 CHR ''x'') 10")
  have "rio_ok sample_rio" by (simp add: rio_ok_def sample_rio_def)
  moreover have "unread sample_rio = ''>GET/ '' @ [LF] @ ''Ho''" by (simp add: unread_def sample_rio_def)
  moreover have "first_line 9 (''>GET/ '' @ [LF] @ ''Ho'') = ''>GET/ '' @ [LF]" by code_simp
  ultimately show ?thesis using rio_readlineb_spec[OF _ _ _ r] r by (simp add: Let_def numeral_eq_Suc)
qed

section \<open>Writes\<close>

lemma writen_loop_spec:
  assumes "writen_loop n left sent eintr fd = (rc, sent', fd')"
  shows "\<exists>k. sent' = sent @ take k left \<and> (rc = int n \<and> length left \<le> k \<or> rc = - 1 \<and> k < length left)"
  using assms
proof (induction n left sent eintr fd rule: writen_loop.induct)
  case (1 n left sent eintr fd)
  show ?case
  proof (cases "left = []")
    case True
    with 1(4) show ?thesis by (subst (asm) writen_loop.simps) auto
  next
    case False
    obtain w fd1 where w: "write_fd (length left) fd = (w, fd1)" by (cases "write_fd (length left) fd")
    show ?thesis
    proof (cases w)
      case (Wrote k)
      show ?thesis
      proof (cases "k = 0")
        case True
        with Wrote w False 1 show ?thesis
          by (subst (asm) (4) writen_loop.simps) (auto split: if_splits)
      next
        case k: False
        have "\<exists>j. sent' = (sent @ take k left) @ take j (drop k left) \<and>
            (rc = int n \<and> length (drop k left) \<le> j \<or> rc = - 1 \<and> j < length (drop k left))"
          by (rule 1(2)[OF _ w[symmetric] Wrote k]) (use 1(4) w Wrote False k in \<open>simp_all add: writen_loop.simps[of n left]\<close>)
        then obtain j where "sent' = (sent @ take k left) @ take j (drop k left)"
            "rc = int n \<and> length (drop k left) \<le> j \<or> rc = - 1 \<and> j < length (drop k left)" by blast
        then show ?thesis by (intro exI[of _ "k + j"]) (auto simp: take_add)
      qed
    next
      case WInterrupted
      with w False 1 show ?thesis by (subst (asm) (4) writen_loop.simps) auto
    next
      case WFailed
      with w False 1(4) show ?thesis by (subst (asm) writen_loop.simps) (auto intro!: exI[of _ 0])
    qed
  qed
qed

text \<open>
  \<open>rio_writen\<close> hands the kernel exactly the whole buffer and returns its length, or
  stops after a proper prefix of it with an error and returns -1, however \<open>write\<close> cuts it.
\<close>

theorem rio_writen_all_or_error:
  "case rio_writen eintr fd usrbuf of (rc, sent, fd') \<Rightarrow>
     rc = int (length usrbuf) \<and> sent = usrbuf \<or>
     rc = - 1 \<and> (\<exists>k<length usrbuf. sent = take k usrbuf)"
proof -
  obtain rc sent fd' where r: "rio_writen eintr fd usrbuf = (rc, sent, fd')" by (cases "rio_writen eintr fd usrbuf")
  from writen_loop_spec[OF r[unfolded rio_writen_def]] show ?thesis by (auto simp: r)
qed

end
