(* ===== verification/Echo.thy ===== *)
theory Echo
  imports RioSpec
begin

text \<open>
  The event-driven echo server, \<open>csapp-master/conc/echoservers.c\<close>: the pool of connected
  descriptors, over the buffered reader of \<open>Rio\<close> (the package in \<open>csapp-master/src/csapp.c\<close> is
  the same). A descriptor is an \<open>int\<close>; what the kernel has in store for it and what it has taken
  from the server are maps. The result of \<open>select\<close> and of \<open>accept\<close> is an argument; a wrapper that
  exits on error is \<open>Fault\<close>.
\<close>

section \<open>The pool\<close>

definition FD_SETSIZE :: nat where "FD_SETSIZE = 1024"
definition ECHO_MAXLINE :: nat where "ECHO_MAXLINE = 8192"

record pool =
  maxfd :: int
  read_set :: "int set"
  ready_set :: "int set"
  nready :: int
  maxi :: int
  clientfd :: "int list"
  clientrio :: "rio_t list"

text \<open>
  The server: its pool, \<open>byte_cnt\<close>, the kernel's side of every descriptor (results in store for
  \<open>read\<close> and \<open>write\<close>, bytes echoed so far) and the descriptors closed. \<open>byte_cnt\<close> is an
  unbounded integer: it stays within \<open>int\<close> for less than 2 gigabytes of input.
\<close>

record server =
  the_pool :: pool
  byte_cnt :: int
  inputs :: "int \<Rightarrow> descriptor"
  outputs :: "int \<Rightarrow> write_result list"
  echoed :: "int \<Rightarrow> string"
  closed :: "int list"

definition init_pool :: "int \<Rightarrow> pool \<Rightarrow> pool" where
  "init_pool listenfd p = p\<lparr>maxi := -1, clientfd := replicate FD_SETSIZE (-1), maxfd := listenfd, read_set := {listenfd}\<rparr>"

text \<open>The loop of \<open>add_client\<close>: the first available slot, or the end of the array.\<close>

fun find_slot_from :: "nat \<Rightarrow> int list \<Rightarrow> nat" where
  "find_slot_from i [] = i"
| "find_slot_from i (fd # fds) = (if fd < 0 then i else find_slot_from (i + 1) fds)"

definition add_client :: "int \<Rightarrow> pool \<Rightarrow> pool outcome" where
  "add_client connfd p =
     (let p = p\<lparr>nready := nready p - 1\<rparr>;
          i = find_slot_from 0 (clientfd p)
      in if i < length (clientfd p) then
           let p = p\<lparr>clientfd := (clientfd p)[i := connfd], clientrio := (clientrio p)[i := rio_readinitb (clientrio p ! i) []]\<rparr>;
               p = p\<lparr>read_set := insert connfd (read_set p)\<rparr>;
               p = (if connfd > maxfd p then p\<lparr>maxfd := connfd\<rparr> else p);
               p = (if int i > maxi p then p\<lparr>maxi := int i\<rparr> else p)
           in Done p
         else Fault)"

text \<open>
  One turn of the loop of \<open>check_clients\<close>: the reader \<open>rio\<close> is a copy of the one in the pool, set
  on the kernel's side of the descriptor. \<open>buf\<close> is the local array.
\<close>

definition check_client :: "nat \<Rightarrow> string \<times> server \<Rightarrow> (string \<times> server) outcome" where
  "check_client i bs =
     (let (buf, s) = bs; p = the_pool s; connfd = clientfd p ! i; rio = clientrio p ! i in
      if connfd > 0 \<and> connfd \<in> ready_set p then
        let p = p\<lparr>nready := nready p - 1\<rparr>;
            (n, buf, rio) = rio_readlineb (rio\<lparr>rio_fd := inputs s connfd\<rparr>) buf ECHO_MAXLINE;
            s = s\<lparr>the_pool := p, inputs := (inputs s)(connfd := rio_fd rio)\<rparr>
        in if n < 0 then Fault
           else if n \<noteq> 0 then
             let s = s\<lparr>byte_cnt := byte_cnt s + n\<rparr>;
                 (rc, sent, out) = rio_writen False (outputs s connfd) (take (nat n) buf);
                 s = s\<lparr>outputs := (outputs s)(connfd := out), echoed := (echoed s)(connfd := echoed s connfd @ sent)\<rparr>
             in if rc \<noteq> n then Fault else Done (buf, s)
           else
             let s = s\<lparr>closed := closed s @ [connfd]\<rparr>;
                 p = p\<lparr>read_set := read_set p - {connfd}, clientfd := (clientfd p)[i := -1]\<rparr>
             in Done (buf, s\<lparr>the_pool := p\<rparr>)
      else Done bs)"

lemma check_client_maxi: "check_client i bs = Done bs' \<Longrightarrow> maxi (the_pool (snd bs')) = maxi (the_pool (snd bs))"
  by (auto simp: check_client_def Let_def split: if_splits prod.splits)

function check_loop :: "nat \<Rightarrow> string \<times> server \<Rightarrow> (string \<times> server) outcome" where
  "check_loop i bs =
     (if int i \<le> maxi (the_pool (snd bs)) \<and> nready (the_pool (snd bs)) > 0 then
        (case check_client i bs of Fault \<Rightarrow> Fault | Done bs' \<Rightarrow> check_loop (i + 1) bs')
      else Done bs)"
  by pat_completeness auto
termination
  by (relation "measure (\<lambda>(i, bs). nat (maxi (the_pool (snd bs)) + 1 - int i))") (auto dest!: check_client_maxi)

declare check_loop.simps [simp del]

definition check_clients :: "string \<Rightarrow> server \<Rightarrow> server outcome" where
  "check_clients buf s = (case check_loop 0 (buf, s) of Fault \<Rightarrow> Fault | Done (buf, s') \<Rightarrow> Done s')"

text \<open>
  One turn of the loop of \<open>main\<close>: \<open>select\<close> reports the set \<open>ready\<close>, and a client that waits at the
  listening descriptor is accepted as \<open>connfd\<close>.
\<close>

definition serve :: "int \<Rightarrow> int set \<Rightarrow> int \<Rightarrow> string \<Rightarrow> server \<Rightarrow> server outcome" where
  "serve listenfd ready connfd buf s =
     (let p = (the_pool s)\<lparr>ready_set := ready, nready := int (card ready)\<rparr>;
          r = (if listenfd \<in> ready then add_client connfd p else Done p)
      in case r of Fault \<Rightarrow> Fault | Done p \<Rightarrow> check_clients buf (s\<lparr>the_pool := p\<rparr>))"

end
