(* ===== verification/EchoSpec.thy ===== *)
theory EchoSpec
  imports Echo
begin

text \<open>
  The pool of \<open>csapp-master/conc/echoservers.c\<close> as a set of clients: what accepting and serving do
  to it, which bytes are echoed, and which are lost.
\<close>

section \<open>The pool as a set\<close>

definition clients :: "pool \<Rightarrow> int set" where
  "clients p = {fd \<in> set (clientfd p). 0 < fd}"

definition pool_ok :: "int \<Rightarrow> pool \<Rightarrow> bool" where
  "pool_ok listenfd p \<longleftrightarrow> length (clientfd p) = FD_SETSIZE \<and> length (clientrio p) = FD_SETSIZE \<and>
     (\<forall>i<FD_SETSIZE. clientfd p ! i = -1 \<or> 0 < clientfd p ! i) \<and>
     (\<forall>i<FD_SETSIZE. \<forall>j<FD_SETSIZE. 0 < clientfd p ! i \<longrightarrow> clientfd p ! i = clientfd p ! j \<longrightarrow> i = j) \<and>
     (\<forall>i<FD_SETSIZE. 0 < clientfd p ! i \<longrightarrow> int i \<le> maxi p \<and> rio_cnt (clientrio p ! i) = 0) \<and>
     listenfd \<notin> clients p \<and> read_set p = insert listenfd (clients p) \<and> (\<forall>fd\<in>read_set p. fd \<le> maxfd p)"

lemma pool_okD:
  assumes "pool_ok listenfd p"
  shows "length (clientfd p) = FD_SETSIZE" "length (clientrio p) = FD_SETSIZE"
    "i < FD_SETSIZE \<Longrightarrow> clientfd p ! i = -1 \<or> 0 < clientfd p ! i"
    "i < FD_SETSIZE \<Longrightarrow> j < FD_SETSIZE \<Longrightarrow> 0 < clientfd p ! i \<Longrightarrow> clientfd p ! i = clientfd p ! j \<Longrightarrow> i = j"
    "i < FD_SETSIZE \<Longrightarrow> 0 < clientfd p ! i \<Longrightarrow> int i \<le> maxi p \<and> rio_cnt (clientrio p ! i) = 0"
    "listenfd \<notin> clients p" "read_set p = insert listenfd (clients p)" "fd \<in> read_set p \<Longrightarrow> fd \<le> maxfd p"
  using assms unfolding pool_ok_def by blast+

lemma clients_nth: "c \<in> clients p \<longleftrightarrow> (\<exists>i<length (clientfd p). clientfd p ! i = c \<and> 0 < c)"
  by (auto simp: clients_def in_set_conv_nth)

lemma init_pool_ok: "length (clientrio p) = FD_SETSIZE \<Longrightarrow> pool_ok listenfd (init_pool listenfd p) \<and> clients (init_pool listenfd p) = {}"
  by (auto simp: pool_ok_def init_pool_def clients_def)

section \<open>Accepting\<close>

lemma find_slot_from: "find_slot_from i fds = i + length (takeWhile (\<lambda>fd. \<not> fd < 0) fds)"
  by (induction fds arbitrary: i) auto

text \<open>A slot is found exactly when one is free.\<close>

lemma find_slot_free:
  assumes "find_slot_from 0 fds < length fds"
  shows "fds ! find_slot_from 0 fds < 0"
  using assms nth_length_takeWhile[of "\<lambda>fd. \<not> fd < 0" fds] by (simp add: find_slot_from)

lemma find_slot_full: "find_slot_from 0 fds = length fds \<longleftrightarrow> (\<forall>fd\<in>set fds. 0 \<le> fd)"
proof -
  have "length (takeWhile (\<lambda>fd. \<not> fd < 0) fds) = length fds \<longleftrightarrow> (\<forall>fd\<in>set fds. \<not> fd < 0)"
    by (metis (no_types, lifting) set_takeWhileD takeWhile_eq_all_conv takeWhile_eq_take take_all_iff order_refl)
  then show ?thesis by (simp add: find_slot_from not_less)
qed

lemma add_client_slot:
  assumes ok: "pool_ok listenfd p" and c: "0 < connfd" "connfd \<notin> clients p" "connfd \<noteq> listenfd"
    and i: "i < FD_SETSIZE" "clientfd p ! i < 0"
    and p': "clientfd p' = (clientfd p)[i := connfd]" "clientrio p' = (clientrio p)[i := rio_readinitb (clientrio p ! i) []]"
      "read_set p' = insert connfd (read_set p)" "maxfd p' = max connfd (maxfd p)" "maxi p' = max (int i) (maxi p)"
  shows "pool_ok listenfd p' \<and> clients p' = insert connfd (clients p)"
proof -
  note P = pool_okD[OF ok]
  have C: "clients p' = insert connfd (clients p)"
  proof
    show "clients p' \<subseteq> insert connfd (clients p)"
      using set_update_subset_insert[of "clientfd p" i connfd] by (auto simp: clients_def p'(1))
    have "clientfd p ! j = clientfd p' ! j" if "j < FD_SETSIZE" "0 < clientfd p ! j" for j
      using that i by (cases "j = i") (simp_all add: p'(1))
    then have "clients p \<subseteq> clients p'"
    proof (intro subsetI)
      fix fd assume keep: "\<And>j. j < FD_SETSIZE \<Longrightarrow> 0 < clientfd p ! j \<Longrightarrow> clientfd p ! j = clientfd p' ! j" and "fd \<in> clients p"
      then obtain j where j: "j < FD_SETSIZE" "clientfd p ! j = fd" "0 < fd" using P(1) by (auto simp: clients_nth)
      moreover have "clientfd p' ! j = fd" using keep[of j] j by simp
      ultimately show "fd \<in> clients p'" unfolding clients_nth p'(1) length_list_update P(1) by blast
    qed
    moreover have "connfd \<in> clients p'" using i(1) c(1) P(1) by (auto simp: clients_nth p'(1))
    ultimately show "insert connfd (clients p) \<subseteq> clients p'" by simp
  qed
  have new: "clientfd p ! j \<noteq> connfd" if "j < FD_SETSIZE" for j
    using c(1,2) that P(1) by (auto simp: clients_nth)
  have "j = k" if "j < FD_SETSIZE" "k < FD_SETSIZE" "0 < clientfd p' ! j" "clientfd p' ! j = clientfd p' ! k" for j k
    using P(4)[of j k] new[of j] new[of k] that i P(1) by (cases "j = i"; cases "k = i") (auto simp: p'(1))
  moreover have "clientfd p' ! j = -1 \<or> 0 < clientfd p' ! j" if "j < FD_SETSIZE" for j
    using P(3)[OF that] i c(1) P(1) by (cases "j = i") (auto simp: p'(1))
  moreover have "int j \<le> maxi p' \<and> rio_cnt (clientrio p' ! j) = 0" if "j < FD_SETSIZE" "0 < clientfd p' ! j" for j
    using P(5)[OF that(1)] that i P(1,2) by (cases "j = i") (auto simp: p'(1,2,5) rio_readinitb_def)
  ultimately show ?thesis
    using P(1,2,6,7,8) C c by (auto simp: pool_ok_def p' le_max_iff_disj)
qed

lemma add_client_clients:
  assumes ok: "pool_ok listenfd p" and c: "0 < connfd" "connfd \<notin> clients p" "connfd \<noteq> listenfd"
  shows "if card (clients p) < FD_SETSIZE
    then \<exists>p'. add_client connfd p = Done p' \<and> pool_ok listenfd p' \<and> clients p' = insert connfd (clients p) \<and>
      nready p' = nready p - 1 \<and> ready_set p' = ready_set p
    else add_client connfd p = Fault"
proof -
  note P = pool_okD[OF ok]
  let ?i = "find_slot_from 0 (clientfd p)"
  have card: "card (clients p) = FD_SETSIZE \<longleftrightarrow> ?i = FD_SETSIZE" and le: "card (clients p) \<le> FD_SETSIZE"
  proof -
    let ?I = "{i. i < FD_SETSIZE \<and> 0 < clientfd p ! i}"
    have "clients p = (\<lambda>i. clientfd p ! i) ` ?I" by (auto simp: clients_nth P(1))
    moreover have "inj_on (\<lambda>i. clientfd p ! i) ?I"
      by (rule inj_onI) (use P(4) in blast)
    ultimately have eq: "card (clients p) = card ?I" by (simp only: card_image)
    have sub: "?I \<subseteq> {..<FD_SETSIZE}" by auto
    show "card (clients p) \<le> FD_SETSIZE" using card_mono[OF _ sub] eq by simp
    have "card ?I = FD_SETSIZE \<longleftrightarrow> ?I = {..<FD_SETSIZE}" using card_subset_eq[OF finite_lessThan sub] card_lessThan[of FD_SETSIZE] by metis
    also have "\<dots> \<longleftrightarrow> (\<forall>i<FD_SETSIZE. 0 < clientfd p ! i)" by auto
    also have "\<dots> \<longleftrightarrow> (\<forall>i<FD_SETSIZE. 0 \<le> clientfd p ! i)"
    proof -
      have "(0 < clientfd p ! i) = (0 \<le> clientfd p ! i)" if "i < FD_SETSIZE" for i using P(3)[OF that] by auto
      then show ?thesis by blast
    qed
    also have "\<dots> \<longleftrightarrow> (\<forall>fd\<in>set (clientfd p). 0 \<le> fd)" using P(1) by (simp add: all_set_conv_all_nth)
    finally show "card (clients p) = FD_SETSIZE \<longleftrightarrow> ?i = FD_SETSIZE" using find_slot_full[of "clientfd p"] eq P(1) by simp
  qed
  have "?i \<le> FD_SETSIZE" using length_takeWhile_le[of _ "clientfd p"] P(1) by (simp add: find_slot_from)
  then consider "?i < FD_SETSIZE" "card (clients p) < FD_SETSIZE" | "?i = FD_SETSIZE" "card (clients p) = FD_SETSIZE"
    using card le by fastforce
  then show ?thesis
  proof cases
    case 1
    then have neg: "clientfd p ! ?i < 0" using find_slot_free[of "clientfd p"] P(1) by simp
    let ?p = "p\<lparr>maxfd := max connfd (maxfd p), read_set := insert connfd (read_set p), nready := nready p - 1,
      maxi := max (int ?i) (maxi p), clientfd := (clientfd p)[?i := connfd],
      clientrio := (clientrio p)[?i := rio_readinitb (clientrio p ! ?i) []]\<rparr>"
    have run: "add_client connfd p = Done ?p" using 1 P(1) by (cases p) (simp add: add_client_def Let_def max_def)
    obtain p' where p': "add_client connfd p = Done p'" "clientfd p' = (clientfd p)[?i := connfd]"
        "clientrio p' = (clientrio p)[?i := rio_readinitb (clientrio p ! ?i) []]" "read_set p' = insert connfd (read_set p)"
        "maxfd p' = max connfd (maxfd p)" "maxi p' = max (int ?i) (maxi p)" "nready p' = nready p - 1" "ready_set p' = ready_set p"
      by (rule that[of ?p]) (use run in simp_all)
    from add_client_slot[OF ok c 1(1) neg p'(2-6)] p' 1(2) show ?thesis by simp
  next
    case 2
    then show ?thesis using P(1) by (simp add: add_client_def Let_def)
  qed
qed

section \<open>What stays in the buffer\<close>

text \<open>
  A \<open>read\<close> that returns a whole line and more leaves the rest in the buffer of the copied reader,
  which the server throws away: the descriptor has already moved past it.
\<close>

definition drops_rest :: "descriptor \<Rightarrow> descriptor \<Rightarrow> bool" where
  "drops_rest fd fd' \<longleftrightarrow> (\<forall>l rest later. fd = Got (l @ LF # rest) # later \<longrightarrow>
     length l + length rest < RIO_BUFSIZE \<longrightarrow> LF \<notin> set l \<longrightarrow> length l < ECHO_MAXLINE - 1 \<longrightarrow> fd' = later)"

lemma rio_read_buffered:
  assumes "0 < rio_cnt rp" "take (nat (rio_cnt rp)) (drop (rio_bufptr rp) (rio_buf rp)) = c # cs"
  shows "rio_read rp 1 = (1, [c], rp\<lparr>rio_bufptr := rio_bufptr rp + 1, rio_cnt := rio_cnt rp - 1\<rparr>)"
proof -
  have "rio_refill rp = (None, rp)" using assms(1) by (subst rio_refill.simps) simp
  moreover have "take 1 (drop (rio_bufptr rp) (rio_buf rp)) = [c]"
    using assms by (cases "drop (rio_bufptr rp) (rio_buf rp)"; cases "nat (rio_cnt rp)") auto
  ultimately show ?thesis using assms(1) by (simp add: rio_read_def)
qed

lemma readlineb_buffered:
  assumes "0 < rio_cnt rp" "take (nat (rio_cnt rp)) (drop (rio_bufptr rp) (rio_buf rp)) = l @ LF # rest"
    and "LF \<notin> set l" "n + length l < maxlen"
  shows "rio_fd (snd (snd (readlineb_loop maxlen n p ub rp))) = rio_fd rp"
  using assms
proof (induction l arbitrary: n p ub rp)
  case Nil
  then show ?case using rio_read_buffered[OF Nil(1)] by (subst readlineb_loop.simps) simp
next
  case (Cons c l)
  let ?rp = "rp\<lparr>rio_bufptr := rio_bufptr rp + 1, rio_cnt := rio_cnt rp - 1\<rparr>"
  have r: "rio_read rp 1 = (1, [c], ?rp)" by (rule rio_read_buffered) (use Cons.prems in simp_all)
  have t: "take (nat (rio_cnt rp) - 1) (drop (rio_bufptr rp + 1) (rio_buf rp)) = l @ LF # rest"
    using arg_cong[OF Cons.prems(2), of tl] by (simp add: tl_take tl_drop drop_Suc)
  then have "0 < nat (rio_cnt rp) - 1" by (cases "nat (rio_cnt rp) - 1") auto
  then have pos: "0 < rio_cnt ?rp" by simp
  have "rio_fd (snd (snd (readlineb_loop maxlen (n + 1) (p + 1) (ub[p := c]) ?rp))) = rio_fd ?rp"
    by (rule Cons.IH[OF pos]) (use t Cons.prems in \<open>simp_all add: nat_diff_distrib\<close>)
  then show ?case using Cons.prems r by (subst readlineb_loop.simps) (auto simp: Let_def)
qed

lemma readlineb_drops_rest:
  assumes "rio_cnt rp = 0" "rio_readlineb rp ub ECHO_MAXLINE = (rc, ub', rp')"
  shows "drops_rest (rio_fd rp) (rio_fd rp')"
  unfolding drops_rest_def
proof (intro allI impI)
  fix l rest later assume fd: "rio_fd rp = Got (l @ LF # rest) # later" and len: "length l + length rest < RIO_BUFSIZE"
    and l: "LF \<notin> set l" "length l < ECHO_MAXLINE - 1"
  define bs where "bs = l @ LF # rest"
  have bs: "length bs \<le> RIO_BUFSIZE" "bs \<noteq> []" using len by (simp_all add: bs_def)
  let ?rp = "rp\<lparr>rio_fd := later, rio_cnt := int (length bs), rio_bufptr := 0, rio_buf := bs @ drop (length bs) (rio_buf rp)\<rparr>"
  have "rio_refill ?rp = (None, ?rp)" using bs(2) by (subst rio_refill.simps) simp
  moreover have "rio_refill rp = rio_refill ?rp"
    using assms(1) fd[folded bs_def] bs by (subst rio_refill.simps) simp
  ultimately have "rio_read rp 1 = rio_read ?rp 1" by (simp add: rio_read_def)
  then have "rio_readlineb rp ub ECHO_MAXLINE = rio_readlineb ?rp ub ECHO_MAXLINE"
    unfolding rio_readlineb_def by (subst (1 2) readlineb_loop.simps) (simp add: ECHO_MAXLINE_def)
  moreover have held: "take (nat (rio_cnt ?rp)) (drop (rio_bufptr ?rp) (rio_buf ?rp)) = l @ LF # rest" by (simp add: bs_def[symmetric])
  have "rio_fd (snd (snd (rio_readlineb ?rp ub ECHO_MAXLINE))) = rio_fd ?rp"
    unfolding rio_readlineb_def by (rule readlineb_buffered[OF _ held]) (use l bs(2) in \<open>simp_all add: less_diff_conv\<close>)
  moreover have "rio_fd ?rp = later" by simp
  ultimately show "rio_fd rp' = later" using assms(2) by (metis snd_conv)
qed

section \<open>Serving one client\<close>

definition line_for :: "server \<Rightarrow> int \<Rightarrow> string" where
  "line_for s c = first_line (ECHO_MAXLINE - 1) (fd_bytes (inputs s c))"

text \<open>The clients in \<open>A\<close> have been served: a line each is echoed, and one at end of file leaves the pool.\<close>

definition served :: "int set \<Rightarrow> server \<Rightarrow> server \<Rightarrow> bool" where
  "served A s s' \<longleftrightarrow>
     clients (the_pool s') = clients (the_pool s) - {c \<in> A. line_for s c = []} \<and>
     (\<forall>c. echoed s' c = echoed s c @ (if c \<in> A then line_for s c else [])) \<and>
     (\<forall>c. c \<notin> A \<longrightarrow> inputs s' c = inputs s c) \<and>
     (\<forall>c\<in>A. drops_rest (inputs s c) (inputs s' c)) \<and>
     (\<forall>c. clean (inputs s c) \<longrightarrow> clean (inputs s' c)) \<and>
     byte_cnt s' = byte_cnt s + (\<Sum>c\<in>A. int (length (line_for s c))) \<and>
     ready_set (the_pool s') = ready_set (the_pool s) \<and> ((\<forall>c. outputs s c = []) \<longrightarrow> (\<forall>c. outputs s' c = []))"

lemma served_none: "served {} s s"
  by (simp add: served_def)

lemma served_trans:
  assumes "served A s s'" "served B s' s''" "A \<inter> B = {}" "finite A" "finite B"
  shows "served (A \<union> B) s s''"
proof -
  have same: "line_for s' c = line_for s c" if "c \<in> B" for c
    using assms(1,3) that by (auto simp: served_def line_for_def)
  have "(\<Sum>c\<in>B. int (length (line_for s' c))) = (\<Sum>c\<in>B. int (length (line_for s c)))"
    by (rule sum.cong) (simp_all add: same)
  then have "byte_cnt s'' = byte_cnt s + (\<Sum>c\<in>A \<union> B. int (length (line_for s c)))"
    using assms sum.union_disjoint[OF assms(4,5,3), of "\<lambda>c. int (length (line_for s c))"] by (simp add: served_def)
  moreover have "clients (the_pool s'') = clients (the_pool s) - {c \<in> A \<union> B. line_for s c = []}"
    using assms(1,2) same by (auto simp: served_def)
  moreover have "echoed s'' c = echoed s c @ (if c \<in> A \<union> B then line_for s c else [])" for c
    using assms(1,2,3) same[of c] by (auto simp: served_def)
  moreover have "drops_rest (inputs s c) (inputs s'' c)" if "c \<in> A \<union> B" for c
  proof (cases "c \<in> A")
    case True
    then have "inputs s'' c = inputs s' c" using assms(2,3) by (auto simp: served_def)
    then show ?thesis using assms(1) True by (simp add: served_def)
  next
    case False
    then have "c \<in> B" "inputs s' c = inputs s c" using that assms(1) by (auto simp: served_def)
    then show ?thesis using assms(2) by (auto simp: served_def)
  qed
  ultimately show ?thesis using assms(1,2) by (simp add: served_def)
qed

lemma writen_all: "rio_writen False [] usrbuf = (int (length usrbuf), usrbuf, [])"
  unfolding rio_writen_def by (subst writen_loop.simps) (simp add: writen_loop.simps)

lemma drop_client:
  assumes ok: "pool_ok listenfd p" and i: "i < FD_SETSIZE" "0 < clientfd p ! i"
    and p': "clientfd p' = (clientfd p)[i := -1]" "clientrio p' = clientrio p" "read_set p' = read_set p - {clientfd p ! i}"
      "maxfd p' = maxfd p" "maxi p' = maxi p"
  shows "pool_ok listenfd p' \<and> clients p' = clients p - {clientfd p ! i}"
proof -
  note P = pool_okD[OF ok]
  have at: "clientfd p' ! j = (if j = i then -1 else clientfd p ! j)" if "j < FD_SETSIZE" for j
    using that i P(1) by (simp add: p'(1))
  have C: "clients p' = clients p - {clientfd p ! i}"
  proof (intro set_eqI iffI)
    fix fd assume "fd \<in> clients p'"
    then obtain j where j: "j < FD_SETSIZE" "clientfd p' ! j = fd" "0 < fd" using P(1) p'(1) by (auto simp: clients_nth)
    then have "j \<noteq> i" "clientfd p ! j = fd" using at[of j] by (auto split: if_splits)
    then show "fd \<in> clients p - {clientfd p ! i}" using P(1) P(4)[OF i(1) j(1) i(2)] j by (auto simp: clients_nth)
  next
    fix fd assume fd: "fd \<in> clients p - {clientfd p ! i}"
    then obtain j where j: "j < FD_SETSIZE" "clientfd p ! j = fd" "0 < fd" using P(1) by (auto simp: clients_nth)
    then have "j \<noteq> i" using fd by auto
    then have "clientfd p' ! j = fd" using at[of j] j by simp
    then show "fd \<in> clients p'" using j P(1) by (auto simp: clients_nth p'(1))
  qed
  moreover have "read_set p' = insert listenfd (clients p')"
  proof -
    have "clientfd p ! i \<in> clients p" using i P(1) by (auto simp: clients_nth)
    then show ?thesis using P(6,7) C by (auto simp: p'(3))
  qed
  moreover have "j = k" if "j < FD_SETSIZE" "k < FD_SETSIZE" "0 < clientfd p' ! j" "clientfd p' ! j = clientfd p' ! k" for j k
    using P(4)[of j k] that at[of j] at[of k] by (auto split: if_splits)
  moreover have "clientfd p' ! j = -1 \<or> 0 < clientfd p' ! j" "0 < clientfd p' ! j \<longrightarrow> int j \<le> maxi p' \<and> rio_cnt (clientrio p' ! j) = 0"
    if "j < FD_SETSIZE" for j
    using P(3,5)[OF that] at[OF that] by (auto simp: p'(2,5))
  moreover have "fd \<le> maxfd p'" if "fd \<in> read_set p'" for fd using P(8)[of fd] that by (simp add: p'(3,4))
  ultimately show ?thesis using P(1,2,6) unfolding pool_ok_def p'(2) by (simp add: p'(1))
qed

definition waiting :: "nat \<Rightarrow> pool \<Rightarrow> int set" where
  "waiting i p = {c. 0 < c \<and> c \<in> ready_set p \<and> (\<exists>j. i \<le> j \<and> j < FD_SETSIZE \<and> clientfd p ! j = c)}"

lemma waiting_Suc:
  assumes "i < FD_SETSIZE"
  shows "waiting i p = (if 0 < clientfd p ! i \<and> clientfd p ! i \<in> ready_set p then {clientfd p ! i} else {}) \<union> waiting (Suc i) p"
proof -
  have "(\<exists>j. i \<le> j \<and> j < FD_SETSIZE \<and> clientfd p ! j = c) \<longleftrightarrow>
      clientfd p ! i = c \<or> (\<exists>j. Suc i \<le> j \<and> j < FD_SETSIZE \<and> clientfd p ! j = c)" for c
    using assms by (metis Suc_leD Suc_leI le_neq_implies_less order_refl)
  then show ?thesis unfolding waiting_def by auto
qed

lemma check_client_idle:
  assumes "\<not> (0 < clientfd (the_pool s) ! i \<and> clientfd (the_pool s) ! i \<in> ready_set (the_pool s))"
  shows "check_client i (buf, s) = Done (buf, s)"
  using assms by (auto simp: check_client_def Let_def)

text \<open>A turn for a ready client: its line is echoed, or it is dropped at end of file.\<close>

lemma check_client_serves:
  assumes ok: "pool_ok listenfd (the_pool s)" and i: "i < FD_SETSIZE" and c: "c = clientfd (the_pool s) ! i" "0 < c" "c \<in> ready_set (the_pool s)"
    and io: "clean (inputs s c)" "outputs s c = []" and buf: "length buf = ECHO_MAXLINE"
  shows "\<exists>buf' s'. check_client i (buf, s) = Done (buf', s') \<and> length buf' = ECHO_MAXLINE \<and> served {c} s s' \<and>
    pool_ok listenfd (the_pool s') \<and> nready (the_pool s') = nready (the_pool s) - 1 \<and> maxi (the_pool s') = maxi (the_pool s) \<and>
    (\<forall>j. j \<noteq> i \<longrightarrow> clientfd (the_pool s') ! j = clientfd (the_pool s) ! j)"
proof -
  let ?p = "the_pool s"
  let ?rio = "(clientrio ?p ! i)\<lparr>rio_fd := inputs s c\<rparr>"
  obtain rc buf' rio' where r: "rio_readlineb ?rio buf ECHO_MAXLINE = (rc, buf', rio')" by (metis prod_cases3)
  have "rio_cnt (clientrio ?p ! i) = 0" using pool_okD(5)[OF ok i] c by simp
  then have R: "rio_ok ?rio" "unread ?rio = fd_bytes (inputs s c)" using io(1) by (simp_all add: rio_ok_def unread_def)
  have line: "rc = int (length (line_for s c))" "unread ?rio = line_for s c @ unread rio'" "rio_ok rio'"
    and b': "buf' = (if unread ?rio = [] then buf else line_for s c @ NUL # drop (Suc (length (line_for s c))) buf)"
    using rio_readlineb_line[OF R(1) _ _ r] buf R(2) by (simp_all add: ECHO_MAXLINE_def line_for_def Let_def)
  have short: "length (line_for s c) < ECHO_MAXLINE"
    using first_line_length[of "ECHO_MAXLINE - 1" "fd_bytes (inputs s c)"] by (simp add: line_for_def ECHO_MAXLINE_def)
  have len: "length buf' = ECHO_MAXLINE" using buf short by (auto simp: b')
  have empty: "unread ?rio = [] \<longleftrightarrow> line_for s c = []" by (simp add: line_for_def R(2) ECHO_MAXLINE_def)
  have lost: "drops_rest (inputs s c) (rio_fd rio')"
    using readlineb_drops_rest[OF _ r] pool_okD(5)[OF ok i] c by simp
  have cl: "clean (rio_fd rio')" using line(3) by (simp add: rio_ok_def)
  have here: "clientfd ?p ! i = c" "c \<in> clients ?p" using c i pool_okD(1)[OF ok] by (auto simp: clients_nth)
  show ?thesis
  proof (cases "line_for s c = []")
    case True
    let ?p' = "?p\<lparr>nready := nready ?p - 1, read_set := read_set ?p - {c}, clientfd := (clientfd ?p)[i := -1]\<rparr>"
    let ?s' = "s\<lparr>the_pool := ?p', inputs := (inputs s)(c := rio_fd rio'), closed := closed s @ [c]\<rparr>"
    have D: "pool_ok listenfd ?p' \<and> clients ?p' = clients ?p - {clientfd ?p ! i}"
      by (rule drop_client[OF ok i]) (use here c(2) in simp_all)
    have "check_client i (buf, s) = Done (buf', ?s')"
      using c(2,3) here r line(1) True by (simp add: check_client_def Let_def)
    moreover have "served {c} s ?s'" using D here True lost cl by (auto simp: served_def)
    ultimately show ?thesis using D len by (intro exI[of _ buf'] exI[of _ ?s']) auto
  next
    case False
    let ?p' = "?p\<lparr>nready := nready ?p - 1\<rparr>"
    let ?s' = "s\<lparr>the_pool := ?p', inputs := (inputs s)(c := rio_fd rio'), byte_cnt := byte_cnt s + rc, outputs := (outputs s)(c := []),
      echoed := (echoed s)(c := echoed s c @ line_for s c)\<rparr>"
    have "take (nat rc) buf' = line_for s c" using False empty by (simp add: b' line(1))
    then have "check_client i (buf, s) = Done (buf', ?s')"
      using c(2,3) here r line(1) False io(2) len short by (simp add: check_client_def Let_def writen_all)
    moreover have "served {c} s ?s'" using False lost cl line(1) by (auto simp: served_def clients_def)
    moreover have "pool_ok listenfd ?p'" using ok by (simp add: pool_ok_def clients_def)
    ultimately show ?thesis using len by (intro exI[of _ buf'] exI[of _ ?s']) simp
  qed
qed

section \<open>Serving the pool\<close>

lemma check_loop_serves:
  assumes "pool_ok listenfd (the_pool s)" "i \<le> FD_SETSIZE" "nready (the_pool s) = int (card (waiting i (the_pool s)))"
    "\<forall>c\<in>waiting i (the_pool s). clean (inputs s c)" "\<forall>c. outputs s c = []" "length buf = ECHO_MAXLINE"
  shows "\<exists>buf' s'. check_loop i (buf, s) = Done (buf', s') \<and> served (waiting i (the_pool s)) s s' \<and>
    pool_ok listenfd (the_pool s') \<and> nready (the_pool s') = 0"
  using assms
proof (induction "FD_SETSIZE - i" arbitrary: i buf s)
  case 0
  then have "waiting i (the_pool s) = {}" by (auto simp: waiting_def)
  with 0 show ?case by (subst check_loop.simps) (simp add: served_none)
next
  case (Suc k)
  let ?p = "the_pool s" and ?c = "clientfd (the_pool s) ! i"
  have i: "i < FD_SETSIZE" "k = FD_SETSIZE - Suc i" "Suc i \<le> FD_SETSIZE" using Suc.hyps(2) by auto
  note P = pool_okD[OF Suc.prems(1)]
  have sub: "waiting j p \<subseteq> (\<lambda>j. clientfd p ! j) ` {..<FD_SETSIZE}" for j p by (auto simp: waiting_def)
  then have fin: "finite (waiting j p)" for j p by (rule finite_subset) simp
  have rest: "?c \<notin> waiting (Suc i) ?p" if "0 < ?c"
  proof
    assume "?c \<in> waiting (Suc i) ?p"
    then obtain j where j: "Suc i \<le> j" "j < FD_SETSIZE" "clientfd ?p ! j = ?c" by (auto simp: waiting_def)
    have "i = j" by (rule P(4)[OF i(1) j(2) that]) (simp add: j(3))
    with j(1) show False by simp
  qed
  show ?case
  proof (cases "int i \<le> maxi ?p \<and> nready ?p > 0")
    case False
    have "waiting i ?p = {}"
    proof (cases "nready ?p > 0")
      case True
      then have "\<not> int j \<le> maxi ?p" if "i \<le> j" for j using False that by simp
      then show ?thesis using P(5) by (auto simp: waiting_def)
    qed (use Suc.prems(3) fin in simp)
    then show ?thesis using False Suc.prems by (subst check_loop.simps) (simp add: served_none)
  next
    case True
    have unroll: "check_loop i (buf, s) = (case check_client i (buf, s) of Fault \<Rightarrow> Fault | Done bs' \<Rightarrow> check_loop (Suc i) bs')"
      unfolding Suc_eq_plus1 using True by (subst check_loop.simps) simp
    show ?thesis
    proof (cases "0 < ?c \<and> ?c \<in> ready_set ?p")
      case W: False
      then have w: "waiting i ?p = waiting (Suc i) ?p" by (subst waiting_Suc[OF i(1)]) (use W in auto)
      show ?thesis
        unfolding unroll check_client_idle[OF W] w outcome.case
        by (rule Suc.hyps(1)[OF i(2) Suc.prems(1) i(3) _ _ Suc.prems(5,6)]) (use Suc.prems w in simp_all)
    next
      case W: True
      then have w: "waiting i ?p = {?c} \<union> waiting (Suc i) ?p" by (subst waiting_Suc[OF i(1)]) (use W in auto)
      obtain buf1 s1 where s1: "check_client i (buf, s) = Done (buf1, s1)" "length buf1 = ECHO_MAXLINE" "served {?c} s s1"
          "pool_ok listenfd (the_pool s1)" "nready (the_pool s1) = nready ?p - 1"
          "\<forall>j. j \<noteq> i \<longrightarrow> clientfd (the_pool s1) ! j = clientfd ?p ! j"
        using check_client_serves[OF Suc.prems(1) i(1) refl] W Suc.prems(4-6) w by blast
      have ready: "ready_set (the_pool s1) = ready_set ?p" "\<forall>c. outputs s1 c = []"
        using s1(3) Suc.prems(5) by (simp_all add: served_def)
      have "(\<exists>j\<ge>Suc i. j < FD_SETSIZE \<and> clientfd (the_pool s1) ! j = c) = (\<exists>j\<ge>Suc i. j < FD_SETSIZE \<and> clientfd ?p ! j = c)" for c
        using s1(6) by (metis Suc_n_not_le_n)
      then have w1: "waiting (Suc i) (the_pool s1) = waiting (Suc i) ?p" by (simp add: waiting_def ready(1))
      have card: "int (card (waiting i ?p)) = 1 + int (card (waiting (Suc i) ?p))" using w rest W fin by simp
      have "clean (inputs s1 c)" if "c \<in> waiting (Suc i) ?p" for c
        using s1(3) Suc.prems(4) that w by (auto simp: served_def)
      then obtain buf' s' where s': "check_loop (Suc i) (buf1, s1) = Done (buf', s')" "served (waiting (Suc i) (the_pool s1)) s1 s'"
          "pool_ok listenfd (the_pool s')" "nready (the_pool s') = 0"
        using Suc.hyps(1)[OF i(2) s1(4) i(3) _ _ ready(2) s1(2)] s1(5) card Suc.prems(3) unfolding w1 by auto
      have "served (waiting i ?p) s s'"
        unfolding w by (rule served_trans[OF s1(3) s'(2)[unfolded w1]]) (use rest W fin in simp_all)
      then show ?thesis unfolding unroll s1(1) outcome.case using s'(1,3,4) by blast
    qed
  qed
qed

lemma waiting_all: "pool_ok listenfd p \<Longrightarrow> waiting 0 p = ready_set p \<inter> clients p"
  using pool_okD(1) by (fastforce simp: waiting_def clients_nth)

lemma serve_turn:
  assumes ok: "pool_ok listenfd (the_pool s)" and ready: "ready \<subseteq> insert listenfd (clients (the_pool s))"
    and new: "0 < connfd" "connfd \<noteq> listenfd" "connfd \<notin> clients (the_pool s)" "card (clients (the_pool s)) < FD_SETSIZE"
    and io: "\<forall>c. clean (inputs s c)" "\<forall>c. outputs s c = []" "length buf = ECHO_MAXLINE"
  shows "\<exists>s'. serve listenfd ready connfd buf s = Done s' \<and> pool_ok listenfd (the_pool s') \<and>
    clients (the_pool s') = (if listenfd \<in> ready then insert connfd (clients (the_pool s)) else clients (the_pool s)) -
      {c \<in> ready. c \<noteq> listenfd \<and> line_for s c = []} \<and>
    (\<forall>c. echoed s' c = echoed s c @ (if c \<in> ready \<and> c \<noteq> listenfd then line_for s c else [])) \<and>
    (\<forall>c. c \<notin> ready \<longrightarrow> inputs s' c = inputs s c) \<and> (\<forall>c\<in>ready - {listenfd}. drops_rest (inputs s c) (inputs s' c)) \<and>
    (\<forall>c. clean (inputs s' c)) \<and> (\<forall>c. outputs s' c = [])"
proof -
  let ?p0 = "(the_pool s)\<lparr>ready_set := ready, nready := int (card ready)\<rparr>"
  have ok0: "pool_ok listenfd ?p0" and c0: "clients ?p0 = clients (the_pool s)" using ok by (simp_all add: pool_ok_def clients_def)
  have fin: "finite ready" using finite_subset[OF ready] by (simp add: clients_def)
  obtain p where p: "(if listenfd \<in> ready then add_client connfd ?p0 else Done ?p0) = Done p" "pool_ok listenfd p"
      "clients p = (if listenfd \<in> ready then insert connfd (clients (the_pool s)) else clients (the_pool s))"
      "nready p = int (card (ready - {listenfd}))" "ready_set p = ready"
  proof (cases "listenfd \<in> ready")
    case True
    obtain p where p: "add_client connfd ?p0 = Done p" "pool_ok listenfd p" "clients p = insert connfd (clients (the_pool s))"
        "nready p = int (card ready) - 1" "ready_set p = ready"
      using add_client_clients[OF ok0 new(1) _ new(2)] new(3,4) unfolding c0 by auto
    have "1 \<le> card ready" using True fin by (auto simp: Suc_le_eq card_gt_0_iff)
    then have "int (card (ready - {listenfd})) = int (card ready) - 1" using card_Diff_singleton[OF True] by simp
    then show ?thesis using p True by (intro that[of p]) simp_all
  next
    case False
    then show ?thesis using ok0 c0 that[of ?p0] by simp
  qed
  have w: "waiting 0 p = ready - {listenfd}"
    using waiting_all[OF p(2)] p(3,5) ready pool_okD(6)[OF ok] new(2,3) by auto
  obtain buf' s' where s': "check_loop 0 (buf, s\<lparr>the_pool := p\<rparr>) = Done (buf', s')" "served (waiting 0 p) (s\<lparr>the_pool := p\<rparr>) s'"
      "pool_ok listenfd (the_pool s')"
    using check_loop_serves[of listenfd "s\<lparr>the_pool := p\<rparr>" 0 buf] p(2,4) w io by auto
  have "line_for (s\<lparr>the_pool := p\<rparr>) c = line_for s c" for c by (simp add: line_for_def)
  moreover have "clean (inputs s' c)" for c using s'(2) io(1) by (simp add: served_def)
  moreover have "serve listenfd ready connfd buf s = Done s'"
    using s'(1) p(1) by (simp add: serve_def Let_def check_clients_def)
  ultimately show ?thesis
    using s'(2,3) io(2) p(3) unfolding w by (intro exI[of _ s']) (auto simp: served_def)
qed

lemma first_line_whole:
  assumes "LF \<notin> set l" and "length l < m"
  shows "first_line m (l @ LF # bs) = l @ [LF]"
  using assms
proof (induction l arbitrary: m)
  case Nil
  then show ?case by (cases m) simp_all
next
  case (Cons a l)
  then show ?case by (cases m) auto
qed

text \<open>
  C17: one turn of the server's loop. When \<open>select\<close> reports the set \<open>ready\<close>, a client waiting at the
  listening descriptor joins the pool as long as it has room, each ready client gets its next
  line back once, one at end of file leaves, and all other clients are left alone.
\<close>

theorem serve_clients:
  assumes "pool_ok listenfd (the_pool s)" and "ready \<subseteq> insert listenfd (clients (the_pool s))"
    and "0 < connfd" and "connfd \<noteq> listenfd" and "connfd \<notin> clients (the_pool s)" and "card (clients (the_pool s)) < FD_SETSIZE"
    and "\<forall>c. clean (inputs s c)" and "\<forall>c. outputs s c = []" and "length buf = ECHO_MAXLINE"
  shows "\<exists>s'. serve listenfd ready connfd buf s = Done s' \<and> pool_ok listenfd (the_pool s') \<and>
    clients (the_pool s') = (if listenfd \<in> ready then insert connfd (clients (the_pool s)) else clients (the_pool s)) -
      {c \<in> ready. c \<noteq> listenfd \<and> line_for s c = []} \<and>
    (\<forall>c. echoed s' c = echoed s c @ (if c \<in> ready \<and> c \<noteq> listenfd then line_for s c else [])) \<and>
    (\<forall>c. c \<notin> ready \<longrightarrow> inputs s' c = inputs s c) \<and> (\<forall>c. clean (inputs s' c)) \<and> (\<forall>c. outputs s' c = [])"
  using serve_turn[OF assms] by blast

text \<open>Client 4 connects to a fresh server listening at 3 and sends a line in two pieces.\<close>

definition idle_server :: server where
  "idle_server = \<lparr>the_pool = init_pool 3 \<lparr>maxfd = 0, read_set = {}, ready_set = {}, nready = 0, maxi = 0, clientfd = [],
       clientrio = replicate FD_SETSIZE \<lparr>rio_fd = [], rio_cnt = 0, rio_bufptr = 0, rio_buf = []\<rparr>\<rparr>,
     byte_cnt = 0, inputs = (\<lambda>c. if c = 4 then [Got ''hel'', Interrupted, Got (''lo'' @ [LF])] else []), outputs = (\<lambda>c. []),
     echoed = (\<lambda>c. []), closed = []\<rparr>"

lemma idle_server_ok: "pool_ok 3 (the_pool idle_server)" "clients (the_pool idle_server) = {}"
  "\<forall>c. clean (inputs idle_server c)" "\<forall>c. outputs idle_server c = []"
  using init_pool_ok[of _ 3] by (simp_all add: idle_server_def)

lemma idle_server_accepts:
  "\<exists>s. serve 3 {3} 4 (replicate ECHO_MAXLINE NUL) idle_server = Done s \<and> pool_ok 3 (the_pool s) \<and> clients (the_pool s) = {4} \<and>
    (\<forall>c. echoed s c = []) \<and> (\<forall>c. c \<noteq> 3 \<longrightarrow> inputs s c = inputs idle_server c) \<and> (\<forall>c. clean (inputs s c)) \<and> (\<forall>c. outputs s c = [])"
proof -
  have "echoed idle_server c = []" for c by (simp add: idle_server_def)
  then show ?thesis
    using serve_turn[OF idle_server_ok(1), of "{3}" 4 "replicate ECHO_MAXLINE NUL"] idle_server_ok by (auto simp: FD_SETSIZE_def)
qed

theorem serve_clients_witness:
  "\<exists>s s'. serve 3 {3} 4 (replicate ECHO_MAXLINE NUL) idle_server = Done s \<and> serve 3 {4} 5 (replicate ECHO_MAXLINE NUL) s = Done s' \<and>
    echoed s' 4 = ''hello'' @ [LF] \<and> clients (the_pool s') = {4}"
proof -
  obtain s where s: "serve 3 {3} 4 (replicate ECHO_MAXLINE NUL) idle_server = Done s" "pool_ok 3 (the_pool s)" "clients (the_pool s) = {4}"
    "\<forall>c. echoed s c = []" "\<forall>c. c \<noteq> 3 \<longrightarrow> inputs s c = inputs idle_server c" "\<forall>c. clean (inputs s c)" "\<forall>c. outputs s c = []"
    using idle_server_accepts by blast
  have "LF \<notin> set ''hello''" by code_simp
  from first_line_whole[OF this, of "ECHO_MAXLINE - 1" "[]"] have "line_for s 4 = ''hello'' @ [LF]"
    using s(5) by (simp add: line_for_def idle_server_def ECHO_MAXLINE_def)
  then show ?thesis
    using serve_clients[OF s(2), of "{4}" 5 "replicate ECHO_MAXLINE NUL"] s by (auto simp: FD_SETSIZE_def)
qed


text \<open>
  The reader of a client is copied out of the pool and never put back, so when one \<open>read\<close>
  delivers more than a line, the first line is echoed and the rest of those bytes is lost: the
  next turn for the client starts with what comes after them.
\<close>

theorem serve_loses_input:
  assumes "pool_ok listenfd (the_pool s)" and "c \<in> clients (the_pool s)" and "card (clients (the_pool s)) < FD_SETSIZE"
    and "\<forall>c. clean (inputs s c)" and "\<forall>c. outputs s c = []" and "length buf = ECHO_MAXLINE"
    and "inputs s c = Got (l @ LF # rest) # later" and "LF \<notin> set l" and "length l < ECHO_MAXLINE - 1" and "length l + length rest < RIO_BUFSIZE"
    and "0 < connfd" and "connfd \<noteq> listenfd" and "connfd \<notin> clients (the_pool s)"
  shows "\<exists>s'. serve listenfd {c} connfd buf s = Done s' \<and> pool_ok listenfd (the_pool s') \<and> c \<in> clients (the_pool s') \<and>
    echoed s' c = echoed s c @ l @ [LF] \<and> inputs s' c = later"
proof -
  have "line_for s c = l @ [LF]" using first_line_whole[OF assms(8,9)] assms(7) by (simp add: line_for_def)
  moreover have "c \<noteq> listenfd" using assms(1,2) pool_okD(6) by blast
  ultimately show ?thesis
    using serve_turn[OF assms(1) _ assms(11-13,3-6), of "{c}"] assms(2,7-10) by (auto simp: drops_rest_def)
qed

theorem serve_loses_input_witness:
  "\<exists>s s'. pool_ok 3 (the_pool s) \<and> inputs s 4 = [Got (''a'' @ LF # ''b'' @ [LF])] \<and>
    serve 3 {4} 5 (replicate ECHO_MAXLINE NUL) s = Done s' \<and> echoed s' 4 = ''a'' @ [LF] \<and> inputs s' 4 = []"
proof -
  obtain s where "serve 3 {3} 4 (replicate ECHO_MAXLINE NUL) idle_server = Done s" "\<forall>c. c \<noteq> 3 \<longrightarrow> inputs s c = inputs idle_server c"
    and s: "pool_ok 3 (the_pool s)" "clients (the_pool s) = {4}" "\<forall>c. echoed s c = []" "\<forall>c. clean (inputs s c)" "\<forall>c. outputs s c = []"
    using idle_server_accepts by blast
  have LF: "LF \<notin> set ''a''" "LF \<noteq> CHR ''a''" by code_simp+
  let ?s = "s\<lparr>inputs := (inputs s)(4 := [Got (''a'' @ LF # ''b'' @ [LF])])\<rparr>"
  have "\<exists>s'. serve 3 {4} 5 (replicate ECHO_MAXLINE NUL) ?s = Done s' \<and> pool_ok 3 (the_pool s') \<and> 4 \<in> clients (the_pool s') \<and>
      echoed s' 4 = echoed ?s 4 @ ''a'' @ [LF] \<and> inputs s' 4 = []"
    by (rule serve_loses_input[where rest = "''b'' @ [LF]"]) (use s LF in \<open>simp_all add: FD_SETSIZE_def ECHO_MAXLINE_def RIO_BUFSIZE_def\<close>)
  then obtain s' where "serve 3 {4} 5 (replicate ECHO_MAXLINE NUL) ?s = Done s'" "echoed s' 4 = echoed ?s 4 @ ''a'' @ [LF]" "inputs s' 4 = []"
    by blast
  then show ?thesis by (intro exI[of _ ?s] exI[of _ s'] conjI) (simp_all add: s)
qed

end
