(* ===== verification/Proxy.thy ===== *)
theory Proxy
  imports Rio
begin

text \<open>
  The caching proxy, \<open>labs/proxylab-handout/proxy.c\<close>: the cache with its semaphores, the
  splitting of a URI, and a request from its first line to the stored response, as one thread
  runs it while the others are at rest. A thread that waits on a semaphore with value 0, or
  that reads forever, is a result of its own.
\<close>

section \<open>State\<close>

definition MAXLINE :: nat where "MAXLINE = 8192"
definition MAX_OBJECT_SIZE :: nat where "MAX_OBJECT_SIZE = 102400"
definition CACHE_OBJS_COUNT :: nat where "CACHE_OBJS_COUNT = 10"

record cache_block =
  cache_obj :: string
  cache_url_of :: string
  isEmpty :: bool
  stamp :: int
  readcnt :: int
  writecnt :: int
  rdcntmutex :: nat
  wmutex :: nat
  wtcntmutex :: nat
  queue :: nat

text \<open>What a request has done to its connections, in order.\<close>

datatype net_event = Open string string | To_server string | To_client string

record proxy =
  cache_objs :: "cache_block list"
  cache_num :: int
  net :: "net_event list"

text \<open>
  How a piece of code ends: it returns, it waits for good on a semaphore that only another
  thread could release, it writes outside an object, it loops forever, or \<open>exit\<close> is called.
\<close>

datatype 'a ending = Finished 'a proxy | Blocked proxy | Crashed | Forever proxy | Exited

fun andthen :: "'a ending \<Rightarrow> ('a \<Rightarrow> proxy \<Rightarrow> 'b ending) \<Rightarrow> 'b ending" where
  "andthen (Finished x st) f = f x st"
| "andthen (Blocked st) f = Blocked st"
| "andthen Crashed f = Crashed"
| "andthen (Forever st) f = Forever st"
| "andthen Exited f = Exited"

definition block :: "nat \<Rightarrow> proxy \<Rightarrow> cache_block" where
  "block i st = cache_objs st ! i"

definition set_block :: "nat \<Rightarrow> (cache_block \<Rightarrow> cache_block) \<Rightarrow> proxy \<Rightarrow> proxy" where
  "set_block i f st = st\<lparr>cache_objs := (cache_objs st)[i := f (block i st)]\<rparr>"

definition emit :: "net_event \<Rightarrow> proxy \<Rightarrow> proxy" where
  "emit e st = st\<lparr>net := net st @ [e]\<rparr>"

section \<open>Locks of a block\<close>

definition P_rdcntmutex :: "nat \<Rightarrow> proxy \<Rightarrow> unit ending" where
  "P_rdcntmutex i st =
     (if rdcntmutex (block i st) = 0 then Blocked st
      else Finished () (set_block i (\<lambda>b. b\<lparr>rdcntmutex := rdcntmutex b - 1\<rparr>) st))"

definition V_rdcntmutex :: "nat \<Rightarrow> proxy \<Rightarrow> unit ending" where
  "V_rdcntmutex i st = Finished () (set_block i (\<lambda>b. b\<lparr>rdcntmutex := rdcntmutex b + 1\<rparr>) st)"

definition P_wmutex :: "nat \<Rightarrow> proxy \<Rightarrow> unit ending" where
  "P_wmutex i st =
     (if wmutex (block i st) = 0 then Blocked st
      else Finished () (set_block i (\<lambda>b. b\<lparr>wmutex := wmutex b - 1\<rparr>) st))"

definition V_wmutex :: "nat \<Rightarrow> proxy \<Rightarrow> unit ending" where
  "V_wmutex i st = Finished () (set_block i (\<lambda>b. b\<lparr>wmutex := wmutex b + 1\<rparr>) st)"

definition readerPre :: "nat \<Rightarrow> proxy \<Rightarrow> unit ending" where
  "readerPre i st =
     andthen (P_rdcntmutex i st) (\<lambda>_ st.
       let st = set_block i (\<lambda>b. b\<lparr>readcnt := readcnt b + 1\<rparr>) st in
       andthen (if readcnt (block i st) = 1 then P_wmutex i st else Finished () st) (\<lambda>_ st.
         V_rdcntmutex i st))"

definition readerAfter :: "nat \<Rightarrow> proxy \<Rightarrow> unit ending" where
  "readerAfter i st =
     andthen (P_rdcntmutex i st) (\<lambda>_ st.
       let st = set_block i (\<lambda>b. b\<lparr>readcnt := readcnt b - 1\<rparr>) st in
       andthen (if readcnt (block i st) = 0 then V_wmutex i st else Finished () st) (\<lambda>_ st.
         V_rdcntmutex i st))"

definition writerPre :: "nat \<Rightarrow> proxy \<Rightarrow> unit ending" where
  "writerPre i st = P_wmutex i st"

definition writerAfter :: "nat \<Rightarrow> proxy \<Rightarrow> unit ending" where
  "writerAfter i st = V_wmutex i st"

section \<open>The cache\<close>

definition cache_init :: "proxy \<Rightarrow> proxy" where
  "cache_init st =
     for_loop 0 CACHE_OBJS_COUNT (\<lambda>i. set_block i (\<lambda>b. b\<lparr>isEmpty := True, stamp := - 1, readcnt := 0,
         writecnt := - 1, rdcntmutex := 1, wmutex := 1, wtcntmutex := 1, queue := 1\<rparr>))
       (st\<lparr>cache_num := 0\<rparr>)"

text \<open>The loops below run over \<open>is\<close>, the indices that are left.\<close>

fun find_loop :: "string \<Rightarrow> nat list \<Rightarrow> proxy \<Rightarrow> int ending" where
  "find_loop url [] st = Finished (- 1) st"
| "find_loop url (i # is) st =
     andthen (readerPre i st) (\<lambda>_ st.
       if \<not> isEmpty (block i st) \<and> url = cache_url_of (block i st) then Finished (int i) st
       else andthen (readerAfter i st) (\<lambda>_ st. find_loop url is st))"

definition cache_find :: "string \<Rightarrow> proxy \<Rightarrow> int ending" where
  "cache_find url st = find_loop url [0..<CACHE_OBJS_COUNT] st"

fun eviction_loop :: "nat list \<Rightarrow> int \<Rightarrow> int \<Rightarrow> proxy \<Rightarrow> int ending" where
  "eviction_loop [] max_stamp max_stamp_idx st = Finished max_stamp_idx st"
| "eviction_loop (i # is) max_stamp max_stamp_idx st =
     andthen (readerPre i st) (\<lambda>_ st.
       if isEmpty (block i st) then
         andthen (readerAfter i (set_block i (\<lambda>b. b\<lparr>isEmpty := False\<rparr>) st)) (\<lambda>_ st. Finished (int i) st)
       else
         let (max_stamp, max_stamp_idx) =
           (if max_stamp < stamp (block i st) then (stamp (block i st), int i) else (max_stamp, max_stamp_idx))
         in andthen (readerAfter i st) (\<lambda>_ st. eviction_loop is max_stamp max_stamp_idx st))"

definition cache_eviction :: "proxy \<Rightarrow> int ending" where
  "cache_eviction st = eviction_loop [0..<CACHE_OBJS_COUNT] (- 2) (- 1) st"

fun stamp_loop :: "nat \<Rightarrow> nat list \<Rightarrow> proxy \<Rightarrow> unit ending" where
  "stamp_loop index [] st = Finished () st"
| "stamp_loop index (i # is) st =
     andthen
       (if i \<noteq> index \<and> \<not> isEmpty (block i st) then
          andthen (writerPre i st) (\<lambda>_ st. writerAfter i (set_block i (\<lambda>b. b\<lparr>stamp := stamp b + 1\<rparr>) st))
        else Finished () st)
       (\<lambda>_ st. stamp_loop index is st)"

definition cache_update_stamp :: "nat \<Rightarrow> proxy \<Rightarrow> unit ending" where
  "cache_update_stamp index st =
     andthen (writerPre index st) (\<lambda>_ st.
     andthen (writerAfter index (set_block index (\<lambda>b. b\<lparr>stamp := 0\<rparr>) st)) (\<lambda>_ st.
       stamp_loop index [0..<CACHE_OBJS_COUNT] st))"

text \<open>The copies into the block are checked against the sizes of its two arrays.\<close>

definition cache_url :: "string \<Rightarrow> string \<Rightarrow> proxy \<Rightarrow> unit ending" where
  "cache_url url buf st =
     andthen (cache_eviction st) (\<lambda>i st.
       if i < 0 then Crashed else let i = nat i in
       andthen (writerPre i st) (\<lambda>_ st.
         if MAXLINE \<le> length url \<or> MAX_OBJECT_SIZE \<le> length buf then Crashed else
         andthen (writerAfter i (set_block i (\<lambda>b. b\<lparr>cache_url_of := url, cache_obj := buf, isEmpty := False\<rparr>) st))
           (\<lambda>_ st. cache_update_stamp i st)))"

section \<open>Splitting a URI\<close>

text \<open>\<open>find\<close>: the offset of the \<open>num\<close>-th \<open>c\<close> in \<open>s\<close>; \<open>n\<close> counts them.\<close>

fun find_nth :: "string \<Rightarrow> char \<Rightarrow> nat \<Rightarrow> nat \<Rightarrow> nat option" where
  "find_nth [] c num n = None"
| "find_nth (x # s) c num n =
     (let n = (if x = c then n + 1 else n) in
        if n = num then Some 0 else map_option Suc (find_nth s c num n))"

definition find_num :: "string \<Rightarrow> char \<Rightarrow> nat \<Rightarrow> nat option" where
  "find_num s c num = find_nth s c num 0"

text \<open>
  \<open>parse_uri\<close>: the value returned with \<open>uri\<close>, \<open>newuri\<close>, \<open>host\<close> and \<open>port\<close>
  afterwards; \<open>host\<close> and \<open>port\<close> are what the arrays held before. \<open>port\<close> points to 6
  bytes.
\<close>

definition parse_uri :: "string \<Rightarrow> string \<Rightarrow> string \<Rightarrow> (bool \<times> string \<times> string \<times> string \<times> string) outcome" where
  "parse_uri uri host port =
     (let (newuri, uri) = (case find_num uri CHR ''/'' 3 of
            Some ptr \<Rightarrow> (drop ptr uri, take ptr uri)
          | None \<Rightarrow> ('''', uri));
          (host, uri) = (case find_num uri CHR ''/'' 2 of
            Some ptr \<Rightarrow> (drop (ptr + 1) uri, take ptr uri)
          | None \<Rightarrow> (host, uri))
      in case find_num host CHR '':'' 1 of
           Some ptr \<Rightarrow>
             if 6 \<le> length (drop (ptr + 1) host) then Fault
             else Done (True, uri, newuri, take ptr host, drop (ptr + 1) host)
         | None \<Rightarrow> Done (False, uri, newuri, host, port))"

section \<open>A request\<close>

text \<open>
  Arrays of characters: the string an array holds, storing a string with its NUL, and a
  \<open>sprintf\<close> into an array of \<open>MAXLINE\<close> bytes followed by the rest of the code.
\<close>

definition c_string :: "string \<Rightarrow> string" where
  "c_string a = takeWhile (\<lambda>c. c \<noteq> NUL) a"

definition store_string :: "string \<Rightarrow> string \<Rightarrow> string" where
  "store_string s a = s @ NUL # drop (length s + 1) a"

definition sprintf :: "string \<Rightarrow> (string \<Rightarrow> 'a ending) \<Rightarrow> 'a ending" where
  "sprintf s k = (if MAXLINE \<le> length s then Crashed else k s)"

text \<open>The arrays and objects on the stacks of the two functions before they are written.\<close>

record locals =
  u_buf :: string
  u_method :: string
  u_uri :: string
  u_host :: string
  u_port :: string
  u_rio :: rio_t
  u_buf_client :: string
  u_rio_server :: rio_t
  u_cache_buf :: string

definition clienterror :: "string \<Rightarrow> string \<Rightarrow> string \<Rightarrow> string \<Rightarrow> proxy \<Rightarrow> unit ending" where
  "clienterror cause errnum shortmsg longmsg st =
     sprintf (''HTTP/1.0 '' @ errnum @ '' '' @ shortmsg @ CRLF) (\<lambda>b1.
     sprintf (''Content-type: text/html'' @ CRLF @ CRLF) (\<lambda>b2.
     sprintf ''<html><title>Tiny Error</title>'' (\<lambda>b3.
     sprintf (''<body bgcolor=ffffff>'' @ CRLF) (\<lambda>b4.
     sprintf (errnum @ '': '' @ shortmsg @ CRLF) (\<lambda>b5.
     sprintf (''<p>'' @ longmsg @ '': '' @ cause @ CRLF) (\<lambda>b6.
     sprintf (''<hr><em>The Tiny Web server</em>'' @ CRLF) (\<lambda>b7.
       Finished () (fold (\<lambda>b. emit (To_client b)) [b1, b2, b3, b4, b5, b6, b7] st))))))))"

definition user_agent_hdr :: string where
  "user_agent_hdr = ''User-Agent: Mozilla/5.0 (X11; Linux x86_64; rv:10.0.3) Gecko/20120305 Firefox/10.0.3'' @ CRLF"

definition forwarded :: "string \<Rightarrow> bool" where
  "forwarded line \<longleftrightarrow> strstr line ''Host'' = None \<and> strstr line ''User-Agent'' = None \<and>
     strstr line ''Connection'' = None \<and> strstr line ''Proxy-Connection'' = None"

text \<open>
  The loop that forwards the header lines: \<open>None\<close> when it does not end, \<open>Some None\<close> after a
  read error (\<open>Rio_readlineb\<close> then exits). The value of \<open>Rio_readlineb\<close> is not looked at.
\<close>

partial_function (option) header_loop ::
    "rio_t \<Rightarrow> string \<Rightarrow> string list \<Rightarrow> (rio_t \<times> string \<times> string list) option option" where
  "header_loop rp buf sent =
     (if c_string buf = CRLF then Some (Some (rp, buf, sent))
      else case rio_readlineb rp buf MAXLINE of (rc, buf', rp') \<Rightarrow>
        if rc < 0 then Some None
        else header_loop rp' buf' (if forwarded (c_string buf) then sent @ [c_string buf] else sent))"

text \<open>
  The loop that passes the response on and collects it for the cache: \<open>None\<close> when it does not
  end, a fault when \<open>strcat\<close> leaves the array or the size leaves \<open>int\<close>.
\<close>

datatype response = Read_error | Response int string "string list" | Bad_write

partial_function (option) response_loop ::
    "rio_t \<Rightarrow> string \<Rightarrow> int \<Rightarrow> string \<Rightarrow> string list \<Rightarrow> response option" where
  "response_loop rp buf sz cache_buf sent =
     (case rio_readlineb rp buf MAXLINE of (n, buf', rp') \<Rightarrow>
        if n < 0 then Some Read_error
        else if n = 0 then Some (Response sz cache_buf sent)
        else
          let sz = sz + n in
          if 2 ^ 31 \<le> sz then Some Bad_write
          else if sz < int MAX_OBJECT_SIZE then
            (if MAX_OBJECT_SIZE \<le> length cache_buf + length (c_string buf') then Some Bad_write
             else response_loop rp' buf' sz (cache_buf @ c_string buf') (sent @ [take (nat n) buf']))
          else response_loop rp' buf' sz cache_buf (sent @ [take (nat n) buf']))"

text \<open>
  \<open>Open_clientfd\<close> calls \<open>exit\<close> when no connection can be made; \<open>connect\<close> gives what the
  server will send. Writes to a connection are taken to succeed.
\<close>

definition connect_to_server ::
    "(string \<Rightarrow> string \<Rightarrow> descriptor option) \<Rightarrow> locals \<Rightarrow> string \<Rightarrow> string \<Rightarrow> string \<Rightarrow> rio_t \<Rightarrow> string \<Rightarrow> proxy \<Rightarrow> unit ending" where
  "connect_to_server connect u new_uri host port rio_client original_url st =
     (case connect host port of
        None \<Rightarrow> Exited
      | Some clientfd \<Rightarrow>
          sprintf (''GET '' @ new_uri @ '' HTTP/1.0'' @ CRLF) (\<lambda>request.
          sprintf (''Host: '' @ host @ CRLF) (\<lambda>host_hdr.
            let st = fold (\<lambda>b. emit (To_server b)) [request, host_hdr, user_agent_hdr,
                       ''Connection: close'' @ CRLF, ''Proxy-Connection: close'' @ CRLF] (emit (Open host port) st);
                buf_client = store_string (''Proxy-Connection: close'' @ CRLF) (store_string (''Connection: close'' @ CRLF)
                  (store_string user_agent_hdr (store_string host_hdr (store_string request (u_buf_client u)))));
                (rc, buf_client, rio_client) = rio_readlineb rio_client buf_client MAXLINE
            in if rc < 0 then Exited
               else case header_loop rio_client buf_client [] of
                 None \<Rightarrow> Forever st
               | Some None \<Rightarrow> Exited
               | Some (Some (rio_client, buf_client, sent)) \<Rightarrow>
                   let st = fold (\<lambda>b. emit (To_server b)) (sent @ [CRLF]) st;
                       rio_server = rio_readinitb (u_rio_server u) clientfd
                   in case response_loop rio_server buf_client 0 (u_cache_buf u) [] of
                        None \<Rightarrow> Forever st
                      | Some Read_error \<Rightarrow> Exited
                      | Some Bad_write \<Rightarrow> Crashed
                      | Some (Response sz cache_buf sent) \<Rightarrow>
                          let st = fold (\<lambda>b. emit (To_client b)) sent st in
                            if sz < int MAX_OBJECT_SIZE then cache_url original_url cache_buf st
                            else Finished () st)))"

text \<open>\<open>doit\<close> from the copy of \<open>uri\<close> on, and as a whole.\<close>

definition serve_uri ::
    "(string \<Rightarrow> string \<Rightarrow> descriptor option) \<Rightarrow> locals \<Rightarrow> rio_t \<Rightarrow> string \<Rightarrow> proxy \<Rightarrow> int ending" where
  "serve_uri connect u rio uri st =
     andthen (cache_find uri st) (\<lambda>i st.
       if i \<noteq> - 1 then
         andthen (readerPre (nat i) st) (\<lambda>_ st.
         andthen (readerAfter (nat i) (emit (To_client (cache_obj (block (nat i) st))) st)) (\<lambda>_ st.
         andthen (cache_update_stamp (nat i) st) (\<lambda>_ st. Finished 0 st)))
       else
         case parse_uri uri (u_host u) (u_port u) of
           Fault \<Rightarrow> Crashed
         | Done (found, _, new_uri, host, port) \<Rightarrow>
             andthen (connect_to_server connect u new_uri host (if found then port else ''80'') rio uri st)
               (\<lambda>_ st. Finished 0 st))"

definition doit ::
    "(string \<Rightarrow> string \<Rightarrow> descriptor option) \<Rightarrow> locals \<Rightarrow> descriptor \<Rightarrow> proxy \<Rightarrow> int ending" where
  "doit connect u fd st =
     (case rio_readlineb (rio_readinitb (u_rio u) fd) (u_buf u) MAXLINE of (rc, buf, rio) \<Rightarrow>
        if rc < 0 then Exited
        else if rc = 0 then Finished (- 1) st
        else
          let (method, uri) = (case scan_word (c_string buf) of
                None \<Rightarrow> (u_method u, u_uri u)
              | Some (w1, rest) \<Rightarrow> (case scan_word rest of
                    None \<Rightarrow> (w1, u_uri u)
                  | Some (w2, _) \<Rightarrow> (w1, w2)))
          in if \<not> strcasecmp_eq method ''GET'' then
               andthen (clienterror method ''501'' ''Not Implemented'' ''Tiny does not implement this method'' st)
                 (\<lambda>_ st. Finished (- 1) st)
             else serve_uri connect u rio uri st)"

end
