(* ===== verification/ProxyCache.thy ===== *)
theory ProxyCache
  imports Proxy "HOL-Library.Multiset"
begin

text \<open>
  The cache of the proxy while no thread holds a lock: it is a list of the most recently stored
  responses. \<open>ProxyLock\<close> continues where a reader has been left in a block.
\<close>

section \<open>Blocks\<close>

lemma length_set_block [simp]: "length (cache_objs (set_block i f st)) = length (cache_objs st)"
  by (simp add: set_block_def)

lemma block_set_block: "i < length (cache_objs st) \<Longrightarrow> block j (set_block i f st) = (if i = j then f (block i st) else block j st)"
  by (auto simp: block_def set_block_def)

lemma set_block_set_block [simp]: "i < length (cache_objs st) \<Longrightarrow> set_block i f (set_block i g st) = set_block i (\<lambda>b. f (g b)) st"
  by (simp add: set_block_def block_def)

lemma set_block_id: "i < length (cache_objs st) \<Longrightarrow> f (block i st) = block i st \<Longrightarrow> set_block i f st = st"
  by (simp add: set_block_def block_def)

lemma net_set_block [simp]: "net (set_block i f st) = net st"
  by (simp add: set_block_def)

lemma set_block_cong: "f (block i st) = g (block i st) \<Longrightarrow> set_block i f st = set_block i g st"
  by (simp add: set_block_def)

text \<open>Nobody reads or writes the block, and one reader has entered it.\<close>

definition unlocked :: "cache_block \<Rightarrow> bool" where
  "unlocked b \<longleftrightarrow> readcnt b = 0 \<and> rdcntmutex b = 1 \<and> wmutex b = 1"

definition entered :: "cache_block \<Rightarrow> cache_block" where
  "entered b = b\<lparr>readcnt := 1, wmutex := 0\<rparr>"

lemma readerPre_unlocked:
  "i < length (cache_objs st) \<Longrightarrow> unlocked (block i st) \<Longrightarrow> readerPre i st = Finished () (set_block i entered st)"
  by (auto simp: readerPre_def P_rdcntmutex_def P_wmutex_def V_rdcntmutex_def Let_def block_set_block
      unlocked_def entered_def intro!: set_block_cong)

lemma readerAfter_entered:
  "i < length (cache_objs st) \<Longrightarrow> rdcntmutex (block i st) = 1 \<Longrightarrow> readcnt (block i st) = 1 \<Longrightarrow>
   readerAfter i st = Finished () (set_block i (\<lambda>b. b\<lparr>readcnt := 0, wmutex := wmutex b + 1\<rparr>) st)"
  by (auto simp: readerAfter_def P_rdcntmutex_def V_wmutex_def V_rdcntmutex_def Let_def block_set_block
      intro!: set_block_cong)

text \<open>Reading a block and leaving it changes nothing.\<close>

lemma readerAfter_set_entered:
  assumes "i < length (cache_objs st)" and "unlocked (block i st)"
  shows "readerAfter i (set_block i entered st) = Finished () st"
  using assms
  by (auto simp: readerAfter_entered block_set_block entered_def unlocked_def intro!: set_block_id)

lemma write_unlocked:
  assumes "i < length (cache_objs st)" and "unlocked (block i st)" and "\<And>b. wmutex (f b) = wmutex b"
    and "\<And>b w. f (b\<lparr>wmutex := w\<rparr>) = (f b)\<lparr>wmutex := w\<rparr>"
  shows "andthen (writerPre i st) (\<lambda>_ st. andthen (writerAfter i (set_block i f st)) k) = k () (set_block i f st)"
proof -
  have "wmutex (block i st) = 1" using assms(2) by (simp add: unlocked_def)
  then have "(f (block i st))\<lparr>wmutex := 1\<rparr> = f (block i st)"
    using assms(4)[of 1 "block i st"] by (metis cache_block.surjective cache_block.update_convs(8))
  then have "set_block i (\<lambda>b. (f (b\<lparr>wmutex := wmutex b - 1\<rparr>))\<lparr>wmutex := wmutex b - 1 + 1\<rparr>) st = set_block i f st"
    using assms(2,4) by (intro set_block_cong) (simp add: unlocked_def)
  with assms show ?thesis
    by (simp add: writerPre_def writerAfter_def P_wmutex_def V_wmutex_def unlocked_def)
qed

section \<open>Looking up\<close>

definition hit :: "string \<Rightarrow> cache_block \<Rightarrow> bool" where
  "hit url b \<longleftrightarrow> \<not> isEmpty b \<and> url = cache_url_of b"

definition quiet :: "proxy \<Rightarrow> bool" where
  "quiet st \<longleftrightarrow> length (cache_objs st) = CACHE_OBJS_COUNT \<and> (\<forall>b\<in>set (cache_objs st). unlocked b)"

lemma quiet_block: "quiet st \<Longrightarrow> i < CACHE_OBJS_COUNT \<Longrightarrow> i < length (cache_objs st) \<and> unlocked (block i st)"
  by (simp add: quiet_def block_def)

lemma find_loop_quiet:
  assumes "quiet st" and "set is \<subseteq> {..<CACHE_OBJS_COUNT}"
  shows "find_loop url is st = (case List.find (\<lambda>i. hit url (block i st)) is of
      None \<Rightarrow> Finished (- 1) st | Some i \<Rightarrow> Finished (int i) (set_block i entered st))"
  using assms(2)
proof (induction "is")
  case (Cons i "is")
  then have i: "i < length (cache_objs st)" "unlocked (block i st)" using quiet_block[OF assms(1)] by auto
  have "hit url (entered (block i st)) = hit url (block i st)" by (simp add: hit_def entered_def)
  with Cons i show ?case
    by (auto simp: readerPre_unlocked readerAfter_set_entered block_set_block hit_def entered_def)
qed simp

text \<open>A hit leaves the block with a reader inside.\<close>

lemma cache_find_quiet:
  assumes "quiet st"
  shows "cache_find url st = (case List.find (\<lambda>i. hit url (block i st)) [0..<CACHE_OBJS_COUNT] of
      None \<Rightarrow> Finished (- 1) st | Some i \<Rightarrow> Finished (int i) (set_block i entered st))"
  unfolding cache_find_def by (rule find_loop_quiet[OF assms]) auto

section \<open>Storing a response\<close>

definition older :: "cache_block \<Rightarrow> cache_block" where
  "older b = (if isEmpty b then b else b\<lparr>stamp := stamp b + 1\<rparr>)"

lemma older_simps [simp]:
  "isEmpty (older b) = isEmpty b" "unlocked (older b) = unlocked b" "cache_url_of (older b) = cache_url_of b"
  "cache_obj (older b) = cache_obj b" "wmutex (older b) = wmutex b"
  by (simp_all add: older_def unlocked_def)

lemma fold_set_block:
  assumes "n \<le> length (cache_objs st)"
  shows "fold (\<lambda>i. set_block i (g i)) [0..<n] st =
    st\<lparr>cache_objs := map (\<lambda>i. g i (block i st)) [0..<n] @ drop n (cache_objs st)\<rparr>"
  using assms
proof (induction n)
  case (Suc n)
  then have "drop n (cache_objs st) = cache_objs st ! n # drop (Suc n) (cache_objs st)"
    by (simp add: Cons_nth_drop_Suc)
  with Suc show ?case by (simp add: set_block_def block_def nth_append list_update_append)
qed simp

lemma quiet_set_block:
  "quiet st \<Longrightarrow> unlocked (f (block i st)) \<Longrightarrow> quiet (set_block i f st)"
  by (auto simp: quiet_def set_block_def dest!: set_update_subset_insert[THEN subsetD])

lemma stamp_loop_quiet:
  assumes "quiet st" and "set is \<subseteq> {..<CACHE_OBJS_COUNT}"
  shows "stamp_loop index is st = Finished () (fold (\<lambda>i. set_block i (\<lambda>b. if i = index then b else older b)) is st)"
  using assms
proof (induction "is" arbitrary: st)
  case (Cons i "is")
  have i: "i < length (cache_objs st)" "unlocked (block i st)" using quiet_block[OF Cons.prems(1)] Cons.prems(2) by auto
  let ?st = "set_block i (\<lambda>b. if i = index then b else older b) st"
  have "quiet ?st" using Cons.prems(1) i by (intro quiet_set_block) auto
  then have IH: "stamp_loop index is ?st = Finished () (fold (\<lambda>i. set_block i (\<lambda>b. if i = index then b else older b)) is ?st)"
    using Cons.prems(2) by (intro Cons.IH) auto
  show ?case
  proof (cases "i \<noteq> index \<and> \<not> isEmpty (block i st)")
    case True
    let ?inc = "\<lambda>b. b\<lparr>stamp := stamp b + 1\<rparr>"
    have "andthen (andthen (writerPre i st) (\<lambda>_ st. writerAfter i (set_block i ?inc st))) (\<lambda>_ st. stamp_loop index is st)
        = stamp_loop index is (set_block i ?inc st)"
    proof -
      have "andthen (writerPre i st) (\<lambda>_ st. andthen (writerAfter i (set_block i ?inc st)) (\<lambda>_ st. stamp_loop index is st))
          = stamp_loop index is (set_block i ?inc st)"
        by (rule write_unlocked[OF i]) simp_all
      then show ?thesis using i by (simp add: writerPre_def P_wmutex_def unlocked_def)
    qed
    moreover have "set_block i ?inc st = ?st" using True by (intro set_block_cong) (simp add: older_def)
    ultimately show ?thesis using True IH by simp
  next
    case False
    then have "?st = st" using i by (intro set_block_id) (auto simp: older_def)
    with False IH show ?thesis by auto
  qed
qed simp

lemma cache_update_stamp_quiet:
  assumes "quiet st" and "index < CACHE_OBJS_COUNT"
  shows "cache_update_stamp index st = Finished ()
    (st\<lparr>cache_objs := map (\<lambda>i. if i = index then (block i st)\<lparr>stamp := 0\<rparr> else older (block i st)) [0..<CACHE_OBJS_COUNT]\<rparr>)"
proof -
  let ?st = "set_block index (\<lambda>b. b\<lparr>stamp := 0\<rparr>) st"
  have i: "index < length (cache_objs st)" "unlocked (block index st)" using quiet_block[OF assms] by auto
  have len: "length (cache_objs st) = CACHE_OBJS_COUNT" using assms(1) by (simp add: quiet_def)
  have "quiet ?st" using assms(1) i by (intro quiet_set_block) (auto simp: unlocked_def)
  have "cache_update_stamp index st = stamp_loop index [0..<CACHE_OBJS_COUNT] ?st"
    unfolding cache_update_stamp_def by (rule write_unlocked[OF i]) simp_all
  also have "\<dots> = Finished () (fold (\<lambda>i. set_block i (\<lambda>b. if i = index then b else older b)) [0..<CACHE_OBJS_COUNT] ?st)"
    using \<open>quiet ?st\<close> by (rule stamp_loop_quiet) auto
  also have "fold (\<lambda>i. set_block i (\<lambda>b. if i = index then b else older b)) [0..<CACHE_OBJS_COUNT] ?st =
      ?st\<lparr>cache_objs := map (\<lambda>i. if i = index then block i ?st else older (block i ?st)) [0..<CACHE_OBJS_COUNT]\<rparr>"
    by (subst fold_set_block) (simp_all add: len)
  finally show ?thesis using i
    by (simp add: block_set_block set_block_def[of index] cong: map_cong if_cong) (simp add: block_def set_block_def nth_list_update_if cong: map_cong)
qed

text \<open>The block a new response goes to: an empty one, or the one with the largest stamp.\<close>

lemma eviction_loop_quiet:
  assumes "quiet st" and "set is \<subseteq> {..<CACHE_OBJS_COUNT}"
  shows "(\<exists>v\<in>set is. isEmpty (block v st) \<and>
      eviction_loop is m mi st = Finished (int v) (set_block v (\<lambda>b. b\<lparr>isEmpty := False\<rparr>) st)) \<or>
    (\<forall>i\<in>set is. \<not> isEmpty (block i st)) \<and>
      ((\<exists>v\<in>set is. eviction_loop is m mi st = Finished (int v) st \<and> m < stamp (block v st) \<and>
          (\<forall>i\<in>set is. stamp (block i st) \<le> stamp (block v st))) \<or>
       eviction_loop is m mi st = Finished mi st \<and> (\<forall>i\<in>set is. stamp (block i st) \<le> m))"
  using assms(2)
proof (induction "is" arbitrary: m mi)
  case (Cons i "is")
  have i: "i < length (cache_objs st)" "unlocked (block i st)" using quiet_block[OF assms(1)] Cons.prems by auto
  have e: "isEmpty (block i (set_block i entered st)) = isEmpty (block i st)"
      "stamp (block i (set_block i entered st)) = stamp (block i st)"
    using i by (simp_all add: block_set_block entered_def)
  show ?case
  proof (cases "isEmpty (block i st)")
    case True
    let ?st = "set_block i (\<lambda>b. b\<lparr>isEmpty := False\<rparr>) (set_block i entered st)"
    have "readerAfter i ?st = Finished () (set_block i (\<lambda>b. b\<lparr>isEmpty := False\<rparr>) st)"
      using i by (subst readerAfter_entered)
        (auto simp: block_set_block entered_def unlocked_def intro!: set_block_cong)
    with True e i show ?thesis by (simp add: readerPre_unlocked)
  next
    case False
    let ?m = "if m < stamp (block i st) then stamp (block i st) else m"
    let ?mi = "if m < stamp (block i st) then int i else mi"
    have eq: "eviction_loop (i # is) m mi st = eviction_loop is ?m ?mi st"
      using False e i by (simp add: readerPre_unlocked readerAfter_set_entered Let_def)
    have "m \<le> ?m" and "stamp (block i st) \<le> ?m" by auto
    from Cons.prems have "set is \<subseteq> {..<CACHE_OBJS_COUNT}" by simp
    from Cons.IH[OF this, of ?m ?mi] consider
      (empty) v where "v \<in> set is" "isEmpty (block v st)"
        "eviction_loop is ?m ?mi st = Finished (int v) (set_block v (\<lambda>b. b\<lparr>isEmpty := False\<rparr>) st)"
      | (larger) v where "\<forall>j\<in>set is. \<not> isEmpty (block j st)" "v \<in> set is"
        "eviction_loop is ?m ?mi st = Finished (int v) st" "?m < stamp (block v st)"
        "\<forall>j\<in>set is. stamp (block j st) \<le> stamp (block v st)"
      | (none) "\<forall>j\<in>set is. \<not> isEmpty (block j st)" "eviction_loop is ?m ?mi st = Finished ?mi st"
        "\<forall>j\<in>set is. stamp (block j st) \<le> ?m"
      by blast
    then show ?thesis
    proof cases
      case empty
      with eq show ?thesis by (intro disjI1 bexI[of _ v]) simp_all
    next
      case larger
      with eq False \<open>m \<le> ?m\<close> \<open>stamp (block i st) \<le> ?m\<close> show ?thesis
        by (intro disjI2 conjI disjI1 bexI[of _ v]) simp_all
    next
      case none
      show ?thesis
      proof (cases "m < stamp (block i st)")
        case True
        with eq False none show ?thesis by (intro disjI2 conjI disjI1 bexI[of _ i]) simp_all
      next
        case small: False
        with eq False none show ?thesis by (intro disjI2 conjI disjI2) simp_all
      qed
    qed
  qed
qed simp


lemma cache_eviction_quiet:
  assumes "quiet st" and "\<forall>i<CACHE_OBJS_COUNT. \<not> isEmpty (block i st) \<longrightarrow> 0 \<le> stamp (block i st)"
  obtains v where "v < CACHE_OBJS_COUNT"
    and "cache_eviction st = Finished (int v) (set_block v (\<lambda>b. b\<lparr>isEmpty := False\<rparr>) st)"
    and "isEmpty (block v st) \<or>
      (\<forall>i<CACHE_OBJS_COUNT. \<not> isEmpty (block i st) \<and> stamp (block i st) \<le> stamp (block v st))"
proof -
  let ?is = "[0..<CACHE_OBJS_COUNT]"
  have "set ?is \<subseteq> {..<CACHE_OBJS_COUNT}" by auto
  from eviction_loop_quiet[OF assms(1) this, of "- 2" "- 1"] consider
    (empty) v where "v < CACHE_OBJS_COUNT" "isEmpty (block v st)"
      "cache_eviction st = Finished (int v) (set_block v (\<lambda>b. b\<lparr>isEmpty := False\<rparr>) st)"
    | (full) v where "v < CACHE_OBJS_COUNT" "\<forall>j<CACHE_OBJS_COUNT. \<not> isEmpty (block j st)"
      "cache_eviction st = Finished (int v) st" "\<forall>j<CACHE_OBJS_COUNT. stamp (block j st) \<le> stamp (block v st)"
    | (none) "\<forall>j<CACHE_OBJS_COUNT. \<not> isEmpty (block j st) \<and> stamp (block j st) \<le> - 2"
    unfolding cache_eviction_def by auto
  then show thesis
  proof cases
    case empty
    then show thesis by (intro that[of v]) auto
  next
    case full
    then have "set_block v (\<lambda>b. b\<lparr>isEmpty := False\<rparr>) st = st"
      using quiet_block[OF assms(1)] by (intro set_block_id) auto
    with full show thesis by (intro that[of v]) auto
  next
    case none
    then have "\<not> isEmpty (block 0 st)" "stamp (block 0 st) \<le> - 2" by (auto simp: CACHE_OBJS_COUNT_def)
    with assms(2) show thesis by (force simp: CACHE_OBJS_COUNT_def)
  qed
qed

lemma cache_url_quiet:
  assumes "quiet st" and "\<forall>i<CACHE_OBJS_COUNT. \<not> isEmpty (block i st) \<longrightarrow> 0 \<le> stamp (block i st)"
    and "length url < MAXLINE" and "length buf < MAX_OBJECT_SIZE"
  obtains v where "v < CACHE_OBJS_COUNT"
    and "isEmpty (block v st) \<or>
      (\<forall>i<CACHE_OBJS_COUNT. \<not> isEmpty (block i st) \<and> stamp (block i st) \<le> stamp (block v st))"
    and "cache_url url buf st = Finished () (st\<lparr>cache_objs :=
      map (\<lambda>i. if i = v then (block v st)\<lparr>isEmpty := False, cache_url_of := url, cache_obj := buf, stamp := 0\<rparr>
               else older (block i st)) [0..<CACHE_OBJS_COUNT]\<rparr>)"
proof (rule cache_eviction_quiet[OF assms(1,2)])
  fix v assume v: "v < CACHE_OBJS_COUNT"
    "cache_eviction st = Finished (int v) (set_block v (\<lambda>b. b\<lparr>isEmpty := False\<rparr>) st)"
    "isEmpty (block v st) \<or> (\<forall>i<CACHE_OBJS_COUNT. \<not> isEmpty (block i st) \<and> stamp (block i st) \<le> stamp (block v st))"
  have len: "length (cache_objs st) = CACHE_OBJS_COUNT" using assms(1) by (simp add: quiet_def)
  have b: "v < length (cache_objs st)" "unlocked (block v st)" using quiet_block[OF assms(1) v(1)] by auto
  let ?st1 = "set_block v (\<lambda>b. b\<lparr>isEmpty := False\<rparr>) st"
  let ?new = "\<lambda>b. b\<lparr>cache_url_of := url, cache_obj := buf, isEmpty := False\<rparr>"
  let ?st2 = "set_block v ?new ?st1"
  have st1: "v < length (cache_objs ?st1)" "unlocked (block v ?st1)"
    using b by (auto simp: block_set_block unlocked_def)
  have "cache_url url buf st = andthen (writerPre v ?st1) (\<lambda>_ st. andthen (writerAfter v (set_block v ?new st))
      (\<lambda>_ st. cache_update_stamp v st))"
    using assms(3,4) by (simp add: cache_url_def v(2))
  also have "\<dots> = cache_update_stamp v ?st2"
    by (rule write_unlocked[OF st1]) simp_all
  also have "\<dots> = Finished () (?st2\<lparr>cache_objs :=
      map (\<lambda>i. if i = v then (block i ?st2)\<lparr>stamp := 0\<rparr> else older (block i ?st2)) [0..<CACHE_OBJS_COUNT]\<rparr>)"
    using assms(1) b v(1) by (intro cache_update_stamp_quiet quiet_set_block) (auto simp: unlocked_def block_set_block)
  also have "map (\<lambda>i. if i = v then (block i ?st2)\<lparr>stamp := 0\<rparr> else older (block i ?st2)) [0..<CACHE_OBJS_COUNT] =
      map (\<lambda>i. if i = v then (block v st)\<lparr>isEmpty := False, cache_url_of := url, cache_obj := buf, stamp := 0\<rparr>
               else older (block i st)) [0..<CACHE_OBJS_COUNT]"
    using b by (intro map_cong) (auto simp: block_set_block)
  also have "?st2\<lparr>cache_objs := xs\<rparr> = st\<lparr>cache_objs := xs\<rparr>" for xs by (simp add: set_block_def)
  finally show thesis using v by (intro that[of v])
qed

section \<open>The cache as a list\<close>

text \<open>The stored responses with their URLs, the one stored or used last first.\<close>

definition stored :: "proxy \<Rightarrow> cache_block list" where
  "stored st = filter (\<lambda>b. \<not> isEmpty b) (cache_objs st)"

definition entry :: "cache_block \<Rightarrow> string \<times> string" where
  "entry b = (cache_url_of b, cache_obj b)"

definition lru :: "proxy \<Rightarrow> (string \<times> string) list" where
  "lru st = map entry (sort_key stamp (stored st))"

definition cache_ok :: "proxy \<Rightarrow> bool" where
  "cache_ok st \<longleftrightarrow> quiet st \<and> distinct (map stamp (stored st)) \<and> (\<forall>b\<in>set (stored st). 0 \<le> stamp b)"

lemma sort_key_eqI:
  assumes "mset ys = mset xs" and "sorted (map f ys)" and "distinct (map f xs)"
  shows "sort_key f xs = ys"
proof (rule properties_for_sort_key[OF assms(1) _ assms(2)])
  fix k assume "k \<in> set ys"
  then have k: "k \<in> set xs" by (simp only: mset_eq_setD[OF assms(1)])
  have one: "filter (\<lambda>x. f k = f x) zs = [k]" if "distinct (map f zs)" "k \<in> set zs" for zs
    using that
  proof (induction zs)
    case (Cons z zs)
    then show ?case by (cases "f k = f z") (auto simp: filter_empty_conv image_iff)
  qed simp
  have "mset (map f ys) = mset (map f xs)" using assms(1) by simp
  then have "distinct (map f ys)" using assms(3) by (metis mset_eq_imp_distinct_iff)
  with one[of ys] one[of xs] assms(3) k \<open>k \<in> set ys\<close> show "filter (\<lambda>x. f k = f x) ys = filter (\<lambda>x. f k = f x) xs" by simp
qed

text \<open>A new response in place of \<open>v\<close>, all others one older.\<close>

lemma distinct_after_store:
  fixes A B :: "cache_block list"
  assumes "distinct (map stamp (A @ B))" and "\<forall>b\<in>set (A @ B). 0 \<le> stamp b \<and> \<not> isEmpty b" and "stamp w = 0"
  shows "distinct (map stamp (map older A @ w # map older B))"
proof -
  have e: "stamp (older b) = stamp b + 1" if "b \<in> set (A @ B)" for b using that assms(2) by (auto simp: older_def)
  then have "map stamp (map older A @ map older B) = map (\<lambda>i. i + 1) (map stamp (A @ B))" by auto
  then have "distinct (map stamp (map older A @ map older B))"
    using assms(1) by (simp only: distinct_map) (simp add: inj_on_def)
  moreover have "stamp w \<notin> set (map stamp (map older A @ map older B))"
  proof
    assume "stamp w \<in> set (map stamp (map older A @ map older B))"
    then obtain b where "b \<in> set (A @ B)" "stamp w = stamp (older b)" by auto
    with e[of b] assms(2,3) show False by force
  qed
  ultimately show ?thesis by auto
qed

lemma sort_after_store:
  fixes A B :: "cache_block list"
  assumes "distinct (map stamp (A @ B))" and "\<forall>b\<in>set (A @ B). 0 \<le> stamp b \<and> \<not> isEmpty b" and "stamp w = 0"
  shows "sort_key stamp (map older A @ w # map older B) = w # map older (sort_key stamp (A @ B))"
proof (rule sort_key_eqI[OF _ _ distinct_after_store[OF assms]])
  have e: "stamp (older b) = stamp b + 1" if "b \<in> set (A @ B)" for b using that assms(2) by (auto simp: older_def)
  show "mset (w # map older (sort_key stamp (A @ B))) = mset (map older A @ w # map older B)" by simp
  have "sorted (map stamp (sort_key stamp (A @ B)))" by simp
  then have "sorted (map (\<lambda>i. i + 1) (map stamp (sort_key stamp (A @ B))))" by (simp add: sorted_map sorted_wrt_map)
  moreover have "map stamp (map older (sort_key stamp (A @ B))) = map (\<lambda>i. i + 1) (map stamp (sort_key stamp (A @ B)))"
    using e by auto
  ultimately have "sorted (map stamp (map older (sort_key stamp (A @ B))))" by (simp only:)
  then show "sorted (map stamp (w # map older (sort_key stamp (A @ B))))"
    using e assms(2,3) by fastforce
qed

text \<open>The largest stamp is last.\<close>

lemma sort_with_last:
  fixes A B :: "cache_block list"
  assumes "distinct (map stamp (A @ v # B))" and "\<forall>b\<in>set (A @ B). stamp b \<le> stamp v"
  shows "sort_key stamp (A @ v # B) = sort_key stamp (A @ B) @ [v]"
  using assms by (intro sort_key_eqI) (auto simp: sorted_append)

text \<open>The blocks after a store, around the one that was replaced.\<close>

lemma store_split:
  assumes "length (cache_objs st) = n" and "v < n" and "\<not> isEmpty w"
    and "cache_objs st' = map (\<lambda>i. if i = v then w else older (block i st)) [0..<n]"
  obtains A B where "stored st' = map older A @ w # map older B"
    and "stored st = A @ (if isEmpty (block v st) then [] else [block v st]) @ B"
    and "set (A @ B) \<subseteq> set (stored st)"
proof -
  let ?A = "take v (cache_objs st)" and ?B = "drop (Suc v) (cache_objs st)"
  let ?f = "filter (\<lambda>b. \<not> isEmpty b)"
  have split: "cache_objs st = ?A @ block v st # ?B"
    using assms(1,2) by (simp add: block_def id_take_nth_drop)
  have "cache_objs st' = map older ?A @ w # map older ?B"
    using assms(1,2,4) by (intro nth_equalityI) (auto simp: block_def nth_append nth_Cons')
  then have "stored st' = map older (?f ?A) @ w # map older (?f ?B)"
    using assms(3) by (simp add: stored_def filter_map comp_def)
  moreover have "stored st = ?f ?A @ (if isEmpty (block v st) then [] else [block v st]) @ ?f ?B"
    unfolding stored_def by (subst split) simp
  ultimately show thesis by (intro that[of "?f ?A" "?f ?B"]) auto
qed

text \<open>A new response comes first, and the tenth is forgotten.\<close>

lemma cache_url_stores:
  assumes "cache_ok st" and "length url < MAXLINE" and "length buf < MAX_OBJECT_SIZE"
  shows "\<exists>st'. cache_url url buf st = Finished () st' \<and> cache_ok st' \<and>
    lru st' = take CACHE_OBJS_COUNT ((url, buf) # lru st) \<and> net st' = net st"
proof -
  have q: "quiet st" and d: "distinct (map stamp (stored st))" and pos: "\<forall>b\<in>set (stored st). 0 \<le> stamp b"
    using assms(1) by (auto simp: cache_ok_def)
  have len: "length (cache_objs st) = CACHE_OBJS_COUNT" using q by (simp add: quiet_def)
  have "\<forall>i<CACHE_OBJS_COUNT. \<not> isEmpty (block i st) \<longrightarrow> 0 \<le> stamp (block i st)"
    using pos len by (simp add: stored_def block_def)
  then show ?thesis
  proof (rule cache_url_quiet[OF q _ assms(2,3)])
    fix v assume v: "v < CACHE_OBJS_COUNT" "isEmpty (block v st) \<or>
      (\<forall>i<CACHE_OBJS_COUNT. \<not> isEmpty (block i st) \<and> stamp (block i st) \<le> stamp (block v st))"
    let ?w = "(block v st)\<lparr>isEmpty := False, cache_url_of := url, cache_obj := buf, stamp := 0\<rparr>"
    let ?st = "st\<lparr>cache_objs := map (\<lambda>i. if i = v then ?w else older (block i st)) [0..<CACHE_OBJS_COUNT]\<rparr>"
    assume r: "cache_url url buf st = Finished () ?st"
    show ?thesis
    proof (rule store_split[OF len v(1), of ?w ?st])
      fix A B assume s': "stored ?st = map older A @ ?w # map older B"
        and s: "stored st = A @ (if isEmpty (block v st) then [] else [block v st]) @ B"
        and sub: "set (A @ B) \<subseteq> set (stored st)"
      have dAB: "distinct (map stamp (A @ B))" using d s by (auto split: if_splits)
      have pAB: "\<forall>b\<in>set (A @ B). 0 \<le> stamp b \<and> \<not> isEmpty b" using pos sub by (auto simp: stored_def)
      have sorted_new: "sort_key stamp (stored ?st) = ?w # map older (sort_key stamp (A @ B))"
        unfolding s' by (rule sort_after_store[OF dAB pAB]) simp
      then have new: "lru ?st = (url, buf) # map entry (sort_key stamp (A @ B))"
        by (simp add: lru_def entry_def comp_def)
      have "lru ?st = take CACHE_OBJS_COUNT ((url, buf) # lru st)"
      proof (cases "isEmpty (block v st)")
        case True
        have "block v st \<in> set (cache_objs st)" using v(1) len by (simp add: block_def)
        then have "length (stored st) < CACHE_OBJS_COUNT"
          using length_filter_less[of "block v st" "cache_objs st" "\<lambda>b. \<not> isEmpty b"] True len by (simp add: stored_def)
        with True s new show ?thesis by (simp add: lru_def)
      next
        case False
        with v(2) have all: "\<forall>b\<in>set (cache_objs st). \<not> isEmpty b \<and> stamp b \<le> stamp (block v st)"
          using len by (auto simp: block_def in_set_conv_nth)
        then have "stored st = cache_objs st" by (simp add: stored_def)
        with all sub have "\<forall>b\<in>set (A @ B). stamp b \<le> stamp (block v st)" by auto
        with False d s have "sort_key stamp (stored st) = sort_key stamp (A @ B) @ [block v st]"
          by (simp add: sort_with_last)
        moreover have "length (map entry (sort_key stamp (A @ B))) = 9"
          using \<open>stored st = cache_objs st\<close> arg_cong[OF s, of length] False len by (simp add: CACHE_OBJS_COUNT_def)
        ultimately show ?thesis using new by (simp add: lru_def CACHE_OBJS_COUNT_def)
      qed
      moreover have "cache_ok ?st"
      proof -
        have "unlocked ?w" using quiet_block[OF q v(1)] by (simp add: unlocked_def)
        then have "quiet ?st" using quiet_block[OF q] by (auto simp: quiet_def)
        moreover have "distinct (map stamp (stored ?st))"
          unfolding s' by (rule distinct_after_store[OF dAB pAB]) simp
        moreover have "\<forall>b\<in>set (stored ?st). 0 \<le> stamp b" unfolding s' using pAB by (auto simp: older_def)
        ultimately show ?thesis by (simp add: cache_ok_def)
      qed
      ultimately show ?thesis using r by (intro exI[of _ ?st]) simp
    qed simp_all
  qed
qed


text \<open>
  C21: While no thread uses it, the cache is the list of the last ten responses that were
  stored, in that order: \<open>cache_url\<close> puts the new one in front and forgets the tenth, and
  all locks are free again afterwards.
\<close>

theorem cache_url_lru:
  assumes "cache_ok st" and "length url < MAXLINE" and "length buf < MAX_OBJECT_SIZE"
  shows "\<exists>st'. cache_url url buf st = Finished () st' \<and> cache_ok st' \<and>
    lru st' = take CACHE_OBJS_COUNT ((url, buf) # lru st) \<and> net st' = net st"
  by (rule cache_url_stores[OF assms])

lemma cache_init_ok:
  assumes "length (cache_objs st) = CACHE_OBJS_COUNT"
  shows "cache_ok (cache_init st) \<and> lru (cache_init st) = []"
proof -
  let ?f = "\<lambda>b. b\<lparr>isEmpty := True, stamp := - 1, readcnt := 0,
         writecnt := - 1, rdcntmutex := 1, wmutex := 1, wtcntmutex := 1, queue := 1\<rparr>"
  have "cache_objs (cache_init st) = map (\<lambda>i. ?f (block i (st\<lparr>cache_num := 0\<rparr>))) [0..<CACHE_OBJS_COUNT]"
    unfolding cache_init_def for_loop_def by (subst fold_set_block) (simp_all add: assms)
  then show ?thesis by (auto simp: cache_ok_def quiet_def stored_def lru_def unlocked_def filter_empty_conv)
qed

text \<open>Two responses stored in an empty cache.\<close>

definition blank_proxy :: proxy where
  "blank_proxy = \<lparr>cache_objs = replicate CACHE_OBJS_COUNT \<lparr>cache_obj = [], cache_url_of = [], isEmpty = False, stamp = 7,
     readcnt = 3, writecnt = 0, rdcntmutex = 0, wmutex = 0, wtcntmutex = 0, queue = 0\<rparr>, cache_num = 5, net = []\<rparr>"

theorem cache_url_lru_witness:
  "\<exists>st1 st2. cache_url ''a'' ''A'' (cache_init blank_proxy) = Finished () st1 \<and>
     cache_url ''b'' ''B'' st1 = Finished () st2 \<and> lru st2 = [(''b'', ''B''), (''a'', ''A'')]"
proof -
  have "length (cache_objs blank_proxy) = CACHE_OBJS_COUNT" by (simp add: blank_proxy_def)
  from cache_init_ok[OF this] have i: "cache_ok (cache_init blank_proxy)" "lru (cache_init blank_proxy) = []" by auto
  have sizes: "length ''a'' < MAXLINE" "length ''b'' < MAXLINE" "length ''A'' < MAX_OBJECT_SIZE" "length ''B'' < MAX_OBJECT_SIZE"
    by (simp_all add: MAXLINE_def MAX_OBJECT_SIZE_def)
  from cache_url_lru[OF i(1) sizes(1,3)] obtain st1 where
    st1: "cache_url ''a'' ''A'' (cache_init blank_proxy) = Finished () st1" "cache_ok st1" "lru st1 = [(''a'', ''A'')]"
    by (auto simp: i(2) CACHE_OBJS_COUNT_def)
  from cache_url_lru[OF st1(2) sizes(2,4)] st1 show ?thesis by (auto simp: CACHE_OBJS_COUNT_def)
qed

end
