(* ===== verification/ProxyLock.thy ===== *)
theory ProxyLock
  imports ProxyCache
begin

text \<open>
  The cache of the proxy once readers have been left inside of its blocks: which lock states
  requests that run one after the other reach, and that a block with a reader inside keeps
  every later update of the cache waiting.
\<close>

section \<open>What does not touch the cache\<close>

lemma emit_simps [simp]:
  "cache_objs (emit e st) = cache_objs st" "net (emit e st) = net st @ [e]" "block i (emit e st) = block i st"
  by (simp_all add: emit_def block_def)

lemma emits_simps [simp]:
  "cache_objs (fold (\<lambda>b. emit (f b)) bs st) = cache_objs st"
  "net (fold (\<lambda>b. emit (f b)) bs st) = net st @ map f bs"
  by (induction bs arbitrary: st) simp_all

section \<open>Lock states\<close>

text \<open>A stored response with readers inside that have no writer beside them.\<close>

definition reading :: "cache_block \<Rightarrow> bool" where
  "reading b \<longleftrightarrow> 1 \<le> readcnt b \<and> rdcntmutex b = 1 \<and> wmutex b = 0 \<and> \<not> isEmpty b"

text \<open>No block is locked but for readers inside, and block \<open>i\<close> has one.\<close>

definition held :: "nat \<Rightarrow> proxy \<Rightarrow> bool" where
  "held i st \<longleftrightarrow> length (cache_objs st) = CACHE_OBJS_COUNT \<and> i < CACHE_OBJS_COUNT \<and>
     (\<forall>b\<in>set (cache_objs st). unlocked b \<or> reading b) \<and> reading (block i st)"

definition enter :: "cache_block \<Rightarrow> cache_block" where
  "enter b = b\<lparr>readcnt := readcnt b + 1, wmutex := 0\<rparr>"

definition mark :: "cache_block \<Rightarrow> cache_block" where
  "mark b = b\<lparr>isEmpty := False\<rparr>"

lemma held_block:
  "held i st \<Longrightarrow> j < CACHE_OBJS_COUNT \<Longrightarrow> j < length (cache_objs st) \<and> (unlocked (block j st) \<or> reading (block j st))"
  by (simp add: held_def block_def)

lemma held_cong: "cache_objs st' = cache_objs st \<Longrightarrow> held i st' = held i st"
  by (simp add: held_def block_def)

lemma held_emit [simp]: "held i (emit e st) = held i st"
  by (rule held_cong) simp

lemma held_emits [simp]: "held i (fold (\<lambda>b. emit (f b)) bs st) = held i st"
  by (rule held_cong) simp

lemma held_set_block:
  assumes "held i st" and "j < CACHE_OBJS_COUNT" and "unlocked (f (block j st)) \<or> reading (f (block j st))"
    and "j = i \<Longrightarrow> reading (f (block i st))"
  shows "held i (set_block j f st)"
proof -
  have "unlocked b \<or> reading b" if "b \<in> set (cache_objs (set_block j f st))" for b
    using that assms(1,3) set_update_subset_insert[of "cache_objs st" j "f (block j st)"]
    by (auto simp: held_def set_block_def)
  then show ?thesis using assms by (auto simp: held_def block_set_block)
qed

lemma reading_not_unlocked: "reading b \<Longrightarrow> \<not> unlocked b"
  by (simp add: reading_def unlocked_def)

text \<open>A reader enters and leaves such a block.\<close>

lemma readerPre_enter:
  assumes "i < length (cache_objs st)" and "unlocked (block i st) \<or> reading (block i st)"
  shows "readerPre i st = Finished () (set_block i enter st)"
  using assms(2)
proof
  assume u: "unlocked (block i st)"
  then have "entered (block i st) = enter (block i st)" by (simp add: entered_def enter_def unlocked_def)
  with readerPre_unlocked[OF assms(1) u] show ?thesis by (metis set_block_cong)
next
  assume "reading (block i st)"
  with assms(1) show ?thesis
    by (auto simp: readerPre_def P_rdcntmutex_def V_rdcntmutex_def Let_def block_set_block reading_def enter_def
        intro!: set_block_cong)
qed

lemma readerAfter_enter:
  assumes "i < length (cache_objs st)" and "unlocked (block i st) \<or> reading (block i st)"
  shows "readerAfter i (set_block i enter st) = Finished () st"
  using assms(2)
proof
  assume u: "unlocked (block i st)"
  then have "entered (block i st) = enter (block i st)" by (simp add: entered_def enter_def unlocked_def)
  with readerAfter_set_entered[OF assms(1) u] show ?thesis by (metis set_block_cong)
next
  assume "reading (block i st)"
  with assms(1) show ?thesis
    by (auto simp: readerAfter_def P_rdcntmutex_def V_rdcntmutex_def Let_def block_set_block reading_def enter_def
        intro!: set_block_id)
qed

lemma set_block_enter_emit: "set_block i f (emit e st) = emit e (set_block i f st)"
  by (simp add: set_block_def emit_def block_def)

lemma readerAfter_enter_emit:
  assumes "i < length (cache_objs st)" and "unlocked (block i st) \<or> reading (block i st)"
  shows "readerAfter i (emit e (set_block i enter st)) = Finished () (emit e st)"
  unfolding set_block_enter_emit[symmetric] using assms by (intro readerAfter_enter) simp_all

lemma readerAfter_enter_mark:
  assumes "i < length (cache_objs st)" and "unlocked (block i st)"
  shows "readerAfter i (set_block i mark (set_block i enter st)) = Finished () (set_block i mark st)"
proof -
  have eq: "set_block i mark (set_block i enter st) = set_block i enter (set_block i mark st)"
    using assms(1) by (auto simp: mark_def enter_def intro!: set_block_cong)
  have "unlocked (block i (set_block i mark st))" using assms by (simp add: block_set_block mark_def unlocked_def)
  then show ?thesis unfolding eq using assms(1) by (intro readerAfter_enter) simp_all
qed

section \<open>The operations of the cache\<close>

lemma find_loop_held:
  assumes "held i st" and "set is \<subseteq> {..<CACHE_OBJS_COUNT}"
  shows "find_loop url is st = Finished (- 1) st \<or>
    (\<exists>j\<in>set is. hit url (block j st) \<and> find_loop url is st = Finished (int j) (set_block j enter st))"
  using assms(2)
proof (induction "is")
  case (Cons j "is")
  have j: "j < length (cache_objs st)" "unlocked (block j st) \<or> reading (block j st)"
    using held_block[OF assms(1), of j] Cons.prems by auto
  have h: "hit url (enter (block j st)) = hit url (block j st)" by (simp add: hit_def enter_def)
  show ?case
  proof (cases "hit url (block j st)")
    case True
    with h j have "find_loop url (j # is) st = Finished (int j) (set_block j enter st)"
      by (simp add: readerPre_enter block_set_block hit_def)
    with True show ?thesis by auto
  next
    case False
    with h j have "find_loop url (j # is) st = find_loop url is st"
      by (auto simp: readerPre_enter readerAfter_enter block_set_block hit_def)
    moreover have "set is \<subseteq> {..<CACHE_OBJS_COUNT}" using Cons.prems by simp
    ultimately show ?thesis using Cons.IH by auto
  qed
qed simp

lemma eviction_loop_held:
  assumes "held i st" and "set is \<subseteq> {..<CACHE_OBJS_COUNT}"
  shows "\<exists>v st'. eviction_loop is m mi st = Finished v st' \<and> (v = mi \<or> v \<in> int ` set is) \<and>
    (st' = st \<or> (\<exists>j\<in>set is. unlocked (block j st) \<and> st' = set_block j mark st))"
  using assms(2)
proof (induction "is" arbitrary: m mi)
  case (Cons j "is")
  have j: "j < length (cache_objs st)" "unlocked (block j st) \<or> reading (block j st)"
    using held_block[OF assms(1), of j] Cons.prems by auto
  have b: "isEmpty (block j (set_block j enter st)) = isEmpty (block j st)"
      "stamp (block j (set_block j enter st)) = stamp (block j st)"
    using j by (simp_all add: block_set_block enter_def)
  show ?case
  proof (cases "isEmpty (block j st)")
    case True
    then have u: "unlocked (block j st)" using j(2) by (auto simp: reading_def)
    have "eviction_loop (j # is) m mi st = Finished (int j) (set_block j mark st)"
      using True b readerAfter_enter_mark[OF j(1) u] by (simp add: readerPre_enter[OF j] mark_def[abs_def])
    with u show ?thesis by auto
  next
    case False
    define m' mi' where "m' = (if m < stamp (block j st) then stamp (block j st) else m)"
      and "mi' = (if m < stamp (block j st) then int j else mi)"
    have "eviction_loop (j # is) m mi st = eviction_loop is m' mi' st"
      using False b by (simp add: readerPre_enter[OF j] readerAfter_enter[OF j] m'_def mi'_def)
    moreover have "set is \<subseteq> {..<CACHE_OBJS_COUNT}" using Cons.prems by simp
    moreover have "mi' = mi \<or> mi' = int j" by (simp add: mi'_def)
    ultimately show ?thesis using Cons.IH[of m' mi'] by fastforce
  qed
qed simp

lemma stamp_loop_held:
  assumes "held i st" and "i \<in> set is" and "i \<noteq> index" and "set is \<subseteq> {..<CACHE_OBJS_COUNT}"
  shows "\<exists>st'. stamp_loop index is st = Blocked st' \<and> held i st'"
  using assms
proof (induction "is" arbitrary: st)
  case (Cons j "is")
  have j: "j < CACHE_OBJS_COUNT" "j < length (cache_objs st)" "unlocked (block j st) \<or> reading (block j st)"
    using held_block[OF Cons.prems(1), of j] Cons.prems(4) by auto
  have i: "reading (block i st)" using Cons.prems(1) by (simp add: held_def)
  let ?inc = "\<lambda>b. b\<lparr>stamp := stamp b + 1\<rparr>"
  consider (waits) "j \<noteq> index" "reading (block j st)" | (writes) "j \<noteq> index" "unlocked (block j st)" "\<not> isEmpty (block j st)"
    | (skips) "j = index \<or> isEmpty (block j st)"
    using j(3) by blast
  then show ?case
  proof cases
    case waits
    then have "stamp_loop index (j # is) st = Blocked st" by (simp add: reading_def writerPre_def P_wmutex_def)
    with Cons.prems(1) show ?thesis by blast
  next
    case writes
    have ne: "i \<noteq> j" using writes i reading_not_unlocked by blast
    have "stamp_loop index (j # is) st =
        andthen (writerPre j st) (\<lambda>_ st. andthen (writerAfter j (set_block j ?inc st)) (\<lambda>_ st. stamp_loop index is st))"
      using writes by (simp add: writerPre_def P_wmutex_def unlocked_def)
    also have "\<dots> = stamp_loop index is (set_block j ?inc st)"
      by (rule write_unlocked[OF j(2) writes(2)]) simp_all
    finally have "stamp_loop index (j # is) st = stamp_loop index is (set_block j ?inc st)" .
    moreover have "held i (set_block j ?inc st)"
      using Cons.prems(1) j(1) ne writes(2) by (intro held_set_block) (simp_all add: unlocked_def)
    ultimately show ?thesis using Cons.IH[of "set_block j ?inc st"] Cons.prems(2-4) ne by simp
  next
    case skips
    then have "i \<noteq> j" using i Cons.prems(3) by (auto simp: reading_def)
    moreover have "stamp_loop index (j # is) st = stamp_loop index is st" using skips by auto
    ultimately show ?thesis using Cons.IH[OF Cons.prems(1)] Cons.prems(2-4) by simp
  qed
qed simp

text \<open>No update of the time stamps returns, and no storing of a response.\<close>

lemma cache_update_stamp_held:
  assumes "held i st" and "index < CACHE_OBJS_COUNT"
  shows "\<exists>st'. cache_update_stamp index st = Blocked st' \<and> held i st'"
proof -
  have b: "index < length (cache_objs st)" "unlocked (block index st) \<or> reading (block index st)"
    using held_block[OF assms] by auto
  show ?thesis
  proof (cases "reading (block index st)")
    case True
    then have "cache_update_stamp index st = Blocked st"
      by (simp add: cache_update_stamp_def writerPre_def P_wmutex_def reading_def)
    with assms(1) show ?thesis by blast
  next
    case False
    then have u: "unlocked (block index st)" and ne: "i \<noteq> index" using b(2) assms(1) by (auto simp: held_def)
    let ?st = "set_block index (\<lambda>b. b\<lparr>stamp := 0\<rparr>) st"
    have "cache_update_stamp index st = stamp_loop index [0..<CACHE_OBJS_COUNT] ?st"
      unfolding cache_update_stamp_def by (rule write_unlocked[OF b(1) u]) simp_all
    moreover have "held i ?st" using assms ne u by (intro held_set_block) (simp_all add: unlocked_def)
    moreover have "i \<in> set [0..<CACHE_OBJS_COUNT]" "set [0..<CACHE_OBJS_COUNT] \<subseteq> {..<CACHE_OBJS_COUNT}"
      using assms(1) by (auto simp: held_def)
    ultimately show ?thesis using stamp_loop_held[of i ?st "[0..<CACHE_OBJS_COUNT]" index] ne by simp
  qed
qed

lemma cache_url_held:
  assumes "held i st"
  shows "cache_url url buf st = Crashed \<or> (\<exists>st'. cache_url url buf st = Blocked st' \<and> held i st')"
proof -
  have "set [0..<CACHE_OBJS_COUNT] \<subseteq> {..<CACHE_OBJS_COUNT}" by auto
  from eviction_loop_held[OF assms this, of "- 2" "- 1"] obtain v st1 where
    e: "cache_eviction st = Finished v st1" and v: "v = - 1 \<or> v \<in> int ` {..<CACHE_OBJS_COUNT}"
    and st1: "st1 = st \<or> (\<exists>j<CACHE_OBJS_COUNT. unlocked (block j st) \<and> st1 = set_block j mark st)"
    unfolding cache_eviction_def by (auto simp: atLeast0LessThan)
  have h: "held i st1"
    using st1
  proof
    assume "\<exists>j<CACHE_OBJS_COUNT. unlocked (block j st) \<and> st1 = set_block j mark st"
    then obtain j where j: "j < CACHE_OBJS_COUNT" "unlocked (block j st)" "st1 = set_block j mark st" by blast
    have "j \<noteq> i" using j(2) assms reading_not_unlocked by (auto simp: held_def)
    with j assms show ?thesis by (auto intro!: held_set_block simp: mark_def unlocked_def)
  qed (use assms in simp)
  show ?thesis
  proof (cases "v < 0")
    case True
    then show ?thesis by (simp add: cache_url_def e)
  next
    case False
    then obtain k where k: "v = int k" "k < CACHE_OBJS_COUNT" using v by auto
    have b: "k < length (cache_objs st1)" "unlocked (block k st1) \<or> reading (block k st1)" using held_block[OF h k(2)] by auto
    let ?new = "\<lambda>b. b\<lparr>cache_url_of := url, cache_obj := buf, isEmpty := False\<rparr>"
    show ?thesis
    proof (cases "reading (block k st1)")
      case True
      then have "cache_url url buf st = Blocked st1" by (simp add: cache_url_def e k writerPre_def P_wmutex_def reading_def)
      with h show ?thesis by blast
    next
      case False
      then have u: "unlocked (block k st1)" and ne: "k \<noteq> i" using b(2) h by (auto simp: held_def)
      show ?thesis
      proof (cases "MAXLINE \<le> length url \<or> MAX_OBJECT_SIZE \<le> length buf")
        case True
        then show ?thesis using u by (auto simp: cache_url_def e k writerPre_def P_wmutex_def unlocked_def)
      next
        case False
        then have "cache_url url buf st = andthen (writerPre k st1) (\<lambda>_ st. andthen (writerAfter k (set_block k ?new st))
            (\<lambda>_ st. cache_update_stamp k st))"
          by (simp add: cache_url_def e k)
        also have "\<dots> = cache_update_stamp k (set_block k ?new st1)"
          by (rule write_unlocked[OF b(1) u]) simp_all
        finally have "cache_url url buf st = cache_update_stamp k (set_block k ?new st1)" .
        moreover have "held i (set_block k ?new st1)" using h k(2) ne u by (intro held_set_block) (auto simp: unlocked_def)
        ultimately show ?thesis using cache_update_stamp_held[OF _ k(2)] by simp
      qed
    qed
  qed
qed

section \<open>Later requests\<close>

text \<open>The state a request leaves to the others: after its end, or while it waits or loops for ever.\<close>

fun left_by :: "'a ending \<Rightarrow> proxy option" where
  "left_by (Finished x st) = Some st"
| "left_by (Blocked st) = Some st"
| "left_by Crashed = None"
| "left_by (Forever st) = Some st"
| "left_by Exited = None"

text \<open>The states after any number of further requests, run one after the other.\<close>

inductive later :: "proxy \<Rightarrow> proxy \<Rightarrow> bool" for st where
  later_refl: "later st st"
| later_request: "later st st1 \<Longrightarrow> left_by (doit connect u fd st1) = Some st2 \<Longrightarrow> later st st2"

definition keeps :: "nat \<Rightarrow> 'a ending \<Rightarrow> bool" where
  "keeps i e \<longleftrightarrow> (\<forall>st. left_by e = Some st \<longrightarrow> held i st)"

lemma keeps_simps [simp]:
  "keeps i (Finished x st) = held i st" "keeps i (Blocked st) = held i st" "keeps i (Forever st) = held i st"
  "keeps i Crashed" "keeps i Exited"
  by (simp_all add: keeps_def)

lemma keeps_andthen: "keeps i e \<Longrightarrow> (\<And>x st. held i st \<Longrightarrow> keeps i (f x st)) \<Longrightarrow> keeps i (andthen e f)"
  by (cases e) simp_all

lemma keeps_sprintf: "(\<And>x. keeps i (k x)) \<Longrightarrow> keeps i (sprintf s k)"
  by (simp add: sprintf_def)

lemma keeps_cache_url: "held i st \<Longrightarrow> keeps i (cache_url url buf st)"
  using cache_url_held[of i st url buf] by auto

lemma keeps_clienterror: "held i st \<Longrightarrow> keeps i (clienterror cause errnum shortmsg longmsg st)"
  unfolding clienterror_def by (intro keeps_sprintf) (simp only: keeps_simps held_emits)

lemma keeps_connect:
  "held i st \<Longrightarrow> keeps i (connect_to_server connect u new_uri host port rio original_url st)"
  unfolding connect_to_server_def Let_def
  by (auto intro!: keeps_sprintf keeps_cache_url simp only: keeps_simps held_emits held_emit
      split: option.splits prod.splits if_splits response.splits)

lemma keeps_serve:
  assumes "held i st"
  shows "keeps i (serve_uri connect u rio uri st)"
proof -
  have "set [0..<CACHE_OBJS_COUNT] \<subseteq> {..<CACHE_OBJS_COUNT}" by auto
  from find_loop_held[OF assms this, of uri] consider (miss) "cache_find uri st = Finished (- 1) st"
    | (hit) j where "j < CACHE_OBJS_COUNT" "hit uri (block j st)" "cache_find uri st = Finished (int j) (set_block j enter st)"
    unfolding cache_find_def by auto
  then show ?thesis
  proof cases
    case miss
    then show ?thesis
      unfolding serve_uri_def using assms
      by (auto intro!: keeps_andthen keeps_connect split: outcome.splits)
  next
    case hit
    let ?st = "set_block j enter st"
    have j: "j < length (cache_objs st)" "unlocked (block j st) \<or> reading (block j st)" using held_block[OF assms hit(1)] by auto
    have r: "reading (enter (block j st))" using hit(2) j(2) by (auto simp: hit_def reading_def unlocked_def enter_def)
    then have r': "reading (block j ?st)" using j(1) by (simp add: block_set_block)
    have "held i ?st"
      using assms hit(1) r by (intro held_set_block) auto
    then have h: "held i (emit e ?st)" for e by simp
    have "serve_uri connect u rio uri st =
        andthen (cache_update_stamp j (emit (To_client (cache_obj (block j (set_block j enter ?st)))) ?st)) (\<lambda>_ st. Finished 0 st)"
      unfolding serve_uri_def hit(3)
      using j(1) r' by (simp add: readerPre_enter readerAfter_enter_emit del: set_block_set_block)
    moreover obtain st' where
      "cache_update_stamp j (emit (To_client (cache_obj (block j (set_block j enter ?st)))) ?st) = Blocked st'" "held i st'"
      using cache_update_stamp_held[OF h hit(1)] by blast
    ultimately show ?thesis by (simp only: andthen.simps keeps_simps)
  qed
qed

lemma keeps_doit: "held i st \<Longrightarrow> keeps i (doit connect u fd st)"
  unfolding doit_def Let_def
  by (auto intro!: keeps_serve keeps_andthen keeps_clienterror split: prod.splits option.splits)

lemma later_held: "later st st' \<Longrightarrow> held i st \<Longrightarrow> held i st'"
  by (induction rule: later.induct) (use keeps_doit in \<open>auto simp: keeps_def\<close>)

end
