(* ===== verification/ProxySpec.thy ===== *)
theory ProxySpec
  imports ProxyLock RioSpec
begin

text \<open>
  What a request does: splitting the URI, the request line, the header lines, the response, and
  the two ways a request never ends.
\<close>

section \<open>URIs\<close>

lemma find_nth_skip: "c \<notin> set xs \<Longrightarrow> n < num \<Longrightarrow> find_nth (xs @ s) c num n = map_option (\<lambda>i. length xs + i) (find_nth s c num n)"
  by (induction xs; cases "find_nth s c num n") auto

lemma find_nth_hit: "find_nth (c # s) c num n = (if Suc n = num then Some 0 else map_option Suc (find_nth s c num (Suc n)))"
  by simp

lemma find_nth_none: "c \<notin> set xs \<Longrightarrow> n < num \<Longrightarrow> find_nth xs c num n = None"
  using find_nth_skip[of c xs n num "[]"] by simp

declare find_nth.simps(2) [simp del]

text \<open>The part before the authority, as \<open>find\<close> sees it.\<close>

lemma find_authority:
  assumes "CHR ''/'' \<notin> set auth" and "path = [] \<or> hd path = CHR ''/''"
  shows "find_num (''http://'' @ auth @ path) CHR ''/'' 3 = (if path = [] then None else Some (7 + length auth))"
    and "find_num (''http://'' @ auth) CHR ''/'' 2 = Some 6"
proof -
  let ?s = "CHR ''/''"
  define sch where "sch = ''http:''"
  have pre: "''http://'' @ xs = sch @ ?s # ?s # xs" for xs by (simp add: sch_def)
  have "?s \<notin> set sch" and len: "length sch = 5" by (simp_all add: sch_def)
  note skip = find_nth_skip[OF this(1)]
  show "find_num (''http://'' @ auth) ?s 2 = Some 6"
    unfolding find_num_def pre by (simp add: skip find_nth_hit len)
  have "find_nth (auth @ path) ?s 3 2 = (if path = [] then None else Some (length auth))"
  proof (cases path)
    case Nil
    with assms show ?thesis by (simp add: find_nth_none)
  next
    case (Cons c cs)
    with assms show ?thesis by (simp add: find_nth_skip find_nth_hit)
  qed
  then show "find_num (''http://'' @ auth @ path) ?s 3 = (if path = [] then None else Some (7 + length auth))"
    unfolding find_num_def pre by (simp add: skip find_nth_hit numeral_2_eq_2 len)
qed

text \<open>
  C33: \<open>parse_uri\<close> undoes the writing of a URI: from \<open>http://\<close>, a host, an optional \<open>:\<close> and
  port of at most 5 characters, and a path, it recovers the path, the host and the port, and
  says whether a port was given. A longer port is written past the end of the 6 allocated bytes.
\<close>

theorem parse_uri_splits:
  assumes "CHR ''/'' \<notin> set host" and "CHR '':'' \<notin> set host" and "CHR ''/'' \<notin> set port"
    and "path = [] \<or> hd path = CHR ''/''"
  shows "parse_uri (''http://'' @ host @ path) host0 port0 = Done (False, ''http:/'', path, host, port0) \<and>
    parse_uri (''http://'' @ host @ '':'' @ port @ path) host0 port0 =
      (if length port \<le> 5 then Done (True, ''http:/'', path, host, port) else Fault)"
proof
  have take: "take (7 + length auth) (''http://'' @ auth @ path) = ''http://'' @ auth"
      "drop (7 + length auth) (''http://'' @ auth @ path) = path"
      "drop (6 + 1) (''http://'' @ auth) = auth" "take 6 (''http://'' @ auth) = ''http:/''" for auth
    by (simp_all add: numeral_eq_Suc)
  have split: "(case find_num (''http://'' @ auth @ path) CHR ''/'' 3 of
        Some ptr \<Rightarrow> (drop ptr (''http://'' @ auth @ path), take ptr (''http://'' @ auth @ path))
      | None \<Rightarrow> ([], ''http://'' @ auth @ path)) = (path, ''http://'' @ auth)" if "CHR ''/'' \<notin> set auth" for auth
    using find_authority(1)[OF that assms(4)] take(1,2)[of auth] by (cases "path = []") simp_all
  have parse: "parse_uri (''http://'' @ auth @ path) host0 port0 =
      (case find_num auth CHR '':'' 1 of
         Some ptr \<Rightarrow> if 6 \<le> length (drop (ptr + 1) auth) then Fault
           else Done (True, ''http:/'', path, take ptr auth, drop (ptr + 1) auth)
       | None \<Rightarrow> Done (False, ''http:/'', path, auth, port0))" if "CHR ''/'' \<notin> set auth" for auth
    unfolding parse_uri_def split[OF that] Let_def prod.case find_authority(2)[OF that assms(4)] option.case take(3,4)
    by (rule refl)
  have "find_num host CHR '':'' 1 = None" unfolding find_num_def using assms(2) by (simp add: find_nth_none)
  then show "parse_uri (''http://'' @ host @ path) host0 port0 = Done (False, ''http:/'', path, host, port0)"
    using parse[OF assms(1)] by simp
  have "CHR ''/'' \<notin> set (host @ '':'' @ port)" using assms(1,3) by simp
  note p = parse[OF this]
  have "find_num (host @ '':'' @ port) CHR '':'' 1 = Some (length host)"
    unfolding find_num_def using assms(2) by (simp add: find_nth_skip find_nth_hit)
  with p show "parse_uri (''http://'' @ host @ '':'' @ port @ path) host0 port0 =
      (if length port \<le> 5 then Done (True, ''http:/'', path, host, port) else Fault)"
    by simp
qed

theorem parse_uri_splits_witness:
  "parse_uri ''http://www.cmu.edu:8080/hub/index.html'' [] [] = Done (True, ''http:/'', ''/hub/index.html'', ''www.cmu.edu'', ''8080'') \<and>
   parse_uri ''http://www.cmu.edu:808080'' [] [] = Fault"
  using parse_uri_splits[of "''www.cmu.edu''" "''8080''" "''/hub/index.html''" "[]" "[]"]
    parse_uri_splits[of "''www.cmu.edu''" "''808080''" "[]" "[]" "[]"] by simp


section \<open>Reading lines\<close>

lemma c_string_cut: "c_string (l @ NUL # s) = c_string l"
  by (induction l) (auto simp: c_string_def)

lemma c_string_id: "NUL \<notin> set l \<Longrightarrow> c_string l = l"
  by (induction l) (auto simp: c_string_def)

lemma c_string_line: "NUL \<notin> set l \<Longrightarrow> c_string (l @ NUL # s) = l"
  by (simp add: c_string_cut c_string_id)

lemma c_string_length: "length (c_string l) \<le> length l"
  by (simp add: c_string_def length_takeWhile_le)

lemma c_string_store [simp]: "NUL \<notin> set s \<Longrightarrow> c_string (store_string s a) = s"
  by (simp add: store_string_def c_string_line)

lemma length_store_string: "length s < length a \<Longrightarrow> length (store_string s a) = length a"
  by (simp add: store_string_def)

lemma first_line_append: "LF \<notin> set l \<Longrightarrow> length l < m \<Longrightarrow> first_line m (l @ LF # s) = l @ [LF]"
proof (induction l arbitrary: m)
  case Nil
  then show ?case by (cases m) auto
next
  case (Cons c l)
  then show ?case by (cases m) auto
qed

text \<open>A line that fits into a buffer.\<close>

definition line :: "string \<Rightarrow> bool" where
  "line l \<longleftrightarrow> l \<noteq> [] \<and> last l = LF \<and> LF \<notin> set (butlast l) \<and> NUL \<notin> set l \<and> length l < MAXLINE"

lemma NUL_LF [simp]: "NUL \<noteq> LF"
  by code_simp

lemma line_snoc: "LF \<notin> set l \<Longrightarrow> NUL \<notin> set l \<Longrightarrow> length l + 1 < MAXLINE \<Longrightarrow> line (l @ [LF])"
  by (auto simp: line_def)

lemma line_CRLF: "line CRLF"
  by (simp add: line_def CRLF_def MAXLINE_def) (simp add: NUL_def CR_def LF_def)

lemma read_line:
  assumes "rio_ok rp" and "length buf = MAXLINE" and "line l" and "unread rp = l @ rest"
  obtains rp' buf' where "rio_readlineb rp buf MAXLINE = (int (length l), buf', rp')" and "rio_ok rp'"
    and "unread rp' = rest" and "length buf' = MAXLINE" and "c_string buf' = l"
proof -
  obtain rc buf' rp' where r: "rio_readlineb rp buf MAXLINE = (rc, buf', rp')" by (cases "rio_readlineb rp buf MAXLINE")
  obtain k where l: "l = k @ [LF]" "LF \<notin> set k" using assms(3) by (metis line_def append_butlast_last_id)
  have n: "length l < MAXLINE" "NUL \<notin> set l" "l \<noteq> []" using assms(3) by (auto simp: line_def)
  have f: "first_line (MAXLINE - 1) (unread rp) = l" using first_line_append[OF l(2), of "MAXLINE - 1" rest] assms(4) n l(1) by simp
  from rio_readlineb_line[OF assms(1) _ _ r] assms(2,4) f n(3)
  have "rc = int (length l)" "unread rp = l @ unread rp'" "rio_ok rp'" "buf' = l @ NUL # drop (Suc (length l)) buf"
    by (simp_all add: Let_def MAXLINE_def)
  with r assms(2,4) n show thesis by (intro that[of buf' rp']) (auto simp: c_string_line)
qed

lemma read_end:
  assumes "rio_ok rp" and "length buf = MAXLINE" and "unread rp = []"
  obtains rp' where "rio_readlineb rp buf MAXLINE = (0, buf, rp')" and "rio_ok rp'" and "unread rp' = []"
proof -
  obtain rc buf' rp' where r: "rio_readlineb rp buf MAXLINE = (rc, buf', rp')" by (cases "rio_readlineb rp buf MAXLINE")
  have "2 \<le> MAXLINE" by (simp add: MAXLINE_def)
  from rio_readlineb_line[OF assms(1) this _ r] assms(2,3)
  have "rc = 0" "buf' = buf" "rio_ok rp'" "unread rp' = []" by (simp_all add: Let_def)
  with r show thesis by (intro that[of rp']) simp_all
qed

section \<open>Header lines\<close>

lemma header_loop_spec:
  assumes "rio_ok rp" and "length buf = MAXLINE" and "\<forall>l\<in>set (c_string buf # hs). line l \<and> l \<noteq> CRLF"
    and "unread rp = concat hs @ CRLF @ rest"
  shows "\<exists>rp' buf'. header_loop rp buf sent = Some (Some (rp', buf', sent @ filter forwarded (c_string buf # hs))) \<and>
    rio_ok rp' \<and> unread rp' = rest \<and> length buf' = MAXLINE"
  using assms
proof (induction hs arbitrary: rp buf sent)
  case Nil
  then have u: "unread rp = CRLF @ rest" by simp
  show ?case
  proof (rule read_line[OF Nil.prems(1,2) line_CRLF u])
    fix rp' buf' assume "rio_readlineb rp buf MAXLINE = (int (length CRLF), buf', rp')" "rio_ok rp'" "unread rp' = rest"
      "length buf' = MAXLINE" "c_string buf' = CRLF"
    moreover have "header_loop rp' buf' x = Some (Some (rp', buf', x))" for x
      using \<open>c_string buf' = CRLF\<close> by (subst header_loop.simps) simp
    ultimately show ?thesis using Nil.prems(3)
      by (subst header_loop.simps) simp
  qed
next
  case (Cons h hs)
  then have u: "unread rp = h @ concat hs @ CRLF @ rest" and h: "line h" by auto
  show ?case
  proof (rule read_line[OF Cons.prems(1,2) h u])
    fix rp' buf' assume r: "rio_readlineb rp buf MAXLINE = (int (length h), buf', rp')" "rio_ok rp'"
      "unread rp' = concat hs @ CRLF @ rest" "length buf' = MAXLINE" "c_string buf' = h"
    let ?sent = "if forwarded (c_string buf) then sent @ [c_string buf] else sent"
    have "\<exists>rp'' buf''. header_loop rp' buf' ?sent = Some (Some (rp'', buf'', ?sent @ filter forwarded (c_string buf' # hs))) \<and>
        rio_ok rp'' \<and> unread rp'' = rest \<and> length buf'' = MAXLINE"
      using r Cons.prems(3) by (intro Cons.IH) auto
    moreover have "header_loop rp buf sent = header_loop rp' buf' ?sent"
      using Cons.prems(3) r(1) by (subst header_loop.simps) simp
    ultimately show ?thesis using r(5) by auto
  qed
qed

text \<open>At the end of the input the loop reads the same line again for ever.\<close>

lemma header_loop_end:
  assumes "rio_ok rp" and "length buf = MAXLINE" and "unread rp = []" and "c_string buf \<noteq> CRLF"
  shows "header_loop rp buf sent = None"
proof (rule ccontr)
  assume "header_loop rp buf sent \<noteq> None"
  then obtain r where "header_loop rp buf sent = Some r" by auto
  then have "\<not> (rio_ok rp \<and> length buf = MAXLINE \<and> unread rp = [] \<and> c_string buf \<noteq> CRLF)"
  proof (rule header_loop.raw_induct[rotated])
    fix loop :: "rio_t \<Rightarrow> string \<Rightarrow> string list \<Rightarrow> (rio_t \<times> string \<times> string list) option option"
      and rp buf sent r
    assume IH: "\<And>rp buf sent r. loop rp buf sent = Some r \<Longrightarrow>
        \<not> (rio_ok rp \<and> length buf = MAXLINE \<and> unread rp = [] \<and> c_string buf \<noteq> CRLF)"
      and body: "(if c_string buf = CRLF then Some (Some (rp, buf, sent))
        else case rio_readlineb rp buf MAXLINE of (rc, buf', rp') \<Rightarrow>
          if rc < 0 then Some None
          else loop rp' buf' (if forwarded (c_string buf) then sent @ [c_string buf] else sent)) = Some r"
    show "\<not> (rio_ok rp \<and> length buf = MAXLINE \<and> unread rp = [] \<and> c_string buf \<noteq> CRLF)"
    proof
      assume a: "rio_ok rp \<and> length buf = MAXLINE \<and> unread rp = [] \<and> c_string buf \<noteq> CRLF"
      then have "rio_ok rp" "length buf = MAXLINE" "unread rp = []" by simp_all
      then show False
      proof (rule read_end)
        fix rp' assume "rio_readlineb rp buf MAXLINE = (0, buf, rp')" "rio_ok rp'" "unread rp' = []"
        with body a IH show False by auto
      qed
    qed
  qed
  with assms show False by simp
qed

section \<open>Responses\<close>

text \<open>The pieces a response is passed on in: lines, and parts of a line that is longer than the buffer.\<close>

function reply_lines :: "string \<Rightarrow> string list" where
  "reply_lines s = (if s = [] then [] else let l = first_line (MAXLINE - 1) s in l # reply_lines (drop (length l) s))"
  by pat_completeness auto

termination
  by (relation "measure length") (auto simp: MAXLINE_def)

declare reply_lines.simps [simp del]

lemma reply_lines_Nil [simp]: "reply_lines [] = []"
  by (simp add: reply_lines.simps)

lemma reply_lines_concat: "concat (reply_lines s) = s"
proof (induction s rule: reply_lines.induct)
  case (1 s)
  show ?case
  proof (cases "s = []")
    case False
    have "concat (reply_lines s) = first_line (MAXLINE - 1) s @ drop (length (first_line (MAXLINE - 1) s)) s"
      using 1[OF False refl] False by (simp add: reply_lines.simps[of s] Let_def)
    also have "\<dots> = s" by (metis append_take_drop_id first_line_take)
    finally show ?thesis .
  qed simp
qed

text \<open>What \<open>strcat\<close> collects of the pieces: each up to its first NUL, so all of them where there is none.\<close>

definition collected :: "string \<Rightarrow> string" where
  "collected s = concat (map c_string (reply_lines s))"

lemma collected_text: "NUL \<notin> set s \<Longrightarrow> collected s = s"
proof -
  assume n: "NUL \<notin> set s"
  have "NUL \<notin> set (concat (reply_lines s))" unfolding reply_lines_concat by (rule n)
  then have "map c_string (reply_lines s) = reply_lines s" by (intro map_idI c_string_id) auto
  then show ?thesis by (simp add: collected_def reply_lines_concat)
qed

lemma collected_length: "length (collected s) \<le> length s"
proof -
  have "length (concat (map c_string ls)) \<le> length (concat ls)" for ls
    by (induction ls) (auto intro: add_mono c_string_length)
  from this[of "reply_lines s"] show ?thesis by (simp add: collected_def reply_lines_concat)
qed

text \<open>
  The loop ends and passes every byte on. A response below the size of the array is appended
  to what the array held; the larger ones are collected in part.
\<close>

lemma response_loop_spec:
  assumes "rio_ok rp" and "length buf = MAXLINE" and "0 \<le> sz" and "sz + int (length (unread rp)) < 2 ^ 31"
    and "length cache_buf + length (unread rp) < MAX_OBJECT_SIZE \<or> int (length cache_buf) \<le> sz"
  shows "\<exists>cb. response_loop rp buf sz cache_buf sent =
      Some (Response (sz + int (length (unread rp))) cb (sent @ reply_lines (unread rp))) \<and>
    (sz + int (length (unread rp)) < int MAX_OBJECT_SIZE \<longrightarrow> cb = cache_buf @ collected (unread rp))"
  using assms
proof (induction "length (unread rp)" arbitrary: rp buf sz cache_buf sent rule: less_induct)
  case less
  show ?case
  proof (cases "unread rp = []")
    case True
    show ?thesis
    proof (rule read_end[OF less.prems(1,2) True])
      fix rp' assume "rio_readlineb rp buf MAXLINE = (0, buf, rp')"
      with True show ?thesis by (subst response_loop.simps) (simp add: collected_def)
    qed
  next
    case False
    obtain n buf' rp' where r: "rio_readlineb rp buf MAXLINE = (n, buf', rp')" by (cases "rio_readlineb rp buf MAXLINE")
    define l where "l = first_line (MAXLINE - 1) (unread rp)"
    from rio_readlineb_line[OF less.prems(1) _ _ r] less.prems(2) False
    have n: "n = int (length l)" "unread rp = l @ unread rp'" "rio_ok rp'" "buf' = l @ NUL # drop (Suc (length l)) buf"
      by (simp_all add: Let_def MAXLINE_def l_def)
    have l: "l \<noteq> []" "length l < MAXLINE"
      using False first_line_length[of "MAXLINE - 1" "unread rp"] by (auto simp: l_def MAXLINE_def)
    have c: "c_string buf' = c_string l" by (simp add: n(4) c_string_cut)
    have t: "take (nat n) buf' = l" by (simp add: n(1,4))
    have len: "length (unread rp) = length l + length (unread rp')" by (subst n(2)) simp
    have lines: "reply_lines (unread rp) = l # reply_lines (unread rp')"
    proof -
      have "drop (length l) (unread rp) = unread rp'" by (subst n(2)) simp
      with False show ?thesis by (simp add: reply_lines.simps[of "unread rp"] l_def Let_def)
    qed
    have pos: "0 < n" "0 \<le> sz + n" "sz + n + int (length (unread rp')) < 2 ^ 31"
      using less.prems(3,4) len n(1) l by simp_all
    have small: "length (c_string l) \<le> length l" by (rule c_string_length)
    define cb where "cb = (if sz + n < int MAX_OBJECT_SIZE then cache_buf @ c_string l else cache_buf)"
    have room: "length cb + length (unread rp') < MAX_OBJECT_SIZE \<or> int (length cb) \<le> sz + n"
      using less.prems(5) len small n(1) by (auto simp: cb_def)
    have fits: "\<not> MAX_OBJECT_SIZE \<le> length cache_buf + length (c_string l)" if "sz + n < int MAX_OBJECT_SIZE"
      using less.prems(5) that len small n(1) by auto
    have step: "response_loop rp buf sz cache_buf sent = response_loop rp' buf' (sz + n) cb (sent @ [l])"
      using r c t pos fits by (subst response_loop.simps) (simp add: Let_def cb_def)
    have "length (unread rp') < length (unread rp)" "length buf' = MAXLINE"
      using len l n(4) less.prems(2) by simp_all
    from less.hyps[OF this(1) n(3) this(2) pos(2,3) room, of "sent @ [l]"] obtain cb' where
      cb': "response_loop rp' buf' (sz + n) cb (sent @ [l]) =
        Some (Response (sz + n + int (length (unread rp'))) cb' ((sent @ [l]) @ reply_lines (unread rp')))"
      "sz + n + int (length (unread rp')) < int MAX_OBJECT_SIZE \<longrightarrow> cb' = cb @ collected (unread rp')" by blast
    have "cb' = cache_buf @ collected (unread rp)" if "sz + int (length (unread rp)) < int MAX_OBJECT_SIZE"
      using cb'(2) that len n(1) by (simp add: cb_def collected_def lines)
    with cb'(1) show ?thesis unfolding step by (intro exI[of _ cb']) (simp add: len n(1) lines)
  qed
qed


section \<open>A request\<close>

definition get_line :: "string \<Rightarrow> string" where
  "get_line uri = ''GET '' @ uri @ '' HTTP/1.0'' @ CRLF"

definition good_uri :: "string \<Rightarrow> bool" where
  "good_uri uri \<longleftrightarrow> uri \<noteq> [] \<and> (\<forall>c\<in>set uri. \<not> is_space c \<and> c \<noteq> NUL) \<and> length uri \<le> 8000"

lemma LF_space: "is_space LF"
  by (simp add: is_space_def LF_def)

lemma get_line_line: "good_uri uri \<Longrightarrow> line (get_line uri)"
proof -
  assume g: "good_uri uri"
  have g1: "get_line uri = (''GET '' @ uri @ '' HTTP/1.0'' @ [CR]) @ [LF]" by (simp add: get_line_def CRLF_def)
  have "LF \<notin> set uri" "NUL \<notin> set uri" using g LF_space by (auto simp: good_uri_def)
  moreover have "LF \<notin> set (''GET '' @ '' HTTP/1.0'' @ [CR])" "NUL \<notin> set (''GET '' @ '' HTTP/1.0'' @ [CR, LF])" by code_simp+
  ultimately show ?thesis unfolding g1 using g by (intro line_snoc) (auto simp: good_uri_def MAXLINE_def)
qed

lemma takeWhile_not_space:
  assumes "\<forall>c\<in>set w. \<not> is_space c" and "is_space d"
  shows "takeWhile (\<lambda>c. \<not> is_space c) (w @ d # s) = w" and "dropWhile (\<lambda>c. \<not> is_space c) (w @ d # s) = d # s"
  using assms by (induction w) auto

lemma scan_word_next:
  assumes "w \<noteq> []" and "\<forall>c\<in>set w. \<not> is_space c" and "is_space d"
  shows "scan_word (w @ d # s) = Some (w, d # s)" and "scan_word (CHR '' '' # w @ d # s) = Some (w, d # s)"
proof -
  obtain c cs where w: "w = c # cs" using assms(1) by (cases w) auto
  have "skip_space (w @ d # s) = w @ d # s" using assms(2) by (simp add: w)
  moreover have "skip_space (CHR '' '' # w @ d # s) = skip_space (w @ d # s)" by (simp add: is_space_def)
  ultimately show "scan_word (w @ d # s) = Some (w, d # s)" "scan_word (CHR '' '' # w @ d # s) = Some (w, d # s)"
    unfolding scan_word_def using takeWhile_not_space[OF assms(2,3), of s] by (simp_all add: w)
qed

lemma scan_get_line:
  assumes "good_uri uri"
  obtains rest rest' where "scan_word (get_line uri) = Some (''GET'', rest)" and "scan_word rest = Some (uri, rest')"
proof -
  have sp: "is_space (CHR '' '')" by (simp add: is_space_def)
  have "get_line uri = ''GET'' @ CHR '' '' # uri @ CHR '' '' # ''HTTP/1.0'' @ CRLF" by (simp add: get_line_def)
  moreover have "\<forall>c\<in>set ''GET''. \<not> is_space c" by code_simp
  ultimately have "scan_word (get_line uri) = Some (''GET'', CHR '' '' # uri @ CHR '' '' # ''HTTP/1.0'' @ CRLF)"
    using scan_word_next(1)[OF _ _ sp, of "''GET''"] by (simp only:) simp
  moreover have "scan_word (CHR '' '' # uri @ CHR '' '' # ''HTTP/1.0'' @ CRLF) = Some (uri, CHR '' '' # ''HTTP/1.0'' @ CRLF)"
    using assms by (intro scan_word_next(2) sp) (auto simp: good_uri_def)
  ultimately show thesis by (rule that)
qed

text \<open>The first line is read and understood.\<close>

lemma doit_get:
  assumes "clean fd" and "length (u_buf u) = MAXLINE" and "good_uri uri" and "fd_bytes fd = get_line uri @ rest"
  obtains rio where "rio_ok rio" and "unread rio = rest"
    and "doit connect u fd st = serve_uri connect u rio uri st"
proof -
  have i: "rio_ok (rio_readinitb (u_rio u) fd)" "unread (rio_readinitb (u_rio u) fd) = get_line uri @ rest"
    using rio_readinitb_ok[OF assms(1)] assms(4) by auto
  from i(1) assms(2) get_line_line[OF assms(3)] i(2) show thesis
  proof (rule read_line)
    fix rio buf assume r: "rio_readlineb (rio_readinitb (u_rio u) fd) (u_buf u) MAXLINE = (int (length (get_line uri)), buf, rio)"
      "rio_ok rio" "unread rio = rest" "c_string buf = get_line uri"
    have len: "get_line uri \<noteq> []" by (simp add: get_line_def)
    have get: "strcasecmp_eq ''GET'' ''GET''" by (simp add: strcasecmp_eq_def)
    from scan_get_line[OF assms(3)] obtain w w' where w: "scan_word (get_line uri) = Some (''GET'', w)" "scan_word w = Some (uri, w')"
      by blast
    show thesis
      using r(2,3)
    proof (rule that)
      show "doit connect u fd st = serve_uri connect u rio uri st"
        unfolding doit_def r(1,4) prod.case w option.case Let_def using len get by simp
    qed
  qed
qed


lemma cache_ok_cong: "cache_objs st' = cache_objs st \<Longrightarrow> cache_ok st' = cache_ok st \<and> lru st' = lru st"
  by (simp add: cache_ok_def quiet_def lru_def stored_def)

lemma miss:
  assumes "quiet st" and "\<forall>b\<in>set (cache_objs st). \<not> hit uri b"
  shows "cache_find uri st = Finished (- 1) st"
proof -
  have "List.find (\<lambda>i. hit uri (block i st)) [0..<CACHE_OBJS_COUNT] = None"
    using assms by (auto simp: find_None_iff block_def quiet_def)
  then show ?thesis by (simp add: cache_find_quiet[OF assms(1)])
qed

section \<open>A hit\<close>

lemma reader_twice:
  assumes "i < length (cache_objs st)" and "unlocked (block i st)"
  shows "readerPre i (set_block i entered st) = Finished () (set_block i (\<lambda>b. b\<lparr>readcnt := 2, wmutex := 0\<rparr>) st)"
    and "readerAfter i (emit e (set_block i (\<lambda>b. b\<lparr>readcnt := 2, wmutex := 0\<rparr>) st)) = Finished () (emit e (set_block i entered st))"
proof -
  show "readerPre i (set_block i entered st) = Finished () (set_block i (\<lambda>b. b\<lparr>readcnt := 2, wmutex := 0\<rparr>) st)"
    using assms by (auto simp: readerPre_def P_rdcntmutex_def V_rdcntmutex_def Let_def block_set_block
        unlocked_def entered_def intro!: set_block_cong)
  have e: "set_block i f (emit e st) = emit e (set_block i f st)" for f st by (simp add: set_block_def emit_def block_def)
  show "readerAfter i (emit e (set_block i (\<lambda>b. b\<lparr>readcnt := 2, wmutex := 0\<rparr>) st)) = Finished () (emit e (set_block i entered st))"
    using assms by (auto simp: readerAfter_def P_rdcntmutex_def V_rdcntmutex_def V_wmutex_def Let_def block_set_block
        unlocked_def entered_def e intro!: set_block_cong arg_cong[where f = "emit e"])
qed

text \<open>
  C13: On a cache at rest the first request for a stored URL (of at most 8000 characters) never ends: it sends the stored response, but
  \<open>cache_find\<close> has left the loop without \<open>readerAfter\<close>, so the thread waits in
  \<open>cache_update_stamp\<close> for the lock it holds itself as a reader. The lock is never released: in every
  state that any further requests lead to, run one after the other and each to its end or to where it waits or
  loops for ever, the block is still locked by a reader, every
  \<open>cache_update_stamp\<close>, with which every hit ends, waits as well, and no \<open>cache_url\<close>, which a response that fits is
  handed to, ever returns.
\<close>

theorem cache_hit_blocks:
  assumes "quiet st" and "b \<in> set (cache_objs st)" and "hit uri b"
    and "clean fd" and "fd_bytes fd = get_line uri @ rest" and "good_uri uri" and "length (u_buf u) = MAXLINE"
  shows "\<exists>i<CACHE_OBJS_COUNT. \<exists>st'. hit uri (block i st) \<and> doit connect u fd st = Blocked st' \<and>
    net st' = net st @ [To_client (cache_obj (block i st))] \<and>
    (\<forall>st''. later st' st'' \<longrightarrow> wmutex (block i st'') = 0 \<and>
      (\<forall>index<CACHE_OBJS_COUNT. \<exists>s. cache_update_stamp index st'' = Blocked s) \<and>
      (\<forall>url buf s. cache_url url buf st'' \<noteq> Finished () s))"
proof -
  have len: "length (cache_objs st) = CACHE_OBJS_COUNT" using assms(1) by (simp add: quiet_def)
  have "List.find (\<lambda>i. hit uri (block i st)) [0..<CACHE_OBJS_COUNT] \<noteq> None"
    using assms(2,3) len by (auto simp: find_None_iff block_def in_set_conv_nth)
  then obtain i where f: "List.find (\<lambda>i. hit uri (block i st)) [0..<CACHE_OBJS_COUNT] = Some i" by auto
  then have i: "i < CACHE_OBJS_COUNT" "hit uri (block i st)" by (auto simp: find_Some_iff)
  have b: "i < length (cache_objs st)" "unlocked (block i st)" using quiet_block[OF assms(1) i(1)] by auto
  let ?e = "To_client (cache_obj (block i st))"
  let ?st = "emit ?e (set_block i entered st)"
  have read: "reading (entered (block i st))" using b(2) i(2) by (simp add: reading_def entered_def hit_def unlocked_def)
  have "unlocked b' \<or> reading b'" if "b' \<in> set (cache_objs (set_block i entered st))" for b'
    using that assms(1) read set_update_subset_insert[of "cache_objs st" i "entered (block i st)"]
    by (auto simp: quiet_def set_block_def)
  then have held: "held i ?st" using len i(1) b(1) read by (simp add: held_def block_set_block)
  then have w: "wmutex (block i ?st) = 0" by (simp add: held_def reading_def)
  have obj: "cache_obj (block i (set_block i (\<lambda>b. b\<lparr>readcnt := 2, wmutex := 0\<rparr>) st)) = cache_obj (block i st)"
    using b(1) by (simp add: block_set_block)
  have ever: "wmutex (block i st'') = 0 \<and> (\<forall>index<CACHE_OBJS_COUNT. \<exists>s. cache_update_stamp index st'' = Blocked s) \<and>
      (\<forall>url buf s. cache_url url buf st'' \<noteq> Finished () s)" if "later ?st st''" for st''
  proof -
    have h: "held i st''" using later_held[OF that held] .
    have "cache_url url buf st'' \<noteq> Finished () s" for url buf s
      using cache_url_held[OF h, of url buf] by auto
    moreover have "\<exists>s. cache_update_stamp index st'' = Blocked s" if "index < CACHE_OBJS_COUNT" for index
      using cache_update_stamp_held[OF h that] by blast
    moreover have "wmutex (block i st'') = 0" using h by (simp add: held_def reading_def)
    ultimately show ?thesis by blast
  qed
  show ?thesis
  proof (rule doit_get[OF assms(4,7,6,5), where connect = connect and st = st])
    fix rio
    assume d: "doit connect u fd st = serve_uri connect u rio uri st"
    have "cache_update_stamp i ?st = Blocked ?st"
      using w by (simp add: cache_update_stamp_def writerPre_def P_wmutex_def)
    then have "doit connect u fd st = Blocked ?st"
      unfolding d serve_uri_def cache_find_quiet[OF assms(1)] f using reader_twice[OF b] obj by simp
    moreover have "net ?st = net st @ [?e]" by simp
    ultimately show ?thesis using i ever by blast
  qed
qed


section \<open>A miss\<close>

lemma header_loop_truncated:
  assumes "rio_ok rp" and "length buf = MAXLINE" and "\<forall>l\<in>set (c_string buf # hs). line l \<and> l \<noteq> CRLF"
    and "unread rp = concat hs"
  shows "header_loop rp buf sent = None"
  using assms
proof (induction hs arbitrary: rp buf sent)
  case Nil
  then show ?case by (intro header_loop_end) simp_all
next
  case (Cons h hs)
  then have u: "unread rp = h @ concat hs" and h: "line h" by auto
  show ?case
  proof (rule read_line[OF Cons.prems(1,2) h u])
    fix rp' buf' assume r: "rio_readlineb rp buf MAXLINE = (int (length h), buf', rp')" "rio_ok rp'"
      "unread rp' = concat hs" "length buf' = MAXLINE" "c_string buf' = h"
    have "header_loop rp' buf' x = None" for x using r Cons.prems(3) by (intro Cons.IH) auto
    then show ?thesis using Cons.prems(3) r(1) by (subst header_loop.simps) simp
  qed
qed

definition fixed_headers :: "string \<Rightarrow> string \<Rightarrow> string list" where
  "fixed_headers new_uri host = [''GET '' @ new_uri @ '' HTTP/1.0'' @ CRLF, ''Host: '' @ host @ CRLF, user_agent_hdr,
     ''Connection: close'' @ CRLF, ''Proxy-Connection: close'' @ CRLF]"

definition headers_buf :: "string \<Rightarrow> string \<Rightarrow> string \<Rightarrow> string" where
  "headers_buf new_uri host a = fold store_string (fixed_headers new_uri host) a"

lemma headers_buf:
  assumes "length a = MAXLINE" and "length new_uri \<le> 8000" and "length host \<le> 8000"
  shows "length (headers_buf new_uri host a) = MAXLINE" and "c_string (headers_buf new_uri host a) = ''Proxy-Connection: close'' @ CRLF"
proof -
  have l: "length (store_string x y) = MAXLINE" if "length x < MAXLINE" "length y = MAXLINE" for x y
    using that by (simp add: length_store_string)
  have c: "length CRLF = 2" "length user_agent_hdr < MAXLINE" by (simp_all add: CRLF_def user_agent_hdr_def MAXLINE_def)
  show "length (headers_buf new_uri host a) = MAXLINE"
    unfolding headers_buf_def fixed_headers_def using assms c by (auto simp: MAXLINE_def intro!: l[unfolded MAXLINE_def])
  have "NUL \<notin> set (''Proxy-Connection: close'' @ CRLF)" by code_simp
  then show "c_string (headers_buf new_uri host a) = ''Proxy-Connection: close'' @ CRLF"
    unfolding headers_buf_def fixed_headers_def by (simp only: fold.simps comp_apply id_apply) (rule c_string_store)
qed

text \<open>The code after a connection was made.\<close>

definition relay :: "locals \<Rightarrow> rio_t \<Rightarrow> string \<Rightarrow> descriptor \<Rightarrow> string \<Rightarrow> proxy \<Rightarrow> unit ending" where
  "relay u rio_client buf_client clientfd original_url st =
     (case header_loop rio_client buf_client [] of
        None \<Rightarrow> Forever st
      | Some None \<Rightarrow> Exited
      | Some (Some (rio_client, buf_client, sent)) \<Rightarrow>
          let st = fold (\<lambda>b. emit (To_server b)) (sent @ [CRLF]) st;
              rio_server = rio_readinitb (u_rio_server u) clientfd
          in case response_loop rio_server buf_client 0 (u_cache_buf u) [] of
               None \<Rightarrow> Forever st
             | Some Read_error \<Rightarrow> Exited
             | Some Bad_write \<Rightarrow> Crashed
             | Some (Response sz cache_buf sent) \<Rightarrow>
                 let st = fold (\<lambda>b. emit (To_client b)) sent st in
                   if sz < int MAX_OBJECT_SIZE then cache_url original_url cache_buf st
                   else Finished () st)"

lemma connect_to_server_relay:
  assumes "connect host port = Some clientfd" and "length new_uri \<le> 8000" and "length host \<le> 8000"
    and "rio_readlineb rio_client (headers_buf new_uri host (u_buf_client u)) MAXLINE = (rc, buf, rio)" and "0 \<le> rc"
  shows "connect_to_server connect u new_uri host port rio_client url st =
    relay u rio buf clientfd url (fold (\<lambda>b. emit (To_server b)) (fixed_headers new_uri host) (emit (Open host port) st))"
proof -
  have c: "length CRLF = 2" by (simp add: CRLF_def)
  have lens: "\<not> MAXLINE \<le> length (''GET '' @ new_uri @ '' HTTP/1.0'' @ CRLF)" "\<not> MAXLINE \<le> length (''Host: '' @ host @ CRLF)"
    using assms(2,3) by (simp_all add: MAXLINE_def c)
  have buf: "store_string (''Proxy-Connection: close'' @ CRLF) (store_string (''Connection: close'' @ CRLF)
      (store_string user_agent_hdr (store_string (''Host: '' @ host @ CRLF)
        (store_string (''GET '' @ new_uri @ '' HTTP/1.0'' @ CRLF) (u_buf_client u))))) = headers_buf new_uri host (u_buf_client u)"
    by (simp only: headers_buf_def fixed_headers_def fold.simps comp_apply id_apply)
  have "\<not> rc < 0" using assms(5) by simp
  with lens show ?thesis
    unfolding connect_to_server_def assms(1) option.case sprintf_def Let_def buf assms(4) prod.case relay_def fixed_headers_def
    by (simp only: if_False)
qed

text \<open>
  A request whose header is not ended by an empty line is never answered: when the client
  closes its side after any number of header lines, the loop that forwards them reads the last
  line again for ever, because it never looks at what \<open>Rio_readlineb\<close> returns.
\<close>

theorem truncated_request_hangs:
  assumes "cache_ok st" and "\<forall>b\<in>set (cache_objs st). \<not> hit uri b"
    and "clean fd" and "fd_bytes fd = get_line uri @ concat hs" and "\<forall>h\<in>set hs. line h \<and> h \<noteq> CRLF"
    and "good_uri uri" and "length (u_buf u) = MAXLINE" and "length (u_buf_client u) = MAXLINE"
    and "parse_uri uri (u_host u) (u_port u) = Done (found, uri', new_uri, host, port)"
    and "length new_uri \<le> 8000" and "length host \<le> 8000"
    and "connect host (if found then port else ''80'') = Some clientfd"
  shows "\<exists>st'. doit connect u fd st = Forever st'"
proof (rule doit_get[OF assms(3,7,6,4), where connect = connect and st = st])
  fix rio assume rio: "rio_ok rio" "unread rio = concat hs" and d: "doit connect u fd st = serve_uri connect u rio uri st"
  let ?buf = "headers_buf new_uri host (u_buf_client u)"
  note buf = headers_buf[OF assms(8,10,11)]
  have pc: "line (''Proxy-Connection: close'' @ CRLF) \<and> ''Proxy-Connection: close'' @ CRLF \<noteq> CRLF"
    unfolding CRLF_def by (simp add: line_def MAXLINE_def) code_simp
  have "quiet st" using assms(1) by (simp add: cache_ok_def)
  then have serve: "serve_uri connect u rio uri st =
      andthen (connect_to_server connect u new_uri host (if found then port else ''80'') rio uri st) (\<lambda>_ st. Finished 0 st)"
    using assms(2) by (simp add: serve_uri_def miss assms(9))
  have "\<exists>rc buf rp. rio_readlineb rio ?buf MAXLINE = (rc, buf, rp) \<and> 0 \<le> rc \<and> header_loop rp buf [] = None"
  proof (cases hs)
    case Nil
    then have "unread rio = []" using rio(2) by simp
    from rio(1) buf(1) this show ?thesis
    proof (rule read_end)
      fix rp assume r: "rio_readlineb rio ?buf MAXLINE = (0, ?buf, rp)" "rio_ok rp" "unread rp = []"
      then have "header_loop rp ?buf [] = None" using buf pc by (intro header_loop_end) auto
      with r show ?thesis by auto
    qed
  next
    case (Cons h hs')
    then have u: "unread rio = h @ concat hs'" "line h" using rio(2) assms(5) by auto
    from rio(1) buf(1) u(2,1) show ?thesis
    proof (rule read_line)
      fix rp b assume r: "rio_readlineb rio ?buf MAXLINE = (int (length h), b, rp)" "rio_ok rp"
        "unread rp = concat hs'" "length b = MAXLINE" "c_string b = h"
      then have "header_loop rp b [] = None" using assms(5) Cons by (intro header_loop_truncated[of _ _ hs']) auto
      with r(1) show ?thesis by auto
    qed
  qed
  then obtain rc b rp where r: "rio_readlineb rio ?buf MAXLINE = (rc, b, rp)" "0 \<le> rc" "header_loop rp b [] = None" by blast
  show ?thesis
    unfolding d serve connect_to_server_relay[where connect = connect and host = host, OF assms(12,10,11) r(1,2)] relay_def r(3) by simp
qed


text \<open>The client's header lines up to the empty one are read and filtered.\<close>

lemma headers_forwarded:
  assumes "rio_ok rio" and "unread rio = concat hs @ CRLF @ rest" and "\<forall>h\<in>set hs. line h \<and> h \<noteq> CRLF" and "length buf0 = MAXLINE"
  obtains rc buf rp rp' buf' where "rio_readlineb rio buf0 MAXLINE = (rc, buf, rp)" and "0 \<le> rc"
    and "header_loop rp buf [] = Some (Some (rp', buf', filter forwarded hs))" and "length buf' = MAXLINE"
proof (cases hs)
  case Nil
  then have u: "unread rio = CRLF @ rest" using assms(2) by simp
  from assms(1,4) line_CRLF u show thesis
  proof (rule read_line)
    fix rp b assume r: "rio_readlineb rio buf0 MAXLINE = (int (length CRLF), b, rp)" "rio_ok rp"
      "length b = MAXLINE" "c_string b = CRLF"
    then have "header_loop rp b [] = Some (Some (rp, b, []))" by (subst header_loop.simps) simp
    with r Nil show thesis by (intro that) auto
  qed
next
  case (Cons h hs')
  then have u: "unread rio = h @ concat hs' @ CRLF @ rest" "line h" using assms(2,3) by auto
  from assms(1,4) u(2,1) show thesis
  proof (rule read_line)
    fix rp b assume r: "rio_readlineb rio buf0 MAXLINE = (int (length h), b, rp)" "rio_ok rp"
      "unread rp = concat hs' @ CRLF @ rest" "length b = MAXLINE" "c_string b = h"
    have "\<exists>rp' buf'. header_loop rp b [] = Some (Some (rp', buf', [] @ filter forwarded (c_string b # hs'))) \<and>
        rio_ok rp' \<and> unread rp' = rest \<and> length buf' = MAXLINE"
      using assms(3) Cons r by (intro header_loop_spec) auto
    then obtain rp' buf' where "header_loop rp b [] = Some (Some (rp', buf', filter forwarded hs))" "length buf' = MAXLINE"
      using r(5) Cons by auto
    with r(1) show thesis by (intro that[of "int (length h)" b rp rp' buf']) simp_all
  qed
qed

text \<open>After the headers: the response is passed on and stored if it is not too large.\<close>

lemma relay_stores:
  assumes "header_loop rp b [] = Some (Some (rp', b', sent))" and "length b' = MAXLINE" and "cache_ok st" and "length url < MAXLINE"
    and "clean clientfd" and "fd_bytes clientfd = response" and "length response < 2 ^ 31"
    and "length (u_cache_buf u) + length response < MAX_OBJECT_SIZE \<or> u_cache_buf u = []"
  shows "\<exists>st'. relay u rp b clientfd url st = Finished () st' \<and> cache_ok st' \<and>
    net st' = net st @ map To_server (sent @ [CRLF]) @ map To_client (reply_lines response) \<and>
    lru st' = (if length response < MAX_OBJECT_SIZE
      then take CACHE_OBJS_COUNT ((url, u_cache_buf u @ collected response) # lru st) else lru st)"
proof -
  let ?server = "rio_readinitb (u_rio_server u) clientfd"
  have server: "rio_ok ?server" "unread ?server = response" using rio_readinitb_ok[OF assms(5)] assms(6) by auto
  with assms(7,8) obtain cb where p: "response_loop ?server b' 0 (u_cache_buf u) [] =
      Some (Response (int (length response)) cb (reply_lines response))"
      "length response < MAX_OBJECT_SIZE \<longrightarrow> cb = u_cache_buf u @ collected response"
    using response_loop_spec[OF server(1) assms(2), of 0 "u_cache_buf u" "[]"] by auto
  let ?st = "fold (\<lambda>b. emit (To_client b)) (reply_lines response) (fold (\<lambda>b. emit (To_server b)) (sent @ [CRLF]) st)"
  have objs: "cache_objs ?st = cache_objs st" by (simp only: emits_simps)
  have ok: "cache_ok ?st" and lru: "lru ?st = lru st" using cache_ok_cong[OF objs] assms(3) by auto
  have net: "net ?st = net st @ map To_server (sent @ [CRLF]) @ map To_client (reply_lines response)"
    by (simp only: emits_simps append_assoc)
  note relay = relay_def assms(1) option.case prod.case Let_def p(1) response.case
  show ?thesis
  proof (cases "length response < MAX_OBJECT_SIZE")
    case True
    then have cb: "cb = u_cache_buf u @ collected response" using p(2) by simp
    then have "length cb < MAX_OBJECT_SIZE" using assms(8) True collected_length[of response] by auto
    from cache_url_stores[OF ok assms(4) this] obtain st' where st': "cache_url url cb ?st = Finished () st'"
      "cache_ok st'" "lru st' = take CACHE_OBJS_COUNT ((url, cb) # lru st)" "net st' = net ?st"
      unfolding lru by blast
    have "int (length response) < int MAX_OBJECT_SIZE" using True by simp
    then have "relay u rp b clientfd url st = Finished () st'" unfolding relay using st'(1) by (simp only: if_True)
    with st'(2-4) True cb net show ?thesis by (intro exI[of _ st']) simp
  next
    case False
    then have "\<not> int (length response) < int MAX_OBJECT_SIZE" by simp
    then have "relay u rp b clientfd url st = Finished () ?st" unfolding relay by (simp only: if_False)
    with ok lru net False show ?thesis by (intro exI[of _ ?st]) simp
  qed
qed

text \<open>
  C12: A complete request for a URL that is not stored, on a cache at rest: the header lines fit into their
  buffer and have no NUL, the URI has at most 8000 characters and is one that \<open>parse_uri\<close> splits, and
  the server can be reached. The proxy connects to the host, sends the
  request line for the path, its own headers, the client's other header lines in order and an
  empty line, and passes every byte of the response on to the client, piece by piece. A response
  of fewer than \<open>MAX_OBJECT_SIZE\<close> bytes goes to the front of the cache, appended to whatever the
  array it was collected in held before, since that is never initialised; each piece is collected up to its first NUL, so
  a response without NUL bytes is stored whole. A larger response is not stored. The response is below
  \<open>2 ^ 31\<close> bytes, and what the array held before leaves room for it or is the empty string; otherwise \<open>strcat\<close> can leave the array.
\<close>

theorem doit_relays:
  assumes "cache_ok st" and "\<forall>b\<in>set (cache_objs st). \<not> hit uri b"
    and "clean fd" and "fd_bytes fd = get_line uri @ concat hs @ CRLF @ rest" and "\<forall>h\<in>set hs. line h \<and> h \<noteq> CRLF"
    and "good_uri uri" and "length (u_buf u) = MAXLINE" and "length (u_buf_client u) = MAXLINE"
    and "parse_uri uri (u_host u) (u_port u) = Done (found, uri', new_uri, host, port)"
    and "length new_uri \<le> 8000" and "length host \<le> 8000"
    and "connect host (if found then port else ''80'') = Some clientfd"
    and "clean clientfd" and "fd_bytes clientfd = response" and "length response < 2 ^ 31"
    and "length (u_cache_buf u) + length response < MAX_OBJECT_SIZE \<or> u_cache_buf u = []"
  shows "\<exists>st'. doit connect u fd st = Finished 0 st' \<and>
    net st' = net st @ Open host (if found then port else ''80'') #
      map To_server (fixed_headers new_uri host @ filter forwarded hs @ [CRLF]) @ map To_client (reply_lines response) \<and>
    concat (reply_lines response) = response \<and> cache_ok st' \<and>
    lru st' = (if length response < MAX_OBJECT_SIZE
      then take CACHE_OBJS_COUNT ((uri, u_cache_buf u @ collected response) # lru st) else lru st) \<and>
    (NUL \<notin> set response \<longrightarrow> collected response = response)"
proof (rule doit_get[OF assms(3,7,6,4), where connect = connect and st = st])
  fix rio assume rio: "rio_ok rio" "unread rio = concat hs @ CRLF @ rest" and d: "doit connect u fd st = serve_uri connect u rio uri st"
  let ?port = "if found then port else ''80''"
  let ?st1 = "fold (\<lambda>b. emit (To_server b)) (fixed_headers new_uri host) (emit (Open host ?port) st)"
  have "quiet st" using assms(1) by (simp add: cache_ok_def)
  then have serve: "serve_uri connect u rio uri st =
      andthen (connect_to_server connect u new_uri host ?port rio uri st) (\<lambda>_ st. Finished 0 st)"
    using assms(2) by (simp add: serve_uri_def miss assms(9))
  from rio assms(5) headers_buf(1)[OF assms(8,10,11)] obtain rc b rp rp' b' where
    r: "rio_readlineb rio (headers_buf new_uri host (u_buf_client u)) MAXLINE = (rc, b, rp)" "0 \<le> rc"
    "header_loop rp b [] = Some (Some (rp', b', filter forwarded hs))" "length b' = MAXLINE"
    by (rule headers_forwarded)
  have objs: "cache_objs ?st1 = cache_objs st" by (simp only: emits_simps emit_simps)
  have ok: "cache_ok ?st1" and lru: "lru ?st1 = lru st" using cache_ok_cong[OF objs] assms(1) by auto
  have net: "net ?st1 = net st @ Open host ?port # map To_server (fixed_headers new_uri host)"
    by (simp only: emits_simps emit_simps append_assoc append_Cons append_Nil)
  have url: "length uri < MAXLINE" using assms(6) by (simp add: good_uri_def MAXLINE_def)
  from relay_stores[OF r(3,4) ok url assms(13-16)] obtain st' where st': "relay u rp b clientfd uri ?st1 = Finished () st'"
    "cache_ok st'" "net st' = net ?st1 @ map To_server (filter forwarded hs @ [CRLF]) @ map To_client (reply_lines response)"
    "lru st' = (if length response < MAX_OBJECT_SIZE
      then take CACHE_OBJS_COUNT ((uri, u_cache_buf u @ collected response) # lru st) else lru st)"
    unfolding lru by blast
  have "doit connect u fd st = Finished 0 st'"
    unfolding d serve connect_to_server_relay[where connect = connect and host = host, OF assms(12,10,11) r(1,2)]
    using st'(1) by simp
  moreover have "net st' = net st @ Open host ?port #
      map To_server (fixed_headers new_uri host @ filter forwarded hs @ [CRLF]) @ map To_client (reply_lines response)"
    unfolding st'(3) net by simp
  ultimately show ?thesis using st'(2,4) reply_lines_concat[of response] collected_text[of response] by blast
qed


section \<open>Sample requests\<close>

definition blank_rio :: rio_t where
  "blank_rio = \<lparr>rio_fd = [], rio_cnt = 3, rio_bufptr = 9, rio_buf = replicate RIO_BUFSIZE CHR ''r''\<rparr>"

definition sample_locals :: locals where
  "sample_locals = \<lparr>u_buf = replicate MAXLINE CHR ''x'', u_method = [], u_uri = [], u_host = [], u_port = [], u_rio = blank_rio,
     u_buf_client = replicate MAXLINE CHR ''y'', u_rio_server = blank_rio, u_cache_buf = ''?''\<rparr>"

definition sample_uri :: string where
  "sample_uri = ''http://h:80/p''"

definition sample_server :: descriptor where
  "sample_server = [Got ''HTTP'', Interrupted, Got ''!'']"

definition sample_connect :: "string \<Rightarrow> string \<Rightarrow> descriptor option" where
  "sample_connect host port = (if host = ''h'' \<and> port = ''80'' then Some sample_server else None)"

definition accept_hdr :: string where
  "accept_hdr = ''Accept: x'' @ CRLF"

definition host_hdr :: string where
  "host_hdr = ''Host: q'' @ CRLF"

definition sample_response :: string where
  "sample_response = ''HTTP!''"

lemma sample_facts:
  "good_uri sample_uri" "line accept_hdr" "accept_hdr \<noteq> CRLF" "forwarded accept_hdr" "\<not> forwarded host_hdr"
  "line host_hdr" "host_hdr \<noteq> CRLF"
  "parse_uri sample_uri [] [] = Done (True, ''http:/'', ''/p'', ''h'', ''80'')"
  "sample_connect ''h'' (if True then ''80'' else ''80'') = Some sample_server"
  "clean sample_server" "fd_bytes sample_server = sample_response"
  "NUL \<notin> set sample_response" "length sample_response < 100"
  by code_simp+

lemma sample_locals_simps [simp]:
  "u_buf sample_locals = replicate MAXLINE CHR ''x''" "u_host sample_locals = []" "u_port sample_locals = []"
  "u_buf_client sample_locals = replicate MAXLINE CHR ''y''" "u_cache_buf sample_locals = ''?''"
  by (simp_all add: sample_locals_def)

lemma sample_start:
  "cache_ok (cache_init blank_proxy)" "lru (cache_init blank_proxy) = []"
  "\<forall>b\<in>set (cache_objs (cache_init blank_proxy)). \<not> hit uri b"
proof -
  have "length (cache_objs blank_proxy) = CACHE_OBJS_COUNT" by (simp add: blank_proxy_def)
  from cache_init_ok[OF this] show i: "cache_ok (cache_init blank_proxy)" "lru (cache_init blank_proxy) = []" by auto
  from i(2) have "stored (cache_init blank_proxy) = []" by (simp add: lru_def) (metis length_0_conv length_sort)
  then show "\<forall>b\<in>set (cache_objs (cache_init blank_proxy)). \<not> hit uri b"
    by (auto simp: stored_def hit_def filter_empty_conv)
qed

lemma sample_locals_sizes:
  "length (u_buf sample_locals) = MAXLINE" "length (u_buf_client sample_locals) = MAXLINE"
  "parse_uri sample_uri (u_host sample_locals) (u_port sample_locals) = Done (True, ''http:/'', ''/p'', ''h'', ''80'')"
  "length ''/p'' \<le> 8000" "length ''h'' \<le> 8000"
  "length (u_cache_buf sample_locals) + length (fd_bytes sample_server) < MAX_OBJECT_SIZE"
  using sample_facts(8,11,13) by (simp_all add: MAX_OBJECT_SIZE_def)

definition sample_fd :: descriptor where
  "sample_fd = [Got (get_line sample_uri @ accept_hdr), Interrupted, Got (host_hdr @ CRLF)]"

lemma sample_fd:
  "clean sample_fd" "fd_bytes sample_fd = get_line sample_uri @ concat [accept_hdr, host_hdr] @ CRLF @ []"
  "\<forall>h\<in>set [accept_hdr, host_hdr]. line h \<and> h \<noteq> CRLF"
  using sample_facts(2,3,6,7) by (simp_all add: sample_fd_def get_line_def host_hdr_def)

theorem doit_relays_witness:
  "\<exists>st'. doit sample_connect sample_locals sample_fd (cache_init blank_proxy) = Finished 0 st' \<and>
     net st' = net (cache_init blank_proxy) @ Open ''h'' ''80'' #
       map To_server (fixed_headers ''/p'' ''h'' @ [accept_hdr, CRLF]) @ map To_client (reply_lines sample_response) \<and>
     lru st' = [(sample_uri, ''?'' @ sample_response)]"
proof -
  have small: "length sample_response < 2 ^ 31" "length sample_response < MAX_OBJECT_SIZE"
    using sample_facts(13) by (simp_all add: MAX_OBJECT_SIZE_def)
  have room: "length (u_cache_buf sample_locals) + length sample_response < MAX_OBJECT_SIZE \<or> u_cache_buf sample_locals = []"
    using sample_locals_sizes(6) sample_facts(11) by simp
  from doit_relays[where connect = sample_connect and host = "''h''" and port = "''80''" and found = True, 
      OF sample_start(1,3) sample_fd sample_facts(1) sample_locals_sizes(1-5) sample_facts(9,10,11) small(1) room]
  obtain st' where "doit sample_connect sample_locals sample_fd (cache_init blank_proxy) = Finished 0 st'"
    "net st' = net (cache_init blank_proxy) @ Open ''h'' (if True then ''80'' else ''80'') #
      map To_server (fixed_headers ''/p'' ''h'' @ filter forwarded [accept_hdr, host_hdr] @ [CRLF]) @
      map To_client (reply_lines sample_response)"
    "lru st' = (if length sample_response < MAX_OBJECT_SIZE
      then take CACHE_OBJS_COUNT ((sample_uri, u_cache_buf sample_locals @ collected sample_response) # lru (cache_init blank_proxy))
      else lru (cache_init blank_proxy))"
    "NUL \<notin> set sample_response \<longrightarrow> collected sample_response = sample_response"
    by blast
  moreover have "filter forwarded [accept_hdr, host_hdr] = [accept_hdr]" using sample_facts(4,5) by simp
  ultimately show ?thesis using small sample_facts(12)
    by (intro exI[of _ st']) (simp add: sample_start(2) CACHE_OBJS_COUNT_def)
qed

definition truncated_fd :: descriptor where
  "truncated_fd = [Got (get_line sample_uri), Got accept_hdr]"

lemma truncated_fd:
  "clean truncated_fd" "fd_bytes truncated_fd = get_line sample_uri @ concat [accept_hdr]"
  "\<forall>h\<in>set [accept_hdr]. line h \<and> h \<noteq> CRLF"
  using sample_facts(2,3) by (simp_all add: truncated_fd_def get_line_def accept_hdr_def)

theorem truncated_request_hangs_witness:
  "\<exists>st'. doit sample_connect sample_locals truncated_fd (cache_init blank_proxy) = Forever st'"
  by (rule truncated_request_hangs[where connect = sample_connect and host = "''h''" and port = "''80''" and found = True, 
      OF sample_start(1,3) truncated_fd sample_facts(1) sample_locals_sizes(1-5) sample_facts(9)])

theorem cache_hit_blocks_witness:
  "\<exists>st i st'. i < CACHE_OBJS_COUNT \<and> hit sample_uri (block i st) \<and>
     doit sample_connect sample_locals [Got (get_line sample_uri)] st = Blocked st' \<and>
     net st' = net st @ [To_client (cache_obj (block i st))] \<and> later st' st' \<and> wmutex (block i st') = 0 \<and>
     (\<exists>s. cache_update_stamp 3 st' = Blocked s) \<and> cache_url sample_uri ''HTTP!'' st' \<noteq> Finished () st'"
proof -
  have "length sample_uri < MAXLINE" "length ''HTTP!'' < MAX_OBJECT_SIZE"
    by (simp_all add: sample_uri_def MAXLINE_def MAX_OBJECT_SIZE_def)
  from cache_url_stores[OF sample_start(1) this] obtain st where st: "cache_ok st" "lru st = [(sample_uri, ''HTTP!'')]"
    by (auto simp: sample_start(2) CACHE_OBJS_COUNT_def)
  have "set (map entry (sort_key stamp (stored st))) = entry ` set (stored st)" by simp
  with st(2) have "(sample_uri, ''HTTP!'') \<in> entry ` set (stored st)" unfolding lru_def by (metis list.set_intros(1))
  then obtain b where b: "b \<in> set (stored st)" "(sample_uri, ''HTTP!'') = entry b" by (rule imageE)
  have "b \<in> set (cache_objs st)" "hit sample_uri b"
    using b unfolding stored_def hit_def entry_def by (simp_all del: char.inject)
  note b = this
  have fd: "clean [Got (get_line sample_uri)]" "fd_bytes [Got (get_line sample_uri)] = get_line sample_uri @ []"
    by (simp_all add: get_line_def)
  have "quiet st" using st(1) by (simp add: cache_ok_def)
  from cache_hit_blocks[where connect = sample_connect, OF this b fd sample_facts(1) sample_locals_sizes(1)]
  obtain i st' where r: "i < CACHE_OBJS_COUNT" "hit sample_uri (block i st)"
    "doit sample_connect sample_locals [Got (get_line sample_uri)] st = Blocked st'"
    "net st' = net st @ [To_client (cache_obj (block i st))]"
    "\<forall>st''. later st' st'' \<longrightarrow> wmutex (block i st'') = 0 \<and>
      (\<forall>index<CACHE_OBJS_COUNT. \<exists>s. cache_update_stamp index st'' = Blocked s) \<and>
      (\<forall>url buf s. cache_url url buf st'' \<noteq> Finished () s)" by blast
  have "3 < CACHE_OBJS_COUNT" by (simp add: CACHE_OBJS_COUNT_def)
  with r(5) later_refl[of st'] have "wmutex (block i st') = 0" "\<exists>s. cache_update_stamp 3 st' = Blocked s"
    "cache_url sample_uri ''HTTP!'' st' \<noteq> Finished () st'" by blast+
  with r(1-4) later_refl[of st'] show ?thesis by blast
qed

end
