(* ===== verification/Tiny.thy ===== *)
theory Tiny
  imports ProxySpec
begin

text \<open>
  The Tiny web server, \<open>labs/proxylab-handout/tiny/tiny.c\<close>: one request as \<open>doit\<close> runs it over the
  buffered reader and \<open>rio_writen\<close> of \<open>Rio\<close>, and the loop of \<open>main\<close> that serves one client after
  the other. The file system (what \<open>stat\<close>, \<open>open\<close> and the bytes of a file are) and what a CGI
  program writes are arguments. The names end in \<open>_tiny\<close> where the proxy has a function of the
  same name.
\<close>

section \<open>Files, connections, endings\<close>

text \<open>What \<open>stat\<close> tells of a file, whether \<open>open\<close> succeeds, and its bytes.\<close>

record web_file =
  is_regular :: bool
  user_read :: bool
  user_exec :: bool
  can_open :: bool
  contents :: string

text \<open>The output side of a connection: what \<open>write\<close> will do, and the bytes sent.\<close>

record conn =
  out :: "write_result list"
  sent :: string

text \<open>
  How a piece of the server ends: it returns, the process exits (a wrapper met an error), it
  writes or reads outside an array, or it never returns.
\<close>

datatype tiny = Served conn | Exits conn | Smashed | Hangs conn

fun tiny_then :: "tiny \<Rightarrow> (conn \<Rightarrow> tiny) \<Rightarrow> tiny" where
  "tiny_then (Served c) f = f c"
| "tiny_then (Exits c) f = Exits c"
| "tiny_then Smashed f = Smashed"
| "tiny_then (Hangs c) f = Hangs c"

text \<open>\<open>Rio_writen\<close> of the wrappers, and a \<open>sprintf\<close> into \<open>buf\<close> followed by \<open>Rio_writen(fd, buf, strlen(buf))\<close>.\<close>

definition Rio_writen :: "string \<Rightarrow> conn \<Rightarrow> tiny" where
  "Rio_writen bs c =
     (case rio_writen False (out c) bs of (rc, bytes, rest) \<Rightarrow>
        let c = c\<lparr>out := rest, sent := sent c @ bytes\<rparr> in if rc = int (length bs) then Served c else Exits c)"

definition say :: "string \<Rightarrow> conn \<Rightarrow> tiny" where
  "say s c = (if MAXLINE \<le> length s then Smashed else Rio_writen s c)"

fun say_all :: "string list \<Rightarrow> conn \<Rightarrow> tiny" where
  "say_all [] c = Served c"
| "say_all (s # ss) c = tiny_then (say s c) (say_all ss)"

section \<open>The functions of the server\<close>

definition clienterror_tiny :: "string \<Rightarrow> string \<Rightarrow> string \<Rightarrow> string \<Rightarrow> conn \<Rightarrow> tiny" where
  "clienterror_tiny cause errnum shortmsg longmsg =
     say_all [''HTTP/1.0 '' @ errnum @ '' '' @ shortmsg @ CRLF,
       ''Content-type: text/html'' @ CRLF @ CRLF,
       ''<html><title>Tiny Error</title>'',
       ''<body bgcolor=ffffff>'' @ CRLF,
       errnum @ '': '' @ shortmsg @ CRLF,
       ''<p>'' @ longmsg @ '': '' @ cause @ CRLF,
       ''<hr><em>The Tiny Web server</em>'' @ CRLF]"

definition get_filetype :: "string \<Rightarrow> string" where
  "get_filetype filename =
     (if strstr filename ''.html'' \<noteq> None then ''text/html''
      else if strstr filename ''.gif'' \<noteq> None then ''image/gif''
      else if strstr filename ''.png'' \<noteq> None then ''image/png''
      else if strstr filename ''.jpg'' \<noteq> None then ''image/jpeg''
      else ''text/plain'')"

text \<open>
  \<open>parse_uri\<close>: the value returned, \<open>filename\<close> and \<open>cgiargs\<close>. The last character of an empty
  \<open>uri\<close> is outside the array; \<open>filename\<close> has \<open>MAXLINE\<close> bytes.
\<close>

definition parse_uri_tiny :: "string \<Rightarrow> (bool \<times> string \<times> string) outcome" where
  "parse_uri_tiny uri =
     (if strstr uri ''cgi-bin'' = None then
        (if uri = [] then Fault
         else let filename = ''.'' @ uri;
                  filename = (if uri ! (length uri - 1) = CHR ''/'' then filename @ ''home.html'' else filename)
              in if MAXLINE \<le> length filename then Fault else Done (True, filename, []))
      else
        let (cgiargs, uri) = (case strchr uri CHR ''?'' of Some ptr \<Rightarrow> (drop (ptr + 1) uri, take ptr uri) | None \<Rightarrow> ([], uri));
            filename = ''.'' @ uri
        in if MAXLINE \<le> length filename then Fault else Done (False, filename, cgiargs))"

text \<open>
  \<open>serve_static\<close>. \<open>filesize\<close> is the \<open>int\<close> made of the size of the file; \<open>mmap\<close> refuses a length of
  zero and one that does not fit into memory, and the wrappers \<open>Open\<close> and \<open>Mmap\<close> exit on failure.
\<close>

definition serve_static :: "web_file \<Rightarrow> string \<Rightarrow> int \<Rightarrow> conn \<Rightarrow> tiny" where
  "serve_static f filename filesize c =
     tiny_then (say_all [''HTTP/1.0 200 OK'' @ CRLF, ''Server: Tiny Web Server'' @ CRLF,
         ''Content-length: '' @ int_to_dec filesize @ CRLF, ''Content-type: '' @ get_filetype filename @ CRLF @ CRLF] c)
       (\<lambda>c. if \<not> can_open f \<or> filesize \<le> 0 then Exits c else Rio_writen (take (nat filesize) (contents f)) c)"

text \<open>\<open>serve_dynamic\<close>; \<open>cgi\<close> gives what the child process writes to the connection before it ends.\<close>

definition serve_dynamic :: "(string \<Rightarrow> string \<Rightarrow> string) \<Rightarrow> string \<Rightarrow> string \<Rightarrow> conn \<Rightarrow> tiny" where
  "serve_dynamic cgi filename cgiargs c =
     tiny_then (say_all [''HTTP/1.0 200 OK'' @ CRLF, ''Server: Tiny Web Server'' @ CRLF] c)
       (\<lambda>c. Served (c\<lparr>sent := sent c @ cgi filename cgiargs\<rparr>))"

text \<open>
  \<open>read_requesthdrs\<close>: \<open>None\<close> when it does not end, \<open>Some None\<close> after a read error. The value of
  \<open>Rio_readlineb\<close> is not looked at; \<open>buf\<close> is the array before it is written.
\<close>

partial_function (option) requesthdrs_loop :: "rio_t \<Rightarrow> string \<Rightarrow> rio_t option option" where
  "requesthdrs_loop rp buf =
     (if c_string buf = CRLF then Some (Some rp)
      else case rio_readlineb rp buf MAXLINE of (rc, buf', rp') \<Rightarrow>
        if rc < 0 then Some None else requesthdrs_loop rp' buf')"

definition read_requesthdrs :: "rio_t \<Rightarrow> string \<Rightarrow> rio_t option option" where
  "read_requesthdrs rp buf =
     (case rio_readlineb rp buf MAXLINE of (rc, buf', rp') \<Rightarrow>
        if rc < 0 then Some None else requesthdrs_loop rp' buf')"

text \<open>The part of \<open>doit\<close> after the headers, and the whole of it.\<close>

record tiny_locals =
  t_buf :: string
  t_method :: string
  t_uri :: string
  t_rio :: rio_t
  t_hdrs :: string

definition c_int :: "nat \<Rightarrow> int" where
  "c_int n = sint (of_nat n :: int32)"

definition answer_tiny :: "(string \<Rightarrow> web_file option) \<Rightarrow> (string \<Rightarrow> string \<Rightarrow> string) \<Rightarrow> string \<Rightarrow> conn \<Rightarrow> tiny" where
  "answer_tiny fs cgi uri c =
     (case parse_uri_tiny uri of
        Fault \<Rightarrow> Smashed
      | Done (is_static, filename, cgiargs) \<Rightarrow>
          (case fs filename of
             None \<Rightarrow> clienterror_tiny filename ''404'' ''Not found'' ''Tiny couldn't find this file'' c
           | Some f \<Rightarrow>
               if is_static then
                 (if \<not> is_regular f \<or> \<not> user_read f
                  then clienterror_tiny filename ''403'' ''Forbidden'' ''Tiny couldn't read the file'' c
                  else serve_static f filename (c_int (length (contents f))) c)
               else
                 (if \<not> is_regular f \<or> \<not> user_exec f
                  then clienterror_tiny filename ''403'' ''Forbidden'' ''Tiny couldn't run the CGI program'' c
                  else serve_dynamic cgi filename cgiargs c)))"

definition doit_tiny ::
    "(string \<Rightarrow> web_file option) \<Rightarrow> (string \<Rightarrow> string \<Rightarrow> string) \<Rightarrow> tiny_locals \<Rightarrow> descriptor \<Rightarrow> conn \<Rightarrow> tiny" where
  "doit_tiny fs cgi u fd c =
     (case rio_readlineb (rio_readinitb (t_rio u) fd) (t_buf u) MAXLINE of (rc, buf, rio) \<Rightarrow>
        if rc < 0 then Exits c
        else if rc = 0 then Served c
        else
          let (method, uri) = (case scan_word (c_string buf) of
                None \<Rightarrow> (t_method u, t_uri u)
              | Some (w1, rest) \<Rightarrow> (case scan_word rest of None \<Rightarrow> (w1, t_uri u) | Some (w2, _) \<Rightarrow> (w1, w2)))
          in if \<not> strcasecmp_eq method ''GET'' then
               clienterror_tiny method ''501'' ''Not Implemented'' ''Tiny does not implement this method'' c
             else
               (case read_requesthdrs rio (t_hdrs u) of
                  None \<Rightarrow> Hangs c
                | Some None \<Rightarrow> Exits c
                | Some (Some rio) \<Rightarrow> answer_tiny fs cgi uri c))"

text \<open>The loop of \<open>main\<close> over the clients that connect, up to the first one after which it does not go on.\<close>

fun main_tiny ::
    "(string \<Rightarrow> web_file option) \<Rightarrow> (string \<Rightarrow> string \<Rightarrow> string) \<Rightarrow> (tiny_locals \<times> descriptor \<times> conn) list \<Rightarrow> tiny list" where
  "main_tiny fs cgi [] = []"
| "main_tiny fs cgi ((u, fd, c) # clients) =
     (case doit_tiny fs cgi u fd c of
        Served c' \<Rightarrow> Served c' # main_tiny fs cgi clients
      | r \<Rightarrow> [r])"

end
