(* ===== verification/TinySpec.thy ===== *)
theory TinySpec
  imports Tiny "HOL-Library.Sublist"
begin

text \<open>
  What the Tiny web server answers: the file or program a URI names, the complete reply to a
  request, and the requests after which the server is gone.
\<close>

section \<open>What a URI names\<close>

definition cgi_bin :: string where "cgi_bin = ''cgi-bin''"

definition tiny_target :: "string \<Rightarrow> bool \<times> string \<times> string" where
  "tiny_target uri =
     (if sublist cgi_bin uri
      then (False, ''.'' @ takeWhile (\<lambda>c. c \<noteq> CHR ''?'') uri, drop 1 (dropWhile (\<lambda>c. c \<noteq> CHR ''?'') uri))
      else (True, ''.'' @ uri @ (if last uri = CHR ''/'' then ''home.html'' else []), []))"

lemma strchr_split:
  "(case strchr s c of Some i \<Rightarrow> (drop (i + 1) s, take i s) | None \<Rightarrow> ([], s)) =
    (drop 1 (dropWhile (\<lambda>x. x \<noteq> c) s), takeWhile (\<lambda>x. x \<noteq> c) s)"
proof (induction s)
  case (Cons x xs)
  then show ?case by (cases "strchr xs c") (auto split: option.splits)
qed simp

lemma strstr_sublist: "strstr s p = None \<longleftrightarrow> \<not> sublist p s"
  using strstr_iff[of s p] by (auto simp: sublist_def)

lemma parse_uri_tiny_target:
  assumes "uri \<noteq> []" and "length uri \<le> 8000"
  shows "parse_uri_tiny uri = Done (tiny_target uri)" and "length (fst (snd (tiny_target uri))) \<le> 8010"
proof -
  have len: "length (takeWhile (\<lambda>c. c \<noteq> CHR ''?'') uri) \<le> length uri" by (rule length_takeWhile_le)
  show "parse_uri_tiny uri = Done (tiny_target uri)"
    using assms len
    by (auto simp: parse_uri_tiny_def tiny_target_def strchr_split strstr_sublist cgi_bin_def MAXLINE_def last_conv_nth Let_def)
  show "length (fst (snd (tiny_target uri))) \<le> 8010"
    using assms len by (auto simp: tiny_target_def)
qed

section \<open>Output\<close>

text \<open>
  \<open>delivers r c bs\<close>: the code that ended with \<open>r\<close> sent \<open>bs\<close>, or exited after a part of it because
  \<open>write\<close> failed or, when \<open>stop\<close>, for another reason.
\<close>

fun delivers :: "bool \<Rightarrow> tiny \<Rightarrow> conn \<Rightarrow> string \<Rightarrow> bool" where
  "delivers stop (Served c') c bs \<longleftrightarrow> sent c' = sent c @ bs \<and> (out c = [] \<longrightarrow> out c' = [] \<and> \<not> stop)"
| "delivers stop (Exits c') c bs \<longleftrightarrow> (\<exists>k. sent c' = sent c @ take k bs) \<and> (stop \<or> out c \<noteq> [])"
| "delivers stop _ c bs \<longleftrightarrow> False"

lemma tiny_writen_all: "rio_writen False [] bs = (int (length bs), bs, [])"
  by (cases "bs = []") (simp_all add: rio_writen_def writen_loop.simps)

lemma delivers_Rio_writen: "delivers False (Rio_writen bs c) c bs"
proof -
  obtain rc bytes rest where r: "rio_writen False (out c) bs = (rc, bytes, rest)" by (cases "rio_writen False (out c) bs")
  have "rc = int (length bs) \<and> bytes = bs \<or> rc = - 1 \<and> (\<exists>k<length bs. bytes = take k bs)"
    using writen_loop_spec[OF r[unfolded rio_writen_def]] by auto
  moreover have "rc = int (length bs) \<and> rest = []" if "out c = []"
    using r tiny_writen_all[of bs] unfolding that by (metis prod.inject)
  ultimately show ?thesis by (auto simp: Rio_writen_def r)
qed

lemma delivers_then:
  assumes "delivers False r c as" and "\<And>c'. delivers stop (f c') c' bs"
  shows "delivers stop (tiny_then r f) c (as @ bs)"
proof (cases r)
  case (Served c')
  have s: "sent c' = sent c @ as" "out c = [] \<Longrightarrow> out c' = []" using assms(1) Served by auto
  have d: "delivers stop (f c') c' bs" by (rule assms(2))
  show ?thesis
  proof (cases "f c'")
    case (Exits c'')
    then obtain k where k: "sent c'' = sent c' @ take k bs" "stop \<or> out c' \<noteq> []" using d by auto
    have "\<exists>k. sent c'' = sent c @ take k (as @ bs)"
      by (rule exI[of _ "length as + k"]) (use k(1) s(1) in simp)
    then show ?thesis using Served Exits k(2) s(2) by auto
  qed (use Served s d in auto)
next
  case (Exits c')
  then obtain k where "sent c' = sent c @ take k as" "out c \<noteq> []" using assms(1) by auto
  moreover have "take k as = take (min k (length as)) (as @ bs)" by (simp add: min_def)
  ultimately have "\<exists>k. sent c' = sent c @ take k (as @ bs)" by (intro exI[of _ "min k (length as)"]) (simp only:)
  then show ?thesis using Exits \<open>out c \<noteq> []\<close> by simp
qed (use assms(1) in auto)

lemma delivers_say: "length s < MAXLINE \<Longrightarrow> delivers False (say s c) c s"
  by (simp add: say_def delivers_Rio_writen)

lemma delivers_say_all: "\<forall>s\<in>set ss. length s < MAXLINE \<Longrightarrow> delivers False (say_all ss c) c (concat ss)"
proof (induction ss arbitrary: c)
  case (Cons s ss)
  have "delivers False (tiny_then (say s c) (say_all ss)) c (s @ concat ss)"
    by (rule delivers_then[OF delivers_say]) (use Cons in auto)
  then show ?case by simp
qed simp

section \<open>Replies\<close>

lemma nat_to_dec_length: "n < 10 ^ k \<Longrightarrow> 0 < k \<Longrightarrow> length (nat_to_dec n) \<le> k"
proof (induction k arbitrary: n)
  case (Suc k)
  show ?case
  proof (cases "n < 10")
    case True
    then show ?thesis by (subst nat_to_dec.simps) simp
  next
    case False
    then have "0 < k" using Suc.prems by (cases k) auto
    moreover have "n div 10 < 10 ^ k" using Suc.prems by (simp add: div_less_iff_less_mult mult.commute)
    ultimately show ?thesis using Suc.IH[of "n div 10"] False by (subst nat_to_dec.simps) simp
  qed
qed simp

lemma int_to_dec_length: "n < 2 ^ 31 \<Longrightarrow> length (int_to_dec (int n)) \<le> 10"
  using nat_to_dec_length[of n 10] by (simp add: int_to_dec_def)

definition error_page :: "string \<Rightarrow> string \<Rightarrow> string \<Rightarrow> string \<Rightarrow> string" where
  "error_page cause errnum shortmsg longmsg =
     ''HTTP/1.0 '' @ errnum @ '' '' @ shortmsg @ CRLF @ ''Content-type: text/html'' @ CRLF @ CRLF @
     ''<html><title>Tiny Error</title>'' @ ''<body bgcolor=ffffff>'' @ CRLF @ errnum @ '': '' @ shortmsg @ CRLF @
     ''<p>'' @ longmsg @ '': '' @ cause @ CRLF @ ''<hr><em>The Tiny Web server</em>'' @ CRLF"

definition ok_page :: "string \<Rightarrow> string \<Rightarrow> string" where
  "ok_page filename bytes =
     ''HTTP/1.0 200 OK'' @ CRLF @ ''Server: Tiny Web Server'' @ CRLF @ ''Content-length: '' @ int_to_dec (int (length bytes)) @ CRLF @
     ''Content-type: '' @ get_filetype filename @ CRLF @ CRLF @ bytes"

definition tiny_reply :: "(string \<Rightarrow> web_file option) \<Rightarrow> (string \<Rightarrow> string \<Rightarrow> string) \<Rightarrow> string \<Rightarrow> string" where
  "tiny_reply fs cgi uri =
     (case tiny_target uri of (is_static, filename, cgiargs) \<Rightarrow>
        case fs filename of
          None \<Rightarrow> error_page filename ''404'' ''Not found'' ''Tiny couldn't find this file''
        | Some f \<Rightarrow>
            if is_static then
              (if is_regular f \<and> user_read f then ok_page filename (contents f)
               else error_page filename ''403'' ''Forbidden'' ''Tiny couldn't read the file'')
            else
              (if is_regular f \<and> user_exec f
               then ''HTTP/1.0 200 OK'' @ CRLF @ ''Server: Tiny Web Server'' @ CRLF @ cgi filename cgiargs
               else error_page filename ''403'' ''Forbidden'' ''Tiny couldn't run the CGI program''))"

text \<open>The files that end the server: they are served, but are empty or cannot be opened.\<close>

definition fatal :: "(string \<Rightarrow> web_file option) \<Rightarrow> string \<Rightarrow> bool" where
  "fatal fs uri \<longleftrightarrow>
     (case tiny_target uri of (is_static, filename, _) \<Rightarrow>
        is_static \<and> (case fs filename of None \<Rightarrow> False
          | Some f \<Rightarrow> is_regular f \<and> user_read f \<and> (contents f = [] \<or> \<not> can_open f)))"

lemma length_CRLF [simp]: "length CRLF = 2"
  by (simp add: CRLF_def)

lemma clienterror_delivers:
  assumes "length cause \<le> 8010" and "length errnum \<le> 10" and "length shortmsg \<le> 50" and "length longmsg \<le> 50"
  shows "delivers False (clienterror_tiny cause errnum shortmsg longmsg c) c (error_page cause errnum shortmsg longmsg)"
proof -
  let ?ss = "[''HTTP/1.0 '' @ errnum @ '' '' @ shortmsg @ CRLF, ''Content-type: text/html'' @ CRLF @ CRLF,
       ''<html><title>Tiny Error</title>'', ''<body bgcolor=ffffff>'' @ CRLF, errnum @ '': '' @ shortmsg @ CRLF,
       ''<p>'' @ longmsg @ '': '' @ cause @ CRLF, ''<hr><em>The Tiny Web server</em>'' @ CRLF]"
  have "\<forall>s\<in>set ?ss. length s < MAXLINE" using assms by (simp add: MAXLINE_def)
  from delivers_say_all[OF this, of c] show ?thesis unfolding clienterror_tiny_def error_page_def by simp
qed

lemma filetype_length: "length (get_filetype filename) \<le> 10"
  by (simp add: get_filetype_def)


lemma serve_static_delivers:
  assumes "length (contents f) < 2 ^ 31"
  shows "delivers (contents f = [] \<or> \<not> can_open f) (serve_static f filename (c_int (length (contents f))) c) c
    (ok_page filename (contents f))"
proof -
  let ?n = "c_int (length (contents f))"
  let ?ss = "[''HTTP/1.0 200 OK'' @ CRLF, ''Server: Tiny Web Server'' @ CRLF,
         ''Content-length: '' @ int_to_dec ?n @ CRLF, ''Content-type: '' @ get_filetype filename @ CRLF @ CRLF]"
  have n: "?n = int (length (contents f))" using sint_small(1)[OF assms] by (simp add: c_int_def)
  have "\<forall>s\<in>set ?ss. length s < MAXLINE"
    using filetype_length[of filename] int_to_dec_length[OF assms] n by (simp add: MAXLINE_def)
  from delivers_say_all[OF this, of c] have "delivers (contents f = [] \<or> \<not> can_open f)
      (serve_static f filename ?n c) c (concat ?ss @ contents f)"
    unfolding serve_static_def
  proof (rule delivers_then)
    fix c'
    show "delivers (contents f = [] \<or> \<not> can_open f) (if \<not> can_open f \<or> ?n \<le> 0 then Exits c' else Rio_writen (take (nat ?n) (contents f)) c') c' (contents f)"
      using delivers_Rio_writen[of "contents f" c'] by (auto simp: n intro!: exI[of _ 0])
  qed
  then show ?thesis by (simp add: ok_page_def n)
qed

lemma serve_dynamic_delivers:
  "delivers False (serve_dynamic cgi filename cgiargs c) c
    (''HTTP/1.0 200 OK'' @ CRLF @ ''Server: Tiny Web Server'' @ CRLF @ cgi filename cgiargs)"
proof -
  let ?ss = "[''HTTP/1.0 200 OK'' @ CRLF, ''Server: Tiny Web Server'' @ CRLF]"
  have "\<forall>s\<in>set ?ss. length s < MAXLINE" by (simp add: MAXLINE_def)
  from delivers_say_all[OF this, of c]
  have "delivers False (serve_dynamic cgi filename cgiargs c) c (concat ?ss @ cgi filename cgiargs)"
    unfolding serve_dynamic_def by (rule delivers_then) simp
  then show ?thesis by simp
qed

lemma answer_delivers:
  assumes "uri \<noteq> []" and "length uri \<le> 8000" and "\<forall>f name. fs name = Some f \<longrightarrow> length (contents f) < 2 ^ 31"
  shows "delivers (fatal fs uri) (answer_tiny fs cgi uri c) c (tiny_reply fs cgi uri)"
proof -
  obtain is_static filename cgiargs where t: "tiny_target uri = (is_static, filename, cgiargs)" by (cases "tiny_target uri")
  have p: "parse_uri_tiny uri = Done (is_static, filename, cgiargs)" "length filename \<le> 8010"
    using parse_uri_tiny_target[OF assms(1,2)] by (simp_all add: t)
  note err = clienterror_delivers[OF p(2)]
  show ?thesis
  proof (cases "fs filename")
    case None
    then show ?thesis using err by (simp add: answer_tiny_def p(1) tiny_reply_def fatal_def t)
  next
    case (Some f)
    then have len: "length (contents f) < 2 ^ 31" using assms(3) by blast
    note unfold = answer_tiny_def p(1) tiny_reply_def fatal_def t Some outcome.case prod.case option.case
    show ?thesis
    proof (cases is_static)
      case True
      have "delivers False (clienterror_tiny filename ''403'' ''Forbidden'' ''Tiny couldn't read the file'' c) c
          (error_page filename ''403'' ''Forbidden'' ''Tiny couldn't read the file'')" by (rule err) simp_all
      then show ?thesis using serve_static_delivers[OF len, of filename c] True
        by (cases "is_regular f \<and> user_read f")
          (simp_all only: unfold de_Morgan_conj[symmetric] conj_assoc[symmetric] if_True if_False simp_thms)
    next
      case False
      have "delivers False (clienterror_tiny filename ''403'' ''Forbidden'' ''Tiny couldn't run the CGI program'' c) c
          (error_page filename ''403'' ''Forbidden'' ''Tiny couldn't run the CGI program'')" by (rule err) simp_all
      then show ?thesis using serve_dynamic_delivers[of cgi filename cgiargs c] False
        by (cases "is_regular f \<and> user_exec f")
          (simp_all only: unfold de_Morgan_conj[symmetric] if_True if_False simp_thms)
    qed
  qed
qed


section \<open>Requests\<close>

lemma requesthdrs_loop_spec:
  assumes "rio_ok rp" and "length buf = MAXLINE" and "\<forall>l\<in>set (c_string buf # hs). line l \<and> l \<noteq> CRLF"
    and "unread rp = concat hs @ CRLF @ rest"
  shows "\<exists>rp'. requesthdrs_loop rp buf = Some (Some rp') \<and> rio_ok rp' \<and> unread rp' = rest"
  using assms
proof (induction hs arbitrary: rp buf)
  case Nil
  then have u: "unread rp = CRLF @ rest" by simp
  show ?case
  proof (rule read_line[OF Nil.prems(1,2) line_CRLF u])
    fix rp' buf' assume r: "rio_readlineb rp buf MAXLINE = (int (length CRLF), buf', rp')" "rio_ok rp'" "unread rp' = rest" "c_string buf' = CRLF"
    then have "requesthdrs_loop rp' buf' = Some (Some rp')" by (subst requesthdrs_loop.simps) simp
    then show ?thesis using Nil.prems(3) r by (subst requesthdrs_loop.simps) simp
  qed
next
  case (Cons h hs)
  then have u: "unread rp = h @ concat hs @ CRLF @ rest" and h: "line h" by auto
  show ?case
  proof (rule read_line[OF Cons.prems(1,2) h u])
    fix rp' buf' assume r: "rio_readlineb rp buf MAXLINE = (int (length h), buf', rp')" "rio_ok rp'"
      "unread rp' = concat hs @ CRLF @ rest" "length buf' = MAXLINE" "c_string buf' = h"
    have "\<exists>rp''. requesthdrs_loop rp' buf' = Some (Some rp'') \<and> rio_ok rp'' \<and> unread rp'' = rest"
      using r Cons.prems(3) by (intro Cons.IH) auto
    then show ?thesis using Cons.prems(3) r(1) by (subst requesthdrs_loop.simps) simp
  qed
qed

lemma requesthdrs_loop_end:
  assumes "rio_ok rp" and "length buf = MAXLINE" and "unread rp = []" and "c_string buf \<noteq> CRLF"
  shows "requesthdrs_loop rp buf = None"
proof (rule ccontr)
  assume "requesthdrs_loop rp buf \<noteq> None"
  then obtain r where "requesthdrs_loop rp buf = Some r" by auto
  then have "\<not> (rio_ok rp \<and> length buf = MAXLINE \<and> unread rp = [] \<and> c_string buf \<noteq> CRLF)"
  proof (rule requesthdrs_loop.raw_induct[rotated])
    fix loop rp buf r
    assume IH: "\<And>rp buf r. loop rp buf = Some r \<Longrightarrow> \<not> (rio_ok rp \<and> length buf = MAXLINE \<and> unread rp = [] \<and> c_string buf \<noteq> CRLF)"
      and body: "(if c_string buf = CRLF then Some (Some rp)
        else case rio_readlineb rp buf MAXLINE of (rc, buf', rp') \<Rightarrow> if rc < 0 then Some None else loop rp' buf') = Some r"
    show "\<not> (rio_ok rp \<and> length buf = MAXLINE \<and> unread rp = [] \<and> c_string buf \<noteq> CRLF)"
    proof
      assume a: "rio_ok rp \<and> length buf = MAXLINE \<and> unread rp = [] \<and> c_string buf \<noteq> CRLF"
      then have "rio_ok rp" "length buf = MAXLINE" "unread rp = []" by simp_all
      then show False
      proof (rule read_end)
        fix rp' assume "rio_readlineb rp buf MAXLINE = (0, buf, rp')" "rio_ok rp'" "unread rp' = []"
        with body a IH show False by auto
      qed
    qed
  qed
  with assms show False by simp
qed

lemma requesthdrs_loop_truncated:
  assumes "rio_ok rp" and "length buf = MAXLINE" and "\<forall>l\<in>set (c_string buf # hs). line l \<and> l \<noteq> CRLF"
    and "unread rp = concat hs"
  shows "requesthdrs_loop rp buf = None"
  using assms
proof (induction hs arbitrary: rp buf)
  case Nil
  then show ?case by (intro requesthdrs_loop_end) auto
next
  case (Cons h hs)
  then have u: "unread rp = h @ concat hs" and h: "line h" by auto
  show ?case
  proof (rule read_line[OF Cons.prems(1,2) h u])
    fix rp' buf' assume r: "rio_readlineb rp buf MAXLINE = (int (length h), buf', rp')" "rio_ok rp'"
      "unread rp' = concat hs" "length buf' = MAXLINE" "c_string buf' = h"
    have "requesthdrs_loop rp' buf' = None" using r Cons.prems(3) by (intro Cons.IH) auto
    then show ?thesis using Cons.prems(3) r(1) by (subst requesthdrs_loop.simps) simp
  qed
qed

lemma read_requesthdrs_spec:
  assumes "rio_ok rp" and "length buf = MAXLINE" and "\<forall>l\<in>set hs. line l \<and> l \<noteq> CRLF"
    and "unread rp = concat hs @ CRLF @ rest"
  shows "\<exists>rp'. read_requesthdrs rp buf = Some (Some rp')"
proof (cases hs)
  case Nil
  then have u: "unread rp = CRLF @ rest" using assms(4) by simp
  show ?thesis
  proof (rule read_line[OF assms(1,2) line_CRLF u])
    fix rp' buf' assume "rio_readlineb rp buf MAXLINE = (int (length CRLF), buf', rp')" "c_string buf' = CRLF"
    then show ?thesis by (simp add: read_requesthdrs_def requesthdrs_loop.simps)
  qed
next
  case (Cons h hs')
  then have u: "unread rp = h @ concat hs' @ CRLF @ rest" and h: "line h" using assms(3,4) by auto
  show ?thesis
  proof (rule read_line[OF assms(1,2) h u])
    fix rp' buf' assume r: "rio_readlineb rp buf MAXLINE = (int (length h), buf', rp')" "rio_ok rp'"
      "unread rp' = concat hs' @ CRLF @ rest" "length buf' = MAXLINE" "c_string buf' = h"
    have "\<exists>rp''. requesthdrs_loop rp' buf' = Some (Some rp'') \<and> rio_ok rp'' \<and> unread rp'' = rest"
      using r Cons assms(3) by (intro requesthdrs_loop_spec) auto
    then show ?thesis using r(1) by (auto simp: read_requesthdrs_def)
  qed
qed

lemma read_requesthdrs_truncated:
  assumes "rio_ok rp" and "length buf = MAXLINE" and "\<forall>l\<in>set hs. line l \<and> l \<noteq> CRLF"
    and "unread rp = concat hs" and "hs \<noteq> [] \<or> c_string buf \<noteq> CRLF"
  shows "read_requesthdrs rp buf = None"
proof (cases hs)
  case Nil
  then have u: "unread rp = []" using assms(4) by simp
  show ?thesis
  proof (rule read_end[OF assms(1,2) u])
    fix rp' assume r: "rio_readlineb rp buf MAXLINE = (0, buf, rp')" "rio_ok rp'" "unread rp' = []"
    then have "requesthdrs_loop rp' buf = None" using assms(2,5) Nil by (intro requesthdrs_loop_end) auto
    with r show ?thesis by (simp add: read_requesthdrs_def)
  qed
next
  case (Cons h hs')
  then have u: "unread rp = h @ concat hs'" and h: "line h" using assms(3,4) by auto
  show ?thesis
  proof (rule read_line[OF assms(1,2) h u])
    fix rp' buf' assume r: "rio_readlineb rp buf MAXLINE = (int (length h), buf', rp')" "rio_ok rp'"
      "unread rp' = concat hs'" "length buf' = MAXLINE" "c_string buf' = h"
    have "requesthdrs_loop rp' buf' = None"
      using r Cons assms(3) by (intro requesthdrs_loop_truncated[of _ _ hs']) auto
    then show ?thesis using r(1) by (simp add: read_requesthdrs_def)
  qed
qed


text \<open>A client that sends a complete request for \<open>uri\<close>, and one whose input ends within the headers.\<close>

fun asks :: "tiny_locals \<times> descriptor \<times> conn \<Rightarrow> string \<Rightarrow> bool" where
  "asks (u, fd, c) uri \<longleftrightarrow> clean fd \<and> length (t_buf u) = MAXLINE \<and> length (t_hdrs u) = MAXLINE \<and> good_uri uri \<and>
     (\<exists>hs rest. fd_bytes fd = get_line uri @ concat hs @ CRLF @ rest \<and> (\<forall>h\<in>set hs. line h \<and> h \<noteq> CRLF))"

fun breaks_off :: "tiny_locals \<times> descriptor \<times> conn \<Rightarrow> bool" where
  "breaks_off (u, fd, c) \<longleftrightarrow> clean fd \<and> length (t_buf u) = MAXLINE \<and> length (t_hdrs u) = MAXLINE \<and>
     (\<exists>uri hs. good_uri uri \<and> fd_bytes fd = get_line uri @ concat hs \<and> (\<forall>h\<in>set hs. line h \<and> h \<noteq> CRLF) \<and>
        (hs \<noteq> [] \<or> c_string (t_hdrs u) \<noteq> CRLF))"

lemma doit_tiny_get:
  assumes "clean fd" and "length (t_buf u) = MAXLINE" and "good_uri uri" and "fd_bytes fd = get_line uri @ rest"
  obtains rio where "rio_ok rio" and "unread rio = rest"
    and "doit_tiny fs cgi u fd c = (case read_requesthdrs rio (t_hdrs u) of None \<Rightarrow> Hangs c | Some None \<Rightarrow> Exits c
      | Some (Some rio) \<Rightarrow> answer_tiny fs cgi uri c)"
proof -
  have i: "rio_ok (rio_readinitb (t_rio u) fd)" "unread (rio_readinitb (t_rio u) fd) = get_line uri @ rest"
    using rio_readinitb_ok[OF assms(1)] assms(4) by auto
  from i(1) assms(2) get_line_line[OF assms(3)] i(2) show thesis
  proof (rule read_line)
    fix rio buf assume r: "rio_readlineb (rio_readinitb (t_rio u) fd) (t_buf u) MAXLINE = (int (length (get_line uri)), buf, rio)"
      "rio_ok rio" "unread rio = rest" "c_string buf = get_line uri"
    have len: "get_line uri \<noteq> []" by (simp add: get_line_def)
    have get: "strcasecmp_eq ''GET'' ''GET''" by (simp add: strcasecmp_eq_def)
    from scan_get_line[OF assms(3)] obtain w w' where w: "scan_word (get_line uri) = Some (''GET'', w)" "scan_word w = Some (uri, w')"
      by blast
    show thesis
      using r(2,3)
    proof (rule that)
      show "doit_tiny fs cgi u fd c = (case read_requesthdrs rio (t_hdrs u) of None \<Rightarrow> Hangs c | Some None \<Rightarrow> Exits c
          | Some (Some rio) \<Rightarrow> answer_tiny fs cgi uri c)"
        unfolding doit_tiny_def r(1,4) prod.case w option.case Let_def using len get by simp
    qed
  qed
qed

definition small_files :: "(string \<Rightarrow> web_file option) \<Rightarrow> bool" where
  "small_files fs \<longleftrightarrow> (\<forall>f name. fs name = Some f \<longrightarrow> length (contents f) < 2 ^ 31)"

lemma request_delivers:
  assumes "asks (u, fd, c) uri" and "small_files fs"
  shows "delivers (fatal fs uri) (doit_tiny fs cgi u fd c) c (tiny_reply fs cgi uri)"
proof -
  obtain hs rest where a: "clean fd" "length (t_buf u) = MAXLINE" "length (t_hdrs u) = MAXLINE" "good_uri uri"
      "fd_bytes fd = get_line uri @ concat hs @ CRLF @ rest" "\<forall>h\<in>set hs. line h \<and> h \<noteq> CRLF"
    using assms(1) by auto
  show ?thesis
  proof (rule doit_tiny_get[OF a(1,2,4,5), where fs = fs and cgi = cgi and c = c])
    fix rio assume r: "rio_ok rio" "unread rio = concat hs @ CRLF @ rest"
      and d: "doit_tiny fs cgi u fd c = (case read_requesthdrs rio (t_hdrs u) of None \<Rightarrow> Hangs c | Some None \<Rightarrow> Exits c
        | Some (Some rio) \<Rightarrow> answer_tiny fs cgi uri c)"
    obtain rp where "read_requesthdrs rio (t_hdrs u) = Some (Some rp)" using read_requesthdrs_spec[OF r(1) a(3,6) r(2)] by blast
    then show ?thesis unfolding d using a(4) assms(2) by (auto simp: good_uri_def small_files_def intro!: answer_delivers)
  qed
qed

lemma request_hangs: "breaks_off (u, fd, c) \<Longrightarrow> doit_tiny fs cgi u fd c = Hangs c"
proof -
  assume "breaks_off (u, fd, c)"
  then obtain uri hs where a: "clean fd" "length (t_buf u) = MAXLINE" "length (t_hdrs u) = MAXLINE" "good_uri uri"
      "fd_bytes fd = get_line uri @ concat hs" "\<forall>h\<in>set hs. line h \<and> h \<noteq> CRLF" "hs \<noteq> [] \<or> c_string (t_hdrs u) \<noteq> CRLF"
    by auto
  show ?thesis
    by (rule doit_tiny_get[OF a(1,2,4,5), where fs = fs and cgi = cgi and c = c])
      (simp add: read_requesthdrs_truncated[OF _ a(3,6) _ a(7)])
qed

text \<open>
  C18: the complete behaviour of Tiny on a request \<open>GET uri\<close> with any header lines, whatever
  pieces the input comes in and however \<open>write\<close> cuts the output: the client is sent the page of
  \<open>tiny_reply\<close> (the file with its length and type, the output of the CGI program with the
  arguments after the \<open>?\<close>, or the error page for a missing or forbidden file), or a part of it
  when the process exits, and it exits only when a write fails or the file is empty or cannot be
  opened.
\<close>

theorem tiny_replies:
  assumes "asks (u, fd, c) uri" and "small_files fs"
  shows "case doit_tiny fs cgi u fd c of
      Served c' \<Rightarrow> sent c' = sent c @ tiny_reply fs cgi uri \<and> (out c = [] \<longrightarrow> \<not> fatal fs uri)
    | Exits c' \<Rightarrow> (\<exists>k. sent c' = sent c @ take k (tiny_reply fs cgi uri)) \<and> (fatal fs uri \<or> out c \<noteq> [])
    | _ \<Rightarrow> False"
  using request_delivers[OF assms, of cgi] by (auto split: tiny.splits)

text \<open>
  C32: the clients that send complete requests for files that can be served get their replies in
  turn; but the first client whose input ends within its headers keeps the server for ever, and
  no client after it is served.
\<close>

theorem main_tiny_starves:
  assumes "list_all2 asks clients uris" and "small_files fs"
    and "\<forall>(u, fd, c)\<in>set clients. out c = []" and "\<forall>uri\<in>set uris. \<not> fatal fs uri" and "breaks_off (u, fd, c)"
  shows "\<exists>cs. main_tiny fs cgi (clients @ (u, fd, c) # others) = map Served cs @ [Hangs c] \<and>
    map sent cs = map2 (\<lambda>(u, fd, c) uri. sent c @ tiny_reply fs cgi uri) clients uris"
  using assms(1,3,4)
proof (induction clients uris rule: list_all2_induct)
  case Nil
  then show ?case by (simp add: request_hangs[OF assms(5)])
next
  case (Cons cl clients uri uris)
  obtain u' fd' c' where cl: "cl = (u', fd', c')" by (cases cl)
  obtain cs where cs: "main_tiny fs cgi (clients @ (u, fd, c) # others) = map Served cs @ [Hangs c]"
      "map sent cs = map2 (\<lambda>(u, fd, c) uri. sent c @ tiny_reply fs cgi uri) clients uris"
    using Cons by auto
  have "delivers (fatal fs uri) (doit_tiny fs cgi u' fd' c') c' (tiny_reply fs cgi uri)"
    using request_delivers[OF _ assms(2)] Cons.hyps(1) by (simp only: cl)
  then obtain d where "doit_tiny fs cgi u' fd' c' = Served d" "sent d = sent c' @ tiny_reply fs cgi uri"
    using Cons.prems by (cases "doit_tiny fs cgi u' fd' c'") (auto simp: cl)
  then show ?case using cs by (intro exI[of _ "d # cs"]) (simp add: cl)
qed

text \<open>A request line that is legal but long is copied past the end of the array of the error page.\<close>

lemma long_uri_smashes:
  assumes "8156 \<le> length uri" and "length uri < 8190" and "\<not> sublist cgi_bin uri" and "last uri \<noteq> CHR ''/''"
    and "fs (''.'' @ uri) = None" and "out c = []"
  shows "answer_tiny fs cgi uri c = Smashed"
proof -
  have ne: "uri \<noteq> []" using assms(1) by auto
  have p: "parse_uri_tiny uri = Done (True, ''.'' @ uri, [])"
    using assms(2,3,4) ne by (simp add: parse_uri_tiny_def strstr_sublist cgi_bin_def MAXLINE_def last_conv_nth Let_def)
  have say: "say s c = Served (c\<lparr>out := [], sent := sent c @ s\<rparr>)" if "length s < MAXLINE" "out c = []" for s c
    using that by (simp add: say_def Rio_writen_def tiny_writen_all)
  show ?thesis using assms(1,5,6)
    by (simp add: answer_tiny_def p clienterror_tiny_def say MAXLINE_def) (simp add: say_def MAXLINE_def)
qed

section \<open>Sample requests\<close>

definition sample_file :: web_file where
  "sample_file = \<lparr>is_regular = True, user_read = True, user_exec = False, can_open = True, contents = ''<p>''\<rparr>"

definition sample_site :: "string \<Rightarrow> web_file option" where
  "sample_site name = (if name = ''./a/home.html'' then Some sample_file else if name = ''./e.gif'' then Some (sample_file\<lparr>contents := []\<rparr>) else None)"

definition sample_tiny_locals :: tiny_locals where
  "sample_tiny_locals = \<lparr>t_buf = replicate MAXLINE CHR ''x'', t_method = [], t_uri = [], t_rio = blank_rio, t_hdrs = replicate MAXLINE CHR ''y''\<rparr>"

definition new_conn :: conn where "new_conn = \<lparr>out = [], sent = []\<rparr>"

lemma small_sample_site: "small_files sample_site"
  by (auto simp: small_files_def sample_site_def sample_file_def split: if_splits)

lemma asks_sample:
  assumes "good_uri uri" and "out c = []"
  shows "asks (sample_tiny_locals, [Got (get_line uri @ accept_hdr), Interrupted, Got (host_hdr @ CRLF)], c) uri"
proof -
  have "get_line uri \<noteq> []" "CRLF \<noteq> []" by (simp_all add: get_line_def CRLF_def)
  then show ?thesis using assms sample_facts(2,3,6,7)
    by (auto simp: sample_tiny_locals_def intro!: exI[of _ "[accept_hdr, host_hdr]"])
qed

lemma breaks_off_sample:
  assumes "good_uri uri"
  shows "breaks_off (sample_tiny_locals, [Got (get_line uri), Got accept_hdr], c)"
proof -
  have "get_line uri \<noteq> []" "accept_hdr \<noteq> []" by (simp_all add: get_line_def accept_hdr_def)
  then show ?thesis using assms sample_facts(2,3)
    by (auto simp: sample_tiny_locals_def intro!: exI[of _ uri] exI[of _ "[accept_hdr]"])
qed


definition page_uri :: string where "page_uri = ''/a/''"
definition empty_uri :: string where "empty_uri = ''/e.gif''"

lemma sample_uris:
  "good_uri page_uri" "good_uri empty_uri" "\<not> fatal sample_site page_uri" "fatal sample_site empty_uri"
  "tiny_reply sample_site cgi page_uri = ok_page ''./a/home.html'' ''<p>''"
proof -
  show "good_uri page_uri" "good_uri empty_uri" by code_simp+
  have t: "tiny_target page_uri = (True, ''./a/home.html'', [])" "tiny_target empty_uri = (True, ''./e.gif'', [])"
    by (simp_all add: tiny_target_def page_uri_def empty_uri_def cgi_bin_def strstr_sublist[symmetric])
  show "\<not> fatal sample_site page_uri" "fatal sample_site empty_uri"
    "tiny_reply sample_site cgi page_uri = ok_page ''./a/home.html'' ''<p>''"
    by (simp_all add: fatal_def tiny_reply_def t sample_site_def sample_file_def)
qed

definition sample_client :: "string \<Rightarrow> tiny_locals \<times> descriptor \<times> conn" where
  "sample_client uri = (sample_tiny_locals, [Got (get_line uri @ accept_hdr), Interrupted, Got (host_hdr @ CRLF)], new_conn)"

lemma sample_client: "good_uri uri \<Longrightarrow> asks (sample_client uri) uri"
  using asks_sample[of uri new_conn] by (simp add: sample_client_def new_conn_def del: asks.simps)

theorem tiny_replies_witness:
  "(case sample_client page_uri of (u, fd, c) \<Rightarrow>
      \<exists>c'. doit_tiny sample_site (\<lambda>_ _. []) u fd c = Served c' \<and> sent c' = ok_page ''./a/home.html'' ''<p>'') \<and>
   (case sample_client empty_uri of (u, fd, c) \<Rightarrow> \<exists>c'. doit_tiny sample_site (\<lambda>_ _. []) u fd c = Exits c')"
proof -
  let ?run = "\<lambda>uri. doit_tiny sample_site (\<lambda>_ _. []) sample_tiny_locals [Got (get_line uri @ accept_hdr), Interrupted, Got (host_hdr @ CRLF)] new_conn"
  have "asks (sample_tiny_locals, [Got (get_line uri @ accept_hdr), Interrupted, Got (host_hdr @ CRLF)], new_conn) uri" if "good_uri uri" for uri
    using sample_client[OF that] by (simp only: sample_client_def)
  note r = tiny_replies[OF this small_sample_site, where cgi = "\<lambda>_ _. []"]
  have "\<exists>c'. ?run page_uri = Served c' \<and> sent c' = ok_page ''./a/home.html'' ''<p>''"
    using r[OF sample_uris(1)] sample_uris(3,5) by (cases "?run page_uri") (auto simp: new_conn_def)
  moreover have "\<exists>c'. ?run empty_uri = Exits c'"
    using r[OF sample_uris(2)] sample_uris(4) by (cases "?run empty_uri") (auto simp: new_conn_def)
  ultimately show ?thesis unfolding sample_client_def by simp
qed

theorem main_tiny_starves_witness:
  "\<exists>c1 c2. main_tiny sample_site (\<lambda>_ _. [])
     [sample_client page_uri, (sample_tiny_locals, [Got (get_line page_uri), Got accept_hdr], new_conn), sample_client page_uri] =
     [Served c1, Hangs c2] \<and> sent c1 = ok_page ''./a/home.html'' ''<p>''"
proof -
  have 1: "list_all2 asks [sample_client page_uri] [page_uri]" using sample_client[OF sample_uris(1)] by simp
  have 2: "\<forall>(u, fd, c)\<in>set [sample_client page_uri]. out c = []" by (simp add: sample_client_def new_conn_def)
  have 3: "\<forall>uri\<in>set [page_uri]. \<not> fatal sample_site uri" using sample_uris(3) by simp
  from main_tiny_starves[OF 1 small_sample_site 2 3 breaks_off_sample[OF sample_uris(1), of new_conn],
      where cgi = "\<lambda>_ _. []" and others = "[sample_client page_uri]"]
  obtain cs where cs: "main_tiny sample_site (\<lambda>_ _. [])
      ([sample_client page_uri] @ (sample_tiny_locals, [Got (get_line page_uri), Got accept_hdr], new_conn) # [sample_client page_uri]) =
      map Served cs @ [Hangs new_conn]"
      "map sent cs = map2 (\<lambda>(u, fd, c) uri. sent c @ tiny_reply sample_site (\<lambda>_ _. []) uri) [sample_client page_uri] [page_uri]"
    by blast
  from cs(2) have "map sent cs = [ok_page ''./a/home.html'' ''<p>'']"
    by (simp add: sample_client_def new_conn_def sample_uris(5))
  then obtain c1 where "cs = [c1]" "sent c1 = ok_page ''./a/home.html'' ''<p>''" by auto
  with cs(1) show ?thesis by (intro exI[of _ c1] exI[of _ new_conn]) (simp del: main_tiny.simps)
qed

end
