(* ===== verification/Dictionary.thy ===== *)
theory Dictionary
  imports CString "HOL-Library.Multiset"
begin

text \<open>
  The word-frequency program of the textbook, \<open>csapp-master/opt/dictionary.c\<close>: a hash table of
  chains with three hash functions, two conversions to lower case and three ways to find or add
  an element, and the list of words sorted by frequency. The list of words is an argument
  here; theory \<open>Tokens\<close> reads it from a file; allocation succeeds (the program exits otherwise).
\<close>

section \<open>State\<close>

text \<open>
  A chain of elements by its first pointer: NULL, a pointer that was never initialised, or an
  element with its word, frequency and successor.
\<close>

datatype chain = Null | Wild | Ele string int chain

text \<open>
  The statistics, the frequencies and the lengths are \<open>int\<close> variables in the program and have no
  bound here: the definitions are those of the code for texts of fewer than \<open>2 ^ 31\<close> words
  and words shorter than that, so that no counter wraps.
\<close>

record dict =
  htable :: "chain list"
  tsize :: nat
  wcnt :: int
  ucnt :: int
  mcnt :: int
  scnt :: int
  mstring :: string
  llen :: int
  lstring :: string
  lcnt :: int

definition new_table :: "nat \<Rightarrow> dict \<Rightarrow> dict" where
  "new_table n d = d\<lparr>tsize := n, htable := replicate n Null\<rparr>"

text \<open>What \<open>new_ele\<close> does to the statistics; the element it returns has no successor yet.\<close>

definition new_ele :: "string \<Rightarrow> dict \<Rightarrow> (chain \<Rightarrow> chain) \<times> dict" where
  "new_ele s d =
     (let wlen = int (length s);
          d = (if wlen > llen d then d\<lparr>lstring := s, llen := wlen, lcnt := 1\<rparr>
               else if wlen = llen d then d\<lparr>lcnt := lcnt d + 1\<rparr> else d)
      in (Ele s 1, d))"

section \<open>Lower case\<close>

definition lower_char :: "char \<Rightarrow> char" where
  "lower_char c = (if 65 \<le> (of_char c :: nat) \<and> (of_char c :: nat) \<le> 90 then char_of (of_char c + (32::nat)) else c)"

function lower1_loop :: "nat \<Rightarrow> string \<Rightarrow> string" where
  "lower1_loop i s = (if i < length s then lower1_loop (i + 1) (s[i := lower_char (s ! i)]) else s)"
  by pat_completeness auto
termination by (relation "measure (\<lambda>(i, s). length s - i)") auto

definition lower1 :: "string \<Rightarrow> string" where
  "lower1 s = lower1_loop 0 s"

definition lower2 :: "string \<Rightarrow> string" where
  "lower2 s = (let len = length s in for_loop 0 len (\<lambda>i s. s[i := lower_char (s ! i)]) s)"

declare lower1_loop.simps [simp del]

section \<open>Hash functions\<close>

text \<open>A \<open>char\<close> as \<open>int\<close>: signed.\<close>

definition char_val :: "char \<Rightarrow> uint32" where
  "char_val c = (let n = of_char c :: nat in if n < 128 then of_nat n else of_nat n - 256)"

definition h_mod :: "nat \<Rightarrow> string \<Rightarrow> uint32" where
  "h_mod n s = fold (\<lambda>c val. (val * 128 + char_val c) mod of_nat n) s 0"

definition h_add :: "nat \<Rightarrow> string \<Rightarrow> uint32" where
  "h_add n s = fold (\<lambda>c val. val + char_val c) s 0 mod of_nat n"

definition h_xor :: "nat \<Rightarrow> string \<Rightarrow> uint32" where
  "h_xor n s = fold (\<lambda>c val. push_bit 4 (val XOR char_val c) OR (drop_bit 28 val AND 0xF)) s 0 mod of_nat n"

section \<open>Finding an element\<close>

definition count_again :: "string \<Rightarrow> int \<Rightarrow> dict \<Rightarrow> dict" where
  "count_again w f d = (if f > mcnt d then d\<lparr>mcnt := f, mstring := w\<rparr> else d)"

fun find_ele_rec :: "chain \<Rightarrow> string \<Rightarrow> dict \<Rightarrow> (chain \<times> dict) outcome" where
  "find_ele_rec Null s d = (let (ele, d) = new_ele s (d\<lparr>ucnt := ucnt d + 1\<rparr>) in Done (ele Wild, d))"
| "find_ele_rec Wild s d = Fault"
| "find_ele_rec (Ele w f ls) s d =
     (if s = w then Done (Ele w (f + 1) ls, count_again w (f + 1) d)
      else case find_ele_rec ls s d of Fault \<Rightarrow> Fault | Done (ls, d) \<Rightarrow> Done (Ele w f ls, d))"

text \<open>
  The loop the iterative versions share: the chain with the frequency of \<open>s\<close> increased and the
  new frequency, or \<open>None\<close> when the end is reached.
\<close>

fun bump :: "chain \<Rightarrow> string \<Rightarrow> (chain \<times> int) option outcome" where
  "bump Null s = Done None"
| "bump Wild s = Fault"
| "bump (Ele w f ls) s =
     (if s = w then Done (Some (Ele w (f + 1) ls, f + 1))
      else case bump ls s of Fault \<Rightarrow> Fault | Done None \<Rightarrow> Done None
           | Done (Some (ls, n)) \<Rightarrow> Done (Some (Ele w f ls, n)))"

definition find_ele_iter_f :: "chain \<Rightarrow> string \<Rightarrow> dict \<Rightarrow> (chain \<times> dict) outcome" where
  "find_ele_iter_f ls s d =
     (case bump ls s of Fault \<Rightarrow> Fault
      | Done (Some (ls, f)) \<Rightarrow> Done (ls, count_again s f d)
      | Done None \<Rightarrow> (let (ele, d) = new_ele s d in Done (ele ls, d\<lparr>ucnt := ucnt d + 1\<rparr>)))"

text \<open>\<open>last->next = ele\<close>, for a chain whose end was reached.\<close>

fun link_last :: "chain \<Rightarrow> chain \<Rightarrow> chain" where
  "link_last (Ele w f ls) ele = Ele w f (link_last ls ele)"
| "link_last _ ele = ele"

definition find_ele_iter_r :: "chain \<Rightarrow> string \<Rightarrow> dict \<Rightarrow> (chain \<times> dict) outcome" where
  "find_ele_iter_r ls s d =
     (case bump ls s of Fault \<Rightarrow> Fault
      | Done (Some (ls, f)) \<Rightarrow> Done (ls, count_again s f d)
      | Done None \<Rightarrow>
          (let (ele, d) = new_ele s d; ele = ele Null
           in Done (if ls = Null then ele else link_last ls ele, d\<lparr>ucnt := ucnt d + 1\<rparr>)))"

type_synonym finder = "chain \<Rightarrow> string \<Rightarrow> dict \<Rightarrow> (chain \<times> dict) outcome"

definition insert_string ::
    "(nat \<Rightarrow> string \<Rightarrow> uint32) \<Rightarrow> (string \<Rightarrow> string) \<Rightarrow> finder \<Rightarrow> string \<Rightarrow> dict \<Rightarrow> dict outcome" where
  "insert_string hash_fun lower_fun find_ele_fun s d =
     (let s = lower_fun s; index = unat (hash_fun (tsize d) s) in
        if index < length (htable d) then
          (case find_ele_fun (htable d ! index) s d of
             Fault \<Rightarrow> Fault
           | Done (ls, d) \<Rightarrow> Done (d\<lparr>htable := (htable d)[index := ls]\<rparr>))
        else Fault)"

section \<open>Sorting\<close>

text \<open>The loop over a chain, which must end.\<close>

fun elements :: "chain \<Rightarrow> (string \<times> int) list outcome" where
  "elements Null = Done []"
| "elements Wild = Fault"
| "elements (Ele w f ls) = (case elements ls of Fault \<Rightarrow> Fault | Done es \<Rightarrow> Done ((w, f) # es))"

fun all_elements :: "chain list \<Rightarrow> (string \<times> int) list outcome" where
  "all_elements [] = Done []"
| "all_elements (c # cs) = (case elements c of Fault \<Rightarrow> Fault | Done es \<Rightarrow>
     (case all_elements cs of Fault \<Rightarrow> Fault | Done fs \<Rightarrow> Done (es @ fs)))"

text \<open>
  The inner loop of the insertion sort; only the slots below \<open>cnt\<close> were filled and are read.
\<close>

fun shift_loop :: "nat \<Rightarrow> (string \<times> int) \<Rightarrow> (string \<times> int) list \<Rightarrow> (string \<times> int) list" where
  "shift_loop 0 ele array = array[0 := ele]"
| "shift_loop (Suc j) ele array =
     (if snd ele > snd (array ! j) then shift_loop j ele (array[Suc j := array ! j]) else array[Suc j := ele])"

text \<open>
  \<open>qsort\<close> is the library's; the linking at the end writes to \<open>array[cnt-1]\<close>, which does not
  exist in an empty table. The result is the list that \<open>ls\<close> points to.
\<close>

definition sort_words ::
    "((string \<times> int) list \<Rightarrow> (string \<times> int) list) \<Rightarrow> bool \<Rightarrow> dict \<Rightarrow> ((string \<times> int) list \<times> dict) outcome" where
  "sort_words qsort quick d =
     (case all_elements (htable d) of
        Fault \<Rightarrow> Fault
      | Done es \<Rightarrow>
          (let array = replicate (nat (ucnt d)) ('''', 0);
               (array, cnt) = fold (\<lambda>ele (array, cnt).
                  (if quick then array[cnt := ele] else shift_loop cnt ele array, cnt + 1)) es (array, 0);
               d = d\<lparr>scnt := int (length (filter (\<lambda>ele. snd ele = 1) es))\<rparr>
           in if cnt = 0 \<or> length array < cnt then Fault
              else Done (if quick then qsort (take cnt array) else take cnt array, d)))"

text \<open>\<open>word_freq\<close>, up to the printing; \<open>None\<close> when the list is not asked for.\<close>

definition word_freq ::
    "((string \<times> int) list \<Rightarrow> (string \<times> int) list) \<Rightarrow> (nat \<Rightarrow> string \<Rightarrow> uint32) \<Rightarrow> (string \<Rightarrow> string) \<Rightarrow> finder \<Rightarrow>
     bool \<Rightarrow> bool \<Rightarrow> nat \<Rightarrow> string list \<Rightarrow> dict \<Rightarrow> ((string \<times> int) list option \<times> dict) outcome" where
  "word_freq qsort hash_fun lower_fun find_ele_fun verbose quick n tokens d =
     (case fold (\<lambda>s r. case r of Fault \<Rightarrow> Fault | Done d \<Rightarrow> insert_string hash_fun lower_fun find_ele_fun s d)
             tokens (Done (new_table n d)) of
        Fault \<Rightarrow> Fault
      | Done d \<Rightarrow>
          if verbose then (case sort_words qsort quick d of Fault \<Rightarrow> Fault | Done (ls, d) \<Rightarrow> Done (Some ls, d))
          else Done (None, d))"


section \<open>Chains and lookups\<close>

lemma lower1_loop: "i \<le> length s \<Longrightarrow> lower1_loop i s = take i s @ map lower_char (drop i s)"
proof (induction i s rule: lower1_loop.induct)
  case (1 i s)
  show ?case
  proof (cases "i < length s")
    case True
    with 1 show ?thesis
      by (subst lower1_loop.simps) (simp add: take_Suc_conv_app_nth Cons_nth_drop_Suc[symmetric])
  next
    case False
    with 1(2) show ?thesis by (subst lower1_loop.simps) simp
  qed
qed

text \<open>Both conversions are the same function.\<close>

lemma lower1_map: "lower1 s = map lower_char s"
  by (simp add: lower1_def lower1_loop)

lemma lower2_map: "lower2 s = map lower_char s"
proof -
  have "i \<le> length s \<Longrightarrow> for_loop 0 i (\<lambda>i s. s[i := lower_char (s ! i)]) s = map lower_char (take i s) @ drop i s" for i
  proof (induction i)
    case (Suc i)
    then have "drop i s = s ! i # drop (Suc i) s" by (simp add: Cons_nth_drop_Suc)
    with Suc show ?case by (simp add: for_loop_Suc take_Suc_conv_app_nth nth_append list_update_append)
  qed simp
  then show ?thesis by (simp add: lower2_def)
qed

fun elems :: "chain \<Rightarrow> (string \<times> int) list" where
  "elems (Ele w f ls) = (w, f) # elems ls"
| "elems _ = []"

text \<open>A chain that ends, with every word once and frequencies from 1.\<close>

definition proper :: "chain \<Rightarrow> bool" where
  "proper c \<longleftrightarrow> elements c = Done (elems c) \<and> distinct (map fst (elems c)) \<and> (\<forall>e\<in>set (elems c). 1 \<le> snd e)"

definition freq_in :: "chain \<Rightarrow> string \<Rightarrow> int" where
  "freq_in c w = (case map_of (elems c) w of None \<Rightarrow> 0 | Some f \<Rightarrow> f)"

lemma proper_Null [simp]: "proper Null"
  by (simp add: proper_def)

lemma not_proper_Wild [simp]: "\<not> proper Wild"
  by (simp add: proper_def)

lemma proper_Ele [simp]: "proper (Ele w f ls) \<longleftrightarrow> proper ls \<and> w \<notin> fst ` set (elems ls) \<and> 1 \<le> f"
  by (auto simp: proper_def split: outcome.splits)

lemma freq_in_simps [simp]: "freq_in Null w = 0" "freq_in (Ele v f ls) w = (if w = v then f else freq_in ls w)"
  by (simp_all add: freq_in_def)

lemma freq_in_0: "w \<notin> fst ` set (elems c) \<Longrightarrow> freq_in c w = 0"
  by (simp add: freq_in_def map_of_eq_None_iff[symmetric] split: option.splits)

lemma bump_spec:
  assumes "proper c"
  shows "if s \<in> fst ` set (elems c)
    then \<exists>c'. bump c s = Done (Some (c', freq_in c s + 1)) \<and> proper c' \<and> map fst (elems c') = map fst (elems c) \<and>
      (\<forall>w. freq_in c' w = freq_in c w + (if w = s then 1 else 0))
    else bump c s = Done None"
  using assms
proof (induction c)
  case (Ele w f ls)
  show ?case
  proof (cases "s = w")
    case True
    with Ele.prems show ?thesis by (auto simp: freq_in_0)
  next
    case False
    show ?thesis
    proof (cases "s \<in> fst ` set (elems ls)")
      case True
      with Ele obtain c' where c': "bump ls s = Done (Some (c', freq_in ls s + 1))" "proper c'"
        "map fst (elems c') = map fst (elems ls)" "\<forall>w. freq_in c' w = freq_in ls w + (if w = s then 1 else 0)" by auto
      then have "fst ` set (elems c') = fst ` set (elems ls)" by (metis list.set_map)
      with c' False True Ele.prems show ?thesis by auto
    next
      case none: False
      with False Ele show ?thesis by auto
    qed
  qed
qed simp_all

lemma link_last_spec:
  assumes "proper c" and "s \<notin> fst ` set (elems c)"
  shows "proper (link_last c (Ele s 1 Null)) \<and> map fst (elems (link_last c (Ele s 1 Null))) = map fst (elems c) @ [s] \<and>
    freq_in (link_last c (Ele s 1 Null)) w = freq_in c w + (if w = s then 1 else 0)"
  using assms
proof (induction c)
  case (Ele v f ls)
  then have IH: "proper (link_last ls (Ele s 1 Null))" "map fst (elems (link_last ls (Ele s 1 Null))) = map fst (elems ls) @ [s]"
    "freq_in (link_last ls (Ele s 1 Null)) w = freq_in ls w + (if w = s then 1 else 0)" by auto
  then have "fst ` set (elems (link_last ls (Ele s 1 Null))) = insert s (fst ` set (elems ls))"
    by (metis list.set_map set_append list.simps(15) empty_set Un_insert_right sup_bot_right)
  with IH Ele.prems show ?case by auto
qed simp_all

section \<open>Finders\<close>

text \<open>What the table needs of a function that finds or adds a word.\<close>

locale word_finder =
  fixes find :: finder
  assumes find_done: "proper c \<Longrightarrow> \<exists>c' d'. find c s d = Done (c', d')"
    and find_proper: "proper c \<Longrightarrow> find c s d = Done (c', d') \<Longrightarrow> proper c'"
    and find_words: "proper c \<Longrightarrow> find c s d = Done (c', d') \<Longrightarrow> fst ` set (elems c') = insert s (fst ` set (elems c))"
    and find_freq: "proper c \<Longrightarrow> find c s d = Done (c', d') \<Longrightarrow> freq_in c' w = freq_in c w + (if w = s then 1 else 0)"
    and find_ucnt: "proper c \<Longrightarrow> find c s d = Done (c', d') \<Longrightarrow>
      ucnt d' = ucnt d + (if s \<in> fst ` set (elems c) then 0 else 1)"
    and find_table: "proper c \<Longrightarrow> find c s d = Done (c', d') \<Longrightarrow> htable d' = htable d \<and> tsize d' = tsize d"

lemma stat_simps [simp]:
  "ucnt (count_again w f d) = ucnt d" "htable (count_again w f d) = htable d" "tsize (count_again w f d) = tsize d"
  "fst (new_ele s d) = Ele s 1" "ucnt (snd (new_ele s d)) = ucnt d" "htable (snd (new_ele s d)) = htable d"
  "tsize (snd (new_ele s d)) = tsize d"
  by (simp_all add: count_again_def new_ele_def Let_def)

lemma find_ele_iter_f_spec:
  assumes "proper c"
  shows "\<exists>c' d'. find_ele_iter_f c s d = Done (c', d') \<and> proper c' \<and> fst ` set (elems c') = insert s (fst ` set (elems c)) \<and>
    (\<forall>w. freq_in c' w = freq_in c w + (if w = s then 1 else 0)) \<and>
    ucnt d' = ucnt d + (if s \<in> fst ` set (elems c) then 0 else 1) \<and> htable d' = htable d \<and> tsize d' = tsize d"
proof (cases "s \<in> fst ` set (elems c)")
  case True
  with bump_spec[OF assms, of s] obtain c' where c': "bump c s = Done (Some (c', freq_in c s + 1))" "proper c'"
    "map fst (elems c') = map fst (elems c)" "\<forall>w. freq_in c' w = freq_in c w + (if w = s then 1 else 0)" by auto
  then have "fst ` set (elems c') = fst ` set (elems c)" by (metis list.set_map)
  with c' True show ?thesis by (simp add: find_ele_iter_f_def insert_absorb)
next
  case False
  with bump_spec[OF assms, of s] have "bump c s = Done None" by simp
  with False assms show ?thesis
    by (simp add: find_ele_iter_f_def split_beta Let_def freq_in_0)
qed

lemma find_ele_iter_r_spec:
  assumes "proper c"
  shows "\<exists>c' d'. find_ele_iter_r c s d = Done (c', d') \<and> proper c' \<and> fst ` set (elems c') = insert s (fst ` set (elems c)) \<and>
    (\<forall>w. freq_in c' w = freq_in c w + (if w = s then 1 else 0)) \<and>
    ucnt d' = ucnt d + (if s \<in> fst ` set (elems c) then 0 else 1) \<and> htable d' = htable d \<and> tsize d' = tsize d"
proof (cases "s \<in> fst ` set (elems c)")
  case True
  with bump_spec[OF assms, of s] obtain c' where c': "bump c s = Done (Some (c', freq_in c s + 1))" "proper c'"
    "map fst (elems c') = map fst (elems c)" "\<forall>w. freq_in c' w = freq_in c w + (if w = s then 1 else 0)" by auto
  then have "fst ` set (elems c') = fst ` set (elems c)" by (metis list.set_map)
  with c' True show ?thesis by (simp add: find_ele_iter_r_def insert_absorb)
next
  case False
  with bump_spec[OF assms, of s] have b: "bump c s = Done None" by simp
  let ?c = "if c = Null then Ele s 1 Null else link_last c (Ele s 1 Null)"
  have c: "?c = link_last c (Ele s 1 Null)" by simp
  note l = link_last_spec[OF assms False]
  then have "fst ` set (elems ?c) = insert s (fst ` set (elems c))"
    unfolding c by (metis list.set_map set_append list.simps(15) empty_set Un_insert_right sup_bot_right)
  with b l False show ?thesis
    by (simp add: find_ele_iter_r_def split_beta Let_def c del: if_split)
qed

lemma word_finderI:
  fixes find :: finder
  assumes spec: "\<And>c s d. proper c \<Longrightarrow> \<exists>c' d'. find c s d = Done (c', d') \<and> proper c' \<and>
    fst ` set (elems c') = insert s (fst ` set (elems c)) \<and>
    (\<forall>w. freq_in c' w = freq_in c w + (if w = s then 1 else 0)) \<and>
    ucnt d' = ucnt d + (if s \<in> fst ` set (elems c) then 0 else 1) \<and> htable d' = htable d \<and> tsize d' = tsize d"
  shows "word_finder find"
proof
  show "\<exists>c' d'. find c s d = Done (c', d')" if "proper c" for c s d
    using spec[OF that, of s d] by blast
  fix c s d c' d' assume c: "proper c" and f: "find c s d = Done (c', d')"
  from spec[OF c, of s d] obtain c1 d1 where "find c s d = Done (c1, d1)" and r: "proper c1"
    "fst ` set (elems c1) = insert s (fst ` set (elems c))" "\<forall>w. freq_in c1 w = freq_in c w + (if w = s then 1 else 0)"
    "ucnt d1 = ucnt d + (if s \<in> fst ` set (elems c) then 0 else 1)" "htable d1 = htable d \<and> tsize d1 = tsize d" by blast
  with f have "c' = c1" "d' = d1" by simp_all
  with r show "proper c'" "fst ` set (elems c') = insert s (fst ` set (elems c))"
    "freq_in c' w = freq_in c w + (if w = s then 1 else 0)"
    "ucnt d' = ucnt d + (if s \<in> fst ` set (elems c) then 0 else 1)" "htable d' = htable d \<and> tsize d' = tsize d" for w
    by simp_all
qed

interpretation iter_f: word_finder find_ele_iter_f
  by (rule word_finderI[OF find_ele_iter_f_spec])

interpretation iter_r: word_finder find_ele_iter_r
  by (rule word_finderI[OF find_ele_iter_r_spec])


section \<open>The table\<close>

definition good_hash :: "(nat \<Rightarrow> string \<Rightarrow> uint32) \<Rightarrow> nat \<Rightarrow> bool" where
  "good_hash hash n \<longleftrightarrow> (\<forall>s. unat (hash n s) < n)"

lemma mod_below: "0 < n \<Longrightarrow> n < 2 ^ 32 \<Longrightarrow> unat ((w :: uint32) mod of_nat n) < n"
  by (simp add: unat_mod unat_below)

lemma hash_functions_good:
  assumes "0 < n" and "n < 2 ^ 32"
  shows "good_hash h_mod n" and "good_hash h_add n" and "good_hash h_xor n"
proof -
  have "unat (h_mod n s) < n" for s
    by (cases s rule: rev_cases) (use assms in \<open>simp_all add: h_mod_def mod_below\<close>)
  then show "good_hash h_mod n" by (simp add: good_hash_def)
  show "good_hash h_add n" "good_hash h_xor n"
    using assms by (simp_all add: good_hash_def h_add_def h_xor_def mod_below)
qed

text \<open>The table after the words \<open>ws\<close>: each in its chain, with the number of its occurrences.\<close>

definition dict_inv :: "(nat \<Rightarrow> string \<Rightarrow> uint32) \<Rightarrow> string list \<Rightarrow> dict \<Rightarrow> bool" where
  "dict_inv hash ws d \<longleftrightarrow> length (htable d) = tsize d \<and> ucnt d = int (card (set ws)) \<and>
     (\<forall>i<tsize d. proper (htable d ! i) \<and>
        fst ` set (elems (htable d ! i)) = {w \<in> set ws. unat (hash (tsize d) w) = i} \<and>
        (\<forall>w. unat (hash (tsize d) w) = i \<longrightarrow> freq_in (htable d ! i) w = int (count_list ws w)))"

lemma dict_inv_start: "ucnt d = 0 \<Longrightarrow> dict_inv hash [] (new_table n d)"
  by (simp add: dict_inv_def new_table_def)

context word_finder
begin

lemma insert_string_inv:
  assumes "dict_inv hash ws d" and "good_hash hash (tsize d)"
  shows "\<exists>d'. insert_string hash lower find s d = Done d' \<and> dict_inv hash (ws @ [lower s]) d' \<and> tsize d' = tsize d"
proof -
  let ?w = "lower s"
  define i where "i = unat (hash (tsize d) ?w)"
  have i: "i < tsize d" using assms(2) by (simp add: good_hash_def i_def)
  have len: "length (htable d) = tsize d" and cnt: "ucnt d = int (card (set ws))"
    and chains: "\<And>j. j < tsize d \<Longrightarrow> proper (htable d ! j)"
      "\<And>j. j < tsize d \<Longrightarrow> fst ` set (elems (htable d ! j)) = {w \<in> set ws. unat (hash (tsize d) w) = j}"
      "\<And>j w. j < tsize d \<Longrightarrow> unat (hash (tsize d) w) = j \<Longrightarrow> freq_in (htable d ! j) w = int (count_list ws w)"
    using assms(1) by (auto simp: dict_inv_def)
  obtain c d1 where f: "find (htable d ! i) ?w d = Done (c, d1)" using find_done[OF chains(1)[OF i]] by blast
  note f' = find_proper[OF chains(1)[OF i] f] find_words[OF chains(1)[OF i] f] find_freq[OF chains(1)[OF i] f]
    find_ucnt[OF chains(1)[OF i] f] find_table[OF chains(1)[OF i] f]
  let ?d = "d1\<lparr>htable := (htable d)[i := c]\<rparr>"
  have "insert_string hash lower find s d = Done ?d"
    using f f'(5) i len by (simp add: insert_string_def Let_def i_def[symmetric])
  moreover have "?w \<in> fst ` set (elems (htable d ! i)) \<longleftrightarrow> ?w \<in> set ws"
    using chains(2)[OF i] by (auto simp: i_def)
  then have "ucnt ?d = int (card (set (ws @ [?w])))"
    using f'(4) cnt by (simp add: card_insert_if)
  moreover have "proper (htable ?d ! j) \<and>
      fst ` set (elems (htable ?d ! j)) = {w \<in> set (ws @ [?w]). unat (hash (tsize ?d) w) = j} \<and>
      (\<forall>w. unat (hash (tsize ?d) w) = j \<longrightarrow> freq_in (htable ?d ! j) w = int (count_list (ws @ [?w]) w))"
    if "j < tsize ?d" for j
  proof (cases "j = i")
    case True
    then show ?thesis using f' i len chains(2,3)[OF i] by (auto simp: i_def[symmetric])
  next
    case False
    then show ?thesis using f'(5) that len chains[of j] by (auto simp: i_def)
  qed
  ultimately show ?thesis using f'(5) len by (auto simp: dict_inv_def)
qed

lemma insert_strings_inv:
  assumes "dict_inv hash ws d" and "good_hash hash (tsize d)"
  shows "\<exists>d'. fold (\<lambda>s r. case r of Fault \<Rightarrow> Fault | Done d \<Rightarrow> insert_string hash lower find s d) tokens (Done d) = Done d' \<and>
    dict_inv hash (ws @ map lower tokens) d' \<and> tsize d' = tsize d"
  using assms
proof (induction tokens arbitrary: ws d)
  case (Cons s tokens)
  from insert_string_inv[OF Cons.prems, of lower s] obtain d1 where
    d1: "insert_string hash lower find s d = Done d1" "dict_inv hash (ws @ [lower s]) d1" "tsize d1 = tsize d" by blast
  with Cons.prems(2) Cons.IH[OF d1(2)] show ?case by simp
qed simp

end

section \<open>The sorted list\<close>

lemma all_elements_inv:
  assumes "dict_inv hash ws d" and "good_hash hash (tsize d)"
  shows "\<exists>es. all_elements (htable d) = Done es \<and> distinct (map fst es) \<and> int (length es) = ucnt d \<and>
    set es = {(w, int (count_list ws w)) | w. w \<in> set ws}"
proof -
  let ?es = "concat (map elems (htable d))"
  have len: "length (htable d) = tsize d" and cnt: "ucnt d = int (card (set ws))"
    and chains: "\<And>j. j < tsize d \<Longrightarrow> proper (htable d ! j)"
      "\<And>j. j < tsize d \<Longrightarrow> fst ` set (elems (htable d ! j)) = {w \<in> set ws. unat (hash (tsize d) w) = j}"
      "\<And>j w. j < tsize d \<Longrightarrow> unat (hash (tsize d) w) = j \<Longrightarrow> freq_in (htable d ! j) w = int (count_list ws w)"
    using assms(1) by (auto simp: dict_inv_def)
  have "list_all (\<lambda>c. elements c = Done (elems c)) cs \<Longrightarrow> all_elements cs = Done (concat (map elems cs))" for cs
    by (induction cs) auto
  moreover have "list_all (\<lambda>c. elements c = Done (elems c)) (htable d)"
    using chains(1) len by (auto simp: list_all_length proper_def)
  ultimately have all: "all_elements (htable d) = Done ?es" by simp
  have mem: "(w, f) \<in> set (elems (htable d ! j)) \<longleftrightarrow> w \<in> set ws \<and> unat (hash (tsize d) w) = j \<and> f = int (count_list ws w)"
    if "j < tsize d" for j w f
  proof -
    have "distinct (map fst (elems (htable d ! j)))" using chains(1)[OF that] by (simp add: proper_def)
    then have "(w, f) \<in> set (elems (htable d ! j)) \<longleftrightarrow> map_of (elems (htable d ! j)) w = Some f" by simp
    also have "\<dots> \<longleftrightarrow> w \<in> fst ` set (elems (htable d ! j)) \<and> f = freq_in (htable d ! j) w"
      by (auto simp: freq_in_def map_of_eq_None_iff[symmetric] dest: map_of_SomeD intro: rev_image_eqI split: option.splits)
    finally show ?thesis using chains(2,3)[OF that] by auto
  qed
  have "set ?es = {(w, int (count_list ws w)) | w. w \<in> set ws}"
  proof (intro set_eqI, clarify)
    fix w f
    have "(w, f) \<in> set ?es \<longleftrightarrow> (\<exists>j<tsize d. (w, f) \<in> set (elems (htable d ! j)))"
      using len by (force simp: in_set_conv_nth)
    also have "\<dots> \<longleftrightarrow> w \<in> set ws \<and> f = int (count_list ws w)"
      using mem assms(2) by (auto simp: good_hash_def)
    finally show "(w, f) \<in> set ?es \<longleftrightarrow> (w, f) \<in> {(w, int (count_list ws w)) | w. w \<in> set ws}" by auto
  qed
  moreover have dist: "distinct (map fst ?es)"
  proof -
    have "distinct (map fst (concat (map elems cs)))"
      if "\<forall>j<length cs. distinct (map fst (elems (cs ! j))) \<and> (\<forall>w\<in>fst ` set (elems (cs ! j)). h w = k + j)"
      for cs and h :: "string \<Rightarrow> nat" and k
      using that
    proof (induction cs arbitrary: k)
      case (Cons c cs)
      have "distinct (map fst (concat (map elems cs)))"
        by (rule Cons.IH[of "Suc k"]) (use Cons.prems in \<open>fastforce\<close>)
      moreover have "h w = k" if "w \<in> fst ` set (elems c)" for w using Cons.prems that by force
      moreover have "h w \<noteq> k" if "w \<in> fst ` set (concat (map elems cs))" for w
      proof -
        from that obtain j where j: "j < length cs" "w \<in> fst ` set (elems (cs ! j))" by (force simp: in_set_conv_nth)
        with Cons.prems have "\<forall>w\<in>fst ` set (elems ((c # cs) ! Suc j)). h w = k + Suc j" by (metis Suc_less_eq length_Cons)
        with j show ?thesis by auto
      qed
      moreover have "distinct (map fst (elems c))" using Cons.prems by force
      ultimately show ?case by (auto simp del: set_concat)
    qed simp
    from this[of "htable d" "\<lambda>w. unat (hash (tsize d) w)" 0] show ?thesis
      using chains(1,2) len by (simp add: proper_def)
  qed
  moreover have "fst ` set ?es = set ws"
    unfolding calculation(1) by (force simp: image_iff)
  then have "length ?es = card (set ws)"
    using distinct_card[OF dist] by simp
  ultimately show ?thesis using all cnt by auto
qed

definition by_freq :: "(string \<times> int) list \<Rightarrow> bool" where
  "by_freq es \<longleftrightarrow> sorted_wrt (\<lambda>x y. snd x \<ge> snd y) es"

lemma shift_loop_spec:
  assumes "j < length array" and "by_freq (take j array)"
  shows "length (shift_loop j e array) = length array \<and> drop (Suc j) (shift_loop j e array) = drop (Suc j) array \<and>
    mset (take (Suc j) (shift_loop j e array)) = add_mset e (mset (take j array)) \<and>
    by_freq (take (Suc j) (shift_loop j e array))"
  using assms
proof (induction j e array rule: shift_loop.induct)
  case (1 ele array)
  then show ?case by (cases array) (simp_all add: by_freq_def)
next
  case (2 j ele array)
  have take: "take (Suc j) array = take j array @ [array ! j]" using 2(2) by (simp add: take_Suc_conv_app_nth)
  have le: "snd (array ! j) \<le> snd x" if "x \<in> set (take j array)" for x
    using 2(3) that by (simp add: take by_freq_def sorted_wrt_append)
  show ?case
  proof (cases "snd ele > snd (array ! j)")
    case True
    let ?a = "array[Suc j := array ! j]"
    let ?r = "shift_loop j ele ?a"
    have "by_freq (take j ?a)" using 2(3) by (simp add: take by_freq_def sorted_wrt_append)
    with 2(1)[OF True] 2(2) have r: "length ?r = length array" "drop (Suc j) ?r = drop (Suc j) ?a"
      "mset (take (Suc j) ?r) = add_mset ele (mset (take j ?a))" "by_freq (take (Suc j) ?r)" by auto
    have "drop (Suc j) ?r ! 0 = drop (Suc j) ?a ! 0" by (simp only: r(2))
    then have nth: "?r ! Suc j = array ! j" using 2(2) r(1) by simp
    have t: "take (Suc (Suc j)) ?r = take (Suc j) ?r @ [array ! j]" using 2(2) r(1) nth by (simp add: take_Suc_conv_app_nth)
    have "drop (Suc (Suc j)) ?r = drop 1 (drop (Suc j) ?r)" by simp
    also have "\<dots> = drop (Suc (Suc j)) array" unfolding r(2) by simp
    finally have d: "drop (Suc (Suc j)) ?r = drop (Suc (Suc j)) array" .
    have "set (take (Suc j) ?r) = insert ele (set (take j array))" using arg_cong[OF r(3), of set_mset] by simp
    then have "by_freq (take (Suc (Suc j)) ?r)"
      using r(4) le True unfolding t by_freq_def by (auto simp: sorted_wrt_append)
    then show ?thesis using True r(1,3) d t take by simp
  next
    case False
    have t: "take (Suc (Suc j)) (array[Suc j := ele]) = take (Suc j) array @ [ele]"
      using 2(2) by (subst take_Suc_conv_app_nth) simp_all
    have "by_freq (take (Suc j) array @ [ele])"
      using 2(3) le False unfolding take by_freq_def by (force simp: sorted_wrt_append)
    with False t show ?thesis by simp
  qed
qed

lemma fill_loop:
  assumes "cnt + length es \<le> length array" and "quick \<or> by_freq (take cnt array)"
  shows "\<exists>array'. fold (\<lambda>ele (array, cnt). (if quick then array[cnt := ele] else shift_loop cnt ele array, cnt + 1)) es (array, cnt) =
      (array', cnt + length es) \<and> length array' = length array \<and>
    mset (take (cnt + length es) array') = mset (take cnt array) + mset es \<and> (quick \<or> by_freq (take (cnt + length es) array'))"
  using assms
proof (induction es arbitrary: array cnt)
  case (Cons e es)
  let ?a = "if quick then array[cnt := e] else shift_loop cnt e array"
  have a: "length ?a = length array \<and> mset (take (Suc cnt) ?a) = add_mset e (mset (take cnt array)) \<and> (quick \<or> by_freq (take (Suc cnt) ?a))"
  proof (cases quick)
    case True
    have "take (Suc cnt) (array[cnt := e]) = take cnt array @ [e]"
      using Cons.prems(1) by (simp add: take_Suc_conv_app_nth)
    with True show ?thesis by simp
  next
    case False
    with shift_loop_spec[of cnt array e] Cons.prems show ?thesis by simp
  qed
  with Cons.IH[of "Suc cnt" ?a] Cons.prems show ?case by simp
qed simp

lemma sort_words_inv:
  assumes "dict_inv hash ws d" and "good_hash hash (tsize d)" and "ws \<noteq> []"
    and "quick \<longrightarrow> (\<forall>es. mset (qsort es) = mset es \<and> by_freq (qsort es))"
  shows "\<exists>ls d'. sort_words qsort quick d = Done (ls, d') \<and> by_freq ls \<and> distinct (map fst ls) \<and>
    set ls = {(w, int (count_list ws w)) | w. w \<in> set ws} \<and> ucnt d' = int (card (set ws)) \<and>
    scnt d' = int (card {w \<in> set ws. count_list ws w = 1})"
proof -
  from all_elements_inv[OF assms(1,2)] obtain es where es: "all_elements (htable d) = Done es" "distinct (map fst es)"
    "int (length es) = ucnt d" "set es = {(w, int (count_list ws w)) | w. w \<in> set ws}" by blast
  let ?array = "replicate (nat (ucnt d)) ([], 0) :: (string \<times> int) list"
  let ?fold = "fold (\<lambda>ele (array, cnt). (if quick then array[cnt := ele] else shift_loop cnt ele array, cnt + 1)) es (?array, 0)"
  have "0 + length es \<le> length ?array" using es(3) by simp
  moreover have "quick \<or> by_freq (take 0 ?array)" by (simp add: by_freq_def)
  ultimately obtain array where fill: "?fold = (array, 0 + length es)" "length array = length ?array"
    "mset (take (0 + length es) array) = mset (take 0 ?array) + mset es" "quick \<or> by_freq (take (0 + length es) array)"
    using fill_loop[of 0 es ?array quick] by blast
  let ?ls = "if quick then qsort (take (length es) array) else take (length es) array"
  let ?d = "d\<lparr>scnt := int (length (filter (\<lambda>ele. snd ele = 1) es))\<rparr>"
  have ls: "mset ?ls = mset es" "by_freq ?ls" using fill(3,4) assms(4) by auto
  have "(hd ws, int (count_list ws (hd ws))) \<in> set es" unfolding es(4) using assms(3) by auto
  then have "es \<noteq> []" by auto
  then have "sort_words qsort quick d = Done (?ls, ?d)"
    using es(1,3) fill(1,2) by (simp add: sort_words_def Let_def)
  moreover have "distinct (map fst ?ls)"
    using es(2) ls(1) by (metis mset_map mset_eq_imp_distinct_iff)
  moreover have "set ?ls = set es" using ls(1) by (rule mset_eq_setD)
  moreover have "length (filter (\<lambda>ele. snd ele = 1) es) = card {w \<in> set ws. count_list ws w = 1}"
  proof -
    have "distinct (map fst (filter (\<lambda>ele. snd ele = 1) es))" using es(2) by (simp add: distinct_map_filter)
    from distinct_card[OF this] have "length (filter (\<lambda>ele. snd ele = 1) es) = card (fst ` {e \<in> set es. snd e = 1})" by simp
    also have "fst ` {e \<in> set es. snd e = 1} = {w \<in> set ws. count_list ws w = 1}"
      unfolding es(4) by (force simp: image_iff)
    finally show ?thesis .
  qed
  moreover have "ucnt d = int (card (set ws))" using assms(1) by (simp add: dict_inv_def)
  ultimately show ?thesis using ls(2) es(4) by (intro exI[of _ ?ls] exI[of _ ?d]) simp
qed

lemma word_freq_find:
  fixes find :: finder
  assumes "word_finder find" and "good_hash hash n" and "tokens \<noteq> []" and "ucnt d = 0"
    and "quick \<longrightarrow> (\<forall>es. mset (qsort es) = mset es \<and> by_freq (qsort es))" and "ws = map lower tokens"
  shows "\<exists>ls d'. word_freq qsort hash lower find True quick n tokens d = Done (Some ls, d') \<and> by_freq ls \<and> distinct (map fst ls) \<and>
    set ls = {(w, int (count_list ws w)) | w. w \<in> set ws} \<and> ucnt d' = int (card (set ws)) \<and>
    scnt d' = int (card {w \<in> set ws. count_list ws w = 1})"
proof -
  have t: "tsize (new_table n d) = n" by (simp add: new_table_def)
  from word_finder.insert_strings_inv[OF assms(1) dict_inv_start[OF assms(4)], of hash n lower tokens] assms(2) t
  obtain d1 where d1: "fold (\<lambda>s r. case r of Fault \<Rightarrow> Fault | Done d \<Rightarrow> insert_string hash lower find s d) tokens (Done (new_table n d)) = Done d1"
    "dict_inv hash ws d1" "tsize d1 = n" by (auto simp: assms(6))
  have "good_hash hash (tsize d1)" using assms(2) d1(3) by simp
  moreover have "ws \<noteq> []" using assms(3,6) by simp
  ultimately obtain ls d' where "sort_words qsort quick d1 = Done (ls, d')" "by_freq ls" "distinct (map fst ls)"
    "set ls = {(w, int (count_list ws w)) | w. w \<in> set ws}" "ucnt d' = int (card (set ws))"
    "scnt d' = int (card {w \<in> set ws. count_list ws w = 1})"
    using sort_words_inv[OF d1(2) _ _ assms(5)] by blast
  then show ?thesis by (intro exI[of _ ls] exI[of _ d']) (simp add: word_freq_def d1(1))
qed

text \<open>
  With either iterative way of finding an element, any hash function, any conversion to
  lower case and any table size, \<open>word_freq\<close> lists every word of the document in lower case
  exactly once, with the number of its occurrences, in order of decreasing frequency, and
  counts the different words and those that occur once. \<open>qsort\<close> is assumed to sort.
\<close>

theorem word_freq_counts:
  fixes find :: finder
  assumes "find \<in> {find_ele_iter_f, find_ele_iter_r}" and "hash \<in> {h_mod, h_add, h_xor}" and "lower \<in> {lower1, lower2}"
    and "0 < n" and "n < 2 ^ 31" and "tokens \<noteq> []" and "ucnt d = 0"
    and "quick \<longrightarrow> (\<forall>es. mset (qsort es) = mset es \<and> by_freq (qsort es))"
  shows "let ws = map (map lower_char) tokens in
    \<exists>ls d'. word_freq qsort hash lower find True quick n tokens d = Done (Some ls, d') \<and> by_freq ls \<and> distinct (map fst ls) \<and>
      set ls = {(w, int (count_list ws w)) | w. w \<in> set ws} \<and> ucnt d' = int (card (set ws)) \<and>
      scnt d' = int (card {w \<in> set ws. count_list ws w = 1})"
proof -
  have "word_finder find" using assms(1) iter_f.word_finder_axioms iter_r.word_finder_axioms by auto
  moreover have "good_hash hash n" using assms(2,4,5) hash_functions_good[of n] by auto
  moreover have "map (map lower_char) tokens = map lower tokens"
    using assms(3) by (auto simp: lower1_map lower2_map)
  ultimately show ?thesis
    unfolding Let_def using assms(6-8) by (intro word_freq_find)
qed

definition empty_dict :: dict where
  "empty_dict = \<lparr>htable = [], tsize = 0, wcnt = 0, ucnt = 0, mcnt = 0, scnt = 0, mstring = [], llen = 0, lstring = [], lcnt = 0\<rparr>"

lemma sample_counts:
  fixes a b :: string
  assumes "a \<noteq> b"
  shows "set [a, b, a] = {a, b}" and "card {a, b} = 2" and "{w \<in> {a, b}. count_list [a, b, a] w = 1} = {b}"
    and "{(w, int (count_list [a, b, a] w)) | w. w \<in> {a, b}} = {(a, 2), (b, 1)}"
proof -
  have c: "count_list [a, b, a] a = 2" "count_list [a, b, a] b = 1" using assms by auto
  show "set [a, b, a] = {a, b}" "card {a, b} = 2" using assms by auto
  have "{w \<in> {a, b}. P w} = {b}" if "\<not> P a" "P b" for P using that by auto
  from this[of "\<lambda>w. count_list [a, b, a] w = 1"] show "{w \<in> {a, b}. count_list [a, b, a] w = 1} = {b}"
    unfolding c by simp
  have "{(w, g w) | w. w \<in> {a, b}} = {(a, g a), (b, g b)}" for g :: "string \<Rightarrow> int" by auto
  from this[of "\<lambda>w. int (count_list [a, b, a] w)"]
  show "{(w, int (count_list [a, b, a] w)) | w. w \<in> {a, b}} = {(a, 2), (b, 1)}" unfolding c by simp
qed

theorem word_freq_counts_witness:
  "\<exists>ls d'. word_freq id h_xor lower1 find_ele_iter_r True False 2 [''the'', ''end'', ''The''] empty_dict = Done (Some ls, d') \<and>
     by_freq ls \<and> set ls = {(''the'', 2), (''end'', 1)} \<and> ucnt d' = 2 \<and> scnt d' = 1"
proof -
  have ws: "map (map lower_char) [''the'', ''end'', ''The''] = [''the'', ''end'', ''the'']" by code_simp
  have "''the'' \<noteq> ''end''" by simp
  note c = sample_counts[OF this]
  have prems: "find_ele_iter_r \<in> {find_ele_iter_f, find_ele_iter_r}" "h_xor \<in> {h_mod, h_add, h_xor}" "lower1 \<in> {lower1, lower2}"
    "(0::nat) < 2" "(2::nat) < 2 ^ 31" "[''the'', ''end'', ''The''] \<noteq> []" "ucnt empty_dict = 0"
    "False \<longrightarrow> (\<forall>es. mset (id es) = mset es \<and> by_freq (id es))"
    by (simp_all add: empty_dict_def)
  from word_freq_counts[OF prems, unfolded Let_def ws c(1)] obtain ls d' where
    "word_freq id h_xor lower1 find_ele_iter_r True False 2 [''the'', ''end'', ''The''] empty_dict = Done (Some ls, d')"
    "by_freq ls" "set ls = {(w, int (count_list [''the'', ''end'', ''the''] w)) | w. w \<in> {''the'', ''end''}}"
    "ucnt d' = int (card {''the'', ''end''})"
    "scnt d' = int (card {w \<in> {''the'', ''end''}. count_list [''the'', ''end'', ''the''] w = 1})"
    by blast
  then show ?thesis unfolding c(2-4) by (intro exI[of _ ls] exI[of _ d']) simp
qed

text \<open>
  The recursive version leaves the pointer of a new element unset: a second word in the same
  chain follows it.
\<close>

lemma find_ele_rec_wild:
  assumes "v \<noteq> w"
  shows "\<exists>c d'. find_ele_rec Null v d = Done (c, d') \<and> find_ele_rec c w d' = Fault"
  using assms by (simp add: split_beta Let_def)

text \<open>Listing the words of an empty document writes to the element before the array.\<close>

lemma word_freq_empty:
  fixes find :: finder
  shows "word_freq qsort hash lower find True quick n [] d = Fault"
proof -
  have "all_elements (replicate n Null) = Done []" by (induction n) simp_all
  then show ?thesis by (simp add: word_freq_def sort_words_def new_table_def)
qed

end
