(* ===== verification/Tokens.thy ===== *)
theory Tokens
  imports Dictionary
begin

text \<open>
  How \<open>csapp-master/opt/dictionary.c\<close> reads words and n-grams from a file: \<open>fgets\<close> and \<open>strtok\<close> as
  the C library has them, \<open>get_word\<close>, \<open>get_token\<close> with its ring of recent words, and \<open>word_freq\<close> on a
  file. The file is the list of its bytes.
\<close>

section \<open>The library functions\<close>

definition NULC :: char where "NULC = CHR 0x00"

text \<open>\<open>fgets\<close> with room for \<open>n\<close> bytes: \<open>None\<close> at end of file, else the bytes read and the rest.\<close>

definition fgets :: "nat \<Rightarrow> string \<Rightarrow> (string \<times> string) option" where
  "fgets n f =
     (if f = [] then None
      else let k = min (n - 1) (Suc (length (takeWhile (\<lambda>c. c \<noteq> LF) f))) in Some (take k f, drop k f))"

text \<open>\<open>strtok\<close> on the string it keeps: the token, if there is one, and what it keeps.\<close>

definition strtok :: "string \<Rightarrow> string \<Rightarrow> string option \<times> string" where
  "strtok delim s =
     (let s = dropWhile (\<lambda>c. c \<in> set delim) s in
      if s = [] then (None, [])
      else (Some (takeWhile (\<lambda>c. c \<notin> set delim) s), drop 1 (dropWhile (\<lambda>c. c \<notin> set delim) s)))"

definition to_nul :: "string \<Rightarrow> string" where
  "to_nul s = takeWhile (\<lambda>c. c \<noteq> NULC) s"

section \<open>Words\<close>

definition BSIZE :: nat where "BSIZE = 1024"
definition MAXNG :: int where "MAXNG = 10"

text \<open>
  The characters of the literal \<open>skipchar\<close>. In it a backslash, \<open>0\<close> and \<open>xc2\<close> are the character 0
  and the letters \<open>xc2\<close>, so that as a string it ends before them.
\<close>

definition skip_literal :: string where
  "skip_literal = CHR '' '' # CHR 0x09 # CHR 0x0A # CHR 0x0D # ''.,:;/<>()[]{}?!'' @ CHR 0x22 # CHR ''-'' # CHR 0x27 #
     NULC # ''xc2'' @ NULC # ''xa0''"

definition skipchar :: string where
  "skipchar = to_nul skip_literal"

text \<open>The state of the reader: that of \<open>get_word\<close>, and the static variables of \<open>get_token\<close>.\<close>

record word_reader =
  bufvalid :: bool
  saved :: string
  infile :: string
  words_read :: int
  token_buf :: "string list"
  at_first :: bool
  bindex :: int
  sbuf :: string

definition init_token :: "string \<Rightarrow> word_reader \<Rightarrow> word_reader" where
  "init_token src t = t\<lparr>bufvalid := False, infile := src\<rparr>"

definition next_saved :: "word_reader \<Rightarrow> string option \<times> word_reader" where
  "next_saved t =
     (if bufvalid t then (case strtok skipchar (saved t) of (s, sv) \<Rightarrow> (s, t\<lparr>saved := sv\<rparr>)) else (None, t))"

function get_word :: "word_reader \<Rightarrow> string option \<times> word_reader" where
  "get_word t =
     (case next_saved t of
        (Some s, t) \<Rightarrow> (Some s, t\<lparr>words_read := words_read t + 1\<rparr>)
      | (None, t) \<Rightarrow>
          (case fgets BSIZE (infile t) of
             None \<Rightarrow> (None, t)
           | Some (line, rest) \<Rightarrow>
               (case strtok skipchar (to_nul line) of (s, sv) \<Rightarrow>
                  let t = t\<lparr>infile := rest, bufvalid := True, saved := sv\<rparr> in
                  case s of Some s \<Rightarrow> (Some s, t\<lparr>words_read := words_read t + 1\<rparr>) | None \<Rightarrow> get_word t)))"
  by pat_completeness auto

lemma fgets_shorter: "fgets BSIZE f = Some (line, rest) \<Longrightarrow> length rest < length f"
  by (auto simp: fgets_def BSIZE_def Let_def split: if_splits)

lemma next_saved_infile: "(s, u) = next_saved t \<Longrightarrow> infile u = infile t"
  by (auto simp: next_saved_def split: prod.splits if_splits)

termination get_word
  by (relation "measure (\<lambda>t. length (infile t))") (auto dest!: fgets_shorter next_saved_infile)

declare get_word.simps [simp del]

section \<open>The words of a text\<close>

fun fields :: "string \<Rightarrow> string list" where
  "fields [] = [[]]"
| "fields (c # cs) = (if c \<in> set skipchar then [] # fields cs else case fields cs of [] \<Rightarrow> [[c]] | w # ws \<Rightarrow> (c # w) # ws)"

definition text_words :: "string \<Rightarrow> string list" where
  "text_words s = filter (\<lambda>w. w \<noteq> []) (fields s)"

lemma fields_nonempty: "fields s \<noteq> []"
  by (cases s) (auto split: list.split)

lemma fields_append: "c \<in> set skipchar \<Longrightarrow> fields (a @ c # b) = fields a @ fields b"
  by (induction a) (auto simp: fields_nonempty split: list.split)

lemma words_append: "c \<in> set skipchar \<Longrightarrow> text_words (a @ c # b) = text_words a @ text_words b"
  by (simp add: text_words_def fields_append)

lemma words_skip: "text_words (dropWhile (\<lambda>c. c \<in> set skipchar) s) = text_words s"
  by (induction s) (simp_all add: text_words_def)

lemma words_nil [simp]: "text_words [] = []"
  by (simp add: text_words_def)

lemma fields_first:
  "fields s = takeWhile (\<lambda>c. c \<notin> set skipchar) s #
     (case dropWhile (\<lambda>c. c \<notin> set skipchar) s of [] \<Rightarrow> [] | _ # r \<Rightarrow> fields r)"
  by (induction s) (auto split: list.split)

lemma words_first:
  assumes "s \<noteq> []" and "hd s \<notin> set skipchar"
  shows "text_words s = takeWhile (\<lambda>c. c \<notin> set skipchar) s # text_words (drop 1 (dropWhile (\<lambda>c. c \<notin> set skipchar) s))"
proof -
  have "takeWhile (\<lambda>c. c \<notin> set skipchar) s \<noteq> []" using assms by (cases s) auto
  then show ?thesis using arg_cong[OF fields_first[of s], of "filter (\<lambda>w. w \<noteq> [])"]
    unfolding text_words_def by (cases "dropWhile (\<lambda>c. c \<notin> set skipchar) s") (simp_all del: dropWhile_eq_Nil_conv)
qed

lemma strtok_words: "text_words s = (case strtok skipchar s of (None, _) \<Rightarrow> [] | (Some w, sv) \<Rightarrow> w # text_words sv)"
proof (cases "dropWhile (\<lambda>c. c \<in> set skipchar) s = []")
  case True
  then show ?thesis using words_skip[of s] by (simp add: strtok_def del: dropWhile_eq_Nil_conv)
next
  case False
  then show ?thesis using words_skip[of s] words_first[OF False hd_dropWhile[OF False]]
    by (simp add: strtok_def Let_def del: dropWhile_eq_Nil_conv)
qed

lemma strtok_shorter: "strtok d s = (Some w, sv) \<Longrightarrow> length sv < length s"
proof -
  assume w: "strtok d s = (Some w, sv)"
  let ?s = "dropWhile (\<lambda>c. c \<in> set d) s"
  have s: "?s \<noteq> []" "sv = drop 1 (dropWhile (\<lambda>c. c \<notin> set d) ?s)" using w by (simp_all add: strtok_def Let_def split: if_splits)
  have "length (dropWhile (\<lambda>c. c \<notin> set d) ?s) \<le> length ?s" "length ?s \<le> length s" by (rule length_dropWhile_le)+
  moreover have "0 < length ?s" using s(1) by blast
  ultimately show ?thesis unfolding s(2) length_drop by linarith
qed

lemma strtok_none: "strtok d s = (None, sv) \<Longrightarrow> sv = []"
  by (simp add: strtok_def Let_def split: if_splits)

lemma fgets_append: "fgets n f = Some (line, rest) \<Longrightarrow> f = line @ rest"
  by (auto simp: fgets_def Let_def split: if_splits)

lemma to_nul_length: "length (to_nul s) \<le> length s"
  by (simp add: to_nul_def length_takeWhile_le)

text \<open>The pieces in which \<open>fgets\<close> delivers a file, and the words a reader has still to deliver.\<close>

function pieces :: "string \<Rightarrow> string list" where
  "pieces f = (case fgets BSIZE f of None \<Rightarrow> [] | Some (line, rest) \<Rightarrow> line # pieces rest)"
  by pat_completeness auto
termination by (relation "measure length") (auto dest!: fgets_shorter)

declare pieces.simps [simp del]

definition words_pending :: "word_reader \<Rightarrow> string list" where
  "words_pending t = (if bufvalid t then text_words (saved t) else []) @ concat (map (\<lambda>l. text_words (to_nul l)) (pieces (infile t)))"

definition left :: "word_reader \<Rightarrow> nat" where
  "left t = (if bufvalid t then length (saved t) else 0) + length (infile t)"

text \<open>\<open>same_ring t t'\<close>: \<open>get_word\<close> leaves the variables of \<open>get_token\<close> alone.\<close>

definition same_ring :: "word_reader \<Rightarrow> word_reader \<Rightarrow> bool" where
  "same_ring t t' \<longleftrightarrow> token_buf t' = token_buf t \<and> at_first t' = at_first t \<and> bindex t' = bindex t \<and> sbuf t' = sbuf t"

lemma get_word_spec:
  "case get_word t of (None, t') \<Rightarrow> words_pending t = [] \<and> words_pending t' = [] \<and> same_ring t t' \<and> words_read t' = words_read t \<and> left t' \<le> left t
   | (Some w, t') \<Rightarrow> words_pending t = w # words_pending t' \<and> same_ring t t' \<and> words_read t' = words_read t + 1 \<and> left t' < left t"
proof (induction t rule: measure_induct_rule[where f = "\<lambda>t. length (infile t)"])
  case (less t)
  obtain r u where n: "next_saved t = (r, u)" by (cases "next_saved t")
  obtain sw sv where k: "strtok skipchar (saved t) = (sw, sv)" by (cases "strtok skipchar (saved t)")
  show ?case
  proof (cases r)
    case (Some w)
    then have b: "bufvalid t" and u: "u = t\<lparr>saved := sv\<rparr>" "sw = Some w"
      using n k by (simp_all add: next_saved_def split: if_splits)
    have "get_word t = (Some w, u\<lparr>words_read := words_read u + 1\<rparr>)" using n Some by (subst get_word.simps) simp
    then show ?thesis using strtok_words[of "saved t"] strtok_shorter[OF k[unfolded u(2)]] b k
      by (simp add: u words_pending_def same_ring_def left_def)
  next
    case None
    have u: "infile u = infile t" "same_ring t u" "words_read u = words_read t" "(if bufvalid t then text_words (saved t) else []) = []"
        "(if bufvalid u then text_words (saved u) else []) = []" "left u \<le> left t"
      using n k None strtok_words[of "saved t"] strtok_none[of skipchar "saved t" sv]
      by (auto simp: next_saved_def same_ring_def left_def split: if_splits)
    show ?thesis
    proof (cases "fgets BSIZE (infile t)")
      case no: None
      then have "get_word t = (None, u)" using n None u(1) by (subst get_word.simps) simp
      moreover have "pieces (infile t) = []" by (subst pieces.simps) (simp add: no)
      ultimately show ?thesis using u by (simp add: words_pending_def)
    next
      case (Some lr)
      obtain line rest where f: "fgets BSIZE (infile t) = Some (line, rest)" using Some by (cases lr) simp
      have pc: "pieces (infile t) = line # pieces rest" by (subst pieces.simps) (simp add: f)
      have l: "length (infile t) = length line + length rest" using fgets_append[OF f] by simp
      obtain r2 sv2 where k2: "strtok skipchar (to_nul line) = (r2, sv2)" by (cases "strtok skipchar (to_nul line)")
      let ?v = "u\<lparr>infile := rest, bufvalid := True, saved := sv2\<rparr>"
      have p: "words_pending t = text_words (to_nul line) @ concat (map (\<lambda>l. text_words (to_nul l)) (pieces rest))"
        unfolding words_pending_def pc u(4) by simp
      show ?thesis
      proof (cases r2)
        case no: None
        have g: "get_word t = get_word ?v" using n f k2 \<open>r = None\<close> u(1) no by (subst get_word.simps) simp
        have "sv2 = []" using strtok_none[of skipchar "to_nul line" sv2] k2 no by simp
        then have "words_pending ?v = words_pending t" "left ?v \<le> left t" "same_ring t ?v" "words_read ?v = words_read t"
          using u(2,3) l k2 no p strtok_words[of "to_nul line"] by (simp_all add: words_pending_def left_def same_ring_def)
        moreover have "length (infile ?v) < length (infile t)" using fgets_shorter[OF f] by simp
        ultimately show ?thesis using less[of ?v] unfolding g by (auto simp: same_ring_def split: option.splits prod.splits)
      next
        case (Some w)
        then have g: "get_word t = (Some w, ?v\<lparr>words_read := words_read ?v + 1\<rparr>)" using n f k2 \<open>r = None\<close> u(1) by (subst get_word.simps) simp
        have "length sv2 < length line" using strtok_shorter[OF k2[unfolded Some]] to_nul_length[of line] by simp
        then show ?thesis using u(2,3) l k2 Some p strtok_words[of "to_nul line"] unfolding g
          by (simp add: words_pending_def left_def same_ring_def)
      qed
    qed
  qed
qed

section \<open>n-grams\<close>

text \<open>
  The first loop of \<open>get_token\<close>, which fills the ring: false if the words run out. A word is shorter
  than \<open>BSIZE\<close>, as the line it comes from is; an index outside \<open>token_buf\<close> is a fault.
\<close>

definition store_token :: "string \<Rightarrow> word_reader \<Rightarrow> word_reader outcome" where
  "store_token w t =
     (if 0 \<le> bindex t \<and> nat (bindex t) < length (token_buf t)
      then Done (t\<lparr>token_buf := (token_buf t)[nat (bindex t) := w], bindex := bindex t + 1\<rparr>) else Fault)"

function fill_ring :: "int \<Rightarrow> word_reader \<Rightarrow> (bool \<times> word_reader) outcome" where
  "fill_ring ngram t =
     (if bindex t < ngram - 1
      then (case get_word t of
              (None, t) \<Rightarrow> Done (False, t)
            | (Some w, t) \<Rightarrow> (case store_token w t of Fault \<Rightarrow> Fault | Done t \<Rightarrow> fill_ring ngram t))
      else Done (True, t))"
  by pat_completeness auto

lemma get_word_ring: "(r, t') = get_word t \<Longrightarrow> same_ring t t'"
  using get_word_spec[of t] by (auto split: option.splits)

lemma get_word_left: "(Some w, t') = get_word t \<Longrightarrow> left t' < left t"
  using get_word_spec[of t] by (auto split: option.splits)

lemma get_word_left_none: "get_word t = (None, t') \<Longrightarrow> left t' \<le> left t"
  using get_word_spec[of t] by simp

termination fill_ring
  by (relation "measure (\<lambda>(ngram, t). nat (ngram - bindex t))")
    (auto dest!: get_word_ring simp: same_ring_def store_token_def split: if_splits)

declare fill_ring.simps [simp del]

text \<open>The last loop, which writes the words at \<open>index\<close> and after it into \<open>sbuf\<close>.\<close>

function join_ring :: "int \<Rightarrow> int \<Rightarrow> int \<Rightarrow> string list \<Rightarrow> string \<Rightarrow> string outcome" where
  "join_ring ngram i index ring s =
     (if i < ngram
      then let s = (if i \<noteq> 0 then s @ '' '' else s) in
           if index < 0 \<or> length ring \<le> nat index then Fault
           else let word = ring ! nat index in
                if BSIZE \<le> length s + length word then Fault
                else join_ring ngram (i + 1) (if index + 1 \<ge> MAXNG then 0 else index + 1) ring (s @ word)
      else Done s)"
  by pat_completeness auto
termination by (relation "measure (\<lambda>(ngram, i, index, ring, s). nat (ngram - i))") auto

declare join_ring.simps [simp del]

definition next_gram :: "int \<Rightarrow> word_reader \<Rightarrow> (string option \<times> word_reader) outcome" where
  "next_gram ngram t =
     (case get_word t of
        (None, t) \<Rightarrow> Done (None, t)
      | (Some w, t) \<Rightarrow>
          (case store_token w t of
             Fault \<Rightarrow> Fault
           | Done t \<Rightarrow>
               let t = (if bindex t \<ge> MAXNG then t\<lparr>bindex := 0\<rparr> else t);
                   index = bindex t - ngram;
                   index = (if index < 0 then index + MAXNG else index)
               in if ngram \<le> 0 then Done (Some (sbuf t), t)
                  else case join_ring ngram 0 index (token_buf t) [] of
                         Fault \<Rightarrow> Fault
                       | Done s \<Rightarrow> Done (Some s, t\<lparr>sbuf := s\<rparr>)))"

definition get_token :: "int \<Rightarrow> word_reader \<Rightarrow> (string option \<times> word_reader) outcome" where
  "get_token ngram t =
     (if ngram = 1 then Done (get_word t)
      else if at_first t then
        (case fill_ring ngram t of
           Fault \<Rightarrow> Fault
         | Done (False, t) \<Rightarrow> Done (None, t)
         | Done (True, t) \<Rightarrow> next_gram ngram (t\<lparr>at_first := False\<rparr>))
      else next_gram ngram t)"

section \<open>The loop over a file\<close>

lemma store_token_left: "store_token w t = Done t' \<Longrightarrow> left t' = left t"
  by (auto simp: store_token_def left_def split: if_splits)

lemma fill_ring_left: "fill_ring ngram t = Done (b, t') \<Longrightarrow> left t' \<le> left t"
proof (induction ngram t rule: fill_ring.induct)
  case (1 ngram t)
  obtain r u where g: "get_word t = (r, u)" by (cases "get_word t")
  show ?case
  proof (cases "bindex t < ngram - 1")
    case b: True
    show ?thesis
    proof (cases r)
      case None
      then have "t' = u" using 1(2) b g by (subst (asm) fill_ring.simps) simp
      moreover have "left u \<le> left t" using g get_word_left_none[of t u] None by simp
      ultimately show ?thesis by simp
    next
      case (Some w)
      then obtain v where v: "store_token w u = Done v" using 1(2) b g by (cases "store_token w u") (simp_all add: fill_ring.simps[of ngram t])
      then have "fill_ring ngram v = Done (b, t')" using 1(2) \<open>bindex t < ngram - 1\<close> g Some by (simp add: fill_ring.simps[of ngram t])
      then have "left t' \<le> left v" using 1(1)[OF \<open>bindex t < ngram - 1\<close> g[symmetric] Some v] by simp
      then show ?thesis using store_token_left[OF v] get_word_left[of w u t] g Some by simp
    qed
  qed (use 1 in \<open>simp add: fill_ring.simps[of ngram t]\<close>)
qed

lemma get_token_left: "get_token ngram t = Done (Some s, t') \<Longrightarrow> left t' < left t"
proof -
  have gram: "left t' < left t" if gr: "next_gram ngram t = Done (Some s, t')" for t
  proof -
    obtain w u where g: "get_word t = (Some w, u)" using gr by (cases "get_word t"; cases "fst (get_word t)") (auto simp: next_gram_def)
    obtain v where v: "store_token w u = Done v" using gr g by (cases "store_token w u") (auto simp: next_gram_def)
    have "left t' = left v" using gr g v
      by (auto simp: next_gram_def Let_def left_def split: if_splits outcome.splits)
    then show ?thesis using store_token_left[OF v] get_word_left[of w u t] g by simp
  qed
  assume "get_token ngram t = Done (Some s, t')"
  then consider "get_word t = (Some s, t')" | "next_gram ngram t = Done (Some s, t')"
    | u where "fill_ring ngram t = Done (True, u)" "next_gram ngram (u\<lparr>at_first := False\<rparr>) = Done (Some s, t')"
    by (auto simp: get_token_def split: if_splits outcome.splits prod.splits bool.splits)
  then show ?thesis
  proof cases
    case 1
    then show ?thesis using get_word_left[of s t' t] by simp
  next
    case 2
    then show ?thesis by (rule gram)
  next
    case 3
    have "left (u\<lparr>at_first := False\<rparr>) = left u" by (simp add: left_def)
    then show ?thesis using gram[OF 3(2)] fill_ring_left[OF 3(1)] by simp
  qed
qed

text \<open>
  The loop of \<open>word_freq\<close>, and \<open>word_freq\<close> on a file; \<open>wcnt\<close> is kept by the reader while it runs.
  (\<open>insert_string\<close> also leaves its string in lower case where it stands; nothing reads it again.)
\<close>

function insert_loop ::
    "int \<Rightarrow> (nat \<Rightarrow> string \<Rightarrow> uint32) \<Rightarrow> (string \<Rightarrow> string) \<Rightarrow> finder \<Rightarrow> word_reader \<Rightarrow> dict \<Rightarrow> (dict \<times> word_reader) outcome" where
  "insert_loop ngram hash_fun lower_fun find_ele_fun t d =
     (case get_token ngram t of
        Fault \<Rightarrow> Fault
      | Done (None, t) \<Rightarrow> Done (d, t)
      | Done (Some s, t) \<Rightarrow>
          (case insert_string hash_fun lower_fun find_ele_fun s d of
             Fault \<Rightarrow> Fault
           | Done d \<Rightarrow> insert_loop ngram hash_fun lower_fun find_ele_fun t d))"
  by pat_completeness auto
termination
  by (relation "measure (\<lambda>(ngram, hash_fun, lower_fun, find_ele_fun, t, d). left t)") (auto dest: get_token_left)

declare insert_loop.simps [simp del]

definition word_freq_file ::
    "((string \<times> int) list \<Rightarrow> (string \<times> int) list) \<Rightarrow> (nat \<Rightarrow> string \<Rightarrow> uint32) \<Rightarrow> (string \<Rightarrow> string) \<Rightarrow> finder \<Rightarrow>
     bool \<Rightarrow> bool \<Rightarrow> int \<Rightarrow> nat \<Rightarrow> string \<Rightarrow> word_reader \<Rightarrow> dict \<Rightarrow> ((string \<times> int) list option \<times> dict \<times> word_reader) outcome" where
  "word_freq_file qsort hash_fun lower_fun find_ele_fun verbose quick ngram n src t d =
     (case insert_loop ngram hash_fun lower_fun find_ele_fun (init_token src t) (new_table n d) of
        Fault \<Rightarrow> Fault
      | Done (d, t) \<Rightarrow>
          if verbose then (case sort_words qsort quick d of Fault \<Rightarrow> Fault | Done (ls, d) \<Rightarrow> Done (Some ls, d, t))
          else Done (None, d, t))"

section \<open>Pieces and lines\<close>

lemma LF_skipped: "LF \<in> set skipchar"
  by (simp add: LF_char skipchar_def skip_literal_def to_nul_def NULC_def)

text \<open>Neither the character after the escape \<open>xc2\<close> meant for it nor that of \<open>xa0\<close> is skipped.\<close>

lemma nbsp_not_skipped: "CHR 0xC2 \<notin> set skipchar" "CHR 0xA0 \<notin> set skipchar"
  by (simp_all add: skipchar_def skip_literal_def to_nul_def NULC_def)

text \<open>A file without the character 0 whose lines have less than \<open>BSIZE - 1\<close> characters.\<close>

fun short_lines :: "nat \<Rightarrow> string \<Rightarrow> bool" where
  "short_lines k [] = True"
| "short_lines k (c # cs) \<longleftrightarrow> c \<noteq> NULC \<and> (if c = LF then short_lines 0 cs else Suc k < BSIZE - 1 \<and> short_lines (Suc k) cs)"

lemma short_lines_first:
  "short_lines k f \<Longrightarrow> let l = takeWhile (\<lambda>c. c \<noteq> LF) f in
     (l = [] \<or> k + length l < BSIZE - 1) \<and> NULC \<notin> set l \<and> short_lines 0 (drop (Suc (length l)) f)"
proof (induction k f rule: short_lines.induct)
  case (2 k c cs)
  then show ?case by (auto simp: Let_def)
qed simp

lemma to_nul_id: "NULC \<notin> set s \<Longrightarrow> to_nul s = s"
  unfolding to_nul_def by (simp add: takeWhile_eq_all_conv) blast

lemma pieces_words: "short_lines 0 f \<Longrightarrow> concat (map (\<lambda>l. text_words (to_nul l)) (pieces f)) = text_words f"
proof (induction f rule: length_induct)
  case (1 f)
  show ?case
  proof (cases "f = []")
    case False
    let ?l = "takeWhile (\<lambda>c. c \<noteq> LF) f"
    have s: "?l = [] \<or> length ?l < BSIZE - 1" "NULC \<notin> set ?l" "short_lines 0 (drop (Suc (length ?l)) f)"
      using short_lines_first[OF 1(2)] by (simp_all add: Let_def)
    have "Suc (length ?l) \<le> BSIZE - 1" using s(1) by (auto simp: BSIZE_def)
    then have "fgets BSIZE f = Some (take (Suc (length ?l)) f, drop (Suc (length ?l)) f)"
      using False by (simp add: fgets_def min_def Let_def)
    then have p: "pieces f = take (Suc (length ?l)) f # pieces (drop (Suc (length ?l)) f)" by (subst pieces.simps) simp
    have ih: "concat (map (\<lambda>l. text_words (to_nul l)) (pieces (drop (Suc (length ?l)) f))) = text_words (drop (Suc (length ?l)) f)"
      using 1(1) s(3) False by simp
    show ?thesis
    proof (cases "dropWhile (\<lambda>c. c \<noteq> LF) f")
      case Nil
      have lf: "?l = f" using takeWhile_dropWhile_id[of "\<lambda>c. c \<noteq> LF" f] unfolding Nil by simp
      have "pieces f = [f]" unfolding p unfolding lf by (simp add: pieces.simps[of "[]"] fgets_def)
      then show ?thesis using to_nul_id[of f] s(2) unfolding lf by simp
    next
      case (Cons c r)
      have cut: "take (Suc (length l)) (l @ c # r) = l @ [c]" "drop (Suc (length l)) (l @ c # r) = r" for l r :: string and c by simp_all
      have c: "c = LF" using hd_dropWhile[of "\<lambda>c. c \<noteq> LF" f] Cons by simp
      have f: "f = ?l @ LF # r" using takeWhile_dropWhile_id[of "\<lambda>c. c \<noteq> LF" f] unfolding Cons c by simp
      then have t: "take (Suc (length ?l)) f = ?l @ [LF]" "drop (Suc (length ?l)) f = r" 
        using cut[of ?l LF r] unfolding f[symmetric] by simp_all
      have "to_nul (?l @ [LF]) = ?l @ [LF]" using s(2) by (intro to_nul_id) (simp add: LF_char NULC_def)
      then have "concat (map (\<lambda>l. text_words (to_nul l)) (pieces f)) = text_words (?l @ [LF]) @ text_words r"
        unfolding p t using ih t(2) by simp
      also have "\<dots> = text_words (?l @ LF # r)" using words_append[OF LF_skipped, of ?l r] words_append[OF LF_skipped, of ?l "[]"] by simp
      finally show ?thesis unfolding f[symmetric] .
    qed
  qed (simp add: pieces.simps[of "[]"] fgets_def)
qed

section \<open>What the ring holds\<close>

definition join_words :: "string list \<Rightarrow> string" where
  "join_words ws = (case ws of [] \<Rightarrow> [] | w # r \<Rightarrow> w @ concat (map (\<lambda>v. CHR '' '' # v) r))"

definition grams :: "nat \<Rightarrow> string list \<Rightarrow> string list" where
  "grams n ws = map (\<lambda>i. join_words (take n (drop i ws))) [0..<Suc (length ws) - n]"

text \<open>The n-grams that end after \<open>cs\<close>, word by word.\<close>

fun grams_after :: "nat \<Rightarrow> string list \<Rightarrow> string list \<Rightarrow> string list" where
  "grams_after n cs [] = []"
| "grams_after n cs (w # ps) = join_words (drop (Suc (length cs) - n) (cs @ [w])) # grams_after n (cs @ [w]) ps"

lemma grams_after_map:
  "0 < n \<Longrightarrow> n \<le> Suc (length cs) \<Longrightarrow>
   grams_after n cs ps = map (\<lambda>i. join_words (take n (drop i (cs @ ps)))) [Suc (length cs) - n..<Suc (length (cs @ ps)) - n]"
proof (induction ps arbitrary: cs)
  case (Cons w ps)
  let ?k = "Suc (length cs) - n"
  have "[?k..<Suc (length (cs @ w # ps)) - n] = ?k # [Suc ?k..<Suc (length (cs @ w # ps)) - n]"
    using Cons(2,3) by (intro upt_conv_Cons) simp
  moreover have "Suc ?k = Suc (length (cs @ [w])) - n" using Cons(3) by simp
  moreover have "take n (drop ?k (cs @ w # ps)) = drop ?k (cs @ [w])" using Cons(2,3) by simp
  ultimately show ?case using Cons(1)[of "cs @ [w]"] Cons(2,3) by simp
qed simp

lemma grams_split:
  assumes "0 < n"
  shows "grams n ws = (if length ws < n - 1 then [] else grams_after n (take (n - 1) ws) (drop (n - 1) ws))"
  using assms by (simp add: grams_def grams_after_map)

lemma join_words_snoc: "join_words (xs @ [x]) = (if xs = [] then x else join_words xs @ '' '' @ x)"
  by (cases xs) (simp_all add: join_words_def)

lemma join_words_one [simp]: "join_words [w] = w" "join_words [] = []"
  by (simp_all add: join_words_def)

lemma join_words_take: "length (join_words (take i ws)) \<le> length (join_words ws)"
proof (induction ws rule: rev_induct)
  case (snoc w ws)
  then show ?case by (cases "i \<le> length ws") (auto simp: join_words_snoc)
qed simp

definition ring_holds :: "string list \<Rightarrow> string list \<Rightarrow> bool" where
  "ring_holds cs ring \<longleftrightarrow> length ring = 10 \<and> (\<forall>i<length cs. length cs \<le> i + 10 \<longrightarrow> ring ! (i mod 10) = cs ! i)"

definition ngram_ring :: "string list \<Rightarrow> word_reader \<Rightarrow> bool" where
  "ngram_ring cs t \<longleftrightarrow> ring_holds cs (token_buf t) \<and> bindex t = int (length cs mod 10)"

lemma mod_ring: "i < k \<Longrightarrow> k < i + 10 \<Longrightarrow> i mod 10 \<noteq> k mod (10 :: nat)"
  using mod_eq_dvd_iff_nat[of i k 10] nat_dvd_not_less[of "k - i" 10] by (auto dest: sym)

lemma ring_store:
  assumes "ring_holds cs ring"
  shows "ring_holds (cs @ [w]) (ring[length cs mod 10 := w])"
  unfolding ring_holds_def
proof (intro conjI allI impI)
  show "length (ring[length cs mod 10 := w]) = 10" using assms by (simp add: ring_holds_def)
  fix i assume i: "i < length (cs @ [w])" "length (cs @ [w]) \<le> i + 10"
  show "ring[length cs mod 10 := w] ! (i mod 10) = (cs @ [w]) ! i"
  proof (cases "i = length cs")
    case False
    then have "i < length cs" using i(1) by simp
    then show ?thesis using mod_ring[of i "length cs"] i(2) assms by (simp add: ring_holds_def nth_append)
  qed (use assms in \<open>simp add: ring_holds_def\<close>)
qed

lemma store_token_ring:
  assumes "ngram_ring cs t"
  obtains t' where "store_token w t = Done t'" "ring_holds (cs @ [w]) (token_buf t')" "bindex t' = int (length cs mod 10) + 1"
    "words_pending t' = words_pending t" "words_read t' = words_read t" "at_first t' = at_first t"
proof
  let ?t = "t\<lparr>token_buf := (token_buf t)[length cs mod 10 := w], bindex := bindex t + 1\<rparr>"
  show "store_token w t = Done ?t" using assms by (simp add: store_token_def ngram_ring_def ring_holds_def)
  show "ring_holds (cs @ [w]) (token_buf ?t)" using assms by (simp add: ngram_ring_def ring_store)
  show "bindex ?t = int (length cs mod 10) + 1" using assms by (simp add: ngram_ring_def)
qed (simp_all add: words_pending_def)

lemma join_ring_spec:
  assumes "ring_holds cs ring" and "n \<le> 10" and "n \<le> length cs" and "length (join_words (drop (length cs - n) cs)) < BSIZE" and "i \<le> n"
  shows "join_ring (int n) (int i) (int ((length cs - n + i) mod 10)) ring (join_words (take i (drop (length cs - n) cs))) =
    Done (join_words (drop (length cs - n) cs))"
  using assms(5)
proof (induction i rule: inc_induct)
  case base
  then show ?case using assms(3) by (subst join_ring.simps) simp
next
  case (step i)
  let ?d = "drop (length cs - n) cs" and ?k = "length cs - n + i"
  have d: "length ?d = n" "take (Suc i) ?d = take i ?d @ [cs ! ?k]"
    using assms(3) step(2) by (simp_all add: take_Suc_conv_app_nth)
  have k: "ring ! (?k mod 10) = cs ! ?k" "length ring = 10" using assms(1-3) step(2) by (simp_all add: ring_holds_def)
  let ?s = "if int i \<noteq> 0 then join_words (take i ?d) @ '' '' else join_words (take i ?d)"
  have j: "join_words (take (Suc i) ?d) = ?s @ cs ! ?k"
    unfolding d(2) join_words_snoc using d(1) step(2) assms(3) by auto
  have "length (join_words (take (Suc i) ?d)) < BSIZE" using join_words_take[of "Suc i" ?d] assms(4) by simp
  then have fits: "\<not> BSIZE \<le> length ?s + length (cs ! ?k)" unfolding j by simp
  have m: "?k mod 10 < 10" by simp
  have idx: "\<not> (int (?k mod 10) < 0 \<or> length ring \<le> ?k mod 10)" using m k(2) by simp
  have nxt: "(if int (?k mod 10) + 1 \<ge> MAXNG then 0 else int (?k mod 10) + 1) = int ((length cs - n + Suc i) mod 10)"
    using m by (auto simp: MAXNG_def mod_Suc)
  have sc: "int i + 1 = int (Suc i)" by simp
  have "join_ring (int n) (int i) (int (?k mod 10)) ring (join_words (take i ?d)) =
      join_ring (int n) (int (Suc i)) (int ((length cs - n + Suc i) mod 10)) ring (join_words (take (Suc i) ?d))"
    using step(2) by (subst join_ring.simps) (simp only: Let_def idx fits nxt nat_int k(1) j[symmetric] if_True if_False of_nat_less_iff sc)
  then show ?case using step(3) by simp
qed

lemma words_pending_update [simp]:
  "words_pending (t\<lparr>bindex := b\<rparr>) = words_pending t" "words_pending (t\<lparr>sbuf := s\<rparr>) = words_pending t"
  "words_pending (t\<lparr>at_first := a\<rparr>) = words_pending t"
  by (simp_all add: words_pending_def)

lemma wrap_mod: "- 10 \<le> x \<Longrightarrow> x < 10 \<Longrightarrow> (if x < 0 then x + MAXNG else x) = x mod 10"
proof -
  assume x: "- 10 \<le> x" "x < 10"
  show ?thesis
  proof (cases "x < 0")
    case True
    have "x mod 10 = (x + 10) mod 10" by simp
    also have "\<dots> = x + 10" using True x(1) by (intro mod_pos_pos_trivial) auto
    finally show ?thesis using True by (simp add: MAXNG_def)
  qed (use x in simp)
qed

lemma next_gram_spec:
  assumes "ngram_ring cs t" and "2 \<le> n" and "n \<le> 10" and "n \<le> Suc (length cs)" and "words_pending t = w # ps"
    and "length (join_words (drop (Suc (length cs) - n) (cs @ [w]))) < BSIZE"
  obtains t' where "next_gram (int n) t = Done (Some (join_words (drop (Suc (length cs) - n) (cs @ [w]))), t')"
    "ngram_ring (cs @ [w]) t'" "words_pending t' = ps" "at_first t' = at_first t" "words_read t' = words_read t + 1"
proof -
  obtain u where g: "get_word t = (Some w, u)" "words_pending u = ps" "same_ring t u" "words_read u = words_read t + 1"
    using get_word_spec[of t] assms(5) by (cases "get_word t"; cases "fst (get_word t)") auto
  have "ngram_ring cs u" using assms(1) g(3) by (simp add: ngram_ring_def same_ring_def)
  then obtain v where v: "store_token w u = Done v" "ring_holds (cs @ [w]) (token_buf v)" "bindex v = int (length cs mod 10) + 1"
      "words_pending v = words_pending u" "words_read v = words_read u" "at_first v = at_first u"
    by (rule store_token_ring)
  let ?b = "int (Suc (length cs) mod 10)" and ?j = "join_words (drop (Suc (length cs) - n) (cs @ [w]))"
  have m: "length cs mod 10 < 10" by simp
  have b: "(if MAXNG \<le> bindex v then v\<lparr>bindex := 0\<rparr> else v) = v\<lparr>bindex := ?b\<rparr>"
    using v(3) m by (auto simp: MAXNG_def mod_Suc)
  have "(?b - int n) mod 10 = (int (Suc (length cs)) - int n) mod 10" unfolding zmod_int by (simp only: mod_diff_left_eq of_nat_numeral)
  also have "\<dots> = int ((Suc (length cs) - n) mod 10)" using assms(4) by (simp only: of_nat_diff[symmetric] zmod_int of_nat_numeral)
  finally have "(?b - int n) mod 10 = int ((Suc (length cs) - n) mod 10)" .
  moreover have "(if ?b - int n < 0 then ?b - int n + MAXNG else ?b - int n) = (?b - int n) mod 10"
  proof -
    have "- 10 \<le> ?b - int n" "?b - int n < 10" using assms(2,3) mod_less_divisor[of 10 "Suc (length cs)"] by linarith+
    then show ?thesis by (rule wrap_mod)
  qed
  ultimately have i: "(if ?b - int n < 0 then ?b - int n + MAXNG else ?b - int n) = int ((Suc (length cs) - n) mod 10)" by simp
  have "join_ring (int n) 0 (int ((Suc (length cs) - n) mod 10)) (token_buf v) [] = Done ?j"
    using join_ring_spec[OF v(2) assms(3), of 0] assms(4,6) by simp
  moreover have f: "bindex (v\<lparr>bindex := ?b\<rparr>) = ?b" "token_buf (v\<lparr>bindex := ?b\<rparr>) = token_buf v" "\<not> int n \<le> 0" using assms(2) by simp_all
  ultimately have "next_gram (int n) t = Done (Some ?j, v\<lparr>bindex := ?b, sbuf := ?j\<rparr>)"
    unfolding next_gram_def g(1) by (simp only: prod.case option.case outcome.case v(1) b f i Let_def if_False)
  then show ?thesis
  proof (rule that)
    show "ngram_ring (cs @ [w]) (v\<lparr>bindex := ?b, sbuf := ?j\<rparr>)" using v(2) by (simp add: ngram_ring_def)
  qed (use v g in \<open>simp_all add: same_ring_def\<close>)
qed

lemma next_gram_end: "words_pending t = [] \<Longrightarrow> \<exists>t'. next_gram n t = Done (None, t') \<and> words_read t' = words_read t"
  using get_word_spec[of t] by (cases "get_word t"; cases "fst (get_word t)") (auto simp: next_gram_def)

lemma fill_ring_spec:
  assumes "ngram_ring cs t" and "length cs < n" and "n \<le> 10"
  shows "\<exists>t'. if length cs + length (words_pending t) < n - 1
     then fill_ring (int n) t = Done (False, t') \<and> words_read t' = words_read t + int (length (words_pending t))
     else fill_ring (int n) t = Done (True, t') \<and> ngram_ring (cs @ take (n - 1 - length cs) (words_pending t)) t' \<and>
       words_pending t' = drop (n - 1 - length cs) (words_pending t) \<and>
       words_read t' = words_read t + int (n - 1 - length cs)"
  using assms(1,2)
proof (induction "n - length cs" arbitrary: cs t)
  case (Suc k)
  have bi: "bindex t = int (length cs)" using Suc(3,4) assms(3) by (simp add: ngram_ring_def)
  show ?case
  proof (cases "length cs < n - 1")
    case less: True
    then have lt: "bindex t < int n - 1" using bi by simp
    show ?thesis
    proof (cases "words_pending t")
      case Nil
      then obtain u where "get_word t = (None, u)" "words_read u = words_read t"
        using get_word_spec[of t] by (cases "get_word t"; cases "fst (get_word t)") auto
      then show ?thesis using less lt Nil by (simp add: fill_ring.simps[of "int n" t])
    next
      case (Cons w ps)
      obtain u where g: "get_word t = (Some w, u)" "words_pending u = ps" "same_ring t u" "words_read u = words_read t + 1"
        using get_word_spec[of t] Cons by (cases "get_word t"; cases "fst (get_word t)") auto
      have "ngram_ring cs u" using Suc(3) g(3) by (simp add: ngram_ring_def same_ring_def)
      then obtain v where v: "store_token w u = Done v" "ring_holds (cs @ [w]) (token_buf v)" "bindex v = int (length cs mod 10) + 1"
          "words_pending v = words_pending u" "words_read v = words_read u" "at_first v = at_first u"
        by (rule store_token_ring)
      have ok: "ngram_ring (cs @ [w]) v" using v(2,3) less assms(3) by (simp add: ngram_ring_def)
      have st: "fill_ring (int n) t = fill_ring (int n) v" using lt g(1) v(1) by (simp add: fill_ring.simps[of "int n" t])
      have d: "n - 1 - length cs = Suc (n - 1 - length (cs @ [w]))" using less by simp
      have "k = n - length (cs @ [w])" "length (cs @ [w]) < n" using Suc(2) less by simp_all
      from Suc(1)[OF this(1) ok this(2)] obtain t' where
        t': "if length (cs @ [w]) + length (words_pending v) < n - 1
          then fill_ring (int n) v = Done (False, t') \<and> words_read t' = words_read v + int (length (words_pending v))
          else fill_ring (int n) v = Done (True, t') \<and> ngram_ring ((cs @ [w]) @ take (n - 1 - length (cs @ [w])) (words_pending v)) t' \<and>
            words_pending t' = drop (n - 1 - length (cs @ [w])) (words_pending v) \<and> words_read t' = words_read v + int (n - 1 - length (cs @ [w]))"
        by blast
      show ?thesis using t' unfolding st d Cons v(4) g(2) v(5) g(4) by (intro exI[of _ t']) (auto split: if_splits)
    qed
  next
    case False
    then have "\<not> bindex t < int n - 1" using bi by linarith
    then show ?thesis using False Suc(3,4) bi by (intro exI[of _ t]) (simp add: fill_ring.simps[of "int n" t])
  qed
qed simp

section \<open>The words and n-grams inserted\<close>

definition insert_all ::
    "(nat \<Rightarrow> string \<Rightarrow> uint32) \<Rightarrow> (string \<Rightarrow> string) \<Rightarrow> finder \<Rightarrow> string list \<Rightarrow> dict \<Rightarrow> dict outcome" where
  "insert_all hash lower fnd ws d =
     fold (\<lambda>s r. case r of Fault \<Rightarrow> Fault | Done d \<Rightarrow> insert_string hash lower fnd s d) ws (Done d)"

lemma insert_all_Nil [simp]: "insert_all hash lower fnd [] d = Done d"
  by (simp add: insert_all_def)

lemma insert_all_Cons:
  "insert_all hash lower fnd (w # ws) d =
    (case insert_string hash lower fnd w d of Fault \<Rightarrow> Fault | Done d \<Rightarrow> insert_all hash lower fnd ws d)"
proof (cases "insert_string hash lower fnd w d")
  case Fault
  have "fold (\<lambda>s r. case r of Fault \<Rightarrow> Fault | Done d \<Rightarrow> insert_string hash lower fnd s d) ws Fault = Fault" by (induction ws) simp_all
  then show ?thesis using Fault by (simp add: insert_all_def)
qed (simp add: insert_all_def)

definition with_reader :: "word_reader \<Rightarrow> dict outcome \<Rightarrow> (dict \<times> word_reader) outcome" where
  "with_reader t r = (case r of Fault \<Rightarrow> Fault | Done d \<Rightarrow> Done (d, t))"

lemma insert_loop_words:
  "\<exists>t'. words_read t' = words_read t + int (length (words_pending t)) \<and>
    insert_loop 1 hash lower fnd t d = with_reader t' (insert_all hash lower fnd (words_pending t) d)"
proof (induction "words_pending t" arbitrary: t d)
  case Nil
  then obtain u where "get_word t = (None, u)" "words_read u = words_read t"
    using get_word_spec[of t] by (cases "get_word t"; cases "fst (get_word t)") auto
  then show ?case using Nil by (intro exI[of _ u]) (simp add: insert_loop.simps[of 1 hash lower fnd t] get_token_def with_reader_def Nil[symmetric])
next
  case (Cons w ps)
  then obtain u where g: "get_word t = (Some w, u)" "words_pending u = ps" "words_read u = words_read t + 1"
    using get_word_spec[of t] by (cases "get_word t"; cases "fst (get_word t)") auto
  have l: "insert_loop 1 hash lower fnd t d =
      (case insert_string hash lower fnd w d of Fault \<Rightarrow> Fault | Done d \<Rightarrow> insert_loop 1 hash lower fnd u d)"
    using g(1) by (simp add: insert_loop.simps[of 1 hash lower fnd t] get_token_def)
  show ?case
  proof (cases "insert_string hash lower fnd w d")
    case (Done d')
    obtain t' where "words_read t' = words_read u + int (length ps)" "insert_loop 1 hash lower fnd u d' = with_reader t' (insert_all hash lower fnd ps d')"
      using Cons(1)[of u d'] g(2) by auto
    then show ?thesis using g(3) l Done unfolding Cons(2)[symmetric] by (intro exI[of _ t']) (simp add: insert_all_Cons)
  next
    case Fault
    then show ?thesis using l unfolding Cons(2)[symmetric]
      by (intro exI[of _ "t\<lparr>words_read := words_read t + int (length (w # ps))\<rparr>"]) (simp add: insert_all_Cons with_reader_def)
  qed
qed

lemma insert_loop_grams:
  assumes "2 \<le> n" and "n \<le> 10"
  shows "ngram_ring cs t \<Longrightarrow> \<not> at_first t \<Longrightarrow> n \<le> Suc (length cs) \<Longrightarrow> \<forall>g\<in>set (grams_after n cs (words_pending t)). length g < BSIZE \<Longrightarrow>
    \<exists>t'. words_read t' = words_read t + int (length (words_pending t)) \<and>
    insert_loop (int n) hash lower fnd t d = with_reader t' (insert_all hash lower fnd (grams_after n cs (words_pending t)) d)"
proof (induction "words_pending t" arbitrary: cs t d)
  case Nil
  obtain u where "next_gram (int n) t = Done (None, u)" "words_read u = words_read t" using next_gram_end Nil(1) by metis
  then show ?case using Nil assms(1)
    by (intro exI[of _ u]) (simp add: insert_loop.simps[of "int n" hash lower fnd t] get_token_def with_reader_def Nil(1)[symmetric])
next
  case (Cons w ps)
  note p = Cons(2)[symmetric]
  let ?j = "join_words (drop (Suc (length cs) - n) (cs @ [w]))"
  have "length ?j < BSIZE" using Cons(6) unfolding p by simp
  then obtain u where g: "next_gram (int n) t = Done (Some ?j, u)" "ngram_ring (cs @ [w]) u" "words_pending u = ps" "at_first u = at_first t"
      "words_read u = words_read t + 1"
    using next_gram_spec[OF Cons(3) assms Cons(5) p] by blast
  have l: "insert_loop (int n) hash lower fnd t d =
      (case insert_string hash lower fnd ?j d of Fault \<Rightarrow> Fault | Done d \<Rightarrow> insert_loop (int n) hash lower fnd u d)"
    using g(1) Cons(4) assms(1) by (simp add: insert_loop.simps[of "int n" hash lower fnd t] get_token_def)
  show ?case
  proof (cases "insert_string hash lower fnd ?j d")
    case (Done d')
    have "n \<le> Suc (length (cs @ [w]))" using Cons(5) by simp
    moreover have "\<forall>g\<in>set (grams_after n (cs @ [w]) (words_pending u)). length g < BSIZE" using Cons(6) unfolding p g(3) by simp
    moreover have "\<not> at_first u" using g(4) Cons(4) by simp
    ultimately obtain t' where "words_read t' = words_read u + int (length ps)"
        "insert_loop (int n) hash lower fnd u d' = with_reader t' (insert_all hash lower fnd (grams_after n (cs @ [w]) ps) d')"
      using Cons(1)[OF g(3)[symmetric] g(2), of d'] g(3) by auto
    then show ?thesis using g(5) l Done unfolding p grams_after.simps insert_all_Cons by (intro exI[of _ t']) simp
  next
    case Fault
    then show ?thesis using l unfolding p grams_after.simps insert_all_Cons
      by (intro exI[of _ "t\<lparr>words_read := words_read t + int (length (w # ps))\<rparr>"]) (simp add: with_reader_def)
  qed
qed

text \<open>A reader that has not read anything.\<close>

definition fresh :: "word_reader \<Rightarrow> bool" where
  "fresh t \<longleftrightarrow> \<not> bufvalid t \<and> words_read t = 0 \<and> length (token_buf t) = 10 \<and> at_first t \<and> bindex t = 0"

lemma fresh_init: "fresh t \<Longrightarrow> ngram_ring [] (init_token src t) \<and> words_read (init_token src t) = 0 \<and> at_first (init_token src t)"
  by (simp add: fresh_def ngram_ring_def ring_holds_def init_token_def)

lemma init_pending: "short_lines 0 src \<Longrightarrow> words_pending (init_token src t) = text_words src"
  by (simp add: words_pending_def init_token_def pieces_words)

lemma insert_loop_file:
  assumes "fresh t" and "short_lines 0 src" and "0 < n" and "n \<le> 10" and "\<forall>g\<in>set (grams n (text_words src)). length g < BSIZE"
  shows "\<exists>t'. words_read t' = int (length (text_words src)) \<and>
    insert_loop (int n) hash lower fnd (init_token src t) d = with_reader t' (insert_all hash lower fnd (grams n (text_words src)) d)"
proof (cases "n = 1")
  case True
  have "grams 1 ws = ws" for ws
  proof -
    have "grams_after 1 cs ws = ws" for cs by (induction ws arbitrary: cs) simp_all
    then show ?thesis using grams_split[of 1 ws] by simp
  qed
  then show ?thesis using insert_loop_words[of "init_token src t" hash lower fnd d] init_pending[OF assms(2), of t] fresh_init[OF assms(1), of src] True
    by simp
next
  case False
  let ?t = "init_token src t" and ?ws = "text_words src"
  have n: "2 \<le> n" using False assms(3) by simp
  have p: "words_pending ?t = ?ws" by (rule init_pending[OF assms(2)])
  obtain u where u: "if length ?ws < n - 1
     then fill_ring (int n) ?t = Done (False, u) \<and> words_read u = int (length ?ws)
     else fill_ring (int n) ?t = Done (True, u) \<and> ngram_ring (take (n - 1) ?ws) u \<and> words_pending u = drop (n - 1) ?ws \<and> words_read u = int (n - 1)"
    using fill_ring_spec[of "[]" ?t n] fresh_init[OF assms(1), of src] assms(3,4) p by (auto split: if_splits)
  show ?thesis
  proof (cases "length ?ws < n - 1")
    case True
    then show ?thesis using u n grams_split[OF assms(3), of ?ws] fresh_init[OF assms(1), of src]
      by (intro exI[of _ u]) (simp add: insert_loop.simps[of "int n" hash lower fnd ?t] get_token_def with_reader_def)
  next
    case False
    let ?u = "u\<lparr>at_first := False\<rparr>" and ?g = "grams_after n (take (n - 1) ?ws) (drop (n - 1) ?ws)"
    have gr: "grams n ?ws = ?g" using grams_split[OF assms(3), of ?ws] False by simp
    have r: "ngram_ring (take (n - 1) ?ws) ?u" "\<not> at_first ?u" "words_pending ?u = drop (n - 1) ?ws" "words_read ?u = int (n - 1)"
        "n \<le> Suc (length (take (n - 1) ?ws))"
      using u False by (simp_all add: ngram_ring_def)
    obtain t' where t': "words_read t' = words_read ?u + int (length (drop (n - 1) ?ws))"
        "insert_loop (int n) hash lower fnd ?u d = with_reader t' (insert_all hash lower fnd ?g d)"
      using insert_loop_grams[OF n assms(4) r(1,2,5), of hash lower fnd d] assms(5) unfolding gr r(3) by blast
    have "get_token (int n) ?t = get_token (int n) ?u"
      using u False n fresh_init[OF assms(1), of src] by (simp add: get_token_def)
    then have "insert_loop (int n) hash lower fnd ?t d = insert_loop (int n) hash lower fnd ?u d"
      by (simp add: insert_loop.simps[of "int n" hash lower fnd ?t] insert_loop.simps[of "int n" hash lower fnd ?u])
    then show ?thesis using t' False r(4) unfolding gr by (intro exI[of _ t']) simp
  qed
qed

lemma word_freq_file_grams:
  assumes "fresh t" and "short_lines 0 src" and "0 < k" and "k \<le> 10" and "\<forall>g\<in>set (grams k (text_words src)). length g < BSIZE"
  shows "\<exists>t'. words_read t' = int (length (text_words src)) \<and>
    word_freq_file qsort hash lower fnd verbose quick (int k) n src t d =
      (case word_freq qsort hash lower fnd verbose quick n (grams k (text_words src)) d of
         Fault \<Rightarrow> Fault | Done (ls, d) \<Rightarrow> Done (ls, d, t'))"
proof -
  obtain t' where t': "words_read t' = int (length (text_words src))"
      "insert_loop (int k) hash lower fnd (init_token src t) (new_table n d) =
        with_reader t' (insert_all hash lower fnd (grams k (text_words src)) (new_table n d))"
    using insert_loop_file[OF assms] by blast
  have "word_freq_file qsort hash lower fnd verbose quick (int k) n src t d =
      (case word_freq qsort hash lower fnd verbose quick n (grams k (text_words src)) d of Fault \<Rightarrow> Fault | Done (ls, d) \<Rightarrow> Done (ls, d, t'))"
    unfolding word_freq_file_def word_freq_def insert_all_def[symmetric] t'(2)
    by (simp add: with_reader_def split: outcome.split)
  then show ?thesis using t'(1) by blast
qed

text \<open>
  C30: on a file whose lines fit into the buffer, \<open>word_freq\<close> lists every n-gram of the text in
  lower case once, with the number of its occurrences, by decreasing frequency, and counts the
  words: words are what is left between the characters of \<open>skipchar\<close>, n-grams run on from line to
  line, and \<open>n\<close> is at most 10. The counters of the code are \<open>int\<close>; here they do not wrap, which is
  the code's behaviour for texts of fewer than \<open>2 ^ 31\<close> words.
\<close>

theorem word_freq_file_counts:
  fixes fnd :: finder
  assumes "fnd \<in> {find_ele_iter_f, find_ele_iter_r}" and "hash \<in> {h_mod, h_add, h_xor}" and "lower \<in> {lower1, lower2}"
    and "0 < n" and "n < 2 ^ 31" and "ucnt d = 0" and "quick \<longrightarrow> (\<forall>es. mset (qsort es) = mset es \<and> by_freq (qsort es))"
    and "fresh t" and "short_lines 0 src" and "0 < k" and "k \<le> 10"
    and "grams k (text_words src) \<noteq> []" and "\<forall>g\<in>set (grams k (text_words src)). length g < BSIZE"
  shows "let ws = map (map lower_char) (grams k (text_words src)) in
    \<exists>ls d' t'. word_freq_file qsort hash lower fnd True quick (int k) n src t d = Done (Some ls, d', t') \<and>
      by_freq ls \<and> distinct (map fst ls) \<and> set ls = {(w, int (count_list ws w)) | w. w \<in> set ws} \<and>
      ucnt d' = int (card (set ws)) \<and> scnt d' = int (card {w \<in> set ws. count_list ws w = 1}) \<and>
      words_read t' = int (length (text_words src))"
proof -
  obtain t' where t': "words_read t' = int (length (text_words src))"
      "word_freq_file qsort hash lower fnd True quick (int k) n src t d =
        (case word_freq qsort hash lower fnd True quick n (grams k (text_words src)) d of Fault \<Rightarrow> Fault | Done (ls, d) \<Rightarrow> Done (ls, d, t'))"
    using word_freq_file_grams[OF assms(8-11,13)] by blast
  show ?thesis
    using word_freq_counts[OF assms(1-5,12,6,7)] t'(1) unfolding Let_def t'(2) by fastforce
qed

definition sample_reader :: word_reader where
  "sample_reader = \<lparr>bufvalid = False, saved = [], infile = [], words_read = 0, token_buf = replicate 10 [], at_first = True, bindex = 0, sbuf = []\<rparr>"

definition sample_text :: string where
  "sample_text = ''The end,'' @ LF # ''the end!'' @ [LF]"

lemma sample_words: "text_words sample_text = [''The'', ''end'', ''the'', ''end'']"
  by (simp add: text_words_def sample_text_def LF_char skipchar_def skip_literal_def to_nul_def NULC_def)

lemma sample_grams: "grams 2 (text_words sample_text) = [''The end'', ''end the'', ''the end'']"
  unfolding sample_words by code_simp

theorem word_freq_file_counts_witness:
  "\<exists>ls d' t'. word_freq_file id h_add lower2 find_ele_iter_f True False 2 7 sample_text sample_reader empty_dict = Done (Some ls, d', t') \<and>
     by_freq ls \<and> set ls = {(''the end'', 2), (''end the'', 1)} \<and> words_read t' = 4"
proof -
  have ws: "map (map lower_char) (grams 2 (text_words sample_text)) = [''the end'', ''end the'', ''the end'']"
    unfolding sample_grams by code_simp
  have "''the end'' \<noteq> ''end the''" by simp
  note c = sample_counts[OF this]
  have prems: "find_ele_iter_f \<in> {find_ele_iter_f, find_ele_iter_r}" "h_add \<in> {h_mod, h_add, h_xor}" "lower2 \<in> {lower1, lower2}"
    "(0::nat) < 7" "(7::nat) < 2 ^ 31" "ucnt empty_dict = 0" "False \<longrightarrow> (\<forall>es. mset (id es) = mset es \<and> by_freq (id es))"
    "fresh sample_reader" "(0::nat) < 2" "(2::nat) \<le> 10" "grams 2 (text_words sample_text) \<noteq> []"
    by (simp_all add: empty_dict_def fresh_def sample_reader_def sample_grams)
  have "short_lines 0 sample_text" by (simp add: sample_text_def LF_char NULC_def BSIZE_def)
  moreover have "\<forall>g\<in>set (grams 2 (text_words sample_text)). length g < BSIZE" unfolding sample_grams by (simp add: BSIZE_def)
  ultimately obtain ls d' t' where
    "word_freq_file id h_add lower2 find_ele_iter_f True False (int 2) 7 sample_text sample_reader empty_dict = Done (Some ls, d', t')"
    "by_freq ls" "set ls = {(w, int (count_list [''the end'', ''end the'', ''the end''] w)) | w. w \<in> {''the end'', ''end the''}}"
    "words_read t' = int (length (text_words sample_text))"
    using word_freq_file_counts[OF prems(1-8) _ prems(9-11), unfolded Let_def ws c(1)] by blast
  then show ?thesis unfolding c(4) sample_words by (intro exI[of _ ls] exI[of _ d'] exI[of _ t']) simp
qed

section \<open>Too many words\<close>

text \<open>With \<open>ngram\<close> above 10 the first n-gram is written past the end of \<open>token_buf\<close>.\<close>

lemma fill_ring_overruns:
  "length (token_buf t) = 10 \<Longrightarrow> 0 \<le> bindex t \<Longrightarrow> bindex t \<le> 10 \<Longrightarrow> 10 < m \<Longrightarrow> 10 < bindex t + int (length (words_pending t)) \<Longrightarrow>
   fill_ring m t = Fault \<or> (\<exists>u. fill_ring m t = Done (True, u) \<and> bindex u = 10 \<and> length (token_buf u) = 10 \<and> words_pending u \<noteq> [])"
proof (induction "nat (10 - bindex t)" arbitrary: t)
  case (Suc j)
  obtain w u where g: "get_word t = (Some w, u)" "words_pending t = w # words_pending u" "same_ring t u"
    using get_word_spec[of t] Suc(2,7) by (cases "get_word t"; cases "fst (get_word t)") auto
  let ?v = "u\<lparr>token_buf := (token_buf u)[nat (bindex u) := w], bindex := bindex u + 1\<rparr>"
  have b: "bindex t < 10" using Suc(2) by linarith
  have s: "store_token w u = Done ?v" using g(3) Suc(3,4) b by (simp add: store_token_def same_ring_def)
  have f: "fill_ring m t = fill_ring m ?v" using b Suc(6) g(1) s by (simp add: fill_ring.simps[of m t])
  have "words_pending ?v = words_pending u" by (simp add: words_pending_def)
  then show ?case unfolding f using Suc(1)[of ?v] Suc(2-7) g(2,3) b by (simp add: same_ring_def)
next
  case 0
  have b: "bindex t = 10" using 0 by linarith
  show ?case
  proof (cases "m = 11")
    case True
    then show ?thesis using b 0 by (intro disjI2 exI[of _ t]) (auto simp: fill_ring.simps[of 11 t])
  next
    case False
    obtain w u where g: "get_word t = (Some w, u)" "same_ring t u"
      using get_word_spec[of t] 0(6) b by (cases "get_word t"; cases "fst (get_word t)") auto
    then have "store_token w u = Fault" using b 0(2) by (simp add: store_token_def same_ring_def)
    then show ?thesis using False b 0(5) g(1) by (simp add: fill_ring.simps[of m t])
  qed
qed

lemma get_token_overruns:
  assumes "fresh t" and "10 < m" and "10 < length (words_pending (init_token src t))"
  shows "get_token m (init_token src t) = Fault"
proof -
  have next_fault: "next_gram m v = Fault" if b: "bindex v = 10" "length (token_buf v) = 10" "words_pending v \<noteq> []" for v
  proof -
    obtain w u where g: "get_word v = (Some w, u)" "same_ring v u"
      using get_word_spec[of v] b(3) by (cases "get_word v"; cases "fst (get_word v)") auto
    then have "store_token w u = Fault" using b(1,2) by (simp add: store_token_def same_ring_def)
    then show ?thesis using g(1) by (simp add: next_gram_def)
  qed
  have i: "length (token_buf (init_token src t)) = 10" "bindex (init_token src t) = 0" "at_first (init_token src t)"
    using assms(1) by (simp_all add: fresh_def init_token_def)
  then show ?thesis
    using fill_ring_overruns[of "init_token src t" m] assms(2,3) next_fault by (auto simp: get_token_def)
qed

end
