(* ===== verification/Matmult.thy ===== *)
theory Matmult
  imports Prelude
begin

text \<open>
  The matrix products of \<open>csapp-master/mem/matmult\<close>: the six loop orders of \<open>mm.c\<close> and the two
  blocked versions of \<open>bmm.c\<close>. An array is a function from its two indices; \<open>A\<close> and \<open>B\<close> are
  different arrays from \<open>C\<close>. Sizes are not negative, and a function that is called with more than
  the \<open>MAXN\<close> rows an array has is \<open>Fault\<close>. The arithmetic of \<open>double\<close> is a parameter: any sum and
  any product of two values, with no law at all, so a sum may round at every step and may depend on
  the order in which its terms are added. The definitions perform each operation of the
  source, with its operands in the order the source has them.
\<close>

section \<open>Arrays and loops\<close>

text \<open>\<open>mm.h\<close>.\<close>

definition MAXN :: nat where
  "MAXN = 700"

text \<open>What the programs use of \<open>double\<close>: \<open>+\<close>, \<open>*\<close>, the constants \<open>0.0\<close> and \<open>1.0\<close>, \<open>(double) n\<close> and \<open>==\<close>.\<close>

record 'd double_ops =
  fadd :: "'d \<Rightarrow> 'd \<Rightarrow> 'd"
  fmul :: "'d \<Rightarrow> 'd \<Rightarrow> 'd"
  fzero :: 'd
  fone :: 'd
  of_int_size :: "nat \<Rightarrow> 'd"
  feq :: "'d \<Rightarrow> 'd \<Rightarrow> bool"

type_synonym 'a array = "nat \<Rightarrow> nat \<Rightarrow> 'a"

text \<open>\<open>C[i][j] = v\<close>.\<close>

definition set2 :: "nat \<Rightarrow> nat \<Rightarrow> 'a \<Rightarrow> 'a array \<Rightarrow> 'a array" where
  "set2 i j v C = C(i := (C i)(j := v))"

text \<open>\<open>for (x = lo; x < hi; x += step)\<close>.\<close>

function for_blocks :: "nat \<Rightarrow> nat \<Rightarrow> nat \<Rightarrow> (nat \<Rightarrow> 's \<Rightarrow> 's) \<Rightarrow> 's \<Rightarrow> 's" where
  "for_blocks lo hi step body s = (if 0 < step \<and> lo < hi then for_blocks (lo + step) hi step body (body lo s) else s)"
  by pat_completeness auto
termination by (relation "measure (\<lambda>(lo, hi, step, body, s). hi - lo)") auto

declare for_blocks.simps [simp del]

section \<open>The loop orders of mm.c\<close>

definition reset :: "'d double_ops \<Rightarrow> nat \<Rightarrow> 'd array \<Rightarrow> 'd array" where
  "reset D n c = for_loop 0 n (\<lambda>i. for_loop 0 n (\<lambda>j. set2 i j (fzero D))) c"

definition init_mm :: "'d double_ops \<Rightarrow> nat \<Rightarrow> 'd array \<times> 'd array \<Rightarrow> 'd array \<times> 'd array" where
  "init_mm D n ab = for_loop 0 n (\<lambda>i. for_loop 0 n (\<lambda>j (a, b). (set2 i j (fone D) a, set2 i j (fone D) b))) ab"

text \<open>Whether \<open>checkresult\<close> returns.\<close>

definition checkresult :: "'d double_ops \<Rightarrow> 'd array \<Rightarrow> nat \<Rightarrow> bool" where
  "checkresult D c n = list_all (\<lambda>i. list_all (\<lambda>j. feq D (c i j) (of_int_size D n)) [0..<n]) [0..<n]"

definition ijk :: "'d double_ops \<Rightarrow> 'd array \<Rightarrow> 'd array \<Rightarrow> 'd array \<Rightarrow> nat \<Rightarrow> 'd array outcome" where
  "ijk D A B C n =
     (if MAXN < n then Fault else Done (for_loop 0 n (\<lambda>i. for_loop 0 n (\<lambda>j C.
       let sum = for_loop 0 n (\<lambda>k sum. fadd D sum (fmul D (A i k) (B k j))) (fzero D)
       in set2 i j (fadd D (C i j) sum) C)) C))"

definition jik :: "'d double_ops \<Rightarrow> 'd array \<Rightarrow> 'd array \<Rightarrow> 'd array \<Rightarrow> nat \<Rightarrow> 'd array outcome" where
  "jik D A B C n =
     (if MAXN < n then Fault else Done (for_loop 0 n (\<lambda>j. for_loop 0 n (\<lambda>i C.
       let sum = for_loop 0 n (\<lambda>k sum. fadd D sum (fmul D (A i k) (B k j))) (fzero D)
       in set2 i j (fadd D (C i j) sum) C)) C))"

definition ikj :: "'d double_ops \<Rightarrow> 'd array \<Rightarrow> 'd array \<Rightarrow> 'd array \<Rightarrow> nat \<Rightarrow> 'd array outcome" where
  "ikj D A B C n =
     (if MAXN < n then Fault else Done (for_loop 0 n (\<lambda>i. for_loop 0 n (\<lambda>k C.
       let r = A i k in for_loop 0 n (\<lambda>j C. set2 i j (fadd D (C i j) (fmul D r (B k j))) C) C)) C))"

definition kij :: "'d double_ops \<Rightarrow> 'd array \<Rightarrow> 'd array \<Rightarrow> 'd array \<Rightarrow> nat \<Rightarrow> 'd array outcome" where
  "kij D A B C n =
     (if MAXN < n then Fault else Done (for_loop 0 n (\<lambda>k. for_loop 0 n (\<lambda>i C.
       let r = A i k in for_loop 0 n (\<lambda>j C. set2 i j (fadd D (C i j) (fmul D r (B k j))) C) C)) C))"

definition kji :: "'d double_ops \<Rightarrow> 'd array \<Rightarrow> 'd array \<Rightarrow> 'd array \<Rightarrow> nat \<Rightarrow> 'd array outcome" where
  "kji D A B C n =
     (if MAXN < n then Fault else Done (for_loop 0 n (\<lambda>k. for_loop 0 n (\<lambda>j C.
       let r = B k j in for_loop 0 n (\<lambda>i C. set2 i j (fadd D (C i j) (fmul D (A i k) r)) C) C)) C))"

definition jki :: "'d double_ops \<Rightarrow> 'd array \<Rightarrow> 'd array \<Rightarrow> 'd array \<Rightarrow> nat \<Rightarrow> 'd array outcome" where
  "jki D A B C n =
     (if MAXN < n then Fault else Done (for_loop 0 n (\<lambda>j. for_loop 0 n (\<lambda>k C.
       let r = B k j in for_loop 0 n (\<lambda>i C. set2 i j (fadd D (C i j) (fmul D (A i k) r)) C) C)) C))"

section \<open>The blocked versions of bmm.c\<close>

text \<open>The innermost loops, with a local sum: \<open>k\<close> from \<open>k0\<close> to \<open>k1\<close> for each \<open>j\<close> from \<open>j0\<close> to \<open>j1\<close>.\<close>

definition bijk_row :: "'d double_ops \<Rightarrow> 'd array \<Rightarrow> 'd array \<Rightarrow> nat \<Rightarrow> nat \<Rightarrow> nat \<Rightarrow> nat \<Rightarrow> nat \<Rightarrow> 'd array \<Rightarrow> 'd array" where
  "bijk_row D A B j0 j1 k0 k1 i C =
     for_loop j0 j1 (\<lambda>j C. let sum = for_loop k0 k1 (\<lambda>k sum. fadd D sum (fmul D (A i k) (B k j))) (C i j)
       in set2 i j sum C) C"

text \<open>A block size of 0 is a division by zero.\<close>

definition bijk :: "'d double_ops \<Rightarrow> 'd array \<Rightarrow> 'd array \<Rightarrow> 'd array \<Rightarrow> nat \<Rightarrow> nat \<Rightarrow> 'd array outcome" where
  "bijk D A B C n bsize =
     (if bsize = 0 \<or> MAXN < n then Fault else
        let en = bsize * (n div bsize);
            C = for_loop 0 n (\<lambda>i. for_loop 0 n (\<lambda>j. set2 i j (fzero D))) C;
            C = for_blocks 0 en bsize (\<lambda>kk C.
                  let C = for_blocks 0 en bsize (\<lambda>jj. for_loop 0 n (bijk_row D A B jj (jj + bsize) kk (kk + bsize))) C
                  in for_loop 0 n (bijk_row D A B en n kk (kk + bsize)) C) C;
            C = for_blocks 0 en bsize (\<lambda>jj. for_loop 0 n (bijk_row D A B jj (jj + bsize) en n)) C
        in Done (for_loop 0 n (bijk_row D A B en n en n) C))"

definition bikj_row :: "'d double_ops \<Rightarrow> 'd array \<Rightarrow> 'd array \<Rightarrow> nat \<Rightarrow> nat \<Rightarrow> nat \<Rightarrow> nat \<Rightarrow> nat \<Rightarrow> 'd array \<Rightarrow> 'd array" where
  "bikj_row D A B j0 j1 k0 k1 i C =
     for_loop k0 k1 (\<lambda>k C. let r = A i k
       in for_loop j0 j1 (\<lambda>j C. set2 i j (fadd D (C i j) (fmul D r (B k j))) C) C) C"

definition bikj :: "'d double_ops \<Rightarrow> 'd array \<Rightarrow> 'd array \<Rightarrow> 'd array \<Rightarrow> nat \<Rightarrow> nat \<Rightarrow> 'd array outcome" where
  "bikj D A B C n bsize =
     (if bsize = 0 \<or> MAXN < n then Fault else
        let en = bsize * (n div bsize);
            C = for_loop 0 n (\<lambda>i. for_loop 0 n (\<lambda>j. set2 i j (fzero D))) C;
            C = for_blocks 0 en bsize (\<lambda>kk C.
                  let C = for_blocks 0 en bsize (\<lambda>jj. for_loop 0 n (bikj_row D A B jj (jj + bsize) kk (kk + bsize))) C
                  in for_loop 0 n (bikj_row D A B en n kk (kk + bsize)) C) C;
            C = for_blocks 0 en bsize (\<lambda>jj. for_loop 0 n (bikj_row D A B jj (jj + bsize) en n)) C
        in Done (for_loop 0 n (bikj_row D A B en n en n) C))"

section \<open>Loops that add to an array\<close>

text \<open>\<open>f\<close> adds the terms of the list \<open>F i j\<close>, in their order and one at a time, to the element \<open>i\<close>, \<open>j\<close>.\<close>

definition adds :: "'d double_ops \<Rightarrow> ('d array \<Rightarrow> 'd array) \<Rightarrow> (nat \<Rightarrow> nat \<Rightarrow> 'd list) \<Rightarrow> bool" where
  "adds D f F \<longleftrightarrow> (\<forall>C i j. f C i j = foldl (fadd D) (C i j) (F i j))"

lemma addsD: "adds D f F \<Longrightarrow> f C i j = foldl (fadd D) (C i j) (F i j)"
  by (simp add: adds_def)

lemma adds_cong: "adds D f F \<Longrightarrow> (\<And>i j. F i j = G i j) \<Longrightarrow> adds D f G"
  by (simp add: adds_def)

lemma adds_then: "adds D f F \<Longrightarrow> adds D g G \<Longrightarrow> adds D (\<lambda>C. g (f C)) (\<lambda>i j. F i j @ G i j)"
  by (simp add: adds_def)

lemma adds_loop:
  assumes "\<And>x. lo \<le> x \<Longrightarrow> x < hi \<Longrightarrow> adds D (body x) (F x)"
  shows "adds D (for_loop lo hi body) (\<lambda>i j. concat (map (\<lambda>x. F x i j) [lo..<hi]))"
proof (cases "lo \<le> hi")
  case True
  then show ?thesis using assms
  proof (induction hi rule: dec_induct)
    case base
    then show ?case by (simp add: adds_def)
  next
    case (step m)
    then show ?case by (simp add: adds_def for_loop_Suc)
  qed
qed (simp add: adds_def)

lemma adds_set2: "adds D (\<lambda>C. set2 i0 j0 (fadd D (C i0 j0) v) C) (\<lambda>i j. if i = i0 \<and> j = j0 then [v] else [])"
  by (simp add: adds_def set2_def)

text \<open>Blocks of size \<open>b\<close> up to a multiple of \<open>b\<close> are the numbers up to it.\<close>

lemma for_blocks_loop: "0 < b \<Longrightarrow> for_blocks (lo * b) (b * q) b body s = for_loop lo q (\<lambda>t. body (t * b)) s"
proof (induction "q - lo" arbitrary: lo s)
  case 0
  then show ?case by (subst for_blocks.simps) simp
next
  case (Suc m)
  then have "lo < q" by simp
  have "for_blocks (lo * b) (b * q) b body s = for_blocks (Suc lo * b) (b * q) b body (body (lo * b) s)"
    using \<open>lo < q\<close> Suc.prems by (subst for_blocks.simps) (simp add: mult.commute add.commute)
  also have "\<dots> = for_loop (Suc lo) q (\<lambda>t. body (t * b)) (body (lo * b) s)"
    using Suc by (intro Suc.hyps(1)) simp_all
  also have "\<dots> = for_loop lo q (\<lambda>t. body (t * b)) s" using \<open>lo < q\<close> by (simp add: for_loop_step)
  finally show ?case .
qed

lemma concat_blocks: "concat (map (\<lambda>t. concat (map f [t * b..<t * b + b])) [0..<q]) = concat (map f [0..<q * b])"
proof (induction q)
  case (Suc q)
  have "[0..<Suc q * b] = [0..<q * b] @ [q * b..<q * b + b]"
    using upt_add_eq_append[of 0 "q * b" b] by (simp add: add.commute)
  then have "map f [0..<Suc q * b] = map f [0..<q * b] @ map f [q * b..<q * b + b]" by (simp only: map_append)
  then show ?case using Suc.IH by (simp del: mult_Suc)
qed simp

lemma adds_blocks:
  assumes "0 < b" and "\<And>t. t < q \<Longrightarrow> adds D (body (t * b)) (\<lambda>i j. concat (map (\<lambda>x. F x i j) [t * b..<t * b + b]))"
  shows "adds D (for_blocks 0 (b * q) b body) (\<lambda>i j. concat (map (\<lambda>x. F x i j) [0..<b * q]))"
proof -
  have "adds D (for_loop 0 q (\<lambda>t. body (t * b))) (\<lambda>i j. concat (map (\<lambda>t. concat (map (\<lambda>x. F x i j) [t * b..<t * b + b])) [0..<q]))"
    by (rule adds_loop) (simp add: assms(2))
  moreover have "for_blocks 0 (b * q) b body = for_loop 0 q (\<lambda>t. body (t * b))"
    by (rule ext) (use for_blocks_loop[OF assms(1), of 0 q body] in simp)
  ultimately show ?thesis by (simp add: concat_blocks mult.commute)
qed

section \<open>The products\<close>

text \<open>The terms of an element of the product, and the element: the terms added to \<open>0.0\<close> one after the other.\<close>

definition terms :: "'d double_ops \<Rightarrow> 'd array \<Rightarrow> 'd array \<Rightarrow> nat \<Rightarrow> nat \<Rightarrow> nat \<Rightarrow> nat \<Rightarrow> 'd list" where
  "terms D A B k0 k1 i j = map (\<lambda>k. fmul D (A i k) (B k j)) [k0..<k1]"

definition dot :: "'d double_ops \<Rightarrow> 'd array \<Rightarrow> 'd array \<Rightarrow> nat \<Rightarrow> nat \<Rightarrow> nat \<Rightarrow> 'd" where
  "dot D A B n i j = foldl (fadd D) (fzero D) (terms D A B 0 n i j)"

lemma terms_concat: "terms D A B k0 k1 i j = concat (map (\<lambda>k. [fmul D (A i k) (B k j)]) [k0..<k1])"
  by (simp add: terms_def)

lemma pick_left: "concat (map (\<lambda>x. if i = x \<and> c then v x else []) [lo..<hi]) = (if lo \<le> i \<and> i < hi \<and> c then v i else [])" for i :: nat
  by (induction hi) (auto simp: less_Suc_eq)

lemma pick_right: "concat (map (\<lambda>x. if c \<and> i = x then v x else []) [lo..<hi]) = (if lo \<le> i \<and> i < hi \<and> c then v i else [])" for i :: nat
  using pick_left[of i c v lo hi] by (simp only: conj_commute)

lemma pick_terms: "concat (map (\<lambda>x. if c then w x else []) [lo..<hi]) = (if c then concat (map w [lo..<hi]) else [])" for lo :: nat
  by (cases c) simp_all

lemmas pick = pick_left pick_right pick_terms

lemma local_sum: "for_loop lo hi (\<lambda>k sum. fadd D sum (f k)) s = foldl (fadd D) s (map f [lo..<hi])"
  by (simp add: for_loop_def foldl_conv_fold fold_map comp_def)

lemma adds_nest2:
  assumes "\<And>x y. adds D (body x y) (F x y)"
  shows "adds D (for_loop a b (\<lambda>x. for_loop c d (body x))) (\<lambda>i j. concat (map (\<lambda>x. concat (map (\<lambda>y. F x y i j) [c..<d])) [a..<b]))"
  by (intro adds_loop assms)

text \<open>The local sum of \<open>ijk\<close> and \<open>jik\<close> is one term.\<close>

lemma sum_local: "adds D (\<lambda>C. let sum = for_loop 0 n (\<lambda>k sum. fadd D sum (fmul D (A i0 k) (B k j0))) (fzero D)
      in set2 i0 j0 (fadd D (C i0 j0) sum) C)
    (\<lambda>i j. if i = i0 \<and> j = j0 then [dot D A B n i0 j0] else [])"
  using adds_set2[of D i0 j0 "dot D A B n i0 j0"] by (simp add: local_sum dot_def terms_def)

definition upper_left :: "nat \<Rightarrow> (nat \<Rightarrow> nat \<Rightarrow> 'd list) \<Rightarrow> nat \<Rightarrow> nat \<Rightarrow> 'd list" where
  "upper_left n F i j = (if i < n \<and> j < n then F i j else [])"

lemma ijk_adds:
  "adds D (for_loop 0 n (\<lambda>i. for_loop 0 n (\<lambda>j C.
       let sum = for_loop 0 n (\<lambda>k sum. fadd D sum (fmul D (A i k) (B k j))) (fzero D)
       in set2 i j (fadd D (C i j) sum) C))) (upper_left n (\<lambda>i j. [dot D A B n i j]))"
  by (rule adds_cong[OF adds_nest2[OF sum_local]]) (simp add: pick upper_left_def)

lemma jik_adds:
  "adds D (for_loop 0 n (\<lambda>j. for_loop 0 n (\<lambda>i C.
       let sum = for_loop 0 n (\<lambda>k sum. fadd D sum (fmul D (A i k) (B k j))) (fzero D)
       in set2 i j (fadd D (C i j) sum) C))) (upper_left n (\<lambda>i j. [dot D A B n i j]))"
  by (rule adds_cong[OF adds_nest2[OF sum_local]]) (simp add: pick upper_left_def)

text \<open>The innermost loop along a row and along a column.\<close>

lemma row_loop: "adds D (\<lambda>C. let r = A i0 k in for_loop j0 j1 (\<lambda>j C. set2 i0 j (fadd D (C i0 j) (fmul D r (B k j))) C) C)
    (\<lambda>i j. if i = i0 \<and> j0 \<le> j \<and> j < j1 then [fmul D (A i k) (B k j)] else [])"
  unfolding Let_def by (rule adds_cong[OF adds_loop[OF adds_set2]]) (auto simp: pick)

lemma column_loop: "adds D (\<lambda>C. let r = B k j0 in for_loop i0 i1 (\<lambda>i C. set2 i j0 (fadd D (C i j0) (fmul D (A i k) r)) C) C)
    (\<lambda>i j. if j = j0 \<and> i0 \<le> i \<and> i < i1 then [fmul D (A i k) (B k j)] else [])"
  unfolding Let_def by (rule adds_cong[OF adds_loop[OF adds_set2]]) (auto simp: pick)

lemmas order_adds = pick upper_left_def terms_concat

lemma ikj_adds:
  "adds D (for_loop 0 n (\<lambda>i. for_loop 0 n (\<lambda>k C.
       let r = A i k in for_loop 0 n (\<lambda>j C. set2 i j (fadd D (C i j) (fmul D r (B k j))) C) C)))
    (upper_left n (terms D A B 0 n))"
  by (rule adds_cong[OF adds_nest2[OF row_loop]]) (auto simp: order_adds)

lemma kij_adds:
  "adds D (for_loop 0 n (\<lambda>k. for_loop 0 n (\<lambda>i C.
       let r = A i k in for_loop 0 n (\<lambda>j C. set2 i j (fadd D (C i j) (fmul D r (B k j))) C) C)))
    (upper_left n (terms D A B 0 n))"
  by (rule adds_cong[OF adds_nest2[OF row_loop]]) (auto simp: order_adds)

lemma kji_adds:
  "adds D (for_loop 0 n (\<lambda>k. for_loop 0 n (\<lambda>j C.
       let r = B k j in for_loop 0 n (\<lambda>i C. set2 i j (fadd D (C i j) (fmul D (A i k) r)) C) C)))
    (upper_left n (terms D A B 0 n))"
  by (rule adds_cong[OF adds_nest2[OF column_loop]]) (auto simp: order_adds)

lemma jki_adds:
  "adds D (for_loop 0 n (\<lambda>j. for_loop 0 n (\<lambda>k C.
       let r = B k j in for_loop 0 n (\<lambda>i C. set2 i j (fadd D (C i j) (fmul D (A i k) r)) C) C)))
    (upper_left n (terms D A B 0 n))"
  by (rule adds_cong[OF adds_nest2[OF column_loop]]) (auto simp: order_adds)

section \<open>Blocks\<close>

lemma adds_to: "adds D (\<lambda>C. set2 i0 j0 (foldl (fadd D) (C i0 j0) vs) C) (\<lambda>i j. if i = i0 \<and> j = j0 then vs else [])"
  by (simp add: adds_def set2_def)

lemma bijk_row_adds: "adds D (bijk_row D A B j0 j1 k0 k1 i0) (\<lambda>i j. if i = i0 \<and> j0 \<le> j \<and> j < j1 then terms D A B k0 k1 i j else [])"
proof -
  have "adds D (\<lambda>C. let sum = for_loop k0 k1 (\<lambda>k sum. fadd D sum (fmul D (A i0 k) (B k j))) (C i0 j) in set2 i0 j sum C)
      (\<lambda>i j'. if i = i0 \<and> j' = j then terms D A B k0 k1 i0 j else [])" for j
    using adds_to[of D i0 j "terms D A B k0 k1 i0 j"] by (simp add: local_sum terms_def)
  then show ?thesis unfolding bijk_row_def by (rule adds_cong[OF adds_loop]) (auto simp: pick)
qed

lemma bikj_row_adds: "adds D (bikj_row D A B j0 j1 k0 k1 i0) (\<lambda>i j. if i = i0 \<and> j0 \<le> j \<and> j < j1 then terms D A B k0 k1 i j else [])"
  unfolding bikj_row_def by (rule adds_cong[OF adds_loop[OF row_loop]]) (auto simp: pick terms_concat)

text \<open>The four stages of a blocked product, for either innermost loop: \<open>k\<close> only grows for an element.\<close>

lemma blocked:
  assumes row: "\<And>j0 j1 k0 k1 i0. adds D (row j0 j1 k0 k1 i0) (\<lambda>i j. if i = i0 \<and> j0 \<le> j \<and> j < j1 then terms D A B k0 k1 i j else [])"
    and b: "0 < b" and en: "en = b * (n div b)"
  shows "adds D (\<lambda>C. for_loop 0 n (row en n en n)
      (for_blocks 0 en b (\<lambda>jj. for_loop 0 n (row jj (jj + b) en n))
        (for_blocks 0 en b (\<lambda>kk C. for_loop 0 n (row en n kk (kk + b))
          (for_blocks 0 en b (\<lambda>jj. for_loop 0 n (row jj (jj + b) kk (kk + b))) C)) C))) (upper_left n (terms D A B 0 n))"
proof -
  have le: "en \<le> n" by (simp add: en)
  have rows: "adds D (for_loop 0 n (row j0 j1 k0 k1)) (\<lambda>i j. if i < n \<and> j0 \<le> j \<and> j < j1 then terms D A B k0 k1 i j else [])" for j0 j1 k0 k1
    by (rule adds_cong[OF adds_loop[OF row]]) (auto simp: pick)
  have cols: "adds D (for_blocks 0 en b (\<lambda>jj. for_loop 0 n (row jj (jj + b) k0 k1)))
      (\<lambda>i j. if i < n \<and> j < en then terms D A B k0 k1 i j else [])" for k0 k1
  proof (rule adds_cong)
    show "adds D (for_blocks 0 en b (\<lambda>jj. for_loop 0 n (row jj (jj + b) k0 k1)))
        (\<lambda>i j. concat (map (\<lambda>y. if i < n \<and> j = y then terms D A B k0 k1 i j else []) [0..<b * (n div b)]))"
      unfolding en by (rule adds_blocks[OF b], rule adds_cong[OF rows]) (auto simp: pick)
    show "concat (map (\<lambda>y. if i < n \<and> j = y then terms D A B k0 k1 i j else []) [0..<b * (n div b)]) =
        (if i < n \<and> j < en then terms D A B k0 k1 i j else [])" for i j
      by (simp add: pick en)
  qed
  have both: "adds D (\<lambda>C. for_loop 0 n (row en n k0 k1) (for_blocks 0 en b (\<lambda>jj. for_loop 0 n (row jj (jj + b) k0 k1)) C))
      (upper_left n (terms D A B k0 k1))" for k0 k1
    by (rule adds_cong[OF adds_then[OF cols rows]]) (use le in \<open>auto simp: upper_left_def\<close>)
  have ks: "adds D (for_blocks 0 en b (\<lambda>kk C. for_loop 0 n (row en n kk (kk + b))
        (for_blocks 0 en b (\<lambda>jj. for_loop 0 n (row jj (jj + b) kk (kk + b))) C)))
      (upper_left n (terms D A B 0 en))"
  proof (rule adds_cong)
    show "adds D (for_blocks 0 en b (\<lambda>kk C. for_loop 0 n (row en n kk (kk + b))
          (for_blocks 0 en b (\<lambda>jj. for_loop 0 n (row jj (jj + b) kk (kk + b))) C)))
        (\<lambda>i j. concat (map (\<lambda>x. if i < n \<and> j < n then [fmul D (A i x) (B x j)] else []) [0..<b * (n div b)]))"
      by (subst (1) en, rule adds_blocks[OF b], rule adds_cong[OF both]) (auto simp: order_adds)
    show "concat (map (\<lambda>x. if i < n \<and> j < n then [fmul D (A i x) (B x j)] else []) [0..<b * (n div b)]) =
        upper_left n (terms D A B 0 en) i j" for i j
      by (simp add: pick_terms upper_left_def terms_concat en)
  qed
  have "[0..<en] @ [en..<n] = [0..<n]" using le by (metis le0 le_add_diff_inverse upt_add_eq_append)
  then have "terms D A B 0 en i j @ terms D A B en n i j = terms D A B 0 n i j" for i j
    unfolding terms_def by (metis map_append)
  then show ?thesis
    by (intro adds_cong[OF adds_then[OF ks both]]) (auto simp: upper_left_def)
qed

lemma set_row: "for_loop 0 n (\<lambda>j. set2 i0 j v) C = (\<lambda>i j. if i = i0 \<and> j < n then v else C i j)"
  by (induction n) (auto simp: for_loop_Suc set2_def fun_eq_iff)

lemma reset_zero: "reset D n C = (\<lambda>i j. if i < n \<and> j < n then fzero D else C i j)"
proof -
  have "for_loop 0 m (\<lambda>i. for_loop 0 n (\<lambda>j. set2 i j (fzero D))) C = (\<lambda>i j. if i < m \<and> j < n then fzero D else C i j)" for m
    by (induction m) (auto simp: for_loop_Suc set_row fun_eq_iff)
  then show ?thesis by (simp add: reset_def)
qed

lemma bijk_product:
  "0 < b \<Longrightarrow> n \<le> MAXN \<Longrightarrow> bijk D A B C n b = Done (\<lambda>i j. if i < n \<and> j < n then dot D A B n i j else C i j)"
  using addsD[OF blocked[where row = "bijk_row D A B", OF bijk_row_adds _ refl, of b n], of "reset D n C"]
  by (simp add: bijk_def Let_def reset_def[symmetric] reset_zero upper_left_def dot_def fun_eq_iff)

lemma bikj_product:
  "0 < b \<Longrightarrow> n \<le> MAXN \<Longrightarrow> bikj D A B C n b = Done (\<lambda>i j. if i < n \<and> j < n then dot D A B n i j else C i j)"
  using addsD[OF blocked[where row = "bikj_row D A B", OF bikj_row_adds _ refl, of b n], of "reset D n C"]
  by (simp add: bikj_def Let_def reset_def[symmetric] reset_zero upper_left_def dot_def fun_eq_iff)

lemma adds_eq: "adds D f (upper_left n F) \<Longrightarrow> f C = (\<lambda>i j. if i < n \<and> j < n then foldl (fadd D) (C i j) (F i j) else C i j)"
  by (simp add: adds_def upper_left_def fun_eq_iff)

lemma ijk_product:
  "n \<le> MAXN \<Longrightarrow> ijk D A B C n = Done (\<lambda>i j. if i < n \<and> j < n then fadd D (C i j) (dot D A B n i j) else C i j)"
  by (auto simp: ijk_def adds_eq[OF ijk_adds[unfolded Let_def]] fun_eq_iff)

lemma jik_product:
  "n \<le> MAXN \<Longrightarrow> jik D A B C n = Done (\<lambda>i j. if i < n \<and> j < n then fadd D (C i j) (dot D A B n i j) else C i j)"
  by (auto simp: jik_def adds_eq[OF jik_adds[unfolded Let_def]] fun_eq_iff)

text \<open>The orders with \<open>k\<close> outside of the innermost loop.\<close>

lemma k_outside_product:
  "n \<le> MAXN \<Longrightarrow> f \<in> set [ikj, kij, kji, jki] \<Longrightarrow>
    f D A B C n = Done (\<lambda>i j. if i < n \<and> j < n then foldl (fadd D) (C i j) (terms D A B 0 n i j) else C i j)"
  by (auto simp: ikj_def kij_def kji_def jki_def adds_eq[OF ikj_adds[unfolded Let_def]] adds_eq[OF kij_adds[unfolded Let_def]]
      adds_eq[OF kji_adds[unfolded Let_def]] adds_eq[OF jki_adds[unfolded Let_def]])

text \<open>
  C31: What the eight versions compute for any arithmetic of \<open>double\<close>, whether it rounds or not and
  with no law assumed. For a size of at most \<open>MAXN\<close> (and for the blocked versions every block
  size other than 0, also one that does not divide the size or exceeds it): all of them add the
  products \<open>A[i][k] * B[k][j]\<close> of an element in the order of \<open>k\<close>, from 0 up. The orders with \<open>k\<close>
  outside add them to the old element of \<open>C\<close> one by one; \<open>ijk\<close> and \<open>jik\<close> add them to \<open>0.0\<close> and then
  their sum to the old element; the blocked versions add them to \<open>0.0\<close> and store the sum. Elements
  outside of the \<open>n\<close> by \<open>n\<close> part are not touched. So on an array that \<open>reset\<close> has cleared the six
  that do not round twice agree exactly, and all eight do if \<open>0.0 + s\<close> is \<open>s\<close> for a sum \<open>s\<close> of terms
  added to \<open>0.0\<close>, as it is in IEEE arithmetic. For a larger size every version goes past the end of the arrays (\<open>Fault\<close>).
\<close>

theorem matmul_versions_agree:
  assumes "n \<le> MAXN" and "0 < bsize"
  shows "(\<forall>f\<in>set [ikj, kij, kji, jki].
      f D A B C n = Done (\<lambda>i j. if i < n \<and> j < n
        then foldl (fadd D) (C i j) (map (\<lambda>k. fmul D (A i k) (B k j)) [0..<n]) else C i j)) \<and>
    (\<forall>f\<in>set [ijk, jik].
      f D A B C n = Done (\<lambda>i j. if i < n \<and> j < n
        then fadd D (C i j) (foldl (fadd D) (fzero D) (map (\<lambda>k. fmul D (A i k) (B k j)) [0..<n])) else C i j)) \<and>
    (\<forall>g\<in>set [bijk, bikj].
      g D A B C n bsize = Done (\<lambda>i j. if i < n \<and> j < n
        then foldl (fadd D) (fzero D) (map (\<lambda>k. fmul D (A i k) (B k j)) [0..<n]) else C i j)) \<and>
    (\<forall>f\<in>set [ikj, kij, kji, jki]. \<forall>g\<in>set [bijk, bikj]. f D A B (reset D n C) n = g D A B C n bsize) \<and>
    ((\<forall>xs. fadd D (fzero D) (foldl (fadd D) (fzero D) xs) = foldl (fadd D) (fzero D) xs) \<longrightarrow>
      (\<forall>f\<in>set [ijk, jik]. \<forall>g\<in>set [bijk, bikj]. f D A B (reset D n C) n = g D A B C n bsize)) \<and>
    (\<forall>m>MAXN. (\<forall>f\<in>set [ijk, jik, ikj, kij, kji, jki]. f D A B C m = Fault) \<and>
      (\<forall>g\<in>set [bijk, bikj]. g D A B C m bsize = Fault))"
  unfolding terms_def[symmetric] dot_def[symmetric]
proof (intro conjI impI ballI allI)
  note one = ijk_product[OF assms(1)] jik_product[OF assms(1)]
  note two = bijk_product[OF assms(2,1)] bikj_product[OF assms(2,1)]
  show "f D A B C n = Done (\<lambda>i j. if i < n \<and> j < n then foldl (fadd D) (C i j) (terms D A B 0 n i j) else C i j)"
    if "f \<in> set [ikj, kij, kji, jki]" for f
    by (rule k_outside_product[OF assms(1) that])
  show "f D A B C n = Done (\<lambda>i j. if i < n \<and> j < n then fadd D (C i j) (dot D A B n i j) else C i j)"
    if "f \<in> set [ijk, jik]" for f
    using that by (auto simp: one)
  show "g D A B C n bsize = Done (\<lambda>i j. if i < n \<and> j < n then dot D A B n i j else C i j)"
    if "g \<in> set [bijk, bikj]" for g
    using that by (auto simp: two)
  show "f D A B (reset D n C) n = g D A B C n bsize" if "f \<in> set [ikj, kij, kji, jki]" "g \<in> set [bijk, bikj]" for f g
    unfolding k_outside_product[OF assms(1) that(1)] using that(2) by (auto simp: two reset_zero dot_def fun_eq_iff)
  show "f D A B (reset D n C) n = g D A B C n bsize"
    if "\<forall>xs. fadd D (fzero D) (foldl (fadd D) (fzero D) xs) = foldl (fadd D) (fzero D) xs"
      "f \<in> set [ijk, jik]" "g \<in> set [bijk, bikj]" for f g
    using that by (auto simp: one two reset_zero dot_def fun_eq_iff)
  show "f D A B C m = Fault" if "MAXN < m" "f \<in> set [ijk, jik, ikj, kij, kji, jki]" for f m
    using that by (auto simp: ijk_def jik_def ikj_def kij_def kji_def jki_def)
  show "g D A B C m bsize = Fault" if "MAXN < m" "g \<in> set [bijk, bikj]" for g m
    using that by (auto simp: bijk_def bikj_def)
qed

text \<open>
  An arithmetic that rounds: numbers of three bits, and above them only the multiples of 8, so sums
  depend on their order. Adding 0 keeps its sums.
\<close>

definition coarse :: "int double_ops" where
  "coarse = \<lparr>fadd = (\<lambda>x y. if x + y < 8 then x + y else (x + y) div 8 * 8), fmul = (*), fzero = 0, fone = 1,
     of_int_size = int, feq = (=)\<rparr>"

lemma coarse_zero: "\<forall>xs. fadd coarse (fzero coarse) (foldl (fadd coarse) (fzero coarse) xs) = foldl (fadd coarse) (fzero coarse) xs"
proof
  fix xs :: "int list"
  show "fadd coarse (fzero coarse) (foldl (fadd coarse) (fzero coarse) xs) = foldl (fadd coarse) (fzero coarse) xs"
    by (cases xs rule: rev_cases) (simp_all add: coarse_def)
qed

theorem matmul_versions_agree_witness:
  "fadd coarse (fadd coarse 7 1) 8 \<noteq> fadd coarse 7 (fadd coarse 1 8) \<and>
   map (\<lambda>f. f coarse (\<lambda>i k. int i + int k) (\<lambda>k j. 3) (reset coarse 3 (\<lambda>i j. 1)) 3) [ijk, jik, ikj, kij, kji, jki] =
     replicate 6 (bijk coarse (\<lambda>i k. int i + int k) (\<lambda>k j. 3) (\<lambda>i j. 1) 3 2) \<and>
   bijk coarse (\<lambda>i k. int i + int k) (\<lambda>k j. 3) (\<lambda>i j. 1) 3 2 = bikj coarse (\<lambda>i k. int i + int k) (\<lambda>k j. 3) (\<lambda>i j. 1) 3 2 \<and>
   (case bijk coarse (\<lambda>i k. int i + int k) (\<lambda>k j. 3) (\<lambda>i j. 1) 3 2 of Done C \<Rightarrow> [C 0 0, C 1 2, C 2 1, C 3 3] | Fault \<Rightarrow> []) = [8, 16, 16, 1] \<and>
   (case ijk coarse (\<lambda>i k. int i + int k) (\<lambda>k j. 3) (\<lambda>i j. 1) 3 of Done C \<Rightarrow> [C 0 0, C 1 2, C 2 1, C 3 3] | Fault \<Rightarrow> []) = [8, 16, 16, 1]"
proof -
  have size: "(3::nat) \<le> MAXN" "(0::nat) < 2" by (simp_all add: MAXN_def)
  note use = matmul_versions_agree[OF size, of coarse "\<lambda>i k. int i + int k" "\<lambda>k j. 3" "\<lambda>i j. 1"]
  have all: "f coarse (\<lambda>i k. int i + int k) (\<lambda>k j. 3) (reset coarse 3 (\<lambda>i j. 1)) 3 = g coarse (\<lambda>i k. int i + int k) (\<lambda>k j. 3) (\<lambda>i j. 1) 3 2"
    if "f \<in> set [ijk, jik, ikj, kij, kji, jki]" "g \<in> set [bijk, bikj]" for f g
    using use coarse_zero that by auto
  have "map (\<lambda>f. f coarse (\<lambda>i k. int i + int k) (\<lambda>k j. 3) (reset coarse 3 (\<lambda>i j. 1)) 3) [ijk, jik, ikj, kij, kji, jki] =
      replicate 6 (bijk coarse (\<lambda>i k. int i + int k) (\<lambda>k j. 3) (\<lambda>i j. 1) 3 2)"
    using all[of _ bijk] by (simp add: numeral_eq_Suc)
  moreover have "bijk coarse (\<lambda>i k. int i + int k) (\<lambda>k j. 3) (\<lambda>i j. 1) 3 2 = bikj coarse (\<lambda>i k. int i + int k) (\<lambda>k j. 3) (\<lambda>i j. 1) 3 2"
    using all[of ijk bijk] all[of ijk bikj] by simp
  moreover have "(case bijk coarse (\<lambda>i k. int i + int k) (\<lambda>k j. 3) (\<lambda>i j. 1) 3 2 of Done C \<Rightarrow> [C 0 0, C 1 2, C 2 1, C 3 3] | Fault \<Rightarrow> []) = [8, 16, 16, 1]"
    using use[THEN conjunct2, THEN conjunct2, THEN conjunct1, rule_format, of bijk] by (simp add: coarse_def upt_rec)
  moreover have "(case ijk coarse (\<lambda>i k. int i + int k) (\<lambda>k j. 3) (\<lambda>i j. 1) 3 of Done C \<Rightarrow> [C 0 0, C 1 2, C 2 1, C 3 3] | Fault \<Rightarrow> []) = [8, 16, 16, 1]"
    using use[THEN conjunct2, THEN conjunct1, rule_format, of ijk] by (simp add: coarse_def upt_rec)
  moreover have "fadd coarse (fadd coarse 7 1) 8 \<noteq> fadd coarse 7 (fadd coarse 1 8)" by (simp add: coarse_def)
  ultimately show ?thesis by (intro conjI)
qed

text \<open>
  The programs' own test: on matrices of ones every version passes \<open>checkresult\<close>, if the sums of
  up to \<open>n\<close> ones are exact.
\<close>

lemma init_ones:
  assumes "init_mm D n ab = (a, b)" and "i < n" and "j < n"
  shows "a i j = fone D \<and> b i j = fone D"
proof -
  have row: "for_loop 0 m (\<lambda>j (a, b). (set2 i0 j (fone D) a, set2 i0 j (fone D) b)) ab =
      ((\<lambda>i j. if i = i0 \<and> j < m then fone D else fst ab i j), (\<lambda>i j. if i = i0 \<and> j < m then fone D else snd ab i j))"
    for i0 m and ab :: "'a array \<times> 'a array"
    by (induction m) (auto simp: for_loop_Suc set2_def fun_eq_iff)
  have "for_loop 0 m (\<lambda>i. for_loop 0 n (\<lambda>j (a, b). (set2 i j (fone D) a, set2 i j (fone D) b))) ab =
      ((\<lambda>i j. if i < m \<and> j < n then fone D else fst ab i j), (\<lambda>i j. if i < m \<and> j < n then fone D else snd ab i j))" for m
    by (induction m) (auto simp: for_loop_Suc row fun_eq_iff)
  with assms show ?thesis by (auto simp: init_mm_def)
qed

lemma ones_dot:
  assumes "init_mm D n ab = (a, b)" and "i < n" and "j < n"
    and exact: "fmul D (fone D) (fone D) = fone D" "of_int_size D 0 = fzero D"
      "\<And>k. k < n \<Longrightarrow> fadd D (of_int_size D k) (fone D) = of_int_size D (Suc k)"
  shows "dot D a b n i j = of_int_size D n"
proof -
  have "terms D a b 0 n i j = replicate n (fone D)"
    using init_ones[OF assms(1)] assms(2,3) exact(1) by (auto simp: terms_def intro!: nth_equalityI)
  moreover have "foldl (fadd D) (fzero D) (replicate m (fone D)) = of_int_size D m" if "m \<le> n" for m
    using that
  proof (induction m)
    case (Suc m)
    have "replicate (Suc m) (fone D) = replicate m (fone D) @ [fone D]" by (simp add: replicate_append_same)
    with Suc show ?case by (simp add: exact(3) del: replicate_Suc)
  qed (simp add: exact(2))
  ultimately show ?thesis by (simp add: dot_def)
qed

lemma own_test:
  assumes "n \<le> MAXN" and "0 < bsize" and "init_mm D n ab = (a, b)"
    and exact: "fmul D (fone D) (fone D) = fone D" "of_int_size D 0 = fzero D"
      "\<And>k. k < n \<Longrightarrow> fadd D (of_int_size D k) (fone D) = of_int_size D (Suc k)"
      "fadd D (fzero D) (of_int_size D n) = of_int_size D n" "feq D (of_int_size D n) (of_int_size D n)"
  shows "f \<in> set [ijk, jik, ikj, kij, kji, jki] \<Longrightarrow> \<exists>c. f D a b (reset D n C) n = Done c \<and> checkresult D c n"
    and "g \<in> set [bijk, bikj] \<Longrightarrow> \<exists>c. g D a b C n bsize = Done c \<and> checkresult D c n"
proof -
  have ones: "dot D a b n i j = of_int_size D n" if "i < n" "j < n" for i j
    by (rule ones_dot[OF assms(3) that exact(1,2,3)])
  then have ones': "foldl (fadd D) (fzero D) (terms D a b 0 n i j) = of_int_size D n" if "i < n" "j < n" for i j
    using that by (simp add: dot_def)
  show "f \<in> set [ijk, jik, ikj, kij, kji, jki] \<Longrightarrow> \<exists>c. f D a b (reset D n C) n = Done c \<and> checkresult D c n"
    using k_outside_product[OF assms(1), of f D a b "reset D n C"]
    by (auto simp: ijk_product[OF assms(1)] jik_product[OF assms(1)] reset_zero checkresult_def list_all_iff ones ones' exact)
  show "g \<in> set [bijk, bikj] \<Longrightarrow> \<exists>c. g D a b C n bsize = Done c \<and> checkresult D c n"
    by (auto simp: bijk_product[OF assms(2,1)] bikj_product[OF assms(2,1)] checkresult_def list_all_iff ones exact)
qed

end
