(* ===== verification/ListOps.thy ===== *)
theory ListOps
  imports Prelude
begin

text \<open>
  Linked lists in memory, \<open>csapp-master/opt/list.c\<close>: the versions of length, sum and copy that the
  program measures against each other. A pointer is a natural number, NULL is 0; an element that
  was never written has arbitrary contents, so a list may be cyclic and a loop over it may not end.
\<close>

section \<open>The program\<close>

record list_ele =
  ele_next :: nat
  ele_data :: uint64

type_synonym list_heap = "nat \<Rightarrow> list_ele"

definition ASIZE :: nat where "ASIZE = 1024"

text \<open>The array \<open>main_list\<close> lies at address 1, one element per address.\<close>

definition main_list :: "nat \<Rightarrow> nat" where "main_list i = i + 1"

definition set_data :: "nat \<Rightarrow> uint64 \<Rightarrow> list_heap \<Rightarrow> list_heap" where
  "set_data p v h = h(p := (h p)\<lparr>ele_data := v\<rparr>)"

definition set_next :: "nat \<Rightarrow> nat \<Rightarrow> list_heap \<Rightarrow> list_heap" where
  "set_next p q h = h(p := (h p)\<lparr>ele_next := q\<rparr>)"

definition mylink :: "nat \<Rightarrow> list_heap \<Rightarrow> list_heap" where
  "mylink len h =
     (let h = for_loop 0 (len - 1) (\<lambda>i h. set_next (main_list i) (main_list (i + 1)) (set_data (main_list i) (of_nat i) h)) h
      in set_next (main_list (len - 1)) 0 (set_data (main_list (len - 1)) (of_nat (len - 1)) h))"

partial_function (option) len_loop :: "list_heap \<Rightarrow> nat \<Rightarrow> uint64 \<Rightarrow> uint64 option" where
  "len_loop h ls len = (if ls = 0 then Some len else len_loop h (ele_next (h ls)) (len + 1))"

definition list_len :: "list_heap \<Rightarrow> nat \<Rightarrow> uint64 option" where
  "list_len h ls = len_loop h ls 0"

partial_function (option) len_clear_loop :: "list_heap \<Rightarrow> nat \<Rightarrow> uint64 \<Rightarrow> (uint64 \<times> list_heap) option" where
  "len_clear_loop h ls len =
     (if ls = 0 then Some (len, h)
      else let h = set_data ls 0 h in len_clear_loop h (ele_next (h ls)) (len + 1))"

definition list_len_clear :: "list_heap \<Rightarrow> nat \<Rightarrow> (uint64 \<times> list_heap) option" where
  "list_len_clear h ls = len_clear_loop h ls 0"

partial_function (option) sum_clear_loop :: "list_heap \<Rightarrow> nat \<Rightarrow> uint64 \<Rightarrow> (uint64 \<times> list_heap) option" where
  "sum_clear_loop h ls acc =
     (if ls = 0 then Some (acc, h)
      else let acc = acc + ele_data (h ls); h = set_data ls 0 h in sum_clear_loop h (ele_next (h ls)) acc)"

definition list_sum_clear :: "list_heap \<Rightarrow> nat \<Rightarrow> (uint64 \<times> list_heap) option" where
  "list_sum_clear h ls = sum_clear_loop h ls 0"

partial_function (option) sum_loop :: "list_heap \<Rightarrow> nat \<Rightarrow> uint64 \<Rightarrow> uint64 option" where
  "sum_loop h ls acc = (if ls = 0 then Some acc else sum_loop h (ele_next (h ls)) (acc + ele_data (h ls)))"

definition list_sum :: "list_heap \<Rightarrow> nat \<Rightarrow> uint64 option" where
  "list_sum h ls = sum_loop h ls 0"

partial_function (option) sum2_loop :: "list_heap \<Rightarrow> nat \<Rightarrow> uint64 \<Rightarrow> uint64 option" where
  "sum2_loop h ls acc =
     (if ls = 0 then Some acc
      else let old = ls; ls = ele_next (h ls) in sum2_loop h ls (acc + ele_data (h old)))"

definition list_sum2 :: "list_heap \<Rightarrow> nat \<Rightarrow> uint64 option" where
  "list_sum2 h ls = sum2_loop h ls 0"

partial_function (option) pipe2_loop :: "list_heap \<Rightarrow> nat \<Rightarrow> uint64 \<Rightarrow> uint64 option" where
  "pipe2_loop h ls acc =
     (if ls = 0 then Some acc
      else let succ = ele_next (h ls); acc = acc + ele_data (h ls) in pipe2_loop h succ acc)"

definition pipe_sum2 :: "list_heap \<Rightarrow> nat \<Rightarrow> uint64 option" where
  "pipe_sum2 h ls = pipe2_loop h ls 0"

partial_function (option) rlist_len :: "list_heap \<Rightarrow> nat \<Rightarrow> uint64 option" where
  "rlist_len h ls =
     (if ls = 0 then Some 0 else Option.bind (rlist_len h (ele_next (h ls))) (\<lambda>n. Some (1 + n)))"

partial_function (option) rlist_sum :: "list_heap \<Rightarrow> nat \<Rightarrow> uint64 option" where
  "rlist_sum h ls =
     (if ls = 0 then Some 0 else Option.bind (rlist_sum h (ele_next (h ls))) (\<lambda>n. Some (ele_data (h ls) + n)))"

partial_function (option) list_copy :: "nat \<Rightarrow> nat \<Rightarrow> list_heap \<Rightarrow> list_heap option" where
  "list_copy src dest h =
     (if src \<noteq> 0 \<and> dest \<noteq> 0
      then let h = set_data dest (ele_data (h src)) h; src = ele_next (h src); dest = ele_next (h dest) in list_copy src dest h
      else Some h)"

text \<open>The body of the \<open>do\<close> loop of \<open>plist_copy\<close>, and the function with its test on entry.\<close>

partial_function (option) plist_loop :: "nat \<Rightarrow> nat \<Rightarrow> list_heap \<Rightarrow> list_heap option" where
  "plist_loop src dest h =
     (let odest = dest; dest = ele_next (h dest); osrc = src; src = ele_next (h src); h = set_data odest (ele_data (h osrc)) h
      in if src \<noteq> 0 \<and> dest \<noteq> 0 then plist_loop src dest h else Some h)"

definition plist_copy :: "nat \<Rightarrow> nat \<Rightarrow> list_heap \<Rightarrow> list_heap option" where
  "plist_copy src dest h = (if src = 0 \<or> dest = 0 then Some h else plist_loop src dest h)"

partial_function (option) plist_copy2 :: "nat \<Rightarrow> nat \<Rightarrow> list_heap \<Rightarrow> list_heap option" where
  "plist_copy2 src dest h =
     (if src \<noteq> 0 \<and> dest \<noteq> 0
      then let nsrc = ele_next (h src); ndest = ele_next (h dest) in plist_copy2 nsrc ndest (set_data dest (ele_data (h src)) h)
      else Some h)"

definition stationary_copy :: "nat \<Rightarrow> nat \<Rightarrow> list_heap \<Rightarrow> list_heap" where
  "stationary_copy src dest h = for_loop 0 ASIZE (\<lambda>i h. set_data dest (ele_data (h src)) h) h"

section \<open>Lists in memory\<close>

text \<open>From \<open>p\<close> the elements \<open>ps\<close> are linked in this order, and the last one ends the list.\<close>

fun linked :: "list_heap \<Rightarrow> nat \<Rightarrow> nat list \<Rightarrow> bool" where
  "linked h p [] \<longleftrightarrow> p = 0"
| "linked h p (q # qs) \<longleftrightarrow> p = q \<and> q \<noteq> 0 \<and> linked h (ele_next (h q)) qs"

lemma set_data_simps [simp]:
  "ele_next (set_data p v h q) = ele_next (h q)" "ele_data (set_data p v h q) = (if p = q then v else ele_data (h q))"
  by (simp_all add: set_data_def)

lemma linked_cong: "(\<And>q. ele_next (h' q) = ele_next (h q)) \<Longrightarrow> linked h' p ps \<longleftrightarrow> linked h p ps"
  by (induction ps arbitrary: p) auto

lemma linked_set_data [simp]: "linked (set_data q v h) p ps \<longleftrightarrow> linked h p ps"
  by (rule linked_cong) (simp add: set_data_def)

lemma linked_unique: "linked h p ps \<Longrightarrow> linked h p qs \<Longrightarrow> ps = qs"
proof (induction ps arbitrary: p qs)
  case (Cons x ps)
  then show ?case by (cases qs) auto
qed (case_tac qs; simp)

lemma linked_tail: "linked h p (as @ bs) \<Longrightarrow> bs \<noteq> [] \<Longrightarrow> linked h (hd bs) bs"
  by (induction as arbitrary: p) (auto simp: neq_Nil_conv)

text \<open>A list that ends visits no element twice.\<close>

lemma linked_distinct: "linked h p ps \<Longrightarrow> distinct ps"
proof (induction ps arbitrary: p)
  case (Cons q qs)
  have "q \<notin> set qs"
  proof
    assume "q \<in> set qs"
    then obtain as bs where qs: "qs = as @ q # bs" by (auto dest: split_list)
    have "linked h q (q # bs)" using Cons.prems linked_tail[of h p "q # as" "q # bs"] by (simp add: qs)
    moreover have "linked h q (q # qs)" using Cons.prems by simp
    ultimately have "q # bs = q # qs" by (rule linked_unique)
    then show False by (simp add: qs)
  qed
  then show ?case using Cons by auto
qed simp


section \<open>Lengths and sums\<close>

definition data_sum :: "list_heap \<Rightarrow> nat list \<Rightarrow> uint64" where
  "data_sum h ps = sum_list (map (\<lambda>p. ele_data (h p)) ps)"

lemma read_loops:
  assumes "linked h p ps"
  shows "len_loop h p n = Some (n + of_nat (length ps))" "sum_loop h p n = Some (n + data_sum h ps)"
    "sum2_loop h p n = Some (n + data_sum h ps)" "pipe2_loop h p n = Some (n + data_sum h ps)"
    "rlist_len h p = Some (of_nat (length ps))" "rlist_sum h p = Some (data_sum h ps)"
proof -
  show "len_loop h p n = Some (n + of_nat (length ps))"
    using assms by (induction ps arbitrary: p n) (subst len_loop.simps; simp)+
  show "sum_loop h p n = Some (n + data_sum h ps)"
    using assms by (induction ps arbitrary: p n) (subst sum_loop.simps; simp add: data_sum_def)+
  show "sum2_loop h p n = Some (n + data_sum h ps)"
    using assms by (induction ps arbitrary: p n) (subst sum2_loop.simps; simp add: data_sum_def Let_def)+
  show "pipe2_loop h p n = Some (n + data_sum h ps)"
    using assms by (induction ps arbitrary: p n) (subst pipe2_loop.simps; simp add: data_sum_def Let_def)+
  show "rlist_len h p = Some (of_nat (length ps))"
    using assms by (induction ps arbitrary: p) (subst rlist_len.simps; simp)+
  show "rlist_sum h p = Some (data_sum h ps)"
    using assms by (induction ps arbitrary: p) (subst rlist_sum.simps; simp add: data_sum_def)+
qed

text \<open>The elements \<open>ps\<close> with their data set to 0.\<close>

definition cleared :: "list_heap \<Rightarrow> nat list \<Rightarrow> list_heap" where
  "cleared h ps = (\<lambda>p. if p \<in> set ps then (h p)\<lparr>ele_data := 0\<rparr> else h p)"

lemma cleared_Cons: "cleared (set_data p 0 h) ps = cleared h (p # ps)"
  by (auto simp: cleared_def set_data_def fun_eq_iff)

lemma clear_loops:
  assumes "linked h p ps"
  shows "len_clear_loop h p n = Some (n + of_nat (length ps), cleared h ps)"
    and "sum_clear_loop h p n = Some (n + data_sum h ps, cleared h ps)"
proof -
  show "len_clear_loop h p n = Some (n + of_nat (length ps), cleared h ps)"
    using assms
  proof (induction ps arbitrary: h p n)
    case Nil
    then show ?case by (subst len_clear_loop.simps) (simp add: cleared_def)
  next
    case (Cons q qs)
    then have q: "p = q" "q \<noteq> 0" and l: "linked (set_data q 0 h) (ele_next (h q)) qs" by simp_all
    show ?case using Cons.IH[OF l, of "n + 1"] q by (subst len_clear_loop.simps) (simp add: Let_def cleared_Cons)
  qed
  show "sum_clear_loop h p n = Some (n + data_sum h ps, cleared h ps)"
    using assms linked_distinct[OF assms]
  proof (induction ps arbitrary: h p n)
    case Nil
    then show ?case by (subst sum_clear_loop.simps) (simp add: cleared_def data_sum_def)
  next
    case (Cons q qs)
    have "data_sum (set_data q 0 h) qs = data_sum h qs"
      unfolding data_sum_def by (rule arg_cong[where f = sum_list], rule map_cong) (use Cons.prems in auto)
    moreover have q: "p = q" "q \<noteq> 0" and l: "linked (set_data q 0 h) (ele_next (h q)) qs" using Cons.prems by simp_all
    ultimately show ?case using Cons.IH[OF l, of "n + ele_data (h q)"] Cons.prems(2)
      by (subst sum_clear_loop.simps) (simp add: Let_def cleared_Cons data_sum_def)
  qed
qed

text \<open>A loop over a list returns exactly when the list ends.\<close>

lemma len_loop_linked: "len_loop h p n = Some m \<Longrightarrow> \<exists>ps. linked h p ps"
proof (rule len_loop.raw_induct[where P = "\<lambda>h p n m. \<exists>ps. linked h p ps"])
  fix loop h ls len r
  assume IH: "\<And>h ls len r. loop h ls len = Some r \<Longrightarrow> \<exists>ps. linked h ls ps"
    and body: "(if ls = 0 then Some len else loop h (ele_next (h ls)) (len + 1)) = Some r"
  show "\<exists>ps. linked h ls ps"
  proof (cases "ls = 0")
    case True
    then show ?thesis by (intro exI[of _ "[]"]) simp
  next
    case False
    with body have "loop h (ele_next (h ls)) (len + 1) = Some r" by simp
    then obtain ps where "linked h (ele_next (h ls)) ps" using IH by blast
    with False show ?thesis by (intro exI[of _ "ls # ps"]) simp
  qed
qed

lemma list_len_returns: "list_len h p \<noteq> None \<longleftrightarrow> (\<exists>ps. linked h p ps)"
  using len_loop_linked[of h p 0] read_loops(1)[of h p _ 0] by (auto simp: list_len_def)

section \<open>Copies\<close>

text \<open>Element after element, as far as both lists go.\<close>

fun copied :: "(nat \<times> nat) list \<Rightarrow> list_heap \<Rightarrow> list_heap" where
  "copied [] h = h"
| "copied ((s, d) # ps) h = copied ps (set_data d (ele_data (h s)) h)"

lemma copy_loops:
  assumes "linked h src ss" and "linked h dest ds"
  shows "list_copy src dest h = Some (copied (zip ss ds) h)" and "plist_copy2 src dest h = Some (copied (zip ss ds) h)"
    and "plist_copy src dest h = Some (copied (zip ss ds) h)"
proof -
  show "list_copy src dest h = Some (copied (zip ss ds) h)"
    using assms
  proof (induction ss arbitrary: src dest ds h)
    case (Cons s ss)
    then show ?case by (subst list_copy.simps; cases ds) (simp_all add: Let_def)
  qed (subst list_copy.simps; simp)
  show "plist_copy2 src dest h = Some (copied (zip ss ds) h)"
    using assms
  proof (induction ss arbitrary: src dest ds h)
    case (Cons s ss)
    then show ?case by (subst plist_copy2.simps; cases ds) (simp_all add: Let_def)
  qed (subst plist_copy2.simps; simp)
  have loop: "plist_loop s d h = Some (copied (zip (s # ss) (d # ds)) h)" if "linked h s (s # ss)" "linked h d (d # ds)" for s d ss ds h
    using that
  proof (induction ss arbitrary: s d ds h)
    case Nil
    then show ?case by (subst plist_loop.simps) (simp add: Let_def)
  next
    case (Cons s' ss)
    let ?h = "set_data d (ele_data (h s)) h"
    show ?case
    proof (cases ds)
      case Nil
      then show ?thesis using Cons.prems by (subst plist_loop.simps) (simp add: Let_def)
    next
      case (Cons d' ds')
      have "linked ?h s' (s' # ss)" "linked ?h d' (d' # ds')" using Cons.prems Cons by simp_all
      from Cons.IH[OF this] show ?thesis using Cons.prems Cons by (subst plist_loop.simps) (simp add: Let_def)
    qed
  qed
  show "plist_copy src dest h = Some (copied (zip ss ds) h)"
  proof (cases "ss = [] \<or> ds = []")
    case True
    then show ?thesis using assms by (auto simp: plist_copy_def)
  next
    case False
    then obtain s ss' d ds' where c: "ss = s # ss'" "ds = d # ds'" by (meson neq_Nil_conv)
    then have "src = s" "dest = d" "s \<noteq> 0" "d \<noteq> 0" using assms by auto
    then show ?thesis using loop[of h s ss' d ds'] assms by (simp add: plist_copy_def c)
  qed
qed

lemma copied_data:
  assumes "distinct ds" and "length ss = length ds"
    and "\<And>i j. i < j \<Longrightarrow> j < length ss \<Longrightarrow> ss ! j \<noteq> ds ! i"
  shows "\<forall>i<length ds. ele_data (copied (zip ss ds) h (ds ! i)) = ele_data (h (ss ! i))"
    and "\<forall>p. p \<notin> set ds \<longrightarrow> copied (zip ss ds) h p = h p"
proof -
  show other: "\<forall>p. p \<notin> set ds \<longrightarrow> copied (zip ss ds) h p = h p"
    using assms(2) by (induction ss ds arbitrary: h rule: list_induct2) (auto simp: set_data_def)
  have frame: "p \<notin> set ds \<Longrightarrow> length ss = length ds \<Longrightarrow> copied (zip ss ds) h p = h p" for p ss ds h
    by (induction ss ds arbitrary: h rule: list_induct2') (auto simp: set_data_def)
  show "\<forall>i<length ds. ele_data (copied (zip ss ds) h (ds ! i)) = ele_data (h (ss ! i))"
    using assms(2,1,3)
  proof (induction ss ds arbitrary: h rule: list_induct2)
    case (Cons s ss d ds)
    let ?h = "set_data d (ele_data (h s)) h"
    have IH: "\<forall>i<length ds. ele_data (copied (zip ss ds) ?h (ds ! i)) = ele_data (?h (ss ! i))"
    proof (rule Cons.IH)
      show "ss ! j \<noteq> ds ! i" if "i < j" "j < length ss" for i j using Cons.prems(2)[of "Suc i" "Suc j"] that by simp
    qed (use Cons.prems in simp)
    show ?case
    proof (intro allI impI)
      fix i assume i: "i < length (d # ds)"
      show "ele_data (copied (zip (s # ss) (d # ds)) h ((d # ds) ! i)) = ele_data (h ((s # ss) ! i))"
      proof (cases i)
        case 0
        then show ?thesis using frame[of d ds ss ?h] Cons.prems(1) Cons.hyps by simp
      next
        case (Suc k)
        then have "ss ! k \<noteq> d" using Cons.prems(2)[of 0 "Suc k"] i Cons.hyps by simp
        then show ?thesis using IH i Suc by simp
      qed
    qed
  qed simp
qed

text \<open>Copying a list onto its own tail spreads the first value over all of it.\<close>

lemma copied_forward:
  "distinct (p # ps) \<Longrightarrow> \<forall>q\<in>set (p # ps). ele_data (copied (zip (p # ps) ps) h q) = ele_data (h p)"
proof (induction ps arbitrary: p h)
  case (Cons q ps)
  let ?h = "set_data q (ele_data (h p)) h"
  have "\<forall>r\<in>set (q # ps). ele_data (copied (zip (q # ps) ps) ?h r) = ele_data (?h q)" using Cons by simp
  moreover have "copied (zip (q # ps) ps) ?h p = ?h p"
  proof -
    have "p \<notin> set ps \<Longrightarrow> copied (zip as ps) h p = h p" for as h
      by (induction as ps arbitrary: h rule: list_induct2') (auto simp: set_data_def)
    then show ?thesis using Cons.prems by simp
  qed
  ultimately show ?case using Cons.prems by auto
qed simp


section \<open>The list of the program\<close>

lemma mylink_loop:
  "k \<le> len \<Longrightarrow> (let h' = for_loop 0 k (\<lambda>i h. set_next (main_list i) (main_list (i + 1)) (set_data (main_list i) (of_nat i) h)) h
     in (\<forall>i<k. h' (main_list i) = \<lparr>ele_next = main_list (i + 1), ele_data = of_nat i\<rparr>) \<and> (\<forall>p. p = 0 \<or> k < p \<longrightarrow> h' p = h p))"
proof (induction k)
  case (Suc k)
  then show ?case
    by (auto simp: Let_def for_loop_Suc set_next_def set_data_def main_list_def less_Suc_eq intro!: list_ele.equality)
qed simp

lemma mylink_links:
  assumes "0 < len"
  shows "linked (mylink len h) (main_list 0) (map main_list [0..<len])"
    and "\<forall>i<len. ele_data (mylink len h (main_list i)) = of_nat i"
proof -
  define h' where "h' = for_loop 0 (len - 1) (\<lambda>i h. set_next (main_list i) (main_list (i + 1)) (set_data (main_list i) (of_nat i) h)) h"
  have h': "\<forall>i<len - 1. h' (main_list i) = \<lparr>ele_next = main_list (i + 1), ele_data = of_nat i\<rparr>"
    using mylink_loop[of "len - 1" "len - 1" h] by (simp add: h'_def Let_def)
  have m: "mylink len h = set_next (main_list (len - 1)) 0 (set_data (main_list (len - 1)) (of_nat (len - 1)) h')"
    by (simp add: mylink_def h'_def Let_def)
  have e: "ele_next (mylink len h (main_list i)) = (if i = len - 1 then 0 else main_list (i + 1)) \<and>
      ele_data (mylink len h (main_list i)) = of_nat i" if "i < len" for i
    using h' that unfolding m by (auto simp: set_next_def set_data_def main_list_def)
  then show "\<forall>i<len. ele_data (mylink len h (main_list i)) = of_nat i" by blast
  have "i < len \<Longrightarrow> linked (mylink len h) (main_list i) (map main_list [i..<len])" for i
  proof (induction "len - i" arbitrary: i)
    case (Suc k)
    have upt: "[i..<len] = i # [i + 1..<len]" using Suc.prems by (simp add: upt_conv_Cons)
    show ?case
    proof (cases "i = len - 1")
      case True
      then have "[i + 1..<len] = []" by simp
      then show ?thesis using e[OF Suc.prems] True unfolding upt by (simp add: main_list_def)
    next
      case False
      then have "linked (mylink len h) (main_list (i + 1)) (map main_list [i + 1..<len])" using Suc by (intro Suc.hyps(1)) auto
      then show ?thesis using e[OF Suc.prems] False by (simp add: upt main_list_def)
    qed
  qed simp
  then show "linked (mylink len h) (main_list 0) (map main_list [0..<len])" using assms by simp
qed

section \<open>Agreement\<close>

text \<open>
  On a list that ends, all versions of the length return the number of its elements and all
  versions of the sum the sum of their data modulo \<open>2 ^ 64\<close>; the versions that clear leave 0 in
  every element of the list and change nothing else. The iterative length returns on no other
  list.
\<close>

theorem list_functions_agree:
  assumes "linked h p ps"
  shows "list_len h p = Some (of_nat (length ps)) \<and> rlist_len h p = list_len h p \<and>
    list_len_clear h p = Some (of_nat (length ps), cleared h ps) \<and>
    list_sum h p = Some (data_sum h ps) \<and> list_sum2 h p = list_sum h p \<and> pipe_sum2 h p = list_sum h p \<and> rlist_sum h p = list_sum h p \<and>
    list_sum_clear h p = Some (data_sum h ps, cleared h ps)"
  using read_loops(1-4)[OF assms, of 0] read_loops(5,6)[OF assms] clear_loops[OF assms, of 0]
  by (simp add: list_len_def list_len_clear_def list_sum_def list_sum2_def pipe_sum2_def list_sum_clear_def)

definition blank_heap :: list_heap where
  "blank_heap = (\<lambda>p. \<lparr>ele_next = 7, ele_data = 3\<rparr>)"

theorem list_functions_agree_witness:
  "list_sum (mylink 5 blank_heap) (main_list 0) = Some 10 \<and> rlist_len (mylink 5 blank_heap) (main_list 0) = Some 5 \<and>
   (case list_sum_clear (mylink 5 blank_heap) (main_list 0) of None \<Rightarrow> False | Some (n, h') \<Rightarrow> n = 10 \<and> ele_data (h' (main_list 3)) = 0)"
proof -
  have l: "linked (mylink 5 blank_heap) (main_list 0) (map main_list [0..<5])" and d: "\<forall>i<5. ele_data (mylink 5 blank_heap (main_list i)) = of_nat i"
    using mylink_links[of 5 blank_heap] by simp_all
  have "map (\<lambda>p. ele_data (mylink 5 blank_heap p)) (map main_list [0..<5]) = map of_nat [0..<5]"
    using d by (auto intro: nth_equalityI)
  then have s: "data_sum (mylink 5 blank_heap) (map main_list [0..<5]) = 10"
    unfolding data_sum_def by (simp only:) (simp add: upt_rec numeral_eq_Suc)
  show ?thesis using list_functions_agree[OF l] s by (simp add: cleared_def main_list_def)
qed

text \<open>
  The three copying loops leave the same memory for any two lists that end, even when they
  share elements. When no element is read after it was written (disjoint lists, or a list copied
  onto one that starts earlier), the elements of the destination get the data of the source as
  far as both lists go; copying a list onto its own tail instead spreads the first value.
\<close>

theorem list_copies_agree:
  assumes "linked h src ss" and "linked h dest ds"
  shows "\<exists>h'. list_copy src dest h = Some h' \<and> plist_copy src dest h = Some h' \<and> plist_copy2 src dest h = Some h' \<and>
    ((\<forall>i j. i < j \<and> j < length ss \<longrightarrow> ss ! j \<noteq> ds ! i) \<longrightarrow>
      (\<forall>i<min (length ss) (length ds). ele_data (h' (ds ! i)) = ele_data (h (ss ! i))) \<and> (\<forall>p. p \<notin> set ds \<longrightarrow> h' p = h p)) \<and>
    (src \<noteq> 0 \<and> dest = ele_next (h src) \<longrightarrow> (\<forall>q\<in>set ss. ele_data (h' q) = ele_data (h src)))"
proof -
  let ?n = "min (length ss) (length ds)" and ?h = "copied (zip ss ds) h"
  have z: "zip ss ds = zip (take ?n ss) (take ?n ds)" by (simp add: take_zip[symmetric])
  have "(\<forall>i<?n. ele_data (?h (ds ! i)) = ele_data (h (ss ! i))) \<and> (\<forall>p. p \<notin> set ds \<longrightarrow> ?h p = h p)"
    if no: "\<forall>i j. i < j \<and> j < length ss \<longrightarrow> ss ! j \<noteq> ds ! i"
  proof -
    have d: "distinct (take ?n ds)" using linked_distinct[OF assms(2)] by simp
    have l: "length (take ?n ss) = length (take ?n ds)" by simp
    have n: "take ?n ss ! j \<noteq> take ?n ds ! i" if "i < j" "j < length (take ?n ss)" for i j
      using no that by simp
    have "\<forall>i<length (take ?n ds). ele_data (?h (take ?n ds ! i)) = ele_data (h (take ?n ss ! i))"
      unfolding z by (rule copied_data(1)[OF d l n])
    moreover have "\<forall>p. p \<notin> set (take ?n ds) \<longrightarrow> ?h p = h p" unfolding z by (rule copied_data(2)[OF d l n])
    ultimately show ?thesis using set_take_subset[of ?n ds] by auto
  qed
  moreover have "\<forall>q\<in>set ss. ele_data (?h q) = ele_data (h src)" if t: "src \<noteq> 0 \<and> dest = ele_next (h src)"
  proof -
    obtain ps where ss: "ss = src # ps" using assms(1) t by (cases ss) auto
    then have "linked h dest ps" using assms(1) t by simp
    then have "ds = ps" by (rule linked_unique[OF assms(2)])
    then show ?thesis using copied_forward[of src ps h] linked_distinct[OF assms(1)] by (simp add: ss)
  qed
  ultimately show ?thesis using copy_loops[OF assms] by (intro exI[of _ ?h]) blast
qed

theorem list_copies_agree_witness:
  "\<exists>h'. plist_copy (main_list 0) (main_list 1) (mylink 4 blank_heap) = Some h' \<and> ele_data (h' (main_list 3)) = 0"
proof -
  have l: "linked (mylink 4 blank_heap) (main_list 0) (map main_list [0..<4])" and d: "\<forall>i<4. ele_data (mylink 4 blank_heap (main_list i)) = of_nat i"
    using mylink_links[of 4 blank_heap] by simp_all
  have u: "[0..<4] = 0 # [1..<4]" by (simp add: upt_rec)
  have t: "linked (mylink 4 blank_heap) (main_list 1) (map main_list [1..<4])" "ele_next (mylink 4 blank_heap (main_list 0)) = main_list 1"
    using l unfolding u by (auto simp: upt_rec)
  obtain h' where "plist_copy (main_list 0) (main_list 1) (mylink 4 blank_heap) = Some h'"
      "main_list 0 \<noteq> 0 \<and> main_list 1 = ele_next (mylink 4 blank_heap (main_list 0)) \<longrightarrow>
        (\<forall>q\<in>set (map main_list [0..<4]). ele_data (h' q) = ele_data (mylink 4 blank_heap (main_list 0)))"
    using list_copies_agree[OF l t(1)] by blast
  moreover have "main_list 3 \<in> set (map main_list [0..<4])" "main_list 0 \<noteq> 0" by (auto simp: main_list_def)
  moreover have "ele_data (mylink 4 blank_heap (main_list 0)) = 0" using d by simp
  ultimately show ?thesis using t(2) by auto
qed

end
