(* ===== verification/SortLoops.thy ===== *)
theory SortLoops
  imports Prelude "HOL-Library.Multiset"
begin

text \<open>
  Programs of \<open>csapp-master/opt\<close> that compare a branch with a conditional move: bubble sort
  (\<open>bubble.c\<close>), the merge of merge sort (\<open>merge.c\<close>), the minimum and maximum of vectors
  (\<open>cond-eg.c\<close>) and the best element of an array (\<open>best.c\<close>). An array is a list; its elements are
  only compared, so they are integers.
\<close>

section \<open>Bubble sort\<close>

definition bubble1_body :: "nat \<Rightarrow> int list \<Rightarrow> int list" where
  "bubble1_body j a = (if a ! j > a ! (j + 1) then let t = a ! j; a = a[j := a ! (j + 1)] in a[j + 1 := t] else a)"

definition bubble2_body :: "nat \<Rightarrow> int list \<Rightarrow> int list" where
  "bubble2_body j a =
     (let naj = (if a ! j > a ! (j + 1) then a ! (j + 1) else a ! j);
          naj1 = (if a ! j > a ! (j + 1) then a ! j else a ! (j + 1));
          a = a[j := naj]
      in a[j + 1 := naj1])"

text \<open>The loop \<open>for (i = n-1; i > 0; i--)\<close> from \<open>i\<close> on, over a loop on \<open>j < i\<close>.\<close>

fun down_loop :: "(nat \<Rightarrow> 's \<Rightarrow> 's) \<Rightarrow> nat \<Rightarrow> 's \<Rightarrow> 's" where
  "down_loop body 0 s = s"
| "down_loop body (Suc i) s = down_loop body i (for_loop 0 (Suc i) body s)"

definition bubble1 :: "int list \<Rightarrow> nat \<Rightarrow> int list" where
  "bubble1 a n = down_loop bubble1_body (n - 1) a"

definition bubble2 :: "int list \<Rightarrow> nat \<Rightarrow> int list" where
  "bubble2 a n = down_loop bubble2_body (n - 1) a"

text \<open>\<open>bubcnt\<close>: the array, the number of comparisons (returned) and of swaps (printed).\<close>

definition bubcnt_body :: "nat \<Rightarrow> int list \<times> nat \<times> nat \<Rightarrow> int list \<times> nat \<times> nat" where
  "bubcnt_body j s =
     (let (a, comparisons, swaps) = s; comparisons = comparisons + 1 in
        if a ! j > a ! (j + 1) then let t = a ! j; a = a[j := a ! (j + 1)] in (a[j + 1 := t], comparisons, swaps + 1)
        else (a, comparisons, swaps))"

definition bubcnt :: "int list \<Rightarrow> nat \<Rightarrow> int list \<times> nat \<times> nat" where
  "bubcnt a n = down_loop bubcnt_body (n - 1) (a, 0, 0)"

lemma bubble_body_simps [simp]: "length (bubble1_body j a) = length a"
  by (simp add: bubble1_body_def Let_def)

lemma bubble2_body_eq: "j + 1 < length a \<Longrightarrow> bubble2_body j a = bubble1_body j a"
  by (simp add: bubble1_body_def bubble2_body_def Let_def)

lemma bubble1_body_nth:
  "j + 1 < length a \<Longrightarrow> bubble1_body j a ! k =
    (if k = j then min (a ! j) (a ! (j + 1)) else if k = j + 1 then max (a ! j) (a ! (j + 1)) else a ! k)"
  by (auto simp: bubble1_body_def Let_def nth_list_update)

lemma bubble1_body_mset: "j + 1 < length a \<Longrightarrow> mset (bubble1_body j a) = mset a"
  by (auto simp: bubble1_body_def Let_def mset_swap)

text \<open>A pass over the first \<open>i + 1\<close> elements moves their greatest to position \<open>i\<close>.\<close>

lemma pass_invariant:
  assumes "i < length a"
  shows "let b = for_loop 0 i bubble1_body a in length b = length a \<and> mset b = mset a \<and> (\<forall>k. i < k \<longrightarrow> b ! k = a ! k) \<and>
    (\<forall>k\<le>i. b ! k \<le> b ! i) \<and> (\<forall>k\<le>i. \<exists>k'\<le>i. b ! k = a ! k')"
  using assms
proof (induction i)
  case (Suc i)
  let ?b = "for_loop 0 i bubble1_body a"
  have b: "length ?b = length a" "mset ?b = mset a" "\<forall>k. i < k \<longrightarrow> ?b ! k = a ! k" "\<forall>k\<le>i. ?b ! k \<le> ?b ! i"
      "\<forall>k\<le>i. \<exists>k'\<le>i. ?b ! k = a ! k'"
    using Suc by (auto simp: Let_def)
  have j: "i + 1 < length ?b" using b(1) Suc.prems by simp
  note nth = bubble1_body_nth[OF j]
  have m: "mset (bubble1_body i ?b) = mset a" using bubble1_body_mset[OF j] b(2) by simp
  have k: "bubble1_body i ?b ! k = a ! k" if "Suc i < k" for k using nth b(3) that by simp
  have top: "bubble1_body i ?b ! k \<le> bubble1_body i ?b ! Suc i" if "k \<le> Suc i" for k
    using nth b(4)[rule_format, of k] that by (cases "k \<le> i") auto
  have old: "\<exists>k'\<le>Suc i. ?b ! k = a ! k'" if k: "k \<le> Suc i" for k
  proof (cases "k = Suc i")
    case True
    then show ?thesis using b(3) by auto
  next
    case False
    then obtain k' where "k' \<le> i" "?b ! k = a ! k'" using b(5) k by (meson le_Suc_eq)
    then show ?thesis by (intro exI[of _ k']) simp
  qed
  have "\<exists>k'\<le>Suc i. bubble1_body i ?b ! k = a ! k'" if "k \<le> Suc i" for k
    using old[of k] old[of i] old[of "Suc i"] that by (auto simp: nth min_def max_def)
  then show ?case using b(1) m k top by (simp add: for_loop_Suc Let_def)
qed simp

text \<open>All elements after position \<open>i\<close> are in place.\<close>

definition placed :: "nat \<Rightarrow> nat \<Rightarrow> int list \<Rightarrow> bool" where
  "placed i n a \<longleftrightarrow> (\<forall>k l. i < l \<and> l < n \<and> k \<le> l \<longrightarrow> a ! k \<le> a ! l)"

lemma down_sorts:
  assumes "i < length a" and "placed i n a" and "n \<le> length a"
  shows "let b = down_loop bubble1_body i a in length b = length a \<and> mset b = mset a \<and> (\<forall>k. i < k \<longrightarrow> b ! k = a ! k) \<and> placed 0 n b"
  using assms
proof (induction i arbitrary: a)
  case (Suc i)
  let ?b = "for_loop 0 (Suc i) bubble1_body a"
  have b: "length ?b = length a" "mset ?b = mset a" "\<And>k. Suc i < k \<Longrightarrow> ?b ! k = a ! k" "\<And>k. k \<le> Suc i \<Longrightarrow> ?b ! k \<le> ?b ! Suc i"
      "\<And>k. k \<le> Suc i \<Longrightarrow> \<exists>k'\<le>Suc i. ?b ! k = a ! k'"
    using pass_invariant[OF Suc.prems(1)] by (auto simp: Let_def)
  have "?b ! k \<le> ?b ! l" if kl: "i < l" "l < n" "k \<le> l" for k l
  proof (cases "l = Suc i")
    case False
    then have l: "Suc i < l" using kl by simp
    have "\<exists>k'\<le>l. ?b ! k = a ! k'"
    proof (cases "k \<le> Suc i")
      case True
      then show ?thesis using b(5)[OF True] l by (meson le_trans less_imp_le)
    qed (use b(3)[of k] kl in auto)
    then show ?thesis using Suc.prems(2) l kl b(3)[OF l] by (auto simp: placed_def)
  qed (use b(4) kl in simp)
  then have "placed i n ?b" by (simp add: placed_def)
  then show ?case using Suc.IH[of ?b] Suc.prems b(1,2,3) by (simp add: Let_def)
qed (simp add: Let_def)

lemma placed_sorted: "placed 0 n a \<Longrightarrow> n \<le> length a \<Longrightarrow> sorted (take n a)"
proof -
  assume p: "placed 0 n a" "n \<le> length a"
  have "a ! k \<le> a ! l" if "k \<le> l" "l < n" for k l
    using p(1) that by (cases "l = 0") (auto simp: placed_def)
  then show ?thesis using p(2) by (auto simp: sorted_iff_nth_mono)
qed

lemma bubble1_sorts:
  assumes "n \<le> length a"
  shows "bubble1 a n = sort (take n a) @ drop n a"
proof (cases "n = 0")
  case False
  let ?b = "bubble1 a n"
  have "placed (n - 1) n a" by (auto simp: placed_def)
  then have b: "length ?b = length a" "mset ?b = mset a" "\<And>k. n - 1 < k \<Longrightarrow> ?b ! k = a ! k" "placed 0 n ?b"
    using down_sorts[of "n - 1" a n] assms False by (auto simp: bubble1_def Let_def)
  have d: "drop n ?b = drop n a" using b(1,3) False by (intro nth_equalityI) auto
  have "mset (take n ?b) + mset (drop n ?b) = mset (take n a) + mset (drop n a)"
    using b(2) by (metis append_take_drop_id mset_append)
  then have "mset (take n ?b) = mset (take n a)" by (simp add: d)
  moreover have "sorted (take n ?b)" using placed_sorted[OF b(4)] b(1) assms by simp
  ultimately have "take n ?b = sort (take n a)" by (metis properties_for_sort)
  then show ?thesis using d by (metis append_take_drop_id)
qed (simp add: bubble1_def)

lemma length_pass [simp]: "length (for_loop 0 i bubble1_body a) = length a"
  by (rule for_loop_invariant[where I = "\<lambda>_ b. length b = length a"]) simp_all

lemma length_down [simp]: "length (down_loop bubble1_body i a) = length a"
  by (induction i arbitrary: a) simp_all

lemma bubble2_loop: "i < length a \<Longrightarrow> for_loop 0 i bubble2_body a = for_loop 0 i bubble1_body a"
  by (induction i) (simp_all add: for_loop_Suc bubble2_body_eq)

lemma bubble2_eq: "n \<le> length a \<Longrightarrow> bubble2 a n = bubble1 a n"
proof -
  assume n: "n \<le> length a"
  have "i < length a \<Longrightarrow> down_loop bubble2_body i a = down_loop bubble1_body i a" for i
    by (induction i arbitrary: a) (simp_all add: bubble2_loop)
  then show ?thesis using n by (cases "n = 0"; cases "a = []") (auto simp: bubble1_def bubble2_def)
qed

lemma bubcnt_body_eq: "bubcnt_body j (a, c, s) = (bubble1_body j a, c + 1, s + of_bool (a ! j > a ! (j + 1)))"
  by (simp add: bubcnt_body_def bubble1_body_def Let_def)

lemma bubcnt_loop: "\<exists>s'. for_loop 0 i bubcnt_body (a, c, s) = (for_loop 0 i bubble1_body a, c + i, s')"
proof (induction i)
  case (Suc i)
  then obtain s' where "for_loop 0 i bubcnt_body (a, c, s) = (for_loop 0 i bubble1_body a, c + i, s')" by blast
  then show ?case by (simp add: for_loop_Suc bubcnt_body_eq)
qed simp

lemma bubcnt_down: "\<exists>s'. down_loop bubcnt_body i (a, c, s) = (down_loop bubble1_body i a, c + \<Sum>{..i}, s')"
proof (induction i arbitrary: a c s)
  case (Suc i)
  obtain s' where "for_loop 0 (Suc i) bubcnt_body (a, c, s) = (for_loop 0 (Suc i) bubble1_body a, c + Suc i, s')"
    using bubcnt_loop by blast
  with Suc.IH[of "for_loop 0 (Suc i) bubble1_body a" "c + Suc i" s'] show ?case by (auto simp: add.commute add.left_commute)
qed simp

lemma sum_upto: "\<Sum>{..k} = k * (k + 1) div (2::nat)"
  by (induction k) auto

lemma bubcnt_counts: "fst (bubcnt a n) = bubble1 a n \<and> fst (snd (bubcnt a n)) = n * (n - 1) div 2"
proof -
  obtain s where "down_loop bubcnt_body (n - 1) (a, 0, 0) = (down_loop bubble1_body (n - 1) a, 0 + \<Sum>{..n - 1}, s)"
    using bubcnt_down by blast
  then show ?thesis by (cases n) (simp_all add: bubcnt_def bubble1_def sum_upto mult.commute)
qed


text \<open>
  Both versions of bubble sort, for every \<open>n\<close> up to the size of the array, sort the first
  \<open>n\<close> elements and leave the others alone; the counting version does the same, and returns
  \<open>n (n - 1) / 2\<close> comparisons whatever the input.
\<close>

theorem bubble_sorts:
  assumes "n \<le> length a"
  shows "bubble1 a n = sort (take n a) @ drop n a \<and> bubble2 a n = bubble1 a n \<and>
    fst (bubcnt a n) = bubble1 a n \<and> fst (snd (bubcnt a n)) = n * (n - 1) div 2"
  using bubble1_sorts[OF assms] bubble2_eq[OF assms] bubcnt_counts[of a n] by simp

theorem bubble_sorts_witness: "bubble2 [4, 3, - 2, 3, 1, 0] 5 = [- 2, 1, 3, 3, 4, 0]"
  using bubble_sorts[of 5 "[4, 3, - 2, 3, 1, 0]"] by simp

section \<open>Merging\<close>

function merge_loop :: "int list \<Rightarrow> int list \<Rightarrow> nat \<Rightarrow> nat \<Rightarrow> nat \<Rightarrow> nat \<Rightarrow> int list \<Rightarrow> nat \<times> nat \<times> nat \<times> int list" where
  "merge_loop src1 src2 n i1 i2 k dest =
     (if i1 < n \<and> i2 < n then
        (if src1 ! i1 < src2 ! i2 then merge_loop src1 src2 n (i1 + 1) i2 (k + 1) (dest[k := src1 ! i1])
         else merge_loop src1 src2 n i1 (i2 + 1) (k + 1) (dest[k := src2 ! i2]))
      else (i1, i2, k, dest))"
  by pat_completeness auto
termination by (relation "measure (\<lambda>(src1, src2, n, i1, i2, k, dest). 2 * n - i1 - i2)") auto

function merge2_loop :: "int list \<Rightarrow> int list \<Rightarrow> nat \<Rightarrow> nat \<Rightarrow> nat \<Rightarrow> nat \<Rightarrow> int list \<Rightarrow> nat \<times> nat \<times> nat \<times> int list" where
  "merge2_loop src1 src2 n i1 i2 k dest =
     (if i1 < n \<and> i2 < n then
        (let v1 = src1 ! i1; v2 = src2 ! i2; take1 = (if v1 < v2 then 1 else 0);
             dest = dest[k := if take1 \<noteq> 0 then v1 else v2]
         in merge2_loop src1 src2 n (i1 + take1) (i2 + (1 - take1)) (k + 1) dest)
      else (i1, i2, k, dest))"
  by pat_completeness auto
termination by (relation "measure (\<lambda>(src1, src2, n, i1, i2, k, dest). 2 * n - i1 - i2)") (auto simp: Let_def)

function rest_copy :: "int list \<Rightarrow> nat \<Rightarrow> nat \<Rightarrow> nat \<Rightarrow> int list \<Rightarrow> nat \<times> int list" where
  "rest_copy src n i k dest = (if i < n then rest_copy src n (i + 1) (k + 1) (dest[k := src ! i]) else (k, dest))"
  by pat_completeness auto
termination by (relation "measure (\<lambda>(src, n, i, k, dest). n - i)") auto

declare merge_loop.simps [simp del] merge2_loop.simps [simp del] rest_copy.simps [simp del]

definition merge_rest :: "int list \<Rightarrow> int list \<Rightarrow> nat \<Rightarrow> nat \<times> nat \<times> nat \<times> int list \<Rightarrow> int list" where
  "merge_rest src1 src2 n s =
     (let (i1, i2, k, dest) = s; (k, dest) = rest_copy src1 n i1 k dest; (k, dest) = rest_copy src2 n i2 k dest in dest)"

definition merge :: "int list \<Rightarrow> int list \<Rightarrow> int list \<Rightarrow> nat \<Rightarrow> int list" where
  "merge src1 src2 dest n = merge_rest src1 src2 n (merge_loop src1 src2 n 0 0 0 dest)"

definition merge2 :: "int list \<Rightarrow> int list \<Rightarrow> int list \<Rightarrow> nat \<Rightarrow> int list" where
  "merge2 src1 src2 dest n = merge_rest src1 src2 n (merge2_loop src1 src2 n 0 0 0 dest)"

text \<open>The merge of two lists, and storing a list from index \<open>i\<close> on.\<close>

fun merged :: "int list \<Rightarrow> int list \<Rightarrow> int list" where
  "merged (x # xs) (y # ys) = (if x < y then x # merged xs (y # ys) else y # merged (x # xs) ys)"
| "merged [] ys = ys"
| "merged xs [] = xs"

definition stored :: "int list \<Rightarrow> nat \<Rightarrow> int list \<Rightarrow> int list" where
  "stored out i dest = take i dest @ out @ drop (i + length out) dest"

lemma stored_Cons: "i < length dest \<Longrightarrow> stored out (Suc i) (dest[i := v]) = stored (v # out) i dest"
  by (simp add: stored_def take_Suc_conv_app_nth)

lemma stored_Nil [simp]: "stored [] i dest = dest"
  by (simp add: stored_def)

lemma stored_append: "i + length as \<le> length dest \<Longrightarrow> stored bs (i + length as) (stored as i dest) = stored (as @ bs) i dest"
  by (simp add: stored_def min_absorb2 ac_simps)

lemma length_stored [simp]: "i + length out \<le> length dest \<Longrightarrow> length (stored out i dest) = length dest"
  by (simp add: stored_def min_absorb2)

lemma merged_length [simp]: "length (merged xs ys) = length xs + length ys"
  by (induction xs ys rule: merged.induct) auto

lemma merged_mset: "mset (merged xs ys) = mset xs + mset ys"
  by (induction xs ys rule: merged.induct) auto

lemma merged_sorted: "sorted xs \<Longrightarrow> sorted ys \<Longrightarrow> sorted (merged xs ys)"
proof (induction xs ys rule: merged.induct)
  case (1 x xs y ys)
  have "set (merged xs zs) = set xs \<union> set zs" for xs zs
    using merged_mset[of xs zs] by (metis set_mset_mset set_mset_union)
  with 1 show ?case by auto
qed simp_all

lemma rest_copy_stores:
  "n \<le> length src \<Longrightarrow> k + (n - i) \<le> length dest \<Longrightarrow>
    rest_copy src n i k dest = (k + (n - i), stored (drop i (take n src)) k dest)"
proof (induction src n i k dest rule: rest_copy.induct)
  case (1 src n i k dest)
  show ?case
  proof (cases "i < n")
    case True
    then have "drop i (take n src) = src ! i # drop (Suc i) (take n src)" using 1(2) by (simp add: Cons_nth_drop_Suc[symmetric])
    moreover have "rest_copy src n (i + 1) (k + 1) (dest[k := src ! i]) =
        (k + 1 + (n - (i + 1)), stored (drop (i + 1) (take n src)) (k + 1) (dest[k := src ! i]))"
      using 1(1)[OF True] 1(2,3) True by simp
    ultimately show ?thesis using True 1(3) by (subst rest_copy.simps) (simp add: stored_Cons)
  qed (subst rest_copy.simps; simp)
qed

lemma merge_rest_stores:
  assumes "n \<le> length src1" and "n \<le> length src2" and "k + (n - i1) + (n - i2) \<le> length dest" and "i1 \<ge> n \<or> i2 \<ge> n"
  shows "merge_rest src1 src2 n (i1, i2, k, dest) = stored (merged (drop i1 (take n src1)) (drop i2 (take n src2))) k dest"
proof -
  have m: "merged (drop i1 (take n src1)) (drop i2 (take n src2)) = drop i1 (take n src1) @ drop i2 (take n src2)"
    using assms(4) by (cases "drop i1 (take n src1)"; cases "drop i2 (take n src2)") auto
  have 1: "rest_copy src1 n i1 k dest = (k + (n - i1), stored (drop i1 (take n src1)) k dest)"
    using assms by (intro rest_copy_stores) auto
  have 2: "rest_copy src2 n i2 (k + (n - i1)) (stored (drop i1 (take n src1)) k dest) =
      (k + (n - i1) + (n - i2), stored (drop i2 (take n src2)) (k + (n - i1)) (stored (drop i1 (take n src1)) k dest))"
    using assms by (intro rest_copy_stores) auto
  have "length (drop i1 (take n src1)) = n - i1" using assms(1) by simp
  with stored_append[of k "drop i1 (take n src1)" dest "drop i2 (take n src2)"] assms(3) show ?thesis
    by (simp add: merge_rest_def 1 2 m)
qed

lemma merge_stores:
  assumes "n \<le> length src1" and "n \<le> length src2" and "k + (n - i1) + (n - i2) \<le> length dest"
  shows "merge_rest src1 src2 n (merge_loop src1 src2 n i1 i2 k dest) =
    stored (merged (drop i1 (take n src1)) (drop i2 (take n src2))) k dest"
  using assms
proof (induction src1 src2 n i1 i2 k dest rule: merge_loop.induct)
  case (1 src1 src2 n i1 i2 k dest)
  show ?case
  proof (cases "i1 < n \<and> i2 < n")
    case True
    have d: "drop i1 (take n src1) = src1 ! i1 # drop (Suc i1) (take n src1)" "drop i2 (take n src2) = src2 ! i2 # drop (Suc i2) (take n src2)"
      using True 1(3,4) by (simp_all add: Cons_nth_drop_Suc[symmetric])
    have kd: "k < length dest" using 1(5) True by arith
    show ?thesis
    proof (cases "src1 ! i1 < src2 ! i2")
      case less: True
      have "k + 1 + (n - (i1 + 1)) + (n - i2) \<le> length (dest[k := src1 ! i1])"
        using 1(5) True by (simp only: length_list_update) arith
      from 1(1)[OF True less 1(3,4) this] True less show ?thesis
        by (subst merge_loop.simps) (simp add: d stored_Cons[OF kd])
    next
      case False
      have "k + 1 + (n - i1) + (n - (i2 + 1)) \<le> length (dest[k := src2 ! i2])"
        using 1(5) True by (simp only: length_list_update) arith
      from 1(2)[OF True False 1(3,4) this] True False show ?thesis
        by (subst merge_loop.simps) (simp add: d stored_Cons[OF kd])
    qed
  next
    case False
    then show ?thesis using merge_rest_stores[OF 1(3-5)] by (subst merge_loop.simps) auto
  qed
qed

lemma merge2_loop_eq: "merge2_loop src1 src2 n i1 i2 k dest = merge_loop src1 src2 n i1 i2 k dest"
proof (induction src1 src2 n i1 i2 k dest rule: merge_loop.induct)
  case (1 src1 src2 n i1 i2 k dest)
  then show ?case by (subst merge2_loop.simps, subst merge_loop.simps) (auto simp: Let_def)
qed

text \<open>
  The merge and its version with conditional moves store the same array, and from two sorted
  arrays of \<open>n\<close> elements its first \<open>2 n\<close> elements are their sorted union with multiplicities; the
  rest of the destination is untouched.
\<close>

theorem merge_sorts:
  assumes "n \<le> length src1" and "n \<le> length src2" and "2 * n \<le> length dest"
    and "sorted (take n src1)" and "sorted (take n src2)"
  shows "merge2 src1 src2 dest n = merge src1 src2 dest n \<and>
    merge src1 src2 dest n = sort (take n src1 @ take n src2) @ drop (2 * n) dest"
proof -
  have "merge src1 src2 dest n = stored (merged (take n src1) (take n src2)) 0 dest"
    using merge_stores[of n src1 src2 0 0 0 dest] assms by (simp add: merge_def)
  moreover have "merged (take n src1) (take n src2) = sort (take n src1 @ take n src2)"
    by (rule properties_for_sort[symmetric]) (simp_all add: merged_mset merged_sorted assms)
  ultimately show ?thesis using assms(1,2) by (simp add: merge2_def merge_def merge2_loop_eq stored_def mult_2)
qed

theorem merge_sorts_witness: "merge2 [1, 4, 9] [2, 4] [0, 0, 0, 0, 7] 2 = [1, 2, 4, 4, 7]"
  using merge_sorts[of 2 "[1, 4, 9]" "[2, 4]" "[0, 0, 0, 0, 7]"] by (simp add: numeral_eq_Suc)

end
