(* ===== verification/BestLoops.thy ===== *)
theory BestLoops
  imports SortLoops
begin

text \<open>
  The minimum and maximum of two vectors (\<open>csapp-master/opt/cond-eg.c\<close>) and the versions of the
  best element of an array (\<open>csapp-master/opt/best.c\<close>), of which three do not find it.
\<close>

section \<open>Minima and maxima\<close>

definition minmax1_body :: "nat \<Rightarrow> int list \<times> int list \<Rightarrow> int list \<times> int list" where
  "minmax1_body i s =
     (let (a, b) = s in if a ! i > b ! i then let t = a ! i; a = a[i := b ! i]; b = b[i := t] in (a, b) else (a, b))"

definition minmax2_body :: "nat \<Rightarrow> int list \<times> int list \<Rightarrow> int list \<times> int list" where
  "minmax2_body i s =
     (let (a, b) = s; mn = (if a ! i < b ! i then a ! i else b ! i); mx = (if a ! i < b ! i then b ! i else a ! i)
      in (a[i := mn], b[i := mx]))"

definition minmax1 :: "int list \<Rightarrow> int list \<Rightarrow> nat \<Rightarrow> int list \<times> int list" where
  "minmax1 a b n = for_loop 0 n minmax1_body (a, b)"

definition minmax2 :: "int list \<Rightarrow> int list \<Rightarrow> nat \<Rightarrow> int list \<times> int list" where
  "minmax2 a b n = for_loop 0 n minmax2_body (a, b)"

lemma minmax_bodies:
  "i < length a \<Longrightarrow> i < length b \<Longrightarrow> minmax1_body i (a, b) = (a[i := min (a ! i) (b ! i)], b[i := max (a ! i) (b ! i)])"
  "minmax2_body i (a, b) = (a[i := min (a ! i) (b ! i)], b[i := max (a ! i) (b ! i)])"
proof -
  show "i < length a \<Longrightarrow> i < length b \<Longrightarrow> minmax1_body i (a, b) = (a[i := min (a ! i) (b ! i)], b[i := max (a ! i) (b ! i)])"
    by (cases "a ! i = b ! i") (auto simp: minmax1_body_def min_def max_def, metis list_update_id)
  show "minmax2_body i (a, b) = (a[i := min (a ! i) (b ! i)], b[i := max (a ! i) (b ! i)])"
    by (cases "a ! i = b ! i") (simp_all add: minmax2_body_def Let_def min_def max_def)
qed

lemma minmax_loop:
  fixes a b :: "int list"
  assumes "n \<le> length a" and "n \<le> length b" and "\<And>i a b. i < length a \<Longrightarrow> i < length b \<Longrightarrow>
    body i (a, b) = (a[i := min (a ! i) (b ! i)], b[i := max (a ! i) (b ! i)])"
  shows "for_loop 0 n body (a, b) = (map2 min (take n a) (take n b) @ drop n a, map2 max (take n a) (take n b) @ drop n b)"
  using assms(1,2)
proof (induction n)
  case (Suc n)
  have upd: "(xs @ drop n ys)[n := v] = xs @ v # drop (Suc n) ys" "(xs @ drop n ys) ! n = ys ! n"
    if "length xs = n" "n < length ys" for xs ys :: "int list" and v
    using that by (simp_all add: list_update_append Cons_nth_drop_Suc[symmetric] nth_append)
  let ?a = "map2 min (take n a) (take n b)" and ?b = "map2 max (take n a) (take n b)"
  have len: "length ?a = n" "length ?b = n" "n < length a" "n < length b" using Suc.prems by simp_all
  have new: "take (Suc n) a = take n a @ [a ! n]" "take (Suc n) b = take n b @ [b ! n]" "length (take n a) = length (take n b)"
    using Suc.prems by (simp_all add: take_Suc_conv_app_nth)
  have "for_loop 0 (Suc n) body (a, b) = body n (?a @ drop n a, ?b @ drop n b)" using Suc by (simp add: for_loop_Suc)
  also have "\<dots> = (?a @ min (a ! n) (b ! n) # drop (Suc n) a, ?b @ max (a ! n) (b ! n) # drop (Suc n) b)"
    using len upd[OF len(1,3)] upd[OF len(2,4)] by (subst assms(3)) simp_all
  also have "\<dots> = (map2 min (take (Suc n) a) (take (Suc n) b) @ drop (Suc n) a, map2 max (take (Suc n) a) (take (Suc n) b) @ drop (Suc n) b)"
    using new(3) by (simp add: new(1,2))
  finally show ?case .
qed simp

text \<open>Both versions put the smaller element of each pair into \<open>a\<close> and the greater one into \<open>b\<close>.\<close>

lemma minmax_agree:
  assumes "n \<le> length a" and "n \<le> length b"
  shows "minmax1 a b n = (map2 min (take n a) (take n b) @ drop n a, map2 max (take n a) (take n b) @ drop n b)"
    and "minmax2 a b n = minmax1 a b n"
  using minmax_loop[OF assms minmax_bodies(1)] minmax_loop[OF assms minmax_bodies(2)] by (simp_all add: minmax1_def minmax2_def)

section \<open>The best element\<close>

text \<open>\<open>best1\<close> keeps the result in memory, \<open>best2\<close> in a local variable; the rest is the same.\<close>

definition best1 :: "int list \<Rightarrow> nat \<Rightarrow> bool \<Rightarrow> int" where
  "best1 data n find_max =
     for_loop 1 n (\<lambda>i resultp. if data ! i > resultp \<and> find_max \<or> data ! i < resultp \<and> find_max then data ! i else resultp) (data ! 0)"

definition best2 :: "int list \<Rightarrow> nat \<Rightarrow> bool \<Rightarrow> int" where
  "best2 data n find_max =
     (let result = data ! 0 in
      for_loop 1 n (\<lambda>i result. if data ! i > result \<and> find_max \<or> data ! i < result \<and> find_max then data ! i else result) result)"

definition best3 :: "int list \<Rightarrow> nat \<Rightarrow> bool \<Rightarrow> int" where
  "best3 data n find_max =
     (let result = data ! 0 in
      for_loop 1 n (\<lambda>i result. if find_max \<and> data ! i > result \<or> \<not> find_max \<and> data ! i < result then data ! i else result) result)"

definition best4 :: "int list \<Rightarrow> nat \<Rightarrow> bool \<Rightarrow> int" where
  "best4 data n find_max =
     (let result = data ! 0 in
      for_loop 1 n (\<lambda>i result. if find_max then (if data ! i > result then data ! i else result)
                                else (if data ! i < result then data ! i else result)) result)"

definition best5 :: "int list \<Rightarrow> nat \<Rightarrow> bool \<Rightarrow> int" where
  "best5 data n find_max =
     (let result = data ! 0 in
      if find_max then for_loop 1 n (\<lambda>i result. if data ! i > result then data ! i else result) result
      else for_loop 1 n (\<lambda>i result. if data ! i > result then data ! i else result) result)"

text \<open>The loop \<open>for (; i < limit; i += 2)\<close>: the index it ends with and the state.\<close>

function by_two :: "nat \<Rightarrow> nat \<Rightarrow> (nat \<Rightarrow> 's \<Rightarrow> 's) \<Rightarrow> 's \<Rightarrow> nat \<times> 's" where
  "by_two i limit body s = (if i < limit then by_two (i + 2) limit body (body i s) else (i, s))"
  by pat_completeness auto
termination by (relation "measure (\<lambda>(i, limit, body, s). limit - i)") auto

declare by_two.simps [simp del]

definition best6 :: "int list \<Rightarrow> nat \<Rightarrow> bool \<Rightarrow> int" where
  "best6 data n find_max =
     (let result0 = data ! 0; result1 = data ! 1;
          (i, result0, result1) = by_two 1 (n - 1) (\<lambda>i (result0, result1).
             if find_max then (if data ! i > result0 then data ! i else result0, if data ! (i + 1) > result1 then data ! (i + 1) else result1)
             else (if data ! i < result0 then data ! i else result0, if data ! (i + 1) < result1 then data ! (i + 1) else result1))
           (result0, result1);
          result0 = for_loop i n (\<lambda>i result0. if find_max then (if data ! i > result0 then data ! i else result0)
             else (if data ! i < result0 then data ! i else result0)) result0
      in if find_max then (if result1 > result0 then result1 else result0) else (if result1 < result0 then result1 else result0))"

definition best7 :: "int list \<Rightarrow> nat \<Rightarrow> bool \<Rightarrow> int" where
  "best7 data n find_max =
     (let result0 = data ! 0; result1 = data ! 1 in
      if find_max then
        (let (i, result0, result1) = by_two 1 (n - 1) (\<lambda>i (result0, result1).
               (if data ! i > result0 then data ! i else result0, if data ! (i + 1) > result1 then data ! (i + 1) else result1))
             (result0, result1);
             result0 = for_loop i n (\<lambda>i result0. if data ! i > result0 then data ! i else result0) result0
         in if result1 > result0 then result1 else result0)
      else
        (let (i, result0, result1) = by_two 1 (n - 1) (\<lambda>i (result0, result1).
               (if data ! i < result0 then data ! i else result0, if data ! (i + 1) < result1 then data ! (i + 1) else result1))
             (result0, result1);
             result0 = for_loop i n (\<lambda>i result0. if data ! i < result0 then data ! i else result0) result0
         in if result1 < result0 then result1 else result0))"

section \<open>What they find\<close>

definition pick :: "bool \<Rightarrow> int \<Rightarrow> int \<Rightarrow> int" where
  "pick find_max x y = (if find_max then max x y else min x y)"

definition best_of :: "bool \<Rightarrow> int set \<Rightarrow> int" where
  "best_of find_max S = (if find_max then Max S else Min S)"

lemma best_of_insert: "finite S \<Longrightarrow> S \<noteq> {} \<Longrightarrow> best_of m (insert x S) = pick m x (best_of m S)"
  by (simp add: best_of_def pick_def)

lemma best_of_single [simp]: "best_of m {x} = x"
  by (simp add: best_of_def)

lemma pick_ac: "pick m x y = pick m y x" "pick m x (pick m y z) = pick m (pick m x y) z" "pick m x x = x"
  by (auto simp: pick_def)

lemma set_take_Suc: "i < length xs \<Longrightarrow> set (take (Suc i) xs) = insert (xs ! i) (set (take i xs))"
  by (simp add: take_Suc_conv_app_nth)

text \<open>A loop that picks adds the elements it passes to those the result is the best of.\<close>

lemma pick_loop:
  assumes "i \<le> n" and "n \<le> length data" and "finite S" and "S \<noteq> {}"
  shows "for_loop i n (\<lambda>i result. pick m (data ! i) result) (best_of m S) = best_of m (S \<union> set (drop i (take n data)))"
  using assms(1,2)
proof (induction n)
  case (Suc n)
  show ?case
  proof (cases "i = Suc n")
    case False
    then have i: "i \<le> n" using Suc.prems by simp
    have "drop i (take (Suc n) data) = drop i (take n data) @ [data ! n]"
      using Suc.prems i by (simp add: take_Suc_conv_app_nth)
    then have "S \<union> set (drop i (take (Suc n) data)) = insert (data ! n) (S \<union> set (drop i (take n data)))" by auto
    then show ?thesis using Suc i assms(3,4) by (simp add: for_loop_Suc best_of_insert)
  qed simp
qed simp


lemma pick_ifs:
  "(if m \<and> d > r \<or> \<not> m \<and> d < r then d else r) = pick m d r"
  "(if m then (if d > r then d else r) else (if d < r then d else r)) = pick m d r"
  "(if d > r then d else r) = pick True d r" "(if d < r then d else r) = pick False d r"
  by (auto simp: pick_def)

lemma pick_all:
  assumes "0 < n" and "n \<le> length data"
  shows "for_loop 1 n (\<lambda>i result. pick m (data ! i) result) (data ! 0) = best_of m (set (take n data))"
proof -
  have "take n data = data ! 0 # drop 1 (take n data)" using assms by (cases data; cases n) auto
  then have "set (take n data) = {data ! 0} \<union> set (drop 1 (take n data))" by (metis insert_is_Un list.set(2))
  then show ?thesis using pick_loop[of 1 n data "{data ! 0}" m] assms by simp
qed

lemma best3_4: "0 < n \<Longrightarrow> n \<le> length data \<Longrightarrow> best3 data n m = best_of m (set (take n data)) \<and> best4 data n m = best_of m (set (take n data))"
  using pick_all[of n data m] by (simp add: best3_def best4_def Let_def pick_ifs)

lemma best5_max: "0 < n \<Longrightarrow> n \<le> length data \<Longrightarrow> best5 data n m = Max (set (take n data))"
  using pick_all[of n data True] by (simp add: best5_def Let_def pick_ifs(3) best_of_def)

text \<open>The pair of results of \<open>best6\<close> and \<open>best7\<close>: together they are the best of the elements seen.\<close>

definition pair_body :: "bool \<Rightarrow> int list \<Rightarrow> nat \<Rightarrow> int \<times> int \<Rightarrow> int \<times> int" where
  "pair_body m data i = (\<lambda>(r0, r1). (pick m (data ! i) r0, pick m (data ! (i + 1)) r1))"

lemma by_two_pairs:
  assumes "0 < i" and "i \<le> n" and "1 < n" and "n \<le> length data" and "pick m (fst s) (snd s) = best_of m (insert (data ! 1) (set (take i data)))"
  shows "\<exists>j s'. by_two i (n - 1) (pair_body m data) s = (j, s') \<and> i \<le> j \<and> n - 1 \<le> j \<and> j \<le> n \<and>
    pick m (fst s') (snd s') = best_of m (insert (data ! 1) (set (take j data)))"
  using assms
proof (induction "n - i" arbitrary: i s rule: less_induct)
  case less
  show ?case
  proof (cases "i < n - 1")
    case True
    let ?S = "insert (data ! 1) (set (take i data))"
    obtain r0 r1 where s: "s = (r0, r1)" by (cases s)
    have "set (take (i + 2) data) = insert (data ! (i + 1)) (insert (data ! i) (set (take i data)))"
      using True less.prems(4) by (simp add: set_take_Suc)
    then have S: "insert (data ! 1) (set (take (i + 2) data)) = insert (data ! (i + 1)) (insert (data ! i) ?S)" by auto
    have "pick m (pick m (data ! i) r0) (pick m (data ! (i + 1)) r1) = pick m (data ! (i + 1)) (pick m (data ! i) (pick m r0 r1))"
      by (simp add: pick_def max.commute max.left_commute min.commute min.left_commute)
    then have "pick m (fst (pair_body m data i s)) (snd (pair_body m data i s)) = best_of m (insert (data ! 1) (set (take (i + 2) data)))"
      using less.prems(5) unfolding S by (simp add: s pair_body_def best_of_insert)
    then have "\<exists>j s'. by_two (i + 2) (n - 1) (pair_body m data) (pair_body m data i s) = (j, s') \<and> i + 2 \<le> j \<and> n - 1 \<le> j \<and> j \<le> n \<and>
        pick m (fst s') (snd s') = best_of m (insert (data ! 1) (set (take j data)))"
      using True less.prems by (intro less.hyps) auto
    then show ?thesis using True by (subst by_two.simps) auto
  next
    case False
    then show ?thesis using less.prems by (subst by_two.simps) auto
  qed
qed

lemma pair_finish:
  assumes "1 < n" and "n \<le> length data"
  shows "(let (i, r0, r1) = by_two 1 (n - 1) (pair_body m data) (data ! 0, data ! 1);
      r0 = for_loop i n (\<lambda>i r. pick m (data ! i) r) r0 in pick m r1 r0) = best_of m (set (take n data))"
proof -
  have "set (take 1 data) = {data ! 0}" using assms by (cases data) auto
  then have "pick m (fst (data ! 0, data ! 1)) (snd (data ! 0, data ! 1)) = best_of m (insert (data ! 1) (set (take 1 data)))"
    by (simp add: best_of_insert pick_ac(1))
  with assms obtain j r0 r1 where j: "by_two 1 (n - 1) (pair_body m data) (data ! 0, data ! 1) = (j, r0, r1)" "n - 1 \<le> j" "j \<le> n"
    "pick m r0 r1 = best_of m (insert (data ! 1) (set (take j data)))"
    using by_two_pairs[of 1 n data m "(data ! 0, data ! 1)"] by auto
  have d1: "data ! 1 \<in> set (take n data)" using assms by (auto simp: in_set_conv_nth intro!: exI[of _ 1])
  show ?thesis
  proof (cases "j = n")
    case True
    then show ?thesis using j(1,4) d1 by (simp add: pick_ac(1)[of m r1] insert_absorb)
  next
    case False
    then have n: "n = Suc j" using j(2,3) assms(1) by simp
    then have "set (take n data) = insert (data ! j) (insert (data ! 1) (set (take j data)))"
      using set_take_Suc[of j data] assms(2) d1 by auto
    moreover have "pick m r1 (pick m (data ! j) r0) = pick m (data ! j) (pick m r0 r1)"
      by (simp add: pick_def max.commute max.left_commute min.commute min.left_commute)
    moreover have "for_loop j n (\<lambda>i r. pick m (data ! i) r) r0 = pick m (data ! j) r0" unfolding n by (simp add: for_loop_Suc)
    ultimately show ?thesis using j(1,4) by (simp add: best_of_insert)
  qed
qed

lemma pair_bodies:
  "(\<lambda>i (r0, r1). if m then (if data ! i > r0 then data ! i else r0, if data ! (i + 1) > r1 then data ! (i + 1) else r1)
      else (if data ! i < r0 then data ! i else r0, if data ! (i + 1) < r1 then data ! (i + 1) else r1)) = pair_body m data"
  by (auto simp: pair_body_def pick_def fun_eq_iff)

lemma best6_7:
  assumes "1 < n" and "n \<le> length data"
  shows "best6 data n m = best_of m (set (take n data))" and "best7 data n m = best_of m (set (take n data))"
proof -
  show "best6 data n m = best_of m (set (take n data))"
    using pair_finish[OF assms, of m] unfolding best6_def Let_def pair_bodies(1) by (simp add: pick_ifs(2))
  show "best7 data n m = best_of m (set (take n data))"
    using pair_finish[OF assms, of True] pair_finish[OF assms, of False]
    unfolding best7_def Let_def pick_ifs(3,4) pair_body_def by (cases m) simp_all
qed

lemma replace_loop: "0 < n \<Longrightarrow> n \<le> length data \<Longrightarrow> for_loop 1 n (\<lambda>i (r :: int). if data ! i > r \<or> data ! i < r then data ! i else r) (data ! 0) = data ! (n - 1)"
proof (induction n)
  case (Suc n)
  then show ?case by (cases "n = 0") (auto simp: for_loop_Suc)
qed simp

lemma best1_2:
  assumes "0 < n" and "n \<le> length data"
  shows "best1 data n m = (if m then data ! (n - 1) else data ! 0)" and "best2 data n m = best1 data n m"
proof -
  have "for_loop 1 n (\<lambda>i r. r) (data ! 0) = data ! 0"
    by (rule for_loop_invariant[where I = "\<lambda>i r. r = data ! 0"]) (use assms in auto)
  then show "best1 data n m = (if m then data ! (n - 1) else data ! 0)"
    using replace_loop[OF assms] by (simp add: best1_def)
qed (simp add: best1_def best2_def)

text \<open>
  Of the functions that find the greatest or, when \<open>find_max\<close> is 0, the least of \<open>n\<close>
  elements, \<open>best3\<close>, \<open>best4\<close>, \<open>best6\<close> and \<open>best7\<close> (for at least two elements) do; \<open>best1\<close> and
  \<open>best2\<close> return the last element or the first one instead, and \<open>best5\<close> always the greatest.
\<close>

theorem best_agree:
  assumes "1 < n" and "n \<le> length data"
  shows "best3 data n m = (if m then Max (set (take n data)) else Min (set (take n data))) \<and> best4 data n m = best3 data n m \<and>
    best6 data n m = best3 data n m \<and> best7 data n m = best3 data n m \<and>
    best1 data n m = (if m then data ! (n - 1) else data ! 0) \<and> best2 data n m = best1 data n m \<and>
    best5 data n m = Max (set (take n data))"
  using best3_4[of n data m] best6_7[OF assms, of m] best1_2[of n data m] best5_max[of n data m] assms by (simp add: best_of_def)

theorem best_agree_witness:
  "best7 [2, 5, - 1, 3] 4 False = - 1 \<and> best1 [2, 5, - 1, 3] 4 True = 3 \<and> best5 [2, 5, - 1, 3] 4 False = 5"
  using best_agree[of 4 "[2, 5, - 1, 3]" True] best_agree[of 4 "[2, 5, - 1, 3]" False] by simp

end
