(* ===== verification/OptLoops.thy ===== *)
theory OptLoops
  imports CString Rio
begin

text \<open>
  Unrolled loops of \<open>csapp-master/opt\<close> against the plain ones: copying and clearing arrays that
  may overlap (\<open>copy.c\<close>), the factorials (\<open>fact.c\<close>), lower case with and without a call of
  \<open>strlen\<close> in the loop test (\<open>lower.c\<close>), and the calls of a function with a side effect
  (\<open>func.c\<close>). \<open>long\<close> values are 64-bit words; the bounds of the loops are integers.
\<close>

section \<open>Unrolled loops\<close>

text \<open>The loop \<open>for (; i < limit; i += k)\<close>: the index it ends with and the state.\<close>

function by_steps :: "nat \<Rightarrow> nat \<Rightarrow> int \<Rightarrow> (nat \<Rightarrow> 's \<Rightarrow> 's) \<Rightarrow> 's \<Rightarrow> nat \<times> 's" where
  "by_steps k i limit body s = (if int i < limit \<and> 0 < k then by_steps k (i + k) limit body (body i s) else (i, s))"
  by pat_completeness auto
termination by (relation "measure (\<lambda>(k, i, limit, body, s). nat (limit - int i))") auto

declare by_steps.simps [simp del]

definition unrolled :: "nat \<Rightarrow> nat \<Rightarrow> int \<Rightarrow> nat \<Rightarrow> (nat \<Rightarrow> 's \<Rightarrow> 's) \<Rightarrow> (nat \<Rightarrow> 's \<Rightarrow> 's) \<Rightarrow> 's \<Rightarrow> 's" where
  "unrolled k i limit n body body1 s = (let (i, s) = by_steps k i limit body s in for_loop i n body1 s)"

lemma for_loop_split: "i \<le> j \<Longrightarrow> j \<le> n \<Longrightarrow> for_loop i n body s = for_loop j n body (for_loop i j body s)"
  using upt_add_eq_append[of i j "n - j"] by (simp add: for_loop_def)

text \<open>Unrolling is sound when the body does what \<open>k\<close> turns of the plain loop do, as seen through \<open>view\<close>.\<close>

lemma unrolled_plain:
  assumes "\<And>i s. ok i \<Longrightarrow> view (body i s) = for_loop i (i + k) plain (view s)" and "\<And>i s. view (body1 i s) = plain i (view s)"
    and "\<And>i. int i < limit \<Longrightarrow> i + k \<le> n" and "\<And>i. ok i \<Longrightarrow> ok (i + k)" and "ok i"
  shows "view (unrolled k i limit n body body1 s) = for_loop i n plain (view s)"
  using assms(5)
proof (induction "nat (limit - int i)" arbitrary: i s rule: less_induct)
  case less
  have rest: "view (for_loop j n body1 t) = for_loop j n plain (view t)" for j t
  proof -
    have "view (fold body1 is t) = fold plain is (view t)" for "is" by (induction "is" arbitrary: t) (simp_all add: assms(2))
    then show ?thesis by (simp add: for_loop_def)
  qed
  show ?case
  proof (cases "int i < limit \<and> 0 < k")
    case True
    then have n: "i + k \<le> n" using assms(3) by blast
    have "view (unrolled k (i + k) limit n body body1 (body i s)) = for_loop (i + k) n plain (view (body i s))"
      using True less.prems assms(4) by (intro less.hyps) auto
    also have "\<dots> = for_loop i n plain (view s)" using assms(1)[OF less.prems] for_loop_split[of i "i + k" n plain] n by simp
    finally show ?thesis using True unfolding unrolled_def by (subst by_steps.simps) simp
  next
    case False
    then have "by_steps k i limit body s = (i, s)" by (subst by_steps.simps) auto
    then show ?thesis using rest by (simp add: unrolled_def)
  qed
qed

lemma for_loop_numerals:
  "for_loop i (i + 2) f s = f (i + 1) (f i s)" "for_loop i (i + 3) f s = f (i + 2) (f (i + 1) (f i s))"
  "for_loop i (i + 4) f s = f (i + 3) (f (i + 2) (f (i + 1) (f i s)))"
  by (simp_all add: for_loop_def numeral_eq_Suc)

section \<open>Copying and clearing\<close>

text \<open>Memory is a list of words; \<open>src\<close> and \<open>dest\<close> are positions in it, so arrays may overlap.\<close>

definition move :: "nat \<Rightarrow> nat \<Rightarrow> nat \<Rightarrow> uint64 list \<Rightarrow> uint64 list" where
  "move src dest i mem = mem[dest + i := mem ! (src + i)]"

definition wipe :: "nat \<Rightarrow> nat \<Rightarrow> uint64 list \<Rightarrow> uint64 list" where
  "wipe dest i mem = mem[dest + i := 0]"

definition copy_array :: "nat \<Rightarrow> nat \<Rightarrow> int \<Rightarrow> uint64 list \<Rightarrow> uint64 list" where
  "copy_array src dest n = for_loop 0 (nat n) (move src dest)"

definition clear_array :: "nat \<Rightarrow> int \<Rightarrow> uint64 list \<Rightarrow> uint64 list" where
  "clear_array dest n = for_loop 0 (nat n) (wipe dest)"

definition clear_array_4 :: "nat \<Rightarrow> int \<Rightarrow> uint64 list \<Rightarrow> uint64 list" where
  "clear_array_4 dest n = unrolled 4 0 (n - 3) (nat n)
     (\<lambda>i mem. wipe dest (i + 3) (wipe dest (i + 2) (wipe dest (i + 1) (wipe dest i mem)))) (wipe dest)"

definition array_copy :: "nat \<Rightarrow> nat \<Rightarrow> int \<Rightarrow> uint64 list \<Rightarrow> uint64 list" where
  "array_copy src dest n = for_loop 0 (nat n) (move src dest)"

definition array_clear :: "nat \<Rightarrow> nat \<Rightarrow> int \<Rightarrow> uint64 list \<Rightarrow> uint64 list" where
  "array_clear src dest n = for_loop 0 (nat n) (wipe dest)"

definition array_copy_2 :: "nat \<Rightarrow> nat \<Rightarrow> int \<Rightarrow> uint64 list \<Rightarrow> uint64 list" where
  "array_copy_2 src dest n = unrolled 2 0 (n - 1) (nat n) (\<lambda>i mem. move src dest (i + 1) (move src dest i mem)) (move src dest)"

definition array_clear_2 :: "nat \<Rightarrow> nat \<Rightarrow> int \<Rightarrow> uint64 list \<Rightarrow> uint64 list" where
  "array_clear_2 src dest n = unrolled 2 0 (n - 1) (nat n) (\<lambda>i mem. wipe dest (i + 1) (wipe dest i mem)) (wipe dest)"

definition array_copy_4 :: "nat \<Rightarrow> nat \<Rightarrow> int \<Rightarrow> uint64 list \<Rightarrow> uint64 list" where
  "array_copy_4 src dest n = unrolled 4 0 (n - 3) (nat n)
     (\<lambda>i mem. move src dest (i + 3) (move src dest (i + 2) (move src dest (i + 1) (move src dest i mem)))) (move src dest)"

definition array_clear_3 :: "nat \<Rightarrow> nat \<Rightarrow> int \<Rightarrow> uint64 list \<Rightarrow> uint64 list" where
  "array_clear_3 src dest n = unrolled 3 0 (n - 2) (nat n)
     (\<lambda>i mem. wipe dest (i + 2) (wipe dest (i + 1) (wipe dest i mem))) (wipe dest)"

definition array_clear_4 :: "nat \<Rightarrow> nat \<Rightarrow> int \<Rightarrow> uint64 list \<Rightarrow> uint64 list" where
  "array_clear_4 src dest n = unrolled 4 0 (n - 3) (nat n)
     (\<lambda>i mem. wipe dest (i + 3) (wipe dest (i + 2) (wipe dest (i + 1) (wipe dest i mem)))) (wipe dest)"

text \<open>\<open>mem_clear\<close> calls \<open>memset\<close> on \<open>n\<close> words.\<close>

definition mem_clear :: "nat \<Rightarrow> nat \<Rightarrow> int \<Rightarrow> uint64 list \<Rightarrow> uint64 list" where
  "mem_clear src dest n mem = take dest mem @ replicate (nat n) 0 @ drop (dest + nat n) mem"

text \<open>\<open>write_read\<close>: \<open>cnt\<close> turns that write \<open>val\<close> and read the next one.\<close>

definition write_read :: "nat \<Rightarrow> nat \<Rightarrow> nat \<Rightarrow> uint64 list \<Rightarrow> uint64 list \<times> uint64" where
  "write_read src dst n mem = for_loop 0 n (\<lambda>_ (mem, val). let mem = mem[dst := val] in (mem, mem ! src + 1)) (mem, 0)"

lemma unroll_same:
  assumes "\<And>i s. body i s = for_loop i (i + k) plain s" and "\<And>i. int i < limit \<Longrightarrow> i + k \<le> n"
  shows "unrolled k i limit n body plain s = for_loop i n plain s"
  using unrolled_plain[where view = "\<lambda>s. s" and ok = "\<lambda>_. True", OF assms(1) _ assms(2)] by simp

lemmas array_defs = array_copy_def array_copy_2_def array_copy_4_def copy_array_def array_clear_def array_clear_2_def
  array_clear_3_def array_clear_4_def clear_array_4_def clear_array_def

lemma copies_equal:
  "array_copy src dest n mem = copy_array src dest n mem" "array_copy_2 src dest n mem = copy_array src dest n mem"
  "array_copy_4 src dest n mem = copy_array src dest n mem"
proof -
  show "array_copy src dest n mem = copy_array src dest n mem" by (simp only: array_defs)
  show "array_copy_2 src dest n mem = copy_array src dest n mem" "array_copy_4 src dest n mem = copy_array src dest n mem"
    unfolding array_defs by (rule unroll_same; (simp only: for_loop_numerals)?; linarith?)+
qed

lemma clears_equal:
  "array_clear src dest n mem = clear_array dest n mem" "array_clear_2 src dest n mem = clear_array dest n mem"
  "array_clear_3 src dest n mem = clear_array dest n mem" "array_clear_4 src dest n mem = clear_array dest n mem"
  "clear_array_4 dest n mem = clear_array dest n mem"
proof -
  show "array_clear src dest n mem = clear_array dest n mem" by (simp only: array_defs)
  show "array_clear_2 src dest n mem = clear_array dest n mem" "array_clear_3 src dest n mem = clear_array dest n mem"
    "array_clear_4 src dest n mem = clear_array dest n mem" "clear_array_4 dest n mem = clear_array dest n mem"
    unfolding array_defs by (rule unroll_same; (simp only: for_loop_numerals)?; linarith?)+
qed

lemma clear_array_nth:
  assumes "dest + nat n \<le> length mem"
  shows "clear_array dest n mem ! j = (if dest \<le> j \<and> j < dest + nat n then 0 else mem ! j)"
proof -
  have "dest + k \<le> length mem \<Longrightarrow> length (for_loop 0 k (wipe dest) mem) = length mem \<and>
      (\<forall>j. for_loop 0 k (wipe dest) mem ! j = (if dest \<le> j \<and> j < dest + k then 0 else mem ! j))" for k
    by (induction k) (auto simp: for_loop_Suc wipe_def nth_list_update)
  then show ?thesis using assms by (simp add: clear_array_def)
qed

text \<open>A copy is what it should be unless the destination starts within the source.\<close>

lemma copy_array_nth:
  assumes "src + nat n \<le> length mem" and "dest + nat n \<le> length mem" and "dest \<le> src \<or> src + nat n \<le> dest"
  shows "copy_array src dest n mem ! j = (if dest \<le> j \<and> j < dest + nat n then mem ! (src + (j - dest)) else mem ! j)"
proof -
  have "k \<le> nat n \<Longrightarrow> length (for_loop 0 k (move src dest) mem) = length mem \<and>
      (\<forall>j. for_loop 0 k (move src dest) mem ! j = (if dest \<le> j \<and> j < dest + k then mem ! (src + (j - dest)) else mem ! j))" for k
  proof (induction k)
    case (Suc k)
    then show ?case using assms by (auto simp: for_loop_Suc move_def nth_list_update)
  qed auto
  then show ?thesis using assms by (simp add: copy_array_def)
qed

text \<open>Copying an array one place up spreads its first element.\<close>

lemma copy_array_up:
  assumes "src + nat n < length mem" and "src \<le> j" and "j \<le> src + nat n"
  shows "copy_array src (src + 1) n mem ! j = mem ! src"
proof -
  have "src + k < length mem \<Longrightarrow> length (for_loop 0 k (move src (src + 1)) mem) = length mem \<and>
      (\<forall>j. src \<le> j \<and> j \<le> src + k \<longrightarrow> for_loop 0 k (move src (src + 1)) mem ! j = mem ! src)" for k
  proof (induction k)
    case (Suc k)
    then show ?case by (auto simp: for_loop_Suc move_def nth_list_update le_Suc_eq)
  qed (use le_antisym in auto)
  then show ?thesis using assms by (simp add: copy_array_def)
qed


lemma length_clear_array [simp]: "length (clear_array dest n mem) = length mem"
  unfolding clear_array_def
  by (rule for_loop_invariant[where I = "\<lambda>_ m. length m = length mem"]) (simp_all add: wipe_def)

lemma mem_clear_eq:
  assumes "dest + nat n \<le> length mem"
  shows "mem_clear src dest n mem = clear_array dest n mem"
  by (rule nth_equalityI) (use assms in \<open>auto simp: mem_clear_def clear_array_nth nth_append\<close>)

lemma write_read_counts:
  assumes "p < length mem"
  shows "0 < n \<Longrightarrow> write_read p p n mem = (mem[p := of_nat (n - 1)], of_nat n)"
    and "q < length mem \<Longrightarrow> q \<noteq> p \<Longrightarrow> 1 < n \<Longrightarrow> write_read q p n mem = (mem[p := mem ! q + 1], mem ! q + 1)"
proof -
  have "for_loop 0 (Suc k) (\<lambda>_ (mem, val). let mem = mem[p := val] in (mem, mem ! p + 1)) (mem, 0) = (mem[p := of_nat k], of_nat (Suc k) :: uint64)" for k
    by (induction k) (use assms in \<open>simp_all add: for_loop_Suc Let_def add.commute\<close>)
  then show "0 < n \<Longrightarrow> write_read p p n mem = (mem[p := of_nat (n - 1)], of_nat n)"
    by (cases n) (simp_all add: write_read_def)
  assume q: "q < length mem" "q \<noteq> p" and n: "1 < n"
  have step: "for_loop 0 (k + 2) (\<lambda>_ (mem, val). let mem = mem[p := val] in (mem, mem ! q + 1)) (mem, 0) = (mem[p := mem ! q + 1], mem ! q + 1)" for k
    by (induction k) (use assms q in \<open>simp_all add: for_loop_Suc Let_def numeral_2_eq_2\<close>)
  obtain k where k: "n = k + 2" using n by (metis add.commute less_iff_Suc_add add_Suc_right add_2_eq_Suc' plus_1_eq_Suc)
  show "write_read q p n mem = (mem[p := mem ! q + 1], mem ! q + 1)" unfolding write_read_def k by (rule step)
qed

text \<open>
  The unrolled versions of copying and clearing leave the same memory as the plain loops for
  every length and every overlap of the arrays. The clearing loops and \<open>memset\<close> set the \<open>n\<close>
  elements to 0; the copying loops copy the array unless the destination starts within the
  source, and one place up they spread the first element.
\<close>

theorem array_loops_agree:
  assumes "src + nat n < length mem" and "dest + nat n \<le> length mem"
  shows "array_copy src dest n mem = copy_array src dest n mem \<and> array_copy_2 src dest n mem = copy_array src dest n mem \<and>
    array_copy_4 src dest n mem = copy_array src dest n mem \<and>
    array_clear src dest n mem = clear_array dest n mem \<and> array_clear_2 src dest n mem = clear_array dest n mem \<and>
    array_clear_3 src dest n mem = clear_array dest n mem \<and> array_clear_4 src dest n mem = clear_array dest n mem \<and>
    clear_array_4 dest n mem = clear_array dest n mem \<and> mem_clear src dest n mem = clear_array dest n mem \<and>
    (\<forall>j. clear_array dest n mem ! j = (if dest \<le> j \<and> j < dest + nat n then 0 else mem ! j)) \<and>
    (dest \<le> src \<or> src + nat n \<le> dest \<longrightarrow>
      (\<forall>j. copy_array src dest n mem ! j = (if dest \<le> j \<and> j < dest + nat n then mem ! (src + (j - dest)) else mem ! j))) \<and>
    (\<forall>j. src \<le> j \<and> j \<le> src + nat n \<longrightarrow> copy_array src (src + 1) n mem ! j = mem ! src)"
  using copies_equal clears_equal mem_clear_eq clear_array_nth copy_array_nth copy_array_up assms by simp

theorem array_loops_agree_witness:
  "array_copy_4 0 1 5 [4, 8, 15, 16, 23, 42] ! 3 = 4 \<and> array_clear_3 0 1 4 [4, 8, 15, 16, 23, 42] ! 4 = 0"
  using array_loops_agree[of 0 5 "[4, 8, 15, 16, 23, 42]" 1] array_loops_agree[of 0 4 "[4, 8, 15, 16, 23, 42]" 1] by simp

section \<open>Factorials\<close>

definition times_i :: "nat \<Rightarrow> uint64 \<Rightarrow> uint64" where
  "times_i i result = result * of_nat i"

function rfact :: "int \<Rightarrow> uint64" where
  "rfact n = (if n \<le> 1 then 1 else of_int n * rfact (n - 1))"
  by pat_completeness auto
termination by (relation "measure nat") auto

definition fact_c :: "int \<Rightarrow> uint64" where
  "fact_c n = for_loop 2 (nat (n + 1)) times_i 1"

definition fact_u2a :: "int \<Rightarrow> uint64" where
  "fact_u2a n = unrolled 2 2 n (nat (n + 1)) (\<lambda>i result. (result * of_nat i) * of_nat (i + 1)) times_i 1"

definition fact_u2b :: "int \<Rightarrow> uint64" where
  "fact_u2b n = unrolled 2 2 n (nat (n + 1)) (\<lambda>i result. result * (of_nat i * of_nat (i + 1))) times_i 1"

definition fact_u2c :: "int \<Rightarrow> uint64" where
  "fact_u2c n =
     (let (result0, result1) = unrolled 2 2 n (nat (n + 1))
        (\<lambda>i (result0, result1). (result0 * of_nat i, result1 * of_nat (i + 1))) (\<lambda>i (result0, result1). (result0 * of_nat i, result1)) (1, 1)
      in result0 * result1)"

definition fact_u3a :: "int \<Rightarrow> uint64" where
  "fact_u3a n = unrolled 3 2 (n - 1) (nat (n + 1)) (\<lambda>i result. (result * of_nat i) * of_nat (i + 1) * of_nat (i + 2)) times_i 1"

definition fact_u3b :: "int \<Rightarrow> uint64" where
  "fact_u3b n = unrolled 3 2 (n - 1) (nat (n + 1)) (\<lambda>i result. result * (of_nat i * of_nat (i + 1) * of_nat (i + 2))) times_i 1"

definition fact_u3c :: "int \<Rightarrow> uint64" where
  "fact_u3c n =
     (let (result0, result1, result2) = unrolled 3 2 (n - 1) (nat (n + 1))
        (\<lambda>i (result0, result1, result2). (result0 * of_nat i, result1 * of_nat (i + 1), result2 * of_nat (i + 2)))
        (\<lambda>i (result0, result1, result2). (result0 * of_nat i, result1, result2)) (1, 1, 1)
      in result0 * result1 * result2)"

function rfact_a :: "int \<Rightarrow> uint64" where
  "rfact_a n = (if n \<le> 1 then 1 else of_int n * - rfact_a (n - 1))"
  by pat_completeness auto
termination by (relation "measure nat") auto

declare rfact.simps [simp del] rfact_a.simps [simp del]

lemma fact_c_fact: "fact_c n = of_nat (fact (nat n))"
proof -
  have "for_loop 2 (k + 2) times_i 1 = of_nat (fact (k + 1))" for k
    by (induction k) (simp_all add: for_loop_Suc times_i_def algebra_simps)
  from this[of "nat n - 1"] show ?thesis by (cases "n \<le> 0") (auto simp: fact_c_def nat_add_distrib Suc_diff_Suc numeral_2_eq_2)
qed

lemma rfact_step:
  "rfact (int (Suc (Suc k))) = of_nat (Suc (Suc k)) * rfact (int (Suc k))"
  "rfact_a (int (Suc (Suc k))) = of_nat (Suc (Suc k)) * - rfact_a (int (Suc k))"
  by (subst rfact.simps, simp) (subst rfact_a.simps, simp)

lemma rfact_small: "n \<le> 1 \<Longrightarrow> rfact n = 1" "n \<le> 1 \<Longrightarrow> rfact_a n = 1"
  by (simp_all add: rfact.simps rfact_a.simps)

lemma rfact_Suc: "rfact (int (Suc k)) = of_nat (fact (Suc k)) \<and> rfact_a (int (Suc k)) = (- 1) ^ k * of_nat (fact (Suc k))"
proof (induction k)
  case 0
  then show ?case by (simp add: rfact_small)
next
  case (Suc k)
  have "of_nat (fact (Suc (Suc k))) = (of_nat (Suc (Suc k)) * of_nat (fact (Suc k)) :: uint64)"
    by (simp only: fact_Suc of_nat_mult of_nat_id)
  then show ?case using Suc by (simp only: rfact_step power_Suc) (simp add: algebra_simps)
qed

lemma rfact_fact: "rfact n = of_nat (fact (nat n))" and rfact_a_fact: "rfact_a n = (- 1) ^ (nat n - 1) * of_nat (fact (nat n))"
  using rfact_Suc[of "nat n - 1"] rfact_small[of n] by (cases "n \<le> 0"; simp)+

text \<open>The unrolled versions, seen through the product of their accumulators.\<close>

lemma fact_unrolled:
  assumes "\<And>i s. view (body i s) = view s * (\<Prod>j\<leftarrow>[i..<i + k]. of_nat j)" and "\<And>i s. view (body1 i s) = times_i i (view s)"
    and "\<And>i. int i < limit \<Longrightarrow> i + k \<le> nat (n + 1)"
  shows "view (unrolled k 2 limit (nat (n + 1)) body body1 s) = for_loop 2 (nat (n + 1)) times_i (view s)"
proof (rule unrolled_plain[where ok = "\<lambda>_. True"])
  have "fold times_i is x = x * (\<Prod>j\<leftarrow>is. of_nat j)" for "is" x by (induction "is" arbitrary: x) (simp_all add: times_i_def algebra_simps)
  then show "view (body i s) = for_loop i (i + k) times_i (view s)" for i s by (simp add: for_loop_def assms(1))
qed (use assms in auto)

lemma upto_numerals: "[i..<i + 2] = [i, i + 1]" "[i..<i + 3] = [i, i + 1, i + 2]"
  by (simp_all add: upt_conv_Cons numeral_eq_Suc)

lemma facts_equal:
  "fact_u2a n = fact_c n" "fact_u2b n = fact_c n" "fact_u2c n = fact_c n"
  "fact_u3a n = fact_c n" "fact_u3b n = fact_c n" "fact_u3c n = fact_c n"
proof -
  show "fact_u2a n = fact_c n" "fact_u2b n = fact_c n" "fact_u3a n = fact_c n" "fact_u3b n = fact_c n"
    unfolding fact_u2a_def fact_u2b_def fact_u3a_def fact_u3b_def fact_c_def
    by (rule fact_unrolled[where view = "\<lambda>s. s"]; (simp only: upto_numerals)?; (simp add: algebra_simps)?; linarith?)+
  have "(case unrolled 2 2 n (nat (n + 1)) (\<lambda>i (result0, result1). (result0 * of_nat i, result1 * of_nat (i + 1)))
      (\<lambda>i (result0, result1). (result0 * of_nat i, result1)) (1, 1) of (r0, r1) \<Rightarrow> r0 * r1) = for_loop 2 (nat (n + 1)) times_i (case (1, 1) of (r0, r1) \<Rightarrow> r0 * r1)"
    by (rule fact_unrolled; (simp only: upto_numerals)?; (auto simp: times_i_def algebra_simps)?; linarith?)
  then show "fact_u2c n = fact_c n" by (simp add: fact_u2c_def fact_c_def)
  have "(case unrolled 3 2 (n - 1) (nat (n + 1)) (\<lambda>i (result0, result1, result2). (result0 * of_nat i, result1 * of_nat (i + 1), result2 * of_nat (i + 2)))
      (\<lambda>i (result0, result1, result2). (result0 * of_nat i, result1, result2)) (1, 1, 1) of (r0, r1, r2) \<Rightarrow> r0 * r1 * r2) =
      for_loop 2 (nat (n + 1)) times_i (case (1, 1, 1) of (r0, r1, r2) \<Rightarrow> r0 * r1 * r2)"
    by (rule fact_unrolled; (simp only: upto_numerals)?; (auto simp: times_i_def algebra_simps)?; linarith?)
  then show "fact_u3c n = fact_c n" by (simp add: fact_u3c_def fact_c_def)
qed


text \<open>
  The recursive, the iterative and the six unrolled factorials agree modulo \<open>2 ^ 64\<close> for
  every argument; the recursive version with a negated call, which is registered with them, has
  the opposite sign for every even argument above 1.
\<close>

theorem factorials_agree:
  "rfact n = of_nat (fact (nat n)) \<and> fact_c n = rfact n \<and> fact_u2a n = rfact n \<and> fact_u2b n = rfact n \<and> fact_u2c n = rfact n \<and>
   fact_u3a n = rfact n \<and> fact_u3b n = rfact n \<and> fact_u3c n = rfact n \<and> rfact_a n = (- 1) ^ (nat n - 1) * rfact n"
  using facts_equal fact_c_fact rfact_fact rfact_a_fact by simp

section \<open>Lower case\<close>

fun strlen_loop :: "string \<Rightarrow> nat \<Rightarrow> nat" where
  "strlen_loop [] len = len"
| "strlen_loop (c # s) len = (if c \<noteq> NUL then strlen_loop s (len + 1) else len)"

definition strlen_c :: "string \<Rightarrow> nat" where
  "strlen_c s = strlen_loop s 0"

definition lower_at :: "nat \<Rightarrow> string \<Rightarrow> string" where
  "lower_at i s =
     (if (of_char (s ! i) :: nat) \<ge> of_char (CHR ''A'') \<and> (of_char (s ! i) :: nat) \<le> of_char (CHR ''Z'')
      then s[i := char_of (of_char (s ! i) + (32 :: nat))] else s)"

lemma strlen_takeWhile: "strlen_c s = length (takeWhile (\<lambda>c. c \<noteq> NUL) s)"
proof -
  have "strlen_loop s n = n + length (takeWhile (\<lambda>c. c \<noteq> NUL) s)" for n by (induction s arbitrary: n) auto
  then show ?thesis by (simp add: strlen_c_def)
qed

lemma lower_at_to_lower: "i < length s \<Longrightarrow> lower_at i s = s[i := to_lower (s ! i)]"
  by (simp add: lower_at_def to_lower_def)

lemma to_lower_NUL: "to_lower c = NUL \<longleftrightarrow> c = NUL"
proof
  show "c = NUL" if "to_lower c = NUL"
  proof (rule ccontr)
    assume "c \<noteq> NUL"
    with that have u: "65 \<le> (of_char c :: nat)" "(of_char c :: nat) \<le> 90" "char_of (of_char c + (32 :: nat)) = NUL"
      by (auto simp: to_lower_def split: if_splits)
    then have "(of_char (char_of (of_char c + (32 :: nat)) :: char) :: nat) = of_char NUL" by simp
    then show False using u(1,2) by (simp add: NUL_def of_char_of take_bit_eq_mod)
  qed
qed (simp add: to_lower_def NUL_def)

lemma takeWhile_same: "(\<And>i. i < length xs \<Longrightarrow> P (ys ! i) = P (xs ! i)) \<Longrightarrow> length ys = length xs \<Longrightarrow>
    length (takeWhile P ys) = length (takeWhile P xs)"
proof (induction xs arbitrary: ys)
  case (Cons x xs)
  obtain y ys' where ys: "ys = y # ys'" using Cons.prems(2) by (cases ys) auto
  have "length (takeWhile P ys') = length (takeWhile P xs)"
    by (rule Cons.IH) (use Cons.prems(1)[of "Suc _"] Cons.prems(2) ys in auto)
  then show ?case using Cons.prems(1)[of 0] by (simp add: ys)
qed simp

lemma strlen_lower_at [simp]: "i < length s \<Longrightarrow> strlen_c (lower_at i s) = strlen_c s"
  unfolding strlen_takeWhile
  by (rule takeWhile_same) (auto simp: lower_at_to_lower nth_list_update to_lower_NUL)

lemma strlen_le: "strlen_c s \<le> length s"
  by (simp add: strlen_takeWhile length_takeWhile_le)

function lower1_loop :: "nat \<Rightarrow> string \<Rightarrow> string" where
  "lower1_loop i s = (if i < strlen_c s then lower1_loop (i + 1) (lower_at i s) else s)"
  by pat_completeness auto
termination
proof (relation "measure (\<lambda>(i, s). strlen_c s - i)")
  show "((i + 1, lower_at i s), i, s) \<in> measure (\<lambda>(i, s). strlen_c s - i)" if "i < strlen_c s" for i s
    using that strlen_le[of s] by simp
qed simp

declare lower1_loop.simps [simp del]

definition lower1 :: "string \<Rightarrow> string" where
  "lower1 s = lower1_loop 0 s"

definition lower2 :: "string \<Rightarrow> string" where
  "lower2 s = (let len = strlen_c s in for_loop 0 len lower_at s)"

lemma lower1_loop_for: "i \<le> strlen_c s \<Longrightarrow> lower1_loop i s = for_loop i (strlen_c s) lower_at s"
proof (induction i s rule: lower1_loop.induct)
  case (1 i s)
  show ?case
  proof (cases "i < strlen_c s")
    case True
    then have "i < length s" using strlen_le[of s] by simp
    then show ?thesis using 1 True by (subst lower1_loop.simps) (simp add: for_loop_step)
  next
    case False
    then show ?thesis using 1 by (subst lower1_loop.simps) simp
  qed
qed

lemma lower_loop: "k \<le> length s \<Longrightarrow> for_loop 0 k lower_at s = map to_lower (take k s) @ drop k s"
proof (induction k)
  case (Suc k)
  have k: "k < length s" using Suc.prems by simp
  have "for_loop 0 (Suc k) lower_at s = lower_at k (map to_lower (take k s) @ s ! k # drop (Suc k) s)"
    using Suc k by (simp add: for_loop_Suc Cons_nth_drop_Suc)
  also have "\<dots> = map to_lower (take k s) @ to_lower (s ! k) # drop (Suc k) s"
    using k by (simp add: lower_at_to_lower nth_append list_update_append min_absorb2)
  finally show ?case using k by (simp add: take_Suc_conv_app_nth)
qed simp

text \<open>
  The slow and the fast \<open>lower\<close> turn the string an array holds into lower case and leave what
  follows it alone; the slow one, which calls \<open>strlen\<close> before each turn, ends as well.
\<close>

theorem lower_agree:
  "lower1 s = map to_lower (takeWhile (\<lambda>c. c \<noteq> NUL) s) @ dropWhile (\<lambda>c. c \<noteq> NUL) s \<and> lower2 s = lower1 s"
proof -
  have "take (strlen_c s) s = takeWhile (\<lambda>c. c \<noteq> NUL) s" "drop (strlen_c s) s = dropWhile (\<lambda>c. c \<noteq> NUL) s"
    by (simp_all add: strlen_takeWhile takeWhile_eq_take[symmetric] dropWhile_eq_drop[symmetric])
  then show ?thesis using lower1_loop_for[of 0 s] lower_loop[OF strlen_le[of s]] by (simp add: lower1_def lower2_def)
qed

section \<open>Calls with a side effect\<close>

text \<open>The value returned and \<open>counter\<close>. The order of the four calls does not matter for the sum.\<close>

definition f_c :: "uint64 \<Rightarrow> uint64 \<times> uint64" where
  "f_c counter = (counter, counter + 1)"

definition func1 :: "uint64 \<Rightarrow> uint64 \<times> uint64" where
  "func1 counter = (let (a, counter) = f_c counter; (b, counter) = f_c counter; (c, counter) = f_c counter; (d, counter) = f_c counter
     in (a + b + c + d, counter))"

definition func2 :: "uint64 \<Rightarrow> uint64 \<times> uint64" where
  "func2 counter = (let (a, counter) = f_c counter in (4 * a, counter))"

definition func1in :: "uint64 \<Rightarrow> uint64 \<times> uint64" where
  "func1in counter =
     (let t = counter; counter = counter + 1; t = t + counter; counter = counter + 1; t = t + counter; counter = counter + 1;
          t = t + counter; counter = counter + 1 in (t, counter))"

definition func1opt :: "uint64 \<Rightarrow> uint64 \<times> uint64" where
  "func1opt counter = (let t = 4 * counter + 6; counter = counter + 4 in (t, counter))"

lemma func1_inlined: "func1in counter = func1 counter" "func1opt counter = func1 counter" "func2 counter \<noteq> func1 counter"
  by (simp_all add: func1_def func2_def func1in_def func1opt_def f_c_def Let_def)

end
