(* ===== verification/IntExamples.thy ===== *)
theory IntExamples
  imports Bits "HOL-Library.Signed_Division"
begin

text \<open>
  The integer examples of \<open>csapp-master/data\<close>: tests whether a product or a sum overflows
  (\<open>tmultcheck.c\<close>, \<open>uaddcheck.c\<close>), division by constants (\<open>divconst.c\<close>, \<open>optarith.c\<close>), bit set and bit
  clear (\<open>bisbic.c\<close>) and sign extension (\<open>sign-extend.c\<close>). Signed arithmetic wraps, as the book
  takes it to; a signed division whose quotient does not fit traps, as does one by 0.
\<close>

section \<open>Products\<close>

type_synonym int8 = "8 word"

text \<open>Division of two values of type \<open>int\<close>; \<open>char\<close> operands are converted to \<open>int\<close> first.\<close>

definition int_div :: "int \<Rightarrow> int \<Rightarrow> int outcome" where
  "int_div a b = (if b = 0 \<or> 2 ^ 31 \<le> a sdiv b then Fault else Done (a sdiv b))"

definition cmult_ok :: "int8 \<Rightarrow> int8 \<Rightarrow> bool outcome" where
  "cmult_ok x y =
     (let p = of_int (sint x * sint y) :: int8 in
      if sint x = 0 then Done True
      else case int_div (sint p) (sint x) of Fault \<Rightarrow> Fault | Done q \<Rightarrow> Done (q = sint y))"

definition CHAR_MAX :: int where "CHAR_MAX = 127"
definition CHAR_MIN :: int where "CHAR_MIN = - 128"

definition cmult_ok2 :: "int8 \<Rightarrow> int8 \<Rightarrow> bool outcome" where
  "cmult_ok2 x y =
     (if sint x = 0 \<or> sint y = 0 then Done True
      else if sint x < 0 \<and> sint y < 0 then (case int_div CHAR_MAX (sint x) of Fault \<Rightarrow> Fault | Done q \<Rightarrow> Done (q \<le> sint y))
      else if sint x < 0 \<and> sint y > 0 then (case int_div CHAR_MIN (sint x) of Fault \<Rightarrow> Fault | Done q \<Rightarrow> Done (q \<ge> sint y))
      else if sint x > 0 \<and> sint y < 0 then (case int_div CHAR_MIN (sint x) of Fault \<Rightarrow> Fault | Done q \<Rightarrow> Done (q \<le> sint y))
      else (case int_div CHAR_MAX (sint x) of Fault \<Rightarrow> Fault | Done q \<Rightarrow> Done (q \<ge> sint y)))"

definition cmult_ok3 :: "int8 \<Rightarrow> int8 \<Rightarrow> bool outcome" where
  "cmult_ok3 x y =
     (if sint x = 0 \<or> sint y = 0 then Done True
      else let xneg = (sint x < 0); yneg = (sint y < 0); pneg = (xneg \<noteq> yneg); lim = (if pneg then CHAR_MIN else CHAR_MAX)
      in case int_div lim (sint x) of Fault \<Rightarrow> Fault | Done q \<Rightarrow> Done (if yneg then q \<le> sint y else sint y \<ge> q))"

definition bad_cmult_ok :: "int8 \<Rightarrow> int8 \<Rightarrow> bool outcome" where
  "bad_cmult_ok x y =
     (if sint x = 0 then Done True
      else let absx = (if sint x < 0 then sint x else - sint x)
      in case int_div CHAR_MAX absx of Fault \<Rightarrow> Fault | Done q \<Rightarrow> Done (q \<ge> sint y))"

definition test_cmult_ok :: "int8 \<Rightarrow> int8 \<Rightarrow> bool" where
  "test_cmult_ok x y = (let p = sint x * sint y in p \<ge> CHAR_MIN \<and> p \<le> CHAR_MAX)"

definition tmult_ok :: "int32 \<Rightarrow> int32 \<Rightarrow> bool outcome" where
  "tmult_ok x y =
     (let p = x * y in
      if x = 0 then Done True else case int_div (sint p) (sint x) of Fault \<Rightarrow> Fault | Done q \<Rightarrow> Done (q = sint y))"

definition tmult_ovf :: "int32 \<Rightarrow> int32 \<Rightarrow> bool outcome" where
  "tmult_ovf x y =
     (let p = x * y in
      if x = 0 then Done False else case int_div (sint p) (sint x) of Fault \<Rightarrow> Fault | Done q \<Rightarrow> Done (q \<noteq> sint y))"

definition tmult_ok2 :: "int32 \<Rightarrow> int32 \<Rightarrow> bool" where
  "tmult_ok2 x y = (let pll = scast x * scast y :: uint64 in pll = scast (ucast pll :: int32))"

definition tmult_ovf2 :: "int32 \<Rightarrow> int32 \<Rightarrow> bool" where
  "tmult_ovf2 x y = (let pll = scast x * scast y :: uint64 in pll \<noteq> scast (ucast pll :: int32))"

definition bad_tmult_ok :: "int32 \<Rightarrow> int32 \<Rightarrow> bool" where
  "bad_tmult_ok x y = (let pll = scast (x * y) :: uint64 in pll = scast (ucast pll :: int32))"

text \<open>
  The loops of \<open>main\<close>: the test of the inner one reads and its step increments \<open>x\<close>, so \<open>y\<close> keeps
  its first value. The pairs that are tested, in order.
\<close>

function inner_loop :: "int \<Rightarrow> int \<Rightarrow> int \<times> (int \<times> int) list" where
  "inner_loop x y = (if x \<le> CHAR_MAX then (let (x', ps) = inner_loop (x + 1) y in (x', (x, y) # ps)) else (x, []))"
  by pat_completeness auto
termination by (relation "measure (\<lambda>(x, y). nat (CHAR_MAX + 1 - x))") auto

declare inner_loop.simps [simp del]

lemma inner_loop_pairs: "inner_loop x y = (max x (CHAR_MAX + 1), map (\<lambda>i. (i, y)) [x..CHAR_MAX])"
proof (induction x y rule: inner_loop.induct)
  case (1 x y)
  then show ?case by (subst inner_loop.simps) (auto simp: upto_rec1)
qed

function outer_loop :: "int \<Rightarrow> (int \<times> int) list" where
  "outer_loop x = (if x \<le> CHAR_MAX then (let (x', ps) = inner_loop x CHAR_MIN in ps @ outer_loop (x' + 1)) else [])"
  by pat_completeness auto
termination by (relation "measure (\<lambda>x. nat (CHAR_MAX + 1 - x))") (auto simp: inner_loop_pairs)

declare outer_loop.simps [simp del]

definition tested_pairs :: "(int \<times> int) list" where
  "tested_pairs = outer_loop CHAR_MIN"

text \<open>Each of the four checks is compared with the reference on these pairs only.\<close>

lemma tested_pairs_all: "tested_pairs = map (\<lambda>x. (x, CHAR_MIN)) [CHAR_MIN..CHAR_MAX]"
proof -
  have "outer_loop (CHAR_MAX + 1 + 1) = []" by (subst outer_loop.simps) simp
  then show ?thesis unfolding tested_pairs_def
    by (subst outer_loop.simps) (simp add: inner_loop_pairs CHAR_MIN_def CHAR_MAX_def)
qed

section \<open>Sums\<close>

definition uadd_ok :: "uint32 \<Rightarrow> uint32 \<Rightarrow> int32" where
  "uadd_ok x y = (let total = x + y in c_bool (total \<ge> x))"

definition uadd_ovf :: "uint32 \<Rightarrow> uint32 \<Rightarrow> int32" where
  "uadd_ovf x y = (let total = x + y in c_bool (total < x))"

definition test_uadd_ok :: "uint32 \<Rightarrow> uint32 \<Rightarrow> int32" where
  "test_uadd_ok x y = (let lx = ucast x :: uint64; ly = ucast y :: uint64 in c_bool (lx + ly = ucast (x + y)))"

definition test_uadd_ovf :: "uint32 \<Rightarrow> uint32 \<Rightarrow> int32" where
  "test_uadd_ovf x y = (let lx = ucast x :: uint64; ly = ucast y :: uint64 in c_bool (lx + ly \<noteq> ucast (x + y)))"

section \<open>Division by constants\<close>

definition div8 :: "int32 \<Rightarrow> int32" where
  "div8 x = (let bias = signed_drop_bit 31 x AND 0x7 in signed_drop_bit 3 (x + bias))"

definition div16 :: "int32 \<Rightarrow> int32" where
  "div16 x = (let bias = signed_drop_bit 31 x AND 0xF in signed_drop_bit 4 (x + bias))"

definition div2k :: "int32 \<Rightarrow> nat \<Rightarrow> int32" where
  "div2k x k = signed_drop_bit k (if x <s 0 then x + push_bit k 1 - 1 else x)"

definition c_div32 :: "int32 \<Rightarrow> int \<Rightarrow> int32" where
  "c_div32 x d = of_int (sint x sdiv d)"

definition arith :: "int32 \<Rightarrow> int32 \<Rightarrow> int32" where "arith x y = x * 31 + c_div32 y 8"
definition arithb :: "int32 \<Rightarrow> int32 \<Rightarrow> int32" where "arithb x y = x * 15 + c_div32 y 4"

definition optarith :: "int32 \<Rightarrow> int32 \<Rightarrow> int32" where
  "optarith x y =
     (let t = x; x = push_bit 5 x; x = x - t; y = (if y <s 0 then y + 7 else y); y = signed_drop_bit 3 y in x + y)"

definition optarithb :: "int32 \<Rightarrow> int32 \<Rightarrow> int32" where
  "optarithb x y =
     (let t = x; x = push_bit 4 x; x = x - t; y = (if y <s 0 then y + 3 else y); y = signed_drop_bit 2 y in x + y)"

section \<open>Bits\<close>

definition bis :: "int32 \<Rightarrow> int32 \<Rightarrow> int32" where "bis x m = (let result = x OR m in result)"
definition bic :: "int32 \<Rightarrow> int32 \<Rightarrow> int32" where "bic x m = (let result = x AND NOT m in result)"
definition bool_or :: "int32 \<Rightarrow> int32 \<Rightarrow> int32" where "bool_or x y = (let result = bis x y in result)"
definition bool_xor :: "int32 \<Rightarrow> int32 \<Rightarrow> int32" where "bool_xor x y = (let result = bis (bic x y) (bic y x) in result)"

definition fun1 :: "uint32 \<Rightarrow> int32" where "fun1 w = drop_bit 24 (push_bit 24 w)"
definition fun2 :: "uint32 \<Rightarrow> int32" where "fun2 w = signed_drop_bit 24 (push_bit 24 w)"


section \<open>Facts on truncated division\<close>

lemma sint_of_int_small:
  "- (2 ^ 31) \<le> k \<Longrightarrow> k < 2 ^ 31 \<Longrightarrow> sint (of_int k :: int32) = k"
  "- 128 \<le> k \<Longrightarrow> k < 128 \<Longrightarrow> sint (of_int k :: int8) = k"
  "- (2 ^ 63) \<le> k \<Longrightarrow> k < 2 ^ 63 \<Longrightarrow> sint (of_int k :: uint64) = k"
  by (simp_all add: signed_of_int signed_take_bit_int_eq_self)

lemma sint_bounds:
  "- (2 ^ 31) \<le> sint (x :: int32)" "sint (x :: int32) < 2 ^ 31" "- 128 \<le> sint (c :: int8)" "sint (c :: int8) < 128"
  using sint_ge[of x] sint_lt[of x] sint_ge[of c] sint_lt[of c] by simp_all

lemma smod_bound: "(b :: int) \<noteq> 0 \<Longrightarrow> \<bar>a smod b\<bar> < \<bar>b\<bar>"
  by (simp add: signed_modulo_int_def abs_mult)

lemma mult_sdiv: "(a :: int) \<noteq> 0 \<Longrightarrow> (a * b) sdiv a = b"
proof -
  assume a: "a \<noteq> 0"
  then have "(a * b) sdiv a = sgn a * sgn b * sgn a * \<bar>b\<bar>" by (simp add: signed_divide_int_def sgn_mult abs_mult)
  then show ?thesis using a by (cases "a < 0"; cases "b < 0") (auto simp: sgn_if)
qed

lemma sint_nonzero: "x \<noteq> 0 \<Longrightarrow> sint (x :: int32) \<noteq> 0"
proof
  assume "sint x = 0"
  moreover have "x = of_int (sint x)" by simp
  ultimately have "x = 0" by (simp only:) simp
  then show "x \<noteq> 0 \<Longrightarrow> False" by simp
qed

text \<open>A wrapped product divides back to the factor only if nothing was lost.\<close>

lemma wrapped_product:
  fixes a b p :: int
  assumes "a \<noteq> 0" and "\<bar>a\<bar> \<le> M" and "M dvd p - a * b"
  shows "p sdiv a = b \<longleftrightarrow> p = a * b"
proof
  assume q: "p sdiv a = b"
  have "p - a * b = p smod a" using mult_sdiv_smod_eq[of a p] by (simp add: q)
  moreover have "\<bar>p smod a\<bar> < M" using smod_bound[OF assms(1), of p] assms(2) by simp
  ultimately have "\<bar>p - a * b\<bar> < M" by simp
  moreover have "M \<le> \<bar>p - a * b\<bar>" if "p - a * b \<noteq> 0" using that assms(3) by (intro zdvd_imp_le) auto
  ultimately show "p = a * b" by linarith
qed (simp add: mult_sdiv assms(1))

lemma sint_of_int_dvd: "(2 ^ 32 :: int) dvd sint (of_int k :: int32) - k" "(2 ^ 8 :: int) dvd sint (of_int k :: int8) - k"
proof -
  have "(2 ^ n :: int) dvd signed_take_bit m k - k" if "n = Suc m" for n m
    unfolding that using take_bit_signed_take_bit[of "Suc m" m k] by (simp add: take_bit_eq_mod mod_eq_dvd_iff)
  from this[of 32 31] this[of 8 7] show "(2 ^ 32 :: int) dvd sint (of_int k :: int32) - k" "(2 ^ 8 :: int) dvd sint (of_int k :: int8) - k"
    by (simp_all add: signed_of_int)
qed

lemma word_mult_sint: "(x :: int32) * y = of_int (sint x * sint y)"
  by simp

section \<open>Overflow of products\<close>

definition fits32 :: "int \<Rightarrow> bool" where
  "fits32 k \<longleftrightarrow> - (2 ^ 31) \<le> k \<and> k < 2 ^ 31"

lemma sint_eq_fits: "sint (of_int k :: int32) = k \<longleftrightarrow> fits32 k"
  using sint_bounds(1,2)[of "of_int k"] sint_of_int_small(1)[of k] by (auto simp: fits32_def)

lemma sdiv_overflow:
  assumes "a \<noteq> 0" and "- (2 ^ 31) \<le> p" and "p < 2 ^ 31"
  shows "2 ^ 31 \<le> p sdiv (a :: int) \<longleftrightarrow> a = - 1 \<and> p = - (2 ^ 31)"
proof
  assume big: "2 ^ 31 \<le> p sdiv a"
  have "\<bar>p sdiv a\<bar> \<le> \<bar>p\<bar> div \<bar>a\<bar>" using assms(1) by (cases "p = 0") (simp_all add: signed_divide_int_def abs_mult abs_sgn_eq pos_imp_zdiv_nonneg_iff)
  then have d: "2 ^ 31 \<le> \<bar>p\<bar> div \<bar>a\<bar>" using big by linarith
  also have "\<dots> \<le> \<bar>p\<bar>" using zdiv_mono2[of "\<bar>p\<bar>" 1 "\<bar>a\<bar>"] assms(1) by simp
  finally have p: "p = - (2 ^ 31)" using assms(2,3) by linarith
  have "\<bar>a\<bar> = 1"
  proof (rule ccontr)
    assume "\<bar>a\<bar> \<noteq> 1"
    then have "2 \<le> \<bar>a\<bar>" using assms(1) by linarith
    then have "\<bar>p\<bar> div \<bar>a\<bar> \<le> \<bar>p\<bar> div 2" by (intro zdiv_mono2) auto
    then show False using d p by simp
  qed
  then show "a = - 1 \<and> p = - (2 ^ 31)" using p big by (auto simp: abs_eq_iff')
qed simp

lemma tmult_quotient:
  fixes x y :: int32
  assumes "x \<noteq> 0"
  shows "int_div (sint (x * y)) (sint x) =
    (if sint x = - 1 \<and> sint y = - (2 ^ 31) then Fault else Done (sint (x * y) sdiv sint x))"
    and "sint (x * y) sdiv sint x = sint y \<longleftrightarrow> fits32 (sint x * sint y)"
proof -
  have x: "sint x \<noteq> 0" using assms by (rule sint_nonzero)
  have "sint x = - 1 \<Longrightarrow> sint (x * y) = - (2 ^ 31) \<longleftrightarrow> sint y = - (2 ^ 31)"
  proof -
    assume m: "sint x = - 1"
    then have p: "sint (x * y) = sint (of_int (- sint y) :: int32)" by (simp only: word_mult_sint) simp
    show ?thesis
    proof (cases "sint y = - (2 ^ 31)")
      case True
      then show ?thesis unfolding p by (simp add: signed_of_int)
    next
      case False
      then have "sint (of_int (- sint y) :: int32) = - sint y"
        using sint_bounds(1,2)[of y] by (intro sint_of_int_small(1)) linarith+
      then show ?thesis unfolding p using sint_bounds(1,2)[of y] False by auto
    qed
  qed
  then show "int_div (sint (x * y)) (sint x) =
      (if sint x = - 1 \<and> sint y = - (2 ^ 31) then Fault else Done (sint (x * y) sdiv sint x))"
    using sdiv_overflow[OF x sint_bounds(1,2)[of "x * y"]] x by (auto simp: int_div_def)
  have "\<bar>sint x\<bar> \<le> 2 ^ 32" using sint_bounds(1,2)[of x] by (auto simp: abs_le_iff)
  then have "sint (x * y) sdiv sint x = sint y \<longleftrightarrow> sint (x * y) = sint x * sint y"
    unfolding word_mult_sint by (intro wrapped_product[OF x, of "2 ^ 32"] sint_of_int_dvd(1))
  also have "\<dots> \<longleftrightarrow> fits32 (sint x * sint y)" unfolding word_mult_sint by (rule sint_eq_fits)
  finally show "sint (x * y) sdiv sint x = sint y \<longleftrightarrow> fits32 (sint x * sint y)" .
qed

lemma tmult_checks:
  "tmult_ok x y = (if sint x = - 1 \<and> sint y = - (2 ^ 31) then Fault else Done (fits32 (sint x * sint y)))"
  "tmult_ovf x y = (if sint x = - 1 \<and> sint y = - (2 ^ 31) then Fault else Done (\<not> fits32 (sint x * sint y)))"
proof -
  show "tmult_ok x y = (if sint x = - 1 \<and> sint y = - (2 ^ 31) then Fault else Done (fits32 (sint x * sint y)))"
    by (cases "x = 0") (auto simp: tmult_ok_def Let_def tmult_quotient fits32_def[of 0])
  show "tmult_ovf x y = (if sint x = - 1 \<and> sint y = - (2 ^ 31) then Fault else Done (\<not> fits32 (sint x * sint y)))"
    by (cases "x = 0") (auto simp: tmult_ovf_def Let_def tmult_quotient fits32_def[of 0])
qed


lemma wide_product: "tmult_ok2 x y = fits32 (sint x * sint y)" "bad_tmult_ok x y"
proof -
  have narrow: "of_int k = (scast (ucast (of_int k :: uint64) :: int32) :: uint64) \<longleftrightarrow> fits32 k" if "\<bar>k\<bar> < 2 ^ 63" for k
  proof -
    have u: "(ucast (of_int k :: uint64) :: int32) = of_int k" by (simp add: unsigned_of_int of_int_take_bit take_bit_word_eq_self)
    have s: "sint (of_int k :: uint64) = k" using that by (intro sint_of_int_small(3)) linarith+
    have "sint (scast (of_int k :: int32) :: uint64) = sint (of_int k :: int32)" by (rule sint_up_scast) (simp add: is_up)
    then show ?thesis unfolding u using s sint_eq_fits[of k] by (metis scast_eq)
  qed
  have "\<bar>sint x\<bar> * \<bar>sint y\<bar> \<le> 2 ^ 31 * 2 ^ 31"
    using sint_bounds(1,2)[of x] sint_bounds(1,2)[of y] by (intro mult_mono) linarith+
  then have "\<bar>sint x * sint y\<bar> < 2 ^ 63" by (simp add: abs_mult)
  moreover have "scast x * scast y = (of_int (sint x * sint y) :: uint64)" by (simp only: scast_eq of_int_mult)
  ultimately show "tmult_ok2 x y = fits32 (sint x * sint y)"
    unfolding tmult_ok2_def Let_def by (simp only: narrow)
  have "\<bar>sint (x * y)\<bar> < 2 ^ 63" using sint_bounds(1,2)[of "x * y"] by (auto simp: abs_less_iff)
  moreover have "scast (x * y) = (of_int (sint (x * y)) :: uint64)" by (rule scast_eq)
  moreover have "fits32 (sint (x * y))" using sint_bounds(1,2)[of "x * y"] unfolding fits32_def by blast
  ultimately show "bad_tmult_ok x y" unfolding bad_tmult_ok_def Let_def by (simp only: narrow)
qed


text \<open>The checks for \<open>char\<close>: the wrapped product, and quotients of the limits.\<close>

lemma int_div_small: "b \<noteq> 0 \<Longrightarrow> \<bar>a\<bar> < 2 ^ 31 \<Longrightarrow> int_div a b = Done (a sdiv b)"
  using sdiv_overflow[of b a] by (auto simp: int_div_def)

lemma pos_quotient: "0 < (a :: int) \<Longrightarrow> b \<le> n div a \<longleftrightarrow> a * b \<le> n"
  by (metis mult.commute pos_imp_zdiv_nonneg_iff zdiv_mono1 nonzero_mult_div_cancel_left less_irrefl mult_le_cancel_left_pos
      order_trans pos_mod_sign mult_div_mod_eq le_add_same_cancel1)

lemma cmult_ok_test: "cmult_ok x y = Done (test_cmult_ok x y)"
proof (cases "sint x = 0")
  case False
  let ?k = "sint x * sint y"
  have "\<bar>sint x\<bar> \<le> 2 ^ 8" using sint_bounds(3,4)[of x] by (auto simp: abs_le_iff)
  then have "sint (of_int ?k :: int8) sdiv sint x = sint y \<longleftrightarrow> sint (of_int ?k :: int8) = ?k"
    by (intro wrapped_product[OF False, of "2 ^ 8"] sint_of_int_dvd(2))
  also have "\<dots> \<longleftrightarrow> test_cmult_ok x y"
    using sint_bounds(3,4)[of "of_int ?k"] sint_of_int_small(2)[of ?k] by (auto simp: test_cmult_ok_def CHAR_MIN_def CHAR_MAX_def Let_def)
  finally have q: "sint (of_int ?k :: int8) sdiv sint x = sint y \<longleftrightarrow> test_cmult_ok x y" .
  have "\<bar>sint (of_int ?k :: int8)\<bar> < 2 ^ 31" using sint_bounds(3,4)[of "of_int ?k"] by (auto simp: abs_less_iff)
  then have "int_div (sint (of_int ?k :: int8)) (sint x) = Done (sint (of_int ?k :: int8) sdiv sint x)" by (rule int_div_small[OF False])
  then show ?thesis unfolding cmult_ok_def Let_def using False by (simp only: if_False outcome.case q)
qed (simp add: cmult_ok_def test_cmult_ok_def CHAR_MIN_def CHAR_MAX_def)

lemma limit_quotients:
  fixes a b :: int
  shows "a < 0 \<Longrightarrow> b < 0 \<Longrightarrow> 127 sdiv a \<le> b \<longleftrightarrow> a * b \<le> 127" "a < 0 \<Longrightarrow> 0 < b \<Longrightarrow> b \<le> (- 128) sdiv a \<longleftrightarrow> - 128 \<le> a * b"
    "0 < a \<Longrightarrow> b < 0 \<Longrightarrow> (- 128) sdiv a \<le> b \<longleftrightarrow> - 128 \<le> a * b" "0 < a \<Longrightarrow> 0 < b \<Longrightarrow> b \<le> 127 sdiv a \<longleftrightarrow> a * b \<le> 127"
proof -
  show "127 sdiv a \<le> b \<longleftrightarrow> a * b \<le> 127" if "a < 0" "b < 0"
    using that pos_quotient[of "- a" "- b" 127] by (simp add: signed_divide_int_def minus_le_iff)
  show "b \<le> (- 128) sdiv a \<longleftrightarrow> - 128 \<le> a * b" if "a < 0" "0 < b"
    using that pos_quotient[of "- a" b 128] by (simp add: signed_divide_int_def minus_le_iff)
  show "(- 128) sdiv a \<le> b \<longleftrightarrow> - 128 \<le> a * b" if "0 < a" "b < 0"
    using that pos_quotient[of a "- b" 128] by (simp add: signed_divide_int_def minus_le_iff)
  show "b \<le> 127 sdiv a \<longleftrightarrow> a * b \<le> 127" if "0 < a" "0 < b"
    using that pos_quotient[of a b 127] by (simp add: signed_divide_int_def)
qed

lemma cmult_ok2_test: "cmult_ok2 x y = Done (test_cmult_ok x y)"
  and cmult_ok3_test: "sint y \<le> 0 \<Longrightarrow> cmult_ok3 x y = Done (test_cmult_ok x y)"
proof -
  let ?a = "sint x" and ?b = "sint y"
  have d: "?a \<noteq> 0 \<Longrightarrow> int_div CHAR_MAX ?a = Done (127 sdiv ?a)" "?a \<noteq> 0 \<Longrightarrow> int_div CHAR_MIN ?a = Done ((- 128) sdiv ?a)"
    by (simp_all add: int_div_small CHAR_MAX_def CHAR_MIN_def)
  have s: "?a < 0 \<Longrightarrow> ?b < 0 \<Longrightarrow> 0 < ?a * ?b" "?a < 0 \<Longrightarrow> 0 < ?b \<Longrightarrow> ?a * ?b < 0" "0 < ?a \<Longrightarrow> ?b < 0 \<Longrightarrow> ?a * ?b < 0" "0 < ?a \<Longrightarrow> 0 < ?b \<Longrightarrow> 0 < ?a * ?b"
    by (simp_all add: mult_neg_neg mult_neg_pos mult_pos_neg)
  note defs = cmult_ok2_def cmult_ok3_def test_cmult_ok_def Let_def CHAR_MAX_def CHAR_MIN_def
  note d = d[unfolded CHAR_MAX_def CHAR_MIN_def]
  consider "?a = 0 \<or> ?b = 0" | "?a < 0" "?b < 0" | "?a < 0" "0 < ?b" | "0 < ?a" "?b < 0" | "0 < ?a" "0 < ?b" by linarith
  then have "cmult_ok2 x y = Done (test_cmult_ok x y) \<and> (?b \<le> 0 \<longrightarrow> cmult_ok3 x y = Done (test_cmult_ok x y))"
  proof cases
    case 1
    then show ?thesis by (auto simp: defs)
  next
    case 2
    then show ?thesis using d limit_quotients(1)[OF 2] s(1) by (simp add: defs)
  next
    case 3
    then show ?thesis using d limit_quotients(2)[OF 3] s(2) by (simp add: defs)
  next
    case 4
    then show ?thesis using d limit_quotients(3)[OF 4] s(3) by (simp add: defs)
  next
    case 5
    have "- 128 \<le> ?a * ?b" using s(4)[OF 5] by linarith
    then show ?thesis using 5 d limit_quotients(4)[OF 5] by (simp add: defs)
  qed
  then show "cmult_ok2 x y = Done (test_cmult_ok x y)" "?b \<le> 0 \<Longrightarrow> cmult_ok3 x y = Done (test_cmult_ok x y)" by blast+
qed

text \<open>
  The last comparison of \<open>cmult_ok3\<close> is the wrong way round for positive \<open>y\<close>, which the pairs that
  \<open>main\<close> tests do not show.
\<close>

lemma cmult_ok3_wrong: "cmult_ok3 1 1 = Done False" "test_cmult_ok 1 1" "\<forall>(x, y)\<in>set tested_pairs. y \<le> 0"
  by (simp_all add: cmult_ok3_def test_cmult_ok_def int_div_def CHAR_MAX_def CHAR_MIN_def tested_pairs_all)

text \<open>
  C38: \<open>tmult_ok\<close> and \<open>tmult_ovf\<close> tell exactly whether the product of two \<open>int\<close>s fits into an \<open>int\<close>,
  except that the division traps for \<open>-1\<close> and the least \<open>int\<close>; \<open>tmult_ok2\<close> and \<open>tmult_ovf2\<close>, which
  multiply 64-bit values, tell it always, and \<open>bad_tmult_ok\<close>, which multiplies first, accepts
  everything. For \<open>char\<close>s the first two checks are exact and the third one for \<open>y\<close> up to 0.
\<close>

theorem product_checks:
  "(sint x \<noteq> - 1 \<or> sint y \<noteq> - (2 ^ 31) \<longrightarrow>
     tmult_ok x y = Done (fits32 (sint x * sint y)) \<and> tmult_ovf x y = Done (\<not> fits32 (sint x * sint y))) \<and>
   (sint x = - 1 \<and> sint y = - (2 ^ 31) \<longrightarrow> tmult_ok x y = Fault \<and> tmult_ovf x y = Fault) \<and>
   tmult_ok2 x y = fits32 (sint x * sint y) \<and> tmult_ovf2 x y = (\<not> fits32 (sint x * sint y)) \<and> bad_tmult_ok x y \<and>
   cmult_ok c d = Done (test_cmult_ok c d) \<and> cmult_ok2 c d = Done (test_cmult_ok c d) \<and>
   (sint d \<le> 0 \<longrightarrow> cmult_ok3 c d = Done (test_cmult_ok c d))"
proof -
  have "tmult_ovf2 x y = (\<not> tmult_ok2 x y)" by (simp add: tmult_ovf2_def tmult_ok2_def Let_def)
  then show ?thesis using tmult_checks[of x y] wide_product[of x y] cmult_ok_test[of c d] cmult_ok2_test[of c d] cmult_ok3_test[of d c]
    by simp
qed

theorem product_checks_witness:
  "tmult_ok 65536 32768 = Done False \<and> tmult_ok 65536 32767 = Done True \<and> tmult_ok (- 1) 0x80000000 = Fault \<and> cmult_ok3 3 (- 43) = Done False"
proof -
  have "sint (65536 :: int32) = 65536" "sint (32768 :: int32) = 32768" "sint (32767 :: int32) = 32767" "sint (- 1 :: int32) = - 1"
    "sint (0x80000000 :: int32) = - (2 ^ 31)" "sint (3 :: int8) = 3" "sint (- 43 :: int8) = - 43" by simp_all
  then show ?thesis
    using product_checks[of 65536 32768 3 "- 43"] product_checks[of 65536 32767 3 3] product_checks[of "- 1" "0x80000000" 3 3]
    by (simp add: fits32_def test_cmult_ok_def CHAR_MIN_def del: of_int_numeral)
qed

section \<open>Overflow of sums\<close>

lemma uadd_checks: "uadd_ok x y = test_uadd_ok x y" "uadd_ovf x y = test_uadd_ovf x y"
proof -
  have u: "uint (ucast z :: uint64) = uint z" for z :: uint32 by (rule uint_up_ucast) (simp add: is_up)
  have "uint x + uint y < 2 ^ 64" using uint_lt2p[of x] uint_lt2p[of y] by simp
  then have "uint (ucast x + ucast y :: uint64) = uint x + uint y" unfolding uint_plus_if' u by simp
  moreover note u[of "x + y"]
  ultimately have "(ucast x + ucast y :: uint64) = ucast (x + y) \<longleftrightarrow> x \<le> x + y"
    unfolding word_uint_eq_iff uint_plus_simple_iff by auto
  then show "uadd_ok x y = test_uadd_ok x y" "uadd_ovf x y = test_uadd_ovf x y"
    by (auto simp: uadd_ok_def test_uadd_ok_def uadd_ovf_def test_uadd_ovf_def Let_def not_le)
qed

lemma uadd_ok_exact: "uadd_ok x y = c_bool (uint x + uint y < 2 ^ 32)"
  by (simp add: uadd_ok_def Let_def no_olen_add)

section \<open>Quotients\<close>

lemma sint_add_small:
  "- (2 ^ 31) \<le> sint (x :: int32) + k \<Longrightarrow> sint x + k < 2 ^ 31 \<Longrightarrow> sint (x + of_int k) = sint x + k"
  using sint_of_int_small(1)[of "sint x + k"] by simp

lemma round_to_zero: "(a :: int) < 0 \<Longrightarrow> 0 < m \<Longrightarrow> (a + m - 1) div m = a sdiv m"
proof -
  assume a: "a < 0" "0 < m"
  then have s: "a sdiv m = - ((- a) div m)" by (simp add: signed_divide_int_def)
  have "(a + m - 1) div m = - ((- a) div m)"
    using pos_mod_bound[OF a(2), of "- a"] pos_mod_sign[OF a(2), of "- a"]
    by (intro int_div_pos_eq[where r = "m - 1 - (- a) mod m"]) (simp_all add: minus_mod_eq_mult_div[symmetric] algebra_simps)
  with s show ?thesis by simp
qed

lemma sless_0_sint: "(x :: int32) <s 0 \<longleftrightarrow> sint x < 0"
  by (simp add: word_sless_alt)

lemma div2k_quotient:
  assumes "k < 31"
  shows "sint (div2k x k) = sint x sdiv 2 ^ k"
proof (cases "sint x < 0")
  case True
  have k: "(2 :: int) ^ k \<le> 2 ^ 30" using assms by (intro power_increasing) auto
  have k1: "0 < (2 :: int) ^ k" by simp
  have p: "push_bit k 1 = (of_int (2 ^ k) :: int32)" by (simp add: push_bit_of_1)
  have lo: "- (2 ^ 31) \<le> sint x + (2 ^ k - 1)" using sint_bounds(1)[of x] k1 by linarith
  have hi: "sint x + (2 ^ k - 1) < 2 ^ 31" using True k by simp
  have "sint (x + of_int (2 ^ k - 1)) = sint x + (2 ^ k - 1)" by (rule sint_add_small[OF lo hi])
  then have "sint (x + push_bit k 1 - 1) = sint x + 2 ^ k - 1" unfolding p by (simp add: algebra_simps)
  then show ?thesis using True round_to_zero[of "sint x" "2 ^ k"]
    by (simp add: div2k_def sless_0_sint sint_signed_drop_bit_eq drop_bit_eq_div)
next
  case False
  then show ?thesis by (simp add: div2k_def sless_0_sint sint_signed_drop_bit_eq drop_bit_eq_div signed_divide_int_def sgn_if)
qed

lemma div_by_shift: "div8 x = div2k x 3" "div16 x = div2k x 4"
  by (simp_all add: div8_def div16_def div2k_def sign_spread Let_def push_bit_of_1 algebra_simps)

lemma c_div32_shift: "k < 31 \<Longrightarrow> c_div32 x (2 ^ k) = div2k x k"
  unfolding c_div32_def by (simp add: div2k_quotient[symmetric])

text \<open>
  The shifts with a bias are the C division by 8, 16 and every \<open>2 ^ k\<close> for \<open>k < 31\<close>, which
  rounds towards zero, for negative numbers too; and the hand-translated assembly code computes
  \<open>x * 31 + y / 8\<close> and \<open>x * 15 + y / 4\<close> modulo \<open>2 ^ 32\<close>.
\<close>

theorem shift_divisions:
  assumes "k < 31"
  shows "sint (div8 x) = sint x sdiv 8 \<and> sint (div16 x) = sint x sdiv 16 \<and> sint (div2k x k) = sint x sdiv 2 ^ k \<and>
    optarith x y = arith x y \<and> optarithb x y = arithb x y"
  using div2k_quotient[OF assms] div2k_quotient[of 3] div2k_quotient[of 4] c_div32_shift[of 3 y] c_div32_shift[of 2 y]
  by (simp add: div_by_shift optarith_def optarithb_def arith_def arithb_def div2k_def Let_def push_bit_of_1 push_bit_eq_mult algebra_simps)

theorem shift_divisions_witness: "sint (div8 (- 17)) = - 2 \<and> sint (div2k (- 17) 2) = - 4"
  using shift_divisions[of 2 "- 17" 0] by (simp add: signed_divide_int_def)

section \<open>Boolean functions and extension\<close>

lemma bool_functions: "bool_or x y = x OR y" "bool_xor x y = x XOR y"
  by (auto simp: bool_or_def bool_xor_def bis_def bic_def Let_def intro!: bit_eqI) (auto simp: bit_simps)

text \<open>\<open>fun1\<close> keeps the low byte as an unsigned number, \<open>fun2\<close> as a signed one.\<close>

lemma byte_functions: "uint (fun1 w) = uint w mod 256" "sint (fun2 w) = signed_take_bit 7 (uint w)"
proof -
  have "fun1 w = take_bit 8 w" by (rule bit_word_eqI) (auto simp: fun1_def bit_simps)
  then show "uint (fun1 w) = uint w mod 256" by (simp add: take_bit_eq_mod uint_word_ariths uint_mod)
  have "fun2 w = signed_take_bit 7 w" 
  proof (rule bit_word_eqI)
    fix n assume "n < LENGTH(32)"
    moreover have "n = 7" if "7 \<le> n" "\<not> 8 \<le> n" using that by simp
    ultimately show "bit (fun2 w) n \<longleftrightarrow> bit (signed_take_bit 7 w) n" by (cases "n \<le> 7") (auto simp: fun2_def bit_simps min_def)
  qed
  then show "sint (fun2 w) = signed_take_bit 7 (uint w)"
    by (intro bit_eqI) (auto simp: bit_sint_iff bit_uint_iff bit_signed_take_bit_iff bit_simps min_def)
qed

end
