(* ===== verification/Pitfalls.thy ===== *)
theory Pitfalls
  imports CString
begin

text \<open>
  Programs of \<open>csapp-master/data\<close> and \<open>csapp-master/opt\<close> about what goes wrong with sizes and with
  pointers to the same place: \<open>vulnerabilities.c\<close>, \<open>bad-sum.c\<close>, \<open>strlonger.c\<close>, \<open>inplace-swap.c\<close>,
  \<open>swap.c\<close> and \<open>twiddle.c\<close>, and the hex dump of \<open>show-bytes.c\<close>. A pointer is an index into the
  array it points into; an access outside the array is \<open>Fault\<close>.
\<close>

section \<open>Sizes\<close>

text \<open>
  A value of \<open>size_t\<close> is a number below \<open>2 ^ w\<close>, where \<open>w\<close> is 32 or 64 as the machine has it; an
  \<open>int\<close> that is used as one is converted modulo \<open>2 ^ w\<close>.
\<close>

definition to_size :: "nat \<Rightarrow> int \<Rightarrow> nat" where
  "to_size w k = nat (k mod 2 ^ w)"

text \<open>\<open>memcpy\<close> of \<open>n\<close> bytes to offset \<open>off\<close> of an object.\<close>

definition copy_bytes :: "'a list \<Rightarrow> nat \<Rightarrow> 'a list \<Rightarrow> nat \<Rightarrow> 'a list outcome" where
  "copy_bytes dst off src n =
     (if length dst < off + n \<or> length src < n then Fault
      else Done (take off dst @ take n src @ drop (off + n) dst))"

definition KSIZE :: int where "KSIZE = 1024"

definition copy_from_kernel :: "nat \<Rightarrow> 'a list \<Rightarrow> 'a list \<Rightarrow> int32 \<Rightarrow> ('a list \<times> int) outcome" where
  "copy_from_kernel w kbuf user_dest maxlen =
     (let len = (if KSIZE < sint maxlen then KSIZE else sint maxlen) in
      case copy_bytes user_dest 0 kbuf (to_size w len) of Fault \<Rightarrow> Fault | Done dst \<Rightarrow> Done (dst, len))"

text \<open>
  \<open>malloc\<close> is a parameter: the block it gives for a size, or \<open>None\<close>. The loop copies element \<open>i\<close> to
  offset \<open>next\<close>.
\<close>

function copy_loop :: "nat \<Rightarrow> 'a list list \<Rightarrow> int \<Rightarrow> nat \<Rightarrow> int \<Rightarrow> nat \<Rightarrow> 'a list \<Rightarrow> 'a list option outcome" where
  "copy_loop w src ele_cnt ele_size i nxt res =
     (if i < ele_cnt
      then if length src \<le> nat i then Fault
           else case copy_bytes res nxt (src ! nat i) ele_size of
                  Fault \<Rightarrow> Fault
                | Done res \<Rightarrow> copy_loop w src ele_cnt ele_size (i + 1) (nxt + ele_size) res
      else Done (Some res))"
  by pat_completeness auto
termination by (relation "measure (\<lambda>(w, src, cnt, sz, i, nxt, res). nat (cnt - i))") auto

declare copy_loop.simps [simp del]

definition copy_elements :: "nat \<Rightarrow> (nat \<Rightarrow> 'a list option) \<Rightarrow> 'a list list \<Rightarrow> int32 \<Rightarrow> nat \<Rightarrow> 'a list option outcome" where
  "copy_elements w malloc ele_src ele_cnt ele_size =
     (case malloc (to_size w (sint ele_cnt * int ele_size)) of
        None \<Rightarrow> Done None
      | Some res \<Rightarrow> copy_loop w ele_src (sint ele_cnt) ele_size 0 0 res)"

definition not_safe_copy_elements :: "nat \<Rightarrow> (nat \<Rightarrow> 'a list option) \<Rightarrow> 'a list list \<Rightarrow> int32 \<Rightarrow> nat \<Rightarrow> 'a list option outcome" where
  "not_safe_copy_elements w malloc ele_src ele_cnt ele_size =
     (let asize = to_size 64 (sint ele_cnt * int ele_size) in
      case malloc (to_size w (int asize)) of
        None \<Rightarrow> Done None
      | Some res \<Rightarrow> copy_loop w ele_src (sint ele_cnt) ele_size 0 0 res)"

definition safe_copy_elements :: "nat \<Rightarrow> (nat \<Rightarrow> 'a list option) \<Rightarrow> 'a list list \<Rightarrow> int32 \<Rightarrow> nat \<Rightarrow> 'a list option outcome" where
  "safe_copy_elements w malloc ele_src ele_cnt ele_size =
     (let required_size = to_size 64 (sint ele_cnt * int ele_size);
          request_size = to_size w (int required_size)
      in if required_size \<noteq> request_size then Done None
         else case malloc request_size of
                None \<Rightarrow> Done None
              | Some res \<Rightarrow> copy_loop w ele_src (sint ele_cnt) ele_size 0 0 res)"

section \<open>Unsigned comparisons\<close>

text \<open>\<open>sum_elements\<close> over any addition; \<open>length - 1\<close> is computed in \<open>unsigned\<close>.\<close>

function sum_el_loop :: "('a \<Rightarrow> 'a \<Rightarrow> 'a) \<Rightarrow> 'a list \<Rightarrow> nat \<Rightarrow> nat \<Rightarrow> 'a \<Rightarrow> 'a outcome" where
  "sum_el_loop add a lst i result =
     (if i \<le> lst then if i < length a then sum_el_loop add a lst (i + 1) (add result (a ! i)) else Fault
      else Done result)"
  by pat_completeness auto
termination by (relation "measure (\<lambda>(add, a, lst, i, result). length a - i)") auto

declare sum_el_loop.simps [simp del]

definition sum_elements :: "('a \<Rightarrow> 'a \<Rightarrow> 'a) \<Rightarrow> 'a \<Rightarrow> 'a list \<Rightarrow> uint32 \<Rightarrow> 'a outcome" where
  "sum_elements add zero a len = sum_el_loop add a (unat (len - 1)) 0 zero"

definition strlen_size :: "string \<Rightarrow> uint64" where
  "strlen_size s = of_nat (length s)"

definition strlonger :: "string \<Rightarrow> string \<Rightarrow> int32" where
  "strlonger s t = c_bool (strlen_size s - strlen_size t > 0)"

definition strlonger2 :: "string \<Rightarrow> string \<Rightarrow> int32" where
  "strlonger2 s t = c_bool (strlen_size s > strlen_size t)"

definition strshorter :: "string \<Rightarrow> string \<Rightarrow> int32" where
  "strshorter s t = c_bool (strlen_size s - strlen_size t < 0)"

definition strshorter2 :: "string \<Rightarrow> string \<Rightarrow> int32" where
  "strshorter2 s t = c_bool (strlen_size s < strlen_size t)"

section \<open>Pointers to the same place\<close>

definition inplace_swap :: "nat \<Rightarrow> nat \<Rightarrow> int32 list \<Rightarrow> int32 list" where
  "inplace_swap x y m =
     (let m = m[y := m ! x XOR m ! y];
          m = m[x := m ! x XOR m ! y];
          m = m[y := m ! x XOR m ! y]
      in m)"

definition inplace_swap_b :: "nat \<Rightarrow> nat \<Rightarrow> int32 list \<Rightarrow> int32 list" where
  "inplace_swap_b x y m =
     (let m = m[x := m ! x XOR m ! y];
          m = m[y := m ! x XOR m ! y];
          m = m[x := m ! x XOR m ! y]
      in m)"

function reverse_loop :: "int \<Rightarrow> int \<Rightarrow> int32 list \<Rightarrow> int32 list outcome" where
  "reverse_loop f l a =
     (if f \<le> l
      then if 0 \<le> f \<and> nat l < length a then reverse_loop (f + 1) (l - 1) (inplace_swap (nat f) (nat l) a)
           else Fault
      else Done a)"
  by pat_completeness auto
termination by (relation "measure (\<lambda>(f, l, a). nat (l + 1 - f))") auto

declare reverse_loop.simps [simp del]

definition reverse_array :: "int32 list \<Rightarrow> int \<Rightarrow> int32 list outcome" where
  "reverse_array a cnt = reverse_loop 0 (cnt - 1) a"

function fix_reverse_loop :: "int \<Rightarrow> int \<Rightarrow> int32 list \<Rightarrow> int32 list outcome" where
  "fix_reverse_loop f l a =
     (if f < l
      then if 0 \<le> f \<and> nat l < length a then fix_reverse_loop (f + 1) (l - 1) (inplace_swap (nat f) (nat l) a)
           else Fault
      else Done a)"
  by pat_completeness auto
termination by (relation "measure (\<lambda>(f, l, a). nat (l + 1 - f))") auto

declare fix_reverse_loop.simps [simp del]

definition fix_reverse_array :: "int32 list \<Rightarrow> int \<Rightarrow> int32 list outcome" where
  "fix_reverse_array a cnt = fix_reverse_loop 0 (cnt - 1) a"

definition swap :: "nat \<Rightarrow> nat \<Rightarrow> uint64 list \<Rightarrow> uint64 list" where
  "swap xp yp m =
     (let m = m[xp := m ! xp + m ! yp];
          m = m[yp := m ! xp - m ! yp];
          m = m[xp := m ! xp - m ! yp]
      in m)"

definition swap_alias :: "nat \<Rightarrow> nat \<Rightarrow> uint64 list \<Rightarrow> uint64 list" where
  "swap_alias xp yp m =
     (let m = m[xp := m ! xp + m ! xp];
          m = m[xp := m ! xp - m ! xp];
          m = m[xp := m ! xp - m ! xp]
      in m)"

definition twiddle1 :: "nat \<Rightarrow> nat \<Rightarrow> uint64 list \<Rightarrow> uint64 list" where
  "twiddle1 xp yp m = (let m = m[xp := m ! xp + m ! yp]; m = m[xp := m ! xp + m ! yp] in m)"

definition twiddle2 :: "nat \<Rightarrow> nat \<Rightarrow> uint64 list \<Rightarrow> uint64 list" where
  "twiddle2 xp yp m = (let m = m[xp := m ! xp + 2 * m ! yp] in m)"

definition twiddle1x :: "nat \<Rightarrow> uint64 list \<Rightarrow> uint64 list" where
  "twiddle1x xp m = (let m = m[xp := m ! xp + m ! xp]; m = m[xp := m ! xp + m ! xp] in m)"

definition twiddle2x :: "nat \<Rightarrow> uint64 list \<Rightarrow> uint64 list" where
  "twiddle2x xp m = (let m = m[xp := m ! xp + 2 * m ! xp] in m)"

definition multipointers :: "nat \<Rightarrow> nat \<Rightarrow> uint64 list \<Rightarrow> uint64 list" where
  "multipointers p q m =
     (let x = 1000; y = 3000; m = m[q := y]; m = m[p := x]; t1 = m ! q; m = m[q := m ! q + t1] in m)"

section \<open>The bytes of an object\<close>

definition hex_digit :: "nat \<Rightarrow> char" where
  "hex_digit d = ''0123456789abcdef'' ! d"

text \<open>\<open>printf\<close> with \<open> %.2x\<close>, and the little-endian bytes of an object of \<open>n\<close> bytes.\<close>

definition print_byte :: "nat \<Rightarrow> string" where
  "print_byte b = [CHR '' '', hex_digit (b div 16), hex_digit (b mod 16)]"

definition show_bytes :: "nat list \<Rightarrow> nat \<Rightarrow> string" where
  "show_bytes start len = for_loop 0 len (\<lambda>i out. out @ print_byte (start ! i)) [] @ [CHR 0x0A]"

definition object_bytes :: "nat \<Rightarrow> nat \<Rightarrow> nat list" where
  "object_bytes n v = map (\<lambda>i. v div 256 ^ i mod 256) [0..<n]"

definition show_int :: "int32 \<Rightarrow> string" where
  "show_int x = show_bytes (object_bytes 4 (unat x)) 4"

section \<open>Copies of a computed size\<close>

lemma copy_bytes_Done:
  "off + n \<le> length dst \<Longrightarrow> n \<le> length src \<Longrightarrow> copy_bytes dst off src n = Done (take off dst @ take n src @ drop (off + n) dst)"
  by (simp add: copy_bytes_def)

lemma copy_bytes_length: "copy_bytes dst off src n = Done r \<Longrightarrow> length r = length dst"
  by (auto simp: copy_bytes_def split: if_splits)

lemma copy_loop_fits:
  assumes "0 \<le> i" "i \<le> cnt" "nat cnt \<le> length src" "\<forall>s\<in>set src. sz \<le> length s" "nxt = nat i * sz" "nat cnt * sz \<le> length res"
  shows "copy_loop w src cnt sz i nxt res =
    Done (Some (take nxt res @ concat (map (take sz) (drop (nat i) (take (nat cnt) src))) @ drop (nat cnt * sz) res))"
  using assms
proof (induction w src cnt sz i nxt res rule: copy_loop.induct)
  case (1 w src cnt sz i nxt res)
  show ?case
  proof (cases "i < cnt")
    case True
    let ?n = "nat i"
    have i: "?n < length src" "?n < nat cnt" and suc: "nat (i + 1) = Suc ?n" using 1 True by auto
    have "Suc ?n * sz \<le> nat cnt * sz" by (rule mult_le_mono1[OF Suc_leI[OF i(2)]])
    then have fits: "nxt + sz \<le> length res" using 1 by simp
    moreover have sz: "sz \<le> length (src ! ?n)" using 1 i(1) by simp
    ultimately have m: "copy_bytes res nxt (src ! ?n) sz = Done (take nxt res @ take sz (src ! ?n) @ drop (nxt + sz) res)" (is "_ = Done ?r")
      by (rule copy_bytes_Done)
    have len: "length ?r = length res" using copy_bytes_length[OF m] .
    have d: "drop ?n (take (nat cnt) src) = src ! ?n # drop (Suc ?n) (take (nat cnt) src)"
      using i by (subst Cons_nth_drop_Suc[symmetric]) simp_all
    have "copy_loop w src cnt sz (i + 1) (nxt + sz) ?r = Done (Some (take (nxt + sz) ?r @
        concat (map (take sz) (drop (nat (i + 1)) (take (nat cnt) src))) @ drop (nat cnt * sz) ?r))"
    proof (rule 1(1)[OF True _ m])
      show "\<not> length src \<le> nat i" using i(1) by simp
      show "nat cnt * sz \<le> length ?r" unfolding len by (rule 1(7))
      show "0 \<le> i + 1" "i + 1 \<le> cnt" using 1(2) True by simp_all
      show "nxt + sz = nat (i + 1) * sz" unfolding suc by (simp add: 1(6))
    qed (rule 1(4), rule 1(5))
    moreover have "take (nxt + sz) ?r = take nxt res @ take sz (src ! ?n)" using fits sz by simp
    moreover have "drop (nat cnt * sz) ?r = drop (nat cnt * sz) res"
      using \<open>Suc ?n * sz \<le> nat cnt * sz\<close> fits sz i(2) unfolding 1(6) by (simp add: less_imp_le)
    ultimately show ?thesis using True i(1) m by (subst copy_loop.simps) (simp add: d suc)
  qed (use 1 in \<open>subst copy_loop.simps, simp\<close>)
qed

lemma copy_loop_overflows:
  "0 \<le> i \<Longrightarrow> i < cnt \<Longrightarrow> nxt = nat i * sz \<Longrightarrow> length res < nat cnt * sz \<Longrightarrow> copy_loop w src cnt sz i nxt res = Fault"
proof (induction w src cnt sz i nxt res rule: copy_loop.induct)
  case (1 w src cnt sz i nxt res)
  show ?case
  proof (cases "nat i < length src")
    case True
    show ?thesis
    proof (cases "copy_bytes res nxt (src ! nat i) sz")
      case (Done r)
      have suc: "nat (i + 1) = Suc (nat i)" using 1(2) by simp
      have "nxt + sz \<le> length res" using Done by (simp add: copy_bytes_def split: if_splits)
      then have "Suc (nat i) * sz < nat cnt * sz" using 1 by simp
      then have "Suc (nat i) < nat cnt" by (simp only: mult_less_cancel2)
      then have "i + 1 < cnt" using 1(2) by simp
      then show ?thesis using 1 True Done copy_bytes_length[OF Done] suc by (subst copy_loop.simps) simp
    qed (use 1 True in \<open>subst copy_loop.simps, simp\<close>)
  qed (use 1 in \<open>subst copy_loop.simps, simp\<close>)
qed

lemma to_size_id: "0 \<le> k \<Longrightarrow> k < 2 ^ w \<Longrightarrow> to_size w k = nat k"
  by (simp add: to_size_def)

lemma to_size_le: "0 \<le> k \<Longrightarrow> to_size w k \<le> nat k"
  by (simp add: to_size_def zmod_le_nonneg_dividend nat_mono)

lemma to_size_less: "2 ^ w \<le> k \<Longrightarrow> to_size w k < nat k"
proof -
  assume k: "2 ^ w \<le> k"
  moreover have "k mod 2 ^ w < (2 :: int) ^ w" by simp
  ultimately have "k mod 2 ^ w < k" by linarith
  moreover have "0 < k" using k by (rule less_le_trans[rotated]) simp
  ultimately show ?thesis by (simp add: to_size_def)
qed

lemma to_size_narrow: "w \<le> v \<Longrightarrow> to_size w (int (to_size v k)) = to_size w k"
  by (simp add: to_size_def mod_mod_cancel le_imp_power_dvd)

lemma not_safe_is_unsafe: "w \<le> 64 \<Longrightarrow> not_safe_copy_elements w malloc src cnt sz = copy_elements w malloc src cnt sz"
  by (simp add: not_safe_copy_elements_def copy_elements_def to_size_narrow Let_def)

lemma safe_64: "safe_copy_elements 64 malloc src cnt sz = copy_elements 64 malloc src cnt sz"
  by (simp add: safe_copy_elements_def copy_elements_def to_size_narrow Let_def)

lemma safe_32:
  assumes "0 \<le> sint cnt" and "sz < 2 ^ 32"
  shows "safe_copy_elements 32 malloc src cnt sz =
    (if sint cnt * int sz < 2 ^ 32 then copy_elements 32 malloc src cnt sz else Done None)"
proof -
  let ?k = "sint cnt * int sz"
  have "sint cnt \<le> 2 ^ 31" using sint_lt[of cnt] by simp
  then have "?k \<le> 2 ^ 31 * 2 ^ 32" using assms by (intro mult_mono) auto
  then have r: "to_size 64 ?k = nat ?k" using assms(1) by (intro to_size_id) auto
  show ?thesis
  proof (cases "?k < 2 ^ 32")
    case True
    then have "to_size 32 ?k = nat ?k" using assms(1) by (intro to_size_id) auto
    then show ?thesis using True assms(1) r by (simp add: safe_copy_elements_def copy_elements_def Let_def)
  next
    case False
    then have "to_size 32 ?k < nat ?k" by (intro to_size_less) simp
    moreover have "int (nat ?k) = ?k" using assms(1) by simp
    ultimately show ?thesis using False by (simp only: safe_copy_elements_def Let_def r if_False) simp
  qed
qed

text \<open>
  C35: when \<open>malloc\<close> gives a block of the size it is asked for, \<open>copy_elements\<close> returns the elements
  one after the other if the product of count and size fits into \<open>size_t\<close>, and writes past the end
  of the block if it does not; computing the product in 64 bits before \<open>malloc\<close> truncates it changes
  nothing; \<open>safe_copy_elements\<close> refuses such a product where \<open>size_t\<close> has 32 bits, and is as unsafe
  as the first version where it has 64.
\<close>

theorem copy_elements_overflow:
  assumes "\<And>n b. malloc n = Some b \<Longrightarrow> length b = n" and "w = 32 \<or> w = 64" and "sz < 2 ^ w"
    and "0 \<le> sint cnt" and "sint cnt \<le> int (length src)" and "\<forall>s\<in>set src. sz \<le> length s"
  shows "copy_elements w malloc src cnt sz =
     (case malloc (to_size w (sint cnt * int sz)) of
        None \<Rightarrow> Done None
      | Some res \<Rightarrow> if sint cnt * int sz < 2 ^ w then Done (Some (concat (map (take sz) (take (nat (sint cnt)) src)))) else Fault) \<and>
    not_safe_copy_elements w malloc src cnt sz = copy_elements w malloc src cnt sz \<and>
    safe_copy_elements w malloc src cnt sz =
     (if w = 64 \<or> sint cnt * int sz < 2 ^ w then copy_elements w malloc src cnt sz else Done None)"
proof -
  let ?k = "sint cnt * int sz" and ?c = "nat (sint cnt)"
  have k: "0 \<le> ?k" "nat ?k = ?c * sz" using assms(4) by (simp_all add: nat_mult_distrib)
  have "copy_loop w src (sint cnt) sz 0 0 res =
      (if ?k < 2 ^ w then Done (Some (concat (map (take sz) (take ?c src)))) else Fault)" if m: "malloc (to_size w ?k) = Some res" for res
  proof (cases "?k < 2 ^ w")
    case True
    then have "length res = ?c * sz" using assms(1)[OF m] to_size_id[OF k(1) True] k(2) by simp
    then show ?thesis using True assms(4-6) by (subst copy_loop_fits) auto
  next
    case False
    then have big: "length res < ?c * sz" using assms(1)[OF m] to_size_less[of w ?k] k(2) by simp
    then have "0 < sint cnt" by (cases "sint cnt \<le> 0") auto
    then show ?thesis using False big by (simp add: copy_loop_overflows)
  qed
  then show ?thesis using assms(2-4) not_safe_is_unsafe[of w malloc src cnt sz] safe_64[of malloc src cnt sz] safe_32[of cnt sz malloc src]
    by (auto simp: copy_elements_def split: option.split)
qed

text \<open>Two elements of one byte.\<close>

theorem copy_elements_overflow_witness:
  "safe_copy_elements 32 (\<lambda>n. if n < 10 then Some (replicate n (0 :: nat)) else None) [[7], [8, 9]] 2 1 = Done (Some [7, 8])"
proof -
  let ?m = "\<lambda>n. if n < 10 then Some (replicate n (0 :: nat)) else None"
  have law: "\<And>n b. ?m n = Some b \<Longrightarrow> length b = n" by (auto split: if_splits)
  show ?thesis using copy_elements_overflow[of ?m 32 1 2 "[[7], [8, 9]]", OF law] by (simp add: to_size_def)
qed

lemma copy_from_kernel_cases:
  assumes "w = 32 \<or> w = 64" and "length kbuf = 1024" and "1024 \<le> length dst"
  shows "copy_from_kernel w kbuf dst maxlen =
    (if sint maxlen < 0 then Fault
     else let n = min 1024 (nat (sint maxlen)) in Done (take n kbuf @ drop n dst, int n))"
proof (cases "sint maxlen < 0")
  case True
  have "- (2 ^ 31) \<le> sint maxlen" using sint_ge[of maxlen] by simp
  then have "1024 < sint maxlen + 2 ^ w" using assms(1) by auto
  moreover have "sint maxlen mod 2 ^ w = (sint maxlen + 2 ^ w) mod 2 ^ w" by simp
  moreover have "(sint maxlen + 2 ^ w) mod 2 ^ w = sint maxlen + 2 ^ w" using True calculation(1) by (intro mod_pos_pos_trivial) auto
  ultimately have "1024 < to_size w (sint maxlen)" by (simp add: to_size_def)
  then show ?thesis using True assms(2) by (simp add: copy_from_kernel_def KSIZE_def copy_bytes_def Let_def)
next
  case False
  let ?n = "min 1024 (nat (sint maxlen))"
  have l: "(if 1024 < sint maxlen then 1024 else sint maxlen) = int ?n" using False by auto
  have "to_size w (int ?n) = ?n" using assms(1) by (subst to_size_id) auto
  moreover have "copy_bytes dst 0 kbuf ?n = Done (take ?n kbuf @ drop ?n dst)" using assms(2,3) by (subst copy_bytes_Done) auto
  ultimately show ?thesis using False unfolding copy_from_kernel_def KSIZE_def Let_def l by simp
qed

section \<open>Results of the unsigned comparisons\<close>

lemma sum_el_loop_returns:
  "l < length a \<Longrightarrow> i \<le> Suc l \<Longrightarrow> sum_el_loop add a l i r = Done (foldl add r (drop i (take (Suc l) a)))"
proof (induction add a l i r rule: sum_el_loop.induct)
  case (1 add a l i r)
  show ?case
  proof (cases "i \<le> l")
    case True
    then have "drop i (take (Suc l) a) = a ! i # drop (i + 1) (take (Suc l) a)"
      using 1(2) by (subst Cons_nth_drop_Suc[symmetric]) simp_all
    then show ?thesis using 1 True by (subst sum_el_loop.simps) simp
  qed (use 1 in \<open>subst sum_el_loop.simps, simp\<close>)
qed

lemma sum_el_loop_runs_off: "length a \<le> l \<Longrightarrow> i \<le> length a \<Longrightarrow> sum_el_loop add a l i r = Fault"
proof (induction add a l i r rule: sum_el_loop.induct)
  case (1 add a l i r)
  show ?case
  proof (cases "i < length a")
    case True
    then show ?thesis using 1(1)[OF _ True] 1(2,3) by (subst sum_el_loop.simps) simp
  qed (use 1 in \<open>subst sum_el_loop.simps, auto\<close>)
qed

lemma unat_minus_1: "0 < (n :: uint32) \<Longrightarrow> unat (n - 1) = unat n - 1"
  by (simp add: unat_minus_one)

lemma sum_elements_cases:
  assumes "unat len \<le> length a" and "length a < 2 ^ 32 - 1"
  shows "sum_elements add zero a len = (if len = 0 then Fault else Done (foldl add zero (take (unat len) a)))"
proof (cases "len = 0")
  case True
  have "unat (- 1 :: uint32) = 2 ^ 32 - 1" by (simp add: unsigned_minus_1_eq_mask mask_eq_exp_minus_1)
  then show ?thesis using True assms(2) by (simp add: sum_elements_def sum_el_loop_runs_off)
next
  case False
  then have u: "unat (len - 1) = unat len - 1" "0 < unat len" by (simp_all add: unat_minus_1 word_neq_0_conv unat_gt_0)
  then show ?thesis using False assms(1) by (simp add: sum_elements_def sum_el_loop_returns)
qed

lemma string_comparisons:
  assumes "length s < 2 ^ 64" and "length t < 2 ^ 64"
  shows "strlonger s t = c_bool (length s \<noteq> length t)" "strlonger2 s t = c_bool (length s > length t)"
    "strshorter s t = 0" "strshorter2 s t = c_bool (length s < length t)"
proof -
  have u: "unat (strlen_size s) = length s" "unat (strlen_size t) = length t"
    using assms by (simp_all add: strlen_size_def unat_of_nat take_bit_nat_eq_self_iff)
  have "strlen_size s = strlen_size t \<longleftrightarrow> length s = length t" using u by (metis word_unat_eq_iff)
  then show "strlonger s t = c_bool (length s \<noteq> length t)" by (simp add: strlonger_def word_neq_0_conv[symmetric])
  show "strlonger2 s t = c_bool (length s > length t)" "strshorter2 s t = c_bool (length s < length t)"
    by (simp_all add: strlonger2_def strshorter2_def word_less_nat_alt u)
  show "strshorter s t = 0" by (simp add: strshorter_def)
qed

section \<open>Results of the exchanges\<close>

lemma xor_cancel: "(a XOR b) XOR a = (b :: 'a::len word)" "(a XOR b) XOR b = a" "a XOR (a XOR b) = b" "a XOR (b XOR a) = b"
  by (simp_all add: xor.assoc xor.left_commute xor.commute)

lemma inplace_swap_spec:
  assumes "x < length m" and "y < length m"
  shows "inplace_swap x y m = (if x = y then m[x := 0] else m[x := m ! y, y := m ! x])" (is ?a)
    and "inplace_swap_b x y m = (if x = y then m[x := 0] else m[x := m ! y, y := m ! x])" (is ?b)
proof -
  show ?a by (rule nth_equalityI) (use assms in \<open>auto simp: inplace_swap_def Let_def nth_list_update xor_cancel xor.commute\<close>)
  show ?b by (rule nth_equalityI) (use assms in \<open>auto simp: inplace_swap_b_def Let_def nth_list_update xor_cancel xor.commute\<close>)
qed

lemma swap_spec:
  assumes "x < length m" and "y < length m"
  shows "swap x y m = (if x = y then m[x := 0] else m[x := m ! y, y := m ! x])" and "swap x x m = swap_alias x y m"
proof -
  show "swap x y m = (if x = y then m[x := 0] else m[x := m ! y, y := m ! x])"
    by (rule nth_equalityI) (use assms in \<open>auto simp: swap_def Let_def nth_list_update\<close>)
qed (simp add: swap_def swap_alias_def)

lemma twiddles:
  assumes "x < length m" and "y < length m"
  shows "x \<noteq> y \<Longrightarrow> twiddle1 x y m = twiddle2 x y m"
    and "twiddle1 x x m = m[x := 4 * m ! x]" "twiddle2 x x m = m[x := 3 * m ! x]"
    and "twiddle1x x m = twiddle1 x x m" "twiddle2x x m = twiddle2 x x m"
    and "multipointers x y m = (if x = y then m[x := 2000] else m[x := 1000, y := 6000])"
  using assms by (auto simp: twiddle1_def twiddle2_def twiddle1x_def twiddle2x_def multipointers_def Let_def nth_list_update list_update_swap add_ac)

text \<open>The part from \<open>f\<close> to \<open>l\<close> of an array reversed.\<close>

definition rev_part :: "int \<Rightarrow> int \<Rightarrow> 'a list \<Rightarrow> 'a list" where
  "rev_part f l a = map (\<lambda>j. if f \<le> int j \<and> int j \<le> l then a ! nat (f + l - int j) else a ! j) [0..<length a]"

lemma length_rev_part [simp]: "length (rev_part f l a) = length a"
  by (simp add: rev_part_def)

lemma rev_part_nth: "j < length a \<Longrightarrow> rev_part f l a ! j = (if f \<le> int j \<and> int j \<le> l then a ! nat (f + l - int j) else a ! j)"
  by (simp add: rev_part_def)

lemma rev_part_step:
  assumes "0 \<le> f" "f < l" "nat l < length a"
  shows "rev_part (f + 1) (l - 1) (a[nat f := a ! nat l, nat l := a ! nat f]) = rev_part f l a" (is "?r = _")
proof (rule nth_equalityI)
  fix j assume "j < length ?r"
  then have j: "j < length a" by simp
  have e: "?r ! j = (if f + 1 \<le> int j \<and> int j \<le> l - 1 then a[nat f := a ! nat l, nat l := a ! nat f] ! nat (f + l - int j)
      else a[nat f := a ! nat l, nat l := a ! nat f] ! j)"
    using j by (simp add: rev_part_nth)
  have n: "nat f \<noteq> nat l" "nat f < length a" using assms by auto
  consider "j = nat f" | "j = nat l" | "f < int j" "int j < l" | "int j < f" | "l < int j" using assms by linarith
  then show "?r ! j = rev_part f l a ! j"
  proof cases
    case 3
    then have k: "nat (f + l - int j) \<noteq> nat f" "nat (f + l - int j) \<noteq> nat l" using assms by auto
    show ?thesis using 3 k j unfolding e by (simp add: rev_part_nth)
  qed (use assms n j in \<open>auto simp: e rev_part_nth\<close>)
qed simp

lemma rev_part_single: "l \<le> f \<Longrightarrow> rev_part f l a = a"
proof (rule nth_equalityI)
  fix j assume "l \<le> f" "j < length (rev_part f l a)"
  then show "rev_part f l a ! j = a ! j" by (cases "f = int j \<and> l = int j") (auto simp: rev_part_nth)
qed simp

lemma fix_reverse_loop_spec:
  "0 \<le> f \<Longrightarrow> l < int (length a) \<Longrightarrow> fix_reverse_loop f l a = Done (rev_part f l a)"
proof (induction f l a rule: fix_reverse_loop.induct)
  case (1 f l a)
  show ?case
  proof (cases "f < l")
    case True
    let ?a = "a[nat f := a ! nat l, nat l := a ! nat f]"
    have n: "nat l < length a" "nat f < length a" "nat f \<noteq> nat l" using True 1(2,3) by auto
    have sw: "inplace_swap (nat f) (nat l) a = ?a" using n by (subst inplace_swap_spec) auto
    have "fix_reverse_loop f l a = fix_reverse_loop (f + 1) (l - 1) ?a"
      using True 1(2) n by (subst fix_reverse_loop.simps) (simp add: sw)
    also have "\<dots> = Done (rev_part (f + 1) (l - 1) ?a)" using 1(1)[unfolded sw, OF True] 1(2,3) n by simp
    also have "rev_part (f + 1) (l - 1) ?a = rev_part f l a" by (rule rev_part_step[OF 1(2) True n(1)])
    finally show ?thesis .
  qed (use 1 in \<open>subst fix_reverse_loop.simps, simp add: rev_part_single\<close>)
qed

lemma reverse_loop_spec:
  "0 \<le> f \<Longrightarrow> l < int (length a) \<Longrightarrow>
   reverse_loop f l a = Done (if f \<le> l \<and> even (f + l) then (rev_part f l a)[nat ((f + l) div 2) := 0] else rev_part f l a)"
proof (induction f l a rule: reverse_loop.induct)
  case (1 f l a)
  consider "l < f" | "f = l" | "f < l" by linarith
  then show ?case
  proof cases
    case 1
    then show ?thesis by (subst reverse_loop.simps) (simp add: rev_part_single)
  next
    case 2
    then have n: "nat f < length a" using 1(2,3) by auto
    then have "reverse_loop f l a = reverse_loop (f + 1) (l - 1) (a[nat f := 0])"
      using 2 1(2) by (subst reverse_loop.simps) (simp add: inplace_swap_spec)
    also have "\<dots> = Done (a[nat f := 0])" using 2 by (subst reverse_loop.simps) simp
    finally show ?thesis using 2 by (simp add: rev_part_single)
  next
    case 3
    let ?a = "a[nat f := a ! nat l, nat l := a ! nat f]"
    have n: "nat l < length a" "nat f < length a" "nat f \<noteq> nat l" using 3 1(2,3) by auto
    have sw: "inplace_swap (nat f) (nat l) a = ?a" using n by (subst inplace_swap_spec) auto
    have "reverse_loop f l a = reverse_loop (f + 1) (l - 1) ?a"
      using 3 1(2) n by (subst reverse_loop.simps) (simp add: sw)
    also have "\<dots> = Done (if f + 1 \<le> l - 1 \<and> even (f + 1 + (l - 1)) then (rev_part (f + 1) (l - 1) ?a)[nat ((f + 1 + (l - 1)) div 2) := 0]
        else rev_part (f + 1) (l - 1) ?a)"
      using 1(1)[unfolded sw] 3 1(2,3) n by simp
    also have "rev_part (f + 1) (l - 1) ?a = rev_part f l a" by (rule rev_part_step[OF 1(2) 3 n(1)])
    also have "f + 1 \<le> l - 1 \<and> even (f + 1 + (l - 1)) \<longleftrightarrow> f \<le> l \<and> even (f + l)"
      using 3 by (cases "l = f + 1") auto
    finally show ?thesis by simp
  qed
qed

lemma rev_part_all: "0 \<le> cnt \<Longrightarrow> cnt \<le> int (length a) \<Longrightarrow> rev_part 0 (cnt - 1) a = rev (take (nat cnt) a) @ drop (nat cnt) a"
  by (rule nth_equalityI) (auto simp: rev_part_def nth_append rev_nth nat_diff_distrib intro!: arg_cong[of _ _ "(!) a"])

text \<open>
  \<open>inplace_swap\<close> and \<open>swap\<close> exchange two different objects and set an object to 0 that is
  exchanged with itself; so \<open>fix_reverse_array\<close> reverses the first \<open>cnt\<close> elements, and
  \<open>reverse_array\<close>, whose loop goes on to the middle, does so for an even count and sets the middle
  element to 0 for an odd one.
\<close>

theorem reversals:
  assumes "x < length m" and "y < length m" and "0 \<le> cnt" and "cnt \<le> int (length a)"
  shows "swap x y m = (if x = y then m[x := 0] else m[x := m ! y, y := m ! x]) \<and>
    fix_reverse_array a cnt = Done (rev (take (nat cnt) a) @ drop (nat cnt) a) \<and>
    reverse_array a cnt =
     Done (if even cnt then rev (take (nat cnt) a) @ drop (nat cnt) a
           else (rev (take (nat cnt) a) @ drop (nat cnt) a)[nat (cnt div 2) := 0])"
proof -
  have "(cnt - 1) div 2 = cnt div 2" if "odd cnt" using that by (auto elim: oddE)
  moreover have "0 < cnt" if "odd cnt" using that assms(3) by (cases "cnt = 0") auto
  ultimately show ?thesis using swap_spec(1)[OF assms(1,2)] fix_reverse_loop_spec[of 0 "cnt - 1" a] reverse_loop_spec[of 0 "cnt - 1" a] assms(3,4)
    by (auto simp: fix_reverse_array_def reverse_array_def rev_part_all)
qed

theorem reversals_witness:
  "swap 0 1 [5, 6] = [6, 5] \<and> fix_reverse_array [1, 2, 3] 3 = Done [3, 2, 1] \<and> reverse_array [1, 2, 3] 3 = Done [3, 0, 1]"
  using reversals[of 0 "[5, 6]" 1 3 "[1, 2, 3]"] by simp

section \<open>The bytes shown\<close>

lemma hex_digit_inj: "d < 16 \<Longrightarrow> e < 16 \<Longrightarrow> hex_digit d = hex_digit e \<Longrightarrow> d = e"
  unfolding hex_digit_def by (subst (asm) nth_eq_iff_index_eq) simp_all

lemma print_byte_inj: "b < 256 \<Longrightarrow> c < 256 \<Longrightarrow> print_byte b = print_byte c \<Longrightarrow> b = c"
proof -
  assume "b < 256" "c < 256" "print_byte b = print_byte c"
  then have "b div 16 = c div 16" "b mod 16 = c mod 16" unfolding print_byte_def by (auto intro!: hex_digit_inj)
  then show "b = c" by (metis div_mult_mod_eq)
qed

text \<open>What \<open>show_int\<close> prints determines the number.\<close>

lemma show_int_determines: "show_int x = show_int y \<Longrightarrow> x = y"
proof -
  let ?b = "\<lambda>x i. unat (x :: int32) div 256 ^ i mod 256"
  have shown: "show_int x = print_byte (?b x 0) @ print_byte (?b x 1) @ print_byte (?b x 2) @ print_byte (?b x 3) @ [CHR 0x0A]" for x
    by (simp add: show_int_def show_bytes_def object_bytes_def for_loop_step upt_rec)
  have whole: "unat x = ?b x 0 + 256 * ?b x 1 + 65536 * ?b x 2 + 16777216 * ?b x 3" for x
  proof -
    let ?n = "unat x"
    have "?n < 2 ^ 32" using unsigned_less[of x, where ?'a = nat] by simp
    then have top: "?n div 16777216 mod 256 = ?n div 16777216" by simp
    have "?n div 65536 = ?n div 256 div 256" "?n div 16777216 = ?n div 65536 div 256" by (simp_all add: div_mult2_eq[symmetric])
    then have "?n div 65536 = 256 * (?n div 16777216) + ?n div 65536 mod 256" "?n div 256 = 256 * (?n div 65536) + ?n div 256 mod 256"
        "?n = 256 * (?n div 256) + ?n mod 256"
      by simp_all
    then have "?n = ?n mod 256 + 256 * (?n div 256 mod 256) + 65536 * (?n div 65536 mod 256) + 16777216 * (?n div 16777216 mod 256)"
      unfolding top by linarith
    then show ?thesis using top by simp
  qed
  assume eq: "show_int x = show_int y"
  have len: "length (print_byte b) = 3" for b by (simp add: print_byte_def)
  have "print_byte (?b x 0) = print_byte (?b y 0) \<and> print_byte (?b x 1) = print_byte (?b y 1) \<and>
      print_byte (?b x 2) = print_byte (?b y 2) \<and> print_byte (?b x 3) = print_byte (?b y 3)"
    using eq unfolding shown by (simp only: append_eq_append_conv len simp_thms)
  then have "?b x 0 = ?b y 0 \<and> ?b x 1 = ?b y 1 \<and> ?b x 2 = ?b y 2 \<and> ?b x 3 = ?b y 3"
    by (intro conjI print_byte_inj) simp_all
  then have "unat x = unat y" by (subst whole[of x], subst whole[of y]) (simp only:)
  then show "x = y" by (simp add: word_unat_eq_iff)
qed

end
