(* ===== verification/Spec2Isabelle.thy ===== *)
theory Spec2Isabelle
  imports CsimLRU DriverUtil TraceFile BitsFloat Trans SeglistSpec TshShell CombineSpec SbufSpec Rw Rw3 Counters EchoSpec ProxySpec TinySpec Tokens Matmult ListOps BestLoops OptLoops IntExamples Pitfalls
begin

text \<open>
  A verification development for the C programs of this repository: the solutions of the
  CSAPP labs under \<open>labs/\<close> and programs of the textbook under \<open>csapp-master/\<close>. Paths below
  are relative to \<open>src/\<close>.

  Conventions. A C struct is a record, a function of the source is a definition of the same
  name that takes the state it reads and returns the state it leaves. \<open>int\<close> and \<open>unsigned\<close> are
  32-bit words and pointers are natural numbers wherever wrap-around or addresses matter, and
  \<open>int\<close> or \<open>nat\<close> where the lemmas bound the values; \<open>'a outcome\<close> (theory \<open>Prelude\<close>) is the result
  of code that can be stopped by a bad access. A loop that may not end is a
  \<open>partial_function (option)\<close>, so that not returning is \<open>None\<close>; no definition uses fuel. What
  the programs take from outside (system calls, uninitialised memory, the results of
  \<open>malloc\<close> in \<open>vec.c\<close>) is an argument of the definitions.

  Shared theories. \<open>Prelude\<close>: C types, truth values, loops over an index. \<open>CString\<close>: C strings and
  the library functions used on them. \<open>Memlib\<close>: the simulated memory of the malloc lab,
  \<open>csapp-master/vm/malloc/memlib.c\<close>, and its 32-bit loads and stores. \<open>Steps\<close>: reachable states of
  programs with threads (the locale \<open>transition_system\<close>) and semaphores. \<open>Rio\<close>, \<open>RioSpec\<close>: the
  robust I/O package of \<open>labs/proxylab-handout/csapp.c\<close>; a descriptor is the list of results
  the kernel has in store, the locales \<open>byte_source\<close> and \<open>full_source\<close> are what \<open>rio_read\<close>,
  \<open>rio_readnb\<close> and \<open>rio_readn\<close> promise, and \<open>rio_readlineb\<close> delivers the lines of the byte stream.

  The implicit-list allocator, \<open>csapp-master/vm/malloc/mm.c\<close>. \<open>Implicit\<close> holds the code over the
  memory of \<open>Memlib\<close>; \<open>ImplicitHeap\<close> relates memory to a list of blocks with boundary tags;
  \<open>ImplicitCorrect\<close> and \<open>ImplicitMalloc\<close> show what each operation does to that list and that the
  invariant is kept; \<open>ImplicitContract\<close> and \<open>ImplicitSpec\<close> state the contract of an allocator
  (fresh, aligned, disjoint blocks, payloads untouched, NULL exactly when there is no room),
  termination of the first-fit search, and the request sizes that wrap around.

  The segregated-list allocator, \<open>labs/malloclab-handout/mm.c\<close>. \<open>Seglist\<close> holds the code, every
  operation and the checker; \<open>SeglistLists\<close> shows that the free lists are sorted doubly linked
  lists which insertion and removal keep, the size classes and roundings, and where
  \<open>mm_realloc\<close> and \<open>mm_check\<close> depart from their comments. \<open>SeglistHeap\<close> relates memory to a list of
  blocks with tags and to the free lists that hold exactly the free ones; \<open>SeglistFree\<close> (lists,
  best-fit search), \<open>SeglistCorrect\<close> (merging, splitting), \<open>SeglistContract\<close> (\<open>mm_free\<close>),
  \<open>SeglistMalloc\<close> (\<open>mm_malloc\<close>, \<open>mm_init\<close>) and \<open>SeglistRealloc\<close> follow the operations on that view;
  \<open>SeglistSpec\<close> states the contract, for requests of up to \<open>2 ^ 32 - 16\<close> bytes (\<open>2 ^ 28\<close> for
  \<open>mm_realloc\<close>), beyond which sizes wrap.

  Both allocators are interpretations of the locale \<open>allocator\<close> of \<open>AllocSpec\<close>, which derives from
  the contracts of \<open>mm_malloc\<close> and \<open>mm_free\<close> what a client sees: over any sequence of requests,
  releases and writes its blocks stay disjoint and keep the bytes it wrote.

  The driver, \<open>csapp-master/vm/malloc/mdriver.c\<close>, linked with the textbook allocator. \<open>Driver\<close> holds
  the range list, the random payloads and the runs over a trace; \<open>DriverHeap\<close> has the facts on
  payloads, ranges and the growth of the heap. \<open>DriverSpec\<close> shows that on every legal trace the
  correctness run agrees with the contract of the allocator, so that it can complain only of a
  heap that is too small, and \<open>DriverUtil\<close> that the utilisation run computes the trace's peak. \<open>TraceFile\<close> reads trace
  files and shows that it gets back what was written to one.
  Sizes and totals stay below \<open>2 ^ 31\<close> because the arena has \<open>MAX_HEAP\<close> bytes.

  The cache simulator, \<open>labs/cachelab-handout/csim.c\<close>. \<open>Csim\<close>: an access hits exactly when the
  line is resident, the counters add up over a trace. \<open>CsimLRU\<close>: the locale \<open>lru_set\<close> and the
  associativities for which the replacement is least-recently-used.

  The transposes, \<open>labs/cachelab-handout/trans.c\<close>: \<open>Trans\<close> shows that the registered functions
  compute the transpose.

  The data lab, \<open>labs/data/bits.c\<close>: \<open>Bits\<close> and \<open>BitsFloat\<close> compare every puzzle with the
  test function of \<open>tests.c\<close> and the floating-point ones with the value a word stands for.

  The shell, \<open>labs/shlab-handout/tsh.c\<close>. \<open>Tsh\<close> holds the code; \<open>TshJobs\<close> shows that the job
  list is a table keyed by process id (locale \<open>keyed_table\<close>) and that every handler and
  command keeps it well formed, and on which arguments a built-in command follows a bad pointer;
  \<open>TshShell\<close> has the parser as the inverse of writing a command line within its two arrays, and the
  places where the handlers and \<open>eval\<close>, whose outcome no command line changes, do not do what they mean to.

  The combining functions, \<open>csapp-master/opt/combine.c\<close> with \<open>vec.c\<close>. \<open>CombineLoops\<close>: vectors,
  memory, loops; \<open>Combine\<close>: the functions that keep the order; \<open>CombineAcc\<close>, \<open>CombineAssoc\<close>,
  \<open>CombineSimd\<close>: several accumulators, regrouping, vector instructions. \<open>CombineSpec\<close>: all
  registered functions agree with the one they are checked against when the operator may be
  regrouped (locale \<open>comm_ops\<close>, interpreted for wrapping sums and products).

  Threads, \<open>csapp-master/conc\<close>. \<open>Sbuf\<close>, \<open>SbufSpec\<close>: the bounded buffer of \<open>sbuf.c\<close> is a FIFO queue
  under every interleaving of any number of threads and does not deadlock, for fewer than
  \<open>2 ^ 31 - 1\<close> insertions. \<open>Rw\<close>, \<open>Rw3\<close>: mutual exclusion of the readers-writers solutions, and progress
  of the third. \<open>Counters\<close>: the counters of \<open>goodcnt.c\<close> and \<open>badcnt.c\<close> and the sum of \<open>psum-mutex.c\<close>, where
  loading, adding and storing are steps of their own.

  The echo server, \<open>csapp-master/conc/echoservers.c\<close>. \<open>Echo\<close> holds the pool and one turn of the server's
  loop over the buffered reader of \<open>Rio\<close>; \<open>EchoSpec\<close> sees the pool as a set of clients, shows what a turn
  does to it and what each client gets back, and that input after the first line of a read is lost.

  The proxy, \<open>labs/proxylab-handout/proxy.c\<close>. \<open>Proxy\<close> holds the code of one request over the
  buffered reader of \<open>Rio\<close>; \<open>ProxyCache\<close> shows that a cache at rest is the list of the ten most
  recent responses, and \<open>ProxyLock\<close> that after a hit no further requests,
  run one after the other, release the lock or return from an update of the cache; \<open>ProxySpec\<close> has the
  splitting of a URI, the complete effect of a request that misses, and the two requests
  that never end. Stamps and counters of the proxy are unbounded integers: they stay within
  \<open>int\<close> for fewer than \<open>2 ^ 31\<close> requests.

  The word-frequency program, \<open>csapp-master/opt/dictionary.c\<close>: \<open>Dictionary\<close> shows that the table
  counts every word whichever iterative way of finding an element is used (locale
  \<open>word_finder\<close>, interpreted for both), that the sorted list is complete, and what the recursive
  way does. \<open>Tokens\<close> reads words and n-grams from a file, through \<open>fgets\<close>, \<open>strtok\<close> and the ring of recent
  words, and shows what \<open>word_freq\<close> lists for a text. The matrix products of \<open>csapp-master/mem/matmult\<close>: \<open>Matmult\<close> shows, for any arithmetic
  of \<open>double\<close> and so with its rounding, that the loop orders and the blocked versions add the same terms in
  the same order, by a calculus of loops that add to an array; sizes above \<open>MAXN\<close> go past the end of the arrays. The
  counters of \<open>dictionary.c\<close> do not wrap here, as for texts of fewer than \<open>2 ^ 31\<close> words.

  The web server, \<open>labs/proxylab-handout/tiny/tiny.c\<close>. \<open>Tiny\<close> holds its functions over the buffered
  reader of \<open>Rio\<close>; files and CGI programs are arguments. \<open>TinySpec\<close> shows which page every
  complete request gets, and the requests after which the server exits, overruns a buffer or
  never answers again.

  Programs measured in \<open>csapp-master/opt\<close>. \<open>ListOps\<close>: the linked lists of \<open>list.c\<close> over a store of
  elements. \<open>SortLoops\<close>: \<open>bubble.c\<close> and \<open>merge.c\<close> against sorting. \<open>BestLoops\<close>: \<open>cond-eg.c\<close> and \<open>best.c\<close>
  against minimum and maximum. \<open>OptLoops\<close>: the loops of \<open>copy.c\<close> and \<open>fact.c\<close> against the plain ones,
  \<open>lower.c\<close> and \<open>func.c\<close>.

  Examples of \<open>csapp-master/data\<close>. \<open>IntExamples\<close>: tests for overflow, division by shifts, bit
  functions, each against the integers the words stand for. \<open>Pitfalls\<close>: sizes that wrap
  (\<open>vulnerabilities.c\<close>, \<open>bad-sum.c\<close>, \<open>strlonger.c\<close>), pointers to the same place (\<open>inplace-swap.c\<close>, and
  \<open>swap.c\<close>, \<open>twiddle.c\<close> of \<open>opt\<close>) and \<open>show-bytes.c\<close>.

  Not modelled. The measured copies of \<open>combine.c\<close> (\<open>dpb.c\<close>, \<open>fpb-O1.c\<close> and others) repeat
  functions modelled here. Timing code, test drivers and trace generators depend on the
  machine or only call the solutions. The bomb and attack labs are binaries. The wrappers of
  \<open>csapp.c\<close> around system calls only add an exit on error. The threads of the proxy are modelled
  one at a time. The older solutions under \<open>arc/\<close> repeat the labs. The options of the dictionary program are arguments. Of \<open>mdriver.c\<close> the options, the
  timing and the runs over the C library are left out, as are the short programs of \<open>asm\<close>, \<open>ecf\<close>, \<open>io\<close>, \<open>link\<close> and \<open>netp\<close> that only
  print or call the system, and the measured copies of the memory benchmarks.
\<close>

end
